(* ===== verification/Prelude.thy ===== *)
theory Prelude
  imports Main "HOL-Library.Monad_Syntax"
begin

text \<open>
  What the components share: the collections of lemmas the proofs draw on, the types of effectful
  Go functions, the width of \<open>int\<close>, and a few facts about lists and options that the library
  does not have in the form needed here.

  A Go function value \<open>func(A) B\<close> may read and write anything it captured.  It is modelled as a
  function from the argument and the state it works on to the result and the new state;
  \<open>None\<close> says that the call does not return.  The state type is a parameter everywhere.
\<close>

named_theorems seq_simps \<open>equations that turn a push sequence into the list it yields\<close>
named_theorems inv_intros \<open>preservation of a component's invariant by its operations\<close>
named_theorems abs_simps \<open>what an operation does to the abstract value of a component\<close>

type_synonym ('a, 'b, 's) op = "'a \<Rightarrow> 's \<Rightarrow> ('b \<times> 's) option"
type_synonym ('b, 's) thunk = "'s \<Rightarrow> ('b \<times> 's) option"

text \<open>A function object without effects.\<close>

definition pureop :: "('a \<Rightarrow> 'b) \<Rightarrow> ('a, 'b, 's) op" where
  "pureop f a s = Some (f a, s)"

lemma pureop_apply [simp]: "pureop f a s = Some (f a, s)"
  by (simp add: pureop_def)

text \<open>A function object that runs beside local variables it does not touch.\<close>

definition lift_op :: "('a, 'b, 's) op \<Rightarrow> ('a, 'b, 's \<times> 'l) op" where
  "lift_op f a sl = (case sl of (s, l) \<Rightarrow> do { (b, s') \<leftarrow> f a s; Some (b, (s', l)) })"

lemma lift_op_apply [simp]:
  "lift_op f a (s, l) = do { (b, s') \<leftarrow> f a s; Some (b, (s', l)) }"
  by (simp add: lift_op_def)

subsection \<open>Machine integers\<close>

text \<open>
  The type \<open>int\<close> of Go has 64 bits on the platforms the code is built for and wraps around.
  Arithmetic that can reach the bounds is written with \<open>wrap64\<close>; lengths and counters of values
  held in memory stay far below them and are plain numbers.
\<close>

definition maxInt :: int where "maxInt = 9223372036854775807"
definition minInt :: int where "minInt = - 9223372036854775808"

definition wrap64 :: "int \<Rightarrow> int" where
  "wrap64 i = (i + 9223372036854775808) mod 18446744073709551616 - 9223372036854775808"

lemma wrap64_id [simp]: "minInt \<le> i \<Longrightarrow> i \<le> maxInt \<Longrightarrow> wrap64 i = i"
  by (simp add: wrap64_def minInt_def maxInt_def)

lemma wrap64_bounds: "minInt \<le> wrap64 i \<and> wrap64 i \<le> maxInt"
  by (simp add: wrap64_def minInt_def maxInt_def)

lemma wrap64_maxInt: "wrap64 (maxInt + 1) = minInt"
  by (simp add: wrap64_def minInt_def maxInt_def)

text \<open>Go division and remainder truncate towards zero.\<close>

definition quot :: "int \<Rightarrow> int \<Rightarrow> int" where
  "quot a b = sgn a * sgn b * (\<bar>a\<bar> div \<bar>b\<bar>)"

definition remd :: "int \<Rightarrow> int \<Rightarrow> int" where
  "remd a b = sgn a * (\<bar>a\<bar> mod \<bar>b\<bar>)"

lemma remd_nonneg [simp]: "0 \<le> a \<Longrightarrow> 0 < b \<Longrightarrow> remd a b = a mod b"
  by (cases "a = 0") (simp_all add: remd_def)

lemma quot_nonneg [simp]: "0 \<le> a \<Longrightarrow> 0 < b \<Longrightarrow> quot a b = a div b"
  by (cases "a = 0") (simp_all add: quot_def)

subsection \<open>Results that can be a panic\<close>

datatype 'e outcome = Panic string | Done 'e

fun on_done :: "'a outcome \<Rightarrow> ('a \<Rightarrow> 'b outcome) \<Rightarrow> 'b outcome" where
  "on_done (Panic m) f = Panic m"
| "on_done (Done a) f = f a"

lemma on_done_eq_Done [simp]: "on_done r f = Done b \<longleftrightarrow> (\<exists>a. r = Done a \<and> f a = Done b)"
  by (cases r) auto

text \<open>Following a pointer.\<close>

definition on_ptr :: "'p option \<Rightarrow> ('p \<Rightarrow> 'b outcome) \<Rightarrow> 'b outcome" where
  "on_ptr p f = (case p of None \<Rightarrow> Panic ''nil pointer dereference'' | Some a \<Rightarrow> f a)"

lemma on_ptr_Some [simp]: "on_ptr (Some a) f = f a"
  by (simp add: on_ptr_def)

subsection \<open>Lists and options\<close>

lemma bind_Some_iff: "Option.bind m f = Some b \<longleftrightarrow> (\<exists>a. m = Some a \<and> f a = Some b)"
  by (cases m) auto

lemma map_option_bind: "map_option f (Option.bind m g) = Option.bind m (\<lambda>a. map_option f (g a))"
  by (cases m) auto

lemma takeWhile_eq_if: "takeWhile P (x # xs) = (if P x then x # takeWhile P xs else [])"
  by simp

lemma upto_step: "i \<le> j \<Longrightarrow> [i..j] = i # [i + 1..j]"
  by (rule upto_rec1)

lemma hd_take_Suc: "xs \<noteq> [] \<Longrightarrow> take (Suc n) xs = hd xs # take n (tl xs)"
  by (cases xs) auto

end
