(* ===== verification/IrtSeq.thy ===== *)
theory IrtSeq
  imports Prelude
begin

text \<open>
  Push sequences: the type \<open>iter.Seq\<close> of the Go library, the sources of \<open>src/irt/irt.go\<close> that make
  one and the functions that drain one into a slice.

  A value of type \<open>iter.Seq[T]\<close> is a function that is given the loop body \<open>yield\<close> and calls it
  once per element until it returns false.  The model keeps that: a sequence is a function from
  \<open>yield\<close> and a state to the final state, and \<open>None\<close> says that the iteration does not end.  A
  \<^theory_text>\<open>for ... range\<close> loop whose body uses local variables runs the sequence on the state paired with
  these variables, so a combinator takes its input sequence at the wider state type and returns a
  sequence at the narrow one.  An \<open>iter.Seq2\<close> is a sequence of pairs.

  The abstraction is the list of elements: \<open>yields q xs\<close> says that running \<open>q\<close> is, for every loop
  body and every state, the loop over the list \<open>xs\<close>.
\<close>

type_synonym ('a, 's) yield = "('a, bool, 's) op"
type_synonym ('a, 's) seq = "('a, 's) yield \<Rightarrow> 's \<Rightarrow> 's option"

subsection \<open>The loop over a list and what a sequence yields\<close>

fun emit :: "'a list \<Rightarrow> ('a, 's) yield \<Rightarrow> 's \<Rightarrow> (bool \<times> 's) option" where
  "emit [] yield s = Some (True, s)"
| "emit (x # xs) yield s =
     do { (ok, s') \<leftarrow> yield x s; if ok then emit xs yield s' else Some (False, s') }"

definition yields :: "('a, 's) seq \<Rightarrow> 'a list \<Rightarrow> bool" where
  "yields q xs \<longleftrightarrow> (\<forall>yield s. q yield s = map_option snd (emit xs yield s))"

lemma yieldsI: "(\<And>yield s. q yield s = map_option snd (emit xs yield s)) \<Longrightarrow> yields q xs"
  by (simp add: yields_def)

lemma yieldsD: "yields q xs \<Longrightarrow> q yield s = map_option snd (emit xs yield s)"
  by (simp add: yields_def)

lemma emit_append:
  "emit (xs @ ys) yield s =
     do { (ok, s') \<leftarrow> emit xs yield s; if ok then emit ys yield s' else Some (False, s') }"
  by (induction xs arbitrary: s) (auto split: Option.bind_splits)

text \<open>
  A loop body that, for each element, either goes on or stops without a call of the outer
  \<open>yield\<close>, or passes one value to it and then goes on or stops.  \<open>'l\<close> is the type of the local
  variables of the loop.  \<open>transduce\<close> is the list of the values that are passed on.
\<close>

datatype ('b, 'l) act = Skip bool 'l | Out 'b bool 'l

fun transduce :: "('a \<Rightarrow> 'l \<Rightarrow> ('b, 'l) act) \<Rightarrow> 'l \<Rightarrow> 'a list \<Rightarrow> 'b list" where
  "transduce f l [] = []"
| "transduce f l (x # xs) =
     (case f x l of
        Skip c l' \<Rightarrow> if c then transduce f l' xs else []
      | Out b c l' \<Rightarrow> b # (if c then transduce f l' xs else []))"

definition acts :: "('a \<Rightarrow> 's \<times> 'l \<Rightarrow> (bool \<times> 's \<times> 'l) option) \<Rightarrow> ('a \<Rightarrow> 'l \<Rightarrow> ('b, 'l) act) \<Rightarrow>
    ('b, 's) yield \<Rightarrow> bool" where
  "acts body f yield \<longleftrightarrow>
     (\<forall>x s l.
       (case f x l of
          Skip c l' \<Rightarrow> body x (s, l) = Some (c, (s, l'))
        | Out b c l' \<Rightarrow>
            (case yield b s of
               None \<Rightarrow> body x (s, l) = None
             | Some (ok, s') \<Rightarrow>
                 (\<exists>l2. body x (s, l) = Some (ok \<and> c, (s', l2)) \<and> (ok \<and> c \<longrightarrow> l2 = l')))))"

lemma emit_acts:
  assumes "acts body f yield"
  shows "map_option (\<lambda>r. fst (snd r)) (emit xs body (s, l)) = map_option snd (emit (transduce f l xs) yield s)"
proof (induction xs arbitrary: s l)
  case Nil
  show ?case by simp
next
  case (Cons x xs)
  have a: "case f x l of
          Skip c l' \<Rightarrow> body x (s, l) = Some (c, (s, l'))
        | Out b c l' \<Rightarrow>
            (case yield b s of
               None \<Rightarrow> body x (s, l) = None
             | Some (ok, s') \<Rightarrow>
                 (\<exists>l2. body x (s, l) = Some (ok \<and> c, (s', l2)) \<and> (ok \<and> c \<longrightarrow> l2 = l')))"
    using assms unfolding acts_def by blast
  show ?case
  proof (cases "f x l")
    case (Skip c l')
    with a Cons.IH show ?thesis by simp
  next
    case (Out b c l')
    show ?thesis
    proof (cases "yield b s")
      case None
      with a Out show ?thesis by simp
    next
      case (Some r)
      obtain ok s' where r: "r = (ok, s')" by (cases r)
      from a Out Some r obtain l2 where
        "body x (s, l) = Some (ok \<and> c, (s', l2))" "ok \<and> c \<longrightarrow> l2 = l'"
        by auto
      with Out Some r Cons.IH show ?thesis by (cases "ok \<and> c") auto
    qed
  qed
qed

text \<open>The same for a loop without local variables.\<close>

definition acts0 :: "('a, 's) yield \<Rightarrow> ('a \<Rightarrow> ('b, unit) act) \<Rightarrow> ('b, 's) yield \<Rightarrow> bool" where
  "acts0 body f yield \<longleftrightarrow>
     (\<forall>x s. body x s =
       (case f x of
          Skip c _ \<Rightarrow> Some (c, s)
        | Out b c _ \<Rightarrow> do { (ok, s') \<leftarrow> yield b s; Some (ok \<and> c, s') }))"

lemma emit_acts0:
  assumes "acts0 body f yield"
  shows "map_option snd (emit xs body s) = map_option snd (emit (transduce (\<lambda>x _. f x) () xs) yield s)"
proof (induction xs arbitrary: s)
  case Nil
  show ?case by simp
next
  case (Cons x xs)
  have a: "body x s =
       (case f x of
          Skip c _ \<Rightarrow> Some (c, s)
        | Out b c _ \<Rightarrow> do { (ok, s') \<leftarrow> yield b s; Some (ok \<and> c, s') })"
    using assms unfolding acts0_def by blast
  show ?case
  proof (cases "f x")
    case (Skip c l')
    with a Cons.IH show ?thesis by simp
  next
    case (Out b c l')
    with a Cons.IH show ?thesis by (auto split: Option.bind_splits)
  qed
qed

lemma yields_by_acts:
  assumes q: "yields q xs"
    and d: "\<And>yield s. r yield s = map_option fst (q (body yield) (s, l))"
    and a: "\<And>yield. acts (body yield) f yield"
    and t: "transduce f l xs = ys"
  shows "yields r ys"
proof (rule yieldsI)
  fix yield s
  show "r yield s = map_option snd (emit ys yield s)"
    using emit_acts[OF a[of yield], where xs = xs and s = s and l = l] by (simp add: d yieldsD[OF q] t option.map_comp comp_def)
qed

lemma yields_by_acts0:
  assumes q: "yields q xs"
    and d: "\<And>yield s. r yield s = q (body yield) s"
    and a: "\<And>yield. acts0 (body yield) f yield"
    and t: "transduce (\<lambda>x _. f x) () xs = ys"
  shows "yields r ys"
proof (rule yieldsI)
  fix yield s
  show "r yield s = map_option snd (emit ys yield s)"
    using emit_acts0[OF a[of yield], where xs = xs and s = s] by (simp add: d yieldsD[OF q] t)
qed

lemma transduce_map: "transduce (\<lambda>x _. Out (f x) True ()) l xs = map f xs"
  by (induction xs arbitrary: l) auto

lemma transduce_map_unit: "transduce (\<lambda>x. Out (f x) True) () xs = map f xs"
  by (induction xs) auto

lemma transduce_filter: "transduce (\<lambda>x _. if p x then Out x True () else Skip True ()) l xs = filter p xs"
  by (induction xs arbitrary: l) auto

lemma transduce_takeWhile:
  "transduce (\<lambda>x _. if p x then Out x True () else Skip False ()) l xs = takeWhile p xs"
  by (induction xs arbitrary: l) auto

text \<open>Running a sequence beside local variables that only the body touches.\<close>

lemma emit_pure:
  "emit xs (\<lambda>x s. Some (True, f x s)) s = Some (True, fold f xs s)"
  by (induction xs arbitrary: s) auto

subsection \<open>Sources\<close>

definition One :: "'a \<Rightarrow> ('a, 's) seq" where
  "One v yield s = do { (_, s') \<leftarrow> yield v s; Some s' }"

definition Two :: "'a \<Rightarrow> 'b \<Rightarrow> ('a \<times> 'b, 's) seq" where
  "Two a b yield s = do { (_, s') \<leftarrow> yield (a, b) s; Some s' }"

text \<open>\<open>slices.Values\<close>: the loop over the slice.\<close>

definition Slice :: "'a list \<Rightarrow> ('a, 's) seq" where
  "Slice sl yield s = map_option snd (emit sl yield s)"

definition Args :: "'a list \<Rightarrow> ('a, 's) seq" where
  "Args items = Slice items"

definition Zero :: "('a, 's) seq" where
  "Zero _ s = Some s"

definition Zero2 :: "('a \<times> 'b, 's) seq" where
  "Zero2 _ s = Some s"

text \<open>A nil function value is \<open>None\<close>.\<close>

definition ifelsedo :: "bool \<Rightarrow> 'a \<Rightarrow> 'a \<Rightarrow> 'a" where
  "ifelsedo c t e = (if c then t else e)"

definition OrEmpty :: "('a, 's) seq option \<Rightarrow> ('a, 's) seq" where
  "OrEmpty sq = (case sq of Some q \<Rightarrow> ifelsedo True q Zero | None \<Rightarrow> ifelsedo False Zero Zero)"

definition OrEmpty2 :: "('a \<times> 'b, 's) seq option \<Rightarrow> ('a \<times> 'b, 's) seq" where
  "OrEmpty2 sq = (case sq of Some q \<Rightarrow> ifelsedo True q Zero2 | None \<Rightarrow> ifelsedo False Zero2 Zero2)"

text \<open>The counting sequences; the increment is the one of a 64-bit \<open>int\<close>.\<close>

partial_function (option) MonotonicFrom :: "int \<Rightarrow> (int, 's) seq" where
  "MonotonicFrom nxt yield s =
     do { (ok, s') \<leftarrow> yield nxt s; if ok then MonotonicFrom (wrap64 (nxt + 1)) yield s' else Some s' }"

definition Monotonic :: "(int, 's) seq" where
  "Monotonic = MonotonicFrom 1"

partial_function (option) Range :: "int \<Rightarrow> int \<Rightarrow> (int, 's) seq" where
  "Range nxt endv yield s =
     (if nxt \<le> endv then
        do { (ok, s') \<leftarrow> yield nxt s;
             if \<not> ok \<or> nxt = endv then Some s' else Range (wrap64 (nxt + 1)) endv yield s' }
      else Some s)"

text \<open>Sequences of the results of calls.  They end when \<open>yield\<close> or the generator says so.\<close>

partial_function (option) Generate :: "('a, 's) thunk \<Rightarrow> ('a, 's) seq" where
  "Generate op yield s =
     do { (x, s1) \<leftarrow> op s; (ok, s2) \<leftarrow> yield x s1; if ok then Generate op yield s2 else Some s2 }"

partial_function (option) Generate2 :: "('a \<times> 'b, 's) thunk \<Rightarrow> ('a \<times> 'b, 's) seq" where
  "Generate2 op yield s =
     do { (x, s1) \<leftarrow> op s; (ok, s2) \<leftarrow> yield x s1; if ok then Generate2 op yield s2 else Some s2 }"

partial_function (option) GenerateOk :: "('a \<times> bool, 's) thunk \<Rightarrow> ('a, 's) seq" where
  "GenerateOk gen yield s =
     do { ((val, ok), s1) \<leftarrow> gen s;
          if ok then do { (more, s2) \<leftarrow> yield val s1;
                          if more then GenerateOk gen yield s2 else Some s2 }
          else Some s1 }"

partial_function (option) GenerateOk2 :: "('a \<times> 'b \<times> bool, 's) thunk \<Rightarrow> ('a \<times> 'b, 's) seq" where
  "GenerateOk2 gen yield s =
     do { ((first, second, ok), s1) \<leftarrow> gen s;
          if ok then do { (more, s2) \<leftarrow> yield (first, second) s1;
                          if more then GenerateOk2 gen yield s2 else Some s2 }
          else Some s1 }"

function GenerateN_loop :: "int \<Rightarrow> int \<Rightarrow> ('a, 's) thunk \<Rightarrow> ('a, 's) seq" where
  "GenerateN_loop i num op yield s =
     (if i < num then
        do { (x, s1) \<leftarrow> op s; (ok, s2) \<leftarrow> yield x s1;
             if ok then GenerateN_loop (i + 1) num op yield s2 else Some s2 }
      else Some s)"
  by pat_completeness auto
termination
  by (relation "measure (\<lambda>(i, num, _, _, _). nat (num - i))") auto

declare GenerateN_loop.simps [simp del]

definition GenerateN :: "int \<Rightarrow> ('a, 's) thunk \<Rightarrow> ('a, 's) seq" where
  "GenerateN num op = GenerateN_loop 0 num op"

subsection \<open>Draining a sequence\<close>

text \<open>\<open>slices.AppendSeq\<close>: the elements are appended to the slice.\<close>

definition AppendSeq :: "'a list \<Rightarrow> ('a, 's \<times> 'a list) seq \<Rightarrow> 's \<Rightarrow> ('a list \<times> 's) option" where
  "AppendSeq sl q s =
     do { (s', out) \<leftarrow> q (\<lambda>v (s, out). Some (True, (s, out @ [v]))) (s, sl); Some (out, s') }"

definition isWithin :: "int \<Rightarrow> int \<Rightarrow> bool" where
  "isWithin index len = (index \<ge> 0 \<and> index < len)"

definition idxok :: "'a \<Rightarrow> 'a list \<Rightarrow> int \<Rightarrow> 'a \<times> bool" where
  "idxok zero sl i = (if isWithin i (int (length sl)) then (sl ! nat i, True) else (zero, False))"

definition idxorz :: "'a \<Rightarrow> 'a list \<Rightarrow> int \<Rightarrow> 'a" where
  "idxorz zero sl i = fst (idxok zero sl i)"

text \<open>
  \<open>Collect\<close> makes the slice and drains the sequence into it.  The optional arguments only choose
  the capacity, but their check can panic, and so can \<open>make\<close> on a negative capacity.
\<close>

definition make_cap :: "int \<Rightarrow> ('a list) outcome" where
  "make_cap n = (if n < 0 then Panic ''makeslice: cap out of range'' else Done [])"

definition collect_slice :: "int list \<Rightarrow> ('a list) outcome" where
  "collect_slice args =
     (case args of
        [] \<Rightarrow> Done []
      | [_] \<Rightarrow> make_cap (idxorz 0 args 0)
      | [_, _] \<Rightarrow>
          (let a = idxorz 0 args 0; b = idxorz 0 args 1
           in if a \<noteq> 0 \<and> b \<noteq> 0 then Panic ''collect can have at most one non-zero argument''
              else make_cap (max (max 0 a) b))
      | _ \<Rightarrow>
          (let caps = filter (\<lambda>v. v \<noteq> 0) args
           in if length caps > 1
              then Panic ''can only specify ONE non-zero capaciy argument to Collect.''
              else make_cap (max 0 (Max (set args)))))"

definition Collect_seq :: "('a, 's \<times> 'a list) seq \<Rightarrow> int list \<Rightarrow> 's \<Rightarrow> ('a list outcome \<times> 's) option" where
  "Collect_seq q args s =
     (case collect_slice args of
        Panic m \<Rightarrow> Some (Panic m, s)
      | Done sl \<Rightarrow> do { (out, s') \<leftarrow> AppendSeq sl q s; Some (Done out, s') })"

definition CollectFirstN :: "('a, 's \<times> 'a list \<times> int) seq \<Rightarrow> int \<Rightarrow> 's \<Rightarrow> ('a list \<times> 's) option" where
  "CollectFirstN q n s =
     (if n \<le> 0 then Some ([], s)
      else do { (s', out, _) \<leftarrow>
                  q (\<lambda>v (s, out, idx).
                       if idx + 1 = n then Some (False, (s, out @ [v], idx))
                       else Some (True, (s, out @ [v], idx + 1))) (s, [], 0);
                Some (out, s') })"

text \<open>\<open>maps.Insert\<close> into a new map.\<close>

definition Collect2 :: "('k \<times> 'v, 's \<times> ('k \<rightharpoonup> 'v)) seq \<Rightarrow> 's \<Rightarrow> (('k \<rightharpoonup> 'v) \<times> 's) option" where
  "Collect2 q s =
     do { (s', mp) \<leftarrow> q (\<lambda>(k, v) (s, mp). Some (True, (s, mp(k \<mapsto> v)))) (s, Map.empty); Some (mp, s') }"

definition JoinStrings :: "(string, 's \<times> string) seq \<Rightarrow> 's \<Rightarrow> (string \<times> 's) option" where
  "JoinStrings q s =
     do { (s', buf) \<leftarrow> q (\<lambda>str (s, buf). Some (True, (s, buf @ str))) (s, []); Some (buf, s') }"

definition JoinStringsWith ::
    "(string, 's \<times> string \<times> nat) seq \<Rightarrow> string \<Rightarrow> 's \<Rightarrow> (string \<times> 's) option" where
  "JoinStringsWith q sep s =
     do { (s', buf, _) \<leftarrow>
            q (\<lambda>str (s, buf, lastSize).
                 let buf1 = (if length buf > lastSize then buf @ sep else buf)
                 in Some (True, (s, buf1 @ str, length buf1))) (s, [], 0);
          Some (buf, s') }"

end
