(* ===== verification/IrtCombine.thy ===== *)
theory IrtCombine
  imports IrtSeq
begin

text \<open>
  The combinators of \<open>src/irt/irt.go\<close> that turn one sequence into another, with the function
  helpers of \<open>src/irt/internal.go\<close> and the pairs of \<open>src/irt/kv.go\<close> they are built from.  Each
  definition is the loop of the source; the lemma that follows says which list the result yields.
\<close>

subsection \<open>Function helpers\<close>

definition first :: "'a \<times> 'b \<Rightarrow> 'a" where "first p = (case p of (a, _) \<Rightarrow> a)"
definition second :: "'a \<times> 'b \<Rightarrow> 'b" where "second p = (case p of (_, b) \<Rightarrow> b)"
definition flip :: "'a \<times> 'b \<Rightarrow> 'b \<times> 'a" where "flip p = (case p of (a, b) \<Rightarrow> (b, a))"

definition thread :: "('a, 'b, 's) op \<Rightarrow> ('b \<Rightarrow> 'c) \<Rightarrow> ('a, 'c, 's) op" where
  "thread a b v s = do { (r, s') \<leftarrow> a v s; Some (b r, s') }"

definition not_go :: "bool \<Rightarrow> bool" where "not_go b = (\<not> b)"

definition notf :: "('a, bool, 's) op \<Rightarrow> ('a, bool, 's) op" where
  "notf op = thread op not_go"

definition notf2 :: "('a \<times> 'b, bool, 's) op \<Rightarrow> ('a \<times> 'b, bool, 's) op" where
  "notf2 op = thread op not_go"

definition equalf :: "'a \<Rightarrow> 'a \<Rightarrow> bool" where "equalf rhv lhv = (lhv = rhv)"

definition isNil :: "'a option \<Rightarrow> bool" where "isNil v = (v = None)"
definition isZero :: "'a \<Rightarrow> 'a \<Rightarrow> bool" where "isZero zero v = (v = zero)"
definition isOk :: "'a \<times> bool \<Rightarrow> bool" where "isOk p = (case p of (_, ok) \<Rightarrow> ok)"
definition isError :: "'e option \<Rightarrow> bool" where "isError err = (err \<noteq> None)"
definition isError2 :: "'a \<times> 'e option \<Rightarrow> bool" where "isError2 p = (case p of (_, err) \<Rightarrow> err \<noteq> None)"
definition isSuccess2 :: "'a \<times> 'e option \<Rightarrow> bool" where "isSuccess2 p = (case p of (_, err) \<Rightarrow> err = None)"

definition derefz :: "'a \<Rightarrow> 'a option \<Rightarrow> 'a" where
  "derefz zero p = (case p of None \<Rightarrow> zero | Some v \<Rightarrow> v)"

definition ptrznil :: "'a \<Rightarrow> 'a \<Rightarrow> 'a option" where
  "ptrznil zero v = ifelsedo (isZero zero v) None (Some v)"

definition ptr :: "'a \<Rightarrow> 'a option" where "ptr v = Some v"

lemmas helper_defs = first_def second_def flip_def not_go_def notf_def notf2_def thread_def
  equalf_def isNil_def isZero_def isOk_def isError_def isError2_def isSuccess2_def ifelsedo_def

lemma notf_pureop [simp]: "notf (pureop p) = pureop (\<lambda>v. \<not> p v)"
  by (intro ext) (simp add: helper_defs)

lemma notf2_pureop [simp]: "notf2 (pureop p) = pureop (\<lambda>v. \<not> p v)"
  by (intro ext) (simp add: helper_defs)

subsection \<open>Element by element\<close>

definition Flush :: "('a, 's \<times> bool) seq \<Rightarrow> ('a, 's) yield \<Rightarrow> 's \<Rightarrow> (bool \<times> 's) option" where
  "Flush q yield s =
     do { (s', ok) \<leftarrow> q (\<lambda>value (s, r). do { (ok, s') \<leftarrow> yield value s;
                                            if \<not> ok then Some (False, (s', False))
                                            else Some (True, (s', r)) }) (s, True);
          Some (ok, s') }"

definition Flush2 :: "('a \<times> 'b, 's \<times> bool) seq \<Rightarrow> ('a \<times> 'b, 's) yield \<Rightarrow> 's \<Rightarrow> (bool \<times> 's) option" where
  "Flush2 q yield s =
     do { (s', ok) \<leftarrow> q (\<lambda>(key, value) (s, r). do { (ok, s') \<leftarrow> yield (key, value) s;
                                            if \<not> ok then Some (False, (s', False))
                                            else Some (True, (s', r)) }) (s, True);
          Some (ok, s') }"

text \<open>A call of \<open>Flush\<close> as the whole body of a sequence: its result is dropped.\<close>

definition flushed :: "('a, 's \<times> bool) seq \<Rightarrow> ('a, 's) seq" where
  "flushed q yield s = do { (_, s') \<leftarrow> Flush q yield s; Some s' }"

definition Convert :: "('a, 's) seq \<Rightarrow> ('a, 'b, 's) op \<Rightarrow> ('b, 's) seq" where
  "Convert q op yield s = q (\<lambda>value s. do { (b, s') \<leftarrow> op value s; yield b s' }) s"

definition Convert2 :: "('a \<times> 'b, 's) seq \<Rightarrow> ('a \<times> 'b, 'c \<times> 'd, 's) op \<Rightarrow> ('c \<times> 'd, 's) seq" where
  "Convert2 q op yield s = q (\<lambda>(key, value) s. do { (cd, s') \<leftarrow> op (key, value) s; yield cd s' }) s"

definition Merge :: "('a \<times> 'b, 's) seq \<Rightarrow> ('a \<times> 'b, 'c, 's) op \<Rightarrow> ('c, 's) seq" where
  "Merge q op yield s = q (\<lambda>(key, value) s. do { (c, s') \<leftarrow> op (key, value) s; yield c s' }) s"

definition Flip :: "('a \<times> 'b, 's) seq \<Rightarrow> ('b \<times> 'a, 's) seq" where
  "Flip q = Convert2 q (pureop flip)"

definition First :: "('a \<times> 'b, 's) seq \<Rightarrow> ('a, 's) seq" where "First q = Merge q (pureop first)"
definition Second :: "('a \<times> 'b, 's) seq \<Rightarrow> ('b, 's) seq" where "Second q = Merge q (pureop second)"
definition Ptrs :: "('a, 's) seq \<Rightarrow> ('a option, 's) seq" where "Ptrs q = Convert q (pureop ptr)"

definition PtrsWithNils :: "'a \<Rightarrow> ('a, 's) seq \<Rightarrow> ('a option, 's) seq" where
  "PtrsWithNils zero q = Convert q (pureop (ptrznil zero))"

definition DerefWithZeros :: "'a \<Rightarrow> ('a option, 's) seq \<Rightarrow> ('a, 's) seq" where
  "DerefWithZeros zero q = Convert q (pureop (derefz zero))"

definition With :: "('a, 's) seq \<Rightarrow> ('a, 'b, 's) op \<Rightarrow> ('a \<times> 'b, 's) seq" where
  "With q op yield s = q (\<lambda>value s. do { (b, s') \<leftarrow> op value s; yield (value, b) s' }) s"

definition With2 :: "('a, 's) seq \<Rightarrow> ('a, 'b \<times> 'c, 's) op \<Rightarrow> ('b \<times> 'c, 's) seq" where
  "With2 q op yield s = q (\<lambda>value s. do { (bc, s') \<leftarrow> op value s; yield bc s' }) s"

datatype ('a, 'b) KV = KV (Key: 'a) (Value: 'b)

definition MakeKV :: "'a \<Rightarrow> 'b \<Rightarrow> ('a, 'b) KV" where "MakeKV a b = KV a b"
definition KV_Split :: "('a, 'b) KV \<Rightarrow> 'a \<times> 'b" where "KV_Split e = (Key e, Value e)"

definition WithKV :: "'a \<Rightarrow> ('a, 'b, 's) op \<Rightarrow> 's \<Rightarrow> (('a, 'b) KV \<times> 's) option" where
  "WithKV a op s = do { (b, s') \<leftarrow> op a s; Some (MakeKV a b, s') }"

definition elemSplit :: "('a, 'b) KV \<Rightarrow> 'a \<times> 'b" where "elemSplit e = KV_Split e"

definition KVjoin :: "('a \<times> 'b, 's) seq \<Rightarrow> (('a, 'b) KV, 's) seq" where
  "KVjoin q = Merge q (pureop (\<lambda>(a, b). MakeKV a b))"

definition KVsplit :: "(('a, 'b) KV, 's) seq \<Rightarrow> ('a \<times> 'b, 's) seq" where
  "KVsplit q = With2 q (pureop elemSplit)"

definition KVargs :: "('a, 'b) KV list \<Rightarrow> ('a \<times> 'b, 's) seq" where
  "KVargs elems = KVsplit (Slice elems)"

definition With3 :: "('a, 's) seq \<Rightarrow> ('a, 'b \<times> 'c, 's) op \<Rightarrow> (('a, 'b) KV \<times> 'c, 's) seq" where
  "With3 q op yield s =
     q (\<lambda>key s. do { ((value, check), s') \<leftarrow> op key s; yield (MakeKV key value, check) s' }) s"

definition WithEach :: "('a, 's) seq \<Rightarrow> ('b, 's) thunk \<Rightarrow> ('a \<times> 'b, 's) seq" where
  "WithEach q op yield s = q (\<lambda>value s. do { (b, s') \<leftarrow> op s; yield (value, b) s' }) s"

definition ForEach :: "('a, 's) seq \<Rightarrow> ('a, unit, 's) op \<Rightarrow> ('a, 's) seq" where
  "ForEach q op yield s = q (\<lambda>value s. do { (_, s') \<leftarrow> op value s; yield value s' }) s"

definition ForEach2 :: "('a \<times> 'b, 's) seq \<Rightarrow> ('a \<times> 'b, unit, 's) op \<Rightarrow> ('a \<times> 'b, 's) seq" where
  "ForEach2 q op yield s = q (\<lambda>(key, value) s. do { (_, s') \<leftarrow> op (key, value) s; yield (key, value) s' }) s"

definition Resolve :: "(('b, 's) thunk, 's) seq \<Rightarrow> ('b, 's) seq" where
  "Resolve q yield s = q (\<lambda>operation s. do { (b, s') \<leftarrow> operation s; yield b s' }) s"

definition Resolve2 :: "(('a \<times> 'b, 's) thunk, 's) seq \<Rightarrow> ('a \<times> 'b, 's) seq" where
  "Resolve2 q yield s = q (\<lambda>operation s. do { (ab, s') \<leftarrow> operation s; yield ab s' }) s"

definition ResolveWrap :: "(('a, 'b, 's) op, 's) seq \<Rightarrow> 'a \<Rightarrow> ('b, 's) seq" where
  "ResolveWrap q wrapping yield s =
     q (\<lambda>operation s. do { (b, s') \<leftarrow> operation wrapping s; yield b s' }) s"

definition ResolveWrap2 :: "(('a, 'b \<times> 'c, 's) op, 's) seq \<Rightarrow> 'a \<Rightarrow> ('b \<times> 'c, 's) seq" where
  "ResolveWrap2 q wrapping yield s =
     q (\<lambda>operation s. do { (bc, s') \<leftarrow> operation wrapping s; yield bc s' }) s"

definition Index :: "('a, 's \<times> int) seq \<Rightarrow> (int \<times> 'a, 's) seq" where
  "Index q yield s =
     do { (s', _) \<leftarrow> q (\<lambda>value (s, idx). do { (ok, s') \<leftarrow> yield (idx, value) s;
                                             if \<not> ok then Some (False, (s', idx))
                                             else Some (True, (s', idx + 1)) }) (s, 0);
          Some s' }"

definition Index2 :: "('a \<times> 'b, 's \<times> int) seq \<Rightarrow> (int \<times> ('a, 'b) KV, 's) seq" where
  "Index2 q = Index (KVjoin q)"

subsection \<open>Choosing elements\<close>

definition Keep :: "('a, 's) seq \<Rightarrow> ('a, bool, 's) op \<Rightarrow> ('a, 's) seq" where
  "Keep q prd yield s =
     q (\<lambda>value s. do { (p, s1) \<leftarrow> prd value s;
                       if p then do { (ok, s2) \<leftarrow> yield value s1;
                                      if \<not> ok then Some (False, s2) else Some (True, s2) }
                       else Some (True, s1) }) s"

definition Keep2 :: "('a \<times> 'b, 's) seq \<Rightarrow> ('a \<times> 'b, bool, 's) op \<Rightarrow> ('a \<times> 'b, 's) seq" where
  "Keep2 q prd yield s =
     q (\<lambda>(key, value) s. do { (p, s1) \<leftarrow> prd (key, value) s;
                       if p then do { (ok, s2) \<leftarrow> yield (key, value) s1;
                                      if \<not> ok then Some (False, s2) else Some (True, s2) }
                       else Some (True, s1) }) s"

definition Remove :: "('a, 's) seq \<Rightarrow> ('a, bool, 's) op \<Rightarrow> ('a, 's) seq" where
  "Remove q prd = Keep q (notf prd)"

definition Remove2 :: "('a \<times> 'b, 's) seq \<Rightarrow> ('a \<times> 'b, bool, 's) op \<Rightarrow> ('a \<times> 'b, 's) seq" where
  "Remove2 q prd = Keep2 q (notf2 prd)"

definition RemoveValue :: "('a, 's) seq \<Rightarrow> 'a \<Rightarrow> ('a, 's) seq" where
  "RemoveValue q to = Remove q (pureop (equalf to))"

definition RemoveNils :: "('a option, 's) seq \<Rightarrow> ('a option, 's) seq" where
  "RemoveNils q = Remove q (pureop isNil)"

definition RemoveZeros :: "'a \<Rightarrow> ('a, 's) seq \<Rightarrow> ('a, 's) seq" where
  "RemoveZeros zero q = Remove q (pureop (isZero zero))"

definition RemoveErrors :: "('a \<times> 'e option, 's) seq \<Rightarrow> ('a, 's) seq" where
  "RemoveErrors q = First (Remove2 q (pureop isError2))"

definition KeepErrors :: "('e option, 's) seq \<Rightarrow> ('e option, 's) seq" where
  "KeepErrors q = Keep q (pureop isError)"

definition KeepOk :: "('a \<times> bool, 's) seq \<Rightarrow> ('a, 's) seq" where
  "KeepOk q = First (Keep2 q (pureop isOk))"

definition Deref :: "'a \<Rightarrow> ('a option, 's) seq \<Rightarrow> ('a, 's) seq" where
  "Deref zero q = Convert (RemoveNils q) (pureop (derefz zero))"

definition While :: "('a, 's) seq \<Rightarrow> ('a, bool, 's) op \<Rightarrow> ('a, 's) seq" where
  "While q prd yield s =
     q (\<lambda>value s. do { (p, s1) \<leftarrow> prd value s;
                       if p then do { (ok, s2) \<leftarrow> yield value s1;
                                      if ok then Some (True, s2) else Some (False, s2) }
                       else Some (False, s1) }) s"

definition While2 :: "('a \<times> 'b, 's) seq \<Rightarrow> ('a \<times> 'b, bool, 's) op \<Rightarrow> ('a \<times> 'b, 's) seq" where
  "While2 q prd yield s =
     q (\<lambda>(key, value) s. do { (p, s1) \<leftarrow> prd (key, value) s;
                       if p then do { (ok, s2) \<leftarrow> yield (key, value) s1;
                                      if ok then Some (True, s2) else Some (False, s2) }
                       else Some (False, s1) }) s"

definition Until :: "('a, 's) seq \<Rightarrow> ('a, bool, 's) op \<Rightarrow> ('a, 's) seq" where
  "Until q prd = While q (notf prd)"

definition Until2 :: "('a \<times> 'b, 's) seq \<Rightarrow> ('a \<times> 'b, bool, 's) op \<Rightarrow> ('a \<times> 'b, 's) seq" where
  "Until2 q prd = While2 q (notf2 prd)"

definition WhileOk :: "('a \<times> bool, 's) seq \<Rightarrow> ('a, 's) seq" where
  "WhileOk q = First (While2 q (pureop isOk))"

definition WhileSuccess :: "('a \<times> 'e option, 's) seq \<Rightarrow> ('a, 's) seq" where
  "WhileSuccess q = First (While2 q (pureop isSuccess2))"

definition UntilNil :: "'a \<Rightarrow> ('a option, 's) seq \<Rightarrow> ('a, 's) seq" where
  "UntilNil zero q = Deref zero (Until q (pureop isNil))"

definition UntilError :: "('a \<times> 'e option, 's) seq \<Rightarrow> ('a, 's) seq" where
  "UntilError q = First (Until2 q (pureop isError2))"

definition ForEachWhile :: "('a, 's) seq \<Rightarrow> ('a, bool, 's) op \<Rightarrow> ('a, 's) seq" where
  "ForEachWhile q op yield s =
     q (\<lambda>value s. do { (go, s1) \<leftarrow> op value s;
                       if \<not> go then Some (False, s1)
                       else do { (ok, s2) \<leftarrow> yield value s1;
                                 if \<not> ok then Some (False, s2) else Some (True, s2) } }) s"

definition ForEachWhile2 :: "('a \<times> 'b, 's) seq \<Rightarrow> ('a \<times> 'b, bool, 's) op \<Rightarrow> ('a \<times> 'b, 's) seq" where
  "ForEachWhile2 q op yield s =
     q (\<lambda>(key, value) s. do { (go, s1) \<leftarrow> op (key, value) s;
                       if \<not> go then Some (False, s1)
                       else do { (ok, s2) \<leftarrow> yield (key, value) s1;
                                 if \<not> ok then Some (False, s2) else Some (True, s2) } }) s"

definition GenerateWhile :: "('a, 's) thunk \<Rightarrow> ('a, bool, 's) op \<Rightarrow> ('a, 's) seq" where
  "GenerateWhile op while = While (Generate op) while"

definition GenerateWhile2 :: "('a \<times> 'b, 's) thunk \<Rightarrow> ('a \<times> 'b, bool, 's) op \<Rightarrow> ('a \<times> 'b, 's) seq" where
  "GenerateWhile2 op while = While2 (Generate2 op) while"

text \<open>\<open>counter\<close> is a closure over its own variable, here the local variable of the loop.\<close>

definition Limit :: "('a, 's \<times> int) seq \<Rightarrow> int \<Rightarrow> ('a, 's) seq" where
  "Limit q n yield s =
     (if n \<le> 0 then Some s
      else do { (s', _) \<leftarrow>
                  q (\<lambda>elem (s, nxt). do { (ok, s') \<leftarrow> yield elem s;
                                         if \<not> ok then Some (False, (s', nxt))
                                         else if nxt + 1 \<ge> n then Some (False, (s', nxt + 1))
                                         else Some (True, (s', nxt + 1)) }) (s, 0);
                Some s' })"

definition Limit2 :: "('a \<times> 'b, 's \<times> int) seq \<Rightarrow> int \<Rightarrow> ('a \<times> 'b, 's) seq" where
  "Limit2 q n yield s =
     (if n \<le> 0 then Some s
      else do { (s', _) \<leftarrow>
                  q (\<lambda>(k, v) (s, nxt). do { (ok, s') \<leftarrow> yield (k, v) s;
                                         if \<not> ok then Some (False, (s', nxt))
                                         else if nxt + 1 \<ge> n then Some (False, (s', nxt + 1))
                                         else Some (True, (s', nxt + 1)) }) (s, 0);
                Some s' })"

subsection \<open>Transformations that may be nil\<close>

definition Modify :: "('a, 's \<times> bool) seq \<Rightarrow> ('a, 'a, 's \<times> bool) op option \<Rightarrow> ('a, 's) seq" where
  "Modify q op = (case op of None \<Rightarrow> flushed q | Some f \<Rightarrow> flushed (Convert q f))"

definition Modify2 :: "('a \<times> 'b, 's \<times> bool) seq \<Rightarrow> ('a \<times> 'b, 'a \<times> 'b, 's \<times> bool) op option \<Rightarrow>
    ('a \<times> 'b, 's) seq" where
  "Modify2 q op = (case op of None \<Rightarrow> flushed q | Some f \<Rightarrow> flushed (Convert2 q f))"

fun run_ops :: "('a, 'a, 's) op list \<Rightarrow> ('a, 'a, 's) op" where
  "run_ops [] a s = Some (a, s)"
| "run_ops (f # fs) a s = do { (a', s') \<leftarrow> f a s; run_ops fs a' s' }"

definition ModifyAll :: "('a, 's \<times> bool) seq \<Rightarrow> ('a, 'a, 's \<times> bool) op option list \<Rightarrow> ('a, 's) seq" where
  "ModifyAll q ops =
     (let operations = map the (filter (\<lambda>op. op \<noteq> None) ops)
      in if operations = [] then flushed q else flushed (Convert q (run_ops operations)))"

definition ModifyAll2 :: "('a \<times> 'b, 's \<times> bool) seq \<Rightarrow> ('a \<times> 'b, 'a \<times> 'b, 's \<times> bool) op option list \<Rightarrow>
    ('a \<times> 'b, 's) seq" where
  "ModifyAll2 q ops =
     (let operations = map the (filter (\<lambda>op. op \<noteq> None) ops)
      in if operations = [] then flushed q else flushed (Convert2 q (run_ops operations)))"

subsection \<open>Joining sequences\<close>

definition Chain :: "(('a, 's \<times> bool) seq option, 's) seq \<Rightarrow> ('a, 's) seq" where
  "Chain q yield s =
     q (\<lambda>inner s.
          case inner of
            None \<Rightarrow> Some (True, s)
          | Some iq \<Rightarrow>
              do { (s', returned) \<leftarrow>
                     iq (\<lambda>value (s, r). do { (ok, s') \<leftarrow> yield value s;
                                             if \<not> ok then Some (False, (s', True))
                                             else Some (True, (s', r)) }) (s, False);
                   Some (\<not> returned, s') }) s"

definition Chain2 :: "(('a \<times> 'b, 's \<times> bool) seq option, 's) seq \<Rightarrow> ('a \<times> 'b, 's) seq" where
  "Chain2 q yield s =
     q (\<lambda>inner s.
          case inner of
            None \<Rightarrow> Some (True, s)
          | Some iq \<Rightarrow>
              do { (s', returned) \<leftarrow>
                     iq (\<lambda>(key, value) (s, r). do { (ok, s') \<leftarrow> yield (key, value) s;
                                             if \<not> ok then Some (False, (s', True))
                                             else Some (True, (s', r)) }) (s, False);
                   Some (\<not> returned, s') }) s"

definition Append :: "('a, 's \<times> bool) seq option \<Rightarrow> 'a list \<Rightarrow> ('a, 's) seq" where
  "Append q items = Chain (Args [q, Some (Slice items)])"

definition Join :: "('a, 's \<times> bool) seq option list \<Rightarrow> ('a, 's) seq" where
  "Join seqs = Chain (Slice seqs)"

definition Join2 :: "('a \<times> 'b, 's \<times> bool) seq option list \<Rightarrow> ('a \<times> 'b, 's) seq" where
  "Join2 seqs = Chain2 (Slice seqs)"

definition ChainSlices :: "('a list, 's) seq \<Rightarrow> ('a, 's) seq" where
  "ChainSlices q = Chain (Convert q (pureop (\<lambda>sl. Some (Slice sl))))"

definition Flatten :: "('k \<times> ('v, 's \<times> bool) seq, 's) seq \<Rightarrow> ('k \<times> 'v, 's) seq" where
  "Flatten q yield s =
     q (\<lambda>(key, seqVals) s.
          do { (s', returned) \<leftarrow>
                 seqVals (\<lambda>value (s, r). do { (ok, s') \<leftarrow> yield (key, value) s;
                                         if \<not> ok then Some (False, (s', True))
                                         else Some (True, (s', r)) }) (s, False);
               Some (\<not> returned, s') }) s"

definition kvslice2seq :: "'k \<times> 'v list \<Rightarrow> 'k \<times> ('v, 's) seq" where
  "kvslice2seq p = (case p of (k, sl) \<Rightarrow> (k, Slice sl))"

definition FlattenSlice :: "('k \<times> 'v list, 's) seq \<Rightarrow> ('k \<times> 'v, 's) seq" where
  "FlattenSlice q = Flatten (Convert2 q (pureop kvslice2seq))"

definition ReverseMapping :: "('a \<times> 'b list, 's) seq \<Rightarrow> ('b \<times> 'a, 's) seq" where
  "ReverseMapping q yield s =
     q (\<lambda>(value, keys) s.
          do { (s', returned) \<leftarrow>
                 Slice keys (\<lambda>key (s, r). do { (ok, s') \<leftarrow> yield (key, value) s;
                                         if \<not> ok then Some (False, (s', True))
                                         else Some (True, (s', r)) }) (s, False);
               Some (\<not> returned, s') }) s"

subsection \<open>Hooks\<close>

definition whenop :: "(unit, 's) thunk option \<Rightarrow> 's \<Rightarrow> 's option" where
  "whenop op s = (case op of None \<Rightarrow> Some s | Some f \<Rightarrow> do { (_, s') \<leftarrow> f s; Some s' })"

definition WithHooks :: "('a, 's \<times> bool) seq \<Rightarrow> (unit, 's) thunk option \<Rightarrow> (unit, 's) thunk option \<Rightarrow>
    ('a, 's) seq" where
  "WithHooks q before after yield s =
     do { s1 \<leftarrow> whenop before s; (_, s2) \<leftarrow> Flush q yield s1; whenop after s2 }"

text \<open>
  \<open>sync.OnceFunc\<close> keeps a flag outside the sequence, so the flag is part of the state that
  successive iterations share.
\<close>

definition WithSetup :: "('a, ('s \<times> bool) \<times> bool) seq \<Rightarrow> (unit, 's) thunk option \<Rightarrow> ('a, 's \<times> bool) yield \<Rightarrow>
    's \<times> bool \<Rightarrow> ('s \<times> bool) option" where
  "WithSetup q setup yield sd =
     (case sd of (s, done) \<Rightarrow>
        do { s1 \<leftarrow> (if done then Some s else whenop setup s);
             (_, sd') \<leftarrow> Flush q yield (s1, True);
             Some sd' })"

subsection \<open>Reversal\<close>

text \<open>\<open>slices.Backward\<close> yields index and element from the last to the first.\<close>

fun Backward_loop :: "nat \<Rightarrow> 'a list \<Rightarrow> (int \<times> 'a, 's) seq" where
  "Backward_loop 0 sl yield s = Some s"
| "Backward_loop (Suc i) sl yield s =
     do { (ok, s') \<leftarrow> yield (int i, sl ! i) s; if ok then Backward_loop i sl yield s' else Some s' }"

definition Backward :: "'a list \<Rightarrow> (int \<times> 'a, 's) seq" where
  "Backward sl = Backward_loop (length sl) sl"

definition Reverse_seq :: "('a, 's \<times> 'a list) seq \<Rightarrow> ('a, 's) seq" where
  "Reverse_seq q yield s =
     do { (out, s1) \<leftarrow> Collect_seq q [] s;
          (case out of Panic _ \<Rightarrow> None
           | Done xs \<Rightarrow> do { (_, s2) \<leftarrow> Flush (Second (Backward xs)) yield s1; Some s2 }) }"

end
