(* ===== verification/IrtLaws.thy ===== *)
theory IrtLaws
  imports IrtCombine
begin

text \<open>
  What each combinator yields, as a function on lists.  The laws are rules with the premise that
  the input sequence yields a list; they are collected as \<open>seq_simps\<close>.
\<close>

subsection \<open>Sources\<close>

lemma yields_Slice [seq_simps]: "yields (Slice xs) xs"
  by (rule yieldsI) (simp add: Slice_def)

lemma yields_Args [seq_simps]: "yields (Args xs) xs"
  by (simp add: Args_def yields_Slice)

lemma yields_One [seq_simps]: "yields (One v) [v]"
  by (rule yieldsI) (auto simp: One_def split: Option.bind_splits)

lemma yields_Two [seq_simps]: "yields (Two a b) [(a, b)]"
  by (rule yieldsI) (auto simp: Two_def split: Option.bind_splits)

lemma yields_Zero [seq_simps]: "yields Zero []"
  by (rule yieldsI) (simp add: Zero_def)

lemma yields_Zero2 [seq_simps]: "yields Zero2 []"
  by (rule yieldsI) (simp add: Zero2_def)

lemma yields_OrEmpty [seq_simps]: "yields q xs \<Longrightarrow> yields (OrEmpty (Some q)) xs"
  by (simp add: OrEmpty_def ifelsedo_def)

lemma yields_OrEmpty_nil [seq_simps]: "yields (OrEmpty None) []"
  by (simp add: OrEmpty_def ifelsedo_def yields_Zero)

lemma Range_upto:
  assumes "endv \<le> maxInt" and "minInt \<le> nxt" and "nat (endv + 1 - nxt) = k"
  shows "Range nxt endv yield s = map_option snd (emit [nxt..endv] yield s)"
  using assms
proof (induction k arbitrary: nxt s)
  case 0
  then show ?case by (simp add: Range.simps)
next
  case (Suc k)
  then have le: "nxt \<le> endv" by auto
  have up: "[nxt..endv] = nxt # [nxt + 1..endv]"
    by (rule upto_rec1[OF le])
  show ?case
  proof (cases "nxt = endv")
    case True
    then show ?thesis
      by (subst Range.simps) (auto simp: up split: Option.bind_splits)
  next
    case False
    with le Suc.prems have "wrap64 (nxt + 1) = nxt + 1"
      by (intro wrap64_id) auto
    with False le Suc show ?thesis
      by (subst Range.simps) (auto simp: up split: Option.bind_splits)
  qed
qed

lemma yields_Range_upto: "minInt \<le> start \<Longrightarrow> endv \<le> maxInt \<Longrightarrow> yields (Range start endv) [start..endv]"
  by (rule yieldsI) (rule Range_upto[OF _ _ refl])

text \<open>
  \<open>GenerateN\<close> is the first \<open>num\<close> rounds of \<open>Generate\<close>: with a counter beside the state, the
  unbounded loop that \<open>Limit\<close> cuts does the same calls in the same order.
\<close>

definition limit_body :: "int \<Rightarrow> ('a, 's) yield \<Rightarrow> ('a, 's \<times> int) yield" where
  "limit_body n yield x sn =
     (case sn of (s, nxt) \<Rightarrow>
        do { (ok, s') \<leftarrow> yield x s;
             if \<not> ok then Some (False, (s', nxt))
             else if nxt + 1 \<ge> n then Some (False, (s', nxt + 1))
             else Some (True, (s', nxt + 1)) })"

definition beside :: "('b, 's) thunk \<Rightarrow> ('b, 's \<times> 'l) thunk" where
  "beside op sl = (case sl of (s, l) \<Rightarrow> do { (b, s') \<leftarrow> op s; Some (b, (s', l)) })"

lemma beside_apply [simp]: "beside op (s, l) = do { (b, s') \<leftarrow> op s; Some (b, (s', l)) }"
  by (simp add: beside_def)

lemma limit_body_apply [simp]:
  "limit_body n yield x (s, nxt) =
     do { (ok, s') \<leftarrow> yield x s;
          if \<not> ok then Some (False, (s', nxt))
          else if nxt + 1 \<ge> n then Some (False, (s', nxt + 1))
          else Some (True, (s', nxt + 1)) }"
  by (simp add: limit_body_def)

lemma Limit_eq: "Limit q n yield s =
    (if n \<le> 0 then Some s else map_option fst (q (limit_body n yield) (s, 0)))"
proof -
  have "(\<lambda>elem (s, nxt). do { (ok, s') \<leftarrow> yield elem s;
           if \<not> ok then Some (False, (s', nxt))
           else if nxt + 1 \<ge> n then Some (False, (s', nxt + 1))
           else Some (True, (s', nxt + 1)) }) = limit_body n yield"
    by (intro ext) (simp add: limit_body_def split: prod.splits)
  then show ?thesis
    by (simp add: Limit_def del: not_le)
      (cases "q (limit_body n yield) (s, 0)"; auto)
qed

lemma Generate_limit_body:
  assumes "i < n"
  shows "map_option fst (Generate (beside op) (limit_body n yield) (s, i)) = GenerateN_loop i n op yield s"
  using assms
proof (induction i n op yield s rule: GenerateN_loop.induct)
  case (1 i num op yield s)
  show ?case
  proof (cases "op s")
    case None
    with 1(2) show ?thesis
      by (subst Generate.simps, subst GenerateN_loop.simps) (simp)
  next
    case (Some r)
    obtain x s1 where op: "op s = Some (x, s1)" using Some by (cases r) auto
    show ?thesis
    proof (cases "yield x s1")
      case None
      with 1(2) op show ?thesis
        by (subst Generate.simps, subst GenerateN_loop.simps) (simp)
    next
      case (Some r2)
      obtain ok s2 where y: "yield x s1 = Some (ok, s2)" using Some by (cases r2) auto
      have "GenerateN_loop (i + 1) num op yield s2 = Some s2" if "\<not> i + 1 < num"
        by (subst GenerateN_loop.simps) (use that in simp)
      then show ?thesis
        using 1(2) op y 1(1)[OF 1(2), of "(x, s1)" x s1 "(ok, s2)" ok s2]
        by (subst Generate.simps, subst GenerateN_loop.simps)
          auto
    qed
  qed
qed

lemma Limit_Generate_eq: "Limit (Generate (beside op)) n = GenerateN n op"
proof (intro ext)
  fix yield s
  show "Limit (Generate (beside op)) n yield s = GenerateN n op yield s"
  proof (cases "n \<le> 0")
    case True
    then show ?thesis by (subst GenerateN_def, subst GenerateN_loop.simps) (simp add: Limit_eq)
  next
    case False
    then show ?thesis by (simp add: Limit_eq GenerateN_def Generate_limit_body)
  qed
qed

subsection \<open>Element by element\<close>

definition flush_body :: "('a, 's) yield \<Rightarrow> ('a, 's \<times> bool) yield" where
  "flush_body yield x sr =
     (case sr of (s, r) \<Rightarrow>
        do { (ok, s') \<leftarrow> yield x s;
             if \<not> ok then Some (False, (s', False)) else Some (True, (s', r)) })"

lemma emit_flush_body:
  "emit xs (flush_body yield) (s, True) = map_option (\<lambda>(ok, s'). (ok, (s', ok))) (emit xs yield s)"
  by (induction xs arbitrary: s) (auto simp: flush_body_def split: Option.bind_splits)

lemma Flush_eq: "Flush q yield s = map_option (\<lambda>(s', ok). (ok, s')) (q (flush_body yield) (s, True))"
proof -
  have "(\<lambda>value (s, r). do { (ok, s') \<leftarrow> yield value s;
           if \<not> ok then Some (False, (s', False)) else Some (True, (s', r)) }) = flush_body yield"
    by (intro ext) (simp add: flush_body_def split: prod.splits)
  then show ?thesis
    unfolding Flush_def by (cases "q (flush_body yield) (s, True)") auto
qed

lemma Flush_emit:
  assumes "yields q xs"
  shows "Flush q yield s = emit xs yield s"
  by (simp add: Flush_eq yieldsD[OF assms] emit_flush_body option.map_comp comp_def case_prod_beta
      option.map_ident)

lemma Flush2_eq: "Flush2 q yield s = Flush q yield s"
  by (simp add: Flush2_def Flush_def case_prod_unfold cong: if_cong)

lemma yields_flushed [seq_simps]: "yields q xs \<Longrightarrow> yields (flushed q) xs"
  by (rule yieldsI) (auto simp: flushed_def Flush_emit split: Option.bind_splits)

lemma yields_Convert [seq_simps]:
  assumes "yields q xs"
  shows "yields (Convert q (pureop f)) (map f xs)"
  by (rule yields_by_acts0[OF assms, where f = "\<lambda>x. Out (f x) True ()"], unfold Convert_def, rule refl)
    (auto simp: acts0_def transduce_map_unit split: Option.bind_splits)

lemma Convert2_eq: "Convert2 q op = Convert q op"
  by (intro ext) (simp add: Convert2_def Convert_def case_prod_unfold)

lemma Merge_eq: "Merge q op = Convert q op"
  by (intro ext) (simp add: Merge_def Convert_def case_prod_unfold)

lemma With2_eq: "With2 q op = Convert q op"
  by (intro ext) (simp add: With2_def Convert_def)

lemma yields_Convert2 [seq_simps]: "yields q xs \<Longrightarrow> yields (Convert2 q (pureop f)) (map f xs)"
  by (simp add: Convert2_eq yields_Convert)

lemma yields_Merge [seq_simps]: "yields q xs \<Longrightarrow> yields (Merge q (pureop f)) (map f xs)"
  by (simp add: Merge_eq yields_Convert)

lemma yields_With2 [seq_simps]: "yields q xs \<Longrightarrow> yields (With2 q (pureop f)) (map f xs)"
  by (simp add: With2_eq yields_Convert)

lemma yields_With [seq_simps]:
  assumes "yields q xs"
  shows "yields (With q (pureop f)) (map (\<lambda>x. (x, f x)) xs)"
  by (rule yields_by_acts0[OF assms, where f = "\<lambda>x. Out (x, f x) True ()"], unfold With_def, rule refl)
    (auto simp: acts0_def transduce_map_unit split: Option.bind_splits)

lemma yields_With3 [seq_simps]:
  assumes "yields q xs"
  shows "yields (With3 q (pureop f)) (map (\<lambda>x. (KV x (fst (f x)), snd (f x))) xs)"
  by (rule yields_by_acts0[OF assms, where f = "\<lambda>x. Out (KV x (fst (f x)), snd (f x)) True ()"],
      unfold With3_def, rule refl)
    (auto simp: acts0_def transduce_map_unit MakeKV_def split: Option.bind_splits prod.splits)

lemma yields_Flip [seq_simps]: "yields q xs \<Longrightarrow> yields (Flip q) (map (\<lambda>(a, b). (b, a)) xs)"
  using yields_Convert2[of q xs flip] by (simp add: Flip_def flip_def[abs_def])

lemma yields_First [seq_simps]: "yields q xs \<Longrightarrow> yields (First q) (map fst xs)"
  using yields_Merge[of q xs first] by (simp add: First_def first_def[abs_def] case_prod_unfold)

lemma yields_Second [seq_simps]: "yields q xs \<Longrightarrow> yields (Second q) (map snd xs)"
  using yields_Merge[of q xs second] by (simp add: Second_def second_def[abs_def] case_prod_unfold)

lemma yields_KVjoin [seq_simps]: "yields q xs \<Longrightarrow> yields (KVjoin q) (map (\<lambda>(a, b). KV a b) xs)"
  using yields_Merge[of q xs "\<lambda>(a, b). MakeKV a b"] by (simp add: KVjoin_def MakeKV_def case_prod_unfold)

lemma yields_KVsplit [seq_simps]: "yields q xs \<Longrightarrow> yields (KVsplit q) (map (\<lambda>e. (Key e, Value e)) xs)"
  using yields_With2[of q xs elemSplit] by (simp add: KVsplit_def elemSplit_def[abs_def] KV_Split_def)

lemma KV_split_join:
  assumes "yields q xs"
  shows "yields (KVsplit (KVjoin q)) xs"
  using yields_KVsplit[OF yields_KVjoin[OF assms]] by (simp add: comp_def case_prod_unfold)

lemma yields_ForEach [seq_simps]:
  assumes "yields q xs"
  shows "yields (ForEach q (pureop f)) xs"
  by (rule yields_by_acts0[OF assms, where f = "\<lambda>x. Out x True ()"], unfold ForEach_def, rule refl)
    (auto simp: acts0_def transduce_map_unit[of id, simplified] split: Option.bind_splits)

fun enum_from :: "int \<Rightarrow> 'a list \<Rightarrow> (int \<times> 'a) list" where
  "enum_from i [] = []"
| "enum_from i (x # xs) = (i, x) # enum_from (i + 1) xs"

lemma length_enum_from [simp]: "length (enum_from i xs) = length xs"
  by (induction xs arbitrary: i) auto

lemma nth_enum_from: "k < length xs \<Longrightarrow> enum_from i xs ! k = (i + int k, xs ! k)"
  by (induction xs arbitrary: i k) (auto simp: nth_Cons split: nat.splits)

lemma map_option_fst: "do { (s', _) \<leftarrow> m; Some s' } = map_option fst m"
  by (cases m) auto

lemma yields_Index [seq_simps]:
  assumes "yields q xs"
  shows "yields (Index q) (enum_from 0 xs)"
proof (rule yields_by_acts[OF assms, where f = "\<lambda>x i. Out (i, x) True (i + 1)" and l = 0])
  have "transduce (\<lambda>x i. Out (i, x) True (i + 1)) i xs = enum_from i xs" for i
    by (induction xs arbitrary: i) auto
  then show "transduce (\<lambda>x i. Out (i, x) True (i + 1)) 0 xs = enum_from 0 xs" .
  show "Index q yield s = map_option fst (q (\<lambda>value (s, idx). do { (ok, s') \<leftarrow> yield (idx, value) s;
      if \<not> ok then Some (False, (s', idx)) else Some (True, (s', idx + 1)) }) (s, 0))" for yield s
    by (simp only: Index_def map_option_fst)
qed (auto simp: acts_def split: option.splits)

subsection \<open>Choosing elements\<close>

lemma yields_Keep [seq_simps]:
  assumes "yields q xs"
  shows "yields (Keep q (pureop p)) (filter p xs)"
  by (rule yields_by_acts0[OF assms, where f = "\<lambda>x. if p x then Out x True () else Skip True ()"],
      unfold Keep_def, rule refl)
    (auto simp: acts0_def transduce_filter split: Option.bind_splits)

lemma Keep2_eq: "Keep2 q op = Keep q op"
  by (intro ext) (simp add: Keep2_def Keep_def case_prod_unfold cong: if_cong)

lemma yields_Keep2 [seq_simps]: "yields q xs \<Longrightarrow> yields (Keep2 q (pureop p)) (filter p xs)"
  by (simp add: Keep2_eq yields_Keep)

lemma yields_Remove [seq_simps]: "yields q xs \<Longrightarrow> yields (Remove q (pureop p)) (filter (\<lambda>x. \<not> p x) xs)"
  by (simp add: Remove_def yields_Keep)

lemma yields_Remove2 [seq_simps]: "yields q xs \<Longrightarrow> yields (Remove2 q (pureop p)) (filter (\<lambda>x. \<not> p x) xs)"
  by (simp add: Remove2_def yields_Keep2)

lemma yields_RemoveZeros [seq_simps]: "yields q xs \<Longrightarrow> yields (RemoveZeros z q) (filter (\<lambda>x. x \<noteq> z) xs)"
  using yields_Remove[of q xs "isZero z"] by (simp add: RemoveZeros_def isZero_def[abs_def])

lemma yields_RemoveNils [seq_simps]: "yields q xs \<Longrightarrow> yields (RemoveNils q) (filter (\<lambda>x. x \<noteq> None) xs)"
  using yields_Remove[of q xs isNil] by (simp add: RemoveNils_def isNil_def[abs_def])

lemma yields_RemoveValue [seq_simps]: "yields q xs \<Longrightarrow> yields (RemoveValue q v) (filter (\<lambda>x. x \<noteq> v) xs)"
  using yields_Remove[of q xs "equalf v"] by (simp add: RemoveValue_def equalf_def[abs_def])

lemma yields_RemoveErrors [seq_simps]:
  "yields q xs \<Longrightarrow> yields (RemoveErrors q) (map fst (filter (\<lambda>p. snd p = None) xs))"
  using yields_First[OF yields_Remove2[of q xs isError2]]
  by (simp add: RemoveErrors_def isError2_def[abs_def] case_prod_unfold)

lemma yields_KeepErrors [seq_simps]: "yields q xs \<Longrightarrow> yields (KeepErrors q) (filter (\<lambda>e. e \<noteq> None) xs)"
  using yields_Keep[of q xs isError] by (simp add: KeepErrors_def isError_def[abs_def])

lemma yields_KeepOk [seq_simps]: "yields q xs \<Longrightarrow> yields (KeepOk q) (map fst (filter snd xs))"
  using yields_First[OF yields_Keep2[of q xs isOk]]
  by (simp add: KeepOk_def isOk_def[abs_def] case_prod_unfold)

lemma map_derefz: "map (derefz z) (filter (\<lambda>x. x \<noteq> None) xs) = map the (filter (\<lambda>x. x \<noteq> None) xs)"
  by (induction xs) (auto simp: derefz_def)

lemma yields_Deref [seq_simps]:
  "yields q xs \<Longrightarrow> yields (Deref z q) (map the (filter (\<lambda>x. x \<noteq> None) xs))"
  using yields_Convert[OF yields_RemoveNils, of q xs "derefz z"] by (simp only: Deref_def map_derefz)

lemma yields_While [seq_simps]:
  assumes "yields q xs"
  shows "yields (While q (pureop p)) (takeWhile p xs)"
  by (rule yields_by_acts0[OF assms, where f = "\<lambda>x. if p x then Out x True () else Skip False ()"],
      unfold While_def, rule refl)
    (auto simp: acts0_def transduce_takeWhile split: Option.bind_splits)

lemma While2_eq: "While2 q op = While q op"
  by (intro ext) (simp add: While2_def While_def case_prod_unfold cong: if_cong)

lemma yields_While2 [seq_simps]: "yields q xs \<Longrightarrow> yields (While2 q (pureop p)) (takeWhile p xs)"
  by (simp add: While2_eq yields_While)

lemma yields_Until [seq_simps]: "yields q xs \<Longrightarrow> yields (Until q (pureop p)) (takeWhile (\<lambda>x. \<not> p x) xs)"
  by (simp add: Until_def yields_While)

lemma yields_Until2 [seq_simps]: "yields q xs \<Longrightarrow> yields (Until2 q (pureop p)) (takeWhile (\<lambda>x. \<not> p x) xs)"
  by (simp add: Until2_def yields_While2)

lemma yields_WhileOk [seq_simps]: "yields q xs \<Longrightarrow> yields (WhileOk q) (map fst (takeWhile snd xs))"
  using yields_First[OF yields_While2[of q xs isOk]]
  by (simp add: WhileOk_def isOk_def[abs_def] case_prod_unfold)

lemma yields_WhileSuccess [seq_simps]:
  "yields q xs \<Longrightarrow> yields (WhileSuccess q) (map fst (takeWhile (\<lambda>p. snd p = None) xs))"
  using yields_First[OF yields_While2[of q xs isSuccess2]]
  by (simp add: WhileSuccess_def isSuccess2_def[abs_def] case_prod_unfold)

lemma yields_UntilError [seq_simps]:
  "yields q xs \<Longrightarrow> yields (UntilError q) (map fst (takeWhile (\<lambda>p. snd p = None) xs))"
  using yields_First[OF yields_Until2[of q xs isError2]]
  by (simp add: UntilError_def isError2_def[abs_def] case_prod_unfold)

lemma filter_takeWhile_same: "filter p (takeWhile p xs) = takeWhile p xs"
  by (induction xs) auto

lemma yields_UntilNil [seq_simps]:
  "yields q xs \<Longrightarrow> yields (UntilNil z q) (map the (takeWhile (\<lambda>x. x \<noteq> None) xs))"
  using yields_Deref[OF yields_Until[of q xs isNil], of z]
  by (simp add: UntilNil_def isNil_def[abs_def] filter_takeWhile_same[of "\<lambda>x. x \<noteq> None", simplified])

lemma yields_ForEachWhile [seq_simps]:
  assumes "yields q xs"
  shows "yields (ForEachWhile q (pureop p)) (takeWhile p xs)"
  by (rule yields_by_acts0[OF assms, where f = "\<lambda>x. if p x then Out x True () else Skip False ()"],
      unfold ForEachWhile_def, rule refl)
    (auto simp: acts0_def transduce_takeWhile split: Option.bind_splits)

lemma acts_limit_body: "acts (limit_body n yield) (\<lambda>x nxt. Out x (nxt + 1 < n) (nxt + 1)) yield"
  by (auto simp: acts_def limit_body_def split: option.splits)

lemma transduce_limit:
  "i < n \<Longrightarrow> transduce (\<lambda>x nxt. Out x (nxt + 1 < n) (nxt + 1)) i xs = take (nat (n - i)) xs"
proof (induction xs arbitrary: i)
  case (Cons x xs)
  obtain k where k: "nat (n - i) = Suc k" using Cons.prems by (cases "nat (n - i)") auto
  then have "nat (n - (i + 1)) = k" using Cons.prems by simp
  with k Cons show ?case by (cases "i + 1 < n") auto
qed simp

lemma yields_Limit [seq_simps]:
  assumes "yields q xs"
  shows "yields (Limit q n) (take (nat n) xs)"
proof (cases "n \<le> 0")
  case True
  then show ?thesis by (auto intro: yieldsI simp: Limit_eq)
next
  case False
  show ?thesis
    by (rule yields_by_acts[OF assms _ acts_limit_body[of n], where l = 0])
      (use False in \<open>simp_all add: Limit_eq transduce_limit\<close>)
qed

lemma Limit2_eq: "Limit2 q n = Limit q n"
  by (intro ext) (simp add: Limit2_def Limit_def case_prod_unfold cong: if_cong)

lemma yields_Limit2 [seq_simps]: "yields q xs \<Longrightarrow> yields (Limit2 q n) (take (nat n) xs)"
  by (simp add: Limit2_eq yields_Limit)

subsection \<open>Transformations that may be nil\<close>

lemma run_ops_pureop: "run_ops (map pureop fs) a s = Some (fold (\<lambda>f a. f a) fs a, s)"
  by (induction fs arbitrary: a) auto

lemma yields_Modify [seq_simps]: "yields q xs \<Longrightarrow> yields (Modify q (Some (pureop f))) (map f xs)"
  by (simp add: Modify_def yields_flushed yields_Convert)

lemma yields_Modify_nil [seq_simps]: "yields q xs \<Longrightarrow> yields (Modify q None) xs"
  by (simp add: Modify_def yields_flushed)

lemma run_ops_eq: "run_ops (map pureop fs) = pureop (fold (\<lambda>f a. f a) fs)"
  by (intro ext) (simp add: run_ops_pureop)

lemma the_filter_Some: "map the (filter (\<lambda>op. op \<noteq> None) (map (map_option g) fs)) = map g (map the (filter (\<lambda>f. f \<noteq> None) fs))"
  by (induction fs) auto

lemma yields_ModifyAll [seq_simps]:
  assumes "yields q xs"
  shows "yields (ModifyAll q (map (map_option pureop) fs))
           (map (fold (\<lambda>f a. f a) (map the (filter (\<lambda>f. f \<noteq> None) fs))) xs)"
proof (cases "map the (filter (\<lambda>f. f \<noteq> None) fs) = []")
  case True
  with assms show ?thesis
    unfolding ModifyAll_def the_filter_Some Let_def by (simp add: yields_flushed fold_Nil[unfolded id_def])
next
  case False
  then show ?thesis
    unfolding ModifyAll_def the_filter_Some Let_def run_ops_eq
    using yields_flushed[OF yields_Convert[OF assms]] by simp
qed

subsection \<open>Joining sequences\<close>

definition inner_body :: "('a \<Rightarrow> 'b) \<Rightarrow> ('b, 's) yield \<Rightarrow> ('a, 's \<times> bool) yield" where
  "inner_body f yield x sr =
     (case sr of (s, r) \<Rightarrow>
        do { (ok, s') \<leftarrow> yield (f x) s;
             if \<not> ok then Some (False, (s', True)) else Some (True, (s', r)) })"

lemma emit_inner_body:
  "emit xs (inner_body f yield) (s, False) = map_option (\<lambda>(ok, s'). (ok, (s', \<not> ok))) (emit (map f xs) yield s)"
  by (induction xs arbitrary: s) (auto simp: inner_body_def split: Option.bind_splits)

text \<open>The body of an outer loop that runs an inner sequence and passes its early stop on.\<close>

lemma run_inner:
  assumes "yields iq xs"
  shows "do { (s', returned) \<leftarrow> iq (inner_body f yield) (s, False); Some (\<not> returned, s') }
         = emit (map f xs) yield s"
  by (simp add: yieldsD[OF assms] emit_inner_body)
    (cases "emit (map f xs) yield s"; auto)

lemma emit_nested:
  assumes "list_all2 (\<lambda>q xs. \<forall>s. body q s = emit xs yield s) qs xss"
  shows "emit qs body s = emit (concat xss) yield s"
  using assms
proof (induction qs arbitrary: xss s)
  case (Cons q qs)
  then obtain xs xss' where xss: "xss = xs # xss'" "\<forall>s. body q s = emit xs yield s"
    "list_all2 (\<lambda>q xs. \<forall>s. body q s = emit xs yield s) qs xss'"
    by (auto simp: list_all2_Cons1)
  with Cons.IH[OF this(3)] show ?case
    by (cases "emit xs yield s") (auto simp: emit_append)
qed simp

definition yields_opt :: "('a, 's) seq option \<Rightarrow> 'a list \<Rightarrow> bool" where
  "yields_opt q xs = (case q of None \<Rightarrow> xs = [] | Some iq \<Rightarrow> yields iq xs)"

lemma Chain_eq: "Chain q yield s = q (\<lambda>inner s. case inner of None \<Rightarrow> Some (True, s)
    | Some iq \<Rightarrow> do { (s', returned) \<leftarrow> iq (inner_body (\<lambda>x. x) yield) (s, False); Some (\<not> returned, s') }) s"
proof -
  have "(\<lambda>value (s, r). do { (ok, s') \<leftarrow> yield value s;
           if \<not> ok then Some (False, (s', True)) else Some (True, (s', r)) }) = inner_body (\<lambda>x. x) yield"
    by (intro ext) (simp add: inner_body_def split: prod.splits)
  then show ?thesis by (simp only: Chain_def)
qed

lemma yields_Chain [seq_simps]:
  assumes "yields (q :: (('a, 's \<times> bool) seq option, 's) seq) qs" and "list_all2 yields_opt qs xss"
  shows "yields (Chain q) (concat xss)"
proof (rule yieldsI)
  fix yield :: "('a, 's) yield" and s
  let ?body = "\<lambda>inner s. case inner of None \<Rightarrow> Some (True, s)
    | Some iq \<Rightarrow> do { (s', returned) \<leftarrow> iq (inner_body (\<lambda>x. x) yield) (s, False); Some (\<not> returned, s') }"
  have "list_all2 (\<lambda>q xs. \<forall>s. ?body q s = emit xs yield s) qs xss"
    using assms(2)
    by (rule list_all2_mono) (auto simp: yields_opt_def run_inner[where f = "\<lambda>x. x"] split: option.splits)
  then have "emit qs ?body s = emit (concat xss) yield s"
    by (rule emit_nested)
  then show "Chain q yield s = map_option snd (emit (concat xss) yield s)"
    by (simp add: Chain_eq yieldsD[OF assms(1)])
qed

lemma Chain2_eq: "Chain2 (q :: (('a \<times> 'b, 's \<times> bool) seq option, 's) seq) = Chain q"
proof (intro ext)
  fix yield :: "('a \<times> 'b, 's) yield" and s
  have eq: "(\<lambda>(key, value) (s, r). do { (ok, s') \<leftarrow> yield (key, value) s;
           if \<not> ok then Some (False, (s', True)) else Some (True, (s', r)) })
        = (\<lambda>value (s, r). do { (ok, s') \<leftarrow> yield value s;
           if \<not> ok then Some (False, (s', True)) else Some (True, (s', r)) })"
    by (intro ext) (simp split: prod.splits)
  show "Chain2 q yield s = Chain q yield s"
    by (simp only: Chain2_def Chain_def eq)
qed

lemma yields_Join [seq_simps]: "list_all2 yields_opt qs xss \<Longrightarrow> yields (Join qs) (concat xss)"
  by (simp add: Join_def yields_Chain[OF yields_Slice])

lemma yields_Join2 [seq_simps]: "list_all2 yields_opt qs xss \<Longrightarrow> yields (Join2 qs) (concat xss)"
  by (simp add: Join2_def Chain2_eq yields_Chain[OF yields_Slice])

lemma yields_Append [seq_simps]:
  assumes "yields_opt q xs"
  shows "yields (Append q ys) (xs @ ys)"
proof -
  have "list_all2 yields_opt [q, Some (Slice ys)] [xs, ys]"
    using assms by (simp add: yields_opt_def[of "Some _"] yields_Slice)
  from yields_Chain[OF yields_Args this] show ?thesis by (simp add: Append_def)
qed

lemma yields_ChainSlices [seq_simps]:
  assumes "yields q xss"
  shows "yields (ChainSlices q) (concat xss)"
proof -
  have "list_all2 yields_opt (map (\<lambda>sl. Some (Slice sl)) xss) xss"
    by (induction xss) (auto simp: yields_opt_def yields_Slice)
  from yields_Chain[OF yields_Convert[OF assms] this] show ?thesis by (simp add: ChainSlices_def)
qed

lemma Flatten_eq: "Flatten q yield s = q (\<lambda>(key, iq) s.
    do { (s', returned) \<leftarrow> iq (inner_body (\<lambda>v. (key, v)) yield) (s, False); Some (\<not> returned, s') }) s"
proof -
  have "(\<lambda>value (s, r). do { (ok, s') \<leftarrow> yield (key, value) s;
           if \<not> ok then Some (False, (s', True)) else Some (True, (s', r)) })
        = inner_body (\<lambda>v. (key, v)) yield" for key
    by (intro ext) (simp add: inner_body_def split: prod.splits)
  then show ?thesis by (simp only: Flatten_def)
qed

lemma yields_Flatten [seq_simps]:
  assumes "yields (q :: ('k \<times> ('v, 's \<times> bool) seq, 's) seq) qs" and "list_all2 (\<lambda>(k, iq) (k', xs). k = k' \<and> yields iq xs) qs kxs"
  shows "yields (Flatten q) (concat (map (\<lambda>(k, xs). map (\<lambda>x. (k, x)) xs) kxs))"
proof (rule yieldsI)
  fix yield :: "('k \<times> 'v, 's) yield" and s
  let ?body = "\<lambda>(key, iq) s.
    do { (s', returned) \<leftarrow> iq (inner_body (\<lambda>v. (key, v)) yield) (s, False); Some (\<not> returned, s') }"
  have "list_all2 (\<lambda>q xs. \<forall>s. ?body q s = emit xs yield s) qs (map (\<lambda>(k, xs). map (\<lambda>x. (k, x)) xs) kxs)"
    using assms(2) unfolding list_all2_map2
    by (rule list_all2_mono) (auto simp: run_inner)
  then have "emit qs ?body s = emit (concat (map (\<lambda>(k, xs). map (\<lambda>x. (k, x)) xs) kxs)) yield s"
    by (rule emit_nested)
  then show "Flatten q yield s = map_option snd (emit (concat (map (\<lambda>(k, xs). map (\<lambda>x. (k, x)) xs) kxs)) yield s)"
    by (simp add: Flatten_eq yieldsD[OF assms(1)])
qed

lemma yields_FlattenSlice [seq_simps]:
  assumes "yields q kxs"
  shows "yields (FlattenSlice q) (concat (map (\<lambda>(k, xs). map (\<lambda>x. (k, x)) xs) kxs))"
  unfolding FlattenSlice_def
proof (rule yields_Flatten[OF yields_Convert2[OF assms]])
  show "list_all2 (\<lambda>(k, iq) (k', xs). k = k' \<and> yields iq xs) (map kvslice2seq kxs) kxs"
    by (induction kxs) (auto simp: kvslice2seq_def yields_Slice)
qed

lemma yields_ReverseMapping [seq_simps]:
  assumes "yields (q :: ('a \<times> 'b list, 's) seq) kxs"
  shows "yields (ReverseMapping q) (concat (map (\<lambda>(v, ks). map (\<lambda>k. (k, v)) ks) kxs))"
proof (rule yieldsI)
  fix yield :: "('b \<times> 'a, 's) yield" and s
  let ?body = "\<lambda>(v, keys) s.
    do { (s', returned) \<leftarrow> Slice keys (inner_body (\<lambda>k. (k, v)) yield) (s, False); Some (\<not> returned, s') }"
  have "(\<lambda>key (s, r). do { (ok, s') \<leftarrow> yield (key, v) s;
           if \<not> ok then Some (False, (s', True)) else Some (True, (s', r)) })
        = inner_body (\<lambda>k. (k, v)) yield" for v
    by (intro ext) (simp add: inner_body_def split: prod.splits)
  then have eq: "ReverseMapping q yield s = q ?body s"
    by (simp only: ReverseMapping_def)
  have "list_all2 (\<lambda>q xs. \<forall>s. ?body q s = emit xs yield s) kxs (map (\<lambda>(v, ks). map (\<lambda>k. (k, v)) ks) kxs)"
    unfolding list_all2_map2 by (rule list.rel_refl_strong) (auto simp: run_inner yields_Slice)
  then have "emit kxs ?body s = emit (concat (map (\<lambda>(v, ks). map (\<lambda>k. (k, v)) ks) kxs)) yield s"
    by (rule emit_nested)
  then show "ReverseMapping q yield s
      = map_option snd (emit (concat (map (\<lambda>(v, ks). map (\<lambda>k. (k, v)) ks) kxs)) yield s)"
    by (simp add: eq yieldsD[OF assms(1)])
qed

end
