(* ===== verification/IrtConsume.thy ===== *)
theory IrtConsume
  imports IrtLaws
begin

text \<open>
  The functions of \<open>src/irt/irt.go\<close> that run a sequence for its result: the apply family, searches,
  reductions, grouping, comparison and zipping by \<open>iter.Pull\<close>, sorting, and chunking.
\<close>

subsection \<open>Applying a function to every element\<close>

definition Apply :: "('a, 's \<times> int) seq \<Rightarrow> ('a, unit, 's) op \<Rightarrow> 's \<Rightarrow> (int \<times> 's) option" where
  "Apply q op s =
     do { (s', count) \<leftarrow> q (\<lambda>v (s, count). do { (_, s') \<leftarrow> op v s; Some (True, (s', count + 1)) }) (s, 0);
          Some (count, s') }"

definition Apply2 :: "('a \<times> 'b, 's \<times> int) seq \<Rightarrow> ('a \<times> 'b, unit, 's) op \<Rightarrow> 's \<Rightarrow> (int \<times> 's) option" where
  "Apply2 q op s =
     do { (s', count) \<leftarrow> q (\<lambda>(k, v) (s, count). do { (_, s') \<leftarrow> op (k, v) s; Some (True, (s', count + 1)) }) (s, 0);
          Some (count, s') }"

definition RunAll :: "((unit, 's) thunk, 's \<times> int) seq \<Rightarrow> 's \<Rightarrow> (int \<times> 's) option" where
  "RunAll q s =
     do { (s', count) \<leftarrow> q (\<lambda>op (s, count). do { (_, s') \<leftarrow> op s; Some (True, (s', count + 1)) }) (s, 0);
          Some (count, s') }"

definition ApplyWhile :: "('a, 's \<times> int) seq \<Rightarrow> ('a, bool, 's) op \<Rightarrow> 's \<Rightarrow> (int \<times> 's) option" where
  "ApplyWhile q op s =
     do { (s', count) \<leftarrow> q (\<lambda>v (s, count). do { (go, s') \<leftarrow> op v s;
                                                 if \<not> go then Some (False, (s', count + 1))
                                                 else Some (True, (s', count + 1)) }) (s, 0);
          Some (count, s') }"

definition ApplyWhile2 :: "('a \<times> 'b, 's \<times> int) seq \<Rightarrow> ('a \<times> 'b, bool, 's) op \<Rightarrow> 's \<Rightarrow> (int \<times> 's) option" where
  "ApplyWhile2 q op s =
     do { (s', count) \<leftarrow> q (\<lambda>(k, v) (s, count). do { (go, s') \<leftarrow> op (k, v) s;
                                                 if \<not> go then Some (False, (s', count + 1))
                                                 else Some (True, (s', count + 1)) }) (s, 0);
          Some (count, s') }"

definition ApplyUnless :: "('a, 's \<times> int) seq \<Rightarrow> ('a, bool, 's) op \<Rightarrow> 's \<Rightarrow> (int \<times> 's) option" where
  "ApplyUnless q op = ApplyWhile q (notf op)"

definition ApplyUnless2 :: "('a \<times> 'b, 's \<times> int) seq \<Rightarrow> ('a \<times> 'b, bool, 's) op \<Rightarrow> 's \<Rightarrow> (int \<times> 's) option" where
  "ApplyUnless2 q op = ApplyWhile2 q (notf2 op)"

text \<open>The local variable of \<open>ApplyUntil\<close> is the error the loop returns.\<close>

definition ApplyUntil :: "('a, 's \<times> 'e option) seq \<Rightarrow> ('a, 'e option, 's) op \<Rightarrow> 's \<Rightarrow> ('e option \<times> 's) option" where
  "ApplyUntil q op s =
     do { (s', err) \<leftarrow> q (\<lambda>v (s, r). do { (err, s') \<leftarrow> op v s;
                                          if err \<noteq> None then Some (False, (s', err))
                                          else Some (True, (s', r)) }) (s, None);
          Some (err, s') }"

definition ApplyUntil2 :: "('a \<times> 'b, 's \<times> 'e option) seq \<Rightarrow> ('a \<times> 'b, 'e option, 's) op \<Rightarrow> 's \<Rightarrow>
    ('e option \<times> 's) option" where
  "ApplyUntil2 q op s =
     do { (s', err) \<leftarrow> q (\<lambda>(k, v) (s, r). do { (err, s') \<leftarrow> op (k, v) s;
                                          if err \<noteq> None then Some (False, (s', err))
                                          else Some (True, (s', r)) }) (s, None);
          Some (err, s') }"

text \<open>\<open>errors.Join\<close> drops the nil errors and is nil when nothing is left.\<close>

definition errors_Join :: "'e option list \<Rightarrow> 'e list option" where
  "errors_Join es = (let xs = map the (filter (\<lambda>e. e \<noteq> None) es) in if xs = [] then None else Some xs)"

definition JoinErrors :: "('e option, 's \<times> 'e option list) seq \<Rightarrow> 's \<Rightarrow> ('e list option \<times> 's) option" where
  "JoinErrors q s = do { (es, s') \<leftarrow> AppendSeq [] q s; Some (errors_Join es, s') }"

definition ApplyAll :: "('a, 's \<times> 'e option list) seq \<Rightarrow> ('a, 'e option, 's) op \<Rightarrow> 's \<Rightarrow>
    ('e list option \<times> 's) option" where
  "ApplyAll q op = JoinErrors (Convert q (lift_op op))"

definition ApplyAll2 :: "('a \<times> 'b, 's \<times> 'e option list) seq \<Rightarrow> ('a \<times> 'b, 'e option, 's) op \<Rightarrow> 's \<Rightarrow>
    ('e list option \<times> 's) option" where
  "ApplyAll2 q op = JoinErrors (Merge q (lift_op op))"

subsection \<open>Searches and reductions\<close>

text \<open>An early \<open>return\<close> of the loop body leaves its value in the local variables.\<close>

definition Initial :: "'a \<Rightarrow> ('a, 's \<times> 'a \<times> bool) seq \<Rightarrow> 's \<Rightarrow> (('a \<times> bool) \<times> 's) option" where
  "Initial zero q s =
     do { (s', r) \<leftarrow> q (\<lambda>v (s, _). Some (False, (s, (v, True)))) (s, (zero, False)); Some (r, s') }"

definition Initial2 :: "'a \<Rightarrow> 'b \<Rightarrow> ('a \<times> 'b, 's \<times> 'a \<times> 'b \<times> bool) seq \<Rightarrow> 's \<Rightarrow> (('a \<times> 'b \<times> bool) \<times> 's) option" where
  "Initial2 azero bzero q s =
     do { (s', r) \<leftarrow> q (\<lambda>(k, v) (s, _). Some (False, (s, (k, v, True)))) (s, (azero, bzero, False)); Some (r, s') }"

definition Final :: "'a \<Rightarrow> ('a, 's \<times> 'a \<times> bool) seq \<Rightarrow> 's \<Rightarrow> (('a \<times> bool) \<times> 's) option" where
  "Final zero q s =
     do { (s', r) \<leftarrow> q (\<lambda>v (s, _). Some (True, (s, (v, True)))) (s, (zero, False)); Some (r, s') }"

definition Final2 :: "'a \<Rightarrow> 'b \<Rightarrow> ('a \<times> 'b, 's \<times> 'a \<times> 'b \<times> bool) seq \<Rightarrow> 's \<Rightarrow> (('a \<times> 'b \<times> bool) \<times> 's) option" where
  "Final2 azero bzero q s =
     do { (s', r) \<leftarrow> q (\<lambda>(a, b) (s, _). Some (True, (s, (a, b, True)))) (s, (azero, bzero, False)); Some (r, s') }"

definition Reduce :: "('a, 's \<times> 'b) seq \<Rightarrow> 'b \<Rightarrow> ('b \<times> 'a, 'b, 's) op \<Rightarrow> 's \<Rightarrow> ('b \<times> 's) option" where
  "Reduce q zero rfn s =
     do { (s', out) \<leftarrow> q (\<lambda>v (s, out). do { (out', s') \<leftarrow> rfn (out, v) s; Some (True, (s', out')) }) (s, zero);
          Some (out, s') }"

definition Reduce2 :: "('a \<times> 'b, 's \<times> 'c) seq \<Rightarrow> 'c \<Rightarrow> ('c \<times> 'a \<times> 'b, 'c, 's) op \<Rightarrow> 's \<Rightarrow> ('c \<times> 's) option" where
  "Reduce2 q zero rfn s =
     do { (s', out) \<leftarrow> q (\<lambda>(a, b) (s, out). do { (out', s') \<leftarrow> rfn (out, a, b) s; Some (True, (s', out')) }) (s, zero);
          Some (out, s') }"

text \<open>\<open>counter\<close> returns its incremented variable; \<open>Count\<close> stores it in its named result.\<close>

definition counter :: "int \<Rightarrow> int \<times> int" where
  "counter nxt = (nxt + 1, nxt + 1)"

definition Count :: "('a, ('s \<times> int \<times> int) \<times> int) seq \<Rightarrow> 's \<Rightarrow> (int \<times> 's) option" where
  "Count q s =
     do { (count, (s', _, _)) \<leftarrow>
            Apply q (\<lambda>_ (s, nxt, sz). case counter nxt of (r, nxt') \<Rightarrow> Some ((), (s, nxt', r))) (s, 0, 0);
          Some (count, s') }"

definition Count2 :: "('a \<times> 'b, ('s \<times> int \<times> int) \<times> int) seq \<Rightarrow> 's \<Rightarrow> (int \<times> 's) option" where
  "Count2 q s =
     do { (count, (s', _, _)) \<leftarrow>
            Apply2 q (\<lambda>_ (s, nxt, sz). case counter nxt of (r, nxt') \<Rightarrow> Some ((), (s, nxt', r))) (s, 0, 0);
          Some (count, s') }"

definition Contains :: "('a, ('s \<times> bool) \<times> int) seq \<Rightarrow> 'a \<Rightarrow> 's \<Rightarrow> (bool \<times> 's) option" where
  "Contains q x s =
     do { (_, (s', ok)) \<leftarrow> ApplyUnless q (\<lambda>v (s, _). Some (x = v, (s, x = v))) (s, False);
          Some (ok, s') }"

definition HasValues :: "('a, 's \<times> bool) seq \<Rightarrow> 's \<Rightarrow> (bool \<times> 's) option" where
  "HasValues q s = do { (s', r) \<leftarrow> q (\<lambda>_ (s, _). Some (False, (s, True))) (s, False); Some (r, s') }"

definition HasValues2 :: "('a \<times> 'b, 's \<times> bool) seq \<Rightarrow> 's \<Rightarrow> (bool \<times> 's) option" where
  "HasValues2 q s = do { (s', r) \<leftarrow> q (\<lambda>(_, _) (s, _). Some (False, (s, True))) (s, False); Some (r, s') }"

subsection \<open>Grouping and deduplication\<close>

text \<open>A \<open>map[K][]V\<close> with its operations, and the grouping that remembers the order of the keys.\<close>

type_synonym ('k, 'v) groups = "'k \<rightharpoonup> 'v list"

definition groups_check :: "('k, 'v) groups \<Rightarrow> 'k \<Rightarrow> bool" where
  "groups_check mp key = (mp key \<noteq> None)"

definition groups_get :: "('k, 'v) groups \<Rightarrow> 'k \<Rightarrow> 'v list" where
  "groups_get mp key = (case mp key of None \<Rightarrow> [] | Some vs \<Rightarrow> vs)"

definition groups_add :: "('k, 'v) groups \<Rightarrow> 'k \<Rightarrow> 'v \<Rightarrow> ('k, 'v) groups" where
  "groups_add mp key v = mp(key \<mapsto> groups_get mp key @ [v])"

definition groups_pop :: "('k, 'v) groups \<Rightarrow> 'k \<Rightarrow> 'v list \<times> ('k, 'v) groups" where
  "groups_pop mp key = (groups_get mp key, mp(key := None))"

record ('k, 'v) orderedGrouping =
  og_table :: "('k, 'v) groups"
  og_order :: "'k list"

definition grouping :: "('k, 'v) orderedGrouping" where
  "grouping = \<lparr>og_table = Map.empty, og_order = []\<rparr>"

definition og_append :: "('k, 'v) orderedGrouping \<Rightarrow> 'k \<Rightarrow> ('k, 'v) orderedGrouping" where
  "og_append og key = og\<lparr>og_order := og_order og @ [key]\<rparr>"

definition og_add :: "('k, 'v) orderedGrouping \<Rightarrow> 'k \<Rightarrow> 'v \<Rightarrow> ('k, 'v) orderedGrouping" where
  "og_add og k v =
     (let og1 = (if not_go (groups_check (og_table og) k) then og_append og k else og)
      in og1\<lparr>og_table := groups_add (og_table og1) k v\<rparr>)"

text \<open>The returned sequence empties the table, which it shares with later iterations.\<close>

definition og_iter :: "'k list \<Rightarrow> ('k \<times> 'v list, 's \<times> ('k, 'v) groups) seq" where
  "og_iter order =
     With (Slice order) (\<lambda>k (s, tbl). case groups_pop tbl k of (vs, tbl') \<Rightarrow> Some (vs, (s, tbl')))"

definition Group :: "('k \<times> 'v, ('s \<times> ('k, 'v) orderedGrouping) \<times> int) seq \<Rightarrow> 's \<Rightarrow>
    (('k, 'v) orderedGrouping \<times> 's) option" where
  "Group q s =
     do { (_, (s', grp)) \<leftarrow> Apply2 q (\<lambda>(k, v) (s, grp). Some ((), (s, og_add grp k v))) (s, grouping);
          Some (grp, s') }"

definition GroupBy :: "('v, ('s \<times> ('k, 'v) orderedGrouping) \<times> int) seq \<Rightarrow> ('v \<Rightarrow> 'k) \<Rightarrow> 's \<Rightarrow>
    (('k, 'v) orderedGrouping \<times> 's) option" where
  "GroupBy q groupBy s =
     do { (_, (s', grp)) \<leftarrow> Apply q (\<lambda>v (s, grp). Some ((), (s, og_add grp (groupBy v) v))) (s, grouping);
          Some (grp, s') }"

text \<open>\<open>set.add\<close> reports whether the value was there before.\<close>

definition set_add :: "'a set \<Rightarrow> 'a \<Rightarrow> bool \<times> 'a set" where
  "set_add st v = (v \<in> st, insert v st)"

definition seen :: "('a, bool, 's \<times> 'a set) op" where
  "seen v sl = (case sl of (s, st) \<Rightarrow> case set_add st v of (existed, st') \<Rightarrow> Some (existed, (s, st')))"

definition seenvalue :: "('v \<times> 'k, bool, 's \<times> 'k set) op" where
  "seenvalue vk sl = (case vk of (_, k) \<Rightarrow> seen k sl)"

text \<open>The set is made anew in every iteration, beside the state of the consumer.\<close>

definition outer_yield :: "('a, 's) yield \<Rightarrow> ('a, 's \<times> 'l) yield" where
  "outer_yield yield = lift_op yield"

definition Unique :: "('a, ('s \<times> 'a set) \<times> bool) seq \<Rightarrow> ('a, 's) seq" where
  "Unique q yield s =
     do { (_, (s', _)) \<leftarrow> Flush (Remove q (lift_op seen)) (outer_yield yield) (s, {}); Some s' }"

definition UniqueBy :: "('v, ('s \<times> 'k set) \<times> bool) seq \<Rightarrow> ('v \<Rightarrow> 'k) \<Rightarrow> ('v, 's) seq" where
  "UniqueBy q kfn yield s =
     do { (_, (s', _)) \<leftarrow>
            Flush (First (Remove2 (With q (pureop kfn)) (lift_op seenvalue))) (outer_yield yield) (s, {});
          Some s' }"

subsection \<open>Pulling elements\<close>

text \<open>
  \<open>iter.Pull\<close> turns a sequence into a function that returns its next element.  For a sequence whose
  elements do not depend on what else runs, the \<open>k\<close>-th call returns the element that a run of the
  sequence reaches after passing over \<open>k\<close> others; the model runs the sequence so.  The pull state is
  the number of elements taken.
\<close>

definition pull_body :: "('a, nat \<times> 'a option) yield" where
  "pull_body x nr = (case nr of (n, r) \<Rightarrow> case n of 0 \<Rightarrow> Some (False, (0, Some x)) | Suc m \<Rightarrow> Some (True, (m, r)))"

definition pull_next :: "('a, nat \<times> 'a option) seq \<Rightarrow> nat \<Rightarrow> ('a option) option" where
  "pull_next q k = do { (_, r) \<leftarrow> q pull_body (k, None); Some r }"

partial_function (option) Equal_loop ::
    "('a, nat \<times> 'a option) seq \<Rightarrow> ('a, nat \<times> 'a option) seq \<Rightarrow> nat \<Rightarrow> nat \<Rightarrow> bool option" where
  "Equal_loop rh lh i j =
     do { rhv \<leftarrow> pull_next rh i; lhv \<leftarrow> pull_next lh j;
          if (rhv \<noteq> None) \<noteq> (lhv \<noteq> None) then Some False
          else if rhv = None \<and> lhv = None then Some True
          else if rhv \<noteq> lhv then Some False
          else Equal_loop rh lh (i + 1) (j + 1) }"

definition Equal :: "('a, nat \<times> 'a option) seq \<Rightarrow> ('a, nat \<times> 'a option) seq \<Rightarrow> bool option" where
  "Equal rh lh = Equal_loop rh lh 0 0"

partial_function (option) Zip_loop ::
    "('a, nat \<times> 'a option) seq \<Rightarrow> ('b, nat \<times> 'b option) seq \<Rightarrow> nat \<Rightarrow> nat \<Rightarrow> ('a \<times> 'b, 's) seq" where
  "Zip_loop rh lh i j yield s =
     do { vr \<leftarrow> pull_next rh i;
          case vr of None \<Rightarrow> Some s
          | Some a \<Rightarrow>
              do { vl \<leftarrow> pull_next lh j;
                   case vl of None \<Rightarrow> Some s
                   | Some b \<Rightarrow>
                       do { (ok, s') \<leftarrow> yield (a, b) s;
                            if \<not> ok then Some s' else Zip_loop rh lh (i + 1) (j + 1) yield s' } } }"

definition Zip :: "('a, nat \<times> 'a option) seq \<Rightarrow> ('b, nat \<times> 'b option) seq \<Rightarrow> ('a \<times> 'b, 's) seq" where
  "Zip rh lh = Zip_loop rh lh 0 0"

text \<open>
  \<open>Chunk\<close>: the variables \<open>first\<close> and \<open>left\<close> and the pull state are shared by the outer loop and the
  inner sequences, so the consumer runs on the state beside them.
\<close>

record 'a chunk_vars =
  ck_pos :: nat
  ck_first :: "'a option"
  ck_left :: int

definition ck_next :: "('a, nat \<times> 'a option) seq \<Rightarrow> 'a chunk_vars \<Rightarrow> ('a option \<times> 'a chunk_vars) option" where
  "ck_next q c =
     do { r \<leftarrow> pull_next q (ck_pos c);
          Some (r, (case r of None \<Rightarrow> c | Some _ \<Rightarrow> c\<lparr>ck_pos := ck_pos c + 1\<rparr>)) }"

definition ck_take :: "('a, nat \<times> 'a option) seq \<Rightarrow> int \<Rightarrow> 'a \<Rightarrow> ('a \<times> bool, 's \<times> 'a chunk_vars) thunk" where
  "ck_take q num zero sc =
     (case sc of (s, c) \<Rightarrow>
        if ck_left c = 0 then Some ((zero, False), (s, c))
        else let c1 = c\<lparr>ck_left := ck_left c - 1\<rparr> in
          if ck_left c1 = num - 1
          then Some ((case ck_first c1 of None \<Rightarrow> zero | Some v \<Rightarrow> v, True), (s, c1))
          else do { (r, c2) \<leftarrow> ck_next q c1;
                    Some ((case r of None \<Rightarrow> (zero, False) | Some v \<Rightarrow> (v, True)), (s, c2)) })"

partial_function (option) loopWhile :: "(bool, 's) thunk \<Rightarrow> 's \<Rightarrow> 's option" where
  "loopWhile op s = do { (go, s') \<leftarrow> op s; if go then loopWhile op s' else Some s' }"

partial_function (option) Chunk_loop ::
    "('a, nat \<times> 'a option) seq \<Rightarrow> int \<Rightarrow> 'a \<Rightarrow> (('a, 's \<times> 'a chunk_vars) seq, 's \<times> 'a chunk_vars) yield \<Rightarrow>
     's \<times> 'a chunk_vars \<Rightarrow> ('s \<times> 'a chunk_vars) option" where
  "Chunk_loop q num zero yield sc =
     do { (f, c1) \<leftarrow> ck_next q (snd sc);
          case f of None \<Rightarrow> Some (fst sc, c1)
          | Some _ \<Rightarrow>
              do { (ok, sc2) \<leftarrow> yield (GenerateOk (ck_take q num zero)) (fst sc, c1\<lparr>ck_first := f, ck_left := num\<rparr>);
                   if \<not> ok then Some sc2
                   else do { sc3 \<leftarrow> loopWhile (\<lambda>sc. do { ((_, more), sc') \<leftarrow> ck_take q num zero sc; Some (more, sc') }) sc2;
                             Chunk_loop q num zero yield sc3 } } }"

definition Chunk :: "('a, nat \<times> 'a option) seq \<Rightarrow> int \<Rightarrow> 'a \<Rightarrow>
    (('a, 's \<times> 'a chunk_vars) seq, 's \<times> 'a chunk_vars) yield \<Rightarrow> 's \<Rightarrow> 's option" where
  "Chunk q num zero yield s =
     (if num \<le> 0 then Some s
      else do { (s', _) \<leftarrow> Chunk_loop q num zero yield (s, \<lparr>ck_pos = 0, ck_first = None, ck_left = 0\<rparr>); Some s' })"

subsection \<open>Sorting\<close>

text \<open>
  \<open>slices.Sorted\<close> on an ordered type has one possible result.  For \<open>slices.SortedFunc\<close>, which is not
  stable, the sorting function of the standard library is a parameter.
\<close>

definition Sort_seq :: "('a::linorder, 's \<times> 'a list) seq \<Rightarrow> 's \<Rightarrow> (('a, 's) seq \<times> 's) option" where
  "Sort_seq q s = do { (xs, s') \<leftarrow> AppendSeq [] q s; Some (Slice (sort xs), s') }"

definition SortFunc :: "(('a \<Rightarrow> 'a \<Rightarrow> int) \<Rightarrow> 'a list \<Rightarrow> 'a list) \<Rightarrow> ('a, 's \<times> 'a list) seq \<Rightarrow>
    ('a \<Rightarrow> 'a \<Rightarrow> int) \<Rightarrow> 's \<Rightarrow> (('a, 's) seq \<times> 's) option" where
  "SortFunc sortedFunc q cf s = do { (xs, s') \<leftarrow> AppendSeq [] q s; Some (Slice (sortedFunc cf xs), s') }"

definition cmpf :: "'a::linorder \<Rightarrow> 'a \<Rightarrow> int" where
  "cmpf lh rh = (if lh < rh then -1 else if rh < lh then 1 else 0)"

definition toCmp :: "('a \<Rightarrow> 'k::linorder) \<Rightarrow> 'a \<Rightarrow> 'a \<Rightarrow> int" where
  "toCmp to l r = cmpf (to l) (to r)"

definition SortBy :: "(('a \<Rightarrow> 'a \<Rightarrow> int) \<Rightarrow> 'a list \<Rightarrow> 'a list) \<Rightarrow> ('a, 's \<times> 'a list) seq \<Rightarrow>
    ('a \<Rightarrow> 'k::linorder) \<Rightarrow> 's \<Rightarrow> (('a, 's) seq \<times> 's) option" where
  "SortBy sortedFunc q cf s = do { (xs, s') \<leftarrow> AppendSeq [] q s; Some (Slice (sortedFunc (toCmp cf) xs), s') }"

text \<open>The comparators of \<open>src/irt/kv.go\<close>; a nil comparison is \<open>None\<close>.\<close>

record ('a, 'b) kvcmp =
  kc_lh :: "('a, 'b) KV"
  kc_ac :: "('a \<Rightarrow> 'a \<Rightarrow> int) option"
  kc_bc :: "('b \<Rightarrow> 'b \<Rightarrow> int) option"

definition kvcmp_With :: "('a, 'b) kvcmp \<Rightarrow> ('a, 'b) KV \<Rightarrow> int outcome" where
  "kvcmp_With ec rh =
     (case kc_ac ec of
        None \<Rightarrow> (case kc_bc ec of
                   None \<Rightarrow> Panic ''impossible configuration''
                 | Some bc \<Rightarrow> Done (bc (Value (kc_lh ec)) (Value rh)))
      | Some ac \<Rightarrow> (case kc_bc ec of
                      None \<Rightarrow> Done (ac (Key (kc_lh ec)) (Key rh))
                    | Some bc \<Rightarrow>
                        (let r = ac (Key (kc_lh ec)) (Key rh)
                         in if r \<noteq> 0 then Done r else Done (bc (Value (kc_lh ec)) (Value rh)))))"

definition KV_Compare :: "('a, 'b) KV \<Rightarrow> ('a \<Rightarrow> 'a \<Rightarrow> int) \<Rightarrow> ('b \<Rightarrow> 'b \<Rightarrow> int) \<Rightarrow> ('a, 'b) kvcmp" where
  "KV_Compare e aop bop = \<lparr>kc_lh = e, kc_ac = Some aop, kc_bc = Some bop\<rparr>"

definition KV_CompareFirst :: "('a, 'b) KV \<Rightarrow> ('a \<Rightarrow> 'a \<Rightarrow> int) \<Rightarrow> ('a, 'b) kvcmp" where
  "KV_CompareFirst e aop = \<lparr>kc_lh = e, kc_ac = Some aop, kc_bc = None\<rparr>"

definition KV_CompareSecond :: "('a, 'b) KV \<Rightarrow> ('b \<Rightarrow> 'b \<Rightarrow> int) \<Rightarrow> ('a, 'b) kvcmp" where
  "KV_CompareSecond e bop = \<lparr>kc_lh = e, kc_ac = None, kc_bc = Some bop\<rparr>"

definition KVcmp :: "('a::linorder, 'b::linorder) KV \<Rightarrow> ('a, 'b) KV \<Rightarrow> int outcome" where
  "KVcmp lh rh = kvcmp_With (KV_Compare lh cmpf cmpf) rh"

definition KVcmpFirst :: "('a::linorder, 'b) KV \<Rightarrow> ('a, 'b) KV \<Rightarrow> int outcome" where
  "KVcmpFirst lh rh = kvcmp_With (KV_CompareFirst lh cmpf) rh"

definition KVcmpSecond :: "('a, 'b::linorder) KV \<Rightarrow> ('a, 'b) KV \<Rightarrow> int outcome" where
  "KVcmpSecond l r = kvcmp_With (KV_CompareSecond l cmpf) r"

end
