(* ===== verification/IrtConsumeLaws.thy ===== *)
theory IrtConsumeLaws
  imports IrtConsume
begin

text \<open>
  What the consuming functions compute on a sequence that yields a list, and the combinators
  whose own state decides what they pass on: deduplication, grouping, zipping, chunking.
\<close>

subsection \<open>Loops that only accumulate\<close>

lemma emit_fold: "emit xs (\<lambda>v (s, l). Some (True, (s, f v l))) (s, l) = Some (True, (s, fold f xs l))"
  by (induction xs arbitrary: l) auto

lemma emit_fold2:
  "emit xs (\<lambda>(a, b) (s, l). Some (True, (s, f a b l))) (s, l) = Some (True, (s, fold (\<lambda>(a, b). f a b) xs l))"
  by (induction xs arbitrary: l) auto

lemma fold_append_one: "fold (\<lambda>v out. out @ [v]) xs ys = ys @ xs"
  by (induction xs arbitrary: ys) auto

lemma AppendSeq_yields: "yields q xs \<Longrightarrow> AppendSeq sl q s = Some (sl @ xs, s)"
  using emit_fold[of xs "\<lambda>v out. out @ [v]" s sl]
  by (simp add: AppendSeq_def yieldsD fold_append_one)

lemma Collect_yields:
  "yields q xs \<Longrightarrow> Collect_seq q args s =
     (case collect_slice args of Panic m \<Rightarrow> Some (Panic m, s) | Done sl \<Rightarrow> Some (Done (sl @ xs), s))"
  by (auto simp: Collect_seq_def AppendSeq_yields split: outcome.split)

lemma Collect_no_args: "yields q xs \<Longrightarrow> Collect_seq q [] s = Some (Done xs, s)"
  by (simp add: Collect_yields collect_slice_def)

lemma emit_first_n:
  "0 \<le> i \<Longrightarrow> i < n \<Longrightarrow>
   map_option snd (emit xs (\<lambda>v (s, out, idx). if idx + 1 = n then Some (False, (s, out @ [v], idx))
                       else Some (True, (s, out @ [v], idx + 1))) (s, out, i))
   = Some (s, out @ take (nat (n - i)) xs, i + (if length xs < nat (n - i) then int (length xs) else n - i - 1))"
proof (induction xs arbitrary: i out)
  case (Cons x xs)
  obtain k where k: "nat (n - i) = Suc k" using Cons.prems by (cases "nat (n - i)") auto
  show ?case
  proof (cases "i + 1 = n")
    case True
    then have "k = 0" using k by auto
    then show ?thesis using k True by simp
  next
    case False
    then have "nat (n - (i + 1)) = k" using Cons.prems k by simp
    moreover have "nat (n - i) = Suc (nat (n - (i + 1)))" using Cons.prems by simp
    ultimately show ?thesis
      using Cons.IH[of "i + 1" "out @ [x]"] Cons.prems False by (auto split: if_splits)
  qed
qed simp

lemma CollectFirstN_yields: "yields q xs \<Longrightarrow> CollectFirstN q n s = Some (take (nat n) xs, s)"
  using emit_first_n[of 0 n xs s "[]"]
  by (cases "n \<le> 0") (auto simp: CollectFirstN_def yieldsD)

lemma Collect2_yields: "yields q xs \<Longrightarrow> Collect2 q s = Some (map_of (rev xs), s)"
proof -
  assume q: "yields q xs"
  have "fold (\<lambda>(k, v) mp. mp(k \<mapsto> v)) xs m = m ++ map_of (rev xs)" for m
    by (induction xs arbitrary: m) auto
  then show ?thesis
    using emit_fold2[of xs "\<lambda>k v mp. mp(k \<mapsto> v)" s Map.empty] by (simp add: Collect2_def yieldsD[OF q])
qed

lemma JoinStrings_yields: "yields q xs \<Longrightarrow> JoinStrings q s = Some (concat xs, s)"
proof -
  assume q: "yields q xs"
  have "fold (\<lambda>str buf. buf @ str) xs b = b @ concat xs" for b
    by (induction xs arbitrary: b) auto
  then show ?thesis
    using emit_fold[of xs "\<lambda>str buf. buf @ str" s "[]"] by (simp add: JoinStrings_def yieldsD[OF q])
qed

text \<open>The separator follows every element but the last that is not empty.\<close>

fun sep_after :: "string \<Rightarrow> string list \<Rightarrow> string" where
  "sep_after sep [] = []"
| "sep_after sep [x] = x"
| "sep_after sep (x # y # xs) = x @ (if x = [] then [] else sep) @ sep_after sep (y # xs)"

lemma join_with_emit:
  "emit xs (\<lambda>str (s, buf, lastSize). let buf1 = (if length buf > lastSize then buf @ sep else buf)
      in Some (True, (s, buf1 @ str, length buf1))) (s, b @ p, length b)
   = Some (True, (s, b @ sep_after sep (p # xs), length b + length (sep_after sep (p # xs)) - length (last (p # xs))))"
proof (induction xs arbitrary: b p)
  case Nil
  show ?case by simp
next
  case (Cons x xs)
  let ?b = "b @ p @ (if p = [] then [] else sep)"
  have "(if length (b @ p) > length b then (b @ p) @ sep else b @ p) = ?b" by auto
  then show ?case
    using Cons.IH[of ?b x] by (auto simp: Let_def)
qed

lemma JoinStringsWith_yields: "yields q xs \<Longrightarrow> JoinStringsWith q sep s = Some (sep_after sep xs, s)"
proof -
  assume q: "yields q xs"
  have "sep_after sep ([] # xs) = sep_after sep xs"
    by (cases xs) auto
  then show ?thesis
    using join_with_emit[of xs sep s "[]" "[]"] by (simp add: JoinStringsWith_def yieldsD[OF q])
qed

lemma JoinStringsWith_intercalates:
  assumes "yields q xs" and "\<forall>x\<in>set xs. x \<noteq> []"
  shows "JoinStringsWith q sep s =
           Some (case xs of [] \<Rightarrow> [] | x # ys \<Rightarrow> x @ concat (map (\<lambda>y. sep @ y) ys), s)"
proof -
  have "sep_after sep (x # ys) = x @ concat (map (\<lambda>y. sep @ y) ys)" if "x \<noteq> []" "\<forall>y\<in>set ys. y \<noteq> []" for x ys
    using that by (induction ys arbitrary: x) auto
  then show ?thesis
    using assms by (auto simp: JoinStringsWith_yields split: list.split)
qed

subsection \<open>The apply family\<close>

fun run_each :: "('a, unit, 's) op \<Rightarrow> 'a list \<Rightarrow> 's \<Rightarrow> 's option" where
  "run_each op [] s = Some s"
| "run_each op (x # xs) s = do { (_, s') \<leftarrow> op x s; run_each op xs s' }"

lemma Apply_yields:
  assumes "yields q xs"
  shows "Apply q op s = map_option (\<lambda>s'. (int (length xs), s')) (run_each op xs s)"
proof -
  have "map_option snd (emit xs (\<lambda>v (s, count). do { (_, s') \<leftarrow> op v s; Some (True, (s', count + 1)) }) (s, c))
      = map_option (\<lambda>s'. (s', c + int (length xs))) (run_each op xs s)" for s and c :: int
    by (induction xs arbitrary: s c) (auto simp: map_option_bind add.assoc split: Option.bind_splits)
  then show ?thesis
    by (cases "run_each op xs s") (simp_all add: Apply_def yieldsD[OF assms])
qed

lemma Apply2_eq: "Apply2 q op = Apply q op"
proof (intro ext)
  fix s
  have "(\<lambda>(k, v) (s, count :: int). do { (_, s') \<leftarrow> op (k, v) s; Some (True, (s', count + 1)) })
      = (\<lambda>v (s, count). do { (_, s') \<leftarrow> op v s; Some (True, (s', count + 1)) })"
    by (intro ext) (simp split: prod.splits)
  then show "Apply2 q op s = Apply q op s"
    by (simp only: Apply2_def Apply_def)
qed

lemma run_each_pure: "run_each (\<lambda>v s. Some ((), f v s)) xs s = Some (fold f xs s)"
  by (induction xs arbitrary: s) auto

lemma Apply_pure: "yields q xs \<Longrightarrow> Apply q (\<lambda>v s. Some ((), f v s)) s = Some (int (length xs), fold f xs s)"
  by (simp add: Apply_yields run_each_pure)

fun prefix_count :: "('a \<Rightarrow> bool) \<Rightarrow> 'a list \<Rightarrow> int" where
  "prefix_count p [] = 0"
| "prefix_count p (x # xs) = 1 + (if p x then prefix_count p xs else 0)"

lemma ApplyWhile_yields:
  assumes "yields q xs"
  shows "ApplyWhile q (pureop p) s = Some (prefix_count p xs, s)"
proof -
  have e: "map_option snd (emit xs (\<lambda>v (s, count). do { (go, s') \<leftarrow> pureop p v s;
            if \<not> go then Some (False, (s', count + 1)) else Some (True, (s', count + 1)) }) (s, c))
      = Some (s, c + prefix_count p xs)" for c :: int
  proof (induction xs arbitrary: c)
    case (Cons x xs)
    from Cons.IH[of "c + 1"] show ?case by (auto simp: add.assoc)
  qed simp
  show ?thesis unfolding ApplyWhile_def yieldsD[OF assms] e by simp
qed

lemma ApplyUntil_yields:
  assumes "yields q xs"
  shows "ApplyUntil q (pureop f) s = Some (find (\<lambda>e. e \<noteq> None) (map f xs) \<bind> (\<lambda>e. e), s)"
proof -
  have e: "map_option snd (emit xs (\<lambda>v (s, r). do { (err, s') \<leftarrow> pureop f v s;
            if err \<noteq> None then Some (False, (s', err)) else Some (True, (s', r)) }) (s, None))
      = Some (s, find (\<lambda>e. e \<noteq> None) (map f xs) \<bind> (\<lambda>e. e))"
    by (induction xs) auto
  show ?thesis unfolding ApplyUntil_def yieldsD[OF assms] e by simp
qed

lemma lift_pureop [simp]: "lift_op (pureop f) = pureop f"
  by (intro ext) (simp add: lift_op_def split: prod.split)

lemma ApplyAll_yields:
  assumes "yields q xs"
  shows "ApplyAll q (pureop f) s = Some (errors_Join (map f xs), s)"
  using AppendSeq_yields[OF yields_Convert[OF assms, of f], of "[]" s]
  by (simp add: ApplyAll_def JoinErrors_def)

subsection \<open>Searches and reductions\<close>

lemma Initial_yields:
  "yields q xs \<Longrightarrow> Initial z q s = Some (case xs of [] \<Rightarrow> (z, False) | x # _ \<Rightarrow> (x, True), s)"
  by (cases xs) (simp_all add: Initial_def yieldsD)

lemma Final_yields:
  "yields q xs \<Longrightarrow> Final z q s = Some (if xs = [] then (z, False) else (last xs, True), s)"
proof -
  assume q: "yields q xs"
  have "fold (\<lambda>v _. (v, True)) xs r = (if xs = [] then r else (last xs, True))" for r
    by (induction xs arbitrary: r) auto
  then show ?thesis
    using emit_fold[of xs "\<lambda>v _. (v, True)" s "(z, False)"] by (simp add: Final_def yieldsD[OF q])
qed

lemma Reduce_yields:
  assumes "yields q xs"
  shows "Reduce q z (pureop (\<lambda>(b, a). f b a)) s = Some (foldl f z xs, s)"
proof -
  have "emit xs (\<lambda>v (s, out). do { (out', s') \<leftarrow> pureop (\<lambda>(b, a). f b a) (out, v) s; Some (True, (s', out')) }) (s, b)
      = Some (True, (s, foldl f b xs))" for b
    by (induction xs arbitrary: b) auto
  then show ?thesis by (simp add: Reduce_def yieldsD[OF assms])
qed

lemma Count_yields: "yields q xs \<Longrightarrow> Count q s = Some (int (length xs), s)"
proof -
  assume q: "yields q xs"
  have op: "(\<lambda>_ (s, nxt, sz). case counter nxt of (r, nxt') \<Rightarrow> Some ((), (s, nxt', r)))
      = (\<lambda>_ t. Some ((), case t of (s, nxt, sz) \<Rightarrow> (s, nxt + 1, nxt + 1)))"
    by (intro ext) (simp add: counter_def split: prod.split)
  have "\<exists>a b. fold (\<lambda>_ t. case t of (s, nxt, sz) \<Rightarrow> (s, nxt + 1, nxt + 1)) xs (s, n, m) = (s, a, b)" for n m :: int
    by (induction xs arbitrary: n m) auto
  then obtain a b where
    "fold (\<lambda>_ t. case t of (s, nxt, sz) \<Rightarrow> (s, nxt + 1, nxt + 1)) xs (s, 0::int, 0::int) = (s, a, b)"
    by blast
  then show ?thesis
    by (simp add: Count_def op Apply_pure[OF q])
qed

lemma Contains_yields:
  assumes "yields q xs"
  shows "Contains q x s = Some (x \<in> set xs, s)"
proof -
  let ?op = "notf (\<lambda>v (s, _). Some (x = v, (s, x = v)))"
  have "\<exists>a c'. emit xs (\<lambda>v (s, count). do { (go, s') \<leftarrow> ?op v s;
            if \<not> go then Some (False, (s', count + 1)) else Some (True, (s', count + 1)) }) ((s, False), c)
      = Some (a, (s, x \<in> set xs), c')" for c :: int
    by (induction xs arbitrary: c) (auto simp: helper_defs)
  then obtain a c' where
    "emit xs (\<lambda>v (s, count). do { (go, s') \<leftarrow> ?op v s;
            if \<not> go then Some (False, (s', count + 1)) else Some (True, (s', count + 1)) }) ((s, False), 0::int)
      = Some (a, (s, x \<in> set xs), c')" by blast
  then show ?thesis
    by (simp add: Contains_def ApplyUnless_def ApplyWhile_def yieldsD[OF assms])
qed

lemma HasValues_yields: "yields q xs \<Longrightarrow> HasValues q s = Some (xs \<noteq> [], s)"
  by (cases xs) (simp_all add: HasValues_def yieldsD)

subsection \<open>Deduplication and grouping\<close>

fun firsts :: "('a \<Rightarrow> 'k) \<Rightarrow> 'k set \<Rightarrow> 'a list \<Rightarrow> 'a list" where
  "firsts f S [] = []"
| "firsts f S (x # xs) = (if f x \<in> S then firsts f S xs else x # firsts f (insert (f x) S) xs)"

lemma set_firsts: "f ` set (firsts f S xs) = f ` set xs - S"
  by (induction f S xs rule: firsts.induct) auto

lemma set_map_firsts: "set (map f (firsts f S xs)) = f ` set xs - S"
  by (simp add: set_firsts)

lemma distinct_firsts: "distinct (map f (firsts f S xs))"
  by (induction f S xs rule: firsts.induct) (auto simp: set_map_firsts simp del: set_map)

lemma firsts_subseq: "set (firsts f S xs) \<subseteq> set xs"
  by (induction f S xs rule: firsts.induct) auto

lemma emit_outer_unique:
  "map_option (\<lambda>(ok, (s', _)). s')
     (emit xs (\<lambda>v (s, st). if f v \<in> st then Some (True, (s, insert (f v) st))
         else do { (ok, s') \<leftarrow> yield (g v) s; Some (ok, (s', insert (f v) st)) }) (s, st))
   = map_option snd (emit (map g (firsts f st xs)) yield s)"
proof (induction xs arbitrary: s st)
  case (Cons x xs)
  show ?case
  proof (cases "f x \<in> st")
    case True
    then show ?thesis using Cons.IH[of s st] by (simp add: insert_absorb)
  next
    case False
    show ?thesis
    proof (cases "yield (g x) s")
      case None
      with False show ?thesis by simp
    next
      case (Some r)
      with False show ?thesis using Cons.IH by (cases r) auto
    qed
  qed
qed simp

text \<open>
  The deduplicating combinators keep the set beside the consumer's state, so the law is proved on
  the run of the whole loop.
\<close>

definition outer_flush :: "('a, 's) yield \<Rightarrow> ('a, ('s \<times> 'l) \<times> bool) yield" where
  "outer_flush yield = flush_body (outer_yield yield)"

lemma outer_flush_apply [simp]:
  "outer_flush yield x ((s, l), r) =
     do { (ok, s') \<leftarrow> yield x s;
          if \<not> ok then Some (False, ((s', l), False)) else Some (True, ((s', l), r)) }"
  by (cases "yield x s") (auto simp: outer_flush_def flush_body_def outer_yield_def)

lemma Unique_emit:
  "\<exists>r' st'. map_option snd (emit xs (\<lambda>v t. do { (p, t1) \<leftarrow> notf (lift_op seen) v t;
        if p then do { (ok, t2) \<leftarrow> outer_flush yield v t1; if \<not> ok then Some (False, t2) else Some (True, t2) }
        else Some (True, t1) }) ((s, st), r))
   = map_option (\<lambda>(_, s'). ((s', st' s'), r' s')) (emit (firsts (\<lambda>x. x) st xs) yield s)"
proof (induction xs arbitrary: s st r)
  case Nil
  show ?case by (rule exI[of _ "\<lambda>_. r"], rule exI[of _ "\<lambda>_. st"]) simp
next
  case (Cons x xs)
  show ?case
  proof (cases "x \<in> st")
    case True
    then show ?thesis
      using Cons.IH[of s st r] by (simp add: helper_defs seen_def set_add_def insert_absorb)
  next
    case False
    show ?thesis
    proof (cases "yield x s")
      case None
      with False show ?thesis by (simp add: helper_defs seen_def set_add_def)
    next
      case (Some a)
      obtain ok s' where a: "a = (ok, s')" by (cases a)
      show ?thesis
      proof (cases ok)
        case True
        with False Some a show ?thesis
          using Cons.IH[of s' "insert x st" r] by (simp add: helper_defs seen_def set_add_def)
      next
        case F: False
        show ?thesis
          by (rule exI[of _ "\<lambda>_. False"], rule exI[of _ "\<lambda>_. insert x st"])
            (use False F Some a in \<open>simp add: helper_defs seen_def set_add_def\<close>)
      qed
    qed
  qed
qed

lemma yields_Unique [seq_simps]:
  assumes "yields (q :: ('a, ('s \<times> 'a set) \<times> bool) seq) xs"
  shows "yields (Unique q) (firsts (\<lambda>x. x) {} xs)"
proof (rule yieldsI)
  fix yield :: "('a, 's) yield" and s
  obtain r' st' where e: "map_option snd (emit xs (\<lambda>v t. do { (p, t1) \<leftarrow> notf (lift_op seen) v t;
        if p then do { (ok, t2) \<leftarrow> outer_flush yield v t1; if \<not> ok then Some (False, t2) else Some (True, t2) }
        else Some (True, t1) }) ((s, {}), True))
      = map_option (\<lambda>(_, s'). ((s', st' s'), r' s')) (emit (firsts (\<lambda>x. x) {} xs) yield s)"
    using Unique_emit[of xs yield s "{}" True] by blast
  have "Unique q yield s = map_option (\<lambda>((s', _), _). s')
      (Remove q (lift_op seen) (outer_flush yield) ((s, {}), True))"
    unfolding Unique_def Flush_eq outer_flush_def
    by (cases "Remove q (lift_op seen) (flush_body (outer_yield yield)) ((s, {}), True)") auto
  also have "\<dots> = map_option snd (emit (firsts (\<lambda>x. x) {} xs) yield s)"
    unfolding Remove_def Keep_def yieldsD[OF assms] e
    by (cases "emit (firsts (\<lambda>x. x) {} xs) yield s") auto
  finally show "Unique q yield s = map_option snd (emit (firsts (\<lambda>x. x) {} xs) yield s)" .
qed

text \<open>\<open>UniqueBy\<close> is the same loop over the values with their keys.\<close>

lemma UniqueBy_emit:
  "\<exists>r' st'. map_option snd (emit (map (\<lambda>v. (v, g v)) xs) (\<lambda>(v, k) t. do { (p, t1) \<leftarrow> notf2 (lift_op seenvalue) (v, k) t;
        if p then do { (ok, t2) \<leftarrow> outer_flush yield v t1; if \<not> ok then Some (False, t2) else Some (True, t2) }
        else Some (True, t1) }) ((s, st), r))
   = map_option (\<lambda>(_, s'). ((s', st' s'), r' s')) (emit (firsts g st xs) yield s)"
proof (induction xs arbitrary: s st r)
  case Nil
  show ?case by (rule exI[of _ "\<lambda>_. r"], rule exI[of _ "\<lambda>_. st"]) simp
next
  case (Cons x xs)
  show ?case
  proof (cases "g x \<in> st")
    case True
    then show ?thesis
      using Cons.IH[of s st r] by (simp add: helper_defs seenvalue_def seen_def set_add_def insert_absorb)
  next
    case False
    show ?thesis
    proof (cases "yield x s")
      case None
      with False show ?thesis by (simp add: helper_defs seenvalue_def seen_def set_add_def)
    next
      case (Some a)
      obtain ok s' where a: "a = (ok, s')" by (cases a)
      show ?thesis
      proof (cases ok)
        case True
        with False Some a show ?thesis
          using Cons.IH[of s' "insert (g x) st" r] by (simp add: helper_defs seenvalue_def seen_def set_add_def)
      next
        case F: False
        show ?thesis
          by (rule exI[of _ "\<lambda>_. False"], rule exI[of _ "\<lambda>_. insert (g x) st"])
            (use False F Some a in \<open>simp add: helper_defs seenvalue_def seen_def set_add_def\<close>)
      qed
    qed
  qed
qed

lemma yields_UniqueBy [seq_simps]:
  assumes "yields (q :: ('a, ('s \<times> 'k set) \<times> bool) seq) xs"
  shows "yields (UniqueBy q g) (firsts g {} xs)"
proof (rule yieldsI)
  fix yield :: "('a, 's) yield" and s
  let ?body = "\<lambda>(v, k) t. do { (p, t1) \<leftarrow> notf2 (lift_op seenvalue) (v, k) t;
        if p then do { (ok, t2) \<leftarrow> outer_flush yield v t1; if \<not> ok then Some (False, t2) else Some (True, t2) }
        else Some (True, t1) }"
  obtain r' st' where e: "map_option snd (emit (map (\<lambda>v. (v, g v)) xs) ?body ((s, {}), True))
      = map_option (\<lambda>(_, s'). ((s', st' s'), r' s')) (emit (firsts g {} xs) yield s)"
    using UniqueBy_emit[of g xs yield s "{}" True] by blast
  have w: "yields (With q (pureop g)) (map (\<lambda>v. (v, g v)) xs)"
    by (rule yields_With[OF assms])
  have f: "First (Remove2 (With q (pureop g)) (lift_op seenvalue)) (outer_flush yield) t
      = map_option snd (emit (map (\<lambda>v. (v, g v)) xs) ?body t)" for t
    unfolding First_def Merge_def Remove2_def Keep2_def yieldsD[OF w] by (simp add: first_def cong: if_cong)
  have "UniqueBy q g yield s = map_option (\<lambda>((s', _), _). s')
      (First (Remove2 (With q (pureop g)) (lift_op seenvalue)) (outer_flush yield) ((s, {}), True))"
    unfolding UniqueBy_def Flush_eq outer_flush_def
    by (cases "First (Remove2 (With q (pureop g)) (lift_op seenvalue)) (flush_body (outer_yield yield)) ((s, {}), True)") auto
  also have "\<dots> = map_option snd (emit (firsts g {} xs) yield s)"
    unfolding f e by (cases "emit (firsts g {} xs) yield s") auto
  finally show "UniqueBy q g yield s = map_option snd (emit (firsts g {} xs) yield s)" .
qed

text \<open>Grouping: the keys in the order of their first value, each with its values in order.\<close>

definition grouped :: "('k \<times> 'v) list \<Rightarrow> ('k \<times> 'v list) list" where
  "grouped kvs = map (\<lambda>k. (k, map snd (filter (\<lambda>(k', _). k' = k) kvs))) (map fst (firsts fst {} kvs))"

definition og_of :: "('k \<times> 'v) list \<Rightarrow> ('k, 'v) orderedGrouping \<Rightarrow> bool" where
  "og_of kvs og \<longleftrightarrow>
     og_order og = map fst (firsts fst {} kvs) \<and>
     og_table og = (\<lambda>k. if k \<in> fst ` set kvs then Some (map snd (filter (\<lambda>(k', _). k' = k) kvs)) else None)"

lemma firsts_snoc: "firsts f S (xs @ [x]) = firsts f S xs @ (if f x \<in> S \<union> f ` set xs then [] else [x])"
  by (induction f S xs rule: firsts.induct) auto

lemma og_of_grouping: "og_of [] grouping"
  by (simp add: og_of_def grouping_def)

lemma filter_fresh_key: "k \<notin> fst ` set kvs \<Longrightarrow> filter (\<lambda>(k', _). k' = k) kvs = []"
  by (induction kvs) auto

lemma og_of_add: "og_of kvs og \<Longrightarrow> og_of (kvs @ [(k, v)]) (og_add og k v)"
  by (auto simp: og_of_def og_add_def og_append_def groups_add_def groups_get_def groups_check_def
      not_go_def firsts_snoc Let_def fun_eq_iff filter_fresh_key)

lemma og_of_fold: "og_of kvs0 og \<Longrightarrow> og_of (kvs0 @ kvs) (fold (\<lambda>(k, v) g. og_add g k v) kvs og)"
proof (induction kvs arbitrary: kvs0 og)
  case (Cons kv kvs)
  obtain k v where kv: "kv = (k, v)" by (cases kv)
  from Cons.IH[OF og_of_add[OF Cons.prems, of k v]] show ?case by (simp add: kv)
qed simp

lemma Group_yields:
  assumes "yields q kvs"
  shows "\<exists>og. Group q s = Some (og, s) \<and> og_of kvs og"
proof -
  have op: "(\<lambda>(k, v) (s, grp). Some ((), (s, og_add grp k v)))
      = (\<lambda>kv t. Some ((), case t of (s, g) \<Rightarrow> (s, case kv of (k, v) \<Rightarrow> og_add g k v)))"
    by (intro ext) (simp split: prod.split)
  have "fold (\<lambda>kv t. case t of (s, g) \<Rightarrow> (s, case kv of (k, v) \<Rightarrow> og_add g k v)) kvs (s, g)
      = (s, fold (\<lambda>(k, v) g. og_add g k v) kvs g)" for g
    by (induction kvs arbitrary: g) (auto split: prod.split)
  then show ?thesis
    using og_of_fold[OF og_of_grouping, of kvs]
    by (simp add: Group_def Apply2_eq op Apply_pure[OF assms])
qed

lemma og_iter_run:
  assumes "distinct order" "\<forall>k\<in>set order. tbl k = Some (vs k)"
  shows "map_option (\<lambda>s'. fst s') (og_iter order (lift_op yield) (s, tbl))
         = map_option snd (emit (map (\<lambda>k. (k, vs k)) order) yield s)"
proof -
  have "map_option (\<lambda>r. fst (snd r)) (emit order (\<lambda>k t. do { (b, t') \<leftarrow>
            (case t of (s, tbl) \<Rightarrow> case groups_pop tbl k of (vs, tbl') \<Rightarrow> Some (vs, (s, tbl')));
            lift_op yield (k, b) t' }) (s, tbl))
      = map_option snd (emit (map (\<lambda>k. (k, vs k)) order) yield s)"
    using assms
  proof (induction order arbitrary: s tbl)
    case (Cons k ks)
    have IH: "map_option (\<lambda>r. fst (snd r)) (emit ks (\<lambda>k t. do { (b, t') \<leftarrow>
            (case t of (s, tbl) \<Rightarrow> case groups_pop tbl k of (vs, tbl') \<Rightarrow> Some (vs, (s, tbl')));
            lift_op yield (k, b) t' }) (s', tbl(k := None)))
          = map_option snd (emit (map (\<lambda>k. (k, vs k)) ks) yield s')" for s'
      using Cons.prems by (intro Cons.IH) auto
    show ?case
    proof (cases "yield (k, vs k) s")
      case None
      with Cons.prems show ?thesis by (simp add: groups_pop_def groups_get_def)
    next
      case (Some r)
      with Cons.prems IH show ?thesis by (cases r) (simp add: groups_pop_def groups_get_def)
    qed
  qed simp
  then show ?thesis
    by (simp add: og_iter_def With_def Slice_def option.map_comp comp_def)
qed

text \<open>
  Running the sequence that \<open>Group\<close> returns: the pairs of a key and its values, the keys in the
  order in which they first appeared.
\<close>

lemma Group_iter:
  assumes "yields q kvs"
  shows "\<exists>og. Group q s = Some (og, s) \<and>
     map_option fst (og_iter (og_order og) (lift_op yield) (t, og_table og)) = map_option snd (emit (grouped kvs) yield t)"
proof -
  obtain og where og: "Group q s = Some (og, s)" "og_of kvs og"
    using Group_yields[OF assms] by blast
  have "set (og_order og) = fst ` set kvs"
    using og(2) set_firsts[of fst "{}" kvs] by (simp add: og_of_def)
  then have "map_option (\<lambda>s'. fst s') (og_iter (og_order og) (lift_op yield) (t, og_table og))
      = map_option snd (emit (map (\<lambda>k. (k, map snd (filter (\<lambda>(k', _). k' = k) kvs))) (og_order og)) yield t)"
    using og(2) distinct_firsts[of fst "{}" kvs]
    by (intro og_iter_run) (simp_all add: og_of_def)
  then show ?thesis
    using og by (auto simp: grouped_def og_of_def)
qed

subsection \<open>Pulling\<close>

lemma emit_pull_body:
  "\<exists>a n. emit xs pull_body (k, None) = Some (a, n, if k < length xs then Some (xs ! k) else None)"
proof (induction xs arbitrary: k)
  case (Cons x xs)
  show ?case
  proof (cases k)
    case 0
    then show ?thesis by (auto simp: pull_body_def intro!: exI[of _ False])
  next
    case (Suc m)
    have "emit (x # xs) pull_body (Suc m, None) = emit xs pull_body (m, None)"
      by (simp add: pull_body_def)
    with Suc Cons.IH[of m] show ?thesis by (simp only: length_Cons Suc_less_eq nth_Cons_Suc)
  qed
qed (auto intro!: exI[of _ True])

lemma pull_next_yields:
  assumes "yields q xs"
  shows "pull_next q k = Some (if k < length xs then Some (xs ! k) else None)"
  using emit_pull_body[of xs k] by (auto simp: pull_next_def yieldsD[OF assms])

lemma Zip_loop_yields:
  assumes "yields rh xs" "yields lh ys"
  shows "Zip_loop rh lh i i yield s = map_option snd (emit (zip (drop i xs) (drop i ys)) yield s)"
proof (induction "length xs - i" arbitrary: i s)
  case 0
  then show ?case
    by (subst Zip_loop.simps) (simp add: pull_next_yields[OF assms(1)])
next
  case (Suc n)
  then have i: "i < length xs" and n: "n = length xs - (i + 1)" by auto
  show ?case
  proof (cases "i < length ys")
    case False
    with i show ?thesis
      by (subst Zip_loop.simps) (simp add: pull_next_yields[OF assms(1)] pull_next_yields[OF assms(2)])
  next
    case True
    have "zip (drop i xs) (drop i ys) = (xs ! i, ys ! i) # zip (drop (i + 1) xs) (drop (i + 1) ys)"
      using i True by (simp add: Cons_nth_drop_Suc[symmetric])
    with i True show ?thesis
      using Suc.hyps(1)[OF n]
      by (subst Zip_loop.simps)
        (auto simp: pull_next_yields[OF assms(1)] pull_next_yields[OF assms(2)] split: Option.bind_splits)
  qed
qed

lemma yields_Zip [seq_simps]: "yields rh xs \<Longrightarrow> yields lh ys \<Longrightarrow> yields (Zip rh lh) (zip xs ys)"
  by (rule yieldsI) (simp add: Zip_def Zip_loop_yields)

lemma Equal_loop_yields:
  assumes "yields rh xs" "yields lh ys"
  shows "Equal_loop rh lh i i = Some (drop i xs = drop i ys)"
proof (induction "length xs - i" arbitrary: i)
  case 0
  then show ?case
    by (subst Equal_loop.simps) (auto simp: pull_next_yields[OF assms(1)] pull_next_yields[OF assms(2)])
next
  case (Suc n)
  then have i: "i < length xs" and n: "n = length xs - (i + 1)" by auto
  show ?case
  proof (cases "i < length ys")
    case False
    with i show ?thesis
      by (subst Equal_loop.simps) (auto simp: pull_next_yields[OF assms(1)] pull_next_yields[OF assms(2)])
  next
    case True
    with i show ?thesis
      using Suc.hyps(1)[OF n]
      by (subst Equal_loop.simps)
        (auto simp: pull_next_yields[OF assms(1)] pull_next_yields[OF assms(2)] simp flip: Cons_nth_drop_Suc)
  qed
qed

lemma Equal_yields: "yields rh xs \<Longrightarrow> yields lh ys \<Longrightarrow> Equal rh lh = Some (xs = ys)"
  by (simp add: Equal_def Equal_loop_yields)

subsection \<open>Chunks\<close>

text \<open>
  What the variables of \<open>Chunk\<close> stand for: the elements the current chunk has not handed out yet,
  and those after the current chunk.
\<close>

definition ck_ok :: "int \<Rightarrow> 'a chunk_vars \<Rightarrow> bool" where
  "ck_ok num c \<longleftrightarrow> 0 < num \<and> 0 \<le> ck_left c \<and> ck_left c \<le> num \<and> (ck_left c = num \<longrightarrow> ck_first c \<noteq> None)"

definition ck_avail :: "int \<Rightarrow> 'a list \<Rightarrow> 'a chunk_vars \<Rightarrow> 'a list" where
  "ck_avail num xs c =
     (if ck_left c = num
      then the (ck_first c) # take (nat (num - 1)) (drop (ck_pos c) xs)
      else take (nat (ck_left c)) (drop (ck_pos c) xs))"

definition ck_rest :: "int \<Rightarrow> 'a list \<Rightarrow> 'a chunk_vars \<Rightarrow> 'a list" where
  "ck_rest num xs c = drop (nat (if ck_left c = num then num - 1 else ck_left c)) (drop (ck_pos c) xs)"

lemma ck_next_yields:
  "yields q xs \<Longrightarrow> ck_next q c =
     Some (if ck_pos c < length xs then (Some (xs ! ck_pos c), c\<lparr>ck_pos := ck_pos c + 1\<rparr>) else (None, c))"
  by (simp add: ck_next_def pull_next_yields)

lemma ck_take_spec:
  assumes "yields q xs" "ck_ok num c"
  shows "\<exists>c'. ck_take q num zero (s, c)
             = Some (case ck_avail num xs c of [] \<Rightarrow> (zero, False) | v # _ \<Rightarrow> (v, True), (s, c'))
           \<and> ck_ok num c' \<and> ck_avail num xs c' = tl (ck_avail num xs c) \<and> ck_rest num xs c' = ck_rest num xs c"
proof -
  consider "ck_left c = 0" | "ck_left c = num" | "0 < ck_left c" "ck_left c < num"
    using assms(2) by (force simp: ck_ok_def)
  then show ?thesis
  proof cases
    case 1
    then show ?thesis using assms(2) by (simp add: ck_take_def ck_avail_def ck_ok_def)
  next
    case 2
    then show ?thesis
      using assms(2) by (auto simp: ck_take_def ck_avail_def ck_rest_def ck_ok_def Let_def)
  next
    case 3
    obtain k where k: "nat (ck_left c) = Suc k" "nat (ck_left c - 1) = k"
      using 3 by (metis Suc_pred' nat_diff_distrib nat_one_as_int zero_le_one zero_less_nat_eq
        diff_Suc_1 int_one_le_iff_zero_less)
    show ?thesis
    proof (cases "ck_pos c < length xs")
      case True
      then have d: "drop (ck_pos c) xs = xs ! ck_pos c # drop (Suc (ck_pos c)) xs"
        by (simp add: Cons_nth_drop_Suc)
      with 3 True k assms(2) show ?thesis
        by (simp add: ck_take_def ck_next_yields[OF assms(1)] ck_avail_def ck_rest_def ck_ok_def Let_def d)
    next
      case False
      with 3 assms(2) show ?thesis
        by (simp add: ck_take_def ck_next_yields[OF assms(1)] ck_avail_def ck_rest_def ck_ok_def Let_def)
    qed
  qed
qed

lemma loopWhile_drains:
  assumes "yields q xs" "ck_ok num c"
  shows "\<exists>c'. loopWhile (\<lambda>sc. do { ((_, more), sc') \<leftarrow> ck_take q num zero sc; Some (more, sc') }) (s, c) = Some (s, c')
           \<and> ck_ok num c' \<and> ck_avail num xs c' = [] \<and> ck_rest num xs c' = ck_rest num xs c"
  using assms(2)
proof (induction "ck_avail num xs c" arbitrary: c)
  case Nil
  then show ?case
    using ck_take_spec[OF assms(1) Nil.prems, of zero s] by (subst loopWhile.simps) auto
next
  case (Cons v vs)
  obtain c1 where c1: "ck_take q num zero (s, c) = Some ((v, True), (s, c1))" "ck_ok num c1"
      "ck_avail num xs c1 = vs" "ck_rest num xs c1 = ck_rest num xs c"
    using ck_take_spec[OF assms(1) Cons.prems, of zero s] Cons.hyps(2)[symmetric] by auto
  with Cons.hyps(1)[of c1] show ?case by (subst loopWhile.simps) simp
qed

lemma ck_drained: "ck_ok num c \<Longrightarrow> ck_avail num xs c = [] \<Longrightarrow> drop (ck_pos c) xs = ck_rest num xs c"
  by (auto simp: ck_ok_def ck_avail_def ck_rest_def split: if_splits)

text \<open>
  A consumer of chunks that reads at most \<open>m\<close> elements of each: its state is the list of what it
  read and the buffer of the current chunk.
\<close>

definition grab_body :: "nat \<Rightarrow> ('a, ('a list list \<times> 'a list) \<times> 'a chunk_vars) yield" where
  "grab_body m v sc = (case sc of ((d, cur), c) \<Rightarrow> Some (length cur + 1 < m, ((d, cur @ [v]), c)))"

definition grab :: "nat \<Rightarrow> (('a, ('a list list \<times> 'a list) \<times> 'a chunk_vars) seq,
    ('a list list \<times> 'a list) \<times> 'a chunk_vars) yield" where
  "grab m q sc = (case sc of ((d, _), c) \<Rightarrow>
     do { ((d', cur), c') \<leftarrow> (if m = 0 then Some ((d, []), c) else q (grab_body m) ((d, []), c));
          Some (True, ((d' @ [cur], []), c')) })"

lemma grab_chunk:
  assumes "yields q xs" "ck_ok num c" "length cur < m"
  shows "\<exists>c'. GenerateOk (ck_take q num zero) (grab_body m) ((d, cur), c)
            = Some ((d, cur @ take (m - length cur) (ck_avail num xs c)), c')
          \<and> ck_ok num c' \<and> ck_rest num xs c' = ck_rest num xs c"
  using assms(2,3)
proof (induction "ck_avail num xs c" arbitrary: c cur)
  case Nil
  then show ?case
    using ck_take_spec[OF assms(1) Nil.prems(1), of zero "(d, cur)"] by (subst GenerateOk.simps) auto
next
  case (Cons v vs)
  obtain c1 where c1: "ck_take q num zero ((d, cur), c) = Some ((v, True), ((d, cur), c1))" "ck_ok num c1"
      "ck_avail num xs c1 = vs" "ck_rest num xs c1 = ck_rest num xs c"
    using ck_take_spec[OF assms(1) Cons.prems(1), of zero "(d, cur)"] Cons.hyps(2)[symmetric] by auto
  obtain k where k: "m - length cur = Suc k" "m - length (cur @ [v]) = k"
    using Cons.prems(2) by (metis Suc_diff_Suc diff_Suc_1 length_append_singleton diff_Suc_eq_diff_pred)
  show ?case
  proof (cases "length cur + 1 < m")
    case True
    with c1 Cons.hyps(1)[of c1 "cur @ [v]"] Cons.hyps(2)[symmetric] k show ?thesis
      by (subst GenerateOk.simps) (simp add: grab_body_def)
  next
    case False
    with Cons.prems(2) have "k = 0" using k by simp
    with False c1 Cons.hyps(2)[symmetric] k show ?thesis
      by (subst GenerateOk.simps) (simp add: grab_body_def)
  qed
qed

fun chunks :: "nat \<Rightarrow> 'a list \<Rightarrow> 'a list list" where
  "chunks n [] = []"
| "chunks n (x # xs) = take n (x # xs) # (if n = 0 then [] else chunks n (drop (n - 1) xs))"

lemma Chunk_loop_grab:
  assumes "yields q (xs :: 'a list)" "0 < num"
  shows "\<exists>c'. Chunk_loop q num zero (grab m) ((d, []), c)
             = Some ((d @ map (take m) (chunks (nat num) (drop (ck_pos c) xs)), []), c')"
proof (induction "length xs - ck_pos c" arbitrary: c d rule: less_induct)
  case less
  show ?case
  proof (cases "ck_pos c < length xs")
    case False
    then show ?thesis by (subst Chunk_loop.simps) (simp add: ck_next_yields[OF assms(1)])
  next
    case True
    let ?x = "xs ! ck_pos c" and ?r = "drop (Suc (ck_pos c)) xs"
    let ?c = "c\<lparr>ck_pos := Suc (ck_pos c), ck_first := Some ?x, ck_left := num\<rparr>"
    have ok: "ck_ok num ?c" using assms(2) by (simp add: ck_ok_def)
    have av: "ck_avail num xs ?c = ?x # take (nat num - 1) ?r" "ck_rest num xs ?c = drop (nat num - 1) ?r"
      using nat_diff_distrib'[of num 1] assms(2) by (simp_all add: ck_avail_def ck_rest_def)
    obtain c1 where c1: "grab m (GenerateOk (ck_take q num zero)) ((d, []), ?c)
        = Some (True, ((d @ [take m (ck_avail num xs ?c)], []), c1))"
        "ck_ok num c1" "ck_rest num xs c1 = ck_rest num xs ?c"
      using grab_chunk[OF assms(1) ok, of "[]" m zero d] ok by (cases "m = 0") (auto simp: grab_def)
    obtain c2 where c2: "loopWhile (\<lambda>sc. do { ((_, more), sc') \<leftarrow> ck_take q num zero sc; Some (more, sc') })
          ((d @ [take m (ck_avail num xs ?c)], [] :: 'a list), c1)
        = Some ((d @ [take m (ck_avail num xs ?c)], []), c2)"
        "ck_ok num c2" "ck_avail num xs c2 = []" "ck_rest num xs c2 = drop (nat num - 1) ?r"
      using loopWhile_drains[OF assms(1) c1(2)] c1(3) av(2) by metis
    have dr: "drop (ck_pos c2) xs = drop (nat num - 1) ?r"
      using ck_drained[OF c2(2,3)] c2(4) by simp
    have "length xs - ck_pos c2 \<le> length ?r"
      using arg_cong[OF dr, of length] by simp
    with True have "length xs - ck_pos c2 < length xs - ck_pos c" by simp
    from less[OF this, of "d @ [take m (ck_avail num xs ?c)]"] obtain c3 where c3:
      "Chunk_loop q num zero (grab m) ((d @ [take m (ck_avail num xs ?c)], []), c2)
        = Some (((d @ [take m (ck_avail num xs ?c)]) @ map (take m) (chunks (nat num) (drop (ck_pos c2) xs)), []), c3)"
      by blast
    have ch: "chunks (nat num) (drop (ck_pos c) xs)
        = ck_avail num xs ?c # chunks (nat num) (drop (nat num - 1) ?r)"
      using assms(2) True by (cases "nat num") (simp_all add: av(1) flip: Cons_nth_drop_Suc)
    have nx: "ck_next q c = Some (Some ?x, c\<lparr>ck_pos := Suc (ck_pos c)\<rparr>)"
      using True by (simp add: ck_next_yields[OF assms(1)])
    have "Chunk_loop q num zero (grab m) ((d, []), c)
        = Chunk_loop q num zero (grab m) ((d @ [take m (ck_avail num xs ?c)], []), c2)"
      by (subst Chunk_loop.simps)
        (simp only: nx bind.bind_lunit prod.case option.case fst_conv snd_conv c1(1) c2(1) not_True_eq_False if_False)
    then show ?thesis by (simp only: c3 ch dr list.map append_assoc append_Cons append_Nil) blast
  qed
qed

lemma Chunk_grab:
  assumes "yields q xs" "0 < num"
  shows "Chunk q num zero (grab m) ([], []) = Some (map (take m) (chunks (nat num) xs), [])"
  using Chunk_loop_grab[OF assms, of zero m "[]" "\<lparr>ck_pos = 0, ck_first = None, ck_left = 0\<rparr>"] assms(2)
  by (auto simp: Chunk_def)

subsection \<open>Reversal\<close>

lemma Backward_loop_emit:
  "n \<le> length sl \<Longrightarrow> Backward_loop n sl yield s
     = map_option snd (emit (rev (map (\<lambda>i. (int i, sl ! i)) [0..<n])) yield s)"
  by (induction n arbitrary: s) (auto split: Option.bind_splits)

lemma yields_Backward: "yields (Backward sl) (rev (map (\<lambda>i. (int i, sl ! i)) [0..<length sl]))"
  by (rule yieldsI) (simp add: Backward_def Backward_loop_emit)

lemma yields_Reverse [seq_simps]:
  assumes "yields (q :: ('a, 's \<times> 'a list) seq) xs"
  shows "yields (Reverse_seq q) (rev xs)"
proof (rule yieldsI)
  fix yield :: "('a, 's) yield" and s
  have m: "map snd (rev (map (\<lambda>i. (int i, xs ! i)) [0..<length xs])) = rev xs"
    by (simp add: rev_map[symmetric] comp_def map_nth)
  have "Flush (Second (Backward xs)) yield s = emit (rev xs) yield s"
    using Flush_emit[OF yields_Second[OF yields_Backward[of xs]], of yield s] by (simp only: m)
  then show "Reverse_seq q yield s = map_option snd (emit (rev xs) yield s)"
    by (cases "emit (rev xs) yield s") (auto simp: Reverse_seq_def Collect_no_args[OF assms])
qed

subsection \<open>Sorting\<close>

lemma Sort_yields:
  assumes "yields q xs"
  shows "Sort_seq q s = Some (Slice (sort xs), s)"
  by (simp add: Sort_seq_def AppendSeq_yields[OF assms])

lemma KVcmp_lexicographic:
  "KVcmp (KV a b) (KV c d) = Done (if a < c \<or> a = c \<and> b < d then -1 else if a = c \<and> b = d then 0 else 1)"
  by (auto simp: KVcmp_def kvcmp_With_def KV_Compare_def cmpf_def)

end
