(* ===== verification/IrtProps.thy ===== *)
theory IrtProps
  imports IrtConsumeLaws
begin

text \<open>
  What clients of \<open>src/irt\<close> rely on, read off the laws of the single combinators: pipelines compute on
  the fly what the list functions compute on whole lists, and the operations that keep state between
  elements (chunks, groups, duplicates, pulled pairs) lose and repeat nothing.
\<close>

text \<open>
  A pipeline of \<open>Convert\<close>, \<open>Keep\<close> and \<open>Limit\<close> over any sequence yields what mapping, filtering and
  truncating the list of its elements gives, with the consumer's effects in the same order and an early
  stop of the consumer stopping the source.
\<close>

theorem pipeline_is_list_function:
  assumes "yields q xs"
  shows "yields (Limit (Keep (Convert q (pureop f)) (pureop p)) n) (take (nat n) (filter p (map f xs)))"
  by (intro seq_simps assms)

lemma pipeline_is_list_function_witness:
  "yields (Limit (Keep (Convert (Slice [1, 2, 3, 4 :: int]) (pureop (\<lambda>x. x + 1))) (pureop even)) 1) [2]"
  using pipeline_is_list_function[OF yields_Slice, of "[1, 2, 3, 4 :: int]" "\<lambda>x. x + 1" even 1] by simp

text \<open>
  Limiting an endless generator to \<open>n\<close> elements is the counted generator: the same calls of the
  generating function and of the loop body, in the same order, and none too many.
\<close>

theorem Limit_of_Generate:
  "Limit (Generate (beside op)) n = GenerateN n op"
  by (rule Limit_Generate_eq)

lemma concat_chunks: "0 < n \<Longrightarrow> concat (chunks n xs) = xs"
  by (induction n xs rule: chunks.induct) (auto simp: take_Cons' drop_Cons')

lemma length_chunks: "0 < n \<Longrightarrow> ys \<in> set (chunks n xs) \<Longrightarrow> length ys \<le> n"
  by (induction n xs rule: chunks.induct) auto

text \<open>
  C38: \<open>Chunk\<close> with a positive size splits any sequence into chunks of that size, the last one shorter,
  whose concatenation is the sequence; a consumer that reads only a part of a chunk gets the start of
  each, and what it left is not handed out again.
\<close>

theorem Chunk_splits:
  assumes "yields q xs" "0 < num"
  shows "Chunk q num zero (grab m) ([], []) = Some (map (take m) (chunks (nat num) xs), [])
    \<and> concat (chunks (nat num) xs) = xs \<and> (\<forall>ys \<in> set (chunks (nat num) xs). length ys \<le> nat num)"
  using Chunk_grab[OF assms, of zero m] concat_chunks[of "nat num" xs] length_chunks[of "nat num" _ xs] assms(2) by auto

lemma Chunk_splits_witness:
  "Chunk (Slice [1, 2, 3, 4, 5 :: int]) 2 0 (grab 7) ([], []) = Some ([[1, 2], [3, 4], [5]], [])"
  using Chunk_splits[OF yields_Slice, of 2 "[1, 2, 3, 4, 5 :: int]" 0 7] by (simp add: numeral_2_eq_2)

text \<open>
  \<open>Group\<close> collects the values of every key, the keys in the order of their first occurrence and the
  values of a key in the order they came; iterating the grouping yields exactly these pairs.
\<close>

theorem Group_keeps_order:
  assumes "yields q kvs"
  shows "\<exists>og. Group q s = Some (og, s) \<and>
     map_option fst (og_iter (og_order og) (lift_op yield) (t, og_table og)) = map_option snd (emit (grouped kvs) yield t)"
  by (rule Group_iter[OF assms])

lemma Group_keeps_order_witness:
  "\<exists>og. Group (Slice [(1, 5), (2, 6), (1, 7)]) () = Some (og, ()) \<and>
     map_option fst (og_iter (og_order og) (lift_op (\<lambda>kv l. Some (True, l @ [kv]))) ([], og_table og))
       = Some [(1 :: int, [5 :: int, 7]), (2, [6])]"
  using Group_keeps_order[OF yields_Slice, of "[(1 :: int, 5 :: int), (2, 6), (1, 7)]" "()" "\<lambda>kv l. Some (True, l @ [kv])" "[]"]
  by (auto simp: grouped_def)

text \<open>
  \<open>UniqueBy\<close> yields the first element of every key, in order: no key twice, every key once, and no
  element that the sequence does not have.
\<close>

theorem UniqueBy_firsts:
  assumes "yields q xs"
  shows "\<exists>ys. yields (UniqueBy q g) ys \<and> distinct (map g ys) \<and> g ` set ys = g ` set xs \<and> set ys \<subseteq> set xs"
  using yields_UniqueBy[OF assms, of g] distinct_firsts[of g "{}" xs] set_firsts[of g "{}" xs] firsts_subseq[of g "{}" xs]
  by auto

lemma UniqueBy_firsts_witness:
  "\<exists>ys. yields (UniqueBy (Slice [1, 3, 2, 5 :: int]) even) ys \<and> distinct (map even ys) \<and> even ` set ys = {True, False}"
  using UniqueBy_firsts[OF yields_Slice, of "[1, 3, 2, 5 :: int]" even] by auto

text \<open>
  The two pulling operations: \<open>Zip\<close> pairs two sequences up to the end of the shorter one, and
  \<open>Equal\<close> says whether they have the same elements in the same order.
\<close>

theorem Zip_Equal_pulled:
  assumes "yields rh xs" "yields lh ys"
  shows "yields (Zip rh lh) (zip xs ys) \<and> (Equal rh lh = Some (xs = ys))"
  using yields_Zip[OF assms] Equal_yields[OF assms] by blast

lemma Zip_Equal_pulled_witness:
  "yields (Zip (Slice [1, 2 :: int]) (Slice [3 :: int])) [(1, 3)] \<and> Equal (Slice [1, 2 :: int]) (Slice [3]) = Some False"
  using Zip_Equal_pulled[OF yields_Slice yields_Slice, of "[1, 2 :: int]" "[3]"] by simp

text \<open>Joining pairs into \<open>KV\<close> values and splitting them again, or flipping pairs twice, yields the pairs.\<close>

theorem KV_roundtrip:
  assumes "yields q kvs"
  shows "yields (KVsplit (KVjoin q)) kvs \<and> yields (Flip (Flip q)) kvs"
  using KV_split_join[OF assms] yields_Flip[OF yields_Flip[OF assms]] by (simp add: case_prod_beta comp_def)

lemma KV_roundtrip_witness: "yields (KVsplit (KVjoin (Slice [(1 :: int, True)]))) [(1, True)]"
  using KV_roundtrip[OF yields_Slice, of "[(1 :: int, True)]"] by blast

text \<open>
  \<open>Collect\<close> and its capacity arguments: without one, with a capacity that is not negative, or with
  a zero and any other one, it returns the elements; a single negative capacity is passed to \<open>make\<close>,
  which panics.
\<close>

theorem Collect_capacity:
  assumes "yields q xs"
  shows "Collect_seq q [] s = Some (Done xs, s)
    \<and> Collect_seq q [c] s = Some (if c < 0 then Panic ''makeslice: cap out of range'' else Done xs, s)
    \<and> Collect_seq q [0, c] s = Some (Done xs, s)"
  using Collect_yields[OF assms] by (simp add: collect_slice_def make_cap_def idxorz_def idxok_def isWithin_def)

lemma Collect_capacity_witness:
  "Collect_seq (Slice [1 :: int]) [-1] () = Some (Panic ''makeslice: cap out of range'', ())"
  using Collect_capacity[OF yields_Slice, of "[1 :: int]" "()" "-1"] by simp

text \<open>An empty string is followed by no separator of its own, but the one before it stays.\<close>

lemma JoinStringsWith_trailing: "JoinStringsWith (Slice [''a'', [], ''b'']) '','' () = Some (''a,b'', ())
   \<and> JoinStringsWith (Slice [''a'', []]) '','' () = Some (''a,'', ())"
  by (simp add: JoinStringsWith_yields[OF yields_Slice])

end
