(* ===== verification/Tracker.thy ===== *)
theory Tracker
  imports Complex_Main Prelude
begin

text \<open>
  The capacity trackers of the queue and the deque, \<open>src/pubsub/tracker.go\<close>, and the options they
  are made from (\<open>QueueOptions\<close> of \<open>src/pubsub/queue.go\<close>).

  The Go interface \<open>queueLimitTracker\<close> is the locale \<open>queue_limit_tracker\<close>: what the queue and the
  deque may assume of a tracker.  A value of the interface type is one of three structs, so it is a
  datatype here and the methods dispatch on it.

  The burst credit is a \<open>float64\<close>.  It is modelled as a rational number, and every arithmetic
  operation on it is followed by \<open>rnd\<close>, the rounding of the platform, which is a parameter.
  The predicate \<open>rounding\<close> says what is relied on: rounding is monotone and keeps small integers.
\<close>

subsection \<open>Errors of the package\<close>

datatype qerror = ErrQueueFull | ErrQueueNoCredit | ErrQueueClosed | ErrQueueDraining | ErrQueueEmpty
  | ErrContext | errHardLimit | errBurstCredit | ErrMalformed | errDrainEarly int

subsection \<open>The trackers\<close>

record queueNoLimitTrackerImpl =
  nl_length :: int

record queueHardLimitTracker =
  hl_capacity :: int
  hl_length :: int

record queueLimitTrackerImpl =
  softQuota :: int
  hardLimit :: int
  ql_length :: int
  credit :: rat

definition nl_len :: "queueNoLimitTrackerImpl \<Rightarrow> int" where "nl_len q = nl_length q"
definition nl_cap :: "queueNoLimitTrackerImpl \<Rightarrow> int" where "nl_cap q = maxInt"

definition nl_add :: "queueNoLimitTrackerImpl \<Rightarrow> qerror + queueNoLimitTrackerImpl" where
  "nl_add q = Inr (q\<lparr>nl_length := nl_length q + 1\<rparr>)"

definition nl_remove :: "queueNoLimitTrackerImpl \<Rightarrow> queueNoLimitTrackerImpl" where
  "nl_remove q = (if nl_length q = 0 then q else q\<lparr>nl_length := nl_length q - 1\<rparr>)"

definition hl_len :: "queueHardLimitTracker \<Rightarrow> int" where "hl_len q = hl_length q"
definition hl_cap :: "queueHardLimitTracker \<Rightarrow> int" where "hl_cap q = hl_capacity q"

definition hl_remove :: "queueHardLimitTracker \<Rightarrow> queueHardLimitTracker" where
  "hl_remove q = (if hl_length q = 0 then q else q\<lparr>hl_length := hl_length q - 1\<rparr>)"

definition hl_add :: "queueHardLimitTracker \<Rightarrow> qerror + queueHardLimitTracker" where
  "hl_add q = (if hl_length q \<ge> hl_capacity q then Inl ErrQueueFull else Inr (q\<lparr>hl_length := hl_length q + 1\<rparr>))"

definition ql_cap :: "queueLimitTrackerImpl \<Rightarrow> int" where "ql_cap q = softQuota q"
definition ql_len :: "queueLimitTrackerImpl \<Rightarrow> int" where "ql_len q = ql_length q"

definition ql_add :: "(rat \<Rightarrow> rat) \<Rightarrow> queueLimitTrackerImpl \<Rightarrow> qerror + queueLimitTrackerImpl" where
  "ql_add rnd q =
     (if ql_length q \<ge> softQuota q then
        if ql_length q = hardLimit q then Inl ErrQueueFull
        else if credit q < 1 then Inl ErrQueueNoCredit
        else let q1 = q\<lparr>credit := rnd (credit q - 1), softQuota := ql_length q + 1\<rparr>
             in Inr (q1\<lparr>ql_length := ql_length q1 + 1\<rparr>)
      else Inr (q\<lparr>ql_length := ql_length q + 1\<rparr>))"

definition float_of :: "(rat \<Rightarrow> rat) \<Rightarrow> int \<Rightarrow> rat" where "float_of rnd i = rnd (of_int i)"

definition ql_remove :: "(rat \<Rightarrow> rat) \<Rightarrow> queueLimitTrackerImpl \<Rightarrow> queueLimitTrackerImpl" where
  "ql_remove rnd q =
     (let q1 = q\<lparr>ql_length := ql_length q - 1\<rparr> in
      if ql_length q1 < softQuota q1 then
        let q2 = (if softQuota q1 > 1 \<and> ql_length q1 < quot (softQuota q1) 2
                  then q1\<lparr>softQuota := softQuota q1 - 1\<rparr> else q1);
            q3 = q2\<lparr>credit := rnd (credit q2 + rnd (float_of rnd (softQuota q2 - ql_length q2)
                                                     / float_of rnd (softQuota q2)))\<rparr>;
            lenCap = float_of rnd (hardLimit q3 - softQuota q3)
        in if credit q3 > lenCap then q3\<lparr>credit := lenCap\<rparr> else q3
      else q1)"

datatype tracker = NoLimit queueNoLimitTrackerImpl | HardLimit queueHardLimitTracker
  | Burst queueLimitTrackerImpl

fun t_len :: "tracker \<Rightarrow> int" where
  "t_len (NoLimit q) = nl_len q" | "t_len (HardLimit q) = hl_len q" | "t_len (Burst q) = ql_len q"

fun t_cap :: "tracker \<Rightarrow> int" where
  "t_cap (NoLimit q) = nl_cap q" | "t_cap (HardLimit q) = hl_cap q" | "t_cap (Burst q) = ql_cap q"

fun t_add :: "(rat \<Rightarrow> rat) \<Rightarrow> tracker \<Rightarrow> qerror + tracker" where
  "t_add rnd (NoLimit q) = map_sum id NoLimit (nl_add q)"
| "t_add rnd (HardLimit q) = map_sum id HardLimit (hl_add q)"
| "t_add rnd (Burst q) = map_sum id Burst (ql_add rnd q)"

fun t_remove :: "(rat \<Rightarrow> rat) \<Rightarrow> tracker \<Rightarrow> tracker" where
  "t_remove rnd (NoLimit q) = NoLimit (nl_remove q)"
| "t_remove rnd (HardLimit q) = HardLimit (hl_remove q)"
| "t_remove rnd (Burst q) = Burst (ql_remove rnd q)"

subsection \<open>Options\<close>

record QueueOptions =
  opt_HardLimit :: int
  opt_SoftQuota :: int
  opt_BurstCredit :: rat

definition QueueOptions_Validate :: "(rat \<Rightarrow> rat) \<Rightarrow> QueueOptions \<Rightarrow> qerror option \<times> QueueOptions" where
  "QueueOptions_Validate rnd opts =
     (if opt_HardLimit opts \<le> 0 \<or> opt_HardLimit opts < opt_SoftQuota opts then (Some errHardLimit, opts)
      else if opt_BurstCredit opts < 0 then (Some errBurstCredit, opts)
      else let o1 = (if opt_SoftQuota opts \<le> 0 then opts\<lparr>opt_SoftQuota := opt_HardLimit opts\<rparr> else opts);
               o2 = (if opt_BurstCredit o1 = 0 then o1\<lparr>opt_BurstCredit := float_of rnd (opt_SoftQuota o1)\<rparr> else o1)
           in (None, o2))"

definition newQueueLimitTracker :: "QueueOptions \<Rightarrow> tracker" where
  "newQueueLimitTracker opts = Burst \<lparr>softQuota = opt_SoftQuota opts, hardLimit = opt_HardLimit opts,
     ql_length = 0, credit = opt_BurstCredit opts\<rparr>"

subsection \<open>The interface\<close>

locale queue_limit_tracker =
  fixes len :: "'t \<Rightarrow> int" and cap :: "'t \<Rightarrow> int" and add :: "'t \<Rightarrow> qerror + 't"
    and remove :: "'t \<Rightarrow> 't" and inv :: "'t \<Rightarrow> bool"
  assumes len_nonneg: "inv t \<Longrightarrow> 0 \<le> len t"
    and add_inv: "inv t \<Longrightarrow> add t = Inr t' \<Longrightarrow> inv t'"
    and add_len: "inv t \<Longrightarrow> add t = Inr t' \<Longrightarrow> len t' = len t + 1"
    and add_free: "inv t \<Longrightarrow> len t < cap t \<Longrightarrow> \<exists>t'. add t = Inr t'"
    and add_error: "inv t \<Longrightarrow> add t = Inl e \<Longrightarrow> e = ErrQueueFull \<or> e = ErrQueueNoCredit"
    and remove_inv: "inv t \<Longrightarrow> 0 < len t \<Longrightarrow> inv (remove t)"
    and remove_len: "inv t \<Longrightarrow> 0 < len t \<Longrightarrow> len (remove t) = len t - 1"
begin

fun run :: "bool list \<Rightarrow> 't \<Rightarrow> 't" where
  "run [] t = t"
| "run (True # bs) t = run bs (case add t of Inl _ \<Rightarrow> t | Inr t' \<Rightarrow> t')"
| "run (False # bs) t = run bs (if 0 < len t then remove t else t)"

lemma run_inv: "inv t \<Longrightarrow> inv (run bs t)"
  by (induction bs t rule: run.induct) (auto split: sum.splits dest: add_inv remove_inv)

lemma remove_add: "inv t \<Longrightarrow> add t = Inr t' \<Longrightarrow> len (remove t') = len t"
  using add_inv[of t t'] add_len[of t t'] remove_len[of t'] len_nonneg[of t] by simp

end

subsection \<open>Invariants of the trackers\<close>

definition nl_inv :: "queueNoLimitTrackerImpl \<Rightarrow> bool" where
  "nl_inv q \<longleftrightarrow> 0 \<le> nl_length q"

definition hl_inv :: "queueHardLimitTracker \<Rightarrow> bool" where
  "hl_inv q \<longleftrightarrow> 0 \<le> hl_length q \<and> (0 \<le> hl_capacity q \<longrightarrow> hl_length q \<le> hl_capacity q)"

definition ql_inv :: "queueLimitTrackerImpl \<Rightarrow> bool" where
  "ql_inv q \<longleftrightarrow> 0 \<le> ql_length q \<and> ql_length q \<le> softQuota q \<and> 1 \<le> softQuota q \<and> softQuota q \<le> hardLimit q
     \<and> 0 \<le> credit q"

definition rounding :: "(rat \<Rightarrow> rat) \<Rightarrow> bool" where
  "rounding rnd \<longleftrightarrow> mono rnd \<and> (\<forall>i. \<bar>i\<bar> \<le> 2 ^ 53 \<longrightarrow> rnd (of_int i) = of_int i)"

lemma rounding_id: "rounding (\<lambda>x. x)"
  by (simp add: rounding_def mono_def)

lemma rounding_0 [simp]: "rounding rnd \<Longrightarrow> rnd 0 = 0"
  unfolding rounding_def by (metis abs_zero of_int_0 zero_le_numeral zero_le_power)

lemma rounding_nonneg: "rounding rnd \<Longrightarrow> 0 \<le> x \<Longrightarrow> 0 \<le> rnd x"
  by (metis monoD rounding_0 rounding_def)

lemma float_of_nonneg: "rounding rnd \<Longrightarrow> 0 \<le> i \<Longrightarrow> 0 \<le> float_of rnd i"
  by (simp add: float_of_def rounding_nonneg)

fun t_inv :: "tracker \<Rightarrow> bool" where
  "t_inv (NoLimit q) = nl_inv q" | "t_inv (HardLimit q) = hl_inv q" | "t_inv (Burst q) = ql_inv q"

lemmas tracker_defs = nl_len_def nl_cap_def nl_add_def nl_remove_def nl_inv_def
  hl_len_def hl_cap_def hl_add_def hl_remove_def hl_inv_def
  ql_len_def ql_cap_def ql_add_def ql_inv_def

lemma ql_add_inv: "rounding rnd \<Longrightarrow> ql_inv q \<Longrightarrow> ql_add rnd q = Inr q' \<Longrightarrow> ql_inv q'"
  by (auto simp: ql_add_def ql_inv_def Let_def rounding_nonneg split: if_splits)

lemma ql_remove_fields:
  "ql_length (ql_remove rnd q) = ql_length q - 1"
  "hardLimit (ql_remove rnd q) = hardLimit q"
  "softQuota (ql_remove rnd q) =
     (if ql_length q - 1 < softQuota q \<and> softQuota q > 1 \<and> ql_length q - 1 < quot (softQuota q) 2
      then softQuota q - 1 else softQuota q)"
  by (auto simp: ql_remove_def Let_def)

lemma ql_remove_credit:
  assumes "rounding rnd" "ql_inv q" "0 < ql_length q"
  shows "0 \<le> credit (ql_remove rnd q)
    \<and> credit (ql_remove rnd q) \<le> float_of rnd (hardLimit q - softQuota (ql_remove rnd q))"
proof -
  define s where "s = softQuota (ql_remove rnd q)"
  define c where "c = rnd (credit q + rnd (float_of rnd (s - (ql_length q - 1)) / float_of rnd s))"
  define lenCap where "lenCap = float_of rnd (hardLimit q - s)"
  have lt: "ql_length q - 1 < softQuota q" and half: "quot (softQuota q) 2 = softQuota q div 2"
    using assms(2,3) by (auto simp: ql_inv_def)
  have s: "s = (if softQuota q > 1 \<and> ql_length q - 1 < softQuota q div 2 then softQuota q - 1 else softQuota q)"
    using lt half by (simp add: s_def ql_remove_fields)
  have r: "credit (ql_remove rnd q) = (if c > lenCap then lenCap else c)"
    using lt half by (simp add: ql_remove_def c_def lenCap_def s Let_def)
  have "0 \<le> s - (ql_length q - 1)" "0 \<le> s" "0 \<le> hardLimit q - s" "0 \<le> credit q"
    using assms(2,3) by (auto simp: s ql_inv_def)
  then have "0 \<le> c" "0 \<le> lenCap"
    unfolding c_def lenCap_def
    by (simp_all add: rounding_nonneg[OF assms(1)] float_of_nonneg[OF assms(1)])
  then show ?thesis by (simp add: r lenCap_def s_def[symmetric])
qed

lemma ql_remove_inv: "rounding rnd \<Longrightarrow> ql_inv q \<Longrightarrow> 0 < ql_length q \<Longrightarrow> ql_inv (ql_remove rnd q)"
  using ql_remove_credit[of rnd q] by (auto simp: ql_inv_def ql_remove_fields)

lemma t_add_inv: "rounding rnd \<Longrightarrow> t_inv t \<Longrightarrow> t_add rnd t = Inr t' \<Longrightarrow> t_inv t'"
  by (cases t) (auto simp: tracker_defs ql_add_inv Let_def rounding_nonneg split: if_splits)

lemma t_add_len: "t_add rnd t = Inr t' \<Longrightarrow> t_len t' = t_len t + 1"
  by (cases t) (auto simp: tracker_defs Let_def split: if_splits)

lemma t_add_free: "t_len t < t_cap t \<Longrightarrow> \<exists>t'. t_add rnd t = Inr t'"
  by (cases t) (auto simp: tracker_defs)

lemma t_add_error: "t_add rnd t = Inl e \<Longrightarrow> e = ErrQueueFull \<or> e = ErrQueueNoCredit"
  by (cases t) (auto simp: tracker_defs Let_def split: if_splits)

lemma t_remove_inv: "rounding rnd \<Longrightarrow> t_inv t \<Longrightarrow> 0 < t_len t \<Longrightarrow> t_inv (t_remove rnd t)"
  by (cases t) (auto simp: nl_inv_def nl_len_def nl_remove_def hl_inv_def hl_len_def hl_remove_def ql_len_def
      intro: ql_remove_inv)

lemma t_remove_len: "0 < t_len t \<Longrightarrow> t_len (t_remove rnd t) = t_len t - 1"
  by (cases t) (auto simp: tracker_defs ql_remove_fields)

lemma t_len_nonneg: "t_inv t \<Longrightarrow> 0 \<le> t_len t"
  by (cases t) (auto simp: tracker_defs)

text \<open>Every tracker of the package keeps the contract, with exact and with rounded arithmetic.\<close>

definition trunc53 :: "rat \<Rightarrow> rat" where
  "trunc53 x = of_int \<lfloor>x * 2 ^ 53\<rfloor> / 2 ^ 53"

lemma rounding_trunc53: "rounding trunc53"
proof -
  have "\<lfloor>(of_int i :: rat) * 2 ^ 53\<rfloor> = i * 2 ^ 53" for i
    by (metis floor_of_int of_int_mult of_int_numeral of_int_power)
  then show ?thesis
    by (auto simp: rounding_def trunc53_def mono_def intro!: divide_right_mono floor_mono)
qed

interpretation nlt: queue_limit_tracker nl_len nl_cap nl_add nl_remove nl_inv
  by unfold_locales (auto simp: tracker_defs)

interpretation hlt: queue_limit_tracker hl_len hl_cap hl_add hl_remove hl_inv
  by unfold_locales (auto simp: tracker_defs split: if_splits)

interpretation qlt: queue_limit_tracker t_len t_cap "t_add trunc53" "t_remove trunc53" t_inv
  using rounding_trunc53
  by unfold_locales
    (blast intro: t_len_nonneg t_add_inv t_add_len t_add_free t_remove_inv t_remove_len dest: t_add_error)+

subsection \<open>The options give a tracker that keeps the invariant\<close>

lemma Validate_ok:
  assumes "rounding rnd" "QueueOptions_Validate rnd opts = (None, opts')"
  shows "t_inv (newQueueLimitTracker opts')" "opt_HardLimit opts' = opt_HardLimit opts"
  using assms(2) float_of_nonneg[OF assms(1), of "opt_HardLimit opts"] float_of_nonneg[OF assms(1), of "opt_SoftQuota opts"]
  by (auto simp: QueueOptions_Validate_def newQueueLimitTracker_def ql_inv_def Let_def split: if_splits)

lemma Validate_error:
  "fst (QueueOptions_Validate rnd opts) = None \<longleftrightarrow>
     0 < opt_HardLimit opts \<and> opt_SoftQuota opts \<le> opt_HardLimit opts \<and> 0 \<le> opt_BurstCredit opts"
  by (auto simp: QueueOptions_Validate_def Let_def)

subsection \<open>How far a burst goes\<close>

text \<open>
  Adding to the burst tracker without removing: \<open>n\<close> successful calls of \<open>add\<close> in a row.
\<close>

fun adds :: "(rat \<Rightarrow> rat) \<Rightarrow> nat \<Rightarrow> queueLimitTrackerImpl \<Rightarrow> qerror + queueLimitTrackerImpl" where
  "adds rnd 0 q = Inr q"
| "adds rnd (Suc n) q = (case ql_add rnd q of Inl e \<Rightarrow> Inl e | Inr q' \<Rightarrow> adds rnd n q')"

lemma adds_below_soft:
  "ql_length q + int n \<le> softQuota q \<Longrightarrow> adds rnd n q = Inr (q\<lparr>ql_length := ql_length q + int n\<rparr>)"
  by (induction n arbitrary: q) (auto simp: ql_add_def)

lemma adds_burst:
  assumes "ql_length q = softQuota q" "ql_length q + int n \<le> hardLimit q" "of_nat n \<le> credit q"
    and "\<And>k. k \<le> n \<Longrightarrow> rnd (credit q - of_nat k) = credit q - of_nat k"
  shows "adds rnd n q = Inr (q\<lparr>ql_length := ql_length q + int n, softQuota := softQuota q + int n,
                               credit := credit q - of_nat n\<rparr>)"
  using assms
proof (induction n arbitrary: q)
  case (Suc n)
  have r: "rnd (credit q - 1) = credit q - 1" using Suc.prems(4)[of 1] by simp
  let ?q = "q\<lparr>credit := credit q - 1, softQuota := ql_length q + 1, ql_length := ql_length q + 1\<rparr>"
  have a: "ql_add rnd q = Inr ?q"
    using Suc.prems(1,2,3) r by (simp add: ql_add_def Let_def)
  have "rnd (credit ?q - of_nat k) = credit ?q - of_nat k" if "k \<le> n" for k
    using Suc.prems(4)[of "Suc k"] that by (simp add: algebra_simps)
  then have "adds rnd n ?q = Inr (?q\<lparr>ql_length := ql_length ?q + int n, softQuota := softQuota ?q + int n,
      credit := credit ?q - of_nat n\<rparr>)"
    using Suc.prems by (intro Suc.IH) auto
  with a Suc.prems(1) show ?case by (simp add: algebra_simps)
qed simp

text \<open>A full tracker that gives one item up can take one.\<close>

lemma t_replace:
  assumes "t_inv t" "0 < t_cap t" "t_len t = t_cap t"
  shows "\<exists>t'. t_add rnd (t_remove rnd t) = Inr t'"
proof (rule t_add_free)
  show "t_len (t_remove rnd t) < t_cap (t_remove rnd t)"
    using assms
    by (cases t) (auto simp: nl_len_def nl_cap_def nl_remove_def hl_len_def hl_cap_def hl_remove_def
        ql_len_def ql_cap_def ql_remove_fields)
qed

subsection \<open>Properties\<close>

text \<open>
  The cap of the credit: what the hard limit leaves above the soft quota.  Removing an item always gets below it; adding one
  above the soft quota lowers the credit and the cap by one.  Up to \<open>2 ^ 53\<close> the limits are exact as floating-point numbers.
\<close>

definition within_cap :: "queueLimitTrackerImpl \<Rightarrow> bool" where
  "within_cap q \<longleftrightarrow> credit q \<le> of_int (hardLimit q - softQuota q)"

lemma float_of_exact: "rounding rnd \<Longrightarrow> \<bar>i\<bar> \<le> 2 ^ 53 \<Longrightarrow> float_of rnd i = of_int i"
  by (simp add: float_of_def rounding_def)

lemma ql_add_cap:
  assumes "rounding rnd" "ql_inv q" "hardLimit q \<le> 2 ^ 53" "within_cap q" "ql_add rnd q = Inr q'"
  shows "within_cap q'"
proof (cases "ql_length q \<ge> softQuota q")
  case True
  then have eq: "ql_length q = softQuota q" and q': "credit q' = rnd (credit q - 1)" "softQuota q' = softQuota q + 1" "hardLimit q' = hardLimit q"
    using assms(2,5) by (auto simp: ql_inv_def ql_add_def Let_def split: if_splits)
  have i: "\<bar>hardLimit q - softQuota q - 1\<bar> \<le> 2 ^ 53" using assms(2,3) by (auto simp: ql_inv_def)
  have "credit q - 1 \<le> of_int (hardLimit q - softQuota q - 1)" using assms(4) by (simp add: within_cap_def)
  then have "rnd (credit q - 1) \<le> rnd (of_int (hardLimit q - softQuota q - 1))" using assms(1) by (simp add: rounding_def monoD)
  also have "\<dots> = of_int (hardLimit q - softQuota q - 1)" using assms(1) i unfolding rounding_def by blast
  finally show ?thesis by (simp add: within_cap_def q')
next
  case False
  then show ?thesis using assms(4,5) by (auto simp: within_cap_def ql_add_def)
qed

lemma ql_remove_cap:
  assumes "rounding rnd" "ql_inv q" "hardLimit q \<le> 2 ^ 53" "0 < ql_length q"
  shows "within_cap (ql_remove rnd q)"
proof -
  have "ql_inv (ql_remove rnd q)" by (rule ql_remove_inv[OF assms(1,2,4)])
  then have "\<bar>hardLimit q - softQuota (ql_remove rnd q)\<bar> \<le> 2 ^ 53" using assms(3) by (auto simp: ql_inv_def ql_remove_fields(2))
  then show ?thesis using ql_remove_credit[OF assms(1,2,4)] by (simp add: within_cap_def ql_remove_fields(2) float_of_exact[OF assms(1)])
qed

text \<open>C11: The burst tracker under any sequence of calls of \<open>add\<close> and, on a tracker that is not empty,
  \<open>remove\<close>, with the credit rounded after every operation: the number of items stays between zero
  and the soft quota, the soft quota between one and the hard limit, the hard limit never changes,
  and the credit is never negative.  From the first \<open>remove\<close> on, and from the start if it holds there, the credit is
  at most what the hard limit leaves above the soft quota, for hard limits up to \<open>2 ^ 53\<close>.\<close>

theorem burst_bounds:
  assumes "rounding rnd" "ql_inv q"
  shows "\<exists>q'. queue_limit_tracker.run t_len (t_add rnd) (t_remove rnd) bs (Burst q) = Burst q'
    \<and> 0 \<le> ql_length q' \<and> ql_length q' \<le> softQuota q' \<and> 1 \<le> softQuota q' \<and> softQuota q' \<le> hardLimit q'
    \<and> hardLimit q' = hardLimit q \<and> 0 \<le> credit q'
    \<and> (hardLimit q \<le> 2 ^ 53
       \<and> (credit q \<le> of_int (hardLimit q - softQuota q)
          \<or> (\<exists>pre post. bs = pre @ False # post \<and> 0 < t_len (queue_limit_tracker.run t_len (t_add rnd) (t_remove rnd) pre (Burst q))))
       \<longrightarrow> credit q' \<le> of_int (hardLimit q' - softQuota q'))"
proof -
  have loc: "queue_limit_tracker t_len t_cap (t_add rnd) (t_remove rnd) t_inv"
    using assms(1)
    by unfold_locales
      (blast intro: t_len_nonneg t_add_inv t_add_len t_add_free t_remove_inv t_remove_len dest: t_add_error)+
  note run = queue_limit_tracker.run.simps[OF loc]
  let ?run = "queue_limit_tracker.run t_len (t_add rnd) (t_remove rnd)"
  let ?removed = "\<lambda>bs q. \<exists>pre post. bs = pre @ False # post \<and> 0 < t_len (?run pre (Burst q))"
  have "\<exists>q'. ?run bs (Burst q) = Burst q' \<and> ql_inv q' \<and> hardLimit q' = hardLimit q
      \<and> (hardLimit q \<le> 2 ^ 53 \<and> (within_cap q \<or> ?removed bs q) \<longrightarrow> within_cap q')"
    using assms(2)
  proof (induction bs arbitrary: q)
    case Nil
    then show ?case by (simp add: run)
  next
    case (Cons b bs)
    define q1 where "q1 = (if b then (case ql_add rnd q of Inl _ \<Rightarrow> q | Inr q' \<Rightarrow> q')
      else if 0 < ql_len q then ql_remove rnd q else q)"
    have q1: "ql_inv q1" "hardLimit q1 = hardLimit q"
      using Cons.prems ql_add_inv[OF assms(1) Cons.prems] ql_remove_inv[OF assms(1) Cons.prems]
      by (auto simp: q1_def ql_len_def ql_remove_fields ql_add_def Let_def split: sum.splits if_splits)
    have step: "?run (b # cs) (Burst q) = ?run cs (Burst q1)" for cs
      by (cases b; cases "ql_add rnd q") (simp_all add: run q1_def)
    have cap: "within_cap q1 \<or> ?removed bs q1" if "hardLimit q \<le> 2 ^ 53" "within_cap q \<or> ?removed (b # bs) q"
    proof (cases "within_cap q \<or> \<not> b \<and> 0 < ql_length q")
      case True
      then show ?thesis using ql_add_cap[OF assms(1) Cons.prems that(1)] ql_remove_cap[OF assms(1) Cons.prems that(1)]
        by (auto simp: q1_def ql_len_def split: sum.split)
    next
      case False
      then have "?removed (b # bs) q" using that(2) by blast
      then obtain pre post where pp: "b # bs = pre @ False # post" "0 < t_len (?run pre (Burst q))" by blast
      show ?thesis
      proof (cases pre)
        case Nil
        then show ?thesis using pp False by (simp add: run ql_len_def)
      next
        case (Cons c cs)
        then show ?thesis using pp step by auto
      qed
    qed
    obtain q' where "?run bs (Burst q1) = Burst q' \<and> ql_inv q' \<and> hardLimit q' = hardLimit q1
      \<and> (hardLimit q1 \<le> 2 ^ 53 \<and> (within_cap q1 \<or> ?removed bs q1) \<longrightarrow> within_cap q')"
      using Cons.IH[OF q1(1)] by blast
    then show ?case using cap q1(2) by (intro exI[of _ q']) (simp only: step, blast)
  qed
  then show ?thesis unfolding within_cap_def by (elim exE) (intro exI, auto simp: ql_inv_def)
qed

definition demo_tracker :: queueLimitTrackerImpl where
  "demo_tracker = \<lparr>softQuota = 2, hardLimit = 4, ql_length = 0, credit = 1\<rparr>"

lemma burst_bounds_witness:
  "\<exists>q'. queue_limit_tracker.run t_len (t_add trunc53) (t_remove trunc53) [True, True, True, True, False] (Burst demo_tracker)
     = Burst q' \<and> ql_length q' \<le> softQuota q' \<and> softQuota q' \<le> 4 \<and> credit q' \<le> of_int (4 - softQuota q')"
  using burst_bounds[OF rounding_trunc53, of demo_tracker "[True, True, True, True, False]"]
  by (auto simp: demo_tracker_def ql_inv_def)

text \<open>How far a burst goes.  An empty burst tracker with soft quota \<open>s\<close>, hard limit \<open>h\<close> and a credit of
  which \<open>n\<close> units can be spent without rounding error takes \<open>s + n\<close> items in a row as long as this is
  at most \<open>h\<close>; the next one is refused, with \<open>ErrQueueFull\<close> at the hard limit and with
  \<open>ErrQueueNoCredit\<close> when less than one unit of credit is left.\<close>

theorem burst_budget:
  assumes "ql_length q = 0" "1 \<le> softQuota q" "softQuota q + int n \<le> hardLimit q" "of_nat n \<le> credit q"
    and "\<forall>k \<le> n. rnd (credit q - of_nat k) = credit q - of_nat k"
  shows "\<exists>q'. adds rnd (nat (softQuota q) + n) q = Inr q' \<and> ql_length q' = softQuota q + int n
    \<and> (softQuota q + int n = hardLimit q \<longrightarrow> ql_add rnd q' = Inl ErrQueueFull)
    \<and> (softQuota q + int n \<noteq> hardLimit q \<and> credit q < of_nat n + 1 \<longrightarrow> ql_add rnd q' = Inl ErrQueueNoCredit)"
proof -
  let ?q1 = "q\<lparr>ql_length := ql_length q + int (nat (softQuota q))\<rparr>"
  have split: "adds rnd (a + b) q = (case adds rnd a q of Inl e \<Rightarrow> Inl e | Inr q' \<Rightarrow> adds rnd b q')" for a b q
    by (induction a arbitrary: q) (auto split: sum.splits)
  have "adds rnd (nat (softQuota q)) q = Inr ?q1"
    by (rule adds_below_soft) (use assms(1,2) in simp)
  moreover have "adds rnd n ?q1 = Inr (?q1\<lparr>ql_length := ql_length ?q1 + int n, softQuota := softQuota ?q1 + int n,
      credit := credit ?q1 - of_nat n\<rparr>)"
    by (rule adds_burst) (use assms in simp_all)
  ultimately show ?thesis
    using assms(1,2,3) by (auto simp: split ql_add_def)
qed

lemma burst_budget_witness:
  "\<exists>q'. adds trunc53 3 demo_tracker = Inr q' \<and> ql_add trunc53 q' = Inl ErrQueueNoCredit"
  using burst_budget[of demo_tracker 1 trunc53]
  by (auto simp: demo_tracker_def trunc53_def le_Suc_eq eval_nat_numeral)

end
