(* ===== verification/Monitor.thy ===== *)
theory Monitor
  imports Prelude
begin

text \<open>
  What the queue and the deque of \<open>src/pubsub\<close> use of \<open>sync.Mutex\<close>, \<open>sync.Cond\<close> and
  \<open>context.AfterFunc\<close>, as a step relation, and the contract under which no wakeup is lost.

  A method of the two types holds the mutex from its first line to its return, except while it is
  inside \<open>Cond.Wait\<close>.  So a call is a sequence of critical sections: the first one runs from the
  start of the method to its return or its first \<open>Wait\<close>, and every further one from the return of
  a \<open>Wait\<close> to the method's return or its next \<open>Wait\<close>.  The object's state says what a section
  computes, and the log of wakes which condition variables it signalled.

  The locale \<open>monitor\<close> is the contract of such an object.  Its last law is the one the code has to
  keep in every method: a section that makes a waiting call runnable also broadcasts on the condition
  variable that call waits on.
\<close>

datatype 'c wake = Broadcast 'c | Signal 'c | Later 'c

datatype ('r, 'c) verdict = Return 'r | WaitOn 'c

type_synonym ('r, 'q, 'c) csection = "('r, 'c) verdict \<times> 'q \<times> 'c wake list"

text \<open>
  The world: the object, the calls under way (with their context and, if asleep, the condition
  variable), the notify list of every condition variable, the contexts that have ended, and the
  condition variables for which a callback of \<open>context.AfterFunc\<close> is about to broadcast.
\<close>

record ('q, 'p, 'c) world =
  w_obj :: 'q
  w_run :: "nat \<Rightarrow> ('p \<times> nat \<times> 'c option) option"
  w_wait :: "'c \<Rightarrow> nat list"
  w_cancelled :: "nat set"
  w_pending :: "'c set"

definition awaken :: "nat list \<Rightarrow> ('q, 'p, 'c) world \<Rightarrow> ('q, 'p, 'c) world" where
  "awaken ts w = w\<lparr>w_run := (\<lambda>t. if t \<in> set ts then map_option (\<lambda>(p, x, _). (p, x, None)) (w_run w t)
                                 else w_run w t)\<rparr>"

fun do_wake :: "'c wake \<Rightarrow> ('q, 'p, 'c) world \<Rightarrow> ('q, 'p, 'c) world" where
  "do_wake (Broadcast c) w = (awaken (w_wait w c) w)\<lparr>w_wait := (w_wait w)(c := [])\<rparr>"
| "do_wake (Signal c) w =
     (case w_wait w c of [] \<Rightarrow> w
      | t # ts \<Rightarrow> (awaken [t] w)\<lparr>w_wait := (w_wait w)(c := ts)\<rparr>)"
| "do_wake (Later c) w = w\<lparr>w_pending := insert c (w_pending w)\<rparr>"

definition finish_section :: "nat \<Rightarrow> 'p \<Rightarrow> nat \<Rightarrow> ('r, 'q, 'c) csection \<Rightarrow> ('q, 'p, 'c) world \<Rightarrow> ('q, 'p, 'c) world" where
  "finish_section t p x sec w =
     (case sec of (v, q', ws) \<Rightarrow>
        let w1 = fold do_wake ws (w\<lparr>w_obj := q'\<rparr>) in
        case v of
          Return _ \<Rightarrow> w1\<lparr>w_run := (w_run w1)(t := None)\<rparr>
        | WaitOn c \<Rightarrow> w1\<lparr>w_run := (w_run w1)(t \<mapsto> (p, x, Some c)), w_wait := (w_wait w1)(c := w_wait w1 c @ [t])\<rparr>)"

inductive mstep :: "(bool \<Rightarrow> bool \<Rightarrow> 'p \<Rightarrow> 'q \<Rightarrow> ('r, 'q, 'c) csection) \<Rightarrow> ('p \<Rightarrow> 'c) \<Rightarrow> ('p \<Rightarrow> 'q \<Rightarrow> bool) \<Rightarrow>
    ('q, 'p, 'c) world \<Rightarrow> ('q, 'p, 'c) world \<Rightarrow> bool"
  for attempt wcond valid where
  call: "w_run w t = None \<Longrightarrow> valid p (w_obj w) \<Longrightarrow>
     mstep attempt wcond valid w (finish_section t p x (attempt True (x \<in> w_cancelled w) p (w_obj w)) w)"
| resume: "w_run w t = Some (p, x, None) \<Longrightarrow>
     mstep attempt wcond valid w (finish_section t p x (attempt False (x \<in> w_cancelled w) p (w_obj w)) w)"
| cancel: "mstep attempt wcond valid w
     (w\<lparr>w_cancelled := insert x (w_cancelled w),
        w_pending := w_pending w \<union> {wcond p |t p s. w_run w t = Some (p, x, s)}\<rparr>)"
| callback: "c \<in> w_pending w \<Longrightarrow> w_pending w - {c} \<subseteq> P \<Longrightarrow> P \<subseteq> w_pending w \<Longrightarrow>
     mstep attempt wcond valid w (do_wake (Broadcast c) (w\<lparr>w_pending := P\<rparr>))"

definition idle_world :: "'q \<Rightarrow> ('q, 'p, 'c) world" where
  "idle_world q = \<lparr>w_obj = q, w_run = (\<lambda>_. None), w_wait = (\<lambda>_. []), w_cancelled = {}, w_pending = {}\<rparr>"

text \<open>
  \<open>blocked\<close>: the call, run again now, would go back to sleep on \<open>c\<close> without a change of the object.
  \<open>asleep\<close> relates every notify list to the calls that sleep.
\<close>

definition blocked :: "(bool \<Rightarrow> bool \<Rightarrow> 'p \<Rightarrow> 'q \<Rightarrow> ('r, 'q, 'c) csection) \<Rightarrow> 'p \<Rightarrow> 'c \<Rightarrow> 'q \<Rightarrow> bool" where
  "blocked attempt p c q \<longleftrightarrow> (\<exists>q' ws. attempt False False p q = (WaitOn c, q', ws))"

definition asleep :: "('q, 'p, 'c) world \<Rightarrow> bool" where
  "asleep w \<longleftrightarrow> (\<forall>t c. t \<in> set (w_wait w c) \<longleftrightarrow> (\<exists>p x. w_run w t = Some (p, x, Some c)))
     \<and> (\<forall>c. distinct (w_wait w c))"

lemma do_wake_asleep: "asleep w \<Longrightarrow> asleep (do_wake k w)"
proof (cases k)
  case (Broadcast c)
  assume "asleep w"
  then show ?thesis
    unfolding asleep_def Broadcast by (force simp: awaken_def split: if_splits)
next
  case (Signal c)
  assume a: "asleep w"
  show ?thesis
  proof (cases "w_wait w c")
    case Nil
    with a Signal show ?thesis by simp
  next
    case (Cons t ts)
    have d: "t \<notin> set ts" "distinct ts" using a Cons unfolding asleep_def by (metis distinct.simps(2))+
    have s: "\<exists>p x. w_run w t = Some (p, x, Some c)"
      using a Cons unfolding asleep_def by (metis list.set_intros(1))
    show ?thesis
      unfolding asleep_def
    proof (intro conjI allI)
      fix u c'
      have u: "u \<in> set (w_wait w c') \<longleftrightarrow> (\<exists>p x. w_run w u = Some (p, x, Some c'))"
        using a by (auto simp: asleep_def)
      show "(u \<in> set (w_wait (do_wake k w) c')) = (\<exists>p x. w_run (do_wake k w) u = Some (p, x, Some c'))"
        using u d s Cons Signal by (cases "u = t"; cases "c' = c") (auto simp: awaken_def)
      show "distinct (w_wait (do_wake k w) c')"
        using a d Cons Signal by (auto simp: awaken_def asleep_def)
    qed
  qed
next
  case (Later c)
  assume "asleep w"
  with Later show ?thesis by (simp add: asleep_def)
qed

lemma do_wake_frame [simp]:
  "w_obj (do_wake k w) = w_obj w" "w_cancelled (do_wake k w) = w_cancelled w"
  by (cases k; auto simp: awaken_def split: list.splits)+

lemma do_wake_pending: "w_pending w \<subseteq> w_pending (do_wake k w)"
  by (cases k) (auto simp: awaken_def split: list.splits)

lemma do_wake_run:
  "w_run (do_wake k w) t = Some (p, x, s) \<Longrightarrow> \<exists>s'. w_run w t = Some (p, x, s') \<and> (s = s' \<or> s = None)"
  by (cases k) (auto simp: awaken_def split: list.splits if_splits)

lemma do_wake_idle: "w_run w t = None \<Longrightarrow> w_run (do_wake k w) t = None"
  by (cases k) (auto simp: awaken_def split: list.splits)

lemma do_wake_awake: "w_run w t = Some (p, x, None) \<Longrightarrow> w_run (do_wake k w) t = Some (p, x, None)"
  by (cases k) (auto simp: awaken_def split: list.splits)

lemma Broadcast_wakes: "asleep w \<Longrightarrow> w_run (do_wake (Broadcast c) w) t \<noteq> Some (p, x, Some c)"
  unfolding asleep_def by (auto simp: awaken_def)

lemma fold_wake:
  "w_obj (fold do_wake ws w) = w_obj w"
  "w_cancelled (fold do_wake ws w) = w_cancelled w"
  "w_pending w \<subseteq> w_pending (fold do_wake ws w)"
  "asleep w \<Longrightarrow> asleep (fold do_wake ws w)"
  "w_run (fold do_wake ws w) t = Some (p, x, s) \<Longrightarrow> \<exists>s'. w_run w t = Some (p, x, s') \<and> (s = s' \<or> s = None)"
  "w_run w t = None \<Longrightarrow> w_run (fold do_wake ws w) t = None"
  "w_run w t = Some (p, x, None) \<Longrightarrow> w_run (fold do_wake ws w) t = Some (p, x, None)"
proof (induction ws arbitrary: w)
  case (Cons k ws)
  { case 1 then show ?case by (simp add: Cons) }
  { case 2 then show ?case by (simp add: Cons) }
  { case 3 then show ?case using Cons(3)[of "do_wake k w"] do_wake_pending[of w k] by auto }
  { case 4 then show ?case by (simp add: Cons do_wake_asleep) }
  { case 5 then show ?case using Cons(5)[of "do_wake k w"] do_wake_run[of k w t p x] by fastforce }
  { case 6 then show ?case by (simp add: Cons do_wake_idle) }
  { case 7 then show ?case by (simp add: Cons do_wake_awake) }
qed auto

lemma fold_wake_Broadcast:
  assumes "asleep w" "Broadcast c \<in> set ws"
  shows "w_run (fold do_wake ws w) t \<noteq> Some (p, x, Some c)"
  using assms
proof (induction ws arbitrary: w)
  case (Cons k ws)
  show ?case
  proof (cases "k = Broadcast c")
    case True
    then have "w_run (do_wake k w) t \<noteq> Some (p, x, Some c)"
      using Broadcast_wakes[OF Cons.prems(1)] by blast
    then show ?thesis using fold_wake(5)[of ws "do_wake k w" t p x "Some c"] by auto
  next
    case False
    with Cons show ?thesis by (simp add: do_wake_asleep)
  qed
qed simp

subsection \<open>The contract\<close>

locale monitor =
  fixes attempt :: "bool \<Rightarrow> bool \<Rightarrow> 'p \<Rightarrow> 'q \<Rightarrow> ('r, 'q, 'c) csection"
    and wcond :: "'p \<Rightarrow> 'c" and valid :: "'p \<Rightarrow> 'q \<Rightarrow> bool" and inv :: "'q \<Rightarrow> bool"
  assumes sec_inv: "inv q \<Longrightarrow> valid p q \<Longrightarrow> attempt f x p q = (v, q', ws) \<Longrightarrow> inv q'"
    and sec_valid: "inv q \<Longrightarrow> valid p q \<Longrightarrow> attempt f x p q = (v, q', ws) \<Longrightarrow> valid p' q \<Longrightarrow> valid p' q'"
    and sec_wait: "inv q \<Longrightarrow> valid p q \<Longrightarrow> attempt f x p q = (WaitOn c, q', ws) \<Longrightarrow>
       c = wcond p \<and> \<not> x \<and> blocked attempt p c q'"
    and sec_frame: "inv q \<Longrightarrow> valid p q \<Longrightarrow> attempt f x p q = (v, q', ws) \<Longrightarrow> valid p' q \<Longrightarrow>
       blocked attempt p' c q \<Longrightarrow> Broadcast c \<notin> set ws \<Longrightarrow> blocked attempt p' c q'"
begin

definition J :: "('q, 'p, 'c) world \<Rightarrow> bool" where
  "J w \<longleftrightarrow> inv (w_obj w) \<and> asleep w
     \<and> (\<forall>t p x s. w_run w t = Some (p, x, s) \<longrightarrow> valid p (w_obj w))
     \<and> (\<forall>t p x c. w_run w t = Some (p, x, Some c) \<longrightarrow>
          c = wcond p \<and> blocked attempt p c (w_obj w) \<and> (x \<in> w_cancelled w \<longrightarrow> c \<in> w_pending w))"

lemma J_start: "inv q \<Longrightarrow> J (idle_world q)"
  by (simp add: J_def idle_world_def asleep_def)

lemma J_section:
  assumes J: "J w" and p: "valid p (w_obj w)" and idle: "\<forall>c p' x'. w_run w t \<noteq> Some (p', x', Some c)"
    and sec: "attempt f (x \<in> w_cancelled w) p (w_obj w) = (v, q', ws)"
  shows "J (finish_section t p x (v, q', ws) w)"
proof -
  let ?w0 = "w\<lparr>w_obj := q'\<rparr>" and ?w1 = "fold do_wake ws (w\<lparr>w_obj := q'\<rparr>)"
  have inv: "inv (w_obj w)" and sl: "asleep ?w0" using J by (auto simp: J_def asleep_def)
  have inv': "inv q'" by (rule sec_inv[OF inv p sec])
  have val: "valid p' q'" if "valid p' (w_obj w)" for p' by (rule sec_valid[OF inv p sec that])
  have sl1: "asleep ?w1" by (rule fold_wake(4)[OF sl])
  have run: "valid p' q'" if ru: "w_run ?w1 u = Some (p', y, s)" for u p' y s
  proof -
    obtain s' where "w_run w u = Some (p', y, s')" using fold_wake(5)[OF ru] by auto
    then show ?thesis using J val unfolding J_def by blast
  qed
  have slp: "c = wcond p' \<and> blocked attempt p' c q' \<and> (y \<in> w_cancelled w \<longrightarrow> c \<in> w_pending ?w1)"
    if r: "w_run ?w1 u = Some (p', y, Some c)" for u p' y c
  proof -
    have u: "w_run w u = Some (p', y, Some c)" using fold_wake(5)[OF r] by auto
    then have b: "c = wcond p'" "blocked attempt p' c (w_obj w)" "y \<in> w_cancelled w \<longrightarrow> c \<in> w_pending w"
      "valid p' (w_obj w)"
      using J unfolding J_def by blast+
    have "Broadcast c \<notin> set ws" using fold_wake_Broadcast[OF sl] r by blast
    then have "blocked attempt p' c q'" using sec_frame[OF inv p sec b(4,2)] by blast
    then show ?thesis using b fold_wake(3)[of ?w0 ws] by auto
  qed
  have idle1: "w_run ?w1 t \<noteq> Some (p', x', Some c)" for c p' x'
    using idle fold_wake(5)[of ws ?w0 t p' x' "Some c"] by auto
  then have notin: "t \<notin> set (w_wait ?w1 c)" for c
    using sl1 unfolding asleep_def by blast
  show ?thesis
  proof (cases v)
    case (Return r)
    have "asleep (?w1\<lparr>w_run := (w_run ?w1)(t := None)\<rparr>)"
      using sl1 notin unfolding asleep_def by (auto simp: fun_upd_def)
    then show ?thesis
      using inv' run slp Return
      by (auto simp: finish_section_def J_def Let_def fold_wake(1,2))
  next
    case (WaitOn c)
    have c: "c = wcond p" "x \<notin> w_cancelled w" "blocked attempt p c q'"
      using sec_wait[OF inv p sec[unfolded WaitOn]] by auto
    have "asleep (?w1\<lparr>w_run := (w_run ?w1)(t \<mapsto> (p, x, Some c)), w_wait := (w_wait ?w1)(c := w_wait ?w1 c @ [t])\<rparr>)"
      using sl1 notin unfolding asleep_def by (auto simp: fun_upd_def)
    then show ?thesis
      using inv' run slp WaitOn c val[OF p]
      by (auto simp: finish_section_def J_def Let_def fold_wake(1,2))
  qed
qed

lemma J_step: "mstep attempt wcond valid w w' \<Longrightarrow> J w \<Longrightarrow> J w'"
proof (induction rule: mstep.induct)
  case (call w t p x)
  obtain v q' ws where sec: "attempt True (x \<in> w_cancelled w) p (w_obj w) = (v, q', ws)"
    using prod_cases3 by blast
  show ?case unfolding sec
    by (rule J_section[OF call.prems call.hyps(2) _ sec]) (simp add: call.hyps(1))
next
  case (resume w t p x)
  obtain v q' ws where sec: "attempt False (x \<in> w_cancelled w) p (w_obj w) = (v, q', ws)"
    using prod_cases3 by blast
  have "valid p (w_obj w)" using resume by (auto simp: J_def)
  then show ?case unfolding sec
    by (rule J_section[OF resume.prems _ _ sec]) (simp add: resume.hyps(1))
next
  case (cancel w x)
  then show ?case unfolding J_def asleep_def by auto metis+
next
  case (callback c w P)
  let ?w = "w\<lparr>w_pending := P\<rparr>"
  have a: "asleep ?w" using callback.prems by (simp add: J_def asleep_def)
  have b: "w_run (do_wake (Broadcast c) ?w) t \<noteq> Some (p, x, Some c)" for t p x
    by (rule Broadcast_wakes[OF a])
  have r: "\<exists>s'. w_run w t = Some (p, x, s') \<and> (s = s' \<or> s = None)"
    if "w_run (do_wake (Broadcast c) ?w) t = Some (p, x, s)" for t p x s
    using do_wake_run[OF that] by simp
  have pend: "w_pending (do_wake (Broadcast c) ?w) = P" by (simp add: awaken_def)
  show ?case
    unfolding J_def do_wake_frame pend
  proof (intro conjI allI impI)
    show "inv (w_obj ?w)" using callback.prems by (simp add: J_def)
    show "asleep (do_wake (Broadcast c) ?w)" by (rule do_wake_asleep[OF a])
  next
    fix t p x s assume "w_run (do_wake (Broadcast c) ?w) t = Some (p, x, s)"
    then show "valid p (w_obj ?w)" using r callback.prems by (fastforce simp: J_def)
  next
    fix t p x d assume d: "w_run (do_wake (Broadcast c) ?w) t = Some (p, x, Some d)"
    then have w: "w_run w t = Some (p, x, Some d)" and "d \<noteq> c" using r b by auto
    then have "d = wcond p \<and> blocked attempt p d (w_obj w) \<and> (x \<in> w_cancelled w \<longrightarrow> d \<in> w_pending w)"
      using callback.prems unfolding J_def by blast
    with \<open>d \<noteq> c\<close> callback.hyps(2)
    show "d = wcond p" "blocked attempt p d (w_obj ?w)" "x \<in> w_cancelled ?w \<Longrightarrow> d \<in> P" by auto
  qed
qed

lemma J_reachable: "(mstep attempt wcond valid)\<^sup>*\<^sup>* (idle_world q) w \<Longrightarrow> inv q \<Longrightarrow> J w"
  by (induction rule: rtranclp_induct) (auto intro: J_start J_step)

text \<open>No wakeup is lost: a call that sleeps would go back to sleep if it ran, or it is about to be woken.\<close>

lemma no_lost_wakeup:
  assumes "(mstep attempt wcond valid)\<^sup>*\<^sup>* (idle_world q) w" "inv q" "w_run w t = Some (p, x, Some c)"
  shows "t \<in> set (w_wait w c) \<and> blocked attempt p c (w_obj w) \<and> (x \<in> w_cancelled w \<longrightarrow> c \<in> w_pending w)"
  using J_reachable[OF assms(1,2)] assms(3) unfolding J_def asleep_def by blast

end

end
