(* ===== verification/PubQueue.thy ===== *)
theory PubQueue
  imports Tracker Monitor IrtSeq
begin

text \<open>
  The queue of \<open>src/pubsub/queue.go\<close>.

  The singly linked list lives in a heap of entries, addressed by numbers in the order of their
  allocation; address 0 is the sentinel that \<open>doInit\<close> makes.  A zero value of the element type is
  \<open>None\<close>.  Every method is a function of the queue; the methods that can block are given as the
  section they run after they took the mutex or returned from \<open>Wait\<close>, for a context that has ended or
  has not (\<open>x\<close>).  The field \<open>q_wakes\<close> logs what a section does to the condition variables.

  Lemmas: the invariant of the linked list and of the tracker, preserved by every section; what the
  sections do to the sequence of items; where a cursor goes; and, by the contract of \<open>Monitor\<close>, that
  no wakeup is lost.
\<close>

datatype qcond = NEmpty | NUpdates

record 'a entry =
  e_item :: "'a option"
  e_link :: "nat option"
  e_popped :: bool

record 'a Queue =
  q_tracker :: tracker
  q_drainers :: int
  q_closed :: bool
  q_back :: nat
  q_front :: nat
  q_heap :: "nat \<Rightarrow> 'a entry"
  q_fresh :: nat
  q_wakes :: "qcond wake list"

definition q_wake :: "qcond wake \<Rightarrow> 'a Queue \<Rightarrow> 'a Queue" where
  "q_wake k q = q\<lparr>q_wakes := q_wakes q @ [k]\<rparr>"

definition set_link :: "nat \<Rightarrow> nat option \<Rightarrow> 'a Queue \<Rightarrow> 'a Queue" where
  "set_link a l q = q\<lparr>q_heap := (q_heap q)(a := (q_heap q a)\<lparr>e_link := l\<rparr>)\<rparr>"

subsection \<open>The operations\<close>

definition makeQueue :: "tracker \<Rightarrow> 'a Queue" where
  "makeQueue t = \<lparr>q_tracker = t, q_drainers = 0, q_closed = False, q_back = 0, q_front = 0,
     q_heap = (\<lambda>_. \<lparr>e_item = None, e_link = None, e_popped = False\<rparr>), q_fresh = 1, q_wakes = []\<rparr>"

definition NewQueue :: "(rat \<Rightarrow> rat) \<Rightarrow> QueueOptions \<Rightarrow> qerror + 'a Queue" where
  "NewQueue rnd opts =
     (case QueueOptions_Validate rnd opts of
        (Some err, _) \<Rightarrow> Inl err
      | (None, opts') \<Rightarrow> Inr (makeQueue (newQueueLimitTracker opts')))"

definition NewUnlimitedQueue :: "'a Queue" where
  "NewUnlimitedQueue = makeQueue (NoLimit \<lparr>nl_length = 0\<rparr>)"

definition Queue_doAdd :: "(rat \<Rightarrow> rat) \<Rightarrow> 'a \<Rightarrow> 'a Queue \<Rightarrow> qerror option \<times> 'a Queue" where
  "Queue_doAdd rnd item q =
     (if q_drainers q > 0 then (Some ErrQueueDraining, q)
      else if q_closed q then (Some ErrQueueClosed, q)
      else case t_add rnd (q_tracker q) of
        Inl err \<Rightarrow> (Some err, q)
      | Inr t \<Rightarrow>
          let e = q_fresh q;
              q1 = q\<lparr>q_tracker := t, q_fresh := e + 1,
                     q_heap := (q_heap q)(e := \<lparr>e_item = Some item, e_link = None, e_popped = False\<rparr>)\<rparr>;
              q2 = set_link (q_back q1) (Some e) q1;
              q3 = q2\<lparr>q_back := e\<rparr>
          in (None, q_wake (Broadcast NUpdates) (q_wake (Broadcast NEmpty) q3)))"

definition Queue_Push :: "(rat \<Rightarrow> rat) \<Rightarrow> 'a \<Rightarrow> 'a Queue \<Rightarrow> qerror option \<times> 'a Queue" where
  "Queue_Push rnd item q = Queue_doAdd rnd item q"

definition Queue_Len :: "'a Queue \<Rightarrow> int" where "Queue_Len q = t_len (q_tracker q)"

definition Queue_popFront :: "(rat \<Rightarrow> rat) \<Rightarrow> 'a Queue \<Rightarrow> ('a option \<times> 'a Queue) outcome" where
  "Queue_popFront rnd q =
     (case e_link (q_heap q (q_front q)) of
        None \<Rightarrow> Panic ''nil pointer dereference''
      | Some e \<Rightarrow>
          let q1 = set_link (q_front q) (e_link (q_heap q e)) q;
              q2 = (if e = q_back q1 then q1\<lparr>q_back := q_front q1\<rparr> else q1);
              item = e_item (q_heap q2 e);
              q3 = q2\<lparr>q_heap := (q_heap q2)(e := \<lparr>e_item = None, e_link = None, e_popped = True\<rparr>)\<rparr>;
              q4 = q_wake (Broadcast NUpdates) (q3\<lparr>q_tracker := t_remove rnd (q_tracker q3)\<rparr>);
              q5 = (if t_len (q_tracker q4) = 0 then q_wake (Broadcast NEmpty) q4 else q4)
          in Done (item, q5))"

definition Queue_Pop :: "(rat \<Rightarrow> rat) \<Rightarrow> 'a Queue \<Rightarrow> (('a option \<times> bool) \<times> 'a Queue) outcome" where
  "Queue_Pop rnd q =
     (if q_closed q then Done ((None, False), q)
      else if t_len (q_tracker q) = 0 then Done ((None, False), q)
      else if t_len (q_tracker q) = 1 then
        on_done (Queue_popFront rnd q) (\<lambda>(out, q1).
          Done ((out, True), if q_drainers q1 > 0 then q_wake (Broadcast NEmpty) q1 else q_wake (Signal NEmpty) q1))
      else
        on_done (Queue_popFront rnd q) (\<lambda>(out, q1).
          Done ((out, True), if q_drainers q1 > 0 then q_wake (Broadcast NUpdates) q1 else q_wake (Signal NUpdates) q1)))"

definition Queue_doClose :: "'a Queue \<Rightarrow> 'a Queue" where
  "Queue_doClose q = q_wake (Broadcast NEmpty) (q_wake (Broadcast NUpdates) (q\<lparr>q_closed := True\<rparr>))"

definition Queue_Close :: "'a Queue \<Rightarrow> qerror option \<times> 'a Queue" where
  "Queue_Close q = (None, Queue_doClose q)"

text \<open>One round of the loop of \<open>WaitPush\<close> and of \<open>WaitPop\<close>.\<close>

definition Queue_WaitPush :: "(rat \<Rightarrow> rat) \<Rightarrow> bool \<Rightarrow> 'a \<Rightarrow> 'a Queue \<Rightarrow> (qerror option, qcond) verdict \<times> 'a Queue" where
  "Queue_WaitPush rnd x item q =
     (if q_drainers q > 0 then (Return (Some ErrQueueDraining), q)
      else if q_closed q then (Return (Some ErrQueueClosed), q)
      else if x then (Return (Some ErrContext), q)
      else if t_cap (q_tracker q) > t_len (q_tracker q) then
        (case Queue_doAdd rnd item q of (err, q') \<Rightarrow> (Return err, q'))
      else (WaitOn NUpdates, q))"

definition Queue_WaitPop :: "(rat \<Rightarrow> rat) \<Rightarrow> bool \<Rightarrow> 'a Queue \<Rightarrow>
    (('a option \<times> qerror option, qcond) verdict \<times> 'a Queue) outcome" where
  "Queue_WaitPop rnd x q =
     (if q_closed q then Done (Return (None, Some ErrQueueClosed), q)
      else if x then Done (Return (None, Some ErrContext), q)
      else if t_len (q_tracker q) > 0 then
        on_done (Queue_popFront rnd q) (\<lambda>(out, q'). Done (Return (out, None), q'))
      else Done (WaitOn NEmpty, q))"

text \<open>
  \<open>waitForDrain\<close> is its entry, its loop, and what its deferred calls do on the way out: one drainer
  less, and the end of the derived context, which starts the broadcast on \<open>nempty\<close>.
\<close>

definition drain_exit :: "'a Queue \<Rightarrow> 'a Queue" where
  "drain_exit q = q_wake (Later NEmpty) (q\<lparr>q_drainers := q_drainers q - 1\<rparr>)"

definition waitForDrain_loop :: "bool \<Rightarrow> 'a Queue \<Rightarrow> (qerror option, qcond) verdict \<times> 'a Queue" where
  "waitForDrain_loop x q =
     (if t_len (q_tracker q) > 0 then
        if q_closed q then (Return (Some ErrQueueClosed), drain_exit q)
        else if x then (Return (Some (errDrainEarly (t_len (q_tracker q)))), drain_exit q)
        else (WaitOn NEmpty, q)
      else (Return None, drain_exit q))"

definition waitForDrain :: "bool \<Rightarrow> 'a Queue \<Rightarrow> (qerror option, qcond) verdict \<times> 'a Queue" where
  "waitForDrain x q =
     (if q_closed q then (Return (Some ErrQueueClosed), q)
      else if x then (Return (Some (errDrainEarly (t_len (q_tracker q)))), q)
      else waitForDrain_loop x (q_wake (Broadcast NUpdates) (q\<lparr>q_drainers := q_drainers q + 1\<rparr>)))"

definition Queue_Drain :: "bool \<Rightarrow> bool \<Rightarrow> 'a Queue \<Rightarrow> (qerror option, qcond) verdict \<times> 'a Queue" where
  "Queue_Drain f x q = (if f then waitForDrain x q else waitForDrain_loop x q)"

definition Queue_Shutdown :: "bool \<Rightarrow> bool \<Rightarrow> 'a Queue \<Rightarrow> (qerror option, qcond) verdict \<times> 'a Queue" where
  "Queue_Shutdown f x q =
     (case (if f then waitForDrain x q else waitForDrain_loop x q) of
        (WaitOn c, q') \<Rightarrow> (WaitOn c, q')
      | (Return (Some err), q') \<Rightarrow> (Return (Some err), q')
      | (Return None, q') \<Rightarrow> (Return None, Queue_doClose q'))"

text \<open>Iterators: \<open>after\<close> and one call of the generator that each iterator is made from.\<close>

definition Queue_after :: "'a Queue \<Rightarrow> nat \<Rightarrow> nat option" where
  "Queue_after q cursor =
     (if e_popped (q_heap q cursor) then e_link (q_heap q (q_front q)) else e_link (q_heap q cursor))"

definition start_cursor :: "'a Queue \<Rightarrow> nat option \<Rightarrow> nat" where
  "start_cursor q c = (case c of None \<Rightarrow> q_front q | Some c \<Rightarrow> c)"

definition Queue_IteratorWait :: "bool \<Rightarrow> nat option \<Rightarrow> 'a Queue \<Rightarrow>
    ('a option \<times> bool \<times> nat option, qcond) verdict" where
  "Queue_IteratorWait x cur q =
     (let cursor = start_cursor q cur in
      if q_closed q then
        (case Queue_after q cursor of
           Some n \<Rightarrow> Return (e_item (q_heap q n), True, Some n)
         | None \<Rightarrow> Return (None, False, Some cursor))
      else if x then Return (None, False, Some cursor)
      else case Queue_after q cursor of
           Some n \<Rightarrow> Return (e_item (q_heap q n), True, Some n)
         | None \<Rightarrow> WaitOn NUpdates)"

definition Queue_Iterator_step :: "nat option \<Rightarrow> 'a Queue \<Rightarrow> 'a option \<times> bool \<times> nat option" where
  "Queue_Iterator_step cur q =
     (let cursor = start_cursor q cur in
      if q_closed q then (None, False, Some cursor)
      else case Queue_after q cursor of
        None \<Rightarrow> (None, False, Some cursor)
      | Some n \<Rightarrow> (e_item (q_heap q n), True, Some n))"

text \<open>
  The generator of \<open>IteratorWaitPop\<close>, when no other call gets the mutex between its \<open>Pop\<close> and its
  \<open>WaitPop\<close>; \<open>x1\<close> and \<open>x2\<close> say whether the context had ended at its first check and inside \<open>WaitPop\<close>.
\<close>

definition Queue_IteratorWaitPop :: "(rat \<Rightarrow> rat) \<Rightarrow> bool \<Rightarrow> bool \<Rightarrow> 'a Queue \<Rightarrow>
    (('a option \<times> bool, qcond) verdict \<times> 'a Queue) outcome" where
  "Queue_IteratorWaitPop rnd x1 x2 q =
     (if x1 then Done (Return (None, False), q)
      else on_done (Queue_Pop rnd q) (\<lambda>((msg, ok), q1).
        if ok then Done (Return (msg, True), q1)
        else on_done (Queue_WaitPop rnd x2 q1) (\<lambda>(v, q2).
          Done ((case v of
             WaitOn c \<Rightarrow> WaitOn c
           | Return (out, None) \<Rightarrow> Return (out, True)
           | Return (_, Some _) \<Rightarrow> Return (None, False)), q2))))"

subsection \<open>The invariant\<close>

fun chain :: "(nat \<Rightarrow> 'a entry) \<Rightarrow> nat \<Rightarrow> nat list \<Rightarrow> bool" where
  "chain h a [] \<longleftrightarrow> e_link (h a) = None"
| "chain h a (b # bs) \<longleftrightarrow> e_link (h a) = Some b \<and> chain h b bs"

definition q_live :: "'a Queue \<Rightarrow> nat list" where
  "q_live q = filter (\<lambda>i. i \<noteq> 0 \<and> \<not> e_popped (q_heap q i)) [0..<q_fresh q]"

definition q_inv :: "'a Queue \<Rightarrow> bool" where
  "q_inv q \<longleftrightarrow> q_front q = 0 \<and> 0 < q_fresh q \<and> \<not> e_popped (q_heap q 0)
     \<and> chain (q_heap q) 0 (q_live q) \<and> q_back q = last (0 # q_live q)
     \<and> (\<forall>i \<in> set (q_live q). e_item (q_heap q i) \<noteq> None)
     \<and> (\<forall>i < q_fresh q. e_popped (q_heap q i) \<longrightarrow> (\<forall>j \<in> set (q_live q). i < j))
     \<and> t_inv (q_tracker q) \<and> t_len (q_tracker q) = int (length (q_live q))"

definition q_items :: "'a Queue \<Rightarrow> 'a list" where
  "q_items q = map (\<lambda>i. the (e_item (q_heap q i))) (q_live q)"

lemma chain_cong: "(\<And>i. i \<in> set (a # as) \<Longrightarrow> e_link (h' i) = e_link (h i)) \<Longrightarrow> chain h' a as = chain h a as"
  by (induction as arbitrary: a) auto

lemma chain_snoc:
  "chain h a as \<Longrightarrow> distinct (a # as) \<Longrightarrow> n \<notin> set (a # as) \<Longrightarrow> b = last (a # as) \<Longrightarrow>
   e_link (h' n) = None \<Longrightarrow> e_link (h' b) = Some n \<Longrightarrow> (\<And>i. i \<noteq> b \<Longrightarrow> i \<noteq> n \<Longrightarrow> e_link (h' i) = e_link (h i)) \<Longrightarrow>
   chain h' a (as @ [n])"
  by (induction as arbitrary: a) (auto split: if_splits, metis last_in_set)

lemma q_live_distinct: "distinct (0 # q_live q)"
  by (simp add: q_live_def)

lemma q_live_less: "i \<in> set (q_live q) \<Longrightarrow> 0 < i \<and> i < q_fresh q"
  by (auto simp: q_live_def)

lemma sorted_q_live: "sorted_wrt (<) (q_live q)"
  by (simp add: q_live_def sorted_wrt_filter)

lemma wake_simps [simp]:
  "q_tracker (q_wake k q) = q_tracker q" "q_drainers (q_wake k q) = q_drainers q"
  "q_closed (q_wake k q) = q_closed q" "q_back (q_wake k q) = q_back q" "q_front (q_wake k q) = q_front q"
  "q_heap (q_wake k q) = q_heap q" "q_fresh (q_wake k q) = q_fresh q" "q_live (q_wake k q) = q_live q"
  "q_items (q_wake k q) = q_items q" "q_inv (q_wake k q) = q_inv q"
  "q_wakes (q_wake k q) = q_wakes q @ [k]"
  by (simp_all add: q_wake_def q_live_def q_items_def q_inv_def)

lemma upd_simps [simp]:
  "q_live (q\<lparr>q_drainers := n\<rparr>) = q_live q" "q_live (q\<lparr>q_closed := b\<rparr>) = q_live q"
  "q_live (q\<lparr>q_wakes := l\<rparr>) = q_live q"
  "q_items (q\<lparr>q_drainers := n\<rparr>) = q_items q" "q_items (q\<lparr>q_closed := b\<rparr>) = q_items q"
  "q_items (q\<lparr>q_wakes := l\<rparr>) = q_items q"
  "q_inv (q\<lparr>q_drainers := n\<rparr>) = q_inv q" "q_inv (q\<lparr>q_closed := b\<rparr>) = q_inv q"
  "q_inv (q\<lparr>q_wakes := l\<rparr>) = q_inv q"
  by (simp_all add: q_live_def q_items_def q_inv_def)

lemma makeQueue_inv: "t_inv t \<Longrightarrow> t_len t = 0 \<Longrightarrow> q_inv (makeQueue t) \<and> q_items (makeQueue t) = []"
  by (simp add: makeQueue_def q_inv_def q_live_def q_items_def)

subsection \<open>Adding\<close>

text \<open>\<open>doAdd\<close> refuses and changes nothing, or appends one item.\<close>

lemma doAdd_cases:
  assumes "q_inv q" "rounding rnd"
  obtains (refused) err where "Queue_doAdd rnd item q = (Some err, q)"
      "q_drainers q > 0 \<and> err = ErrQueueDraining \<or> q_drainers q \<le> 0 \<and> q_closed q \<and> err = ErrQueueClosed
       \<or> q_drainers q \<le> 0 \<and> \<not> q_closed q \<and> t_add rnd (q_tracker q) = Inl err"
  | (added) t q' where "Queue_doAdd rnd item q = (None, q')" "q_drainers q \<le> 0" "\<not> q_closed q"
      "t_add rnd (q_tracker q) = Inr t" "q_tracker q' = t" "q_drainers q' = q_drainers q" "\<not> q_closed q'"
      "q_inv q'" "q_items q' = q_items q @ [item]" "q_live q' = q_live q @ [q_fresh q]"
      "q_fresh q' = q_fresh q + 1" "q_wakes q' = q_wakes q @ [Broadcast NEmpty, Broadcast NUpdates]"
proof (cases "q_drainers q > 0 \<or> q_closed q \<or> (\<exists>err. t_add rnd (q_tracker q) = Inl err)")
  case True
  then consider "q_drainers q > 0" | "q_drainers q \<le> 0" "q_closed q"
    | err where "q_drainers q \<le> 0" "\<not> q_closed q" "t_add rnd (q_tracker q) = Inl err" by force
  then show ?thesis by cases (auto simp: Queue_doAdd_def intro: refused)
next
  case False
  then obtain t where t: "t_add rnd (q_tracker q) = Inr t" by (cases "t_add rnd (q_tracker q)") auto
  obtain q' where q': "Queue_doAdd rnd item q = (None, q')"
    using False t by (simp add: Queue_doAdd_def Let_def)
  let ?n = "q_fresh q" and ?b = "q_back q"
  have bn: "?b \<noteq> ?n" "?b < ?n" "?b = last (0 # q_live q)" "0 < ?n"
    using assms(1) q_live_less[OF last_in_set, of q] by (auto simp: q_inv_def)
  have f: "q_tracker q' = t" "q_drainers q' = q_drainers q" "\<not> q_closed q'" "q_fresh q' = ?n + 1"
      "q_back q' = ?n" "q_front q' = q_front q"
      "q_wakes q' = q_wakes q @ [Broadcast NEmpty, Broadcast NUpdates]"
    using q' False t by (auto simp: Queue_doAdd_def Let_def set_link_def)
  have h: "q_heap q' = (q_heap q)(?n := \<lparr>e_item = Some item, e_link = None, e_popped = False\<rparr>,
      ?b := (q_heap q ?b)\<lparr>e_link := Some ?n\<rparr>)"
    using q' False t bn by (auto simp: Queue_doAdd_def Let_def set_link_def)
  have live: "q_live q' = q_live q @ [?n]"
  proof -
    have "filter (\<lambda>i. i \<noteq> 0 \<and> \<not> e_popped (q_heap q' i)) [0..<?n] = q_live q"
      unfolding q_live_def by (rule filter_cong) (auto simp: h)
    then show ?thesis using bn by (simp add: q_live_def f h)
  qed
  have ch: "chain (q_heap q') 0 (q_live q @ [?n])"
  proof (rule chain_snoc[where h = "q_heap q" and b = ?b])
    show "chain (q_heap q) 0 (q_live q)" using assms(1) by (simp add: q_inv_def)
    show "?n \<notin> set (0 # q_live q)" using bn q_live_less[of ?n q] by auto
  qed (use bn q_live_distinct h in auto)
  have it: "e_item (q_heap q' i) = e_item (q_heap q i)" if "i \<in> set (q_live q)" for i
    using that q_live_less[of i q] by (simp add: h)
  have items: "q_items q' = q_items q @ [item]"
    using it bn by (simp add: q_items_def live h)
  have old: "\<forall>i < ?n + 1. e_popped (q_heap q' i) \<longrightarrow> (\<forall>j \<in> set (q_live q @ [?n]). i < j)"
    using assms(1) bn(1) by (auto simp: h q_inv_def less_Suc_eq)
  have i: "q_front q = 0" "\<not> e_popped (q_heap q 0)" "t_inv (q_tracker q)"
      "t_len (q_tracker q) = int (length (q_live q))" "\<forall>i \<in> set (q_live q). e_item (q_heap q i) \<noteq> None"
    using assms(1) by (simp_all add: q_inv_def)
  have it': "\<forall>i \<in> set (q_live q @ [?n]). e_item (q_heap q' i) \<noteq> None"
    using it i(5) bn(1) by (auto simp: h)
  have p0: "\<not> e_popped (q_heap q' 0)" using i(2) bn by (simp add: h)
  have "q_inv q'"
    unfolding q_inv_def live f using i ch old it' p0 t_add_inv[OF assms(2) i(3) t] t_add_len[OF t] by simp
  with q' False t f live items show ?thesis by (intro added) auto
qed

lemma popFront_live:
  assumes "q_inv q" "rounding rnd" "q_live q = e # es"
  obtains q' where "Queue_popFront rnd q = Done (e_item (q_heap q e), q')" "q_inv q'" "q_live q' = es"
    "q_items q = the (e_item (q_heap q e)) # q_items q'" "q_tracker q' = t_remove rnd (q_tracker q)"
    "q_drainers q' = q_drainers q" "q_closed q' = q_closed q" "q_fresh q' = q_fresh q"
    "q_wakes q' = q_wakes q @ [Broadcast NUpdates] @ (if es = [] then [Broadcast NEmpty] else [])"
    "e_item (q_heap q e) \<noteq> None"
    "e_popped (q_heap q' e)" "\<And>i. i \<noteq> e \<Longrightarrow> e_item (q_heap q' i) = e_item (q_heap q i)"
proof -
  let ?h = "(q_heap q)(0 := (q_heap q 0)\<lparr>e_link := e_link (q_heap q e)\<rparr>,
                       e := \<lparr>e_item = None, e_link = None, e_popped = True\<rparr>)"
  let ?q = "q\<lparr>q_heap := ?h, q_back := (if e = q_back q then 0 else q_back q), q_tracker := t_remove rnd (q_tracker q),
     q_wakes := q_wakes q @ [Broadcast NUpdates] @ (if es = [] then [Broadcast NEmpty] else [])\<rparr>"
  have e: "0 < e" "e \<noteq> 0" "e \<notin> set es" "0 \<notin> set es" "distinct es"
    using q_live_distinct[of q] assms(3) by auto
  have i: "q_front q = 0" "e_link (q_heap q 0) = Some e" "chain (q_heap q) e es"
      "q_back q = last (e # es)" "t_len (q_tracker q) = 1 + int (length es)" "e_item (q_heap q e) \<noteq> None"
      "\<forall>i \<in> set es. e_item (q_heap q i) \<noteq> None" "t_inv (q_tracker q)" "0 < q_fresh q"
      "\<not> e_popped (q_heap q 0)"
    using assms(1,3) by (simp_all add: q_inv_def)
  have len: "t_len (t_remove rnd (q_tracker q)) = int (length es)"
    using t_remove_len[of "q_tracker q" rnd] i by simp
  have r: "Queue_popFront rnd q = Done (e_item (q_heap q e), ?q)"
    using i e len by (simp add: Queue_popFront_def set_link_def Let_def q_wake_def)
  have live: "q_live ?q = es"
  proof -
    have "q_live ?q = filter (\<lambda>i. i \<noteq> e) (q_live q)"
      unfolding q_live_def filter_filter by (rule filter_cong) auto
    also have "\<dots> = es" using e assms(3) by (auto intro!: filter_True)
    finally show ?thesis .
  qed
  have ch: "chain ?h 0 es"
  proof (cases es)
    case Nil
    then show ?thesis using i e by simp
  next
    case (Cons a as)
    have "chain ?h a as = chain (q_heap q) a as"
      by (rule chain_cong) (use e Cons in auto)
    then show ?thesis using i e Cons by simp
  qed
  have bk: "(if e = q_back q then 0 else q_back q) = last (0 # es)"
    using i(4) e(3) last_in_set[of es] by (cases "es = []") auto
  have tinv: "t_inv (t_remove rnd (q_tracker q))"
    using t_remove_inv[OF assms(2) i(8)] i(5) by simp
  have it: "\<forall>j \<in> set es. e_item (?h j) \<noteq> None"
    using i(7) e by auto
  have old: "\<forall>i < q_fresh q. e_popped (?h i) \<longrightarrow> (\<forall>j \<in> set es. i < j)"
    using assms(1,3) sorted_q_live[of q] by (auto simp: q_inv_def)
  have inv: "q_inv ?q"
    unfolding q_inv_def live using i(1,9,10) e(2) bk ch it tinv len old by simp
  have items: "q_items q = the (e_item (q_heap q e)) # q_items ?q"
    unfolding q_items_def live using assms(3) e by auto
  show ?thesis
    by (rule that[OF r inv live items]) (use i e in auto)
qed

lemma live_len: "q_inv q \<Longrightarrow> t_len (q_tracker q) = int (length (q_items q))"
  by (simp add: q_inv_def q_items_def)

lemma items_live: "q_items q = x # xs \<Longrightarrow> \<exists>e es. q_live q = e # es \<and> the (e_item (q_heap q e)) = x"
  by (cases "q_live q") (auto simp: q_items_def)

text \<open>\<open>popFront\<close> on the items.\<close>

lemma popFront_items:
  assumes "q_inv q" "rounding rnd" "q_items q = x # xs"
  obtains q' where "Queue_popFront rnd q = Done (Some x, q')" "q_inv q'" "q_items q' = xs"
    "q_tracker q' = t_remove rnd (q_tracker q)" "q_drainers q' = q_drainers q" "q_closed q' = q_closed q"
    "q_fresh q' = q_fresh q"
    "q_wakes q' = q_wakes q @ [Broadcast NUpdates] @ (if xs = [] then [Broadcast NEmpty] else [])"
proof -
  obtain e es where e: "q_live q = e # es" "the (e_item (q_heap q e)) = x"
    using items_live[OF assms(3)] by blast
  show ?thesis
  proof (rule popFront_live[OF assms(1,2) e(1)])
    fix q' assume a: "Queue_popFront rnd q = Done (e_item (q_heap q e), q')" "q_inv q'" "q_live q' = es"
      "q_items q = the (e_item (q_heap q e)) # q_items q'" "q_tracker q' = t_remove rnd (q_tracker q)"
      "q_drainers q' = q_drainers q" "q_closed q' = q_closed q" "q_fresh q' = q_fresh q"
      "q_wakes q' = q_wakes q @ [Broadcast NUpdates] @ (if es = [] then [Broadcast NEmpty] else [])"
      "e_item (q_heap q e) \<noteq> None"
    have "e_item (q_heap q e) = Some x" "q_items q' = xs" "(es = []) = (xs = [])"
      using a(3,4,10) e assms(3) by (auto simp: q_items_def)
    with a show ?thesis by (intro that[of q']) simp_all
  qed
qed

lemma Pop_items:
  assumes "q_inv q" "rounding rnd"
  shows "\<exists>q'. Queue_Pop rnd q
      = Done (if q_closed q \<or> q_items q = [] then (None, False) else (Some (hd (q_items q)), True), q')
    \<and> q_inv q' \<and> q_items q' = (if q_closed q then q_items q else tl (q_items q))
    \<and> q_drainers q' = q_drainers q \<and> q_closed q' = q_closed q \<and> q_fresh q' = q_fresh q
    \<and> (q_closed q \<or> q_items q = [] \<longrightarrow> q' = q)
    \<and> (\<not> q_closed q \<and> q_items q \<noteq> [] \<longrightarrow> q_tracker q' = t_remove rnd (q_tracker q)
         \<and> {Broadcast NUpdates} \<union> (if tl (q_items q) = [] then {Broadcast NEmpty} else {}) \<subseteq> set (q_wakes q'))"
proof (cases "q_closed q \<or> q_items q = []")
  case True
  then show ?thesis using assms live_len[of q] by (auto simp: Queue_Pop_def)
next
  case False
  then obtain x xs where x: "q_items q = x # xs" by (cases "q_items q") auto
  obtain q' where "Queue_popFront rnd q = Done (Some x, q')" "q_inv q'" "q_items q' = xs"
    "q_tracker q' = t_remove rnd (q_tracker q)" "q_drainers q' = q_drainers q" "q_closed q' = q_closed q"
    "q_fresh q' = q_fresh q"
    "q_wakes q' = q_wakes q @ [Broadcast NUpdates] @ (if xs = [] then [Broadcast NEmpty] else [])"
    by (rule popFront_items[OF assms x])
  with False x live_len[OF assms(1)] show ?thesis
    by (auto simp: Queue_Pop_def)
qed

subsection \<open>Cursors\<close>

text \<open>
  A cursor always moves to the oldest item in the queue that is newer than the one it is at, whether
  that one is still in the queue or not.
\<close>

definition newer :: "'a Queue \<Rightarrow> nat \<Rightarrow> nat list" where
  "newer q c = filter (\<lambda>i. c < i) (q_live q)"

lemma chain_split: "chain h a (as @ b # bs) \<Longrightarrow> chain h b bs"
  by (induction as arbitrary: a) auto

lemma chain_link: "chain h a as \<Longrightarrow> e_link (h a) = (case as of [] \<Rightarrow> None | b # _ \<Rightarrow> Some b)"
  by (cases as) auto

lemma after_newer:
  assumes "q_inv q" "c < q_fresh q"
  shows "Queue_after q c = (case newer q c of [] \<Rightarrow> None | n # _ \<Rightarrow> Some n)"
proof -
  have ch: "chain (q_heap q) 0 (q_live q)" "q_front q = 0" using assms(1) by (auto simp: q_inv_def)
  consider (front) "c = 0" | (popped) "e_popped (q_heap q c)" | (live) "c \<in> set (q_live q)" "\<not> e_popped (q_heap q c)"
    using assms(2) by (auto simp: q_live_def)
  then show ?thesis
  proof cases
    case front
    have "newer q 0 = q_live q"
      unfolding newer_def by (rule filter_True) (use q_live_less in auto)
    then show ?thesis using ch chain_link[OF ch(1)] assms(1) front by (simp add: Queue_after_def)
  next
    case popped
    have "newer q c = q_live q"
      unfolding newer_def by (rule filter_True) (use popped assms in \<open>auto simp: q_inv_def\<close>)
    then show ?thesis using ch chain_link[OF ch(1)] popped by (simp add: Queue_after_def)
  next
    case live
    then obtain as bs where l: "q_live q = as @ c # bs" by (meson split_list)
    have "\<forall>i \<in> set as. i < c" "\<forall>i \<in> set bs. c < i"
      using sorted_q_live[of q] by (auto simp: l sorted_wrt_append)
    then have "newer q c = bs"
      unfolding newer_def l by (auto simp: filter_empty_conv filter_id_conv)
    moreover have "chain (q_heap q) c bs" using ch(1) unfolding l by (rule chain_split)
    ultimately show ?thesis using live(2) chain_link by (simp add: Queue_after_def)
  qed
qed

lemma filter_greater_Cons:
  "sorted_wrt (<) (xs :: nat list) \<Longrightarrow> filter (\<lambda>i. c < i) xs = n # ns \<Longrightarrow>
     n \<in> set xs \<and> c < n \<and> filter (\<lambda>i. n < i) xs = ns"
proof (induction xs)
  case (Cons x xs)
  show ?case
  proof (cases "c < x")
    case True
    have "filter (\<lambda>i. x < i) xs = xs" "filter (\<lambda>i. c < i) xs = xs"
      using Cons.prems(1) True by (auto intro!: filter_True)
    with True Cons.prems(2) show ?thesis by auto
  next
    case False
    with Cons show ?thesis by auto
  qed
qed simp

lemma newer_Cons: "newer q c = n # ns \<Longrightarrow> n \<in> set (q_live q) \<and> c < n \<and> n < q_fresh q \<and> newer q n = ns"
  using filter_greater_Cons[OF sorted_q_live] q_live_less unfolding newer_def by blast

text \<open>\<open>Iterator\<close> on a queue that nobody else touches: \<open>irt.GenerateOk\<close> has the same loop.\<close>

definition Queue_Iterator :: "'a Queue \<Rightarrow> ('a option, 's) seq" where
  "Queue_Iterator q yield s =
     do { (s', _) \<leftarrow> GenerateOk (\<lambda>(s, cur). case Queue_Iterator_step cur q of (v, ok, cur') \<Rightarrow> Some ((v, ok), (s, cur')))
                       (lift_op yield) (s, None);
          Some s' }"

lemma Iterator_run:
  assumes "q_inv q" "\<not> q_closed q" "start_cursor q cur < q_fresh q"
  shows "do { (s', _) \<leftarrow> GenerateOk (\<lambda>(s, cur). case Queue_Iterator_step cur q of (v, ok, cur') \<Rightarrow> Some ((v, ok), (s, cur')))
                       (lift_op yield) (s, cur); Some s' }
       = map_option snd (emit (map (\<lambda>i. e_item (q_heap q i)) (newer q (start_cursor q cur))) yield s)"
  using assms(3)
proof (induction "newer q (start_cursor q cur)" arbitrary: cur s)
  case Nil
  then show ?case
    using after_newer[OF assms(1), of "start_cursor q cur"] assms(2)
    by (subst GenerateOk.simps) (simp add: Queue_Iterator_step_def Let_def)
next
  case (Cons n ns)
  have n: "n < q_fresh q" "newer q n = ns"
    using newer_Cons[OF Cons.hyps(2)[symmetric]] by auto
  have st: "Queue_Iterator_step cur q = (e_item (q_heap q n), True, Some n)"
    using after_newer[OF assms(1) Cons.prems] assms(2)
    by (simp add: Queue_Iterator_step_def Let_def Cons.hyps(2)[symmetric])
  show ?case
  proof (cases "yield (e_item (q_heap q n)) s")
    case None
    then show ?thesis by (subst GenerateOk.simps) (simp add: st Cons.hyps(2)[symmetric])
  next
    case (Some r)
    have sc: "start_cursor q (Some n) = n" by (simp add: start_cursor_def)
    with Some Cons.hyps(1)[of "Some n"] n show ?thesis
      by (cases r) (subst GenerateOk.simps, simp add: st Cons.hyps(2)[symmetric])
  qed
qed

lemma yields_Iterator:
  assumes "q_inv q" "\<not> q_closed q"
  shows "yields (Queue_Iterator q) (map Some (q_items q))"
proof (rule yieldsI)
  fix yield :: "('a option, 's) yield" and s
  have f: "start_cursor q None = 0" "0 < q_fresh q" using assms(1) by (auto simp: q_inv_def start_cursor_def)
  have "newer q 0 = q_live q"
    unfolding newer_def by (rule filter_True) (use q_live_less in auto)
  moreover have "map (\<lambda>i. e_item (q_heap q i)) (q_live q) = map Some (q_items q)"
    using assms(1) by (auto simp: q_inv_def q_items_def)
  ultimately show "Queue_Iterator q yield s = map_option snd (emit (map Some (q_items q)) yield s)"
    using Iterator_run[OF assms, of None yield s] f by (simp add: Queue_Iterator_def)
qed

subsection \<open>Sections of concurrent calls\<close>

datatype 'a qcall = CPush 'a | CPop | CLen | CClose | CWaitPush 'a | CWaitPop | CDrain | CShutdown
  | CIterWait "nat option" | CIterStep "nat option"

datatype 'a qres = RErr "qerror option" | ROut "'a option" bool | ROutErr "'a option" "qerror option"
  | RCur "'a option" bool "nat option" | RNum int | RPanic string

fun with_result :: "('r \<Rightarrow> 't) \<Rightarrow> ('r, 'c) verdict \<Rightarrow> ('t, 'c) verdict" where
  "with_result f (Return r) = Return (f r)"
| "with_result f (WaitOn c) = WaitOn c"

fun q_section :: "(rat \<Rightarrow> rat) \<Rightarrow> bool \<Rightarrow> bool \<Rightarrow> 'a qcall \<Rightarrow> 'a Queue \<Rightarrow> ('a qres, qcond) verdict \<times> 'a Queue" where
  "q_section rnd f x (CPush v) q = (case Queue_Push rnd v q of (e, q') \<Rightarrow> (Return (RErr e), q'))"
| "q_section rnd f x CPop q =
     (case Queue_Pop rnd q of Panic m \<Rightarrow> (Return (RPanic m), q) | Done ((v, ok), q') \<Rightarrow> (Return (ROut v ok), q'))"
| "q_section rnd f x CLen q = (Return (RNum (Queue_Len q)), q)"
| "q_section rnd f x CClose q = (case Queue_Close q of (e, q') \<Rightarrow> (Return (RErr e), q'))"
| "q_section rnd f x (CWaitPush v) q = (case Queue_WaitPush rnd x v q of (r, q') \<Rightarrow> (with_result RErr r, q'))"
| "q_section rnd f x CWaitPop q =
     (case Queue_WaitPop rnd x q of Panic m \<Rightarrow> (Return (RPanic m), q)
      | Done (r, q') \<Rightarrow> (with_result (\<lambda>(v, e). ROutErr v e) r, q'))"
| "q_section rnd f x CDrain q = (case Queue_Drain f x q of (r, q') \<Rightarrow> (with_result RErr r, q'))"
| "q_section rnd f x CShutdown q = (case Queue_Shutdown f x q of (r, q') \<Rightarrow> (with_result RErr r, q'))"
| "q_section rnd f x (CIterWait cur) q =
     (with_result (\<lambda>(v, ok, c). RCur v ok c) (Queue_IteratorWait x cur q), q)"
| "q_section rnd f x (CIterStep cur) q =
     (case Queue_Iterator_step cur q of (v, ok, c) \<Rightarrow> (Return (RCur v ok c), q))"

lemma with_result_WaitOn [simp]: "with_result f v = WaitOn c \<longleftrightarrow> v = WaitOn c"
  by (cases v) auto

definition q_attempt :: "(rat \<Rightarrow> rat) \<Rightarrow> bool \<Rightarrow> bool \<Rightarrow> 'a qcall \<Rightarrow> 'a Queue \<Rightarrow> ('a qres, 'a Queue, qcond) csection" where
  "q_attempt rnd f x p q =
     (case q_section rnd f x p (q\<lparr>q_wakes := []\<rparr>) of (v, q') \<Rightarrow> (v, q', q_wakes q'))"

fun q_wcond :: "'a qcall \<Rightarrow> qcond" where
  "q_wcond (CWaitPush v) = NUpdates" | "q_wcond (CIterWait c) = NUpdates" | "q_wcond _ = NEmpty"

fun q_valid :: "'a qcall \<Rightarrow> 'a Queue \<Rightarrow> bool" where
  "q_valid (CIterWait (Some c)) q \<longleftrightarrow> c < q_fresh q"
| "q_valid (CIterStep (Some c)) q \<longleftrightarrow> c < q_fresh q"
| "q_valid _ q \<longleftrightarrow> True"

text \<open>When a call that waits would have to go on waiting.\<close>

fun q_must_wait :: "'a qcall \<Rightarrow> 'a Queue \<Rightarrow> bool" where
  "q_must_wait (CWaitPush v) q \<longleftrightarrow>
     q_drainers q \<le> 0 \<and> \<not> q_closed q \<and> t_cap (q_tracker q) \<le> t_len (q_tracker q)"
| "q_must_wait CWaitPop q \<longleftrightarrow> \<not> q_closed q \<and> t_len (q_tracker q) \<le> 0"
| "q_must_wait CDrain q \<longleftrightarrow> \<not> q_closed q \<and> t_len (q_tracker q) > 0"
| "q_must_wait CShutdown q \<longleftrightarrow> \<not> q_closed q \<and> t_len (q_tracker q) > 0"
| "q_must_wait (CIterWait cur) q \<longleftrightarrow> \<not> q_closed q \<and> Queue_after q (start_cursor q cur) = None"
| "q_must_wait _ q \<longleftrightarrow> False"

text \<open>What a section without the broadcast leaves alone.\<close>

definition q_frame :: "'a Queue \<Rightarrow> 'a Queue \<Rightarrow> bool" where
  "q_frame q q' \<longleftrightarrow> q_inv q' \<and> q_fresh q \<le> q_fresh q'
     \<and> (Broadcast NUpdates \<notin> set (q_wakes q') \<longrightarrow>
          q_drainers q' \<le> q_drainers q \<and> q_closed q' = q_closed q \<and> q_tracker q' = q_tracker q
          \<and> q_heap q' = q_heap q \<and> q_front q' = q_front q)
     \<and> (Broadcast NEmpty \<notin> set (q_wakes q') \<longrightarrow>
          q_closed q' = q_closed q \<and> (0 < t_len (q_tracker q')) = (0 < t_len (q_tracker q)))"

lemma q_frame_refl: "q_inv q \<Longrightarrow> q_frame q q"
  by (simp add: q_frame_def)

lemma q_frame_doAdd:
  assumes "q_inv q" "rounding rnd"
  shows "q_frame q (snd (Queue_doAdd rnd v q))"
  by (rule doAdd_cases[OF assms, of v]) (simp_all add: q_frame_refl assms(1), simp add: q_frame_def)

lemma q_frame_popFront:
  assumes "q_inv q" "rounding rnd" "0 < t_len (q_tracker q)"
  obtains v q' where "Queue_popFront rnd q = Done (v, q')" "q_frame q q'" "q_drainers q' = q_drainers q"
proof -
  obtain x xs where x: "q_items q = x # xs"
    using assms(3) live_len[OF assms(1)] by (cases "q_items q") auto
  show ?thesis
  proof (rule popFront_items[OF assms(1,2) x])
    fix q' assume a: "Queue_popFront rnd q = Done (Some x, q')" "q_inv q'" "q_items q' = xs"
      "q_drainers q' = q_drainers q" "q_closed q' = q_closed q" "q_fresh q' = q_fresh q"
      "q_wakes q' = q_wakes q @ [Broadcast NUpdates] @ (if xs = [] then [Broadcast NEmpty] else [])"
    have "t_len (q_tracker q') = int (length xs)" using live_len[OF a(2)] a(3) by simp
    then have "q_frame q q'" using a assms(3) by (auto simp: q_frame_def)
    with a show ?thesis by (intro that[of "Some x" q'])
  qed
qed

lemma q_frame_wake: "q_frame q q' \<Longrightarrow> q_frame q (q_wake k q')"
  by (auto simp: q_frame_def)

lemma q_frame_Pop:
  assumes "q_inv q" "rounding rnd"
  shows "\<exists>r q'. Queue_Pop rnd q = Done (r, q') \<and> q_frame q q'"
proof (cases "q_closed q \<or> t_len (q_tracker q) = 0")
  case True
  then show ?thesis using q_frame_refl[OF assms(1)] by (auto simp: Queue_Pop_def)
next
  case False
  then have "0 < t_len (q_tracker q)" using live_len[OF assms(1)] by simp
  from q_frame_popFront[OF assms this] obtain v q' where
    "Queue_popFront rnd q = Done (v, q')" "q_frame q q'" by blast
  with False show ?thesis
    by (cases "t_len (q_tracker q) = 1"; cases "q_drainers q' > 0") (auto simp: Queue_Pop_def intro: q_frame_wake)
qed

lemma q_frame_WaitPop:
  assumes "q_inv q" "rounding rnd"
  shows "\<exists>r q'. Queue_WaitPop rnd x q = Done (r, q') \<and> q_frame q q'
    \<and> (\<forall>c. r = WaitOn c \<longrightarrow> c = NEmpty \<and> \<not> x \<and> q' = q \<and> \<not> q_closed q \<and> t_len (q_tracker q) \<le> 0)"
proof (cases "q_closed q \<or> x \<or> t_len (q_tracker q) \<le> 0")
  case True
  then show ?thesis using q_frame_refl[OF assms(1)] by (auto simp: Queue_WaitPop_def)
next
  case False
  then have "0 < t_len (q_tracker q)" by simp
  from q_frame_popFront[OF assms this] obtain v q' where
    "Queue_popFront rnd q = Done (v, q')" "q_frame q q'" by blast
  with False show ?thesis by (auto simp: Queue_WaitPop_def)
qed

lemma q_frame_doClose: "q_inv q \<Longrightarrow> q_frame q (Queue_doClose q)"
  by (simp add: Queue_doClose_def q_frame_def)

text \<open>The drain: its entry and its loop on a queue whose log is empty or holds the entry's broadcast.\<close>

lemma q_frame_drain:
  assumes "q_inv q" "(if f then waitForDrain x q else waitForDrain_loop x q) = (v, q')"
  shows "q_frame q q'" "q_closed q' = q_closed q" "t_len (q_tracker q') = t_len (q_tracker q)"
    "v = WaitOn c \<Longrightarrow> c = NEmpty \<and> \<not> x \<and> \<not> q_closed q \<and> t_len (q_tracker q) > 0"
  using assms
  by (auto simp: waitForDrain_def waitForDrain_loop_def drain_exit_def q_frame_def split: if_splits)

lemma q_frame_trans_close: "q_frame q q' \<Longrightarrow> q_frame q (Queue_doClose q')"
  by (auto simp: q_frame_def Queue_doClose_def)

lemma section_frame:
  assumes "q_inv q" "rounding rnd" "q_section rnd f x p q = (v, q')"
  shows "q_frame q q' \<and> (\<forall>c. v = WaitOn c \<longrightarrow> c = q_wcond p \<and> \<not> x \<and> q_must_wait p q')"
proof (cases p)
  case (CPush i)
  with assms q_frame_doAdd[OF assms(1,2), of i] show ?thesis by (auto simp: Queue_Push_def split: prod.splits)
next
  case CPop
  with assms show ?thesis using q_frame_Pop[OF assms(1,2)] by (auto split: prod.splits outcome.splits) 
next
  case CLen
  with assms q_frame_refl[OF assms(1)] show ?thesis by auto
next
  case CClose
  with assms q_frame_doClose[OF assms(1)] show ?thesis by (auto simp: Queue_Close_def)
next
  case (CWaitPush i)
  with assms q_frame_doAdd[OF assms(1,2), of i] q_frame_refl[OF assms(1)] show ?thesis
    by (auto simp: Queue_WaitPush_def split: prod.splits if_splits)
next
  case CWaitPop
  then show ?thesis using q_frame_WaitPop[OF assms(1,2), of x] assms(3) by auto
next
  case CDrain
  obtain r q1 where r: "(if f then waitForDrain x q else waitForDrain_loop x q) = (r, q1)" by fastforce
  then have "v = with_result RErr r" "q' = q1"
    using CDrain assms(3) by (simp_all only: q_section.simps Queue_Drain_def r prod.case prod.inject)
  with CDrain q_frame_drain[OF assms(1) r] show ?thesis by (cases r) auto
next
  case CShutdown
  obtain r q1 where r: "(if f then waitForDrain x q else waitForDrain_loop x q) = (r, q1)" by fastforce
  have q': "(case r of WaitOn c \<Rightarrow> (v, q') = (WaitOn c, q1)
      | Return (Some err) \<Rightarrow> (v, q') = (Return (RErr (Some err)), q1)
      | Return None \<Rightarrow> (v, q') = (Return (RErr None), Queue_doClose q1))"
    using assms(3)[unfolded CShutdown q_section.simps Queue_Shutdown_def r prod.case]
    by (auto split: verdict.splits option.splits)
  show ?thesis
    using q' CShutdown q_frame_drain[OF assms(1) r] q_frame_trans_close[of q q1]
    by (cases r) (auto split: option.splits)
next
  case (CIterWait cur)
  with assms q_frame_refl[OF assms(1)] show ?thesis
    by (auto simp: Queue_IteratorWait_def Let_def split: option.splits if_splits prod.splits)
next
  case (CIterStep cur)
  with assms q_frame_refl[OF assms(1)] show ?thesis by (auto split: prod.splits)
qed

lemma must_wait_frame:
  assumes "q_frame q q'" "q_must_wait p q" "Broadcast (q_wcond p) \<notin> set (q_wakes q')"
  shows "q_must_wait p q'"
  using assms by (cases p) (auto simp: q_frame_def Queue_after_def start_cursor_def split: option.splits)

lemma cursor_wakes [simp]:
  "Queue_after (q\<lparr>q_wakes := l\<rparr>) c = Queue_after q c" "start_cursor (q\<lparr>q_wakes := l\<rparr>) cur = start_cursor q cur"
  by (simp_all add: Queue_after_def start_cursor_def split: option.split)

lemma q_blocked:
  assumes "q_inv q" "rounding rnd"
  shows "blocked (q_attempt rnd) p c q \<longleftrightarrow> c = q_wcond p \<and> q_must_wait p q"
proof
  assume "blocked (q_attempt rnd) p c q"
  then obtain q' where "q_section rnd False False p (q\<lparr>q_wakes := []\<rparr>) = (WaitOn c, q')"
    by (auto simp: blocked_def q_attempt_def split: prod.splits)
  then show "c = q_wcond p \<and> q_must_wait p q"
    using assms by (cases p) (auto simp: Queue_Push_def Queue_Close_def Queue_WaitPush_def Queue_WaitPop_def
      Queue_Drain_def Queue_Shutdown_def waitForDrain_loop_def Queue_IteratorWait_def Let_def split: prod.splits outcome.splits if_splits option.splits)
next
  assume "c = q_wcond p \<and> q_must_wait p q"
  then show "blocked (q_attempt rnd) p c q"
    by (cases p) (auto simp: blocked_def q_attempt_def Queue_WaitPush_def Queue_WaitPop_def
      Queue_Drain_def Queue_Shutdown_def waitForDrain_loop_def Queue_IteratorWait_def Let_def split: option.splits)
qed

lemma q_attempt_frame:
  assumes "q_inv q" "rounding rnd" "q_attempt rnd f x p q = (v, q', ws)"
  shows "q_frame q q'" "ws = q_wakes q'" "v = WaitOn c \<Longrightarrow> c = q_wcond p \<and> \<not> x \<and> q_must_wait p q'"
proof -
  have s: "q_section rnd f x p (q\<lparr>q_wakes := []\<rparr>) = (v, q')" "ws = q_wakes q'"
    using assms(3) by (auto simp: q_attempt_def split: prod.splits)
  have i: "q_inv (q\<lparr>q_wakes := []\<rparr>)" using assms(1) by simp
  have "q_frame (q\<lparr>q_wakes := []\<rparr>) q' = q_frame q q'" by (simp add: q_frame_def)
  then show "q_frame q q'" "ws = q_wakes q'" "v = WaitOn c \<Longrightarrow> c = q_wcond p \<and> \<not> x \<and> q_must_wait p q'"
    using section_frame[OF i assms(2) s(1)] s(2) by auto
qed

lemma q_valid_mono: "q_fresh q \<le> q_fresh q' \<Longrightarrow> q_valid p q \<Longrightarrow> q_valid p q'"
  by (cases "(p, q)" rule: q_valid.cases) auto

lemma q_monitor: "rounding rnd \<Longrightarrow> monitor (q_attempt rnd) q_wcond q_valid q_inv"
proof unfold_locales
  fix q q' :: "'a Queue" and p p' f x v ws c
  assume r: "rounding rnd" and i: "q_inv q"
    and s: "q_attempt rnd f x p q = (v, q', ws)"
  note fr = q_attempt_frame[OF i r s]
  show "q_inv q'" using fr(1) by (simp add: q_frame_def)
  show "q_valid p' q'" if "q_valid p' q" using that fr(1) q_valid_mono by (auto simp: q_frame_def)
  show "blocked (q_attempt rnd) p' c q'" if "blocked (q_attempt rnd) p' c q" "Broadcast c \<notin> set ws"
    using that fr(1,2) must_wait_frame[OF fr(1), of p'] q_blocked[OF i r] q_blocked[OF _ r, of q']
    by (auto simp: q_frame_def)
next
  fix q q' :: "'a Queue" and p f x c ws
  assume r: "rounding rnd" and i: "q_inv q" and s: "q_attempt rnd f x p q = (WaitOn c, q', ws)"
  note fr = q_attempt_frame[OF i r s]
  show "c = q_wcond p \<and> \<not> x \<and> blocked (q_attempt rnd) p c q'"
    using fr(1,3) q_blocked[OF _ r, of q' p c] by (auto simp: q_frame_def)
qed

interpretation qm: monitor "q_attempt trunc53" q_wcond q_valid q_inv
  by (rule q_monitor[OF rounding_trunc53])

subsection \<open>The abstract queue\<close>

text \<open>
  What a queue promises, without entries and condition variables: a list of items, a tracker, and
  the two flags.
\<close>

record 'a aqueue =
  a_items :: "'a list"
  a_tracker :: tracker
  a_closed :: bool
  a_drainers :: int

definition q_abs :: "'a Queue \<Rightarrow> 'a aqueue" where
  "q_abs q = \<lparr>a_items = q_items q, a_tracker = q_tracker q, a_closed = q_closed q, a_drainers = q_drainers q\<rparr>"

definition a_push :: "(rat \<Rightarrow> rat) \<Rightarrow> 'a \<Rightarrow> 'a aqueue \<Rightarrow> qerror option \<times> 'a aqueue" where
  "a_push rnd x a =
     (if a_drainers a > 0 then (Some ErrQueueDraining, a)
      else if a_closed a then (Some ErrQueueClosed, a)
      else case t_add rnd (a_tracker a) of
        Inl e \<Rightarrow> (Some e, a)
      | Inr t \<Rightarrow> (None, a\<lparr>a_items := a_items a @ [x], a_tracker := t\<rparr>))"

definition a_pop :: "(rat \<Rightarrow> rat) \<Rightarrow> 'a aqueue \<Rightarrow> ('a option \<times> bool) \<times> 'a aqueue" where
  "a_pop rnd a =
     (if a_closed a then ((None, False), a)
      else case a_items a of
        [] \<Rightarrow> ((None, False), a)
      | x # xs \<Rightarrow> ((Some x, True), a\<lparr>a_items := xs, a_tracker := t_remove rnd (a_tracker a)\<rparr>))"

lemma Push_abs:
  assumes "q_inv q" "rounding rnd"
  shows "map_prod id q_abs (Queue_Push rnd x q) = a_push rnd x (q_abs q)"
  by (rule doAdd_cases[OF assms, of x]) (auto simp: Queue_Push_def a_push_def q_abs_def)

lemma Pop_abs:
  assumes "q_inv q" "rounding rnd"
  shows "\<exists>q'. Queue_Pop rnd q = Done (fst (a_pop rnd (q_abs q)), q') \<and> q_abs q' = snd (a_pop rnd (q_abs q)) \<and> q_inv q'"
proof -
  obtain q' where p: "Queue_Pop rnd q
      = Done (if q_closed q \<or> q_items q = [] then (None, False) else (Some (hd (q_items q)), True), q')"
      "q_inv q'" "q_items q' = (if q_closed q then q_items q else tl (q_items q))"
      "q_drainers q' = q_drainers q" "q_closed q' = q_closed q"
      "q_closed q \<or> q_items q = [] \<longrightarrow> q' = q"
      "\<not> q_closed q \<and> q_items q \<noteq> [] \<longrightarrow> q_tracker q' = t_remove rnd (q_tracker q)"
    using Pop_items[OF assms] by blast
  then show ?thesis
    by (intro exI[of _ q']) (cases "q_items q"; auto simp: a_pop_def q_abs_def)
qed

text \<open>A client's run: calls of \<open>Push\<close> (\<open>Some x\<close>) and \<open>Pop\<close> (\<open>None\<close>) and what they return.\<close>

datatype 'a qout = Pushed "qerror option" | Popped "'a option" bool

fun q_run :: "(rat \<Rightarrow> rat) \<Rightarrow> 'a option list \<Rightarrow> 'a Queue \<Rightarrow> ('a qout list \<times> 'a Queue) outcome" where
  "q_run rnd [] q = Done ([], q)"
| "q_run rnd (Some x # ops) q =
     (case Queue_Push rnd x q of (e, q1) \<Rightarrow>
        on_done (q_run rnd ops q1) (\<lambda>(rs, q2). Done (Pushed e # rs, q2)))"
| "q_run rnd (None # ops) q =
     on_done (Queue_Pop rnd q) (\<lambda>((v, ok), q1).
        on_done (q_run rnd ops q1) (\<lambda>(rs, q2). Done (Popped v ok # rs, q2)))"

fun a_run :: "(rat \<Rightarrow> rat) \<Rightarrow> 'a option list \<Rightarrow> 'a aqueue \<Rightarrow> 'a qout list \<times> 'a aqueue" where
  "a_run rnd [] a = ([], a)"
| "a_run rnd (Some x # ops) a =
     (case a_push rnd x a of (e, a1) \<Rightarrow> case a_run rnd ops a1 of (rs, a2) \<Rightarrow> (Pushed e # rs, a2))"
| "a_run rnd (None # ops) a =
     (case a_pop rnd a of ((v, ok), a1) \<Rightarrow> case a_run rnd ops a1 of (rs, a2) \<Rightarrow> (Popped v ok # rs, a2))"

lemma doAdd_inv: "q_inv q \<Longrightarrow> rounding rnd \<Longrightarrow> q_inv (snd (Queue_Push rnd x q))"
  by (rule doAdd_cases[of q rnd x]) (auto simp: Queue_Push_def)

lemma q_run_abs:
  assumes "q_inv q" "rounding rnd"
  shows "\<exists>q'. q_run rnd ops q = Done (fst (a_run rnd ops (q_abs q)), q') \<and> q_abs q' = snd (a_run rnd ops (q_abs q)) \<and> q_inv q'"
  using assms(1)
proof (induction ops arbitrary: q)
  case (Cons p ops)
  show ?case
  proof (cases p)
    case (Some x)
    obtain e q1 where q1: "Queue_Push rnd x q = (e, q1)" by fastforce
    have "a_push rnd x (q_abs q) = (e, q_abs q1)" "q_inv q1"
      using Push_abs[OF Cons.prems assms(2), of x] doAdd_inv[OF Cons.prems assms(2), of x] q1 by simp_all
    with Some q1 Cons.IH[of q1] show ?thesis by (auto split: prod.splits)
  next
    case None
    obtain v ok a1 where a: "a_pop rnd (q_abs q) = ((v, ok), a1)" by (metis prod.exhaust)
    obtain q1 where "Queue_Pop rnd q = Done ((v, ok), q1)" "q_abs q1 = a1" "q_inv q1"
      using Pop_abs[OF Cons.prems assms(2)] a by auto
    with None a Cons.IH[of q1] show ?thesis by (auto split: prod.splits)
  qed
qed auto

subsection \<open>Properties\<close>

definition demo_queue :: "int list \<Rightarrow> int Queue" where
  "demo_queue xs = fold (\<lambda>x q. snd (Queue_Push trunc53 x q)) xs NewUnlimitedQueue"

lemma demo_queue_inv: "q_inv (demo_queue xs)"
proof -
  have "q_inv (NewUnlimitedQueue :: int Queue)"
    unfolding NewUnlimitedQueue_def by (rule conjunct1[OF makeQueue_inv]) (simp_all add: nl_inv_def nl_len_def)
  then have "q_inv (fold (\<lambda>x q. snd (Queue_Push trunc53 x q)) xs q)" if "q = NewUnlimitedQueue" for q
    using that by (induction xs rule: rev_induct) (auto intro: doAdd_inv rounding_trunc53)
  then show ?thesis by (simp add: demo_queue_def)
qed

text \<open>C9: Every sequence of \<open>Push\<close> and \<open>Pop\<close> calls on the linked list of entries gives the results of the
  abstract queue, a plain list with a tracker: first in, first out, with the errors of closed, draining
  and full queues, and it never follows a nil link.\<close>

theorem queue_refines_fifo:
  assumes "q_inv q" "rounding rnd"
  shows "\<exists>q'. q_run rnd ops q = Done (fst (a_run rnd ops (q_abs q)), q')
    \<and> q_abs q' = snd (a_run rnd ops (q_abs q)) \<and> q_inv q'"
  by (rule q_run_abs[OF assms])

lemma queue_refines_fifo_witness:
  "\<exists>q'. q_run trunc53 [Some 1, Some 2, None, Some 3, None] (demo_queue [])
       = Done ([Pushed None, Pushed None, Popped (Some 1) True, Pushed None, Popped (Some 2) True], q')"
  using queue_refines_fifo[OF demo_queue_inv rounding_trunc53, of "[Some 1, Some 2, None, Some 3, None]" "[]"]
  by (auto simp: a_push_def a_pop_def q_abs_def demo_queue_def NewUnlimitedQueue_def makeQueue_def q_items_def q_live_def
      nl_add_def)

text \<open>C1: No wakeup of the queue is lost.  In every reachable state of any number of goroutines that push,
  pop, drain, shut down, close and iterate, under any interleaving of their critical sections, of
  cancellations and of the callbacks these start: a goroutine that sleeps in \<open>WaitPush\<close>, \<open>WaitPop\<close>,
  \<open>Drain\<close>, \<open>Shutdown\<close> or \<open>IteratorWait\<close> has nothing to go on with, or its context has ended and the
  broadcast that wakes it is under way.\<close>

theorem queue_no_lost_wakeup:
  assumes "q_inv q" "rounding rnd"
    and "(mstep (q_attempt rnd) q_wcond q_valid)\<^sup>*\<^sup>* (idle_world q) w"
    and "w_run w t = Some (p, x, Some c)"
  shows "c = q_wcond p \<and> t \<in> set (w_wait w c) \<and> q_inv (w_obj w) \<and> q_must_wait p (w_obj w)
    \<and> (x \<in> w_cancelled w \<longrightarrow> c \<in> w_pending w)"
proof -
  have m: "monitor (q_attempt rnd) q_wcond q_valid q_inv" by (rule q_monitor[OF assms(2)])
  have "monitor.J (q_attempt rnd) q_wcond q_valid q_inv w"
    by (rule monitor.J_reachable[OF m assms(3,1)])
  then have "q_inv (w_obj w)" by (simp add: monitor.J_def[OF m])
  with monitor.no_lost_wakeup[OF m assms(3,1,4)] q_blocked[OF _ assms(2)] show ?thesis by blast
qed

lemma wp_step:
  "mstep (q_attempt trunc53) q_wcond q_valid (idle_world (demo_queue []))
     (finish_section 7 CWaitPop 1 (q_attempt trunc53 True False CWaitPop (demo_queue [])) (idle_world (demo_queue [])))"
  using mstep.call[of "idle_world (demo_queue [])" 7 q_valid CWaitPop "q_attempt trunc53" q_wcond 1]
  by (simp add: idle_world_def)

lemma wp_reach:
  "(mstep (q_attempt trunc53) q_wcond q_valid)\<^sup>*\<^sup>* (idle_world (demo_queue []))
     (finish_section 7 CWaitPop 1 (q_attempt trunc53 True False CWaitPop (demo_queue [])) (idle_world (demo_queue [])))"
  using wp_step by (rule r_into_rtranclp)

lemma wp_run:
  "w_run (finish_section 7 CWaitPop 1 (q_attempt trunc53 True False CWaitPop (demo_queue [])) (idle_world (demo_queue []))) 7
     = Some (CWaitPop, 1, Some NEmpty)"
  by (simp add: finish_section_def q_attempt_def Queue_WaitPop_def demo_queue_def NewUnlimitedQueue_def makeQueue_def
      nl_len_def)

lemma queue_no_lost_wakeup_witness:
  "\<exists>w :: (int Queue, int qcall, qcond) world. w_run w 7 = Some (CWaitPop, 1, Some NEmpty) \<and> q_must_wait CWaitPop (w_obj w)"
  by (rule exI, rule conjI, rule wp_run)
    (use queue_no_lost_wakeup[OF demo_queue_inv rounding_trunc53 wp_reach wp_run] in blast)

text \<open>\<open>WaitPush\<close> never reports a full queue.  A round of its loop that returns an error returns that
  the queue drains or is closed or that the context has ended; when it returns none, the item is at
  the end of the queue.\<close>

theorem WaitPush_outcome:
  assumes "q_inv q" "rounding rnd" "Queue_WaitPush rnd x v q = (Return r, q')"
  shows "(r = None \<and> q_items q' = q_items q @ [v]) \<or>
    (r \<in> {Some ErrQueueDraining, Some ErrQueueClosed, Some ErrContext} \<and> q' = q)"
proof (cases "q_drainers q > 0 \<or> q_closed q \<or> x \<or> t_cap (q_tracker q) \<le> t_len (q_tracker q)")
  case True
  then show ?thesis using assms(3) by (auto simp: Queue_WaitPush_def split: if_splits)
next
  case False
  then obtain t where t: "t_add rnd (q_tracker q) = Inr t"
    using t_add_free[of "q_tracker q" rnd] by auto
  have d: "Queue_doAdd rnd v q = (r, q')"
    using False assms(3) by (auto simp: Queue_WaitPush_def split: prod.splits)
  show ?thesis
    by (rule doAdd_cases[OF assms(1,2), of v]) (use False t d in auto)
qed

lemma WaitPush_outcome_witness: "q_items (snd (Queue_WaitPush trunc53 False 5 (demo_queue [1, 2]))) = [1, 2, 5]"
proof -
  obtain q' where r: "Queue_WaitPush trunc53 False 5 (demo_queue [1, 2]) = (Return None, q')"
    by (simp add: Queue_WaitPush_def Queue_doAdd_def demo_queue_def Queue_Push_def NewUnlimitedQueue_def makeQueue_def
        nl_add_def nl_cap_def nl_len_def Let_def set_link_def maxInt_def)
  have "q_items (demo_queue [1, 2]) = [1, 2]"
    by (simp add: Queue_doAdd_def demo_queue_def Queue_Push_def NewUnlimitedQueue_def makeQueue_def
        nl_add_def Let_def set_link_def q_items_def q_live_def upt_rec)
  with WaitPush_outcome[OF demo_queue_inv rounding_trunc53 r] r show ?thesis by simp
qed

text \<open>A cursor of an iterator, wherever it is, moves to the oldest item that is in the queue and newer
  than the one it is at, even when that one has been popped meanwhile; so no iterator yields an item
  twice or skips one that is still there.\<close>

theorem iterator_next_is_oldest_newer:
  assumes "q_inv q" "c < q_fresh q" "Queue_after q c = r"
  shows "case r of
      None \<Rightarrow> \<forall>i \<in> set (q_live q). i \<le> c
    | Some n \<Rightarrow> n \<in> set (q_live q) \<and> c < n \<and> (\<forall>i \<in> set (q_live q). c < i \<longrightarrow> n \<le> i)"
proof (cases "newer q c")
  case Nil
  then show ?thesis using after_newer[OF assms(1,2)] assms(3)
    by (auto simp: newer_def filter_empty_conv not_less)
next
  case (Cons n ns)
  have "sorted_wrt (<) (newer q c)" unfolding newer_def by (rule sorted_wrt_filter[OF sorted_q_live])
  then have "\<forall>i \<in> set (newer q c). n \<le> i" using Cons by auto
  moreover have "i \<in> set (newer q c) \<longleftrightarrow> i \<in> set (q_live q) \<and> c < i" for i by (auto simp: newer_def)
  ultimately have "\<forall>i \<in> set (q_live q). c < i \<longrightarrow> n \<le> i" by blast
  then show ?thesis using after_newer[OF assms(1,2)] assms(3) Cons newer_Cons[OF Cons] by auto
qed

lemma iterator_next_is_oldest_newer_witness:
  "Queue_after (demo_queue [1, 2]) 1 = Some 2 \<and> 2 \<in> set (q_live (demo_queue [1, 2]))"
proof -
  have c: "1 < q_fresh (demo_queue [1, 2])" "Queue_after (demo_queue [1, 2]) 1 = Some 2"
    by (simp_all add: Queue_doAdd_def demo_queue_def Queue_Push_def NewUnlimitedQueue_def makeQueue_def
        nl_add_def Let_def set_link_def Queue_after_def)
  show ?thesis using iterator_next_is_oldest_newer[OF demo_queue_inv c] c by simp
qed

end
