(* ===== verification/DLL.thy ===== *)
theory DLL
  imports Prelude
begin

text \<open>
  Circular doubly linked lists with a sentinel, the shape of the rings in \<open>src/pubsub/deque.go\<close>,
  \<open>src/dt/list.go\<close> and \<open>src/adt/simple_linked_list.go\<close>.  The two maps are the \<open>next\<close> and \<open>prev\<close>
  fields of the elements by address; a nil pointer is \<open>None\<close>.  \<open>ring nx pv r as\<close> says that the
  sentinel \<open>r\<close> and the elements \<open>as\<close> are linked both ways in this order.
\<close>

fun dseg :: "('p \<Rightarrow> 'p option) \<Rightarrow> ('p \<Rightarrow> 'p option) \<Rightarrow> 'p \<Rightarrow> 'p list \<Rightarrow> 'p \<Rightarrow> bool" where
  "dseg nx pv a [] b \<longleftrightarrow> nx a = Some b \<and> pv b = Some a"
| "dseg nx pv a (c # cs) b \<longleftrightarrow> nx a = Some c \<and> pv c = Some a \<and> dseg nx pv c cs b"

definition ring :: "('p \<Rightarrow> 'p option) \<Rightarrow> ('p \<Rightarrow> 'p option) \<Rightarrow> 'p \<Rightarrow> 'p list \<Rightarrow> bool" where
  "ring nx pv r as \<longleftrightarrow> dseg nx pv r as r \<and> distinct (r # as)"

lemma dseg_append: "dseg nx pv a (xs @ c # ys) b \<longleftrightarrow> dseg nx pv a xs c \<and> dseg nx pv c ys b"
  by (induction xs arbitrary: a) auto

lemma dseg_cong:
  "(\<And>i. i \<in> set (a # as) \<Longrightarrow> nx' i = nx i) \<Longrightarrow> (\<And>i. i \<in> set (b # as) \<Longrightarrow> pv' i = pv i) \<Longrightarrow>
   dseg nx' pv' a as b = dseg nx pv a as b"
  by (induction as arbitrary: a) auto

lemma dseg_last: "dseg nx pv a as b \<Longrightarrow> nx (last (a # as)) = Some b \<and> pv b = Some (last (a # as))"
  by (induction as arbitrary: a) auto

lemma dseg_hd: "dseg nx pv a as b \<Longrightarrow> nx a = Some (hd (as @ [b])) \<and> pv (hd (as @ [b])) = Some a"
  by (cases as) auto

text \<open>What the pointers are next to a position between \<open>xs\<close> and \<open>ys\<close>.\<close>

lemma ring_links:
  assumes "ring nx pv r (xs @ ys)"
  shows "nx (last (r # xs)) = Some (hd (ys @ [r]))" "pv (hd (ys @ [r])) = Some (last (r # xs))"
proof -
  have "dseg nx pv r (xs @ ys) r" using assms by (simp add: ring_def)
  then have "nx (last (r # xs)) = Some (hd (ys @ [r])) \<and> pv (hd (ys @ [r])) = Some (last (r # xs))"
    using dseg_last[of nx pv r xs] by (cases ys) (auto simp: dseg_append)
  then show "nx (last (r # xs)) = Some (hd (ys @ [r]))" "pv (hd (ys @ [r])) = Some (last (r # xs))"
    by blast+
qed

lemma ring_first: "ring nx pv r as \<Longrightarrow> nx r = Some (hd (as @ [r])) \<and> pv r = Some (last (r # as))"
  using ring_links[of nx pv r "[]" as] ring_links[of nx pv r as "[]"] by simp

lemma ring_cong:
  "(\<And>i. i \<in> set (r # as) \<Longrightarrow> nx' i = nx i) \<Longrightarrow> (\<And>i. i \<in> set (r # as) \<Longrightarrow> pv' i = pv i) \<Longrightarrow>
   ring nx' pv' r as = ring nx pv r as"
  unfolding ring_def using dseg_cong[of r as nx' nx r pv' pv] by simp

lemma ring_at:
  assumes "ring nx pv r (xs @ x # ys)"
  shows "nx x = Some (hd (ys @ [r]))" "pv x = Some (last (r # xs))"
  using ring_links[of nx pv r "xs @ [x]" ys] ring_links[of nx pv r xs "x # ys"] assms by auto

lemma ring_insert:
  assumes "ring nx pv r (xs @ ys)" "n \<notin> set (r # xs @ ys)"
    and "nx' (last (r # xs)) = Some n" "nx' n = Some (hd (ys @ [r]))"
    and "pv' (hd (ys @ [r])) = Some n" "pv' n = Some (last (r # xs))"
    and "\<And>i. i \<noteq> n \<Longrightarrow> i \<noteq> last (r # xs) \<Longrightarrow> nx' i = nx i"
    and "\<And>i. i \<noteq> n \<Longrightarrow> i \<noteq> hd (ys @ [r]) \<Longrightarrow> pv' i = pv i"
  shows "ring nx' pv' r (xs @ n # ys)"
proof -
  have d: "distinct (r # xs @ ys)" "dseg nx pv r (xs @ ys) r" using assms(1) by (auto simp: ring_def)
  have m: "last (r # xs) \<in> set (r # xs)" "hd (ys @ [r]) \<in> set (r # ys)" by (rule last_in_set) (simp, cases ys, simp_all)
  have far: "i \<noteq> last (r # xs)" if "i \<in> set ys" for i using that m(1) d(1) by auto
  have near: "i \<noteq> hd (ys @ [r])" if "i \<in> set xs" for i using that m(2) d(1) by auto
  have left: "dseg nx' pv' r xs n"
  proof (cases xs rule: rev_cases)
    case Nil
    then show ?thesis using assms(3,6) by simp
  next
    case (snoc zs z)
    have "dseg nx pv r zs z" using d(2) snoc by (simp add: dseg_append)
    moreover have "dseg nx' pv' r zs z = dseg nx pv r zs z"
    proof (rule dseg_cong)
      fix i assume i: "i \<in> set (r # zs)"
      then have "i \<noteq> last (r # xs)" using d(1) snoc by auto
      then show "nx' i = nx i" using i assms(2) snoc by (intro assms(7)) auto
    next
      fix i assume i: "i \<in> set (z # zs)"
      then have "i \<in> set xs" using snoc by auto
      then show "pv' i = pv i" using assms(2) near by (intro assms(8)) auto
    qed
    ultimately show ?thesis using assms(3,6) snoc by (simp add: dseg_append)
  qed
  have right: "dseg nx' pv' n ys r"
  proof (cases ys)
    case Nil
    then show ?thesis using assms(4,5) by simp
  next
    case (Cons y zs)
    have "dseg nx pv y zs r" using d(2) Cons by (simp add: dseg_append)
    moreover have "dseg nx' pv' y zs r = dseg nx pv y zs r"
    proof (rule dseg_cong)
      fix i assume "i \<in> set (y # zs)"
      then have "i \<in> set ys" using Cons by auto
      then show "nx' i = nx i" using assms(2) far by (intro assms(7)) auto
    next
      fix i assume i: "i \<in> set (r # zs)"
      then have "i \<noteq> hd (ys @ [r])" using d(1) Cons by auto
      then show "pv' i = pv i" using i assms(2) Cons by (intro assms(8)) auto
    qed
    ultimately show ?thesis using assms(4,5) Cons by simp
  qed
  show ?thesis using left right d assms(2) by (auto simp: ring_def dseg_append)
qed

lemma ring_remove:
  assumes "ring nx pv r (xs @ x # ys)"
    and "nx' (last (r # xs)) = Some (hd (ys @ [r]))" "pv' (hd (ys @ [r])) = Some (last (r # xs))"
    and "\<And>i. i \<noteq> x \<Longrightarrow> i \<noteq> last (r # xs) \<Longrightarrow> nx' i = nx i"
    and "\<And>i. i \<noteq> x \<Longrightarrow> i \<noteq> hd (ys @ [r]) \<Longrightarrow> pv' i = pv i"
  shows "ring nx' pv' r (xs @ ys)"
proof -
  have d: "distinct (r # xs @ x # ys)" "dseg nx pv r (xs @ x # ys) r" using assms(1) by (auto simp: ring_def)
  have m: "last (r # xs) \<in> set (r # xs)" "hd (ys @ [r]) \<in> set (r # ys)" by (rule last_in_set) (simp, cases ys, simp_all)
  have far: "i \<noteq> last (r # xs)" if "i \<in> set ys" for i using that m(1) d(1) by auto
  have near: "i \<noteq> hd (ys @ [r])" if "i \<in> set xs" for i using that m(2) d(1) by auto
  have left: "dseg nx' pv' r xs (hd (ys @ [r]))"
  proof (cases xs rule: rev_cases)
    case Nil
    then show ?thesis using assms(2,3) by simp
  next
    case (snoc zs z)
    have "dseg nx pv r zs z" using d(2) snoc by (simp add: dseg_append)
    moreover have "dseg nx' pv' r zs z = dseg nx pv r zs z"
    proof (rule dseg_cong)
      fix i assume i: "i \<in> set (r # zs)"
      then have "i \<noteq> last (r # xs)" "i \<noteq> x" using d(1) snoc by auto
      then show "nx' i = nx i" by (intro assms(4))
    next
      fix i assume i: "i \<in> set (z # zs)"
      then have "i \<in> set xs" using snoc by auto
      then show "pv' i = pv i" using d(1) near by (intro assms(5)) auto
    qed
    ultimately show ?thesis using assms(2,3) snoc by (simp add: dseg_append)
  qed
  show ?thesis
  proof (cases ys)
    case Nil
    then show ?thesis using left d by (simp add: ring_def)
  next
    case (Cons y zs)
    have "dseg nx pv y zs r" using d(2) Cons by (simp add: dseg_append)
    moreover have "dseg nx' pv' y zs r = dseg nx pv y zs r"
    proof (rule dseg_cong)
      fix i assume "i \<in> set (y # zs)"
      then have "i \<in> set ys" using Cons by auto
      then show "nx' i = nx i" using d(1) far by (intro assms(4)) auto
    next
      fix i assume i: "i \<in> set (r # zs)"
      then have "i \<noteq> hd (ys @ [r])" "i \<noteq> x" using d(1) Cons by auto
      then show "pv' i = pv i" by (intro assms(5))
    qed
    ultimately show ?thesis using left d Cons by (auto simp: ring_def dseg_append)
  qed
qed

text \<open>Fields of other addresses do not matter.\<close>

lemma ring_frame:
  "ring nx pv r as \<Longrightarrow> (\<And>i. i \<in> set (r # as) \<Longrightarrow> nx' i = nx i \<and> pv' i = pv i) \<Longrightarrow> ring nx' pv' r as"
  unfolding ring_def by (subst dseg_cong[of r as nx' nx r pv' pv]) auto

lemma ring_empty: "nx r = Some r \<Longrightarrow> pv r = Some r \<Longrightarrow> ring nx pv r []"
  by (simp add: ring_def)

text \<open>The elements in the order of one of the maps, up to the sentinel.\<close>

fun walk :: "('p \<Rightarrow> 'p option) \<Rightarrow> 'p \<Rightarrow> nat \<Rightarrow> 'p \<Rightarrow> 'p list" where
  "walk nx r 0 a = []"
| "walk nx r (Suc n) a =
     (case nx a of None \<Rightarrow> [] | Some b \<Rightarrow> if b = r then [] else b # walk nx r n b)"

lemma walk_dseg: "dseg nx pv a as r \<Longrightarrow> r \<notin> set as \<Longrightarrow> length as \<le> n \<Longrightarrow> walk nx r n a = as"
proof (induction as arbitrary: a n)
  case Nil
  then show ?case by (cases n) auto
next
  case (Cons b bs)
  then show ?case by (cases n) auto
qed

lemma walk_ring: "ring nx pv r as \<Longrightarrow> length as \<le> n \<Longrightarrow> walk nx r n r = as"
  by (auto simp: ring_def intro: walk_dseg)

lemma dseg_rev: "dseg nx pv a as b \<Longrightarrow> dseg pv nx b (rev as) a"
  by (induction as arbitrary: a) (auto simp: dseg_append)

lemma ring_rev: "ring nx pv r as \<Longrightarrow> ring pv nx r (rev as)"
  by (auto simp: ring_def dseg_rev)

lemma walk_ring_back: "ring nx pv r as \<Longrightarrow> length as \<le> n \<Longrightarrow> walk pv r n r = rev as"
  using walk_ring[OF ring_rev] by simp

end
