(* ===== verification/PubDeque.thy ===== *)
theory PubDeque
  imports PubQueue DLL
begin

text \<open>
  The double ended queue of \<open>src/pubsub/deque.go\<close> and \<open>src/pubsub/deque_element.go\<close>.

  The elements live in a heap by address, in the order of allocation; address 0 is the root that
  \<open>doInit\<close> makes.  Every element belongs to the one deque, so the field \<open>list\<close> is left out.  As in
  \<open>PubQueue\<close>, a method that can block is the section it runs from its start or from its return from
  \<open>Wait\<close>, and \<open>dq_wakes\<close> logs the broadcasts.  A nil pointer that is followed is a panic.
\<close>

datatype dqcond = NFront | NBack | DUpdates

datatype dqDirection = dqNext | dqPrev

record 'a element =
  d_item :: "'a option"
  d_next :: "nat option"
  d_prev :: "nat option"
  d_root :: bool
  d_seq :: int
  d_removed :: bool

record 'a Deque =
  dq_root :: nat
  dq_tracker :: tracker
  dq_drainers :: int
  dq_closed :: bool
  dq_lo :: int
  dq_hi :: int
  dq_heap :: "nat \<Rightarrow> 'a element"
  dq_fresh :: nat
  dq_wakes :: "dqcond wake list"

definition dq_wake :: "dqcond wake \<Rightarrow> 'a Deque \<Rightarrow> 'a Deque" where
  "dq_wake k dq = dq\<lparr>dq_wakes := dq_wakes dq @ [k]\<rparr>"

definition dq_upd :: "nat \<Rightarrow> ('a element \<Rightarrow> 'a element) \<Rightarrow> 'a Deque \<Rightarrow> 'a Deque" where
  "dq_upd a f dq = dq\<lparr>dq_heap := (dq_heap dq)(a := f (dq_heap dq a))\<rparr>"

subsection \<open>Elements\<close>

definition element_isRoot :: "'a Deque \<Rightarrow> nat \<Rightarrow> bool" where
  "element_isRoot dq it \<longleftrightarrow> d_root (dq_heap dq it) \<or> it = dq_root dq"

definition element_release :: "nat \<Rightarrow> 'a Deque \<Rightarrow> 'a Deque" where
  "element_release it dq = dq_upd it (\<lambda>e. e\<lparr>d_item := None, d_next := None, d_prev := None, d_removed := True\<rparr>) dq"

definition getNextOrPrevious :: "'a Deque \<Rightarrow> nat \<Rightarrow> dqDirection \<Rightarrow> nat option" where
  "getNextOrPrevious dq it direction =
     (if direction = dqPrev then d_prev (dq_heap dq it) else d_next (dq_heap dq it))"

subsection \<open>Construction\<close>

definition Deque_doInit :: "'a Deque" where
  "Deque_doInit = \<lparr>dq_root = 0, dq_tracker = NoLimit \<lparr>nl_length = 0\<rparr>, dq_drainers = 0, dq_closed = False,
     dq_lo = 0, dq_hi = 0,
     dq_heap = (\<lambda>_. \<lparr>d_item = None, d_next = Some 0, d_prev = Some 0, d_root = True, d_seq = 0, d_removed = False\<rparr>),
     dq_fresh = 1, dq_wakes = []\<rparr>"

record DequeOptions =
  do_Unlimited :: bool
  do_Capacity :: int
  do_QueueOptions :: "QueueOptions option"

definition DequeOptions_Validate :: "(rat \<Rightarrow> rat) \<Rightarrow> DequeOptions \<Rightarrow> qerror option \<times> DequeOptions" where
  "DequeOptions_Validate rnd opts =
     (if do_Unlimited opts \<and> (do_Capacity opts \<noteq> 0 \<or> do_QueueOptions opts \<noteq> None) then (Some ErrMalformed, opts)
      else if do_QueueOptions opts \<noteq> None \<and> do_Capacity opts \<noteq> 0 then (Some ErrMalformed, opts)
      else case do_QueueOptions opts of
        Some qo \<Rightarrow> (case QueueOptions_Validate rnd qo of (e, qo') \<Rightarrow> (e, opts\<lparr>do_QueueOptions := Some qo'\<rparr>))
      | None \<Rightarrow>
          if do_Unlimited opts then (None, opts)
          else if do_Capacity opts < 0 then (Some ErrMalformed, opts)
          else (None, opts))"

definition NewDeque :: "(rat \<Rightarrow> rat) \<Rightarrow> DequeOptions \<Rightarrow> qerror + 'a Deque" where
  "NewDeque rnd opts0 =
     (case DequeOptions_Validate rnd opts0 of
        (Some err, _) \<Rightarrow> Inl err
      | (None, opts) \<Rightarrow>
          (case do_QueueOptions opts of
             Some qo \<Rightarrow> Inr (Deque_doInit\<lparr>dq_tracker := newQueueLimitTracker qo\<rparr>)
           | None \<Rightarrow>
               if do_Capacity opts > 0
               then Inr (Deque_doInit\<lparr>dq_tracker := HardLimit \<lparr>hl_capacity = do_Capacity opts, hl_length = 0\<rparr>\<rparr>)
               else Inr Deque_doInit))"

subsection \<open>Adding and removing\<close>

definition dq_notify :: "'a Deque \<Rightarrow> 'a Deque" where
  "dq_notify dq = dq_wake (Broadcast DUpdates) (dq_wake (Broadcast NBack) (dq_wake (Broadcast NFront) dq))"

definition Deque_doClose :: "'a Deque \<Rightarrow> 'a Deque" where
  "Deque_doClose dq = dq_notify (dq\<lparr>dq_closed := True\<rparr>)"

definition Deque_Len :: "'a Deque \<Rightarrow> int" where "Deque_Len dq = t_len (dq_tracker dq)"

definition Deque_Close :: "'a Deque \<Rightarrow> qerror option \<times> 'a Deque" where
  "Deque_Close dq = (None, Deque_doClose dq)"

definition checkOpen :: "'a Deque \<Rightarrow> qerror option" where
  "checkOpen dq =
     (if dq_drainers dq > 0 then Some ErrQueueDraining
      else if dq_closed dq then Some ErrQueueClosed else None)"

definition Deque_add :: "(rat \<Rightarrow> rat) \<Rightarrow> 'a \<Rightarrow> dqDirection \<Rightarrow> 'a Deque \<Rightarrow> (qerror option \<times> 'a Deque) outcome" where
  "Deque_add rnd v side dq =
     (case checkOpen dq of
        Some err \<Rightarrow> Done (Some err, dq)
      | None \<Rightarrow>
        (case t_add rnd (dq_tracker dq) of
           Inl err \<Rightarrow> Done (Some err, dq_wake (Broadcast DUpdates) dq)
         | Inr t \<Rightarrow>
             let it = dq_fresh dq;
                 d1 = dq\<lparr>dq_tracker := t, dq_fresh := it + 1,
                         dq_heap := (dq_heap dq)(it := \<lparr>d_item = Some v, d_next = None, d_prev = None,
                                                         d_root = False, d_seq = 0, d_removed = False\<rparr>)\<rparr>
             in on_ptr (if side = dqPrev then d_prev (dq_heap d1 (dq_root d1)) else Some (dq_root d1)) (\<lambda>after.
                let d2 = (if side = dqPrev
                          then dq_upd it (\<lambda>e. e\<lparr>d_seq := dq_hi d1 + 1\<rparr>) (d1\<lparr>dq_hi := dq_hi d1 + 1\<rparr>)
                          else dq_upd it (\<lambda>e. e\<lparr>d_seq := dq_lo d1 - 1\<rparr>) (d1\<lparr>dq_lo := dq_lo d1 - 1\<rparr>));
                    d3 = dq_upd it (\<lambda>e. e\<lparr>d_prev := Some after\<rparr>) d2;
                    d4 = dq_upd it (\<lambda>e. e\<lparr>d_next := d_next (dq_heap d3 after)\<rparr>) d3
                in on_ptr (d_prev (dq_heap d4 it)) (\<lambda>p.
                   let d5 = dq_upd p (\<lambda>e. e\<lparr>d_next := Some it\<rparr>) d4
                   in on_ptr (d_next (dq_heap d5 it)) (\<lambda>n.
                      Done (None, dq_notify (dq_upd n (\<lambda>e. e\<lparr>d_prev := Some it\<rparr>) d5)))))))"

definition Deque_pop :: "(rat \<Rightarrow> rat) \<Rightarrow> nat \<Rightarrow> 'a Deque \<Rightarrow> (('a option \<times> bool) \<times> 'a Deque) outcome" where
  "Deque_pop rnd it dq =
     (if dq_closed dq \<or> element_isRoot dq it then Done ((None, False), dq)
      else let d1 = dq\<lparr>dq_tracker := t_remove rnd (dq_tracker dq)\<rparr> in
        on_ptr (d_prev (dq_heap d1 it)) (\<lambda>p.
          let d2 = dq_upd p (\<lambda>e. e\<lparr>d_next := d_next (dq_heap d1 it)\<rparr>) d1 in
          on_ptr (d_next (dq_heap d2 it)) (\<lambda>n.
            let d3 = dq_upd n (\<lambda>e. e\<lparr>d_prev := d_prev (dq_heap d2 it)\<rparr>) d2;
                out = d_item (dq_heap d3 it)
            in Done ((out, True), dq_notify (element_release it d3)))))"

definition PushFront :: "(rat \<Rightarrow> rat) \<Rightarrow> 'a \<Rightarrow> 'a Deque \<Rightarrow> (qerror option \<times> 'a Deque) outcome" where
  "PushFront rnd it dq = Deque_add rnd it dqNext dq"

definition PushBack :: "(rat \<Rightarrow> rat) \<Rightarrow> 'a \<Rightarrow> 'a Deque \<Rightarrow> (qerror option \<times> 'a Deque) outcome" where
  "PushBack rnd it dq = Deque_add rnd it dqPrev dq"

definition PopFront :: "(rat \<Rightarrow> rat) \<Rightarrow> 'a Deque \<Rightarrow> (('a option \<times> bool) \<times> 'a Deque) outcome" where
  "PopFront rnd dq = on_ptr (d_next (dq_heap dq (dq_root dq))) (\<lambda>it. Deque_pop rnd it dq)"

definition PopBack :: "(rat \<Rightarrow> rat) \<Rightarrow> 'a Deque \<Rightarrow> (('a option \<times> bool) \<times> 'a Deque) outcome" where
  "PopBack rnd dq = on_ptr (d_prev (dq_heap dq (dq_root dq))) (\<lambda>it. Deque_pop rnd it dq)"

definition ForcePushFront :: "(rat \<Rightarrow> rat) \<Rightarrow> 'a \<Rightarrow> 'a Deque \<Rightarrow> (qerror option \<times> 'a Deque) outcome" where
  "ForcePushFront rnd it dq =
     (case checkOpen dq of
        Some err \<Rightarrow> Done (Some err, dq)
      | None \<Rightarrow>
          on_done (if t_cap (dq_tracker dq) = t_len (dq_tracker dq)
                   then on_done (on_ptr (d_prev (dq_heap dq (dq_root dq))) (\<lambda>e. Deque_pop rnd e dq)) (\<lambda>(_, d). Done d)
                   else Done dq)
            (\<lambda>d. Deque_add rnd it dqNext d))"

definition ForcePushBack :: "(rat \<Rightarrow> rat) \<Rightarrow> 'a \<Rightarrow> 'a Deque \<Rightarrow> (qerror option \<times> 'a Deque) outcome" where
  "ForcePushBack rnd it dq =
     (case checkOpen dq of
        Some err \<Rightarrow> Done (Some err, dq)
      | None \<Rightarrow>
          on_done (if t_cap (dq_tracker dq) = t_len (dq_tracker dq)
                   then on_done (on_ptr (d_next (dq_heap dq (dq_root dq))) (\<lambda>e. Deque_pop rnd e dq)) (\<lambda>(_, d). Done d)
                   else Done dq)
            (\<lambda>d. Deque_add rnd it dqPrev d))"

subsection \<open>Blocking operations\<close>

definition waitPushAfter :: "(rat \<Rightarrow> rat) \<Rightarrow> bool \<Rightarrow> 'a \<Rightarrow> dqDirection \<Rightarrow> 'a Deque \<Rightarrow>
    ((qerror option, dqcond) verdict \<times> 'a Deque) outcome" where
  "waitPushAfter rnd x it side dq =
     (if dq_drainers dq > 0 then Done (Return (Some ErrQueueDraining), dq)
      else if dq_closed dq then Done (Return (Some ErrQueueClosed), dq)
      else if x then Done (Return (Some ErrContext), dq)
      else if t_cap (dq_tracker dq) > t_len (dq_tracker dq)
        then on_done (Deque_add rnd it side dq) (\<lambda>(err, d). Done (Return err, d))
      else Done (WaitOn DUpdates, dq))"

definition WaitPushFront :: "(rat \<Rightarrow> rat) \<Rightarrow> bool \<Rightarrow> 'a \<Rightarrow> 'a Deque \<Rightarrow>
    ((qerror option, dqcond) verdict \<times> 'a Deque) outcome" where
  "WaitPushFront rnd x it dq = waitPushAfter rnd x it dqNext dq"

definition WaitPushBack :: "(rat \<Rightarrow> rat) \<Rightarrow> bool \<Rightarrow> 'a \<Rightarrow> 'a Deque \<Rightarrow>
    ((qerror option, dqcond) verdict \<times> 'a Deque) outcome" where
  "WaitPushBack rnd x it dq = waitPushAfter rnd x it dqPrev dq"

text \<open>One round of \<open>await\<close>: \<open>Return None\<close> is its nil, after which the caller goes on.\<close>

definition Deque_await :: "bool \<Rightarrow> dqDirection \<Rightarrow> bool \<Rightarrow> 'a Deque \<Rightarrow> (qerror option, dqcond) verdict" where
  "Deque_await x direction ready dq =
     (if dq_closed dq then Return None
      else if x then Return (Some ErrContext)
      else if ready then Return None
      else WaitOn (if direction = dqPrev then NBack else NFront))"

definition Deque_waitPop :: "(rat \<Rightarrow> rat) \<Rightarrow> bool \<Rightarrow> dqDirection \<Rightarrow> 'a Deque \<Rightarrow>
    (('a option \<times> qerror option, dqcond) verdict \<times> 'a Deque) outcome" where
  "Deque_waitPop rnd x direction dq =
     on_ptr (getNextOrPrevious dq (dq_root dq) direction) (\<lambda>e.
       (case Deque_await x direction (dq_closed dq \<or> \<not> element_isRoot dq e) dq of
          WaitOn c \<Rightarrow> Done (WaitOn c, dq)
        | Return (Some err) \<Rightarrow> Done (Return (None, Some err), dq)
        | Return None \<Rightarrow>
            if dq_closed dq then Done (Return (None, Some ErrQueueClosed), dq)
            else on_done (Deque_pop rnd e dq) (\<lambda>((out, _), d). Done (Return (out, None), d))))"

definition WaitPopFront :: "(rat \<Rightarrow> rat) \<Rightarrow> bool \<Rightarrow> 'a Deque \<Rightarrow>
    (('a option \<times> qerror option, dqcond) verdict \<times> 'a Deque) outcome" where
  "WaitPopFront rnd x dq = Deque_waitPop rnd x dqNext dq"

definition WaitPopBack :: "(rat \<Rightarrow> rat) \<Rightarrow> bool \<Rightarrow> 'a Deque \<Rightarrow>
    (('a option \<times> qerror option, dqcond) verdict \<times> 'a Deque) outcome" where
  "WaitPopBack rnd x dq = Deque_waitPop rnd x dqPrev dq"

definition dq_drain_exit :: "'a Deque \<Rightarrow> 'a Deque" where
  "dq_drain_exit dq = dq_wake (Later DUpdates) (dq\<lparr>dq_drainers := dq_drainers dq - 1\<rparr>)"

definition Deque_drain_loop :: "bool \<Rightarrow> 'a Deque \<Rightarrow> (qerror option, dqcond) verdict \<times> 'a Deque" where
  "Deque_drain_loop x dq =
     (if t_len (dq_tracker dq) > 0 then
        if dq_closed dq then (Return (Some ErrQueueClosed), dq_drain_exit dq)
        else if x then (Return (Some (errDrainEarly (t_len (dq_tracker dq)))), dq_drain_exit dq)
        else (WaitOn DUpdates, dq)
      else (Return None, dq_drain_exit dq))"

definition Deque_waitForDrain :: "bool \<Rightarrow> 'a Deque \<Rightarrow> (qerror option, dqcond) verdict \<times> 'a Deque" where
  "Deque_waitForDrain x dq =
     (if dq_closed dq then (Return (Some ErrQueueClosed), dq)
      else if x then (Return (Some (errDrainEarly (t_len (dq_tracker dq)))), dq)
      else Deque_drain_loop x (dq_wake (Broadcast DUpdates) (dq\<lparr>dq_drainers := dq_drainers dq + 1\<rparr>)))"

definition Deque_Drain :: "bool \<Rightarrow> bool \<Rightarrow> 'a Deque \<Rightarrow> (qerror option, dqcond) verdict \<times> 'a Deque" where
  "Deque_Drain f x dq = (if f then Deque_waitForDrain x dq else Deque_drain_loop x dq)"

definition Deque_Shutdown :: "bool \<Rightarrow> bool \<Rightarrow> 'a Deque \<Rightarrow> (qerror option, dqcond) verdict \<times> 'a Deque" where
  "Deque_Shutdown f x dq =
     (case (if f then Deque_waitForDrain x dq else Deque_drain_loop x dq) of
        (WaitOn c, d) \<Rightarrow> (WaitOn c, d)
      | (Return (Some err), d) \<Rightarrow> (Return (Some err), d)
      | (Return None, d) \<Rightarrow> (Return None, Deque_doClose d))"

subsection \<open>Iterators\<close>

text \<open>The search of \<open>neighbor\<close> for the place of a popped element; \<open>None\<close> is a search that does not end.\<close>

partial_function (option) seek :: "'a Deque \<Rightarrow> dqDirection \<Rightarrow> int \<Rightarrow> nat option \<Rightarrow> nat outcome option" where
  "seek dq direction s p =
     (case p of
        None \<Rightarrow> Some (Panic ''nil pointer dereference'')
      | Some n \<Rightarrow>
          if n \<noteq> dq_root dq \<and> (if direction = dqPrev then d_seq (dq_heap dq n) \<ge> s else d_seq (dq_heap dq n) \<le> s)
          then seek dq direction s (getNextOrPrevious dq n direction)
          else Some (Done n))"

definition neighbor :: "'a Deque \<Rightarrow> nat \<Rightarrow> dqDirection \<Rightarrow> nat outcome option" where
  "neighbor dq from direction =
     (if \<not> d_removed (dq_heap dq from)
      then Some (on_ptr (getNextOrPrevious dq from direction) Done)
      else seek dq direction (d_seq (dq_heap dq from)) (getNextOrPrevious dq (dq_root dq) direction))"

text \<open>One call of the generator of \<open>iter\<close>, from the cursor \<open>cur\<close>; it does not change the deque.\<close>

definition Deque_iter :: "bool \<Rightarrow> dqDirection \<Rightarrow> bool \<Rightarrow> nat option \<Rightarrow> 'a Deque \<Rightarrow>
    ('a option \<times> bool \<times> nat, dqcond) verdict outcome option" where
  "Deque_iter x direction blocking cur dq =
     (let current = (case cur of None \<Rightarrow> dq_root dq | Some c \<Rightarrow> c) in
      do { r \<leftarrow> neighbor dq current direction;
           Some (on_done r (\<lambda>nxt.
             case (if blocking then Deque_await x direction (dq_closed dq \<or> nxt \<noteq> dq_root dq) dq else Return None) of
               WaitOn c \<Rightarrow> Done (WaitOn c)
             | Return (Some _) \<Rightarrow> Done (Return (None, False, current))
             | Return None \<Rightarrow>
                 if nxt = dq_root dq then Done (Return (None, False, current))
                 else Done (Return (d_item (dq_heap dq nxt), True, nxt)))) })"

text \<open>\<open>wrapsrc\<close>: what the generator of the consuming iterators makes of a result of \<open>WaitPop\<close>.\<close>

definition wrapsrc :: "'a option \<times> qerror option \<Rightarrow> 'a option \<times> bool" where
  "wrapsrc r = (case r of (v, err) \<Rightarrow> if err \<noteq> None then (None, False) else (v, True))"

subsection \<open>The invariant\<close>

definition dq_nx :: "'a Deque \<Rightarrow> nat \<Rightarrow> nat option" where "dq_nx dq i = d_next (dq_heap dq i)"

definition dq_live :: "'a Deque \<Rightarrow> nat list" where
  "dq_live dq = walk (dq_nx dq) 0 (dq_fresh dq) 0"

text \<open>
  \<open>dh_ok h n lo hi as\<close>: in the heap \<open>h\<close> with \<open>n\<close> addresses the elements \<open>as\<close> are linked in this order
  behind the root, and their sequence numbers increase; the popped elements keep their numbers.
\<close>

definition dh_ok :: "(nat \<Rightarrow> 'a element) \<Rightarrow> nat \<Rightarrow> int \<Rightarrow> int \<Rightarrow> nat list \<Rightarrow> bool" where
  "dh_ok h n lo hi as \<longleftrightarrow> 0 < n \<and> ring (\<lambda>i. d_next (h i)) (\<lambda>i. d_prev (h i)) 0 as
     \<and> \<not> d_removed (h 0)
     \<and> (\<forall>i. i \<in> set as \<longleftrightarrow> 0 < i \<and> i < n \<and> \<not> d_removed (h i))
     \<and> (\<forall>i \<in> set as. d_item (h i) \<noteq> None \<and> \<not> d_root (h i))
     \<and> sorted_wrt (<) (map (\<lambda>i. d_seq (h i)) as)
     \<and> (\<forall>i. 0 < i \<and> i < n \<longrightarrow> lo \<le> d_seq (h i) \<and> d_seq (h i) \<le> hi)
     \<and> (\<forall>i j. 0 < i \<and> i < j \<and> j < n \<longrightarrow> d_seq (h i) \<noteq> d_seq (h j))
     \<and> lo \<le> hi"

text \<open>\<open>dq_rep dq as\<close>: the elements \<open>as\<close> are in the deque, in this order.\<close>

definition dq_rep :: "'a Deque \<Rightarrow> nat list \<Rightarrow> bool" where
  "dq_rep dq as \<longleftrightarrow> dq_root dq = 0 \<and> dh_ok (dq_heap dq) (dq_fresh dq) (dq_lo dq) (dq_hi dq) as
     \<and> t_inv (dq_tracker dq) \<and> t_len (dq_tracker dq) = int (length as)"

definition dq_inv :: "'a Deque \<Rightarrow> bool" where
  "dq_inv dq \<longleftrightarrow> dq_rep dq (dq_live dq)"

definition dq_items :: "'a Deque \<Rightarrow> 'a list" where
  "dq_items dq = map (\<lambda>i. the (d_item (dq_heap dq i))) (dq_live dq)"

lemma dh_ok_ring: "dh_ok h n lo hi as \<Longrightarrow> ring (\<lambda>i. d_next (h i)) (\<lambda>i. d_prev (h i)) 0 as"
  by (simp add: dh_ok_def)

lemma dh_ok_mem: "dh_ok h n lo hi as \<Longrightarrow> i \<in> set as \<Longrightarrow> 0 < i \<and> i < n"
  by (simp add: dh_ok_def)

lemma dq_rep_live:
  assumes "dq_rep dq as"
  shows "dq_live dq = as"
proof -
  have h: "dh_ok (dq_heap dq) (dq_fresh dq) (dq_lo dq) (dq_hi dq) as" using assms by (simp add: dq_rep_def)
  have "set as \<subseteq> {1..<dq_fresh dq}" using dh_ok_mem[OF h] by force
  then have "card (set as) \<le> dq_fresh dq" using card_mono[of "{1..<dq_fresh dq}" "set as"] by simp
  moreover have "distinct as" using dh_ok_ring[OF h] by (simp add: ring_def)
  ultimately have "length as \<le> dq_fresh dq" by (simp add: distinct_card)
  then show ?thesis
    unfolding dq_live_def dq_nx_def by (rule walk_ring[OF dh_ok_ring[OF h]])
qed

lemma dq_rep_inv: "dq_rep dq as \<Longrightarrow> dq_inv dq"
  by (simp add: dq_inv_def dq_rep_live)

lemma dq_wake_simps [simp]:
  "dq_root (dq_wake k dq) = dq_root dq" "dq_tracker (dq_wake k dq) = dq_tracker dq"
  "dq_drainers (dq_wake k dq) = dq_drainers dq" "dq_closed (dq_wake k dq) = dq_closed dq"
  "dq_lo (dq_wake k dq) = dq_lo dq" "dq_hi (dq_wake k dq) = dq_hi dq" "dq_heap (dq_wake k dq) = dq_heap dq"
  "dq_fresh (dq_wake k dq) = dq_fresh dq" "dq_wakes (dq_wake k dq) = dq_wakes dq @ [k]"
  by (simp_all add: dq_wake_def)

text \<open>The representation does not see the flags, the drainers and the log.\<close>

lemma dq_rep_cong:
  "dq_root d' = dq_root d \<Longrightarrow> dq_tracker d' = dq_tracker d \<Longrightarrow> dq_lo d' = dq_lo d \<Longrightarrow> dq_hi d' = dq_hi d \<Longrightarrow>
   dq_heap d' = dq_heap d \<Longrightarrow> dq_fresh d' = dq_fresh d \<Longrightarrow> dq_rep d' as = dq_rep d as"
  unfolding dq_rep_def by simp

lemma dq_live_cong: "dq_heap d' = dq_heap d \<Longrightarrow> dq_fresh d' = dq_fresh d \<Longrightarrow> dq_live d' = dq_live d"
  unfolding dq_live_def dq_nx_def by simp

lemma dq_inv_cong:
  "dq_root d' = dq_root d \<Longrightarrow> dq_tracker d' = dq_tracker d \<Longrightarrow> dq_lo d' = dq_lo d \<Longrightarrow> dq_hi d' = dq_hi d \<Longrightarrow>
   dq_heap d' = dq_heap d \<Longrightarrow> dq_fresh d' = dq_fresh d \<Longrightarrow> dq_inv d' = dq_inv d"
  unfolding dq_inv_def using dq_rep_cong[of d' d] dq_live_cong[of d' d] by simp

lemma dh_ok_doInit: "dh_ok (dq_heap Deque_doInit) 1 0 0 []"
  by (auto simp: dh_ok_def Deque_doInit_def ring_def)

lemma doInit_rep: "t_inv t \<Longrightarrow> t_len t = 0 \<Longrightarrow> dq_rep (Deque_doInit\<lparr>dq_tracker := t\<rparr>) []"
  using dh_ok_doInit by (simp add: dq_rep_def Deque_doInit_def)

lemma NewDeque_inv:
  assumes "rounding rnd" "NewDeque rnd opts = Inr dq"
  shows "dq_inv dq \<and> dq_items dq = []"
proof -
  have u: "Deque_doInit = Deque_doInit\<lparr>dq_tracker := NoLimit \<lparr>nl_length = 0\<rparr>\<rparr>"
    by (simp add: Deque_doInit_def)
  have u': "dq_rep Deque_doInit []"
    by (subst u, rule doInit_rep) (simp_all add: nl_inv_def nl_len_def)
  have "dq_rep dq []"
    using assms(2) u' Validate_ok(1)[OF assms(1)]
    by (auto intro!: doInit_rep simp: NewDeque_def DequeOptions_Validate_def newQueueLimitTracker_def hl_inv_def hl_len_def ql_len_def
        nl_inv_def nl_len_def split: option.splits if_splits prod.splits)
  then show ?thesis using dq_rep_live[of dq "[]"] dq_rep_inv by (auto simp: dq_items_def)
qed

subsection \<open>What adding and removing do\<close>

lemma dh_insert:
  assumes "dh_ok h n lo hi (xs @ ys)" and a: "a = last (0 # xs)" and b: "b = hd (ys @ [0])"
    and "d_next (h' (a)) = Some n" "d_prev (h' (b)) = Some n"
    and n: "d_next (h' n) = Some (b)" "d_prev (h' n) = Some (a)"
      "d_item (h' n) = Some v" "\<not> d_root (h' n)" "\<not> d_removed (h' n)" "d_seq (h' n) = sq"
    and "\<And>i. i \<noteq> n \<Longrightarrow> i \<noteq> a \<Longrightarrow> d_next (h' i) = d_next (h i)"
    and "\<And>i. i \<noteq> n \<Longrightarrow> i \<noteq> b \<Longrightarrow> d_prev (h' i) = d_prev (h i)"
    and old: "\<And>i. i \<noteq> n \<Longrightarrow> d_item (h' i) = d_item (h i) \<and> d_root (h' i) = d_root (h i)
       \<and> d_removed (h' i) = d_removed (h i) \<and> d_seq (h' i) = d_seq (h i)"
    and sq: "xs = [] \<and> sq = lo - 1 \<and> lo' = sq \<and> hi' = hi \<or> ys = [] \<and> sq = hi + 1 \<and> lo' = lo \<and> hi' = sq"
  shows "dh_ok h' (n + 1) lo' hi' (xs @ n # ys)"
proof -
  have ok: "0 < n" "\<not> d_removed (h 0)" "\<And>i. i \<in> set (xs @ ys) \<longleftrightarrow> 0 < i \<and> i < n \<and> \<not> d_removed (h i)"
      "\<And>i. i \<in> set (xs @ ys) \<Longrightarrow> d_item (h i) \<noteq> None \<and> \<not> d_root (h i)"
      "sorted_wrt (<) (map (\<lambda>i. d_seq (h i)) (xs @ ys))"
      "\<And>i. 0 < i \<Longrightarrow> i < n \<Longrightarrow> lo \<le> d_seq (h i) \<and> d_seq (h i) \<le> hi"
      "\<And>i j. 0 < i \<Longrightarrow> i < j \<Longrightarrow> j < n \<Longrightarrow> d_seq (h i) \<noteq> d_seq (h j)" "lo \<le> hi"
    using assms(1) unfolding dh_ok_def by blast+
  have notin: "n \<notin> set (0 # xs @ ys)" using ok(1) ok(3)[of n] by auto
  have ring': "ring (\<lambda>i. d_next (h' i)) (\<lambda>i. d_prev (h' i)) 0 (xs @ n # ys)"
    by (rule ring_insert[OF dh_ok_ring[OF assms(1)] notin, folded a b]) (use assms(4-) in \<open>simp_all only: simp_thms\<close>)
  have seq: "d_seq (h' i) = d_seq (h i)" if "i \<in> set (xs @ ys)" for i
    using old[of i] notin that by auto
  have bnd: "lo' \<le> d_seq (h' i) \<and> d_seq (h' i) \<le> hi'" if "0 < i" "i < n + 1" for i
    using ok(6)[of i] ok(8) old[of i] n(6) sq that by (cases "i = n") auto
  have diff: "d_seq (h' i) \<noteq> d_seq (h' j)" if "0 < i" "i < j" "j < n + 1" for i j
  proof (cases "j = n")
    case True
    then show ?thesis using ok(6)[of i] old[of i] n(6) sq that by auto
  next
    case False
    then show ?thesis using ok(7)[of i j] old[of i] old[of j] that by auto
  qed
  have srt: "sorted_wrt (<) (map (\<lambda>i. d_seq (h' i)) (xs @ n # ys))"
  proof -
    have m: "map (\<lambda>i. d_seq (h' i)) xs = map (\<lambda>i. d_seq (h i)) xs" "map (\<lambda>i. d_seq (h' i)) ys = map (\<lambda>i. d_seq (h i)) ys"
      using seq by auto
    have "lo - 1 < d_seq (h i) \<and> d_seq (h i) < hi + 1" if "i \<in> set xs \<or> i \<in> set ys" for i
      using ok(3)[of i] ok(6)[of i] that by auto
    then show ?thesis using sq ok(5) n(6) by (auto simp: m sorted_wrt_append)
  qed
  show ?thesis
    unfolding dh_ok_def
  proof (intro conjI allI ballI impI)
    fix i show "(i \<in> set (xs @ n # ys)) = (0 < i \<and> i < n + 1 \<and> \<not> d_removed (h' i))"
      using ok(1) ok(3)[of i] old[of i] n(5) by (cases "i = n") auto
  next
    fix i assume i: "i \<in> set (xs @ n # ys)"
    show "d_item (h' i) \<noteq> None"
      using i ok(4)[of i] old[of i] n(3) by (cases "i = n") auto
    show "\<not> d_root (h' i)"
      using i ok(4)[of i] old[of i] n(4) by (cases "i = n") auto
  qed (use ring' srt bnd diff ok(1,2,8) old[of 0] sq in auto)
qed

lemma dh_remove:
  assumes "dh_ok h n lo hi (xs @ x # ys)" and a: "a = last (0 # xs)" and b: "b = hd (ys @ [0])"
    and "d_next (h' (a)) = Some (b)" "d_prev (h' (b)) = Some (a)"
    and "d_removed (h' x)" "d_seq (h' x) = d_seq (h x)"
    and "\<And>i. i \<noteq> x \<Longrightarrow> i \<noteq> a \<Longrightarrow> d_next (h' i) = d_next (h i)"
    and "\<And>i. i \<noteq> x \<Longrightarrow> i \<noteq> b \<Longrightarrow> d_prev (h' i) = d_prev (h i)"
    and old: "\<And>i. i \<noteq> x \<Longrightarrow> d_item (h' i) = d_item (h i) \<and> d_root (h' i) = d_root (h i)
       \<and> d_removed (h' i) = d_removed (h i) \<and> d_seq (h' i) = d_seq (h i)"
  shows "dh_ok h' n lo hi (xs @ ys)"
proof -
  have ok: "0 < n" "\<not> d_removed (h 0)" "\<And>i. i \<in> set (xs @ x # ys) \<longleftrightarrow> 0 < i \<and> i < n \<and> \<not> d_removed (h i)"
      "\<And>i. i \<in> set (xs @ x # ys) \<Longrightarrow> d_item (h i) \<noteq> None \<and> \<not> d_root (h i)"
      "sorted_wrt (<) (map (\<lambda>i. d_seq (h i)) (xs @ x # ys))"
      "\<And>i. 0 < i \<Longrightarrow> i < n \<Longrightarrow> lo \<le> d_seq (h i) \<and> d_seq (h i) \<le> hi"
      "\<And>i j. 0 < i \<Longrightarrow> i < j \<Longrightarrow> j < n \<Longrightarrow> d_seq (h i) \<noteq> d_seq (h j)" "lo \<le> hi"
    using assms(1) unfolding dh_ok_def by blast+
  have x: "x \<notin> set (xs @ ys)" "0 < x"
    using dh_ok_ring[OF assms(1)] ok(3)[of x] by (auto simp: ring_def)
  have ring': "ring (\<lambda>i. d_next (h' i)) (\<lambda>i. d_prev (h' i)) 0 (xs @ ys)"
    by (rule ring_remove[OF dh_ok_ring[OF assms(1)], folded a b]) (use assms(4-) in \<open>simp_all only: simp_thms\<close>)
  have sq: "d_seq (h' i) = d_seq (h i)" for i using old[of i] assms(7) by (cases "i = x") auto
  show ?thesis
    unfolding dh_ok_def
  proof (intro conjI allI ballI impI)
    fix i show "(i \<in> set (xs @ ys)) = (0 < i \<and> i < n \<and> \<not> d_removed (h' i))"
      using ok(3)[of i] old[of i] x assms(6) by (cases "i = x") auto
  next
    fix i assume i: "i \<in> set (xs @ ys)"
    then have "i \<noteq> x" using x by auto
    then show "d_item (h' i) \<noteq> None" "\<not> d_root (h' i)"
      using i ok(4)[of i] old[of i] by auto
  qed (use ring' ok sq old[of 0] x in \<open>auto simp: sorted_wrt_append\<close>)
qed

lemma add_rep:
  assumes "dq_rep dq as" "rounding rnd" "checkOpen dq = None" "t_add rnd (dq_tracker dq) = Inr t"
  shows "\<exists>d'. Deque_add rnd v side dq = Done (None, d')
    \<and> dq_rep d' (if side = dqPrev then as @ [dq_fresh dq] else dq_fresh dq # as)
    \<and> dq_drainers d' = dq_drainers dq \<and> dq_closed d' = dq_closed dq
    \<and> dq_tracker d' = t \<and> dq_fresh d' = dq_fresh dq + 1
    \<and> dq_wakes d' = dq_wakes dq @ [Broadcast NFront, Broadcast NBack, Broadcast DUpdates]
    \<and> d_item (dq_heap d' (dq_fresh dq)) = Some v
    \<and> (\<forall>i. i \<noteq> dq_fresh dq \<longrightarrow> d_item (dq_heap d' i) = d_item (dq_heap dq i))"
proof -
  define n where "n = dq_fresh dq"
  define xs ys where "xs = (if side = dqPrev then as else [])" and "ys = (if side = dqPrev then [] else as)"
  define a b where "a = last (0 # xs)" and "b = hd (ys @ [0])"
  define sq where "sq = (if side = dqPrev then dq_hi dq + 1 else dq_lo dq - 1)"
  have h: "dh_ok (dq_heap dq) n (dq_lo dq) (dq_hi dq) (xs @ ys)" and rt: "dq_root dq = 0" and n0: "0 < n"
    using assms(1) by (auto simp: dq_rep_def n_def xs_def ys_def dh_ok_def)
  have mem: "i < n" if "i \<in> set (0 # xs @ ys)" for i using that dh_ok_mem[OF h] n0 by auto
  have "a \<in> set (0 # xs)" "b \<in> set (ys @ [0])" unfolding a_def b_def by (rule last_in_set, simp, rule hd_in_set, simp)
  then have "a \<in> set (0 # xs @ ys)" "b \<in> set (0 # xs @ ys)" by auto
  then have ab: "a \<noteq> n" "b \<noteq> n" "n \<noteq> 0" using mem n0 by auto
  have lk: "d_next (dq_heap dq a) = Some b" "d_prev (dq_heap dq b) = Some a"
    using ring_links[OF dh_ok_ring[OF h]] by (auto simp: a_def b_def)
  have a': "(if side = dqPrev then d_prev (dq_heap dq 0) else Some 0) = Some a"
    using lk by (auto simp: a_def b_def xs_def ys_def)
  define h0 where "h0 = (dq_heap dq)(n := \<lparr>d_item = Some v, d_next = Some b, d_prev = Some a, d_root = False,
                                d_seq = sq, d_removed = False\<rparr>)"
  define h1 where "h1 = h0(a := (h0 a)\<lparr>d_next := Some n\<rparr>)"
  define h2 where "h2 = h1(b := (h1 b)\<lparr>d_prev := Some n\<rparr>)"
  note hs = h2_def h1_def h0_def
  have "\<exists>d'. Deque_add rnd v side dq = Done (None, d') \<and> dq_heap d' = h2 \<and> dq_root d' = 0 \<and> dq_tracker d' = t
      \<and> dq_fresh d' = n + 1 \<and> dq_hi d' = (if side = dqPrev then sq else dq_hi dq)
      \<and> dq_lo d' = (if side = dqPrev then dq_lo dq else sq) \<and> dq_drainers d' = dq_drainers dq
      \<and> dq_closed d' = dq_closed dq
      \<and> dq_wakes d' = dq_wakes dq @ [Broadcast NFront, Broadcast NBack, Broadcast DUpdates]"
    using assms(3,4) a' lk ab rt
    by (cases side) (auto simp: Deque_add_def Let_def dq_upd_def dq_notify_def hs sq_def n_def[symmetric] fun_eq_iff)
  then obtain d' where run: "Deque_add rnd v side dq = Done (None, d')" and f: "dq_heap d' = h2" "dq_root d' = 0"
      "dq_tracker d' = t" "dq_fresh d' = n + 1" "dq_hi d' = (if side = dqPrev then sq else dq_hi dq)"
      "dq_lo d' = (if side = dqPrev then dq_lo dq else sq)" "dq_drainers d' = dq_drainers dq"
      "dq_closed d' = dq_closed dq"
      "dq_wakes d' = dq_wakes dq @ [Broadcast NFront, Broadcast NBack, Broadcast DUpdates]"
    by blast
  have ok: "dh_ok h2 (n + 1) (if side = dqPrev then dq_lo dq else sq) (if side = dqPrev then sq else dq_hi dq) (xs @ n # ys)"
    by (rule dh_insert[OF h a_def b_def, where sq = sq and v = v])
      (use ab in \<open>auto simp: hs sq_def xs_def ys_def\<close>)
  have len: "t_len t = int (length as) + 1" and ti: "t_inv t"
    using assms(1,4) t_add_len t_add_inv[OF assms(2)] by (auto simp: dq_rep_def)
  have rep: "dq_rep d' (xs @ n # ys)"
    using ok len ti by (auto simp: dq_rep_def f xs_def ys_def)
  have items: "d_item (h2 n) = Some v" "i \<noteq> n \<Longrightarrow> d_item (h2 i) = d_item (dq_heap dq i)" for i
    using ab by (auto simp: hs)
  show ?thesis
    using run rep items f by (intro exI[of _ d']) (auto simp: n_def xs_def ys_def)
qed

lemma pop_rep:
  assumes "dq_rep dq (xs @ x # ys)" "rounding rnd" "\<not> dq_closed dq"
  shows "\<exists>d'. Deque_pop rnd x dq = Done ((d_item (dq_heap dq x), True), d')
    \<and> dq_rep d' (xs @ ys) \<and> d_item (dq_heap dq x) \<noteq> None
    \<and> dq_drainers d' = dq_drainers dq \<and> dq_closed d' = dq_closed dq
    \<and> dq_tracker d' = t_remove rnd (dq_tracker dq) \<and> dq_fresh d' = dq_fresh dq
    \<and> dq_wakes d' = dq_wakes dq @ [Broadcast NFront, Broadcast NBack, Broadcast DUpdates]
    \<and> (\<forall>i. i \<noteq> x \<longrightarrow> d_item (dq_heap d' i) = d_item (dq_heap dq i))"
proof -
  define a b where "a = last (0 # xs)" and "b = hd (ys @ [0])"
  have h: "dh_ok (dq_heap dq) (dq_fresh dq) (dq_lo dq) (dq_hi dq) (xs @ x # ys)" and rt: "dq_root dq = 0"
    using assms(1) by (auto simp: dq_rep_def)
  have r: "ring (\<lambda>i. d_next (dq_heap dq i)) (\<lambda>i. d_prev (dq_heap dq i)) 0 (xs @ x # ys)" by (rule dh_ok_ring[OF h])
  have x: "x \<noteq> 0" "d_item (dq_heap dq x) \<noteq> None" "\<not> d_root (dq_heap dq x)"
    using h by (auto simp: dh_ok_def)
  have "a \<in> set (0 # xs)" "b \<in> set (ys @ [0])" unfolding a_def b_def by (rule last_in_set, simp, rule hd_in_set, simp)
  then have ab: "a \<noteq> x" "b \<noteq> x" using r by (auto simp: ring_def)
  have lk: "d_next (dq_heap dq x) = Some b" "d_prev (dq_heap dq x) = Some a"
    using ring_at[OF r] by (auto simp: a_def b_def)
  define h1 where "h1 = (dq_heap dq)(a := (dq_heap dq a)\<lparr>d_next := Some b\<rparr>)"
  define h2 where "h2 = h1(b := (h1 b)\<lparr>d_prev := Some a\<rparr>)"
  define h3 where "h3 = h2(x := (h2 x)\<lparr>d_item := None, d_next := None, d_prev := None, d_removed := True\<rparr>)"
  note hs = h3_def h2_def h1_def
  have "\<exists>d'. Deque_pop rnd x dq = Done ((d_item (dq_heap dq x), True), d') \<and> dq_heap d' = h3 \<and> dq_root d' = 0
      \<and> dq_tracker d' = t_remove rnd (dq_tracker dq) \<and> dq_fresh d' = dq_fresh dq \<and> dq_hi d' = dq_hi dq
      \<and> dq_lo d' = dq_lo dq \<and> dq_drainers d' = dq_drainers dq \<and> dq_closed d' = dq_closed dq
      \<and> dq_wakes d' = dq_wakes dq @ [Broadcast NFront, Broadcast NBack, Broadcast DUpdates]"
    using assms(3) x lk ab rt
    by (auto simp: Deque_pop_def element_isRoot_def element_release_def Let_def dq_upd_def dq_notify_def hs fun_eq_iff)
  then obtain d' where run: "Deque_pop rnd x dq = Done ((d_item (dq_heap dq x), True), d')" and f: "dq_heap d' = h3"
      "dq_root d' = 0" "dq_tracker d' = t_remove rnd (dq_tracker dq)" "dq_fresh d' = dq_fresh dq" "dq_hi d' = dq_hi dq"
      "dq_lo d' = dq_lo dq" "dq_drainers d' = dq_drainers dq" "dq_closed d' = dq_closed dq"
      "dq_wakes d' = dq_wakes dq @ [Broadcast NFront, Broadcast NBack, Broadcast DUpdates]"
    by blast
  have ok: "dh_ok h3 (dq_fresh dq) (dq_lo dq) (dq_hi dq) (xs @ ys)"
    by (rule dh_remove[OF h a_def b_def]) (use ab in \<open>auto simp: hs\<close>)
  have len: "t_len (dq_tracker dq) = int (length (xs @ ys)) + 1" and ti: "t_inv (dq_tracker dq)"
    using assms(1) by (auto simp: dq_rep_def)
  have rep: "dq_rep d' (xs @ ys)"
    using ok len ti t_remove_len[of "dq_tracker dq" rnd] t_remove_inv[OF assms(2) ti]
    by (auto simp: dq_rep_def f)
  have items: "i \<noteq> x \<Longrightarrow> d_item (h3 i) = d_item (dq_heap dq i)" for i
    using ab by (auto simp: hs)
  show ?thesis
    using run rep items x f by (intro exI[of _ d']) auto
qed

subsection \<open>Where a cursor goes\<close>

text \<open>
  The elements a cursor at \<open>c\<close> has ahead of it: all of them if it is at the root, and otherwise those
  with a larger (going back: smaller) sequence number, whether \<open>c\<close> is still in the deque or not.
\<close>

definition ahead :: "'a Deque \<Rightarrow> dqDirection \<Rightarrow> nat \<Rightarrow> nat list" where
  "ahead dq direction c =
     (case direction of
        dqNext \<Rightarrow> filter (\<lambda>i. c = 0 \<or> d_seq (dq_heap dq c) < d_seq (dq_heap dq i)) (dq_live dq)
      | dqPrev \<Rightarrow> rev (filter (\<lambda>i. c = 0 \<or> d_seq (dq_heap dq i) < d_seq (dq_heap dq c)) (dq_live dq)))"

lemma seek_next:
  assumes "dseg (\<lambda>i. d_next (dq_heap dq i)) pv a ys 0" "0 \<notin> set ys" "dq_root dq = 0"
  shows "seek dq dqNext s (d_next (dq_heap dq a)) = Some (Done (hd (dropWhile (\<lambda>i. d_seq (dq_heap dq i) \<le> s) ys @ [0])))"
  using assms(1,2)
proof (induction ys arbitrary: a)
  case Nil
  then show ?case using assms(3) by (subst seek.simps) simp
next
  case (Cons y ys)
  then show ?case using assms(3) by (subst seek.simps) (simp add: getNextOrPrevious_def)
qed

lemma seek_prev:
  assumes "dseg (\<lambda>i. d_prev (dq_heap dq i)) nx a ys 0" "0 \<notin> set ys" "dq_root dq = 0"
  shows "seek dq dqPrev s (d_prev (dq_heap dq a)) = Some (Done (hd (dropWhile (\<lambda>i. d_seq (dq_heap dq i) \<ge> s) ys @ [0])))"
  using assms(1,2)
proof (induction ys arbitrary: a)
  case Nil
  then show ?case using assms(3) by (subst seek.simps) simp
next
  case (Cons y ys)
  then show ?case using assms(3) by (subst seek.simps) (simp add: getNextOrPrevious_def)
qed

lemma dropWhile_sorted:
  "sorted_wrt (<) (map f xs) \<Longrightarrow> dropWhile (\<lambda>i. f i \<le> (s :: int)) xs = filter (\<lambda>i. s < f i) xs"
proof (induction xs)
  case (Cons x xs)
  have "filter (\<lambda>i. s < f i) xs = xs" if "s < f x"
    by (rule filter_True) (use Cons.prems that in auto)
  with Cons show ?case by auto
qed simp

lemma dropWhile_sorted_rev:
  assumes "sorted_wrt (<) (map f xs)"
  shows "dropWhile (\<lambda>i. f i \<ge> (s :: int)) (rev xs) = rev (filter (\<lambda>i. f i < s) xs)"
  using assms
proof (induction xs rule: rev_induct)
  case (snoc x xs)
  have "filter (\<lambda>i. f i < s) xs = xs" if "f x < s"
    by (rule filter_True) (use snoc.prems that in \<open>force simp: sorted_wrt_append\<close>)
  with snoc show ?case by (auto simp: sorted_wrt_append)
qed simp

lemma dq_inv_facts:
  assumes "dq_inv dq"
  shows "dq_root dq = 0" "ring (\<lambda>i. d_next (dq_heap dq i)) (\<lambda>i. d_prev (dq_heap dq i)) 0 (dq_live dq)"
    "\<not> d_removed (dq_heap dq 0)" "\<And>i. i \<in> set (dq_live dq) \<longleftrightarrow> 0 < i \<and> i < dq_fresh dq \<and> \<not> d_removed (dq_heap dq i)"
    "sorted_wrt (<) (map (\<lambda>i. d_seq (dq_heap dq i)) (dq_live dq))"
    "t_len (dq_tracker dq) = int (length (dq_live dq))" "t_inv (dq_tracker dq)" "0 < dq_fresh dq"
    "\<And>i. i \<in> set (dq_live dq) \<Longrightarrow> d_item (dq_heap dq i) \<noteq> None \<and> \<not> d_root (dq_heap dq i)"
  using assms unfolding dq_inv_def dq_rep_def dh_ok_def by auto

lemma neighbor_ahead:
  assumes "dq_inv dq" "c < dq_fresh dq"
  shows "neighbor dq c direction = Some (Done (hd (ahead dq direction c @ [0])))"
proof -
  note I = dq_inv_facts[OF assms(1)]
  let ?f = "\<lambda>i. d_seq (dq_heap dq i)"
  have d: "dseg (\<lambda>i. d_next (dq_heap dq i)) (\<lambda>i. d_prev (dq_heap dq i)) 0 (dq_live dq) 0" "0 \<notin> set (dq_live dq)"
    using I(2) by (auto simp: ring_def)
  consider (root) "c = 0" | (gone) "c \<noteq> 0" "d_removed (dq_heap dq c)" | (live) "c \<noteq> 0" "c \<in> set (dq_live dq)"
    using assms(2) I(4)[of c] by auto
  then show ?thesis
  proof cases
    case root
    have "last (0 # dq_live dq) = hd (rev (dq_live dq) @ [0])"
      by (cases "dq_live dq" rule: rev_cases) auto
    then show ?thesis using root I(3) ring_first[OF I(2)]
      by (cases direction) (simp_all add: neighbor_def getNextOrPrevious_def ahead_def)
  next
    case gone
    show ?thesis
    proof (cases direction)
      case dqNext
      then show ?thesis
        using gone I(1) seek_next[OF d, of "?f c"] dropWhile_sorted[OF I(5), of "?f c"]
        by (simp add: neighbor_def getNextOrPrevious_def ahead_def)
    next
      case dqPrev
      then show ?thesis
        using gone I(1) seek_prev[OF dseg_rev[OF d(1)], of "?f c"] d(2) dropWhile_sorted_rev[OF I(5), of "?f c"]
        by (simp add: neighbor_def getNextOrPrevious_def ahead_def)
    qed
  next
    case live
    then obtain xs ys where l: "dq_live dq = xs @ c # ys" by (meson split_list)
    have r: "d_next (dq_heap dq c) = Some (hd (ys @ [0]))" "d_prev (dq_heap dq c) = Some (last (0 # xs))"
      using ring_at[OF I(2)[unfolded l]] by auto
    have f: "filter (\<lambda>i. ?f c < ?f i) (dq_live dq) = ys" "filter (\<lambda>i. ?f i < ?f c) (dq_live dq) = xs"
    proof -
      have s: "\<forall>i \<in> set xs. ?f i < ?f c" "\<forall>i \<in> set ys. ?f c < ?f i"
        using I(5) by (auto simp: l sorted_wrt_append)
      then have "filter (\<lambda>i. ?f c < ?f i) xs = []" "filter (\<lambda>i. ?f c < ?f i) ys = ys"
        "filter (\<lambda>i. ?f i < ?f c) xs = xs" "filter (\<lambda>i. ?f i < ?f c) ys = []"
        by (auto simp: filter_empty_conv filter_id_conv)
      then show "filter (\<lambda>i. ?f c < ?f i) (dq_live dq) = ys" "filter (\<lambda>i. ?f i < ?f c) (dq_live dq) = xs"
        by (simp_all add: l)
    qed
    have "last (0 # xs) = hd (rev xs @ [0])" by (cases xs rule: rev_cases) auto
    with live r f I(4)[of c] show ?thesis
      by (cases direction) (simp_all add: neighbor_def getNextOrPrevious_def ahead_def)
  qed
qed

subsection \<open>On the items\<close>

lemma add_items:
  assumes "dq_inv dq" "rounding rnd" "checkOpen dq = None" "t_add rnd (dq_tracker dq) = Inr t"
  shows "\<exists>d'. Deque_add rnd v side dq = Done (None, d') \<and> dq_inv d'
    \<and> dq_items d' = (if side = dqPrev then dq_items dq @ [v] else v # dq_items dq)
    \<and> dq_drainers d' = dq_drainers dq \<and> dq_closed d' = dq_closed dq
    \<and> dq_tracker d' = t \<and> dq_fresh d' = dq_fresh dq + 1
    \<and> dq_wakes d' = dq_wakes dq @ [Broadcast NFront, Broadcast NBack, Broadcast DUpdates]"
proof -
  let ?n = "dq_fresh dq"
  obtain d' where d: "Deque_add rnd v side dq = Done (None, d')"
    "dq_rep d' (if side = dqPrev then dq_live dq @ [?n] else ?n # dq_live dq)"
    "dq_drainers d' = dq_drainers dq" "dq_closed d' = dq_closed dq" "dq_tracker d' = t" "dq_fresh d' = ?n + 1"
    "dq_wakes d' = dq_wakes dq @ [Broadcast NFront, Broadcast NBack, Broadcast DUpdates]"
    "d_item (dq_heap d' ?n) = Some v" "\<forall>i. i \<noteq> ?n \<longrightarrow> d_item (dq_heap d' i) = d_item (dq_heap dq i)"
    using add_rep[OF assms(1)[unfolded dq_inv_def] assms(2-4), of v side] by blast
  have "\<forall>i \<in> set (dq_live dq). i \<noteq> ?n" using dq_inv_facts(4)[OF assms(1)] by auto
  then have "map (\<lambda>i. the (d_item (dq_heap d' i))) (dq_live dq) = dq_items dq"
    using d(9) by (auto simp: dq_items_def)
  then have "dq_items d' = (if side = dqPrev then dq_items dq @ [v] else v # dq_items dq)"
    unfolding dq_items_def[of d'] dq_rep_live[OF d(2)] using d(8) by simp
  with d dq_rep_inv[OF d(2)] show ?thesis by blast
qed

text \<open>Popping the element at the front (\<open>dqNext\<close>) or at the back (\<open>dqPrev\<close>).\<close>

definition dq_end :: "dqDirection \<Rightarrow> 'b list \<Rightarrow> 'b" where
  "dq_end direction xs = (case direction of dqNext \<Rightarrow> hd xs | dqPrev \<Rightarrow> last xs)"

definition dq_without :: "dqDirection \<Rightarrow> 'b list \<Rightarrow> 'b list" where
  "dq_without direction xs = (case direction of dqNext \<Rightarrow> tl xs | dqPrev \<Rightarrow> butlast xs)"

lemma pop_items:
  assumes "dq_inv dq" "rounding rnd" "\<not> dq_closed dq" "dq_items dq \<noteq> []"
  shows "\<exists>x d'. getNextOrPrevious dq 0 direction = Some x \<and> x \<noteq> 0 \<and> \<not> d_root (dq_heap dq x)
    \<and> Deque_pop rnd x dq = Done ((Some (dq_end direction (dq_items dq)), True), d')
    \<and> dq_inv d' \<and> dq_items d' = dq_without direction (dq_items dq)
    \<and> dq_drainers d' = dq_drainers dq \<and> dq_closed d' = dq_closed dq
    \<and> dq_tracker d' = t_remove rnd (dq_tracker dq) \<and> dq_fresh d' = dq_fresh dq
    \<and> dq_wakes d' = dq_wakes dq @ [Broadcast NFront, Broadcast NBack, Broadcast DUpdates]"
proof -
  note I = dq_inv_facts[OF assms(1)]
  have ne: "dq_live dq \<noteq> []" using assms(4) by (auto simp: dq_items_def)
  obtain xs x ys where l: "dq_live dq = xs @ x # ys" "x = dq_end direction (dq_live dq)"
      "xs @ ys = dq_without direction (dq_live dq)" "getNextOrPrevious dq 0 direction = Some x"
  proof (cases direction)
    case dqNext
    then show ?thesis using ne ring_first[OF I(2)]
      by (intro that[of "[]" "hd (dq_live dq)" "tl (dq_live dq)"])
        (simp_all add: dq_end_def dq_without_def getNextOrPrevious_def)
  next
    case dqPrev
    then show ?thesis using ne ring_first[OF I(2)]
      by (intro that[of "butlast (dq_live dq)" "last (dq_live dq)" "[]"])
        (simp_all add: dq_end_def dq_without_def getNextOrPrevious_def)
  qed
  have rep: "dq_rep dq (xs @ x # ys)" using assms(1) l(1) by (simp add: dq_inv_def)
  obtain d' where d: "Deque_pop rnd x dq = Done ((d_item (dq_heap dq x), True), d')" "dq_rep d' (xs @ ys)"
    "d_item (dq_heap dq x) \<noteq> None" "dq_drainers d' = dq_drainers dq" "dq_closed d' = dq_closed dq"
    "dq_tracker d' = t_remove rnd (dq_tracker dq)" "dq_fresh d' = dq_fresh dq"
    "dq_wakes d' = dq_wakes dq @ [Broadcast NFront, Broadcast NBack, Broadcast DUpdates]"
    "\<forall>i. i \<noteq> x \<longrightarrow> d_item (dq_heap d' i) = d_item (dq_heap dq i)"
    using pop_rep[OF rep assms(2,3)] by blast
  have x: "x \<noteq> 0" "\<not> d_root (dq_heap dq x)" using I(4)[of x] I(9)[of x] l(1) by auto
  have "the (d_item (dq_heap dq x)) = dq_end direction (dq_items dq)"
    unfolding l(2) using ne by (cases direction) (simp_all add: dq_end_def dq_items_def hd_map last_map)
  then have item: "d_item (dq_heap dq x) = Some (dq_end direction (dq_items dq))" using d(3) by auto
  have "\<forall>i \<in> set (xs @ ys). i \<noteq> x" using I(2) l(1) by (auto simp: ring_def)
  then have "map (\<lambda>i. the (d_item (dq_heap d' i))) (xs @ ys) = map (\<lambda>i. the (d_item (dq_heap dq i))) (xs @ ys)"
    using d(9) by auto
  then have "dq_items d' = dq_without direction (dq_items dq)"
    unfolding dq_items_def[of d'] dq_rep_live[OF d(2)] l(3)
    by (cases direction) (auto simp: dq_items_def dq_without_def map_tl map_butlast)
  with d dq_rep_inv[OF d(2)] l(4) x item show ?thesis by metis
qed

lemma dq_len: "dq_inv dq \<Longrightarrow> t_len (dq_tracker dq) = int (length (dq_items dq))"
  by (simp add: dq_inv_facts(6) dq_items_def)

lemma pop_empty:
  assumes "dq_inv dq" "dq_items dq = []"
  shows "getNextOrPrevious dq 0 direction = Some 0" "Deque_pop rnd 0 dq = Done ((None, False), dq)"
  using ring_first[OF dq_inv_facts(2)[OF assms(1)]] assms(2) dq_inv_facts(1)[OF assms(1)]
  by (cases direction; simp add: getNextOrPrevious_def dq_items_def Deque_pop_def element_isRoot_def)+

subsection \<open>Sections of concurrent calls\<close>

datatype 'a dcall = DPush dqDirection 'a | DPop dqDirection | DForcePush dqDirection 'a | DLen | DClose
  | DWaitPush dqDirection 'a | DWaitPop dqDirection | DDrain | DShutdown
  | DIter dqDirection bool "nat option"

definition result_of :: "'a Deque \<Rightarrow> ('r \<Rightarrow> ('a qres, dqcond) verdict) \<Rightarrow> ('r \<times> 'a Deque) outcome \<Rightarrow>
    ('a qres, dqcond) verdict \<times> 'a Deque" where
  "result_of dq f r = (case r of Panic m \<Rightarrow> (Return (RPanic m), dq) | Done (v, d) \<Rightarrow> (f v, d))"

text \<open>
  A panic leaves the state as it was before, and so does a search that does not end; neither
  happens to a deque that keeps its invariant.
\<close>

fun d_section :: "(rat \<Rightarrow> rat) \<Rightarrow> bool \<Rightarrow> bool \<Rightarrow> 'a dcall \<Rightarrow> 'a Deque \<Rightarrow> ('a qres, dqcond) verdict \<times> 'a Deque" where
  "d_section rnd f x (DPush side v) dq =
     result_of dq (\<lambda>e. Return (RErr e)) ((case side of dqNext \<Rightarrow> PushFront | dqPrev \<Rightarrow> PushBack) rnd v dq)"
| "d_section rnd f x (DPop side) dq =
     result_of dq (\<lambda>(v, ok). Return (ROut v ok)) ((case side of dqNext \<Rightarrow> PopFront | dqPrev \<Rightarrow> PopBack) rnd dq)"
| "d_section rnd f x (DForcePush side v) dq =
     result_of dq (\<lambda>e. Return (RErr e)) ((case side of dqNext \<Rightarrow> ForcePushFront | dqPrev \<Rightarrow> ForcePushBack) rnd v dq)"
| "d_section rnd f x DLen dq = (Return (RNum (Deque_Len dq)), dq)"
| "d_section rnd f x DClose dq = (case Deque_Close dq of (e, d) \<Rightarrow> (Return (RErr e), d))"
| "d_section rnd f x (DWaitPush side v) dq =
     result_of dq (with_result RErr) ((case side of dqNext \<Rightarrow> WaitPushFront | dqPrev \<Rightarrow> WaitPushBack) rnd x v dq)"
| "d_section rnd f x (DWaitPop side) dq =
     result_of dq (with_result (\<lambda>(v, e). ROutErr v e))
       ((case side of dqNext \<Rightarrow> WaitPopFront | dqPrev \<Rightarrow> WaitPopBack) rnd x dq)"
| "d_section rnd f x DDrain dq = (case Deque_Drain f x dq of (r, d) \<Rightarrow> (with_result RErr r, d))"
| "d_section rnd f x DShutdown dq = (case Deque_Shutdown f x dq of (r, d) \<Rightarrow> (with_result RErr r, d))"
| "d_section rnd f x (DIter direction blocking cur) dq =
     (case Deque_iter x direction blocking cur dq of
        None \<Rightarrow> (Return (RPanic ''no return''), dq)
      | Some r \<Rightarrow> result_of dq (with_result (\<lambda>(v, ok, c). RCur v ok (Some c))) (on_done r (\<lambda>v. Done (v, dq))))"

definition d_attempt :: "(rat \<Rightarrow> rat) \<Rightarrow> bool \<Rightarrow> bool \<Rightarrow> 'a dcall \<Rightarrow> 'a Deque \<Rightarrow> ('a qres, 'a Deque, dqcond) csection" where
  "d_attempt rnd f x p dq = (case d_section rnd f x p (dq\<lparr>dq_wakes := []\<rparr>) of (v, d) \<Rightarrow> (v, d, dq_wakes d))"

fun d_wcond :: "'a dcall \<Rightarrow> dqcond" where
  "d_wcond (DWaitPop direction) = (if direction = dqPrev then NBack else NFront)"
| "d_wcond (DIter direction b c) = (if direction = dqPrev then NBack else NFront)"
| "d_wcond _ = DUpdates"

fun d_valid :: "'a dcall \<Rightarrow> 'a Deque \<Rightarrow> bool" where
  "d_valid (DIter direction b (Some c)) dq \<longleftrightarrow> c < dq_fresh dq"
| "d_valid _ dq \<longleftrightarrow> True"

fun d_must_wait :: "'a dcall \<Rightarrow> 'a Deque \<Rightarrow> bool" where
  "d_must_wait (DWaitPush side v) dq \<longleftrightarrow>
     dq_drainers dq \<le> 0 \<and> \<not> dq_closed dq \<and> t_cap (dq_tracker dq) \<le> t_len (dq_tracker dq)"
| "d_must_wait (DWaitPop direction) dq \<longleftrightarrow> \<not> dq_closed dq \<and> dq_items dq = []"
| "d_must_wait DDrain dq \<longleftrightarrow> \<not> dq_closed dq \<and> t_len (dq_tracker dq) > 0"
| "d_must_wait DShutdown dq \<longleftrightarrow> \<not> dq_closed dq \<and> t_len (dq_tracker dq) > 0"
| "d_must_wait (DIter direction b cur) dq \<longleftrightarrow>
     b \<and> \<not> dq_closed dq \<and> ahead dq direction (case cur of None \<Rightarrow> 0 | Some c \<Rightarrow> c) = []"
| "d_must_wait _ dq \<longleftrightarrow> False"

definition dq_frame :: "'a Deque \<Rightarrow> 'a Deque \<Rightarrow> bool" where
  "dq_frame d d' \<longleftrightarrow> dq_inv d' \<and> dq_fresh d \<le> dq_fresh d'
     \<and> (Broadcast NFront \<notin> set (dq_wakes d') \<or> Broadcast NBack \<notin> set (dq_wakes d')
          \<or> Broadcast DUpdates \<notin> set (dq_wakes d') \<longrightarrow>
          dq_closed d' = dq_closed d \<and> dq_tracker d' = dq_tracker d \<and> dq_heap d' = dq_heap d
          \<and> dq_fresh d' = dq_fresh d)
     \<and> (Broadcast DUpdates \<notin> set (dq_wakes d') \<longrightarrow> dq_drainers d' \<le> dq_drainers d)"

lemma dq_frame_refl: "dq_inv dq \<Longrightarrow> dq_frame dq dq"
  by (simp add: dq_frame_def)

lemma dq_frame_add:
  assumes "dq_inv dq" "rounding rnd"
  shows "\<exists>e d'. Deque_add rnd v side dq = Done (e, d') \<and> dq_frame dq d'"
proof (cases "checkOpen dq")
  case (Some e)
  then show ?thesis using dq_frame_refl[OF assms(1)] by (simp add: Deque_add_def)
next
  case None
  show ?thesis
  proof (cases "t_add rnd (dq_tracker dq)")
    case (Inl e)
    have "dq_inv (dq_wake k dq) = dq_inv dq" for k by (rule dq_inv_cong) simp_all
    then show ?thesis using assms(1) None Inl by (simp add: Deque_add_def dq_frame_def)
  next
    case (Inr t)
    then show ?thesis using add_items[OF assms None Inr, of v side] by (auto simp: dq_frame_def)
  qed
qed

lemma getNextOrPrevious_upd [simp]:
  "getNextOrPrevious (dq\<lparr>dq_closed := b\<rparr>) i direction = getNextOrPrevious dq i direction"
  "getNextOrPrevious (dq\<lparr>dq_wakes := l\<rparr>) i direction = getNextOrPrevious dq i direction"
  by (simp_all add: getNextOrPrevious_def)

lemma dq_frame_pop:
  assumes "dq_inv dq" "rounding rnd"
  shows "\<exists>x r d'. getNextOrPrevious dq 0 direction = Some x \<and> Deque_pop rnd x dq = Done (r, d') \<and> dq_frame dq d'
     \<and> element_isRoot dq x = (dq_items dq = []) \<and> dq_drainers d' = dq_drainers dq \<and> dq_closed d' = dq_closed dq"
proof (cases "dq_items dq = []")
  case True
  then show ?thesis
    using pop_empty[OF assms(1)] dq_frame_refl[OF assms(1)] dq_inv_facts(1)[OF assms(1)]
    by (auto simp: element_isRoot_def)
next
  case False
  show ?thesis
  proof (cases "dq_closed dq")
    case True
    obtain x where "getNextOrPrevious dq 0 direction = Some x" "x \<noteq> 0" "\<not> d_root (dq_heap dq x)"
      using pop_items[of "dq\<lparr>dq_closed := False\<rparr>" rnd direction] assms False
        dq_inv_cong[of "dq\<lparr>dq_closed := False\<rparr>" dq] dq_live_cong[of "dq\<lparr>dq_closed := False\<rparr>" dq]
      by (auto simp: dq_items_def)
    then show ?thesis using True False dq_frame_refl[OF assms(1)] dq_inv_facts(1)[OF assms(1)]
      by (auto simp: Deque_pop_def element_isRoot_def intro!: exI[of _ False])
  next
    case op: False
    show ?thesis
      using pop_items[OF assms op False, of direction] False dq_inv_facts(1)[OF assms(1)]
      by (auto simp: dq_frame_def element_isRoot_def)
  qed
qed

text \<open>Frames compose when the second step starts from the log of the first.\<close>

lemma dq_frame_trans:
  assumes "dq_frame d d1" "dq_frame d1 d2" "set (dq_wakes d1) \<subseteq> set (dq_wakes d2)"
  shows "dq_frame d d2"
proof -
  have n: "Broadcast k \<notin> set (dq_wakes d2) \<Longrightarrow> Broadcast k \<notin> set (dq_wakes d1)" for k
    using assms(3) by blast
  show ?thesis
    using assms(1,2) n[of NFront] n[of NBack] n[of DUpdates] unfolding dq_frame_def
    by (intro conjI impI) (fastforce+)
qed

lemma Deque_add_wakes: "Deque_add rnd v side dq = Done (e, d) \<Longrightarrow> set (dq_wakes dq) \<subseteq> set (dq_wakes d)"
  by (auto simp: Deque_add_def on_ptr_def Let_def dq_notify_def dq_upd_def split: option.splits sum.splits if_splits)

lemma on_done_eq: "r = Done a \<Longrightarrow> on_done r f = f a"
  by simp

lemma dq_frame_force:
  assumes "dq_inv dq" "rounding rnd"
  shows "\<exists>e d'. (case side of dqNext \<Rightarrow> ForcePushFront | dqPrev \<Rightarrow> ForcePushBack) rnd v dq = Done (e, d') \<and> dq_frame dq d'"
proof -
  define other where "other = (case side of dqNext \<Rightarrow> dqPrev | dqPrev \<Rightarrow> dqNext)"
  obtain x r d1 where x: "getNextOrPrevious dq 0 other = Some x" "Deque_pop rnd x dq = Done (r, d1)" "dq_frame dq d1"
    using dq_frame_pop[OF assms, of other] by blast
  define d where "d = (if t_cap (dq_tracker dq) = t_len (dq_tracker dq) then d1 else dq)"
  have d: "dq_frame dq d" "dq_inv d" using x(3) dq_frame_refl[OF assms(1)] assms(1) by (auto simp: d_def dq_frame_def)
  obtain e d2 where a: "Deque_add rnd v side d = Done (e, d2)" "dq_frame d d2"
    using dq_frame_add[OF d(2) assms(2)] by blast
  have "(case side of dqNext \<Rightarrow> ForcePushFront | dqPrev \<Rightarrow> ForcePushBack) rnd v dq
      = (case checkOpen dq of Some err \<Rightarrow> Done (Some err, dq) | None \<Rightarrow> Done (e, d2))"
    using x a dq_inv_facts(1)[OF assms(1)]
    by (cases side; cases r) (auto simp: ForcePushFront_def ForcePushBack_def other_def d_def getNextOrPrevious_def
        split: option.splits)
  moreover have "dq_frame dq d2"
    by (rule dq_frame_trans[OF d(1) a(2) Deque_add_wakes[OF a(1)]])
  ultimately show ?thesis using dq_frame_refl[OF assms(1)] by (auto split: option.splits)
qed

lemma dq_frame_drain:
  assumes "dq_inv dq" "(if f then Deque_waitForDrain x dq else Deque_drain_loop x dq) = (v, d)"
  shows "dq_frame dq d" "dq_closed d = dq_closed dq" "t_len (dq_tracker d) = t_len (dq_tracker dq)"
    "v = WaitOn c \<Longrightarrow> c = DUpdates \<and> \<not> x \<and> \<not> dq_closed dq \<and> t_len (dq_tracker dq) > 0"
proof -
  have j: "dq_inv (dq_wake k (dq\<lparr>dq_drainers := n\<rparr>))" "dq_inv (dq_wake k (dq_wake k' (dq\<lparr>dq_drainers := n\<rparr>)\<lparr>dq_drainers := m\<rparr>))" for k k' n m
    using assms(1) dq_inv_cong[of "dq_wake k (dq\<lparr>dq_drainers := n\<rparr>)" dq]
      dq_inv_cong[of "dq_wake k (dq_wake k' (dq\<lparr>dq_drainers := n\<rparr>)\<lparr>dq_drainers := m\<rparr>)" dq] by simp_all
  show "dq_frame dq d" "dq_closed d = dq_closed dq" "t_len (dq_tracker d) = t_len (dq_tracker dq)"
    "v = WaitOn c \<Longrightarrow> c = DUpdates \<and> \<not> x \<and> \<not> dq_closed dq \<and> t_len (dq_tracker dq) > 0"
    using assms j
    by (auto simp: Deque_waitForDrain_def Deque_drain_loop_def dq_drain_exit_def dq_frame_def split: if_splits)
qed

lemma dq_frame_doClose: "dq_inv dq' \<Longrightarrow> dq_frame dq dq' \<Longrightarrow> dq_frame dq (Deque_doClose dq')"
  using dq_inv_cong[of "Deque_doClose dq'" dq'] by (auto simp: Deque_doClose_def dq_notify_def dq_frame_def)

lemma set_ahead: "set (ahead dq direction c) \<subseteq> set (dq_live dq)"
  by (cases direction) (auto simp: ahead_def)

lemma d_section_frame:
  assumes "dq_inv dq" "rounding rnd" "d_valid p dq" "d_section rnd f x p dq = (v, d)"
  shows "dq_frame dq d \<and> (\<forall>c. v = WaitOn c \<longrightarrow> c = d_wcond p \<and> \<not> x \<and> d_must_wait p d)"
proof (cases p)
  case (DPush side i)
  with assms dq_frame_add[OF assms(1,2), of i side] show ?thesis
    by (cases side) (auto simp: PushFront_def PushBack_def result_of_def)
next
  case (DPop side)
  with assms dq_frame_pop[OF assms(1,2), of side] dq_inv_facts(1)[OF assms(1)] show ?thesis
    by (cases side) (auto simp: PopFront_def PopBack_def result_of_def getNextOrPrevious_def)
next
  case (DForcePush side i)
  obtain e d1 where "(case side of dqNext \<Rightarrow> ForcePushFront | dqPrev \<Rightarrow> ForcePushBack) rnd i dq = Done (e, d1)" "dq_frame dq d1"
    using dq_frame_force[OF assms(1,2)] by blast
  with assms(4) DForcePush show ?thesis by (auto simp: result_of_def)
next
  case DLen
  with assms dq_frame_refl[OF assms(1)] show ?thesis by auto
next
  case DClose
  with assms dq_frame_doClose[OF assms(1) dq_frame_refl[OF assms(1)]] show ?thesis by (auto simp: Deque_Close_def)
next
  case (DWaitPush side i)
  with assms dq_frame_add[OF assms(1,2), of i side] dq_frame_refl[OF assms(1)] show ?thesis
    by (cases side) (auto simp: WaitPushFront_def WaitPushBack_def waitPushAfter_def result_of_def split: if_splits)
next
  case (DWaitPop side)
  obtain y r d1 where y: "getNextOrPrevious dq 0 side = Some y" "Deque_pop rnd y dq = Done (r, d1)" "dq_frame dq d1"
      "element_isRoot dq y = (dq_items dq = [])" using dq_frame_pop[OF assms(1,2), of side] by blast
  have "(case side of dqNext \<Rightarrow> WaitPopFront | dqPrev \<Rightarrow> WaitPopBack) rnd x dq = Deque_waitPop rnd x side dq"
    by (cases side) (simp_all add: WaitPopFront_def WaitPopBack_def)
  with assms(4) DWaitPop y dq_inv_facts(1)[OF assms(1)] dq_frame_refl[OF assms(1)] show ?thesis
    by (auto simp: result_of_def Deque_waitPop_def Deque_await_def split: if_splits prod.splits)
next
  case DDrain
  obtain r d1 where r: "(if f then Deque_waitForDrain x dq else Deque_drain_loop x dq) = (r, d1)" by fastforce
  then have "v = with_result RErr r" "d = d1"
    using DDrain assms(4) by (simp_all only: d_section.simps Deque_Drain_def r prod.case prod.inject)
  with DDrain dq_frame_drain[OF assms(1) r] show ?thesis by (cases r) auto
next
  case DShutdown
  obtain r d1 where r: "(if f then Deque_waitForDrain x dq else Deque_drain_loop x dq) = (r, d1)" by fastforce
  have d: "(case r of WaitOn c \<Rightarrow> (v, d) = (WaitOn c, d1)
      | Return (Some err) \<Rightarrow> (v, d) = (Return (RErr (Some err)), d1)
      | Return None \<Rightarrow> (v, d) = (Return (RErr None), Deque_doClose d1))"
    using assms(4)[unfolded DShutdown d_section.simps Deque_Shutdown_def r prod.case]
    by (auto split: verdict.splits option.splits)
  have "dq_inv d1" using dq_frame_drain(1)[OF assms(1) r] by (simp add: dq_frame_def)
  then show ?thesis
    using d DShutdown dq_frame_drain[OF assms(1) r] dq_frame_doClose[of d1 dq]
    by (cases r) (auto split: option.splits)
next
  case (DIter direction blocking cur)
  define c where "c = (case cur of None \<Rightarrow> 0 | Some c \<Rightarrow> c)"
  have c: "c < dq_fresh dq" using assms(3) DIter dq_inv_facts(8)[OF assms(1)] by (auto simp: c_def split: option.splits)
  have cur: "(case cur of None \<Rightarrow> dq_root dq | Some c \<Rightarrow> c) = c"
    using dq_inv_facts(1)[OF assms(1)] by (auto simp: c_def split: option.splits)
  have a: "hd (ahead dq direction c @ [0]) = 0 \<longleftrightarrow> ahead dq direction c = []"
  proof (cases "ahead dq direction c")
    case (Cons z zs)
    then have "z \<in> set (dq_live dq)" using set_ahead[of dq direction c] by auto
    then show ?thesis using Cons dq_inv_facts(4)[OF assms(1), of z] by simp
  qed simp
  let ?n = "hd (ahead dq direction c @ [0])"
  have it: "Deque_iter x direction blocking cur dq = Some (
      case (if blocking then Deque_await x direction (dq_closed dq \<or> ?n \<noteq> 0) dq else Return None) of
        WaitOn k \<Rightarrow> Done (WaitOn k)
      | Return (Some _) \<Rightarrow> Done (Return (None, False, c))
      | Return None \<Rightarrow> if ?n = 0 then Done (Return (None, False, c)) else Done (Return (d_item (dq_heap dq ?n), True, ?n)))"
    unfolding Deque_iter_def cur Let_def neighbor_ahead[OF assms(1) c]
    by (simp add: dq_inv_facts(1)[OF assms(1)] cong: verdict.case_cong option.case_cong)
  have mw: "d_must_wait p dq \<longleftrightarrow> blocking \<and> \<not> dq_closed dq \<and> ahead dq direction c = []"
    by (simp add: DIter c_def)
  have "d = dq" "\<forall>k. v = WaitOn k \<longrightarrow> k = d_wcond p \<and> \<not> x \<and> blocking \<and> \<not> dq_closed dq \<and> ?n = 0"
    using assms(4) it unfolding DIter d_section.simps
    by (auto simp: result_of_def Deque_await_def split: if_splits)
  then show ?thesis using mw a dq_frame_refl[OF assms(1)] by simp
qed

lemma ahead_cong:
  "dq_heap d' = dq_heap d \<Longrightarrow> dq_fresh d' = dq_fresh d \<Longrightarrow> ahead d' direction c = ahead d direction c"
  using dq_live_cong[of d' d] by (cases direction) (simp_all add: ahead_def)

lemma items_cong: "dq_heap d' = dq_heap d \<Longrightarrow> dq_fresh d' = dq_fresh d \<Longrightarrow> dq_items d' = dq_items d"
  using dq_live_cong[of d' d] by (simp add: dq_items_def)

lemma d_must_wait_frame:
  assumes "dq_frame d d'" "d_must_wait p d" "Broadcast (d_wcond p) \<notin> set (dq_wakes d')"
  shows "d_must_wait p d'"
proof -
  have c: "dq_closed d' = dq_closed d" "dq_tracker d' = dq_tracker d" "dq_heap d' = dq_heap d" "dq_fresh d' = dq_fresh d"
    using assms(1,3) by (cases "d_wcond p"; simp add: dq_frame_def)+
  have dr: "d_wcond p = DUpdates \<Longrightarrow> dq_drainers d' \<le> dq_drainers d"
    using assms(1,3) by (auto simp: dq_frame_def)
  show ?thesis
    using assms(2) c dr ahead_cong[OF c(3,4)] items_cong[OF c(3,4)] by (cases p) auto
qed

lemma d_wakes_simps [simp]:
  "dq_inv (dq\<lparr>dq_wakes := l\<rparr>) = dq_inv dq" "dq_items (dq\<lparr>dq_wakes := l\<rparr>) = dq_items dq"
  "ahead (dq\<lparr>dq_wakes := l\<rparr>) direction c = ahead dq direction c"
  "d_valid p (dq\<lparr>dq_wakes := l\<rparr>) = d_valid p dq" "d_must_wait p (dq\<lparr>dq_wakes := l\<rparr>) = d_must_wait p dq"
proof -
  show i: "dq_inv (dq\<lparr>dq_wakes := l\<rparr>) = dq_inv dq" "dq_items (dq\<lparr>dq_wakes := l\<rparr>) = dq_items dq"
    "ahead (dq\<lparr>dq_wakes := l\<rparr>) direction c = ahead dq direction c" for direction c
    by (rule dq_inv_cong items_cong ahead_cong; simp)+
  show "d_valid p (dq\<lparr>dq_wakes := l\<rparr>) = d_valid p dq"
    by (cases "(p, dq)" rule: d_valid.cases) auto
  show "d_must_wait p (dq\<lparr>dq_wakes := l\<rparr>) = d_must_wait p dq"
    by (cases p) (auto simp: i)
qed

lemma must_wait_section:
  assumes "dq_inv dq" "d_valid p dq" "d_must_wait p dq" "rounding rnd"
  shows "\<exists>d. d_section rnd False False p dq = (WaitOn (d_wcond p), d)"
proof (cases p)
  case (DWaitPush side v)
  with assms(3) show ?thesis
    by (cases side) (auto simp: WaitPushFront_def WaitPushBack_def waitPushAfter_def result_of_def)
next
  case (DWaitPop side)
  with assms(3) pop_empty(1)[OF assms(1), of side] dq_inv_facts(1)[OF assms(1)] show ?thesis
    by (cases side) (auto simp: WaitPopFront_def WaitPopBack_def Deque_waitPop_def Deque_await_def result_of_def
        element_isRoot_def)
next
  case DDrain
  with assms(3) show ?thesis by (simp add: Deque_Drain_def Deque_drain_loop_def)
next
  case DShutdown
  with assms(3) show ?thesis by (simp add: Deque_Shutdown_def Deque_drain_loop_def)
next
  case (DIter direction blocking cur)
  have "(case cur of None \<Rightarrow> 0 | Some c \<Rightarrow> c) < dq_fresh dq"
    using assms(2) DIter dq_inv_facts(8)[OF assms(1)] by (auto split: option.splits)
  from neighbor_ahead[OF assms(1) this, of direction] DIter assms(3) dq_inv_facts(1)[OF assms(1)] show ?thesis
    by (cases cur) (auto simp: Deque_iter_def Let_def result_of_def Deque_await_def)
qed (use assms(3) in auto)

lemma d_blocked:
  assumes "dq_inv dq" "rounding rnd" "d_valid p dq"
  shows "blocked (d_attempt rnd) p c dq \<longleftrightarrow> c = d_wcond p \<and> d_must_wait p dq"
proof
  assume "blocked (d_attempt rnd) p c dq"
  then obtain d where s: "d_section rnd False False p (dq\<lparr>dq_wakes := []\<rparr>) = (WaitOn c, d)"
    by (auto simp: blocked_def d_attempt_def split: prod.splits)
  have "c = d_wcond p"
    using d_section_frame[OF _ assms(2) _ s] assms by simp
  moreover have "d_must_wait p (dq\<lparr>dq_wakes := []\<rparr>)"
  proof (rule ccontr)
    assume "\<not> d_must_wait p (dq\<lparr>dq_wakes := []\<rparr>)"
    moreover have "d = dq\<lparr>dq_wakes := []\<rparr>"
      using s by (cases p) (auto simp: result_of_def PushFront_def PushBack_def PopFront_def PopBack_def
        ForcePushFront_def ForcePushBack_def Deque_Close_def WaitPushFront_def WaitPushBack_def waitPushAfter_def
        WaitPopFront_def WaitPopBack_def Deque_waitPop_def Deque_await_def on_ptr_def Deque_Drain_def Deque_Shutdown_def
        Deque_drain_loop_def split: outcome.splits option.splits if_splits prod.splits dqDirection.splits)
    ultimately show False using d_section_frame[OF _ assms(2) _ s] assms by simp
  qed
  ultimately show "c = d_wcond p \<and> d_must_wait p dq" by simp
next
  assume "c = d_wcond p \<and> d_must_wait p dq"
  then show "blocked (d_attempt rnd) p c dq"
    using must_wait_section[of "dq\<lparr>dq_wakes := []\<rparr>" p rnd] assms
    by (auto simp: blocked_def d_attempt_def)
qed

lemma d_valid_mono: "dq_fresh q \<le> dq_fresh q' \<Longrightarrow> d_valid p q \<Longrightarrow> d_valid p q'"
  by (cases "(p, q)" rule: d_valid.cases) auto

lemma d_attempt_frame:
  assumes "dq_inv q" "rounding rnd" "d_valid p q" "d_attempt rnd f x p q = (v, q', ws)"
  shows "dq_frame q q'" "ws = dq_wakes q'" "v = WaitOn c \<Longrightarrow> c = d_wcond p \<and> \<not> x \<and> d_must_wait p q'"
proof -
  have s: "d_section rnd f x p (q\<lparr>dq_wakes := []\<rparr>) = (v, q')" "ws = dq_wakes q'"
    using assms(4) by (auto simp: d_attempt_def split: prod.splits)
  have "dq_frame (q\<lparr>dq_wakes := []\<rparr>) q' = dq_frame q q'" by (simp add: dq_frame_def)
  then show "dq_frame q q'" "ws = dq_wakes q'" "v = WaitOn c \<Longrightarrow> c = d_wcond p \<and> \<not> x \<and> d_must_wait p q'"
    using d_section_frame[OF _ assms(2) _ s(1)] s(2) assms by auto
qed

lemma d_monitor: "rounding rnd \<Longrightarrow> monitor (d_attempt rnd) d_wcond d_valid dq_inv"
proof unfold_locales
  fix q q' :: "'a Deque" and p p' f x v ws c
  assume r: "rounding rnd" and i: "dq_inv q" and vl: "d_valid p q"
    and s: "d_attempt rnd f x p q = (v, q', ws)"
  note fr = d_attempt_frame[OF i r vl s]
  show "dq_inv q'" using fr(1) by (simp add: dq_frame_def)
  show m: "d_valid p' q'" if "d_valid p' q" using that fr(1) d_valid_mono by (auto simp: dq_frame_def)
  show "blocked (d_attempt rnd) p' c q'" if "d_valid p' q" "blocked (d_attempt rnd) p' c q" "Broadcast c \<notin> set ws"
    using that m fr(1,2) d_must_wait_frame[OF fr(1), of p'] d_blocked[OF i r] d_blocked[OF _ r, of q']
    by (auto simp: dq_frame_def)
next
  fix q q' :: "'a Deque" and p f x c ws
  assume r: "rounding rnd" and i: "dq_inv q" and vl: "d_valid p q" and s: "d_attempt rnd f x p q = (WaitOn c, q', ws)"
  note fr = d_attempt_frame[OF i r vl s]
  have "d_valid p q'" using fr(1) d_valid_mono vl by (auto simp: dq_frame_def)
  then show "c = d_wcond p \<and> \<not> x \<and> blocked (d_attempt rnd) p c q'"
    using fr(1,3) d_blocked[OF _ r, of q' p c] by (auto simp: dq_frame_def)
qed

interpretation dm: monitor "d_attempt trunc53" d_wcond d_valid dq_inv
  by (rule d_monitor[OF rounding_trunc53])

subsection \<open>The abstract deque\<close>

definition d_abs :: "'a Deque \<Rightarrow> 'a aqueue" where
  "d_abs d = \<lparr>a_items = dq_items d, a_tracker = dq_tracker d, a_closed = dq_closed d, a_drainers = dq_drainers d\<rparr>"

definition ad_push :: "(rat \<Rightarrow> rat) \<Rightarrow> dqDirection \<Rightarrow> 'a \<Rightarrow> 'a aqueue \<Rightarrow> qerror option \<times> 'a aqueue" where
  "ad_push rnd side x a =
     (if a_drainers a > 0 then (Some ErrQueueDraining, a)
      else if a_closed a then (Some ErrQueueClosed, a)
      else case t_add rnd (a_tracker a) of
        Inl e \<Rightarrow> (Some e, a)
      | Inr t \<Rightarrow> (None, a\<lparr>a_items := (case side of dqNext \<Rightarrow> x # a_items a | dqPrev \<Rightarrow> a_items a @ [x]), a_tracker := t\<rparr>))"

definition ad_pop :: "(rat \<Rightarrow> rat) \<Rightarrow> dqDirection \<Rightarrow> 'a aqueue \<Rightarrow> ('a option \<times> bool) \<times> 'a aqueue" where
  "ad_pop rnd side a =
     (if a_closed a \<or> a_items a = [] then ((None, False), a)
      else ((Some (dq_end side (a_items a)), True),
            a\<lparr>a_items := dq_without side (a_items a), a_tracker := t_remove rnd (a_tracker a)\<rparr>))"

definition opposite :: "dqDirection \<Rightarrow> dqDirection" where
  "opposite side = (case side of dqNext \<Rightarrow> dqPrev | dqPrev \<Rightarrow> dqNext)"

definition ad_force :: "(rat \<Rightarrow> rat) \<Rightarrow> dqDirection \<Rightarrow> 'a \<Rightarrow> 'a aqueue \<Rightarrow> qerror option \<times> 'a aqueue" where
  "ad_force rnd side x a =
     (if a_drainers a > 0 then (Some ErrQueueDraining, a)
      else if a_closed a then (Some ErrQueueClosed, a)
      else ad_push rnd side x
        (if t_cap (a_tracker a) = t_len (a_tracker a) then snd (ad_pop rnd (opposite side) a) else a))"

datatype 'a dop = OPush dqDirection 'a | OPop dqDirection | OForce dqDirection 'a

fun d_do :: "(rat \<Rightarrow> rat) \<Rightarrow> 'a dop \<Rightarrow> 'a Deque \<Rightarrow> ('a qout \<times> 'a Deque) outcome" where
  "d_do rnd (OPush dqNext x) d = on_done (PushFront rnd x d) (\<lambda>(e, d'). Done (Pushed e, d'))"
| "d_do rnd (OPush dqPrev x) d = on_done (PushBack rnd x d) (\<lambda>(e, d'). Done (Pushed e, d'))"
| "d_do rnd (OForce dqNext x) d = on_done (ForcePushFront rnd x d) (\<lambda>(e, d'). Done (Pushed e, d'))"
| "d_do rnd (OForce dqPrev x) d = on_done (ForcePushBack rnd x d) (\<lambda>(e, d'). Done (Pushed e, d'))"
| "d_do rnd (OPop dqNext) d = on_done (PopFront rnd d) (\<lambda>((v, ok), d'). Done (Popped v ok, d'))"
| "d_do rnd (OPop dqPrev) d = on_done (PopBack rnd d) (\<lambda>((v, ok), d'). Done (Popped v ok, d'))"

fun ad_do :: "(rat \<Rightarrow> rat) \<Rightarrow> 'a dop \<Rightarrow> 'a aqueue \<Rightarrow> 'a qout \<times> 'a aqueue" where
  "ad_do rnd (OPush side x) a = (case ad_push rnd side x a of (e, a') \<Rightarrow> (Pushed e, a'))"
| "ad_do rnd (OForce side x) a = (case ad_force rnd side x a of (e, a') \<Rightarrow> (Pushed e, a'))"
| "ad_do rnd (OPop side) a = (case ad_pop rnd side a of ((v, ok), a') \<Rightarrow> (Popped v ok, a'))"

fun d_run :: "(rat \<Rightarrow> rat) \<Rightarrow> 'a dop list \<Rightarrow> 'a Deque \<Rightarrow> ('a qout list \<times> 'a Deque) outcome" where
  "d_run rnd [] d = Done ([], d)"
| "d_run rnd (p # ps) d =
     on_done (d_do rnd p d) (\<lambda>(r, d1). on_done (d_run rnd ps d1) (\<lambda>(rs, d2). Done (r # rs, d2)))"

fun ad_run :: "(rat \<Rightarrow> rat) \<Rightarrow> 'a dop list \<Rightarrow> 'a aqueue \<Rightarrow> 'a qout list \<times> 'a aqueue" where
  "ad_run rnd [] a = ([], a)"
| "ad_run rnd (p # ps) a = (case ad_do rnd p a of (r, a1) \<Rightarrow> case ad_run rnd ps a1 of (rs, a2) \<Rightarrow> (r # rs, a2))"

lemma add_abs:
  assumes "dq_inv d" "rounding rnd"
  shows "\<exists>d'. Deque_add rnd x side d = Done (fst (ad_push rnd side x (d_abs d)), d')
    \<and> d_abs d' = snd (ad_push rnd side x (d_abs d)) \<and> dq_inv d'"
proof (cases "checkOpen d")
  case (Some e)
  then show ?thesis using assms(1)
    by (auto simp: Deque_add_def ad_push_def d_abs_def checkOpen_def split: if_splits)
next
  case None
  then have o: "dq_drainers d \<le> 0" "\<not> dq_closed d" by (auto simp: checkOpen_def split: if_splits)
  show ?thesis
  proof (cases "t_add rnd (dq_tracker d)")
    case (Inl e)
    have "dq_inv (dq_wake k d) = dq_inv d" "dq_items (dq_wake k d) = dq_items d" for k
      by (rule dq_inv_cong items_cong; simp)+
    then show ?thesis using assms(1) None Inl o by (simp add: Deque_add_def ad_push_def d_abs_def)
  next
    case (Inr t)
    with add_items[OF assms None Inr, of x side] o show ?thesis
      by (cases side) (auto simp: ad_push_def d_abs_def)
  qed
qed

lemma pop_abs:
  assumes "dq_inv d" "rounding rnd"
  shows "\<exists>e d'. getNextOrPrevious d 0 side = Some e \<and> Deque_pop rnd e d = Done (fst (ad_pop rnd side (d_abs d)), d')
    \<and> d_abs d' = snd (ad_pop rnd side (d_abs d)) \<and> dq_inv d'"
proof (cases "dq_closed d \<or> dq_items d = []")
  case True
  obtain e where "getNextOrPrevious d 0 side = Some e" "element_isRoot d e = (dq_items d = [])"
    using dq_frame_pop[OF assms, of side] by blast
  with True assms(1) show ?thesis by (auto simp: Deque_pop_def ad_pop_def d_abs_def)
next
  case False
  with pop_items[OF assms, of side] show ?thesis by (auto simp: ad_pop_def d_abs_def)
qed

lemma d_do_abs:
  assumes "dq_inv d" "rounding rnd"
  shows "\<exists>d'. d_do rnd p d = Done (fst (ad_do rnd p (d_abs d)), d') \<and> d_abs d' = snd (ad_do rnd p (d_abs d)) \<and> dq_inv d'"
proof (cases p)
  case (OPush side x)
  with add_abs[OF assms, of x side] show ?thesis
    by (cases side) (auto simp: PushFront_def PushBack_def split: prod.splits)
next
  case (OPop side)
  with pop_abs[OF assms, of side] dq_inv_facts(1)[OF assms(1)] show ?thesis
    by (cases side) (auto simp: PopFront_def PopBack_def getNextOrPrevious_def split: prod.splits)
next
  case (OForce side x)
  obtain e d1 where d1: "getNextOrPrevious d 0 (opposite side) = Some e"
      "Deque_pop rnd e d = Done (fst (ad_pop rnd (opposite side) (d_abs d)), d1)"
      "d_abs d1 = snd (ad_pop rnd (opposite side) (d_abs d))" "dq_inv d1"
    using pop_abs[OF assms, of "opposite side"] by blast
  define d2 where "d2 = (if t_cap (dq_tracker d) = t_len (dq_tracker d) then d1 else d)"
  have "dq_inv d2" using d1(4) assms(1) by (simp add: d2_def)
  then obtain d' where d': "Deque_add rnd x side d2 = Done (fst (ad_push rnd side x (d_abs d2)), d')"
      "d_abs d' = snd (ad_push rnd side x (d_abs d2))" "dq_inv d'"
    using add_abs[OF _ assms(2), of d2 x side] by blast
  have run: "(case side of dqNext \<Rightarrow> ForcePushFront | dqPrev \<Rightarrow> ForcePushBack) rnd x d
      = (case checkOpen d of Some err \<Rightarrow> Done (Some err, d) | None \<Rightarrow> Done (fst (ad_push rnd side x (d_abs d2)), d'))"
    using d1 d'(1) dq_inv_facts(1)[OF assms(1)]
    by (cases side; cases "ad_pop rnd (opposite side) (d_abs d)")
      (auto simp: ForcePushFront_def ForcePushBack_def opposite_def d2_def getNextOrPrevious_def split: option.splits)
  have a: "ad_force rnd side x (d_abs d)
      = (case checkOpen d of Some err \<Rightarrow> (Some err, d_abs d) | None \<Rightarrow> ad_push rnd side x (d_abs d2))"
    using d1(3) by (auto simp: ad_force_def checkOpen_def d_abs_def[of d] d2_def)
  show ?thesis
    using run a d'(2,3) assms(1) OForce
    by (cases side; cases "checkOpen d") (auto split: prod.splits)
qed

lemma d_run_abs:
  assumes "dq_inv d" "rounding rnd"
  shows "\<exists>d'. d_run rnd ps d = Done (fst (ad_run rnd ps (d_abs d)), d') \<and> d_abs d' = snd (ad_run rnd ps (d_abs d)) \<and> dq_inv d'"
  using assms(1)
proof (induction ps arbitrary: d)
  case (Cons p ps)
  obtain d1 where d1: "d_do rnd p d = Done (fst (ad_do rnd p (d_abs d)), d1)" "d_abs d1 = snd (ad_do rnd p (d_abs d))" "dq_inv d1"
    using d_do_abs[OF Cons.prems assms(2), of p] by blast
  with Cons.IH[OF d1(3)] show ?case by (auto split: prod.splits)
qed auto

subsection \<open>Properties\<close>

definition demo_deque :: "int list \<Rightarrow> int Deque" where
  "demo_deque xs = fold (\<lambda>x d. case PushBack trunc53 x d of Done (_, d') \<Rightarrow> d' | Panic _ \<Rightarrow> d) xs
     (Deque_doInit\<lparr>dq_tracker := HardLimit \<lparr>hl_capacity = 2, hl_length = 0\<rparr>\<rparr>)"

lemma demo_deque_inv: "dq_inv (demo_deque xs)"
proof -
  let ?d = "Deque_doInit\<lparr>dq_tracker := HardLimit \<lparr>hl_capacity = 2, hl_length = 0\<rparr>\<rparr> :: int Deque"
  have "dq_inv ?d" by (rule dq_rep_inv[OF doInit_rep]) (simp_all add: hl_inv_def hl_len_def)
  then show ?thesis
    unfolding demo_deque_def
  proof (induction xs rule: rev_induct)
    case (snoc x xs)
    let ?e = "fold (\<lambda>x d. case PushBack trunc53 x d of Done (_, d') \<Rightarrow> d' | Panic _ \<Rightarrow> d) xs ?d"
    obtain e d' where "PushBack trunc53 x ?e = Done (e, d')" "dq_inv d'"
      using add_abs[OF snoc.IH[OF snoc.prems] rounding_trunc53, of x dqPrev] by (auto simp: PushBack_def)
    then show ?case by simp
  qed simp
qed

lemma demo_deque_abs_empty:
  "d_abs (demo_deque []) = \<lparr>a_items = [], a_tracker = HardLimit \<lparr>hl_capacity = 2, hl_length = 0\<rparr>, a_closed = False, a_drainers = 0\<rparr>"
  by (simp add: d_abs_def demo_deque_def Deque_doInit_def dq_items_def dq_live_def dq_nx_def)

text \<open>C10: Every sequence of pushes, pops and forced pushes at either end of the ring of elements gives the
  results of a plain list with a tracker, errors included, and follows no nil pointer.  A forced push
  onto a full deque first drops the item at the other end.\<close>

theorem deque_refines_list:
  assumes "dq_inv d" "rounding rnd"
  shows "\<exists>d'. d_run rnd ps d = Done (fst (ad_run rnd ps (d_abs d)), d')
    \<and> d_abs d' = snd (ad_run rnd ps (d_abs d)) \<and> dq_inv d'"
  by (rule d_run_abs[OF assms])

lemma deque_refines_list_witness:
  "\<exists>d'. d_run trunc53 [OPush dqPrev 1, OPush dqNext 2, OPush dqPrev 3, OForce dqPrev 4, OPop dqPrev, OPop dqPrev] (demo_deque [])
     = Done ([Pushed None, Pushed None, Pushed (Some ErrQueueFull), Pushed None, Popped (Some 4) True, Popped (Some 1) True], d')"
proof -
  let ?ps = "[OPush dqPrev 1, OPush dqNext 2, OPush dqPrev 3, OForce dqPrev 4, OPop dqPrev, OPop dqPrev]"
  have "fst (ad_run trunc53 ?ps (d_abs (demo_deque [])))
      = [Pushed None, Pushed None, Pushed (Some ErrQueueFull), Pushed None, Popped (Some 4) True, Popped (Some 1) True]"
    by (simp add: demo_deque_abs_empty ad_push_def ad_pop_def ad_force_def opposite_def hl_add_def hl_cap_def hl_len_def
        hl_remove_def dq_end_def dq_without_def)
  with deque_refines_list[OF demo_deque_inv rounding_trunc53, of ?ps "[]"] show ?thesis by metis
qed

text \<open>A forced push onto an open deque always succeeds, whatever its tracker: at the capacity it drops the
  item at the other end, below it nothing is lost.\<close>

theorem ForcePush_succeeds:
  assumes "dq_inv d" "rounding rnd" "checkOpen d = None" "0 < t_cap (dq_tracker d)"
    and "t_len (dq_tracker d) \<le> t_cap (dq_tracker d)"
  shows "(\<exists>d'. ForcePushFront rnd x d = Done (None, d') \<and> dq_inv d' \<and> dq_items d' = x #
      (if t_len (dq_tracker d) = t_cap (dq_tracker d) then butlast (dq_items d) else dq_items d))
    \<and> (\<exists>d'. ForcePushBack rnd x d = Done (None, d') \<and> dq_inv d' \<and> dq_items d' =
      (if t_len (dq_tracker d) = t_cap (dq_tracker d) then tl (dq_items d) else dq_items d) @ [x])"
proof -
  have open': "dq_drainers d \<le> 0" "\<not> dq_closed d" using assms(3) by (auto simp: checkOpen_def split: if_splits)
  have inv: "t_inv (dq_tracker d)" by (rule dq_inv_facts(7)[OF assms(1)])
  have full: "\<exists>t. t_add rnd (t_remove rnd (dq_tracker d)) = Inr t" if "t_len (dq_tracker d) = t_cap (dq_tracker d)"
    by (rule t_replace[OF inv assms(4) that])
  have room: "\<exists>t. t_add rnd (dq_tracker d) = Inr t" if "t_len (dq_tracker d) \<noteq> t_cap (dq_tracker d)"
    by (rule t_add_free) (use that assms(5) in simp)
  have ne: "dq_items d \<noteq> []" if "t_len (dq_tracker d) = t_cap (dq_tracker d)"
    using that assms(4) dq_len[OF assms(1)] by auto
  have a: "fst (ad_force rnd side x (d_abs d)) = None \<and> a_items (snd (ad_force rnd side x (d_abs d))) =
      (case side of dqNext \<Rightarrow> x # (if t_len (dq_tracker d) = t_cap (dq_tracker d) then butlast (dq_items d) else dq_items d)
       | dqPrev \<Rightarrow> (if t_len (dq_tracker d) = t_cap (dq_tracker d) then tl (dq_items d) else dq_items d) @ [x])" for side
    using open' full room ne
    by (cases side; cases "t_len (dq_tracker d) = t_cap (dq_tracker d)")
      (auto simp: ad_force_def ad_push_def ad_pop_def d_abs_def opposite_def dq_without_def)
  have "\<exists>d'. ForcePushFront rnd x d = Done (None, d') \<and> dq_inv d' \<and> dq_items d' = x #
      (if t_len (dq_tracker d) = t_cap (dq_tracker d) then butlast (dq_items d) else dq_items d)"
    using d_do_abs[OF assms(1,2), of "OForce dqNext x"] a[of dqNext]
    by (auto simp: d_abs_def split: prod.splits)
  moreover have "\<exists>d'. ForcePushBack rnd x d = Done (None, d') \<and> dq_inv d' \<and> dq_items d' =
      (if t_len (dq_tracker d) = t_cap (dq_tracker d) then tl (dq_items d) else dq_items d) @ [x]"
    using d_do_abs[OF assms(1,2), of "OForce dqPrev x"] a[of dqPrev]
    by (auto simp: d_abs_def split: prod.splits)
  ultimately show ?thesis ..
qed

lemma ForcePush_succeeds_witness: "\<exists>d'. ForcePushBack trunc53 7 (demo_deque []) = Done (None, d') \<and> dq_items d' = [7]"
proof -
  have e: "checkOpen (demo_deque []) = None" "dq_tracker (demo_deque []) = HardLimit \<lparr>hl_capacity = 2, hl_length = 0\<rparr>"
      "dq_items (demo_deque []) = []"
    using demo_deque_abs_empty by (auto simp: d_abs_def checkOpen_def)
  show ?thesis
    using ForcePush_succeeds[OF demo_deque_inv rounding_trunc53 e(1), of 7] by (auto simp: e hl_cap_def hl_len_def)
qed

text \<open>C2: No wakeup of the deque is lost: a goroutine that sleeps in a blocking push, a blocking pop, a drain
  or a waiting iterator has nothing to go on with, or its context has ended and the broadcast that
  wakes it is under way; whatever the other goroutines did in whatever order.\<close>

theorem deque_no_lost_wakeup:
  assumes "dq_inv d" "rounding rnd"
    and "(mstep (d_attempt rnd) d_wcond d_valid)\<^sup>*\<^sup>* (idle_world d) w"
    and "w_run w t = Some (p, x, Some c)"
  shows "c = d_wcond p \<and> t \<in> set (w_wait w c) \<and> dq_inv (w_obj w) \<and> d_must_wait p (w_obj w)
    \<and> (x \<in> w_cancelled w \<longrightarrow> c \<in> w_pending w)"
proof -
  have m: "monitor (d_attempt rnd) d_wcond d_valid dq_inv" by (rule d_monitor[OF assms(2)])
  have "monitor.J (d_attempt rnd) d_wcond d_valid dq_inv w"
    by (rule monitor.J_reachable[OF m assms(3,1)])
  then have "dq_inv (w_obj w)" "d_valid p (w_obj w)" using assms(4) by (auto simp: monitor.J_def[OF m])
  with monitor.no_lost_wakeup[OF m assms(3,1,4)] d_blocked[OF _ assms(2)] show ?thesis by blast
qed

lemma wpf_reach:
  "(mstep (d_attempt trunc53) d_wcond d_valid)\<^sup>*\<^sup>* (idle_world (demo_deque []))
     (finish_section 7 (DWaitPop dqNext) 1 (d_attempt trunc53 True False (DWaitPop dqNext) (demo_deque [])) (idle_world (demo_deque [])))"
  using mstep.call[of "idle_world (demo_deque [])" 7 d_valid "DWaitPop dqNext" "d_attempt trunc53" d_wcond 1]
  by (intro r_into_rtranclp) (simp add: idle_world_def)

lemma wpf_run:
  "w_run (finish_section 7 (DWaitPop dqNext) 1 (d_attempt trunc53 True False (DWaitPop dqNext) (demo_deque [])) (idle_world (demo_deque []))) 7
     = Some (DWaitPop dqNext, 1, Some NFront)"
  by (simp add: finish_section_def d_attempt_def WaitPopFront_def Deque_waitPop_def demo_deque_def Deque_doInit_def
      getNextOrPrevious_def Deque_await_def element_isRoot_def result_of_def)

lemma deque_no_lost_wakeup_witness:
  "\<exists>w :: (int Deque, int dcall, dqcond) world. w_run w 7 = Some (DWaitPop dqNext, 1, Some NFront) \<and> d_must_wait (DWaitPop dqNext) (w_obj w)"
  by (rule exI, rule conjI, rule wpf_run)
    (use deque_no_lost_wakeup[OF demo_deque_inv rounding_trunc53 wpf_reach wpf_run] in blast)

text \<open>The neighbour search always ends.  From any element that was ever in the deque, popped or not, an
  iterator moves to the nearest element in its direction that is still there, or to the root when
  there is none, so that it neither repeats nor skips an element.\<close>

theorem neighbor_total:
  assumes "dq_inv d" "0 < c" "c < dq_fresh d"
  shows "\<exists>n. neighbor d c dqNext = Some (Done n) \<and>
    (if n = 0 then \<forall>i \<in> set (dq_live d). d_seq (dq_heap d i) \<le> d_seq (dq_heap d c)
     else n \<in> set (dq_live d) \<and> d_seq (dq_heap d c) < d_seq (dq_heap d n)
       \<and> (\<forall>i \<in> set (dq_live d). d_seq (dq_heap d c) < d_seq (dq_heap d i) \<longrightarrow> d_seq (dq_heap d n) \<le> d_seq (dq_heap d i)))"
proof (cases "ahead d dqNext c")
  case Nil
  then show ?thesis
    using neighbor_ahead[OF assms(1,3), of dqNext] assms(2) by (auto simp: ahead_def filter_empty_conv not_less)
next
  case (Cons n ns)
  let ?f = "\<lambda>i. d_seq (dq_heap d i)"
  have mem: "i \<in> set (ahead d dqNext c) \<longleftrightarrow> i \<in> set (dq_live d) \<and> ?f c < ?f i" for i
    using assms(2) by (auto simp: ahead_def)
  have "sorted_wrt (\<lambda>i j. ?f i < ?f j) (ahead d dqNext c)"
    using dq_inv_facts(5)[OF assms(1)] by (simp add: ahead_def sorted_wrt_map sorted_wrt_filter)
  then have "\<forall>i \<in> set (ahead d dqNext c). ?f n \<le> ?f i" using Cons by auto
  moreover have "n \<noteq> 0" "n \<in> set (dq_live d)" "?f c < ?f n"
    using mem[of n] Cons dq_inv_facts(4)[OF assms(1), of n] by auto
  moreover have "\<forall>i \<in> set (dq_live d). ?f c < ?f i \<longrightarrow> ?f n \<le> ?f i" using calculation(1) mem by blast
  ultimately show ?thesis
    using neighbor_ahead[OF assms(1,3), of dqNext] Cons by auto
qed

lemma neighbor_total_witness:
  "\<exists>n. neighbor (demo_deque [5]) 1 dqNext = Some (Done n) \<and> (n = 0 \<or> n \<in> set (dq_live (demo_deque [5])))"
proof -
  have "1 < dq_fresh (demo_deque [5])"
    by (simp add: demo_deque_def PushBack_def Deque_add_def Deque_doInit_def checkOpen_def hl_add_def Let_def dq_upd_def
        dq_notify_def)
  then show ?thesis using neighbor_total[OF demo_deque_inv, of 1 "[5]"] by (auto split: if_splits)
qed

end
