(* ===== verification/Comparators.thy ===== *)
theory Comparators
  imports Prelude "HOL-Library.Multiset"
begin

text \<open>
  Comparison functions \<open>func(T, T) int\<close>, as the sorting operations of \<open>src/dt\<close> and its two heaps take
  them, and the two sorting algorithms these rest on, on lists of values.

  \<open>cmp_ok\<close> is the contract of a comparison function (a strict weak order); a list is in order when no
  element is greater than a later one.
\<close>

definition cmp_ok :: "('a \<Rightarrow> 'a \<Rightarrow> int) \<Rightarrow> bool" where
  "cmp_ok cf \<longleftrightarrow> (\<forall>x y. (cf x y < 0) = (0 < cf y x)) \<and> (\<forall>x y z. cf x y \<le> 0 \<and> cf y z \<le> 0 \<longrightarrow> cf x z \<le> 0)"

definition in_order :: "('a \<Rightarrow> 'a \<Rightarrow> int) \<Rightarrow> 'a list \<Rightarrow> bool" where
  "in_order cf xs \<longleftrightarrow> sorted_wrt (\<lambda>x y. cf x y \<le> 0) xs"

lemma cmp_trans: "cmp_ok cf \<Longrightarrow> cf x y \<le> 0 \<Longrightarrow> cf y z \<le> 0 \<Longrightarrow> cf x z \<le> 0"
  unfolding cmp_ok_def by blast

lemma cmp_flip: "cmp_ok cf \<Longrightarrow> 0 < cf y x \<longleftrightarrow> cf x y < 0"
  unfolding cmp_ok_def by blast

lemma cmp_total: "cmp_ok cf \<Longrightarrow> \<not> cf x y < 0 \<Longrightarrow> cf y x \<le> 0"
  using cmp_flip[of cf y x] by linarith

lemma cmp_refl: "cmp_ok cf \<Longrightarrow> cf x x = 0"
  using cmp_flip[of cf x x] by (cases "cf x x" "0 :: int" rule: linorder_cases) auto

lemma cmp_minus: "cmp_ok (\<lambda>a b :: int. a - b)"
  unfolding cmp_ok_def by (intro conjI allI impI) linarith+

lemma in_order_simps [simp]: "in_order cf []" "in_order cf (x # xs) \<longleftrightarrow> (\<forall>y \<in> set xs. cf x y \<le> 0) \<and> in_order cf xs"
  by (auto simp: in_order_def)

lemma in_order_append: "in_order cf (xs @ ys) \<longleftrightarrow> in_order cf xs \<and> in_order cf ys \<and> (\<forall>x \<in> set xs. \<forall>y \<in> set ys. cf x y \<le> 0)"
  by (auto simp: in_order_def sorted_wrt_append)

text \<open>The library's \<open>slices.SortStableFunc\<close>: equal elements keep their order.\<close>

fun insert_stable :: "('e \<Rightarrow> 'e \<Rightarrow> int) \<Rightarrow> 'e \<Rightarrow> 'e list \<Rightarrow> 'e list" where
  "insert_stable cmp x [] = [x]"
| "insert_stable cmp x (y # ys) = (if cmp y x < 0 then y # insert_stable cmp x ys else x # y # ys)"

definition sort_stable :: "('e \<Rightarrow> 'e \<Rightarrow> int) \<Rightarrow> 'e list \<Rightarrow> 'e list" where
  "sort_stable cmp xs = foldr (insert_stable cmp) xs []"

lemma mset_insert_stable [simp]: "mset (insert_stable cmp x xs) = add_mset x (mset xs)"
  by (induction xs) auto

lemma mset_sort_stable [simp]: "mset (sort_stable cmp xs) = mset xs"
  by (induction xs) (auto simp: sort_stable_def)

lemma set_insert_stable [simp]: "set (insert_stable cmp x xs) = insert x (set xs)"
  by (induction xs) auto

lemma in_order_insert_stable: "cmp_ok cmp \<Longrightarrow> in_order cmp xs \<Longrightarrow> in_order cmp (insert_stable cmp x xs)"
  by (induction xs) (auto dest: cmp_total intro: cmp_trans)

lemma in_order_sort_stable: "cmp_ok cmp \<Longrightarrow> in_order cmp (sort_stable cmp xs)"
  by (induction xs) (auto simp: sort_stable_def in_order_insert_stable)

text \<open>Stability: the elements that are equal to a given one come out in the order they came in.\<close>

lemma filter_insert_stable:
  "cmp_ok cmp \<Longrightarrow> filter (\<lambda>y. cmp z y = 0) (insert_stable cmp x xs)
     = (if cmp z x = 0 then x # filter (\<lambda>y. cmp z y = 0) xs else filter (\<lambda>y. cmp z y = 0) xs)"
proof (induction xs)
  case (Cons y ys)
  have "\<not> (cmp z x = 0 \<and> cmp z y = 0)" if "cmp y x < 0"
  proof
    assume e: "cmp z x = 0 \<and> cmp z y = 0"
    then have "cmp x z \<le> 0" using cmp_total[OF Cons.prems, of z x] by simp
    then have "cmp x y \<le> 0" using e cmp_trans[OF Cons.prems, of x z y] by simp
    then show False using cmp_flip[OF Cons.prems, of x y] that by simp
  qed
  with Cons show ?case by auto
qed simp

lemma sort_stable_stable:
  "cmp_ok cmp \<Longrightarrow> filter (\<lambda>y. cmp z y = 0) (sort_stable cmp xs) = filter (\<lambda>y. cmp z y = 0) xs"
  by (induction xs) (auto simp: sort_stable_def filter_insert_stable)

lemma map_insert_stable:
  "map f (insert_stable (\<lambda>x y. cmp (f x) (f y)) x xs) = insert_stable cmp (f x) (map f xs)"
  by (induction xs) auto

lemma map_sort_stable: "map f (sort_stable (\<lambda>x y. cmp (f x) (f y)) xs) = sort_stable cmp (map f xs)"
  by (induction xs) (auto simp: sort_stable_def map_insert_stable)

text \<open>The merge of \<open>dt.List\<close>: of two equal elements it takes the one of the second list first.\<close>

fun merge_lists :: "('a \<Rightarrow> 'a \<Rightarrow> int) \<Rightarrow> 'a list \<Rightarrow> 'a list \<Rightarrow> 'a list" where
  "merge_lists cf [] ys = ys"
| "merge_lists cf xs [] = xs"
| "merge_lists cf (x # xs) (y # ys) =
     (if cf x y < 0 then x # merge_lists cf xs (y # ys) else y # merge_lists cf (x # xs) ys)"

lemma merge_lists_Nil [simp]: "merge_lists cf xs [] = xs"
  by (cases xs) auto

lemma mset_merge_lists [simp]: "mset (merge_lists cf xs ys) = mset xs + mset ys"
  by (induction cf xs ys rule: merge_lists.induct) auto

lemma set_merge_lists: "set (merge_lists cf xs ys) = set xs \<union> set ys"
  using arg_cong[OF mset_merge_lists, of set_mset] by (metis set_mset_mset set_mset_union)

lemma in_order_merge_lists: "cmp_ok cf \<Longrightarrow> in_order cf xs \<Longrightarrow> in_order cf ys \<Longrightarrow> in_order cf (merge_lists cf xs ys)"
proof (induction cf xs ys rule: merge_lists.induct)
  case (3 cf x xs y ys)
  show ?case
  proof (cases "cf x y < 0")
    case True
    then have "cf x z \<le> 0" if "z \<in> set (y # ys)" for z
      using 3 that cmp_trans[of cf x y z] by auto
    with 3 True show ?thesis by (auto simp: set_merge_lists)
  next
    case False
    then have "cf y x \<le> 0" using 3 cmp_total by auto
    then have "cf y z \<le> 0" if "z \<in> set (x # xs)" for z
      using 3 that cmp_trans[of cf y x z] by auto
    with 3 False show ?thesis by (auto simp: set_merge_lists)
  qed
qed auto

end
