(* ===== verification/DtList.thy ===== *)
theory DtList
  imports IrtSeq DLL Comparators
begin

text \<open>
  The doubly linked list of \<open>src/dt/list.go\<close>.

  Elements, lists and the shared \<open>meta\<close> counters are heap objects with addresses, because the code
  depends on aliasing: \<open>SortMerge\<close> overwrites a list with a copy of another list's pointers, and an
  element knows its list only through its \<open>list\<close> pointer.  An operation is a function of the store;
  \<open>None\<close> is a panic (a nil pointer that is followed) or a call that does not return.  The zero value
  of the element type is its \<open>0\<close>.
\<close>

record 'a Element =
  el_next :: "nat option"
  el_prev :: "nat option"
  el_list :: "nat option"
  el_ok :: bool
  el_item :: 'a

record List =
  l_head :: "nat option"
  l_meta :: "nat option"

record 'a lstore =
  els :: "nat \<Rightarrow> 'a Element"
  els_n :: nat
  lists :: "nat \<Rightarrow> List"
  lists_n :: nat
  metas :: "nat \<Rightarrow> int"
  metas_n :: nat

type_synonym ('a, 'r) lop = "'a lstore \<Rightarrow> ('r \<times> 'a lstore) option"

definition upd_el :: "nat \<Rightarrow> ('a Element \<Rightarrow> 'a Element) \<Rightarrow> 'a lstore \<Rightarrow> 'a lstore" where
  "upd_el e f s = s\<lparr>els := (els s)(e := f (els s e))\<rparr>"

definition upd_meta :: "nat \<Rightarrow> (int \<Rightarrow> int) \<Rightarrow> 'a lstore \<Rightarrow> 'a lstore" where
  "upd_meta m f s = s\<lparr>metas := (metas s)(m := f (metas s m))\<rparr>"

definition new_el :: "'a Element \<Rightarrow> 'a lstore \<Rightarrow> nat \<times> 'a lstore" where
  "new_el e s = (els_n s, s\<lparr>els := (els s)(els_n s := e), els_n := els_n s + 1\<rparr>)"

definition new_list :: "'a lstore \<Rightarrow> nat \<times> 'a lstore" where
  "new_list s = (lists_n s, s\<lparr>lists := (lists s)(lists_n s := \<lparr>l_head = None, l_meta = None\<rparr>), lists_n := lists_n s + 1\<rparr>)"

subsection \<open>Elements\<close>

definition NewElement :: "'a \<Rightarrow> 'a lstore \<Rightarrow> nat \<times> 'a lstore" where
  "NewElement v = new_el \<lparr>el_next = None, el_prev = None, el_list = None, el_ok = True, el_item = v\<rparr>"

definition List_Len :: "nat option \<Rightarrow> 'a lstore \<Rightarrow> int" where
  "List_Len l s =
     (case l of None \<Rightarrow> 0
      | Some a \<Rightarrow> (case l_meta (lists s a) of None \<Rightarrow> 0 | Some m \<Rightarrow> metas s m))"

definition List_nonNil :: "nat option \<Rightarrow> 'a lstore \<Rightarrow> bool" where
  "List_nonNil l s \<longleftrightarrow>
     (case l of None \<Rightarrow> False | Some a \<Rightarrow> l_head (lists s a) \<noteq> None \<and> l_meta (lists s a) \<noteq> None)"

definition Element_isRoot :: "nat \<Rightarrow> 'a lstore \<Rightarrow> bool" where
  "Element_isRoot e s \<longleftrightarrow> List_nonNil (el_list (els s e)) s
     \<and> l_head (lists s (the (el_list (els s e)))) = Some e"

definition Element_Ok :: "nat option \<Rightarrow> 'a lstore \<Rightarrow> bool" where
  "Element_Ok p s \<longleftrightarrow> (case p of None \<Rightarrow> False | Some e \<Rightarrow> el_ok (els s e) \<and> \<not> Element_isRoot e s)"

definition Element_Value :: "nat option \<Rightarrow> 'a::zero lstore \<Rightarrow> 'a" where
  "Element_Value p s = (case p of None \<Rightarrow> 0 | Some e \<Rightarrow> el_item (els s e))"

definition Element_In :: "nat \<Rightarrow> nat \<Rightarrow> 'a lstore \<Rightarrow> bool" where
  "Element_In e l s \<longleftrightarrow> List_nonNil (el_list (els s e)) s \<and> el_list (els s e) = Some l"

definition Element_appendable :: "nat \<Rightarrow> nat option \<Rightarrow> 'a lstore \<Rightarrow> bool" where
  "Element_appendable e v s \<longleftrightarrow>
     (case v of None \<Rightarrow> False | Some n \<Rightarrow> el_ok (els s n) \<and> List_nonNil (el_list (els s e)) s)"

definition Element_removable :: "nat \<Rightarrow> 'a lstore \<Rightarrow> bool" where
  "Element_removable e s \<longleftrightarrow> List_nonNil (el_list (els s e)) s \<and> \<not> Element_isRoot e s
     \<and> List_Len (el_list (els s e)) s > 0"

definition Element_settable :: "nat option \<Rightarrow> 'a lstore \<Rightarrow> bool" where
  "Element_settable p s \<longleftrightarrow> (case p of None \<Rightarrow> False | Some e \<Rightarrow> \<not> Element_isRoot e s)"

definition Element_isDetatched :: "nat \<Rightarrow> 'a lstore \<Rightarrow> bool" where
  "Element_isDetatched e s \<longleftrightarrow> el_list (els s e) = None"

definition Element_swappable :: "nat option \<Rightarrow> nat option \<Rightarrow> 'a lstore \<Rightarrow> bool" where
  "Element_swappable p q s \<longleftrightarrow>
     (case (p, q) of
        (Some e, Some it) \<Rightarrow> it \<noteq> e \<and> List_nonNil (el_list (els s e)) s \<and> el_list (els s e) = el_list (els s it)
      | _ \<Rightarrow> False)"

definition Element_Set :: "nat option \<Rightarrow> 'a \<Rightarrow> 'a lstore \<Rightarrow> bool \<times> 'a lstore" where
  "Element_Set p v s =
     (if Element_settable p s then (True, upd_el (the p) (\<lambda>e. e\<lparr>el_ok := True, el_item := v\<rparr>) s) else (False, s))"

definition uncheckedAppend :: "nat \<Rightarrow> nat \<Rightarrow> ('a, nat) lop" where
  "uncheckedAppend e v s =
     do { l \<leftarrow> el_list (els s e);
          m \<leftarrow> l_meta (lists s l);
          let s1 = upd_meta m (\<lambda>n. n + 1) s;
          let s2 = upd_el v (\<lambda>x. x\<lparr>el_list := el_list (els s1 e)\<rparr>) s1;
          let s3 = upd_el v (\<lambda>x. x\<lparr>el_prev := Some e\<rparr>) s2;
          let s4 = upd_el v (\<lambda>x. x\<lparr>el_next := el_next (els s3 e)\<rparr>) s3;
          p \<leftarrow> el_prev (els s4 v);
          let s5 = upd_el p (\<lambda>x. x\<lparr>el_next := Some v\<rparr>) s4;
          n \<leftarrow> el_next (els s5 v);
          Some (v, upd_el n (\<lambda>x. x\<lparr>el_prev := Some v\<rparr>) s5) }"

definition uncheckedRemove :: "nat \<Rightarrow> ('a, unit) lop" where
  "uncheckedRemove e s =
     do { l \<leftarrow> el_list (els s e);
          m \<leftarrow> l_meta (lists s l);
          let s1 = upd_meta m (\<lambda>n. n - 1) s;
          p \<leftarrow> el_prev (els s1 e);
          let s2 = upd_el p (\<lambda>x. x\<lparr>el_next := el_next (els s1 e)\<rparr>) s1;
          n \<leftarrow> el_next (els s2 e);
          let s3 = upd_el n (\<lambda>x. x\<lparr>el_prev := el_prev (els s2 e)\<rparr>) s2;
          Some ((), upd_el e (\<lambda>x. x\<lparr>el_list := None\<rparr>) s3) }"

definition Element_Append :: "nat \<Rightarrow> nat option \<Rightarrow> ('a, nat) lop" where
  "Element_Append e v s =
     (if Element_appendable e v s \<and> Element_isDetatched (the v) s then uncheckedAppend e (the v) s else Some (e, s))"

definition Element_Push :: "nat \<Rightarrow> 'a \<Rightarrow> ('a, nat) lop" where
  "Element_Push e v s = (case NewElement v s of (n, s1) \<Rightarrow> Element_Append e (Some n) s1)"

definition Element_Remove :: "nat \<Rightarrow> ('a, bool) lop" where
  "Element_Remove e s =
     (if Element_removable e s then do { (_, s') \<leftarrow> uncheckedRemove e s; Some (True, s') } else Some (False, s))"

definition Element_Drop :: "nat \<Rightarrow> ('a::zero, unit) lop" where
  "Element_Drop e s =
     do { (ok, s1) \<leftarrow> Element_Remove e s;
          Some ((), if ok then upd_el e (\<lambda>x. x\<lparr>el_item := 0, el_ok := False\<rparr>) s1 else s1) }"

text \<open>
  \<open>Swap\<close> copies the predecessor of the second element into the local variable \<open>wprev\<close> and appends to
  the copy; the copy is a new object.
\<close>

definition Element_Swap :: "nat option \<Rightarrow> nat option \<Rightarrow> ('a, bool) lop" where
  "Element_Swap p q s =
     (if Element_swappable p q s then
        do { e \<leftarrow> p; it \<leftarrow> q;
             wp \<leftarrow> el_prev (els s it);
             let (wprev, s1) = new_el (els s wp) s;
             (_, s2) \<leftarrow> uncheckedRemove it s1;
             ep \<leftarrow> el_prev (els s2 e);
             (_, s3) \<leftarrow> uncheckedAppend ep it s2;
             (_, s4) \<leftarrow> uncheckedRemove e s3;
             (_, s5) \<leftarrow> uncheckedAppend wprev e s4;
             Some (True, s5) }
      else Some (False, s))"

subsection \<open>Lists\<close>

definition uncheckedSetup :: "nat \<Rightarrow> 'a::zero lstore \<Rightarrow> 'a lstore" where
  "uncheckedSetup l s =
     (let m = metas_n s;
          s1 = s\<lparr>metas := (metas s)(m := 0), metas_n := m + 1\<rparr>;
          (h, s2) = new_el \<lparr>el_next = None, el_prev = None, el_list = None, el_ok = False, el_item = 0\<rparr> s1;
          s3 = s2\<lparr>lists := (lists s2)(l := \<lparr>l_head = Some h, l_meta = Some m\<rparr>)\<rparr>
      in upd_el h (\<lambda>x. x\<lparr>el_next := Some h, el_prev := Some h, el_list := Some l, el_ok := False\<rparr>) s3)"

definition List_root :: "nat \<Rightarrow> ('a::zero, nat) lop" where
  "List_root l s =
     (let s1 = (if l_head (lists s l) = None then uncheckedSetup l s else s)
      in do { h \<leftarrow> l_head (lists s1 l); Some (h, s1) })"

definition List_Front :: "nat \<Rightarrow> ('a::zero, nat option) lop" where
  "List_Front l s = do { (h, s1) \<leftarrow> List_root l s; Some (el_next (els s1 h), s1) }"

definition List_Back :: "nat \<Rightarrow> ('a::zero, nat option) lop" where
  "List_Back l s = do { (h, s1) \<leftarrow> List_root l s; Some (el_prev (els s1 h), s1) }"

definition List_PushFront :: "nat \<Rightarrow> 'a \<Rightarrow> ('a::zero, unit) lop" where
  "List_PushFront l v s = do { (h, s1) \<leftarrow> List_root l s; (_, s2) \<leftarrow> Element_Push h v s1; Some ((), s2) }"

definition List_PushBack :: "nat \<Rightarrow> 'a \<Rightarrow> ('a::zero, unit) lop" where
  "List_PushBack l v s =
     do { (b, s1) \<leftarrow> List_Back l s; e \<leftarrow> b; (_, s2) \<leftarrow> Element_Push e v s1; Some ((), s2) }"

definition empty_el :: "'a::zero Element" where
  "empty_el = \<lparr>el_next = None, el_prev = None, el_list = None, el_ok = False, el_item = 0\<rparr>"

definition List_pop :: "nat \<Rightarrow> nat option \<Rightarrow> ('a::zero, nat option) lop" where
  "List_pop l p s =
     do { it \<leftarrow> p;
          if \<not> Element_removable it s \<or> el_list (els s it) = None \<or> l_head (lists s l) = None
             \<or> l_head (lists s (the (el_list (els s it)))) \<noteq> l_head (lists s l)
          then (case new_el empty_el s of (n, s1) \<Rightarrow> Some (Some n, s1))
          else do { (_, s1) \<leftarrow> uncheckedRemove it s; Some (Some it, s1) } }"

definition List_PopFront :: "nat \<Rightarrow> ('a::zero, nat option) lop" where
  "List_PopFront l s = do { (p, s1) \<leftarrow> List_Front l s; List_pop l p s1 }"

definition List_PopBack :: "nat \<Rightarrow> ('a::zero, nat option) lop" where
  "List_PopBack l s = do { (p, s1) \<leftarrow> List_Back l s; List_pop l p s1 }"

text \<open>
  The iterators run on the store beside the state of the consumer, who may change the list meanwhile.
\<close>

partial_function (option) List_iter_loop ::
    "(nat option \<Rightarrow> ('a::zero, nat option) lop) \<Rightarrow> nat option \<Rightarrow> ('a, 'a lstore \<times> 'c) seq" where
  "List_iter_loop nxt p yield sc =
     (if Element_Ok p (fst sc)
      then do { (more, sc1) \<leftarrow> yield (Element_Value p (fst sc)) sc;
                if more
                then do { (p', s2) \<leftarrow> nxt p (fst sc1); List_iter_loop nxt p' yield (s2, snd sc1) }
                else Some sc1 }
      else Some sc)"

definition List_iterator :: "('a::zero, nat option) lop \<Rightarrow> (nat option \<Rightarrow> ('a, nat option) lop) \<Rightarrow> ('a, 'a lstore \<times> 'c) seq" where
  "List_iterator first nxt yield sc = do { (p, s1) \<leftarrow> first (fst sc); List_iter_loop nxt p yield (s1, snd sc) }"

definition elemNext :: "nat option \<Rightarrow> ('a, nat option) lop" where
  "elemNext p s = do { e \<leftarrow> p; Some (el_next (els s e), s) }"

definition elemPrevious :: "nat option \<Rightarrow> ('a, nat option) lop" where
  "elemPrevious p s = do { e \<leftarrow> p; Some (el_prev (els s e), s) }"

definition List_wrap :: "('a, nat option) lop \<Rightarrow> nat option \<Rightarrow> ('a, nat option) lop" where
  "List_wrap fn _ = fn"

definition IteratorFront :: "nat \<Rightarrow> ('a::zero, 'a lstore \<times> 'c) seq" where
  "IteratorFront l = List_iterator (List_Front l) elemNext"

definition IteratorBack :: "nat \<Rightarrow> ('a::zero, 'a lstore \<times> 'c) seq" where
  "IteratorBack l = List_iterator (List_Back l) elemPrevious"

definition IteratorPopFront :: "nat \<Rightarrow> ('a::zero, 'a lstore \<times> 'c) seq" where
  "IteratorPopFront l = List_iterator (List_PopFront l) (List_wrap (List_PopFront l))"

definition IteratorPopBack :: "nat \<Rightarrow> ('a::zero, 'a lstore \<times> 'c) seq" where
  "IteratorPopBack l = List_iterator (List_PopBack l) (List_wrap (List_PopBack l))"

definition List_Extend :: "nat \<Rightarrow> ('a::zero, 'a lstore \<times> unit) seq \<Rightarrow> 'a lstore \<Rightarrow> 'a lstore option" where
  "List_Extend l q s =
     do { (s', _) \<leftarrow> q (\<lambda>v (s, c). do { (_, s1) \<leftarrow> List_PushBack l v s; Some (True, (s1, c)) }) (s, ()); Some s' }"

definition List_Reset :: "nat \<Rightarrow> 'a::zero lstore \<Rightarrow> 'a lstore option" where
  "List_Reset l s = do { (s', _) \<leftarrow> IteratorPopFront l (\<lambda>_ sc. Some (True, sc)) (s, ()); Some s' }"

partial_function (option) List_Copy_loop :: "nat \<Rightarrow> nat option \<Rightarrow> 'a::zero lstore \<Rightarrow> 'a lstore option" where
  "List_Copy_loop out p s =
     (if Element_Ok p s
      then do { (b, s1) \<leftarrow> List_Back out s; e \<leftarrow> b;
                (_, s2) \<leftarrow> Element_Push e (Element_Value p s1) s1;
                (p', s3) \<leftarrow> elemNext p s2;
                List_Copy_loop out p' s3 }
      else Some s)"

definition List_Copy :: "nat \<Rightarrow> ('a::zero, nat) lop" where
  "List_Copy l s =
     (case new_list s of (out, s1) \<Rightarrow>
        do { (p, s2) \<leftarrow> List_Front l s1; s3 \<leftarrow> List_Copy_loop out p s2; Some (out, s3) })"

subsection \<open>Sorting\<close>

partial_function (option) IsSorted_loop :: "('a \<Rightarrow> 'a \<Rightarrow> int) \<Rightarrow> nat option \<Rightarrow> ('a::zero, bool) lop" where
  "IsSorted_loop cf p s =
     do { item \<leftarrow> p;
          if Element_Ok (el_next (els s item)) s
          then do { prv \<leftarrow> el_prev (els s item);
                    if cf (el_item (els s item)) (el_item (els s prv)) < 0 then Some (False, s)
                    else IsSorted_loop cf (el_next (els s item)) s }
          else Some (True, s) }"

definition List_IsSorted :: "('a \<Rightarrow> 'a \<Rightarrow> int) \<Rightarrow> nat option \<Rightarrow> ('a::zero, bool) lop" where
  "List_IsSorted cf lp s =
     (case lp of
        None \<Rightarrow> Some (True, s)
      | Some l \<Rightarrow>
          if List_Len lp s \<le> 1 then Some (True, s)
          else do { (p, s1) \<leftarrow> List_Front l s; IsSorted_loop cf p s1 })"

partial_function (option) List_split_loop :: "nat \<Rightarrow> nat \<Rightarrow> int \<Rightarrow> 'a::zero lstore \<Rightarrow> 'a lstore option" where
  "List_split_loop l out tot s =
     (if List_Len (Some l) s > quot tot 2
      then do { (b, s1) \<leftarrow> List_Back out s; e \<leftarrow> b;
                (p, s2) \<leftarrow> List_PopFront l s1;
                (_, s3) \<leftarrow> Element_Append e p s2;
                List_split_loop l out tot s3 }
      else Some s)"

definition List_split :: "nat \<Rightarrow> ('a::zero, nat) lop" where
  "List_split l s =
     (let tot = List_Len (Some l) s in
      case new_list s of (out, s1) \<Rightarrow> do { s2 \<leftarrow> List_split_loop l out tot s1; Some (out, s2) })"

partial_function (option) List_merge_loop :: "('a \<Rightarrow> 'a \<Rightarrow> int) \<Rightarrow> nat \<Rightarrow> nat \<Rightarrow> nat \<Rightarrow> 'a::zero lstore \<Rightarrow> 'a lstore option" where
  "List_merge_loop cf out a b s =
     (if List_Len (Some a) s \<noteq> 0 \<and> List_Len (Some b) s \<noteq> 0
      then do { (pa, s1) \<leftarrow> List_Front a s;
                (pb, s2) \<leftarrow> List_Front b s1;
                let src = (if cf (Element_Value pa s2) (Element_Value pb s2) < 0 then a else b);
                (bk, s3) \<leftarrow> List_Back out s2; e \<leftarrow> bk;
                (p, s4) \<leftarrow> List_PopFront src s3;
                (_, s5) \<leftarrow> Element_Append e p s4;
                List_merge_loop cf out a b s5 }
      else Some s)"

definition List_merge :: "('a \<Rightarrow> 'a \<Rightarrow> int) \<Rightarrow> nat \<Rightarrow> nat \<Rightarrow> ('a::zero, nat) lop" where
  "List_merge cf a b s =
     (case new_list s of (out, s1) \<Rightarrow>
        do { s2 \<leftarrow> List_merge_loop cf out a b s1;
             s3 \<leftarrow> List_Extend out (IteratorFront a) s2;
             s4 \<leftarrow> List_Extend out (IteratorFront b) s3;
             Some (out, s4) })"

partial_function (option) List_mergeSort :: "('a \<Rightarrow> 'a \<Rightarrow> int) \<Rightarrow> nat \<Rightarrow> ('a::zero, nat) lop" where
  "List_mergeSort cf head s =
     (if List_Len (Some head) s < 2 then Some (head, s)
      else do { (tail, s1) \<leftarrow> List_split head s;
                (h', s2) \<leftarrow> List_mergeSort cf head s1;
                (t', s3) \<leftarrow> List_mergeSort cf tail s2;
                List_merge cf h' t' s3 })"

definition SortMerge :: "('a \<Rightarrow> 'a \<Rightarrow> int) \<Rightarrow> nat \<Rightarrow> 'a::zero lstore \<Rightarrow> 'a lstore option" where
  "SortMerge cf l s =
     do { (r, s1) \<leftarrow> List_mergeSort cf l s; Some (s1\<lparr>lists := (lists s1)(l := lists s1 r)\<rparr>) }"

text \<open>\<open>SortQuick\<close> sorts the popped elements with the library's stable sort.\<close>

partial_function (option) pop_all :: "nat \<Rightarrow> nat option list \<Rightarrow> ('a::zero, nat option list) lop" where
  "pop_all l acc s =
     (if List_Len (Some l) s > 0
      then do { (p, s1) \<leftarrow> List_PopFront l s; pop_all l (acc @ [p]) s1 }
      else Some (acc, s))"

fun append_all :: "nat \<Rightarrow> nat option list \<Rightarrow> 'a::zero lstore \<Rightarrow> 'a lstore option" where
  "append_all l [] s = Some s"
| "append_all l (p # ps) s =
     do { (b, s1) \<leftarrow> List_Back l s; e \<leftarrow> b; (_, s2) \<leftarrow> Element_Append e p s1; append_all l ps s2 }"

definition SortQuick :: "('a \<Rightarrow> 'a \<Rightarrow> int) \<Rightarrow> nat \<Rightarrow> 'a::zero lstore \<Rightarrow> 'a lstore option" where
  "SortQuick cf l s =
     do { (elems, s1) \<leftarrow> pop_all l [] s;
          append_all l (sort_stable (\<lambda>x y. cf (Element_Value x s1) (Element_Value y s1)) elems) s1 }"

declare List_iter_loop.simps [code] List_Copy_loop.simps [code] IsSorted_loop.simps [code]
  List_split_loop.simps [code] List_merge_loop.simps [code] List_mergeSort.simps [code] pop_all.simps [code]

end
