(* ===== verification/DtListLaws.thy ===== *)
theory DtListLaws
  imports DtList
begin

text \<open>
  What the operations of \<open>DtList\<close> do to the elements of a list, by the ring of \<open>DLL\<close>.

  \<open>ring_ok s h m as\<close>: behind the sentinel \<open>h\<close> the elements \<open>as\<close> are linked both ways, every one of them
  points at a list with this sentinel and this counter, and the counter is their number.
  \<open>l_rep s l as\<close>: the list at \<open>l\<close> has the elements \<open>as\<close>; a list that was never used has no sentinel.
  \<open>keeps s s' E M\<close>: the step from \<open>s\<close> to \<open>s'\<close> touches only the elements \<open>E\<close> and the counters \<open>M\<close>.
\<close>

definition ring_ok :: "'a lstore \<Rightarrow> nat \<Rightarrow> nat \<Rightarrow> nat list \<Rightarrow> bool" where
  "ring_ok s h m as \<longleftrightarrow> ring (\<lambda>e. el_next (els s e)) (\<lambda>e. el_prev (els s e)) h as
     \<and> metas s m = int (length as) \<and> m < metas_n s
     \<and> (\<forall>e \<in> set (h # as). e < els_n s \<and> (\<exists>l. el_list (els s e) = Some l \<and> l < lists_n s
           \<and> lists s l = \<lparr>l_head = Some h, l_meta = Some m\<rparr>))
     \<and> (\<forall>e \<in> set as. el_ok (els s e)) \<and> \<not> el_ok (els s h)"

definition l_rep :: "'a lstore \<Rightarrow> nat \<Rightarrow> nat list \<Rightarrow> bool" where
  "l_rep s l as \<longleftrightarrow> l < lists_n s \<and>
     (lists s l = \<lparr>l_head = None, l_meta = None\<rparr> \<and> as = []
      \<or> (\<exists>h m. lists s l = \<lparr>l_head = Some h, l_meta = Some m\<rparr> \<and> ring_ok s h m as))"

definition l_vals :: "'a lstore \<Rightarrow> nat list \<Rightarrow> 'a list" where
  "l_vals s as = map (\<lambda>e. el_item (els s e)) as"

definition keeps :: "'a lstore \<Rightarrow> 'a lstore \<Rightarrow> nat set \<Rightarrow> nat set \<Rightarrow> bool" where
  "keeps s s' E M \<longleftrightarrow> (\<forall>e < els_n s. e \<notin> E \<longrightarrow> els s' e = els s e)
     \<and> (\<forall>m < metas_n s. m \<notin> M \<longrightarrow> metas s' m = metas s m)
     \<and> (\<forall>e < els_n s. el_item (els s' e) = el_item (els s e) \<and> el_ok (els s' e) = el_ok (els s e))
     \<and> (\<forall>l < lists_n s. l_head (lists s l) \<noteq> None \<longrightarrow> lists s' l = lists s l)
     \<and> els_n s \<le> els_n s' \<and> metas_n s \<le> metas_n s' \<and> lists_n s \<le> lists_n s'"

lemma keeps_refl: "keeps s s E M"
  by (simp add: keeps_def)

lemma keeps_trans:
  assumes "keeps s s1 E M" "keeps s1 s2 E' M'" "E' \<subseteq> E \<union> {e. els_n s \<le> e}" "M' \<subseteq> M \<union> {m. metas_n s \<le> m}"
  shows "keeps s s2 E M"
proof -
  have e: "els s2 e = els s e" if "e < els_n s" "e \<notin> E" for e
    using that assms by (auto simp: keeps_def subset_eq)
  have m: "metas s2 m = metas s m" if "m < metas_n s" "m \<notin> M" for m
    using that assms by (auto simp: keeps_def subset_eq)
  have i: "el_item (els s2 e) = el_item (els s e) \<and> el_ok (els s2 e) = el_ok (els s e)" if "e < els_n s" for e
    using that assms(1,2) by (auto simp: keeps_def)
  have l: "lists s2 l = lists s l" if "l < lists_n s" "l_head (lists s l) \<noteq> None" for l
    using that assms(1,2) by (auto simp: keeps_def)
  show ?thesis using assms(1,2) e m i l by (auto simp: keeps_def)
qed

lemma keeps_mono: "keeps s s' E M \<Longrightarrow> E \<subseteq> E' \<Longrightarrow> M \<subseteq> M' \<Longrightarrow> keeps s s' E' M'"
  by (auto simp: keeps_def)

text \<open>A ring none of whose parts is touched stays as it is.\<close>

lemma ring_ok_keep:
  assumes "ring_ok s h m as" "keeps s s' E M" "set (h # as) \<inter> E = {}" "m \<notin> M"
  shows "ring_ok s' h m as"
proof -
  have el: "els s' e = els s e" if "e \<in> set (h # as)" for e
    using assms that by (auto simp: ring_ok_def keeps_def)
  have "ring (\<lambda>e. el_next (els s' e)) (\<lambda>e. el_prev (els s' e)) h as"
    by (rule ring_frame[of "\<lambda>e. el_next (els s e)" "\<lambda>e. el_prev (els s e)"])
      (use assms(1) el in \<open>auto simp: ring_ok_def\<close>)
  moreover have "e < els_n s' \<and> (\<exists>l. el_list (els s' e) = Some l \<and> l < lists_n s'
           \<and> lists s' l = \<lparr>l_head = Some h, l_meta = Some m\<rparr>)" if e: "e \<in> set (h # as)" for e
  proof -
    obtain l where l: "e < els_n s" "el_list (els s e) = Some l" "l < lists_n s"
        "lists s l = \<lparr>l_head = Some h, l_meta = Some m\<rparr>"
      using assms(1) e by (auto simp: ring_ok_def)
    then have "lists s' l = lists s l" "l < lists_n s'" "e < els_n s'" using assms(2) by (auto simp: keeps_def)
    then show ?thesis using l el[OF e] by auto
  qed
  ultimately show ?thesis
    using assms el by (auto simp: ring_ok_def keeps_def)
qed

lemma vals_keep: "keeps s s' E M \<Longrightarrow> (\<And>e. e \<in> set as \<Longrightarrow> e < els_n s) \<Longrightarrow> l_vals s' as = l_vals s as"
  by (auto simp: l_vals_def keeps_def)

lemma ring_ok_el:
  assumes "ring_ok s h m as" "e \<in> set (h # as)"
  shows "e < els_n s" "\<exists>l. el_list (els s e) = Some l \<and> lists s l = \<lparr>l_head = Some h, l_meta = Some m\<rparr>"
  using assms by (auto simp: ring_ok_def)

lemma ring_ok_list:
  assumes "ring_ok s h m as" "e \<in> set (h # as)"
  shows "List_nonNil (el_list (els s e)) s" "List_Len (el_list (els s e)) s = int (length as)"
    "Element_isRoot e s \<longleftrightarrow> e = h" "el_list (els s e) \<noteq> None"
    "l_head (lists s (the (el_list (els s e)))) = Some h"
  using ring_ok_el[OF assms] assms(1)
  by (auto simp: List_nonNil_def List_Len_def Element_isRoot_def ring_ok_def)

lemma ring_ok_Ok:
  assumes "ring_ok s h m as" "e \<in> set (h # as)"
  shows "Element_Ok (Some e) s \<longleftrightarrow> e \<noteq> h"
proof -
  have "el_ok (els s e)" if "e \<noteq> h" using assms that by (auto simp: ring_ok_def)
  then show ?thesis using ring_ok_list(3)[OF assms] by (auto simp: Element_Ok_def)
qed

lemma ring_ok_first:
  "ring_ok s h m as \<Longrightarrow> el_next (els s h) = Some (hd (as @ [h])) \<and> el_prev (els s h) = Some (last (h # as))"
  using ring_first[of "\<lambda>e. el_next (els s e)" "\<lambda>e. el_prev (els s e)" h as] unfolding ring_ok_def by blast

subsection \<open>Linking and unlinking an element\<close>

lemma append_ring:
  assumes "ring_ok s h m (xs @ ys)" "e = last (h # xs)" "v < els_n s" "el_list (els s v) = None" "el_ok (els s v)"
  shows "\<exists>s'. uncheckedAppend e v s = Some (v, s') \<and> ring_ok s' h m (xs @ v # ys)
     \<and> keeps s s' (insert v (set (h # xs @ ys))) {m}
     \<and> lists s' = lists s \<and> lists_n s' = lists_n s \<and> els_n s' = els_n s \<and> metas_n s' = metas_n s"
proof -
  define b where "b = hd (ys @ [h])"
  have r: "ring (\<lambda>e. el_next (els s e)) (\<lambda>e. el_prev (els s e)) h (xs @ ys)"
    using assms(1) by (simp add: ring_ok_def)
  have mem: "e \<in> set (h # xs @ ys)" "b \<in> set (h # xs @ ys)"
  proof -
    have "e \<in> set (h # xs)" unfolding assms(2) by (rule last_in_set) simp
    then show "e \<in> set (h # xs @ ys)" by auto
    have "b \<in> set (ys @ [h])" unfolding b_def by (rule hd_in_set) simp
    then show "b \<in> set (h # xs @ ys)" by auto
  qed
  have v: "v \<notin> set (h # xs @ ys)" using ring_ok_list(4)[OF assms(1)] assms(4) by blast
  have ne: "e \<noteq> v" "b \<noteq> v" using mem v by auto
  obtain l where l: "el_list (els s e) = Some l" "lists s l = \<lparr>l_head = Some h, l_meta = Some m\<rparr>" "l < lists_n s"
    using assms(1) mem(1) by (auto simp: ring_ok_def)
  have lk: "el_next (els s e) = Some b" "el_prev (els s b) = Some e"
    using ring_links[OF r] assms(2) by (auto simp: b_def)
  define h0 where "h0 = (els s)(v := (els s v)\<lparr>el_list := Some l, el_prev := Some e, el_next := Some b\<rparr>)"
  define h1 where "h1 = h0(e := (h0 e)\<lparr>el_next := Some v\<rparr>)"
  define h2 where "h2 = h1(b := (h1 b)\<lparr>el_prev := Some v\<rparr>)"
  note hs = h2_def h1_def h0_def
  have "\<exists>s'. uncheckedAppend e v s = Some (v, s') \<and> els s' = h2 \<and> metas s' = (metas s)(m := metas s m + 1)
     \<and> lists s' = lists s \<and> lists_n s' = lists_n s \<and> els_n s' = els_n s \<and> metas_n s' = metas_n s"
    using l lk ne by (auto simp: uncheckedAppend_def upd_el_def upd_meta_def Let_def hs fun_eq_iff)
  then obtain s' where s': "uncheckedAppend e v s = Some (v, s')" "els s' = h2" "metas s' = (metas s)(m := metas s m + 1)"
     "lists s' = lists s" "lists_n s' = lists_n s" "els_n s' = els_n s" "metas_n s' = metas_n s" by blast
  have ring': "ring (\<lambda>e. el_next (els s' e)) (\<lambda>e. el_prev (els s' e)) h (xs @ v # ys)"
    by (rule ring_insert[OF r v, folded assms(2) b_def]) (use ne s'(2) in \<open>auto simp: hs\<close>)
  have fields: "el_list (h2 i) = (if i = v then Some l else el_list (els s i))" "el_ok (h2 i) = el_ok (els s i)"
      "el_item (h2 i) = el_item (els s i)" for i
    using ne by (auto simp: hs)
  have own: "i < els_n s' \<and> (\<exists>l. el_list (els s' i) = Some l \<and> l < lists_n s' \<and> lists s' l = \<lparr>l_head = Some h, l_meta = Some m\<rparr>)"
    if "i \<in> set (h # xs @ v # ys)" for i
  proof (cases "i = v")
    case True
    then show ?thesis using l assms(3) s' fields by auto
  next
    case False
    then have "i \<in> set (h # xs @ ys)" using that by auto
    then show ?thesis using assms(1) s' fields False by (auto simp: ring_ok_def)
  qed
  have ok: "ring_ok s' h m (xs @ v # ys)"
    unfolding ring_ok_def
  proof (intro conjI ballI)
    fix i assume "i \<in> set (h # xs @ v # ys)"
    from own[OF this] show "i < els_n s'" "\<exists>l. el_list (els s' i) = Some l \<and> l < lists_n s' \<and> lists s' l = \<lparr>l_head = Some h, l_meta = Some m\<rparr>"
      by auto
  qed (use ring' assms s' fields in \<open>auto simp: ring_ok_def\<close>)
  have "keeps s s' (insert v (set (h # xs @ ys))) {m}"
    using mem ne s' fields by (auto simp: keeps_def hs)
  with s' ok show ?thesis by blast
qed

lemma remove_ring:
  assumes "ring_ok s h m (xs @ x # ys)"
  shows "\<exists>s'. uncheckedRemove x s = Some ((), s') \<and> ring_ok s' h m (xs @ ys)
     \<and> el_list (els s' x) = None \<and> keeps s s' (set (h # xs @ x # ys)) {m}
     \<and> lists s' = lists s \<and> lists_n s' = lists_n s \<and> els_n s' = els_n s \<and> metas_n s' = metas_n s"
proof -
  define a b where "a = last (h # xs)" and "b = hd (ys @ [h])"
  have r: "ring (\<lambda>e. el_next (els s e)) (\<lambda>e. el_prev (els s e)) h (xs @ x # ys)"
    using assms(1) by (simp add: ring_ok_def)
  have "a \<in> set (h # xs)" unfolding a_def by (rule last_in_set) simp
  moreover have "b \<in> set (ys @ [h])" unfolding b_def by (rule hd_in_set) simp
  ultimately have mem: "a \<in> set (h # xs @ ys)" "b \<in> set (h # xs @ ys)" by auto
  have ne: "a \<noteq> x" "b \<noteq> x" "x \<notin> set (h # xs @ ys)" using mem r by (auto simp: ring_def)
  obtain l where l: "el_list (els s x) = Some l" "lists s l = \<lparr>l_head = Some h, l_meta = Some m\<rparr>" "l < lists_n s"
    using assms(1) by (auto simp: ring_ok_def)
  have lk: "el_next (els s x) = Some b" "el_prev (els s x) = Some a"
    using ring_at[OF r] by (auto simp: a_def b_def)
  define h1 where "h1 = (els s)(a := (els s a)\<lparr>el_next := Some b\<rparr>)"
  define h2 where "h2 = h1(b := (h1 b)\<lparr>el_prev := Some a\<rparr>)"
  define h3 where "h3 = h2(x := (h2 x)\<lparr>el_list := None\<rparr>)"
  note hs = h3_def h2_def h1_def
  have "\<exists>s'. uncheckedRemove x s = Some ((), s') \<and> els s' = h3 \<and> metas s' = (metas s)(m := metas s m - 1)
     \<and> lists s' = lists s \<and> lists_n s' = lists_n s \<and> els_n s' = els_n s \<and> metas_n s' = metas_n s"
    using l lk ne by (auto simp: uncheckedRemove_def upd_el_def upd_meta_def Let_def hs fun_eq_iff)
  then obtain s' where s': "uncheckedRemove x s = Some ((), s')" "els s' = h3" "metas s' = (metas s)(m := metas s m - 1)"
     "lists s' = lists s" "lists_n s' = lists_n s" "els_n s' = els_n s" "metas_n s' = metas_n s" by blast
  have ring': "ring (\<lambda>e. el_next (els s' e)) (\<lambda>e. el_prev (els s' e)) h (xs @ ys)"
    by (rule ring_remove[OF r, folded a_def b_def]) (use ne s'(2) in \<open>auto simp: hs\<close>)
  have fields: "el_list (h3 i) = (if i = x then None else el_list (els s i))" "el_ok (h3 i) = el_ok (els s i)"
      "el_item (h3 i) = el_item (els s i)" for i
    using ne by (auto simp: hs)
  have own: "i < els_n s' \<and> (\<exists>l. el_list (els s' i) = Some l \<and> l < lists_n s' \<and> lists s' l = \<lparr>l_head = Some h, l_meta = Some m\<rparr>)"
    if "i \<in> set (h # xs @ ys)" for i
  proof -
    have "i \<in> set (h # xs @ x # ys)" "i \<noteq> x" using that ne by auto
    then show ?thesis using assms(1) s' fields by (auto simp: ring_ok_def)
  qed
  have ok: "ring_ok s' h m (xs @ ys)"
    unfolding ring_ok_def
  proof (intro conjI ballI)
    fix i assume "i \<in> set (h # xs @ ys)"
    from own[OF this] show "i < els_n s'" "\<exists>l. el_list (els s' i) = Some l \<and> l < lists_n s' \<and> lists s' l = \<lparr>l_head = Some h, l_meta = Some m\<rparr>"
      by auto
  qed (use ring' assms s' fields in \<open>auto simp: ring_ok_def\<close>)
  have "keeps s s' (set (h # xs @ x # ys)) {m}"
    using mem s' fields by (auto simp: keeps_def hs)
  with s' ok fields show ?thesis by auto
qed

subsection \<open>Steps on one list\<close>

definition footE :: "'a lstore \<Rightarrow> nat \<Rightarrow> nat list \<Rightarrow> nat set" where
  "footE s l as = (case l_head (lists s l) of None \<Rightarrow> {} | Some h \<Rightarrow> set (h # as))"

definition footM :: "'a lstore \<Rightarrow> nat \<Rightarrow> nat set" where
  "footM s l = (case l_meta (lists s l) of None \<Rightarrow> {} | Some m \<Rightarrow> {m})"

definition loose :: "'a lstore \<Rightarrow> nat set" where
  "loose s = {e. el_list (els s e) = None}"

text \<open>
  \<open>lstep s s' l as as'\<close>: the list at \<open>l\<close> goes from the elements \<open>as\<close> to \<open>as'\<close>, and besides these
  elements only detached ones are touched.
\<close>

definition lstep :: "'a lstore \<Rightarrow> 'a lstore \<Rightarrow> nat \<Rightarrow> nat list \<Rightarrow> nat list \<Rightarrow> bool" where
  "lstep s s' l as as' \<longleftrightarrow> l_rep s l as \<and> l_rep s' l as' \<and> keeps s s' (footE s l as \<union> loose s) (footM s l)
     \<and> (\<forall>l' < lists_n s. l' \<noteq> l \<longrightarrow> lists s' l' = lists s l')
     \<and> (l_head (lists s l) = None \<longrightarrow> (\<forall>h. l_head (lists s' l) = Some h \<longrightarrow> els_n s \<le> h)
          \<and> (\<forall>m. l_meta (lists s' l) = Some m \<longrightarrow> metas_n s \<le> m))
     \<and> (\<forall>e \<in> set as'. e < els_n s \<longrightarrow> e \<in> set as \<or> e \<in> loose s)"

lemma lstep_refl: "l_rep s l as \<Longrightarrow> lstep s s l as as"
  by (auto simp: lstep_def keeps_refl l_rep_def)

lemma lstep_trans:
  assumes a: "lstep s s1 l as as1" and b: "lstep s1 s2 l as1 as2"
  shows "lstep s s2 l as as2"
proof -
  have n: "els_n s \<le> els_n s1" "metas_n s \<le> metas_n s1" "lists_n s \<le> lists_n s1"
    and ka: "keeps s s1 (footE s l as \<union> loose s) (footM s l)" using a by (auto simp: lstep_def keeps_def)
  have l: "l < lists_n s" using a by (simp add: lstep_def l_rep_def)
  have same: "lists s1 l = lists s l" if "l_head (lists s l) \<noteq> None" using ka l that by (simp add: keeps_def)
  have old: "e \<in> footE s l as \<union> loose s" if e: "e < els_n s" "e \<in> footE s1 l as1 \<union> loose s1" for e
  proof (rule ccontr)
    assume no: "e \<notin> footE s l as \<union> loose s"
    then have eq: "els s1 e = els s e" using ka e(1) by (simp add: keeps_def)
    then have "e \<notin> loose s1" using no by (simp add: loose_def)
    then obtain h1 where h1: "l_head (lists s1 l) = Some h1" "e = h1 \<or> e \<in> set as1"
      using e(2) by (auto simp: footE_def split: option.splits)
    show False
    proof (cases "e = h1")
      case True
      then show False using a h1(1) e(1) no same by (cases "l_head (lists s l)") (auto simp: lstep_def footE_def)
    next
      case False
      then have "e \<in> set as \<or> e \<in> loose s" using h1(2) a e(1) by (simp add: lstep_def)
      moreover have "e \<in> footE s l as" if "e \<in> set as"
        using that a by (auto simp: lstep_def l_rep_def footE_def)
      ultimately show False using no by blast
    qed
  qed
  have oldM: "m \<in> footM s l" if "m < metas_n s" "m \<in> footM s1 l" for m
  proof (cases "l_head (lists s l)")
    case None
    then show ?thesis using a that by (auto simp: lstep_def footM_def split: option.splits)
  next
    case (Some h)
    then show ?thesis using that same by (simp add: footM_def)
  qed
  have "keeps s s2 (footE s l as \<union> loose s) (footM s l)"
    by (rule keeps_trans[where ?s1.0 = s1 and E' = "footE s1 l as1 \<union> loose s1" and M' = "footM s1 l"])
      (use a b old oldM in \<open>auto simp: lstep_def not_less[symmetric]\<close>)
  moreover have "lists s2 l' = lists s l'" if "l' < lists_n s" "l' \<noteq> l" for l'
    using a b that n by (auto simp: lstep_def)
  moreover have "els_n s \<le> h" if "l_head (lists s l) = None" "l_head (lists s2 l) = Some h" for h
  proof (cases "l_head (lists s1 l)")
    case None
    then show ?thesis using b that n by (force simp: lstep_def)
  next
    case (Some h1)
    then have "lists s2 l = lists s1 l" using b l n by (auto simp: lstep_def keeps_def)
    then show ?thesis using a that Some by (auto simp: lstep_def)
  qed
  moreover have "metas_n s \<le> m" if "l_head (lists s l) = None" "l_meta (lists s2 l) = Some m" for m
  proof (cases "l_head (lists s1 l)")
    case None
    then show ?thesis using b that n by (force simp: lstep_def)
  next
    case (Some h1)
    then have "lists s2 l = lists s1 l" using b l n by (auto simp: lstep_def keeps_def)
    then show ?thesis using a that Some by (auto simp: lstep_def)
  qed
  moreover have "e \<in> set as \<or> e \<in> loose s" if e: "e \<in> set as2" "e < els_n s" for e
  proof (rule ccontr)
    assume no: "\<not> (e \<in> set as \<or> e \<in> loose s)"
    have e1: "e \<in> set as1 \<or> e \<in> loose s1" using b e n by (auto simp: lstep_def)
    have "e \<in> loose s1" using e1 a no e(2) by (auto simp: lstep_def)
    then have "e \<in> footE s l as" using old[OF e(2)] no by blast
    then obtain h where "l_head (lists s l) = Some h" "e = h" using no by (auto simp: footE_def split: option.splits)
    then have "l_head (lists s1 l) = Some e" using same by simp
    then have "el_list (els s1 e) \<noteq> None" using a ring_ok_list(4)[of s1 e _ as1 e] by (auto simp: lstep_def l_rep_def)
    then show False using \<open>e \<in> loose s1\<close> by (simp add: loose_def)
  qed
  ultimately show ?thesis using a b by (simp add: lstep_def)
qed

text \<open>Two lists that share neither sentinel nor counter.\<close>

definition apart :: "'a lstore \<Rightarrow> nat \<Rightarrow> nat \<Rightarrow> bool" where
  "apart s l l' \<longleftrightarrow> l \<noteq> l' \<and> (\<forall>h. l_head (lists s l) = Some h \<longrightarrow> l_head (lists s l') \<noteq> Some h)
     \<and> (\<forall>m. l_meta (lists s l) = Some m \<longrightarrow> l_meta (lists s l') \<noteq> Some m)"

lemma apart_sym: "apart s l l' \<Longrightarrow> apart s l' l"
  by (auto simp: apart_def)

lemma apart_foot:
  assumes "l_rep s l as" "l_rep s l' bs" "apart s l l'"
  shows "footE s l' bs \<inter> (footE s l as \<union> loose s) = {}" "footM s l' \<inter> footM s l = {}"
proof -
  show "footM s l' \<inter> footM s l = {}" using assms(3) by (auto simp: apart_def footM_def split: option.splits)
  show "footE s l' bs \<inter> (footE s l as \<union> loose s) = {}"
  proof (cases "l_head (lists s l')")
    case None
    then show ?thesis by (simp add: footE_def)
  next
    case (Some h')
    then obtain m' where r': "ring_ok s h' m' bs" using assms(2) by (auto simp: l_rep_def)
    have "e \<notin> loose s" if "e \<in> set (h' # bs)" for e
      using ring_ok_list(4)[OF r' that] by (simp add: loose_def)
    moreover have "e \<notin> footE s l as" if e: "e \<in> set (h' # bs)" for e
    proof
      assume f: "e \<in> footE s l as"
      then obtain h m where h: "l_head (lists s l) = Some h" "ring_ok s h m as" "e \<in> set (h # as)"
        using assms(1) by (auto simp: footE_def l_rep_def split: option.splits)
      have "h = h'" using ring_ok_list(5)[OF h(2,3)] ring_ok_list(5)[OF r' e] by simp
      then show False using assms(3) Some h(1) by (auto simp: apart_def)
    qed
    ultimately show ?thesis using Some by (auto simp: footE_def)
  qed
qed

lemma lstep_frame:
  assumes st: "lstep s s' l as as'" and "l_rep s l' bs" "apart s l l'"
  shows "l_rep s' l' bs" "l_vals s' bs = l_vals s bs" "apart s' l l'"
proof -
  have l': "l' < lists_n s" "l' \<noteq> l" using assms(2,3) by (auto simp: l_rep_def apart_def)
  have same: "lists s' l' = lists s l'" using st l' by (simp add: lstep_def)
  have k: "keeps s s' (footE s l as \<union> loose s) (footM s l)" using st by (simp add: lstep_def)
  have f: "footE s l' bs \<inter> (footE s l as \<union> loose s) = {}" "footM s l' \<inter> footM s l = {}"
    using apart_foot[OF _ assms(2,3)] st by (auto simp: lstep_def)
  show "l_rep s' l' bs"
  proof (cases "l_head (lists s l')")
    case None
    then show ?thesis using assms(2) same k by (auto simp: l_rep_def keeps_def)
  next
    case (Some h)
    then obtain m where m: "lists s l' = \<lparr>l_head = Some h, l_meta = Some m\<rparr>" "ring_ok s h m bs"
      using assms(2) by (auto simp: l_rep_def)
    then have "ring_ok s' h m bs"
      using ring_ok_keep[OF m(2) k] f by (simp add: footE_def footM_def)
    then show ?thesis using m(1) same l'(1) k by (auto simp: l_rep_def keeps_def)
  qed
  have "e < els_n s" if "e \<in> set bs" for e
    using assms(2) that ring_ok_el(1)[of s _ _ bs e] by (auto simp: l_rep_def)
  then show "l_vals s' bs = l_vals s bs" using vals_keep[OF k] by blast
  show "apart s' l l'"
  proof (cases "l_head (lists s l)")
    case None
    have "h < els_n s" if "l_head (lists s l') = Some h" for h
      using assms(2) that ring_ok_el(1)[of s h _ bs h] by (auto simp: l_rep_def)
    moreover have "m < metas_n s" if "l_meta (lists s l') = Some m" for m
      using assms(2) that by (auto simp: l_rep_def ring_ok_def)
    ultimately show ?thesis
      using st None same l'(2) by (fastforce simp: lstep_def apart_def)
  next
    case (Some h)
    then have "lists s' l = lists s l" using st by (auto simp: lstep_def l_rep_def keeps_def)
    then show ?thesis using assms(3) same by (simp add: apart_def)
  qed
qed

subsection \<open>The operations as steps\<close>

lemma l_rep_init: "l_rep s l as \<Longrightarrow> l_head (lists s l) = Some h \<Longrightarrow> \<exists>m. lists s l = \<lparr>l_head = Some h, l_meta = Some m\<rparr> \<and> ring_ok s h m as"
  by (auto simp: l_rep_def)

lemma l_repI: "l < lists_n s \<Longrightarrow> lists s l = \<lparr>l_head = Some h, l_meta = Some m\<rparr> \<Longrightarrow> ring_ok s h m as \<Longrightarrow> l_rep s l as"
  by (auto simp: l_rep_def)

text \<open>A step inside a list that has its sentinel.\<close>

lemma lstepI:
  assumes "l_rep s l as" "lists s l = \<lparr>l_head = Some h, l_meta = Some m\<rparr>" "ring_ok s' h m as'"
    and "keeps s s' E {m}" "E \<subseteq> set (h # as) \<union> loose s" "lists s' = lists s" "lists_n s' = lists_n s"
    and "\<And>e. e \<in> set as' \<Longrightarrow> e < els_n s \<Longrightarrow> e \<in> set as \<or> e \<in> loose s"
  shows "lstep s s' l as as'"
  unfolding lstep_def
proof (intro conjI)
  show "l_rep s' l as'" using assms(1,2,3,6,7) by (intro l_repI) (auto simp: l_rep_def)
  show "keeps s s' (footE s l as \<union> loose s) (footM s l)"
    by (rule keeps_mono[OF assms(4)]) (use assms(2,5) in \<open>auto simp: footE_def footM_def\<close>)
qed (use assms in auto)

lemma new_el_step:
  assumes "l_rep s l as" "new_el x s = (v, s1)"
  shows "lstep s s1 l as as" "v = els_n s" "els s1 v = x" "v < els_n s1" "v \<notin> set as" "lists s1 = lists s"
    "keeps s s1 {} {}" "els_n s1 = els_n s + 1"
proof -
  have e: "v = els_n s" "els s1 = (els s)(v := x)" "els_n s1 = els_n s + 1" "lists s1 = lists s" "lists_n s1 = lists_n s"
      "metas s1 = metas s" "metas_n s1 = metas_n s"
    using assms(2) by (auto simp: new_el_def)
  have k: "keeps s s1 {} {}" using e by (auto simp: keeps_def)
  have "l_rep s1 l as"
    using assms(1) e ring_ok_keep[OF _ k] by (auto simp: l_rep_def)
  then show "lstep s s1 l as as"
    using assms(1) e keeps_mono[OF k] by (auto simp: lstep_def l_rep_def)
  show "v \<notin> set as" using assms(1) e ring_ok_el(1)[of s _ _ as v] by (auto simp: l_rep_def)
  show "v = els_n s" "els s1 v = x" "v < els_n s1" "lists s1 = lists s" "els_n s1 = els_n s + 1" using e by auto
  show "keeps s s1 {} {}" by (rule k)
qed

lemma setup_step:
  assumes "l_rep s l as" "l_head (lists s l) = None"
  shows "as = [] \<and> lists (uncheckedSetup l s) l = \<lparr>l_head = Some (els_n s), l_meta = Some (metas_n s)\<rparr>
    \<and> ring_ok (uncheckedSetup l s) (els_n s) (metas_n s) [] \<and> lstep s (uncheckedSetup l s) l as []
    \<and> keeps s (uncheckedSetup l s) {} {}"
proof -
  let ?s = "uncheckedSetup l s" and ?h = "els_n s" and ?m = "metas_n s"
  have as: "as = []" "l < lists_n s" using assms by (auto simp: l_rep_def)
  have f: "els ?s = (els s)(?h := \<lparr>el_next = Some ?h, el_prev = Some ?h, el_list = Some l, el_ok = False, el_item = 0\<rparr>)"
      "els_n ?s = ?h + 1" "metas ?s = (metas s)(?m := 0)" "metas_n ?s = ?m + 1"
      "lists ?s = (lists s)(l := \<lparr>l_head = Some ?h, l_meta = Some ?m\<rparr>)" "lists_n ?s = lists_n s"
    by (simp_all add: uncheckedSetup_def new_el_def upd_el_def Let_def)
  have ring: "ring_ok ?s ?h ?m []"
    using as by (auto simp: ring_ok_def f ring_def)
  have k: "keeps s ?s {} {}" using assms(2) by (auto simp: keeps_def f)
  then have "lstep s ?s l as []"
    using assms as ring keeps_mono by (fastforce simp: lstep_def l_rep_def f)
  with as ring k show ?thesis by (simp add: f)
qed

lemma root_step:
  assumes "l_rep s l as"
  shows "\<exists>h m s1. List_root l s = Some (h, s1) \<and> lists s1 l = \<lparr>l_head = Some h, l_meta = Some m\<rparr>
    \<and> ring_ok s1 h m as \<and> lstep s s1 l as as \<and> (as \<noteq> [] \<longrightarrow> s1 = s) \<and> keeps s s1 {} {}"
proof (cases "l_head (lists s l)")
  case None
  then show ?thesis using setup_step[OF assms None] by (auto simp: List_root_def Let_def)
next
  case (Some h)
  then show ?thesis using l_rep_init[OF assms Some] lstep_refl[OF assms] keeps_refl by (auto simp: List_root_def Let_def)
qed

lemma append_step:
  assumes "l_rep s l (xs @ ys)" "lists s l = \<lparr>l_head = Some h, l_meta = Some m\<rparr>" "e = last (h # xs)"
    and "v < els_n s" "v \<in> loose s" "el_ok (els s v)"
  shows "\<exists>s'. Element_Append e (Some v) s = Some (v, s') \<and> lstep s s' l (xs @ ys) (xs @ v # ys) \<and> lists s' = lists s
    \<and> els_n s' = els_n s \<and> (\<forall>u \<in> loose s. u \<noteq> v \<and> u < els_n s \<longrightarrow> u \<in> loose s')"
proof -
  have r: "ring_ok s h m (xs @ ys)" using assms(1,2) by (auto simp: l_rep_def)
  have "e \<in> set (h # xs)" unfolding assms(3) by (rule last_in_set) simp
  then have "e \<in> set (h # xs @ ys)" by auto
  then have c: "Element_appendable e (Some v) s" using ring_ok_list(1)[OF r] assms(6) by (simp add: Element_appendable_def)
  obtain s' where s': "uncheckedAppend e v s = Some (v, s')" "ring_ok s' h m (xs @ v # ys)"
     "keeps s s' (insert v (set (h # xs @ ys))) {m}" "lists s' = lists s" "lists_n s' = lists_n s" "els_n s' = els_n s"
    using append_ring[OF r assms(3,4)] assms(5,6) by (auto simp: loose_def)
  have "lstep s s' l (xs @ ys) (xs @ v # ys)"
    by (rule lstepI[OF assms(1,2) s'(2,3) _ s'(4,5)]) (use assms(5) in auto)
  moreover have "Element_Append e (Some v) s = Some (v, s')"
    using c s'(1) assms(5) by (simp add: Element_Append_def Element_isDetatched_def loose_def)
  moreover have "u \<in> loose s'" if "u \<in> loose s" "u \<noteq> v" "u < els_n s" for u
  proof -
    have "u \<notin> set (h # xs @ ys)" using that(1) ring_ok_list(4)[OF r, of u] unfolding loose_def by blast
    then show ?thesis using s'(3) that by (auto simp: loose_def keeps_def)
  qed
  ultimately show ?thesis using s'(4,6) by blast
qed

lemma push_step:
  assumes "l_rep s l (xs @ ys)" "lists s l = \<lparr>l_head = Some h, l_meta = Some m\<rparr>" "e = last (h # xs)"
  shows "\<exists>s'. Element_Push e x s = Some (els_n s, s') \<and> lstep s s' l (xs @ ys) (xs @ els_n s # ys)
    \<and> el_item (els s' (els_n s)) = x \<and> els_n s' = els_n s + 1"
proof -
  obtain v s1 where n: "NewElement x s = (v, s1)" by fastforce
  note w = new_el_step[OF assms(1) n[unfolded NewElement_def]]
  have rep: "l_rep s1 l (xs @ ys)" using w(1) by (simp add: lstep_def)
  obtain s' where s': "Element_Append e (Some v) s1 = Some (v, s')" "lstep s1 s' l (xs @ ys) (xs @ v # ys)"
      "els_n s' = els_n s1"
    using append_step[OF rep _ assms(3), of m v] assms(2) w by (auto simp: loose_def)
  have "el_item (els s' v) = x" using s'(2) w(3,4) by (auto simp: lstep_def keeps_def)
  with s' n w(2,8) lstep_trans[OF w(1) s'(2)] show ?thesis by (auto simp: Element_Push_def)
qed

lemma pop_step:
  assumes "l_rep s l (xs @ x # ys)"
  shows "\<exists>s'. List_pop l (Some x) s = Some (Some x, s') \<and> Element_Remove x s = Some (True, s')
    \<and> lstep s s' l (xs @ x # ys) (xs @ ys)
    \<and> x \<in> loose s' \<and> x < els_n s' \<and> el_ok (els s' x) \<and> el_item (els s' x) = el_item (els s x)
    \<and> lists s' = lists s \<and> els_n s' = els_n s \<and> (\<forall>e \<in> loose s. e < els_n s \<longrightarrow> e \<in> loose s')"
proof -
  obtain h m where l: "lists s l = \<lparr>l_head = Some h, l_meta = Some m\<rparr>" "ring_ok s h m (xs @ x # ys)"
    using assms by (auto simp: l_rep_def)
  have x: "x \<in> set (h # xs @ x # ys)" "x \<noteq> h" using l(2) by (auto simp: ring_ok_def ring_def)
  have rm: "Element_removable x s" using ring_ok_list[OF l(2) x(1)] x(2) by (simp add: Element_removable_def)
  obtain s' where s': "uncheckedRemove x s = Some ((), s')" "ring_ok s' h m (xs @ ys)" "el_list (els s' x) = None"
     "keeps s s' (set (h # xs @ x # ys)) {m}" "lists s' = lists s" "lists_n s' = lists_n s" "els_n s' = els_n s"
    using remove_ring[OF l(2)] by blast
  have st: "lstep s s' l (xs @ x # ys) (xs @ ys)"
    by (rule lstepI[OF assms l(1) s'(2,4) _ s'(5,6)]) auto
  have xo: "x < els_n s" "el_ok (els s x)" using l(2) by (auto simp: ring_ok_def)
  have p: "List_pop l (Some x) s = Some (Some x, s')"
    using rm s'(1) ring_ok_list(4,5)[OF l(2) x(1)] l(1) by (auto simp: List_pop_def)
  have q: "Element_Remove x s = Some (True, s')" using rm s'(1) by (simp add: Element_Remove_def)
  have "e \<notin> set (h # xs @ x # ys)" if "e \<in> loose s" for e
    using that ring_ok_list(4)[OF l(2), of e] unfolding loose_def by blast
  then have lo: "\<forall>e \<in> loose s. e < els_n s \<longrightarrow> e \<in> loose s'" using s'(4) by (auto simp: loose_def keeps_def)
  have "x \<in> loose s'" "x < els_n s'" "el_ok (els s' x)" "el_item (els s' x) = el_item (els s x)"
    using s'(3,4,7) xo by (auto simp: loose_def keeps_def)
  then show ?thesis using p q st s'(5,7) lo by blast
qed

text \<open>The operations of lists.\<close>

lemma PushBack_step:
  assumes "l_rep s l as"
  shows "\<exists>s' v. List_PushBack l x s = Some ((), s') \<and> lstep s s' l as (as @ [v]) \<and> l_vals s' (as @ [v]) = l_vals s as @ [x]"
proof -
  obtain h m s1 where r: "List_root l s = Some (h, s1)" "lists s1 l = \<lparr>l_head = Some h, l_meta = Some m\<rparr>"
      "ring_ok s1 h m as" "lstep s s1 l as as" using root_step[OF assms] by blast
  have rep: "l_rep s1 l (as @ [])" using r(4) by (simp add: lstep_def)
  have b: "el_prev (els s1 h) = Some (last (h # as))"
    using ring_ok_first[OF r(3)] by blast
  obtain s' where s': "Element_Push (last (h # as)) x s1 = Some (els_n s1, s')"
      "lstep s1 s' l as (as @ [els_n s1])" "el_item (els s' (els_n s1)) = x"
    using push_step[OF rep r(2) refl, of x] by auto
  have st: "lstep s s' l as (as @ [els_n s1])" by (rule lstep_trans[OF r(4) s'(2)])
  have "\<forall>e \<in> set as. e < els_n s" using assms ring_ok_el(1) by (fastforce simp: l_rep_def)
  then have "l_vals s' as = l_vals s as" using st by (auto simp: lstep_def keeps_def l_vals_def)
  with st s' r b show ?thesis by (auto simp: List_PushBack_def List_Back_def l_vals_def)
qed

lemma PushFront_step:
  assumes "l_rep s l as"
  shows "\<exists>s' v. List_PushFront l x s = Some ((), s') \<and> lstep s s' l as (v # as) \<and> l_vals s' (v # as) = x # l_vals s as"
proof -
  obtain h m s1 where r: "List_root l s = Some (h, s1)" "lists s1 l = \<lparr>l_head = Some h, l_meta = Some m\<rparr>"
      "ring_ok s1 h m as" "lstep s s1 l as as" using root_step[OF assms] by blast
  have rep: "l_rep s1 l ([] @ as)" using r(4) by (simp add: lstep_def)
  obtain s' where s': "Element_Push h x s1 = Some (els_n s1, s')"
      "lstep s1 s' l as (els_n s1 # as)" "el_item (els s' (els_n s1)) = x"
    using push_step[OF rep r(2), of h x] by auto
  have st: "lstep s s' l as (els_n s1 # as)" by (rule lstep_trans[OF r(4) s'(2)])
  have "\<forall>e \<in> set as. e < els_n s" using assms ring_ok_el(1) by (fastforce simp: l_rep_def)
  then have "l_vals s' as = l_vals s as" using st by (auto simp: lstep_def keeps_def l_vals_def)
  with st s' r show ?thesis by (auto simp: List_PushFront_def l_vals_def)
qed

lemma Back_step:
  assumes "l_rep s l as"
  shows "\<exists>h m s1. List_Back l s = Some (Some (last (h # as)), s1) \<and> lists s1 l = \<lparr>l_head = Some h, l_meta = Some m\<rparr>
    \<and> ring_ok s1 h m as \<and> lstep s s1 l as as \<and> (as \<noteq> [] \<longrightarrow> s1 = s) \<and> keeps s s1 {} {}"
proof -
  obtain h m s1 where r: "List_root l s = Some (h, s1)" "lists s1 l = \<lparr>l_head = Some h, l_meta = Some m\<rparr>"
      "ring_ok s1 h m as" "lstep s s1 l as as" "as \<noteq> [] \<longrightarrow> s1 = s" "keeps s s1 {} {}" using root_step[OF assms] by blast
  with ring_ok_first[OF r(3)] show ?thesis by (auto simp: List_Back_def)
qed

lemma Front_step:
  assumes "l_rep s l as"
  shows "\<exists>h m s1. List_Front l s = Some (Some (hd (as @ [h])), s1) \<and> lists s1 l = \<lparr>l_head = Some h, l_meta = Some m\<rparr>
    \<and> ring_ok s1 h m as \<and> lstep s s1 l as as \<and> (as \<noteq> [] \<longrightarrow> s1 = s)"
proof -
  obtain h m s1 where r: "List_root l s = Some (h, s1)" "lists s1 l = \<lparr>l_head = Some h, l_meta = Some m\<rparr>"
      "ring_ok s1 h m as" "lstep s s1 l as as" "as \<noteq> [] \<longrightarrow> s1 = s" using root_step[OF assms] by blast
  with ring_ok_first[OF r(3)] show ?thesis by (auto simp: List_Front_def)
qed

lemma PopFront_step:
  assumes "l_rep s l (x # xs)"
  shows "\<exists>s'. List_PopFront l s = Some (Some x, s') \<and> lstep s s' l (x # xs) xs \<and> x \<in> loose s' \<and> x < els_n s'
    \<and> el_ok (els s' x) \<and> el_item (els s' x) = el_item (els s x) \<and> l_vals s' xs = l_vals s xs
    \<and> lists s' = lists s \<and> els_n s' = els_n s \<and> (\<forall>e \<in> loose s. e < els_n s \<longrightarrow> e \<in> loose s')"
proof -
  obtain s1 h where f: "List_Front l s = Some (Some (hd ((x # xs) @ [h])), s1)" "s1 = s" using Front_step[OF assms] by auto
  obtain s' where s': "List_pop l (Some x) s = Some (Some x, s')" "lstep s s' l (x # xs) xs" "x \<in> loose s'" "x < els_n s'"
    "el_ok (els s' x)" "el_item (els s' x) = el_item (els s x)" "lists s' = lists s" "els_n s' = els_n s"
    "\<forall>e \<in> loose s. e < els_n s \<longrightarrow> e \<in> loose s'"
    using pop_step[of s l "[]" x xs] assms by auto
  have "\<forall>e \<in> set xs. e < els_n s" using assms ring_ok_el(1) by (fastforce simp: l_rep_def)
  then have "l_vals s' xs = l_vals s xs" using s'(2) by (auto simp: lstep_def keeps_def l_vals_def)
  with f s' show ?thesis by (auto simp: List_PopFront_def)
qed

lemma PopBack_step:
  assumes "l_rep s l (xs @ [x])"
  shows "\<exists>s'. List_PopBack l s = Some (Some x, s') \<and> lstep s s' l (xs @ [x]) xs \<and> x \<in> loose s' \<and> x < els_n s'
    \<and> el_ok (els s' x) \<and> el_item (els s' x) = el_item (els s x) \<and> l_vals s' xs = l_vals s xs"
proof -
  obtain s1 h where f: "List_Back l s = Some (Some (last (h # xs @ [x])), s1)" "s1 = s" using Back_step[OF assms] by auto
  obtain s' where s': "List_pop l (Some x) s = Some (Some x, s')" "lstep s s' l (xs @ [x]) xs" "x \<in> loose s'" "x < els_n s'"
    "el_ok (els s' x)" "el_item (els s' x) = el_item (els s x)"
    using pop_step[of s l xs x "[]"] assms by auto
  have "\<forall>e \<in> set xs. e < els_n s" using assms ring_ok_el(1) by (fastforce simp: l_rep_def)
  then have "l_vals s' xs = l_vals s xs" using s'(2) by (auto simp: lstep_def keeps_def l_vals_def)
  with f s' show ?thesis by (auto simp: List_PopBack_def)
qed

text \<open>On an empty list both pops give a fresh element that is not \<open>Ok\<close>.\<close>

lemma Pop_empty_step:
  assumes "l_rep s l []"
  shows "\<exists>s' v. List_PopFront l s = Some (Some v, s') \<and> lstep s s' l [] [] \<and> \<not> Element_Ok (Some v) s' \<and> Element_Value (Some v) s' = 0"
    and "\<exists>s' v. List_PopBack l s = Some (Some v, s') \<and> lstep s s' l [] [] \<and> \<not> Element_Ok (Some v) s' \<and> Element_Value (Some v) s' = 0"
proof -
  obtain h m s1 where r: "List_root l s = Some (h, s1)" "lists s1 l = \<lparr>l_head = Some h, l_meta = Some m\<rparr>"
      "ring_ok s1 h m []" "lstep s s1 l [] []" using root_step[OF assms] by blast
  have e: "el_next (els s1 h) = Some h" "el_prev (els s1 h) = Some h" using ring_ok_first[OF r(3)] by auto
  have nr: "\<not> Element_removable h s1" using ring_ok_list(3)[OF r(3), of h] by (simp add: Element_removable_def)
  obtain v s2 where n: "new_el empty_el s1 = (v, s2)" by fastforce
  have rep: "l_rep s1 l []" using r(4) by (simp add: lstep_def)
  note w = new_el_step[OF rep n]
  have "\<not> Element_Ok (Some v) s2" "Element_Value (Some v) s2 = 0" using w(3) by (simp_all add: Element_Ok_def Element_Value_def empty_el_def)
  with lstep_trans[OF r(4) w(1)] r e nr n
  show "\<exists>s' v. List_PopFront l s = Some (Some v, s') \<and> lstep s s' l [] [] \<and> \<not> Element_Ok (Some v) s' \<and> Element_Value (Some v) s' = 0"
    and "\<exists>s' v. List_PopBack l s = Some (Some v, s') \<and> lstep s s' l [] [] \<and> \<not> Element_Ok (Some v) s' \<and> Element_Value (Some v) s' = 0"
    by (auto simp: List_PopFront_def List_PopBack_def List_Front_def List_Back_def List_pop_def)
qed

subsection \<open>Concrete lists\<close>

definition empty_store :: "'a lstore" where
  "empty_store = \<lparr>els = (\<lambda>_. undefined), els_n = 0, lists = (\<lambda>_. \<lparr>l_head = None, l_meta = None\<rparr>), lists_n = 1,
     metas = (\<lambda>_. 0), metas_n = 0\<rparr>"

definition list_of :: "'a::zero list \<Rightarrow> 'a lstore option" where
  "list_of vs = fold (\<lambda>v so. do { s \<leftarrow> so; (_, s') \<leftarrow> List_PushBack 0 v s; Some s' }) vs (Some empty_store)"

text \<open>The values a client sees when it walks the list from the front, \<open>n\<close> steps at most.\<close>

definition forward :: "nat \<Rightarrow> nat \<Rightarrow> 'a lstore \<Rightarrow> 'a list" where
  "forward n l s = (case l_head (lists s l) of None \<Rightarrow> []
     | Some h \<Rightarrow> map (\<lambda>e. el_item (els s e)) (walk (\<lambda>e. el_next (els s e)) h n h))"

end
