(* ===== verification/DtListSort.thy ===== *)
theory DtListSort
  imports DtListLaws
begin

text \<open>
  Sorting of \<open>src/dt/list.go\<close>: several lists in one store.  \<open>frames s s' L L'\<close> says that a step that
  works on the lists \<open>L\<close> leaves every other list alone, and that the lists \<open>L'\<close> it ends with share
  nothing with it.  The laws: \<open>SortQuick\<close> keeps the elements and is the stable sort, \<open>SortMerge\<close> leaves
  a sorted permutation of the values.
\<close>

definition items_same :: "'a lstore \<Rightarrow> 'a lstore \<Rightarrow> bool" where
  "items_same s s' \<longleftrightarrow> els_n s \<le> els_n s' \<and> lists_n s \<le> lists_n s' \<and> (\<forall>e < els_n s. el_item (els s' e) = el_item (els s e))"

definition frames :: "'a lstore \<Rightarrow> 'a lstore \<Rightarrow> nat set \<Rightarrow> nat set \<Rightarrow> bool" where
  "frames s s' L L' \<longleftrightarrow> items_same s s' \<and>
     (\<forall>l2 cs. l_rep s l2 cs \<and> (\<forall>l \<in> L. apart s l l2) \<longrightarrow>
        l_rep s' l2 cs \<and> lists s' l2 = lists s l2 \<and> (\<forall>l \<in> L'. apart s' l l2))"

lemma items_same_trans: "items_same s s1 \<Longrightarrow> items_same s1 s2 \<Longrightarrow> items_same s s2"
  by (auto simp: items_same_def)

lemma frames_trans: "frames s s1 L L1 \<Longrightarrow> frames s1 s2 L1 L2 \<Longrightarrow> frames s s2 L L2"
  unfolding frames_def using items_same_trans by metis

lemma frames_refl: "frames s s L L"
  by (simp add: frames_def items_same_def)

lemma frames_drop: "frames s s' L L' \<Longrightarrow> L'' \<subseteq> L' \<Longrightarrow> frames s s' L L''"
  unfolding frames_def by blast

lemma frames_more: "frames s s' L L' \<Longrightarrow> L \<subseteq> K \<Longrightarrow> frames s s' K L'"
  unfolding frames_def by blast

text \<open>A list that is left alone can be counted among those the step works on.\<close>

lemma frames_extra:
  assumes "frames s s' L L'" "l_rep s k bs" "\<forall>l \<in> L. apart s l k"
  shows "frames s s' (insert k L) (insert k L')"
proof -
  have k: "lists s' k = lists s k" using assms unfolding frames_def by blast
  have "apart s' k l2" if "l_rep s l2 cs" "\<forall>l \<in> insert k L. apart s l l2" for l2 cs
  proof -
    have "lists s' l2 = lists s l2" using assms(1) that unfolding frames_def by blast
    then show ?thesis using that(2) k by (simp add: apart_def)
  qed
  then show ?thesis using assms(1) unfolding frames_def by blast
qed

lemma l_rep_mem: "l_rep s l as \<Longrightarrow> e \<in> set as \<Longrightarrow> e < els_n s"
  using ring_ok_el(1) by (fastforce simp: l_rep_def)

lemma vals_same: "items_same s s' \<Longrightarrow> (\<And>e. e \<in> set as \<Longrightarrow> e < els_n s) \<Longrightarrow> l_vals s' as = l_vals s as"
  by (auto simp: items_same_def l_vals_def)

lemma l_vals_append: "l_vals s (as @ bs) = l_vals s as @ l_vals s bs"
  by (simp add: l_vals_def)

lemma lstep_items: "lstep s s' l as as' \<Longrightarrow> items_same s s'"
  by (auto simp: lstep_def keeps_def items_same_def)

lemma lstep_frames1:
  assumes "lstep s s' l as as'"
  shows "frames s s' {l} {l}"
proof -
  have "lists s' l2 = lists s l2" if "l_rep s l2 cs" "apart s l l2" for l2 cs
    using assms that by (auto simp: lstep_def l_rep_def apart_def)
  then show ?thesis using lstep_frame[OF assms] lstep_items[OF assms] unfolding frames_def by blast
qed

text \<open>A step on one of two lists.\<close>

lemma lstep_frames2:
  assumes "lstep s s' l as as'" "l_rep s k bs" "apart s l k"
  shows "frames s s' {l, k} {l, k}" "l_rep s' k bs" "apart s' l k" "l_rep s' l as'"
proof -
  show "l_rep s' k bs" "apart s' l k" using lstep_frame[OF assms] by auto
  show "l_rep s' l as'" using assms(1) by (simp add: lstep_def)
  show "frames s s' {l, k} {l, k}"
    using frames_extra[OF lstep_frames1[OF assms(1)] assms(2)] assms(3) by (simp add: insert_commute)
qed

lemma new_list_frames:
  assumes "new_list s = (out, s1)"
  shows "l_rep s1 out []" "frames s s1 L (insert out L)" "els_n s1 = els_n s"
    "l_rep s l as \<Longrightarrow> l_rep s1 l as \<and> apart s1 l out"
proof -
  have n: "out = lists_n s" "lists s1 = (lists s)(out := \<lparr>l_head = None, l_meta = None\<rparr>)" "lists_n s1 = lists_n s + 1"
      "els s1 = els s" "els_n s1 = els_n s" "metas s1 = metas s" "metas_n s1 = metas_n s"
    using assms by (auto simp: new_list_def)
  have k: "keeps s s1 {} {}" using n by (auto simp: keeps_def)
  have rep: "l_rep s1 l as" if "l_rep s l as" for l as
    using that n ring_ok_keep[OF _ k] by (auto simp: l_rep_def)
  have ap: "apart s1 out l" if "l_rep s l as" for l as using that n by (auto simp: apart_def l_rep_def)
  have ap2: "apart s1 l l2" if "apart s l l2" "l_rep s l2 as" for l l2 as
    using that n by (auto simp: apart_def l_rep_def)
  show "l_rep s1 out []" using n by (auto simp: l_rep_def)
  show "els_n s1 = els_n s" by (rule n)
  show "frames s s1 L (insert out L)"
    unfolding frames_def
  proof (intro conjI allI impI ballI)
    show "items_same s s1" using n by (simp add: items_same_def)
  next
    fix l2 cs assume a: "l_rep s l2 cs \<and> (\<forall>l \<in> L. apart s l l2)"
    then show "l_rep s1 l2 cs" "lists s1 l2 = lists s l2" using rep n by (auto simp: l_rep_def)
    show "apart s1 l l2" if "l \<in> insert out L" for l using a that ap ap2 by blast
  qed
  show "l_rep s l as \<Longrightarrow> l_rep s1 l as \<and> apart s1 l out" using rep ap apart_sym by blast
qed

text \<open>The length that the code reads is the number of elements.\<close>

lemma Len_rep: "l_rep s l as \<Longrightarrow> List_Len (Some l) s = int (length as)"
  by (auto simp: l_rep_def List_Len_def ring_ok_def)

subsection \<open>Moving the first element of one list to the end of another\<close>

definition transfer :: "nat \<Rightarrow> nat \<Rightarrow> 'a::zero lstore \<Rightarrow> 'a lstore option" where
  "transfer l out s =
     do { (b, s1) \<leftarrow> List_Back out s; e \<leftarrow> b; (p, s2) \<leftarrow> List_PopFront l s1; (_, s3) \<leftarrow> Element_Append e p s2; Some s3 }"

lemma transfer_step:
  assumes "l_rep s l (x # xs)" "l_rep s out ys" "apart s l out"
  shows "\<exists>s'. transfer l out s = Some s' \<and> l_rep s' l xs \<and> l_rep s' out (ys @ [x]) \<and> apart s' l out
     \<and> frames s s' {l, out} {l, out}"
proof -
  obtain h m s1 where b: "List_Back out s = Some (Some (last (h # ys)), s1)"
      "lists s1 out = \<lparr>l_head = Some h, l_meta = Some m\<rparr>" "lstep s s1 out ys ys"
    using Back_step[OF assms(2)] by blast
  note f1 = lstep_frames2[OF b(3) assms(1) apart_sym[OF assms(3)]]
  obtain s2 where p: "List_PopFront l s1 = Some (Some x, s2)" "lstep s1 s2 l (x # xs) xs" "x \<in> loose s2" "x < els_n s2"
      "el_ok (els s2 x)" "lists s2 = lists s1"
    using PopFront_step[OF f1(2)] by blast
  note f2 = lstep_frames2[OF p(2) f1(4) apart_sym[OF f1(3)]]
  have rep2: "l_rep s2 out (ys @ [])" using f2(2) by simp
  obtain s3 where a: "Element_Append (last (h # ys)) (Some x) s2 = Some (x, s3)" "lstep s2 s3 out ys (ys @ [x])"
    using append_step[OF rep2 _ refl p(4,3,5), of h m] b(2) p(6) by auto
  note f3 = lstep_frames2[OF a(2) f2(4) apart_sym[OF f2(3)]]
  have run: "transfer l out s = Some s3" using b(1) p(1) a(1) by (simp add: transfer_def)
  have c: "{out, l} = {l, out}" by auto
  have "frames s s3 {l, out} {l, out}"
    using frames_trans[OF frames_trans[OF f1(1)[unfolded c] f2(1)] f3(1)[unfolded c]] .
  with run f3 apart_sym show ?thesis by blast
qed

lemma List_split_loop_transfer:
  "List_split_loop l out tot s =
     (if List_Len (Some l) s > quot tot 2 then do { s' \<leftarrow> transfer l out s; List_split_loop l out tot s' } else Some s)"
  by (subst List_split_loop.simps) (simp add: transfer_def split: Option.bind_splits)

lemma split_loop_step:
  assumes "l_rep s l as" "l_rep s out ys" "apart s l out" "0 \<le> k" "quot tot 2 = k" "k \<le> int (length as)"
  shows "\<exists>s'. List_split_loop l out tot s = Some s' \<and> l_rep s' l (drop (length as - nat k) as)
     \<and> l_rep s' out (ys @ take (length as - nat k) as) \<and> apart s' l out \<and> frames s s' {l, out} {l, out}"
  using assms(1-3,6)
proof (induction "length as - nat k" arbitrary: s as ys)
  case 0
  then have "int (length as) = k" using assms(4) by simp
  with 0 assms(5) show ?case
    by (subst List_split_loop_transfer) (auto simp: Len_rep frames_refl)
next
  case (Suc n)
  then obtain x xs where as: "as = x # xs" by (cases as) auto
  obtain s1 where t: "transfer l out s = Some s1" "l_rep s1 l xs" "l_rep s1 out (ys @ [x])" "apart s1 l out"
      "frames s s1 {l, out} {l, out}"
    using transfer_step[of s l x xs out ys] Suc.prems as by auto
  have n: "n = length xs - nat k" "k \<le> int (length xs)" "k < int (length as)" using Suc.hyps(2) Suc.prems(4) as by auto
  obtain s' where s': "List_split_loop l out tot s1 = Some s'" "l_rep s' l (drop n xs)" "l_rep s' out ((ys @ [x]) @ take n xs)"
      "apart s' l out" "frames s1 s' {l, out} {l, out}"
    using Suc.hyps(1)[OF n(1) t(2,3,4) n(2)] n(1) by auto
  have "List_split_loop l out tot s = Some s'"
    using t(1) s'(1) n(3) assms(5) Len_rep[OF Suc.prems(1)] by (subst List_split_loop_transfer) simp
  moreover have "length as - nat k = Suc n" using Suc.hyps(2) by simp
  ultimately show ?case using s' frames_trans[OF t(5) s'(5)] as by auto
qed

lemma split_step:
  assumes "l_rep s l as"
  shows "\<exists>out s'. List_split l s = Some (out, s') \<and> l_rep s' l (drop (length as - length as div 2) as)
     \<and> l_rep s' out (take (length as - length as div 2) as) \<and> apart s' l out \<and> frames s s' {l} {l, out}"
proof -
  obtain out s1 where n: "new_list s = (out, s1)" by fastforce
  note w = new_list_frames[OF n]
  have q: "quot (int (length as)) 2 = int (length as div 2)" by (simp add: zdiv_int)
  obtain s' where s': "List_split_loop l out (int (length as)) s1 = Some s'" "l_rep s' l (drop (length as - length as div 2) as)"
      "l_rep s' out ([] @ take (length as - length as div 2) as)" "apart s' l out" "frames s1 s' {l, out} {l, out}"
    using split_loop_step[OF conjunct1[OF w(4)[OF assms]] w(1) conjunct2[OF w(4)[OF assms]] _ q] by auto
  have "frames s s' {l} {l, out}"
    by (rule frames_trans[OF _ s'(5)]) (use w(2)[of "{l}"] in \<open>simp add: insert_commute\<close>)
  with s' n Len_rep[OF assms] show ?thesis by (auto simp: List_split_def Let_def)
qed

subsection \<open>Merging\<close>

lemma Front_first:
  assumes "l_rep s l (x # xs)"
  shows "List_Front l s = Some (Some x, s)"
  using Front_step[OF assms] by auto

lemma List_merge_loop_transfer:
  assumes "l_rep s a (x # xs)" "l_rep s b (y # ys)"
  shows "List_merge_loop cf out a b s =
     do { s' \<leftarrow> transfer (if cf (el_item (els s x)) (el_item (els s y)) < 0 then a else b) out s;
          List_merge_loop cf out a b s' }"
  using Len_rep[OF assms(1)] Len_rep[OF assms(2)]
  by (subst List_merge_loop.simps)
    (simp add: Front_first[OF assms(1)] Front_first[OF assms(2)] Element_Value_def transfer_def Let_def split: Option.bind_splits)

text \<open>What the loop moves, on the values: the merge, up to the rest of the list that is left over.\<close>

lemma merge_loop_step:
  assumes "l_rep s a xs" "l_rep s b ys" "l_rep s out zs" "apart s a b" "apart s a out" "apart s b out"
  shows "\<exists>s' xs' ys' zs'. List_merge_loop cf out a b s = Some s' \<and> l_rep s' a xs' \<and> l_rep s' b ys' \<and> l_rep s' out (zs @ zs')
     \<and> (xs' = [] \<or> ys' = []) \<and> apart s' a b \<and> apart s' a out \<and> apart s' b out
     \<and> l_vals s' zs' @ l_vals s' xs' @ l_vals s' ys' = merge_lists cf (l_vals s xs) (l_vals s ys)
     \<and> frames s s' {a, b, out} {a, b, out}"
  using assms
proof (induction "length xs + length ys" arbitrary: s xs ys zs rule: less_induct)
  case less
  show ?case
  proof (cases "xs = [] \<or> ys = []")
    case True
    then have "List_merge_loop cf out a b s = Some s"
      using Len_rep[OF less.prems(1)] Len_rep[OF less.prems(2)] by (subst List_merge_loop.simps) auto
    with True less.prems show ?thesis
      by (intro exI[of _ s] exI[of _ xs] exI[of _ ys] exI[of _ "[]"]) (auto simp: l_vals_def frames_refl)
  next
    case False
    then obtain x xs1 y ys1 where c: "xs = x # xs1" "ys = y # ys1" by (cases xs; cases ys) auto
    have mem: "e < els_n s" if "e \<in> set xs \<or> e \<in> set ys \<or> e \<in> set zs" for e
      using that l_rep_mem less.prems(1-3) by blast
    define first where "first \<longleftrightarrow> cf (el_item (els s x)) (el_item (els s y)) < 0"
    define src oth where "src = (if first then a else b)" and "oth = (if first then b else a)"
    define v xs2 ys2 where "v = (if first then x else y)" and "xs2 = (if first then xs1 else xs)"
      and "ys2 = (if first then ys else ys1)"
    have rs: "l_rep s src (v # (if first then xs1 else ys1))" "l_rep s oth (if first then ys else xs)"
      "apart s src out" "apart s src oth" "apart s oth out"
      using less.prems apart_sym c by (auto simp: src_def oth_def v_def)
    obtain s1 where t: "transfer src out s = Some s1" "l_rep s1 src (if first then xs1 else ys1)" "l_rep s1 out (zs @ [v])"
        "apart s1 src out" "frames s s1 {src, out} {src, out}"
      using transfer_step[OF rs(1) less.prems(3) rs(3)] by blast
    have o1: "l_rep s1 oth (if first then ys else xs)" "apart s1 src oth" "apart s1 out oth"
      using t(5) rs(2,4,5) apart_sym unfolding frames_def by blast+
    have reps: "l_rep s1 a xs2" "l_rep s1 b ys2" "apart s1 a b" "apart s1 a out" "apart s1 b out"
      using t(2,4) o1 apart_sym by (auto simp: src_def oth_def xs2_def ys2_def split: if_splits)
    have less': "length xs2 + length ys2 < length xs + length ys" by (auto simp: xs2_def ys2_def c)
    have eq: "{a, b, out} = insert oth {src, out}" by (auto simp: src_def oth_def)
    have fr: "frames s s1 {a, b, out} {a, b, out}"
      unfolding eq by (rule frames_extra[OF t(5) rs(2)]) (use rs(4,5) apart_sym in auto)
    obtain s' xs' ys' zs' where IH: "List_merge_loop cf out a b s1 = Some s'" "l_rep s' a xs'" "l_rep s' b ys'"
        "l_rep s' out ((zs @ [v]) @ zs')" "xs' = [] \<or> ys' = []" "apart s' a b" "apart s' a out" "apart s' b out"
        "l_vals s' zs' @ l_vals s' xs' @ l_vals s' ys' = merge_lists cf (l_vals s1 xs2) (l_vals s1 ys2)"
        "frames s1 s' {a, b, out} {a, b, out}"
      using less.hyps[OF less' reps(1,2) t(3) reps(3,4,5)] by blast
    have it: "items_same s s1" "items_same s s'" using fr frames_trans[OF fr IH(10)] by (auto simp: frames_def)
    have run: "List_merge_loop cf out a b s = Some s'"
      using t(1) IH(1) List_merge_loop_transfer[of s a x xs1 b y ys1 cf out] less.prems(1,2) c
      by (simp add: src_def first_def)
    have v: "el_item (els s' v) = el_item (els s v)"
      using it(2) mem[of v] c by (auto simp: items_same_def v_def split: if_splits)
    have "l_vals s1 xs2 = l_vals s xs2" "l_vals s1 ys2 = l_vals s ys2"
      by (rule vals_same[OF it(1)], use mem c in \<open>auto simp: xs2_def ys2_def split: if_splits\<close>)+
    then have "l_vals s' zs' @ l_vals s' xs' @ l_vals s' ys' = merge_lists cf (l_vals s xs2) (l_vals s ys2)"
      using IH(9) by simp
    then have "el_item (els s' v) # l_vals s' zs' @ l_vals s' xs' @ l_vals s' ys' = merge_lists cf (l_vals s xs) (l_vals s ys)"
      using v c by (auto simp: l_vals_def first_def v_def xs2_def ys2_def)
    then have m: "l_vals s' (v # zs') @ l_vals s' xs' @ l_vals s' ys' = merge_lists cf (l_vals s xs) (l_vals s ys)"
      by (simp add: l_vals_def)
    have "l_rep s' out (zs @ v # zs')" using IH(4) by simp
    then show ?thesis using run IH(2,3,5-8) m frames_trans[OF fr IH(10)] by blast
  qed
qed

text \<open>\<open>Extend\<close> by the iterator of another list pushes copies of its values.\<close>

definition push_yield :: "nat \<Rightarrow> ('a::zero, 'a lstore \<times> unit) yield" where
  "push_yield out v sc = (case sc of (s, c) \<Rightarrow> do { (_, s1) \<leftarrow> List_PushBack out v s; Some (True, (s1, c)) })"

lemma iter_copy:
  assumes "l_rep s a (pre @ post)" "l_rep s out zs" "apart s a out" "l_head (lists s a) = Some h"
  shows "\<exists>s' ns. List_iter_loop elemNext (Some (hd (post @ [h]))) (push_yield out) (s, ()) = Some (s', ())
     \<and> l_rep s' a (pre @ post) \<and> l_rep s' out (zs @ ns) \<and> l_vals s' ns = l_vals s post \<and> apart s' a out
     \<and> frames s s' {a, out} {a, out}"
  using assms
proof (induction post arbitrary: s pre zs)
  case Nil
  obtain m where r: "ring_ok s h m pre" using l_rep_init[OF Nil.prems(1,4)] by auto
  have "\<not> Element_Ok (Some h) s" using ring_ok_Ok[OF r, of h] by simp
  with Nil.prems show ?case
    by (intro exI[of _ s] exI[of _ "[]"]) (subst List_iter_loop.simps, simp add: frames_refl l_vals_def)
next
  case (Cons e post)
  obtain m where r: "ring_ok s h m (pre @ e # post)" using l_rep_init[OF Cons.prems(1,4)] by auto
  have ok: "Element_Ok (Some e) s" using ring_ok_Ok[OF r, of e] r by (auto simp: ring_ok_def ring_def)
  obtain s1 v where p: "List_PushBack out (el_item (els s e)) s = Some ((), s1)" "lstep s s1 out zs (zs @ [v])"
      "l_vals s1 (zs @ [v]) = l_vals s zs @ [el_item (els s e)]"
    using PushBack_step[OF Cons.prems(2)] by blast
  note f = lstep_frames2[OF p(2) Cons.prems(1) apart_sym[OF Cons.prems(3)]]
  have hd1: "l_head (lists s1 a) = Some h"
    using p(2) Cons.prems by (auto simp: lstep_def apart_def l_rep_def)
  have vv: "el_item (els s1 v) = el_item (els s e)" using p(3) by (simp add: l_vals_def)
  have a1: "l_rep s1 a ((pre @ [e]) @ post)" using f(2) by simp
  obtain m1 where r1: "ring_ok s1 h m1 (pre @ e # post)" using l_rep_init[OF f(2) hd1] by auto
  have nx: "el_next (els s1 e) = Some (hd (post @ [h]))"
    using ring_at(1)[of "\<lambda>e. el_next (els s1 e)" "\<lambda>e. el_prev (els s1 e)" h pre e post] r1 by (simp add: ring_ok_def)
  obtain s' ns where IH: "List_iter_loop elemNext (Some (hd (post @ [h]))) (push_yield out) (s1, ()) = Some (s', ())"
     "l_rep s' a ((pre @ [e]) @ post)" "l_rep s' out ((zs @ [v]) @ ns)" "l_vals s' ns = l_vals s1 post" "apart s' a out"
     "frames s1 s' {a, out} {a, out}"
    using Cons.IH[OF a1 f(4) apart_sym[OF f(3)] hd1] by blast
  have fr: "frames s s1 {a, out} {a, out}" using f(1) by (simp add: insert_commute)
  have it: "items_same s s1" "items_same s1 s'" using fr IH(6) by (auto simp: frames_def)
  have "l_vals s1 post = l_vals s post"
    by (rule vals_same[OF it(1)]) (use l_rep_mem[OF Cons.prems(1)] in auto)
  moreover have "el_item (els s' v) = el_item (els s e)"
    using it(2) l_rep_mem[OF f(4), of v] vv by (auto simp: items_same_def)
  ultimately have "l_vals s' (v # ns) = l_vals s (e # post)" using IH(4) by (simp add: l_vals_def)
  moreover have "List_iter_loop elemNext (Some (hd ((e # post) @ [h]))) (push_yield out) (s, ()) = Some (s', ())"
    using ok p(1) nx IH(1)
    by (subst List_iter_loop.simps) (simp add: push_yield_def Element_Value_def elemNext_def)
  ultimately show ?case using IH(2,3,5) frames_trans[OF fr IH(6)] by (intro exI[of _ s'] exI[of _ "v # ns"]) auto
qed

lemma Extend_step:
  assumes "l_rep s a as" "l_rep s out zs" "apart s a out"
  shows "\<exists>s' ns. List_Extend out (IteratorFront a) s = Some s' \<and> l_rep s' a as \<and> l_rep s' out (zs @ ns)
     \<and> l_vals s' ns = l_vals s as \<and> apart s' a out \<and> frames s s' {a, out} {a, out}"
proof -
  obtain h m s1 where f: "List_Front a s = Some (Some (hd (as @ [h])), s1)" "lists s1 a = \<lparr>l_head = Some h, l_meta = Some m\<rparr>"
      "lstep s s1 a as as" using Front_step[OF assms(1)] by blast
  note g = lstep_frames2[OF f(3) assms(2,3)]
  obtain s' ns where c: "List_iter_loop elemNext (Some (hd (as @ [h]))) (push_yield out) (s1, ()) = Some (s', ())"
     "l_rep s' a ([] @ as)" "l_rep s' out (zs @ ns)" "l_vals s' ns = l_vals s1 as" "apart s' a out"
     "frames s1 s' {a, out} {a, out}"
    using iter_copy[of s1 a "[]" as out zs h] g(2-4) f(2) by auto
  have "l_vals s1 as = l_vals s as"
    by (rule vals_same[OF lstep_items[OF f(3)]]) (use l_rep_mem[OF assms(1)] in auto)
  moreover have "List_Extend out (IteratorFront a) s = Some s'"
    using f(1) c(1) by (simp add: List_Extend_def IteratorFront_def List_iterator_def push_yield_def[abs_def])
  ultimately show ?thesis using c frames_trans[OF g(1) c(6)] by auto
qed

lemma merge_step:
  assumes "l_rep s a xs" "l_rep s b ys" "apart s a b"
  shows "\<exists>out s' zs. List_merge cf a b s = Some (out, s') \<and> l_rep s' out zs
     \<and> l_vals s' zs = merge_lists cf (l_vals s xs) (l_vals s ys) \<and> frames s s' {a, b} {out}"
proof -
  obtain out s1 where n: "new_list s = (out, s1)" by fastforce
  note w = new_list_frames[OF n]
  have r1: "l_rep s1 a xs" "l_rep s1 b ys" "apart s1 a out" "apart s1 b out" using w(4) assms(1,2) by blast+
  have ab: "apart s1 a b" using w(2)[of "{a}"] assms(2,3) by (auto simp: frames_def)
  obtain s2 xs' ys' zs where m: "List_merge_loop cf out a b s1 = Some s2" "l_rep s2 a xs'" "l_rep s2 b ys'" "l_rep s2 out zs"
     "apart s2 a b" "apart s2 a out" "apart s2 b out"
     "l_vals s2 zs @ l_vals s2 xs' @ l_vals s2 ys' = merge_lists cf (l_vals s1 xs) (l_vals s1 ys)"
     "frames s1 s2 {a, b, out} {a, b, out}"
    using merge_loop_step[OF r1(1,2) w(1) ab r1(3,4), of cf] unfolding append_Nil by blast
  obtain s3 ns where e: "List_Extend out (IteratorFront a) s2 = Some s3" "l_rep s3 a xs'" "l_rep s3 out (zs @ ns)"
     "l_vals s3 ns = l_vals s2 xs'" "apart s3 a out" "frames s2 s3 {a, out} {a, out}"
    using Extend_step[OF m(2,4,6)] by blast
  have fe: "frames s2 s3 {a, b, out} {a, b, out}"
    using frames_extra[OF e(6) m(3)] m(5) apart_sym[OF m(7)] by (simp add: insert_commute)
  have b3: "l_rep s3 b ys'" "apart s3 b out" "apart s3 a b"
    using e(6) m(3,5,7) apart_sym unfolding frames_def by blast+
  obtain s4 ns2 where g: "List_Extend out (IteratorFront b) s3 = Some s4" "l_rep s4 out ((zs @ ns) @ ns2)"
     "l_vals s4 ns2 = l_vals s3 ys'" "frames s3 s4 {b, out} {b, out}"
    using Extend_step[OF b3(1) e(3) b3(2)] by blast
  have fg: "frames s3 s4 {a, b, out} {a, b, out}"
    using frames_extra[OF g(4) e(2)] apart_sym[OF b3(3)] apart_sym[OF e(5)] by (simp add: insert_commute)
  have it: "items_same s s1" "items_same s2 s3" "items_same s3 s4"
    using w(2)[of "{}"] fe fg by (auto simp: frames_def)
  have "l_vals s4 zs = l_vals s3 zs" "l_vals s3 zs = l_vals s2 zs" "l_vals s4 ns = l_vals s3 ns" "l_vals s3 ys' = l_vals s2 ys'"
    "l_vals s1 xs = l_vals s xs" "l_vals s1 ys = l_vals s ys"
    using vals_same[OF it(3), of zs] vals_same[OF it(2), of zs] vals_same[OF it(3), of ns] vals_same[OF it(2), of ys']
      vals_same[OF it(1), of xs] vals_same[OF it(1), of ys]
      l_rep_mem[OF e(3)] l_rep_mem[OF m(4)] l_rep_mem[OF m(3)] l_rep_mem[OF assms(1)] l_rep_mem[OF assms(2)] by auto
  then have v: "l_vals s4 ((zs @ ns) @ ns2) = merge_lists cf (l_vals s xs) (l_vals s ys)"
    using g(3) e(4) m(8) by (simp add: l_vals_append)
  have "frames s s1 {a, b} {a, b, out}" using w(2)[of "{a, b}"] by (simp add: insert_commute)
  from frames_trans[OF frames_trans[OF frames_trans[OF this m(9)] fe] fg]
  have "frames s s4 {a, b} {out}" by (rule frames_drop) simp
  moreover have "List_merge cf a b s = Some (out, s4)" using n m(1) e(1) g(1) by (simp add: List_merge_def)
  ultimately show ?thesis using g(2) v by blast
qed

lemma mergeSort_step:
  assumes "l_rep s l as" "cmp_ok cf"
  shows "\<exists>r s' bs. List_mergeSort cf l s = Some (r, s') \<and> l_rep s' r bs \<and> mset (l_vals s' bs) = mset (l_vals s as)
     \<and> in_order cf (l_vals s' bs) \<and> frames s s' {l} {r}"
  using assms(1)
proof (induction "length as" arbitrary: s l as rule: less_induct)
  case less
  show ?case
  proof (cases "length as < 2")
    case True
    then have "List_mergeSort cf l s = Some (l, s)" using Len_rep[OF less.prems] by (subst List_mergeSort.simps) simp
    moreover have "in_order cf (l_vals s as)" using True by (cases as) (auto simp: l_vals_def)
    ultimately show ?thesis using less.prems frames_refl by blast
  next
    case False
    define k where "k = length as - length as div 2"
    obtain t s1 where sp: "List_split l s = Some (t, s1)" "l_rep s1 l (drop k as)" "l_rep s1 t (take k as)" "apart s1 l t"
        "frames s s1 {l} {l, t}"
      using split_step[OF less.prems] unfolding k_def by blast
    have k: "length (drop k as) < length as" "length (take k as) < length as" using False by (auto simp: k_def)
    obtain h s2 bs where h: "List_mergeSort cf l s1 = Some (h, s2)" "l_rep s2 h bs"
        "mset (l_vals s2 bs) = mset (l_vals s1 (drop k as))" "in_order cf (l_vals s2 bs)" "frames s1 s2 {l} {h}"
      using less.hyps[OF k(1) sp(2)] by blast
    have t2: "l_rep s2 t (take k as)" "apart s2 h t" using h(5) sp(3,4) unfolding frames_def by blast+
    obtain u s3 cs where u: "List_mergeSort cf t s2 = Some (u, s3)" "l_rep s3 u cs"
        "mset (l_vals s3 cs) = mset (l_vals s2 (take k as))" "in_order cf (l_vals s3 cs)" "frames s2 s3 {t} {u}"
      using less.hyps[OF k(2) t2(1)] by blast
    have h3: "l_rep s3 h bs" "apart s3 h u" using u(5) h(2) t2(2) apart_sym unfolding frames_def by blast+
    obtain out s4 zs where m: "List_merge cf h u s3 = Some (out, s4)" "l_rep s4 out zs"
        "l_vals s4 zs = merge_lists cf (l_vals s3 bs) (l_vals s3 cs)" "frames s3 s4 {h, u} {out}"
      using merge_step[OF h3(1) u(2) h3(2), of cf] by blast
    have it: "items_same s s1" "items_same s1 s2" "items_same s2 s3" using sp(5) h(5) u(5) by (auto simp: frames_def)
    have eq: "l_vals s3 bs = l_vals s2 bs" "l_vals s2 (take k as) = l_vals s1 (take k as)" "l_vals s1 as = l_vals s as"
      using vals_same[OF it(3), of bs] vals_same[OF it(2), of "take k as"] vals_same[OF it(1), of as]
        l_rep_mem[OF h(2)] l_rep_mem[OF sp(3)] l_rep_mem[OF less.prems] by auto
    have "mset (l_vals s1 (take k as)) + mset (l_vals s1 (drop k as)) = mset (l_vals s1 as)"
      unfolding l_vals_def by (metis append_take_drop_id map_append mset_append)
    then have ms: "mset (l_vals s4 zs) = mset (l_vals s as)"
      using h(3) u(3) eq m(3) by (simp add: mset_merge_lists add.commute)
    have "in_order cf (l_vals s4 zs)"
      using in_order_merge_lists[OF assms(2) h(4) u(4)] eq m(3) by simp
    moreover have "frames s s4 {l} {out}"
    proof (rule frames_trans[OF sp(5)], rule frames_trans[OF _ m(4)])
      have "frames s1 s2 {l, t} {h, t}"
        using frames_extra[OF h(5) sp(3)] sp(4) by (simp add: insert_commute)
      moreover have "frames s2 s3 {h, t} {h, u}"
        using frames_extra[OF u(5) h(2)] apart_sym[OF t2(2)] by (simp add: insert_commute)
      ultimately show "frames s1 s3 {l, t} {h, u}" by (rule frames_trans)
    qed
    moreover have "List_mergeSort cf l s = Some (out, s4)"
      using False Len_rep[OF less.prems] sp(1) h(1) u(1) m(1) by (subst List_mergeSort.simps) simp
    ultimately show ?thesis using ms m(2) by blast
  qed
qed

text \<open>\<open>SortQuick\<close>: all elements are popped, and appended again in the order of the stable sort.\<close>

lemma pop_all_step:
  assumes "l_rep s l as" "\<forall>e \<in> set es. e < els_n s \<and> el_ok (els s e) \<and> e \<in> loose s" "distinct (es @ as)"
  shows "\<exists>s'. pop_all l (map Some es) s = Some (map Some (es @ as), s') \<and> lstep s s' l as []
     \<and> (\<forall>e \<in> set (es @ as). e < els_n s' \<and> el_ok (els s' e) \<and> e \<in> loose s')"
  using assms
proof (induction as arbitrary: s es)
  case Nil
  then show ?case using Len_rep[OF Nil.prems(1)]
    by (intro exI[of _ s]) (subst pop_all.simps, auto simp: lstep_refl)
next
  case (Cons x xs)
  obtain s1 where p: "List_PopFront l s = Some (Some x, s1)" "lstep s s1 l (x # xs) xs" "x \<in> loose s1" "x < els_n s1"
     "el_ok (els s1 x)" "els_n s1 = els_n s" "\<forall>e \<in> loose s. e < els_n s \<longrightarrow> e \<in> loose s1"
    using PopFront_step[OF Cons.prems(1)] by blast
  have rep: "l_rep s1 l xs" using p(2) by (simp add: lstep_def)
  have es1: "\<forall>e \<in> set (es @ [x]). e < els_n s1 \<and> el_ok (els s1 e) \<and> e \<in> loose s1"
    using Cons.prems(2) p(2-7) by (auto simp: lstep_def keeps_def)
  have "distinct ((es @ [x]) @ xs)" using Cons.prems(3) by simp
  from Cons.IH[OF rep es1 this]
  obtain s' where "pop_all l (map Some (es @ [x])) s1 = Some (map Some ((es @ [x]) @ xs), s')" "lstep s1 s' l xs []"
     "\<forall>e \<in> set ((es @ [x]) @ xs). e < els_n s' \<and> el_ok (els s' e) \<and> e \<in> loose s'" by blast
  moreover have "pop_all l (map Some es) s = pop_all l (map Some (es @ [x])) s1"
    using p(1) Len_rep[OF Cons.prems(1)] by (subst pop_all.simps) simp
  ultimately show ?case using lstep_trans[OF p(2)] by auto
qed

lemma append_all_step:
  assumes "l_rep s l as" "\<forall>e \<in> set es. e < els_n s \<and> el_ok (els s e) \<and> e \<in> loose s" "distinct es"
  shows "\<exists>s'. append_all l (map Some es) s = Some s' \<and> lstep s s' l as (as @ es)"
  using assms
proof (induction es arbitrary: s as)
  case Nil
  then show ?case by (auto simp: lstep_refl)
next
  case (Cons e es)
  obtain h m s1 where b: "List_Back l s = Some (Some (last (h # as)), s1)" "lists s1 l = \<lparr>l_head = Some h, l_meta = Some m\<rparr>"
     "lstep s s1 l as as" "keeps s s1 {} {}"
    using Back_step[OF Cons.prems(1)] by blast
  have es1: "\<forall>e \<in> set (e # es). e < els_n s1 \<and> el_ok (els s1 e) \<and> e \<in> loose s1"
    using Cons.prems(2) b(4) by (auto simp: keeps_def loose_def)
  have rep: "l_rep s1 l (as @ [])" using b(3) by (simp add: lstep_def)
  obtain s2 where a: "Element_Append (last (h # as)) (Some e) s1 = Some (e, s2)" "lstep s1 s2 l as (as @ [e])"
     "els_n s2 = els_n s1" "\<forall>u \<in> loose s1. u \<noteq> e \<and> u < els_n s1 \<longrightarrow> u \<in> loose s2"
    using append_step[OF rep b(2) refl, of e] es1 by auto
  have es2: "\<forall>e \<in> set es. e < els_n s2 \<and> el_ok (els s2 e) \<and> e \<in> loose s2"
    using es1 a(2-4) Cons.prems(3) by (auto simp: lstep_def keeps_def)
  have rep2: "l_rep s2 l (as @ [e])" using a(2) by (simp add: lstep_def)
  obtain s' where "append_all l (map Some es) s2 = Some s'" "lstep s2 s' l (as @ [e]) ((as @ [e]) @ es)"
    using Cons.IH[OF rep2 es2] Cons.prems(3) by auto
  then show ?case using b(1) a(1) lstep_trans[OF lstep_trans[OF b(3) a(2)]] by auto
qed

lemma SortQuick_step:
  assumes "l_rep s l as"
  shows "\<exists>s' bs. SortQuick cf l s = Some s' \<and> lstep s s' l as bs \<and> mset bs = mset as
     \<and> l_vals s' bs = sort_stable cf (l_vals s as)"
proof -
  have d: "distinct as" using assms by (auto simp: l_rep_def ring_ok_def ring_def)
  obtain s1 where p: "pop_all l [] s = Some (map Some as, s1)" "lstep s s1 l as []"
     "\<forall>e \<in> set as. e < els_n s1 \<and> el_ok (els s1 e) \<and> e \<in> loose s1"
    using pop_all_step[OF assms, of "[]"] d by auto
  define bs where "bs = sort_stable (\<lambda>x y. cf (el_item (els s1 x)) (el_item (els s1 y))) as"
  have b: "mset bs = mset as" by (simp add: bs_def)
  have srt: "sort_stable (\<lambda>x y. cf (Element_Value x s1) (Element_Value y s1)) (map Some as) = map Some bs"
    unfolding bs_def using map_sort_stable[of Some "\<lambda>x y. cf (Element_Value x s1) (Element_Value y s1)" as]
    by (simp add: Element_Value_def)
  have rep: "l_rep s1 l []" using p(2) by (simp add: lstep_def)
  have "set bs = set as" "distinct bs" using b d mset_eq_setD mset_eq_imp_distinct_iff by blast+
  then obtain s2 where a: "append_all l (map Some bs) s1 = Some s2" "lstep s1 s2 l [] bs"
    using append_all_step[OF rep, of bs] p(3) by auto
  have st: "lstep s s2 l as bs" by (rule lstep_trans[OF p(2) a(2)])
  have e: "l_vals s2 bs = l_vals s bs" "l_vals s1 as = l_vals s as"
    using vals_same[OF lstep_items[OF st]] vals_same[OF lstep_items[OF p(2)]] l_rep_mem[OF assms] \<open>set bs = set as\<close> by blast+
  have e1: "l_vals s1 bs = l_vals s bs"
    using vals_same[OF lstep_items[OF p(2)]] l_rep_mem[OF assms] \<open>set bs = set as\<close> by blast
  have "l_vals s1 bs = sort_stable cf (l_vals s1 as)"
    unfolding bs_def l_vals_def by (rule map_sort_stable)
  then have "l_vals s2 bs = sort_stable cf (l_vals s as)" using e e1 by simp
  moreover have "SortQuick cf l s = Some s2" using p(1) a(1) srt by (simp add: SortQuick_def)
  ultimately show ?thesis using st b by blast
qed

end
