(* ===== verification/DtListProps.thy ===== *)
theory DtListProps
  imports DtListSort
begin

text \<open>
  What clients of \<open>src/dt/list.go\<close> rely on: every run of list operations behaves like the run on a
  sequence of values, the copy is a separate list, both sorts sort, and what \<open>IsSorted\<close> and \<open>Swap\<close>
  really do.
\<close>

subsection \<open>Runs of operations on one list\<close>

datatype 'a list_act = LPushFront 'a | LPushBack 'a | LPopFront | LPopBack | LLen

datatype 'a list_res = LDone | LPopped "'a option" | LSize int

definition popped :: "nat option \<Rightarrow> 'a::zero lstore \<Rightarrow> 'a list_res" where
  "popped p s = LPopped (if Element_Ok p s then Some (Element_Value p s) else None)"

fun list_do :: "nat \<Rightarrow> 'a list_act \<Rightarrow> ('a::zero, 'a list_res) lop" where
  "list_do l (LPushFront v) s = do { (_, s1) \<leftarrow> List_PushFront l v s; Some (LDone, s1) }"
| "list_do l (LPushBack v) s = do { (_, s1) \<leftarrow> List_PushBack l v s; Some (LDone, s1) }"
| "list_do l LPopFront s = do { (p, s1) \<leftarrow> List_PopFront l s; Some (popped p s1, s1) }"
| "list_do l LPopBack s = do { (p, s1) \<leftarrow> List_PopBack l s; Some (popped p s1, s1) }"
| "list_do l LLen s = Some (LSize (List_Len (Some l) s), s)"

fun list_run :: "nat \<Rightarrow> 'a list_act list \<Rightarrow> ('a::zero, 'a list_res list) lop" where
  "list_run l [] s = Some ([], s)"
| "list_run l (a # as) s = do { (r, s1) \<leftarrow> list_do l a s; (rs, s2) \<leftarrow> list_run l as s1; Some (r # rs, s2) }"

text \<open>The contract: the same operations on a sequence.\<close>

fun seq_do :: "'a list_act \<Rightarrow> 'a list \<Rightarrow> 'a list_res \<times> 'a list" where
  "seq_do (LPushFront v) xs = (LDone, v # xs)"
| "seq_do (LPushBack v) xs = (LDone, xs @ [v])"
| "seq_do LPopFront xs = (case xs of [] \<Rightarrow> (LPopped None, []) | x # ys \<Rightarrow> (LPopped (Some x), ys))"
| "seq_do LPopBack xs = (if xs = [] then (LPopped None, []) else (LPopped (Some (last xs)), butlast xs))"
| "seq_do LLen xs = (LSize (int (length xs)), xs)"

fun seq_run :: "'a list_act list \<Rightarrow> 'a list \<Rightarrow> 'a list_res list \<times> 'a list" where
  "seq_run [] xs = ([], xs)"
| "seq_run (a # as) xs = (case seq_do a xs of (r, ys) \<Rightarrow> case seq_run as ys of (rs, zs) \<Rightarrow> (r # rs, zs))"

lemma loose_Ok: "e \<in> loose s \<Longrightarrow> el_ok (els s e) \<Longrightarrow> Element_Ok (Some e) s"
  by (auto simp: Element_Ok_def Element_isRoot_def List_nonNil_def loose_def)

lemma list_do_refines:
  assumes "l_rep s l as"
  shows "\<exists>s' bs. list_do l a s = Some (fst (seq_do a (l_vals s as)), s') \<and> lstep s s' l as bs
    \<and> l_vals s' bs = snd (seq_do a (l_vals s as))"
proof (cases a)
  case (LPushFront v)
  then show ?thesis using PushFront_step[OF assms, of v] by auto
next
  case (LPushBack v)
  then show ?thesis using PushBack_step[OF assms, of v] by auto
next
  case LPopFront
  show ?thesis
  proof (cases as)
    case Nil
    then show ?thesis using Pop_empty_step(1)[of s l] assms LPopFront by (auto simp: popped_def l_vals_def)
  next
    case (Cons x xs)
    obtain s' where s': "List_PopFront l s = Some (Some x, s')" "lstep s s' l (x # xs) xs" "x \<in> loose s'"
        "el_ok (els s' x)" "el_item (els s' x) = el_item (els s x)" "l_vals s' xs = l_vals s xs"
      using PopFront_step assms Cons by blast
    then show ?thesis using LPopFront Cons loose_Ok[OF s'(3,4)] by (auto simp: popped_def Element_Value_def l_vals_def)
  qed
next
  case LPopBack
  show ?thesis
  proof (cases as rule: rev_cases)
    case Nil
    then show ?thesis using Pop_empty_step(2)[of s l] assms LPopBack by (auto simp: popped_def l_vals_def)
  next
    case (snoc xs x)
    obtain s' where s': "List_PopBack l s = Some (Some x, s')" "lstep s s' l (xs @ [x]) xs" "x \<in> loose s'"
        "el_ok (els s' x)" "el_item (els s' x) = el_item (els s x)" "l_vals s' xs = l_vals s xs"
      using PopBack_step assms snoc by blast
    then show ?thesis using LPopBack snoc loose_Ok[OF s'(3,4)]
      by (auto simp: popped_def Element_Value_def l_vals_append) (auto simp: l_vals_def)
  qed
next
  case LLen
  then show ?thesis using assms Len_rep[OF assms] lstep_refl by (auto simp: l_vals_def)
qed

lemma list_run_refines:
  assumes "l_rep s l as"
  shows "\<exists>s' bs. list_run l ms s = Some (fst (seq_run ms (l_vals s as)), s') \<and> lstep s s' l as bs
    \<and> l_vals s' bs = snd (seq_run ms (l_vals s as))"
  using assms
proof (induction ms arbitrary: s as)
  case Nil
  then show ?case using lstep_refl by auto
next
  case (Cons a ms)
  obtain s1 bs where a: "list_do l a s = Some (fst (seq_do a (l_vals s as)), s1)" "lstep s s1 l as bs"
     "l_vals s1 bs = snd (seq_do a (l_vals s as))"
    using list_do_refines[OF Cons.prems] by blast
  obtain s' cs where r: "list_run l ms s1 = Some (fst (seq_run ms (l_vals s1 bs)), s')" "lstep s1 s' l bs cs"
     "l_vals s' cs = snd (seq_run ms (l_vals s1 bs))"
    using Cons.IH[of s1 bs] a(2) by (auto simp: lstep_def)
  show ?case using a r lstep_trans[OF a(2) r(2)] by (auto split: prod.splits)
qed

text \<open>What the client sees when it walks from the front: the values of the representation.\<close>

lemma forward_rep:
  assumes "l_rep s l as"
  shows "forward (length as) l s = l_vals s as"
proof (cases "l_head (lists s l)")
  case None
  then show ?thesis using assms by (auto simp: l_rep_def forward_def l_vals_def)
next
  case (Some h)
  then obtain m where "ring_ok s h m as" using l_rep_init[OF assms] by blast
  then have "walk (\<lambda>e. el_next (els s e)) h (length as) h = as"
    by (auto simp: ring_ok_def intro: walk_ring)
  then show ?thesis using Some by (simp add: forward_def l_vals_def)
qed

text \<open>
  C12: Every sequence of pushes and pops at both ends and length queries on a fresh \<open>dt.List\<close> returns:
  no nil pointer is followed, every result is the one the same operations give on a sequence of values
  (an invalid element exactly when it is empty), and walking the list from the front shows that sequence.
\<close>

theorem list_refines_sequence:
  "\<exists>s'. list_run 0 ms (empty_store :: 'a::zero lstore) = Some (fst (seq_run ms []), s')
     \<and> List_Len (Some 0) s' = int (length (snd (seq_run ms [])))
     \<and> forward (length (snd (seq_run ms []))) 0 s' = snd (seq_run ms [])"
proof -
  have rep: "l_rep (empty_store :: 'a lstore) 0 []" by (simp add: l_rep_def empty_store_def)
  obtain s' bs where s': "list_run 0 ms (empty_store :: 'a lstore) = Some (fst (seq_run ms []), s')"
     "lstep empty_store s' 0 [] bs" "l_vals s' bs = snd (seq_run ms [])"
    using list_run_refines[OF rep, of ms] unfolding l_vals_def list.map by blast
  then have r: "l_rep s' 0 bs" by (simp add: lstep_def)
  have "length bs = length (snd (seq_run ms []))" using arg_cong[OF s'(3), of length] by (simp add: l_vals_def)
  then show ?thesis using s' forward_rep[OF r] Len_rep[OF r] by auto
qed

subsection \<open>Sorting\<close>

text \<open>
  C14: \<open>SortQuick\<close> returns on every list and leaves the same element objects in it, in the order of a
  stable sort of their values; lists that share nothing with it are untouched.
\<close>

theorem SortQuick_sorts:
  assumes "l_rep s l as"
  shows "\<exists>s' bs. SortQuick cf l s = Some s' \<and> l_rep s' l bs \<and> mset bs = mset as
     \<and> l_vals s' bs = sort_stable cf (l_vals s as) \<and> (cmp_ok cf \<longrightarrow> in_order cf (l_vals s' bs))
     \<and> (\<forall>l2 cs. l_rep s l2 cs \<and> apart s l l2 \<longrightarrow> l_rep s' l2 cs)"
proof -
  obtain s' bs where q: "SortQuick cf l s = Some s'" "lstep s s' l as bs" "mset bs = mset as"
     "l_vals s' bs = sort_stable cf (l_vals s as)"
    using SortQuick_step[OF assms] by blast
  have "l_rep s' l bs" using q(2) by (simp add: lstep_def)
  moreover have "\<forall>l2 cs. l_rep s l2 cs \<and> apart s l l2 \<longrightarrow> l_rep s' l2 cs" using lstep_frame(1)[OF q(2)] by blast
  ultimately show ?thesis using q in_order_sort_stable by metis
qed

lemma retarget:
  assumes "l_rep s r bs" "l < lists_n s"
  shows "l_rep (s\<lparr>lists := (lists s)(l := lists s r)\<rparr>) l bs"
proof (cases "l_head (lists s r)")
  case None
  then show ?thesis using assms by (auto simp: l_rep_def)
next
  case (Some h)
  then obtain m where m: "lists s r = \<lparr>l_head = Some h, l_meta = Some m\<rparr>" "ring_ok s h m bs"
    using l_rep_init[OF assms(1)] by blast
  then have "ring_ok (s\<lparr>lists := (lists s)(l := lists s r)\<rparr>) h m bs"
    by (auto simp: ring_ok_def)
  then show ?thesis using m assms(2) by (auto simp: l_rep_def)
qed

text \<open>
  C13: \<open>SortMerge\<close> returns on every list, whatever its length, and leaves a list whose values are the
  old ones in the order of the comparison function.
\<close>

theorem SortMerge_sorts:
  assumes "l_rep s l as" "cmp_ok cf"
  shows "\<exists>s' bs. SortMerge cf l s = Some s' \<and> l_rep s' l bs
     \<and> mset (l_vals s' bs) = mset (l_vals s as) \<and> in_order cf (l_vals s' bs)
     \<and> List_Len (Some l) s' = int (length as)"
proof -
  obtain r s1 bs where m: "List_mergeSort cf l s = Some (r, s1)" "l_rep s1 r bs" "mset (l_vals s1 bs) = mset (l_vals s as)"
     "in_order cf (l_vals s1 bs)" "frames s s1 {l} {r}"
    using mergeSort_step[OF assms] by blast
  have "l < lists_n s1" using m(5) assms(1) by (auto simp: frames_def items_same_def l_rep_def)
  from retarget[OF m(2) this]
  have r: "l_rep (s1\<lparr>lists := (lists s1)(l := lists s1 r)\<rparr>) l bs" .
  have "length bs = length as" using mset_eq_length[OF m(3)] by (simp add: l_vals_def)
  then have "List_Len (Some l) (s1\<lparr>lists := (lists s1)(l := lists s1 r)\<rparr>) = int (length as)" using Len_rep[OF r] by simp
  moreover have "SortMerge cf l s = Some (s1\<lparr>lists := (lists s1)(l := lists s1 r)\<rparr>)" using m(1) by (simp add: SortMerge_def)
  ultimately show ?thesis using r m(3,4) by (auto simp: l_vals_def)
qed

subsection \<open>The copy and the reset\<close>

lemma copy_loop_step:
  assumes "l_rep s a (pre @ post)" "l_rep s out zs" "apart s a out" "l_head (lists s a) = Some h"
  shows "\<exists>s' ns. List_Copy_loop out (Some (hd (post @ [h]))) s = Some s'
     \<and> l_rep s' a (pre @ post) \<and> l_rep s' out (zs @ ns) \<and> l_vals s' ns = l_vals s post \<and> apart s' a out
     \<and> frames s s' {a, out} {a, out}"
  using assms
proof (induction post arbitrary: s pre zs)
  case Nil
  obtain m where r: "ring_ok s h m pre" using l_rep_init[OF Nil.prems(1,4)] by auto
  have "\<not> Element_Ok (Some h) s" using ring_ok_Ok[OF r, of h] by simp
  with Nil.prems show ?case
    by (intro exI[of _ s] exI[of _ "[]"]) (subst List_Copy_loop.simps, simp add: frames_refl l_vals_def)
next
  case (Cons e post)
  obtain m where r: "ring_ok s h m (pre @ e # post)" using l_rep_init[OF Cons.prems(1,4)] by auto
  have ok: "Element_Ok (Some e) s" using ring_ok_Ok[OF r, of e] r by (auto simp: ring_ok_def ring_def)
  obtain b s0 where k: "List_Back out s = Some (Some b, s0)" "lstep s s0 out zs zs"
    using Back_step[OF Cons.prems(2)] by blast
  have v0: "el_item (els s0 e) = el_item (els s e)"
    using lstep_items[OF k(2)] l_rep_mem[OF Cons.prems(1), of e] by (simp add: items_same_def)
  obtain s1 v where p: "List_PushBack out (el_item (els s e)) s = Some ((), s1)" "lstep s s1 out zs (zs @ [v])"
      "l_vals s1 (zs @ [v]) = l_vals s zs @ [el_item (els s e)]"
    using PushBack_step[OF Cons.prems(2)] by blast
  have psh: "\<exists>w. Element_Push b (el_item (els s e)) s0 = Some (w, s1)"
    using p(1) k(1) by (auto simp: List_PushBack_def split: Option.bind_splits)
  note f = lstep_frames2[OF p(2) Cons.prems(1) apart_sym[OF Cons.prems(3)]]
  have hd1: "l_head (lists s1 a) = Some h"
    using p(2) Cons.prems by (auto simp: lstep_def apart_def l_rep_def)
  have a1: "l_rep s1 a ((pre @ [e]) @ post)" using f(2) by simp
  obtain m1 where r1: "ring_ok s1 h m1 (pre @ e # post)" using l_rep_init[OF f(2) hd1] by auto
  have nx: "el_next (els s1 e) = Some (hd (post @ [h]))"
    using ring_at(1)[of "\<lambda>e. el_next (els s1 e)" "\<lambda>e. el_prev (els s1 e)" h pre e post] r1 by (simp add: ring_ok_def)
  obtain s' ns where IH: "List_Copy_loop out (Some (hd (post @ [h]))) s1 = Some s'"
     "l_rep s' a ((pre @ [e]) @ post)" "l_rep s' out ((zs @ [v]) @ ns)" "l_vals s' ns = l_vals s1 post" "apart s' a out"
     "frames s1 s' {a, out} {a, out}"
    using Cons.IH[OF a1 f(4) apart_sym[OF f(3)] hd1] by blast
  have fr: "frames s s1 {a, out} {a, out}" using f(1) by (simp add: insert_commute)
  have it: "items_same s s1" "items_same s1 s'" using fr IH(6) by (auto simp: frames_def)
  have "l_vals s1 post = l_vals s post"
    by (rule vals_same[OF it(1)]) (use l_rep_mem[OF Cons.prems(1)] in auto)
  moreover have "el_item (els s' v) = el_item (els s e)"
    using it(2) l_rep_mem[OF f(4), of v] p(3) by (auto simp: items_same_def l_vals_def)
  ultimately have "l_vals s' (v # ns) = l_vals s (e # post)" using IH(4) by (simp add: l_vals_def)
  moreover have "List_Copy_loop out (Some (hd ((e # post) @ [h]))) s = Some s'"
    using ok k(1) psh v0 nx IH(1)
    by (subst List_Copy_loop.simps) (auto simp: Element_Value_def elemNext_def)
  ultimately show ?case using IH(2,3,5) frames_trans[OF fr IH(6)] by (intro exI[of _ s'] exI[of _ "v # ns"]) auto
qed

text \<open>
  \<open>Copy\<close> returns a new list with the same values that shares no element with the list it copies:
  whatever is done to one of them afterwards, the other keeps its values.
\<close>

theorem Copy_separate:
  assumes "l_rep s l as"
  shows "\<exists>out s' bs. List_Copy l s = Some (out, s') \<and> l_rep s' l as \<and> l_vals s' as = l_vals s as
     \<and> l_rep s' out bs \<and> l_vals s' bs = l_vals s as
     \<and> (\<forall>ms rs t. list_run out ms s' = Some (rs, t) \<longrightarrow> l_rep t l as \<and> l_vals t as = l_vals s as)
     \<and> (\<forall>ms rs t. list_run l ms s' = Some (rs, t) \<longrightarrow> l_rep t out bs \<and> l_vals t bs = l_vals s as)"
proof -
  obtain out s1 where n: "new_list s = (out, s1)" by fastforce
  note w = new_list_frames[OF n]
  have l1: "l_rep s1 l as" "apart s1 l out" using w(4)[OF assms] by auto
  obtain h m s2 where f: "List_Front l s1 = Some (Some (hd (as @ [h])), s2)" "lists s2 l = \<lparr>l_head = Some h, l_meta = Some m\<rparr>"
      "lstep s1 s2 l as as" using Front_step[OF l1(1)] by blast
  note g = lstep_frames2[OF f(3) w(1) l1(2)]
  obtain s' bs where c: "List_Copy_loop out (Some (hd (as @ [h]))) s2 = Some s'" "l_rep s' l ([] @ as)" "l_rep s' out ([] @ bs)"
     "l_vals s' bs = l_vals s2 as" "apart s' l out" "frames s2 s' {l, out} {l, out}"
    using copy_loop_step[of s2 l "[]" as out "[]" h] g(2-4) f(2) by auto
  have it: "items_same s s1" "items_same s1 s2" "items_same s2 s'"
    using w(2)[of "{}"] g(1) c(6) by (auto simp: frames_def)
  have v: "l_vals s1 as = l_vals s as" "l_vals s2 as = l_vals s1 as" "l_vals s' as = l_vals s2 as"
    using vals_same[OF it(1), of as] vals_same[OF it(2), of as] vals_same[OF it(3), of as]
      l_rep_mem[OF assms] l_rep_mem[OF l1(1)] l_rep_mem[OF g(4)] by blast+
  have reps: "l_rep s' l as" "l_rep s' out bs" using c(2,3) by auto
  have run: "l_rep t k2 bs2 \<and> l_vals t bs2 = l_vals s' bs2"
    if p: "list_run k1 ms s' = Some (rs, t)" "l_rep s' k1 bs1" "l_rep s' k2 bs2" "apart s' k1 k2" for k1 k2 bs1 bs2 ms rs t
  proof -
    obtain cs where "lstep s' t k1 bs1 cs" using list_run_refines[OF p(2), of ms] p(1) by auto
    from lstep_frame[OF this p(3,4)] show ?thesis by blast
  qed
  have "List_Copy l s = Some (out, s')" using n f(1) c(1) by (simp add: List_Copy_def)
  with reps run[OF _ reps(2,1) apart_sym[OF c(5)]] run[OF _ reps(1,2) c(5)] v c(4) show ?thesis by metis
qed

lemma reset_loop_step:
  assumes "l_rep s l as" "Element_Ok (Some x) s"
  shows "\<exists>s'. List_iter_loop (List_wrap (List_PopFront l)) (Some x) (\<lambda>_ sc. Some (True, sc)) (s, ()) = Some (s', ()) \<and> lstep s s' l as []"
  using assms
proof (induction as arbitrary: s x)
  case Nil
  obtain s' v where "List_PopFront l s = Some (Some v, s')" "lstep s s' l [] []" "\<not> Element_Ok (Some v) s'"
    using Pop_empty_step(1)[OF Nil.prems(1)] by blast
  then show ?case using Nil.prems(2)
    by (subst List_iter_loop.simps, simp add: List_wrap_def, subst List_iter_loop.simps, simp)
next
  case (Cons y ys)
  obtain s1 where p: "List_PopFront l s = Some (Some y, s1)" "lstep s s1 l (y # ys) ys" "y \<in> loose s1" "el_ok (els s1 y)"
    using PopFront_step[OF Cons.prems(1)] by blast
  obtain s' where "List_iter_loop (List_wrap (List_PopFront l)) (Some y) (\<lambda>_ sc. Some (True, sc)) (s1, ()) = Some (s', ())"
      "lstep s1 s' l ys []"
    using Cons.IH[of s1 y] p(2) loose_Ok[OF p(3,4)] by (auto simp: lstep_def)
  then show ?case using Cons.prems(2) p(1) lstep_trans[OF p(2)]
    by (subst List_iter_loop.simps) (auto simp: List_wrap_def)
qed

lemma Reset_empties:
  assumes "l_rep s l as"
  shows "\<exists>s'. List_Reset l s = Some s' \<and> lstep s s' l as []"
proof (cases as)
  case Nil
  obtain s' v where "List_PopFront l s = Some (Some v, s')" "lstep s s' l [] []" "\<not> Element_Ok (Some v) s'"
    using Pop_empty_step(1)[of s l] assms Nil by blast
  then show ?thesis using Nil
    by (simp add: List_Reset_def IteratorPopFront_def List_iterator_def, subst List_iter_loop.simps, simp)
next
  case (Cons y ys)
  obtain s1 where p: "List_PopFront l s = Some (Some y, s1)" "lstep s s1 l (y # ys) ys" "y \<in> loose s1" "el_ok (els s1 y)"
    using PopFront_step assms Cons by blast
  have "l_rep s1 l ys" using p(2) by (simp add: lstep_def)
  from reset_loop_step[OF this loose_Ok[OF p(3,4)]] show ?thesis
    using p(1) lstep_trans[OF p(2)] Cons by (auto simp: List_Reset_def IteratorPopFront_def List_iterator_def)
qed

subsection \<open>What \<open>IsSorted\<close> and \<open>Swap\<close> do\<close>

fun adjacent_ok :: "('a \<Rightarrow> 'a \<Rightarrow> int) \<Rightarrow> 'a \<Rightarrow> 'a list \<Rightarrow> bool" where
  "adjacent_ok cf p [] = True"
| "adjacent_ok cf p (x # xs) = (\<not> cf x p < 0 \<and> adjacent_ok cf x xs)"

lemma IsSorted_loop_step:
  assumes "ring_ok s h m (pre @ e # post)"
  shows "IsSorted_loop cf (Some e) s
     = Some (adjacent_ok cf (el_item (els s (last (h # pre)))) (butlast (l_vals s (e # post))), s)"
  using assms
proof (induction post arbitrary: pre e)
  case Nil
  note lk = ring_at[of "\<lambda>e. el_next (els s e)" "\<lambda>e. el_prev (els s e)" h pre e "[]"]
  have "el_next (els s e) = Some h" using lk Nil by (auto simp: ring_ok_def)
  moreover have "\<not> Element_Ok (Some h) s" using ring_ok_Ok[OF Nil, of h] by simp
  ultimately show ?case by (subst IsSorted_loop.simps) (simp add: l_vals_def)
next
  case (Cons e2 post)
  note lk = ring_at[of "\<lambda>e. el_next (els s e)" "\<lambda>e. el_prev (els s e)" h pre e "e2 # post"]
  have nx: "el_next (els s e) = Some e2" "el_prev (els s e) = Some (last (h # pre))"
    using lk Cons.prems by (auto simp: ring_ok_def)
  have ok: "Element_Ok (Some e2) s" using ring_ok_Ok[OF Cons.prems, of e2] Cons.prems by (auto simp: ring_ok_def ring_def)
  have "IsSorted_loop cf (Some e2) s = Some (adjacent_ok cf (el_item (els s e)) (butlast (l_vals s (e2 # post))), s)"
    using Cons.IH[of "pre @ [e]" e2] Cons.prems by simp
  with nx ok show ?case by (subst IsSorted_loop.simps) (simp add: l_vals_def)
qed

text \<open>
  What \<open>IsSorted\<close> computes: it compares the item of the root, the zero value, with the first value,
  then each value with the next, and leaves the last value out.
\<close>

theorem IsSorted_checks:
  assumes "l_rep s l as" "l_head (lists s l) = Some h"
  shows "List_IsSorted cf (Some l) s = Some (adjacent_ok cf (el_item (els s h)) (butlast (l_vals s as)), s)"
proof (cases "length as \<le> 1")
  case True
  then show ?thesis using Len_rep[OF assms(1)] by (cases as) (auto simp: List_IsSorted_def l_vals_def)
next
  case False
  then obtain x xs where as: "as = x # xs" by (cases as) auto
  obtain m where r: "ring_ok s h m ([] @ x # xs)" using l_rep_init[OF assms] as by auto
  show ?thesis
    using False Len_rep[OF assms(1)] IsSorted_loop_step[OF r, of cf] Front_first[of s l x xs] assms(1) as
    by (simp add: List_IsSorted_def)
qed

text \<open>A list of integers, as \<open>PushBack\<close> builds it.\<close>

definition int_list :: "int list \<Rightarrow> int lstore" where
  "int_list vs = snd (the (list_run 0 (map LPushBack vs) empty_store))"

lemma seq_run_pushes: "snd (seq_run (map LPushBack vs) xs) = xs @ vs"
  by (induction vs arbitrary: xs) (simp_all add: case_prod_beta)

lemma int_list_rep: "\<exists>as. l_rep (int_list vs) 0 as \<and> l_vals (int_list vs) as = vs"
proof -
  have rep: "l_rep (empty_store :: int lstore) 0 []" by (simp add: l_rep_def empty_store_def)
  obtain s' bs where "list_run 0 (map LPushBack vs) (empty_store :: int lstore) = Some (fst (seq_run (map LPushBack vs) []), s')"
     "lstep empty_store s' 0 [] bs" "l_vals s' bs = snd (seq_run (map LPushBack vs) [])"
    using list_run_refines[OF rep, of "map LPushBack vs"] unfolding l_vals_def list.map by blast
  then show ?thesis by (auto simp: int_list_def seq_run_pushes lstep_def)
qed

text \<open>
  \<open>IsSorted\<close> calls the list 1, 3, 2 sorted and the sorted list -1, 3, 4 unsorted.
\<close>

theorem IsSorted_wrong:
  "map_option fst (List_IsSorted (\<lambda>a b. a - b) (Some 0) (int_list [1, 3, 2])) = Some True
   \<and> map_option fst (List_IsSorted (\<lambda>a b. a - b) (Some 0) (int_list [-1, 3, 4])) = Some False"
  by code_simp

text \<open>
  \<open>Swap\<close> of the fourth and the second element of 42, 84, 420, 840 reports success and leaves a list
  that says it has four elements and shows three when it is walked from the front.
\<close>

theorem Swap_loses_element:
  "map_option (\<lambda>(ok, s). (ok, List_Len (Some 0) s, forward 10 0 s))
     (do { (p, s1) \<leftarrow> List_Back 0 (int_list [42, 84, 420, 840]);
           (q1, s2) \<leftarrow> List_Front 0 s1;
           (q2, s3) \<leftarrow> elemNext q1 s2;
           Element_Swap p q2 s3 })
   = Some (True, 4, [42, 420, 84])"
  by code_simp

text \<open>
  After \<open>SortMerge\<close> the first element of the list is no longer a member of it: \<open>In\<close> was true before
  and is false afterwards, because the list took over the contents of a list made by the sort.
\<close>

theorem SortMerge_forgets_owner:
  "map_option (\<lambda>(p, s). Element_In (the p) 0 s) (List_Front 0 (int_list [2, 1])) = Some True
   \<and> map_option (\<lambda>(p, s). (Element_Value p s, Element_In (the p) 0 s))
       (do { s1 \<leftarrow> SortMerge (\<lambda>a b. a - b) 0 (int_list [2, 1]); List_Front 0 s1 }) = Some (1, False)"
  by code_simp

subsection \<open>The laws on a concrete list\<close>

lemma SortQuick_sorts_witness:
  "\<exists>s bs. SortQuick (\<lambda>a b. a - b) 0 (int_list [3, 1, 2]) = Some s \<and> l_rep s 0 bs \<and> l_vals s bs = [1, 2, 3]"
proof -
  obtain as where a: "l_rep (int_list [3, 1, 2]) 0 as" "l_vals (int_list [3, 1, 2]) as = [3, 1, 2]"
    using int_list_rep by blast
  show ?thesis using SortQuick_sorts[OF a(1), of "\<lambda>a b. a - b"] a(2) by (auto simp: sort_stable_def)
qed

lemma SortMerge_sorts_witness:
  "\<exists>s bs. SortMerge (\<lambda>a b. a - b) 0 (int_list [3, 1, 2]) = Some s \<and> l_rep s 0 bs
     \<and> mset (l_vals s bs) = {#1, 2, 3#} \<and> in_order (\<lambda>a b. a - b) (l_vals s bs)"
proof -
  obtain as where a: "l_rep (int_list [3, 1, 2]) 0 as" "l_vals (int_list [3, 1, 2]) as = [3, 1, 2]"
    using int_list_rep by blast
  show ?thesis using SortMerge_sorts[OF a(1) cmp_minus] a(2) by (auto simp: add_mset_commute)
qed

lemma Copy_separate_witness:
  "\<exists>out s bs. List_Copy 0 (int_list [3, 1]) = Some (out, s) \<and> l_rep s out bs \<and> l_vals s bs = [3, 1]"
proof -
  obtain as where a: "l_rep (int_list [3, 1]) 0 as" "l_vals (int_list [3, 1]) as = [3, 1]"
    using int_list_rep by blast
  show ?thesis using Copy_separate[OF a(1)] a(2) by auto
qed

lemma IsSorted_checks_witness:
  "\<exists>h. List_IsSorted (\<lambda>a b. a - b) (Some 0) (int_list [3, 1, 2])
     = Some (adjacent_ok (\<lambda>a b. a - b) (el_item (els (int_list [3, 1, 2]) h)) [3, 1], int_list [3, 1, 2])"
proof -
  obtain as where a: "l_rep (int_list [3, 1, 2]) 0 as" "l_vals (int_list [3, 1, 2]) as = [3, 1, 2]"
    using int_list_rep by blast
  then have "l_head (lists (int_list [3, 1, 2]) 0) \<noteq> None" by (auto simp: l_rep_def l_vals_def)
  then show ?thesis using IsSorted_checks[OF a(1)] a(2) by auto
qed

end
