(* ===== verification/DtHeap.thy ===== *)
theory DtHeap
  imports DtListProps
begin

text \<open>
  The two priority queues of \<open>src/dt\<close>: \<open>Heap\<close> (\<open>heap.go\<close>), a sorted \<open>dt.List\<close>, and \<open>BinHeap\<close>
  (\<open>binheap.go\<close>), a slice under the library's \<open>container/heap\<close>, whose sift operations are written out.
  The locale \<open>priority_queue\<close> is their contract; its client lemma, that draining the queue sorts, is
  read off for both.
\<close>

subsection \<open>The contract\<close>

text \<open>Clients that push values one after the other, and pop a number of them.\<close>

fun push_all :: "('a \<Rightarrow> 's \<Rightarrow> 's option) \<Rightarrow> 'a list \<Rightarrow> 's \<Rightarrow> 's option" where
  "push_all push [] s = Some s"
| "push_all push (x # xs) s = do { s' \<leftarrow> push x s; push_all push xs s' }"

fun pop_n :: "('s \<Rightarrow> ('r \<times> 's) option) \<Rightarrow> nat \<Rightarrow> 's \<Rightarrow> ('r list \<times> 's) option" where
  "pop_n pop 0 s = Some ([], s)"
| "pop_n pop (Suc n) s = do { (x, s1) \<leftarrow> pop s; (xs, s2) \<leftarrow> pop_n pop n s1; Some (x # xs, s2) }"

locale priority_queue =
  fixes cf :: "'a \<Rightarrow> 'a \<Rightarrow> int"
    and holds :: "'s \<Rightarrow> 'a multiset \<Rightarrow> bool"
    and push :: "'a \<Rightarrow> 's \<Rightarrow> 's option"
    and pop :: "'s \<Rightarrow> (('a \<times> bool) \<times> 's) option"
  assumes push: "holds s M \<Longrightarrow> \<exists>s'. push x s = Some s' \<and> holds s' (add_mset x M)"
    and pop_empty: "holds s {#} \<Longrightarrow> \<exists>z s'. pop s = Some ((z, False), s') \<and> holds s' {#}"
    and pop_least: "holds s (add_mset y M) \<Longrightarrow>
      \<exists>x s'. pop s = Some ((x, True), s') \<and> x \<in># add_mset y M \<and> (\<forall>z \<in># add_mset y M. cf x z \<le> 0)
        \<and> holds s' (add_mset y M - {#x#})"
begin

lemma push_all: "holds s M \<Longrightarrow> \<exists>s'. push_all push xs s = Some s' \<and> holds s' (mset xs + M)"
proof (induction xs arbitrary: s M)
  case (Cons x xs)
  obtain s1 where "push x s = Some s1" "holds s1 (add_mset x M)" using push[OF Cons.prems] by blast
  with Cons.IH[of s1 "add_mset x M"] show ?case by auto
qed simp

lemma pop_n:
  assumes "holds s M"
  shows "\<exists>xs s'. pop_n pop (size M) s = Some (map (\<lambda>x. (x, True)) xs, s') \<and> mset xs = M \<and> in_order cf xs \<and> holds s' {#}"
  using assms
proof (induction "size M" arbitrary: s M)
  case 0
  then show ?case by simp
next
  case (Suc n)
  then obtain y N where M: "M = add_mset y N" by (metis size_eq_Suc_imp_eq_union)
  obtain x s1 where p: "pop s = Some ((x, True), s1)" "x \<in># M" "\<forall>z \<in># M. cf x z \<le> 0" "holds s1 (M - {#x#})"
    using pop_least[of s y N] Suc.prems M by blast
  have sz: "n = size (M - {#x#})" using Suc.hyps(2) p(2) by (simp add: size_Diff_singleton)
  obtain xs s' where r: "pop_n pop n s1 = Some (map (\<lambda>x. (x, True)) xs, s')" "mset xs = M - {#x#}" "in_order cf xs" "holds s' {#}"
    using Suc.hyps(1)[OF sz p(4)] sz by auto
  have "cf x z \<le> 0" if "z \<in> set xs" for z
    using that r(2) p(3) by (metis in_diffD in_multiset_in_set)
  then have "mset (x # xs) = M \<and> in_order cf (x # xs)" using r(2,3) p(2) by simp
  moreover have "pop_n pop (size M) s = Some (map (\<lambda>x. (x, True)) (x # xs), s')" using p(1) r(1) Suc.hyps(2)[symmetric] by simp
  ultimately show ?case using r(4) by blast
qed

text \<open>Pushing values and popping as many sorts them; the next pop says that the queue is empty.\<close>

lemma drain_sorts:
  assumes "holds s {#}"
  shows "\<exists>ys s' s'' z s3. push_all push xs s = Some s' \<and> pop_n pop (length xs) s' = Some (map (\<lambda>x. (x, True)) ys, s'')
     \<and> mset ys = mset xs \<and> in_order cf ys \<and> pop s'' = Some ((z, False), s3)"
proof -
  obtain s' where s': "push_all push xs s = Some s'" "holds s' (mset xs)" using push_all[OF assms, of xs] by auto
  from pop_n[OF s'(2)] s'(1) pop_empty show ?thesis by fastforce
qed

end

subsection \<open>\<open>Heap\<close>: a sorted list\<close>

record 'a Heap =
  CF :: "('a \<Rightarrow> 'a \<Rightarrow> int) option"
  hp_data :: "nat option"

type_synonym 'a hstate = "'a Heap \<times> 'a lstore"

definition Heap_list :: "'a hstate \<Rightarrow> (nat \<times> 'a hstate) option" where
  "Heap_list hs = (case hs of (h, s) \<Rightarrow>
     (if CF h = None then None
      else case hp_data h of
        None \<Rightarrow> (case new_list s of (l, s1) \<Rightarrow> Some (l, h\<lparr>hp_data := Some l\<rparr>, s1))
      | Some l \<Rightarrow> Some (l, h, s)))"

partial_function (option) Heap_scan :: "('a \<Rightarrow> 'a \<Rightarrow> int) \<Rightarrow> 'a \<Rightarrow> nat option \<Rightarrow> ('a::zero, bool) lop" where
  "Heap_scan cf t p s =
     (if Element_Ok p s
      then if cf t (Element_Value p s) < 0
           then do { (p', s1) \<leftarrow> elemPrevious p s; Heap_scan cf t p' s1 }
           else do { e \<leftarrow> p;
                     (_, s2) \<leftarrow> (case NewElement t s of (n, s1) \<Rightarrow> Element_Append e (Some n) s1);
                     Some (True, s2) }
      else Some (False, s))"

definition Heap_Push :: "'a::zero \<Rightarrow> 'a hstate \<Rightarrow> 'a hstate option" where
  "Heap_Push t hs =
     do { (l, h, s) \<leftarrow> Heap_list hs;
          cf \<leftarrow> CF h;
          if List_Len (Some l) s = 0 then do { (_, s1) \<leftarrow> List_PushBack l t s; Some (h, s1) }
          else do { (p, s1) \<leftarrow> List_Back l s;
                    (found, s2) \<leftarrow> Heap_scan cf t p s1;
                    if found then Some (h, s2)
                    else do { (_, s3) \<leftarrow> List_PushFront l t s2; Some (h, s3) } } }"

definition Heap_Len :: "'a hstate \<Rightarrow> (int \<times> 'a hstate) option" where
  "Heap_Len hs = do { (l, h, s) \<leftarrow> Heap_list hs; Some (List_Len (Some l) s, h, s) }"

definition Heap_Pop :: "'a::zero hstate \<Rightarrow> (('a \<times> bool) \<times> 'a hstate) option" where
  "Heap_Pop hs = do { (l, h, s) \<leftarrow> Heap_list hs; (e, s1) \<leftarrow> List_PopFront l s;
     Some ((Element_Value e s1, Element_Ok e s1), h, s1) }"

definition Heap_Peek :: "'a::zero hstate \<Rightarrow> (('a \<times> bool) \<times> 'a hstate) option" where
  "Heap_Peek hs = do { (l, h, s) \<leftarrow> Heap_list hs; (e, s1) \<leftarrow> List_Front l s;
     Some ((Element_Value e s1, Element_Ok e s1), h, s1) }"

text \<open>
  The values of a heap.  A push goes behind every value that is not greater, seen from the back; that
  is the stable insertion on the reversed list with the arguments of the comparison swapped.
\<close>

definition hp_rep :: "('a \<Rightarrow> 'a \<Rightarrow> int) \<Rightarrow> 'a hstate \<Rightarrow> 'a list \<Rightarrow> bool" where
  "hp_rep cf hs vs \<longleftrightarrow> (case hs of (h, s) \<Rightarrow> CF h = Some cf \<and>
     (case hp_data h of None \<Rightarrow> vs = [] | Some l \<Rightarrow> \<exists>as. l_rep s l as \<and> l_vals s as = vs))"

definition heap_insert :: "('a \<Rightarrow> 'a \<Rightarrow> int) \<Rightarrow> 'a \<Rightarrow> 'a list \<Rightarrow> 'a list" where
  "heap_insert cf t vs = rev (insert_stable (\<lambda>x y. cf y x) t (rev vs))"

lemma Heap_list_step:
  assumes "hp_rep cf hs vs"
  shows "\<exists>l h s as. Heap_list hs = Some (l, h, s) \<and> CF h = Some cf \<and> hp_data h = Some l \<and> l_rep s l as \<and> l_vals s as = vs"
proof -
  obtain h s where hs: "hs = (h, s)" by (cases hs)
  show ?thesis
  proof (cases "hp_data h")
    case None
    obtain l s1 where n: "new_list s = (l, s1)" by fastforce
    show ?thesis using assms hs None n new_list_frames(1)[OF n] by (auto simp: Heap_list_def hp_rep_def l_vals_def)
  next
    case (Some l)
    then show ?thesis using assms hs by (auto simp: Heap_list_def hp_rep_def)
  qed
qed

lemma hp_repI: "CF h = Some cf \<Longrightarrow> hp_data h = Some l \<Longrightarrow> l_rep s l as \<Longrightarrow> l_vals s as = vs \<Longrightarrow> hp_rep cf (h, s) vs"
  by (auto simp: hp_rep_def)

lemma insert_stable_append:
  "\<forall>y \<in> set ys. cmp y t < 0 \<Longrightarrow> insert_stable cmp t (ys @ zs) = ys @ insert_stable cmp t zs"
  by (induction ys) auto

lemma Heap_scan_step:
  assumes "l_rep s l (pre @ post)" "lists s l = \<lparr>l_head = Some h, l_meta = Some m\<rparr>"
    and "\<forall>e \<in> set post. cf t (el_item (els s e)) < 0"
  shows "\<exists>found s'. Heap_scan cf t (Some (last (h # pre))) s = Some (found, s') \<and>
     (if found then \<exists>bs. l_rep s' l bs \<and> l_vals s' bs = heap_insert cf t (l_vals s (pre @ post))
      else s' = s \<and> heap_insert cf t (l_vals s (pre @ post)) = t # l_vals s (pre @ post))"
  using assms
proof (induction pre arbitrary: post rule: rev_induct)
  case Nil
  have r: "ring_ok s h m post" using Nil(1,2) by (auto simp: l_rep_def)
  have "\<not> Element_Ok (Some h) s" using ring_ok_Ok[OF r, of h] by simp
  moreover have "insert_stable (\<lambda>x y. cf y x) t (rev (l_vals s post) @ []) = rev (l_vals s post) @ [t]"
    by (subst insert_stable_append) (use Nil(3) in \<open>auto simp: l_vals_def\<close>)
  ultimately show ?case by (intro exI[of _ False] exI[of _ s]) (subst Heap_scan.simps, simp add: heap_insert_def)
next
  case (snoc e pre)
  have r: "ring_ok s h m (pre @ e # post)" using snoc.prems(1,2) by (auto simp: l_rep_def)
  have ok: "Element_Ok (Some e) s" using ring_ok_Ok[OF r, of e] r by (auto simp: ring_ok_def ring_def)
  show ?case
  proof (cases "cf t (el_item (els s e)) < 0")
    case True
    have pv: "el_prev (els s e) = Some (last (h # pre))"
      using ring_at(2)[of "\<lambda>e. el_next (els s e)" "\<lambda>e. el_prev (els s e)" h pre e post] r by (simp add: ring_ok_def)
    have "Heap_scan cf t (Some e) s = Heap_scan cf t (Some (last (h # pre))) s"
      using ok True pv by (subst Heap_scan.simps) (simp add: Element_Value_def elemPrevious_def)
    moreover have "last (h # pre @ [e]) = e" by simp
    moreover have "\<exists>found s'. Heap_scan cf t (Some (last (h # pre))) s = Some (found, s') \<and>
       (if found then \<exists>bs. l_rep s' l bs \<and> l_vals s' bs = heap_insert cf t (l_vals s (pre @ e # post))
        else s' = s \<and> heap_insert cf t (l_vals s (pre @ e # post)) = t # l_vals s (pre @ e # post))"
      by (rule snoc.IH) (use snoc.prems True in auto)
    ultimately show ?thesis by (simp only: append_assoc append_Cons append_Nil)
  next
    case False
    have rep: "l_rep s l ((pre @ [e]) @ post)" using snoc.prems(1) by simp
    obtain s' where p: "Element_Push e t s = Some (els_n s, s')" "lstep s s' l ((pre @ [e]) @ post) ((pre @ [e]) @ els_n s # post)"
        "el_item (els s' (els_n s)) = t"
      using push_step[OF rep snoc.prems(2), of e t] by auto
    have "l_vals s' ((pre @ [e]) @ post) = l_vals s ((pre @ [e]) @ post)"
      by (rule vals_same[OF lstep_items[OF p(2)]]) (use l_rep_mem[OF rep] in blast)
    then have v: "l_vals s' ((pre @ [e]) @ els_n s # post) = l_vals s (pre @ [e]) @ t # l_vals s post"
      using p(3) by (simp add: l_vals_def)
    have "insert_stable (\<lambda>x y. cf y x) t (rev (l_vals s post) @ rev (l_vals s (pre @ [e])))
        = rev (l_vals s post) @ t # rev (l_vals s (pre @ [e]))"
      by (subst insert_stable_append) (use snoc.prems(3) False in \<open>auto simp: l_vals_def\<close>)
    then have "heap_insert cf t (l_vals s ((pre @ [e]) @ post)) = l_vals s (pre @ [e]) @ t # l_vals s post"
      by (simp add: heap_insert_def l_vals_def)
    moreover have "Heap_scan cf t (Some e) s = Some (True, s')"
      using ok False p(1) by (subst Heap_scan.simps) (simp add: Element_Value_def Element_Push_def split: prod.splits)
    ultimately show ?thesis using v p(2) by (intro exI[of _ True] exI[of _ s']) (auto simp: lstep_def)
  qed
qed

lemma Heap_Push_step:
  assumes "hp_rep cf hs vs"
  shows "\<exists>hs'. Heap_Push t hs = Some hs' \<and> hp_rep cf hs' (heap_insert cf t vs)"
proof -
  obtain l h s as where l: "Heap_list hs = Some (l, h, s)" "CF h = Some cf" "hp_data h = Some l" "l_rep s l as" "l_vals s as = vs"
    using Heap_list_step[OF assms] by blast
  show ?thesis
  proof (cases "as = []")
    case True
    obtain s' v where "List_PushBack l t s = Some ((), s')" "lstep s s' l as (as @ [v])" "l_vals s' (as @ [v]) = l_vals s as @ [t]"
      using PushBack_step[OF l(4)] by blast
    then show ?thesis using l True Len_rep[OF l(4)] hp_repI[of h cf l s' "[v]"]
      by (auto simp: Heap_Push_def lstep_def heap_insert_def l_vals_def)
  next
    case False
    obtain hd m where b: "List_Back l s = Some (Some (last (hd # as)), s)" "lists s l = \<lparr>l_head = Some hd, l_meta = Some m\<rparr>"
      using Back_step[OF l(4)] False by blast
    obtain found s1 where sc: "Heap_scan cf t (Some (last (hd # as))) s = Some (found, s1)"
       "if found then \<exists>bs. l_rep s1 l bs \<and> l_vals s1 bs = heap_insert cf t vs
        else s1 = s \<and> heap_insert cf t vs = t # vs"
      using Heap_scan_step[of s l as "[]" hd m cf t] l(4,5) b(2) unfolding append_Nil2 by auto
    show ?thesis
    proof (cases found)
      case True
      then show ?thesis using sc l b False Len_rep[OF l(4)] hp_repI[of h cf l s1] by (auto simp: Heap_Push_def)
    next
      case nf: False
      obtain s' v where "List_PushFront l t s = Some ((), s')" "lstep s s' l as (v # as)" "l_vals s' (v # as) = t # l_vals s as"
        using PushFront_step[OF l(4)] by blast
      then show ?thesis using nf sc l b False Len_rep[OF l(4)] hp_repI[of h cf l s' "v # as"]
        by (auto simp: Heap_Push_def lstep_def)
    qed
  qed
qed

lemma Heap_Pop_step:
  assumes "hp_rep cf hs vs"
  shows "\<exists>hs'. Heap_Pop hs = Some (case vs of [] \<Rightarrow> (0, False) | v # _ \<Rightarrow> (v, True), hs') \<and> hp_rep cf hs' (tl vs)"
proof -
  obtain l h s as where l: "Heap_list hs = Some (l, h, s)" "CF h = Some cf" "hp_data h = Some l" "l_rep s l as" "l_vals s as = vs"
    using Heap_list_step[OF assms] by blast
  show ?thesis
  proof (cases as)
    case Nil
    obtain s' v where "List_PopFront l s = Some (Some v, s')" "lstep s s' l [] []" "\<not> Element_Ok (Some v) s'"
       "Element_Value (Some v) s' = 0"
      using Pop_empty_step(1)[of s l] l(4) Nil by blast
    then show ?thesis using l Nil hp_repI[of h cf l s' "[]"] by (auto simp: Heap_Pop_def lstep_def l_vals_def)
  next
    case (Cons x xs)
    obtain s' where p: "List_PopFront l s = Some (Some x, s')" "lstep s s' l (x # xs) xs" "x \<in> loose s'" "el_ok (els s' x)"
       "el_item (els s' x) = el_item (els s x)" "l_vals s' xs = l_vals s xs"
      using PopFront_step l(4) Cons by blast
    then have "hp_rep cf (h, s') (l_vals s xs)" using l(2,3) by (intro hp_repI[of h cf l s' xs]) (auto simp: lstep_def)
    then show ?thesis using l(1,5) p(1,5) Cons loose_Ok[OF p(3,4)]
      by (intro exI[of _ "(h, s')"]) (auto simp: Heap_Pop_def Element_Value_def l_vals_def)
  qed
qed

lemma Heap_Peek_step:
  assumes "hp_rep cf hs vs"
  shows "\<exists>v ok hs'. Heap_Peek hs = Some ((v, ok), hs') \<and> hp_rep cf hs' vs \<and> ok = (vs \<noteq> []) \<and> (ok \<longrightarrow> v = hd vs)"
proof -
  obtain l h s as where l: "Heap_list hs = Some (l, h, s)" "CF h = Some cf" "hp_data h = Some l" "l_rep s l as" "l_vals s as = vs"
    using Heap_list_step[OF assms] by blast
  obtain r m s1 where f: "List_Front l s = Some (Some (hd (as @ [r])), s1)" "ring_ok s1 r m as" "lstep s s1 l as as" "as \<noteq> [] \<longrightarrow> s1 = s"
    using Front_step[OF l(4)] by blast
  have "hp_rep cf (h, s1) vs"
    using l f(3,4) by (intro hp_repI[of h cf l s1 as]) (auto simp: lstep_def l_vals_def)
  moreover have "Element_Ok (Some (hd (as @ [r]))) s1 \<longleftrightarrow> vs \<noteq> []"
    using ring_ok_Ok[OF f(2), of "hd (as @ [r])"] f(2) l(5) by (cases as) (auto simp: l_vals_def ring_ok_def ring_def)
  moreover have "Element_Value (Some (hd (as @ [r]))) s1 = hd vs" if "vs \<noteq> []"
    using that l(5) f(4) by (cases as) (auto simp: l_vals_def Element_Value_def)
  ultimately show ?thesis using l f(1) by (auto simp: Heap_Peek_def)
qed

text \<open>Pushes insert behind equal values.\<close>

lemma cmp_swap: "cmp_ok cf \<Longrightarrow> cmp_ok (\<lambda>x y. cf y x)"
  unfolding cmp_ok_def by blast

lemma in_order_rev: "in_order (\<lambda>x y. cf y x) (rev xs) \<longleftrightarrow> in_order cf xs"
  by (simp add: in_order_def sorted_wrt_rev)

lemma cmp_equal: "cmp_ok cf \<Longrightarrow> cf x y = 0 \<longleftrightarrow> cf y x = 0"
  using cmp_flip[of cf x y] cmp_flip[of cf y x] by linarith

lemma heap_insert_in_order: "cmp_ok cf \<Longrightarrow> in_order cf vs \<Longrightarrow> in_order cf (heap_insert cf t vs)"
  using in_order_insert_stable[of "\<lambda>x y. cf y x" "rev vs" t, OF cmp_swap] in_order_rev[of cf vs]
    in_order_rev[of cf "heap_insert cf t vs"] by (simp add: heap_insert_def)

lemma heap_insert_mset: "mset (heap_insert cf t vs) = add_mset t (mset vs)"
  by (simp add: heap_insert_def)

lemma heap_insert_last:
  assumes "cmp_ok cf"
  shows "filter (\<lambda>y. cf z y = 0) (heap_insert cf t vs) = filter (\<lambda>y. cf z y = 0) (vs @ [t])"
proof -
  have e: "(\<lambda>y. cf z y = 0) = (\<lambda>y. cf y z = 0)" using cmp_equal[OF assms] by blast
  show ?thesis
    unfolding e heap_insert_def using filter_insert_stable[OF cmp_swap[OF assms], of z t "rev vs"]
    by (simp add: rev_filter[symmetric])
qed

lemma stable_unique:
  assumes "cmp_ok cf" "in_order cf xs" "in_order cf ys" "\<And>z. filter (\<lambda>y. cf z y = 0) xs = filter (\<lambda>y. cf z y = 0) ys"
  shows "xs = ys"
  using assms(2-4)
proof (induction xs arbitrary: ys)
  case Nil
  have r: "cf y y = 0" for y by (rule cmp_refl[OF assms(1)])
  show ?case using Nil(3)[of "hd ys"] r by (cases ys) auto
next
  case (Cons x xs)
  have r: "cf y y = 0" for y by (rule cmp_refl[OF assms(1)])
  have mem: "z \<in> set (x # xs) \<longleftrightarrow> z \<in> set ys" for z
    using arg_cong[OF Cons.prems(3)[of z], of "\<lambda>l. z \<in> set l"] r[of z] by (simp del: filter.simps)
  then obtain y ys' where ys: "ys = y # ys'" by (cases ys) auto
  have "cf x y \<le> 0" using Cons.prems(1) mem[of y] ys r[of x] by auto
  moreover have "cf y x \<le> 0" using Cons.prems(2) mem[of x] ys r[of x] by auto
  ultimately have e: "cf x y = 0"
    using cmp_flip[OF assms(1), of x y] cmp_flip[OF assms(1), of y x] by linarith
  have xy: "x = y" using Cons.prems(3)[of x] e r[of x] ys by simp
  moreover have "xs = ys'"
    by (rule Cons.IH) (use Cons.prems ys xy in \<open>auto split: if_splits\<close>, use Cons.prems(3) ys xy in \<open>metis (no_types, lifting) filter.simps(2) list.inject\<close>)
  ultimately show ?case using ys by simp
qed

lemma heap_pushes_sort:
  assumes "cmp_ok cf"
  shows "fold (heap_insert cf) xs [] = sort_stable cf xs"
proof (rule stable_unique[OF assms])
  have "in_order cf (fold (heap_insert cf) xs vs)" if "in_order cf vs" for vs
    using that by (induction xs arbitrary: vs) (auto intro: heap_insert_in_order[OF assms])
  then show "in_order cf (fold (heap_insert cf) xs [])" by simp
  show "in_order cf (sort_stable cf xs)" by (rule in_order_sort_stable[OF assms])
  show "filter (\<lambda>y. cf z y = 0) (fold (heap_insert cf) xs []) = filter (\<lambda>y. cf z y = 0) (sort_stable cf xs)" for z
  proof -
    have "filter (\<lambda>y. cf z y = 0) (fold (heap_insert cf) xs vs) = filter (\<lambda>y. cf z y = 0) (vs @ xs)" for vs
      by (induction xs arbitrary: vs) (simp_all add: heap_insert_last[OF assms])
    then show ?thesis by (simp add: sort_stable_stable[OF assms])
  qed
qed

lemma Heap_push_all:
  "hp_rep cf hs vs \<Longrightarrow> \<exists>hs'. push_all Heap_Push xs hs = Some hs' \<and> hp_rep cf hs' (fold (heap_insert cf) xs vs)"
proof (induction xs arbitrary: hs vs)
  case (Cons x xs)
  obtain hs1 where "Heap_Push x hs = Some hs1" "hp_rep cf hs1 (heap_insert cf x vs)"
    using Heap_Push_step[OF Cons.prems] by blast
  with Cons.IH[of hs1] show ?case by auto
qed simp

lemma Heap_pop_n:
  "hp_rep cf hs vs \<Longrightarrow> \<exists>hs'. pop_n Heap_Pop (length vs) hs = Some (map (\<lambda>v. (v, True)) vs, hs') \<and> hp_rep cf hs' []"
proof (induction vs arbitrary: hs)
  case (Cons v vs)
  obtain hs1 where "Heap_Pop hs = Some ((v, True), hs1)" "hp_rep cf hs1 vs" using Heap_Pop_step[OF Cons.prems] by auto
  with Cons.IH[of hs1] show ?case by auto
qed auto

text \<open>
  C37: A \<open>Heap\<close> is a stable priority queue: whatever is pushed into a new heap comes out in the order of
  the comparison function, equal values in the order they were pushed, and then the heap says that it
  is empty.
\<close>

theorem Heap_stable_queue:
  assumes "cmp_ok cf"
  shows "\<exists>hs1 hs2 hs3. push_all Heap_Push xs (\<lparr>CF = Some cf, hp_data = None\<rparr>, s) = Some hs1
     \<and> pop_n Heap_Pop (length xs) hs1 = Some (map (\<lambda>v. (v, True)) (sort_stable cf xs), hs2)
     \<and> Heap_Pop hs2 = Some ((0, False), hs3)"
proof -
  have "hp_rep cf (\<lparr>CF = Some cf, hp_data = None\<rparr>, s) []" by (simp add: hp_rep_def)
  from Heap_push_all[OF this, of xs]
  obtain hs1 where h: "push_all Heap_Push xs (\<lparr>CF = Some cf, hp_data = None\<rparr>, s) = Some hs1" "hp_rep cf hs1 (sort_stable cf xs)"
    by (auto simp: heap_pushes_sort[OF assms])
  obtain hs2 where q: "pop_n Heap_Pop (length xs) hs1 = Some (map (\<lambda>v. (v, True)) (sort_stable cf xs), hs2)" "hp_rep cf hs2 []"
    using Heap_pop_n[OF h(2)] mset_eq_length[OF mset_sort_stable[of cf xs]] by auto
  obtain hs3 where "Heap_Pop hs2 = Some ((0, False), hs3)" using Heap_Pop_step[OF q(2)] by auto
  with h(1) q(1) show ?thesis by blast
qed

lemma Heap_stable_queue_witness:
  "\<exists>hs1 hs2 hs3. push_all Heap_Push [3, 1, 2] (\<lparr>CF = Some (\<lambda>a b. a - b), hp_data = None\<rparr>, empty_store) = Some hs1
     \<and> pop_n Heap_Pop 3 hs1 = Some ([(1, True), (2, True), (3 :: int, True)], hs2) \<and> Heap_Pop hs2 = Some ((0, False), hs3)"
  using Heap_stable_queue[OF cmp_minus, of "[3, 1, 2]" empty_store] by (auto simp: sort_stable_def numeral_3_eq_3)

definition Heap_holds :: "('a::zero \<Rightarrow> 'a \<Rightarrow> int) \<Rightarrow> 'a hstate \<Rightarrow> 'a multiset \<Rightarrow> bool" where
  "Heap_holds cf hs M \<longleftrightarrow> cmp_ok cf \<and> (\<exists>vs. hp_rep cf hs vs \<and> in_order cf vs \<and> mset vs = M)"

interpretation hpq: priority_queue cf "Heap_holds cf" Heap_Push Heap_Pop for cf
proof
  fix hs M x assume "Heap_holds cf hs M"
  then show "\<exists>hs'. Heap_Push x hs = Some hs' \<and> Heap_holds cf hs' (add_mset x M)"
    using Heap_Push_step heap_insert_in_order heap_insert_mset unfolding Heap_holds_def by metis
next
  fix hs assume "Heap_holds cf hs {#}"
  then show "\<exists>z hs'. Heap_Pop hs = Some ((z, False), hs') \<and> Heap_holds cf hs' {#}"
    using Heap_Pop_step[of cf hs "[]"] by (auto simp: Heap_holds_def)
next
  fix hs y M assume "Heap_holds cf hs (add_mset y M)"
  then obtain vs where v: "cmp_ok cf" "hp_rep cf hs vs" "in_order cf vs" "mset vs = add_mset y M"
    by (auto simp: Heap_holds_def)
  then obtain x xs where vs: "vs = x # xs" by (cases vs) auto
  have r: "cf x x \<le> 0" using cmp_refl[OF v(1), of x] by simp
  have M: "add_mset y M = add_mset x (mset xs)" using v(4) vs by simp
  obtain hs' where "Heap_Pop hs = Some ((x, True), hs')" "hp_rep cf hs' xs" using Heap_Pop_step[OF v(2)] vs by auto
  then show "\<exists>x hs'. Heap_Pop hs = Some ((x, True), hs') \<and> x \<in># add_mset y M \<and> (\<forall>z \<in># add_mset y M. cf x z \<le> 0)
     \<and> Heap_holds cf hs' (add_mset y M - {#x#})"
    unfolding M using v(1,3) vs r by (intro exI[of _ x] exI[of _ hs']) (auto simp: Heap_holds_def)
qed

subsection \<open>\<open>BinHeap\<close>: a slice and \<open>container/heap\<close>\<close>

record 'a BinHeap =
  bh_CF :: "('a \<Rightarrow> 'a \<Rightarrow> int) option"
  bh_data :: "'a list"

text \<open>The adapter's methods, and \<open>up\<close>, \<open>down\<close>, \<open>Push\<close> and \<open>Pop\<close> of the library over them.\<close>

definition bh_Less :: "('a \<Rightarrow> 'a \<Rightarrow> int) \<Rightarrow> 'a list \<Rightarrow> nat \<Rightarrow> nat \<Rightarrow> bool" where
  "bh_Less cf xs i j \<longleftrightarrow> cf (xs ! i) (xs ! j) < 0"

definition bh_Swap :: "nat \<Rightarrow> nat \<Rightarrow> 'a list \<Rightarrow> 'a list" where
  "bh_Swap i j xs = xs[i := xs ! j, j := xs ! i]"

definition bh_take_last :: "'a list \<Rightarrow> 'a \<times> 'a list" where
  "bh_take_last xs = (xs ! (length xs - 1), take (length xs - 1) xs)"

definition heap_parent :: "nat \<Rightarrow> nat" where
  "heap_parent j = (j - 1) div 2"

lemma heap_parent_less: "0 < j \<Longrightarrow> heap_parent j < j"
  by (simp add: heap_parent_def)

lemma heap_parent_child [simp]: "heap_parent (2 * i + 1) = i" "heap_parent (2 * i + 1 + 1) = i"
  by (simp_all add: heap_parent_def)

lemma heap_parent_cases: "0 < k \<Longrightarrow> heap_parent k = i \<Longrightarrow> k = 2 * i + 1 \<or> k = 2 * i + 1 + 1"
  by (auto simp: heap_parent_def)

function heap_up :: "('a \<Rightarrow> 'a \<Rightarrow> int) \<Rightarrow> nat \<Rightarrow> 'a list \<Rightarrow> 'a list" where
  "heap_up cf j xs =
     (let i = heap_parent j in
      if i = j \<or> \<not> bh_Less cf xs j i then xs else heap_up cf i (bh_Swap i j xs))"
  by pat_completeness auto
termination by (relation "measure (\<lambda>(_, j, _). j)") (auto simp: heap_parent_def)

declare heap_up.simps [simp del]

function heap_down :: "('a \<Rightarrow> 'a \<Rightarrow> int) \<Rightarrow> nat \<Rightarrow> nat \<Rightarrow> 'a list \<Rightarrow> 'a list" where
  "heap_down cf i n xs =
     (let j1 = 2 * i + 1 in
      if j1 \<ge> n then xs
      else let j = (if j1 + 1 < n \<and> bh_Less cf xs (j1 + 1) j1 then j1 + 1 else j1) in
           if \<not> bh_Less cf xs j i then xs else heap_down cf j n (bh_Swap i j xs))"
  by pat_completeness auto
termination by (relation "measure (\<lambda>(_, i, n, _). n - i)") (auto simp: Let_def split: if_splits)

declare heap_down.simps [simp del]

definition BinHeap_Push :: "'a \<Rightarrow> 'a BinHeap \<Rightarrow> 'a BinHeap option" where
  "BinHeap_Push t h =
     (case bh_CF h of
        None \<Rightarrow> None
      | Some cf \<Rightarrow> let xs = bh_data h @ [t] in Some (h\<lparr>bh_data := heap_up cf (length xs - 1) xs\<rparr>))"

definition BinHeap_Len :: "'a BinHeap \<Rightarrow> int" where
  "BinHeap_Len h = int (length (bh_data h))"

definition BinHeap_Pop :: "'a::zero BinHeap \<Rightarrow> (('a \<times> bool) \<times> 'a BinHeap) option" where
  "BinHeap_Pop h =
     (if bh_data h = [] then Some ((0, False), h)
      else case bh_CF h of
        None \<Rightarrow> None
      | Some cf \<Rightarrow>
          let n = length (bh_data h) - 1;
              xs = heap_down cf 0 n (bh_Swap 0 n (bh_data h));
              (v, ys) = bh_take_last xs
          in Some ((v, True), h\<lparr>bh_data := ys\<rparr>))"

definition BinHeap_Peek :: "'a::zero BinHeap \<Rightarrow> 'a \<times> bool" where
  "BinHeap_Peek h = (case bh_data h of [] \<Rightarrow> (0, False) | x # _ \<Rightarrow> (x, True))"

text \<open>
  The heap order on the first \<open>n\<close> places, and the two states of the sifts: everything is in order except
  between one place and its parent, or its children.
\<close>

definition heap_ok :: "('a \<Rightarrow> 'a \<Rightarrow> int) \<Rightarrow> nat \<Rightarrow> 'a list \<Rightarrow> bool" where
  "heap_ok cf n xs \<longleftrightarrow> n \<le> length xs \<and> (\<forall>k < n. 0 < k \<longrightarrow> cf (xs ! (heap_parent k)) (xs ! k) \<le> 0)"

definition up_ok :: "('a \<Rightarrow> 'a \<Rightarrow> int) \<Rightarrow> nat \<Rightarrow> nat \<Rightarrow> 'a list \<Rightarrow> bool" where
  "up_ok cf j n xs \<longleftrightarrow> j < n \<and> n \<le> length xs
     \<and> (\<forall>k < n. 0 < k \<and> k \<noteq> j \<longrightarrow> cf (xs ! (heap_parent k)) (xs ! k) \<le> 0)
     \<and> (\<forall>k < n. 0 < k \<and> 0 < j \<and> heap_parent k = j \<longrightarrow> cf (xs ! (heap_parent j)) (xs ! k) \<le> 0)"

definition down_ok :: "('a \<Rightarrow> 'a \<Rightarrow> int) \<Rightarrow> nat \<Rightarrow> nat \<Rightarrow> 'a list \<Rightarrow> bool" where
  "down_ok cf i n xs \<longleftrightarrow> n \<le> length xs
     \<and> (\<forall>k < n. 0 < k \<and> heap_parent k \<noteq> i \<longrightarrow> cf (xs ! (heap_parent k)) (xs ! k) \<le> 0)
     \<and> (\<forall>k < n. 0 < k \<and> 0 < i \<and> heap_parent k = i \<longrightarrow> cf (xs ! (heap_parent i)) (xs ! k) \<le> 0)"

lemma length_bh_Swap [simp]: "length (bh_Swap i j xs) = length xs"
  by (simp add: bh_Swap_def)

lemma nth_bh_Swap:
  "i < length xs \<Longrightarrow> j < length xs \<Longrightarrow> k < length xs \<Longrightarrow> bh_Swap i j xs ! k = (if k = j then xs ! i else if k = i then xs ! j else xs ! k)"
  by (simp add: bh_Swap_def nth_list_update)

lemma mset_bh_Swap [simp]: "i < length xs \<Longrightarrow> j < length xs \<Longrightarrow> mset (bh_Swap i j xs) = mset xs"
  by (simp add: bh_Swap_def mset_swap)

lemma heap_up_ok:
  assumes "cmp_ok cf" "up_ok cf j n xs"
  shows "heap_ok cf n (heap_up cf j xs)" "mset (heap_up cf j xs) = mset xs" "length (heap_up cf j xs) = length xs"
proof -
  have "heap_ok cf n (heap_up cf j xs) \<and> mset (heap_up cf j xs) = mset xs \<and> length (heap_up cf j xs) = length xs"
    using assms
  proof (induction cf j xs rule: heap_up.induct[case_names step])
    case (step cf j xs)
    define i where "i = heap_parent j"
    have unf: "heap_up cf j xs = (if i = j \<or> \<not> bh_Less cf xs j i then xs else heap_up cf i (bh_Swap i j xs))"
      by (subst heap_up.simps) (simp add: i_def Let_def)
    show ?case
    proof (cases "i = j \<or> \<not> bh_Less cf xs j i")
      case True
      then have "heap_up cf j xs = xs" using unf by simp
      moreover have "cf (xs ! i) (xs ! j) \<le> 0" if "0 < j"
        using True heap_parent_less[OF that] cmp_total[OF step.prems(1)] by (auto simp: i_def bh_Less_def)
      ultimately show ?thesis using step.prems by (auto simp: up_ok_def heap_ok_def i_def)
    next
      case False
      have u: "j < n" "n \<le> length xs" "\<And>k. k < n \<Longrightarrow> 0 < k \<Longrightarrow> k \<noteq> j \<Longrightarrow> cf (xs ! (heap_parent k)) (xs ! k) \<le> 0"
          "\<And>k. k < n \<Longrightarrow> 0 < k \<Longrightarrow> 0 < j \<Longrightarrow> heap_parent k = j \<Longrightarrow> cf (xs ! i) (xs ! k) \<le> 0"
        using step.prems by (auto simp: up_ok_def i_def)
      have ij: "i < j" "0 < j" and less: "cf (xs ! j) (xs ! i) \<le> 0"
        using False heap_parent_less[of j] by (cases j; auto simp: i_def bh_Less_def heap_parent_def)+
      define ys where "ys = bh_Swap i j xs"
      have nth: "ys ! k = (if k = j then xs ! i else if k = i then xs ! j else xs ! k)" if "k < n" for k
        using that u ij unfolding ys_def by (intro nth_bh_Swap) auto
      have par: "heap_parent k < k" "heap_parent k < n" if "0 < k" "k < n" for k
        using heap_parent_less[OF that(1)] that(2) by linarith+
      note tr = cmp_trans[OF step.prems(1)]
      have "up_ok cf i n ys"
        unfolding up_ok_def
      proof (intro conjI allI impI)
        show "i < n" "n \<le> length ys" using ij u by (auto simp: ys_def)
      next
        fix k assume k: "k < n" "0 < k \<and> k \<noteq> i"
        show "cf (ys ! (heap_parent k)) (ys ! k) \<le> 0"
        proof (cases "k = j")
          case True
          then show ?thesis using nth[of i] nth[of j] ij u less i_def by auto
        next
          case kj: False
          have a: "cf (xs ! (heap_parent k)) (xs ! k) \<le> 0" using u(3) k kj by blast
          have b: "ys ! k = xs ! k" using nth k kj by simp
          consider "heap_parent k = j" | "heap_parent k = i" | "heap_parent k \<noteq> j" "heap_parent k \<noteq> i" by blast
          then show ?thesis
          proof cases
            case 1
            then show ?thesis using u(4)[of k] k ij nth[of j] u(1) b by simp
          next
            case 2
            then show ?thesis using tr[OF less, of "xs ! k"] a b nth[of i] ij u(1) by simp
          next
            case 3
            then show ?thesis using nth[of "heap_parent k"] par[of k] k a b by simp
          qed
        qed
      next
        fix k assume k: "k < n" "0 < k \<and> 0 < i \<and> heap_parent k = i"
        have p: "cf (xs ! (heap_parent i)) (xs ! i) \<le> 0" using u(1) u(3)[of i] k ij by simp
        have "heap_parent i < i" "heap_parent i < n" using par[of i] ij u(1) k by linarith+
        then have q: "ys ! (heap_parent i) = xs ! (heap_parent i)" using nth[of "heap_parent i"] ij by simp
        show "cf (ys ! (heap_parent i)) (ys ! k) \<le> 0"
        proof (cases "k = j")
          case True
          then show ?thesis using p q nth[of j] u(1) by simp
        next
          case kj: False
          have "cf (xs ! i) (xs ! k) \<le> 0" using u(3)[of k] k kj by simp
          moreover have "k \<noteq> i" using par(1)[of k] k by auto
          ultimately show ?thesis using tr[OF p, of "xs ! k"] q nth[of k] k kj by simp
        qed
      qed
      from step.IH[OF i_def False step.prems(1) this[unfolded ys_def]]
      show ?thesis using False u(1,2) ij unf by (simp add: ys_def)
    qed
  qed
  then show "heap_ok cf n (heap_up cf j xs)" "mset (heap_up cf j xs) = mset xs" "length (heap_up cf j xs) = length xs" by auto
qed

lemma heap_down_ok:
  assumes "cmp_ok cf" "down_ok cf i n xs"
  shows "heap_ok cf n (heap_down cf i n xs) \<and> mset (heap_down cf i n xs) = mset xs
     \<and> length (heap_down cf i n xs) = length xs \<and> (\<forall>k. n \<le> k \<and> k < length xs \<longrightarrow> heap_down cf i n xs ! k = xs ! k)"
  using assms
proof (induction cf i n xs rule: heap_down.induct[case_names step])
  case (step cf i n xs)
  define j1 where "j1 = 2 * i + 1"
  define j where "j = (if j1 + 1 < n \<and> bh_Less cf xs (j1 + 1) j1 then j1 + 1 else j1)"
  have unf: "heap_down cf i n xs = (if j1 \<ge> n then xs else if \<not> bh_Less cf xs j i then xs else heap_down cf j n (bh_Swap i j xs))"
    by (subst heap_down.simps) (simp add: j1_def j_def Let_def)
  have d: "n \<le> length xs" "\<And>k. k < n \<Longrightarrow> 0 < k \<Longrightarrow> heap_parent k \<noteq> i \<Longrightarrow> cf (xs ! (heap_parent k)) (xs ! k) \<le> 0"
      "\<And>k. k < n \<Longrightarrow> 0 < k \<Longrightarrow> 0 < i \<Longrightarrow> heap_parent k = i \<Longrightarrow> cf (xs ! (heap_parent i)) (xs ! k) \<le> 0"
    using step.prems by (auto simp: down_ok_def)
  have kids: "k = j1 \<or> k = j1 + 1" if "0 < k" "heap_parent k = i" for k using heap_parent_cases[OF that] by (simp add: j1_def)
  note tr = cmp_trans[OF step.prems(1)]
  have refl: "cf x x \<le> 0" for x using cmp_refl[OF step.prems(1), of x] by simp
  have least: "cf (xs ! j) (xs ! k) \<le> 0" if "k < n" "0 < k" "heap_parent k = i" for k
    using kids[OF that(2,3)] that(1) refl cmp_total[OF step.prems(1)] by (auto simp: j_def bh_Less_def)
  show ?case
  proof (cases "j1 \<ge> n")
    case True
    have "heap_parent k \<noteq> i" if "k < n" "0 < k" for k using kids[OF that(2)] that(1) True by linarith
    then have "heap_ok cf n xs" unfolding heap_ok_def using d(1,2) by blast
    then show ?thesis using unf True by simp
  next
    case j1n: False
    have jn: "j < n" "0 < j" "i < j" using j1n by (simp_all add: j_def j1_def)
    have jp: "heap_parent j = i" using heap_parent_child[of i] by (simp add: j_def j1_def del: heap_parent_child)
    show ?thesis
    proof (cases "bh_Less cf xs j i")
      case False
      then have c: "cf (xs ! i) (xs ! j) \<le> 0" using cmp_total[OF step.prems(1)] by (simp add: bh_Less_def)
      have "cf (xs ! (heap_parent k)) (xs ! k) \<le> 0" if "k < n" "0 < k" for k
        using d(2)[OF that] least[OF that] tr[OF c, of "xs ! k"] by blast
      then have "heap_ok cf n xs" using d(1) by (simp add: heap_ok_def)
      then show ?thesis using unf False by simp
    next
      case True
      then have less: "cf (xs ! j) (xs ! i) \<le> 0" by (simp add: bh_Less_def)
      define ys where "ys = bh_Swap i j xs"
      have nth: "ys ! k = (if k = j then xs ! i else if k = i then xs ! j else xs ! k)" if "k < length xs" for k
        using that d(1) jn unfolding ys_def by (intro nth_bh_Swap) auto
      have lt: "i < length xs" "j < length xs" using jn d(1) by auto
      have "down_ok cf j n ys"
        unfolding down_ok_def
      proof (intro conjI allI impI)
        show "n \<le> length ys" using d(1) by (simp add: ys_def)
      next
        fix k assume k: "k < n" "0 < k \<and> heap_parent k \<noteq> j"
        have kl: "k < length xs" "heap_parent k < length xs" "heap_parent k < k"
          using k d(1) heap_parent_less[of k] by linarith+
        show "cf (ys ! (heap_parent k)) (ys ! k) \<le> 0"
        proof (cases "heap_parent k = i")
          case True
          have "cf (xs ! j) (xs ! k) \<le> 0" using least[OF k(1) _ True] k(2) by blast
          moreover have "k \<noteq> i" "i \<noteq> j" using True kl(3) jn(3) by linarith+
          ultimately show ?thesis using True nth[OF lt(1)] nth[OF kl(1)] less by simp
        next
          case ki: False
          have kj: "k \<noteq> j" using jp ki by blast
          have pk: "ys ! (heap_parent k) = xs ! (heap_parent k)" using nth[OF kl(2)] ki k(2) by simp
          show ?thesis
          proof (cases "k = i")
            case True
            then show ?thesis using d(3)[OF jn(1,2) _ jp] pk nth[OF kl(1)] kj k(2) by simp
          next
            case False
            then show ?thesis using d(2)[OF k(1) _ ki] pk nth[OF kl(1)] kj k(2) by simp
          qed
        qed
      next
        fix k assume k: "k < n" "0 < k \<and> 0 < j \<and> heap_parent k = j"
        then have kl: "k \<noteq> j" "k \<noteq> i" "k < length xs" "i \<noteq> j" using jn d(1) heap_parent_less[of k] by linarith+
        have "cf (xs ! j) (xs ! k) \<le> 0" using d(2)[of k] k kl(4) by auto
        then show "cf (ys ! (heap_parent j)) (ys ! k) \<le> 0"
          using jp nth[OF kl(3)] nth[OF lt(1)] kl by simp
      qed
      from step.IH[OF j1_def _ j_def, unfolded ys_def[symmetric], OF _ _ step.prems(1) this] j1n True
      have IH: "heap_ok cf n (heap_down cf j n ys) \<and> mset (heap_down cf j n ys) = mset ys
         \<and> length (heap_down cf j n ys) = length ys \<and> (\<forall>k. n \<le> k \<and> k < length ys \<longrightarrow> heap_down cf j n ys ! k = ys ! k)"
        by simp
      have "ys ! k = xs ! k" if "n \<le> k" "k < length xs" for k using nth[of k] that jn by auto
      then show ?thesis using IH unf j1n True lt by (simp add: ys_def)
    qed
  qed
qed

lemma heap_ok_least:
  assumes "cmp_ok cf" "heap_ok cf n xs" "k < n"
  shows "cf (xs ! 0) (xs ! k) \<le> 0"
  using assms(3)
proof (induction k rule: less_induct)
  case (less k)
  show ?case
  proof (cases "k = 0")
    case True
    then show ?thesis using cmp_refl[OF assms(1)] by simp
  next
    case False
    then have "heap_parent k < k" by (simp add: heap_parent_less)
    then have "cf (xs ! 0) (xs ! (heap_parent k)) \<le> 0" using less by simp
    then show ?thesis using cmp_trans[OF assms(1)] assms(2) less.prems False unfolding heap_ok_def by blast
  qed
qed

definition BinHeap_holds :: "('a::zero \<Rightarrow> 'a \<Rightarrow> int) \<Rightarrow> 'a BinHeap \<Rightarrow> 'a multiset \<Rightarrow> bool" where
  "BinHeap_holds cf h M \<longleftrightarrow> cmp_ok cf \<and> bh_CF h = Some cf \<and> heap_ok cf (length (bh_data h)) (bh_data h) \<and> mset (bh_data h) = M"

lemma BinHeap_Push_step:
  assumes "BinHeap_holds cf h M"
  shows "\<exists>h'. BinHeap_Push x h = Some h' \<and> BinHeap_holds cf h' (add_mset x M)"
proof -
  define xs where "xs = bh_data h @ [x]"
  note par = heap_parent_less
  have "up_ok cf (length xs - 1) (length xs) xs"
    unfolding up_ok_def
  proof (intro conjI allI impI)
    fix k assume k: "k < length xs" "0 < k \<and> k \<noteq> length xs - 1"
    then show "cf (xs ! (heap_parent k)) (xs ! k) \<le> 0"
      using assms par[of k] by (auto simp: BinHeap_holds_def heap_ok_def xs_def nth_append)
  next
    fix k assume k: "k < length xs" "0 < k \<and> 0 < length xs - 1 \<and> heap_parent k = length xs - 1"
    then show "cf (xs ! (heap_parent (length xs - 1))) (xs ! k) \<le> 0" using par[of k] by simp
  qed (simp_all add: xs_def)
  from heap_up_ok[OF _ this] show ?thesis
    using assms by (auto simp: BinHeap_holds_def BinHeap_Push_def Let_def xs_def)
qed

lemma BinHeap_Pop_step:
  assumes "BinHeap_holds cf h (add_mset y M)"
  shows "\<exists>x h'. BinHeap_Pop h = Some ((x, True), h') \<and> x \<in># add_mset y M \<and> (\<forall>z \<in># add_mset y M. cf x z \<le> 0)
     \<and> BinHeap_holds cf h' (add_mset y M - {#x#})"
proof -
  define xs where "xs = bh_data h"
  define n where "n = length xs - 1"
  have a: "cmp_ok cf" "bh_CF h = Some cf" "heap_ok cf (length xs) xs" "mset xs = add_mset y M"
    using assms by (auto simp: BinHeap_holds_def xs_def)
  then have "xs \<noteq> []" by auto
  then have ne: "xs \<noteq> []" "n < length xs" "0 < length xs" "length xs = Suc n" by (auto simp: n_def)
  define ys where "ys = bh_Swap 0 n xs"
  have nth: "ys ! k = (if k = n then xs ! 0 else if k = 0 then xs ! n else xs ! k)" if "k < length xs" for k
    using that ne unfolding ys_def by (intro nth_bh_Swap) auto
  have "down_ok cf 0 n ys"
    unfolding down_ok_def
  proof (intro conjI allI impI)
    show "n \<le> length ys" using ne by (simp add: ys_def)
  next
    fix k assume k: "k < n" "0 < k \<and> heap_parent k \<noteq> 0"
    then show "cf (ys ! (heap_parent k)) (ys ! k) \<le> 0"
      using nth[of k] nth[of "heap_parent k"] heap_parent_less[of k] a(3) ne by (auto simp: heap_ok_def)
  qed simp
  from heap_down_ok[OF a(1) this]
  obtain zs where z: "zs = heap_down cf 0 n ys" "heap_ok cf n zs" "mset zs = mset ys" "length zs = length ys" "zs ! n = ys ! n"
    using ne by (auto simp: ys_def)
  have last: "zs ! n = xs ! 0" using z(5) nth ne by simp
  have ms: "mset ys = mset xs" using ne by (simp add: ys_def)
  have len: "length zs = Suc n" using z(4) ne by (simp add: ys_def)
  then have app: "zs = take n zs @ [zs ! n]" by (metis take_Suc_conv_app_nth lessI take_all order_refl)
  have tk: "mset (take n zs) = add_mset y M - {#xs ! 0#}"
    using arg_cong[OF app, of mset] z(3) ms a(4) last by simp
  have least: "cf (xs ! 0) z \<le> 0" if "z \<in># add_mset y M" for z
    using that a(4) heap_ok_least[OF a(1,3)] by (metis in_multiset_in_set in_set_conv_nth)
  have mem: "xs ! 0 \<in># add_mset y M" using a(4) ne by (metis nth_mem set_mset_mset)
  have ok: "heap_ok cf (length (take n zs)) (take n zs)"
    unfolding heap_ok_def
  proof (intro conjI allI impI)
    fix k assume k: "k < length (take n zs)" "0 < k"
    then have "k < n" "heap_parent k < n" using len heap_parent_less[OF k(2)] by auto
    then show "cf (take n zs ! (heap_parent k)) (take n zs ! k) \<le> 0" using z(2) k(2) by (simp add: heap_ok_def)
  qed simp
  have "BinHeap_Pop h = Some ((xs ! 0, True), h\<lparr>bh_data := take n zs\<rparr>)"
    using ne a(2) z(1) last len
    by (simp add: BinHeap_Pop_def xs_def[symmetric] n_def[symmetric] ys_def[symmetric] z(1)[symmetric] bh_take_last_def Let_def)
  moreover have "BinHeap_holds cf (h\<lparr>bh_data := take n zs\<rparr>) (add_mset y M - {#xs ! 0#})"
    using a(1,2) ok tk by (simp add: BinHeap_holds_def)
  ultimately show ?thesis using least mem by blast
qed

interpretation bpq: priority_queue cf "BinHeap_holds cf" BinHeap_Push BinHeap_Pop for cf
proof
  show "BinHeap_holds cf h M \<Longrightarrow> \<exists>h'. BinHeap_Push x h = Some h' \<and> BinHeap_holds cf h' (add_mset x M)" for h M x
    by (rule BinHeap_Push_step)
  show "BinHeap_holds cf h {#} \<Longrightarrow> \<exists>z h'. BinHeap_Pop h = Some ((z, False), h') \<and> BinHeap_holds cf h' {#}" for h
    by (simp add: BinHeap_Pop_def BinHeap_holds_def heap_ok_def)
  show "BinHeap_holds cf h (add_mset y M) \<Longrightarrow>
      \<exists>x h'. BinHeap_Pop h = Some ((x, True), h') \<and> x \<in># add_mset y M \<and> (\<forall>z \<in># add_mset y M. cf x z \<le> 0)
        \<and> BinHeap_holds cf h' (add_mset y M - {#x#})" for h y M
    by (rule BinHeap_Pop_step)
qed

text \<open>
  Pushing values into a new \<open>BinHeap\<close> and popping as many returns all of them, in the order of the
  comparison function, with no index out of range; the pop after that says that the heap is empty.
\<close>

theorem BinHeap_drain_sorts:
  assumes "cmp_ok cf"
  shows "\<exists>ys h1 h2 z h3. push_all BinHeap_Push xs \<lparr>bh_CF = Some cf, bh_data = []\<rparr> = Some h1
     \<and> pop_n BinHeap_Pop (length xs) h1 = Some (map (\<lambda>x. (x, True)) ys, h2)
     \<and> mset ys = mset xs \<and> in_order cf ys \<and> BinHeap_Pop h2 = Some ((z, False), h3)"
  by (rule bpq.drain_sorts) (use assms in \<open>simp add: BinHeap_holds_def heap_ok_def\<close>)

lemma BinHeap_drain_sorts_witness:
  "\<exists>ys h1 h2. push_all BinHeap_Push [3, 1, 2] \<lparr>bh_CF = Some (\<lambda>a b. a - b :: int), bh_data = []\<rparr> = Some h1
     \<and> pop_n BinHeap_Pop 3 h1 = Some (map (\<lambda>x. (x, True)) ys, h2) \<and> mset ys = {#1, 2, 3#} \<and> in_order (\<lambda>a b. a - b) ys"
  using BinHeap_drain_sorts[OF cmp_minus, of "[3, 1, 2]"] by (auto simp: numeral_3_eq_3 add_mset_commute)

end
