(* ===== verification/DtRing.thy ===== *)
theory DtRing
  imports IrtSeq
begin

text \<open>
  The ring buffer of \<open>src/dt/ring.go\<close>.

  \<open>rg_ring = None\<close> is the nil slice before the first use.  The slice \<open>nils\<close> of pointers into the buffer
  only tells which slots are filled, so it is a list of booleans.  Positions are 64-bit integers, and
  every read and write of a slot checks its index.  The results of operations are outcomes; a loop that
  need not end has an option outside.
\<close>

record 'a Ring =
  rg_size :: int
  rg_count :: int
  rg_pos :: int
  rg_total :: nat
  rg_ring :: "'a list option"
  rg_nils :: "bool list"

definition maxRingSize :: int where "maxRingSize = 4294967296"

definition defaultRingSize :: int where "defaultRingSize = 1024"

definition stw_Abs :: "int \<Rightarrow> int" where
  "stw_Abs i = (if i < 0 then wrap64 (i * -1) else i)"

definition Ring_zero :: "'a::zero Ring" where
  "Ring_zero = \<lparr>rg_size = 0, rg_count = 0, rg_pos = 0, rg_total = 0, rg_ring = None, rg_nils = []\<rparr>"

definition Ring_innerInit :: "'a::zero Ring \<Rightarrow> 'a Ring outcome" where
  "Ring_innerInit r =
     (let r1 = r\<lparr>rg_size := (if rg_size r = 0 then defaultRingSize else rg_size r)\<rparr> in
      if rg_size r1 > maxRingSize then Panic ''invalid size (max)''
      else if rg_size r1 < 2 then Panic ''invalid size (must be > 1)''
      else Done (r1\<lparr>rg_ring := Some (replicate (nat (rg_size r1)) 0), rg_nils := replicate (nat (rg_size r1)) False\<rparr>))"

definition Ring_init :: "'a::zero Ring \<Rightarrow> 'a Ring outcome" where
  "Ring_init r = (case rg_ring r of None \<Rightarrow> Ring_innerInit r | Some _ \<Rightarrow> Done r)"

definition Ring_Setup :: "int \<Rightarrow> 'a::zero Ring \<Rightarrow> 'a Ring outcome" where
  "Ring_Setup sz r = Ring_init (if rg_size r = 0 then r\<lparr>rg_size := sz\<rparr> else r)"

definition Ring_hasWrapped :: "'a Ring \<Rightarrow> bool" where
  "Ring_hasWrapped r \<longleftrightarrow> wrap64 (int (rg_total r)) > rg_size r"

definition Ring_offset :: "int \<Rightarrow> int \<Rightarrow> int \<Rightarrow> int" where
  "Ring_offset sz idx by' = wrap64 (wrap64 (sz * max 1 (stw_Abs idx)) + wrap64 (idx + by'))"

definition Ring_after :: "int \<Rightarrow> int \<Rightarrow> int" where
  "Ring_after sz idx = remd (Ring_offset sz idx 1) sz"

definition Ring_before :: "int \<Rightarrow> int \<Rightarrow> int" where
  "Ring_before sz idx = remd (Ring_offset sz idx (-1)) sz"

definition Ring_oldest :: "'a Ring \<Rightarrow> int" where
  "Ring_oldest r = (if Ring_hasWrapped r then rg_pos r else 0)"

definition Ring_Cap :: "'a Ring \<Rightarrow> int" where "Ring_Cap r = rg_size r"
definition Ring_Len :: "'a Ring \<Rightarrow> int" where "Ring_Len r = rg_count r"
definition Ring_Total :: "'a Ring \<Rightarrow> nat" where "Ring_Total r = rg_total r"

text \<open>Slots, with the bounds check of the language.\<close>

definition slot_read :: "'b list \<Rightarrow> int \<Rightarrow> 'b outcome" where
  "slot_read xs i = (if 0 \<le> i \<and> i < int (length xs) then Done (xs ! nat i) else Panic ''index out of range'')"

definition slot_write :: "'a \<Rightarrow> bool \<Rightarrow> int \<Rightarrow> 'a Ring \<Rightarrow> 'a Ring outcome" where
  "slot_write v b i r =
     (case rg_ring r of
        None \<Rightarrow> Panic ''index out of range''
      | Some xs \<Rightarrow>
          if 0 \<le> i \<and> i < int (length xs)
          then Done (r\<lparr>rg_ring := Some (xs[nat i := v]), rg_nils := (rg_nils r)[nat i := b]\<rparr>)
          else Panic ''index out of range'')"

definition slots :: "'a Ring \<Rightarrow> 'a list" where
  "slots r = (case rg_ring r of None \<Rightarrow> [] | Some xs \<Rightarrow> xs)"

definition Ring_Head :: "'a::zero Ring \<Rightarrow> ('a \<times> 'a Ring) outcome" where
  "Ring_Head r = on_done (Ring_init r) (\<lambda>r1. on_done (slot_read (slots r1) (Ring_oldest r1)) (\<lambda>v. Done (v, r1)))"

definition Ring_Tail :: "'a::zero Ring \<Rightarrow> ('a \<times> 'a Ring) outcome" where
  "Ring_Tail r = on_done (Ring_init r)
     (\<lambda>r1. on_done (slot_read (slots r1) (Ring_before (rg_size r1) (rg_pos r1))) (\<lambda>v. Done (v, r1)))"

definition Ring_Push :: "'a::zero \<Rightarrow> 'a Ring \<Rightarrow> 'a Ring outcome" where
  "Ring_Push val r =
     on_done (Ring_init r) (\<lambda>r1.
       let r2 = r1\<lparr>rg_total := (rg_total r1 + 1) mod 2 ^ 64\<rparr>;
           r3 = (if rg_count r2 < rg_size r2 then r2\<lparr>rg_count := rg_count r2 + 1\<rparr> else r2)
       in on_done (slot_write val True (rg_pos r3) r3) (\<lambda>r4.
            Done (r4\<lparr>rg_pos := Ring_after (rg_size r4) (rg_pos r4)\<rparr>)))"

partial_function (option) Ring_Pop_loop :: "int \<Rightarrow> 'a::zero Ring \<Rightarrow> ('a option \<times> 'a Ring) outcome option" where
  "Ring_Pop_loop idx r =
     (if rg_count r > 0
      then case slot_read (rg_nils r) idx of
             Panic m \<Rightarrow> Some (Panic m)
           | Done filled \<Rightarrow>
               if \<not> filled then Ring_Pop_loop (Ring_after (rg_size r) idx) r
               else Some (on_done (slot_read (slots r) idx) (\<lambda>item.
                     on_done (slot_write 0 False idx r) (\<lambda>r1.
                     Done (Some item, r1\<lparr>rg_count := rg_count r1 - 1\<rparr>))))
      else Some (Done (None, r)))"

definition Ring_Pop :: "'a::zero Ring \<Rightarrow> ('a option \<times> 'a Ring) outcome option" where
  "Ring_Pop r = (case Ring_init r of Panic m \<Rightarrow> Some (Panic m) | Done r1 \<Rightarrow> Ring_Pop_loop (Ring_oldest r1) r1)"

text \<open>
  The iterators.  \<open>count\<close> and \<open>next\<close> are captured variables: they keep their values when the same
  sequence is run again.  The ring is part of the state, since the consumer may change it.
\<close>

partial_function (option) Ring_iterate_loop ::
    "int \<Rightarrow> (int \<Rightarrow> int) \<Rightarrow> ('a, 'a Ring \<times> 's) yield \<Rightarrow> int \<times> int \<Rightarrow> 'a Ring \<times> 's \<Rightarrow> ((int \<times> int) \<times> 'a Ring \<times> 's) option" where
  "Ring_iterate_loop from' advance yield vars rs =
     (case vars of (count, nxt) \<Rightarrow>
       if rg_count (fst rs) > 0 \<and> (count = 0 \<or> nxt \<noteq> from')
       then let current = nxt; nxt' = advance current; count' = count + 1 in
            (case slot_read (rg_nils (fst rs)) current of
               Panic _ \<Rightarrow> None
             | Done filled \<Rightarrow>
                 if \<not> filled then Ring_iterate_loop from' advance yield (count', nxt') rs
                 else (case slot_read (slots (fst rs)) current of
                    Panic _ \<Rightarrow> None
                  | Done v \<Rightarrow>
                      do { (ok, rs') \<leftarrow> yield v rs;
                           if ok then Ring_iterate_loop from' advance yield (count', nxt') rs' else Some ((count', nxt'), rs') }))
       else Some (vars, rs))"

definition Ring_FIFO :: "'a::zero Ring \<Rightarrow> ('a Ring \<times> int) outcome" where
  "Ring_FIFO r = on_done (Ring_init r) (\<lambda>r1. Done (r1, Ring_oldest r1))"

definition Ring_LIFO :: "'a::zero Ring \<Rightarrow> ('a Ring \<times> int) outcome" where
  "Ring_LIFO r = on_done (Ring_init r) (\<lambda>r1. Done (r1, Ring_before (rg_size r1) (rg_pos r1)))"

definition Ring_iterate :: "int \<Rightarrow> (int \<Rightarrow> int) \<Rightarrow> ('a, 'a Ring \<times> 's) yield \<Rightarrow> 'a Ring \<times> 's \<Rightarrow> ((int \<times> int) \<times> 'a Ring \<times> 's) option" where
  "Ring_iterate from' advance yield rs = Ring_iterate_loop from' advance yield (0, from') rs"

partial_function (option) Ring_PopFIFO :: "('a::zero, 'a Ring \<times> 's) seq" where
  "Ring_PopFIFO yield rs =
     do { p \<leftarrow> Ring_Pop (fst rs);
          (case p of
             Panic _ \<Rightarrow> None
           | Done (None, r') \<Rightarrow> Some (r', snd rs)
           | Done (Some v, r') \<Rightarrow> do { (ok, rs') \<leftarrow> yield v (r', snd rs); if ok then Ring_PopFIFO yield rs' else Some rs' }) }"

declare Ring_Pop_loop.simps [code] Ring_iterate_loop.simps [code] Ring_PopFIFO.simps [code]

subsection \<open>Positions\<close>

text \<open>Up to this size the products of \<open>offset\<close> stay within 64 bits.\<close>

definition safeRingSize :: int where "safeRingSize = 3037000499"

lemma Ring_step_positions:
  assumes "2 \<le> n" "n \<le> safeRingSize" "0 \<le> i" "i < n"
  shows "Ring_after n i = (i + 1) mod n" "Ring_before n i = (i - 1) mod n"
proof -
  have "n * max 1 i \<le> n * n" using assms by (intro mult_left_mono) auto
  also have "n * n \<le> safeRingSize * safeRingSize" using assms by (intro mult_mono) auto
  finally have b: "n * max 1 i \<le> 9223372030926249001" by (simp add: safeRingSize_def)
  have p: "1 * 1 \<le> n * max 1 i" by (intro mult_mono) (use assms in auto)
  have s: "n \<le> n * max 1 i" using assms(1) by (simp add: mult_le_cancel_left1)
  have ab: "stw_Abs i = i" using assms(3) by (simp add: stw_Abs_def)
  have n: "n \<le> 3037000499" using assms(2) by (simp add: safeRingSize_def)
  have o: "Ring_offset n i k = n * max 1 i + (i + k)" if "k = 1 \<or> k = -1" for k
    using that b p n assms(1,3,4) unfolding Ring_offset_def ab by (subst (1 2 3) wrap64_id) (auto simp: minInt_def maxInt_def)
  have "Ring_after n i = (n * max 1 i + (i + 1)) mod n"
    unfolding Ring_after_def o[OF disjI1[OF refl]] using s assms by (intro remd_nonneg) auto
  then show "Ring_after n i = (i + 1) mod n" by simp
  have "Ring_before n i = (n * max 1 i + (i + -1)) mod n"
    unfolding Ring_before_def o[OF disjI2[OF refl]] using s assms by (intro remd_nonneg) linarith+
  then show "Ring_before n i = (i - 1) mod n" by simp
qed


lemma Ring_positions_mod:
  assumes "2 \<le> n" "n \<le> safeRingSize"
  shows "Ring_after n (int m mod n) = int (Suc m) mod n" "0 < m \<Longrightarrow> Ring_before n (int m mod n) = int (m - 1) mod n"
  using Ring_step_positions[OF assms, of "int m mod n"] assms(1)
  by (simp_all add: mod_simps of_nat_diff algebra_simps)

text \<open>
  What a ring holds.  The pushes are numbered from zero; push \<open>m\<close> goes to slot \<open>m\<close> modulo the size.  The
  values still in the ring are those of the last pushes, and every other slot is empty and zero.
\<close>

definition rg_rep :: "'a::zero Ring \<Rightarrow> 'a list \<Rightarrow> bool" where
  "rg_rep r xs \<longleftrightarrow> 2 \<le> rg_size r \<and> rg_size r \<le> safeRingSize \<and> int (rg_total r) \<le> maxInt
     \<and> rg_count r = int (length xs) \<and> length xs \<le> rg_total r \<and> int (length xs) \<le> rg_size r
     \<and> rg_pos r = int (rg_total r) mod rg_size r
     \<and> (\<exists>sl. rg_ring r = Some sl \<and> int (length sl) = rg_size r \<and> length (rg_nils r) = length sl
          \<and> (\<forall>m. rg_total r - length xs \<le> m \<and> m < rg_total r \<longrightarrow>
                rg_nils r ! (m mod length sl) \<and> sl ! (m mod length sl) = xs ! (m - (rg_total r - length xs)))
          \<and> (\<forall>i < length sl. rg_nils r ! i \<longrightarrow> (\<exists>m. rg_total r - length xs \<le> m \<and> m < rg_total r \<and> i = m mod length sl))
          \<and> (\<forall>i < length sl. \<not> rg_nils r ! i \<longrightarrow> sl ! i = 0))"

text \<open>Two pushes less than a lap apart are in different slots.\<close>

lemma mod_eq_near: "m mod k = m' mod k \<Longrightarrow> m \<le> m' \<Longrightarrow> m' < m + k \<Longrightarrow> m = (m' :: nat)"
  using mod_eq_dvd_iff_nat[of m m' k] nat_dvd_not_less[of "m' - m" k] by force

lemma rg_rep_new:
  assumes "2 \<le> n" "n \<le> safeRingSize"
  shows "\<exists>r. Ring_Setup n Ring_zero = Done r \<and> rg_rep r [] \<and> rg_size r = n"
  using assms by (auto simp: Ring_Setup_def Ring_zero_def Ring_init_def Ring_innerInit_def rg_rep_def Let_def
      safeRingSize_def maxRingSize_def maxInt_def)

lemma Ring_init_rep: "rg_rep r xs \<Longrightarrow> Ring_init r = Done r"
  by (auto simp: rg_rep_def Ring_init_def)

lemma Ring_Push_rep:
  assumes "rg_rep r xs" "int (rg_total r) < maxInt"
  shows "\<exists>r'. Ring_Push v r = Done r' \<and> rg_size r' = rg_size r \<and> rg_total r' = rg_total r + 1
     \<and> rg_rep r' ((if int (length xs) = rg_size r then tl xs else xs) @ [v])"
proof -
  define n where "n = nat (rg_size r)"
  define ys where "ys = (if int (length xs) = rg_size r then tl xs else xs) @ [v]"
  obtain sl where sl: "rg_ring r = Some sl" "int (length sl) = rg_size r" "length (rg_nils r) = length sl"
     "\<And>m. rg_total r - length xs \<le> m \<Longrightarrow> m < rg_total r \<Longrightarrow>
        rg_nils r ! (m mod length sl) \<and> sl ! (m mod length sl) = xs ! (m - (rg_total r - length xs))"
     "\<And>i. i < length sl \<Longrightarrow> rg_nils r ! i \<Longrightarrow> \<exists>m. rg_total r - length xs \<le> m \<and> m < rg_total r \<and> i = m mod length sl"
     "\<And>i. i < length sl \<Longrightarrow> \<not> rg_nils r ! i \<Longrightarrow> sl ! i = 0"
    using assms(1) by (auto simp: rg_rep_def)
  have f: "2 \<le> rg_size r" "rg_size r \<le> safeRingSize" "rg_count r = int (length xs)" "length xs \<le> rg_total r"
    "int (length xs) \<le> rg_size r" "rg_pos r = int (rg_total r) mod rg_size r"
    using assms(1) by (auto simp: rg_rep_def)
  have len: "length sl = n" "int n = rg_size r" "0 < n" using sl(2) f(1) by (auto simp: n_def)
  define p where "p = rg_total r mod n"
  have pos: "rg_pos r = int p" "p < n" using f(6) len by (auto simp: p_def zmod_int)
  define t where "t = rg_total r"
  have t64: "(t + 1) mod 2 ^ 64 = t + 1" using assms(2) by (simp add: maxInt_def t_def)
  let ?r' = "r\<lparr>rg_total := t + 1, rg_count := int (length ys), rg_ring := Some (sl[p := v]), rg_nils := (rg_nils r)[p := True],
     rg_pos := int (t + 1) mod rg_size r\<rparr>"
  have cnt: "(if rg_count r < rg_size r then rg_count r + 1 else rg_count r) = int (length ys)"
    using f len by (auto simp: ys_def)
  have aft: "Ring_after (rg_size r) (rg_pos r) = int (t + 1) mod rg_size r"
    using Ring_positions_mod(1)[OF f(1,2), of t] f(6) by (simp add: t_def)
  have "Ring_Push v r = Done ?r'"
    unfolding Ring_Push_def Ring_init_rep[OF assms(1)] on_done.simps Let_def
    using cnt aft t64 pos len sl(1,3) by (simp add: slot_write_def t_def[symmetric] split: if_splits)
  moreover have "rg_rep ?r' ys"
    unfolding rg_rep_def
  proof (intro conjI exI[of _ "sl[p := v]"] allI impI)
    have lys: "length ys = (if length xs = n then n else length xs + 1)" using f(5) len by (auto simp: ys_def)
    define base base' where "base = t - length xs" and "base' = t + 1 - length ys"
    have bb: "base' = (if length xs = n then base + 1 else base)" "t + 1 \<le> base' + n" "base' \<le> t" "base \<le> t" "length xs \<le> n"
      using f(4,5) len(2,3) lys by (auto simp: base_def base'_def t_def split: if_splits)
    have yn: "ys ! (m - base') = (if m = t then v else xs ! (m - base))" if "base' \<le> m" "m \<le> t" for m
    proof (cases "m = t")
      case True
      have "m - base' = length ys - 1" using True lys bb(2-5) f(4) unfolding base'_def t_def by (auto split: if_splits)
      then show ?thesis using True by (simp add: ys_def nth_append)
    next
      case False
      then have k: "m - base < length xs" "m - base' = (if length xs = n then m - base - 1 else m - base)"
          "length xs = n \<Longrightarrow> 0 < m - base"
        using that bb f(4) by (auto simp: base_def t_def split: if_splits)
      show ?thesis
      proof (cases "length xs = n")
        case True
        have "m - base - 1 < length (tl xs)" using k True by auto
        then have "ys ! (m - base') = tl xs ! (m - base - 1)" using k True len(2) by (simp add: ys_def nth_append)
        also have "\<dots> = xs ! Suc (m - base - 1)" using k True by (subst nth_tl) auto
        also have "Suc (m - base - 1) = m - base" using k(3) True by simp
        finally show ?thesis using False by simp
      next
        case nf: False
        then show ?thesis using k len(2) False by (simp add: ys_def nth_append)
      qed
    qed
    show "int (length ys) \<le> rg_size ?r'" "length ys \<le> rg_total ?r'" using lys f(4,5) len by (auto simp: t_def)
    show "int (rg_total ?r') \<le> maxInt" using assms(2) by (simp add: t_def)
    {
      fix m assume m: "rg_total ?r' - length ys \<le> m \<and> m < rg_total ?r'"
      then have mb: "base' \<le> m" "m \<le> t" by (auto simp: base'_def)
      have ne: "m mod n \<noteq> p" if "m \<noteq> t"
        using mod_eq_near[of m n t] mb bb(2) that by (auto simp: p_def t_def)
      have old: "rg_nils r ! (m mod n) \<and> sl ! (m mod n) = xs ! (m - base)" if "m \<noteq> t"
        using sl(4)[of m] that mb bb(1) by (auto simp: len base_def t_def split: if_splits)
      have "(rg_nils r)[p := True] ! (m mod n) \<and> sl[p := v] ! (m mod n) = ys ! (m - base')"
      proof (cases "m = t")
        case True
        then show ?thesis using yn[of m] mb pos(2) sl(3) len by (simp add: p_def t_def[symmetric])
      next
        case False
        then show ?thesis using yn[of m] mb ne old by simp
      qed
      then show "rg_nils ?r' ! (m mod length (sl[p := v]))" "sl[p := v] ! (m mod length (sl[p := v])) = ys ! (m - (rg_total ?r' - length ys))"
        using len by (simp_all add: base'_def)
    next
      fix i assume i: "i < length (sl[p := v])" "rg_nils ?r' ! i"
      show "\<exists>m. rg_total ?r' - length ys \<le> m \<and> m < rg_total ?r' \<and> i = m mod length (sl[p := v])"
      proof (cases "i = p")
        case True
        then show ?thesis using bb(3) len by (intro exI[of _ t]) (simp add: base'_def p_def t_def)
      next
        case False
        then obtain m where m: "base \<le> m" "m < t" "i = m mod n" using sl(5)[of i] i by (auto simp: len base_def t_def)
        have "m \<noteq> base \<or> length xs \<noteq> n"
        proof (rule ccontr)
          assume "\<not> (m \<noteq> base \<or> length xs \<noteq> n)"
          then have "m + n = t" using f(4) by (simp add: base_def t_def)
          then have "i = p" using m(3) by (metis mod_add_self2 p_def t_def)
          then show False using False by simp
        qed
        then show ?thesis using m bb(1) len by (intro exI[of _ m]) (auto simp: base'_def)
      qed
    next
      fix i assume "i < length (sl[p := v])" "\<not> rg_nils ?r' ! i"
      then show "sl[p := v] ! i = 0" using sl(3) sl(6)[of i] by (cases "i = p") auto
    }
  qed (use f sl(1-3) in simp_all)
  ultimately show ?thesis unfolding ys_def[symmetric] by (intro exI[of _ ?r'] conjI) (simp_all add: t_def)
qed


text \<open>Where the oldest slot is, as a push number.\<close>

definition rg_start :: "'a Ring \<Rightarrow> nat" where
  "rg_start r = rg_total r - nat (rg_size r)"

lemma Ring_oldest_rep:
  assumes "rg_rep r xs"
  shows "Ring_oldest r = int (rg_start r) mod rg_size r" "rg_start r \<le> rg_total r - length xs"
    "rg_total r \<le> rg_start r + nat (rg_size r)"
proof -
  have f: "2 \<le> rg_size r" "int (rg_total r) \<le> maxInt" "rg_pos r = int (rg_total r) mod rg_size r" "int (length xs) \<le> rg_size r"
    using assms by (auto simp: rg_rep_def)
  have w: "wrap64 (int (rg_total r)) = int (rg_total r)" using f(2) by (intro wrap64_id) (auto simp: minInt_def)
  show "rg_start r \<le> rg_total r - length xs" "rg_total r \<le> rg_start r + nat (rg_size r)"
    using f(4) by (auto simp: rg_start_def)
  show "Ring_oldest r = int (rg_start r) mod rg_size r"
  proof (cases "int (rg_total r) > rg_size r")
    case True
    then have "int (rg_start r) = int (rg_total r) - rg_size r" using f(1) by (simp add: rg_start_def of_nat_diff nat_le_iff)
    then show ?thesis using True f(3) w by (simp add: Ring_oldest_def Ring_hasWrapped_def)
  next
    case False
    then show ?thesis using f(1) w by (simp add: Ring_oldest_def Ring_hasWrapped_def rg_start_def)
  qed
qed

lemma rg_rep_slots:
  assumes "rg_rep r xs"
  shows "length (slots r) = nat (rg_size r)" "length (rg_nils r) = nat (rg_size r)"
proof -
  from assms obtain sl where "rg_ring r = Some sl" "int (length sl) = rg_size r" "length (rg_nils r) = length sl"
    by (auto simp: rg_rep_def)
  then show "length (slots r) = nat (rg_size r)" "length (rg_nils r) = nat (rg_size r)" by (auto simp: slots_def)
qed

text \<open>The slot of a push that is still in the ring, and of one that is not.\<close>

lemma rg_rep_slot:
  assumes "rg_rep r xs" "rg_start r \<le> m" "m < rg_start r + nat (rg_size r)" "i = nat (int m mod rg_size r)"
  shows "0 \<le> int m mod rg_size r" "int m mod rg_size r < rg_size r"
    "rg_nils r ! i \<longleftrightarrow> rg_total r - length xs \<le> m \<and> m < rg_total r"
    "rg_nils r ! i \<Longrightarrow> slots r ! i = xs ! (m - (rg_total r - length xs))"
    "\<not> rg_nils r ! i \<Longrightarrow> slots r ! i = 0"
proof -
  obtain sl where sl: "rg_ring r = Some sl" "int (length sl) = rg_size r" "length (rg_nils r) = length sl" "2 \<le> rg_size r"
     "\<And>m. rg_total r - length xs \<le> m \<Longrightarrow> m < rg_total r \<Longrightarrow>
        rg_nils r ! (m mod length sl) \<and> sl ! (m mod length sl) = xs ! (m - (rg_total r - length xs))"
     "\<And>i. i < length sl \<Longrightarrow> rg_nils r ! i \<Longrightarrow> \<exists>m. rg_total r - length xs \<le> m \<and> m < rg_total r \<and> i = m mod length sl"
     "\<And>i. i < length sl \<Longrightarrow> \<not> rg_nils r ! i \<Longrightarrow> sl ! i = 0"
    using assms(1) by (auto simp: rg_rep_def)
  have i: "i = m mod length sl" using assms(4) unfolding sl(2)[symmetric] zmod_int[symmetric] nat_int .
  have il: "i < length sl" unfolding i by (rule mod_less_divisor) (use sl(2,4) in linarith)
  show "0 \<le> int m mod rg_size r" "int m mod rg_size r < rg_size r" using sl(4) by auto
  note st = Ring_oldest_rep(2,3)[OF assms(1)]
  have n: "length sl = nat (rg_size r)" using sl(2) by simp
  show e: "rg_nils r ! i \<longleftrightarrow> rg_total r - length xs \<le> m \<and> m < rg_total r"
  proof
    assume "rg_nils r ! i"
    then obtain m' where m': "rg_total r - length xs \<le> m'" "m' < rg_total r" "i = m' mod length sl" using sl(6)[OF il] by blast
    have "m = m'"
      using mod_eq_near[of m "length sl" m'] mod_eq_near[of m' "length sl" m] m' i assms(2,3) st n by linarith
    then show "rg_total r - length xs \<le> m \<and> m < rg_total r" using m' by simp
  qed (use sl(5) i in blast)
  show "rg_nils r ! i \<Longrightarrow> slots r ! i = xs ! (m - (rg_total r - length xs))"
    using sl(5)[of m] e i sl(1) by (simp add: slots_def)
  show "\<not> rg_nils r ! i \<Longrightarrow> slots r ! i = 0" using sl(7)[OF il] sl(1) by (simp add: slots_def)
qed

lemma slot_read_ok: "0 \<le> i \<Longrightarrow> i < int (length xs) \<Longrightarrow> slot_read xs i = Done (xs ! nat i)"
  by (simp add: slot_read_def)

lemma Ring_Pop_rep:
  assumes "rg_rep r xs"
  shows "\<exists>r'. Ring_Pop r = Some (Done (case xs of [] \<Rightarrow> None | x # _ \<Rightarrow> Some x, r')) \<and> rg_rep r' (tl xs)
     \<and> rg_size r' = rg_size r \<and> rg_total r' = rg_total r"
proof (cases xs)
  case Nil
  then show ?thesis using assms Ring_init_rep[OF assms]
    by (auto simp: Ring_Pop_def rg_rep_def Ring_Pop_loop.simps)
next
  case (Cons x xs')
  define n b where "n = nat (rg_size r)" and "b = rg_total r - length xs"
  note st = Ring_oldest_rep[OF assms, folded n_def b_def] and len = rg_rep_slots[OF assms, folded n_def]
  have f: "2 \<le> rg_size r" "rg_size r \<le> safeRingSize" "rg_count r = int (length xs)" "length xs \<le> rg_total r" "length xs \<le> n"
    using assms by (auto simp: rg_rep_def n_def)
  have n: "int n = rg_size r" "0 < n" using f(1) by (auto simp: n_def)
  define i where "i = nat (int b mod rg_size r)"
  have bt: "rg_total r = b + length xs" using f(4) by (simp add: b_def)
  have bm: "b < rg_start r + n" "rg_start r \<le> b" using st(2,3) Cons bt by auto
  note sb = rg_rep_slot[OF assms bm(2) bm(1)[unfolded n_def] i_def, folded b_def]
  let ?r' = "r\<lparr>rg_ring := Some ((slots r)[i := 0]), rg_nils := (rg_nils r)[i := False], rg_count := rg_count r - 1\<rparr>"
  obtain sl where sl: "rg_ring r = Some sl" "slots r = sl" using assms by (auto simp: rg_rep_def slots_def)
  have ib: "int b mod rg_size r = int i" using sb(1) by (simp add: i_def)
  have il: "i < n" using sb(2) n(1) ib by linarith
  have bn: "rg_nils r ! i" using sb(3) bt Cons by simp
  have bx: "sl ! i = x" using sb(4)[OF bn] sl Cons by simp
  have last: "Ring_Pop_loop (int b mod rg_size r) r = Some (Done (Some x, ?r'))"
    using ib il bn bx sl len f(3) Cons
    by (subst Ring_Pop_loop.simps) (simp add: slot_read_ok slot_write_def)
  have "Ring_Pop_loop (int m mod rg_size r) r = Some (Done (Some x, ?r'))" if "rg_start r \<le> m" "m \<le> b" for m
    using that
  proof (induction "b - m" arbitrary: m)
    case 0
    then show ?case using last by simp
  next
    case (Suc k)
    have m: "m < rg_start r + n" and mb: "m < b" using Suc.prems Suc.hyps(2) bm by linarith+
    note sm = rg_rep_slot[OF assms Suc.prems(1) m[unfolded n_def] refl, folded b_def]
    have rd: "slot_read (rg_nils r) (int m mod rg_size r) = Done False"
      using sm(1,2,3) len n mb by (simp add: slot_read_ok)
    have "Ring_Pop_loop (int m mod rg_size r) r = Ring_Pop_loop (Ring_after (rg_size r) (int m mod rg_size r)) r"
      using rd f(3) Cons by (subst Ring_Pop_loop.simps) simp
    also have "\<dots> = Ring_Pop_loop (int (Suc m) mod rg_size r) r" using Ring_positions_mod(1)[OF f(1,2), of m] by simp
    also have "\<dots> = Some (Done (Some x, ?r'))" using Suc.hyps(2) Suc.prems by (intro Suc.hyps(1)) auto
    finally show ?case .
  qed
  from this[of "rg_start r"] have run: "Ring_Pop r = Some (Done (Some x, ?r'))"
    using Ring_init_rep[OF assms] st bm by (simp add: Ring_Pop_def)
  have im: "i = b mod n" using ib n by (metis of_nat_eq_iff zmod_int)
  have old: "\<And>m. b \<le> m \<Longrightarrow> m < rg_total r \<Longrightarrow> rg_nils r ! (m mod n) \<and> sl ! (m mod n) = xs ! (m - b)"
     "\<And>j. j < n \<Longrightarrow> rg_nils r ! j \<Longrightarrow> \<exists>m. b \<le> m \<and> m < rg_total r \<and> j = m mod n"
     "\<And>j. j < n \<Longrightarrow> \<not> rg_nils r ! j \<Longrightarrow> sl ! j = 0"
    using assms sl(1) len sl(2) by (auto simp: rg_rep_def b_def n_def)
  have lx: "length xs = Suc (length xs')" using Cons by simp
  have b1: "rg_total r - length xs' = Suc b" using bt lx by simp
  have "rg_rep ?r' xs'"
    unfolding rg_rep_def
  proof (intro conjI exI[of _ "sl[i := 0]"] allI impI)
    show "rg_nils ?r' ! (m mod length (sl[i := 0]))" "sl[i := 0] ! (m mod length (sl[i := 0])) = xs' ! (m - (rg_total ?r' - length xs'))"
      if "rg_total ?r' - length xs' \<le> m \<and> m < rg_total ?r'" for m
    proof -
      have m: "Suc b \<le> m" "m < rg_total r" using that b1 by auto
      have "m mod n \<noteq> i" using mod_eq_near[of b n m] m bt f(5) im by auto
      moreover have "xs ! (m - b) = xs' ! (m - Suc b)" using m Cons by (simp add: nth_Cons' )
      ultimately show "rg_nils ?r' ! (m mod length (sl[i := 0]))" "sl[i := 0] ! (m mod length (sl[i := 0])) = xs' ! (m - (rg_total ?r' - length xs'))"
        using old(1)[of m] m b1 len sl(2) by auto
    qed
    show "\<exists>m. rg_total ?r' - length xs' \<le> m \<and> m < rg_total ?r' \<and> j = m mod length (sl[i := 0])"
      if "j < length (sl[i := 0])" "rg_nils ?r' ! j" for j
    proof -
      have ji: "j \<noteq> i" using that il len sl(2) by (cases "j = i") auto
      have "j < n" "rg_nils r ! j" using that ji len sl(2) by auto
      then obtain m where m: "b \<le> m" "m < rg_total r" "j = m mod n" using old(2) by blast
      then have "m \<noteq> b" using ji im by blast
      then show ?thesis using m b1 len sl(2) by (intro exI[of _ m]) auto
    qed
    show "sl[i := 0] ! j = 0" if "j < length (sl[i := 0])" "\<not> rg_nils ?r' ! j" for j
      using that old(3)[of j] len sl(2) by (cases "j = i") auto
  qed (use assms sl len lx in \<open>auto simp: rg_rep_def\<close>)
  with run Cons show ?thesis by auto
qed


subsection \<open>Runs of operations\<close>

text \<open>
  The contract: a queue of bounded length whose push drops the oldest value when it is full.
\<close>

fun bounded_push :: "int \<Rightarrow> 'a \<Rightarrow> 'a list \<Rightarrow> 'a list" where
  "bounded_push n v xs = (if int (length xs) = n then tl xs else xs) @ [v]"

datatype 'a ring_act = RPush 'a | RPop

fun ring_run :: "'a::zero ring_act list \<Rightarrow> 'a Ring \<Rightarrow> ('a option list \<times> 'a Ring) outcome option" where
  "ring_run [] r = Some (Done ([], r))"
| "ring_run (RPush v # as) r =
     (case Ring_Push v r of Panic m \<Rightarrow> Some (Panic m) | Done r1 \<Rightarrow> ring_run as r1)"
| "ring_run (RPop # as) r =
     do { p \<leftarrow> Ring_Pop r;
          (case p of Panic m \<Rightarrow> Some (Panic m)
           | Done (v, r1) \<Rightarrow> do { q \<leftarrow> ring_run as r1; Some (on_done q (\<lambda>(vs, r2). Done (v # vs, r2))) }) }"

fun bounded_run :: "int \<Rightarrow> 'a ring_act list \<Rightarrow> 'a list \<Rightarrow> 'a option list \<times> 'a list" where
  "bounded_run n [] xs = ([], xs)"
| "bounded_run n (RPush v # as) xs = bounded_run n as (bounded_push n v xs)"
| "bounded_run n (RPop # as) xs =
     (case bounded_run n as (tl xs) of (vs, ys) \<Rightarrow> ((case xs of [] \<Rightarrow> None | x # _ \<Rightarrow> Some x) # vs, ys))"

lemma ring_run_rep:
  assumes "rg_rep r xs" "int (rg_total r + length ms) \<le> maxInt"
  shows "\<exists>r'. ring_run ms r = Some (Done (fst (bounded_run (rg_size r) ms xs), r'))
     \<and> rg_rep r' (snd (bounded_run (rg_size r) ms xs)) \<and> rg_size r' = rg_size r"
  using assms
proof (induction ms arbitrary: r xs)
  case (Cons a ms)
  show ?case
  proof (cases a)
    case (RPush v)
    obtain r1 where p: "Ring_Push v r = Done r1" "rg_size r1 = rg_size r" "rg_total r1 = rg_total r + 1"
        "rg_rep r1 (bounded_push (rg_size r) v xs)"
      using Ring_Push_rep[OF Cons.prems(1), of v] Cons.prems(2) by auto
    from Cons.IH[OF p(4)] show ?thesis using p RPush Cons.prems(2) by simp
  next
    case RPop
    obtain r1 where p: "Ring_Pop r = Some (Done (case xs of [] \<Rightarrow> None | x # _ \<Rightarrow> Some x, r1))" "rg_rep r1 (tl xs)"
        "rg_size r1 = rg_size r" "rg_total r1 = rg_total r"
      using Ring_Pop_rep[OF Cons.prems(1)] by blast
    from Cons.IH[OF p(2)] show ?thesis using p RPop Cons.prems(2) by (auto split: prod.splits)
  qed
qed auto

text \<open>
  C15: A ring of size between 2 and 3037000499, under any sequence of pushes and pops (fewer than 2 to
  the 63rd), never reads or writes outside its buffer, its search for the oldest filled slot ends, and
  its results are those of a queue that holds at most \<open>size\<close> values and drops the oldest when a push
  finds it full.
\<close>

theorem ring_refines_bounded_queue:
  assumes "2 \<le> n" "n \<le> safeRingSize" "int (length ms) \<le> maxInt"
  shows "\<exists>r r'. Ring_Setup n Ring_zero = Done r
     \<and> ring_run ms r = Some (Done (fst (bounded_run n ms []), r'))
     \<and> Ring_Len r' = int (length (snd (bounded_run n ms [])))"
proof -
  obtain r where r: "Ring_Setup n Ring_zero = Done r" "rg_rep r ([] :: 'a list)" "rg_size r = n"
    using rg_rep_new[OF assms(1,2)] by blast
  have "rg_total r = 0" using r(1) assms(1)
    by (auto simp: Ring_Setup_def Ring_zero_def Ring_init_def Ring_innerInit_def Let_def split: if_splits)
  then obtain r' where "ring_run ms r = Some (Done (fst (bounded_run n ms []), r'))" "rg_rep r' (snd (bounded_run n ms []))"
    using ring_run_rep[OF r(2), of ms] r(3) assms(3) by auto
  with r(1) show ?thesis by (auto simp: Ring_Len_def rg_rep_def)
qed

lemma ring_refines_bounded_queue_witness:
  "\<exists>r r'. Ring_Setup 2 Ring_zero = Done r
     \<and> ring_run [RPush 1, RPush 2, RPush 3, RPop, RPop, RPop] r = Some (Done ([Some 2, Some (3 :: int), None], r'))"
  using ring_refines_bounded_queue[of 2 "[RPush 1, RPush 2, RPush 3, RPop, RPop, RPop :: int ring_act]"]
  by (auto simp: safeRingSize_def maxInt_def)

text \<open>The ends.  \<open>Head\<close> reads the oldest slot that was ever filled, not the oldest value that is left.\<close>

text \<open>
  \<open>Tail\<close> is the value pushed last.  \<open>Head\<close> is the oldest value of the ring as long as nothing has been
  popped since the buffer was last full or fresh; after a pop it is the zero value.
\<close>

theorem ring_ends:
  assumes "rg_rep r xs" "xs \<noteq> []"
  shows "Ring_Tail r = Done (last xs, r)
     \<and> Ring_Head r = Done (if length xs = rg_total r \<or> int (length xs) = rg_size r then hd xs else 0, r)"
proof -
  note st = Ring_oldest_rep[OF assms(1)] and len = rg_rep_slots[OF assms(1)]
  have f: "2 \<le> rg_size r" "rg_size r \<le> safeRingSize" "length xs \<le> rg_total r" "int (length xs) \<le> rg_size r"
     "rg_pos r = int (rg_total r) mod rg_size r" using assms(1) by (auto simp: rg_rep_def)
  define t where "t = rg_total r"
  have t0: "0 < t" using f(3) assms(2) by (cases xs) (auto simp: t_def)
  have l1: "1 \<le> length xs" using assms(2) by (simp add: Suc_le_eq)
  have b: "rg_start r \<le> t - 1" "t - 1 < rg_start r + nat (rg_size r)"
    using st(2,3) t0 l1 f(1,3) unfolding t_def by linarith+
  note sl = rg_rep_slot[OF assms(1) b refl]
  have nl: "rg_nils r ! nat (int (t - 1) mod rg_size r)"
  proof -
    have "rg_total r - length xs \<le> t - 1" "t - 1 < rg_total r" using t0 l1 unfolding t_def by linarith+
    then show ?thesis using sl(3) by blast
  qed
  have "t - 1 - (rg_total r - length xs) = length xs - 1" using f(3) t0 by (simp add: t_def)
  then have "slots r ! nat (int (t - 1) mod rg_size r) = last xs" using sl(4)[OF nl] assms(2) by (simp add: last_conv_nth)
  moreover have "Ring_before (rg_size r) (rg_pos r) = int (t - 1) mod rg_size r"
    using Ring_positions_mod(2)[OF f(1,2) t0] f(5) by (simp add: t_def)
  ultimately have tail: "Ring_Tail r = Done (last xs, r)"
    using sl(1,2) len Ring_init_rep[OF assms(1)] by (simp add: Ring_Tail_def slot_read_ok)
  have s: "rg_start r < rg_start r + nat (rg_size r)" using f(1) by simp
  note sh = rg_rep_slot[OF assms(1) order_refl s refl]
  have e: "rg_total r - length xs \<le> rg_start r \<longleftrightarrow> length xs = rg_total r \<or> int (length xs) = rg_size r"
    using f(1,3,4) by (auto simp: rg_start_def)
  have st2: "rg_start r < rg_total r" using f(1) t0 by (auto simp: rg_start_def t_def)
  have "slots r ! nat (int (rg_start r) mod rg_size r)
      = (if length xs = rg_total r \<or> int (length xs) = rg_size r then hd xs else 0)"
  proof (cases "rg_total r - length xs \<le> rg_start r")
    case True
    then have "rg_start r = rg_total r - length xs" using st(2) by simp
    then show ?thesis using sh(3,4) True st2 e assms(2) by (simp add: hd_conv_nth)
  next
    case False
    then show ?thesis using sh(3,5) e by simp
  qed
  then have "Ring_Head r = Done (if length xs = rg_total r \<or> int (length xs) = rg_size r then hd xs else 0, r)"
    using sh(1,2) st(1) len Ring_init_rep[OF assms(1)] by (simp add: Ring_Head_def slot_read_ok)
  with tail show ?thesis by blast
qed

lemma ring_ends_witness:
  "\<exists>r r1. Ring_Setup 3 Ring_zero = Done r \<and> ring_run [RPush 5, RPush 6, RPop] r = Some (Done ([Some (5 :: int)], r1))
     \<and> Ring_Tail r1 = Done (6, r1) \<and> Ring_Head r1 = Done (0, r1)"
proof -
  obtain r where r: "Ring_Setup 3 Ring_zero = Done r" "rg_rep r ([] :: int list)" "rg_size r = 3"
    using rg_rep_new[of 3] by (auto simp: safeRingSize_def)
  have t: "rg_total r = 0" using r(1)
    by (auto simp: Ring_Setup_def Ring_zero_def Ring_init_def Ring_innerInit_def Let_def split: if_splits)
  obtain r1 where p1: "Ring_Push 5 r = Done r1" "rg_size r1 = 3" "rg_total r1 = 1" "rg_rep r1 [5]"
    using Ring_Push_rep[OF r(2), of 5] r(3) t by (auto simp: maxInt_def)
  obtain r2 where p2: "Ring_Push 6 r1 = Done r2" "rg_size r2 = 3" "rg_total r2 = 2" "rg_rep r2 [5, 6]"
    using Ring_Push_rep[OF p1(4), of 6] p1(2,3) by (auto simp: maxInt_def)
  obtain r3 where p3: "Ring_Pop r2 = Some (Done (Some 5, r3))" "rg_size r3 = 3" "rg_total r3 = 2" "rg_rep r3 [6]"
    using Ring_Pop_rep[OF p2(4)] p2(2,3) by auto
  from ring_ends[OF p3(4)] p3(2,3) have "Ring_Tail r3 = Done (6, r3) \<and> Ring_Head r3 = Done (0, r3)" by simp
  with r(1) p1(1) p2(1) p3(1) show ?thesis by auto
qed

text \<open>
  Above that size, which the constructor still accepts, the position of the next slot wraps around to a
  negative index.
\<close>

lemma Ring_position_overflow: "3500000000 \<le> maxRingSize \<and> Ring_after 3500000000 3000000000 < 0"
  by (simp add: maxRingSize_def Ring_after_def Ring_offset_def stw_Abs_def wrap64_def remd_def)

end
