(* ===== verification/DtStack.thy ===== *)
theory DtStack
  imports IrtSeq
begin

text \<open>
  The singly linked stack of \<open>src/dt/stack.go\<close>.

  Items and stacks are heap objects with addresses: an item knows its stack, the stack its head, and
  below the last item lies a root item that is not valid.  An operation is a function of the store;
  \<open>None\<close> is a nil pointer that is followed or a loop that does not end.
\<close>

record 'a Item =
  it_next :: "nat option"
  it_stack :: "nat option"
  it_ok :: bool
  it_value :: 'a

record Stack =
  st_head :: "nat option"
  st_length :: int

record 'a stacks =
  items :: "nat \<Rightarrow> 'a Item"
  items_n :: nat
  stks :: "nat \<Rightarrow> Stack"
  stks_n :: nat

type_synonym ('a, 'r) sop = "'a stacks \<Rightarrow> ('r \<times> 'a stacks) option"

definition upd_item :: "nat \<Rightarrow> ('a Item \<Rightarrow> 'a Item) \<Rightarrow> 'a stacks \<Rightarrow> 'a stacks" where
  "upd_item i f s = s\<lparr>items := (items s)(i := f (items s i))\<rparr>"

definition upd_stk :: "nat \<Rightarrow> (Stack \<Rightarrow> Stack) \<Rightarrow> 'a stacks \<Rightarrow> 'a stacks" where
  "upd_stk k f s = s\<lparr>stks := (stks s)(k := f (stks s k))\<rparr>"

definition new_item :: "'a Item \<Rightarrow> 'a stacks \<Rightarrow> nat \<times> 'a stacks" where
  "new_item x s = (items_n s, s\<lparr>items := (items s)(items_n s := x), items_n := items_n s + 1\<rparr>)"

definition new_stk :: "Stack \<Rightarrow> 'a stacks \<Rightarrow> nat \<times> 'a stacks" where
  "new_stk x s = (stks_n s, s\<lparr>stks := (stks s)(stks_n s := x), stks_n := stks_n s + 1\<rparr>)"

definition NewItem :: "'a \<Rightarrow> 'a stacks \<Rightarrow> nat \<times> 'a stacks" where
  "NewItem v = new_item \<lparr>it_next = None, it_stack = None, it_ok = True, it_value = v\<rparr>"

definition Stack_uncheckedSetup :: "nat \<Rightarrow> 'a::zero stacks \<Rightarrow> 'a stacks" where
  "Stack_uncheckedSetup k s =
     (let s1 = upd_stk k (\<lambda>x. x\<lparr>st_length := 0\<rparr>) s;
          (h, s2) = new_item \<lparr>it_next = None, it_stack = Some k, it_ok = False, it_value = 0\<rparr> s1
      in upd_stk k (\<lambda>x. x\<lparr>st_head := Some h\<rparr>) s2)"

definition Stack_root :: "nat \<Rightarrow> ('a::zero, nat) sop" where
  "Stack_root k s =
     (let s1 = (if st_head (stks s k) = None then Stack_uncheckedSetup k s else s)
      in do { h \<leftarrow> st_head (stks s1 k); Some (h, s1) })"

definition Stack_Len :: "nat \<Rightarrow> 'a stacks \<Rightarrow> int" where "Stack_Len k s = st_length (stks s k)"

definition Item_Value :: "nat \<Rightarrow> 'a stacks \<Rightarrow> 'a" where "Item_Value i s = it_value (items s i)"

definition Item_Ok :: "nat option \<Rightarrow> 'a stacks \<Rightarrow> bool" where
  "Item_Ok p s \<longleftrightarrow> (case p of None \<Rightarrow> False | Some i \<Rightarrow> it_ok (items s i))"

definition Item_Next :: "nat \<Rightarrow> 'a stacks \<Rightarrow> nat option" where "Item_Next i s = it_next (items s i)"

definition Item_In :: "nat \<Rightarrow> nat option \<Rightarrow> 'a stacks \<Rightarrow> bool" where "Item_In i k s \<longleftrightarrow> it_stack (items s i) = k"

definition Item_Set :: "nat \<Rightarrow> 'a \<Rightarrow> 'a stacks \<Rightarrow> bool \<times> 'a stacks" where
  "Item_Set i v s =
     (if it_stack (items s i) \<noteq> None
         \<and> (st_head (stks s (the (it_stack (items s i)))) = Some i \<or> it_next (items s i) = None)
      then (False, s)
      else (True, upd_item i (\<lambda>x. x\<lparr>it_ok := True, it_value := v\<rparr>) s))"

definition Item_Append :: "nat \<Rightarrow> nat option \<Rightarrow> ('a::zero, nat) sop" where
  "Item_Append i p s =
     (case (p, it_stack (items s i)) of
        (Some n, Some k) \<Rightarrow>
          if it_stack (items s n) = Some k \<or> it_stack (items s n) \<noteq> None \<or> \<not> it_ok (items s n) then Some (i, s)
          else do { (h, s1) \<leftarrow> Stack_root k s;
                    let s2 = upd_item n (\<lambda>x. x\<lparr>it_next := Some h\<rparr>) s1;
                    let s3 = upd_item n (\<lambda>x. x\<lparr>it_stack := it_stack (items s2 i)\<rparr>) s2;
                    k' \<leftarrow> it_stack (items s3 n);
                    let s4 = upd_stk k' (\<lambda>x. x\<lparr>st_head := Some n\<rparr>) s3;
                    Some (n, upd_stk k' (\<lambda>x. x\<lparr>st_length := st_length x + 1\<rparr>) s4) }
      | _ \<Rightarrow> Some (i, s))"

definition Item_Push :: "nat \<Rightarrow> 'a \<Rightarrow> ('a::zero, nat) sop" where
  "Item_Push i v s = (case NewItem v s of (n, s1) \<Rightarrow> Item_Append i (Some n) s1)"

definition Stack_Push :: "nat \<Rightarrow> 'a \<Rightarrow> ('a::zero, unit) sop" where
  "Stack_Push k v s = do { (h, s1) \<leftarrow> Stack_root k s; (_, s2) \<leftarrow> Item_Push h v s1; Some ((), s2) }"

definition Stack_Head :: "nat \<Rightarrow> ('a::zero, nat) sop" where "Stack_Head k = Stack_root k"

definition Stack_Pop :: "nat \<Rightarrow> ('a::zero, nat) sop" where
  "Stack_Pop k s =
     do { (out, s1) \<leftarrow> Stack_root k s;
          if st_length (stks s1 k) > 0
          then do { let s2 = upd_stk k (\<lambda>x. x\<lparr>st_length := st_length x - 1\<rparr>) s1;
                    h \<leftarrow> st_head (stks s2 k);
                    let s3 = upd_item h (\<lambda>x. x\<lparr>it_stack := None\<rparr>) s2;
                    Some (out, upd_stk k (\<lambda>x. x\<lparr>st_head := it_next (items s3 h)\<rparr>) s3) }
          else Some (out, s1) }"

partial_function (option) Stack_iter_loop :: "nat option \<Rightarrow> ('a, 'a stacks \<times> 'c) seq" where
  "Stack_iter_loop p yield sc =
     (if Item_Ok p (fst sc)
      then do { i \<leftarrow> p;
                (more, sc1) \<leftarrow> yield (Item_Value i (fst sc)) sc;
                if more then Stack_iter_loop (Item_Next i (fst sc1)) yield sc1 else Some sc1 }
      else Some sc)"

definition Stack_Iterator :: "nat \<Rightarrow> ('a::zero, 'a stacks \<times> 'c) seq" where
  "Stack_Iterator k yield sc = do { (h, s1) \<leftarrow> Stack_Head k (fst sc); Stack_iter_loop (Some h) yield (s1, snd sc) }"

partial_function (option) Stack_IteratorPop :: "nat \<Rightarrow> ('a::zero, 'a stacks \<times> 'c) seq" where
  "Stack_IteratorPop k yield sc =
     do { (i, s1) \<leftarrow> Stack_Pop k (fst sc);
          if Item_Ok (Some i) s1 \<and> Some i \<noteq> st_head (stks s1 k)
          then do { (more, sc1) \<leftarrow> yield (Item_Value i s1) (s1, snd sc);
                    if more then Stack_IteratorPop k yield sc1 else Some sc1 }
          else Some (s1, snd sc) }"

definition Stack_Extend :: "nat \<Rightarrow> ('a::zero, 'a stacks \<times> unit) seq \<Rightarrow> 'a stacks \<Rightarrow> 'a stacks option" where
  "Stack_Extend k q s =
     do { (s', _) \<leftarrow> q (\<lambda>v (s, c). do { (_, s1) \<leftarrow> Stack_Push k v s; Some (True, (s1, c)) }) (s, ()); Some s' }"

definition Stack_Append :: "nat \<Rightarrow> 'a::zero list \<Rightarrow> 'a stacks \<Rightarrow> 'a stacks option" where
  "Stack_Append k vs = Stack_Extend k (Slice vs)"

text \<open>\<open>Reverse\<close> looks for the root and then turns the links around.\<close>

partial_function (option) Stack_sentinel :: "nat option \<Rightarrow> 'a stacks \<Rightarrow> nat option option" where
  "Stack_sentinel p s =
     (case p of None \<Rightarrow> Some None
      | Some i \<Rightarrow> if \<not> Item_Ok (Some i) s then Some (Some i) else Stack_sentinel (it_next (items s i)) s)"

partial_function (option) Stack_reverse_loop :: "nat option \<Rightarrow> nat option \<Rightarrow> 'a stacks \<Rightarrow> (nat option \<times> 'a stacks) option" where
  "Stack_reverse_loop prev current s =
     (if Item_Ok current s
      then do { c \<leftarrow> current;
                let nxt = it_next (items s c);
                Stack_reverse_loop current nxt (upd_item c (\<lambda>x. x\<lparr>it_next := prev\<rparr>) s) }
      else Some (prev, s))"

definition Stack_Reverse :: "nat \<Rightarrow> 'a::zero stacks \<Rightarrow> 'a stacks option" where
  "Stack_Reverse k s =
     (if st_length (stks s k) \<le> 1 then Some s
      else do { (_, s1) \<leftarrow> Stack_root k s;
                rootSentinel \<leftarrow> Stack_sentinel (st_head (stks s1 k)) s1;
                (prev, s2) \<leftarrow> Stack_reverse_loop rootSentinel (st_head (stks s1 k)) s1;
                Some (upd_stk k (\<lambda>x. x\<lparr>st_head := prev\<rparr>) s2) })"

text \<open>
  \<open>Remove\<close> walks to the item and then assigns the item's own successor to it: the variable \<open>next\<close> of
  the loop is the item itself.
\<close>

partial_function (option) Item_Remove_loop :: "nat \<Rightarrow> nat option \<Rightarrow> ('a, bool) sop" where
  "Item_Remove_loop i p s =
     (if Item_Ok p s
      then do { n \<leftarrow> p;
                if n = i
                then do { k \<leftarrow> it_stack (items s i);
                          let s1 = upd_stk k (\<lambda>x. x\<lparr>st_length := st_length x - 1\<rparr>) s;
                          let s2 = upd_item i (\<lambda>x. x\<lparr>it_stack := None\<rparr>) s1;
                          Some (True, upd_item n (\<lambda>x. x\<lparr>it_next := it_next (items s2 i)\<rparr>) s2) }
                else if it_next (items s n) = None then Some (False, s)
                else Item_Remove_loop i (it_next (items s n)) s }
      else Some (False, s))"

definition Item_Remove :: "nat option \<Rightarrow> ('a, bool) sop" where
  "Item_Remove p s =
     (case p of None \<Rightarrow> Some (False, s)
      | Some i \<Rightarrow>
          (case it_stack (items s i) of None \<Rightarrow> Some (False, s)
           | Some k \<Rightarrow> if \<not> it_ok (items s i) then Some (False, s)
                       else Item_Remove_loop i (st_head (stks s k)) s))"

partial_function (option) Item_Detach_loop :: "nat \<Rightarrow> int \<Rightarrow> nat option \<Rightarrow> 'a::zero stacks \<Rightarrow> 'a stacks option" where
  "Item_Detach_loop i seen p s =
     (case p of None \<Rightarrow> Some s
      | Some n \<Rightarrow>
          let seen1 = seen + 1 in
          if it_next (items s n) = Some i
          then do { let (e, s1) = new_item \<lparr>it_next = None, it_stack = it_stack (items s i), it_ok = False, it_value = 0\<rparr> s;
                    let s2 = upd_item n (\<lambda>x. x\<lparr>it_next := Some e\<rparr>) s1;
                    k \<leftarrow> it_stack (items s2 i);
                    let s3 = upd_stk k (\<lambda>x. x\<lparr>st_length := seen1\<rparr>) s2;
                    let (k', s4) = new_stk \<lparr>st_head = Some i, st_length = st_length (stks s3 k) - seen1\<rparr> s3;
                    Some (upd_item i (\<lambda>x. x\<lparr>it_stack := Some k'\<rparr>) s4) }
          else Item_Detach_loop i seen1 (it_next (items s n)) s)"

definition Item_Detach :: "nat \<Rightarrow> ('a::zero, nat option) sop" where
  "Item_Detach i s =
     (if \<not> it_ok (items s i)
      then (case new_item \<lparr>it_next = None, it_stack = it_stack (items s i), it_ok = False, it_value = 0\<rparr> s of
              (e, s1) \<Rightarrow> case new_stk \<lparr>st_head = Some e, st_length = 0\<rparr> s1 of (k, s2) \<Rightarrow> Some (Some k, s2))
      else case it_stack (items s i) of
        None \<Rightarrow> (case new_stk \<lparr>st_head = Some i, st_length = 1\<rparr> s of
                   (k, s1) \<Rightarrow> Some (Some k, upd_item i (\<lambda>x. x\<lparr>it_stack := Some k\<rparr>) s1))
      | Some k \<Rightarrow>
          if st_head (stks s k) = Some i then Some (Some k, s)
          else do { s1 \<leftarrow> Item_Detach_loop i 0 (st_head (stks s k)) s; Some (it_stack (items s1 i), s1) })"

partial_function (option) Item_Attach_loop :: "nat \<Rightarrow> nat \<Rightarrow> nat \<Rightarrow> 'a::zero stacks \<Rightarrow> 'a stacks option" where
  "Item_Attach_loop i k n s =
     (if Item_Ok (Some n) s
      then do { (i', s1) \<leftarrow> Item_Append i (Some n) s; (n', s2) \<leftarrow> Stack_Pop k s1; Item_Attach_loop i' k n' s2 }
      else Some s)"

definition Item_Attach :: "nat \<Rightarrow> nat option \<Rightarrow> ('a::zero, bool) sop" where
  "Item_Attach i p s =
     (case p of None \<Rightarrow> Some (False, s)
      | Some k \<Rightarrow>
          if Stack_Len k s = 0 \<or> it_stack (items s i) = Some k then Some (False, s)
          else do { (n, s1) \<leftarrow> Stack_Pop k s; s2 \<leftarrow> Item_Attach_loop i k n s1; Some (True, s2) })"

declare Stack_iter_loop.simps [code] Stack_IteratorPop.simps [code] Stack_sentinel.simps [code] Stack_reverse_loop.simps [code]
  Item_Remove_loop.simps [code] Item_Detach_loop.simps [code] Item_Attach_loop.simps [code]

subsection \<open>The items of a stack\<close>

fun schain :: "(nat \<Rightarrow> nat option) \<Rightarrow> nat \<Rightarrow> nat list \<Rightarrow> nat \<Rightarrow> bool" where
  "schain nx a [] r = (a = r)"
| "schain nx a (x # xs) r = (a = x \<and> (\<exists>b. nx x = Some b \<and> schain nx b xs r))"

definition sk_ok :: "'a stacks \<Rightarrow> nat \<Rightarrow> nat \<Rightarrow> nat \<Rightarrow> nat list \<Rightarrow> bool" where
  "sk_ok s k h r as \<longleftrightarrow> schain (\<lambda>i. it_next (items s i)) h as r \<and> distinct as \<and> r \<notin> set as \<and> r < items_n s
     \<and> \<not> it_ok (items s r) \<and> it_stack (items s r) = Some k
     \<and> (\<forall>i \<in> set as. i < items_n s \<and> it_ok (items s i) \<and> it_stack (items s i) = Some k)"

definition sk_rep :: "'a stacks \<Rightarrow> nat \<Rightarrow> nat list \<Rightarrow> bool" where
  "sk_rep s k as \<longleftrightarrow> k < stks_n s \<and> st_length (stks s k) = int (length as)
     \<and> (case st_head (stks s k) of None \<Rightarrow> as = [] | Some h \<Rightarrow> \<exists>r. sk_ok s k h r as)"

definition sk_vals :: "'a stacks \<Rightarrow> nat list \<Rightarrow> 'a list" where
  "sk_vals s as = map (\<lambda>i. it_value (items s i)) as"

lemma schain_frame: "schain nx a as r \<Longrightarrow> (\<And>i. i \<in> set as \<Longrightarrow> nx' i = nx i) \<Longrightarrow> schain nx' a as r"
  by (induction as arbitrary: a) auto

lemma schain_head: "schain nx a as r \<Longrightarrow> a = hd (as @ [r])"
  by (cases as) auto

lemma schain_append: "schain nx a (xs @ ys) r \<longleftrightarrow> (\<exists>b. schain nx a xs b \<and> schain nx b ys r)"
  by (induction xs arbitrary: a) auto

lemma Stack_root_rep:
  assumes "sk_rep s k as"
  shows "\<exists>h r s1. Stack_root k s = Some (h, s1) \<and> st_head (stks s1 k) = Some h \<and> sk_ok s1 k h r as \<and> sk_rep s1 k as
     \<and> sk_vals s1 as = sk_vals s as"
proof (cases "st_head (stks s k)")
  case (Some h)
  then show ?thesis using assms by (auto simp: sk_rep_def Stack_root_def Let_def)
next
  case None
  then have "as = []" using assms by (simp add: sk_rep_def)
  then show ?thesis using assms None
    by (auto simp: sk_rep_def Stack_root_def Let_def Stack_uncheckedSetup_def new_item_def upd_stk_def sk_ok_def sk_vals_def)
qed

lemma Stack_Push_rep:
  assumes "sk_rep s k as"
  shows "\<exists>s' i. Stack_Push k v s = Some ((), s') \<and> sk_rep s' k (i # as) \<and> sk_vals s' (i # as) = v # sk_vals s as"
proof -
  obtain h r s1 where r: "Stack_root k s = Some (h, s1)" "st_head (stks s1 k) = Some h" "sk_ok s1 k h r as" "sk_rep s1 k as"
     "sk_vals s1 as = sk_vals s as" using Stack_root_rep[OF assms] by blast
  let ?n = "items_n s1"
  have h: "h \<in> insert r (set as)" using schain_head[of "\<lambda>i. it_next (items s1 i)" h as r] r(3) by (cases as) (auto simp: sk_ok_def)
  then have hk: "it_stack (items s1 h) = Some k" "h \<noteq> ?n" using r(3) by (auto simp: sk_ok_def)
  define it where "it = (items s1)(?n := \<lparr>it_next = Some h, it_stack = Some k, it_ok = True, it_value = v\<rparr>)"
  let ?s = "s1\<lparr>items := it, items_n := ?n + 1,
     stks := (stks s1)(k := (stks s1 k)\<lparr>st_head := Some ?n, st_length := st_length (stks s1 k) + 1\<rparr>)\<rparr>"
  have run: "Stack_Push k v s = Some ((), ?s)"
    using r(1,2) hk
    by (simp add: Stack_Push_def Item_Push_def NewItem_def new_item_def Item_Append_def Stack_root_def upd_item_def upd_stk_def
        Let_def it_def)
  have fresh: "?n \<notin> set as" "?n \<noteq> r" using r(3) by (auto simp: sk_ok_def)
  have "schain (\<lambda>i. it_next (it i)) h as r"
    by (rule schain_frame[of "\<lambda>i. it_next (items s1 i)"]) (use r(3) fresh in \<open>auto simp: sk_ok_def it_def\<close>)
  then have "sk_ok ?s k ?n r (?n # as)" using r(3) fresh by (auto simp: sk_ok_def it_def)
  then have "sk_rep ?s k (?n # as)" using r(4) by (auto simp: sk_rep_def)
  moreover have "sk_vals ?s (?n # as) = v # sk_vals s as"
    unfolding r(5)[symmetric] using fresh by (auto simp: sk_vals_def it_def)
  ultimately show ?thesis using run by blast
qed

lemma Stack_Pop_rep:
  assumes "sk_rep s k as"
  shows "\<exists>i s'. Stack_Pop k s = Some (i, s') \<and> sk_rep s' k (tl as) \<and> sk_vals s' (tl as) = tl (sk_vals s as)
     \<and> Item_Ok (Some i) s' = (as \<noteq> []) \<and> (as \<noteq> [] \<longrightarrow> i = hd as \<and> Item_Value i s' = hd (sk_vals s as) \<and> it_stack (items s' i) = None)"
proof -
  obtain h r s1 where r: "Stack_root k s = Some (h, s1)" "st_head (stks s1 k) = Some h" "sk_ok s1 k h r as" "sk_rep s1 k as"
     "sk_vals s1 as = sk_vals s as" using Stack_root_rep[OF assms] by blast
  show ?thesis
  proof (cases as)
    case Nil
    then show ?thesis using r by (auto simp: Stack_Pop_def sk_rep_def sk_ok_def Item_Ok_def sk_vals_def)
  next
    case (Cons x xs)
    have hx: "h = x" and nx: "\<exists>b. it_next (items s1 x) = Some b \<and> schain (\<lambda>i. it_next (items s1 i)) b xs r"
      using r(3) Cons by (auto simp: sk_ok_def)
    then obtain b where b: "it_next (items s1 x) = Some b" "schain (\<lambda>i. it_next (items s1 i)) b xs r" by blast
    define it where "it = (items s1)(x := (items s1 x)\<lparr>it_stack := None\<rparr>)"
    let ?s = "s1\<lparr>items := it, stks := (stks s1)(k := (stks s1 k)\<lparr>st_length := st_length (stks s1 k) - 1, st_head := Some b\<rparr>)\<rparr>"
    have run: "Stack_Pop k s = Some (x, ?s)"
      using r(1,2,4) hx b(1) Cons
      by (simp add: Stack_Pop_def sk_rep_def upd_item_def upd_stk_def Let_def it_def)
    have ne: "x \<notin> set xs" "x \<noteq> r" using r(3) Cons by (auto simp: sk_ok_def)
    have "schain (\<lambda>i. it_next (it i)) b xs r"
      by (rule schain_frame[OF b(2)]) (use ne in \<open>auto simp: it_def\<close>)
    then have "sk_ok ?s k b r xs" using r(3) ne Cons by (auto simp: sk_ok_def it_def)
    then have "sk_rep ?s k xs" using r(4) Cons by (auto simp: sk_rep_def)
    moreover have "sk_vals ?s xs = tl (sk_vals s as)" "Item_Value x ?s = hd (sk_vals s as)" "Item_Ok (Some x) ?s" "it_stack (items ?s x) = None"
      unfolding r(5)[symmetric] using ne Cons r(3) by (auto simp: sk_vals_def it_def Item_Value_def Item_Ok_def sk_ok_def)
    ultimately show ?thesis using run Cons by auto
  qed
qed


subsection \<open>Reversal and the iterator\<close>

lemma Stack_sentinel_chain:
  assumes "schain (\<lambda>i. it_next (items s i)) h as r" "\<forall>i \<in> set as. it_ok (items s i)" "\<not> it_ok (items s r)"
  shows "Stack_sentinel (Some h) s = Some (Some r)"
  using assms
proof (induction as arbitrary: h)
  case Nil
  then show ?case by (subst Stack_sentinel.simps) (simp add: Item_Ok_def)
next
  case (Cons x xs)
  then show ?case by (subst Stack_sentinel.simps) (auto simp: Item_Ok_def)
qed

text \<open>Half-way: the items \<open>done\<close> hang reversed below \<open>prev\<close>, the others are still as they were.\<close>

lemma Stack_reverse_chain:
  assumes "schain (\<lambda>i. it_next (items s i)) c todo r" "schain (\<lambda>i. it_next (items s i)) p dn r"
    and "distinct (todo @ dn)" "r \<notin> set (todo @ dn)" "\<forall>i \<in> set todo. it_ok (items s i)" "\<not> it_ok (items s r)"
  shows "\<exists>p' s'. Stack_reverse_loop (Some p) (Some c) s = Some (Some p', s')
     \<and> schain (\<lambda>i. it_next (items s' i)) p' (rev todo @ dn) r
     \<and> (\<forall>i. it_ok (items s' i) = it_ok (items s i) \<and> it_stack (items s' i) = it_stack (items s i) \<and> it_value (items s' i) = it_value (items s i))
     \<and> items_n s' = items_n s \<and> stks s' = stks s \<and> stks_n s' = stks_n s"
  using assms
proof (induction todo arbitrary: c p dn s)
  case Nil
  then show ?case by (subst Stack_reverse_loop.simps) (simp add: Item_Ok_def)
next
  case (Cons x xs)
  then obtain b where b: "c = x" "it_next (items s x) = Some b" "schain (\<lambda>i. it_next (items s i)) b xs r" by auto
  let ?s = "upd_item x (\<lambda>y. y\<lparr>it_next := Some p\<rparr>) s"
  have fr: "items ?s i = (if i = x then (items s x)\<lparr>it_next := Some p\<rparr> else items s i)" for i
    by (simp add: upd_item_def)
  have c1: "schain (\<lambda>i. it_next (items ?s i)) b xs r"
    by (rule schain_frame[OF b(3)]) (use Cons.prems(3) in \<open>auto simp: fr\<close>)
  have "schain (\<lambda>i. it_next (items ?s i)) p dn r"
    by (rule schain_frame[OF Cons.prems(2)]) (use Cons.prems(3) in \<open>auto simp: fr\<close>)
  then have c2: "schain (\<lambda>i. it_next (items ?s i)) x (x # dn) r" by (simp add: fr)
  have p3: "distinct (xs @ x # dn)" "r \<notin> set (xs @ x # dn)" using Cons.prems(3,4) by auto
  have p4: "\<forall>i \<in> set xs. it_ok (items ?s i)" "\<not> it_ok (items ?s r)" using Cons.prems(4-6) by (auto simp: fr)
  have step: "Stack_reverse_loop (Some p) (Some c) s = Stack_reverse_loop (Some x) (Some b) ?s"
    using b Cons.prems(5) by (subst Stack_reverse_loop.simps) (simp add: Item_Ok_def Let_def)
  have rest: "items_n ?s = items_n s" "stks ?s = stks s" "stks_n ?s = stks_n s" by (simp_all add: upd_item_def)
  from Cons.IH[OF c1 c2 p3 p4] show ?case
    unfolding step rest fr by (auto split: if_splits)
qed

lemma Stack_Reverse_rep:
  assumes "sk_rep s k as"
  shows "\<exists>s'. Stack_Reverse k s = Some s' \<and> sk_rep s' k (rev as) \<and> sk_vals s' (rev as) = rev (sk_vals s as)"
proof (cases "length as \<le> 1")
  case True
  then have "rev as = as" "rev (sk_vals s as) = sk_vals s as" by (cases as; simp add: sk_vals_def)+
  then show ?thesis using True assms by (auto simp: Stack_Reverse_def sk_rep_def)
next
  case False
  then obtain h r where h: "st_head (stks s k) = Some h" "sk_ok s k h r as"
    using assms by (auto simp: sk_rep_def split: option.splits)
  have sent: "Stack_sentinel (Some h) s = Some (Some r)"
    using h(2) by (intro Stack_sentinel_chain[of s h as]) (auto simp: sk_ok_def)
  obtain p s' where l: "Stack_reverse_loop (Some r) (Some h) s = Some (Some p, s')"
     "schain (\<lambda>i. it_next (items s' i)) p (rev as @ []) r"
     "\<forall>i. it_ok (items s' i) = it_ok (items s i) \<and> it_stack (items s' i) = it_stack (items s i) \<and> it_value (items s' i) = it_value (items s i)"
     "items_n s' = items_n s" "stks s' = stks s" "stks_n s' = stks_n s"
    using Stack_reverse_chain[of s h as r r "[]"] h(2) by (auto simp: sk_ok_def)
  let ?s = "upd_stk k (\<lambda>x. x\<lparr>st_head := Some p\<rparr>) s'"
  have "Stack_Reverse k s = Some ?s"
    using False h(1) assms sent l(1) by (simp add: Stack_Reverse_def Stack_root_def sk_rep_def Let_def)
  moreover have "sk_rep ?s k (rev as)"
    using assms h l(2-6) by (auto simp: sk_rep_def sk_ok_def upd_stk_def)
  moreover have "sk_vals ?s (rev as) = rev (sk_vals s as)" using l(3) by (simp add: sk_vals_def upd_stk_def rev_map)
  ultimately show ?thesis by blast
qed

lemma Stack_iter_chain:
  assumes "schain (\<lambda>i. it_next (items s i)) h as r" "\<forall>i \<in> set as. it_ok (items s i)" "\<not> it_ok (items s r)"
  shows "Stack_iter_loop (Some h) (\<lambda>v (t, c). do { (b, c') \<leftarrow> y v c; Some (b, (t, c')) }) (s, c)
     = map_option (\<lambda>bc. (s, snd bc)) (emit (sk_vals s as) y c)"
  using assms
proof (induction as arbitrary: h c)
  case Nil
  then show ?case by (subst Stack_iter_loop.simps) (simp add: Item_Ok_def sk_vals_def)
next
  case (Cons x xs)
  then show ?case
    by (subst Stack_iter_loop.simps)
      (auto simp: Item_Ok_def sk_vals_def Item_Value_def Item_Next_def split: Option.bind_splits)
qed

subsection \<open>Runs of operations\<close>

datatype 'a stack_act = SPush 'a | SPop | SLen | SReverse

datatype 'a stack_res = SDone | SPopped "'a option" | SSize int

fun stack_do :: "nat \<Rightarrow> 'a stack_act \<Rightarrow> ('a::zero, 'a stack_res) sop" where
  "stack_do k (SPush v) s = do { (_, s1) \<leftarrow> Stack_Push k v s; Some (SDone, s1) }"
| "stack_do k SPop s = do { (i, s1) \<leftarrow> Stack_Pop k s; Some (SPopped (if Item_Ok (Some i) s1 then Some (Item_Value i s1) else None), s1) }"
| "stack_do k SLen s = Some (SSize (Stack_Len k s), s)"
| "stack_do k SReverse s = do { s1 \<leftarrow> Stack_Reverse k s; Some (SDone, s1) }"

fun stack_run :: "nat \<Rightarrow> 'a stack_act list \<Rightarrow> ('a::zero, 'a stack_res list) sop" where
  "stack_run k [] s = Some ([], s)"
| "stack_run k (a # as) s = do { (r, s1) \<leftarrow> stack_do k a s; (rs, s2) \<leftarrow> stack_run k as s1; Some (r # rs, s2) }"

fun lifo_do :: "'a stack_act \<Rightarrow> 'a list \<Rightarrow> 'a stack_res \<times> 'a list" where
  "lifo_do (SPush v) xs = (SDone, v # xs)"
| "lifo_do SPop xs = (case xs of [] \<Rightarrow> (SPopped None, []) | x # ys \<Rightarrow> (SPopped (Some x), ys))"
| "lifo_do SLen xs = (SSize (int (length xs)), xs)"
| "lifo_do SReverse xs = (SDone, rev xs)"

fun lifo_run :: "'a stack_act list \<Rightarrow> 'a list \<Rightarrow> 'a stack_res list \<times> 'a list" where
  "lifo_run [] xs = ([], xs)"
| "lifo_run (a # as) xs = (case lifo_do a xs of (r, ys) \<Rightarrow> case lifo_run as ys of (rs, zs) \<Rightarrow> (r # rs, zs))"

lemma stack_do_refines:
  assumes "sk_rep s k as"
  shows "\<exists>s' bs. stack_do k a s = Some (fst (lifo_do a (sk_vals s as)), s') \<and> sk_rep s' k bs
     \<and> sk_vals s' bs = snd (lifo_do a (sk_vals s as))"
proof (cases a)
  case (SPush v)
  then show ?thesis using Stack_Push_rep[OF assms, of v] by auto
next
  case SPop
  obtain i s' where p: "Stack_Pop k s = Some (i, s')" "sk_rep s' k (tl as)" "sk_vals s' (tl as) = tl (sk_vals s as)"
     "Item_Ok (Some i) s' = (as \<noteq> [])" "as \<noteq> [] \<longrightarrow> Item_Value i s' = hd (sk_vals s as)"
    using Stack_Pop_rep[OF assms] by blast
  then show ?thesis using SPop by (intro exI[of _ s'] exI[of _ "tl as"]) (cases as; simp add: sk_vals_def)
next
  case SLen
  then show ?thesis using assms by (auto simp: Stack_Len_def sk_rep_def sk_vals_def)
next
  case SReverse
  then show ?thesis using Stack_Reverse_rep[OF assms] by auto
qed

lemma stack_run_refines:
  assumes "sk_rep s k as"
  shows "\<exists>s' bs. stack_run k ms s = Some (fst (lifo_run ms (sk_vals s as)), s') \<and> sk_rep s' k bs
     \<and> sk_vals s' bs = snd (lifo_run ms (sk_vals s as))"
  using assms
proof (induction ms arbitrary: s as)
  case (Cons a ms)
  obtain s1 bs where a: "stack_do k a s = Some (fst (lifo_do a (sk_vals s as)), s1)" "sk_rep s1 k bs"
     "sk_vals s1 bs = snd (lifo_do a (sk_vals s as))"
    using stack_do_refines[OF Cons.prems] by blast
  from Cons.IH[OF a(2)] show ?case using a(1,3) by (auto split: prod.splits)
qed auto

definition empty_stacks :: "'a stacks" where
  "empty_stacks = \<lparr>items = (\<lambda>_. undefined), items_n = 0, stks = (\<lambda>_. \<lparr>st_head = None, st_length = 0\<rparr>), stks_n = 1\<rparr>"

text \<open>
  C16: Every sequence of pushes, pops, length queries and reversals on a new \<open>dt.Stack\<close> returns the results
  of the same operations on a list used as a stack, with no nil pointer followed; the iterator then
  yields what is left from the top.
\<close>

theorem stack_refines_lifo:
  "\<exists>s'. stack_run 0 ms (empty_stacks :: 'a::zero stacks) = Some (fst (lifo_run ms []), s')
     \<and> (\<exists>t. Stack_Iterator 0 (\<lambda>v (u, c). Some (True, (u, c @ [v]))) (s', []) = Some (t, snd (lifo_run ms [])))"
proof -
  have "sk_rep (empty_stacks :: 'a stacks) 0 []" by (simp add: sk_rep_def empty_stacks_def)
  from stack_run_refines[OF this, of ms]
  obtain s' bs where s': "stack_run 0 ms (empty_stacks :: 'a stacks) = Some (fst (lifo_run ms []), s')" "sk_rep s' 0 bs"
     "sk_vals s' bs = snd (lifo_run ms [])" unfolding sk_vals_def list.map by blast
  obtain h r s1 where r: "Stack_root 0 s' = Some (h, s1)" "sk_ok s1 0 h r bs" "sk_vals s1 bs = sk_vals s' bs"
    using Stack_root_rep[OF s'(2)] by blast
  have "emit xs (\<lambda>v c. Some (True, c @ [v])) c = Some (True, c @ xs)" for xs and c :: "'a list"
    by (induction xs arbitrary: c) auto
  then have "Stack_iter_loop (Some h) (\<lambda>v (t, c). Some (True, (t, c @ [v]))) (s1, []) = Some (s1, sk_vals s1 bs)"
    using Stack_iter_chain[of s1 h bs r "\<lambda>v c. Some (True, c @ [v])" "[]"] r(2) by (simp add: sk_ok_def)
  with s' r(1,3) show ?thesis by (auto simp: Stack_Iterator_def Stack_Head_def)
qed


subsection \<open>Removing and detaching an item\<close>

text \<open>What the iterator shows of a stack: the values of the chain that hangs from its head.\<close>

definition shown :: "nat \<Rightarrow> 'a::zero stacks \<Rightarrow> 'a list option" where
  "shown k s = map_option snd (Stack_Iterator k (\<lambda>v (u, c). Some (True, (u, c @ [v]))) (s, []))"

lemma shown_chain:
  assumes "st_head (stks s k) = Some h" "schain (\<lambda>i. it_next (items s i)) h as r"
    "\<forall>i \<in> set as. it_ok (items s i)" "\<not> it_ok (items s r)"
  shows "shown k s = Some (sk_vals s as)"
proof -
  have "emit xs (\<lambda>v c. Some (True, c @ [v])) c = Some (True, c @ xs)" for xs and c :: "'a list"
    by (induction xs arbitrary: c) auto
  then have "Stack_iter_loop (Some h) (\<lambda>v (t, c). Some (True, (t, c @ [v]))) (s, []) = Some (s, sk_vals s as)"
    using Stack_iter_chain[OF assms(2-4), of "\<lambda>v c. Some (True, c @ [v])" "[]"] by simp
  then show ?thesis using assms(1) by (simp add: shown_def Stack_Iterator_def Stack_Head_def Stack_root_def Let_def)
qed

lemma sk_rep_parts:
  assumes "sk_rep s k as" "as \<noteq> []"
  obtains h r where "st_head (stks s k) = Some h" "sk_ok s k h r as"
  using assms by (auto simp: sk_rep_def split: option.splits)

lemma Item_Remove_search:
  assumes "schain (\<lambda>i. it_next (items s i)) h (pre @ x # post) r" "\<forall>i \<in> set pre. it_ok (items s i)" "x \<notin> set pre"
  shows "Item_Remove_loop x (Some h) s = Item_Remove_loop x (Some x) s"
  using assms
proof (induction pre arbitrary: h)
  case (Cons y pre)
  then obtain b where b: "h = y" "it_next (items s y) = Some b" "schain (\<lambda>i. it_next (items s i)) b (pre @ x # post) r" by auto
  have "Item_Remove_loop x (Some h) s = Item_Remove_loop x (Some b) s"
    using b(1,2) Cons.prems(2,3) by (subst Item_Remove_loop.simps) (auto simp: Item_Ok_def)
  also have "\<dots> = Item_Remove_loop x (Some x) s" by (rule Cons.IH[OF b(3)]) (use Cons.prems in auto)
  finally show ?case .
qed simp

text \<open>
  \<open>Remove\<close> of an item of a stack reports success and takes one off the length, but leaves the item
  linked: the iterator still shows every value, the removed one too.
\<close>

theorem Item_Remove_keeps_item:
  assumes "sk_rep s k as" "x \<in> set as"
  shows "\<exists>s'. Item_Remove (Some x) s = Some (True, s') \<and> Stack_Len k s' = int (length as) - 1
     \<and> it_stack (items s' x) = None \<and> shown k s' = Some (sk_vals s as)"
proof -
  have "as \<noteq> []" using assms(2) by auto
  then obtain h r where h: "st_head (stks s k) = Some h" "sk_ok s k h r as" using sk_rep_parts[OF assms(1)] by blast
  obtain pre post where as: "as = pre @ x # post" "x \<notin> set pre" using split_list_first[OF assms(2)] by blast
  have x: "it_ok (items s x)" "it_stack (items s x) = Some k" using h(2) assms(2) by (auto simp: sk_ok_def)
  let ?s = "(upd_stk k (\<lambda>y. y\<lparr>st_length := st_length y - 1\<rparr>) s)\<lparr>items := (items s)(x := (items s x)\<lparr>it_stack := None\<rparr>)\<rparr>"
  have "Item_Remove_loop x (Some x) s = Some (True, ?s)"
    using x by (subst Item_Remove_loop.simps) (simp add: Item_Ok_def upd_item_def upd_stk_def Let_def)
  moreover have "Item_Remove_loop x (Some h) s = Item_Remove_loop x (Some x) s"
    using h(2) as by (intro Item_Remove_search[of s h pre x post r]) (auto simp: sk_ok_def)
  ultimately have "Item_Remove (Some x) s = Some (True, ?s)" using x h(1) by (simp add: Item_Remove_def)
  moreover have "shown k ?s = Some (sk_vals ?s as)"
  proof (rule shown_chain)
    show "schain (\<lambda>i. it_next (items ?s i)) h as r"
      by (rule schain_frame[of "\<lambda>i. it_next (items s i)"]) (use h(2) in \<open>auto simp: sk_ok_def\<close>)
  qed (use h in \<open>auto simp: sk_ok_def upd_stk_def\<close>)
  moreover have "sk_vals ?s as = sk_vals s as" by (auto simp: sk_vals_def)
  moreover have "Stack_Len k ?s = int (length as) - 1" using assms(1) by (simp add: Stack_Len_def upd_stk_def sk_rep_def)
  ultimately show ?thesis by auto
qed

lemma Item_Detach_search:
  assumes "schain (\<lambda>i. it_next (items s i)) h (pre @ n # x # post) r" "distinct (pre @ n # x # post)"
  shows "Item_Detach_loop x c (Some h) s = Item_Detach_loop x (c + int (length pre)) (Some n) s"
  using assms
proof (induction pre arbitrary: h c)
  case (Cons y pre)
  then obtain b where b: "h = y" "it_next (items s y) = Some b" "schain (\<lambda>i. it_next (items s i)) b (pre @ n # x # post) r" by auto
  have "b \<noteq> x" using b(3) Cons.prems(2) by (cases pre) auto
  then have "Item_Detach_loop x c (Some h) s = Item_Detach_loop x (c + 1) (Some b) s"
    using b(1,2) by (subst Item_Detach_loop.simps) (simp add: Let_def)
  also have "\<dots> = Item_Detach_loop x (c + 1 + int (length pre)) (Some n) s"
    by (rule Cons.IH[OF b(3)]) (use Cons.prems(2) in simp)
  finally show ?case by (simp add: algebra_simps)
qed simp

text \<open>
  \<open>Detach\<close> below the head splits the chain at the item: the old stack shows the values above it and
  counts them, the new stack shows the item's value and those below, but says that its length is zero.
\<close>

theorem Item_Detach_length_zero:
  assumes "sk_rep s k (xs @ x # ys)" "xs \<noteq> []"
  shows "\<exists>k' s'. Item_Detach x s = Some (Some k', s') \<and> k' \<noteq> k
     \<and> shown k s' = Some (sk_vals s xs) \<and> Stack_Len k s' = int (length xs)
     \<and> shown k' s' = Some (sk_vals s (x # ys)) \<and> Stack_Len k' s' = 0"
proof -
  let ?as = "xs @ x # ys"
  obtain h r where h: "st_head (stks s k) = Some h" "sk_ok s k h r ?as" using sk_rep_parts[OF assms(1)] by blast
  obtain pre n where xs: "xs = pre @ [n]" using assms(2) by (cases xs rule: rev_cases) auto
  have ok: "distinct ?as" "r \<notin> set ?as" "\<forall>i \<in> set ?as. i < items_n s \<and> it_ok (items s i) \<and> it_stack (items s i) = Some k"
    "\<not> it_ok (items s r)" "schain (\<lambda>i. it_next (items s i)) h ?as r" "r < items_n s"
    using h(2) by (auto simp: sk_ok_def)
  have c: "schain (\<lambda>i. it_next (items s i)) h xs x" "schain (\<lambda>i. it_next (items s i)) x (x # ys) r"
    using ok(5) schain_head unfolding schain_append by fastforce+
  have nx: "it_next (items s n) = Some x" using c(1) unfolding xs schain_append by auto
  have hx: "h \<noteq> x" using schain_head[OF c(1)] assms(2) ok(1) by (cases xs) auto
  let ?e = "items_n s" and ?k = "stks_n s"
  have fresh: "?e \<notin> set ?as" "?e \<noteq> r" "?k \<noteq> k" using ok(3,6) assms(1) by (auto simp: sk_rep_def)
  have nX: "n \<noteq> x" "n \<noteq> ?e" "x \<noteq> ?e" using ok(1) fresh(1) xs by auto
  define it where "it = (items s)(?e := \<lparr>it_next = None, it_stack = Some k, it_ok = False, it_value = 0\<rparr>,
      n := (items s n)\<lparr>it_next := Some ?e\<rparr>, x := (items s x)\<lparr>it_stack := Some ?k\<rparr>)"
  define sk where "sk = (stks s)(k := (stks s k)\<lparr>st_length := int (length pre) + 1\<rparr>, ?k := \<lparr>st_head = Some x, st_length = 0\<rparr>)"
  let ?s = "s\<lparr>items := it, items_n := ?e + 1, stks := sk, stks_n := ?k + 1\<rparr>"
  have ix: "it_stack (items s x) = Some k" "it_ok (items s x)" using ok(3) by auto
  have l: "Item_Detach_loop x (int (length pre)) (Some n) s = Some ?s"
    using nx ix nX fresh(3) xs
    by (subst Item_Detach_loop.simps)
      (simp add: Let_def new_item_def new_stk_def upd_item_def upd_stk_def it_def sk_def fun_upd_twist)
  have d: "Item_Detach x s = Some (Some ?k, ?s)"
    using Item_Detach_search[of s h pre n x ys r 0] ok(1,5) xs l h(1) ix hx by (simp add: Item_Detach_def it_def)
  have old: "shown k ?s = Some (sk_vals ?s xs)"
  proof (rule shown_chain)
    show "st_head (stks ?s k) = Some h" using h(1) fresh(3) by (simp add: sk_def)
    have "schain (\<lambda>i. it_next (it i)) h pre n"
      using c(1) ok(1) fresh(1) unfolding xs schain_append
      by (auto intro!: schain_frame[of "\<lambda>i. it_next (items s i)" h pre n] simp: it_def)
    then show "schain (\<lambda>i. it_next (items ?s i)) h xs ?e"
      using nX unfolding xs schain_append by (auto simp: it_def)
    show "\<forall>i \<in> set xs. it_ok (items ?s i)" using ok(3) fresh(1) ix by (auto simp: it_def)
    show "\<not> it_ok (items ?s ?e)" using nX by (simp add: it_def)
  qed
  have new: "shown ?k ?s = Some (sk_vals ?s (x # ys))"
  proof (rule shown_chain)
    show "st_head (stks ?s ?k) = Some x" by (simp add: sk_def)
    show "schain (\<lambda>i. it_next (items ?s i)) x (x # ys) r"
      by (rule schain_frame[OF c(2)]) (use ok(1) fresh(1) xs in \<open>auto simp: it_def\<close>)
    show "\<forall>i \<in> set (x # ys). it_ok (items ?s i)" using ok(3) fresh(1) by (auto simp: it_def)
    show "\<not> it_ok (items ?s r)" using ok(2,4) fresh(2) xs by (auto simp: it_def)
  qed
  have "sk_vals ?s xs = sk_vals s xs" "sk_vals ?s (x # ys) = sk_vals s (x # ys)"
    using fresh(1) by (auto simp: sk_vals_def it_def)
  moreover have "Stack_Len k ?s = int (length xs)" "Stack_Len ?k ?s = 0" using fresh(3) xs by (auto simp: Stack_Len_def sk_def)
  ultimately show ?thesis using d old new fresh(3) by (intro exI[of _ ?k] exI[of _ ?s]) auto
qed

text \<open>A stack of integers, the first one pushed first.\<close>

definition int_stack :: "int list \<Rightarrow> int stacks" where
  "int_stack vs = snd (the (stack_run 0 (map SPush vs) empty_stacks))"

lemma lifo_run_pushes: "snd (lifo_run (map SPush vs) xs) = rev vs @ xs"
  by (induction vs arbitrary: xs) (simp_all add: case_prod_beta)

lemma int_stack_rep: "\<exists>as. sk_rep (int_stack vs) 0 as \<and> sk_vals (int_stack vs) as = rev vs"
proof -
  have "sk_rep (empty_stacks :: int stacks) 0 []" by (simp add: sk_rep_def empty_stacks_def)
  from stack_run_refines[OF this, of "map SPush vs"]
  obtain s' bs where "stack_run 0 (map SPush vs) (empty_stacks :: int stacks) = Some (fst (lifo_run (map SPush vs) []), s')"
     "sk_rep s' 0 bs" "sk_vals s' bs = snd (lifo_run (map SPush vs) [])" unfolding sk_vals_def list.map by blast
  then show ?thesis by (auto simp: int_stack_def lifo_run_pushes)
qed

lemma Item_Remove_keeps_item_witness:
  "\<exists>x s'. Item_Remove (Some x) (int_stack [1, 2]) = Some (True, s') \<and> Stack_Len 0 s' = 1 \<and> shown 0 s' = Some [2, 1]"
proof -
  obtain as where a: "sk_rep (int_stack [1, 2]) 0 as" "sk_vals (int_stack [1, 2]) as = [2, 1]"
    using int_stack_rep[of "[1, 2]"] by auto
  then obtain x y where as: "as = [x, y]" by (auto simp: sk_vals_def map_eq_Cons_conv)
  then show ?thesis using Item_Remove_keeps_item[OF a(1), of y] a(2) by auto
qed

lemma Item_Detach_length_zero_witness:
  "\<exists>x k s'. Item_Detach x (int_stack [1, 2, 3]) = Some (Some k, s') \<and> shown k s' = Some [2, 1] \<and> Stack_Len k s' = 0"
proof -
  obtain as where a: "sk_rep (int_stack [1, 2, 3]) 0 as" "sk_vals (int_stack [1, 2, 3]) as = [3, 2, 1]"
    using int_stack_rep[of "[1, 2, 3]"] by auto
  then obtain x y z where as: "as = [x] @ y # [z]" by (auto simp: sk_vals_def map_eq_Cons_conv)
  have "sk_rep (int_stack [1, 2, 3]) 0 ([x] @ y # [z])" using a(1) as by simp
  from Item_Detach_length_zero[OF this] a(2) as show ?thesis by (auto simp: sk_vals_def)
qed

end
