(* ===== verification/HdrHist.thy ===== *)
theory HdrHist
  imports Prelude Complex_Main "HOL-Library.Log_Nat"
begin

text \<open>
  The histogram of \<open>src/dt/hdrhist/hdr.go\<close>: construction, the index arithmetic and recording.

  Values are 64-bit integers.  The shifts that make and read bucket indices are written with the
  language's rules: a left shift wraps around, a right shift rounds towards minus infinity, and a
  negative shift distance, converted to an unsigned one, is huge.  \<open>bitlen\<close> is the library's number of
  binary digits.
\<close>

definition ushift :: "int \<Rightarrow> nat" where
  "ushift k = (if k < 0 \<or> 64 \<le> k then 64 else nat k)"

definition shl64 :: "int \<Rightarrow> int \<Rightarrow> int" where
  "shl64 v k = wrap64 (v * 2 ^ ushift k)"

text \<open>Bucket and counter indices have 32 bits.\<close>

definition wrap32 :: "int \<Rightarrow> int" where
  "wrap32 i = (i + 2147483648) mod 4294967296 - 2147483648"

definition shl32 :: "int \<Rightarrow> int \<Rightarrow> int" where
  "shl32 v k = wrap32 (v * 2 ^ ushift k)"

definition shr64 :: "int \<Rightarrow> int \<Rightarrow> int" where
  "shr64 v k = v div 2 ^ ushift k"

record Histogram =
  lowestTrackableValue :: int
  highestTrackableValue :: int
  unitMagnitude :: int
  significantFigures :: int
  subBucketHalfCountMagnitude :: int
  subBucketHalfCount :: int
  subBucketMask :: int
  subBucketCount :: int
  bucketCount :: int
  countsLen :: int
  totalCount :: int
  counts :: "int list"

subsection \<open>Construction\<close>

text \<open>
  The loop of \<open>New\<close>.  Its shift can wrap around, and then it need not end.
\<close>

partial_function (option) bucketsNeeded_loop :: "int \<Rightarrow> int \<Rightarrow> int \<Rightarrow> int option" where
  "bucketsNeeded_loop maxValue smallest needed =
     (if smallest < maxValue then bucketsNeeded_loop maxValue (shl64 smallest 1) (needed + 1) else Some needed)"

text \<open>
  The magnitudes are computed with \<open>math.Log2\<close> in the code.  \<open>2 * 10 ^ sigfigs\<close> is never a power of two,
  so the ceiling of its logarithm is its number of binary digits; the floor of the logarithm of the
  lowest value is one less than its number of digits, and anything that is not positive gives zero.
  That is what \<open>float64\<close> computes for lowest values below \<open>2 ^ 40\<close>, the only ones the theorems use;
  just below a larger power of two the rounded logarithm can be that power's.
\<close>

definition hist_New :: "int \<Rightarrow> int \<Rightarrow> int \<Rightarrow> Histogram outcome option" where
  "hist_New minValue maxValue sigfigs =
     (if sigfigs < 1 \<or> 5 < sigfigs then Some (Panic ''sigfigs must be [1,5]'')
      else
        let largestValueWithSingleUnitResolution = 2 * 10 ^ nat sigfigs;
            subBucketCountMagnitude = bitlen largestValueWithSingleUnitResolution;
            halfMagnitude = max subBucketCountMagnitude 1 - 1;
            unitMag = max (if minValue < 1 then 0 else bitlen minValue - 1) 0;
            subCount = 2 ^ nat (halfMagnitude + 1);
            halfCount = subCount div 2;
            mask = shl64 (subCount - 1) unitMag;
            smallestUntrackableValue = shl64 subCount unitMag
        in do { needed \<leftarrow> bucketsNeeded_loop maxValue smallestUntrackableValue 1;
                let cl = (needed + 1) * (subCount div 2);
                Some (Done \<lparr>lowestTrackableValue = minValue, highestTrackableValue = maxValue, unitMagnitude = unitMag,
                  significantFigures = sigfigs, subBucketHalfCountMagnitude = halfMagnitude,
                  subBucketHalfCount = halfCount, subBucketMask = mask, subBucketCount = subCount,
                  bucketCount = needed, countsLen = cl, totalCount = 0, counts = replicate (nat cl) 0\<rparr>) })"

definition hist_Reset :: "Histogram \<Rightarrow> Histogram" where
  "hist_Reset h = h\<lparr>totalCount := 0, counts := replicate (length (counts h)) 0\<rparr>"

definition hist_TotalCount :: "Histogram \<Rightarrow> int" where "hist_TotalCount h = totalCount h"

definition hist_ByteSize :: "Histogram \<Rightarrow> int" where
  "hist_ByteSize h = 6 * 8 + 5 * 4 + int (length (counts h)) * 8"

subsection \<open>The number of binary digits\<close>

function bitLen_loop :: "int \<Rightarrow> int \<Rightarrow> int \<times> int" where
  "bitLen_loop x n = (if x \<ge> 32768 then bitLen_loop (shr64 x 16) (n + 16) else (x, n))"
  by pat_completeness auto
termination
  by (relation "measure (\<lambda>(x, _). nat x)") (auto simp: shr64_def ushift_def)

declare bitLen_loop.simps [simp del]

definition bitLen :: "int \<Rightarrow> int" where
  "bitLen x0 =
     (let (x, n) = bitLen_loop x0 0;
          (x, n) = (if x \<ge> 128 then (shr64 x 8, n + 8) else (x, n));
          (x, n) = (if x \<ge> 8 then (shr64 x 4, n + 4) else (x, n));
          (x, n) = (if x \<ge> 2 then (shr64 x 2, n + 2) else (x, n))
      in if x \<ge> 1 then n + 1 else n)"

subsection \<open>Indices\<close>

definition getBucketIndex :: "Histogram \<Rightarrow> int \<Rightarrow> int" where
  "getBucketIndex h v =
     wrap32 (bitLen (Bit_Operations.or v (subBucketMask h)) - unitMagnitude h - (subBucketHalfCountMagnitude h + 1))"

definition getSubBucketIdx :: "Histogram \<Rightarrow> int \<Rightarrow> int \<Rightarrow> int" where
  "getSubBucketIdx h v idx = wrap32 (shr64 v (idx + unitMagnitude h))"

definition countsIndex :: "Histogram \<Rightarrow> int \<Rightarrow> int \<Rightarrow> int" where
  "countsIndex h bucketIdx subBucketIdx =
     wrap32 (shl32 (bucketIdx + 1) (subBucketHalfCountMagnitude h) + (subBucketIdx - subBucketHalfCount h))"

definition countsIndexFor :: "Histogram \<Rightarrow> int \<Rightarrow> int" where
  "countsIndexFor h v = (let b = getBucketIndex h v in countsIndex h b (getSubBucketIdx h v b))"

definition valueFromIndex :: "Histogram \<Rightarrow> int \<Rightarrow> int \<Rightarrow> int" where
  "valueFromIndex h bucketIdx subBucketIdx = shl64 subBucketIdx (bucketIdx + unitMagnitude h)"

definition lowestEquivalentValue :: "Histogram \<Rightarrow> int \<Rightarrow> int" where
  "lowestEquivalentValue h v = (let b = getBucketIndex h v in valueFromIndex h b (getSubBucketIdx h v b))"

definition sizeOfEquivalentValueRange :: "Histogram \<Rightarrow> int \<Rightarrow> int outcome" where
  "sizeOfEquivalentValueRange h v =
     (let b = getBucketIndex h v in
      if getSubBucketIdx h v b \<ge> subBucketCount h then Panic ''found out of range bucket''
      else Done (shl64 1 (unitMagnitude h + b)))"

definition nextNonEquivalentValue :: "Histogram \<Rightarrow> int \<Rightarrow> int outcome" where
  "nextNonEquivalentValue h v =
     on_done (sizeOfEquivalentValueRange h v) (\<lambda>sz. Done (wrap64 (lowestEquivalentValue h v + sz)))"

definition highestEquivalentValue :: "Histogram \<Rightarrow> int \<Rightarrow> int outcome" where
  "highestEquivalentValue h v = on_done (nextNonEquivalentValue h v) (\<lambda>n. Done (wrap64 (n - 1)))"

definition medianEquivalentValue :: "Histogram \<Rightarrow> int \<Rightarrow> int outcome" where
  "medianEquivalentValue h v =
     on_done (sizeOfEquivalentValueRange h v) (\<lambda>sz. Done (wrap64 (lowestEquivalentValue h v + shr64 sz 1)))"

definition getCountAtIndex :: "Histogram \<Rightarrow> int \<Rightarrow> int \<Rightarrow> int outcome" where
  "getCountAtIndex h b s =
     (let i = countsIndex h b s in
      if 0 \<le> i \<and> i < int (length (counts h)) then Done (counts h ! nat i) else Panic ''index out of range'')"

subsection \<open>Recording\<close>

text \<open>The error is the value that could not be recorded.\<close>

definition RecordValues :: "Histogram \<Rightarrow> int \<Rightarrow> int \<Rightarrow> (int option \<times> Histogram) outcome" where
  "RecordValues h v n =
     (let idx = countsIndexFor h v in
      if idx < 0 \<or> countsLen h \<le> idx then Done (Some v, h)
      else if int (length (counts h)) \<le> idx then Panic ''index out of range''
      else Done (None, h\<lparr>counts := (counts h)[nat idx := wrap64 (counts h ! nat idx + n)],
                         totalCount := wrap64 (totalCount h + n)\<rparr>))"

definition RecordValue :: "Histogram \<Rightarrow> int \<Rightarrow> (int option \<times> Histogram) outcome" where
  "RecordValue h v = RecordValues h v 1"

text \<open>An error inside the loop is a panic of \<open>erc.Must\<close>.\<close>

partial_function (option) RecordCorrected_loop :: "int \<Rightarrow> int \<Rightarrow> Histogram \<Rightarrow> Histogram outcome option" where
  "RecordCorrected_loop missing expInterval h =
     (if missing \<ge> expInterval
      then case RecordValue h missing of
             Panic m \<Rightarrow> Some (Panic m)
           | Done r \<Rightarrow> (case r of (e, h1) \<Rightarrow>
               if e \<noteq> None then Some (Panic ''value is too large to be recorded'')
               else RecordCorrected_loop (wrap64 (missing - expInterval)) expInterval h1)
      else Some (Done h))"

definition RecordCorrectedValue :: "Histogram \<Rightarrow> int \<Rightarrow> int \<Rightarrow> (int option \<times> Histogram) outcome option" where
  "RecordCorrectedValue h v expInterval =
     (case RecordValue h v of
        Panic m \<Rightarrow> Some (Panic m)
      | Done (Some e, h1) \<Rightarrow> Some (Done (Some e, h1))
      | Done (None, h1) \<Rightarrow>
          if expInterval \<le> 0 \<or> v \<le> expInterval then Some (Done (None, h1))
          else do { r \<leftarrow> RecordCorrected_loop (wrap64 (v - expInterval)) expInterval h1;
                    Some (on_done r (\<lambda>h2. Done (None, h2))) })"

subsection \<open>Iterators\<close>

text \<open>
  \<open>rIterator\<close> embeds the iterator, so it extends the record; \<open>highestAtIdx\<close> is the field
  \<open>highestEquivalentValue\<close> of the code, whose name the method of the histogram has here.
\<close>

record hiter =
  bucketIdx :: int
  subBucketIdx :: int
  countAtIdx :: int
  countToIdx :: int
  valueFromIdx :: int
  highestAtIdx :: int

record hriter = hiter +
  countAddedThisStep :: int

definition hist_iterator :: hiter where
  "hist_iterator = \<lparr>bucketIdx = 0, subBucketIdx = -1, countAtIdx = 0, countToIdx = 0, valueFromIdx = 0, highestAtIdx = 0\<rparr>"

definition hist_rIterator :: hriter where
  "hist_rIterator = \<lparr>bucketIdx = 0, subBucketIdx = -1, countAtIdx = 0, countToIdx = 0, valueFromIdx = 0, highestAtIdx = 0,
     countAddedThisStep = 0\<rparr>"

definition iter_next :: "Histogram \<Rightarrow> 'm hiter_scheme \<Rightarrow> (bool \<times> 'm hiter_scheme) outcome" where
  "iter_next h i =
     (if countToIdx i \<ge> totalCount h then Done (False, i)
      else
        let sub = subBucketIdx i + 1;
            full = (sub \<ge> subBucketCount h);
            s = (if full then subBucketHalfCount h else sub);
            b = (if full then bucketIdx i + 1 else bucketIdx i)
        in if b \<ge> bucketCount h then Panic ''iteration out of bounds, should have halted here''
           else on_done (getCountAtIndex h b s) (\<lambda>c.
                let v = valueFromIndex h b s in
                on_done (highestEquivalentValue h v) (\<lambda>hi.
                Done (True, i\<lparr>bucketIdx := b, subBucketIdx := s, countAtIdx := c, countToIdx := wrap64 (countToIdx i + c),
                               valueFromIdx := v, highestAtIdx := hi\<rparr>))))"

partial_function (option) rIter_next :: "Histogram \<Rightarrow> hriter \<Rightarrow> (bool \<times> hriter) outcome option" where
  "rIter_next h r =
     (case iter_next h r of
        Panic m \<Rightarrow> Some (Panic m)
      | Done q \<Rightarrow> (case q of (went, r1) \<Rightarrow>
          if \<not> went then Some (Done (False, r1))
          else if countAtIdx r1 \<noteq> 0 then Some (Done (True, r1\<lparr>countAddedThisStep := countAtIdx r1\<rparr>))
          else rIter_next h r1))"

text \<open>
  \<open>for i.next() { body }\<close>: the body is given the iterator and the local variables and says whether it
  leaves the loop.
\<close>

partial_function (option) hist_each ::
  "Histogram \<Rightarrow> (hiter \<Rightarrow> 'a \<Rightarrow> (bool \<times> 'a) outcome) \<Rightarrow> hiter \<Rightarrow> 'a \<Rightarrow> (bool \<times> 'a) outcome option" where
  "hist_each h body i a =
     (case iter_next h i of
        Panic m \<Rightarrow> Some (Panic m)
      | Done q \<Rightarrow> (case q of (went, i1) \<Rightarrow>
          if \<not> went then Some (Done (False, a))
          else (case body i1 a of
                  Panic m \<Rightarrow> Some (Panic m)
                | Done r \<Rightarrow> (case r of (leave, a1) \<Rightarrow>
                    if leave then Some (Done (True, a1)) else hist_each h body i1 a1))))"

definition hist_Max :: "Histogram \<Rightarrow> int outcome option" where
  "hist_Max h = do { r \<leftarrow> hist_each h (\<lambda>i m. Done (False, if countAtIdx i \<noteq> 0 then highestAtIdx i else m)) hist_iterator 0;
                     Some (on_done r (\<lambda>(_, m). highestEquivalentValue h m)) }"

definition hist_Min :: "Histogram \<Rightarrow> int outcome option" where
  "hist_Min h = do { r \<leftarrow> hist_each h (\<lambda>i m. if countAtIdx i \<noteq> 0 \<and> m = 0 then Done (True, highestAtIdx i) else Done (False, m))
                            hist_iterator 0;
                     Some (on_done r (\<lambda>(_, m). Done (lowestEquivalentValue h m))) }"

text \<open>
  The mean divides in \<open>float64\<close>: \<open>fl\<close> rounds a rational to the nearest \<open>float64\<close>.
\<close>

definition hist_Mean :: "(rat \<Rightarrow> rat) \<Rightarrow> Histogram \<Rightarrow> rat outcome option" where
  "hist_Mean fl h =
     (if totalCount h = 0 then Some (Done 0)
      else do { r \<leftarrow> hist_each h (\<lambda>i t. if countAtIdx i \<noteq> 0
                       then on_done (medianEquivalentValue h (valueFromIdx i))
                              (\<lambda>m. Done (False, wrap64 (t + wrap64 (countAtIdx i * m))))
                       else Done (False, t)) hist_iterator 0;
                Some (on_done r (\<lambda>(_, t). Done (fl (fl (of_int t) / fl (of_int (totalCount h)))))) })"

text \<open>
  The rank of a quantile is computed in \<open>float64\<close> from the quantile and the total; \<open>rank\<close> is that
  computation (\<open>int64(((q / 100) * float64(total)) + 0.5)\<close> after the quantile is capped at 100).
\<close>

definition ValueAtQuantile :: "('q \<Rightarrow> int \<Rightarrow> int) \<Rightarrow> Histogram \<Rightarrow> 'q \<Rightarrow> int outcome option" where
  "ValueAtQuantile rank h q =
     (let countAtPercentile = rank q (totalCount h) in
      do { r \<leftarrow> hist_each h (\<lambda>i (t, v). let t1 = wrap64 (t + countAtIdx i) in
                   if t1 \<ge> countAtPercentile then on_done (highestEquivalentValue h (valueFromIdx i)) (\<lambda>hi. Done (True, (t1, hi)))
                   else Done (False, (t1, v))) hist_iterator (0, 0);
           Some (on_done r (\<lambda>(left, (_, v)). Done (if left then v else 0))) })"

record Bar =
  bar_From :: int
  bar_To :: int
  bar_Count :: int

definition hist_Distribution :: "Histogram \<Rightarrow> Bar list outcome option" where
  "hist_Distribution h =
     do { r \<leftarrow> hist_each h (\<lambda>i bs. Done (False, bs @ [\<lparr>bar_From = lowestEquivalentValue h (valueFromIdx i),
                                                   bar_To = highestAtIdx i, bar_Count = countAtIdx i\<rparr>])) hist_iterator [];
          Some (on_done r (\<lambda>(_, bs). Done bs)) }"

subsection \<open>Merging, comparing, snapshots\<close>

text \<open>The receiver and the histogram that is merged into it are two objects.\<close>

partial_function (option) Merge_loop :: "Histogram \<Rightarrow> hriter \<Rightarrow> Histogram \<Rightarrow> int \<Rightarrow> (int \<times> Histogram) outcome option" where
  "Merge_loop src r h dropped =
     do { q \<leftarrow> rIter_next src r;
          case q of
            Panic m \<Rightarrow> Some (Panic m)
          | Done p \<Rightarrow> (case p of (went, r1) \<Rightarrow>
              if \<not> went then Some (Done (dropped, h))
              else (case RecordValues h (valueFromIdx r1) (countAtIdx r1) of
                      Panic m \<Rightarrow> Some (Panic m)
                    | Done e \<Rightarrow> (case e of (err, h1) \<Rightarrow>
                        Merge_loop src r1 h1 (if err \<noteq> None then wrap64 (dropped + countAtIdx r1) else dropped)))) }"

definition hist_Merge :: "Histogram \<Rightarrow> Histogram \<Rightarrow> (int \<times> Histogram) outcome option" where
  "hist_Merge h src = Merge_loop src hist_rIterator h 0"

fun counts_equal :: "int list \<Rightarrow> int list \<Rightarrow> bool outcome" where
  "counts_equal [] ys = Done True"
| "counts_equal (x # xs) [] = Panic ''index out of range''"
| "counts_equal (x # xs) (y # ys) = (if x \<noteq> y then Done False else counts_equal xs ys)"

definition hist_Equals :: "Histogram \<Rightarrow> Histogram \<Rightarrow> bool outcome" where
  "hist_Equals h other =
     (if lowestTrackableValue h \<noteq> lowestTrackableValue other
       \<or> highestTrackableValue h \<noteq> highestTrackableValue other
       \<or> unitMagnitude h \<noteq> unitMagnitude other
       \<or> significantFigures h \<noteq> significantFigures other
       \<or> subBucketHalfCountMagnitude h \<noteq> subBucketHalfCountMagnitude other
       \<or> subBucketHalfCount h \<noteq> subBucketHalfCount other
       \<or> subBucketMask h \<noteq> subBucketMask other
       \<or> subBucketCount h \<noteq> subBucketCount other
       \<or> bucketCount h \<noteq> bucketCount other
       \<or> countsLen h \<noteq> countsLen other
       \<or> totalCount h \<noteq> totalCount other
      then Done False else counts_equal (counts h) (counts other))"

record Snapshot =
  sn_LowestTrackableValue :: int
  sn_HighestTrackableValue :: int
  sn_SignificantFigures :: int
  sn_Counts :: "int list"

definition hist_Export :: "Histogram \<Rightarrow> Snapshot" where
  "hist_Export h = \<lparr>sn_LowestTrackableValue = lowestTrackableValue h, sn_HighestTrackableValue = highestTrackableValue h,
     sn_SignificantFigures = significantFigures h, sn_Counts = counts h\<rparr>"

definition hist_Import :: "Snapshot \<Rightarrow> Histogram outcome option" where
  "hist_Import s =
     do { r \<leftarrow> hist_New (sn_LowestTrackableValue s) (sn_HighestTrackableValue s) (sn_SignificantFigures s);
          Some (on_done r (\<lambda>h.
            if int (length (sn_Counts s)) < countsLen h then Panic ''index out of range''
            else Done (h\<lparr>counts := sn_Counts s,
                         totalCount := fold (\<lambda>c t. if c > 0 then wrap64 (t + c) else t) (take (nat (countsLen h)) (sn_Counts s)) 0\<rparr>))) }"

definition SignificantFigures :: "Histogram \<Rightarrow> int" where "SignificantFigures h = significantFigures h"
definition LowestTrackableValue :: "Histogram \<Rightarrow> int" where "LowestTrackableValue h = lowestTrackableValue h"
definition HighestTrackableValue :: "Histogram \<Rightarrow> int" where "HighestTrackableValue h = highestTrackableValue h"

subsection \<open>Windows (\<open>src/dt/hdrhist/window.go\<close>)\<close>

text \<open>\<open>Current\<close> is a pointer to an element of \<open>h\<close>; the model keeps its index.\<close>

record WindowedHistogram =
  win_idx :: int
  win_h :: "Histogram list"
  win_m :: Histogram
  win_Current :: nat

definition win_Rotate :: "WindowedHistogram \<Rightarrow> WindowedHistogram outcome" where
  "win_Rotate w =
     (let idx = wrap64 (win_idx w + 1); n = int (length (win_h w)) in
      if n = 0 then Panic ''integer divide by zero''
      else let k = remd idx n in
           if k < 0 then Panic ''index out of range''
           else Done (w\<lparr>win_idx := idx, win_h := (win_h w)[nat k := hist_Reset (win_h w ! nat k)], win_Current := nat k\<rparr>))"

definition NewWindowed :: "int \<Rightarrow> int \<Rightarrow> int \<Rightarrow> int \<Rightarrow> WindowedHistogram outcome option" where
  "NewWindowed n minValue maxValue sigfigs =
     (if n < 0 then Some (Panic ''makeslice: len out of range'')
      else do { r \<leftarrow> hist_New minValue maxValue sigfigs;
                Some (on_done r (\<lambda>h. win_Rotate \<lparr>win_idx = -1, win_h = replicate (nat n) h, win_m = h, win_Current = 0\<rparr>)) })"

primrec win_Merge_loop :: "Histogram list \<Rightarrow> Histogram \<Rightarrow> Histogram outcome option" where
  "win_Merge_loop [] m = Some (Done m)"
| "win_Merge_loop (h # hs) m =
     do { r \<leftarrow> hist_Merge m h;
          case r of Panic e \<Rightarrow> Some (Panic e) | Done (_, m1) \<Rightarrow> win_Merge_loop hs m1 }"

definition win_Merge :: "WindowedHistogram \<Rightarrow> WindowedHistogram outcome option" where
  "win_Merge w = do { r \<leftarrow> win_Merge_loop (win_h w) (hist_Reset (win_m w)); Some (on_done r (\<lambda>m. Done (w\<lparr>win_m := m\<rparr>))) }"

text \<open>Recording through \<open>w.Current\<close>, as the callers do.\<close>

definition win_record :: "WindowedHistogram \<Rightarrow> int \<Rightarrow> (int option \<times> WindowedHistogram) outcome" where
  "win_record w v = on_done (RecordValue (win_h w ! win_Current w) v)
     (\<lambda>(e, h). Done (e, w\<lparr>win_h := (win_h w)[win_Current w := h]\<rparr>))"

declare bucketsNeeded_loop.simps [code] RecordCorrected_loop.simps [code] rIter_next.simps [code]
  hist_each.simps [code] Merge_loop.simps [code]

end

