(* ===== verification/HdrHistLaws.thy ===== *)
theory HdrHistLaws
  imports HdrHist
begin

text \<open>
  The arithmetic of the histogram: \<open>bitLen\<close> counts binary digits, the indices of a well-shaped
  histogram cut the values into consecutive intervals, and the iterator visits them in order.
\<close>

subsection \<open>\<open>bitLen\<close> counts binary digits\<close>

lemma shr64_small: "0 \<le> k \<Longrightarrow> k < 64 \<Longrightarrow> shr64 x k = x div 2 ^ nat k"
  by (simp add: shr64_def ushift_def)

lemma bitlen_le_iff: "bitlen x \<le> int k \<longleftrightarrow> x < 2 ^ k"
  by (simp add: bitlen_le_iff_power)

lemma bitlen_half: "0 < x \<Longrightarrow> bitlen x = bitlen (x div 2) + 1"
  by (subst compute_bitlen) simp

lemma bitlen_shift: "2 ^ k \<le> x \<Longrightarrow> bitlen x = bitlen (x div 2 ^ k) + int k"
proof (induction k)
  case (Suc k)
  have k: "2 ^ k \<le> x" using Suc.prems zero_le_power[of "2::int" k] by (simp only: power_Suc) linarith
  have "1 \<le> x div 2 ^ k" using k by (simp add: zdiv_mono1 [of "2 ^ k" x "2 ^ k"] order_trans[OF _ zdiv_mono1[OF k]])
  then have "bitlen (x div 2 ^ k) = bitlen (x div 2 ^ k div 2) + 1" by (intro bitlen_half) simp
  moreover have "x div 2 ^ k div 2 = x div 2 ^ Suc k" by (simp add: zdiv_zmult2_eq[symmetric] mult.commute)
  ultimately show ?case using Suc.IH[OF k] by simp
qed simp

lemma bitlen_shift_Suc:
  assumes "2 ^ k \<le> x" shows "bitlen x = bitlen (x div 2 ^ Suc k) + int (Suc k)"
proof -
  have "1 \<le> x div 2 ^ k" using order_trans[OF _ zdiv_mono1[OF assms]] by simp
  then have "bitlen (x div 2 ^ k) = bitlen (x div 2 ^ k div 2) + 1" by (intro bitlen_half) simp
  moreover have "x div 2 ^ k div 2 = x div 2 ^ Suc k" by (simp add: zdiv_zmult2_eq[symmetric] mult.commute)
  ultimately show ?thesis using bitlen_shift[OF assms] by simp
qed

lemma bitLen_loop_spec:
  "0 \<le> x \<Longrightarrow> \<exists>y. bitLen_loop x n = (y, n + bitlen x - bitlen y) \<and> 0 \<le> y \<and> y < 32768"
proof (induction x n rule: bitLen_loop.induct)
  case (1 x n)
  show ?case
  proof (cases "32768 \<le> x")
    case True
    have s: "shr64 x 16 = x div 2 ^ Suc 15" by (simp add: shr64_small)
    have b: "bitlen x = bitlen (shr64 x 16) + 16" unfolding s using True by (subst bitlen_shift_Suc[of 15]) simp_all
    have "0 \<le> shr64 x 16" using True by (simp add: s)
    then obtain y where y: "bitLen_loop (shr64 x 16) (n + 16) = (y, n + 16 + bitlen (shr64 x 16) - bitlen y)" "0 \<le> y" "y < 32768"
      using "1.IH"[OF True] by blast
    then show ?thesis using True b by (subst bitLen_loop.simps) simp
  qed (use 1 in \<open>auto simp: bitLen_loop.simps\<close>)
qed

lemma zdiv_less: assumes "x < a * k" "0 < (k::int)" shows "x div k < a"
proof (rule ccontr)
  assume "\<not> x div k < a"
  then have "a * k \<le> x div k * k" using assms(2) by (intro mult_right_mono) auto
  also have "\<dots> \<le> x" using assms(2) by (simp add: minus_mod_eq_div_mult[symmetric])
  finally show False using assms(1) by simp
qed

lemma bitlen_step:
  assumes "0 \<le> (x::int)" "x < 2 ^ j * 2 ^ Suc j" "Suc j < 64"
    and "y = (if 2 ^ j \<le> x then shr64 x (int (Suc j)) else x)" "d = (if 2 ^ j \<le> x then int (Suc j) else 0)"
  shows "0 \<le> y \<and> y < 2 ^ j \<and> bitlen x = bitlen y + d"
proof (cases "2 ^ j \<le> x")
  case True
  have s: "shr64 x (int (Suc j)) = x div 2 ^ Suc j" using assms(3) by (simp add: shr64_small del: power_Suc of_nat_Suc)
  have "x div 2 ^ Suc j < 2 ^ j" using assms(2) by (intro zdiv_less) simp_all
  then show ?thesis using assms(1,4,5) bitlen_shift_Suc[OF True] True s by (simp add: pos_imp_zdiv_nonneg_iff)
qed (use assms in auto)

lemma bitLen_eq: assumes "0 \<le> x" shows "bitLen x = bitlen x"
proof -
  obtain y0 where y0: "bitLen_loop x 0 = (y0, bitlen x - bitlen y0)" "0 \<le> y0" "y0 < 32768"
    using bitLen_loop_spec[OF assms, of 0] by auto
  define y1 n1 where "y1 = (if y0 \<ge> 128 then shr64 y0 8 else y0)" and "n1 = (if y0 \<ge> 128 then 8 else 0 :: int)"
  define y2 n2 where "y2 = (if y1 \<ge> 8 then shr64 y1 4 else y1)" and "n2 = (if y1 \<ge> 8 then 4 else 0 :: int)"
  define y3 n3 where "y3 = (if y2 \<ge> 2 then shr64 y2 2 else y2)" and "n3 = (if y2 \<ge> 2 then 2 else 0 :: int)"
  have 1: "0 \<le> y1 \<and> y1 < 2 ^ 7 \<and> bitlen y0 = bitlen y1 + n1" by (rule bitlen_step) (use y0 in \<open>simp_all add: y1_def n1_def\<close>)
  then have b1: "0 \<le> y1" "y1 < 2 ^ 7" by blast+
  have 2: "0 \<le> y2 \<and> y2 < 2 ^ 3 \<and> bitlen y1 = bitlen y2 + n2" by (rule bitlen_step) (use b1 in \<open>simp_all add: y2_def n2_def\<close>)
  then have b2: "0 \<le> y2" "y2 < 2 ^ 3" by blast+
  have 3: "0 \<le> y3 \<and> y3 < 2 ^ 1 \<and> bitlen y2 = bitlen y3 + n3" by (rule bitlen_step) (use b2 in \<open>simp_all add: y3_def n3_def\<close>)
  have "y3 = 0 \<or> y3 = 1" using 3 by auto
  then have 4: "bitlen y3 = (if y3 \<ge> 1 then 1 else 0)" using bitlen_half[of 1] by auto
  define N where "N = bitlen x - bitlen y0"
  have a: "(if y0 \<ge> 128 then (shr64 y0 8, N + 8) else (y0, N)) = (y1, N + n1)" by (simp add: y1_def n1_def)
  have b: "(if y1 \<ge> 8 then (shr64 y1 4, n + 4) else (y1, n)) = (y2, n + n2)" for n by (simp add: y2_def n2_def)
  have c: "(if y2 \<ge> 2 then (shr64 y2 2, n + 2) else (y2, n)) = (y3, n + n3)" for n by (simp add: y3_def n3_def)
  have "bitLen x = (if y3 \<ge> 1 then N + n1 + n2 + n3 + 1 else N + n1 + n2 + n3)"
    unfolding bitLen_def y0(1) N_def[symmetric] Let_def prod.case a b c by (rule refl)
  then show ?thesis using 1 2 3 4 by (simp add: N_def)
qed

lemma bitLen_neg: "x < 0 \<Longrightarrow> bitLen x = 0"
  by (simp add: bitLen_def bitLen_loop.simps)

lemma bitlen_or:
  assumes "0 \<le> (x::int)" "0 \<le> y" shows "bitlen (or x y) = max (bitlen x) (bitlen y)"
proof -
  have "bitlen (or x y) \<le> int k \<longleftrightarrow> max (bitlen x) (bitlen y) \<le> int k" for k
  proof -
    have "or x y < 2 ^ k \<longleftrightarrow> x < 2 ^ k \<and> y < 2 ^ k"
      using OR_upper[of x k y] or_greater_eq[of y x] or_greater_eq[of x y] assms by (auto simp: or.commute)
    then show ?thesis by (simp add: bitlen_le_iff)
  qed
  then have "w \<ge> 0 \<Longrightarrow> bitlen (or x y) \<le> w \<longleftrightarrow> max (bitlen x) (bitlen y) \<le> w" for w by (metis nonneg_int_cases)
  from this[of "bitlen (or x y)"] this[of "max (bitlen x) (bitlen y)"]
  show ?thesis using bitlen_nonneg[of "or x y"] bitlen_nonneg[of x] by (intro antisym) (auto simp: le_max_iff_disj)
qed

subsection \<open>Positions and intervals\<close>

text \<open>
  A well-shaped histogram with unit \<open>2 ^ u\<close>, buckets of \<open>2 ^ (M + 1)\<close> sub-buckets and \<open>B\<close> buckets.  Its
  position \<open>n\<close> belongs to bucket \<open>pbucket M n\<close> and sub-bucket \<open>psub M n\<close> and counts the values from
  \<open>plow u M n\<close> up to the lowest value of the next position.
\<close>

definition hist_shape :: "nat \<Rightarrow> nat \<Rightarrow> nat \<Rightarrow> Histogram \<Rightarrow> bool" where
  "hist_shape u M B h \<longleftrightarrow>
     unitMagnitude h = int u \<and> subBucketHalfCountMagnitude h = int M \<and> subBucketHalfCount h = 2 ^ M
     \<and> subBucketCount h = 2 ^ (M + 1) \<and> subBucketMask h = (2 ^ (M + 1) - 1) * 2 ^ u \<and> bucketCount h = int B
     \<and> countsLen h = int ((B + 1) * 2 ^ M) \<and> length (counts h) = (B + 1) * 2 ^ M
     \<and> 1 \<le> B \<and> M \<le> 17 \<and> u + M + B \<le> 62"

definition pbucket :: "nat \<Rightarrow> nat \<Rightarrow> nat" where
  "pbucket M n = n div 2 ^ M - 1"

definition psub :: "nat \<Rightarrow> nat \<Rightarrow> nat" where
  "psub M n = n - pbucket M n * 2 ^ M"

definition plow :: "nat \<Rightarrow> nat \<Rightarrow> nat \<Rightarrow> int" where
  "plow u M n = int (psub M n) * 2 ^ (u + pbucket M n)"

lemma psub_split: "pbucket M n * 2 ^ M + psub M n = n"
proof -
  have "pbucket M n * 2 ^ M \<le> n div 2 ^ M * 2 ^ M" by (simp add: pbucket_def)
  also have "\<dots> \<le> n" by (simp add: div_times_less_eq_dividend)
  finally show ?thesis by (simp add: psub_def)
qed

lemma psub_less: "psub M n < 2 ^ (M + 1)"
proof (cases "n div 2 ^ M")
  case 0
  then show ?thesis by (simp add: psub_def pbucket_def div_eq_0_iff)
next
  case (Suc k)
  have "n < (n div 2 ^ M + 1) * 2 ^ M" using dividend_less_div_times[of "2 ^ M" n] by simp
  then have "n < 2 ^ (M + 1) + k * 2 ^ M" using Suc by (simp add: algebra_simps)
  moreover have "(0::nat) < 2 ^ (M + 1)" by simp
  ultimately show ?thesis using Suc by (simp only: psub_def pbucket_def diff_Suc_1)
qed

lemma psub_upper_half: "0 < pbucket M n \<Longrightarrow> 2 ^ M \<le> psub M n"
proof -
  assume "0 < pbucket M n"
  then have "n div 2 ^ M = pbucket M n + 1" by (simp add: pbucket_def)
  moreover have "n div 2 ^ M * 2 ^ M \<le> n" by (simp add: div_times_less_eq_dividend)
  ultimately show ?thesis by (simp add: psub_def algebra_simps)
qed

lemma position_unique:
  assumes "s < 2 ^ (M + 1)" "0 < b \<Longrightarrow> 2 ^ M \<le> s" shows "pbucket M (b * 2 ^ M + s) = b" "psub M (b * 2 ^ M + s) = s"
proof -
  have "(b * 2 ^ M + s) div 2 ^ M = b + s div 2 ^ M" by simp
  moreover have "s div 2 ^ M < 2" using assms(1) by (simp add: less_mult_imp_div_less)
  moreover have "0 < b \<Longrightarrow> s div 2 ^ M \<noteq> 0" using assms(2) by (auto simp: div_eq_0_iff)
  ultimately show "pbucket M (b * 2 ^ M + s) = b" unfolding pbucket_def by (cases "b = 0") auto
  then show "psub M (b * 2 ^ M + s) = s" by (simp add: psub_def)
qed

lemma position_next:
  "pbucket M (Suc n) = (if Suc (psub M n) = 2 ^ (M + 1) then Suc (pbucket M n) else pbucket M n)"
  "psub M (Suc n) = (if Suc (psub M n) = 2 ^ (M + 1) then 2 ^ M else Suc (psub M n))"
proof -
  have n: "Suc n = pbucket M n * 2 ^ M + Suc (psub M n)" using psub_split[of M n] by simp
  show "pbucket M (Suc n) = (if Suc (psub M n) = 2 ^ (M + 1) then Suc (pbucket M n) else pbucket M n)"
       "psub M (Suc n) = (if Suc (psub M n) = 2 ^ (M + 1) then 2 ^ M else Suc (psub M n))"
  proof (atomize(full), cases "Suc (psub M n) = 2 ^ (M + 1)")
    case True
    then have "Suc n = Suc (pbucket M n) * 2 ^ M + 2 ^ M" using n by simp
    then show "pbucket M (Suc n) = (if Suc (psub M n) = 2 ^ (M + 1) then Suc (pbucket M n) else pbucket M n) \<and>
       psub M (Suc n) = (if Suc (psub M n) = 2 ^ (M + 1) then 2 ^ M else Suc (psub M n))"
      using position_unique[of "2 ^ M" M "Suc (pbucket M n)"] True by simp
  next
    case False
    then have "Suc (psub M n) < 2 ^ (M + 1)" using psub_less[of M n] by linarith
    moreover have "0 < pbucket M n \<Longrightarrow> 2 ^ M \<le> Suc (psub M n)" using psub_upper_half[of M n] by simp
    ultimately show "pbucket M (Suc n) = (if Suc (psub M n) = 2 ^ (M + 1) then Suc (pbucket M n) else pbucket M n) \<and>
       psub M (Suc n) = (if Suc (psub M n) = 2 ^ (M + 1) then 2 ^ M else Suc (psub M n))"
      using position_unique[of "Suc (psub M n)" M "pbucket M n"] False n by simp
  qed
qed

lemma plow_0 [simp]: "plow u M 0 = 0"
  by (simp add: plow_def psub_def)

lemma plow_Suc: "plow u M (Suc n) = plow u M n + 2 ^ (u + pbucket M n)"
proof (cases "Suc (psub M n) = 2 ^ (M + 1)")
  case True
  then have "int (psub M n) + 1 = 2 ^ (M + 1)" by (metis of_nat_Suc of_nat_numeral of_nat_power add.commute)
  moreover have "plow u M n + 2 ^ (u + pbucket M n) = (int (psub M n) + 1) * 2 ^ (u + pbucket M n)"
    by (simp add: plow_def distrib_right)
  ultimately have "plow u M n + 2 ^ (u + pbucket M n) = 2 ^ (M + 1) * 2 ^ (u + pbucket M n)" by simp
  then show ?thesis using True by (simp add: plow_def position_next power_add)
qed (simp add: plow_def position_next algebra_simps)

lemma plow_strict: "m < n \<Longrightarrow> plow u M m < plow u M n"
  by (rule lift_Suc_mono_less) (simp_all add: plow_Suc)

lemma plow_le_iff: "plow u M m \<le> plow u M n \<longleftrightarrow> m \<le> n"
  using plow_strict[of m n u M] plow_strict[of n m u M] by (metis leD le_less linorder_le_less_linear)

lemma plow_top: "1 \<le> B \<Longrightarrow> plow u M ((B + 1) * 2 ^ M) = 2 ^ (u + M + B)"
proof -
  assume B: "1 \<le> B"
  have "(B + 1) * 2 ^ M = B * 2 ^ M + 2 ^ M" by (simp add: algebra_simps)
  then show ?thesis using position_unique[of "2 ^ M" M B] by (simp add: plow_def power_add ac_simps)
qed

lemma position_in_unique:
  assumes "plow u M m \<le> v" "v < plow u M (Suc m)" "plow u M n \<le> v" "v < plow u M (Suc n)" shows "m = n"
  using assms plow_le_iff[of u M "Suc m" n] plow_le_iff[of u M "Suc n" m] by linarith

subsection \<open>The indices of the code\<close>

lemma wrap32_id [simp]: "-2147483648 \<le> i \<Longrightarrow> i \<le> 2147483647 \<Longrightarrow> wrap32 i = i"
  by (simp add: wrap32_def)

lemma wrap32_small: "0 \<le> i \<Longrightarrow> i \<le> 64 * 2 ^ 17 \<Longrightarrow> wrap32 i = i \<and> wrap32 (- i) = - i"
  by simp

definition position :: "nat \<Rightarrow> nat \<Rightarrow> int \<Rightarrow> nat" where
  "position u M v = (let b = nat (bitlen v - int (u + M + 1)) in b * 2 ^ M + nat (v div 2 ^ (u + b)))"

lemma position_spec:
  fixes v :: int and u M :: nat
  assumes "0 \<le> v"
  defines "b \<equiv> nat (bitlen v - int (u + M + 1))"
  shows "pbucket M (position u M v) = b" "psub M (position u M v) = nat (v div 2 ^ (u + b))"
    "plow u M (position u M v) \<le> v" "v < plow u M (Suc (position u M v))"
proof -
  define s where "s = v div 2 ^ (u + b)"
  have s0: "0 \<le> s" using assms by (simp add: s_def pos_imp_zdiv_nonneg_iff)
  have "bitlen v \<le> int (M + 1 + (u + b))" by (simp add: b_def)
  then have "v < 2 ^ (M + 1) * 2 ^ (u + b)" by (simp only: bitlen_le_iff power_add)
  then have up: "s < 2 ^ (M + 1)" unfolding s_def by (rule zdiv_less) simp
  have lo: "2 ^ M \<le> s" if "0 < b"
  proof -
    have "\<not> bitlen v \<le> int (M + (u + b))" using that by (simp add: b_def)
    then have "2 ^ M * 2 ^ (u + b) \<le> v" by (simp only: bitlen_le_iff power_add not_less)
    from zdiv_mono1[OF this, of "2 ^ (u + b)"] show ?thesis by (simp add: s_def)
  qed
  have n: "position u M v = b * 2 ^ M + nat s" by (simp add: position_def b_def s_def Let_def)
  have "nat s < 2 ^ (M + 1)" using up s0 by (simp add: nat_less_iff)
  moreover have "0 < b \<Longrightarrow> 2 ^ M \<le> nat s" using lo by (simp add: le_nat_iff)
  ultimately show b: "pbucket M (position u M v) = b" and p: "psub M (position u M v) = nat (v div 2 ^ (u + b))"
    unfolding n using position_unique[of "nat s" M b] by (auto simp: s_def)
  have "s * 2 ^ (u + b) \<le> v" by (simp add: s_def minus_mod_eq_div_mult[symmetric])
  moreover have "v < (s + 1) * 2 ^ (u + b)"
    using pos_mod_bound[of "2 ^ (u + b)" v] by (simp add: s_def distrib_right minus_mod_eq_div_mult[symmetric])
  ultimately show "plow u M (position u M v) \<le> v" "v < plow u M (Suc (position u M v))"
    using b p s0 by (simp_all only: plow_Suc) (simp_all add: plow_def s_def[symmetric] distrib_right)
qed

lemma position_eq_iff:
  assumes "0 \<le> v" shows "position u M v = n \<longleftrightarrow> plow u M n \<le> v \<and> v < plow u M (Suc n)"
  using position_spec(3,4)[OF assms, of u M] position_in_unique by blast

lemma position_plow [simp]: "position u M (plow u M n) = n"
  using plow_strict[of n "Suc n" u M] plow_le_iff[of u M 0 n] by (subst position_eq_iff) simp_all

lemma plow_Suc_pos: "1 \<le> plow u M (Suc n)"
  using plow_strict[of 0 "Suc n" u M] by simp

lemma position_last [simp]: "position u M (plow u M (Suc n) - 1) = n"
  using plow_strict[of n "Suc n" u M] plow_Suc_pos[of u M n] by (subst position_eq_iff) simp_all

lemma position_mono: "0 \<le> v \<Longrightarrow> v \<le> w \<Longrightarrow> position u M v \<le> position u M w"
  using position_spec(3)[of v u M] position_spec(4)[of w u M] plow_le_iff[of u M "Suc (position u M w)" "position u M v"]
  by (simp add: not_less_eq_eq[symmetric])

lemma mask_bitlen: "bitlen ((2 ^ (M + 1) - 1) * 2 ^ u :: int) = int (u + M + 1)"
proof -
  have p: "(2 ^ (M + 1) - 1 :: int) = 2 ^ M + (2 ^ M - 1)" by simp
  have "bitlen (2 ^ M + (2 ^ M - 1) :: int) = int M + 1"
    by (subst bitlen_twopow_add_eq) simp_all
  moreover have "(0::int) < 2 ^ (M + 1) - 1" using one_less_power[of "2::int" "M + 1"] by simp
  ultimately show ?thesis unfolding p[symmetric] by simp
qed

lemma bitlen_maxInt: "v \<le> maxInt \<Longrightarrow> bitlen v \<le> 63"
  using bitlen_le_iff[of v 63] by (simp add: maxInt_def)

lemma getBucketIndex_eq:
  assumes "hist_shape u M B h" "0 \<le> v" "v \<le> maxInt"
  shows "getBucketIndex h v = int (pbucket M (position u M v))"
proof -
  have "0 \<le> (2 ^ (M + 1) - 1) * (2::int) ^ u" by simp
  then have "bitLen (or v (subBucketMask h)) = max (bitlen v) (int (u + M + 1))"
    using assms(1,2) by (simp only: hist_shape_def) (simp only: bitLen_eq or_nonnegative_int_iff bitlen_or mask_bitlen)
  moreover have "bitlen v \<le> 63" using assms(3) by (rule bitlen_maxInt)
  moreover have "u + M \<le> 62" using assms(1) by (simp add: hist_shape_def)
  ultimately show ?thesis using assms(1) unfolding getBucketIndex_def position_spec(1)[OF assms(2)]
    by (simp add: hist_shape_def)
qed

lemma shape_pbucket:
  assumes "hist_shape u M B h" "0 \<le> v" "v \<le> maxInt" shows "u + pbucket M (position u M v) \<le> 62"
  using bitlen_maxInt[OF assms(3)] assms(1) unfolding position_spec(1)[OF assms(2)] hist_shape_def by auto

lemma psub_32:
  assumes "hist_shape u M B h" shows "int (psub M n) < 262144"
proof -
  have "(2::nat) ^ (M + 1) \<le> 2 ^ 18" using assms by (intro power_increasing) (simp_all add: hist_shape_def)
  then show ?thesis using psub_less[of M n] by simp
qed

lemma getSubBucketIdx_eq:
  assumes "hist_shape u M B h" "0 \<le> v" "v \<le> maxInt"
  shows "getSubBucketIdx h v (getBucketIndex h v) = int (psub M (position u M v))"
proof -
  have "shr64 v (getBucketIndex h v + unitMagnitude h) = v div 2 ^ (u + pbucket M (position u M v))"
    using shape_pbucket[OF assms] assms(1)
    by (simp add: getBucketIndex_eq[OF assms] shr64_small hist_shape_def nat_add_distrib add.commute)
  also have "\<dots> = int (psub M (position u M v))"
    using assms(2) by (simp add: position_spec(1,2) pos_imp_zdiv_nonneg_iff)
  finally show ?thesis using psub_32[OF assms(1), of "position u M v"] by (simp add: getSubBucketIdx_def)
qed

lemma getSubBucketIdx_at:
  assumes "hist_shape u M B h" "0 \<le> v" "v \<le> maxInt"
  shows "getSubBucketIdx h v (int (pbucket M (position u M v))) = int (psub M (position u M v))"
  using getSubBucketIdx_eq[OF assms] by (simp add: getBucketIndex_eq[OF assms])

lemma countsIndex_position:
  assumes "hist_shape u M B h" "pbucket M n \<le> 63"
  shows "countsIndex h (int (pbucket M n)) (int (psub M n)) = int n"
proof -
  have M: "M \<le> 17" using assms(1) by (simp add: hist_shape_def)
  then have p17: "(2::int) ^ M \<le> 2 ^ 17" by (intro power_increasing) simp_all
  have "(int (pbucket M n) + 1) * 2 ^ M \<le> 64 * 2 ^ 17" using assms(2) p17 by (intro mult_mono) simp_all
  moreover have "0 \<le> (int (pbucket M n) + 1) * 2 ^ M" by simp
  ultimately have "wrap32 ((int (pbucket M n) + 1) * 2 ^ M) = (int (pbucket M n) + 1) * 2 ^ M" using wrap32_small by blast
  then have "shl32 (int (pbucket M n) + 1) (int M) = (int (pbucket M n) + 1) * 2 ^ M"
    using M by (simp add: shl32_def ushift_def)
  moreover have "int (pbucket M n) * 2 ^ M + int (psub M n) = int n"
    using psub_split[of M n] by (metis of_nat_add of_nat_mult of_nat_numeral of_nat_power)
  moreover have "int n \<le> 63 * 2 ^ 17 + 262144"
  proof -
    have "int (pbucket M n) * 2 ^ M \<le> 63 * 2 ^ 17" using assms(2) p17 by (intro mult_mono) simp_all
    then show ?thesis using psub_32[OF assms(1), of n] calculation(2) by linarith
  qed
  ultimately show ?thesis using assms(1) by (simp add: countsIndex_def hist_shape_def distrib_right)
qed

lemma countsIndexFor_eq:
  assumes "hist_shape u M B h" "0 \<le> v" "v \<le> maxInt" shows "countsIndexFor h v = int (position u M v)"
  using countsIndex_position[OF assms(1), of "position u M v"] shape_pbucket[OF assms] getSubBucketIdx_eq[OF assms]
  by (simp add: countsIndexFor_def Let_def getBucketIndex_eq[OF assms])

lemma countsIndexFor_neg:
  assumes "hist_shape u M B h" "minInt \<le> v" "v < 0" shows "countsIndexFor h v < 0"
proof -
  have s: "M \<le> 17" "u + M \<le> 62" using assms(1) by (simp_all add: hist_shape_def)
  have b: "getBucketIndex h v = - int (u + M + 1)"
    using assms s by (simp add: getBucketIndex_def bitLen_neg hist_shape_def)
  have "v div 18446744073709551616 = -1" using assms(2,3) by (intro int_div_pos_eq[of _ _ _ "v + 18446744073709551616"]) (auto simp: minInt_def)
  then have sub: "getSubBucketIdx h v (getBucketIndex h v) = -1"
    using assms(1) by (simp add: b getSubBucketIdx_def shr64_def ushift_def hist_shape_def)
  have p17: "(2::int) ^ M \<le> 2 ^ 17" using s(1) by (intro power_increasing) simp_all
  have "int (u + M) * 2 ^ M \<le> 62 * 2 ^ 17" using s(2) p17 by (intro mult_mono) auto
  moreover have "0 \<le> int (u + M) * 2 ^ M" by simp
  moreover have "(- int (u + M)) * 2 ^ M = - (int (u + M) * 2 ^ M)" by (rule mult_minus_left)
  ultimately have "wrap32 (- int (u + M) * 2 ^ M) = - (int (u + M) * 2 ^ M)"
    using wrap32_small[of "int (u + M) * 2 ^ M"] by (simp only:)
  then have "shl32 (- int (u + M)) (int M) = - (int (u + M) * 2 ^ M)"
    using s(1) by (simp add: shl32_def ushift_def)
  define Q where "Q = 1 + 2 ^ M + int (u + M) * 2 ^ M"
  have m: "(0::int) < 2 ^ M" by simp
  have q: "0 < Q" using m \<open>0 \<le> int (u + M) * 2 ^ M\<close> unfolding Q_def by linarith
  have "Q \<le> 64 * 2 ^ 17" using \<open>int (u + M) * 2 ^ M \<le> 62 * 2 ^ 17\<close> p17 unfolding Q_def by simp
  then have "wrap32 (- Q) = - Q" using wrap32_small[of Q] q by simp
  moreover have "countsIndexFor h v = wrap32 (shl32 (getBucketIndex h v + 1) (int M) + (-1 - 2 ^ M))"
    using assms(1) unfolding countsIndexFor_def Let_def countsIndex_def sub by (simp add: hist_shape_def)
  moreover have "getBucketIndex h v + 1 = - int (u + M)" using b by simp
  moreover have "- (int (u + M) * 2 ^ M) + (-1 - 2 ^ M) = - Q" by (simp add: Q_def)
  ultimately show ?thesis using q \<open>shl32 (- int (u + M)) (int M) = - (int (u + M) * 2 ^ M)\<close> by simp
qed

lemma plow_nonneg [simp]: "0 \<le> plow u M n"
  by (simp add: plow_def)

lemma plow_end_bound:
  assumes "hist_shape u M B h" "0 \<le> v" "v \<le> maxInt" shows "plow u M (Suc (position u M v)) \<le> maxInt + 1"
proof -
  define n where "n = position u M v"
  have "int (psub M n) + 1 \<le> 2 ^ (M + 1)" using psub_less[of M n] by (metis Suc_leI of_nat_Suc of_nat_le_iff of_nat_numeral of_nat_power add.commute)
  then have "(int (psub M n) + 1) * 2 ^ (u + pbucket M n) \<le> 2 ^ (M + 1) * 2 ^ (u + pbucket M n)" by (intro mult_right_mono) simp_all
  also have "\<dots> = 2 ^ (M + 1 + (u + pbucket M n))" by (simp only: power_add)
  also have "\<dots> \<le> 2 ^ 63"
    using assms(1) bitlen_maxInt[OF assms(3)] unfolding n_def position_spec(1)[OF assms(2)]
    by (intro power_increasing) (auto simp: hist_shape_def)
  finally have "plow u M (Suc n) \<le> 2 ^ 63" by (simp only: plow_Suc) (simp add: plow_def distrib_right)
  then show ?thesis by (simp add: n_def maxInt_def)
qed

lemma shl64_plow:
  assumes "u + pbucket M n \<le> 62" "plow u M n \<le> maxInt"
  shows "shl64 (int (psub M n)) (int (pbucket M n) + int u) = plow u M n"
proof -
  have "shl64 (int (psub M n)) (int (pbucket M n) + int u) = wrap64 (plow u M n)"
    using assms(1) by (simp add: shl64_def ushift_def plow_def nat_add_distrib add.commute)
  then show ?thesis using assms(2) order_trans[OF _ plow_nonneg, of minInt] by (simp add: minInt_def)
qed

lemma lowestEquivalentValue_eq:
  assumes "hist_shape u M B h" "0 \<le> v" "v \<le> maxInt" shows "lowestEquivalentValue h v = plow u M (position u M v)"
proof -
  have "unitMagnitude h = int u" using assms(1) by (simp add: hist_shape_def)
  then show ?thesis
    using shl64_plow[OF shape_pbucket[OF assms] order_trans[OF position_spec(3)[OF assms(2)] assms(3)]]
    by (simp add: lowestEquivalentValue_def valueFromIndex_def getBucketIndex_eq[OF assms] getSubBucketIdx_at[OF assms] Let_def)
qed

lemma sizeOfEquivalentValueRange_eq:
  assumes "hist_shape u M B h" "0 \<le> v" "v \<le> maxInt"
  shows "sizeOfEquivalentValueRange h v = Done (2 ^ (u + pbucket M (position u M v)))"
proof -
  have "int (psub M (position u M v)) < 2 ^ (M + 1)"
    using psub_less[of M "position u M v"] by (metis of_nat_less_iff of_nat_numeral of_nat_power)
  moreover have "wrap64 (2 ^ (u + pbucket M (position u M v))) = 2 ^ (u + pbucket M (position u M v))"
  proof (rule wrap64_id)
    have "(2::int) ^ (u + pbucket M (position u M v)) \<le> 2 ^ 62" using shape_pbucket[OF assms] by (intro power_increasing) simp_all
    then show "2 ^ (u + pbucket M (position u M v)) \<le> maxInt" by (simp add: maxInt_def)
    have "0 \<le> (2::int) ^ (u + pbucket M (position u M v))" by simp
    then show "minInt \<le> 2 ^ (u + pbucket M (position u M v))" unfolding minInt_def by linarith
  qed
  ultimately show ?thesis using assms(1) shape_pbucket[OF assms]
    by (simp add: sizeOfEquivalentValueRange_def getSubBucketIdx_eq[OF assms] Let_def)
       (simp add: getBucketIndex_eq[OF assms] hist_shape_def shl64_def ushift_def nat_add_distrib)
qed

lemma wrap64_wrap64_diff: "wrap64 (wrap64 x - y) = wrap64 (x - y)"
  by (simp add: wrap64_def mod_simps algebra_simps)

lemma highestEquivalentValue_eq:
  assumes "hist_shape u M B h" "0 \<le> v" "v \<le> maxInt"
  shows "highestEquivalentValue h v = Done (plow u M (Suc (position u M v)) - 1)"
proof -
  have "0 \<le> plow u M (Suc (position u M v))" by simp
  then have "minInt \<le> plow u M (Suc (position u M v)) - 1" unfolding minInt_def by linarith
  then have "wrap64 (plow u M (Suc (position u M v)) - 1) = plow u M (Suc (position u M v)) - 1"
    using plow_end_bound[OF assms] by (intro wrap64_id) simp_all
  then show ?thesis
    by (simp add: highestEquivalentValue_def nextNonEquivalentValue_def sizeOfEquivalentValueRange_eq[OF assms]
        lowestEquivalentValue_eq[OF assms] wrap64_wrap64_diff plow_Suc)
qed

text \<open>Half a unit is lost when a position holds one value only.\<close>

lemma medianEquivalentValue_eq:
  assumes "hist_shape u M B h" "0 \<le> v" "v \<le> maxInt"
  shows "medianEquivalentValue h v =
           Done (plow u M (position u M v) + 2 ^ (u + pbucket M (position u M v)) div 2)"
proof -
  define n where "n = position u M v"
  have e: "plow u M n + 2 ^ (u + pbucket M n) \<le> maxInt + 1" using plow_end_bound[OF assms] by (simp add: plow_Suc n_def)
  have p: "(1::int) \<le> 2 ^ (u + pbucket M n)" by simp
  have n0: "0 \<le> plow u M n" by simp
  have "wrap64 (plow u M n + 2 ^ (u + pbucket M n) div 2) = plow u M n + 2 ^ (u + pbucket M n) div 2"
  proof (rule wrap64_id)
    show "minInt \<le> plow u M n + 2 ^ (u + pbucket M n) div 2" using n0 p unfolding minInt_def by linarith
    show "plow u M n + 2 ^ (u + pbucket M n) div 2 \<le> maxInt" using e p by linarith
  qed
  then show ?thesis
    by (simp add: medianEquivalentValue_def sizeOfEquivalentValueRange_eq[OF assms] lowestEquivalentValue_eq[OF assms]
        shr64_small n_def[symmetric])
qed

subsection \<open>Recording\<close>

definition hist_top :: "nat \<Rightarrow> nat \<Rightarrow> nat \<Rightarrow> int" where
  "hist_top u M B = 2 ^ (u + M + B)"

lemma position_less_iff:
  assumes "0 \<le> v" "1 \<le> B" shows "position u M v < (B + 1) * 2 ^ M \<longleftrightarrow> v < hist_top u M B"
proof -
  define e where "e = (B + 1) * 2 ^ M"
  have "plow u M e = hist_top u M B" unfolding e_def hist_top_def using plow_top[OF assms(2)] by simp
  then show ?thesis
    using position_spec(3,4)[OF assms(1), of u M] plow_le_iff[of u M e "position u M v"]
      plow_le_iff[of u M "Suc (position u M v)" e] unfolding e_def[symmetric] by linarith
qed

lemma hist_top_bound: "hist_shape u M B h \<Longrightarrow> hist_top u M B \<le> maxInt"
proof -
  assume "hist_shape u M B h"
  then have "(2::int) ^ (u + M + B) \<le> 2 ^ 62" by (intro power_increasing) (simp_all add: hist_shape_def)
  then show ?thesis by (simp add: hist_top_def maxInt_def)
qed

lemma RecordValues_reject:
  assumes "hist_shape u M B h" "minInt \<le> v" "v \<le> maxInt" "v < 0 \<or> hist_top u M B \<le> v"
  shows "RecordValues h v n = Done (Some v, h)"
proof (cases "v < 0")
  case True
  then show ?thesis using countsIndexFor_neg[OF assms(1,2)] by (simp add: RecordValues_def)
next
  case False
  then have "\<not> position u M v < (B + 1) * 2 ^ M" using assms(1,4) by (subst position_less_iff) (simp_all add: hist_shape_def)
  then have "countsLen h \<le> int (position u M v)" using assms(1) unfolding hist_shape_def by (simp only: of_nat_le_iff not_less)
  then have "countsLen h \<le> countsIndexFor h v" using countsIndexFor_eq[OF assms(1)] False assms(3) by simp
  then show ?thesis by (simp add: RecordValues_def Let_def)
qed

lemma RecordValues_accept:
  assumes "hist_shape u M B h" "0 \<le> v" "v < hist_top u M B"
  shows "RecordValues h v n = Done (None,
     h\<lparr>counts := (counts h)[position u M v := wrap64 (counts h ! position u M v + n)], totalCount := wrap64 (totalCount h + n)\<rparr>)"
    "position u M v < length (counts h)"
proof -
  have p: "position u M v < (B + 1) * 2 ^ M" using assms by (subst position_less_iff) (simp_all add: hist_shape_def)
  then show "position u M v < length (counts h)" using assms(1) by (simp add: hist_shape_def)
  have i: "countsIndexFor h v = int (position u M v)"
    using countsIndexFor_eq[OF assms(1,2)] assms(3) hist_top_bound[OF assms(1)] by simp
  have "int (position u M v) < countsLen h" "int (position u M v) < int (length (counts h))"
    using p assms(1) unfolding hist_shape_def by (simp_all only: of_nat_less_iff)
  then show "RecordValues h v n = Done (None,
     h\<lparr>counts := (counts h)[position u M v := wrap64 (counts h ! position u M v + n)], totalCount := wrap64 (totalCount h + n)\<rparr>)"
    by (simp add: RecordValues_def i Let_def)
qed

lemma hist_shape_upd [simp]:
  "length cs = length (counts h) \<Longrightarrow> hist_shape u M B (h\<lparr>counts := cs, totalCount := t\<rparr>) = hist_shape u M B h"
  by (simp add: hist_shape_def)

subsection \<open>The iterator visits the positions up to the last that is not empty\<close>

fun visited :: "int list \<Rightarrow> nat" where
  "visited [] = 0"
| "visited (c # cs) = (if c = 0 \<and> visited cs = 0 then 0 else Suc (visited cs))"

lemma visited_le: "visited cs \<le> length cs"
  by (induction cs) auto

lemma visited_last: "0 < visited cs \<Longrightarrow> cs ! (visited cs - 1) \<noteq> 0"
  by (induction cs) (auto split: if_splits simp: nth_Cons')

lemma visited_beyond: "visited cs \<le> n \<Longrightarrow> n < length cs \<Longrightarrow> cs ! n = 0"
  by (induction cs arbitrary: n) (auto split: if_splits simp: nth_Cons')

lemma sum_list_visited:
  assumes "\<And>c. c \<in> set cs \<Longrightarrow> 0 \<le> (c::int)"
  shows "sum_list cs \<le> sum_list (take n cs) \<longleftrightarrow> visited cs \<le> n"
  using assms
proof (induction cs arbitrary: n)
  case (Cons c cs)
  have nn: "0 \<le> sum_list cs" using Cons.prems by (intro sum_list_nonneg) simp
  have IH: "sum_list cs \<le> sum_list (take n cs) \<longleftrightarrow> visited cs \<le> n" for n using Cons by simp
  show ?case
  proof (cases n)
    case 0
    then show ?thesis using nn Cons.prems[of c] IH[of 0] by (auto simp: add_nonneg_eq_0_iff antisym_conv)
  qed (use IH in auto)
qed simp

text \<open>The counts are not negative and add up to the total.\<close>

definition hist_sound :: "nat \<Rightarrow> nat \<Rightarrow> nat \<Rightarrow> Histogram \<Rightarrow> bool" where
  "hist_sound u M B h \<longleftrightarrow> hist_shape u M B h \<and> (\<forall>c\<in>set (counts h). 0 \<le> c) \<and> totalCount h = sum_list (counts h)
     \<and> totalCount h \<le> maxInt"

definition it_at :: "nat \<Rightarrow> nat \<Rightarrow> Histogram \<Rightarrow> nat \<Rightarrow> 'm hiter_scheme \<Rightarrow> 'm hiter_scheme" where
  "it_at u M h n i = (case n of
       0 \<Rightarrow> i\<lparr>bucketIdx := 0, subBucketIdx := -1, countToIdx := 0\<rparr>
     | Suc m \<Rightarrow> i\<lparr>bucketIdx := int (pbucket M m), subBucketIdx := int (psub M m), countAtIdx := counts h ! m,
                 countToIdx := sum_list (take n (counts h)), valueFromIdx := plow u M m, highestAtIdx := plow u M n - 1\<rparr>)"

lemma it_at_start: "hist_iterator = it_at u M h 0 hist_iterator" "hist_rIterator = it_at u M h 0 hist_rIterator"
  by (simp_all add: it_at_def hist_iterator_def hist_rIterator_def)

lemma it_at_fields [simp]:
  "countAtIdx (it_at u M h (Suc m) i) = counts h ! m" "valueFromIdx (it_at u M h (Suc m) i) = plow u M m"
  "highestAtIdx (it_at u M h (Suc m) i) = plow u M (Suc m) - 1" "countToIdx (it_at u M h n i) = sum_list (take n (counts h))"
  by (simp_all add: it_at_def split: nat.split)

lemma hist_sound_take:
  assumes "hist_sound u M B h"
  shows "0 \<le> sum_list (take n (counts h))" "sum_list (take n (counts h)) \<le> maxInt"
proof -
  have nn: "0 \<le> c" if "c \<in> set (counts h)" for c using assms that by (simp add: hist_sound_def)
  show "0 \<le> sum_list (take n (counts h))" using nn by (intro sum_list_nonneg) (meson in_set_takeD)
  have "0 \<le> sum_list (drop n (counts h))" using nn by (intro sum_list_nonneg) (meson in_set_dropD)
  moreover have "sum_list (take n (counts h)) + sum_list (drop n (counts h)) = sum_list (counts h)"
    by (metis append_take_drop_id sum_list_append)
  ultimately show "sum_list (take n (counts h)) \<le> maxInt" using assms by (simp add: hist_sound_def)
qed

lemma pbucket_bound:
  assumes "hist_shape u M B h" "n < length (counts h)"
  shows "pbucket M n < B" "plow u M n < hist_top u M B" "plow u M (Suc n) \<le> hist_top u M B"
proof -
  have n: "n < (B + 1) * 2 ^ M" "1 \<le> B" using assms by (simp_all add: hist_shape_def)
  have "n div 2 ^ M < B + 1" using n(1) by (rule less_mult_imp_div_less)
  then show "pbucket M n < B" using n(2) by (simp add: pbucket_def)
  show "plow u M n < hist_top u M B" "plow u M (Suc n) \<le> hist_top u M B"
    using plow_strict[OF n(1), of u M] plow_le_iff[of u M "Suc n" "(B + 1) * 2 ^ M"] n plow_top[OF n(2), of u M]
    unfolding hist_top_def by auto
qed

lemma iter_next_stop: "hist_sound u M B h \<Longrightarrow> visited (counts h) \<le> n \<Longrightarrow> iter_next h (it_at u M h n i) = Done (False, it_at u M h n i)"
  using sum_list_visited[of "counts h" n] by (simp add: iter_next_def hist_sound_def)

lemma iter_next_move:
  assumes "hist_sound u M B h" "n < visited (counts h)"
  shows "iter_next h (it_at u M h n i) = Done (True, it_at u M h (Suc n) i)"
proof -
  have sh: "hist_shape u M B h" using assms(1) by (simp add: hist_sound_def)
  have nl: "n < length (counts h)" using assms(2) visited_le[of "counts h"] by linarith
  have run: "\<not> totalCount h \<le> sum_list (take n (counts h))"
    using sum_list_visited[of "counts h" n] assms by (auto simp: hist_sound_def)
  note pb = pbucket_bound[OF sh nl]
  have cnt: "subBucketCount h = 2 ^ (M + 1)" "subBucketHalfCount h = 2 ^ M" "bucketCount h = int B" "u + M + B \<le> 62"
    using sh by (simp_all add: hist_shape_def)
  have sb: "(subBucketIdx (it_at u M h n i) + 1 \<ge> subBucketCount h) = (0 < n \<and> Suc (psub M (n - 1)) = 2 ^ (M + 1))"
  proof (cases n)
    case (Suc m)
    have "int (psub M m) + 1 \<le> 2 ^ (M + 1)" using psub_less[of M m] by (metis Suc_leI of_nat_Suc of_nat_le_iff of_nat_numeral of_nat_power add.commute)
    moreover have "Suc (psub M m) = 2 ^ (M + 1) \<longleftrightarrow> int (psub M m) + 1 = 2 ^ (M + 1)"
      by (metis of_nat_Suc of_nat_eq_iff of_nat_numeral of_nat_power add.commute)
    ultimately show ?thesis using Suc cnt(1) by (auto simp: it_at_def simp del: power_Suc)
  qed (simp add: it_at_def cnt)
  have pos: "(if 0 < n \<and> Suc (psub M (n - 1)) = 2 ^ (M + 1) then 2 ^ M else subBucketIdx (it_at u M h n i) + 1) = int (psub M n)"
    "(if 0 < n \<and> Suc (psub M (n - 1)) = 2 ^ (M + 1) then bucketIdx (it_at u M h n i) + 1 else bucketIdx (it_at u M h n i)) = int (pbucket M n)"
  proof (atomize(full), cases n)
    case 0
    then show "(if 0 < n \<and> Suc (psub M (n - 1)) = 2 ^ (M + 1) then 2 ^ M else subBucketIdx (it_at u M h n i) + 1) = int (psub M n) \<and>
      (if 0 < n \<and> Suc (psub M (n - 1)) = 2 ^ (M + 1) then bucketIdx (it_at u M h n i) + 1 else bucketIdx (it_at u M h n i)) = int (pbucket M n)"
      by (simp add: it_at_def psub_def pbucket_def)
  next
    case (Suc m)
    then show "(if 0 < n \<and> Suc (psub M (n - 1)) = 2 ^ (M + 1) then 2 ^ M else subBucketIdx (it_at u M h n i) + 1) = int (psub M n) \<and>
      (if 0 < n \<and> Suc (psub M (n - 1)) = 2 ^ (M + 1) then bucketIdx (it_at u M h n i) + 1 else bucketIdx (it_at u M h n i)) = int (pbucket M n)"
      by (auto simp: it_at_def position_next simp del: power_Suc)
  qed
  have ci: "getCountAtIndex h (int (pbucket M n)) (int (psub M n)) = Done (counts h ! n)"
    using countsIndex_position[OF sh, of n] pb(1) cnt(4) nl by (simp add: getCountAtIndex_def)
  have top: "plow u M n \<le> maxInt" using pb(2) hist_top_bound[OF sh] by simp
  have vf: "valueFromIndex h (int (pbucket M n)) (int (psub M n)) = plow u M n"
    using shl64_plow[OF _ top] pb(1) cnt(4) sh by (simp add: valueFromIndex_def hist_shape_def)
  have hi: "highestEquivalentValue h (plow u M n) = Done (plow u M (Suc n) - 1)"
    using highestEquivalentValue_eq[OF sh plow_nonneg top] by simp
  have sum: "wrap64 (sum_list (take n (counts h)) + counts h ! n) = sum_list (take (Suc n) (counts h))"
    using hist_sound_take[OF assms(1), of "Suc n"] nl by (simp add: take_Suc_conv_app_nth minInt_def)
  have step: "iter_next h (it_at u M h n i) = Done (True, (it_at u M h n i)\<lparr>bucketIdx := int (pbucket M n), subBucketIdx := int (psub M n),
     countAtIdx := counts h ! n, countToIdx := sum_list (take (Suc n) (counts h)), valueFromIdx := plow u M n,
     highestAtIdx := plow u M (Suc n) - 1\<rparr>)"
    unfolding iter_next_def Let_def sb cnt(2) pos using run pb(1) by (simp add: cnt(3) ci vf hi sum)
  show ?thesis unfolding step by (simp add: it_at_def split: nat.split)
qed

end
