(* ===== verification/HdrHistProps.thy ===== *)
theory HdrHistProps
  imports HdrHistLaws "HOL-Library.Multiset"
begin

text \<open>
  What a histogram promises: it counts every recorded value in the interval of its position, and the
  maximum, the minimum and the quantiles it reports are the intervals of those of the values that were
  recorded.  Merging, snapshots and windows keep that.
\<close>

subsection \<open>Loops over an iterator\<close>

fun visit :: "('x \<Rightarrow> 'a \<Rightarrow> (bool \<times> 'a) outcome) \<Rightarrow> 'x list \<Rightarrow> 'a \<Rightarrow> (bool \<times> 'a) outcome" where
  "visit f [] a = Done (False, a)"
| "visit f (x # xs) a = on_done (f x a) (\<lambda>(leave, a1). if leave then Done (True, a1) else visit f xs a1)"

lemma visit_pure: "(\<And>x a. f x a = Done (False, g x a)) \<Longrightarrow> visit f xs a = Done (False, foldl (\<lambda>a x. g x a) a xs)"
  by (induction xs arbitrary: a) simp_all

lemma hist_each_at:
  assumes "hist_sound u M B h"
  shows "n \<le> visited (counts h) \<Longrightarrow>
    hist_each h body (it_at u M h n i) a = Some (visit (\<lambda>m. body (it_at u M h (Suc m) i)) [n..<visited (counts h)] a)"
proof (induction "visited (counts h) - n" arbitrary: n a)
  case 0
  then show ?case using iter_next_stop[OF assms, of n i] by (subst hist_each.simps) simp
next
  case (Suc k)
  then have n: "n < visited (counts h)" by simp
  have IH: "hist_each h body (it_at u M h (Suc n) i) b =
      Some (visit (\<lambda>m. body (it_at u M h (Suc m) i)) [Suc n..<visited (counts h)] b)" for b
    using Suc n by simp
  show ?case
    by (subst hist_each.simps)
       (simp add: iter_next_move[OF assms n] upt_conv_Cons[OF n] IH split: outcome.split prod.split)
qed

lemmas hist_each_all = hist_each_at[where n = 0 and i = hist_iterator, unfolded it_at_start(1)[symmetric], OF _ le0]

fun merge_walk :: "nat \<Rightarrow> nat \<Rightarrow> Histogram \<Rightarrow> nat list \<Rightarrow> Histogram \<Rightarrow> int \<Rightarrow> (int \<times> Histogram) outcome" where
  "merge_walk u M src [] h d = Done (d, h)"
| "merge_walk u M src (n # ns) h d =
     (if counts src ! n = 0 then merge_walk u M src ns h d
      else on_done (RecordValues h (plow u M n) (counts src ! n))
             (\<lambda>(err, h1). merge_walk u M src ns h1 (if err \<noteq> None then wrap64 (d + counts src ! n) else d)))"

lemma it_at_added [simp]: "it_at u M h n r\<lparr>countAddedThisStep := c\<rparr> = it_at u M h n (r\<lparr>countAddedThisStep := c\<rparr>)"
  by (simp add: it_at_def split: nat.split)

lemma Merge_loop_at:
  assumes "hist_sound u M B src"
  shows "n \<le> visited (counts src) \<Longrightarrow>
    Merge_loop src (it_at u M src n r) h d = Some (merge_walk u M src [n..<visited (counts src)] h d)"
proof (induction "visited (counts src) - n" arbitrary: n r h d)
  case 0
  then show ?case using iter_next_stop[OF assms, of n r] by (subst Merge_loop.simps, subst rIter_next.simps) simp
next
  case (Suc k)
  then have n: "n < visited (counts src)" by simp
  have IH: "Merge_loop src (it_at u M src (Suc n) r) h d = Some (merge_walk u M src [Suc n..<visited (counts src)] h d)" for r h d
    using Suc n by simp
  show ?case
  proof (cases "counts src ! n = 0")
    case True
    have "rIter_next src (it_at u M src n r) = rIter_next src (it_at u M src (Suc n) r)"
      by (subst rIter_next.simps) (simp add: iter_next_move[OF assms n] True)
    then have "Merge_loop src (it_at u M src n r) h d = Merge_loop src (it_at u M src (Suc n) r) h d"
      by (subst (1 2) Merge_loop.simps) simp
    then show ?thesis using True IH by (simp add: upt_conv_Cons[OF n])
  next
    case False
    have "rIter_next src (it_at u M src n r) = Some (Done (True, it_at u M src (Suc n) (r\<lparr>countAddedThisStep := counts src ! n\<rparr>)))"
      by (subst rIter_next.simps) (simp add: iter_next_move[OF assms n] False)
    then show ?thesis using False
      by (subst Merge_loop.simps) (simp add: upt_conv_Cons[OF n] IH split: outcome.split prod.split)
  qed
qed

lemma hist_Merge_walk:
  "hist_sound u M B src \<Longrightarrow> hist_Merge h src = Some (merge_walk u M src [0..<visited (counts src)] h 0)"
  unfolding hist_Merge_def by (subst it_at_start(2)) (rule Merge_loop_at, simp_all)

subsection \<open>Which values a histogram holds\<close>

definition count_at :: "nat \<Rightarrow> nat \<Rightarrow> int list \<Rightarrow> nat \<Rightarrow> nat" where
  "count_at u M vs n = length (filter (\<lambda>v. position u M v = n) vs)"

definition hist_holds :: "nat \<Rightarrow> nat \<Rightarrow> nat \<Rightarrow> Histogram \<Rightarrow> int list \<Rightarrow> bool" where
  "hist_holds u M B h vs \<longleftrightarrow> hist_shape u M B h \<and> (\<forall>v\<in>set vs. 0 \<le> v \<and> v < hist_top u M B)
     \<and> counts h = map (\<lambda>n. int (count_at u M vs n)) [0..<(B + 1) * 2 ^ M] \<and> totalCount h = int (length vs)
     \<and> int (length vs) \<le> maxInt"

lemma holds_nth: "hist_holds u M B h vs \<Longrightarrow> n < length (counts h) \<Longrightarrow> counts h ! n = int (count_at u M vs n)"
  by (simp add: hist_holds_def)

lemma holds_shape: "hist_holds u M B h vs \<Longrightarrow> hist_shape u M B h"
  by (simp add: hist_holds_def)

lemma holds_position:
  "hist_holds u M B h vs \<Longrightarrow> v \<in> set vs \<Longrightarrow> position u M v < length (counts h)"
  using position_less_iff[of v B u M] by (auto simp: hist_holds_def hist_shape_def)

lemma sum_count_at: "sum_list (map (\<lambda>n. int (count_at u M vs n)) [0..<k]) = int (length (filter (\<lambda>v. position u M v < k) vs))"
proof (induction k)
  case (Suc k)
  have "length (filter (\<lambda>v. position u M v < Suc k) vs) = length (filter (\<lambda>v. position u M v < k) vs) + count_at u M vs k"
    by (induction vs) (auto simp: count_at_def)
  then show ?case using Suc by simp
qed simp

lemma holds_take:
  "hist_holds u M B h vs \<Longrightarrow> n \<le> length (counts h) \<Longrightarrow>
     sum_list (take n (counts h)) = int (length (filter (\<lambda>v. position u M v < n) vs))"
  by (simp add: hist_holds_def take_map sum_count_at)

lemma holds_sound: "hist_holds u M B h vs \<Longrightarrow> hist_sound u M B h"
proof -
  assume a: "hist_holds u M B h vs"
  have "filter (\<lambda>v. position u M v < length (counts h)) vs = vs" using holds_position[OF a] by (simp add: filter_id_conv)
  then have "sum_list (counts h) = int (length vs)" using holds_take[OF a, of "length (counts h)"] by simp
  then show ?thesis using a by (auto simp: hist_holds_def hist_sound_def)
qed

lemma count_at_pos: "0 < count_at u M vs n \<longleftrightarrow> (\<exists>v\<in>set vs. position u M v = n)"
  by (auto simp: count_at_def filter_empty_conv)

lemma visited_unique:
  assumes "p < length cs" "cs ! p \<noteq> 0" "\<And>n. p < n \<Longrightarrow> n < length cs \<Longrightarrow> cs ! n = 0" shows "visited cs = Suc p"
proof -
  have "\<not> visited cs \<le> p" using visited_beyond[of cs p] assms by blast
  moreover have "\<not> p < visited cs - 1"
    using visited_last[of cs] assms(3)[of "visited cs - 1"] visited_le[of cs] assms(1) by (metis diff_less less_imp_diff_less
        less_le_trans less_numeral_extra(1) not_less_zero not_gr_zero zero_diff)
  ultimately show ?thesis by linarith
qed

lemma holds_visited:
  assumes "hist_holds u M B h vs" "vs \<noteq> []" shows "visited (counts h) = Suc (position u M (Max (set vs)))"
proof (rule visited_unique)
  have m: "Max (set vs) \<in> set vs" using assms(2) by simp
  show "position u M (Max (set vs)) < length (counts h)" using holds_position[OF assms(1) m] .
  then show "counts h ! position u M (Max (set vs)) \<noteq> 0"
    using holds_nth[OF assms(1)] count_at_pos[of u M vs "position u M (Max (set vs))"] m by auto
  fix n assume n: "position u M (Max (set vs)) < n" "n < length (counts h)"
  have "position u M v \<noteq> n" if "v \<in> set vs" for v
    using position_mono[of v "Max (set vs)" u M] that assms(1) n(1) by (auto simp: hist_holds_def)
  then show "counts h ! n = 0" using holds_nth[OF assms(1) n(2)] count_at_pos[of u M vs n] by auto
qed

text \<open>Recording changes the counts and the total only.\<close>

definition same_config :: "Histogram \<Rightarrow> Histogram \<Rightarrow> bool" where
  "same_config h h' \<longleftrightarrow> h' = h\<lparr>counts := counts h', totalCount := totalCount h'\<rparr>"

lemma same_config_refl [simp]: "same_config h h"
  by (simp add: same_config_def)

lemma same_config_upd [simp]: "same_config h (h\<lparr>counts := cs, totalCount := t\<rparr>)"
  by (simp add: same_config_def)

lemma same_config_trans: "same_config a b \<Longrightarrow> same_config b c \<Longrightarrow> same_config a c"
  by (cases a, cases b, cases c) (simp add: same_config_def)

lemma same_config_fields:
  "same_config h h' \<Longrightarrow> lowestTrackableValue h' = lowestTrackableValue h \<and> highestTrackableValue h' = highestTrackableValue h
     \<and> significantFigures h' = significantFigures h"
  by (cases h, cases h') (simp add: same_config_def)

lemma RecordValues_holds:
  assumes "hist_holds u M B h vs" "0 \<le> v" "v < hist_top u M B" "int (length vs + k) \<le> maxInt"
  shows "\<exists>h'. RecordValues h v (int k) = Done (None, h') \<and> hist_holds u M B h' (vs @ replicate k v)
           \<and> same_config h h'"
proof -
  note r = RecordValues_accept(1)[OF holds_shape[OF assms(1)] assms(2,3), of "int k"]
    RecordValues_accept(2)[OF holds_shape[OF assms(1)] assms(2,3)]
  define p where "p = position u M v"
  have b: "int (count_at u M vs p) \<le> int (length vs)" by (simp add: count_at_def)
  have w: "wrap64 (counts h ! p + int k) = int (count_at u M vs p + k)" "wrap64 (totalCount h + int k) = int (length vs + k)"
    using assms(4) b r(2) holds_nth[OF assms(1), of p] assms(1) by (simp_all add: p_def minInt_def hist_holds_def)
  have c: "count_at u M (vs @ replicate k v) n = (if n = p then count_at u M vs p + k else count_at u M vs n)" for n
    by (auto simp: count_at_def p_def)
  have "(counts h)[p := wrap64 (counts h ! p + int k)] = map (\<lambda>n. int (count_at u M (vs @ replicate k v) n)) [0..<(B + 1) * 2 ^ M]"
    using assms(1) w(1) by (intro nth_equalityI) (auto simp: hist_holds_def c nth_list_update)
  then show ?thesis using r(1) assms w(2) unfolding p_def[symmetric]
    by (intro exI[of _ "h\<lparr>counts := (counts h)[p := wrap64 (counts h ! p + int k)], totalCount := wrap64 (totalCount h + int k)\<rparr>"])
       (auto simp: hist_holds_def)
qed

lemma RecordValue_holds:
  assumes "hist_holds u M B h vs" "0 \<le> v" "v < hist_top u M B" "int (length vs) < maxInt"
  shows "\<exists>h'. RecordValue h v = Done (None, h') \<and> hist_holds u M B h' (vs @ [v])
           \<and> same_config h h'"
  using RecordValues_holds[OF assms(1-3), of 1] assms(4) by (simp add: RecordValue_def)

subsection \<open>New histograms\<close>

definition hist_unit :: "int \<Rightarrow> nat" where
  "hist_unit lo = nat (bitlen lo - 1)"

definition hist_mag :: "int \<Rightarrow> nat" where
  "hist_mag s = (if s = 1 then 4 else if s = 2 then 7 else if s = 3 then 10 else if s = 4 then 14 else 17)"

text \<open>
  Arguments for which \<open>New\<close> returns: beyond \<open>2 ^ 62\<close> the doubling in its loop wraps around to zero.
\<close>

definition hist_args :: "int \<Rightarrow> int \<Rightarrow> int \<Rightarrow> bool" where
  "hist_args lo hi s \<longleftrightarrow> 1 \<le> s \<and> s \<le> 5 \<and> lo < 2 ^ 40 \<and> hi \<le> 2 ^ 62"

lemma hist_mag_bitlen: "1 \<le> s \<Longrightarrow> s \<le> 5 \<Longrightarrow> bitlen (2 * 10 ^ nat s) = int (hist_mag s) + 1"
proof -
  assume "1 \<le> s" "s \<le> 5"
  then have "s = 1 \<or> s = 2 \<or> s = 3 \<or> s = 4 \<or> s = 5" by auto
  then show ?thesis by (elim disjE) (simp_all add: hist_mag_def compute_bitlen)
qed

lemma hist_mag_power: "1 \<le> s \<Longrightarrow> s \<le> 5 \<Longrightarrow> 10 ^ nat s \<le> (2::int) ^ hist_mag s"
proof -
  assume "1 \<le> s" "s \<le> 5"
  then have "s = 1 \<or> s = 2 \<or> s = 3 \<or> s = 4 \<or> s = 5" by auto
  then show ?thesis by (elim disjE) (simp_all add: hist_mag_def)
qed

lemma bucketsNeeded_loop_spec:
  assumes "maxV \<le> 2 ^ 62"
  shows "k \<le> 62 \<Longrightarrow> \<exists>j. bucketsNeeded_loop maxV (2 ^ k) n = Some (n + int j) \<and> k + j \<le> 62 \<and> maxV \<le> 2 ^ (k + j)
            \<and> (0 < j \<longrightarrow> 2 ^ (k + j - 1) < maxV)"
proof (induction "62 - k" arbitrary: k n)
  case 0
  then have "k = 62" by simp
  then show ?case using assms by (intro exI[of _ 0], subst bucketsNeeded_loop.simps) simp
next
  case (Suc d)
  show ?case
  proof (cases "2 ^ k < maxV")
    case True
    have "(2::int) ^ Suc k \<le> 2 ^ 62" using Suc by (intro power_increasing) simp_all
    moreover have "0 < (2::int) ^ Suc k" by simp
    moreover have "(2::int) ^ 62 \<le> 9223372036854775807" by simp
    ultimately have "minInt \<le> 2 ^ Suc k" "2 ^ Suc k \<le> maxInt" unfolding minInt_def maxInt_def by linarith+
    then have "shl64 (2 ^ k) 1 = 2 ^ Suc k" by (simp add: shl64_def ushift_def mult.commute)
    moreover have d: "d = 62 - Suc k" "Suc k \<le> 62" using Suc.hyps(2) by simp_all
    moreover obtain j where "bucketsNeeded_loop maxV (2 ^ Suc k) (n + 1) = Some (n + 1 + int j)" "Suc k + j \<le> 62" "maxV \<le> 2 ^ (Suc k + j)"
      "0 < j \<longrightarrow> 2 ^ (Suc k + j - 1) < maxV" using Suc.hyps(1)[OF d, of "n + 1"] by blast
    ultimately show ?thesis using True by (intro exI[of _ "Suc j"], subst bucketsNeeded_loop.simps) (auto simp: le_less)
  next
    case False
    then show ?thesis using Suc.prems by (intro exI[of _ 0], subst bucketsNeeded_loop.simps) simp
  qed
qed

lemma hist_New_spec:
  assumes "hist_args lo hi s"
  shows "\<exists>B h. hist_New lo hi s = Some (Done h) \<and> hist_holds (hist_unit lo) (hist_mag s) B h [] \<and> hi \<le> hist_top (hist_unit lo) (hist_mag s) B
           \<and> (1 < B \<longrightarrow> hist_top (hist_unit lo) (hist_mag s) (B - 1) < hi)
           \<and> lowestTrackableValue h = lo \<and> highestTrackableValue h = hi \<and> significantFigures h = s"
proof -
  define u M where "u = hist_unit lo" and "M = hist_mag s"
  have s: "1 \<le> s" "s \<le> 5" "hi \<le> 2 ^ 62" "lo < 2 ^ 40" using assms by (simp_all add: hist_args_def)
  have M17: "M \<le> 17" by (simp add: M_def hist_mag_def)
  then have uM: "u + M + 1 \<le> 62" using bitlen_le_iff[of lo 40] s(4) by (simp add: u_def hist_unit_def)
  obtain j where j: "bucketsNeeded_loop hi (2 ^ (u + M + 1)) 1 = Some (1 + int j)" "u + M + 1 + j \<le> 62" "hi \<le> 2 ^ (u + M + 1 + j)"
      "0 < j \<longrightarrow> 2 ^ (u + M + 1 + j - 1) < hi"
    using bucketsNeeded_loop_spec[OF s(3) uM, of 1] by auto
  have um: "max (if lo < 1 then 0 else bitlen lo - 1) 0 = int u"
    using bitlen_eq_zero_iff[of lo] bitlen_nonneg[of lo] by (auto simp: u_def hist_unit_def)
  have m: "max (bitlen (2 * 10 ^ nat s)) 1 - 1 = int M" using hist_mag_bitlen[OF s(1,2)] by (simp add: M_def)
  have top: "(2::int) ^ (M + 1 + u) \<le> 2 ^ 62" using uM by (intro power_increasing) simp_all
  have "shl64 (2 ^ (M + 1)) (int u) = wrap64 (2 ^ (u + M + 1))" using uM
    by (simp add: shl64_def ushift_def power_add ac_simps)
  also have "\<dots> = 2 ^ (u + M + 1)"
    using top zero_less_power[of "2::int" "u + M + 1"] by (intro wrap64_id) (auto simp: minInt_def maxInt_def add.commute[of _ u] intro: order_trans[of _ 0])
  finally have sm: "shl64 (2 ^ (M + 1)) (int u) = 2 ^ (u + M + 1)" .
  have "0 \<le> ((2::int) ^ (M + 1) - 1) * 2 ^ u" by simp
  moreover have "((2::int) ^ (M + 1) - 1) * 2 ^ u \<le> 2 ^ (M + 1 + u)" by (simp add: power_add mult_right_mono)
  ultimately have mk: "shl64 (2 ^ (M + 1) - 1) (int u) = (2 ^ (M + 1) - 1) * 2 ^ u"
    using top uM unfolding shl64_def ushift_def by (subst wrap64_id) (auto simp: minInt_def maxInt_def intro: order_trans[of _ 0] order_trans[of _ "2 ^ (M + 1 + u)"])
  have e: "nat (int M + 1) = M + 1" "(2::int) ^ (M + 1) div 2 = 2 ^ M" by simp_all
  define h where "h = \<lparr>lowestTrackableValue = lo, highestTrackableValue = hi, unitMagnitude = int u, significantFigures = s,
     subBucketHalfCountMagnitude = int M, subBucketHalfCount = 2 ^ M, subBucketMask = (2 ^ (M + 1) - 1) * 2 ^ u,
     subBucketCount = 2 ^ (M + 1), bucketCount = 1 + int j, countsLen = (1 + int j + 1) * 2 ^ M, totalCount = 0,
     counts = replicate (nat ((1 + int j + 1) * 2 ^ M)) 0\<rparr>"
  have "hist_New lo hi s = Some (Done h)"
    using s unfolding hist_New_def Let_def um m e sm mk j(1) by (simp add: h_def)
  moreover have "hist_shape u M (Suc j) h"
  proof -
    have "(1 + int j + 1) * 2 ^ M = int ((Suc j + 1) * 2 ^ M)" by (simp add: algebra_simps)
    moreover from this have "nat ((1 + int j + 1) * 2 ^ M) = (Suc j + 1) * 2 ^ M" by (simp only: nat_int)
    ultimately show ?thesis using j(2) M17 by (simp only: hist_shape_def h_def Histogram.simps length_replicate) simp
  qed
  moreover have "counts h = map (\<lambda>n. int (count_at u M [] n)) [0..<length (counts h)]"
    by (simp add: h_def count_at_def map_replicate_const)
  ultimately have "hist_New lo hi s = Some (Done h) \<and> hist_holds u M (Suc j) h [] \<and> hi \<le> hist_top u M (Suc j)
           \<and> (1 < Suc j \<longrightarrow> hist_top u M (Suc j - 1) < hi) \<and> lowestTrackableValue h = lo \<and> highestTrackableValue h = hi \<and> significantFigures h = s"
    using j(3,4) by (auto simp: hist_holds_def hist_shape_def hist_top_def h_def maxInt_def)
  then show ?thesis unfolding u_def M_def by blast
qed

lemma hist_New_is:
  assumes "hist_New lo hi s = Some (Done h)" "hist_args lo hi s"
  shows "\<exists>B. hist_holds (hist_unit lo) (hist_mag s) B h [] \<and> hi \<le> hist_top (hist_unit lo) (hist_mag s) B"
  using hist_New_spec[OF assms(2)] assms(1) by auto

fun record_all :: "Histogram \<Rightarrow> int list \<Rightarrow> Histogram outcome" where
  "record_all h [] = Done h"
| "record_all h (v # vs) =
     on_done (RecordValue h v) (\<lambda>(err, h1). if err \<noteq> None then Panic ''rejected'' else record_all h1 vs)"

lemma record_all_holds:
  "hist_holds u M B h vs \<Longrightarrow> \<forall>w\<in>set ws. 0 \<le> w \<and> w < hist_top u M B \<Longrightarrow> int (length vs + length ws) \<le> maxInt \<Longrightarrow>
     \<exists>h'. record_all h ws = Done h' \<and> hist_holds u M B h' (vs @ ws) \<and> same_config h h'"
proof (induction ws arbitrary: h vs)
  case (Cons w ws)
  obtain h1 where h1: "RecordValue h w = Done (None, h1)" "hist_holds u M B h1 (vs @ [w])"
      "same_config h h1"
    using RecordValue_holds[OF Cons.prems(1), of w] Cons.prems(2,3) by auto
  obtain h2 where "record_all h1 ws = Done h2" "hist_holds u M B h2 ((vs @ [w]) @ ws)"
      "same_config h1 h2"
    using Cons.IH[OF h1(2)] Cons.prems(2,3) by auto
  then show ?case using h1(1) same_config_trans[OF h1(3)] by (intro exI[of _ h2]) auto
qed (auto simp: hist_holds_def)

lemma record_all_is:
  assumes "hist_New lo hi s = Some (Done h0)" "record_all h0 vs = Done h" "hist_args lo hi s" "\<forall>v\<in>set vs. 0 \<le> v \<and> v < hi"
    "int (length vs) \<le> maxInt"
  shows "\<exists>B. hist_holds (hist_unit lo) (hist_mag s) B h vs \<and> hi \<le> hist_top (hist_unit lo) (hist_mag s) B
           \<and> same_config h0 h \<and> totalCount h0 = 0
           \<and> lowestTrackableValue h = lo \<and> highestTrackableValue h = hi \<and> significantFigures h = s"
proof -
  obtain B where b: "hist_holds (hist_unit lo) (hist_mag s) B h0 []" "hi \<le> hist_top (hist_unit lo) (hist_mag s) B"
     "lowestTrackableValue h0 = lo" "highestTrackableValue h0 = hi" "significantFigures h0 = s"
    using hist_New_spec[OF assms(3)] assms(1) by auto
  have r: "\<forall>v\<in>set vs. 0 \<le> v \<and> v < hist_top (hist_unit lo) (hist_mag s) B" using assms(4) b(2) by fastforce
  obtain h' where h': "record_all h0 vs = Done h'" "hist_holds (hist_unit lo) (hist_mag s) B h' ([] @ vs)"
     "same_config h0 h'"
    using record_all_holds[OF b(1) r] assms(5) by auto
  moreover have "h' = h" using h'(1) assms(2) by simp
  ultimately show ?thesis using b same_config_fields[of h0 h] by (auto simp: hist_holds_def)
qed

subsection \<open>The answers of a histogram\<close>

lemma hist_unit_bound: "(2::int) ^ hist_unit lo \<le> max 1 lo"
  using bitlen_bounds[of lo] bitlen_eq_zero_iff[of lo] bitlen_nonneg[of lo] by (cases "0 < lo") (auto simp: hist_unit_def)

lemma position_width:
  assumes "0 \<le> v"
  shows "(2 ^ (u + pbucket M (position u M v)) - 1) * 2 ^ M \<le> v \<or> pbucket M (position u M v) = 0"
proof (cases "pbucket M (position u M v)")
  case (Suc b)
  define n where "n = position u M v"
  have "(2::int) ^ M \<le> int (psub M n)" using psub_upper_half[of M n] Suc by (simp add: n_def)
  then have "2 ^ M * 2 ^ (u + pbucket M n) \<le> int (psub M n) * 2 ^ (u + pbucket M n)" by (intro mult_right_mono) simp_all
  also have "\<dots> \<le> v" using position_spec(3)[OF assms, of u M] by (simp add: plow_def n_def)
  finally have "2 ^ (u + pbucket M n) * 2 ^ M \<le> v" by (simp add: mult.commute)
  moreover have "(2 ^ (u + pbucket M n) - 1) * (2::int) ^ M \<le> 2 ^ (u + pbucket M n) * 2 ^ M" by (intro mult_right_mono) simp_all
  ultimately show ?thesis unfolding n_def by linarith
qed simp

text \<open>
  The values below the limit of a new histogram fall into intervals: two values share a count exactly
  when one lies between the lowest and the highest equivalent value of the other, and the width of the
  interval keeps the promised significant figures (or is below the lowest trackable value).
\<close>

theorem histogram_intervals:
  assumes "hist_New lo hi s = Some (Done h)" "hist_args lo hi s" "0 \<le> v" "v < hi" "0 \<le> w" "w < hi"
  shows "\<exists>b. highestEquivalentValue h v = Done b \<and> lowestEquivalentValue h v \<le> v \<and> v \<le> b
     \<and> ((b - lowestEquivalentValue h v) * 10 ^ nat s \<le> v \<or> b - lowestEquivalentValue h v < max 1 lo)
     \<and> (countsIndexFor h w = countsIndexFor h v \<longleftrightarrow> lowestEquivalentValue h v \<le> w \<and> w \<le> b)"
proof -
  define u M where "u = hist_unit lo" and "M = hist_mag s"
  obtain B where B: "hist_shape u M B h" using hist_New_is[OF assms(1,2)] by (auto simp: hist_holds_def u_def M_def)
  have v: "v \<le> maxInt" "w \<le> maxInt" using assms(2,4,6) by (simp_all add: hist_args_def maxInt_def)
  define n where "n = position u M v"
  note e = lowestEquivalentValue_eq[OF B assms(3) v(1), folded n_def] highestEquivalentValue_eq[OF B assms(3) v(1), folded n_def]
    countsIndexFor_eq[OF B assms(3) v(1), folded n_def] countsIndexFor_eq[OF B assms(5) v(2)]
  have iv: "plow u M n \<le> v" "v < plow u M (Suc n)" using position_spec(3,4)[OF assms(3)] by (simp_all add: n_def)
  have same: "position u M w = n \<longleftrightarrow> plow u M n \<le> w \<and> w < plow u M (Suc n)" by (rule position_eq_iff[OF assms(5)])
  have width: "(2 ^ (u + pbucket M n) - 1) * 10 ^ nat s \<le> v \<or> (2::int) ^ (u + pbucket M n) - 1 < max 1 lo"
  proof (cases "pbucket M n = 0")
    case True
    then show ?thesis using hist_unit_bound[of lo] by (simp add: u_def)
  next
    case False
    have "(2 ^ (u + pbucket M n) - 1) * 10 ^ nat s \<le> (2 ^ (u + pbucket M n) - 1) * (2::int) ^ M"
      using hist_mag_power[of s] assms(2) by (intro mult_left_mono) (simp_all add: hist_args_def M_def)
    also have "\<dots> \<le> v" using position_width[OF assms(3), of u M] False by (simp add: n_def)
    finally show ?thesis by simp
  qed
  show ?thesis unfolding e
    by (intro exI[of _ "plow u M (Suc n) - 1"] conjI refl) (use iv same width in \<open>auto simp: plow_Suc\<close>)
qed

lemma foldl_last: "0 < n \<Longrightarrow> foldl f a [0..<n] = f (foldl f a [0..<n - 1]) (n - 1)"
  by (cases n) simp_all

lemma hist_Max_holds:
  assumes "hist_holds u M B h vs" "vs \<noteq> []" shows "hist_Max h = Some (highestEquivalentValue h (Max (set vs)))"
proof -
  define m p where "m = Max (set vs)" and "p = position u M m"
  have m: "m \<in> set vs" using assms(2) by (simp add: m_def)
  have sh: "hist_shape u M B h" using assms(1) by (rule holds_shape)
  have r: "0 \<le> m" "m < hist_top u M B" using m assms(1) by (auto simp: hist_holds_def)
  then have mm: "m \<le> maxInt" using hist_top_bound[OF sh] by simp
  have pl: "p < length (counts h)" using holds_position[OF assms(1) m] by (simp add: p_def)
  have vis: "visited (counts h) = Suc p" using holds_visited[OF assms] by (simp add: m_def p_def)
  have nz: "counts h ! p \<noteq> 0" using visited_last[of "counts h"] vis by simp
  have "hist_each h (\<lambda>i m. Done (False, if countAtIdx i \<noteq> 0 then highestAtIdx i else m)) hist_iterator 0
      = Some (Done (False, plow u M (Suc p) - 1))"
    unfolding hist_each_all[OF holds_sound[OF assms(1)]] vis
    by (subst visit_pure[where g = "\<lambda>n a. if counts h ! n \<noteq> 0 then plow u M (Suc n) - 1 else a"]) (simp_all add: nz)
  moreover have "highestEquivalentValue h (plow u M (Suc p) - 1) = highestEquivalentValue h m"
  proof -
    have "0 \<le> plow u M (Suc p) - 1" using plow_Suc_pos[of u M p] by simp
    moreover have "plow u M (Suc p) - 1 \<le> maxInt" using pbucket_bound(3)[OF sh pl] hist_top_bound[OF sh] by simp
    ultimately show ?thesis using highestEquivalentValue_eq[OF sh] r mm by (simp add: p_def)
  qed
  ultimately show ?thesis by (simp add: hist_Max_def m_def)
qed

lemma visit_to_first:
  assumes "n \<le> p" "p < k" "\<And>m. n \<le> m \<Longrightarrow> m < p \<Longrightarrow> f m a = Done (False, a)" "f p a = Done (True, b)"
  shows "visit f [n..<k] a = Done (True, b)"
  using assms
proof (induction "p - n" arbitrary: n)
  case 0
  then show ?case by (simp add: upt_conv_Cons)
next
  case (Suc d)
  then show ?case using Suc.hyps(1)[of "Suc n"] by (simp add: upt_conv_Cons)
qed

lemma hist_Min_holds:
  assumes "hist_holds u M B h vs" "vs \<noteq> []" shows "hist_Min h = Some (Done (lowestEquivalentValue h (Min (set vs))))"
proof -
  define m p where "m = Min (set vs)" and "p = position u M m"
  have m: "m \<in> set vs" using assms(2) by (simp add: m_def)
  have sh: "hist_shape u M B h" using assms(1) by (rule holds_shape)
  have r: "0 \<le> m" "m < hist_top u M B" using m assms(1) by (auto simp: hist_holds_def)
  then have mm: "m \<le> maxInt" using hist_top_bound[OF sh] by simp
  have pl: "p < length (counts h)" using holds_position[OF assms(1) m] by (simp add: p_def)
  have nz: "counts h ! p \<noteq> 0" using holds_nth[OF assms(1) pl] count_at_pos[of u M vs p] m by (auto simp: p_def)
  have vis: "p < visited (counts h)" using visited_beyond[OF _ pl] nz by (meson not_less)
  have z: "counts h ! n = 0" if "n < p" for n
  proof -
    have "position u M v \<noteq> n" if "v \<in> set vs" for v
      using position_mono[OF r(1), of v u M] that \<open>n < p\<close> by (auto simp: p_def m_def)
    then show ?thesis using holds_nth[OF assms(1), of n] count_at_pos[of u M vs n] that pl by auto
  qed
  have "hist_each h (\<lambda>i m. if countAtIdx i \<noteq> 0 \<and> m = 0 then Done (True, highestAtIdx i) else Done (False, m)) hist_iterator 0
      = Some (Done (True, plow u M (Suc p) - 1))"
    unfolding hist_each_all[OF holds_sound[OF assms(1)]]
    by (subst visit_to_first[OF le0 vis]) (use z nz in simp_all)
  moreover have "lowestEquivalentValue h (plow u M (Suc p) - 1) = lowestEquivalentValue h m"
    using lowestEquivalentValue_eq[OF sh] r mm plow_Suc_pos[of u M p] pbucket_bound(3)[OF sh pl] hist_top_bound[OF sh]
    by (simp add: p_def)
  ultimately show ?thesis by (simp add: hist_Min_def m_def)
qed

text \<open>The \<open>k\<close>-th smallest value lies where the running count reaches \<open>k\<close>.\<close>

lemma rank_position:
  assumes "0 < k" "k \<le> length vs" "\<forall>v\<in>set vs. 0 \<le> (v::int)" "p = position u M (sort vs ! (k - 1))"
  shows "k \<le> length (filter (\<lambda>v. position u M v < n) vs) \<longleftrightarrow> p < n"
proof -
  define xs where "xs = sort vs"
  have xs: "length xs = length vs" "sorted xs" "set xs = set vs" by (simp_all add: xs_def)
  have len: "length (filter (\<lambda>v. position u M v < n) vs) = length (filter (\<lambda>v. position u M v < n) xs)"
    by (metis mset_filter mset_sort size_mset xs_def)
  have mono: "position u M (xs ! i) \<le> position u M (xs ! j)" if "i \<le> j" "j < length xs" for i j
    using sorted_nth_mono[OF xs(2) that] assms(3) xs(3) that nth_mem[of i xs] by (intro position_mono) auto
  show ?thesis
  proof (cases "p < n")
    case True
    have "position u M v < n" if el: "v \<in> set (take k xs)" for v
    proof -
      obtain i where "i < k" "v = xs ! i" using el by (auto simp: in_set_conv_nth)
      moreover have "i \<le> k - 1" "k - 1 < length xs" using \<open>i < k\<close> assms(2) xs(1) by auto
      ultimately show ?thesis using mono[of i "k - 1"] True assms(4) by (simp add: xs_def[symmetric])
    qed
    then have "filter (\<lambda>v. position u M v < n) (take k xs) = take k xs" by (simp add: filter_id_conv)
    then have "k = length (filter (\<lambda>v. position u M v < n) (take k xs))" using assms(2) xs(1) by simp
    also have "\<dots> \<le> length (filter (\<lambda>v. position u M v < n) xs)"
      by (metis append_take_drop_id filter_append le_add1 length_append)
    finally show ?thesis using True len by simp
  next
    case False
    have "\<not> position u M v < n" if el: "v \<in> set (drop (k - 1) xs)" for v
    proof -
      obtain i where "i < length xs - (k - 1)" "v = xs ! (k - 1 + i)" using el by (auto simp: in_set_conv_nth)
      moreover have "k - 1 + i < length xs" using \<open>i < length xs - (k - 1)\<close> by linarith
      ultimately show ?thesis using mono[of "k - 1" "k - 1 + i"] False assms(4) by (simp add: xs_def[symmetric])
    qed
    then have "filter (\<lambda>v. position u M v < n) (drop (k - 1) xs) = []" by (simp add: filter_empty_conv)
    then have "length (filter (\<lambda>v. position u M v < n) xs) = length (filter (\<lambda>v. position u M v < n) (take (k - 1) xs))"
      by (metis append.right_neutral append_take_drop_id filter_append)
    also have "\<dots> \<le> k - 1" by (rule order_trans[OF length_filter_le]) simp
    finally show ?thesis using False len assms(1) by simp
  qed
qed

lemma ValueAtQuantile_holds:
  assumes "hist_holds u M B h vs" "rank q (totalCount h) = int k" "0 < k" "k \<le> length vs"
  shows "ValueAtQuantile rank h q = Some (highestEquivalentValue h (sort vs ! (k - 1)))"
proof -
  define w p where "w = sort vs ! (k - 1)" and "p = position u M w"
  have w: "w \<in> set vs" using assms(3,4) by (metis diff_less le_less_trans less_numeral_extra(1) less_le_trans length_sort nth_mem set_sort w_def)
  have sh: "hist_shape u M B h" and so: "hist_sound u M B h" using holds_shape holds_sound assms(1) by blast+
  have r: "0 \<le> w" "w < hist_top u M B" using w assms(1) by (auto simp: hist_holds_def)
  then have mm: "w \<le> maxInt" using hist_top_bound[OF sh] by simp
  have pl: "p < length (counts h)" using holds_position[OF assms(1) w] by (simp add: p_def)
  have nn: "\<forall>v\<in>set vs. 0 \<le> v" using assms(1) by (simp add: hist_holds_def)
  have reach: "int k \<le> sum_list (take n (counts h)) \<longleftrightarrow> p < n" if "n \<le> length (counts h)" for n
    using rank_position[OF assms(3,4) nn p_def[unfolded w_def], of n] holds_take[OF assms(1) that] by simp
  have vis: "p < visited (counts h)"
  proof (rule ccontr)
    assume "\<not> p < visited (counts h)"
    then have "totalCount h \<le> sum_list (take p (counts h))"
      using sum_list_visited[of "counts h" p] so by (simp add: hist_sound_def)
    then show False using reach[of p] pl assms(1,4) by (simp add: hist_holds_def)
  qed
  define f where "f = (\<lambda>i :: hiter. \<lambda>(t, v::int). let t1 = wrap64 (t + countAtIdx i) in
                   if t1 \<ge> int k then on_done (highestEquivalentValue h (valueFromIdx i)) (\<lambda>hi. Done (True, (t1, hi)))
                   else Done (False, (t1, v)))"
  define g where "g n = f (it_at u M h (Suc n) hist_iterator)" for n
  have hi: "highestEquivalentValue h (plow u M p) = Done (plow u M (Suc p) - 1)"
    using highestEquivalentValue_eq[OF sh plow_nonneg, of u M p] pbucket_bound(2)[OF sh pl] hist_top_bound[OF sh] by simp
  have step: "g n (sum_list (take n (counts h)), v) =
      (if p < Suc n then on_done (highestEquivalentValue h (plow u M n)) (\<lambda>hi. Done (True, (sum_list (take (Suc n) (counts h)), hi)))
       else Done (False, (sum_list (take (Suc n) (counts h)), v)))" if "n < length (counts h)" for n v
  proof -
    have "wrap64 (sum_list (take n (counts h)) + counts h ! n) = sum_list (take (Suc n) (counts h))"
      using hist_sound_take[OF so, of "Suc n"] that by (simp add: take_Suc_conv_app_nth minInt_def)
    then show ?thesis using reach[of "Suc n"] that by (simp add: g_def f_def)
  qed
  have "visit g [n..<visited (counts h)] (sum_list (take n (counts h)), 0) = Done (True, (sum_list (take (Suc p) (counts h)), plow u M (Suc p) - 1))"
    if "n \<le> p" for n
    using that
  proof (induction "p - n" arbitrary: n)
    case 0
    then have "n = p" by simp
    then show ?case using vis step[OF pl] hi by (simp add: upt_conv_Cons)
  next
    case (Suc d)
    then have n: "n < p" "n < visited (counts h)" "n < length (counts h)" using vis pl by simp_all
    then show ?case using Suc.hyps(1)[of "Suc n"] Suc.hyps(2) step[OF n(3), of 0] by (simp add: upt_conv_Cons)
  qed
  from this[of 0] have "hist_each h f hist_iterator (0, 0) = Some (Done (True, (sum_list (take (Suc p) (counts h)), plow u M (Suc p) - 1)))"
    unfolding hist_each_all[OF so] g_def[symmetric] by simp
  moreover have "highestEquivalentValue h w = Done (plow u M (Suc p) - 1)"
    using highestEquivalentValue_eq[OF sh r(1) mm] by (simp add: p_def)
  ultimately show ?thesis unfolding ValueAtQuantile_def assms(2) f_def by (simp add: Let_def w_def)
qed

text \<open>
  C20: A new histogram takes every value from zero up to its limit.  Then it reports how many there were,
  and the highest or lowest equivalent value of their maximum, of their minimum and, for a quantile whose rank
  is \<open>k\<close>, of the \<open>k\<close>-th smallest of them.
\<close>

theorem histogram_answers:
  assumes "hist_args lo hi s" "\<forall>v\<in>set vs. 0 \<le> v \<and> v < hi" "int (length vs) \<le> maxInt" "vs \<noteq> []"
  shows "\<exists>h0 h. hist_New lo hi s = Some (Done h0) \<and> record_all h0 vs = Done h \<and> hist_TotalCount h = int (length vs)
     \<and> hist_Max h = Some (highestEquivalentValue h (Max (set vs)))
     \<and> hist_Min h = Some (Done (lowestEquivalentValue h (Min (set vs))))
     \<and> (\<forall>(rank :: rat \<Rightarrow> int \<Rightarrow> int) q k. rank q (int (length vs)) = int k \<and> 0 < k \<and> k \<le> length vs \<longrightarrow>
           ValueAtQuantile rank h q = Some (highestEquivalentValue h (sort vs ! (k - 1))))"
proof -
  obtain B h0 where n: "hist_New lo hi s = Some (Done h0)" "hist_holds (hist_unit lo) (hist_mag s) B h0 []"
      "hi \<le> hist_top (hist_unit lo) (hist_mag s) B" using hist_New_spec[OF assms(1)] by blast
  have "\<forall>v\<in>set vs. 0 \<le> v \<and> v < hist_top (hist_unit lo) (hist_mag s) B" using assms(2) n(3) by fastforce
  then obtain h where h: "record_all h0 vs = Done h" "hist_holds (hist_unit lo) (hist_mag s) B h vs"
    using record_all_holds[OF n(2)] assms(3) by fastforce
  have t: "totalCount h = int (length vs)" using h(2) by (simp add: hist_holds_def)
  have q: "ValueAtQuantile rank h q = Some (highestEquivalentValue h (sort vs ! (k - 1)))"
    if "rank q (int (length vs)) = int k" "0 < k" "k \<le> length vs" for rank :: "rat \<Rightarrow> int \<Rightarrow> int" and q k
    by (rule ValueAtQuantile_holds[OF h(2)]) (use that t in simp_all)
  show ?thesis
    using n(1) h(1) t hist_Max_holds[OF h(2) assms(4)] hist_Min_holds[OF h(2) assms(4)] q
    by - (rule exI[of _ h0], rule exI[of _ h], simp add: hist_TotalCount_def)
qed

subsection \<open>Merging and snapshots\<close>

lemma merge_walk_holds:
  assumes "\<And>c. c \<in> set (counts src) \<Longrightarrow> 0 \<le> c" "length (counts src) = (B + 1) * 2 ^ M"
  shows "hist_holds u M B h vs \<Longrightarrow> \<forall>n\<in>set ns. n < (B + 1) * 2 ^ M \<Longrightarrow>
    int (length vs + length (concat (map (\<lambda>n. replicate (nat (counts src ! n)) (plow u M n)) ns))) \<le> maxInt \<Longrightarrow>
    \<exists>h'. merge_walk u M src ns h d = Done (d, h')
       \<and> hist_holds u M B h' (vs @ concat (map (\<lambda>n. replicate (nat (counts src ! n)) (plow u M n)) ns)) \<and> same_config h h'"
proof (induction ns arbitrary: h vs)
  case (Cons n ns)
  show ?case
  proof (cases "counts src ! n = 0")
    case True
    then show ?thesis using Cons by simp
  next
    case False
    have n: "n < (B + 1) * 2 ^ M" and sh: "hist_shape u M B h" using Cons.prems holds_shape by auto
    have c: "counts src ! n = int (nat (counts src ! n))" using assms n by simp
    have "n < length (counts h)" using sh n by (simp add: hist_shape_def)
    then obtain h1 where h1: "RecordValues h (plow u M n) (counts src ! n) = Done (None, h1)"
        "hist_holds u M B h1 (vs @ replicate (nat (counts src ! n)) (plow u M n))" "same_config h h1"
      using RecordValues_holds[OF Cons.prems(1) plow_nonneg, of u M n "nat (counts src ! n)"] pbucket_bound(2)[OF sh, of n] Cons.prems(3)
        c by auto
    then show ?thesis using Cons.IH[OF h1(2)] Cons.prems(2,3) False same_config_trans[OF h1(3)] by fastforce
  qed
qed auto

lemma holds_cong:
  assumes "hist_holds u M B h vs" "\<And>n. count_at u M vs n = count_at u M ws n" "length ws = length vs"
    "\<forall>v\<in>set ws. 0 \<le> v \<and> v < hist_top u M B"
  shows "hist_holds u M B h ws"
  using assms by (simp add: hist_holds_def)

lemma holds_unique:
  assumes "hist_holds u M B a vs" "hist_holds u M B b vs" "same_config h a" "same_config h b" shows "a = b"
proof -
  have "counts a = counts b" "totalCount a = totalCount b" using assms(1,2) by (simp_all add: hist_holds_def)
  then show ?thesis using assms(3,4) unfolding same_config_def by metis
qed

lemma count_at_append: "count_at u M (vs @ ws) n = count_at u M vs n + count_at u M ws n"
  by (simp add: count_at_def)

lemma count_at_lows: "count_at u M (concat (map (\<lambda>n. replicate (c n) (plow u M n)) [0..<k])) m = (if m < k then c m else 0)"
proof -
  have "count_at u M (replicate j (plow u M n)) m = (if n = m then j else 0)" for j n by (simp add: count_at_def)
  moreover have "count_at u M [] m = 0" by (simp add: count_at_def)
  ultimately show ?thesis by (induction k) (auto simp: count_at_append less_Suc_eq)
qed

lemma length_lows: "length (concat (map (\<lambda>n. replicate (c n) (f n)) [0..<k])) = (\<Sum>n\<leftarrow>[0..<k]. c n)"
  by (simp add: length_concat comp_def)

lemma holds_lows:
  assumes "hist_holds u M B h vs"
  defines "lows \<equiv> concat (map (\<lambda>n. replicate (nat (counts h ! n)) (plow u M n)) [0..<visited (counts h)])"
  shows "count_at u M lows n = count_at u M vs n" "length lows = length vs" "\<forall>v\<in>set lows. 0 \<le> v \<and> v < hist_top u M B"
proof -
  have sh: "hist_shape u M B h" and so: "hist_sound u M B h" using holds_shape holds_sound assms(1) by blast+
  have vl: "visited (counts h) \<le> length (counts h)" by (rule visited_le)
  show "count_at u M lows n = count_at u M vs n"
  proof (cases "n < visited (counts h)")
    case True
    then show ?thesis using vl holds_nth[OF assms(1)] by (simp add: lows_def count_at_lows)
  next
    case False
    have "count_at u M vs n = 0"
    proof (cases "n < length (counts h)")
      case True
      then show ?thesis using visited_beyond[of "counts h" n] False holds_nth[OF assms(1)] by simp
    next
      case False
      then show ?thesis using holds_position[OF assms(1)] count_at_pos[of u M vs n] by auto
    qed
    then show ?thesis using False by (simp add: lows_def count_at_lows)
  qed
  have "map (\<lambda>n. int (nat (counts h ! n))) [0..<visited (counts h)] = take (visited (counts h)) (counts h)"
    using vl so by (intro nth_equalityI) (auto simp: hist_sound_def)
  then have "int (length lows) = sum_list (take (visited (counts h)) (counts h))"
    unfolding lows_def length_lows by (simp only: sum_list_of_nat[symmetric] map_map comp_def)
  also have "\<dots> = totalCount h"
    using sum_list_visited[of "counts h" "visited (counts h)"] hist_sound_take[OF so] so
    by (metis (no_types, lifting) append_take_drop_id dual_order.antisym hist_sound_def in_set_dropD le_add_same_cancel1 order_refl sum_list_append sum_list_nonneg)
  finally show "length lows = length vs" using assms(1) by (simp add: hist_holds_def)
  show "\<forall>v\<in>set lows. 0 \<le> v \<and> v < hist_top u M B"
    using pbucket_bound(2)[OF sh] vl by (auto simp: lows_def)
qed

lemma hist_Merge_holds:
  assumes "hist_holds u M B h vs" "hist_holds u M B src ws" "int (length vs + length ws) \<le> maxInt"
  shows "\<exists>h'. hist_Merge h src = Some (Done (0, h')) \<and> hist_holds u M B h' (vs @ ws) \<and> same_config h h'"
proof -
  define lows where "lows = concat (map (\<lambda>n. replicate (nat (counts src ! n)) (plow u M n)) [0..<visited (counts src)])"
  note l = holds_lows[OF assms(2), folded lows_def]
  have so: "hist_sound u M B src" using holds_sound[OF assms(2)] .
  then have cl: "length (counts src) = (B + 1) * 2 ^ M" by (simp add: hist_sound_def hist_shape_def)
  have bound: "\<forall>n\<in>set [0..<visited (counts src)]. n < (B + 1) * 2 ^ M" using visited_le[of "counts src"] cl by auto
  have nn: "0 \<le> c" if "c \<in> set (counts src)" for c using so that by (simp add: hist_sound_def)
  obtain h' where h': "merge_walk u M src [0..<visited (counts src)] h 0 = Done (0, h')" "hist_holds u M B h' (vs @ lows)" "same_config h h'"
    using merge_walk_holds[OF nn cl assms(1) bound, of 0] assms(3) l(2) unfolding lows_def by auto
  have "hist_holds u M B h' (vs @ ws)"
    by (rule holds_cong[OF h'(2)]) (use l assms(1,2) in \<open>auto simp: count_at_append hist_holds_def\<close>)
  then show ?thesis using h' hist_Merge_walk[OF so] by auto
qed

lemma recorded_in:
  assumes "hist_New lo hi s = Some (Done h0)" "hist_args lo hi s"
  obtains B where "hist_holds (hist_unit lo) (hist_mag s) B h0 []" "hi \<le> hist_top (hist_unit lo) (hist_mag s) B"
    "\<And>vs h. record_all h0 vs = Done h \<Longrightarrow> \<forall>v\<in>set vs. 0 \<le> v \<and> v < hi \<Longrightarrow> int (length vs) \<le> maxInt \<Longrightarrow>
       hist_holds (hist_unit lo) (hist_mag s) B h vs \<and> same_config h0 h"
    "\<And>vs. \<forall>v\<in>set vs. 0 \<le> v \<and> v < hi \<Longrightarrow> int (length vs) \<le> maxInt \<Longrightarrow> \<exists>h. record_all h0 vs = Done h"
proof -
  obtain B where B: "hist_holds (hist_unit lo) (hist_mag s) B h0 []" "hi \<le> hist_top (hist_unit lo) (hist_mag s) B"
    using hist_New_is[OF assms] by blast
  have all: "\<exists>h. record_all h0 vs = Done h \<and> hist_holds (hist_unit lo) (hist_mag s) B h vs \<and> same_config h0 h"
    if "\<forall>v\<in>set vs. 0 \<le> v \<and> v < hi" "int (length vs) \<le> maxInt" for vs
    using record_all_holds[OF B(1), of vs] that B(2) by force
  show thesis by (rule that[OF B]) (use all in \<open>fastforce+\<close>)
qed

text \<open>
  Merging a histogram into another of the same configuration drops nothing and leaves exactly the
  histogram that recording the values of both would have made.
\<close>

theorem histogram_merge:
  assumes "hist_New lo hi s = Some (Done h0)" "hist_args lo hi s" "record_all h0 vs = Done h1" "record_all h0 ws = Done h2"
    "\<forall>v\<in>set (vs @ ws). 0 \<le> v \<and> v < hi" "int (length vs + length ws) \<le> maxInt"
  shows "\<exists>h. hist_Merge h1 h2 = Some (Done (0, h)) \<and> record_all h0 (vs @ ws) = Done h"
proof -
  obtain B where B: "\<And>vs h. record_all h0 vs = Done h \<Longrightarrow> \<forall>v\<in>set vs. 0 \<le> v \<and> v < hi \<Longrightarrow> int (length vs) \<le> maxInt \<Longrightarrow>
       hist_holds (hist_unit lo) (hist_mag s) B h vs \<and> same_config h0 h"
    "\<And>vs. \<forall>v\<in>set vs. 0 \<le> v \<and> v < hi \<Longrightarrow> int (length vs) \<le> maxInt \<Longrightarrow> \<exists>h. record_all h0 vs = Done h"
    using recorded_in[OF assms(1,2)] by metis
  have 1: "hist_holds (hist_unit lo) (hist_mag s) B h1 vs" "same_config h0 h1" using B(1)[OF assms(3)] assms(5,6) by auto
  have 2: "hist_holds (hist_unit lo) (hist_mag s) B h2 ws" using B(1)[OF assms(4)] assms(5,6) by auto
  obtain h where h: "hist_Merge h1 h2 = Some (Done (0, h))" "hist_holds (hist_unit lo) (hist_mag s) B h (vs @ ws)" "same_config h1 h"
    using hist_Merge_holds[OF 1(1) 2 assms(6)] by blast
  obtain h' where h': "record_all h0 (vs @ ws) = Done h'" using B(2)[OF assms(5)] assms(6) by auto
  then have "hist_holds (hist_unit lo) (hist_mag s) B h' (vs @ ws) \<and> same_config h0 h'" using B(1)[OF h'] assms(5,6) by simp
  then have "h' = h" using holds_unique[OF _ h(2) _ same_config_trans[OF 1(2) h(3)]] by blast
  then show ?thesis using h(1) h' by blast
qed

lemma fold_positive:
  assumes "\<And>c. c \<in> set cs \<Longrightarrow> 0 \<le> (c::int)" "0 \<le> t" "t + sum_list cs \<le> maxInt"
  shows "fold (\<lambda>c t. if c > 0 then wrap64 (t + c) else t) cs t = t + sum_list cs"
  using assms
proof (induction cs arbitrary: t)
  case (Cons c cs)
  have "0 \<le> sum_list cs" using Cons.prems(1) by (intro sum_list_nonneg) simp
  then have "wrap64 (t + c) = t + c" using Cons.prems by (intro wrap64_id) (auto simp: minInt_def intro: order_trans[of _ 0])
  then show ?case using Cons.IH[of "t + c"] Cons.prems by (cases "c = 0") (auto simp: order.strict_iff_order)
qed simp

lemma counts_equal_same: "length xs = length ys \<Longrightarrow> counts_equal xs ys = Done (xs = ys)"
  by (induction xs ys rule: list_induct2) auto

lemma hist_Equals_decides: "length (counts a) = length (counts b) \<Longrightarrow> hist_Equals a b = Done (a = b)"
  by (cases a, cases b) (auto simp: hist_Equals_def counts_equal_same)

text \<open>
  C21: Importing the exported snapshot of a histogram gives the histogram back, and \<open>Equals\<close> tells it from
  every histogram of the same configuration that differs from it.
\<close>

theorem snapshot_roundtrip:
  assumes "hist_New lo hi s = Some (Done h0)" "hist_args lo hi s" "record_all h0 vs = Done h" "record_all h0 ws = Done g"
    "\<forall>v\<in>set (vs @ ws). 0 \<le> v \<and> v < hi" "int (length (vs @ ws)) \<le> maxInt"
  shows "hist_Import (hist_Export h) = Some (Done h) \<and> hist_Equals h g = Done (h = g)"
proof -
  define u M where "u = hist_unit lo" and "M = hist_mag s"
  obtain B where B: "\<And>vs h. record_all h0 vs = Done h \<Longrightarrow> \<forall>v\<in>set vs. 0 \<le> v \<and> v < hi \<Longrightarrow> int (length vs) \<le> maxInt \<Longrightarrow>
       hist_holds u M B h vs \<and> same_config h0 h" "hist_holds u M B h0 []"
    using recorded_in[OF assms(1,2)] unfolding u_def M_def by metis
  have h: "hist_holds u M B h vs" "same_config h0 h" and g: "hist_holds u M B g ws"
    using B(1)[OF assms(3)] B(1)[OF assms(4)] assms(5,6) by auto
  have so: "hist_sound u M B h" by (rule holds_sound[OF h(1)])
  have len: "countsLen h0 = int (length (counts h))" "length (counts g) = length (counts h)"
    using B(2) h(1) g by (simp_all add: hist_holds_def hist_shape_def)
  have fields: "lowestTrackableValue h = lo" "highestTrackableValue h = hi" "significantFigures h = s"
    using same_config_fields[OF h(2)] hist_New_spec[OF assms(2)] assms(1) by auto
  have "fold (\<lambda>c t. if c > 0 then wrap64 (t + c) else t) (counts h) 0 = totalCount h"
    using so by (subst fold_positive) (auto simp: hist_sound_def)
  then have "hist_Import (hist_Export h) = Some (Done (h0\<lparr>counts := counts h, totalCount := totalCount h\<rparr>))"
    using assms(1) len(1) by (simp add: hist_Import_def hist_Export_def fields)
  then show ?thesis using h(2) hist_Equals_decides[of h g] len(2) by (simp add: same_config_def)
qed

subsection \<open>Correction for stalls\<close>

lemma RecordCorrected_loop_spec:
  assumes "0 < e"
  shows "hist_holds u M B h vs \<Longrightarrow> 0 \<le> m \<Longrightarrow> m < hist_top u M B \<Longrightarrow> int (length vs) + m div e \<le> maxInt \<Longrightarrow>
    \<exists>h'. RecordCorrected_loop m e h = Some (Done h') \<and> record_all h (map (\<lambda>k. m - int k * e) [0..<nat (m div e)]) = Done h'"
proof (induction "nat m" arbitrary: m h vs rule: less_induct)
  case less
  show ?case
  proof (cases "m \<ge> e")
    case True
    have d: "m div e = (m - e) div e + 1" using assms div_add_self2[of e "m - e"] by simp
    have d0: "0 \<le> (m - e) div e" using True assms by (simp add: pos_imp_zdiv_nonneg_iff)
    have top: "hist_top u M B \<le> maxInt" using hist_top_bound holds_shape less.prems(1) by blast
    obtain h1 where h1: "RecordValue h m = Done (None, h1)" "hist_holds u M B h1 (vs @ [m])"
      using RecordValue_holds[OF less.prems(1-3)] less.prems(4) d d0 by auto
    have w: "wrap64 (m - e) = m - e" using True assms less.prems(3) top by (intro wrap64_id) (auto simp: minInt_def)
    obtain h' where h': "RecordCorrected_loop (m - e) e h1 = Some (Done h')"
        "record_all h1 (map (\<lambda>k. (m - e) - int k * e) [0..<nat ((m - e) div e)]) = Done h'"
      using less.hyps[of "m - e" h1 "vs @ [m]"] h1(2) True assms less.prems d by auto
    have "map (\<lambda>k. m - int k * e) [0..<nat (m div e)] = m # map (\<lambda>k. (m - e) - int k * e) [0..<nat ((m - e) div e)]"
    proof -
      have "nat (m div e) = Suc (nat ((m - e) div e))" using d d0 by simp
      then show ?thesis by (simp only: map_upt_Suc) (simp add: algebra_simps)
    qed
    then show ?thesis using h1(1) h' w True by (subst RecordCorrected_loop.simps) simp
  next
    case False
    then have "m div e = 0" using less.prems(2) by simp
    then show ?thesis using False by (subst RecordCorrected_loop.simps) simp
  qed
qed

text \<open>
  \<open>RecordCorrectedValue\<close> with a positive interval always returns; it records the value and every value
  that many intervals below it that is not smaller than the interval itself.
\<close>

theorem corrected_recording:
  assumes "hist_New lo hi s = Some (Done h0)" "hist_args lo hi s" "record_all h0 vs = Done h"
    "\<forall>v\<in>set vs. 0 \<le> v \<and> v < hi" "0 \<le> v" "v < hi" "0 < e" "int (length vs) + v div e + 1 \<le> maxInt"
  shows "\<exists>h'. RecordCorrectedValue h v e = Some (Done (None, h'))
     \<and> record_all h (v # map (\<lambda>k. v - int k * e) [1..<nat (v div e)]) = Done h'"
proof -
  define u M where "u = hist_unit lo" and "M = hist_mag s"
  have v0: "0 \<le> v div e" using assms(5,7) by (simp add: pos_imp_zdiv_nonneg_iff)
  then have "int (length vs) \<le> maxInt" using assms(8) by simp
  then obtain B where h: "hist_holds u M B h vs" and top: "hi \<le> hist_top u M B"
    using recorded_in[OF assms(1,2)] assms(3,4) unfolding u_def M_def by metis
  have "hist_top u M B \<le> maxInt" using hist_top_bound holds_shape[OF h] by blast
  then have vm: "v < maxInt" using assms(6) top by simp
  obtain h1 where h1: "RecordValue h v = Done (None, h1)" "hist_holds u M B h1 (vs @ [v])"
    using RecordValue_holds[OF h assms(5)] assms(6,8) top v0 by auto
  show ?thesis
  proof (cases "v \<le> e")
    case True
    have "v div e \<le> 1" using zdiv_mono1[OF True assms(7)] assms(7) by simp
    then show ?thesis using True h1(1) by (simp add: RecordCorrectedValue_def)
  next
    case False
    have d: "v div e = (v - e) div e + 1" using assms(7) div_add_self2[of e "v - e"] by simp
    have d0: "0 \<le> (v - e) div e" using False assms(7) by (simp add: pos_imp_zdiv_nonneg_iff)
    have w: "wrap64 (v - e) = v - e" using False assms(7) vm by (intro wrap64_id) (auto simp: minInt_def)
    obtain h' where "RecordCorrected_loop (v - e) e h1 = Some (Done h')"
        "record_all h1 (map (\<lambda>k. (v - e) - int k * e) [0..<nat ((v - e) div e)]) = Done h'"
      using RecordCorrected_loop_spec[OF assms(7) h1(2), of "v - e"] False assms(6-8) top d by auto
    moreover have "map (\<lambda>k. v - int k * e) [1..<nat (v div e)] = map (\<lambda>k. (v - e) - int k * e) [0..<nat ((v - e) div e)]"
    proof -
      have "nat (v div e) = Suc (nat ((v - e) div e))" using d d0 by simp
      then show ?thesis by (simp only: One_nat_def map_Suc_upt[symmetric] map_map) (simp add: algebra_simps)
    qed
    ultimately show ?thesis using False h1(1) w assms(7) by (simp add: RecordCorrectedValue_def)
  qed
qed

text \<open>
  When the highest trackable value is a power of two of at least the size of one bucket, the histogram does
  not track it: recording it is an error that leaves the histogram alone.
\<close>

theorem highest_value_rejected:
  assumes "hist_New lo (2 ^ k) s = Some (Done h)" "hist_args lo (2 ^ k) s" "hist_unit lo + hist_mag s + 1 \<le> k"
  shows "RecordValue h (2 ^ k) = Done (Some (2 ^ k), h)"
proof -
  define u M where "u = hist_unit lo" and "M = hist_mag s"
  obtain B where B: "hist_holds u M B h []" "2 ^ k \<le> hist_top u M B" "1 < B \<longrightarrow> hist_top u M (B - 1) < 2 ^ k"
    using hist_New_spec[OF assms(2)] assms(1) unfolding u_def M_def by auto
  have sh: "hist_shape u M B h" by (rule holds_shape[OF B(1)])
  have le: "k \<le> u + M + B" using B(2) unfolding hist_top_def by (simp only: power_increasing_iff one_less_numeral_iff semiring_norm)
  have "k = u + M + B"
  proof (cases "1 < B")
    case True
    then have "u + M + (B - 1) < k" using B(3) by (simp add: hist_top_def)
    then show ?thesis using True le by simp
  next
    case False
    then have "B = 1" using sh by (simp add: hist_shape_def)
    then show ?thesis using le assms(3) by (simp add: u_def M_def)
  qed
  then have "hist_top u M B \<le> 2 ^ k" by (simp add: hist_top_def)
  moreover have "(0::int) < 2 ^ k" by simp
  then have "minInt \<le> 2 ^ k" unfolding minInt_def by linarith
  moreover have "2 ^ k \<le> maxInt" using assms(2) unfolding hist_args_def maxInt_def by simp
  ultimately show ?thesis unfolding RecordValue_def by (intro RecordValues_reject[OF sh]) simp_all
qed

subsection \<open>Windows\<close>

datatype win_act = WRecord int | WRotate

fun win_run :: "WindowedHistogram \<Rightarrow> win_act list \<Rightarrow> WindowedHistogram outcome" where
  "win_run w [] = Done w"
| "win_run w (WRecord v # as) = on_done (win_record w v) (\<lambda>(e, w1). if e \<noteq> None then Panic ''rejected'' else win_run w1 as)"
| "win_run w (WRotate # as) = on_done (win_Rotate w) (\<lambda>w1. win_run w1 as)"

text \<open>The values of every section since the start, the newest section first.\<close>

fun win_sections :: "int list list \<Rightarrow> win_act list \<Rightarrow> int list list" where
  "win_sections es [] = es"
| "win_sections es (WRecord v # as) = win_sections ((hd es @ [v]) # tl es) as"
| "win_sections es (WRotate # as) = win_sections ([] # es) as"

definition section_at :: "int list list \<Rightarrow> nat \<Rightarrow> int list" where
  "section_at es j = (if j < length es then es ! j else [])"

definition win_slot :: "int \<Rightarrow> nat \<Rightarrow> nat \<Rightarrow> nat" where
  "win_slot k n j = nat ((k - int j) mod int n)"

definition win_holds :: "nat \<Rightarrow> nat \<Rightarrow> nat \<Rightarrow> Histogram \<Rightarrow> nat \<Rightarrow> WindowedHistogram \<Rightarrow> int list list \<Rightarrow> bool" where
  "win_holds u M B h0 n w es \<longleftrightarrow>
     es \<noteq> [] \<and> win_idx w = int (length es) - 1 \<and> length (win_h w) = n \<and> win_Current w = win_slot (win_idx w) n 0
     \<and> hist_holds u M B (hist_Reset (win_m w)) [] \<and> same_config h0 (hist_Reset (win_m w))
     \<and> (\<forall>j<n. hist_holds u M B (win_h w ! win_slot (win_idx w) n j) (section_at es j)
              \<and> same_config h0 (win_h w ! win_slot (win_idx w) n j))"

lemma win_holds_slot:
  "win_holds u M B h0 n w es \<Longrightarrow> j < n \<Longrightarrow>
     hist_holds u M B (win_h w ! win_slot (win_idx w) n j) (section_at es j) \<and> same_config h0 (win_h w ! win_slot (win_idx w) n j)"
  unfolding win_holds_def by blast

lemma win_slot_less: "0 < n \<Longrightarrow> win_slot k n j < n"
  by (simp add: win_slot_def nat_less_iff)

lemma win_slot_Suc: "win_slot (k + 1) n (Suc j) = win_slot k n j"
  by (simp add: win_slot_def algebra_simps)

lemma win_slot_wrap: "0 < n \<Longrightarrow> win_slot (k + 1) n 0 = win_slot k n (n - 1)"
proof -
  assume "0 < n"
  then have e: "k - int (n - 1) = (k + 1) - int n" by (simp add: of_nat_diff)
  show ?thesis by (simp only: win_slot_def e minus_mod_self2 of_nat_0 diff_zero)
qed

lemma win_slot_inj: "i < n \<Longrightarrow> j < n \<Longrightarrow> win_slot k n i = win_slot k n j \<longleftrightarrow> i = j"
proof
  assume a: "i < n" "j < n" "win_slot k n i = win_slot k n j"
  then have "(k - int i) mod int n = (k - int j) mod int n" by (simp add: win_slot_def eq_nat_nat_iff)
  then have "int n dvd (int j - int i)" by (simp add: mod_eq_dvd_iff)
  then have "int n dvd \<bar>int j - int i\<bar>" by simp
  moreover have "\<bar>int j - int i\<bar> < int n" using a(1,2) by linarith
  ultimately have "\<not> 0 < \<bar>int j - int i\<bar>" using zdvd_not_zless by blast
  then show "i = j" by simp
qed simp

lemma holds_mset: "hist_holds u M B h vs \<Longrightarrow> mset ws = mset vs \<Longrightarrow> hist_holds u M B h ws"
proof (rule holds_cong)
  assume m: "mset ws = mset vs" and h: "hist_holds u M B h vs"
  show "length ws = length vs" using m by (rule mset_eq_length)
  show "count_at u M vs n = count_at u M ws n" for n unfolding count_at_def by (metis m mset_filter size_mset)
  show "\<forall>v\<in>set ws. 0 \<le> v \<and> v < hist_top u M B" using h mset_eq_setD[OF m] by (simp add: hist_holds_def)
qed

lemma win_Merge_loop_holds:
  "list_all2 (hist_holds u M B) hs vss \<Longrightarrow> hist_holds u M B m ms \<Longrightarrow> int (length ms + length (concat vss)) \<le> maxInt \<Longrightarrow>
    \<exists>m'. win_Merge_loop hs m = Some (Done m') \<and> hist_holds u M B m' (ms @ concat vss) \<and> same_config m m'"
proof (induction hs vss arbitrary: m ms rule: list_all2_induct)
  case (Cons h hs vs vss)
  obtain m1 where m1: "hist_Merge m h = Some (Done (0, m1))" "hist_holds u M B m1 (ms @ vs)" "same_config m m1"
    using hist_Merge_holds[OF Cons.prems(1) Cons.hyps(1)] Cons.prems(2) by auto
  then show ?case using Cons.IH[OF m1(2)] Cons.prems(2) same_config_trans[OF m1(3)] by fastforce
qed auto

lemma concat_sections: "concat (map (section_at es) [0..<n]) = concat (take n es)"
proof (induction n)
  case (Suc n)
  then show ?case by (cases "n < length es") (simp_all add: section_at_def take_Suc_conv_app_nth)
qed simp

lemma hist_Reset_eq: "hist_Reset h = h\<lparr>counts := replicate (length (counts h)) 0, totalCount := 0\<rparr>"
  by (simp add: hist_Reset_def)

lemma hist_Reset_holds:
  assumes "hist_holds u M B h vs" "same_config h0 h" shows "hist_holds u M B (hist_Reset h) [] \<and> same_config h0 (hist_Reset h)"
proof -
  have "counts (hist_Reset h) = map (\<lambda>n. int (count_at u M [] n)) [0..<(B + 1) * 2 ^ M]"
    using assms(1) by (simp add: hist_Reset_eq hist_holds_def hist_shape_def count_at_def map_replicate_const)
  moreover have "hist_shape u M B (hist_Reset h)" using holds_shape[OF assms(1)] by (simp add: hist_Reset_eq)
  moreover have "same_config h0 (hist_Reset h)" using same_config_trans[OF assms(2)] by (simp add: hist_Reset_eq)
  ultimately show ?thesis by (simp add: hist_holds_def maxInt_def) (simp add: hist_Reset_eq)
qed

lemma win_record_holds:
  assumes "win_holds u M B h0 n w es" "0 < n" "0 \<le> v" "v < hist_top u M B" "int (length (hd es)) < maxInt"
  shows "\<exists>w'. win_record w v = Done (None, w') \<and> win_holds u M B h0 n w' ((hd es @ [v]) # tl es)"
proof -
  define k where "k = win_idx w"
  have es: "es \<noteq> []" "section_at es 0 = hd es" using assms(1) by (auto simp: win_holds_def section_at_def hd_conv_nth)
  have cur: "win_Current w = win_slot k n 0" "win_slot k n 0 < length (win_h w)"
    using assms(1,2) win_slot_less[of n k 0] by (simp_all add: win_holds_def k_def)
  have h: "hist_holds u M B (win_h w ! win_slot k n 0) (hd es)" "same_config h0 (win_h w ! win_slot k n 0)"
    using assms(1,2) es(2) unfolding win_holds_def k_def by metis+
  obtain h' where h': "RecordValue (win_h w ! win_slot k n 0) v = Done (None, h')" "hist_holds u M B h' (hd es @ [v])"
      "same_config (win_h w ! win_slot k n 0) h'"
    using RecordValue_holds[OF h(1) assms(3,4,5)] by blast
  have sec: "section_at ((hd es @ [v]) # tl es) j = (if j = 0 then hd es @ [v] else section_at es j)" for j
    using es(1) by (cases es; cases j) (auto simp: section_at_def)
  have "win_holds u M B h0 n (w\<lparr>win_h := (win_h w)[win_slot k n 0 := h']\<rparr>) ((hd es @ [v]) # tl es)"
  proof -
    have slot: "hist_holds u M B ((win_h w)[win_slot k n 0 := h'] ! win_slot k n j) (section_at ((hd es @ [v]) # tl es) j)
        \<and> same_config h0 ((win_h w)[win_slot k n 0 := h'] ! win_slot k n j)" if "j < n" for j
      using win_holds_slot[OF assms(1) that] h'(2) same_config_trans[OF h(2) h'(3)] cur(2) win_slot_inj[of 0 n j k] assms(2) that
      by (cases "j = 0") (simp_all add: sec k_def)
    have len: "length ((hd es @ [v]) # tl es) = length es" using es(1) by simp
    show ?thesis using assms(1) slot unfolding win_holds_def k_def len by simp
  qed
  then show ?thesis using h'(1) by (simp add: win_record_def cur(1))
qed

lemma win_Rotate_holds:
  assumes "win_holds u M B h0 n w es" "0 < n" "int (length es) \<le> maxInt"
  shows "\<exists>w'. win_Rotate w = Done w' \<and> win_holds u M B h0 n w' ([] # es)"
proof -
  define k where "k = win_idx w"
  have k: "k = int (length es) - 1" "length (win_h w) = n" "es \<noteq> []" using assms(1) by (simp_all add: win_holds_def k_def)
  have w: "wrap64 (k + 1) = k + 1" using k(1) assms(3) by (simp add: minInt_def)
  have idx: "nat (remd (k + 1) (int n)) = win_slot (k + 1) n 0" "\<not> remd (k + 1) (int n) < 0"
    using k(1) assms(2) by (simp_all add: win_slot_def not_less)
  have old: "win_slot (k + 1) n 0 = win_slot k n (n - 1)" "n - 1 < n" using win_slot_wrap[OF assms(2), of k] assms(2) by auto
  have r: "hist_holds u M B (hist_Reset (win_h w ! win_slot k n (n - 1))) [] \<and> same_config h0 (hist_Reset (win_h w ! win_slot k n (n - 1)))"
    using win_holds_slot[OF assms(1) old(2)] hist_Reset_holds unfolding k_def[symmetric] by blast
  define w' where "w' = w\<lparr>win_idx := k + 1, win_h := (win_h w)[win_slot (k + 1) n 0 := hist_Reset (win_h w ! win_slot (k + 1) n 0)],
     win_Current := win_slot (k + 1) n 0\<rparr>"
  have "win_Rotate w = Done w'"
    using w assms(2) idx by (simp add: win_Rotate_def Let_def k_def[symmetric] k(2) w'_def)
  moreover have "win_holds u M B h0 n w' ([] # es)"
  proof -
    have "hist_holds u M B (win_h w' ! win_slot (k + 1) n j) (section_at ([] # es) j) \<and> same_config h0 (win_h w' ! win_slot (k + 1) n j)"
      if j: "j < n" for j
    proof (cases j)
      case 0
      then show ?thesis using r old(1) win_slot_less[OF assms(2)] k(2) by (simp add: w'_def section_at_def)
    next
      case (Suc i)
      then have "win_slot (k + 1) n 0 \<noteq> win_slot (k + 1) n j" using win_slot_inj[of 0 n j "k + 1"] j by simp
      then have "win_h w' ! win_slot (k + 1) n j = win_h w ! win_slot k n i" using Suc by (simp add: w'_def win_slot_Suc)
      moreover have "section_at ([] # es) j = section_at es i" using Suc by (simp add: section_at_def)
      ultimately show ?thesis using win_holds_slot[OF assms(1), of i] j Suc by (simp add: k_def)
    qed
    then show ?thesis using assms(1) k by (simp add: win_holds_def w'_def)
  qed
  ultimately show ?thesis by blast
qed

lemma win_run_holds:
  "win_holds u M B h0 n w es \<Longrightarrow> 0 < n \<Longrightarrow> \<forall>v. WRecord v \<in> set as \<longrightarrow> 0 \<le> v \<and> v < hist_top u M B \<Longrightarrow>
   int (length es + length (concat es) + length as) \<le> maxInt \<Longrightarrow>
   \<exists>w'. win_run w as = Done w' \<and> win_holds u M B h0 n w' (win_sections es as)
     \<and> int (length (concat (win_sections es as))) \<le> maxInt"
proof (induction as arbitrary: w es)
  case (Cons a as)
  obtain e rest where es: "es = e # rest" using Cons.prems(1) by (cases es) (simp_all add: win_holds_def)
  show ?case
  proof (cases a)
    case (WRecord v)
    then obtain w1 where w1: "win_record w v = Done (None, w1)" "win_holds u M B h0 n w1 ((hd es @ [v]) # tl es)"
      using win_record_holds[OF Cons.prems(1,2), of v] Cons.prems(3,4) es by auto
    have "\<forall>v. WRecord v \<in> set as \<longrightarrow> 0 \<le> v \<and> v < hist_top u M B"
      "int (length ((hd es @ [v]) # tl es) + length (concat ((hd es @ [v]) # tl es)) + length as) \<le> maxInt"
      using Cons.prems(3,4) es by simp_all
    from Cons.IH[OF w1(2) Cons.prems(2) this] show ?thesis using WRecord w1(1) by simp
  next
    case WRotate
    obtain w1 where w1: "win_Rotate w = Done w1" "win_holds u M B h0 n w1 ([] # es)"
      using win_Rotate_holds[OF Cons.prems(1,2)] Cons.prems(4) by auto
    have "\<forall>v. WRecord v \<in> set as \<longrightarrow> 0 \<le> v \<and> v < hist_top u M B"
      "int (length ([] # es) + length (concat ([] # es)) + length as) \<le> maxInt"
      using Cons.prems(3,4) by simp_all
    from Cons.IH[OF w1(2) Cons.prems(2) this] show ?thesis using WRotate w1(1) by simp
  qed
qed simp

lemma win_Merge_holds:
  assumes "win_holds u M B h0 n w es" "0 < n" "int (length (concat es)) \<le> maxInt"
  shows "\<exists>w'. win_Merge w = Some (Done w') \<and> win_h w' = win_h w \<and> hist_holds u M B (win_m w') (concat (take n es)) \<and> same_config h0 (win_m w')"
proof -
  define k f where "k = win_idx w" and "f = win_slot k n"
  define vss where "vss = map (\<lambda>i. section_at es (inv_into {..<n} f i)) [0..<n]"
  have inj: "inj_on f {..<n}" by (auto simp: inj_on_def f_def win_slot_inj)
  have into: "f ` {..<n} \<subseteq> {..<n}" using win_slot_less[OF assms(2)] by (auto simp: f_def)
  have onto: "f ` {..<n} = {..<n}" by (rule endo_inj_surj[OF _ into inj]) simp
  have nth: "vss ! f j = section_at es j" if "j < n" for j
    using that inj win_slot_less[OF assms(2), of k j] by (simp add: vss_def f_def)
  have hs: "list_all2 (hist_holds u M B) (win_h w) vss"
  proof (rule list_all2_all_nthI)
    show "length (win_h w) = length vss" using assms(1) by (simp add: vss_def win_holds_def)
    fix i assume "i < length (win_h w)"
    then have "i \<in> f ` {..<n}" using assms(1) onto by (simp add: win_holds_def)
    then obtain j where "j < n" "i = f j" by auto
    then show "hist_holds u M B (win_h w ! i) (vss ! i)" using win_holds_slot[OF assms(1)] nth[of j] by (simp add: f_def k_def)
  qed
  have "mset (map f [0..<n]) = mset [0..<n]"
    using inj onto by (subst set_eq_iff_mset_eq_distinct[symmetric]) (auto simp: distinct_map lessThan_atLeast0)
  then have "image_mset ((!) vss) (mset (map f [0..<n])) = image_mset ((!) vss) (mset [0..<n])" by simp
  then have "mset (map (\<lambda>j. vss ! f j) [0..<n]) = mset (map ((!) vss) [0..<n])"
    by (simp only: mset_map[symmetric] map_map comp_def)
  moreover have "map ((!) vss) [0..<n] = vss" using map_nth[of vss] by (simp add: vss_def)
  moreover have "map (\<lambda>j. vss ! f j) [0..<n] = map (section_at es) [0..<n]" using nth by simp
  ultimately have "mset (concat vss) = mset (concat (map (section_at es) [0..<n]))"
    unfolding mset_concat by (simp only: sum_mset_sum_list[symmetric] mset_map)
  then have ms: "mset (concat (take n es)) = mset (concat vss)" by (simp only: concat_sections)
  have "length (concat (take n es)) \<le> length (concat es)"
    by (metis append_take_drop_id concat_append le_add1 length_append)
  then have len: "int (length ([] :: int list) + length (concat vss)) \<le> maxInt" using mset_eq_length[OF ms] assms(3) by simp
  have m0: "hist_holds u M B (hist_Reset (win_m w)) []" "same_config h0 (hist_Reset (win_m w))" using assms(1) by (simp_all add: win_holds_def)
  obtain m' where m': "win_Merge_loop (win_h w) (hist_Reset (win_m w)) = Some (Done m')" "hist_holds u M B m' ([] @ concat vss)"
      "same_config (hist_Reset (win_m w)) m'" using win_Merge_loop_holds[OF hs m0(1) len] by blast
  then show ?thesis using holds_mset[OF m'(2), of "concat (take n es)"] ms same_config_trans[OF m0(2) m'(3)]
    by (simp add: win_Merge_def)
qed

text \<open>
  The merged histogram of a window of \<open>n\<close> sections is, after any sequence of recordings and rotations, the
  histogram of the values recorded in the last \<open>n\<close> sections; merging leaves the sections as they are.
\<close>

theorem window_merges_last_sections:
  assumes "hist_New lo hi s = Some (Done h0)" "hist_args lo hi s" "1 \<le> n" "\<forall>v. WRecord v \<in> set as \<longrightarrow> 0 \<le> v \<and> v < hi"
    "int (length as) + 1 \<le> maxInt"
  shows "\<exists>w0 w w'. NewWindowed n lo hi s = Some (Done w0) \<and> win_run w0 as = Done w \<and> win_Merge w = Some (Done w')
     \<and> win_h w' = win_h w \<and> record_all h0 (concat (take (nat n) (win_sections [[]] as))) = Done (win_m w')"
proof -
  define u M where "u = hist_unit lo" and "M = hist_mag s"
  obtain B where B: "hist_holds u M B h0 []" "hi \<le> hist_top u M B"
    using hist_New_is[OF assms(1,2)] unfolding u_def M_def by blast
  have n: "0 < nat n" using assms(3) by simp
  note r0 = hist_Reset_holds[OF B(1) same_config_refl]
  have same0: "hist_Reset h0 = h0" using holds_unique[OF _ B(1), of "hist_Reset h0" h0] r0 by simp
  define w0 where "w0 = \<lparr>win_idx = 0, win_h = replicate (nat n) h0, win_m = h0, win_Current = 0\<rparr>"
  have "(replicate (nat n) h0)[0 := h0] = replicate (nat n) h0" using n by (cases "nat n") simp_all
  then have "NewWindowed n lo hi s = Some (Done w0)"
    using assms(1,3) by (simp add: NewWindowed_def win_Rotate_def Let_def w0_def same0 minInt_def maxInt_def)
  moreover have w0: "win_holds u M B h0 (nat n) w0 [[]]"
    using B(1) n win_slot_less[OF n] r0 by (auto simp: win_holds_def w0_def section_at_def win_slot_def[of 0 _ 0])
  have vs: "\<forall>v. WRecord v \<in> set as \<longrightarrow> 0 \<le> v \<and> v < hist_top u M B" using assms(4) B(2) by fastforce
  obtain w where w: "win_run w0 as = Done w" "win_holds u M B h0 (nat n) w (win_sections [[]] as)"
      "int (length (concat (win_sections [[]] as))) \<le> maxInt"
    using win_run_holds[OF w0 n vs] assms(5) by auto
  obtain w' where w': "win_Merge w = Some (Done w')" "win_h w' = win_h w" "hist_holds u M B (win_m w') (concat (take (nat n) (win_sections [[]] as)))"
      "same_config h0 (win_m w')" using win_Merge_holds[OF w(2) n w(3)] by blast
  have "\<exists>h. record_all h0 (concat (take (nat n) (win_sections [[]] as))) = Done h
      \<and> hist_holds u M B h ([] @ concat (take (nat n) (win_sections [[]] as))) \<and> same_config h0 h"
    by (rule record_all_holds[OF B(1)]) (use w'(3) in \<open>auto simp: hist_holds_def\<close>)
  then have "record_all h0 (concat (take (nat n) (win_sections [[]] as))) = Done (win_m w')"
    using holds_unique[OF _ w'(3) _ w'(4)] by auto
  ultimately show ?thesis using w(1) w' by blast
qed

subsection \<open>The properties at concrete arguments\<close>

lemma hist_args_example: "hist_args 1 4096 3"
  by (simp add: hist_args_def)

theorem histogram_intervals_witness:
  "\<exists>h b. hist_New 1 4096 3 = Some (Done h) \<and> highestEquivalentValue h 3001 = Done b \<and> 3001 \<le> b
     \<and> (countsIndexFor h 3000 = countsIndexFor h 3001 \<longleftrightarrow> lowestEquivalentValue h 3001 \<le> 3000 \<and> 3000 \<le> b)"
proof -
  obtain h where h: "hist_New 1 4096 3 = Some (Done h)" using hist_New_spec[OF hist_args_example] by blast
  show ?thesis using histogram_intervals[OF h hist_args_example, of 3001 3000] h by auto
qed

theorem histogram_answers_witness:
  "\<exists>h0 h. hist_New 1 4096 3 = Some (Done h0) \<and> record_all h0 [7, 3, 5] = Done h
     \<and> hist_Max h = Some (highestEquivalentValue h 7) \<and> hist_Min h = Some (Done (lowestEquivalentValue h 3))
     \<and> ValueAtQuantile (\<lambda>(q :: rat) n. ceiling (q * of_int n / 100)) h 50 = Some (highestEquivalentValue h 5)"
proof -
  obtain h0 h where h: "hist_New 1 4096 3 = Some (Done h0)" "record_all h0 [7, 3, 5] = Done h"
      "hist_Max h = Some (highestEquivalentValue h 7)" "hist_Min h = Some (Done (lowestEquivalentValue h 3))"
    and q: "\<forall>(rank :: rat \<Rightarrow> int \<Rightarrow> int) q k. rank q (int (length [7, 3, 5 :: int])) = int k \<and> 0 < k \<and> k \<le> length [7, 3, 5 :: int] \<longrightarrow>
           ValueAtQuantile rank h q = Some (highestEquivalentValue h (sort [7, 3, 5] ! (k - 1)))"
    using histogram_answers[OF hist_args_example, of "[7, 3, 5]"] by (auto simp: maxInt_def simp del: record_all.simps win_run.simps)
  have "ceiling (50 * of_int (int (length [7, 3, 5 :: int])) / 100 :: rat) = int 2" by (simp add: ceiling_eq_iff)
  then have "ValueAtQuantile (\<lambda>(q :: rat) n. ceiling (q * of_int n / 100)) h 50 = Some (highestEquivalentValue h (sort [7, 3, 5] ! (2 - 1)))"
    using q[rule_format, of "\<lambda>(q :: rat) n. ceiling (q * of_int n / 100)" 50 2] by simp
  moreover have "sort [7, 3, 5] ! (2 - 1) = (5 :: int)" by simp
  ultimately show ?thesis using h by metis
qed

lemma recorded_example:
  "\<exists>h0 h1 h2. hist_New 1 4096 3 = Some (Done h0) \<and> record_all h0 [7, 3] = Done h1 \<and> record_all h0 [5] = Done h2"
proof -
  obtain h0 where h0: "hist_New 1 4096 3 = Some (Done h0)" using hist_New_spec[OF hist_args_example] by blast
  have "\<exists>h. record_all h0 vs = Done h" if "\<forall>v\<in>set vs. 0 \<le> v \<and> v < 4096" "int (length vs) \<le> maxInt" for vs
    using recorded_in[OF h0 hist_args_example] that by metis
  from this[of "[7, 3]"] this[of "[5]"] show ?thesis using h0 by (auto simp: maxInt_def simp del: record_all.simps win_run.simps)
qed

theorem histogram_merge_witness:
  "\<exists>h0 h1 h2 h. hist_New 1 4096 3 = Some (Done h0) \<and> record_all h0 [7, 3] = Done h1 \<and> record_all h0 [5] = Done h2
     \<and> hist_Merge h1 h2 = Some (Done (0, h)) \<and> record_all h0 [7, 3, 5] = Done h"
proof -
  obtain h0 h1 h2 where h: "hist_New 1 4096 3 = Some (Done h0)" "record_all h0 [7, 3] = Done h1" "record_all h0 [5] = Done h2"
    using recorded_example by blast
  show ?thesis using histogram_merge[OF h(1) hist_args_example h(2,3)] h by (auto simp: maxInt_def simp del: record_all.simps win_run.simps)
qed

theorem snapshot_roundtrip_witness:
  "\<exists>h0 h1 h2. hist_New 1 4096 3 = Some (Done h0) \<and> record_all h0 [7, 3] = Done h1 \<and> record_all h0 [5] = Done h2
     \<and> hist_Import (hist_Export h1) = Some (Done h1) \<and> hist_Equals h1 h2 = Done (h1 = h2)"
proof -
  obtain h0 h1 h2 where h: "hist_New 1 4096 3 = Some (Done h0)" "record_all h0 [7, 3] = Done h1" "record_all h0 [5] = Done h2"
    using recorded_example by blast
  show ?thesis using snapshot_roundtrip[OF h(1) hist_args_example h(2,3)] h by (auto simp: maxInt_def simp del: record_all.simps win_run.simps)
qed

theorem corrected_recording_witness:
  "\<exists>h0 h h'. hist_New 1 4096 3 = Some (Done h0) \<and> record_all h0 [7, 3] = Done h
     \<and> RecordCorrectedValue h 100 30 = Some (Done (None, h')) \<and> record_all h [100, 70, 40] = Done h'"
proof -
  obtain h0 h where h: "hist_New 1 4096 3 = Some (Done h0)" "record_all h0 [7, 3] = Done h"
    using recorded_example by blast
  have "[1..<nat (100 div 30)] = [1, 2]" by (simp add: upt_conv_Cons numeral_eq_Suc)
  then have m: "map (\<lambda>k. 100 - int k * 30) [1..<nat (100 div 30)] = [70, 40]" by simp
  show ?thesis using corrected_recording[OF h(1) hist_args_example h(2), of 100 30] h unfolding m by (auto simp: maxInt_def simp del: record_all.simps win_run.simps)
qed

theorem highest_value_rejected_witness:
  "\<exists>h. hist_New 1 (2 ^ 12) 3 = Some (Done h) \<and> RecordValue h (2 ^ 12) = Done (Some (2 ^ 12), h)"
proof -
  have a: "hist_args 1 (2 ^ 12) 3" by (simp add: hist_args_def)
  obtain h where h: "hist_New 1 (2 ^ 12) 3 = Some (Done h)" using hist_New_spec[OF a] by blast
  have "bitlen 1 = 1" by (simp add: compute_bitlen)
  then show ?thesis using highest_value_rejected[OF h a] h by (simp add: hist_unit_def hist_mag_def)
qed

theorem window_merges_last_sections_witness:
  "\<exists>h0 w0 w w'. hist_New 1 4096 3 = Some (Done h0) \<and> NewWindowed 2 1 4096 3 = Some (Done w0)
     \<and> win_run w0 [WRecord 9, WRotate, WRecord 7, WRotate, WRecord 5] = Done w \<and> win_Merge w = Some (Done w')
     \<and> record_all h0 [5, 7] = Done (win_m w')"
proof -
  obtain h0 where h0: "hist_New 1 4096 3 = Some (Done h0)" using hist_New_spec[OF hist_args_example] by blast
  show ?thesis
    using window_merges_last_sections[OF h0 hist_args_example, of 2 "[WRecord 9, WRotate, WRecord 7, WRotate, WRecord 5]"] h0
    by (auto simp: maxInt_def simp del: record_all.simps win_run.simps)
qed

end
