(* ===== verification/DtOrdered.thy ===== *)
theory DtOrdered
  imports DtListProps IrtLaws "HOL-Library.Mapping"
begin

text \<open>
  The containers of \<open>src/dt\<close> that are built on a Go map: \<open>Set\<close> (\<open>set.go\<close>), \<open>OrderedSet\<close>
  (\<open>ordered_set.go\<close>) and \<open>OrderedMap\<close> (\<open>ordered_map.go\<close>).  The ordered ones keep, beside the map from keys
  to element pointers, a \<open>dt.List\<close> with the elements in the order of their insertion; the model runs them
  on the store of the list.  The lazy initialisation by \<open>sync.Once\<close> is a flag.

  The contract of a set, whatever its representation, is the locale \<open>go_set\<close>.
\<close>

subsection \<open>\<open>Set\<close>\<close>

record 'k GoSet =
  set_once :: bool
  set_hash :: "('k, unit) mapping"

definition new_GoSet :: "'k GoSet" where
  "new_GoSet = \<lparr>set_once = False, set_hash = Mapping.empty\<rparr>"

definition GoSet_init :: "'k GoSet \<Rightarrow> 'k GoSet" where
  "GoSet_init s = (if set_once s then s else \<lparr>set_once = True, set_hash = Mapping.empty\<rparr>)"

definition hash_Check :: "'k \<Rightarrow> ('k, 'v) mapping \<Rightarrow> bool" where
  "hash_Check k m \<longleftrightarrow> Mapping.lookup m k \<noteq> None"

definition hash_Set :: "'k \<Rightarrow> 'v \<Rightarrow> ('k, 'v) mapping \<Rightarrow> bool \<times> ('k, 'v) mapping" where
  "hash_Set k v m = (hash_Check k m, Mapping.update k v m)"

definition hash_Ensure :: "'k \<Rightarrow> ('k, unit) mapping \<Rightarrow> bool \<times> ('k, unit) mapping" where
  "hash_Ensure k m = hash_Set k () m"

definition hash_Len :: "('k, 'v) mapping \<Rightarrow> int" where
  "hash_Len m = int (Mapping.size m)"

definition GoSet_Len :: "'k GoSet \<Rightarrow> int \<times> 'k GoSet" where
  "GoSet_Len s = (let s1 = GoSet_init s in (hash_Len (set_hash s1), s1))"

definition GoSet_Check :: "'k \<Rightarrow> 'k GoSet \<Rightarrow> bool \<times> 'k GoSet" where
  "GoSet_Check k s = (let s1 = GoSet_init s in (hash_Check k (set_hash s1), s1))"

definition GoSet_Delete :: "'k \<Rightarrow> 'k GoSet \<Rightarrow> bool \<times> 'k GoSet" where
  "GoSet_Delete k s =
     (let s1 = GoSet_init s; existed = hash_Check k (set_hash s1) in
      (existed, if existed then s1\<lparr>set_hash := Mapping.delete k (set_hash s1)\<rparr> else s1))"

definition GoSet_Add :: "'k \<Rightarrow> 'k GoSet \<Rightarrow> bool \<times> 'k GoSet" where
  "GoSet_Add k s =
     (let s1 = GoSet_init s; existed = hash_Check k (set_hash s1) in
      (existed, if \<not> existed then s1\<lparr>set_hash := snd (hash_Ensure k (set_hash s1))\<rparr> else s1))"

definition GoSet_add :: "'k \<Rightarrow> 'k GoSet \<Rightarrow> 'k GoSet" where
  "GoSet_add k s = snd (GoSet_Add k s)"

definition GoSet_Extend :: "('k, 'k GoSet) seq \<Rightarrow> 'k GoSet \<Rightarrow> 'k GoSet option" where
  "GoSet_Extend q s = q (\<lambda>k s. Some (True, GoSet_add k s)) s"

definition MakeSet :: "('k, 'k GoSet) seq \<Rightarrow> 'k GoSet option" where
  "MakeSet q = GoSet_Extend q new_GoSet"

text \<open>\<open>maps.Equal\<close>: the same size, and every key of the first with the same value in the second.\<close>

definition GoSet_Equal :: "'k GoSet \<Rightarrow> 'k GoSet \<Rightarrow> bool" where
  "GoSet_Equal s other =
     (let (n, s1) = GoSet_Len s; (m, o1) = GoSet_Len other in
      if n \<noteq> m then False
      else Mapping.size (set_hash s1) = Mapping.size (set_hash o1)
           \<and> (\<forall>k \<in> Mapping.keys (set_hash s1). Mapping.lookup (set_hash o1) k = Mapping.lookup (set_hash s1) k))"

text \<open>A Go map is traversed in an unspecified order: \<open>order\<close> lists the keys.\<close>

definition GoSet_Iterator :: "('k set \<Rightarrow> 'k list) \<Rightarrow> 'k GoSet \<Rightarrow> ('k, 's) seq" where
  "GoSet_Iterator order s = Slice (order (Mapping.keys (set_hash (GoSet_init s))))"

subsection \<open>\<open>OrderedSet\<close>\<close>

record 'k OrderedSet =
  os_once :: bool
  os_hash :: "('k, nat) mapping"
  os_list :: nat

definition new_OrderedSet :: "'k OrderedSet" where
  "new_OrderedSet = \<lparr>os_once = False, os_hash = Mapping.empty, os_list = 0\<rparr>"

type_synonym 'k os_world = "'k OrderedSet \<times> 'k lstore"

definition OrderedSet_init :: "'k os_world \<Rightarrow> 'k os_world" where
  "OrderedSet_init w = (case w of (os, s) \<Rightarrow>
     if os_once os then (os, s)
     else (case new_list s of (l, s1) \<Rightarrow> (\<lparr>os_once = True, os_hash = Mapping.empty, os_list = l\<rparr>, s1)))"

definition OrderedSet_Len :: "'k os_world \<Rightarrow> int \<times> 'k os_world" where
  "OrderedSet_Len w = (let w1 = OrderedSet_init w in (hash_Len (os_hash (fst w1)), w1))"

definition OrderedSet_Check :: "'k \<Rightarrow> 'k os_world \<Rightarrow> bool \<times> 'k os_world" where
  "OrderedSet_Check k w = (let w1 = OrderedSet_init w in (hash_Check k (os_hash (fst w1)), w1))"

definition OrderedSet_Delete :: "'k \<Rightarrow> 'k os_world \<Rightarrow> (bool \<times> 'k os_world) option" where
  "OrderedSet_Delete k w =
     (case OrderedSet_init w of (os, s) \<Rightarrow>
        case Mapping.lookup (os_hash os) k of
          None \<Rightarrow> Some (False, (os\<lparr>os_hash := Mapping.delete k (os_hash os)\<rparr>, s))
        | Some e \<Rightarrow> do { (_, s1) \<leftarrow> Element_Remove e s;
                         Some (True, (os\<lparr>os_hash := Mapping.delete k (os_hash os)\<rparr>, s1)) })"

definition OrderedSet_Add :: "'k \<Rightarrow> 'k::zero os_world \<Rightarrow> (bool \<times> 'k os_world) option" where
  "OrderedSet_Add k w =
     (case OrderedSet_init w of (os, s) \<Rightarrow>
        if hash_Check k (os_hash os) then Some (True, (os, s))
        else (case NewElement k s of (elem, s1) \<Rightarrow>
               do { (b, s2) \<leftarrow> List_Back (os_list os) s1; bk \<leftarrow> b;
                    (_, s3) \<leftarrow> Element_Append bk (Some elem) s2;
                    Some (False, (os\<lparr>os_hash := snd (hash_Set k elem (os_hash os))\<rparr>, s3)) }))"

definition OrderedSet_Extend :: "('k, 'k::zero os_world) seq \<Rightarrow> 'k os_world \<Rightarrow> 'k os_world option" where
  "OrderedSet_Extend q w = q (\<lambda>k w. do { (_, w1) \<leftarrow> OrderedSet_Add k w; Some (True, w1) }) w"

definition OrderedSet_SortQuick :: "('k \<Rightarrow> 'k \<Rightarrow> int) \<Rightarrow> 'k::zero os_world \<Rightarrow> 'k os_world option" where
  "OrderedSet_SortQuick cf w =
     (case OrderedSet_init w of (os, s) \<Rightarrow> do { s1 \<leftarrow> SortQuick cf (os_list os) s; Some (os, s1) })"

definition OrderedSet_SortMerge :: "('k \<Rightarrow> 'k \<Rightarrow> int) \<Rightarrow> 'k::zero os_world \<Rightarrow> 'k os_world option" where
  "OrderedSet_SortMerge cf w =
     (case OrderedSet_init w of (os, s) \<Rightarrow> do { s1 \<leftarrow> SortMerge cf (os_list os) s; Some (os, s1) })"

text \<open>The iterator is made after the initialisation; it runs on the store beside the consumer's state.\<close>

definition OrderedSet_Iterator :: "'k os_world \<Rightarrow> ('k::zero, 'k lstore \<times> 'c) seq \<times> 'k os_world" where
  "OrderedSet_Iterator w = (let w1 = OrderedSet_init w in (IteratorFront (os_list (fst w1)), w1))"

subsection \<open>\<open>OrderedMap\<close>\<close>

instantiation KV :: (zero, zero) zero
begin
definition zero_KV :: "('a, 'b) KV" where "zero_KV = KV 0 0"
instance ..
end

record 'k OrderedMap =
  om_once :: bool
  om_hash :: "('k, nat) mapping"
  om_list :: nat

definition new_OrderedMap :: "'k OrderedMap" where
  "new_OrderedMap = \<lparr>om_once = False, om_hash = Mapping.empty, om_list = 0\<rparr>"

type_synonym ('k, 'v) om_world = "'k OrderedMap \<times> ('k, 'v) KV lstore"

definition OrderedMap_init :: "('k, 'v) om_world \<Rightarrow> ('k, 'v) om_world" where
  "OrderedMap_init w = (case w of (om, s) \<Rightarrow>
     if om_once om then (om, s)
     else (case new_list s of (l, s1) \<Rightarrow> (\<lparr>om_once = True, om_hash = Mapping.empty, om_list = l\<rparr>, s1)))"

text \<open>
  Every operation runs between \<open>m.lock()\<close>, which also initialises, and the deferred unlock; the model's
  operations are such sections.
\<close>

definition OrderedMap_Len :: "('k, 'v) om_world \<Rightarrow> int \<times> ('k, 'v) om_world" where
  "OrderedMap_Len w = (let w1 = OrderedMap_init w in (hash_Len (om_hash (fst w1)), w1))"

definition OrderedMap_Check :: "'k \<Rightarrow> ('k, 'v) om_world \<Rightarrow> bool \<times> ('k, 'v) om_world" where
  "OrderedMap_Check k w = (let w1 = OrderedMap_init w in (hash_Check k (om_hash (fst w1)), w1))"

definition OrderedMap_Load :: "'k \<Rightarrow> ('k::zero, 'v::zero) om_world \<Rightarrow> ('v \<times> bool) \<times> ('k, 'v) om_world" where
  "OrderedMap_Load k w =
     (case OrderedMap_init w of (om, s) \<Rightarrow>
        case Mapping.lookup (om_hash om) k of
          Some e \<Rightarrow> ((Value (Element_Value (Some e) s), True), (om, s))
        | None \<Rightarrow> ((0, False), (om, s)))"

definition OrderedMap_Get :: "'k \<Rightarrow> ('k::zero, 'v::zero) om_world \<Rightarrow> 'v \<times> ('k, 'v) om_world" where
  "OrderedMap_Get k w = (case OrderedMap_Load k w of ((v, _), w1) \<Rightarrow> (v, w1))"

definition OrderedMap_Delete :: "'k \<Rightarrow> ('k, 'v) om_world \<Rightarrow> ('k, 'v) om_world option" where
  "OrderedMap_Delete k w =
     (case OrderedMap_init w of (om, s) \<Rightarrow>
        case Mapping.lookup (om_hash om) k of
          None \<Rightarrow> Some (om, s)
        | Some e \<Rightarrow> do { (_, s1) \<leftarrow> Element_Remove e s; Some (om\<lparr>om_hash := Mapping.delete k (om_hash om)\<rparr>, s1) })"

definition OrderedMap_innerSet :: "'k \<Rightarrow> 'v \<Rightarrow> ('k::zero, 'v::zero) om_world \<Rightarrow> (bool \<times> ('k, 'v) om_world) option" where
  "OrderedMap_innerSet k v w =
     (case w of (om, s) \<Rightarrow>
        case Mapping.lookup (om_hash om) k of
          None \<Rightarrow>
            (case NewElement (MakeKV k v) s of (elem, s1) \<Rightarrow>
               do { (b, s2) \<leftarrow> List_Back (om_list om) s1; bk \<leftarrow> b;
                    (_, s3) \<leftarrow> Element_Append bk (Some elem) s2;
                    Some (False, (om\<lparr>om_hash := snd (hash_Set k elem (om_hash om))\<rparr>, s3)) })
        | Some e \<Rightarrow> Some (True, (om, snd (Element_Set (Some e) (MakeKV k v) s))))"

definition OrderedMap_Set :: "'k \<Rightarrow> 'v \<Rightarrow> ('k::zero, 'v::zero) om_world \<Rightarrow> (bool \<times> ('k, 'v) om_world) option" where
  "OrderedMap_Set k v w = OrderedMap_innerSet k v (OrderedMap_init w)"

definition OrderedMap_Ensure :: "'k \<Rightarrow> ('k::zero, 'v::zero) om_world \<Rightarrow> (bool \<times> ('k, 'v) om_world) option" where
  "OrderedMap_Ensure k w =
     (let w1 = OrderedMap_init w in
      if hash_Check k (om_hash (fst w1)) then Some (True, w1) else OrderedMap_innerSet k 0 w1)"

definition OrderedMap_Store :: "'k \<Rightarrow> 'v \<Rightarrow> ('k::zero, 'v::zero) om_world \<Rightarrow> ('k, 'v) om_world option" where
  "OrderedMap_Store k v w = do { (_, w1) \<leftarrow> OrderedMap_Set k v w; Some w1 }"

definition OrderedMap_Extend :: "('k \<times> 'v, ('k::zero, 'v::zero) om_world) seq \<Rightarrow> ('k, 'v) om_world \<Rightarrow> ('k, 'v) om_world option" where
  "OrderedMap_Extend q w = q (\<lambda>(k, v) w. do { w1 \<leftarrow> OrderedMap_Store k v w; Some (True, w1) }) w"

text \<open>
  The iterators run on the store, the map and the consumer's state: the check sees the deletions made
  meanwhile.  The pull adapter that takes the mutex around every step is left out.
\<close>

definition OrderedMap_checkForElem :: "(('k, 'v) KV, bool, ('k, 'v) KV lstore \<times> 'k OrderedMap \<times> 'c) op" where
  "OrderedMap_checkForElem e sc = (case sc of (s, om, c) \<Rightarrow> Some (hash_Check (Key e) (om_hash om), (s, om, c)))"

definition OrderedMap_Iterator :: "nat \<Rightarrow> ('k::zero \<times> 'v::zero, ('k, 'v) KV lstore \<times> 'k OrderedMap \<times> 'c) seq" where
  "OrderedMap_Iterator l = KVsplit (Keep (IteratorFront l) OrderedMap_checkForElem)"

definition OrderedMap_elems :: "nat \<Rightarrow> (('k::zero, 'v::zero) KV, ('k, 'v) KV lstore \<times> 'k OrderedMap \<times> 'c) seq" where
  "OrderedMap_elems l = IteratorFront l"

definition OrderedMap_Keys :: "nat \<Rightarrow> ('k::zero, ('k, 'v::zero) KV lstore \<times> 'k OrderedMap \<times> 'c) seq" where
  "OrderedMap_Keys l = First (KVsplit (OrderedMap_elems l))"

definition OrderedMap_Values :: "nat \<Rightarrow> ('v::zero, ('k::zero, 'v) KV lstore \<times> 'k OrderedMap \<times> 'c) seq" where
  "OrderedMap_Values l = Second (OrderedMap_Iterator l)"

end
