(* ===== verification/DtOrderedProps.thy ===== *)
theory DtOrderedProps
  imports DtOrdered "HOL-Library.AList_Mapping" "HOL-Library.AList"
begin

text \<open>
  The sets keep the contract of a set and the ordered ones the order of insertion; the ordered map is an
  association list with distinct keys.  \<open>indexed\<close> is the invariant both ordered containers share.
\<close>

subsection \<open>A hash that finds the elements of a list by key\<close>

definition indexed :: "('k, nat) mapping \<Rightarrow> 'k list \<Rightarrow> nat list \<Rightarrow> bool" where
  "indexed m ks as \<longleftrightarrow> length ks = length as \<and> distinct ks \<and> Mapping.lookup m = map_of (zip ks as)"

lemma indexed_empty [simp]: "indexed Mapping.empty [] []"
  by (simp add: indexed_def fun_eq_iff)

lemma indexed_None: "indexed m ks as \<Longrightarrow> Mapping.lookup m k = None \<longleftrightarrow> k \<notin> set ks"
  by (simp add: indexed_def map_of_zip_is_None)

lemma indexed_Check: "indexed m ks as \<Longrightarrow> hash_Check k m \<longleftrightarrow> k \<in> set ks"
  using indexed_None[of m ks as k] by (auto simp: hash_Check_def)

lemma indexed_Len: "indexed m ks as \<Longrightarrow> hash_Len m = int (length ks)"
proof -
  assume i: "indexed m ks as"
  have "x \<in> Mapping.keys m \<longleftrightarrow> x \<in> set ks" for x using indexed_None[OF i, of x] by (cases "Mapping.lookup m x") (simp_all add: keys_dom_lookup dom_def)
  then have "Mapping.keys m = set ks" by blast
  then show ?thesis using i by (simp add: hash_Len_def Mapping.size_def indexed_def distinct_card)
qed

lemma map_of_zip_append1:
  "length ks = length as \<Longrightarrow> k \<notin> set ks \<Longrightarrow> map_of (zip (ks @ [k]) (as @ [e])) = (map_of (zip ks as))(k \<mapsto> e)"
  by (induction ks as rule: list_induct2) auto

lemma indexed_add:
  assumes "indexed m ks as" "k \<notin> set ks" shows "indexed (Mapping.update k e m) (ks @ [k]) (as @ [e])"
proof -
  have "Mapping.lookup (Mapping.update k e m) = (Mapping.lookup m)(k \<mapsto> e)" by (auto simp: fun_eq_iff lookup_update')
  moreover have "map_of (zip (ks @ [k]) (as @ [e])) = (map_of (zip ks as))(k \<mapsto> e)"
    using assms by (intro map_of_zip_append1) (simp_all add: indexed_def)
  ultimately show ?thesis using assms unfolding indexed_def by simp
qed

lemma indexed_found:
  assumes "indexed m ks as" "Mapping.lookup m k = Some e"
  obtains ks1 ks2 as1 as2 where "ks = ks1 @ k # ks2" "as = as1 @ e # as2" "length ks1 = length as1" "length ks2 = length as2"
proof -
  have "map_of (zip ks as) k = Some e" using assms by (simp add: indexed_def)
  then have "(k, e) \<in> set (zip ks as)" by (rule map_of_SomeD)
  then obtain i where i: "i < length ks" "i < length as" "ks ! i = k" "as ! i = e" unfolding set_zip by fastforce
  have "ks = take i ks @ k # drop (Suc i) ks" "as = take i as @ e # drop (Suc i) as"
    using id_take_nth_drop[OF i(1), unfolded i(3)] id_take_nth_drop[OF i(2), unfolded i(4)] by blast+
  then show thesis by (rule that) (use assms(1) i in \<open>simp_all add: indexed_def\<close>)
qed

lemma map_of_zip_append2:
  "length ks1 = length as1 \<Longrightarrow> map_of (zip (ks1 @ ks2) (as1 @ as2)) = map_of (zip ks2 as2) ++ map_of (zip ks1 as1)"
  by simp

lemma indexed_delete:
  assumes "indexed m (ks1 @ k # ks2) (as1 @ e # as2)" "length ks1 = length as1"
  shows "indexed (Mapping.delete k m) (ks1 @ ks2) (as1 @ as2)"
proof -
  have l: "length ks2 = length as2" "k \<notin> set ks1" "k \<notin> set ks2" using assms by (simp_all add: indexed_def)
  have n: "map_of (zip ks1 as1) k = None" "map_of (zip ks2 as2) k = None"
    using l assms(2) map_of_zip_is_None[of ks1 as1 k] map_of_zip_is_None[of ks2 as2 k] by simp_all
  have m: "Mapping.lookup m = (map_of (zip ks2 as2))(k \<mapsto> e) ++ map_of (zip ks1 as1)"
    using assms by (simp add: indexed_def)
  have "Mapping.lookup (Mapping.delete k m) k' = map_of (zip (ks1 @ ks2) (as1 @ as2)) k'" for k'
    unfolding map_of_zip_append2[OF assms(2)]
    using n by (cases "k' = k") (simp_all add: m map_add_def lookup_delete lookup_delete_neq split: option.split)
  then show ?thesis using assms by (simp add: indexed_def fun_eq_iff)
qed

subsection \<open>The contract of a set\<close>

datatype 'k set_act = SAdd 'k | SDelete 'k | SCheck 'k | SLen

datatype set_res = Existed bool | SSize int

fun set_do :: "('k \<Rightarrow> 'st \<Rightarrow> (bool \<times> 'st) option) \<Rightarrow> ('k \<Rightarrow> 'st \<Rightarrow> (bool \<times> 'st) option) \<Rightarrow> ('k \<Rightarrow> 'st \<Rightarrow> bool \<times> 'st) \<Rightarrow>
    ('st \<Rightarrow> int \<times> 'st) \<Rightarrow> 'k set_act \<Rightarrow> 'st \<Rightarrow> (set_res \<times> 'st) option" where
  "set_do add del chk len (SAdd k) s = do { (b, s1) \<leftarrow> add k s; Some (Existed b, s1) }"
| "set_do add del chk len (SDelete k) s = do { (b, s1) \<leftarrow> del k s; Some (Existed b, s1) }"
| "set_do add del chk len (SCheck k) s = (case chk k s of (b, s1) \<Rightarrow> Some (Existed b, s1))"
| "set_do add del chk len SLen s = (case len s of (n, s1) \<Rightarrow> Some (SSize n, s1))"

fun set_run :: "('k set_act \<Rightarrow> 'st \<Rightarrow> (set_res \<times> 'st) option) \<Rightarrow> 'k set_act list \<Rightarrow> 'st \<Rightarrow> (set_res list \<times> 'st) option" where
  "set_run f [] s = Some ([], s)"
| "set_run f (a # as) s = do { (r, s1) \<leftarrow> f a s; (rs, s2) \<leftarrow> set_run f as s1; Some (r # rs, s2) }"

fun aset_do :: "'k set_act \<Rightarrow> 'k set \<Rightarrow> set_res \<times> 'k set" where
  "aset_do (SAdd k) A = (Existed (k \<in> A), insert k A)"
| "aset_do (SDelete k) A = (Existed (k \<in> A), A - {k})"
| "aset_do (SCheck k) A = (Existed (k \<in> A), A)"
| "aset_do SLen A = (SSize (int (card A)), A)"

fun aset_run :: "'k set_act list \<Rightarrow> 'k set \<Rightarrow> set_res list \<times> 'k set" where
  "aset_run [] A = ([], A)"
| "aset_run (a # as) A = (case aset_do a A of (r, B) \<Rightarrow> case aset_run as B of (rs, C) \<Rightarrow> (r # rs, C))"

locale go_set =
  fixes add del :: "'k \<Rightarrow> 'st \<Rightarrow> (bool \<times> 'st) option" and chk :: "'k \<Rightarrow> 'st \<Rightarrow> bool \<times> 'st"
    and len :: "'st \<Rightarrow> int \<times> 'st" and holds :: "'st \<Rightarrow> 'k set \<Rightarrow> bool"
  assumes add_law: "holds s A \<Longrightarrow> \<exists>s'. add k s = Some (k \<in> A, s') \<and> holds s' (insert k A)"
    and del_law: "holds s A \<Longrightarrow> \<exists>s'. del k s = Some (k \<in> A, s') \<and> holds s' (A - {k})"
    and chk_law: "holds s A \<Longrightarrow> \<exists>s'. chk k s = (k \<in> A, s') \<and> holds s' A"
    and len_law: "holds s A \<Longrightarrow> \<exists>s'. len s = (int (card A), s') \<and> holds s' A"
begin

lemma do_law: "holds s A \<Longrightarrow> \<exists>s'. set_do add del chk len a s = Some (fst (aset_do a A), s') \<and> holds s' (snd (aset_do a A))"
proof (cases a)
  case (SAdd k)
  assume "holds s A"
  with SAdd show ?thesis using add_law[of s A k] by auto
next
  case (SDelete k)
  assume "holds s A"
  with SDelete show ?thesis using del_law[of s A k] by auto
next
  case (SCheck k)
  assume "holds s A"
  with SCheck show ?thesis using chk_law[of s A k] by auto
next
  case SLen
  assume "holds s A"
  with SLen show ?thesis using len_law[of s A] by auto
qed

lemma run_law:
  "holds s A \<Longrightarrow> \<exists>s'. set_run (set_do add del chk len) as s = Some (fst (aset_run as A), s') \<and> holds s' (snd (aset_run as A))"
proof (induction as arbitrary: s A)
  case (Cons a as)
  obtain s1 where s1: "set_do add del chk len a s = Some (fst (aset_do a A), s1)" "holds s1 (snd (aset_do a A))"
    using do_law[OF Cons.prems] by blast
  then show ?case using Cons.IH[OF s1(2)] by (auto simp: case_prod_unfold)
qed simp

end

subsection \<open>\<open>Set\<close> keeps it\<close>

definition gs_holds :: "'k GoSet \<Rightarrow> 'k set \<Rightarrow> bool" where
  "gs_holds s A \<longleftrightarrow> finite A \<and> (set_once s \<longrightarrow> Mapping.keys (set_hash s) = A) \<and> (\<not> set_once s \<longrightarrow> A = {})"

lemma gs_init: "gs_holds s A \<Longrightarrow> set_once (GoSet_init s) \<and> Mapping.keys (set_hash (GoSet_init s)) = A \<and> finite A"
  by (auto simp: gs_holds_def GoSet_init_def)

lemma hash_Check_keys: "hash_Check k m \<longleftrightarrow> k \<in> Mapping.keys m"
  by (simp add: hash_Check_def keys_dom_lookup dom_def)

interpretation us: go_set "\<lambda>k s. Some (GoSet_Add k s)" "\<lambda>k s. Some (GoSet_Delete k s)" GoSet_Check GoSet_Len gs_holds
proof
  fix s :: "'a GoSet" and A k assume h: "gs_holds s A"
  note i = gs_init[OF h]
  show "\<exists>s'. Some (GoSet_Add k s) = Some (k \<in> A, s') \<and> gs_holds s' (insert k A)"
    using i by (auto simp: GoSet_Add_def Let_def hash_Check_keys gs_holds_def hash_Ensure_def hash_Set_def insert_absorb)
  show "\<exists>s'. Some (GoSet_Delete k s) = Some (k \<in> A, s') \<and> gs_holds s' (A - {k})"
    using i by (auto simp: GoSet_Delete_def Let_def hash_Check_keys gs_holds_def)
  show "\<exists>s'. GoSet_Check k s = (k \<in> A, s') \<and> gs_holds s' A"
    using i by (auto simp: GoSet_Check_def Let_def hash_Check_keys gs_holds_def)
  show "\<exists>s'. GoSet_Len s = (int (card A), s') \<and> gs_holds s' A"
    using i by (auto simp: GoSet_Len_def Let_def hash_Len_def Mapping.size_def gs_holds_def)
qed

subsection \<open>\<open>OrderedSet\<close> keeps it, and the order of insertion\<close>

definition os_rep :: "'k os_world \<Rightarrow> 'k list \<Rightarrow> bool" where
  "os_rep w ks \<longleftrightarrow> (case w of (os, s) \<Rightarrow>
     if os_once os then \<exists>as. l_rep s (os_list os) as \<and> l_vals s as = ks \<and> indexed (os_hash os) ks as else ks = [])"

lemma new_list_rep:
  assumes "new_list s = (l, s1)" shows "l_rep s1 l []"
  using assms by (auto simp: new_list_def l_rep_def)

lemma os_init:
  assumes "os_rep w ks"
  obtains os s as where "OrderedSet_init w = (os, s)" "os_once os" "l_rep s (os_list os) as" "l_vals s as = ks" "indexed (os_hash os) ks as"
proof (cases w)
  case (Pair os s)
  show thesis
  proof (cases "os_once os")
    case True
    then show thesis using that assms Pair by (auto simp: os_rep_def OrderedSet_init_def)
  next
    case False
    obtain l s1 where n: "new_list s = (l, s1)" by fastforce
    show thesis by (rule that[of "\<lparr>os_once = True, os_hash = Mapping.empty, os_list = l\<rparr>" s1 "[]"])
      (use False assms Pair n new_list_rep[OF n] in \<open>simp_all add: os_rep_def OrderedSet_init_def l_vals_def\<close>)
  qed
qed

lemma os_repI:
  "os_once os \<Longrightarrow> l_rep s (os_list os) as \<Longrightarrow> l_vals s as = ks \<Longrightarrow> indexed (os_hash os) ks as \<Longrightarrow> os_rep (os, s) ks"
  by (auto simp: os_rep_def)

text \<open>Appending a new element: the step \<open>Add\<close> and \<open>Set\<close> share.\<close>

lemma append_new_step:
  assumes "l_rep s l as"
  shows "\<exists>s1 s2 s3 b. NewElement x s = (els_n s, s1) \<and> List_Back l s1 = Some (Some b, s2)
     \<and> Element_Append b (Some (els_n s)) s2 = Some (els_n s, s3) \<and> l_rep s3 l (as @ [els_n s]) \<and> l_vals s3 (as @ [els_n s]) = l_vals s as @ [x]"
proof -
  obtain v s1 where n: "NewElement x s = (v, s1)" by fastforce
  note w = new_el_step[OF assms n[unfolded NewElement_def]]
  have r1: "l_rep s1 l as" using w(1) by (simp add: lstep_def)
  obtain h m s2 where b: "List_Back l s1 = Some (Some (last (h # as)), s2)" "lists s2 l = \<lparr>l_head = Some h, l_meta = Some m\<rparr>"
      "ring_ok s2 h m as" "lstep s1 s2 l as as" "keeps s1 s2 {} {}" using Back_step[OF r1] by blast
  have r2: "l_rep s2 l (as @ [])" using b(4) by (simp add: lstep_def)
  have el: "els s2 v = els s1 v" "v < els_n s2" using b(5) w(4) by (auto simp: keeps_def)
  have v: "v \<in> loose s2" "el_ok (els s2 v)" "el_item (els s2 v) = x" using el(1) w(3) by (simp_all add: loose_def)
  obtain s3 where a: "Element_Append (last (h # as)) (Some v) s2 = Some (v, s3)" "lstep s2 s3 l (as @ []) (as @ v # [])"
    using append_step[OF r2 b(2) refl el(2) v(1,2)] by auto
  have k: "keeps s2 s3 (footE s2 l as \<union> loose s2) (footM s2 l)" "l_rep s3 l (as @ [v])" using a(2) by (simp_all add: lstep_def)
  have low: "e < els_n s" if "e \<in> set as" for e
    using assms that by (auto simp: l_rep_def ring_ok_def)
  have items: "el_item (els s3 e) = el_item (els s e)" if "e < els_n s" for e
    using that k(1) b(5) w(7,8) by (auto simp: keeps_def)
  have "el_item (els s3 v) = x" using k(1) el(2) v(3) by (auto simp: keeps_def)
  then have "l_vals s3 (as @ [v]) = l_vals s as @ [x]" using items low by (auto simp: l_vals_def)
  then show ?thesis using n w(2) b(1) a(1) k(2) by blast
qed

lemma remove_found_step:
  fixes s :: "'a::zero lstore"
  assumes "l_rep s l (xs @ e # ys)"
  shows "\<exists>s1. Element_Remove e s = Some (True, s1) \<and> l_rep s1 l (xs @ ys) \<and> l_vals s1 (xs @ ys) = l_vals s (xs @ ys)"
proof -
  obtain s1 where s1: "Element_Remove e s = Some (True, s1)" "lstep s s1 l (xs @ e # ys) (xs @ ys)"
    using pop_step[OF assms] by blast
  have "a < els_n s" if "a \<in> set (xs @ ys)" for a using assms that by (auto simp: l_rep_def ring_ok_def)
  then have "l_vals s1 (xs @ ys) = l_vals s (xs @ ys)"
    using s1(2) by (intro vals_keep[of s s1 "footE s l (xs @ e # ys) \<union> loose s" "footM s l"]) (auto simp: lstep_def)
  then show ?thesis using s1 by (auto simp: lstep_def)
qed

lemma OrderedSet_Add_rep:
  assumes "os_rep w ks"
  shows "\<exists>w'. OrderedSet_Add k w = Some (k \<in> set ks, w') \<and> os_rep w' (if k \<in> set ks then ks else ks @ [k])"
proof -
  obtain os s as where i: "OrderedSet_init w = (os, s)" "os_once os" "l_rep s (os_list os) as" "l_vals s as = ks" "indexed (os_hash os) ks as"
    by (rule os_init[OF assms])
  show ?thesis
  proof (cases "k \<in> set ks")
    case True
    then show ?thesis using i os_repI[OF i(2-5)] by (simp add: OrderedSet_Add_def indexed_Check)
  next
    case False
    obtain s1 s2 s3 b where a: "NewElement k s = (els_n s, s1)" "List_Back (os_list os) s1 = Some (Some b, s2)"
        "Element_Append b (Some (els_n s)) s2 = Some (els_n s, s3)" "l_rep s3 (os_list os) (as @ [els_n s])"
        "l_vals s3 (as @ [els_n s]) = l_vals s as @ [k]" using append_new_step[OF i(3)] by blast
    have "os_rep (os\<lparr>os_hash := Mapping.update k (els_n s) (os_hash os)\<rparr>, s3) (ks @ [k])"
      by (rule os_repI) (use i a indexed_add[OF i(5) False] in simp_all)
    then show ?thesis using False i a by (simp add: OrderedSet_Add_def indexed_Check hash_Set_def)
  qed
qed

lemma OrderedSet_Delete_rep:
  fixes w :: "'k::zero os_world"
  assumes "os_rep w ks"
  shows "\<exists>w'. OrderedSet_Delete k w = Some (k \<in> set ks, w') \<and> os_rep w' (remove1 k ks)"
proof -
  obtain os s as where i: "OrderedSet_init w = (os, s)" "os_once os" "l_rep s (os_list os) as" "l_vals s as = ks" "indexed (os_hash os) ks as"
    by (rule os_init[OF assms])
  show ?thesis
  proof (cases "Mapping.lookup (os_hash os) k")
    case None
    then have k: "k \<notin> set ks" using indexed_None[OF i(5)] by simp
    have "Mapping.delete k (os_hash os) = os_hash os"
      using None by (intro mapping_eqI) (metis lookup_delete lookup_delete_neq)
    then show ?thesis using None k i os_repI[OF i(2-5)] by (simp add: OrderedSet_Delete_def remove1_idem)
  next
    case (Some e)
    obtain ks1 ks2 as1 as2 where f: "ks = ks1 @ k # ks2" "as = as1 @ e # as2" "length ks1 = length as1" "length ks2 = length as2"
      by (rule indexed_found[OF i(5) Some])
    have d: "k \<notin> set ks1" using i(5) f(1) by (simp add: indexed_def)
    obtain s1 where r: "Element_Remove e s = Some (True, s1)" "l_rep s1 (os_list os) (as1 @ as2)" "l_vals s1 (as1 @ as2) = l_vals s (as1 @ as2)"
      using remove_found_step i(3) f(2) by blast
    have v: "l_vals s (as1 @ as2) = ks1 @ ks2" using i(4) f by (auto simp: l_vals_def append_eq_append_conv)
    have "os_rep (os\<lparr>os_hash := Mapping.delete k (os_hash os)\<rparr>, s1) (ks1 @ ks2)"
      by (rule os_repI) (use i r v indexed_delete[of "os_hash os" ks1 k ks2 as1 e as2] f in simp_all)
    then show ?thesis using Some i r f(1) d by (simp add: OrderedSet_Delete_def remove1_append)
  qed
qed

lemma os_rep_distinct: "os_rep w ks \<Longrightarrow> distinct ks"
  by (auto simp: os_rep_def indexed_def split: prod.splits if_splits)

definition os_holds :: "'k::zero os_world \<Rightarrow> 'k set \<Rightarrow> bool" where
  "os_holds w A \<longleftrightarrow> (\<exists>ks. os_rep w ks \<and> set ks = A)"

lemma OrderedSet_Check_rep: "os_rep w ks \<Longrightarrow> \<exists>w'. OrderedSet_Check k w = (k \<in> set ks, w') \<and> os_rep w' ks"
  by (erule os_init) (auto simp: OrderedSet_Check_def indexed_Check intro: os_repI)

lemma OrderedSet_Len_rep: "os_rep w ks \<Longrightarrow> \<exists>w'. OrderedSet_Len w = (int (length ks), w') \<and> os_rep w' ks"
  by (erule os_init) (auto simp: OrderedSet_Len_def indexed_Len intro: os_repI)

interpretation ods: go_set OrderedSet_Add OrderedSet_Delete OrderedSet_Check OrderedSet_Len os_holds
proof
  fix w :: "'a::zero os_world" and A k assume "os_holds w A"
  then obtain ks where ks: "os_rep w ks" "set ks = A" by (auto simp: os_holds_def)
  have d: "distinct ks" using os_rep_distinct[OF ks(1)] .
  show "\<exists>w'. OrderedSet_Add k w = Some (k \<in> A, w') \<and> os_holds w' (insert k A)"
  proof -
    obtain w' where "OrderedSet_Add k w = Some (k \<in> set ks, w')" "os_rep w' (if k \<in> set ks then ks else ks @ [k])"
      using OrderedSet_Add_rep[OF ks(1)] by blast
    then show ?thesis using ks(2) unfolding os_holds_def
      by (intro exI[of _ w'] conjI exI[of _ "if k \<in> set ks then ks else ks @ [k]"]) auto
  qed
  show "\<exists>w'. OrderedSet_Delete k w = Some (k \<in> A, w') \<and> os_holds w' (A - {k})"
  proof -
    obtain w' where "OrderedSet_Delete k w = Some (k \<in> set ks, w')" "os_rep w' (remove1 k ks)"
      using OrderedSet_Delete_rep[OF ks(1)] by blast
    then show ?thesis using ks(2) d unfolding os_holds_def by (intro exI[of _ w'] conjI exI[of _ "remove1 k ks"]) auto
  qed
  show "\<exists>w'. OrderedSet_Check k w = (k \<in> A, w') \<and> os_holds w' A"
    using OrderedSet_Check_rep[OF ks(1), of k] ks(2) by (auto simp: os_holds_def)
  show "\<exists>w'. OrderedSet_Len w = (int (card A), w') \<and> os_holds w' A"
    using OrderedSet_Len_rep[OF ks(1)] ks(2) d by (auto simp: os_holds_def distinct_card)
qed

text \<open>The order: a new key goes to the end, a key that is present stays where it is.\<close>

fun order_do :: "'k set_act \<Rightarrow> 'k list \<Rightarrow> 'k list" where
  "order_do (SAdd k) ks = (if k \<in> set ks then ks else ks @ [k])"
| "order_do (SDelete k) ks = remove1 k ks"
| "order_do _ ks = ks"

definition os_do :: "'k set_act \<Rightarrow> 'k::zero os_world \<Rightarrow> (set_res \<times> 'k os_world) option" where
  "os_do = set_do OrderedSet_Add OrderedSet_Delete OrderedSet_Check OrderedSet_Len"

lemma os_do_rep:
  assumes "os_rep w ks" shows "\<exists>r w'. os_do a w = Some (r, w') \<and> os_rep w' (order_do a ks)"
proof (cases a)
  case (SAdd k)
  then show ?thesis using OrderedSet_Add_rep[OF assms, of k] by (auto simp: os_do_def)
next
  case (SDelete k)
  then show ?thesis using OrderedSet_Delete_rep[OF assms, of k] by (auto simp: os_do_def)
next
  case (SCheck k)
  then show ?thesis using OrderedSet_Check_rep[OF assms, of k] by (auto simp: os_do_def)
next
  case SLen
  then show ?thesis using OrderedSet_Len_rep[OF assms] by (auto simp: os_do_def)
qed

lemma os_run_rep: "os_rep w ks \<Longrightarrow> \<exists>rs w'. set_run os_do as w = Some (rs, w') \<and> os_rep w' (fold order_do as ks)"
proof (induction as arbitrary: w ks)
  case (Cons a as)
  obtain r w1 where w1: "os_do a w = Some (r, w1)" "os_rep w1 (order_do a ks)" using os_do_rep[OF Cons.prems] by blast
  then show ?case using Cons.IH[OF w1(2)] by auto
qed simp

subsection \<open>Iterating over a list that stays as it is\<close>

text \<open>A consumer that works on its own state beside the store.\<close>

definition beside_store :: "('a, 'c) yield \<Rightarrow> ('a, 's \<times> 'c) yield" where
  "beside_store y v sc = (case sc of (s, c) \<Rightarrow> map_option (\<lambda>(b, c1). (b, (s, c1))) (y v c))"

lemma iter_loop_reads:
  "ring_ok s h m (pre @ post) \<Longrightarrow>
   List_iter_loop elemNext (Some (hd (post @ [h]))) (beside_store y) (s, c)
     = map_option (\<lambda>(_, c1). (s, c1)) (emit (l_vals s post) y c)"
proof (induction post arbitrary: pre c)
  case Nil
  then have "\<not> Element_Ok (Some h) s" using ring_ok_Ok[of s h m pre h] by simp
  then show ?case by (subst List_iter_loop.simps) (simp add: l_vals_def)
next
  case (Cons e post)
  have r: "ring (\<lambda>e. el_next (els s e)) (\<lambda>e. el_prev (els s e)) h (pre @ e # post)" using Cons.prems by (simp add: ring_ok_def)
  have e: "Element_Ok (Some e) s" "el_next (els s e) = Some (hd (post @ [h]))"
    using ring_ok_Ok[OF Cons.prems, of e] r ring_at(1)[OF r] by (auto simp: ring_def)
  have IH: "List_iter_loop elemNext (Some (hd (post @ [h]))) (beside_store y) (s, c)
     = map_option (\<lambda>(_, c1). (s, c1)) (emit (l_vals s post) y c)" for c
    using Cons.IH[of "pre @ [e]"] Cons.prems by simp
  show ?case
    by (subst List_iter_loop.simps)
       (auto simp: e IH beside_store_def elemNext_def Element_Value_def l_vals_def split: Option.bind_splits option.splits)
qed

lemma IteratorFront_reads:
  assumes "l_rep s l as"
  shows "\<exists>s1. IteratorFront l (beside_store y) (s, c) = map_option (\<lambda>(_, c1). (s1, c1)) (emit (l_vals s as) y c)"
proof -
  obtain h m s1 where f: "List_Front l s = Some (Some (hd (as @ [h])), s1)" "ring_ok s1 h m as" "lstep s s1 l as as"
    using Front_step[OF assms] by blast
  have "a < els_n s" if "a \<in> set as" for a using assms that by (auto simp: l_rep_def ring_ok_def)
  then have "l_vals s1 as = l_vals s as"
    using f(3) by (intro vals_keep[of s s1 "footE s l as \<union> loose s" "footM s l"]) (auto simp: lstep_def)
  moreover have "ring_ok s1 h m ([] @ as)" using f(2) by simp
  from iter_loop_reads[OF this] have "List_iter_loop elemNext (Some (hd (as @ [h]))) (beside_store y) (s1, c)
     = map_option (\<lambda>(_, c1). (s1, c1)) (emit (l_vals s1 as) y c)" .
  ultimately show ?thesis using f(1) by (intro exI[of _ s1]) (simp add: IteratorFront_def List_iterator_def)
qed

definition gather :: "('a, 'a list) yield" where
  "gather v acc = Some (True, acc @ [v])"

lemma emit_gather: "emit xs gather acc = Some (True, acc @ xs)"
  by (induction xs arbitrary: acc) (simp_all add: gather_def)

text \<open>What a loop over the iterator of the set sees.\<close>

definition os_seen :: "'k::zero os_world \<Rightarrow> 'k list option" where
  "os_seen w = (case OrderedSet_Iterator w of (q, (_, s)) \<Rightarrow> map_option snd (q (beside_store gather) (s, [])))"

lemma os_seen_rep: "os_rep w ks \<Longrightarrow> os_seen w = Some ks"
proof (erule os_init)
  fix os s as assume i: "OrderedSet_init w = (os, s)" "os_once os" "l_rep s (os_list os) as" "l_vals s as = ks" "indexed (os_hash os) ks as"
  obtain s1 where "IteratorFront (os_list os) (beside_store gather) (s, []) = map_option (\<lambda>(_, c1). (s1, c1)) (emit (l_vals s as) gather [])"
    using IteratorFront_reads[OF i(3), of gather "[]"] by blast
  then show "os_seen w = Some ks" using i by (simp add: os_seen_def OrderedSet_Iterator_def emit_gather)
qed

lemma os_new: "os_rep (new_OrderedSet, s) []"
  by (simp add: os_rep_def new_OrderedSet_def)

text \<open>
  C19: Any sequence of operations on a new \<open>OrderedSet\<close> returns what it returns on a mathematical set, and
  afterwards the iterator yields the keys in the order of their first insertion since their last deletion.
\<close>

theorem OrderedSet_is_ordered_set:
  "\<exists>w'. set_run os_do as (new_OrderedSet, empty_store) = Some (fst (aset_run as {}), w') \<and> os_seen w' = Some (fold order_do as [])"
proof -
  obtain rs w' where r: "set_run os_do as (new_OrderedSet, empty_store) = Some (rs, w')" "os_rep w' (fold order_do as [])"
    using os_run_rep[OF os_new] by blast
  have "os_holds (new_OrderedSet, empty_store) {}" using os_new by (force simp: os_holds_def)
  from ods.run_law[OF this, of as] have "rs = fst (aset_run as {})" using r(1) by (auto simp: os_do_def)
  then show ?thesis using r os_seen_rep by blast
qed

text \<open>
  Any sequence of operations on a new \<open>Set\<close> returns what it returns on a mathematical set, and afterwards
  the keys of its hash are the members of that set.
\<close>

theorem Set_is_set:
  "\<exists>s'. set_run (set_do (\<lambda>k s. Some (GoSet_Add k s)) (\<lambda>k s. Some (GoSet_Delete k s)) GoSet_Check GoSet_Len) as new_GoSet
     = Some (fst (aset_run as {}), s') \<and> Mapping.keys (set_hash (GoSet_init s')) = snd (aset_run as {})"
proof -
  have "gs_holds new_GoSet {}" by (simp add: gs_holds_def new_GoSet_def)
  from us.run_law[OF this, of as] show ?thesis using gs_init by blast
qed

text \<open>
  After \<open>SortMerge\<close> the hash of an \<open>OrderedSet\<close> points to elements that are no longer in the list: a deleted
  key is gone from the hash and from the length, but the iterator still yields it.
\<close>

theorem OrderedSet_SortMerge_ghost:
  "do { (_, w1) \<leftarrow> OrderedSet_Add (1 :: int) (new_OrderedSet, empty_store);
        (_, w2) \<leftarrow> OrderedSet_Add 2 w1;
        w3 \<leftarrow> OrderedSet_SortMerge (\<lambda>a b. a - b) w2;
        (existed, w4) \<leftarrow> OrderedSet_Delete 2 w3;
        Some (existed, fst (OrderedSet_Check 2 w4), fst (OrderedSet_Len w4), os_seen w4) }
   = Some (True, False, 1, Some [1, 2])"
  by code_simp

subsection \<open>\<open>OrderedMap\<close> is an association list\<close>

definition kvs :: "('k \<times> 'v) list \<Rightarrow> ('k, 'v) KV list" where
  "kvs al = map (\<lambda>(k, v). KV k v) al"

definition om_rep :: "('k, 'v) om_world \<Rightarrow> ('k \<times> 'v) list \<Rightarrow> bool" where
  "om_rep w al \<longleftrightarrow> (case w of (om, s) \<Rightarrow>
     if om_once om then \<exists>as. l_rep s (om_list om) as \<and> l_vals s as = kvs al \<and> indexed (om_hash om) (map fst al) as else al = [])"

lemma om_repI:
  "om_once om \<Longrightarrow> l_rep s (om_list om) as \<Longrightarrow> l_vals s as = kvs al \<Longrightarrow> indexed (om_hash om) (map fst al) as \<Longrightarrow> om_rep (om, s) al"
  by (auto simp: om_rep_def)

lemma om_init:
  assumes "om_rep w al"
  obtains om s as where "OrderedMap_init w = (om, s)" "om_once om" "l_rep s (om_list om) as" "l_vals s as = kvs al"
    "indexed (om_hash om) (map fst al) as"
proof (cases w)
  case (Pair om s)
  show thesis
  proof (cases "om_once om")
    case True
    then show thesis using that assms Pair by (auto simp: om_rep_def OrderedMap_init_def)
  next
    case False
    obtain l s1 where n: "new_list s = (l, s1)" by fastforce
    show thesis by (rule that[of "\<lparr>om_once = True, om_hash = Mapping.empty, om_list = l\<rparr>" s1 "[]"])
      (use False assms Pair n new_list_rep[OF n] in \<open>simp_all add: om_rep_def OrderedMap_init_def l_vals_def kvs_def\<close>)
  qed
qed

text \<open>Overwriting the item of an element does not touch the links.\<close>

lemma set_item_step:
  assumes "l_rep s l (xs @ e # ys)"
  shows "\<exists>s1. Element_Set (Some e) v s = (True, s1) \<and> l_rep s1 l (xs @ e # ys)
     \<and> l_vals s1 (xs @ e # ys) = l_vals s xs @ v # l_vals s ys"
proof -
  obtain h m where l: "lists s l = \<lparr>l_head = Some h, l_meta = Some m\<rparr>" "ring_ok s h m (xs @ e # ys)" "l < lists_n s"
    using assms by (auto simp: l_rep_def)
  have d: "distinct (h # xs @ e # ys)" using l(2) by (simp add: ring_ok_def ring_def)
  have st: "Element_settable (Some e) s" using ring_ok_list(3)[OF l(2), of e] d by (auto simp: Element_settable_def)
  define s1 where "s1 = upd_el e (\<lambda>x. x\<lparr>el_ok := True, el_item := v\<rparr>) s"
  have f: "el_next (els s1 a) = el_next (els s a)" "el_prev (els s1 a) = el_prev (els s a)" "el_list (els s1 a) = el_list (els s a)"
    "el_ok (els s1 a) = (if a = e then True else el_ok (els s a))" "el_item (els s1 a) = (if a = e then v else el_item (els s a))"
    "lists s1 = lists s" "lists_n s1 = lists_n s" "metas s1 = metas s" "metas_n s1 = metas_n s" "els_n s1 = els_n s" for a
    by (simp_all add: s1_def upd_el_def)
  have "ring_ok s1 h m (xs @ e # ys)" using l(2) d unfolding ring_ok_def f by auto
  then have "l_rep s1 l (xs @ e # ys)" using l by (intro l_repI) (simp_all add: f)
  moreover have "l_vals s1 (xs @ e # ys) = l_vals s xs @ v # l_vals s ys" using d by (auto simp: l_vals_def f)
  ultimately show ?thesis using st by (intro exI[of _ s1]) (simp add: Element_Set_def s1_def)
qed

lemma map_Cons_split:
  "map f zs = us @ u # vs \<Longrightarrow> \<exists>xs y ys. zs = xs @ y # ys \<and> map f xs = us \<and> f y = u \<and> map f ys = vs"
  by (simp add: map_eq_append_conv map_eq_Cons_conv) blast

lemma om_found:
  assumes "indexed m (map fst al) as" "Mapping.lookup m k = Some e" "l_vals s as = kvs al"
  obtains al1 v al2 as1 as2 where "al = al1 @ (k, v) # al2" "as = as1 @ e # as2" "length al1 = length as1"
    "k \<notin> fst ` set al1" "k \<notin> fst ` set al2" "l_vals s as1 = kvs al1" "el_item (els s e) = KV k v" "l_vals s as2 = kvs al2"
proof -
  obtain ks1 ks2 as1 as2 where f: "map fst al = ks1 @ k # ks2" "as = as1 @ e # as2" "length ks1 = length as1" "length ks2 = length as2"
    by (rule indexed_found[OF assms(1,2)])
  obtain al1 p al2 where a: "al = al1 @ p # al2" "map fst al1 = ks1" "fst p = k" "map fst al2 = ks2"
    using map_Cons_split[OF f(1)] by blast
  have len: "length al1 = length as1" using a(2) f(3) by (metis length_map)
  have d: "distinct (ks1 @ k # ks2)" using assms(1) f(1) by (simp add: indexed_def)
  have "l_vals s as1 @ el_item (els s e) # l_vals s as2 = kvs al1 @ KV k (snd p) # kvs al2"
    using assms(3) a(3) unfolding a(1) f(2) by (cases p) (auto simp: l_vals_def kvs_def)
  then have "l_vals s as1 = kvs al1" "el_item (els s e) = KV k (snd p)" "l_vals s as2 = kvs al2"
    using len by (auto simp: append_eq_append_conv l_vals_def kvs_def)
  then show thesis using that[of al1 "snd p" al2 as1 as2] a f(2) len d by (cases p) (auto simp: image_iff)
qed

lemma OrderedMap_innerSet_rep:
  assumes "om_once om" "l_rep s (om_list om) as" "l_vals s as = kvs al" "indexed (om_hash om) (map fst al) as"
  shows "\<exists>w'. OrderedMap_innerSet k v (om, s) = Some (k \<in> fst ` set al, w') \<and> om_rep w' (AList.update k v al)"
proof (cases "Mapping.lookup (om_hash om) k")
  case None
  then have k: "k \<notin> fst ` set al" using indexed_None[OF assms(4)] by simp
  have upd: "AList.update k v al = al @ [(k, v)]" using k by (induction al) auto
  obtain s1 s2 s3 b where a: "NewElement (MakeKV k v) s = (els_n s, s1)" "List_Back (om_list om) s1 = Some (Some b, s2)"
      "Element_Append b (Some (els_n s)) s2 = Some (els_n s, s3)" "l_rep s3 (om_list om) (as @ [els_n s])"
      "l_vals s3 (as @ [els_n s]) = l_vals s as @ [MakeKV k v]" using append_new_step[OF assms(2)] by blast
  have "om_rep (om\<lparr>om_hash := Mapping.update k (els_n s) (om_hash om)\<rparr>, s3) (al @ [(k, v)])"
    by (rule om_repI) (use assms a k indexed_add[OF assms(4)] in \<open>simp_all add: kvs_def MakeKV_def\<close>)
  then show ?thesis using None a k upd by (simp add: OrderedMap_innerSet_def hash_Set_def)
next
  case (Some e)
  obtain al1 v0 al2 as1 as2 where f: "al = al1 @ (k, v0) # al2" "as = as1 @ e # as2" "length al1 = length as1"
    "k \<notin> fst ` set al1" "k \<notin> fst ` set al2" "l_vals s as1 = kvs al1" "el_item (els s e) = KV k v0" "l_vals s as2 = kvs al2"
    by (rule om_found[OF assms(4) Some assms(3)])
  have upd: "AList.update k v al = al1 @ (k, v) # al2" using f(1,4) by (simp, induction al1 arbitrary: al) auto
  obtain s1 where s1: "Element_Set (Some e) (MakeKV k v) s = (True, s1)" "l_rep s1 (om_list om) as"
      "l_vals s1 as = l_vals s as1 @ MakeKV k v # l_vals s as2" using set_item_step[of s "om_list om" as1 e as2 "MakeKV k v"] assms(2) unfolding f(2) by blast
  have "om_rep (om, s1) (AList.update k v al)"
    by (rule om_repI) (use assms(1,4) s1 f upd in \<open>simp_all add: kvs_def MakeKV_def\<close>)
  then show ?thesis using Some s1(1) f(1) by (simp add: OrderedMap_innerSet_def)
qed

lemma OrderedMap_Delete_rep:
  fixes w :: "('k::zero, 'v::zero) om_world"
  assumes "om_rep w al"
  shows "\<exists>w'. OrderedMap_Delete k w = Some w' \<and> om_rep w' (AList.delete k al)"
proof -
  obtain om s as where i: "OrderedMap_init w = (om, s)" "om_once om" "l_rep s (om_list om) as" "l_vals s as = kvs al"
    "indexed (om_hash om) (map fst al) as" by (rule om_init[OF assms])
  show ?thesis
  proof (cases "Mapping.lookup (om_hash om) k")
    case None
    then have "k \<notin> fst ` set al" using indexed_None[OF i(5)] by simp
    then have "AList.delete k al = al" by (simp add: AList.delete_eq filter_id_conv image_iff) force
    then show ?thesis using None i om_repI[OF i(2-5)] by (simp add: OrderedMap_Delete_def)
  next
    case (Some e)
    obtain al1 v0 al2 as1 as2 where f: "al = al1 @ (k, v0) # al2" "as = as1 @ e # as2" "length al1 = length as1"
      "k \<notin> fst ` set al1" "k \<notin> fst ` set al2" "l_vals s as1 = kvs al1" "el_item (els s e) = KV k v0" "l_vals s as2 = kvs al2"
      by (rule om_found[OF i(5) Some i(4)])
    have "AList.delete k al1 = al1" "AList.delete k al2 = al2"
      using f(4,5) by (simp_all add: AList.delete_eq filter_id_conv image_iff) force+
    then have del: "AList.delete k al = al1 @ al2" using f(1) by (simp add: AList.delete_eq)
    obtain s1 where r: "Element_Remove e s = Some (True, s1)" "l_rep s1 (om_list om) (as1 @ as2)" "l_vals s1 (as1 @ as2) = l_vals s (as1 @ as2)"
      using remove_found_step i(3) f(2) by blast
    have "l_vals s (as1 @ as2) = kvs (al1 @ al2)" using f(6,8) by (simp add: l_vals_def kvs_def)
    moreover have "indexed (Mapping.delete k (om_hash om)) (map fst (al1 @ al2)) (as1 @ as2)"
      using indexed_delete[of "om_hash om" "map fst al1" k "map fst al2" as1 e as2] i(5) f by simp
    ultimately have "om_rep (om\<lparr>om_hash := Mapping.delete k (om_hash om)\<rparr>, s1) (AList.delete k al)"
      unfolding del by (intro om_repI) (use i r in simp_all)
    then show ?thesis using Some i r(1) by (simp add: OrderedMap_Delete_def)
  qed
qed

datatype ('k, 'v) map_act = MSet 'k 'v | MEnsure 'k | MDelete 'k | MLoad 'k | MCheck 'k | MLen

datatype 'v map_res = MExisted bool | MDone | MLoaded 'v bool | MSize int

fun map_do :: "('k, 'v) map_act \<Rightarrow> ('k::zero, 'v::zero) om_world \<Rightarrow> ('v map_res \<times> ('k, 'v) om_world) option" where
  "map_do (MSet k v) w = do { (b, w1) \<leftarrow> OrderedMap_Set k v w; Some (MExisted b, w1) }"
| "map_do (MEnsure k) w = do { (b, w1) \<leftarrow> OrderedMap_Ensure k w; Some (MExisted b, w1) }"
| "map_do (MDelete k) w = do { w1 \<leftarrow> OrderedMap_Delete k w; Some (MDone, w1) }"
| "map_do (MLoad k) w = (case OrderedMap_Load k w of ((v, ok), w1) \<Rightarrow> Some (MLoaded v ok, w1))"
| "map_do (MCheck k) w = (case OrderedMap_Check k w of (b, w1) \<Rightarrow> Some (MExisted b, w1))"
| "map_do MLen w = (case OrderedMap_Len w of (n, w1) \<Rightarrow> Some (MSize n, w1))"

fun amap_do :: "('k, 'v::zero) map_act \<Rightarrow> ('k \<times> 'v) list \<Rightarrow> 'v map_res \<times> ('k \<times> 'v) list" where
  "amap_do (MSet k v) al = (MExisted (k \<in> fst ` set al), AList.update k v al)"
| "amap_do (MEnsure k) al = (MExisted (k \<in> fst ` set al), if k \<in> fst ` set al then al else al @ [(k, 0)])"
| "amap_do (MDelete k) al = (MDone, AList.delete k al)"
| "amap_do (MLoad k) al = (case map_of al k of None \<Rightarrow> MLoaded 0 False | Some v \<Rightarrow> MLoaded v True, al)"
| "amap_do (MCheck k) al = (MExisted (k \<in> fst ` set al), al)"
| "amap_do MLen al = (MSize (int (length al)), al)"

lemma update_absent: "k \<notin> fst ` set al \<Longrightarrow> AList.update k v al = al @ [(k, v)]"
  by (induction al) auto

lemma map_do_rep:
  fixes w :: "('k::zero, 'v::zero) om_world"
  assumes "om_rep w al" shows "\<exists>w'. map_do a w = Some (fst (amap_do a al), w') \<and> om_rep w' (snd (amap_do a al))"
proof -
  obtain om s as where i: "OrderedMap_init w = (om, s)" "om_once om" "l_rep s (om_list om) as" "l_vals s as = kvs al"
    "indexed (om_hash om) (map fst al) as" by (rule om_init[OF assms])
  have rep: "om_rep (om, s) al" by (rule om_repI[OF i(2-5)])
  have chk: "hash_Check k (om_hash om) \<longleftrightarrow> k \<in> fst ` set al" for k using indexed_Check[OF i(5), of k] by simp
  show ?thesis
  proof (cases a)
    case (MSet k v)
    then show ?thesis using OrderedMap_innerSet_rep[OF i(2-5), of k v] i(1) by (auto simp: OrderedMap_Set_def)
  next
    case (MEnsure k)
    then show ?thesis using OrderedMap_innerSet_rep[OF i(2-5), of k 0] i(1) rep chk[of k]
      by (auto simp: OrderedMap_Ensure_def Let_def update_absent)
  next
    case (MDelete k)
    then show ?thesis using OrderedMap_Delete_rep[OF assms, of k] by auto
  next
    case (MLoad k)
    show ?thesis
    proof (cases "Mapping.lookup (om_hash om) k")
      case None
      then have "k \<notin> fst ` set al" using indexed_None[OF i(5)] by simp
      then have "map_of al k = None" by (simp add: map_of_eq_None_iff)
      then show ?thesis using None MLoad i(1) rep by (simp add: OrderedMap_Load_def)
    next
      case (Some e)
      obtain al1 v0 al2 as1 as2 where f: "al = al1 @ (k, v0) # al2" "k \<notin> fst ` set al1" "el_item (els s e) = KV k v0"
        by (rule om_found[OF i(5) Some i(4)])
      have "map_of al1 k = None" using f(2) by (simp add: map_of_eq_None_iff)
      then have "map_of al k = Some v0" using f(1) by (simp add: map_add_def)
      then show ?thesis using Some MLoad i(1) rep f(3) by (simp add: OrderedMap_Load_def Element_Value_def)
    qed
  next
    case (MCheck k)
    then show ?thesis using i(1) rep chk by (simp add: OrderedMap_Check_def Let_def)
  next
    case MLen
    then show ?thesis using i(1) rep indexed_Len[OF i(5)] by (simp add: OrderedMap_Len_def Let_def)
  qed
qed

fun map_run :: "('k, 'v) map_act list \<Rightarrow> ('k::zero, 'v::zero) om_world \<Rightarrow> ('v map_res list \<times> ('k, 'v) om_world) option" where
  "map_run [] w = Some ([], w)"
| "map_run (a # as) w = do { (r, w1) \<leftarrow> map_do a w; (rs, w2) \<leftarrow> map_run as w1; Some (r # rs, w2) }"

fun amap_run :: "('k, 'v::zero) map_act list \<Rightarrow> ('k \<times> 'v) list \<Rightarrow> 'v map_res list \<times> ('k \<times> 'v) list" where
  "amap_run [] al = ([], al)"
| "amap_run (a # as) al = (case amap_do a al of (r, al1) \<Rightarrow> case amap_run as al1 of (rs, al2) \<Rightarrow> (r # rs, al2))"

lemma map_run_rep:
  "om_rep w al \<Longrightarrow> \<exists>w'. map_run as w = Some (fst (amap_run as al), w') \<and> om_rep w' (snd (amap_run as al))"
proof (induction as arbitrary: w al)
  case (Cons a as)
  obtain w1 where w1: "map_do a w = Some (fst (amap_do a al), w1)" "om_rep w1 (snd (amap_do a al))" using map_do_rep[OF Cons.prems] by blast
  then show ?case using Cons.IH[OF w1(2)] by (auto simp: case_prod_unfold)
qed simp

text \<open>What a loop over the iterator of the map sees.\<close>

definition om_seen :: "('k::zero, 'v::zero) om_world \<Rightarrow> ('k \<times> 'v) list option" where
  "om_seen w = (case OrderedMap_init w of (om, s) \<Rightarrow>
     map_option (\<lambda>(_, _, acc). acc)
       (OrderedMap_Iterator (om_list om) (\<lambda>kv (s, om, acc). Some (True, (s, om, acc @ [kv]))) (s, om, [])))"

lemma om_seen_rep:
  assumes "om_rep w al" shows "om_seen w = Some al"
proof -
  obtain om s as where i: "OrderedMap_init w = (om, s)" "om_once om" "l_rep s (om_list om) as" "l_vals s as = kvs al"
    "indexed (om_hash om) (map fst al) as" by (rule om_init[OF assms])
  define y :: "(('a, 'b) KV, 'a OrderedMap \<times> ('a \<times> 'b) list) yield"
    where "y = (\<lambda>e (om, acc). if hash_Check (Key e) (om_hash om) then Some (True, (om, acc @ [KV_Split e])) else Some (True, (om, acc)))"
  have em: "emit (kvs xs) y (om, acc) = Some (True, (om, acc @ xs))" if "set xs \<subseteq> set al" for xs acc
    using that
  proof (induction xs arbitrary: acc)
    case (Cons x xs)
    have "hash_Check (fst x) (om_hash om)" using indexed_Check[OF i(5), of "fst x"] Cons.prems by (simp add: image_iff) (metis fst_conv prod.collapse)
    then show ?case using Cons by (cases x) (simp add: kvs_def y_def KV_Split_def)
  qed (simp add: kvs_def)
  have b: "(\<lambda>v s. do { (p, s1) \<leftarrow> OrderedMap_checkForElem v s;
       if p then do { (ok, s2) \<leftarrow> (\<lambda>value s. do { (bc, s') \<leftarrow> pureop elemSplit value s; (\<lambda>kv (s, om, acc). Some (True, (s, om, acc @ [kv]))) bc s' }) v s1;
                      if \<not> ok then Some (False, s2) else Some (True, s2) }
       else Some (True, s1) }) = beside_store y"
    by (auto simp: fun_eq_iff OrderedMap_checkForElem_def beside_store_def y_def elemSplit_def)
  obtain s1 where "IteratorFront (om_list om) (beside_store y) (s, (om, [])) = map_option (\<lambda>(_, c1). (s1, c1)) (emit (l_vals s as) y (om, []))"
    using IteratorFront_reads[OF i(3), of y "(om, [])"] by blast
  then have "OrderedMap_Iterator (om_list om) (\<lambda>kv (s, om, acc). Some (True, (s, om, acc @ [kv]))) (s, om, []) = Some (s1, om, al)"
    using em[of al "[]"] unfolding OrderedMap_Iterator_def KVsplit_def With2_def Keep_def b by (simp add: i(4))
  then show ?thesis using i(1) by (simp add: om_seen_def)
qed

text \<open>
  C18: Any sequence of operations on a new \<open>OrderedMap\<close> returns what it returns on an association list, where a
  key that is set again keeps its place, and afterwards the iterator yields that list.
\<close>

theorem OrderedMap_is_alist:
  "\<exists>w'. map_run as (new_OrderedMap, empty_store) = Some (fst (amap_run as []), w') \<and> om_seen w' = Some (snd (amap_run as []))"
proof -
  have "om_rep (new_OrderedMap, empty_store) []" by (simp add: om_rep_def new_OrderedMap_def)
  from map_run_rep[OF this, of as] show ?thesis using om_seen_rep by blast
qed

end
