(* ===== verification/ErcList.thy ===== *)
theory ErcList
  imports IrtConsume DLL
begin

text \<open>
  Error values, the intrusive error list of \<open>src/erc/list.go\<close>, the collector of \<open>src/erc/errors.go\<close>, the filters
  of \<open>src/erc/filter.go\<close> and the helpers of \<open>src/ers\<close>.

  A nil error is \<open>None\<close>.  \<open>Opaque\<close>, \<open>Wrapped\<close>, \<open>Multi\<close> and \<open>Unwinder\<close> are errors made elsewhere: without
  further methods, with \<open>Unwrap() error\<close>, with \<open>Unwrap() []error\<close> and with \<open>Unwind() []error\<close>; the number is their
  identity.  The errors of this package are pointers: to a collector, to the list in it, to an element of
  a list.  A collector is at the address of its list.  The model is of one goroutine; in the code the
  collector's methods take its mutex.
\<close>

datatype err =
    ErsError string
  | Opaque nat string
  | Wrapped nat string err
  | Multi nat "err option list"
  | Unwinder nat "err option list"
  | CollectorErr nat
  | ListErr nat
  | ElemErr nat

type_synonym erfilter = "err option \<Rightarrow> err option"

record erelem =
  ee_list :: "nat option"
  ee_next :: "nat option"
  ee_prev :: "nat option"
  ee_err :: "err option"

text \<open>The root element is embedded in the list; \<open>ls_elm\<close> is its address.\<close>

record erlist =
  ls_num :: int
  ls_elm :: nat
  ls_filter :: "erfilter option"

record estore =
  ees :: "nat \<Rightarrow> erelem"
  ees_n :: nat
  ers :: "nat \<Rightarrow> erlist"
  ers_n :: nat

definition upd_ee :: "nat \<Rightarrow> (erelem \<Rightarrow> erelem) \<Rightarrow> estore \<Rightarrow> estore" where
  "upd_ee a f s = s\<lparr>ees := (ees s)(a := f (ees s a))\<rparr>"

definition upd_er :: "nat \<Rightarrow> (erlist \<Rightarrow> erlist) \<Rightarrow> estore \<Rightarrow> estore" where
  "upd_er l f s = s\<lparr>ers := (ers s)(l := f (ers s l))\<rparr>"

definition new_ee :: "erelem \<Rightarrow> estore \<Rightarrow> nat \<times> estore" where
  "new_ee e s = (ees_n s, s\<lparr>ees := (ees s)(ees_n s := e), ees_n := ees_n s + 1\<rparr>)"

text \<open>\<open>&Collector{}\<close>: a zero list with its zero root element.\<close>

definition new_collector :: "estore \<Rightarrow> nat \<times> estore" where
  "new_collector s =
     (case new_ee \<lparr>ee_list = None, ee_next = None, ee_prev = None, ee_err = None\<rparr> s of (a, s1) \<Rightarrow>
        (ers_n s1, s1\<lparr>ers := (ers s1)(ers_n s1 := \<lparr>ls_num = 0, ls_elm = a, ls_filter = None\<rparr>), ers_n := ers_n s1 + 1\<rparr>))"

subsection \<open>Elements\<close>

definition ee_Ok :: "nat option \<Rightarrow> estore \<Rightarrow> bool" where
  "ee_Ok p s \<longleftrightarrow> (case p of None \<Rightarrow> False | Some a \<Rightarrow> ee_list (ees s a) \<noteq> None \<and> ee_err (ees s a) \<noteq> None)"

definition ee_In :: "nat \<Rightarrow> nat \<Rightarrow> estore \<Rightarrow> bool" where
  "ee_In a l s \<longleftrightarrow> ee_list (ees s a) = Some l"

definition ee_Err :: "nat \<Rightarrow> estore \<Rightarrow> err option" where
  "ee_Err a s = ee_err (ees s a)"

definition ee_Next :: "nat option \<Rightarrow> estore \<Rightarrow> nat option" where
  "ee_Next p s = (if ee_Ok p s \<and> ee_Ok (ee_next (ees s (the p))) s then ee_next (ees s (the p)) else None)"

definition ee_Previous :: "nat option \<Rightarrow> estore \<Rightarrow> nat option" where
  "ee_Previous p s = (if ee_Ok p s \<and> ee_Ok (ee_prev (ees s (the p))) s then ee_prev (ees s (the p)) else None)"

subsection \<open>The list\<close>

definition er_root :: "nat \<Rightarrow> estore \<Rightarrow> nat \<times> estore" where
  "er_root l s =
     (let a = ls_elm (ers s l);
          s1 = (if ee_next (ees s a) = None then upd_ee a (\<lambda>e. e\<lparr>ee_next := Some a\<rparr>) s else s);
          s2 = (if ee_prev (ees s1 a) = None then upd_ee a (\<lambda>e. e\<lparr>ee_prev := Some a\<rparr>) s1 else s1);
          s3 = (if ee_list (ees s2 a) = None then upd_ee a (\<lambda>e. e\<lparr>ee_list := Some l\<rparr>) s2 else s2)
      in (a, s3))"

definition er_Front :: "nat \<Rightarrow> estore \<Rightarrow> nat option \<times> estore" where
  "er_Front l s = (case er_root l s of (a, s1) \<Rightarrow> (ee_next (ees s1 a), s1))"

definition er_Back :: "nat \<Rightarrow> estore \<Rightarrow> nat option \<times> estore" where
  "er_Back l s = (case er_root l s of (a, s1) \<Rightarrow> (ee_prev (ees s1 a), s1))"

definition er_Len :: "nat option \<Rightarrow> estore \<Rightarrow> int" where
  "er_Len p s = (case p of None \<Rightarrow> 0 | Some l \<Rightarrow> ls_num (ers s l))"

definition er_Ok :: "nat option \<Rightarrow> estore \<Rightarrow> bool" where
  "er_Ok p s \<longleftrightarrow> (case p of None \<Rightarrow> True | Some l \<Rightarrow> ee_Ok (Some (ls_elm (ers s l))) s)"

text \<open>Linking follows the pointers of the new element; a nil pointer would be a panic.\<close>

definition er_PushBack :: "nat \<Rightarrow> err option \<Rightarrow> estore \<Rightarrow> estore option" where
  "er_PushBack l e s =
     (if e = None then Some s
      else
        let s1 = upd_er l (\<lambda>x. x\<lparr>ls_num := ls_num x + 1\<rparr>) s;
            (head, s2) = er_root l s1;
            (elem, s3) = new_ee \<lparr>ee_list = Some l, ee_next = Some head, ee_prev = ee_prev (ees s2 head), ee_err = e\<rparr> s2
        in do { nx \<leftarrow> ee_next (ees s3 elem);
                let s4 = upd_ee nx (\<lambda>x. x\<lparr>ee_prev := Some elem\<rparr>) s3;
                pv \<leftarrow> ee_prev (ees s4 elem);
                Some (upd_ee pv (\<lambda>x. x\<lparr>ee_next := Some elem\<rparr>) s4) })"

definition er_PushFront :: "nat \<Rightarrow> err option \<Rightarrow> estore \<Rightarrow> estore option" where
  "er_PushFront l e s =
     (if e = None then Some s
      else
        let s1 = upd_er l (\<lambda>x. x\<lparr>ls_num := ls_num x + 1\<rparr>) s;
            (head, s2) = er_root l s1;
            (elem, s3) = new_ee \<lparr>ee_list = Some l, ee_next = ee_next (ees s2 head), ee_prev = Some head, ee_err = e\<rparr> s2
        in do { nx \<leftarrow> ee_next (ees s3 elem);
                let s4 = upd_ee nx (\<lambda>x. x\<lparr>ee_prev := Some elem\<rparr>) s3;
                pv \<leftarrow> ee_prev (ees s4 elem);
                Some (upd_ee pv (\<lambda>x. x\<lparr>ee_next := Some elem\<rparr>) s4) })"

text \<open>The iterators yield the elements; the consumer works on the store and a state of its own.\<close>

partial_function (option) er_iter_loop ::
    "(nat option \<Rightarrow> estore \<Rightarrow> nat option) \<Rightarrow> nat option \<Rightarrow> (err option, estore \<times> 'c) seq" where
  "er_iter_loop nxt p yield sc =
     (if ee_Ok p (fst sc)
      then do { (more, sc1) \<leftarrow> yield (Some (ElemErr (the p))) sc;
                if more then er_iter_loop nxt (nxt p (fst sc1)) yield sc1 else Some sc1 }
      else Some sc)"

definition er_FIFO :: "nat \<Rightarrow> (err option, estore \<times> 'c) seq" where
  "er_FIFO l yield sc = (case er_Front l (fst sc) of (p, s1) \<Rightarrow> er_iter_loop ee_Next p yield (s1, snd sc))"

definition er_LIFO :: "nat \<Rightarrow> (err option, estore \<times> 'c) seq" where
  "er_LIFO l yield sc = (case er_Back l (fst sc) of (p, s1) \<Rightarrow> er_iter_loop ee_Previous p yield (s1, snd sc))"

subsection \<open>\<open>ers\<close>: what counts as an error\<close>

text \<open>The errors with a method \<open>Ok\<close> are those of this package; an opaque error has none.\<close>

definition IsOk :: "err option \<Rightarrow> estore \<Rightarrow> bool" where
  "IsOk e s \<longleftrightarrow> (case e of
       None \<Rightarrow> True
     | Some (CollectorErr c) \<Rightarrow> er_Len (Some c) s = 0
     | Some (ListErr l) \<Rightarrow> er_Ok (Some l) s
     | Some (ElemErr a) \<Rightarrow> ee_Ok (Some a) s
     | _ \<Rightarrow> False)"

definition IsError :: "err option \<Rightarrow> estore \<Rightarrow> bool" where "IsError e s \<longleftrightarrow> \<not> IsOk e s"

definition ers_New :: "string \<Rightarrow> err option" where
  "ers_New str = (if str = '''' then None else Some (ErsError str))"

definition ers_If :: "bool \<Rightarrow> err option \<Rightarrow> err option" where
  "ers_If cond e = (if \<not> cond then None else e)"

definition ers_When :: "bool \<Rightarrow> string \<Rightarrow> err option" where
  "ers_When cond val = (if \<not> cond then None else ers_New val)"

definition ErsError_Is :: "string \<Rightarrow> err option \<Rightarrow> bool" where
  "ErsError_Is e x =
     (if x = None \<and> e = '''' then e = ''''
      else if (x = None) \<noteq> (e = '''') then False
      else case x of Some (ErsError y) \<Rightarrow> y = e | _ \<Rightarrow> False)"

subsection \<open>\<open>errors.Is\<close>\<close>

text \<open>A consumer that collects what an iterator yields.\<close>

definition er_gather :: "(err option, estore \<times> err option list) yield" where
  "er_gather e sc = (case sc of (s, acc) \<Rightarrow> Some (True, (s, acc @ [e])))"

text \<open>What the loops over \<open>FIFO\<close> and \<open>LIFO\<close> see.  That they may set up the root is not visible to a reader.\<close>

definition er_fifo :: "nat \<Rightarrow> estore \<Rightarrow> err option list option" where
  "er_fifo l s = map_option snd (er_FIFO l er_gather (s, []))"

definition er_lifo :: "nat \<Rightarrow> estore \<Rightarrow> err option list option" where
  "er_lifo l s = map_option snd (er_LIFO l er_gather (s, []))"

text \<open>
  The errors that \<open>errors.Is\<close> goes on with when an error is not the target itself: what \<open>Unwrap\<close> returns, or what
  the method \<open>Is\<close> of the lists and elements asks.  \<open>Unwrap\<close> of a list only repeats the elements that its
  \<open>Is\<close> has asked already.
\<close>

definition err_children :: "estore \<Rightarrow> err \<Rightarrow> err option list option" where
  "err_children s e = (case e of
       ErsError _ \<Rightarrow> Some []
     | Opaque _ _ \<Rightarrow> Some []
     | Wrapped _ _ x \<Rightarrow> Some [Some x]
     | Multi _ xs \<Rightarrow> Some xs
     | Unwinder _ _ \<Rightarrow> Some []
     | CollectorErr c \<Rightarrow> er_lifo c s
     | ListErr l \<Rightarrow> er_lifo l s
     | ElemErr a \<Rightarrow> Some [ee_err (ees s a)])"

partial_function (option) is_any :: "estore \<Rightarrow> err option \<Rightarrow> err option list \<Rightarrow> bool option" where
  "is_any s t es =
     (case es of
        [] \<Rightarrow> Some False
      | e # rest \<Rightarrow>
          if e = None then is_any s t rest
          else if e = t then Some True
          else do { kids \<leftarrow> err_children s (the e); is_any s t (kids @ rest) })"

definition errors_Is :: "estore \<Rightarrow> err option \<Rightarrow> err option \<Rightarrow> bool option" where
  "errors_Is s e t = (if e = None \<or> t = None then Some (e = t) else is_any s t [e])"

primrec ers_Is :: "estore \<Rightarrow> err option \<Rightarrow> err option list \<Rightarrow> bool option" where
  "ers_Is s e [] = Some False"
| "ers_Is s e (t # ts) =
     (if e = None \<and> t \<noteq> None then ers_Is s e ts
      else do { b \<leftarrow> errors_Is s e t; if b then Some True else ers_Is s e ts })"

partial_function (option) er_Is_loop :: "estore \<Rightarrow> err option \<Rightarrow> err option list \<Rightarrow> bool option" where
  "er_Is_loop s t es =
     (case es of [] \<Rightarrow> Some False
      | e # rest \<Rightarrow> do { b \<leftarrow> errors_Is s e t; if b then Some True else er_Is_loop s t rest })"

definition er_list_Is :: "nat \<Rightarrow> err option \<Rightarrow> estore \<Rightarrow> bool option" where
  "er_list_Is l t s = do { es \<leftarrow> er_lifo l s; er_Is_loop s t es }"

text \<open>\<open>Unwind\<close> of an element, which has no method to unwrap, is the element.\<close>

definition er_Unwrap :: "nat option \<Rightarrow> estore \<Rightarrow> err option list option" where
  "er_Unwrap p s = (case p of None \<Rightarrow> Some [] | Some l \<Rightarrow> if ls_num (ers s l) = 0 then Some [] else er_fifo l s)"

subsection \<open>Filters\<close>

definition NewFilter :: erfilter where "NewFilter e = e"

definition Filter_Apply :: "erfilter option \<Rightarrow> err option \<Rightarrow> err option" where
  "Filter_Apply erf e = (if e = None then None else case erf of None \<Rightarrow> e | Some f \<Rightarrow> f e)"

definition Filter_Next :: "erfilter \<Rightarrow> erfilter \<Rightarrow> erfilter" where
  "Filter_Next erf nxt = (\<lambda>e. nxt (erf e))"

text \<open>\<open>ok\<close> is \<open>ers.IsOk\<close>.\<close>

fun Filter_Join_loop :: "(err option \<Rightarrow> bool) \<Rightarrow> erfilter option list \<Rightarrow> err option \<Rightarrow> err option" where
  "Filter_Join_loop ok [] e = e"
| "Filter_Join_loop ok (f # fs) e = (let e1 = Filter_Apply f e in if ok e1 then None else Filter_Join_loop ok fs e1)"

definition Filter_Join :: "(err option \<Rightarrow> bool) \<Rightarrow> erfilter option \<Rightarrow> erfilter option list \<Rightarrow> erfilter" where
  "Filter_Join ok erf filters = (\<lambda>e. let e1 = Filter_Apply erf e in if ok e1 then None else Filter_Join_loop ok filters e1)"

definition Filter_Then :: "(err option \<Rightarrow> bool) \<Rightarrow> erfilter option \<Rightarrow> erfilter option \<Rightarrow> erfilter" where
  "Filter_Then ok erf after = Filter_Join ok erf [after]"

definition Filter_Remove :: "(err option \<Rightarrow> bool) \<Rightarrow> erfilter option \<Rightarrow> (err option \<Rightarrow> bool) \<Rightarrow> erfilter" where
  "Filter_Remove ok erf check = Filter_Then ok erf (Some (\<lambda>e. if check e then None else e))"

text \<open>\<open>is\<close> is \<open>ers.Is\<close>.\<close>

definition Filter_Without :: "(err option \<Rightarrow> bool) \<Rightarrow> (err option \<Rightarrow> err option list \<Rightarrow> bool) \<Rightarrow> erfilter option \<Rightarrow> err option list \<Rightarrow> erfilter option" where
  "Filter_Without ok isin erf exclusions = (if exclusions = [] then erf else Some (Filter_Remove ok erf (\<lambda>e. isin e exclusions)))"

definition Filter_Only :: "(err option \<Rightarrow> bool) \<Rightarrow> (err option \<Rightarrow> err option list \<Rightarrow> bool) \<Rightarrow> erfilter option \<Rightarrow> err option list \<Rightarrow> erfilter option" where
  "Filter_Only ok isin erf inclusions = (if inclusions = [] then erf else Some (Filter_Remove ok erf (\<lambda>e. \<not> isin e inclusions)))"

subsection \<open>Pushing an error\<close>

text \<open>An element brings all elements from itself to the end of its list.\<close>

partial_function (option) er_push_from :: "nat \<Rightarrow> nat option \<Rightarrow> estore \<Rightarrow> estore option" where
  "er_push_from l p s =
     (if ee_Ok p s then do { s1 \<leftarrow> er_PushBack l (ee_Err (the p) s) s; er_push_from l (ee_Next p s1) s1 } else Some s)"

text \<open>
  The recursion of \<open>Push\<close> into the errors that another one holds is a list of what is still to be pushed.  The
  last case pushes the error as it was before the filter.
\<close>

partial_function (option) er_Push_loop :: "nat \<Rightarrow> err option list \<Rightarrow> estore \<Rightarrow> estore option" where
  "er_Push_loop l es s =
     (case es of
        [] \<Rightarrow> Some s
      | e # rest \<Rightarrow>
          (case Filter_Apply (ls_filter (ers s l)) e of
             None \<Rightarrow> er_Push_loop l rest s
           | Some werr \<Rightarrow>
               (case werr of
                  CollectorErr c \<Rightarrow>
                    if l \<noteq> c then do { s1 \<leftarrow> er_PushBack l (Some (ListErr c)) s; er_Push_loop l rest s1 }
                    else er_Push_loop l rest s
                | ListErr c \<Rightarrow>
                    if l \<noteq> c then do { s1 \<leftarrow> er_PushBack l (Some (ListErr c)) s; er_Push_loop l rest s1 }
                    else er_Push_loop l rest s
                | ElemErr a \<Rightarrow>
                    if \<not> ee_Ok (Some a) s \<and> ee_err (ees s a) \<noteq> None
                    then do { s1 \<leftarrow> er_PushBack l (ee_err (ees s a)) s; er_Push_loop l rest s1 }
                    else if ee_Ok (Some a) s \<and> \<not> ee_In a l s
                    then do { s1 \<leftarrow> er_push_from l (Some a) s; er_Push_loop l rest s1 }
                    else er_Push_loop l rest s
                | Unwinder _ xs \<Rightarrow> er_Push_loop l (xs @ rest) s
                | Multi _ xs \<Rightarrow> er_Push_loop l (xs @ rest) s
                | Wrapped _ _ _ \<Rightarrow> do { s1 \<leftarrow> er_PushBack l e s; er_Push_loop l rest s1 }
                | Opaque _ _ \<Rightarrow> do { s1 \<leftarrow> er_PushBack l e s; er_Push_loop l rest s1 }
                | ErsError _ \<Rightarrow> do { s1 \<leftarrow> er_PushBack l e s; er_Push_loop l rest s1 })))"

definition er_Push :: "nat \<Rightarrow> err option \<Rightarrow> estore \<Rightarrow> estore option" where
  "er_Push l e s = er_Push_loop l [e] s"

definition er_From :: "nat \<Rightarrow> (err option, estore \<times> 'c) seq \<Rightarrow> estore \<times> 'c \<Rightarrow> (estore \<times> 'c) option" where
  "er_From l q sc = q (\<lambda>e (s, c). do { s1 \<leftarrow> er_Push l e s; Some (True, (s1, c)) }) sc"

subsection \<open>The collector\<close>

definition Collector_Len :: "nat \<Rightarrow> estore \<Rightarrow> int" where "Collector_Len c s = er_Len (Some c) s"

definition Collector_Ok :: "nat \<Rightarrow> estore \<Rightarrow> bool" where "Collector_Ok c s \<longleftrightarrow> Collector_Len c s = 0"

definition Collector_Err :: "nat \<Rightarrow> estore \<Rightarrow> (err option \<times> estore) option" where
  "Collector_Err c s =
     (if er_Len (Some c) s = 0 then Some (None, s)
      else if er_Len (Some c) s = 1 then (case er_Front c s of (p, s1) \<Rightarrow> do { a \<leftarrow> p; Some (ee_Err a s1, s1) })
      else Some (Some (CollectorErr c), s))"

definition Collector_Resolve :: "nat \<Rightarrow> estore \<Rightarrow> (err option \<times> estore) option" where
  "Collector_Resolve c s = Collector_Err c s"

definition Collector_Unwrap :: "nat \<Rightarrow> estore \<Rightarrow> err option list option" where "Collector_Unwrap c s = er_Unwrap (Some c) s"

definition Collector_Is :: "nat \<Rightarrow> err option \<Rightarrow> estore \<Rightarrow> bool option" where "Collector_Is c t s = er_list_Is c t s"

definition Collector_pushWithLock :: "nat \<Rightarrow> err option \<Rightarrow> estore \<Rightarrow> estore option" where
  "Collector_pushWithLock c e s = er_Push c e s"

definition Collector_addWithLock :: "nat \<Rightarrow> (err option, estore \<times> 'c) seq \<Rightarrow> estore \<times> 'c \<Rightarrow> (estore \<times> 'c) option" where
  "Collector_addWithLock c q sc = er_From c q sc"

definition Collector_Push :: "nat \<Rightarrow> err option \<Rightarrow> estore \<Rightarrow> estore option" where
  "Collector_Push c e s = (if IsError e s then Collector_pushWithLock c e s else Some s)"

definition Collector_PushOk :: "nat \<Rightarrow> err option \<Rightarrow> estore \<Rightarrow> (bool \<times> estore) option" where
  "Collector_PushOk c e s =
     (if IsError e s then do { s1 \<leftarrow> Collector_pushWithLock c e s; Some (False, s1) } else Some (True, s))"

definition Collector_Join :: "nat \<Rightarrow> err option list \<Rightarrow> estore \<Rightarrow> estore option" where
  "Collector_Join c errs s =
     (case errs of
        [] \<Rightarrow> Some s
      | [e] \<Rightarrow> Collector_Push c e s
      | _ \<Rightarrow> do { (s1, _) \<leftarrow> Collector_addWithLock c (Slice errs) (s, ()); Some s1 })"

definition Collector_From :: "nat \<Rightarrow> (err option, estore \<times> int) seq \<Rightarrow> estore \<Rightarrow> estore option" where
  "Collector_From c q s =
     do { (_, s1) \<leftarrow> Apply (KeepErrors q) (\<lambda>e s. do { s1 \<leftarrow> Collector_pushWithLock c e s; Some ((), s1) }) s; Some s1 }"

definition Collector_SetFilter :: "nat \<Rightarrow> erfilter option \<Rightarrow> estore \<Rightarrow> estore" where
  "Collector_SetFilter c erf s = upd_er c (\<lambda>x. x\<lparr>ls_filter := erf\<rparr>) s"

definition Collector_New :: "nat \<Rightarrow> string \<Rightarrow> estore \<Rightarrow> estore option" where
  "Collector_New c val s = Collector_Push c (ers_New val) s"

definition Collector_If :: "nat \<Rightarrow> bool \<Rightarrow> err option \<Rightarrow> estore \<Rightarrow> estore option" where
  "Collector_If c cond val s = Collector_Push c (ers_If cond val) s"

definition Collector_When :: "nat \<Rightarrow> bool \<Rightarrow> string \<Rightarrow> estore \<Rightarrow> estore option" where
  "Collector_When c cond val s = Collector_Push c (ers_When cond val) s"

definition Collector_Check :: "nat \<Rightarrow> (estore \<Rightarrow> (err option \<times> estore) option) \<Rightarrow> estore \<Rightarrow> estore option" where
  "Collector_Check c fut s = do { (e, s1) \<leftarrow> fut s; Collector_Push c e s1 }"

text \<open>The pulled iterator steps through the list under the lock and yields outside it.\<close>

definition Collector_Iterator :: "nat \<Rightarrow> (err option, estore \<times> 'c) seq" where
  "Collector_Iterator c = er_FIFO c"

text \<open>A list is copied as a structure: the new root element keeps the links of the old one.\<close>

definition AsCollector :: "err option \<Rightarrow> estore \<Rightarrow> (nat option \<times> estore) option" where
  "AsCollector e s =
     (let joined = (\<lambda>errs. if errs \<noteq> [] then (case new_collector s of (c, s1) \<Rightarrow> do { s2 \<leftarrow> Collector_Join c errs s1; Some (Some c, s2) })
                           else Some (None, s))
      in case e of
           None \<Rightarrow> Some (None, s)
         | Some (CollectorErr c) \<Rightarrow> Some (Some c, s)
         | Some (ListErr l) \<Rightarrow>
             (case new_collector s of (c, s1) \<Rightarrow>
                let s2 = upd_ee (ls_elm (ers s1 c)) (\<lambda>_. ees s (ls_elm (ers s l))) s1
                in Some (Some c, upd_er c (\<lambda>x. x\<lparr>ls_num := ls_num (ers s l), ls_filter := ls_filter (ers s l)\<rparr>) s2))
         | Some (Unwinder _ errs) \<Rightarrow> joined errs
         | Some (Multi _ errs) \<Rightarrow> joined errs
         | _ \<Rightarrow> (case new_collector s of (c, s1) \<Rightarrow> do { s2 \<leftarrow> Collector_Push c e s1; Some (Some c, s2) }))"

definition erc_Join :: "err option list \<Rightarrow> estore \<Rightarrow> (err option \<times> estore) option" where
  "erc_Join errs s = (case new_collector s of (c, s1) \<Rightarrow> do { s2 \<leftarrow> Collector_Join c errs s1; Collector_Err c s2 })"

definition erc_JoinSeq :: "(err option, estore \<times> int) seq \<Rightarrow> estore \<Rightarrow> (err option \<times> estore) option" where
  "erc_JoinSeq q s = (case new_collector s of (c, s1) \<Rightarrow> do { s2 \<leftarrow> Collector_From c q s1; Collector_Err c s2 })"

subsection \<open>Iterators with errors (\<open>src/erc/iterators.go\<close>)\<close>

definition Handle :: "('a \<times> err option, 's) seq \<Rightarrow> (err option, unit, 's) op \<Rightarrow> ('a, 's) seq" where
  "Handle q handler yield s =
     q (\<lambda>(val, e) s. if e \<noteq> None then do { (_, s1) \<leftarrow> handler e s; Some (True, s1) }
                     else do { (ok, s1) \<leftarrow> yield val s; Some (ok, s1) }) s"

definition HandleUntil :: "('a \<times> err option, 's) seq \<Rightarrow> (err option, unit, 's) op \<Rightarrow> ('a, 's) seq" where
  "HandleUntil q handler yield s =
     q (\<lambda>(val, e) s. if e \<noteq> None then do { (_, s1) \<leftarrow> handler e s; Some (False, s1) }
                     else do { (ok, s1) \<leftarrow> yield val s; Some (ok, s1) }) s"

definition HandleAll :: "('a \<times> err option, 's) seq \<Rightarrow> (err option, unit, 's) op \<Rightarrow> ('a, 's) seq" where
  "HandleAll q handler yield s =
     q (\<lambda>(val, e) s. do { (_, s1) \<leftarrow> handler e s; (ok, s2) \<leftarrow> yield val s1; Some (ok, s2) }) s"

text \<open>The collector is a local variable; the state of the iteration is the store, the consumer's and the counter of \<open>Apply\<close>.\<close>

definition collect_errors :: "nat \<Rightarrow> (err option, unit, (estore \<times> 'c) \<times> int) op" where
  "collect_errors c e st = (case st of ((s, d), n) \<Rightarrow> do { s1 \<leftarrow> Collector_Push c e s; Some ((), ((s1, d), n)) })"

definition run_errors ::
    "((err option, unit, (estore \<times> 'c) \<times> int) op \<Rightarrow> ('a, (estore \<times> 'c) \<times> int) seq) \<Rightarrow> ('a, unit, 'c) op \<Rightarrow>
     estore \<times> 'c \<Rightarrow> (err option \<times> (estore \<times> 'c)) option" where
  "run_errors handled f sc =
     (case sc of (s, d) \<Rightarrow> case new_collector s of (c, s1) \<Rightarrow>
        do { (_, (s2, d2)) \<leftarrow> Apply (handled (collect_errors c)) (\<lambda>v (s, d). do { (_, d1) \<leftarrow> f v d; Some ((), (s, d1)) }) (s1, d);
             (e, s3) \<leftarrow> Collector_Resolve c s2;
             Some (e, (s3, d2)) })"

definition ForIterator ::
    "('a \<times> err option, (estore \<times> 'c) \<times> int) seq \<Rightarrow> ('a, unit, 'c) op \<Rightarrow> estore \<times> 'c \<Rightarrow> (err option \<times> (estore \<times> 'c)) option" where
  "ForIterator q f = run_errors (Handle q) f"

definition ForIteratorAll ::
    "('a \<times> err option, (estore \<times> 'c) \<times> int) seq \<Rightarrow> ('a, unit, 'c) op \<Rightarrow> estore \<times> 'c \<Rightarrow> (err option \<times> (estore \<times> 'c)) option" where
  "ForIteratorAll q f = run_errors (HandleAll q) f"

definition ForIteratorUntil ::
    "('a \<times> err option, (estore \<times> 'c) \<times> int) seq \<Rightarrow> ('a, unit, 'c) op \<Rightarrow> estore \<times> 'c \<Rightarrow> (err option \<times> (estore \<times> 'c)) option" where
  "ForIteratorUntil q f = run_errors (HandleUntil q) f"

definition slice_push :: "('a, unit, 'a list) op" where
  "slice_push v out = Some ((), out @ [v])"

definition FromIterator :: "('a \<times> err option, (estore \<times> 'a list) \<times> int) seq \<Rightarrow> estore \<Rightarrow> (('a list \<times> err option) \<times> estore) option" where
  "FromIterator q s = do { (e, (s1, out)) \<leftarrow> ForIterator q slice_push (s, []); Some ((out, e), s1) }"

definition FromIteratorAll :: "('a \<times> err option, (estore \<times> 'a list) \<times> int) seq \<Rightarrow> estore \<Rightarrow> (('a list \<times> err option) \<times> estore) option" where
  "FromIteratorAll q s = do { (e, (s1, out)) \<leftarrow> ForIteratorAll q slice_push (s, []); Some ((out, e), s1) }"

definition FromIteratorUntil :: "('a \<times> err option, (estore \<times> 'a list) \<times> int) seq \<Rightarrow> estore \<Rightarrow> (('a list \<times> err option) \<times> estore) option" where
  "FromIteratorUntil q s = do { (e, (s1, out)) \<leftarrow> ForIteratorUntil q slice_push (s, []); Some ((out, e), s1) }"

declare er_iter_loop.simps [code] is_any.simps [code] er_Is_loop.simps [code] er_push_from.simps [code] er_Push_loop.simps [code]

end
