(* ===== verification/ErcProps.thy ===== *)
theory ErcProps
  imports ErcList IrtConsumeLaws
begin

text \<open>
  What a collector holds: the errors that were pushed, with errors that hold several ones taken apart, in
  order; and what \<open>errors.Is\<close> finds in it.
\<close>

subsection \<open>The list of elements\<close>

definition er_ring :: "estore \<Rightarrow> nat \<Rightarrow> nat list \<Rightarrow> bool" where
  "er_ring s l as \<longleftrightarrow> ring (\<lambda>a. ee_next (ees s a)) (\<lambda>a. ee_prev (ees s a)) (ls_elm (ers s l)) as
     \<and> ls_num (ers s l) = int (length as) \<and> ee_err (ees s (ls_elm (ers s l))) = None
     \<and> (\<forall>a\<in>set as. ee_err (ees s a) \<noteq> None)
     \<and> (\<forall>a\<in>set (ls_elm (ers s l) # as). a < ees_n s \<and> ee_list (ees s a) = Some l)"

definition er_fresh :: "estore \<Rightarrow> nat \<Rightarrow> bool" where
  "er_fresh s l \<longleftrightarrow> ees s (ls_elm (ers s l)) = \<lparr>ee_list = None, ee_next = None, ee_prev = None, ee_err = None\<rparr>
     \<and> ls_num (ers s l) = 0 \<and> ls_elm (ers s l) < ees_n s"

definition er_rep :: "estore \<Rightarrow> nat \<Rightarrow> nat list \<Rightarrow> bool" where
  "er_rep s l as \<longleftrightarrow> er_ring s l as \<or> (er_fresh s l \<and> as = [])"

definition er_errs :: "estore \<Rightarrow> nat list \<Rightarrow> err list" where
  "er_errs s as = map (\<lambda>a. the (ee_err (ees s a))) as"

text \<open>What an operation on the list \<open>l\<close> leaves alone.\<close>

definition er_frame :: "estore \<Rightarrow> estore \<Rightarrow> nat \<Rightarrow> bool" where
  "er_frame s s' l \<longleftrightarrow> ees_n s \<le> ees_n s' \<and> ers_n s' = ers_n s \<and> (\<forall>l'. l' \<noteq> l \<longrightarrow> ers s' l' = ers s l')
     \<and> ls_filter (ers s' l) = ls_filter (ers s l) \<and> ls_elm (ers s' l) = ls_elm (ers s l)
     \<and> (\<forall>a < ees_n s. ee_err (ees s' a) = ee_err (ees s a)
          \<and> (a \<noteq> ls_elm (ers s l) \<and> ee_list (ees s a) \<noteq> Some l \<longrightarrow> ees s' a = ees s a))"

lemma er_frame_refl [simp]: "er_frame s s l"
  by (simp add: er_frame_def)

lemma er_root_step:
  assumes "er_rep s l as"
  obtains s1 where "er_root l s = (ls_elm (ers s l), s1)" "er_ring s1 l as" "er_frame s s1 l" "ers s1 = ers s" "ees_n s1 = ees_n s"
    "er_errs s1 as = er_errs s as" "\<And>a. a \<noteq> ls_elm (ers s l) \<Longrightarrow> ees s1 a = ees s a"
proof (cases "er_ring s l as")
  case True
  define h where "h = ls_elm (ers s l)"
  have "ee_next (ees s h) \<noteq> None" "ee_prev (ees s h) \<noteq> None" "ee_list (ees s h) \<noteq> None"
    using True ring_first[of "\<lambda>a. ee_next (ees s a)" "\<lambda>a. ee_prev (ees s a)" h as] by (auto simp: er_ring_def h_def)
  then have "er_root l s = (h, s)" unfolding er_root_def Let_def h_def[symmetric] by (simp only: if_False)
  then show thesis using that[of s] True by (simp add: h_def)
next
  case False
  then have f: "er_fresh s l" "as = []" using assms by (auto simp: er_rep_def)
  define h where "h = ls_elm (ers s l)"
  define s1 where "s1 = s\<lparr>ees := (ees s)(h := \<lparr>ee_list = Some l, ee_next = Some h, ee_prev = Some h, ee_err = None\<rparr>)\<rparr>"
  have "er_root l s = (h, s1)" using f by (simp add: er_root_def upd_ee_def Let_def h_def[symmetric] er_fresh_def s1_def)
  then show thesis using that[of s1] f
    by (auto simp: s1_def h_def er_ring_def er_fresh_def er_frame_def er_errs_def ring_empty)
qed

lemma er_frame_trans:
  assumes "er_frame s s1 l" "er_frame s1 s2 l"
  shows "er_frame s s2 l"
proof -
  have n: "ees_n s \<le> ees_n s1" "ees_n s1 \<le> ees_n s2" using assms by (auto simp: er_frame_def)
  have "ees s2 a = ees s a" if "a < ees_n s" "a \<noteq> ls_elm (ers s l)" "ee_list (ees s a) \<noteq> Some l" for a
  proof -
    have "ees s1 a = ees s a" using assms(1) that by (simp add: er_frame_def)
    then show ?thesis using assms that n by (simp add: er_frame_def)
  qed
  then show ?thesis using assms n by (simp add: er_frame_def)
qed

lemma er_PushBack_step:
  assumes "er_rep s l as"
  shows "\<exists>s' v. er_PushBack l (Some e) s = Some s' \<and> er_ring s' l (as @ [v]) \<and> er_errs s' (as @ [v]) = er_errs s as @ [e]
     \<and> er_frame s s' l \<and> ees_n s \<le> v"
proof -
  define h where "h = ls_elm (ers s l)"
  define s0 where "s0 = upd_er l (\<lambda>x. x\<lparr>ls_num := ls_num x + 1\<rparr>) s"
  define num where "num = ls_num (ers s l)"
  obtain s1 where s1: "er_root l s = (h, s1)" "er_ring s1 l as" "er_frame s s1 l" "ers s1 = ers s" "ees_n s1 = ees_n s"
      "er_errs s1 as = er_errs s as" using er_root_step[OF assms] unfolding h_def by metis
  define s2 where "s2 = upd_er l (\<lambda>x. x\<lparr>ls_num := ls_num x + 1\<rparr>) s1"
  have root: "er_root l s0 = (h, s2)"
    using s1(1) by (auto simp: er_root_def s0_def s2_def upd_er_def upd_ee_def Let_def split: if_splits)
  define v where "v = ees_n s1"
  define z where "z = last (h # as)"
  have r: "ring (\<lambda>a. ee_next (ees s1 a)) (\<lambda>a. ee_prev (ees s1 a)) h as" using s1(2,4) by (simp add: er_ring_def h_def)
  have hp: "ee_prev (ees s1 h) = Some z" using ring_first[OF r] by (simp add: z_def)
  have low: "a < v \<and> ee_list (ees s1 a) = Some l" if "a \<in> set (h # as)" for a
    using s1(2,4) that by (auto simp: er_ring_def v_def h_def)
  have zin: "z \<in> set (h # as)" unfolding z_def by (rule last_in_set) simp
  define s3 where "s3 = s2\<lparr>ees := (ees s2)(v := \<lparr>ee_list = Some l, ee_next = Some h, ee_prev = Some z, ee_err = Some e\<rparr>), ees_n := v + 1\<rparr>"
  define s4 where "s4 = upd_ee h (\<lambda>x. x\<lparr>ee_prev := Some v\<rparr>) s3"
  define s5 where "s5 = upd_ee z (\<lambda>x. x\<lparr>ee_next := Some v\<rparr>) s4"
  have hv: "h \<noteq> v" "z \<noteq> v" using low[of h] low[OF zin] by auto
  have e2: "ees s2 = ees s1" "ees_n s2 = v" "ers s2 = (ers s)(l := (ers s l)\<lparr>ls_num := num + 1\<rparr>)"
    using s1(4) by (simp_all add: s2_def upd_er_def v_def num_def)
  have push: "er_PushBack l (Some e) s = Some s5"
    using root hp hv by (simp add: er_PushBack_def s0_def[symmetric] new_ee_def e2 s3_def[symmetric] Let_def)
      (simp add: s3_def e2 s4_def s5_def upd_ee_def hp)
  have f: "ee_next (ees s5 a) = (if a = z then Some v else if a = v then Some h else ee_next (ees s1 a))"
    "ee_prev (ees s5 a) = (if a = h then Some v else if a = v then Some z else ee_prev (ees s1 a))"
    "ee_list (ees s5 a) = (if a = v then Some l else ee_list (ees s1 a))"
    "ee_err (ees s5 a) = (if a = v then Some e else ee_err (ees s1 a))"
    "ers s5 = (ers s)(l := (ers s l)\<lparr>ls_num := num + 1\<rparr>)" "ees_n s5 = v + 1" for a
    using hv by (auto simp: s5_def s4_def s3_def upd_ee_def e2)
  have f7: "ers_n s5 = ers_n s1" by (simp add: s5_def s4_def s3_def s2_def upd_ee_def upd_er_def)
  have ring5: "ring (\<lambda>a. ee_next (ees s5 a)) (\<lambda>a. ee_prev (ees s5 a)) h (as @ v # [])"
  proof (rule ring_insert[where nx = "\<lambda>a. ee_next (ees s1 a)" and pv = "\<lambda>a. ee_prev (ees s1 a)"])
    show "ring (\<lambda>a. ee_next (ees s1 a)) (\<lambda>a. ee_prev (ees s1 a)) h (as @ [])" using r by simp
  qed (use low hv in \<open>auto simp: f z_def[symmetric] simp del: last.simps\<close>)
  have "num = int (length as)" using s1(2,4) by (simp add: er_ring_def num_def)
  then have "er_ring s5 l (as @ [v])"
    using ring5 s1(2) low hv by (auto simp: er_ring_def f h_def[symmetric] s1(4) less_Suc_eq)
  moreover have "er_errs s5 (as @ [v]) = er_errs s as @ [e]" using s1(6) low by (auto simp: er_errs_def f)
  moreover have "er_frame s s5 l"
  proof -
    have "ees s5 a = ees s1 a" if "a \<noteq> h" "ee_list (ees s1 a) \<noteq> Some l" "a < ees_n s" for a
      using that low[OF zin] s1(5) by (auto simp: s5_def s4_def s3_def upd_ee_def e2 v_def)
    then show ?thesis using s1(3,5) unfolding er_frame_def by (auto simp: f f7 v_def h_def s1(4))
  qed
  ultimately show ?thesis using push s1(5) by (auto simp: v_def)
qed

text \<open>Another list keeps its ring.\<close>

lemma er_frame_ring:
  assumes "er_frame s s' l" "er_ring s l' as" "l' \<noteq> l" "er_rep s l bs"
  shows "er_ring s' l' as" "er_errs s' as = er_errs s as" "\<And>a. a \<in> set (ls_elm (ers s l') # as) \<Longrightarrow> ees s' a = ees s a"
proof -
  have hl: "ee_list (ees s (ls_elm (ers s l))) \<noteq> Some l'"
    using assms(3,4) by (auto simp: er_rep_def er_ring_def er_fresh_def)
  have keep: "ees s' a = ees s a" if "a \<in> set (ls_elm (ers s l') # as)" for a
    using assms(1-3) hl that unfolding er_frame_def er_ring_def by (metis option.inject)
  then show "\<And>a. a \<in> set (ls_elm (ers s l') # as) \<Longrightarrow> ees s' a = ees s a" .
  have e: "ers s' l' = ers s l'" and n: "ees_n s \<le> ees_n s'" using assms(1,3) by (auto simp: er_frame_def)
  have "ring (\<lambda>a. ee_next (ees s' a)) (\<lambda>a. ee_prev (ees s' a)) (ls_elm (ers s l')) as"
    using assms(2) ring_cong[of "ls_elm (ers s l')" as "\<lambda>a. ee_next (ees s' a)"] by (simp add: er_ring_def keep)
  then show "er_ring s' l' as" using assms(2) n by (auto simp: er_ring_def e keep)
  show "er_errs s' as = er_errs s as" by (simp add: er_errs_def keep)
qed

subsection \<open>Errors made elsewhere\<close>

text \<open>
  An error that holds nothing of this package, the errors that it brings into a collector, and where
  \<open>errors.Is\<close> finds a target in it.
\<close>

fun foreign :: "err \<Rightarrow> bool" where
  "foreign (ErsError _) = True"
| "foreign (Opaque _ _) = True"
| "foreign (Wrapped _ _ x) = foreign x"
| "foreign (Multi _ xs) = (\<forall>x\<in>set xs. case x of None \<Rightarrow> True | Some e \<Rightarrow> foreign e)"
| "foreign (Unwinder _ xs) = (\<forall>x\<in>set xs. case x of None \<Rightarrow> True | Some e \<Rightarrow> foreign e)"
| "foreign _ = False"

fun leaves :: "err \<Rightarrow> err list" where
  "leaves (Multi _ xs) = concat (map (\<lambda>x. case x of None \<Rightarrow> [] | Some e \<Rightarrow> leaves e) xs)"
| "leaves (Unwinder _ xs) = concat (map (\<lambda>x. case x of None \<Rightarrow> [] | Some e \<Rightarrow> leaves e) xs)"
| "leaves e = [e]"

fun holds_err :: "err \<Rightarrow> err \<Rightarrow> bool" where
  "holds_err t (Wrapped n m x) = (Wrapped n m x = t \<or> holds_err t x)"
| "holds_err t (Multi n xs) = (Multi n xs = t \<or> (\<exists>x\<in>set xs. case x of None \<Rightarrow> False | Some e \<Rightarrow> holds_err t e))"
| "holds_err t e = (e = t)"

abbreviation opt_foreign :: "err option \<Rightarrow> bool" where
  "opt_foreign x \<equiv> case x of None \<Rightarrow> True | Some e \<Rightarrow> foreign e"

definition all_leaves :: "err option list \<Rightarrow> err list" where
  "all_leaves xs = concat (map (\<lambda>x. case x of None \<Rightarrow> [] | Some e \<Rightarrow> leaves e) xs)"

lemma all_leaves_simps [simp]:
  "all_leaves [] = []" "all_leaves (None # xs) = all_leaves xs" "all_leaves (Some e # xs) = leaves e @ all_leaves xs"
  "all_leaves (xs @ ys) = all_leaves xs @ all_leaves ys"
  "leaves (Multi n xs) = all_leaves xs" "leaves (Unwinder n xs) = all_leaves xs"
  by (simp_all add: all_leaves_def)

declare leaves.simps(1,2) [simp del]

lemma foreign_leaves: "foreign e \<Longrightarrow> x \<in> set (leaves e) \<Longrightarrow> foreign x"
  by (induction e rule: leaves.induct) (auto simp: leaves.simps(1,2) simp del: all_leaves_simps split: option.splits)

text \<open>The work left for the loops over errors that hold others.\<close>

definition err_work :: "err option list \<Rightarrow> nat" where
  "err_work = size_list (size_option size)"

lemma err_work_simps [simp]:
  "err_work [] = 0" "err_work (x # xs) = Suc (size_option size x + err_work xs)" "err_work (xs @ ys) = err_work xs + err_work ys"
  by (simp_all add: err_work_def size_list_conv_sum_list)

lemma is_any_append:
  "\<forall>x\<in>set es. opt_foreign x \<Longrightarrow> is_any s (Some t) rest = Some b \<Longrightarrow>
   is_any s (Some t) (es @ rest) = Some ((\<exists>x\<in>set es. case x of None \<Rightarrow> False | Some e \<Rightarrow> holds_err t e) \<or> b)"
proof (induction es rule: measure_induct_rule[of err_work])
  case (less es)
  show ?case
  proof (cases es)
    case Nil then show ?thesis using less.prems(2) by simp
  next
    case (Cons x es')
    have rest: "is_any s (Some t) (es' @ rest) = Some ((\<exists>x\<in>set es'. case x of None \<Rightarrow> False | Some e \<Rightarrow> holds_err t e) \<or> b)"
      by (rule less.IH) (use less.prems in \<open>auto simp: Cons\<close>)
    show ?thesis
    proof (cases x)
      case None then show ?thesis using rest by (subst is_any.simps) (simp add: Cons)
    next
      case (Some e)
      have kids: "is_any s (Some t) (ks @ es' @ rest) = Some ((\<exists>x\<in>set (ks @ es'). case x of None \<Rightarrow> False | Some e \<Rightarrow> holds_err t e) \<or> b)"
        if "err_work ks < Suc (Suc (size e))" "\<forall>x\<in>set ks. opt_foreign x" for ks
        using less.IH[of "ks @ es'"] less.prems that by (auto simp: Cons Some)
      have e: "foreign e" using less.prems by (simp add: Cons Some)
      show ?thesis
      proof (cases e)
        case (Wrapped n m y)
        then show ?thesis using kids[of "[Some y]"] e by (subst is_any.simps) (auto simp: Cons Some err_children_def)
      next
        case (Multi n ys)
        then show ?thesis using kids[of ys] e
          by (subst is_any.simps) (auto simp: Cons Some err_children_def err_work_def bex_Un)
      qed (use rest e in \<open>(subst is_any.simps, auto simp: Cons Some err_children_def)+\<close>)
    qed
  qed
qed

lemma is_any_foreign:
  "\<forall>x\<in>set es. opt_foreign x \<Longrightarrow> is_any s (Some t) es = Some (\<exists>x\<in>set es. case x of None \<Rightarrow> False | Some e \<Rightarrow> holds_err t e)"
  using is_any_append[of es s t "[]" False] by (simp add: is_any.simps)

text \<open>A list without a filter takes the leaves of what is pushed.\<close>

lemma Push_loop_foreign:
  "er_rep s l as \<Longrightarrow> ls_filter (ers s l) = None \<Longrightarrow> \<forall>x\<in>set es. opt_foreign x \<Longrightarrow>
   \<exists>s' new. er_Push_loop l es s = Some s' \<and> er_rep s' l (as @ new) \<and> er_errs s' (as @ new) = er_errs s as @ all_leaves es
     \<and> er_frame s s' l \<and> (\<forall>a\<in>set new. ees_n s \<le> a)"
proof (induction es arbitrary: s as rule: measure_induct_rule[of err_work])
  case (less es)
  show ?case
  proof (cases es)
    case Nil then show ?thesis using less.prems by (subst er_Push_loop.simps) (auto intro!: exI[of _ "[]"])
  next
    case (Cons x rest)
    note IH = less.IH[OF _ less.prems(1,2)]
    have keep: ?thesis if "er_Push_loop l es s = er_Push_loop l (ks @ rest) s" "err_work ks < Suc (size_option size x)"
        "\<forall>x\<in>set ks. opt_foreign x" "all_leaves ks = all_leaves [x]" for ks
      using IH[of "ks @ rest"] that less.prems(3) all_leaves_simps(4)[of "[x]" rest] by (simp add: Cons ball_Un)
    have push: ?thesis
      if p: "er_Push_loop l es s = do { s1 \<leftarrow> er_PushBack l (Some e) s; er_Push_loop l rest s1 }" "all_leaves [x] = [e]" for e
    proof -
      obtain s1 v where 1: "er_PushBack l (Some e) s = Some s1" "er_ring s1 l (as @ [v])" "er_errs s1 (as @ [v]) = er_errs s as @ [e]"
          "er_frame s s1 l" "ees_n s \<le> v"
        using er_PushBack_step[OF less.prems(1), of e] by blast
      have f: "ls_filter (ers s1 l) = None" using 1(4) less.prems(2) by (simp add: er_frame_def)
      obtain s2 new where 2: "er_Push_loop l rest s1 = Some s2" "er_rep s2 l ((as @ [v]) @ new)"
          "er_errs s2 ((as @ [v]) @ new) = er_errs s1 (as @ [v]) @ all_leaves rest" "er_frame s1 s2 l" "\<forall>a\<in>set new. ees_n s1 \<le> a"
        using less.IH[OF _ _ f, of rest "as @ [v]"] 1(2) less.prems(3) by (auto simp: Cons er_rep_def)
      have "all_leaves es = e # all_leaves rest" using p(2) all_leaves_simps(4)[of "[x]" rest] by (simp add: Cons)
      moreover have "ees_n s \<le> ees_n s1" using 1(4) by (simp add: er_frame_def)
      ultimately show ?thesis using 1 2 p(1) er_frame_trans[OF 1(4) 2(4)]
        by (intro exI[of _ s2] exI[of _ "v # new"]) auto
    qed
    show ?thesis
    proof (cases x)
      case None
      then show ?thesis by (intro keep[of "[]"]) (subst er_Push_loop.simps, auto simp: Cons Filter_Apply_def)
    next
      case (Some e)
      have step: "er_Push_loop l es s = (case e of
            Unwinder _ xs \<Rightarrow> er_Push_loop l (xs @ rest) s | Multi _ xs \<Rightarrow> er_Push_loop l (xs @ rest) s
          | _ \<Rightarrow> do { s1 \<leftarrow> er_PushBack l x s; er_Push_loop l rest s1 })" if "foreign e"
        using that less.prems(2) by (subst er_Push_loop.simps, cases e) (simp_all add: Cons Some Filter_Apply_def)
      have e: "foreign e" using less.prems(3) by (simp add: Cons Some)
      show ?thesis
      proof (cases e)
        case (Multi n ys)
        then show ?thesis using step[OF e] e by (intro keep[of ys]) (auto simp: Some err_work_def)
      next
        case (Unwinder n ys)
        then show ?thesis using step[OF e] e by (intro keep[of ys]) (auto simp: Some err_work_def)
      next
        case (ErsError x1)
        then show ?thesis using step[OF e] by (intro push[of e]) (simp_all add: Some)
      next
        case (Opaque x1 x2)
        then show ?thesis using step[OF e] by (intro push[of e]) (simp_all add: Some)
      next
        case (Wrapped x1 x2 x3)
        then show ?thesis using step[OF e] by (intro push[of e]) (simp_all add: Some)
      qed (use e in simp_all)
    qed
  qed
qed

subsection \<open>Reading a list\<close>

text \<open>The elements that a loop over an iterator visits.\<close>

fun visits :: "(nat option \<Rightarrow> estore \<Rightarrow> nat option) \<Rightarrow> estore \<Rightarrow> nat option \<Rightarrow> nat list \<Rightarrow> bool" where
  "visits nxt s p [] = (\<not> ee_Ok p s)"
| "visits nxt s p (x # xs) = (p = Some x \<and> ee_Ok p s \<and> visits nxt s (nxt p s) xs)"

lemma visits_gather: "visits nxt s p xs \<Longrightarrow> er_iter_loop nxt p er_gather (s, acc) = Some (s, acc @ map (\<lambda>a. Some (ElemErr a)) xs)"
  by (induction xs arbitrary: p acc) (subst er_iter_loop.simps, auto simp: er_gather_def)+

lemma er_ring_Ok: "er_ring s l as \<Longrightarrow> a \<in> set (ls_elm (ers s l) # as) \<Longrightarrow> ee_Ok (Some a) s \<longleftrightarrow> a \<noteq> ls_elm (ers s l)"
  unfolding er_ring_def ring_def ee_Ok_def by auto

lemma er_ring_root: "er_ring s l as \<Longrightarrow> er_root l s = (ls_elm (ers s l), s)"
proof -
  assume r: "er_ring s l as"
  define h where "h = ls_elm (ers s l)"
  have "ee_next (ees s h) \<noteq> None" "ee_prev (ees s h) \<noteq> None" "ee_list (ees s h) \<noteq> None"
    using r ring_first[of "\<lambda>a. ee_next (ees s a)" "\<lambda>a. ee_prev (ees s a)" h as] by (auto simp: er_ring_def h_def)
  then show ?thesis unfolding er_root_def Let_def h_def[symmetric] by (simp only: if_False)
qed

lemma visits_next:
  "er_ring s l (pre @ post) \<Longrightarrow> p = Some (hd (post @ [ls_elm (ers s l)])) \<or> (post = [] \<and> p = None) \<Longrightarrow> visits ee_Next s p post"
proof (induction post arbitrary: pre p)
  case Nil
  then show ?case using er_ring_Ok[of s l pre "ls_elm (ers s l)"] by (auto simp: ee_Ok_def)
next
  case (Cons x post)
  let ?h = "ls_elm (ers s l)"
  have r: "ring (\<lambda>a. ee_next (ees s a)) (\<lambda>a. ee_prev (ees s a)) ?h (pre @ x # post)" using Cons.prems(1) by (simp add: er_ring_def)
  have n: "ee_next (ees s x) = Some (hd (post @ [?h]))" using ring_at(1)[OF r] .
  have ok: "ee_Ok (Some x) s" using er_ring_Ok[OF Cons.prems(1), of x] r by (auto simp: ring_def)
  have "ee_Ok (Some (hd (post @ [?h]))) s \<longleftrightarrow> post \<noteq> []"
    using er_ring_Ok[OF Cons.prems(1), of "hd (post @ [?h])"] r by (cases post) (auto simp: ring_def)
  then have "visits ee_Next s (ee_Next (Some x) s) post"
    using Cons.prems(1) by (intro Cons.IH[of "pre @ [x]"]) (auto simp: ee_Next_def ok n)
  then show ?case using Cons.prems(2) ok by simp
qed

lemma visits_prev:
  "er_ring s l (pre @ post) \<Longrightarrow> p = Some (last (ls_elm (ers s l) # pre)) \<or> (pre = [] \<and> p = None) \<Longrightarrow> visits ee_Previous s p (rev pre)"
proof (induction pre arbitrary: post p rule: rev_induct)
  case Nil
  then show ?case using er_ring_Ok[of s l post "ls_elm (ers s l)"] by (auto simp: ee_Ok_def)
next
  case (snoc x pre)
  let ?h = "ls_elm (ers s l)"
  have r: "ring (\<lambda>a. ee_next (ees s a)) (\<lambda>a. ee_prev (ees s a)) ?h (pre @ x # post)" using snoc.prems(1) by (simp add: er_ring_def)
  have n: "ee_prev (ees s x) = Some (last (?h # pre))" using ring_at(2)[OF r] .
  have ok: "ee_Ok (Some x) s" using er_ring_Ok[OF snoc.prems(1), of x] r by (auto simp: ring_def)
  have "ee_Ok (Some (last (?h # pre))) s \<longleftrightarrow> pre \<noteq> []"
    using er_ring_Ok[OF snoc.prems(1), of "last (?h # pre)"] r by (cases pre rule: rev_cases) (auto simp: ring_def)
  then have "visits ee_Previous s (ee_Previous (Some x) s) (rev pre)"
    using snoc.prems(1) by (intro snoc.IH[of "x # post"]) (auto simp: ee_Previous_def ok n)
  then show ?case using snoc.prems(2) ok by simp
qed

lemma er_ring_ends:
  assumes "er_ring s l as"
  shows "er_Front l s = (Some (hd (as @ [ls_elm (ers s l)])), s)" "er_Back l s = (Some (last (ls_elm (ers s l) # as)), s)"
  using er_ring_root[OF assms] ring_first[of "\<lambda>a. ee_next (ees s a)" "\<lambda>a. ee_prev (ees s a)" "ls_elm (ers s l)" as] assms
  unfolding er_Front_def er_Back_def er_ring_def by auto

lemma er_fifo_ring: "er_ring s l as \<Longrightarrow> er_fifo l s = Some (map (\<lambda>a. Some (ElemErr a)) as)"
  using visits_gather[OF visits_next[of s l "[]" as "Some (hd (as @ [ls_elm (ers s l)]))"], of "[]"]
  by (simp add: er_fifo_def er_FIFO_def er_ring_ends(1))

lemma er_lifo_ring: "er_ring s l as \<Longrightarrow> er_lifo l s = Some (map (\<lambda>a. Some (ElemErr a)) (rev as))"
  using visits_gather[OF visits_prev[of s l as "[]" "Some (last (ls_elm (ers s l) # as))"], of "[]"]
  by (simp only: er_lifo_def er_LIFO_def er_ring_ends(2) fst_conv snd_conv prod.case append_Nil append_Nil2 option.map simp_thms if_True)

text \<open>\<open>errors.Is\<close> on the elements of a list asks the errors in them.\<close>

lemma is_any_elements:
  "\<forall>a\<in>set as. \<exists>e. ee_err (ees s a) = Some e \<and> foreign e \<Longrightarrow> foreign t \<Longrightarrow>
   is_any s (Some t) (map (\<lambda>a. Some (ElemErr a)) as) = Some (\<exists>e\<in>set (er_errs s as). holds_err t e)"
proof (induction as)
  case Nil then show ?case by (subst is_any.simps) (simp add: er_errs_def)
next
  case (Cons a as)
  obtain e where e: "ee_err (ees s a) = Some e" "foreign e" using Cons.prems by auto
  have t: "ElemErr a \<noteq> t" using Cons.prems(2) by auto
  have "is_any s (Some t) (map (\<lambda>a. Some (ElemErr a)) (a # as))
      = is_any s (Some t) (Some e # map (\<lambda>a. Some (ElemErr a)) as)"
    using t by (subst is_any.simps) (simp add: err_children_def e)
  then show ?case using is_any_append[of "[Some e]" s t] Cons e by (simp add: er_errs_def)
qed

subsection \<open>Collectors\<close>

lemma new_collector_rep:
  "\<exists>s1. new_collector s = (ers_n s, s1) \<and> er_rep s1 (ers_n s) [] \<and> ls_filter (ers s1 (ers_n s)) = None \<and> ers_n s < ers_n s1"
  by (simp add: new_collector_def new_ee_def er_rep_def er_fresh_def)

lemma From_Slice:
  "er_From l (Slice []) (s, c) = Some (s, c)"
  "er_From l (Slice (x # es)) (s, c) = do { s1 \<leftarrow> er_Push l x s; er_From l (Slice es) (s1, c) }"
  by (simp_all add: er_From_def yields_Slice[unfolded yields_def, rule_format]) (auto split: Option.bind_splits)

lemma From_Slice_foreign:
  "er_rep s l as \<Longrightarrow> ls_filter (ers s l) = None \<Longrightarrow> \<forall>x\<in>set es. opt_foreign x \<Longrightarrow>
   \<exists>s' new. er_From l (Slice es) (s, c) = Some (s', c) \<and> er_rep s' l (as @ new) \<and> er_errs s' (as @ new) = er_errs s as @ all_leaves es
     \<and> er_frame s s' l"
proof (induction es arbitrary: s as)
  case Nil
  then show ?case by (auto simp: From_Slice intro!: exI[of _ "[]"])
next
  case (Cons x es)
  obtain s1 new where 1: "er_Push l x s = Some s1" "er_rep s1 l (as @ new)" "er_errs s1 (as @ new) = er_errs s as @ all_leaves [x]"
      "er_frame s s1 l"
    using Push_loop_foreign[OF Cons.prems(1,2), of "[x]"] Cons.prems(3) unfolding er_Push_def by auto
  have "ls_filter (ers s1 l) = None" using 1(4) Cons.prems(2) by (simp add: er_frame_def)
  then obtain s2 new2 where 2: "er_From l (Slice es) (s1, c) = Some (s2, c)" "er_rep s2 l ((as @ new) @ new2)"
      "er_errs s2 ((as @ new) @ new2) = er_errs s1 (as @ new) @ all_leaves es" "er_frame s1 s2 l"
    using Cons.IH[OF 1(2)] Cons.prems(3) by auto
  have "er_From l (Slice (x # es)) (s, c) = er_From l (Slice es) (s1, c)" using 1(1) by (simp add: From_Slice)
  then show ?case using 1(3) 2 er_frame_trans[OF 1(4) 2(4)] all_leaves_simps(4)[of "[x]" es]
    by (intro exI[of _ s2] exI[of _ "new @ new2"]) simp
qed

text \<open>What a collector holds, and what \<open>Err\<close> and \<open>errors.Is\<close> make of it.\<close>

definition collector_errs :: "nat \<Rightarrow> estore \<Rightarrow> err option list option" where
  "collector_errs c s = map_option (map (\<lambda>x. case x of Some (ElemErr a) \<Rightarrow> ee_Err a s | _ \<Rightarrow> x)) (er_fifo c s)"

lemma er_rep_nonempty: "er_rep s l as \<Longrightarrow> as \<noteq> [] \<Longrightarrow> er_ring s l as"
  by (auto simp: er_rep_def)

lemma er_rep_len: "er_rep s l as \<Longrightarrow> ls_num (ers s l) = int (length as)"
  by (auto simp: er_rep_def er_ring_def er_fresh_def)

lemma collector_answers:
  assumes "er_rep s c as" "er_errs s as = ls" "\<forall>e\<in>set ls. foreign e" "foreign t"
  shows "\<exists>r. Collector_Err c s = Some (r, s)
     \<and> r = (case ls of [] \<Rightarrow> None | [e] \<Rightarrow> Some e | _ \<Rightarrow> Some (CollectorErr c))
     \<and> (2 \<le> length ls \<longrightarrow> collector_errs c s = Some (map Some ls))
     \<and> errors_Is s r (Some t) = Some (\<exists>e\<in>set ls. holds_err t e)"
proof -
  have len: "length ls = length as" using assms(2) by (auto simp: er_errs_def)
  have n: "ls_num (ers s c) = int (length as)" using assms(1) by (rule er_rep_len)
  show ?thesis
  proof (cases as rule: list.exhaust[case_names Nil Cons])
    case Nil
    then show ?thesis using n len by (simp add: Collector_Err_def er_Len_def errors_Is_def)
  next
    case (Cons a rest)
    then have r: "er_ring s c as" using assms(1) by (simp add: er_rep_nonempty)
    have val: "\<exists>e. ee_err (ees s x) = Some e \<and> foreign e" if "x \<in> set as" for x
      using r that assms(2,3) by (fastforce simp: er_ring_def er_errs_def)
    show ?thesis
    proof (cases rest)
      case Nil
      obtain e where e: "ee_err (ees s a) = Some e" "foreign e" using val[of a] Cons by auto
      then have "ls = [e]" using assms(2) Cons Nil by (auto simp: er_errs_def)
      then show ?thesis using n Cons Nil er_ring_ends(1)[OF r] e is_any_foreign[of "[Some e]" s t]
        by (simp add: Collector_Err_def er_Len_def errors_Is_def ee_Err_def)
    next
      case (Cons b rest')
      obtain x y zs where ls: "ls = x # y # zs" using len \<open>as = a # rest\<close> Cons by (metis length_Suc_conv length_Cons)
      have "CollectorErr c \<noteq> t" using assms(4) by auto
      then have "is_any s (Some t) [Some (CollectorErr c)] = is_any s (Some t) (map (\<lambda>a. Some (ElemErr a)) (rev as))"
        by (subst is_any.simps) (simp add: err_children_def er_lifo_ring[OF r])
      also have "\<dots> = Some (\<exists>e\<in>set ls. holds_err t e)"
        using is_any_elements[of "rev as" s t] val assms(2,4) by (auto simp: er_errs_def)
      finally have "errors_Is s (Some (CollectorErr c)) (Some t) = Some (\<exists>e\<in>set ls. holds_err t e)" by (simp add: errors_Is_def)
      moreover have "collector_errs c s = Some (map Some ls)"
        using assms(2) val by (fastforce simp: collector_errs_def er_fifo_ring[OF r] er_errs_def ee_Err_def)
      ultimately show ?thesis using n \<open>as = a # rest\<close> Cons ls by (simp add: Collector_Err_def er_Len_def)
    qed
  qed
qed

lemma Join_collects:
  assumes "\<forall>x\<in>set errs. opt_foreign x"
  shows "\<exists>s1 s2 as. new_collector s = (ers_n s, s1) \<and> Collector_Join (ers_n s) errs s1 = Some s2 \<and> er_rep s2 (ers_n s) as
     \<and> er_errs s2 as = all_leaves errs \<and> ls_filter (ers s2 (ers_n s)) = None \<and> ers_n s < ers_n s2"
proof -
  obtain s1 where s1: "new_collector s = (ers_n s, s1)" "er_rep s1 (ers_n s) []" "ls_filter (ers s1 (ers_n s)) = None" "ers_n s < ers_n s1"
    using new_collector_rep by blast
  have "\<exists>s2 as. Collector_Join (ers_n s) errs s1 = Some s2 \<and> er_rep s2 (ers_n s) as \<and> er_errs s2 as = all_leaves errs \<and> er_frame s1 s2 (ers_n s)"
  proof (cases errs rule: list.exhaust[case_names Nil Cons])
    case Nil
    then show ?thesis using s1(2) by (auto simp: Collector_Join_def er_errs_def)
  next
    case (Cons x rest)
    show ?thesis
    proof (cases rest)
      case Nil
      have ok: "IsError x s1 \<or> x = None" using assms(1) Cons by (cases x; cases "the x") (auto simp: IsError_def IsOk_def)
      have "\<exists>s2 as. er_Push (ers_n s) x s1 = Some s2 \<and> er_rep s2 (ers_n s) as \<and> er_errs s2 as = all_leaves errs \<and> er_frame s1 s2 (ers_n s)"
        using Push_loop_foreign[OF s1(2,3) assms(1)] Cons Nil by (auto simp: er_Push_def er_errs_def)
      then show ?thesis using ok s1(2) Cons Nil
        by (auto simp: Collector_Join_def Collector_Push_def Collector_pushWithLock_def er_errs_def IsError_def IsOk_def)
    next
      case (Cons y zs)
      then show ?thesis using From_Slice_foreign[OF s1(2,3) assms(1), of "()"] \<open>errs = x # rest\<close>
        by (auto simp: Collector_Join_def Collector_addWithLock_def er_errs_def)
    qed
  qed
  then show ?thesis using s1 by (fastforce simp: er_frame_def)
qed

text \<open>
  C17: \<open>Join\<close> of errors made elsewhere, on any store.  The result is nil when no error is left after nil errors have
  been dropped and errors that hold several ones have been taken apart, the one error itself when one is left,
  and otherwise a new collector that holds them all in order.  In each case \<open>errors.Is\<close> finds in the result
  exactly the errors that it finds in one of those that are left.
\<close>

theorem Join_aggregates:
  assumes "\<forall>x\<in>set errs. opt_foreign x" "foreign t"
  shows "\<exists>r s'. erc_Join errs s = Some (r, s')
     \<and> r = (case all_leaves errs of [] \<Rightarrow> None | [e] \<Rightarrow> Some e | _ \<Rightarrow> Some (CollectorErr (ers_n s)))
     \<and> (2 \<le> length (all_leaves errs) \<longrightarrow> collector_errs (ers_n s) s' = Some (map Some (all_leaves errs)))
     \<and> errors_Is s' r (Some t) = Some (\<exists>e\<in>set (all_leaves errs). holds_err t e)"
proof -
  obtain s1 s2 as where s2: "new_collector s = (ers_n s, s1)" "Collector_Join (ers_n s) errs s1 = Some s2" "er_rep s2 (ers_n s) as"
      "er_errs s2 as = all_leaves errs" using Join_collects[OF assms(1)] by blast
  have "\<forall>e\<in>set (all_leaves errs). foreign e"
    using assms(1) foreign_leaves by (fastforce simp: all_leaves_def split: option.splits)
  from collector_answers[OF s2(3,4) this assms(2)] show ?thesis using s2(1,2) by (auto simp: erc_Join_def)
qed

lemma Join_aggregates_witness:
  "\<exists>r s'. erc_Join [Some (Multi 1 [Some (Opaque 2 ''a''), None, Some (Wrapped 3 ''b'' (ErsError ''c''))])] \<lparr>ees = (\<lambda>_. undefined), ees_n = 0, ers = (\<lambda>_. undefined), ers_n = 7\<rparr> = Some (r, s')
     \<and> r = Some (CollectorErr 7) \<and> errors_Is s' r (Some (ErsError ''c'')) = Some True"
  using Join_aggregates[of "[Some (Multi 1 [Some (Opaque 2 ''a''), None, Some (Wrapped 3 ''b'' (ErsError ''c''))])]" "ErsError ''c''"
      "\<lparr>ees = (\<lambda>_. undefined), ees_n = 0, ers = (\<lambda>_. undefined), ers_n = 7\<rparr>"]
  by auto

subsection \<open>Pushing the elements of a collector\<close>

fun tails :: "'a list \<Rightarrow> 'a list list" where
  "tails [] = []"
| "tails (x # xs) = (x # xs) # tails xs"

lemma er_push_from_step:
  "er_rep s l as \<Longrightarrow> er_ring s c (pre @ post) \<Longrightarrow> c \<noteq> l \<Longrightarrow>
   p = Some (hd (post @ [ls_elm (ers s c)])) \<or> (post = [] \<and> p = None) \<Longrightarrow>
   \<exists>s' new. er_push_from l p s = Some s' \<and> er_rep s' l (as @ new) \<and> er_errs s' (as @ new) = er_errs s as @ er_errs s post \<and> er_frame s s' l"
proof (induction post arbitrary: s as pre p)
  case Nil
  then have "\<not> ee_Ok p s" using visits_next[OF Nil.prems(2), of p] by simp
  then show ?case using Nil.prems(1) by (subst er_push_from.simps) (auto simp: er_errs_def intro!: exI[of _ "[]"])
next
  case (Cons x post)
  let ?h = "ls_elm (ers s c)"
  have ok: "p = Some x" "ee_Ok (Some x) s" using visits_next[OF Cons.prems(2,4)] by auto
  then obtain e where e: "ee_err (ees s x) = Some e" by (auto simp: ee_Ok_def)
  obtain s1 v where 1: "er_PushBack l (Some e) s = Some s1" "er_ring s1 l (as @ [v])" "er_errs s1 (as @ [v]) = er_errs s as @ [e]"
      "er_frame s s1 l" using er_PushBack_step[OF Cons.prems(1), of e] by blast
  have r1: "er_ring s1 c ((pre @ [x]) @ post)" "er_errs s1 (pre @ x # post) = er_errs s (pre @ x # post)"
    using er_frame_ring[OF 1(4) Cons.prems(2) Cons.prems(3) Cons.prems(1)] by simp_all
  have "ers s1 c = ers s c" using 1(4) Cons.prems(3) by (simp add: er_frame_def)
  moreover have "visits ee_Next s1 (Some x) (x # post)"
    using visits_next[of s1 c pre "x # post" "Some x"] r1(1) by simp
  moreover have "ring (\<lambda>a. ee_next (ees s1 a)) (\<lambda>a. ee_prev (ees s1 a)) (ls_elm (ers s1 c)) (pre @ x # post)"
    using r1(1) by (simp add: er_ring_def)
  ultimately have nx: "ee_Next (Some x) s1 = Some (hd (post @ [ls_elm (ers s1 c)])) \<or> (post = [] \<and> ee_Next (Some x) s1 = None)"
    using ring_at(1)[of "\<lambda>a. ee_next (ees s1 a)"] by (cases post) (auto simp: ee_Next_def)
  obtain s2 new where 2: "er_push_from l (ee_Next (Some x) s1) s1 = Some s2" "er_rep s2 l ((as @ [v]) @ new)"
      "er_errs s2 ((as @ [v]) @ new) = er_errs s1 (as @ [v]) @ er_errs s1 post" "er_frame s1 s2 l"
    using Cons.IH[OF _ r1(1) Cons.prems(3) nx, of "as @ [v]"] 1(2) by (auto simp: er_rep_def)
  have "er_push_from l p s = Some s2" using ok 1(1) 2(1) by (subst er_push_from.simps) (simp add: ee_Err_def e)
  moreover have "er_errs s1 post = er_errs s post" using r1(2) by (simp add: er_errs_def)
  ultimately show ?case using 1(3) 2 er_frame_trans[OF 1(4) 2(4)] e
    by (intro exI[of _ s2] exI[of _ "v # new"]) (simp add: er_errs_def)
qed

lemma er_errs_simps: "er_errs s [] = []" "er_errs s (x # xs) = the (ee_err (ees s x)) # er_errs s xs"
    "er_errs s (xs @ ys) = er_errs s xs @ er_errs s ys"
  by (simp_all add: er_errs_def)

lemma From_elements:
  "er_rep s l as \<Longrightarrow> ls_filter (ers s l) = None \<Longrightarrow> er_ring s c (pre @ post) \<Longrightarrow> c \<noteq> l \<Longrightarrow>
   \<exists>s' new. er_From l (Slice (map (\<lambda>a. Some (ElemErr a)) post)) (s, d) = Some (s', d) \<and> er_rep s' l (as @ new)
     \<and> er_errs s' (as @ new) = er_errs s as @ concat (tails (er_errs s post)) \<and> er_frame s s' l"
proof (induction post arbitrary: s as pre)
  case Nil
  then show ?case by (auto simp: From_Slice er_errs_def intro!: exI[of _ "[]"])
next
  case (Cons x post)
  have in_c: "ee_Ok (Some x) s" "\<not> ee_In x l s"
    using visits_next[OF Cons.prems(3), of "Some x"] Cons.prems(3,4) by (auto simp: er_ring_def ee_In_def)
  obtain s1 new where 1: "er_push_from l (Some x) s = Some s1" "er_rep s1 l (as @ new)"
      "er_errs s1 (as @ new) = er_errs s as @ er_errs s (x # post)" "er_frame s s1 l"
    using er_push_from_step[OF Cons.prems(1,3,4), of "Some x"] by auto
  have push: "er_Push l (Some (ElemErr x)) s = Some s1"
    unfolding er_Push_def by (subst er_Push_loop.simps) (simp add: Filter_Apply_def Cons.prems(2) in_c 1(1), subst er_Push_loop.simps, simp)
  have r1: "er_ring s1 c ((pre @ [x]) @ post)" "er_errs s1 (pre @ x # post) = er_errs s (pre @ x # post)"
    using er_frame_ring[OF 1(4) Cons.prems(3,4,1)] by simp_all
  have "ls_filter (ers s1 l) = None" using 1(4) Cons.prems(2) by (simp add: er_frame_def)
  then obtain s2 new2 where 2: "er_From l (Slice (map (\<lambda>a. Some (ElemErr a)) post)) (s1, d) = Some (s2, d)" "er_rep s2 l ((as @ new) @ new2)"
      "er_errs s2 ((as @ new) @ new2) = er_errs s1 (as @ new) @ concat (tails (er_errs s1 post))" "er_frame s1 s2 l"
    using Cons.IH[OF 1(2) _ r1(1) Cons.prems(4)] by blast
  moreover have "er_errs s1 post = er_errs s post" using r1(2) by (simp add: er_errs_def)
  ultimately show ?case using 1(3) push er_frame_trans[OF 1(4) 2(4)]
    by (intro exI[of _ s2] exI[of _ "new @ new2"]) (simp add: From_Slice er_errs_simps)
qed

lemma new_collector_other:
  assumes "new_collector s = (d, s')" "er_ring s c as" "c < ers_n s"
  shows "er_ring s' c as" "er_errs s' as = er_errs s as"
proof -
  have keep: "ees s' a = ees s a" if "a < ees_n s" for a
    using assms(1) that by (auto simp: new_collector_def new_ee_def)
  have e: "ers s' c = ers s c" "ees_n s \<le> ees_n s'" using assms(1,3) by (auto simp: new_collector_def new_ee_def)
  have low: "\<And>a. a \<in> set (ls_elm (ers s c) # as) \<Longrightarrow> a < ees_n s" using assms(2) by (auto simp: er_ring_def)
  have "ring (\<lambda>a. ee_next (ees s' a)) (\<lambda>a. ee_prev (ees s' a)) (ls_elm (ers s c)) as"
    using assms(2) ring_cong[of "ls_elm (ers s c)" as "\<lambda>a. ee_next (ees s' a)"] by (simp add: er_ring_def keep low)
  then show "er_ring s' c as" using assms(2) e by (auto simp: er_ring_def keep)
  show "er_errs s' as = er_errs s as" using low by (simp add: er_errs_def keep)
qed

text \<open>
  The errors that \<open>Unwrap\<close> of a collector returns are its elements, and a collector takes from an element
  all the errors from it to the end of its list.  So joining what a collector of \<open>n\<close> errors unwraps to gives one
  of \<open>n * (n + 1) / 2\<close> errors: all of them, then all but the first, and so on.
\<close>

theorem Join_of_Unwrap_repeats:
  assumes "\<forall>x\<in>set errs. opt_foreign x" "2 \<le> length (all_leaves errs)" "erc_Join errs s = Some (Some (CollectorErr c), s1)"
  shows "\<exists>us d s2. Collector_Unwrap c s1 = Some us \<and> erc_Join us s1 = Some (Some (CollectorErr d), s2)
     \<and> collector_errs d s2 = Some (map Some (concat (tails (all_leaves errs))))
     \<and> 2 * Collector_Len d s2 = Collector_Len c s1 * (Collector_Len c s1 + 1)"
proof -
  let ?ls = "all_leaves errs"
  have fl: "\<forall>e\<in>set ?ls. foreign e"
    using assms(1) foreign_leaves by (fastforce simp: all_leaves_def split: option.splits)
  obtain s0 s2 as where j: "new_collector s = (ers_n s, s0)" "Collector_Join (ers_n s) errs s0 = Some s2" "er_rep s2 (ers_n s) as"
      "er_errs s2 as = ?ls" "ers_n s < ers_n s2" using Join_collects[OF assms(1)] by blast
  obtain x y zs where ls: "?ls = x # y # zs" using assms(2) by (cases ?ls rule: list.exhaust[case_names Nil Cons]; cases "tl ?ls") auto
  obtain a b rest where as: "as = a # b # rest" using j(4) ls by (cases as rule: list.exhaust[case_names Nil Cons]; cases "tl as") (auto simp: er_errs_def)
  have c: "c = ers_n s" "s1 = s2" and "collector_errs c s1 = Some (map Some ?ls)"
    using collector_answers[OF j(3,4) fl, of "Opaque 0 []"] assms(3) j(1,2) ls by (auto simp: erc_Join_def)
  have r: "er_ring s1 c as" using j(3) as c by (simp add: er_rep_nonempty)
  have un: "Collector_Unwrap c s1 = Some (map (\<lambda>a. Some (ElemErr a)) as)"
    using er_fifo_ring[OF r] er_rep_len[OF j(3)] as c by (simp add: Collector_Unwrap_def er_Unwrap_def)
  define d where "d = ers_n s1"
  obtain s3 where s3: "new_collector s1 = (d, s3)" "er_rep s3 d []" "ls_filter (ers s3 d) = None" "er_ring s3 c as" "er_errs s3 as = ?ls"
    using new_collector_rep[of s1] new_collector_other[OF _ r] j(4,5) c unfolding d_def by metis
  have dc: "c \<noteq> d" using j(5) c by (simp add: d_def)
  have "er_ring s3 c ([] @ as)" using s3(4) by simp
  from From_elements[OF s3(2,3) this dc, of "()"] obtain s4 new where s4:
    "er_From d (Slice (map (\<lambda>a. Some (ElemErr a)) as)) (s3, ()) = Some (s4, ())" "er_rep s4 d new" "er_errs s4 new = concat (tails ?ls)"
    using s3(5) by (auto simp: er_errs_def)
  have join: "Collector_Join d (map (\<lambda>a. Some (ElemErr a)) as) s3 = Some s4"
    using s4(1) as by (simp add: Collector_Join_def Collector_addWithLock_def)
  have tl: "2 * length (concat (tails xs)) = length xs * (length xs + 1)" for xs :: "err list" by (induction xs) auto
  have sub: "set (concat (tails xs)) \<subseteq> set xs" for xs :: "err list" by (induction xs) auto
  have "\<forall>e\<in>set (concat (tails ?ls)). foreign e" using fl sub[of ?ls] by blast
  from collector_answers[OF s4(2,3) this, of "Opaque 0 []"] have
    "Collector_Err d s4 = Some (Some (CollectorErr d), s4)" "collector_errs d s4 = Some (map Some (concat (tails ?ls)))" by (auto simp: ls)
  note fin = this
  have "length new = length (concat (tails ?ls))" using s4(3) by (metis er_errs_def length_map)
  moreover have "length as = length ?ls" using j(4) by (metis er_errs_def length_map)
  ultimately have "2 * int (length new) = int (length as) * (int (length as) + 1)"
    using tl[of ?ls] by (metis of_nat_1 of_nat_add of_nat_mult of_nat_numeral)
  then have "2 * Collector_Len d s4 = Collector_Len c s1 * (Collector_Len c s1 + 1)"
    using er_rep_len[OF s4(2)] er_rep_len[OF j(3)] c by (simp add: Collector_Len_def er_Len_def)
  then show ?thesis using fin un join s3(1) by (auto simp: erc_Join_def)
qed

lemma Join_of_Unwrap_repeats_witness:
  "\<exists>c s1 us d s2. erc_Join [Some (Opaque 1 ''a''), Some (Opaque 2 ''b'')] \<lparr>ees = (\<lambda>_. undefined), ees_n = 0, ers = (\<lambda>_. undefined), ers_n = 0\<rparr> = Some (Some (CollectorErr c), s1)
     \<and> Collector_Unwrap c s1 = Some us \<and> erc_Join us s1 = Some (Some (CollectorErr d), s2)
     \<and> collector_errs d s2 = Some [Some (Opaque 1 ''a''), Some (Opaque 2 ''b''), Some (Opaque 2 ''b'')]"
proof -
  let ?es = "[Some (Opaque 1 ''a''), Some (Opaque 2 ''b'')]" and ?s = "\<lparr>ees = (\<lambda>_. undefined), ees_n = 0, ers = (\<lambda>_. undefined), ers_n = 0\<rparr>"
  obtain s1 s2 as where j: "new_collector ?s = (0, s1)" "Collector_Join 0 ?es s1 = Some s2" "er_rep s2 0 as"
      "er_errs s2 as = all_leaves ?es" using Join_collects[of ?es ?s] by auto
  have "erc_Join ?es ?s = Some (Some (CollectorErr 0), s2)"
    using collector_answers[OF j(3,4), of "Opaque 0 []"] j(1,2) by (auto simp: erc_Join_def)
  from this Join_of_Unwrap_repeats[OF _ _ this] show ?thesis by auto
qed

end
