(* ===== verification/GoBytes.thy ===== *)
theory GoBytes
  imports Prelude "HOL-Library.Word" "HOL-Library.Sublist"
begin

text \<open>
  Byte slices as lists, and what the text packages use of the packages \<open>bytes\<close>, \<open>unicode/utf8\<close> and
  \<open>strconv\<close> of the Go library: searching and replacing, the UTF-8 code, and unquoting.
\<close>

type_synonym byte = "8 word"

text \<open>The bytes of a literal.\<close>

definition str :: "string \<Rightarrow> byte list" where "str s = map of_char s"

lemma length_str [simp]: "length (str s) = length s"
  by (simp add: str_def)

subsection \<open>Searching\<close>

primrec find_at :: "'a list \<Rightarrow> 'a list \<Rightarrow> nat option" where
  "find_at p [] = (if p = [] then Some 0 else None)"
| "find_at p (x # xs) = (if prefix p (x # xs) then Some 0 else map_option Suc (find_at p xs))"

primrec find_last :: "'a list \<Rightarrow> 'a list \<Rightarrow> nat option" where
  "find_last p [] = (if p = [] then Some 0 else None)"
| "find_last p (x # xs) =
     (case find_last p xs of Some i \<Rightarrow> Some (Suc i) | None \<Rightarrow> if prefix p (x # xs) then Some 0 else None)"

definition index_of :: "nat option \<Rightarrow> int" where
  "index_of i = (case i of None \<Rightarrow> -1 | Some n \<Rightarrow> int n)"

definition bytes_Index :: "byte list \<Rightarrow> byte list \<Rightarrow> int" where "bytes_Index s sep = index_of (find_at sep s)"
definition bytes_LastIndex :: "byte list \<Rightarrow> byte list \<Rightarrow> int" where "bytes_LastIndex s sep = index_of (find_last sep s)"

lemma bytes_Index_neg [simp]: "bytes_Index s p < 0 \<longleftrightarrow> find_at p s = None"
  by (simp add: bytes_Index_def index_of_def split: option.split)

lemma nat_bytes_Index [simp]: "find_at p s = Some i \<Longrightarrow> bytes_Index s p = int i"
  by (simp add: bytes_Index_def index_of_def)

lemma find_at_Some: "find_at p s = Some i \<Longrightarrow> i + length p \<le> length s \<and> s = take i s @ p @ drop (i + length p) s"
proof (induction s arbitrary: i)
  case (Cons x xs)
  show ?case
  proof (cases "prefix p (x # xs)")
    case True
    then show ?thesis using Cons.prems prefix_length_le[OF True] by (auto simp: prefix_def)
  next
    case False
    then obtain j where j: "i = Suc j" "find_at p xs = Some j" using Cons.prems by auto
    show ?thesis using Cons.IH[OF j(2)] j(1) by auto
  qed
qed (auto split: if_splits)

lemma find_at_shorter: "find_at p s = Some i \<Longrightarrow> p \<noteq> [] \<Longrightarrow> length s - (i + length p) < length s"
  by (drule find_at_Some) (cases p; auto)

text \<open>The first occurrence: none begins before it.\<close>

lemma find_at_first: "find_at p s = Some i \<Longrightarrow> j < i \<Longrightarrow> \<not> prefix p (drop j s)"
proof (induction s arbitrary: i j)
  case (Cons x xs)
  then show ?case by (cases j) (auto split: if_splits)
qed (auto split: if_splits)

lemma find_at_None: "find_at p s = None \<longleftrightarrow> \<not> sublist p s"
proof (induction s)
  case (Cons x xs)
  then show ?case by (auto simp: sublist_Cons_right)
qed simp

subsection \<open>Replacing\<close>

text \<open>\<open>bytes.Replace\<close> for a pattern that is not empty; a negative limit is none.\<close>

function replace_bytes :: "'a list \<Rightarrow> 'a list \<Rightarrow> int \<Rightarrow> 'a list \<Rightarrow> 'a list" where
  "replace_bytes old new n s =
     (if n = 0 \<or> old = [] then s
      else case find_at old s of
             None \<Rightarrow> s
           | Some i \<Rightarrow> take i s @ new @ replace_bytes old new (n - 1) (drop (i + length old) s))"
  by pat_completeness auto
termination
  by (relation "measure (\<lambda>(old, _, _, s). length s)") (auto dest: find_at_shorter)

declare replace_bytes.simps [simp del]

definition bytes_Replace :: "byte list \<Rightarrow> byte list \<Rightarrow> byte list \<Rightarrow> int \<Rightarrow> byte list" where
  "bytes_Replace s old new n = replace_bytes old new (if n < 0 then -1 else n) s"

text \<open>The positions that are replaced.\<close>

function match_positions :: "'a list \<Rightarrow> int \<Rightarrow> nat \<Rightarrow> 'a list \<Rightarrow> nat list" where
  "match_positions old n start s =
     (if n = 0 \<or> old = [] then []
      else case find_at old s of
             None \<Rightarrow> []
           | Some i \<Rightarrow> (start + i) # match_positions old (n - 1) (start + i + length old) (drop (i + length old) s))"
  by pat_completeness auto
termination
  by (relation "measure (\<lambda>(old, _, _, s). length s)") (auto dest: find_at_shorter)

declare match_positions.simps [simp del]

subsection \<open>UTF-8\<close>

definition cont :: "byte \<Rightarrow> bool" where "cont b \<longleftrightarrow> 128 \<le> unat b \<and> unat b < 192"

definition runeError :: nat where "runeError = 65533"

text \<open>\<open>utf8.DecodeRune\<close>: the rune and the number of bytes; an invalid byte counts as one rune.\<close>

definition second_low :: "nat \<Rightarrow> nat" where
  "second_low a = (if a = 224 then 160 else if a = 240 then 144 else 128)"

definition second_high :: "nat \<Rightarrow> nat" where
  "second_high a = (if a = 237 then 159 else if a = 244 then 143 else 191)"

definition utf8_DecodeRune :: "byte list \<Rightarrow> nat \<times> nat" where
  "utf8_DecodeRune bs =
     (case bs of
        [] \<Rightarrow> (runeError, 0)
      | b0 # r0 \<Rightarrow>
         let a = unat b0 in
         if a < 128 then (a, 1)
         else if a < 194 \<or> 244 < a then (runeError, 1)
         else case r0 of
                [] \<Rightarrow> (runeError, 1)
              | b1 # r1 \<Rightarrow>
                 if unat b1 < second_low a \<or> second_high a < unat b1 then (runeError, 1)
                 else if a < 224 then ((a - 192) * 64 + (unat b1 - 128), 2)
                 else case r1 of
                        [] \<Rightarrow> (runeError, 1)
                      | b2 # r2 \<Rightarrow>
                         if \<not> cont b2 then (runeError, 1)
                         else if a < 240 then ((a - 224) * 4096 + (unat b1 - 128) * 64 + (unat b2 - 128), 3)
                         else case r2 of
                                [] \<Rightarrow> (runeError, 1)
                              | b3 # _ \<Rightarrow>
                                 if \<not> cont b3 then (runeError, 1)
                                 else ((a - 240) * 262144 + (unat b1 - 128) * 4096 + (unat b2 - 128) * 64 + (unat b3 - 128), 4))"

definition rune_size :: "byte list \<Rightarrow> nat" where "rune_size bs = snd (utf8_DecodeRune bs)"

lemma rune_size_Nil [simp]: "rune_size [] = 0"
  by (simp add: rune_size_def utf8_DecodeRune_def)

lemma rune_size_bounds: "bs \<noteq> [] \<Longrightarrow> 0 < rune_size bs \<and> rune_size bs \<le> length bs"
  by (auto simp: rune_size_def utf8_DecodeRune_def Let_def split: list.split)

text \<open>The bytes of each rune.\<close>

function runes :: "byte list \<Rightarrow> byte list list" where
  "runes bs = (if bs = [] then [] else take (rune_size bs) bs # runes (drop (rune_size bs) bs))"
  by pat_completeness auto
termination
  by (relation "measure length") (use rune_size_bounds in auto)

declare runes.simps [simp del]

lemma runes_Nil [simp]: "runes [] = []"
  by (simp add: runes.simps)

lemma concat_runes [simp]: "concat (runes bs) = bs"
  by (induction bs rule: runes.induct) (subst runes.simps, simp)

definition utf8_RuneCount :: "byte list \<Rightarrow> int" where "utf8_RuneCount bs = int (length (runes bs))"

definition utf8_Valid :: "byte list \<Rightarrow> bool" where
  "utf8_Valid bs \<longleftrightarrow> (\<forall>r\<in>set (runes bs). 1 < length r \<or> unat (hd r) < 128)"

text \<open>\<open>utf8.EncodeRune\<close>, of a rune as a signed number.\<close>

definition utf8_EncodeRune :: "int \<Rightarrow> byte list" where
  "utf8_EncodeRune r0 =
     (let r = (if r0 < 0 \<or> 1114111 < r0 \<or> 55296 \<le> r0 \<and> r0 \<le> 57343 then runeError else nat r0) in
      if r < 128 then [of_nat r]
      else if r < 2048 then [of_nat (192 + r div 64), of_nat (128 + r mod 64)]
      else if r < 65536 then [of_nat (224 + r div 4096), of_nat (128 + (r div 64) mod 64), of_nat (128 + r mod 64)]
      else [of_nat (240 + r div 262144), of_nat (128 + (r div 4096) mod 64), of_nat (128 + (r div 64) mod 64), of_nat (128 + r mod 64)])"

subsection \<open>Unquoting\<close>

text \<open>
  \<open>strconv.Unquote\<close> for text in double quotes: the value of the Go string literal, or \<open>None\<close> as the result for a
  syntax error.  An unescaped character is a byte, or a rune that is encoded again.
\<close>

definition unhex :: "byte \<Rightarrow> nat option" where
  "unhex b = (let a = unat b in
     if 48 \<le> a \<and> a \<le> 57 then Some (a - 48)
     else if 97 \<le> a \<and> a \<le> 102 then Some (a - 97 + 10)
     else if 65 \<le> a \<and> a \<le> 70 then Some (a - 65 + 10) else None)"

fun hex_value :: "nat \<Rightarrow> nat \<Rightarrow> byte list \<Rightarrow> (nat \<times> byte list) option" where
  "hex_value 0 v s = Some (v, s)"
| "hex_value (Suc k) v [] = None"
| "hex_value (Suc k) v (b # s) = (case unhex b of None \<Rightarrow> None | Some x \<Rightarrow> hex_value k (v * 16 + x) s)"

fun octal_value :: "nat \<Rightarrow> nat \<Rightarrow> byte list \<Rightarrow> (nat \<times> byte list) option" where
  "octal_value 0 v s = Some (v, s)"
| "octal_value (Suc k) v [] = None"
| "octal_value (Suc k) v (b # s) = (if 48 \<le> unat b \<and> unat b \<le> 55 then octal_value k (v * 8 + (unat b - 48)) s else None)"

definition valid_rune :: "nat \<Rightarrow> bool" where
  "valid_rune v \<longleftrightarrow> v < 55296 \<or> 57343 < v \<and> v \<le> 1114111"

text \<open>The value, whether it is encoded as a rune, and the rest.\<close>

definition unquote_hex :: "nat \<Rightarrow> byte list \<Rightarrow> (nat \<times> bool \<times> byte list) option" where
  "unquote_hex k s = (case hex_value k 0 s of None \<Rightarrow> None | Some (v, r) \<Rightarrow> if valid_rune v then Some (v, True, r) else None)"

definition unquote_char :: "byte list \<Rightarrow> (nat \<times> bool \<times> byte list) option" where
  "unquote_char s =
     (case s of
        [] \<Rightarrow> None
      | c # r \<Rightarrow>
          if c = 34 then None
          else if unat c \<ge> 128 then (case utf8_DecodeRune s of (v, k) \<Rightarrow> Some (v, True, drop k s))
          else if c \<noteq> 92 then Some (unat c, False, r)
          else (case r of
                  [] \<Rightarrow> None
                | d # t \<Rightarrow>
                    if d = 97 then Some (7, False, t)
                    else if d = 98 then Some (8, False, t)
                    else if d = 102 then Some (12, False, t)
                    else if d = 110 then Some (10, False, t)
                    else if d = 114 then Some (13, False, t)
                    else if d = 116 then Some (9, False, t)
                    else if d = 118 then Some (11, False, t)
                    else if d = 120 then map_option (\<lambda>(v, r). (v, False, r)) (hex_value 2 0 t)
                    else if d = 117 then unquote_hex 4 t
                    else if d = 85 then unquote_hex 8 t
                    else if 48 \<le> unat d \<and> unat d \<le> 55
                      then (case octal_value 2 (unat d - 48) t of None \<Rightarrow> None | Some (v, r) \<Rightarrow> if 255 < v then None else Some (v, False, r))
                    else if d = 92 then Some (92, False, t)
                    else if d = 34 then Some (34, False, t)
                    else None))"

partial_function (option) unquote_loop :: "byte list \<Rightarrow> byte list \<Rightarrow> (byte list \<times> byte list) option option" where
  "unquote_loop buf s =
     (if s = [] \<or> hd s = 34 then Some (Some (buf, s))
      else case unquote_char s of
             None \<Rightarrow> Some None
           | Some (v, multibyte, rem) \<Rightarrow>
               if hd s = 10 then Some None
               else if v < 128 \<or> \<not> multibyte then unquote_loop (buf @ [of_nat v]) rem
               else unquote_loop (buf @ utf8_EncodeRune (int v)) rem)"

text \<open>Without an escape or a newline up to the next quote, valid text is taken as it is.\<close>

definition strconv_Unquote :: "byte list \<Rightarrow> byte list option option" where
  "strconv_Unquote s =
     (if length s < 2 \<or> hd s \<noteq> 34 then Some None
      else case find_at [34] (tl s) of
             None \<Rightarrow> Some None
           | Some e \<Rightarrow>
               let body = take e (tl s) in
               if 92 \<notin> set body \<and> 10 \<notin> set body \<and> utf8_Valid body
               then Some (if drop (e + 2) s = [] then Some body else None)
               else do { r \<leftarrow> unquote_loop [] (tl s);
                         Some (case r of
                                 Some (out, q # rest) \<Rightarrow> if rest = [] then Some out else None
                               | _ \<Rightarrow> None) })"

end
