(* ===== verification/StrutMut.thy ===== *)
theory StrutMut
  imports GoBytes IrtCombine
begin

text \<open>
  Mutable byte strings: \<open>src/strut/mut.go\<close>, the writers of \<open>src/strut/mut_methods.go\<close>, the helpers of
  \<open>src/strut/func_utils.go\<close> and the joiner of \<open>src/strut/joiner.go\<close>.

  A \<open>Mutable\<close> is a slice: \<open>mu_buf\<close> are the bytes of its array from the start of the slice to its capacity,
  \<open>mu_len\<close> is its length.  A Go string is a list of bytes.  How much \<open>append\<close> allocates is decided by the
  runtime: it is the parameter \<open>gr\<close>, which maps the old capacity and the length needed to the new
  capacity.  What the buffer pool hands out is a parameter as well.  Slices that share an array with
  another one are not followed: a slice that an operation returns is its bytes.
\<close>

record Mutable =
  mu_buf :: "byte list"
  mu_len :: nat

type_synonym growth = "nat \<Rightarrow> nat \<Rightarrow> nat"

definition nil_mutable :: Mutable where "nil_mutable = \<lparr>mu_buf = [], mu_len = 0\<rparr>"

definition fresh_mutable :: "byte list \<Rightarrow> Mutable" where "fresh_mutable bs = \<lparr>mu_buf = bs, mu_len = length bs\<rparr>"

definition mu_bytes :: "Mutable \<Rightarrow> byte list" where "mu_bytes m = take (mu_len m) (mu_buf m)"

subsection \<open>Slices\<close>

text \<open>\<open>copy(s[k:], bs)\<close>: as many bytes as there is room for.\<close>

definition copy_at :: "nat \<Rightarrow> 'a list \<Rightarrow> 'a list \<Rightarrow> 'a list" where
  "copy_at k bs s = take k s @ take (length s - k) bs @ drop (k + length bs) s"

text \<open>\<open>append(m, bs...)\<close>.\<close>

definition go_append :: "growth \<Rightarrow> byte list \<Rightarrow> Mutable \<Rightarrow> Mutable" where
  "go_append gr bs m =
     (let n = mu_len m + length bs in
      if n \<le> length (mu_buf m) then m\<lparr>mu_buf := copy_at (mu_len m) bs (mu_buf m), mu_len := n\<rparr>
      else \<lparr>mu_buf = mu_bytes m @ bs @ replicate (gr (length (mu_buf m)) n - n) 0, mu_len = n\<rparr>)"

text \<open>\<open>m[:k]\<close>.\<close>

definition mu_slice :: "int \<Rightarrow> Mutable \<Rightarrow> Mutable outcome" where
  "mu_slice k m = (if 0 \<le> k \<and> k \<le> int (length (mu_buf m)) then Done (m\<lparr>mu_len := nat k\<rparr>) else Panic ''slice bounds out of range'')"

text \<open>\<open>m[i:]\<close> for \<open>i\<close> up to the length.\<close>

definition mu_from :: "nat \<Rightarrow> Mutable \<Rightarrow> Mutable" where
  "mu_from i m = \<lparr>mu_buf = drop i (mu_buf m), mu_len = mu_len m - i\<rparr>"

subsection \<open>Construction and capacity\<close>

definition Mut_Len :: "Mutable \<Rightarrow> int" where "Mut_Len m = int (mu_len m)"

definition Mut_Cap :: "Mutable \<Rightarrow> int" where "Mut_Cap m = int (length (mu_buf m))"

definition Mut_Grow :: "int \<Rightarrow> Mutable \<Rightarrow> Mutable outcome" where
  "Mut_Grow n mut =
     (if n < 0 then Panic ''strut.Mutable.Grow: negative count''
      else let m = Mut_Len mut in
           if Mut_Cap mut - m < n then Done \<lparr>mu_buf = mu_bytes mut @ replicate (nat n) 0, mu_len = mu_len mut\<rparr>
           else Done mut)"

definition NewMutable :: "Mutable \<Rightarrow> Mutable" where "NewMutable pooled = pooled"

definition MakeMutable :: "Mutable \<Rightarrow> int \<Rightarrow> Mutable outcome" where
  "MakeMutable pooled capacity =
     on_done (mu_slice 0 pooled) (\<lambda>mut. if Mut_Cap mut < capacity then Mut_Grow capacity mut else Done mut)"

definition Mut_PushString :: "growth \<Rightarrow> byte list \<Rightarrow> Mutable \<Rightarrow> Mutable" where "Mut_PushString gr s mut = go_append gr s mut"

definition Mut_PushBytes :: "growth \<Rightarrow> byte list \<Rightarrow> Mutable \<Rightarrow> Mutable" where "Mut_PushBytes gr p mut = go_append gr p mut"

definition Mut_Push :: "growth \<Rightarrow> Mutable \<Rightarrow> Mutable \<Rightarrow> Mutable" where "Mut_Push gr n mut = go_append gr (mu_bytes n) mut"

definition MutableFrom :: "growth \<Rightarrow> Mutable \<Rightarrow> byte list \<Rightarrow> Mutable outcome" where
  "MutableFrom gr pooled s = on_done (MakeMutable pooled (int (length s))) (\<lambda>m. Done (Mut_PushString gr s m))"

text \<open>What is left of the receiver, and what goes back to the pool.\<close>

definition Mut_Release :: "Mutable \<Rightarrow> Mutable \<times> Mutable option" where
  "Mut_Release mut =
     (if Mut_Cap mut > 64 * 1024 then (nil_mutable, None)
      else let m = mut\<lparr>mu_len := 0\<rparr> in (m, Some m))"

definition Mut_String :: "Mutable \<Rightarrow> byte list" where "Mut_String mut = mu_bytes mut"

definition Mut_Bytes :: "Mutable \<Rightarrow> byte list" where "Mut_Bytes mut = mu_bytes mut"

definition Mut_Resolve :: "Mutable \<Rightarrow> byte list \<times> Mutable \<times> Mutable option" where
  "Mut_Resolve mut = (Mut_String mut, Mut_Release mut)"

definition Mut_Reset :: "Mutable \<Rightarrow> Mutable" where "Mut_Reset mut = mut\<lparr>mu_len := 0\<rparr>"

definition Mut_Truncate :: "int \<Rightarrow> Mutable \<Rightarrow> Mutable outcome" where
  "Mut_Truncate idx mut = mu_slice (max 0 (min (Mut_Len mut - 1) idx)) mut"

subsection \<open>Writing\<close>

definition Mut_Write :: "growth \<Rightarrow> byte list \<Rightarrow> Mutable \<Rightarrow> int \<times> Mutable" where
  "Mut_Write gr p mut = (int (length p), go_append gr p mut)"

definition Mut_WriteByte :: "growth \<Rightarrow> byte \<Rightarrow> Mutable \<Rightarrow> Mutable" where "Mut_WriteByte gr c mut = go_append gr [c] mut"

definition Mut_WriteRune :: "growth \<Rightarrow> int \<Rightarrow> Mutable \<Rightarrow> int \<times> Mutable" where
  "Mut_WriteRune gr r mut =
     (if r < 128 then (1, go_append gr [of_int r] mut)
      else let b = utf8_EncodeRune r in (int (length b), go_append gr b mut))"

definition Mut_WriteString :: "growth \<Rightarrow> byte list \<Rightarrow> Mutable \<Rightarrow> int \<times> Mutable" where
  "Mut_WriteString gr s mut = (int (length s), go_append gr s mut)"

definition Mut_Copy :: "growth \<Rightarrow> Mutable \<Rightarrow> Mutable \<Rightarrow> Mutable" where
  "Mut_Copy gr mut dst = go_append gr (mu_bytes mut) (dst\<lparr>mu_len := 0\<rparr>)"

definition Mut_CopyTo :: "Mutable \<Rightarrow> byte list \<Rightarrow> byte list option" where
  "Mut_CopyTo mut dst = (if length dst < mu_len mut then None else Some (copy_at 0 (mu_bytes mut) dst))"

definition Mut_Clone :: "Mutable \<Rightarrow> Mutable" where "Mut_Clone mut = fresh_mutable (mu_bytes mut)"

definition Mut_MarshalText :: "Mutable \<Rightarrow> byte list" where "Mut_MarshalText mut = mu_bytes mut"

definition Mut_UnmarshalText :: "growth \<Rightarrow> byte list \<Rightarrow> Mutable \<Rightarrow> Mutable" where
  "Mut_UnmarshalText gr txt mut = go_append gr txt (mut\<lparr>mu_len := 0\<rparr>)"

text \<open>
  A reader is a function of its state and the size of the buffer; it returns bytes and possibly an error.
  The loop need not end.
\<close>

datatype read_error = EOF | ReadError string

partial_function (option) Mut_ReadFrom ::
    "growth \<Rightarrow> ('s \<Rightarrow> nat \<Rightarrow> (byte list \<times> read_error option) \<times> 's) \<Rightarrow> 's \<Rightarrow> int \<Rightarrow> Mutable \<Rightarrow> ((int \<times> read_error option) \<times> Mutable \<times> 's) option" where
  "Mut_ReadFrom gr rd s got mut =
     (case rd s (32 * 1024) of ((bs, err), s1) \<Rightarrow>
        let mut1 = (if bs \<noteq> [] then go_append gr bs mut else mut); got1 = got + int (length bs) in
        case err of
          Some EOF \<Rightarrow> Some ((got1, None), mut1, s1)
        | Some e \<Rightarrow> Some ((got1, Some e), mut1, s1)
        | None \<Rightarrow> Mut_ReadFrom gr rd s1 got1 mut1)"

subsection \<open>Searching\<close>

definition bytes_Contains :: "byte list \<Rightarrow> byte list \<Rightarrow> bool" where "bytes_Contains b sub \<longleftrightarrow> bytes_Index b sub \<noteq> -1"

definition bytes_Count :: "byte list \<Rightarrow> byte list \<Rightarrow> int" where
  "bytes_Count s sep = (if sep = [] then utf8_RuneCount s + 1 else int (length (match_positions sep (-1) 0 s)))"

fun bytes_Compare :: "byte list \<Rightarrow> byte list \<Rightarrow> int" where
  "bytes_Compare [] [] = 0"
| "bytes_Compare [] (_ # _) = -1"
| "bytes_Compare (_ # _) [] = 1"
| "bytes_Compare (x # xs) (y # ys) = (if x < y then -1 else if y < x then 1 else bytes_Compare xs ys)"

definition bytes_Cut :: "byte list \<Rightarrow> byte list \<Rightarrow> byte list \<times> byte list \<times> bool" where
  "bytes_Cut s sep = (case find_at sep s of Some i \<Rightarrow> (take i s, drop (i + length sep) s, True) | None \<Rightarrow> (s, [], False))"

definition bytes_CutPrefix :: "byte list \<Rightarrow> byte list \<Rightarrow> byte list \<times> bool" where
  "bytes_CutPrefix s p = (if prefix p s then (drop (length p) s, True) else (s, False))"

definition bytes_CutSuffix :: "byte list \<Rightarrow> byte list \<Rightarrow> byte list \<times> bool" where
  "bytes_CutSuffix s p = (if suffix p s then (take (length s - length p) s, True) else (s, False))"

definition Mut_Contains :: "byte list \<Rightarrow> Mutable \<Rightarrow> bool" where "Mut_Contains sub mut = bytes_Contains (mu_bytes mut) sub"
definition Mut_ContainsString :: "byte list \<Rightarrow> Mutable \<Rightarrow> bool" where "Mut_ContainsString s mut = bytes_Contains (mu_bytes mut) s"
definition Mut_Count :: "byte list \<Rightarrow> Mutable \<Rightarrow> int" where "Mut_Count sep mut = bytes_Count (mu_bytes mut) sep"
definition Mut_CountString :: "byte list \<Rightarrow> Mutable \<Rightarrow> int" where "Mut_CountString sep mut = bytes_Count (mu_bytes mut) sep"
definition Mut_Equal :: "byte list \<Rightarrow> Mutable \<Rightarrow> bool" where "Mut_Equal b mut \<longleftrightarrow> mu_bytes mut = b"
definition Mut_EqualString :: "byte list \<Rightarrow> Mutable \<Rightarrow> bool" where "Mut_EqualString s mut \<longleftrightarrow> mu_bytes mut = s"
definition Mut_HasPrefix :: "byte list \<Rightarrow> Mutable \<Rightarrow> bool" where "Mut_HasPrefix p mut = prefix p (mu_bytes mut)"
definition Mut_HasPrefixString :: "byte list \<Rightarrow> Mutable \<Rightarrow> bool" where "Mut_HasPrefixString p mut = prefix p (mu_bytes mut)"
definition Mut_HasSuffix :: "byte list \<Rightarrow> Mutable \<Rightarrow> bool" where "Mut_HasSuffix p mut = suffix p (mu_bytes mut)"
definition Mut_HasSuffixString :: "byte list \<Rightarrow> Mutable \<Rightarrow> bool" where "Mut_HasSuffixString p mut = suffix p (mu_bytes mut)"
definition Mut_Index :: "byte list \<Rightarrow> Mutable \<Rightarrow> int" where "Mut_Index sep mut = bytes_Index (mu_bytes mut) sep"
definition Mut_IndexString :: "byte list \<Rightarrow> Mutable \<Rightarrow> int" where "Mut_IndexString sep mut = bytes_Index (mu_bytes mut) sep"
definition Mut_IndexByte :: "byte \<Rightarrow> Mutable \<Rightarrow> int" where "Mut_IndexByte c mut = bytes_Index (mu_bytes mut) [c]"
definition Mut_LastIndex :: "byte list \<Rightarrow> Mutable \<Rightarrow> int" where "Mut_LastIndex sep mut = bytes_LastIndex (mu_bytes mut) sep"
definition Mut_LastIndexString :: "byte list \<Rightarrow> Mutable \<Rightarrow> int" where "Mut_LastIndexString sep mut = bytes_LastIndex (mu_bytes mut) sep"
definition Mut_LastIndexByte :: "byte \<Rightarrow> Mutable \<Rightarrow> int" where "Mut_LastIndexByte c mut = bytes_LastIndex (mu_bytes mut) [c]"
definition Mut_Compare :: "byte list \<Rightarrow> Mutable \<Rightarrow> int" where "Mut_Compare b mut = bytes_Compare (mu_bytes mut) b"
definition Mut_CompareString :: "byte list \<Rightarrow> Mutable \<Rightarrow> int" where "Mut_CompareString s mut = bytes_Compare (mu_bytes mut) s"
definition Mut_Cut :: "byte list \<Rightarrow> Mutable \<Rightarrow> byte list \<times> byte list \<times> bool" where "Mut_Cut sep mut = bytes_Cut (mu_bytes mut) sep"
definition Mut_CutString :: "byte list \<Rightarrow> Mutable \<Rightarrow> byte list \<times> byte list \<times> bool" where "Mut_CutString sep mut = bytes_Cut (mu_bytes mut) sep"
definition Mut_CutPrefix :: "byte list \<Rightarrow> Mutable \<Rightarrow> byte list \<times> bool" where "Mut_CutPrefix p mut = bytes_CutPrefix (mu_bytes mut) p"
definition Mut_CutPrefixString :: "byte list \<Rightarrow> Mutable \<Rightarrow> byte list \<times> bool" where "Mut_CutPrefixString p mut = bytes_CutPrefix (mu_bytes mut) p"
definition Mut_CutSuffix :: "byte list \<Rightarrow> Mutable \<Rightarrow> byte list \<times> bool" where "Mut_CutSuffix p mut = bytes_CutSuffix (mu_bytes mut) p"
definition Mut_CutSuffixString :: "byte list \<Rightarrow> Mutable \<Rightarrow> byte list \<times> bool" where "Mut_CutSuffixString p mut = bytes_CutSuffix (mu_bytes mut) p"

text \<open>The variants that return the type \<open>Mutable\<close> return the same bytes.\<close>

definition Mut_CutMutable :: "byte list \<Rightarrow> Mutable \<Rightarrow> byte list \<times> byte list \<times> bool" where "Mut_CutMutable sep mut = bytes_Cut (mu_bytes mut) sep"
definition Mut_CutMutableString :: "byte list \<Rightarrow> Mutable \<Rightarrow> byte list \<times> byte list \<times> bool" where "Mut_CutMutableString sep mut = bytes_Cut (mu_bytes mut) sep"
definition Mut_CutPrefixMutable :: "byte list \<Rightarrow> Mutable \<Rightarrow> byte list \<times> bool" where "Mut_CutPrefixMutable p mut = bytes_CutPrefix (mu_bytes mut) p"
definition Mut_CutPrefixMutableString :: "byte list \<Rightarrow> Mutable \<Rightarrow> byte list \<times> bool" where "Mut_CutPrefixMutableString p mut = bytes_CutPrefix (mu_bytes mut) p"
definition Mut_CutSuffixMutable :: "byte list \<Rightarrow> Mutable \<Rightarrow> byte list \<times> bool" where "Mut_CutSuffixMutable p mut = bytes_CutSuffix (mu_bytes mut) p"
definition Mut_CutSuffixMutableString :: "byte list \<Rightarrow> Mutable \<Rightarrow> byte list \<times> bool" where "Mut_CutSuffixMutableString p mut = bytes_CutSuffix (mu_bytes mut) p"

definition Mut_TrimPrefix :: "byte list \<Rightarrow> Mutable \<Rightarrow> Mutable" where
  "Mut_TrimPrefix p mut = (if prefix p (mu_bytes mut) then mu_from (length p) mut else mut)"

definition Mut_TrimPrefixString :: "byte list \<Rightarrow> Mutable \<Rightarrow> Mutable" where
  "Mut_TrimPrefixString p mut = (if prefix p (mu_bytes mut) then mu_from (length p) mut else mut)"

definition Mut_TrimSuffix :: "byte list \<Rightarrow> Mutable \<Rightarrow> Mutable" where
  "Mut_TrimSuffix p mut = (if suffix p (mu_bytes mut) then mut\<lparr>mu_len := mu_len mut - length p\<rparr> else mut)"

definition Mut_TrimSuffixString :: "byte list \<Rightarrow> Mutable \<Rightarrow> Mutable" where
  "Mut_TrimSuffixString p mut = (if suffix p (mu_bytes mut) then mut\<lparr>mu_len := mu_len mut - length p\<rparr> else mut)"

definition Mut_IsASCII :: "Mutable \<Rightarrow> bool" where "Mut_IsASCII mut \<longleftrightarrow> (\<forall>b\<in>set (mu_bytes mut). unat b \<le> 127)"

definition Mut_IsUnicode :: "Mutable \<Rightarrow> bool" where "Mut_IsUnicode mut = utf8_Valid (mu_bytes mut)"

definition Mut_IsNullTerminated :: "Mutable \<Rightarrow> bool" where
  "Mut_IsNullTerminated mut \<longleftrightarrow> 0 < mu_len mut \<and> mu_bytes mut ! (mu_len mut - 1) = 0"

subsection \<open>Splitting\<close>

text \<open>\<open>bytes.SplitN\<close> and the sequences: up to \<open>n\<close> pieces, with the first \<open>save\<close> bytes of the separator.\<close>

function split_bytes :: "byte list \<Rightarrow> nat \<Rightarrow> int \<Rightarrow> byte list \<Rightarrow> byte list list" where
  "split_bytes sep save n s =
     (if n = 1 \<or> sep = [] then [s]
      else case find_at sep s of
             None \<Rightarrow> [s]
           | Some i \<Rightarrow> take (i + save) s # split_bytes sep save (n - 1) (drop (i + length sep) s))"
  by pat_completeness auto
termination
  by (relation "measure (\<lambda>(sep, _, _, s). length s)") (auto dest: find_at_shorter)

declare split_bytes.simps [simp del]

definition explode :: "int \<Rightarrow> byte list \<Rightarrow> byte list list" where
  "explode n s =
     (let rs = runes s in
      if n \<le> 0 \<or> int (length rs) \<le> n then rs else take (nat (n - 1)) rs @ [concat (drop (nat (n - 1)) rs)])"

definition genSplit :: "byte list \<Rightarrow> nat \<Rightarrow> int \<Rightarrow> byte list \<Rightarrow> byte list list" where
  "genSplit sep save n s =
     (if n = 0 then [] else if sep = [] then explode n s else split_bytes sep save (if n < 0 then -1 else n) s)"

definition Mut_SplitN :: "byte list \<Rightarrow> int \<Rightarrow> Mutable \<Rightarrow> (byte list, 's) seq" where
  "Mut_SplitN sep n mut = Slice (genSplit sep 0 n (mu_bytes mut))"

definition Mut_SplitAfterN :: "byte list \<Rightarrow> int \<Rightarrow> Mutable \<Rightarrow> (byte list, 's) seq" where
  "Mut_SplitAfterN sep n mut = Slice (genSplit sep (length sep) n (mu_bytes mut))"

definition Mut_wrapSeq :: "(byte list, 's) seq \<Rightarrow> (byte list, 's) seq" where
  "Mut_wrapSeq q = (\<lambda>yield s. q (\<lambda>b s. do { (ok, s1) \<leftarrow> yield b s; Some (ok, s1) }) s)"

definition Mut_Split :: "byte list \<Rightarrow> Mutable \<Rightarrow> (byte list, 's) seq" where
  "Mut_Split sep mut = Mut_wrapSeq (Slice (genSplit sep 0 (-1) (mu_bytes mut)))"

definition Mut_SplitString :: "byte list \<Rightarrow> Mutable \<Rightarrow> (byte list, 's) seq" where
  "Mut_SplitString sep mut = Mut_Split sep mut"

definition Mut_SplitAfter :: "byte list \<Rightarrow> Mutable \<Rightarrow> (byte list, 's) seq" where
  "Mut_SplitAfter sep mut = Mut_wrapSeq (Slice (genSplit sep (length sep) (-1) (mu_bytes mut)))"

definition Mut_SplitAfterString :: "byte list \<Rightarrow> Mutable \<Rightarrow> (byte list, 's) seq" where
  "Mut_SplitAfterString sep mut = Mut_wrapSeq (Slice (genSplit sep (length sep) (-1) (mu_bytes mut)))"

subsection \<open>Replacing\<close>

text \<open>The loops search from an index; with an empty pattern they would not advance.\<close>

partial_function (option) Replace_count :: "byte list \<Rightarrow> int \<Rightarrow> int \<Rightarrow> byte list \<Rightarrow> int option" where
  "Replace_count old n count s =
     (if s = [] \<or> (n \<ge> 0 \<and> count \<ge> n) then Some count
      else let idx = bytes_Index s old in
           if idx < 0 then Some count
           else Replace_count old n (count + 1) (drop (nat idx + length old) s))"

partial_function (option) replace_same :: "byte list \<Rightarrow> byte list \<Rightarrow> int \<Rightarrow> int \<Rightarrow> nat \<Rightarrow> byte list \<Rightarrow> byte list option" where
  "replace_same old new n replaced start s =
     (if replaced < n \<or> n < 0
      then let idx = bytes_Index (drop start s) old in
           if idx < 0 then Some s
           else let i = nat idx + start in
                replace_same old new n (replaced + 1) (i + length new) (copy_at i new s)
      else Some s)"

partial_function (option) replace_matches :: "byte list \<Rightarrow> int \<Rightarrow> nat \<Rightarrow> nat \<Rightarrow> nat list \<Rightarrow> byte list \<Rightarrow> nat list option" where
  "replace_matches old n origLen start matches s =
     (if int (length matches) < n \<or> n < 0
      then let idx = bytes_Index (drop start (take origLen s)) old in
           if idx < 0 then Some matches
           else replace_matches old n origLen (start + (nat idx + length old)) (matches @ [start + nat idx]) s
      else Some matches)"

text \<open>The positions come last first.  A negative index would be a panic.\<close>

fun replace_backward :: "byte list \<Rightarrow> byte list \<Rightarrow> nat list \<Rightarrow> nat \<Rightarrow> nat \<Rightarrow> byte list \<Rightarrow> (nat \<times> byte list) outcome" where
  "replace_backward old new [] writePos readPos s = Done (readPos, s)"
| "replace_backward old new (matchPos # ms) writePos readPos s =
     (if readPos < matchPos + length old then Panic ''slice bounds out of range''
      else let copyLen = readPos - (matchPos + length old) in
           if writePos < copyLen then Panic ''slice bounds out of range''
           else let w1 = writePos - copyLen; r1 = readPos - copyLen;
                    s1 = copy_at w1 (take copyLen (drop r1 s)) s in
                if w1 < length new then Panic ''slice bounds out of range''
                else let w2 = w1 - length new;
                         s2 = copy_at w2 new s1
                     in replace_backward old new ms w2 (r1 - length old) s2)"

definition replaceInPlace :: "Mutable \<Rightarrow> byte list \<Rightarrow> byte list \<Rightarrow> int \<Rightarrow> int \<Rightarrow> Mutable outcome option" where
  "replaceInPlace m old new n newLen =
     (if length old = length new
      then do { s \<leftarrow> replace_same old new n 0 0 (mu_bytes m);
                Some (Done (m\<lparr>mu_buf := s @ drop (mu_len m) (mu_buf m)\<rparr>)) }
      else let origLen = mu_len m in
           case mu_slice newLen m of
             Panic e \<Rightarrow> Some (Panic e)
           | Done m1 \<Rightarrow>
               do { matches \<leftarrow> replace_matches old n origLen 0 [] (mu_bytes m1);
                    Some (on_done (replace_backward old new (rev matches) (nat newLen) origLen (mu_bytes m1)) (\<lambda>(readPos, s).
                      let s1 = (if readPos > 0 then copy_at 0 (take readPos s) s else s)
                      in Done (m1\<lparr>mu_buf := s1 @ drop (nat newLen) (mu_buf m1)\<rparr>))) })"

definition Mut_Replace :: "byte list \<Rightarrow> byte list \<Rightarrow> int \<Rightarrow> Mutable \<Rightarrow> Mutable outcome option" where
  "Mut_Replace old new n mut =
     (if n = 0 \<or> old = [] then Some (Done mut)
      else do { count \<leftarrow> Replace_count old n 0 (mu_bytes mut);
                if count = 0 then Some (Done mut)
                else let newLen = wrap64 (Mut_Len mut + wrap64 (count * (int (length new) - int (length old)))) in
                     if length new \<ge> length old \<and> newLen \<le> Mut_Cap mut \<and> newLen \<ge> 0
                     then replaceInPlace mut old new n newLen
                     else Some (Done (fresh_mutable (bytes_Replace (mu_bytes mut) old new n))) })"

definition Mut_ReplaceString :: "byte list \<Rightarrow> byte list \<Rightarrow> int \<Rightarrow> Mutable \<Rightarrow> Mutable outcome option" where
  "Mut_ReplaceString old new n mut = Mut_Replace old new n mut"

definition Mut_ReplaceAll :: "byte list \<Rightarrow> byte list \<Rightarrow> Mutable \<Rightarrow> Mutable outcome option" where
  "Mut_ReplaceAll old new mut = Mut_Replace old new (-1) mut"

definition Mut_ReplaceAllString :: "byte list \<Rightarrow> byte list \<Rightarrow> Mutable \<Rightarrow> Mutable outcome option" where
  "Mut_ReplaceAllString old new mut = Mut_Replace old new (-1) mut"

subsection \<open>Case and repetition\<close>

text \<open>\<open>uni\<close> is the function of package \<open>bytes\<close> for what is not ASCII.\<close>

definition caseHelper :: "nat \<Rightarrow> nat \<Rightarrow> int \<Rightarrow> (byte list \<Rightarrow> byte list) \<Rightarrow> Mutable \<Rightarrow> Mutable" where
  "caseHelper rangeStart rangeEnd offset uni mut =
     (let bs = map (\<lambda>b. if rangeStart \<le> unat b \<and> unat b \<le> rangeEnd then of_int (int (unat b) + offset) else b) (mu_bytes mut);
          hasNonASCII = (\<exists>b\<in>set (mu_bytes mut). \<not> (rangeStart \<le> unat b \<and> unat b \<le> rangeEnd) \<and> 127 < unat b)
      in if hasNonASCII then fresh_mutable (uni bs)
         else mut\<lparr>mu_buf := bs @ drop (mu_len mut) (mu_buf mut)\<rparr>)"

definition asciiCaseDiff :: int where "asciiCaseDiff = 97 - 65"

definition Mut_ToLower :: "(byte list \<Rightarrow> byte list) \<Rightarrow> Mutable \<Rightarrow> Mutable" where
  "Mut_ToLower uni mut = caseHelper 65 90 asciiCaseDiff uni mut"

definition Mut_ToUpper :: "(byte list \<Rightarrow> byte list) \<Rightarrow> Mutable \<Rightarrow> Mutable" where
  "Mut_ToUpper uni mut = caseHelper 97 122 (- asciiCaseDiff) uni mut"

definition Mut_ToTitle :: "(byte list \<Rightarrow> byte list) \<Rightarrow> Mutable \<Rightarrow> Mutable" where
  "Mut_ToTitle uni mut = caseHelper 97 122 (- asciiCaseDiff) uni mut"

text \<open>
  The copies of the pattern into the array \<open>s\<close>; a slice expression is checked against the capacity.
  \<open>bytes.Repeat\<close> panics where the length overflows.
\<close>

primrec repeat_loop :: "byte list \<Rightarrow> nat \<Rightarrow> nat \<Rightarrow> byte list \<Rightarrow> byte list outcome" where
  "repeat_loop orig i 0 s = Done s"
| "repeat_loop orig i (Suc k) s =
     (if length s < (i + 1) * length orig then Panic ''slice bounds out of range''
      else repeat_loop orig (i + 1) k (copy_at (i * length orig) orig s))"

definition bytes_Repeat :: "byte list \<Rightarrow> int \<Rightarrow> byte list outcome" where
  "bytes_Repeat b count =
     (if count < 0 then Panic ''bytes: negative Repeat count''
      else if int (length b) * count > maxInt then Panic ''bytes: Repeat output length overflow''
      else Done (concat (replicate (nat count) b)))"

definition Mut_Repeat :: "int \<Rightarrow> Mutable \<Rightarrow> Mutable outcome" where
  "Mut_Repeat count mut =
     (if count \<le> 0 then mu_slice 0 mut
      else if count = 1 then Done mut
      else let origLen = mu_len mut; newLen = wrap64 (int origLen * count) in
           if newLen \<le> Mut_Cap mut
           then let orig = mu_bytes mut in
                on_done (mu_slice newLen mut) (\<lambda>m1.
                on_done (repeat_loop orig 1 (nat (count - 1)) (mu_buf m1)) (\<lambda>s. Done (m1\<lparr>mu_buf := s\<rparr>)))
           else on_done (bytes_Repeat (mu_bytes mut) count) (\<lambda>bs. Done (fresh_mutable bs)))"

subsection \<open>JSON\<close>

definition hexdigits :: "byte list" where "hexdigits = str ''0123456789abcdef''"

definition json_escape :: "byte \<Rightarrow> byte list" where
  "json_escape b =
     (if b = 34 then [92, 34]
      else if b = 92 then [92, 92]
      else if b = 10 then [92, 110]
      else if b = 13 then [92, 114]
      else if b = 9 then [92, 116]
      else if unat b < 32 then [92, 117, 48, 48, hexdigits ! (unat b div 16), hexdigits ! (unat b mod 16)]
      else [b])"

function json_body :: "byte list \<Rightarrow> byte list" where
  "json_body bs =
     (case bs of
        [] \<Rightarrow> []
      | b # rest \<Rightarrow> if unat b < 128 then json_escape b @ json_body rest
                    else let k = rune_size bs in take k bs @ json_body (drop k bs))"
  by pat_completeness auto
termination
  by (relation "measure length") (use rune_size_bounds in auto)

declare json_body.simps [simp del]

definition Mut_MarshalJSON :: "Mutable \<Rightarrow> byte list" where
  "Mut_MarshalJSON mut = [34] @ json_body (mu_bytes mut) @ [34]"

text \<open>What is no string, or cannot be unquoted, is an error and leaves the receiver as it is.\<close>

definition Mut_UnmarshalJSON :: "growth \<Rightarrow> byte list \<Rightarrow> Mutable \<Rightarrow> (string + Mutable) option" where
  "Mut_UnmarshalJSON gr data mut =
     (if length data < 2 \<or> data ! 0 \<noteq> 34 \<or> data ! (length data - 1) \<noteq> 34 then Some (Inl ''input is not a JSON string'')
      else do { r \<leftarrow> strconv_Unquote data;
                Some (case r of None \<Rightarrow> Inl ''invalid syntax'' | Some s \<Rightarrow> Inr (go_append gr s (mut\<lparr>mu_len := 0\<rparr>))) })"

subsection \<open>Extending\<close>

definition copyExtendGrowthFactor :: int where "copyExtendGrowthFactor = 2"

definition copyExtend :: "byte list \<Rightarrow> Mutable \<Rightarrow> Mutable outcome" where
  "copyExtend b mut =
     (let n = Mut_Len mut in
      on_done (if int (length b) > Mut_Cap mut - n
               then let target = max (n + int (length b)) (Mut_Cap mut * copyExtendGrowthFactor)
                    in Mut_Grow (target - Mut_Cap mut) mut
               else Done mut) (\<lambda>m1.
      on_done (mu_slice (n + int (length b)) m1) (\<lambda>m2.
        Done (m2\<lparr>mu_buf := copy_at (nat n) b (mu_bytes m2) @ drop (mu_len m2) (mu_buf m2)\<rparr>))))"

definition copyExtendString :: "byte list \<Rightarrow> Mutable \<Rightarrow> Mutable outcome" where
  "copyExtendString s mut = copyExtend s mut"

text \<open>
  The state of a loop over a sequence holds the mutable string, or the panic that has ended the loop, beside
  what the sequence itself works on.
\<close>

definition extend_with :: "('a \<Rightarrow> 'm \<Rightarrow> 'm outcome) \<Rightarrow> ('a, 'm outcome \<times> 's) seq \<Rightarrow> 'm \<Rightarrow> 's \<Rightarrow> ('m outcome \<times> 's) option" where
  "extend_with f q mut s =
     q (\<lambda>e (r, s). let r1 = on_done r (f e) in Some (case r1 of Done _ \<Rightarrow> True | Panic _ \<Rightarrow> False, (r1, s))) (Done mut, s)"

definition Mut_Extend :: "(byte list, Mutable outcome \<times> 's) seq \<Rightarrow> Mutable \<Rightarrow> 's \<Rightarrow> (Mutable outcome \<times> 's) option" where
  "Mut_Extend q mut = extend_with copyExtend q mut"

definition Mut_ExtendStrings :: "(byte list, Mutable outcome \<times> 's) seq \<Rightarrow> Mutable \<Rightarrow> 's \<Rightarrow> (Mutable outcome \<times> 's) option" where
  "Mut_ExtendStrings q mut = extend_with copyExtendString q mut"

definition Mut_ExtendBytes :: "(byte list, Mutable outcome \<times> 's) seq \<Rightarrow> Mutable \<Rightarrow> 's \<Rightarrow> (Mutable outcome \<times> 's) option" where
  "Mut_ExtendBytes q mut = Mut_Extend (Mut_wrapSeq q) mut"

text \<open>With a separator the loop counts the elements.\<close>

definition extend_join :: "(byte list, (Mutable \<times> int) outcome \<times> 's) seq \<Rightarrow> byte list \<Rightarrow> Mutable \<Rightarrow> 's \<Rightarrow> (Mutable outcome \<times> 's) option" where
  "extend_join q sep mut s =
     do { (r, s1) \<leftarrow> extend_with (\<lambda>e (m, ct).
            on_done (if ct \<noteq> 0 then copyExtend sep m else Done m) (\<lambda>m1.
            on_done (copyExtend e m1) (\<lambda>m2. Done (m2, ct + 1)))) q (mut, 0) s;
          Some (on_done r (\<lambda>(m, _). Done m), s1) }"

definition Mut_ExtendJoin :: "(byte list, (Mutable \<times> int) outcome \<times> 's) seq \<Rightarrow> byte list \<Rightarrow> Mutable \<Rightarrow> 's \<Rightarrow> (Mutable outcome \<times> 's) option" where
  "Mut_ExtendJoin q sep mut = extend_join q sep mut"

definition Mut_ExtendStringsJoin :: "(byte list, (Mutable \<times> int) outcome \<times> 's) seq \<Rightarrow> byte list \<Rightarrow> Mutable \<Rightarrow> 's \<Rightarrow> (Mutable outcome \<times> 's) option" where
  "Mut_ExtendStringsJoin q sep mut = extend_join q sep mut"

definition Mut_ExtendBytesJoin :: "(byte list, (Mutable \<times> int) outcome \<times> 's) seq \<Rightarrow> byte list \<Rightarrow> Mutable \<Rightarrow> 's \<Rightarrow> (Mutable outcome \<times> 's) option" where
  "Mut_ExtendBytesJoin q sep mut = extend_join q sep mut"

definition Mut_Join :: "byte list list \<Rightarrow> byte list \<Rightarrow> Mutable \<Rightarrow> (Mutable outcome \<times> unit) option" where
  "Mut_Join mutables sep mut = Mut_ExtendJoin (Slice mutables) sep mut ()"

end
