(* ===== verification/StrutText.thy ===== *)
theory StrutText
  imports StrutMut
begin

text \<open>
  The writers of \<open>src/strut/mut_methods.go\<close> with the helpers of \<open>src/strut/func_utils.go\<close>, and the joiner of
  \<open>src/strut/joiner.go\<close> for strings, bytes and mutable strings.  A writer is a function from the mutable string to the
  one it leaves.
\<close>

subsection \<open>Helpers\<close>

definition ifop :: "bool \<Rightarrow> ('m \<Rightarrow> 'm) \<Rightarrow> 'm \<Rightarrow> 'm" where "ifop cond f m = (if cond then f m else m)"
definition ifargs :: "bool \<Rightarrow> ('a list \<Rightarrow> 'm \<Rightarrow> 'm) \<Rightarrow> 'a list \<Rightarrow> 'm \<Rightarrow> 'm" where "ifargs cond f as m = (if cond then f as m else m)"
definition ifwith :: "bool \<Rightarrow> ('a \<Rightarrow> 'm \<Rightarrow> 'm) \<Rightarrow> 'a \<Rightarrow> 'm \<Rightarrow> 'm" where "ifwith cond f a m = (if cond then f a m else m)"
definition ntimes :: "int \<Rightarrow> ('m \<Rightarrow> 'm) \<Rightarrow> 'm \<Rightarrow> 'm" where "ntimes n f = f ^^ nat n"
definition nwith :: "int \<Rightarrow> ('a \<Rightarrow> 'm \<Rightarrow> 'm) \<Rightarrow> 'a \<Rightarrow> 'm \<Rightarrow> 'm" where "nwith n f a = f a ^^ nat n"
definition apply_each :: "('a \<Rightarrow> 'm \<Rightarrow> 'm) \<Rightarrow> 'a list \<Rightarrow> 'm \<Rightarrow> 'm" where "apply_each f vals = fold f vals"

definition flush_seq :: "('a, 'm \<times> 's) seq \<Rightarrow> ('a \<Rightarrow> 'm \<Rightarrow> 'm) \<Rightarrow> 'm \<Rightarrow> 's \<Rightarrow> ('m \<times> 's) option" where
  "flush_seq q f m s = q (\<lambda>e (m, s). Some (True, (f e m, s))) (m, s)"

subsection \<open>Writers\<close>

definition Mut_Line :: "growth \<Rightarrow> Mutable \<Rightarrow> Mutable" where "Mut_Line gr mut = go_append gr [10] mut"
definition Mut_Tab :: "growth \<Rightarrow> Mutable \<Rightarrow> Mutable" where "Mut_Tab gr mut = go_append gr [9] mut"
definition Mut_wb :: "growth \<Rightarrow> byte \<Rightarrow> Mutable \<Rightarrow> Mutable" where "Mut_wb gr b mut = go_append gr [b] mut"
definition Mut_wrr :: "growth \<Rightarrow> int \<Rightarrow> Mutable \<Rightarrow> Mutable" where "Mut_wrr gr r mut = snd (Mut_WriteRune gr r mut)"
definition Mut_NLines :: "growth \<Rightarrow> int \<Rightarrow> Mutable \<Rightarrow> Mutable" where "Mut_NLines gr n = ntimes n (Mut_Line gr)"
definition Mut_NTabs :: "growth \<Rightarrow> int \<Rightarrow> Mutable \<Rightarrow> Mutable" where "Mut_NTabs gr n = ntimes n (Mut_Tab gr)"

definition Mut_WriteMutable :: "growth \<Rightarrow> byte list \<Rightarrow> Mutable \<Rightarrow> Mutable" where "Mut_WriteMutable gr m mut = Mut_PushBytes gr m mut"
definition Mut_WriteLine :: "growth \<Rightarrow> byte list \<Rightarrow> Mutable \<Rightarrow> Mutable" where "Mut_WriteLine gr ln mut = Mut_Line gr (Mut_PushString gr ln mut)"
definition Mut_WriteLines :: "growth \<Rightarrow> byte list list \<Rightarrow> Mutable \<Rightarrow> Mutable" where "Mut_WriteLines gr lns = apply_each (Mut_WriteLine gr) lns"
definition Mut_WriteBytesLine :: "growth \<Rightarrow> byte list \<Rightarrow> Mutable \<Rightarrow> Mutable" where "Mut_WriteBytesLine gr ln mut = Mut_Line gr (Mut_PushBytes gr ln mut)"
definition Mut_WriteBytesLines :: "growth \<Rightarrow> byte list list \<Rightarrow> Mutable \<Rightarrow> Mutable" where "Mut_WriteBytesLines gr lns = apply_each (Mut_WriteBytesLine gr) lns"
definition Mut_WriteMutableLine :: "growth \<Rightarrow> byte list \<Rightarrow> Mutable \<Rightarrow> Mutable" where "Mut_WriteMutableLine gr m mut = Mut_Line gr (Mut_WriteMutable gr m mut)"
definition Mut_WriteMutableLines :: "growth \<Rightarrow> byte list list \<Rightarrow> Mutable \<Rightarrow> Mutable" where "Mut_WriteMutableLines gr ms = apply_each (Mut_WriteMutableLine gr) ms"

definition Mut_cat :: "growth \<Rightarrow> byte list list \<Rightarrow> Mutable \<Rightarrow> Mutable" where "Mut_cat gr strs = apply_each (Mut_PushString gr) strs"
definition Mut_Concat :: "growth \<Rightarrow> byte list list \<Rightarrow> Mutable \<Rightarrow> Mutable" where "Mut_Concat gr strs = Mut_cat gr strs"

definition Mut_JoinStrings :: "byte list list \<Rightarrow> byte list \<Rightarrow> Mutable \<Rightarrow> (Mutable outcome \<times> unit) option" where
  "Mut_JoinStrings ss sep mut = Mut_ExtendStringsJoin (Slice ss) sep mut ()"

definition Mut_ExtendStringsLines :: "growth \<Rightarrow> (byte list, Mutable \<times> 's) seq \<Rightarrow> Mutable \<Rightarrow> 's \<Rightarrow> (Mutable \<times> 's) option" where
  "Mut_ExtendStringsLines gr q = flush_seq q (Mut_WriteLine gr)"
definition Mut_ExtendBytesLines :: "growth \<Rightarrow> (byte list, Mutable \<times> 's) seq \<Rightarrow> Mutable \<Rightarrow> 's \<Rightarrow> (Mutable \<times> 's) option" where
  "Mut_ExtendBytesLines gr q = flush_seq q (Mut_WriteBytesLine gr)"
definition Mut_ExtendLines :: "growth \<Rightarrow> (byte list, Mutable \<times> 's) seq \<Rightarrow> Mutable \<Rightarrow> 's \<Rightarrow> (Mutable \<times> 's) option" where
  "Mut_ExtendLines gr q = flush_seq q (Mut_WriteMutableLine gr)"

definition Mut_RepeatByte :: "growth \<Rightarrow> byte \<Rightarrow> int \<Rightarrow> Mutable \<Rightarrow> Mutable" where "Mut_RepeatByte gr char n = nwith n (Mut_wb gr) char"
definition Mut_RepeatRune :: "growth \<Rightarrow> int \<Rightarrow> int \<Rightarrow> Mutable \<Rightarrow> Mutable" where "Mut_RepeatRune gr r n = nwith n (Mut_wrr gr) r"
definition Mut_RepeatLine :: "growth \<Rightarrow> byte list \<Rightarrow> int \<Rightarrow> Mutable \<Rightarrow> Mutable" where "Mut_RepeatLine gr ln n = nwith n (Mut_WriteLine gr) ln"

definition Mut_PushBool :: "growth \<Rightarrow> bool \<Rightarrow> Mutable \<Rightarrow> Mutable" where
  "Mut_PushBool gr v mut = go_append gr (if v then str ''true'' else str ''false'') mut"

definition Mut_WithTrimPrefix :: "growth \<Rightarrow> byte list \<Rightarrow> byte list \<Rightarrow> Mutable \<Rightarrow> Mutable" where
  "Mut_WithTrimPrefix gr s p mut = Mut_PushString gr (fst (bytes_CutPrefix s p)) mut"
definition Mut_WithTrimSuffix :: "growth \<Rightarrow> byte list \<Rightarrow> byte list \<Rightarrow> Mutable \<Rightarrow> Mutable" where
  "Mut_WithTrimSuffix gr s p mut = Mut_PushString gr (fst (bytes_CutSuffix s p)) mut"
definition Mut_PushTrimPrefix :: "growth \<Rightarrow> byte list \<Rightarrow> byte list \<Rightarrow> Mutable \<Rightarrow> Mutable" where
  "Mut_PushTrimPrefix gr s p mut = Mut_PushBytes gr (fst (bytes_CutPrefix s p)) mut"
definition Mut_PushTrimSuffix :: "growth \<Rightarrow> byte list \<Rightarrow> byte list \<Rightarrow> Mutable \<Rightarrow> Mutable" where
  "Mut_PushTrimSuffix gr s p mut = Mut_PushBytes gr (fst (bytes_CutSuffix s p)) mut"

subsection \<open>Writers under a condition\<close>

definition Mut_WhenLine :: "growth \<Rightarrow> bool \<Rightarrow> Mutable \<Rightarrow> Mutable" where "Mut_WhenLine gr cond = ifop cond (Mut_Line gr)"
definition Mut_WhenTab :: "growth \<Rightarrow> bool \<Rightarrow> Mutable \<Rightarrow> Mutable" where "Mut_WhenTab gr cond = ifop cond (Mut_Tab gr)"
definition Mut_WhenNLines :: "growth \<Rightarrow> bool \<Rightarrow> int \<Rightarrow> Mutable \<Rightarrow> Mutable" where "Mut_WhenNLines gr cond n = ifwith cond (Mut_NLines gr) n"
definition Mut_WhenNTabs :: "growth \<Rightarrow> bool \<Rightarrow> int \<Rightarrow> Mutable \<Rightarrow> Mutable" where "Mut_WhenNTabs gr cond n = ifwith cond (Mut_NTabs gr) n"
definition Mut_WhenWrite :: "growth \<Rightarrow> bool \<Rightarrow> byte list \<Rightarrow> Mutable \<Rightarrow> Mutable" where "Mut_WhenWrite gr cond buf = ifwith cond (Mut_PushBytes gr) buf"
definition Mut_WhenWriteString :: "growth \<Rightarrow> bool \<Rightarrow> byte list \<Rightarrow> Mutable \<Rightarrow> Mutable" where "Mut_WhenWriteString gr cond s = ifwith cond (Mut_PushString gr) s"
definition Mut_WhenWriteByte :: "growth \<Rightarrow> bool \<Rightarrow> byte \<Rightarrow> Mutable \<Rightarrow> Mutable" where "Mut_WhenWriteByte gr cond bt mut = (if cond then Mut_WriteByte gr bt mut else mut)"
definition Mut_WhenWriteRune :: "growth \<Rightarrow> bool \<Rightarrow> int \<Rightarrow> Mutable \<Rightarrow> Mutable" where "Mut_WhenWriteRune gr cond r mut = (if cond then snd (Mut_WriteRune gr r mut) else mut)"
definition Mut_WhenWriteLine :: "growth \<Rightarrow> bool \<Rightarrow> byte list \<Rightarrow> Mutable \<Rightarrow> Mutable" where "Mut_WhenWriteLine gr cond ln = ifwith cond (Mut_WriteLine gr) ln"
definition Mut_WhenWriteLines :: "growth \<Rightarrow> bool \<Rightarrow> byte list list \<Rightarrow> Mutable \<Rightarrow> Mutable" where "Mut_WhenWriteLines gr cond lns = ifargs cond (Mut_WriteLines gr) lns"
definition Mut_WhenConcat :: "growth \<Rightarrow> bool \<Rightarrow> byte list list \<Rightarrow> Mutable \<Rightarrow> Mutable" where "Mut_WhenConcat gr cond strs = ifwith cond (Mut_cat gr) strs"
definition Mut_WhenWriteMutable :: "growth \<Rightarrow> bool \<Rightarrow> byte list \<Rightarrow> Mutable \<Rightarrow> Mutable" where "Mut_WhenWriteMutable gr cond m = ifwith cond (Mut_WriteMutable gr) m"
definition Mut_WhenWriteMutableLine :: "growth \<Rightarrow> bool \<Rightarrow> byte list \<Rightarrow> Mutable \<Rightarrow> Mutable" where "Mut_WhenWriteMutableLine gr cond m = ifwith cond (Mut_WriteMutableLine gr) m"
definition Mut_WhenWriteMutableLines :: "growth \<Rightarrow> bool \<Rightarrow> byte list list \<Rightarrow> Mutable \<Rightarrow> Mutable" where "Mut_WhenWriteMutableLines gr cond ms = ifargs cond (Mut_WriteMutableLines gr) ms"

definition Mut_WhenJoin :: "bool \<Rightarrow> byte list list \<Rightarrow> byte list \<Rightarrow> Mutable \<Rightarrow> (Mutable outcome \<times> unit) option" where
  "Mut_WhenJoin cond sl sep mut = (if cond then Mut_JoinStrings sl sep mut else Some (Done mut, ()))"

subsection \<open>Joining\<close>

text \<open>A joiner is its separator.\<close>

record Joiner =
  jn_sep :: "byte list"

definition JOIN_With :: "byte list \<Rightarrow> Joiner" where "JOIN_With sep = \<lparr>jn_sep = sep\<rparr>"
definition JOIN_WithSpace :: Joiner where "JOIN_WithSpace = \<lparr>jn_sep = [32]\<rparr>"
definition JOIN_WithDoubleSpace :: Joiner where "JOIN_WithDoubleSpace = \<lparr>jn_sep = [32, 32]\<rparr>"
definition JOIN_WithTab :: Joiner where "JOIN_WithTab = \<lparr>jn_sep = [9]\<rparr>"
definition JOIN_WithLine :: Joiner where "JOIN_WithLine = \<lparr>jn_sep = [10]\<rparr>"
definition JOIN_WithDoubleLine :: Joiner where "JOIN_WithDoubleLine = \<lparr>jn_sep = [10, 10]\<rparr>"
definition JOIN_WithConcat :: Joiner where "JOIN_WithConcat = \<lparr>jn_sep = []\<rparr>"
definition JOIN_WithUnderscore :: Joiner where "JOIN_WithUnderscore = \<lparr>jn_sep = str ''_''\<rparr>"
definition JOIN_WithDash :: Joiner where "JOIN_WithDash = \<lparr>jn_sep = str ''-''\<rparr>"
definition JOIN_WithDoubleDash :: Joiner where "JOIN_WithDoubleDash = \<lparr>jn_sep = str ''--''\<rparr>"
definition JOIN_WithComma :: Joiner where "JOIN_WithComma = \<lparr>jn_sep = str '',''\<rparr>"
definition JOIN_WithSemiColon :: Joiner where "JOIN_WithSemiColon = \<lparr>jn_sep = str '';''\<rparr>"
definition JOIN_WithDot :: Joiner where "JOIN_WithDot = \<lparr>jn_sep = str ''.''\<rparr>"
definition JOIN_WithSlash :: Joiner where "JOIN_WithSlash = \<lparr>jn_sep = str ''/''\<rparr>"
definition JOIN_WithPipe :: Joiner where "JOIN_WithPipe = \<lparr>jn_sep = str ''|''\<rparr>"
definition JOIN_WithColon :: Joiner where "JOIN_WithColon = \<lparr>jn_sep = str '':''\<rparr>"

definition lenSeps :: "byte list \<Rightarrow> int \<Rightarrow> int" where "lenSeps sep num = int (length sep) * max 0 (num - 1)"
definition totalLen :: "byte list list \<Rightarrow> int" where "totalLen sl = fold (\<lambda>s n. n + int (length s)) sl 0"
definition sumLen :: "Mutable list \<Rightarrow> int" where "sumLen sl = fold (\<lambda>m n. n + Mut_Len m) sl 0"

text \<open>The loops with a separator before every element but the first.\<close>

fun join_loop :: "byte list \<Rightarrow> nat \<Rightarrow> byte list list \<Rightarrow> Mutable \<Rightarrow> Mutable outcome" where
  "join_loop sep i [] out = Done out"
| "join_loop sep i (b # bs) out =
     on_done (if i \<noteq> 0 then copyExtend sep out else Done out) (\<lambda>o1.
     on_done (copyExtend b o1) (\<lambda>o2. join_loop sep (i + 1) bs o2))"

definition Joiner_Mutables :: "Mutable \<Rightarrow> Joiner \<Rightarrow> Mutable list \<Rightarrow> Mutable outcome" where
  "Joiner_Mutables pooled sj muts =
     on_done (MakeMutable pooled (sumLen muts + lenSeps (jn_sep sj) (int (length muts))))
       (join_loop (jn_sep sj) 0 (map mu_bytes muts))"

definition Joiner_MutableSlice :: "Mutable \<Rightarrow> Joiner \<Rightarrow> Mutable list \<Rightarrow> Mutable outcome" where
  "Joiner_MutableSlice pooled sj muts = Joiner_Mutables pooled sj muts"

text \<open>Here the separator is written when the output is not empty.\<close>

definition Joiner_MutableSeq :: "Mutable \<Rightarrow> Joiner \<Rightarrow> (byte list, Mutable outcome \<times> 's) seq \<Rightarrow> 's \<Rightarrow> (Mutable outcome \<times> 's) option" where
  "Joiner_MutableSeq pooled sj q s =
     (case MakeMutable pooled 2048 of
        Panic e \<Rightarrow> Some (Panic e, s)
      | Done out \<Rightarrow>
          extend_with (\<lambda>b m. on_done (if Mut_Len m \<noteq> 0 then copyExtend (jn_sep sj) m else Done m) (copyExtend b)) q out s)"

definition strings_Join :: "byte list list \<Rightarrow> byte list \<Rightarrow> byte list" where
  "strings_Join ss sep = (case ss of [] \<Rightarrow> [] | s # rest \<Rightarrow> s @ concat (map (\<lambda>t. sep @ t) rest))"

definition Joiner_Strings :: "Joiner \<Rightarrow> byte list list \<Rightarrow> byte list" where "Joiner_Strings sj strs = strings_Join strs (jn_sep sj)"
definition Joiner_StringSlice :: "Joiner \<Rightarrow> byte list list \<Rightarrow> byte list" where "Joiner_StringSlice sj strs = strings_Join strs (jn_sep sj)"

definition Joiner_StringMutableSeq :: "Mutable \<Rightarrow> Joiner \<Rightarrow> (byte list, (Mutable \<times> int) outcome \<times> 's) seq \<Rightarrow> 's \<Rightarrow> (Mutable outcome \<times> 's) option" where
  "Joiner_StringMutableSeq pooled sj q s = Mut_ExtendStringsJoin q (jn_sep sj) (NewMutable pooled) s"

definition Joiner_StringSeq :: "Mutable \<Rightarrow> Joiner \<Rightarrow> (byte list, (Mutable \<times> int) outcome \<times> 's) seq \<Rightarrow> 's \<Rightarrow> (byte list outcome \<times> 's) option" where
  "Joiner_StringSeq pooled sj q s =
     do { (r, s1) \<leftarrow> Mut_ExtendStringsJoin q (jn_sep sj) (NewMutable pooled) s; Some (on_done r (\<lambda>m. Done (fst (Mut_Resolve m))), s1) }"

definition Joiner_StringsMutable :: "Mutable \<Rightarrow> Joiner \<Rightarrow> byte list list \<Rightarrow> Mutable outcome" where
  "Joiner_StringsMutable pooled sj strs =
     on_done (MakeMutable pooled (int (length (jn_sep sj)) * max 0 (int (length strs) - 1) + totalLen strs))
       (join_loop (jn_sep sj) 0 strs)"

definition Joiner_StringMutableSlice :: "Mutable \<Rightarrow> Joiner \<Rightarrow> byte list list \<Rightarrow> Mutable outcome" where
  "Joiner_StringMutableSlice pooled sj strs = Joiner_StringsMutable pooled sj strs"

definition Joiner_Bytes :: "Mutable \<Rightarrow> Joiner \<Rightarrow> byte list list \<Rightarrow> Mutable outcome" where
  "Joiner_Bytes pooled sj rs =
     on_done (MakeMutable pooled (totalLen rs + int (length (jn_sep sj)) * max 0 (int (length rs) - 1)))
       (join_loop (jn_sep sj) 0 rs)"

definition Joiner_BytesSeq :: "Mutable \<Rightarrow> Joiner \<Rightarrow> (byte list, (Mutable \<times> int) outcome \<times> 's) seq \<Rightarrow> 's \<Rightarrow> (Mutable outcome \<times> 's) option" where
  "Joiner_BytesSeq pooled sj q s = Mut_ExtendBytesJoin q (jn_sep sj) (NewMutable pooled) s"

definition Joiner_BytesSlice :: "Mutable \<Rightarrow> Joiner \<Rightarrow> byte list list \<Rightarrow> Mutable outcome" where
  "Joiner_BytesSlice pooled sj rs = Joiner_Bytes pooled sj rs"

end
