(* ===== verification/StrutLaws.thy ===== *)
theory StrutLaws
  imports StrutText IrtLaws
begin

text \<open>
  What the operations on a mutable string do to its bytes: appending, growing, extending, replacing in place,
  repeating, splitting.
\<close>

text \<open>The length is within the array.\<close>

definition mu_ok :: "Mutable \<Rightarrow> bool" where "mu_ok m \<longleftrightarrow> mu_len m \<le> length (mu_buf m)"

lemma length_mu_bytes [simp]: "mu_ok m \<Longrightarrow> length (mu_bytes m) = mu_len m"
  by (simp add: mu_ok_def mu_bytes_def)

lemma fresh_mutable_simps [simp]: "mu_ok (fresh_mutable bs)" "mu_bytes (fresh_mutable bs) = bs"
  by (simp_all add: fresh_mutable_def mu_ok_def mu_bytes_def)

lemma length_copy_at [simp]: "k \<le> length s \<Longrightarrow> length (copy_at k bs s) = length s"
  by (simp add: copy_at_def)

lemma copy_at_fits: "k + length bs \<le> length s \<Longrightarrow> copy_at k bs s = take k s @ bs @ drop (k + length bs) s"
  by (simp add: copy_at_def)

lemma take_copy_at: "k + length bs \<le> length s \<Longrightarrow> take (k + length bs) (copy_at k bs s) = take k s @ bs"
  by (simp add: copy_at_fits)

text \<open>Two slices of one array: bytes up to the length, and those behind it.\<close>

lemma mu_bytes_put: "length bs = mu_len m \<Longrightarrow> mu_bytes (m\<lparr>mu_buf := bs @ rest\<rparr>) = bs"
  by (simp add: mu_bytes_def)

subsection \<open>Appending and growing\<close>

lemma go_append_ok [simp]: "mu_ok m \<Longrightarrow> mu_ok (go_append gr bs m)"
  by (auto simp: go_append_def mu_ok_def Let_def mu_bytes_def)

lemma go_append_bytes [simp]: "mu_ok m \<Longrightarrow> mu_bytes (go_append gr bs m) = mu_bytes m @ bs"
  by (auto simp: go_append_def mu_ok_def Let_def mu_bytes_def take_copy_at)

lemma Grow_Done: "0 \<le> n \<Longrightarrow> mu_ok m \<Longrightarrow>
   \<exists>m'. Mut_Grow n m = Done m' \<and> mu_ok m' \<and> mu_bytes m' = mu_bytes m \<and> mu_len m' = mu_len m
     \<and> length (mu_buf m') = (if length (mu_buf m) - mu_len m < nat n then mu_len m + nat n else length (mu_buf m))"
  by (auto simp: Mut_Grow_def Let_def Mut_Cap_def Mut_Len_def mu_ok_def mu_bytes_def)

lemma MakeMutable_Done:
  "\<exists>m. MakeMutable pooled c = Done m \<and> mu_ok m \<and> mu_bytes m = [] \<and> c \<le> int (length (mu_buf m)) \<and> length (mu_buf pooled) \<le> length (mu_buf m)"
proof -
  let ?m = "pooled\<lparr>mu_len := 0\<rparr>"
  have s: "mu_slice 0 pooled = Done ?m" by (simp add: mu_slice_def)
  show ?thesis
  proof (cases "Mut_Cap ?m < c")
    case True
    then obtain m where "Mut_Grow c ?m = Done m" "mu_ok m" "mu_bytes m = mu_bytes ?m"
        "length (mu_buf m) = (if length (mu_buf ?m) - mu_len ?m < nat c then mu_len ?m + nat c else length (mu_buf ?m))"
      using Grow_Done[of c ?m] by (auto simp: mu_ok_def Mut_Cap_def)
    then show ?thesis using True s by (auto simp: MakeMutable_def mu_bytes_def Mut_Cap_def)
  next
    case False
    then show ?thesis using s by (auto simp: MakeMutable_def mu_bytes_def Mut_Cap_def mu_ok_def)
  qed
qed

subsection \<open>Extending\<close>

text \<open>The growth of \<open>copyExtend\<close> is one step of \<open>Grow\<close>, counted from the length and not from the capacity.\<close>

lemma copyExtend_room:
  assumes "mu_ok m" "mu_len m + length b \<le> length (mu_buf m)"
  shows "\<exists>m'. copyExtend b m = Done m' \<and> mu_ok m' \<and> mu_bytes m' = mu_bytes m @ b \<and> length (mu_buf m') = length (mu_buf m)"
proof -
  let ?n = "mu_len m + length b"
  have "copyExtend b m = Done (m\<lparr>mu_len := ?n, mu_buf := copy_at (mu_len m) b (take ?n (mu_buf m)) @ drop ?n (mu_buf m)\<rparr>)"
    using assms by (simp add: copyExtend_def Let_def Mut_Len_def Mut_Cap_def mu_slice_def mu_bytes_def mu_ok_def nat_add_distrib)
  then show ?thesis using assms by (simp add: mu_ok_def mu_bytes_def copy_at_def)
qed

lemma copyExtend_grow:
  assumes "mu_ok m" "mu_len m + length b > length (mu_buf m)"
  shows "copyExtend b m = (if mu_len m < length (mu_buf m) \<and> length (mu_buf m) < length b then Panic ''slice bounds out of range''
     else copyExtend b \<lparr>mu_buf = mu_bytes m @ replicate (max (mu_len m + length b) (2 * length (mu_buf m)) - length (mu_buf m)) 0, mu_len = mu_len m\<rparr>)"
proof -
  define n where "n = mu_len m"
  define c where "c = length (mu_buf m)"
  define k where "k = max (n + length b) (2 * c) - c"
  have nc: "n \<le> c" "n + length b > c" using assms by (simp_all add: mu_ok_def n_def c_def)
  have k: "max (int n + int (length b)) (int c * 2) - int c = int k" using nc by (auto simp: k_def)
  define g where "g = \<lparr>mu_buf = mu_bytes m @ replicate k 0, mu_len = n\<rparr>"
  have grow: "Mut_Grow (int k) m = Done (if c - n < k then g else m)"
    using nc assms(1) by (auto simp: Mut_Grow_def Let_def Mut_Len_def Mut_Cap_def n_def[symmetric] c_def[symmetric] g_def)
  have lhs: "copyExtend b m = on_done (mu_slice (int n + int (length b)) (if c - n < k then g else m)) (\<lambda>m2.
        Done (m2\<lparr>mu_buf := copy_at n b (mu_bytes m2) @ drop (mu_len m2) (mu_buf m2)\<rparr>))"
    using nc k grow unfolding copyExtend_def Let_def Mut_Len_def Mut_Cap_def copyExtendGrowthFactor_def n_def[symmetric] c_def[symmetric]
    by simp
  have lg: "length (mu_buf g) = n + k" using assms(1) by (simp add: g_def n_def)
  show ?thesis
  proof (cases "n < c \<and> c < length b")
    case True
    have "mu_slice (int n + int (length b)) (if c - n < k then g else m) = Panic ''slice bounds out of range''"
      using True nc lg by (auto simp: mu_slice_def c_def[symmetric] k_def split: if_splits)
    then show ?thesis using lhs True by (simp add: n_def c_def)
  next
    case False
    then have cg: "c - n < k \<and> n + length b \<le> n + k" using nc unfolding k_def max_def by (simp split: if_splits) linarith
    then have "copyExtend b g = on_done (mu_slice (int n + int (length b)) g) (\<lambda>m2.
        Done (m2\<lparr>mu_buf := copy_at n b (mu_bytes m2) @ drop (mu_len m2) (mu_buf m2)\<rparr>))"
      using lg by (simp add: copyExtend_def Let_def Mut_Len_def Mut_Cap_def g_def)
    then show ?thesis using lhs cg False by (auto simp: n_def[symmetric] c_def[symmetric] g_def k_def)
  qed
qed

lemma copyExtend_cases:
  assumes "mu_ok m"
  shows "if mu_len m < length (mu_buf m) \<and> length (mu_buf m) < length b then copyExtend b m = Panic ''slice bounds out of range''
    else \<exists>m'. copyExtend b m = Done m' \<and> mu_ok m' \<and> mu_bytes m' = mu_bytes m @ b \<and> length (mu_buf m) \<le> length (mu_buf m')"
proof (cases "mu_len m + length b \<le> length (mu_buf m)")
  case True
  then show ?thesis using copyExtend_room[OF assms True] by auto
next
  case False
  let ?k = "max (mu_len m + length b) (2 * length (mu_buf m)) - length (mu_buf m)"
  let ?g = "\<lparr>mu_buf = mu_bytes m @ replicate ?k 0, mu_len = mu_len m\<rparr>"
  show ?thesis
  proof (cases "mu_len m < length (mu_buf m) \<and> length (mu_buf m) < length b")
    case True
    then show ?thesis using copyExtend_grow[OF assms] False by simp
  next
    case ok: False
    have "mu_len m + length b \<le> mu_len m + ?k" "length (mu_buf m) \<le> mu_len m + ?k" using ok False assms by (auto simp: mu_ok_def)
    then have "\<exists>m'. copyExtend b ?g = Done m' \<and> mu_ok m' \<and> mu_bytes m' = mu_bytes ?g @ b \<and> length (mu_buf m) \<le> length (mu_buf m')"
      using copyExtend_room[of ?g b] assms by (auto simp: mu_ok_def mu_bytes_def)
    moreover have "mu_bytes ?g = mu_bytes m" using assms by (simp add: mu_bytes_def mu_ok_def)
    ultimately show ?thesis using copyExtend_grow[OF assms, of b] ok False by auto
  qed
qed

subsection \<open>Joining\<close>

lemma strings_Join_simps [simp]:
  "strings_Join [] sep = []" "strings_Join [s] sep = s"
  "rest \<noteq> [] \<Longrightarrow> strings_Join (s # rest) sep = s @ sep @ strings_Join rest sep"
  by (simp_all add: strings_Join_def split: list.split)

lemma strings_Join_Cons: "strings_Join (s # rest) sep = s @ (if rest = [] then [] else sep @ strings_Join rest sep)"
  by simp

lemma strings_Join_snoc: "strings_Join (ss @ [b]) sep = (if ss = [] then b else strings_Join ss sep @ sep @ b)"
  by (induction ss) (auto simp: strings_Join_Cons)

lemma length_strings_Join: "int (length (strings_Join ss sep)) = totalLen ss + lenSeps sep (int (length ss))"
proof -
  have t: "fold (\<lambda>s n. n + int (length s)) ss a = a + int (length (concat ss))" for a
    by (induction ss arbitrary: a) auto
  have "length (strings_Join ss sep) = length (concat ss) + length sep * (length ss - 1)"
    by (induction ss) (auto simp: strings_Join_Cons algebra_simps Suc_diff_le neq_Nil_conv)
  moreover have "max 0 (int (length ss) - 1) = int (length ss - 1)" by simp
  ultimately show ?thesis by (simp only: totalLen_def t lenSeps_def) simp
qed

text \<open>With room for everything no step grows the array.\<close>

lemma join_loop_room:
  "mu_ok out \<Longrightarrow> mu_len out + length ((if i = 0 \<or> bs = [] then [] else sep) @ strings_Join bs sep) \<le> length (mu_buf out) \<Longrightarrow>
   \<exists>m. join_loop sep i bs out = Done m \<and> mu_ok m \<and> mu_bytes m = mu_bytes out @ (if i = 0 \<or> bs = [] then [] else sep) @ strings_Join bs sep"
proof (induction bs arbitrary: i out)
  case (Cons b bs)
  define pre where "pre = (if i = 0 then [] else sep)"
  have "\<exists>o1. (if i \<noteq> 0 then copyExtend sep out else Done out) = Done o1 \<and> mu_ok o1 \<and> mu_bytes o1 = mu_bytes out @ pre
       \<and> length (mu_buf o1) = length (mu_buf out)"
    using copyExtend_room[OF Cons.prems(1), of sep] Cons.prems by (auto simp: pre_def strings_Join_Cons)
  then obtain o1 where o1: "(if i \<noteq> 0 then copyExtend sep out else Done out) = Done o1" "mu_ok o1" "mu_bytes o1 = mu_bytes out @ pre"
      "length (mu_buf o1) = length (mu_buf out)" by blast
  have l1: "mu_len o1 = mu_len out + length pre" using o1(2,3) Cons.prems(1) by (metis length_append length_mu_bytes)
  have tot: "mu_len out + length pre + length b + (if bs = [] then 0 else length (sep @ strings_Join bs sep)) \<le> length (mu_buf out)"
    using Cons.prems(2) by (auto simp: pre_def strings_Join_Cons split: if_splits)
  obtain o2 where o2: "copyExtend b o1 = Done o2" "mu_ok o2" "mu_bytes o2 = mu_bytes o1 @ b" "length (mu_buf o2) = length (mu_buf o1)"
    using copyExtend_room[OF o1(2), of b] l1 o1(4) tot by auto
  have l2: "mu_len o2 = mu_len out + length pre + length b" using o2(2,3) o1(2) l1 by (metis length_append length_mu_bytes)
  obtain m where "join_loop sep (i + 1) bs o2 = Done m" "mu_ok m"
      "mu_bytes m = mu_bytes o2 @ (if i + 1 = 0 \<or> bs = [] then [] else sep) @ strings_Join bs sep"
    using Cons.IH[OF o2(2), of "i + 1"] l2 o1(4) o2(4) tot by (auto split: if_splits)
  then show ?case using o1 o2 by (auto simp: pre_def strings_Join_Cons)
qed auto

lemma Joiner_room:
  assumes "c = int (length (strings_Join bs sep))"
  shows "\<exists>m. on_done (MakeMutable pooled c) (join_loop sep 0 bs) = Done m \<and> mu_ok m \<and> mu_bytes m = strings_Join bs sep"
proof -
  obtain m where m: "MakeMutable pooled c = Done m" "mu_ok m" "mu_bytes m = []" "c \<le> int (length (mu_buf m))"
    using MakeMutable_Done by blast
  have "mu_len m = 0" using m(2,3) length_mu_bytes by fastforce
  then show ?thesis using join_loop_room[OF m(2), of 0 bs sep] m assms by auto
qed

text \<open>Loops over a sequence are loops over the list that it yields.\<close>

fun extend_all :: "('a \<Rightarrow> 'm \<Rightarrow> 'm outcome) \<Rightarrow> 'a list \<Rightarrow> 'm \<Rightarrow> 'm outcome" where
  "extend_all f [] m = Done m"
| "extend_all f (x # xs) m = on_done (f x m) (extend_all f xs)"

lemma emit_extend:
  "emit xs (\<lambda>e (r, s). let r1 = on_done r (f e) in Some (case r1 of Done _ \<Rightarrow> True | Panic _ \<Rightarrow> False, (r1, s))) (Done m, s)
   = Some (case extend_all f xs m of Done _ \<Rightarrow> True | Panic _ \<Rightarrow> False, (extend_all f xs m, s))"
  by (induction xs arbitrary: m) (auto simp: Let_def split: outcome.split)

lemma extend_with_yields: "yields q xs \<Longrightarrow> extend_with f q m s = Some (extend_all f xs m, s)"
  unfolding yields_def extend_with_def by (simp add: emit_extend[where f = f])

lemma extend_join_yields:
  assumes "yields q xs"
  shows "extend_join q sep m s = Some (on_done (extend_all (\<lambda>e (m, ct).
      on_done (if ct \<noteq> 0 then copyExtend sep m else Done m) (\<lambda>m1. on_done (copyExtend e m1) (\<lambda>m2. Done (m2, ct + 1)))) xs (m, 0 :: int)) (\<lambda>(m, _). Done m), s)"
  by (simp add: extend_join_def extend_with_yields[OF assms])

lemma extend_all_bytes:
  "mu_ok m \<Longrightarrow> extend_all copyExtend xs m = Done m' \<Longrightarrow> mu_ok m' \<and> mu_bytes m' = mu_bytes m @ concat xs"
proof (induction xs arbitrary: m)
  case (Cons x xs)
  from Cons.prems(2) obtain m1 where m1: "copyExtend x m = Done m1" "extend_all copyExtend xs m1 = Done m'" by auto
  then have "mu_ok m1 \<and> mu_bytes m1 = mu_bytes m @ x" using copyExtend_cases[OF Cons.prems(1), of x] by (auto split: if_splits)
  then show ?case using Cons.IH[OF _ m1(2)] by simp
qed simp

lemma extend_all_join_bytes:
  "mu_ok m \<Longrightarrow> 0 \<le> ct \<Longrightarrow> extend_all (\<lambda>e (m, ct :: int).
      on_done (if ct \<noteq> 0 then copyExtend sep m else Done m) (\<lambda>m1. on_done (copyExtend e m1) (\<lambda>m2. Done (m2, ct + 1)))) xs (m, ct) = Done (m', ct')
   \<Longrightarrow> mu_ok m' \<and> mu_bytes m' = mu_bytes m @ (if ct = 0 \<or> xs = [] then [] else sep) @ strings_Join xs sep"
proof (induction xs arbitrary: m ct)
  case (Cons x xs)
  from Cons.prems(3) obtain m1 m2 where m: "(if ct \<noteq> 0 then copyExtend sep m else Done m) = Done m1" "copyExtend x m1 = Done m2"
      and rest: "extend_all (\<lambda>e (m, ct :: int).
      on_done (if ct \<noteq> 0 then copyExtend sep m else Done m) (\<lambda>m1. on_done (copyExtend e m1) (\<lambda>m2. Done (m2, ct + 1)))) xs (m2, ct + 1) = Done (m', ct')"
    by auto
  have 1: "mu_ok m1 \<and> mu_bytes m1 = mu_bytes m @ (if ct = 0 then [] else sep)"
    using m(1) copyExtend_cases[OF Cons.prems(1), of sep] Cons.prems(1) by (auto split: if_splits)
  then have 2: "mu_ok m2 \<and> mu_bytes m2 = mu_bytes m1 @ x" using m(2) copyExtend_cases[of m1 x] by (auto split: if_splits)
  show ?case using Cons.IH[OF _ _ rest] 1 2 Cons.prems(2) by (auto simp: strings_Join_Cons)
qed simp

text \<open>Pieces no longer than the array never meet the panic of \<open>copyExtend\<close>, since the array does not shrink.\<close>

lemma copyExtend_short:
  "mu_ok m \<Longrightarrow> length b \<le> length (mu_buf m) \<Longrightarrow> \<exists>m'. copyExtend b m = Done m' \<and> mu_ok m' \<and> length (mu_buf m) \<le> length (mu_buf m')"
  using copyExtend_cases[of m b] by auto

lemma extend_all_join_done:
  "mu_ok m \<Longrightarrow> \<forall>e\<in>set (sep # xs). length e \<le> length (mu_buf m)
   \<Longrightarrow> \<exists>m' ct'. extend_all (\<lambda>e (m, ct :: int).
      on_done (if ct \<noteq> 0 then copyExtend sep m else Done m) (\<lambda>m1. on_done (copyExtend e m1) (\<lambda>m2. Done (m2, ct + 1)))) xs (m, ct) = Done (m', ct')"
proof (induction xs arbitrary: m ct)
  case (Cons x xs)
  obtain m1 where m1: "(if ct \<noteq> 0 then copyExtend sep m else Done m) = Done m1" "mu_ok m1" "length (mu_buf m) \<le> length (mu_buf m1)"
    using copyExtend_short[OF Cons.prems(1), of sep] Cons.prems by (cases "ct = 0") auto
  moreover obtain m2 where m2: "copyExtend x m1 = Done m2" "mu_ok m2" "length (mu_buf m1) \<le> length (mu_buf m2)"
    using copyExtend_short[OF m1(2), of x] Cons.prems(2) m1(3) by fastforce
  moreover have "\<forall>e\<in>set (sep # xs). length e \<le> length (mu_buf m2)" using Cons.prems(2) m1(3) m2(3) by fastforce
  ultimately show ?case using Cons.IH[OF m2(2), of "ct + 1"] by simp
qed simp

subsection \<open>Pieces between matches\<close>

lemma find_at_index: "bytes_Index s old < 0 \<longleftrightarrow> find_at old s = None" "find_at old s = Some i \<Longrightarrow> bytes_Index s old = int i"
  by simp_all

text \<open>Splitting, replacing and the positions of the matches see the same pieces.\<close>

lemma replace_as_join:
  "old \<noteq> [] \<Longrightarrow> replace_bytes old new n s = strings_Join (split_bytes old 0 (n + 1) s) new"
proof (induction old new n s rule: replace_bytes.induct)
  case (1 old new n s)
  show ?case
  proof (cases "n = 0 \<or> find_at old s = None")
    case True
    then show ?thesis using 1(2) by (auto simp: replace_bytes.simps[of old new n s] split_bytes.simps[of old 0 "n + 1" s])
  next
    case False
    then obtain i where i: "find_at old s = Some i" by auto
    have "split_bytes old 0 n (drop (i + length old) s) \<noteq> []" by (subst split_bytes.simps) (simp split: option.split)
    then show ?thesis using 1(1)[of i] False i 1(2)
      by (simp add: replace_bytes.simps[of old new n s] split_bytes.simps[of old 0 "n + 1" s] find_at_Some)
  qed
qed

lemma split_bytes_nonempty [simp]: "split_bytes sep k n s \<noteq> []"
  by (subst split_bytes.simps) (simp split: option.split)

lemma split_join: "strings_Join (split_bytes sep 0 n s) sep = s"
proof (induction sep "0 :: nat" n s rule: split_bytes.induct)
  case (1 sep n s)
  show ?case
  proof (cases "n = 1 \<or> sep = [] \<or> find_at sep s = None")
    case True then show ?thesis by (subst split_bytes.simps) auto
  next
    case False
    then obtain i where i: "find_at sep s = Some i" by auto
    have "strings_Join (split_bytes sep 0 n s) sep = take i s @ sep @ drop (i + length sep) s"
      using False i 1 by (subst split_bytes.simps) (simp add: )
    then show ?thesis using find_at_Some[OF i] by simp
  qed
qed

lemma split_concat: "concat (split_bytes sep (length sep) n s) = s"
proof (induction sep "length sep" n s rule: split_bytes.induct)
  case (1 sep n s)
  show ?case
  proof (cases "n = 1 \<or> sep = [] \<or> find_at sep s = None")
    case True then show ?thesis by (subst split_bytes.simps) auto
  next
    case False
    then obtain i where i: "find_at sep s = Some i" by auto
    have "concat (split_bytes sep (length sep) n s) = take (i + length sep) s @ drop (i + length sep) s"
      using False i 1 by (subst split_bytes.simps) simp
    then show ?thesis by simp
  qed
qed

fun starts :: "nat \<Rightarrow> nat \<Rightarrow> byte list list \<Rightarrow> nat list" where
  "starts k a [] = []"
| "starts k a [b] = []"
| "starts k a (b # bs) = (a + length b) # starts k (a + length b + k) bs"

lemma starts_Cons: "bs \<noteq> [] \<Longrightarrow> starts k a (b # bs) = (a + length b) # starts k (a + length b + k) bs"
  by (cases bs) auto

lemma length_starts: "length (starts k a bs) = length bs - 1"
  by (induction k a bs rule: starts.induct) auto

lemma starts_snoc: "bs \<noteq> [] \<Longrightarrow> starts (length sep) a (bs @ [b]) = starts (length sep) a bs @ [a + length (strings_Join bs sep)]"
proof (induction bs arbitrary: a)
  case (Cons c bs)
  then show ?case by (cases "bs = []") (auto simp: starts_Cons)
qed simp

lemma matches_as_starts:
  "old \<noteq> [] \<Longrightarrow> match_positions old n a s = starts (length old) a (split_bytes old 0 (n + 1) s)"
proof (induction old n a s rule: match_positions.induct)
  case (1 old n a s)
  show ?case
  proof (cases "n = 0 \<or> find_at old s = None")
    case True
    then show ?thesis using 1(2) by (auto simp: match_positions.simps[of old n a s] split_bytes.simps[of old 0 "n + 1" s])
  next
    case False
    then obtain i where i: "find_at old s = Some i" by auto
    have "min (length s) i = i" using find_at_Some[OF i] by linarith
    then show ?thesis using 1(1)[of i] False i 1(2)
      by (simp add: match_positions.simps[of old n a s] split_bytes.simps[of old 0 "n + 1" s] starts_Cons)
  qed
qed

subsection \<open>The loops of \<open>Replace\<close>\<close>

text \<open>What is left of a limit after \<open>c\<close> replacements; a negative limit is none.\<close>

definition left_of :: "int \<Rightarrow> int \<Rightarrow> int \<Rightarrow> bool" where
  "left_of n c k \<longleftrightarrow> (n < 0 \<and> k < 0) \<or> (0 \<le> n \<and> c \<le> n \<and> k = n - c)"

lemma left_of_step: "left_of n c k \<Longrightarrow> k \<noteq> 0 \<Longrightarrow> left_of n (c + 1) (k - 1)"
  by (auto simp: left_of_def)

lemma left_of_more: "left_of n c k \<Longrightarrow> (c < n \<or> n < 0) \<longleftrightarrow> k \<noteq> 0"
  by (auto simp: left_of_def)

lemma Replace_count_matches:
  "old \<noteq> [] \<Longrightarrow> left_of n c k \<Longrightarrow> Replace_count old n c s = Some (c + int (length (match_positions old k a s)))"
proof (induction old k a s arbitrary: c rule: match_positions.induct)
  case (1 old k a s)
  show ?case
  proof (cases "k = 0 \<or> find_at old s = None")
    case True
    then show ?thesis using 1(2,3) left_of_more[OF 1(3)]
      by (subst Replace_count.simps) (auto simp: match_positions.simps[of old k a s])
  next
    case False
    then obtain i where i: "find_at old s = Some i" by auto
    then have "s \<noteq> []" using 1(2) by (auto split: if_splits)
    moreover have "\<not> (0 \<le> n \<and> n \<le> c)" using left_of_more[OF 1(3)] False by auto
    ultimately show ?thesis using 1(1)[of i, OF _ i 1(2) left_of_step[OF 1(3)]] False i 1(2)
      by (subst Replace_count.simps) (simp add: match_positions.simps[of old k a s])
  qed
qed

lemma replace_same_bytes:
  "old \<noteq> [] \<Longrightarrow> length new = length old \<Longrightarrow> left_of n c k \<Longrightarrow> start \<le> length s \<Longrightarrow> drop start s = t \<Longrightarrow>
   replace_same old new n c start s = Some (take start s @ replace_bytes old new k t)"
proof (induction old new k t arbitrary: c start s rule: replace_bytes.induct)
  case (1 old new k t)
  show ?case
  proof (cases "k = 0 \<or> find_at old t = None")
    case True
    have "s = take start s @ t" using 1(6) by (metis append_take_drop_id)
    then show ?thesis using True 1(2,6) left_of_more[OF 1(4)]
      by (subst replace_same.simps) (auto simp: replace_bytes.simps[of old new k t])
  next
    case False
    then obtain i where i: "find_at old t = Some i" by auto
    have len: "start + i + length old \<le> length s" using find_at_Some[OF i] 1(6,5) by auto
    let ?s = "copy_at (i + start) new s" and ?start = "i + start + length new"
    have cp: "?s = take start s @ take i t @ new @ drop (i + length old) t"
      using len 1(3,6) take_add[of start i s] by (auto simp: copy_at_fits add.commute add.left_commute)
    have tl: "length (take i t) = i" using len 1(6) by auto
    have d: "drop ?start ?s = drop (i + length old) t" unfolding cp using len tl 1(5) by simp
    have tk: "take ?start ?s = take start s @ take i t @ new" unfolding cp using len tl 1(5) by simp
    have "replace_same old new n (c + 1) ?start ?s = Some (take ?start ?s @ replace_bytes old new (k - 1) (drop (i + length old) t))"
      by (rule 1(1)[OF _ i 1(2,3) left_of_step[OF 1(4)] _ d]) (use False len 1(2,3) in auto)
    then show ?thesis using False i left_of_more[OF 1(4)] 1(2,6) tk
      by (subst replace_same.simps) (simp add: replace_bytes.simps[of old new k t])
  qed
qed

lemma replace_matches_positions:
  "old \<noteq> [] \<Longrightarrow> left_of n (int (length ms)) k \<Longrightarrow> drop start (take origLen s) = t \<Longrightarrow>
   replace_matches old n origLen start ms s = Some (ms @ match_positions old k start t)"
proof (induction old k start t arbitrary: ms rule: match_positions.induct)
  case (1 old k start t)
  show ?case
  proof (cases "k = 0 \<or> find_at old t = None")
    case True
    then show ?thesis using 1(2,4) left_of_more[OF 1(3)]
      by (subst replace_matches.simps) (auto simp: match_positions.simps[of old k start t])
  next
    case False
    then obtain i where i: "find_at old t = Some i" by auto
    have "replace_matches old n origLen (start + i + length old) (ms @ [start + i]) s
        = Some ((ms @ [start + i]) @ match_positions old (k - 1) (start + i + length old) (drop (i + length old) t))"
    proof (rule 1(1)[OF _ i 1(2)])
      show "\<not> (k = 0 \<or> old = [])" using False 1(2) by simp
      show "left_of n (int (length (ms @ [start + i]))) (k - 1)" using left_of_step[OF 1(3)] False by (simp add: add.commute)
      show "drop (start + i + length old) (take origLen s) = drop (i + length old) t"
        unfolding 1(4)[symmetric] drop_drop by (simp add: add.commute add.left_commute)
    qed
    then show ?thesis using False i left_of_more[OF 1(3)] 1(2,4)
      by (subst replace_matches.simps) (simp add: match_positions.simps[of old k start t] add.assoc)
  qed
qed

text \<open>
  From the back: the unread part is not touched, because the write position never passes the read position.
\<close>

lemma replace_backward_join:
  "bs \<noteq> [] \<Longrightarrow> length old \<le> length new \<Longrightarrow> r = length (strings_Join bs old) \<Longrightarrow> take r s = strings_Join bs old \<Longrightarrow>
   w = r + (length bs - 1) * (length new - length old) \<Longrightarrow> w \<le> length s \<Longrightarrow>
   replace_backward old new (rev (starts (length old) 0 bs)) w r s = Done (length (hd bs), strings_Join bs new @ drop w s)"
proof (induction bs arbitrary: r w s rule: rev_induct)
  case (snoc b bs)
  show ?case
  proof (cases "bs = []")
    case True
    then show ?thesis using snoc.prems append_take_drop_id[of r s] by simp
  next
    case False
    define p where "p = length (strings_Join bs old)"
    define d where "d = length new - length old"
    define w2 where "w2 = p + (length bs - 1) * d"
    have r: "r = p + length old + length b" using snoc.prems(3) False by (simp add: strings_Join_snoc p_def)
    have one: "1 \<le> length bs" using False by (simp add: Suc_leI)
    then have bsd: "length bs * d = (length bs - 1) * d + d" by (cases "length bs") auto
    have new: "length new = length old + d" using snoc.prems(2) by (simp add: d_def)
    have w: "w = w2 + length new + length b" using snoc.prems(5) r bsd new by (simp add: w2_def d_def[symmetric])
    have tk: "take r s = strings_Join bs old @ old @ b" using snoc.prems(4) False by (simp add: strings_Join_snoc)
    have rl: "r \<le> length s" using snoc.prems(3,4) by (metis length_take min.cobounded1)
    have "drop (p + length old) (take r s @ drop r s) = b @ drop r s" unfolding tk by (simp add: p_def)
    then have "drop (r - length b) s = b @ drop r s" using r by simp
    then have blk: "take (length b) (drop (r - length b) s) = b" by simp
    let ?s1 = "copy_at (w - length b) b s"
    have wl: "w \<le> length s" by (rule snoc.prems(6))
    have s1: "?s1 = take (w2 + length new) s @ b @ drop w s" using wl w by (simp add: copy_at_fits)
    let ?s2 = "copy_at w2 new ?s1"
    have s2: "?s2 = take w2 s @ new @ b @ drop w s" unfolding s1
      using wl w by (subst copy_at_fits) simp_all
    have "p \<le> w2" by (simp add: w2_def)
    then have "take p ?s2 = take p s" unfolding s2 using wl w by (simp add: min_def)
    also have "\<dots> = take p (take r s)" using r by (simp add: min_def)
    also have "\<dots> = strings_Join bs old" unfolding tk by (simp add: p_def)
    finally have tk2: "take p ?s2 = strings_Join bs old" .
    have "replace_backward old new (rev (starts (length old) 0 bs)) w2 p ?s2 = Done (length (hd bs), strings_Join bs new @ drop w2 ?s2)"
      by (rule snoc.IH[OF False snoc.prems(2) p_def tk2]) (use wl w in \<open>simp_all add: w2_def d_def s2\<close>)
    moreover have "drop w2 ?s2 = new @ b @ drop w s" unfolding s2 using wl w by simp
    moreover have "replace_backward old new (rev (starts (length old) 0 (bs @ [b]))) w r s = replace_backward old new (rev (starts (length old) 0 bs)) w2 p ?s2"
      using False r w blk by (simp add: starts_snoc p_def[symmetric] Let_def)
    ultimately show ?thesis using False by (simp add: strings_Join_snoc)
  qed
qed simp

end
