(* ===== verification/StrutProps.thy ===== *)
theory StrutProps
  imports StrutLaws
begin

text \<open>The properties of mutable strings and joiners.\<close>

text \<open>
  C34: \<open>copyExtend\<close> panics in exactly one case: the string is shorter than its capacity and what is appended is
  longer than the capacity.  Then the growth, computed from the capacity but applied to the length, is too
  small for the slice that follows.  In every other case it appends, and the capacity does not shrink.
\<close>

theorem copyExtend_exact:
  assumes "mu_ok m"
  shows "if mu_len m < length (mu_buf m) \<and> length (mu_buf m) < length b then copyExtend b m = Panic ''slice bounds out of range''
    else \<exists>m'. copyExtend b m = Done m' \<and> mu_ok m' \<and> mu_bytes m' = mu_bytes m @ b \<and> length (mu_buf m) \<le> length (mu_buf m')"
  by (rule copyExtend_cases[OF assms])

lemma copyExtend_exact_witness:
  "copyExtend [1, 2, 3] \<lparr>mu_buf = [0, 0], mu_len = 1\<rparr> = Panic ''slice bounds out of range''"
  using copyExtend_exact[of "\<lparr>mu_buf = [0, 0], mu_len = 1\<rparr>" "[1, 2, 3]"] by (simp add: mu_ok_def)

text \<open>
  The joiners that compute the length beforehand never panic and agree with \<open>strings.Join\<close>, whatever the
  pool hands out.
\<close>

theorem Joiner_preallocated:
  "(\<exists>m. Joiner_StringsMutable pooled sj strs = Done m \<and> mu_bytes m = Joiner_Strings sj strs)
   \<and> (\<exists>m. Joiner_Bytes pooled sj strs = Done m \<and> mu_bytes m = Joiner_Strings sj strs)"
proof (rule conjI)
  have c: "int (length (strings_Join strs (jn_sep sj))) = int (length (jn_sep sj)) * max 0 (int (length strs) - 1) + totalLen strs"
      "int (length (strings_Join strs (jn_sep sj))) = totalLen strs + int (length (jn_sep sj)) * max 0 (int (length strs) - 1)"
    by (simp_all only: length_strings_Join lenSeps_def)
  show "\<exists>m. Joiner_StringsMutable pooled sj strs = Done m \<and> mu_bytes m = Joiner_Strings sj strs"
    unfolding Joiner_StringsMutable_def Joiner_Strings_def c(1)[symmetric] using Joiner_room[OF refl] by blast
  show "\<exists>m. Joiner_Bytes pooled sj strs = Done m \<and> mu_bytes m = Joiner_Strings sj strs"
    unfolding Joiner_Bytes_def Joiner_Strings_def c(2)[symmetric] using Joiner_room[OF refl] by blast
qed

text \<open>
  Joining a sequence without knowing its length: when no piece is longer than the array the loop never panics,
  it returns, and the text is that of \<open>strings.Join\<close> behind what was there before.
\<close>

theorem ExtendJoin_appends:
  assumes "yields q strs" "mu_ok m" "\<forall>e\<in>set (sep # strs). length e \<le> length (mu_buf m)"
  shows "\<exists>m'. Mut_ExtendStringsJoin q sep m s = Some (Done m', s) \<and> mu_ok m' \<and> mu_bytes m' = mu_bytes m @ strings_Join strs sep"
proof -
  obtain m' ct where m': "extend_all (\<lambda>e (m, ct :: int).
      on_done (if ct \<noteq> 0 then copyExtend sep m else Done m) (\<lambda>m1. on_done (copyExtend e m1) (\<lambda>m2. Done (m2, ct + 1)))) strs (m, 0) = Done (m', ct)"
    using extend_all_join_done[OF assms(2,3)] by blast
  then have "Mut_ExtendStringsJoin q sep m s = Some (Done m', s)"
    unfolding Mut_ExtendStringsJoin_def extend_join_yields[OF assms(1)] by simp
  then show ?thesis using extend_all_join_bytes[OF assms(2) _ m'] by simp
qed

lemma ExtendJoin_appends_witness:
  "\<exists>m'. Mut_ExtendStringsJoin (Slice [[1], [2]]) [9] \<lparr>mu_buf = [0], mu_len = 0\<rparr> () = Some (Done m', ()) \<and> mu_bytes m' = [1, 9, 2]"
  using ExtendJoin_appends[OF yields_Slice, of "\<lparr>mu_buf = [0], mu_len = 0\<rparr>" "[9]" "[[1], [2]]" "()"] by (auto simp: mu_ok_def mu_bytes_def)

subsection \<open>Replacing in place\<close>

definition limit_of :: "int \<Rightarrow> int" where "limit_of n = (if n < 0 then -1 else n)"

lemma left_of_limit: "left_of n 0 (limit_of n)"
  by (simp add: left_of_def limit_of_def)

lemma length_replace:
  fixes old :: "byte list"
  assumes "old \<noteq> []"
  shows "int (length (replace_bytes old new k s)) = int (length s) + int (length (match_positions old k 0 s)) * (int (length new) - int (length old))"
proof -
  define bs where "bs = split_bytes old 0 (k + 1) s"
  have l: "int (length s) = totalLen bs + lenSeps old (int (length bs))"
    using split_join[of old "k + 1" s] length_strings_Join[of bs old] by (simp add: bs_def)
  have "int (length (replace_bytes old new k s)) = totalLen bs + lenSeps new (int (length bs))"
    using length_strings_Join[of bs new] by (simp add: replace_as_join[OF assms] bs_def)
  moreover have "1 \<le> length bs" by (simp add: bs_def Suc_leI)
  then have "max 0 (int (length bs) - 1) = int (length (match_positions old k 0 s))"
    by (simp add: matches_as_starts[OF assms] length_starts bs_def[symmetric] of_nat_diff)
  ultimately show ?thesis using l unfolding lenSeps_def by (simp add: algebra_simps)
qed

lemma replace_none: "match_positions old k a s = [] \<Longrightarrow> replace_bytes old new k s = s"
  by (auto simp: match_positions.simps[of old k a s] replace_bytes.simps[of old new k s] split: if_splits option.splits)

lemma replaceInPlace_bytes:
  assumes "mu_ok m" "old \<noteq> []" "length old \<le> length new"
    and "newLen = int (length (replace_bytes old new (limit_of n) (mu_bytes m)))" "newLen \<le> int (length (mu_buf m))"
  shows "\<exists>m'. replaceInPlace m old new n newLen = Some (Done m') \<and> mu_ok m' \<and> mu_bytes m' = replace_bytes old new (limit_of n) (mu_bytes m)"
proof (cases "length old = length new")
  case True
  let ?r = "replace_bytes old new (limit_of n) (mu_bytes m)"
  have "replace_same old new n 0 0 (mu_bytes m) = Some ?r"
    using replace_same_bytes[OF assms(2) True[symmetric] left_of_limit, of 0 "mu_bytes m"] by simp
  moreover have "length ?r = mu_len m" using length_replace[OF assms(2), of new] True assms(1) by simp
  ultimately show ?thesis using True assms(1) by (auto simp: replaceInPlace_def mu_bytes_put mu_ok_def)
next
  case False
  let ?r = "replace_bytes old new (limit_of n) (mu_bytes m)"
  define bs where "bs = split_bytes old 0 (limit_of n + 1) (mu_bytes m)"
  define w where "w = length ?r"
  define m1 where "m1 = m\<lparr>mu_len := w\<rparr>"
  have sl: "mu_slice newLen m = Done m1" using assms(4,5) by (simp add: mu_slice_def m1_def w_def)
  have wl: "w \<le> length (mu_buf m)" using assms(4,5) by (simp add: w_def)
  have b1: "length (mu_bytes m1) = w" using wl by (simp add: m1_def mu_bytes_def)
  have k: "length (match_positions old (limit_of n) 0 (mu_bytes m)) = length bs - 1"
    by (simp add: matches_as_starts[OF assms(2)] length_starts bs_def)
  have "int w = int (mu_len m) + int (length bs - 1) * int (length new - length old)"
    using length_replace[OF assms(2), of new "limit_of n" "mu_bytes m"] assms(1,3) k by (simp add: w_def of_nat_diff)
  then have w: "w = mu_len m + (length bs - 1) * (length new - length old)" by (metis of_nat_add of_nat_eq_iff of_nat_mult)
  have c: "take (mu_len m) (mu_bytes m1) = mu_bytes m" using w by (simp add: m1_def mu_bytes_def min_def)
  have ms: "replace_matches old n (mu_len m) 0 [] (mu_bytes m1) = Some (starts (length old) 0 bs)"
    using replace_matches_positions[OF assms(2), of n "[]" "limit_of n" 0 "mu_len m" "mu_bytes m1" "mu_bytes m"] left_of_limit c
    by (simp add: matches_as_starts[OF assms(2)] bs_def)
  have join: "strings_Join bs old = mu_bytes m" "strings_Join bs new = ?r"
    by (simp_all add: bs_def split_join replace_as_join[OF assms(2)])
  have "replace_backward old new (rev (starts (length old) 0 bs)) w (mu_len m) (mu_bytes m1) = Done (length (hd bs), ?r @ drop w (mu_bytes m1))"
    using replace_backward_join[of bs old new "mu_len m" "mu_bytes m1" w] assms(1,3) w b1 c join by (simp add: bs_def)
  moreover have "copy_at 0 (take j s) s = s" for j and s :: "byte list" by (simp add: copy_at_def)
  ultimately have "replaceInPlace m old new n newLen = Some (Done (m1\<lparr>mu_buf := ?r @ drop w (mu_buf m1)\<rparr>))"
    using False sl ms b1 assms(4) by (simp add: replaceInPlace_def w_def[symmetric])
  moreover have "mu_bytes (m1\<lparr>mu_buf := ?r @ drop w (mu_buf m1)\<rparr>) = ?r" by (rule mu_bytes_put) (simp add: m1_def w_def)
  ultimately show ?thesis by (auto simp: mu_ok_def m1_def w_def)
qed

text \<open>
  C35: \<open>Replace\<close>, which replaces in place and from the back where the result fits into the array, agrees with
  \<open>bytes.Replace\<close>; it returns, and no index is out of range.  An empty pattern is left alone.
\<close>

theorem Replace_is_bytes_Replace:
  assumes "mu_ok m" "int (mu_len m) \<le> maxInt" "int (length (bytes_Replace (mu_bytes m) old new n)) \<le> maxInt"
  shows "\<exists>m'. Mut_Replace old new n m = Some (Done m') \<and> mu_ok m'
     \<and> mu_bytes m' = (if old = [] then mu_bytes m else bytes_Replace (mu_bytes m) old new n)"
proof (cases "n = 0 \<or> old = []")
  case True
  then show ?thesis using assms(1) by (auto simp: Mut_Replace_def bytes_Replace_def replace_bytes.simps)
next
  case False
  let ?r = "replace_bytes old new (limit_of n) (mu_bytes m)"
  let ?ps = "match_positions old (limit_of n) 0 (mu_bytes m)"
  have r: "bytes_Replace (mu_bytes m) old new n = ?r" by (simp add: bytes_Replace_def limit_of_def)
  have count: "Replace_count old n 0 (mu_bytes m) = Some (int (length ?ps))"
    using Replace_count_matches[OF _ left_of_limit, of old n "mu_bytes m" 0] False by simp
  have len: "int (length ?r) = int (mu_len m) + int (length ?ps) * (int (length new) - int (length old))"
    using length_replace[of old new "limit_of n" "mu_bytes m"] False assms(1) by simp
  define d where "d = int (length ?ps) * (int (length new) - int (length old))"
  have "- maxInt \<le> d" "d \<le> maxInt" using len assms(2) assms(3)[unfolded r] unfolding d_def[symmetric] by linarith+
  then have "wrap64 d = d" by (intro wrap64_id) (auto simp: minInt_def maxInt_def)
  moreover have "wrap64 (int (mu_len m) + d) = int (length ?r)"
    using len assms(3) r unfolding d_def[symmetric] by (subst wrap64_id) (auto simp: minInt_def)
  ultimately have nl: "wrap64 (Mut_Len m + wrap64 (int (length ?ps) * (int (length new) - int (length old)))) = int (length ?r)"
    by (simp add: Mut_Len_def d_def)
  show ?thesis
  proof (cases "?ps = []")
    case True
    then show ?thesis using False count assms(1) replace_none[OF True] r by (auto simp: Mut_Replace_def)
  next
    case some: False
    show ?thesis
    proof (cases "length old \<le> length new \<and> int (length ?r) \<le> Mut_Cap m")
      case True
      then show ?thesis using False some count nl r replaceInPlace_bytes[OF assms(1), of old new _ n]
        by (simp add: Mut_Replace_def Mut_Cap_def Let_def)
    next
      case no: False
      then have "Mut_Replace old new n m = Some (Done (fresh_mutable ?r))"
        using False some count nl r by (auto simp: Mut_Replace_def Let_def)
      then show ?thesis using False r by auto
    qed
  qed
qed

lemma Replace_is_bytes_Replace_witness:
  "\<exists>m'. Mut_Replace [1] [7, 8] (-1) \<lparr>mu_buf = [1, 2, 1, 0, 0, 0], mu_len = 3\<rparr> = Some (Done m') \<and> mu_bytes m' = [7, 8, 2, 7, 8]"
proof -
  let ?m = "\<lparr>mu_buf = [1, 2, 1, 0, 0, 0 :: byte], mu_len = 3\<rparr>"
  have b: "mu_bytes ?m = [1, 2, 1]" by (simp add: mu_bytes_def)
  have "replace_bytes [1] [7, 8] (-1) [1, 2, 1 :: byte] = [7, 8, 2, 7, 8]"
    by (simp add: replace_bytes.simps)
  then have "bytes_Replace (mu_bytes ?m) [1] [7, 8] (-1) = [7, 8, 2, 7, 8]" by (simp add: bytes_Replace_def b)
  then show ?thesis using Replace_is_bytes_Replace[of ?m "[1]" "[7, 8]" "-1"] by (auto simp: mu_ok_def maxInt_def)
qed

subsection \<open>Repeating and splitting\<close>

lemma repeat_loop_copies:
  "take (i * length orig) s = concat (replicate i orig) \<Longrightarrow> (i + k) * length orig \<le> length s \<Longrightarrow>
   \<exists>s'. repeat_loop orig i k s = Done s' \<and> length s' = length s \<and> take ((i + k) * length orig) s' = concat (replicate (i + k) orig)"
proof (induction k arbitrary: i s)
  case (Suc k)
  let ?l = "i * length orig"
  have fit: "?l + length orig \<le> length s" using Suc.prems(2) by (simp add: algebra_simps)
  have "take ((i + 1) * length orig) (copy_at ?l orig s) = concat (replicate (i + 1) orig)"
    using take_copy_at[OF fit] Suc.prems(1) by (simp add: add.commute replicate_append_same[symmetric])
  moreover have "length (copy_at ?l orig s) = length s" using fit by simp
  ultimately obtain s' where "repeat_loop orig (i + 1) k (copy_at ?l orig s) = Done s'" "length s' = length s"
      "take ((i + 1 + k) * length orig) s' = concat (replicate (i + 1 + k) orig)"
    using Suc.IH[of "i + 1" "copy_at ?l orig s"] Suc.prems(2) by (auto simp: algebra_simps)
  then show ?case using fit by (simp add: algebra_simps)
qed simp

text \<open>
  \<open>Repeat\<close> leaves the given number of copies, whether it copies within the array or allocates, as long as the
  length of the result is an \<open>int\<close>.
\<close>

theorem Repeat_copies:
  assumes "mu_ok m" "int (mu_len m) * count \<le> maxInt"
  shows "\<exists>m'. Mut_Repeat count m = Done m' \<and> mu_ok m' \<and> mu_bytes m' = concat (replicate (nat count) (mu_bytes m))"
proof (cases "count \<le> 1")
  case True
  then show ?thesis using assms(1) by (cases "count = 1") (auto simp: Mut_Repeat_def mu_slice_def mu_ok_def mu_bytes_def)
next
  case False
  define c where "c = nat count"
  have c: "count = int c" "2 \<le> c" using False by (auto simp: c_def)
  define nn where "nn = mu_len m * c"
  have prod: "int (mu_len m) * count = int nn" using c by (simp add: nn_def)
  have nl: "wrap64 (int nn) = int nn" using assms(2) unfolding prod by (intro wrap64_id) (auto simp: minInt_def)
  have l: "length (mu_bytes m) = mu_len m" using assms(1) by simp
  show ?thesis
  proof (cases "nn \<le> length (mu_buf m)")
    case True
    have c1: "1 + nat (count - 1) = c" using c by auto
    obtain s' where s': "repeat_loop (mu_bytes m) 1 (nat (count - 1)) (mu_buf m) = Done s'" "length s' = length (mu_buf m)"
        "take nn s' = concat (replicate c (mu_bytes m))"
      using repeat_loop_copies[of 1 "mu_bytes m" "mu_buf m" "nat (count - 1)"] True assms(1) unfolding c1 l nn_def
      by (auto simp: mu_bytes_def mult.commute)
    then have "Mut_Repeat count m = Done (m\<lparr>mu_len := nn, mu_buf := s'\<rparr>)"
      using False nl True by (simp add: Mut_Repeat_def Let_def prod Mut_Cap_def mu_slice_def)
    then show ?thesis using s' True by (simp add: mu_ok_def mu_bytes_def c_def)
  next
    case no: False
    then show ?thesis using False nl assms(2) l
      by (simp add: Mut_Repeat_def Let_def prod Mut_Cap_def bytes_Repeat_def)
  qed
qed

lemma Repeat_copies_witness: "\<exists>m'. Mut_Repeat 2 \<lparr>mu_buf = [1, 0, 0, 0], mu_len = 1\<rparr> = Done m' \<and> mu_bytes m' = [1, 1]"
  using Repeat_copies[of "\<lparr>mu_buf = [1, 0, 0, 0], mu_len = 1\<rparr>" 2] by (auto simp: mu_ok_def maxInt_def mu_bytes_def numeral_2_eq_2)

text \<open>
  Joining the pieces of a split with the separator gives the text back, and the pieces of \<open>SplitAfterN\<close>
  are the text one after the other, for every limit but zero.
\<close>

theorem split_roundtrip:
  assumes "n \<noteq> 0"
  shows "yields (Mut_SplitN sep n m) (genSplit sep 0 n (mu_bytes m)) \<and> strings_Join (genSplit sep 0 n (mu_bytes m)) sep = mu_bytes m
     \<and> concat (genSplit sep (length sep) n (mu_bytes m)) = mu_bytes m"
proof -
  have e: "concat (explode n bs) = bs" for bs
  proof -
    have "concat (take k (runes bs)) @ concat (drop k (runes bs)) = bs" for k by (metis append_take_drop_id concat_append concat_runes)
    then show ?thesis by (simp add: explode_def Let_def)
  qed
  have "strings_Join xs [] = concat xs" for xs :: "byte list list" by (induction xs) (auto simp: strings_Join_Cons)
  then show ?thesis using assms e by (simp add: genSplit_def split_join split_concat Mut_SplitN_def yields_Slice)
qed

lemma split_roundtrip_witness: "strings_Join (genSplit [9] 0 2 (mu_bytes (fresh_mutable [1, 9, 2, 9, 3]))) [9] = [1, 9, 2, 9, 3]"
  using split_roundtrip[of 2 "[9]" "fresh_mutable [1, 9, 2, 9, 3]"] by auto

text \<open>
  What \<open>Truncate\<close> keeps: the first \<open>idx\<close> bytes, but never all of them.  An index at or beyond the end, documented
  to change nothing, takes the last byte away.
\<close>

theorem Truncate_keeps:
  assumes "mu_ok m"
  shows "\<exists>m'. Mut_Truncate idx m = Done m' \<and> mu_bytes m' = (if Mut_Len m \<le> idx then butlast (mu_bytes m) else take (nat idx) (mu_bytes m))"
proof -
  define k where "k = max 0 (min (int (mu_len m) - 1) idx)"
  have k: "0 \<le> k" "k \<le> int (length (mu_buf m))" using assms by (auto simp: k_def mu_ok_def)
  have "nat k = (if int (mu_len m) \<le> idx then mu_len m - 1 else min (mu_len m) (nat idx))"
    unfolding k_def by (auto simp: min_def max_def)
  then have "take (nat k) (mu_buf m) = (if Mut_Len m \<le> idx then butlast (mu_bytes m) else take (nat idx) (mu_bytes m))"
    using assms by (auto simp: Mut_Len_def mu_bytes_def mu_ok_def butlast_take min.commute)
  then show ?thesis using k by (simp add: Mut_Truncate_def mu_slice_def Mut_Len_def k_def[symmetric] mu_bytes_def)
qed

lemma Truncate_keeps_witness: "\<exists>m'. Mut_Truncate 5 (fresh_mutable [1, 2]) = Done m' \<and> mu_bytes m' = [1]"
  using Truncate_keeps[of "fresh_mutable [1, 2]" 5] by (simp add: Mut_Len_def fresh_mutable_def mu_bytes_def mu_ok_def)

end
