(* ===== verification/StrutJson.thy ===== *)
theory StrutJson
  imports StrutLaws
begin

text \<open>
  The JSON text of a mutable string: every valid text comes back, and some JSON texts of other programs are refused.
\<close>

subsection \<open>Valid runes\<close>

definition long_rune :: "byte list \<Rightarrow> bool" where
  "long_rune r \<longleftrightarrow> 1 < length r \<and> snd (utf8_DecodeRune r) = length r"

lemma of_nat_unat_byte [simp]: "of_nat (unat (b :: byte)) = b"
  by simp

lemma decode_split:
  assumes "utf8_DecodeRune bs = (v, k)" "1 < k"
  shows "\<exists>b0 b1 rest. bs = b0 # b1 # rest \<and> 194 \<le> unat b0 \<and> unat b0 \<le> 244 \<and> second_low (unat b0) \<le> unat b1 \<and> unat b1 \<le> second_high (unat b0)
     \<and> ((unat b0 < 224 \<and> k = 2 \<and> v = (unat b0 - 192) * 64 + (unat b1 - 128))
      \<or> (\<exists>b2 r2. rest = b2 # r2 \<and> cont b2 \<and> 224 \<le> unat b0 \<and>
          ((unat b0 < 240 \<and> k = 3 \<and> v = (unat b0 - 224) * 4096 + (unat b1 - 128) * 64 + (unat b2 - 128))
         \<or> (\<exists>b3 r3. r2 = b3 # r3 \<and> cont b3 \<and> 240 \<le> unat b0 \<and> k = 4
             \<and> v = (unat b0 - 240) * 262144 + (unat b1 - 128) * 4096 + (unat b2 - 128) * 64 + (unat b3 - 128)))))"
  using assms unfolding utf8_DecodeRune_def Let_def
  by (cases bs; cases "tl bs"; cases "tl (tl bs)"; cases "tl (tl (tl bs))") (auto split: if_splits)

lemma digits64: "(z :: nat) < 64 \<Longrightarrow> (m * 64 + z) div 64 = m \<and> (m * 64 + z) mod 64 = z"
  by simp

lemma encode_two:
  assumes "194 \<le> unat b0" "unat b0 < 224" "128 \<le> unat b1" "unat b1 < 192"
  shows "utf8_EncodeRune (int ((unat b0 - 192) * 64 + (unat b1 - 128))) = [b0, b1] \<and> 128 \<le> (unat b0 - 192) * 64 + (unat b1 - 128)"
proof -
  define x where "x = unat b0 - 192"
  define y where "y = unat b1 - 128"
  have b: "2 \<le> x" "x < 32" "y < 64" "b0 = of_nat (192 + x)" "b1 = of_nat (128 + y)" using assms by (simp_all add: x_def y_def)
  have "x * 64 + y < 2048" "128 \<le> x * 64 + y" using b(1-3) by auto
  then show ?thesis unfolding x_def[symmetric] y_def[symmetric]
    using digits64[OF b(3), of x] by (simp add: utf8_EncodeRune_def Let_def b(4,5) nat_add_distrib nat_mult_distrib)
qed

lemma encode_three:
  assumes "224 \<le> unat b0" "unat b0 < 240" "second_low (unat b0) \<le> unat b1" "unat b1 \<le> second_high (unat b0)" "cont b2"
  shows "utf8_EncodeRune (int ((unat b0 - 224) * 4096 + (unat b1 - 128) * 64 + (unat b2 - 128))) = [b0, b1, b2]
     \<and> 128 \<le> (unat b0 - 224) * 4096 + (unat b1 - 128) * 64 + (unat b2 - 128)"
proof -
  define x where "x = unat b0 - 224"
  define y where "y = unat b1 - 128"
  define z where "z = unat b2 - 128"
  have lo: "128 \<le> unat b1" "unat b1 < 192" using assms(3,4) by (auto simp: second_low_def second_high_def split: if_splits)
  have b: "x < 16" "y < 64" "z < 64" "b0 = of_nat (224 + x)" "b1 = of_nat (128 + y)" "b2 = of_nat (128 + z)"
    using assms lo by (auto simp: x_def y_def z_def cont_def)
  define v where "v = (x * 64 + y) * 64 + z"
  have e: "x * 4096 + y * 64 + z = v" by (simp add: v_def algebra_simps)
  have big: "2048 \<le> v"
  proof (cases "x = 0")
    case True
    then have "32 \<le> y" using assms(1,3) by (simp add: x_def y_def second_low_def)
    then show ?thesis by (simp add: v_def)
  qed (simp add: v_def)
  have sur: "\<not> (55296 \<le> v \<and> v \<le> 57343)"
  proof (cases "x = 13")
    case True
    then have "y \<le> 31" using assms(1,4) by (auto simp: x_def y_def second_high_def split: if_splits)
    then show ?thesis using True b(3) by (simp add: v_def)
  next
    case False
    then have "x \<le> 12 \<or> 14 \<le> x" by arith
    then show ?thesis using b(2,3) by (auto simp: v_def)
  qed
  have "v < 65536" using b(1-3) by (simp add: v_def)
  moreover have "v div 64 = x * 64 + y" "v mod 64 = z" using digits64[OF b(3), of "x * 64 + y"] by (auto simp: v_def)
  moreover then have "v div 4096 = x" using digits64[OF b(2), of x] div_mult2_eq[of v 64 64] by simp
  ultimately show ?thesis unfolding x_def[symmetric] y_def[symmetric] z_def[symmetric] e
    using big sur digits64[OF b(2), of x] by (auto simp: utf8_EncodeRune_def Let_def b(4-6))
qed

lemma encode_four:
  assumes "240 \<le> unat b0" "unat b0 \<le> 244" "second_low (unat b0) \<le> unat b1" "unat b1 \<le> second_high (unat b0)" "cont b2" "cont b3"
  shows "utf8_EncodeRune (int ((unat b0 - 240) * 262144 + (unat b1 - 128) * 4096 + (unat b2 - 128) * 64 + (unat b3 - 128))) = [b0, b1, b2, b3]
     \<and> 128 \<le> (unat b0 - 240) * 262144 + (unat b1 - 128) * 4096 + (unat b2 - 128) * 64 + (unat b3 - 128)"
proof -
  define x where "x = unat b0 - 240"
  define y where "y = unat b1 - 128"
  define z where "z = unat b2 - 128"
  define t where "t = unat b3 - 128"
  have lo: "128 \<le> unat b1" "unat b1 < 192" using assms(3,4) by (auto simp: second_low_def second_high_def split: if_splits)
  have b: "x \<le> 4" "y < 64" "z < 64" "t < 64" "b0 = of_nat (240 + x)" "b1 = of_nat (128 + y)" "b2 = of_nat (128 + z)" "b3 = of_nat (128 + t)"
    using assms lo by (auto simp: x_def y_def z_def t_def cont_def)
  define v where "v = ((x * 64 + y) * 64 + z) * 64 + t"
  have e: "x * 262144 + y * 4096 + z * 64 + t = v" by (simp add: v_def algebra_simps)
  have big: "65536 \<le> v"
  proof (cases "x = 0")
    case True
    then have "16 \<le> y" using assms(1,3) by (simp add: x_def y_def second_low_def)
    then show ?thesis by (simp add: v_def)
  qed (simp add: v_def)
  have top: "v \<le> 1114111"
  proof (cases "x = 4")
    case True
    then have "y \<le> 15" using assms(1,4) by (auto simp: x_def y_def second_high_def split: if_splits)
    then show ?thesis using True b(3,4) by (simp add: v_def)
  next
    case False
    then have "x \<le> 3" using b(1) by simp
    then show ?thesis using b(2-4) by (simp add: v_def)
  qed
  have d: "v div 64 = (x * 64 + y) * 64 + z" "v mod 64 = t" using digits64[OF b(4), of "(x * 64 + y) * 64 + z"] by (auto simp: v_def)
  have d2: "v div 4096 = x * 64 + y" using d(1) digits64[OF b(3), of "x * 64 + y"] div_mult2_eq[of v 64 64] by simp
  have d3: "v div 262144 = x" using d2 digits64[OF b(2), of x] div_mult2_eq[of v 4096 64] by simp
  show ?thesis unfolding x_def[symmetric] y_def[symmetric] z_def[symmetric] t_def[symmetric] e
    using big top d d2 d3 digits64[OF b(2), of x] digits64[OF b(3), of "x * 64 + y"]
    by (auto simp: utf8_EncodeRune_def Let_def b(5-8))
qed

lemma decode_long:
  assumes "utf8_DecodeRune bs = (v, k)" "1 < k"
  shows "utf8_DecodeRune (take k bs @ x) = (v, k) \<and> 128 \<le> v \<and> utf8_EncodeRune (int v) = take k bs \<and> (\<forall>b\<in>set (take k bs). 128 \<le> unat b)"
proof -
  from decode_split[OF assms] obtain b0 b1 rest where
    r: "bs = b0 # b1 # rest" "194 \<le> unat b0" "unat b0 \<le> 244" "second_low (unat b0) \<le> unat b1" "unat b1 \<le> second_high (unat b0)" and
    c: "(unat b0 < 224 \<and> k = 2 \<and> v = (unat b0 - 192) * 64 + (unat b1 - 128))
      \<or> (\<exists>b2 r2. rest = b2 # r2 \<and> cont b2 \<and> 224 \<le> unat b0 \<and>
          ((unat b0 < 240 \<and> k = 3 \<and> v = (unat b0 - 224) * 4096 + (unat b1 - 128) * 64 + (unat b2 - 128))
         \<or> (\<exists>b3 r3. r2 = b3 # r3 \<and> cont b3 \<and> 240 \<le> unat b0 \<and> k = 4
             \<and> v = (unat b0 - 240) * 262144 + (unat b1 - 128) * 4096 + (unat b2 - 128) * 64 + (unat b3 - 128))))"
    by blast
  have lo: "128 \<le> unat b1" "unat b1 < 192" using r(4,5) by (auto simp: second_low_def second_high_def split: if_splits)
  from c consider
      (two) "unat b0 < 224" "k = 2" "v = (unat b0 - 192) * 64 + (unat b1 - 128)"
    | (three) b2 r2 where "rest = b2 # r2" "cont b2" "224 \<le> unat b0" "unat b0 < 240" "k = 3"
        "v = (unat b0 - 224) * 4096 + (unat b1 - 128) * 64 + (unat b2 - 128)"
    | (four) b2 b3 r3 where "rest = b2 # b3 # r3" "cont b2" "cont b3" "240 \<le> unat b0" "k = 4"
        "v = (unat b0 - 240) * 262144 + (unat b1 - 128) * 4096 + (unat b2 - 128) * 64 + (unat b3 - 128)"
    by blast
  then show ?thesis
  proof cases
    case two
    have rs: "take k bs = [b0, b1]" using r(1) two by simp
    have "utf8_DecodeRune ([b0, b1] @ x) = (v, k)" using r two by (simp add: utf8_DecodeRune_def Let_def)
    moreover note encode_two[OF r(2) two(1) lo, folded two(3)]
    ultimately show ?thesis using r(2) lo unfolding rs by simp
  next
    case three
    have rs: "take k bs = [b0, b1, b2]" using r(1) three by simp
    have "utf8_DecodeRune ([b0, b1, b2] @ x) = (v, k)" using r three by (simp add: utf8_DecodeRune_def Let_def)
    moreover note encode_three[OF three(3,4) r(4,5) three(2), folded three(6)]
    ultimately show ?thesis using r(2) lo three(2) unfolding rs cont_def by simp
  next
    case four
    have rs: "take k bs = [b0, b1, b2, b3]" using r(1) four by simp
    have "utf8_DecodeRune ([b0, b1, b2, b3] @ x) = (v, k)" using r four by (simp add: utf8_DecodeRune_def Let_def)
    moreover note encode_four[OF four(4) r(3,4,5) four(2,3), folded four(6)]
    ultimately show ?thesis using r(2) lo four(2,3) unfolding rs cont_def by simp
  qed
qed

lemma long_rune_decode:
  assumes "long_rune r"
  shows "utf8_DecodeRune (r @ x) = utf8_DecodeRune r \<and> 128 \<le> fst (utf8_DecodeRune r)
     \<and> utf8_EncodeRune (int (fst (utf8_DecodeRune r))) = r \<and> (\<forall>b\<in>set r. 128 \<le> unat b)"
proof -
  obtain v where d: "utf8_DecodeRune r = (v, length r)" "1 < length r"
    using assms by (metis long_rune_def prod.collapse)
  show ?thesis using decode_long[OF d, of x] d(1) by simp
qed

text \<open>A valid text is made of ASCII bytes and long runes.\<close>

definition rune_ok :: "byte list \<Rightarrow> bool" where
  "rune_ok r \<longleftrightarrow> (\<exists>b. r = [b] \<and> unat b < 128) \<or> long_rune r"

lemma rune_size_long: "bs \<noteq> [] \<Longrightarrow> 1 < rune_size bs \<Longrightarrow> long_rune (take (rune_size bs) bs)"
proof -
  assume a: "bs \<noteq> []" "1 < rune_size bs"
  obtain v where d: "utf8_DecodeRune bs = (v, rune_size bs)" by (metis rune_size_def prod.collapse)
  show ?thesis using decode_long[OF d a(2), of "[]"] a rune_size_bounds[OF a(1)] by (simp add: long_rune_def)
qed

lemma utf8_Valid_runes: "utf8_Valid bs \<longleftrightarrow> (\<forall>r\<in>set (runes bs). rune_ok r)"
proof -
  have "\<forall>r\<in>set (runes bs). rune_ok r \<longleftrightarrow> 1 < length r \<or> unat (hd r) < 128"
  proof (induction bs rule: runes.induct)
    case (1 bs)
    show ?case
    proof (cases "bs = []")
      case False
      let ?k = "rune_size bs" and ?r = "take (rune_size bs) bs"
      have k: "0 < ?k" "?k \<le> length bs" using rune_size_bounds[OF False] by auto
      have "rune_ok ?r \<longleftrightarrow> 1 < length ?r \<or> unat (hd ?r) < 128"
      proof (cases "1 < ?k")
        case True
        then show ?thesis using rune_size_long[OF False True] k by (simp add: rune_ok_def)
      next
        case no: False
        then have "?k = 1" using k(1) by simp
        then have "?r = [hd bs]" using False by (cases bs) auto
        then show ?thesis by (auto simp: rune_ok_def long_rune_def)
      qed
      then show ?thesis using 1[OF False] False by (subst runes.simps) simp
    qed simp
  qed
  then show ?thesis by (auto simp: utf8_Valid_def)
qed

subsection \<open>Escaping a rune\<close>

definition json_rune :: "byte list \<Rightarrow> byte list" where
  "json_rune r = (if unat (hd r) < 128 then json_escape (hd r) else r)"

lemma json_rune_simps [simp]: "json_rune [b] = (if unat b < 128 then json_escape b else [b])"
    "\<not> unat (hd r) < 128 \<Longrightarrow> json_rune r = r"
  by (simp_all add: json_rune_def)

lemma rune_size_ascii: "unat b < 128 \<Longrightarrow> rune_size (b # bs) = 1"
  by (simp add: rune_size_def utf8_DecodeRune_def Let_def)

lemma json_body_runes: "json_body bs = concat (map json_rune (runes bs))"
proof (induction bs rule: json_body.induct)
  case (1 bs)
  show ?case
  proof (cases bs)
    case Nil then show ?thesis by (subst json_body.simps) simp
  next
    case (Cons b rest)
    have k: "0 < rune_size bs" using rune_size_bounds[of bs] Cons by simp
    show ?thesis
    proof (cases "unat b < 128")
      case True
      then show ?thesis using 1(1)[OF Cons True] rune_size_ascii[OF True, of rest]
        by (subst json_body.simps, subst runes.simps) (simp add: Cons)
    next
      case False
      then have "hd (take (rune_size bs) bs) = b" using k Cons by (cases "rune_size bs") auto
      then show ?thesis using 1(2)[OF Cons False refl] False
        by (subst json_body.simps, subst runes.simps) (simp add: Cons Let_def)
    qed
  qed
qed

lemma numeral_4_eq_4: "(4 :: nat) = Suc (Suc (Suc (Suc 0)))"
  by simp

lemma hex_digit: "k < 16 \<Longrightarrow> unhex (hexdigits ! k) = Some k"
proof -
  assume "k < 16"
  then have "k = 0 \<or> k = 1 \<or> k = 2 \<or> k = 3 \<or> k = 4 \<or> k = 5 \<or> k = 6 \<or> k = 7 \<or> k = 8 \<or> k = 9 \<or> k = 10 \<or> k = 11 \<or> k = 12
      \<or> k = 13 \<or> k = 14 \<or> k = 15" by arith
  then show ?thesis by (auto simp: hexdigits_def str_def unhex_def Let_def of_char_def)
qed

lemma unquote_control:
  assumes "unat b < 32" "b \<noteq> 10" "b \<noteq> 13" "b \<noteq> 9"
  shows "unquote_char (json_escape b @ x) = Some (unat b, True, x) \<and> json_escape b \<noteq> [] \<and> hd (json_escape b) = 92"
proof -
  have n: "b \<noteq> 34" "b \<noteq> 92" using assms(1) by auto
  have e: "json_escape b = [92, 117, 48, 48, hexdigits ! (unat b div 16), hexdigits ! (unat b mod 16)]"
    using assms n by (simp add: json_escape_def)
  have h: "unhex 48 = Some 0" "unhex (hexdigits ! (unat b div 16)) = Some (unat b div 16)" "unhex (hexdigits ! (unat b mod 16)) = Some (unat b mod 16)"
    using assms(1) hex_digit by (auto simp: unhex_def)
  have "hex_value 4 0 (48 # 48 # hexdigits ! (unat b div 16) # hexdigits ! (unat b mod 16) # x) = Some (unat b, x)"
    unfolding numeral_4_eq_4 by (simp add: h)
  then have "unquote_hex 4 (48 # 48 # hexdigits ! (unat b div 16) # hexdigits ! (unat b mod 16) # x) = Some (unat b, True, x)"
    using assms(1) by (simp add: unquote_hex_def valid_rune_def)
  then show ?thesis by (simp add: e unquote_char_def)
qed

lemma unquote_plain:
  assumes "unat b < 128" "32 \<le> unat b \<or> b = 10 \<or> b = 13 \<or> b = 9"
  shows "unquote_char (json_escape b @ x) = Some (unat b, False, x) \<and> json_escape b \<noteq> [] \<and> hd (json_escape b) \<noteq> 34 \<and> hd (json_escape b) \<noteq> 10"
proof -
  consider "b = 34" | "b = 92" | "b = 10" | "b = 13" | "b = 9" | "b \<noteq> 34" "b \<noteq> 92" "b \<noteq> 10" "b \<noteq> 13" "b \<noteq> 9" by blast
  then show ?thesis
  proof cases
    case 6
    then have "json_escape b = [b]" using assms(2) by (simp add: json_escape_def)
    then show ?thesis using 6 assms(1) by (simp add: unquote_char_def)
  qed (simp_all add: json_escape_def unquote_char_def)
qed

text \<open>One step of the loop reads one rune of the original text.\<close>

lemma unquote_step:
  assumes "rune_ok r"
  shows "unquote_loop buf (json_rune r @ x) = unquote_loop (buf @ r) x"
proof (cases "long_rune r")
  case True
  note l = long_rune_decode[OF True, of x]
  obtain b r' where r: "r = b # r'" using True by (cases r) (auto simp: long_rune_def)
  have b: "128 \<le> unat b" using l r by simp
  then have n: "b \<noteq> 34" "b \<noteq> 10" by auto
  have d: "utf8_DecodeRune (b # r' @ x) = (fst (utf8_DecodeRune r), length r)"
    using l True unfolding long_rune_def r by (metis append_Cons prod.collapse)
  have u: "unquote_char (r @ x) = Some (fst (utf8_DecodeRune r), True, x)"
    using b n(1) unfolding unquote_char_def r by (simp add: d[unfolded r])
  have "json_rune r = r" using b r by (simp add: json_rune_def)
  then show ?thesis using u l n by (subst unquote_loop.simps) (simp add: r)
next
  case False
  then obtain b where r: "r = [b]" "unat b < 128" using assms by (auto simp: rune_ok_def)
  show ?thesis
  proof (cases "unat b < 32 \<and> b \<noteq> 10 \<and> b \<noteq> 13 \<and> b \<noteq> 9")
    case True
    then show ?thesis using unquote_control[of b x] r by (subst unquote_loop.simps) simp
  next
    case no: False
    then show ?thesis using unquote_plain[OF r(2), of x] r by (subst unquote_loop.simps) auto
  qed
qed

lemma unquote_json_body:
  assumes "\<forall>r\<in>set rs. rune_ok r"
  shows "unquote_loop buf (concat (map json_rune rs) @ [34]) = Some (Some (buf @ concat rs, [34]))"
  using assms
proof (induction rs arbitrary: buf)
  case Nil
  then show ?case by (subst unquote_loop.simps) simp
qed (simp add: unquote_step)

subsection \<open>Text without escapes\<close>

text \<open>A quote in the encoded text stands behind a backslash, and text without a backslash is not changed.\<close>

lemma json_escape_quote: "34 \<in> set (json_escape b) \<Longrightarrow> json_escape b = [92, 34]"
proof -
  assume q: "34 \<in> set (json_escape b)"
  have "hexdigits ! k \<noteq> 34" if "k < 16" for k using hex_digit[OF that] by (auto simp: unhex_def)
  then have "hexdigits ! (unat b mod 16) \<noteq> 34" "unat b < 32 \<Longrightarrow> hexdigits ! (unat b div 16) \<noteq> 34" by simp_all
  then show ?thesis using q by (auto simp: json_escape_def split: if_splits)
qed

lemma json_escape_plain: "92 \<notin> set (json_escape b) \<Longrightarrow> json_escape b = [b]"
  by (auto simp: json_escape_def split: if_splits)

lemma long_rune_json: "long_rune r \<Longrightarrow> json_rune r = r"
proof -
  assume l: "long_rune r"
  then have "r \<noteq> []" by (auto simp: long_rune_def)
  then have "128 \<le> unat (hd r)" using long_rune_decode[OF l, of "[]"] by simp
  then show ?thesis by (simp add: json_rune_def)
qed

lemma json_rune_quote: "rune_ok r \<Longrightarrow> 34 \<in> set (json_rune r) \<Longrightarrow> json_rune r = [92, 34]"
proof -
  assume ok: "rune_ok r" and q: "34 \<in> set (json_rune r)"
  from ok consider b where "r = [b]" "unat b < 128" | "long_rune r" by (auto simp: rune_ok_def)
  then show ?thesis
  proof cases
    case 1
    then show ?thesis using q json_escape_quote[of b] by simp
  next
    case 2
    then show ?thesis using q long_rune_json[OF 2] long_rune_decode[OF 2, of "[]"] by auto
  qed
qed

lemma json_rune_plain: "rune_ok r \<Longrightarrow> 92 \<notin> set (json_rune r) \<Longrightarrow> json_rune r = r"
proof -
  assume ok: "rune_ok r" and q: "92 \<notin> set (json_rune r)"
  from ok consider b where "r = [b]" "unat b < 128" | "long_rune r" by (auto simp: rune_ok_def)
  then show ?thesis
  proof cases
    case 1
    then show ?thesis using q json_escape_plain[of b] by simp
  next
    case 2
    then show ?thesis by (rule long_rune_json)
  qed
qed

lemma first_quote:
  assumes "\<forall>r\<in>set rs. rune_ok r" "find_at [34] (concat (map json_rune rs) @ [34]) = Some e"
    "92 \<notin> set (take e (concat (map json_rune rs) @ [34]))"
  shows "e = length (concat rs) \<and> concat (map json_rune rs) = concat rs"
  using assms
proof (induction rs arbitrary: e)
  case (Cons r rs)
  have skip: "find_at [34] (xs @ ys) = map_option (\<lambda>i. length xs + i) (find_at [34] ys)" if "34 \<notin> set xs" for xs ys :: "byte list"
    by (cases "find_at [34] ys"; use that in \<open>induction xs\<close>) auto
  have ok: "rune_ok r" using Cons.prems(1) by simp
  have "34 \<notin> set (json_rune r)"
  proof
    assume "34 \<in> set (json_rune r)"
    then have "json_rune r = [92, 34]" using json_rune_quote[OF ok] by simp
    then show False using Cons.prems(2,3) by auto
  qed
  then obtain j where j: "find_at [34] (concat (map json_rune rs) @ [34]) = Some j" "e = length (json_rune r) + j"
    using Cons.prems(2) skip[of "json_rune r"] by auto
  then have "92 \<notin> set (json_rune r)" "92 \<notin> set (take j (concat (map json_rune rs) @ [34]))" using Cons.prems(3) by auto
  then show ?case using Cons.IH[of j] Cons.prems(1) j json_rune_plain[OF ok] by simp
qed simp

text \<open>
  C36: Unmarshalling what \<open>MarshalJSON\<close> writes for valid UTF-8 gives the text back, whatever the receiver held before:
  for text with and without escapes, control characters and runes of any length.
\<close>

theorem json_roundtrip:
  assumes "utf8_Valid (mu_bytes m)" "mu_ok m0"
  shows "\<exists>m'. Mut_UnmarshalJSON gr (Mut_MarshalJSON m) m0 = Some (Inr m') \<and> mu_bytes m' = mu_bytes m"
proof -
  define rs where "rs = runes (mu_bytes m)"
  define body where "body = concat (map json_rune rs)"
  have rs: "\<forall>r\<in>set rs. rune_ok r" "concat rs = mu_bytes m" using assms(1) by (auto simp: rs_def utf8_Valid_runes)
  have js: "Mut_MarshalJSON m = 34 # body @ [34]" by (simp add: Mut_MarshalJSON_def json_body_runes body_def rs_def)
  have loop: "unquote_loop [] (body @ [34]) = Some (Some (mu_bytes m, [34]))"
    using unquote_json_body[OF rs(1), of "[]"] by (simp add: body_def rs(2))
  have "strconv_Unquote (34 # body @ [34]) = Some (Some (mu_bytes m))"
  proof (cases "find_at [34] (body @ [34])")
    case None
    then show ?thesis by (simp add: find_at_None)
  next
    case (Some e)
    show ?thesis
    proof (cases "92 \<notin> set (take e (body @ [34])) \<and> 10 \<notin> set (take e (body @ [34])) \<and> utf8_Valid (take e (body @ [34]))")
      case True
      then have "e = length (mu_bytes m) \<and> body = mu_bytes m"
        using first_quote[OF rs(1), of e] Some by (simp add: body_def rs(2))
      then show ?thesis using True Some by (simp add: strconv_Unquote_def)
    next
      case False
      then show ?thesis using Some loop unfolding strconv_Unquote_def by (auto simp: Let_def)
    qed
  qed
  moreover have "mu_bytes (go_append gr (mu_bytes m) (m0\<lparr>mu_len := 0\<rparr>)) = mu_bytes m"
    by (subst go_append_bytes) (simp_all add: mu_ok_def mu_bytes_def)
  ultimately show ?thesis unfolding js by (simp add: Mut_UnmarshalJSON_def nth_append)
qed

lemma json_roundtrip_witness:
  "\<exists>m'. Mut_UnmarshalJSON (\<lambda>c n. n) (Mut_MarshalJSON (fresh_mutable [34, 7, 65])) nil_mutable = Some (Inr m') \<and> mu_bytes m' = [34, 7, 65]"
proof -
  have "utf8_Valid (mu_bytes (fresh_mutable [34, 7, 65]))"
    by (simp add: utf8_Valid_def runes.simps rune_size_def utf8_DecodeRune_def)
  from json_roundtrip[OF this, of nil_mutable] show ?thesis by (simp add: mu_ok_def nil_mutable_def)
qed

lemma json_texts:
  "str ''\"'' @ [92] @ str ''/\"'' = [34, 92, 47, 34]"
  "str ''\"'' @ [92] @ str ''ud83d'' @ [92] @ str ''ude00\"'' = [34, 92, 117, 100, 56, 51, 100, 92, 117, 100, 101, 48, 48, 34]"
  by (simp_all add: str_def of_char_def)

lemma bad_escape: "s \<noteq> [] \<Longrightarrow> hd s \<noteq> 34 \<Longrightarrow> unquote_char s = None \<Longrightarrow> unquote_loop buf s = Some None"
  by (subst unquote_loop.simps) simp

lemma escape_refused:
  assumes "unquote_char (92 # s) = None" "find_at [34] (92 # s) = Some (Suc e)"
  shows "strconv_Unquote (34 # 92 # s) = Some None"
  using assms bad_escape[OF _ _ assms(1), of "[]"] by (simp add: strconv_Unquote_def Let_def)

lemma slash_refused: "strconv_Unquote [34, 92, 47, 34] = Some None"
proof (rule escape_refused)
  show "unquote_char [92, 47, 34] = None" by code_simp
  show "find_at [34] [92, 47, 34 :: byte] = Some (Suc 1)" by code_simp
qed

lemma surrogate_refused: "strconv_Unquote [34, 92, 117, 100, 56, 51, 100, 92, 117, 100, 101, 48, 48, 34] = Some None"
proof (rule escape_refused)
  have "hex_value 4 0 (100 # 56 # 51 # 100 # x) = Some (55357, x)" for x
    unfolding numeral_4_eq_4 by (simp add: unhex_def)
  then show "unquote_char [92, 117, 100, 56, 51, 100, 92, 117, 100, 101, 48, 48, 34] = None"
    by (simp add: unquote_char_def unquote_hex_def valid_rune_def)
  show "find_at [34] [92, 117, 100, 56, 51, 100, 92, 117, 100, 101, 48, 48, 34 :: byte] = Some (Suc 11)" by simp
qed

text \<open>
  Two escapes of JSON that \<open>UnmarshalJSON\<close> refuses: the escaped slash and the surrogate pair, here that of the
  code point 1F600.  Both are JSON strings.
\<close>

theorem json_escapes_refused:
  "Mut_UnmarshalJSON gr (str ''\"'' @ [92] @ str ''/\"'') m = Some (Inl ''invalid syntax'')
   \<and> Mut_UnmarshalJSON gr (str ''\"'' @ [92] @ str ''ud83d'' @ [92] @ str ''ude00\"'') m = Some (Inl ''invalid syntax'')"
  unfolding json_texts by (simp add: Mut_UnmarshalJSON_def slash_refused surrogate_refused)

end
