(* ===== verification/MdBuilder.thy ===== *)
theory MdBuilder
  imports StrutLaws
begin

text \<open>
  The markdown builder of \<open>src/mdwn/markdown.go\<close>: every element it writes, on the mutable string it embeds.  What
  the pool hands out, the growth of \<open>append\<close> and the format \<open>%v\<close> of package \<open>fmt\<close> are parameters.
\<close>

type_synonym Builder = Mutable

subsection \<open>Helpers\<close>

text \<open>\<open>strings.Repeat\<close>, and \<open>bytes.TrimRight\<close> for newlines.\<close>

definition strings_Repeat :: "byte list \<Rightarrow> int \<Rightarrow> byte list outcome" where
  "strings_Repeat s count =
     (if count < 0 then Panic ''strings: negative Repeat count''
      else if int (length s) * count > maxInt then Panic ''strings: Repeat output length overflow''
      else Done (concat (replicate (nat count) s)))"

definition trim_newlines :: "byte list \<Rightarrow> byte list" where
  "trim_newlines b = rev (dropWhile (\<lambda>c. c = 10) (rev b))"

definition newLineByte :: byte where "newLineByte = 10"
definition newLineStr :: "byte list" where "newLineStr = [10]"

definition joinSpace :: "byte list list \<Rightarrow> byte list" where "joinSpace parts = strings_Join parts [32]"

definition sumLengthOfStrings :: "byte list list \<Rightarrow> int" where
  "sumLengthOfStrings strs = fold (\<lambda>s total. total + int (length s)) strs 0"

definition MakeBuilder :: "Mutable \<Rightarrow> int \<Rightarrow> Builder outcome" where "MakeBuilder pooled capacity = MakeMutable pooled capacity"

definition Builder_Release :: "Builder \<Rightarrow> Builder \<times> Mutable option" where "Builder_Release m = Mut_Release m"

definition Builder_Truncate :: "int \<Rightarrow> Builder \<Rightarrow> Builder outcome" where
  "Builder_Truncate targetSize m = mu_slice (max 0 (min targetSize (Mut_Len m))) m"

definition growToAccomidate :: "int \<Rightarrow> Builder \<Rightarrow> Builder outcome" where "growToAccomidate l m = Mut_Grow l m"

subsection \<open>Headings and paragraphs\<close>

definition Builder_heading :: "growth \<Rightarrow> int \<Rightarrow> byte list list \<Rightarrow> Builder \<Rightarrow> Builder outcome" where
  "Builder_heading gr level parts m =
     on_done (strings_Repeat (str ''#'') level) (\<lambda>marks.
       Done (Mut_NLines gr 2 (Mut_Concat gr parts (Mut_Concat gr [marks, str '' ''] m))))"

definition Builder_H1 :: "growth \<Rightarrow> byte list list \<Rightarrow> Builder \<Rightarrow> Builder outcome" where "Builder_H1 gr parts = Builder_heading gr 1 parts"
definition Builder_H2 :: "growth \<Rightarrow> byte list list \<Rightarrow> Builder \<Rightarrow> Builder outcome" where "Builder_H2 gr parts = Builder_heading gr 2 parts"
definition Builder_H3 :: "growth \<Rightarrow> byte list list \<Rightarrow> Builder \<Rightarrow> Builder outcome" where "Builder_H3 gr parts = Builder_heading gr 3 parts"
definition Builder_H4 :: "growth \<Rightarrow> byte list list \<Rightarrow> Builder \<Rightarrow> Builder outcome" where "Builder_H4 gr parts = Builder_heading gr 4 parts"
definition Builder_H5 :: "growth \<Rightarrow> byte list list \<Rightarrow> Builder \<Rightarrow> Builder outcome" where "Builder_H5 gr parts = Builder_heading gr 5 parts"
definition Builder_H6 :: "growth \<Rightarrow> byte list list \<Rightarrow> Builder \<Rightarrow> Builder outcome" where "Builder_H6 gr parts = Builder_heading gr 6 parts"

definition Builder_H1Words :: "growth \<Rightarrow> byte list list \<Rightarrow> Builder \<Rightarrow> Builder outcome" where "Builder_H1Words gr words = Builder_heading gr 1 [joinSpace words]"
definition Builder_H2Words :: "growth \<Rightarrow> byte list list \<Rightarrow> Builder \<Rightarrow> Builder outcome" where "Builder_H2Words gr words = Builder_heading gr 2 [joinSpace words]"
definition Builder_H3Words :: "growth \<Rightarrow> byte list list \<Rightarrow> Builder \<Rightarrow> Builder outcome" where "Builder_H3Words gr words = Builder_heading gr 3 [joinSpace words]"
definition Builder_H4Words :: "growth \<Rightarrow> byte list list \<Rightarrow> Builder \<Rightarrow> Builder outcome" where "Builder_H4Words gr words = Builder_heading gr 4 [joinSpace words]"
definition Builder_H5Words :: "growth \<Rightarrow> byte list list \<Rightarrow> Builder \<Rightarrow> Builder outcome" where "Builder_H5Words gr words = Builder_heading gr 5 [joinSpace words]"
definition Builder_H6Words :: "growth \<Rightarrow> byte list list \<Rightarrow> Builder \<Rightarrow> Builder outcome" where "Builder_H6Words gr words = Builder_heading gr 6 [joinSpace words]"

definition Builder_Paragraph :: "growth \<Rightarrow> byte list list \<Rightarrow> Builder \<Rightarrow> Builder" where
  "Builder_Paragraph gr parts m = Mut_NLines gr 2 (Mut_Concat gr parts m)"
definition Builder_ParagraphWords :: "growth \<Rightarrow> byte list list \<Rightarrow> Builder \<Rightarrow> Builder" where
  "Builder_ParagraphWords gr words = Builder_Paragraph gr [joinSpace words]"
definition Builder_ParagraphBreak :: "growth \<Rightarrow> Builder \<Rightarrow> Builder" where "Builder_ParagraphBreak gr = Mut_NLines gr 2"

subsection \<open>Inline elements\<close>

definition Builder_PushString :: "growth \<Rightarrow> byte list \<Rightarrow> Builder \<Rightarrow> Builder" where "Builder_PushString gr s m = Mut_PushString gr s m"
definition Builder_PushBytes :: "growth \<Rightarrow> byte list \<Rightarrow> Builder \<Rightarrow> Builder" where "Builder_PushBytes gr b m = Mut_PushBytes gr b m"
definition Builder_PushLine :: "growth \<Rightarrow> Builder \<Rightarrow> Builder" where "Builder_PushLine gr m = Mut_Line gr m"
definition Builder_PushNLines :: "growth \<Rightarrow> int \<Rightarrow> Builder \<Rightarrow> Builder" where "Builder_PushNLines gr n m = Mut_NLines gr n m"
definition Builder_PushConcat :: "growth \<Rightarrow> byte list list \<Rightarrow> Builder \<Rightarrow> Builder" where "Builder_PushConcat gr parts m = Mut_Concat gr parts m"
definition Builder_Text :: "growth \<Rightarrow> byte list list \<Rightarrow> Builder \<Rightarrow> Builder" where "Builder_Text gr parts m = Mut_Concat gr parts m"

definition Builder_Bold :: "growth \<Rightarrow> byte list list \<Rightarrow> Builder \<Rightarrow> Builder" where
  "Builder_Bold gr parts m = Builder_PushString gr (str ''**'') (Mut_Concat gr parts (Builder_PushString gr (str ''**'') m))"
definition Builder_Italic :: "growth \<Rightarrow> byte list list \<Rightarrow> Builder \<Rightarrow> Builder" where
  "Builder_Italic gr parts m = Builder_PushString gr (str ''_'') (Mut_Concat gr parts (Builder_PushString gr (str ''_'') m))"
definition Builder_Preformatted :: "growth \<Rightarrow> byte list list \<Rightarrow> Builder \<Rightarrow> Builder" where
  "Builder_Preformatted gr parts m = Builder_PushString gr (str ''`'') (Mut_Concat gr parts (Builder_PushString gr (str ''`'') m))"
definition Builder_Strikethrough :: "growth \<Rightarrow> byte list list \<Rightarrow> Builder \<Rightarrow> Builder" where
  "Builder_Strikethrough gr parts m = Builder_PushString gr (str ''~~'') (Mut_Concat gr parts (Builder_PushString gr (str ''~~'') m))"
definition Builder_ItalicParagraph :: "growth \<Rightarrow> byte list list \<Rightarrow> Builder \<Rightarrow> Builder" where
  "Builder_ItalicParagraph gr parts m = Mut_NLines gr 2 (Builder_Italic gr parts m)"

text \<open>The variants for words join with \<open>ExtendStringsJoin\<close>, which can panic.\<close>

definition join_words :: "byte list list \<Rightarrow> Builder \<Rightarrow> Builder outcome option" where
  "join_words words m = map_option fst (Mut_JoinStrings words [32] m)"

definition marked_words :: "growth \<Rightarrow> byte list \<Rightarrow> byte list list \<Rightarrow> Builder \<Rightarrow> Builder outcome option" where
  "marked_words gr mark words m =
     map_option (\<lambda>r. on_done r (\<lambda>m1. Done (Builder_PushString gr mark m1))) (join_words words (Builder_PushString gr mark m))"

definition Builder_TextWords :: "byte list list \<Rightarrow> Builder \<Rightarrow> Builder outcome option" where "Builder_TextWords parts m = join_words parts m"
definition Builder_BoldWords :: "growth \<Rightarrow> byte list list \<Rightarrow> Builder \<Rightarrow> Builder outcome option" where "Builder_BoldWords gr = marked_words gr (str ''**'')"
definition Builder_ItalicWords :: "growth \<Rightarrow> byte list list \<Rightarrow> Builder \<Rightarrow> Builder outcome option" where "Builder_ItalicWords gr = marked_words gr (str ''_'')"
definition Builder_PreformattedWords :: "growth \<Rightarrow> byte list list \<Rightarrow> Builder \<Rightarrow> Builder outcome option" where
  "Builder_PreformattedWords gr = marked_words gr (str ''`'')"
definition Builder_StrikethroughWords :: "growth \<Rightarrow> byte list list \<Rightarrow> Builder \<Rightarrow> Builder outcome option" where
  "Builder_StrikethroughWords gr = marked_words gr (str ''~~'')"

definition Builder_Link :: "growth \<Rightarrow> byte list \<Rightarrow> byte list \<Rightarrow> Builder \<Rightarrow> Builder" where
  "Builder_Link gr label url m = Mut_Concat gr [str ''['', label, str '']('', url, str '')''] m"
definition Builder_Image :: "growth \<Rightarrow> byte list \<Rightarrow> byte list \<Rightarrow> Builder \<Rightarrow> Builder" where
  "Builder_Image gr altText url m = Mut_Concat gr [str ''!['', altText, str '']('', url, str '')''] m"
definition Builder_HorizontalRule :: "growth \<Rightarrow> Builder \<Rightarrow> Builder" where
  "Builder_HorizontalRule gr m = Mut_NLines gr 2 (Builder_PushString gr (str ''-----'') m)"

subsection \<open>Keys and values\<close>

definition Builder_KV :: "growth \<Rightarrow> byte list \<Rightarrow> byte list \<Rightarrow> Builder \<Rightarrow> Builder" where
  "Builder_KV gr key val m = Mut_Line gr (Mut_Concat gr [str ''**'', key, str ''**: '', val] m)"
definition Builder_PushKV :: "growth \<Rightarrow> byte list \<Rightarrow> byte list \<Rightarrow> Builder \<Rightarrow> Builder" where "Builder_PushKV gr key val = Builder_KV gr key val"
definition Builder_FromKV :: "growth \<Rightarrow> (byte list, byte list) KV \<Rightarrow> Builder \<Rightarrow> Builder" where
  "Builder_FromKV gr kv = Builder_KV gr (Key kv) (Value kv)"
definition Builder_PushFromKV :: "growth \<Rightarrow> (byte list, byte list) KV \<Rightarrow> Builder \<Rightarrow> Builder" where "Builder_PushFromKV gr kv = Builder_FromKV gr kv"

text \<open>\<open>Mprintf\<close> writes the formatted text at once; \<open>fmt_v\<close> is the format \<open>%v\<close> of the value.\<close>

definition Builder_KVany :: "('v \<Rightarrow> byte list) \<Rightarrow> growth \<Rightarrow> byte list \<Rightarrow> 'v \<Rightarrow> Builder \<Rightarrow> Builder" where
  "Builder_KVany fmt_v gr k v m = Mut_Line gr (snd (Mut_Write gr (str ''**'' @ k @ str ''**: '' @ fmt_v v) m))"
definition Builder_FromKVany :: "('v \<Rightarrow> byte list) \<Rightarrow> growth \<Rightarrow> (byte list, 'v) KV \<Rightarrow> Builder \<Rightarrow> Builder" where
  "Builder_FromKVany fmt_v gr kv m = Mut_Line gr (snd (Mut_Write gr (str ''**'' @ Key kv @ str ''**: '' @ fmt_v (Value kv)) m))"
definition Builder_PushKVany :: "('v \<Rightarrow> byte list) \<Rightarrow> growth \<Rightarrow> byte list \<Rightarrow> 'v \<Rightarrow> Builder \<Rightarrow> Builder" where
  "Builder_PushKVany fmt_v gr key val = Builder_KVany fmt_v gr key val"
definition Builder_PushFromKVany :: "('v \<Rightarrow> byte list) \<Rightarrow> growth \<Rightarrow> (byte list, 'v) KV \<Rightarrow> Builder \<Rightarrow> Builder" where
  "Builder_PushFromKVany fmt_v gr kv = Builder_FromKVany fmt_v gr kv"

definition Builder_KVs :: "growth \<Rightarrow> (byte list, byte list) KV list \<Rightarrow> Builder \<Rightarrow> Builder" where
  "Builder_KVs gr kvs = fold (Builder_FromKV gr) kvs"
definition Builder_KVanys :: "('v \<Rightarrow> byte list) \<Rightarrow> growth \<Rightarrow> (byte list, 'v) KV list \<Rightarrow> Builder \<Rightarrow> Builder" where
  "Builder_KVanys fmt_v gr kvs = fold (Builder_FromKVany fmt_v gr) kvs"

definition Builder_ExtendKV :: "growth \<Rightarrow> (byte list \<times> byte list, Builder \<times> 's) seq \<Rightarrow> Builder \<Rightarrow> 's \<Rightarrow> (Builder \<times> 's) option" where
  "Builder_ExtendKV gr q = flush_seq q (\<lambda>(k, v). Builder_KV gr k v)"
definition Builder_ExtendKVany :: "('v \<Rightarrow> byte list) \<Rightarrow> growth \<Rightarrow> (byte list \<times> 'v, Builder \<times> 's) seq \<Rightarrow> Builder \<Rightarrow> 's \<Rightarrow> (Builder \<times> 's) option" where
  "Builder_ExtendKVany fmt_v gr q = flush_seq q (\<lambda>(k, v). Builder_KVany fmt_v gr k v)"
definition Builder_ExtendKVSeq :: "growth \<Rightarrow> ((byte list, byte list) KV, Builder \<times> 's) seq \<Rightarrow> Builder \<Rightarrow> 's \<Rightarrow> (Builder \<times> 's) option" where
  "Builder_ExtendKVSeq gr q = flush_seq q (Builder_FromKV gr)"
definition Builder_ExtendKVanySeq :: "('v \<Rightarrow> byte list) \<Rightarrow> growth \<Rightarrow> ((byte list, 'v) KV, Builder \<times> 's) seq \<Rightarrow> Builder \<Rightarrow> 's \<Rightarrow> (Builder \<times> 's) option" where
  "Builder_ExtendKVanySeq fmt_v gr q = flush_seq q (Builder_FromKVany fmt_v gr)"

subsection \<open>Lists\<close>

definition Builder_BulletListItem :: "growth \<Rightarrow> byte list list \<Rightarrow> Builder \<Rightarrow> Builder" where
  "Builder_BulletListItem gr item m = Mut_Line gr (Mut_Concat gr item (Builder_PushString gr (str ''- '') m))"
definition Builder_BulletListItemWords :: "growth \<Rightarrow> byte list list \<Rightarrow> Builder \<Rightarrow> Builder" where
  "Builder_BulletListItemWords gr words = Builder_BulletListItem gr [joinSpace words]"
definition Builder_OrderedListItem :: "growth \<Rightarrow> byte list list \<Rightarrow> Builder \<Rightarrow> Builder" where
  "Builder_OrderedListItem gr item m = Mut_Line gr (Mut_Concat gr item (Mut_Concat gr [str ''1. ''] m))"
definition Builder_OrderedListItemWords :: "growth \<Rightarrow> byte list list \<Rightarrow> Builder \<Rightarrow> Builder" where
  "Builder_OrderedListItemWords gr words = Builder_OrderedListItem gr [joinSpace words]"

definition Builder_ExtendBulletList :: "growth \<Rightarrow> (byte list, (Builder \<times> bool) \<times> 's) seq \<Rightarrow> Builder \<Rightarrow> 's \<Rightarrow> (Builder \<times> 's) option" where
  "Builder_ExtendBulletList gr q m s =
     do { ((m1, wrote), s1) \<leftarrow> flush_seq (RemoveZeros [] q) (\<lambda>item (m, _). (Builder_BulletListItem gr [item] m, True)) (m, False) s;
          Some (Mut_WhenLine gr wrote m1, s1) }"
definition Builder_BulletList :: "growth \<Rightarrow> byte list list \<Rightarrow> Builder \<Rightarrow> (Builder \<times> unit) option" where
  "Builder_BulletList gr items m = Builder_ExtendBulletList gr (Slice items) m ()"
definition Builder_ExtendOrderedList :: "growth \<Rightarrow> (byte list, (Builder \<times> bool) \<times> 's) seq \<Rightarrow> Builder \<Rightarrow> 's \<Rightarrow> (Builder \<times> 's) option" where
  "Builder_ExtendOrderedList gr q m s =
     do { ((m1, wrote), s1) \<leftarrow> flush_seq (RemoveZeros [] q) (\<lambda>item (m, _). (Builder_OrderedListItem gr [item] m, True)) (m, False) s;
          Some (Mut_WhenLine gr wrote m1, s1) }"
definition Builder_OrderedList :: "growth \<Rightarrow> byte list list \<Rightarrow> Builder \<Rightarrow> Builder outcome" where
  "Builder_OrderedList gr items m =
     on_done (growToAccomidate (sumLengthOfStrings items) m) (\<lambda>m1.
       Done (Mut_WhenLine gr (items \<noteq> []) (fold (\<lambda>item. Builder_OrderedListItem gr [item]) items m1)))"

definition Builder_TaskListItem :: "growth \<Rightarrow> bool \<Rightarrow> byte list list \<Rightarrow> Builder \<Rightarrow> Builder" where
  "Builder_TaskListItem gr isdone item m =
     Mut_Line gr (Mut_Concat gr item (Builder_PushString gr (if isdone then str ''- [x] '' else str ''- [ ] '') m))"
definition Builder_TaskListItemWords :: "growth \<Rightarrow> bool \<Rightarrow> byte list list \<Rightarrow> Builder \<Rightarrow> Builder" where
  "Builder_TaskListItemWords gr isdone words = Builder_TaskListItem gr isdone [strings_Join words [32]]"

subsection \<open>Quotes, code and indentation\<close>

definition bytes_SplitSeq :: "byte list \<Rightarrow> byte list \<Rightarrow> byte list list" where
  "bytes_SplitSeq b sep = genSplit sep 0 (-1) b"

definition writePrefixedLines :: "growth \<Rightarrow> byte list \<Rightarrow> byte list \<Rightarrow> Builder \<Rightarrow> Builder" where
  "writePrefixedLines gr b pre m =
     Mut_Line gr (fold (\<lambda>line m. Mut_Line gr (Builder_PushBytes gr line (Builder_PushString gr pre m)))
       (bytes_SplitSeq b [newLineByte]) m)"

definition prefixed :: "growth \<Rightarrow> byte list \<Rightarrow> byte list \<Rightarrow> Builder \<Rightarrow> Builder outcome" where
  "prefixed gr b pre m =
     (if b = [] then Done m
      else on_done (growToAccomidate (int (length b)) m) (\<lambda>m1. Done (writePrefixedLines gr b pre m1)))"

definition Builder_BlockQuote :: "growth \<Rightarrow> byte list list \<Rightarrow> Builder \<Rightarrow> Builder outcome" where
  "Builder_BlockQuote gr parts m = prefixed gr (trim_newlines (concat parts)) (str ''> '') m"
definition Builder_IndentedCode :: "growth \<Rightarrow> byte list \<Rightarrow> Builder \<Rightarrow> Builder outcome" where
  "Builder_IndentedCode gr code m = prefixed gr (trim_newlines code) (str ''    '') m"

text \<open>The functions with a callback give it a builder of their own; it may panic.\<close>

definition built :: "Mutable \<Rightarrow> int \<Rightarrow> (Builder \<Rightarrow> Builder outcome) \<Rightarrow> byte list outcome" where
  "built pooled capacity fn =
     on_done (MakeBuilder pooled capacity) (\<lambda>b. on_done (fn b) (\<lambda>inner. Done (trim_newlines (Mut_Bytes inner))))"

definition Builder_BlockQuoteWith :: "growth \<Rightarrow> Mutable \<Rightarrow> (Builder \<Rightarrow> Builder outcome) \<Rightarrow> Builder \<Rightarrow> Builder outcome" where
  "Builder_BlockQuoteWith gr pooled fn m = on_done (built pooled 1024 fn) (\<lambda>b. prefixed gr b (str ''> '') m)"
definition Builder_IndentWith :: "growth \<Rightarrow> Mutable \<Rightarrow> byte list \<Rightarrow> (Builder \<Rightarrow> Builder outcome) \<Rightarrow> Builder \<Rightarrow> Builder outcome" where
  "Builder_IndentWith gr pooled indent fn m = on_done (built pooled 0 fn) (\<lambda>b. prefixed gr b indent m)"
definition Builder_IndentedCodeWith :: "growth \<Rightarrow> Mutable \<Rightarrow> (Builder \<Rightarrow> Builder outcome) \<Rightarrow> Builder \<Rightarrow> Builder outcome" where
  "Builder_IndentedCodeWith gr pooled fn = Builder_IndentWith gr pooled (str ''    '') fn"

definition Builder_FencedCodeWith :: "growth \<Rightarrow> Mutable \<Rightarrow> byte list \<Rightarrow> (Builder \<Rightarrow> Builder outcome) \<Rightarrow> Builder \<Rightarrow> Builder outcome" where
  "Builder_FencedCodeWith gr pooled lang fn m =
     on_done (built pooled 1024 fn) (\<lambda>b.
       Done (if b = [] then m
         else Mut_NLines gr 2 (Builder_PushString gr (str ''```'') (Mut_Line gr (Builder_PushBytes gr b
                (Mut_Line gr (Mut_Concat gr [str ''```'', lang] m)))))))"

definition Builder_FencedCode :: "growth \<Rightarrow> byte list \<Rightarrow> byte list \<Rightarrow> Builder \<Rightarrow> Builder" where
  "Builder_FencedCode gr lang code m =
     Mut_NLines gr 2 (Builder_PushString gr (str ''```'')
       (Mut_WhenLine gr (code = [] \<or> last code \<noteq> newLineByte)
         (Builder_PushString gr code (Mut_Line gr (Mut_Concat gr [str ''```'', lang] m)))))"

end
