(* ===== verification/MdTable.thy ===== *)
theory MdTable
  imports MdBuilder IrtConsume
begin

text \<open>
  The tables of \<open>src/mdwn/table.go\<close>.  A table holds the builder it writes to, its columns and its rows; cells are
  mutable strings from the pool and never nil, since only \<open>Row\<close> and \<open>ExtendRow\<close> add them and \<open>releaseRows\<close>
  drops whole rows.  What the pool hands out for a cell is a parameter, by row and column.
\<close>

subsection \<open>Columns\<close>

record Column =
  co_Name :: "byte list"
  co_RightAlign :: bool
  co_MinWidth :: int
  co_MaxWidth :: int
  co_TruncMarker :: "byte list"
  co_Elastic :: bool

definition truncMarker :: "Column \<Rightarrow> byte list" where
  "truncMarker c = (if co_TruncMarker c \<noteq> [] then co_TruncMarker c else str ''...'')"

fun runeByteOffset_loop :: "byte list \<Rightarrow> nat \<Rightarrow> nat \<Rightarrow> nat" where
  "runeByteOffset_loop b 0 pos = pos"
| "runeByteOffset_loop b (Suc n) pos =
     (if pos \<ge> length b then length b else runeByteOffset_loop b n (pos + rune_size (drop pos b)))"

definition runeByteOffset :: "byte list \<Rightarrow> int \<Rightarrow> nat" where
  "runeByteOffset b n = runeByteOffset_loop b (nat n) 0"

subsection \<open>Rows\<close>

record Table =
  tb_mb :: Builder
  tb_cols :: "Column list"
  tb_rows :: "Mutable list list"

definition NewTableWithColumns :: "Column list \<Rightarrow> Builder \<Rightarrow> Table" where
  "NewTableWithColumns cols m = \<lparr>tb_mb = m, tb_cols = cols, tb_rows = []\<rparr>"

definition NewTable :: "Column list \<Rightarrow> Builder \<Rightarrow> Table" where "NewTable cols = NewTableWithColumns cols"

definition escape_cell :: "byte list \<Rightarrow> byte list" where
  "escape_cell cell = bytes_Replace cell (str ''|'') [92, 124] (-1)"

fun row_cells :: "growth \<Rightarrow> (nat \<Rightarrow> Mutable) \<Rightarrow> nat \<Rightarrow> byte list list \<Rightarrow> Mutable list outcome" where
  "row_cells gr pool i [] = Done []"
| "row_cells gr pool i (cell # cells) =
     on_done (MutableFrom gr (pool i) (escape_cell cell)) (\<lambda>m.
     on_done (row_cells gr pool (i + 1) cells) (\<lambda>row. Done (m # row)))"

definition Table_Row :: "growth \<Rightarrow> (nat \<Rightarrow> nat \<Rightarrow> Mutable) \<Rightarrow> byte list list \<Rightarrow> Table \<Rightarrow> Table outcome" where
  "Table_Row gr pool cells t =
     (if cells = [] then Done t
      else on_done (row_cells gr (pool (length (tb_rows t))) 0 cells) (\<lambda>row. Done (t\<lparr>tb_rows := tb_rows t @ [row]\<rparr>)))"

definition Table_ExtendRow :: "growth \<Rightarrow> (nat \<Rightarrow> nat \<Rightarrow> Mutable) \<Rightarrow> (byte list, Mutable list outcome \<times> 's) seq \<Rightarrow> Table \<Rightarrow> 's
    \<Rightarrow> (Table outcome \<times> 's) option" where
  "Table_ExtendRow gr pool q t s =
     do { (r, s1) \<leftarrow> extend_with (\<lambda>cell row.
            on_done (MutableFrom gr (pool (length (tb_rows t)) (length row)) (escape_cell cell)) (\<lambda>m. Done (row @ [m]))) q [] s;
          Some (on_done r (\<lambda>row. Done (if row \<noteq> [] then t\<lparr>tb_rows := tb_rows t @ [row]\<rparr> else t)), s1) }"

definition Table_Extend :: "growth \<Rightarrow> (nat \<Rightarrow> nat \<Rightarrow> Mutable) \<Rightarrow> (byte list list, Table outcome \<times> 's) seq \<Rightarrow> Table \<Rightarrow> 's
    \<Rightarrow> (Table outcome \<times> 's) option" where
  "Table_Extend gr pool q t = extend_with (Table_Row gr pool) q t"

definition Table_Rows :: "growth \<Rightarrow> (nat \<Rightarrow> nat \<Rightarrow> Mutable) \<Rightarrow> byte list list list \<Rightarrow> Table \<Rightarrow> (Table outcome \<times> unit) option" where
  "Table_Rows gr pool rows t = Table_Extend gr pool (Slice rows) t ()"

text \<open>What goes back to the pool, and the table without rows.\<close>

definition releaseRows :: "Table \<Rightarrow> Mutable list \<times> Table" where
  "releaseRows t = (List.map_filter (\<lambda>m. snd (Mut_Release m)) (concat (tb_rows t)), t\<lparr>tb_rows := []\<rparr>)"

subsection \<open>Widths\<close>

fun widen :: "Mutable list \<Rightarrow> int list \<Rightarrow> int list" where
  "widen [] ws = ws"
| "widen row [] = []"
| "widen (cell # row) (w # ws) = (if utf8_RuneCount (mu_bytes cell) > w then utf8_RuneCount (mu_bytes cell) else w) # widen row ws"

definition cap_width :: "Column \<Rightarrow> int \<Rightarrow> int" where
  "cap_width col w = (if co_MaxWidth col > 0 \<and> w > co_MaxWidth col then max (max (co_MaxWidth col) (co_MinWidth col)) 3 else w)"

definition naturalWidths :: "nat set \<Rightarrow> Table \<Rightarrow> int list" where
  "naturalWidths skipMaxCap t =
     (let base = map (\<lambda>col. max (max (utf8_RuneCount (co_Name col)) (co_MinWidth col)) 3) (tb_cols t);
          grown = fold widen (tb_rows t) base
      in map (\<lambda>(i, col, w). if i \<in> skipMaxCap then w else cap_width col w) (enumerate 0 (zip (tb_cols t) grown)))"

subsection \<open>Rendering\<close>

fun header_cells :: "growth \<Rightarrow> (Column \<times> int) list \<Rightarrow> Builder \<Rightarrow> Builder outcome" where
  "header_cells gr [] mb = Done mb"
| "header_cells gr ((col, w) # cols) mb =
     on_done (strings_Repeat (str '' '') (w - utf8_RuneCount (co_Name col))) (\<lambda>pad.
       header_cells gr cols (Builder_PushString gr (str '' |'') (Mut_Concat gr [str '' '', co_Name col, pad] mb)))"

fun separator_cells :: "growth \<Rightarrow> (Column \<times> int) list \<Rightarrow> Builder \<Rightarrow> Builder outcome" where
  "separator_cells gr [] mb = Done mb"
| "separator_cells gr ((col, w) # cols) mb =
     (let mb1 = Builder_PushString gr (str '' '') mb in
      on_done (if co_RightAlign col
               then on_done (strings_Repeat (str ''-'') (w - 1)) (\<lambda>d. Done (Mut_Concat gr [d, str '':''] mb1))
               else on_done (strings_Repeat (str ''-'') w) (\<lambda>d. Done (Builder_PushString gr d mb1)))
        (\<lambda>mb2. separator_cells gr cols (Builder_PushString gr (str '' |'') mb2)))"

text \<open>The bytes of a cell and their width, cut to the width of the column where it has a limit.\<close>

definition cell_text :: "Column \<Rightarrow> int \<Rightarrow> byte list \<Rightarrow> byte list \<times> int" where
  "cell_text col w cellBytes =
     (let cellLen = utf8_RuneCount cellBytes; markerLen = utf8_RuneCount (truncMarker col) in
      if (co_MaxWidth col > 0 \<or> co_Elastic col) \<and> cellLen > w
      then (if w > markerLen
            then (take (runeByteOffset cellBytes (w - markerLen)) cellBytes @ truncMarker col, w)
            else (take (runeByteOffset cellBytes w) cellBytes, w))
      else (cellBytes, cellLen))"

definition data_cell :: "growth \<Rightarrow> Column \<Rightarrow> int \<Rightarrow> byte list \<Rightarrow> Builder \<Rightarrow> Builder outcome" where
  "data_cell gr col w cell mb =
     (case cell_text col w cell of (cellBytes, cellLen) \<Rightarrow>
      let pad = w - cellLen; mb1 = Builder_PushString gr (str '' '') mb in
      on_done (if co_RightAlign col \<and> pad > 0
               then on_done (strings_Repeat (str '' '') pad) (\<lambda>p. Done (Builder_PushString gr p mb1)) else Done mb1) (\<lambda>mb2.
      let mb3 = Builder_PushBytes gr cellBytes mb2 in
      on_done (if \<not> co_RightAlign col \<and> pad > 0
               then on_done (strings_Repeat (str '' '') pad) (\<lambda>p. Done (Builder_PushString gr p mb3)) else Done mb3) (\<lambda>mb4.
      Done (Builder_PushString gr (str '' |'') mb4))))"

text \<open>A row with fewer cells than columns has empty ones at its end.\<close>

fun data_cells :: "growth \<Rightarrow> Mutable list \<Rightarrow> (Column \<times> int) list \<Rightarrow> Builder \<Rightarrow> Builder outcome" where
  "data_cells gr row [] mb = Done mb"
| "data_cells gr row ((col, w) # cols) mb =
     on_done (data_cell gr col w (case row of [] \<Rightarrow> [] | m # _ \<Rightarrow> mu_bytes m) mb) (data_cells gr (tl row) cols)"

definition table_line :: "growth \<Rightarrow> (Builder \<Rightarrow> Builder outcome) \<Rightarrow> Builder \<Rightarrow> Builder outcome" where
  "table_line gr cells mb = on_done (cells (Builder_PushString gr (str ''|'') mb)) (\<lambda>mb1. Done (Mut_Line gr mb1))"

fun data_rows :: "growth \<Rightarrow> (Column \<times> int) list \<Rightarrow> Mutable list list \<Rightarrow> Builder \<Rightarrow> Builder outcome" where
  "data_rows gr cols [] mb = Done mb"
| "data_rows gr cols (row # rows) mb = on_done (table_line gr (data_cells gr row cols) mb) (data_rows gr cols rows)"

definition rowWidth :: "int list \<Rightarrow> int" where
  "rowWidth widths = fold (\<lambda>w r. r + (w + 3)) widths 1"

definition buildWithWidths :: "growth \<Rightarrow> int list \<Rightarrow> Table \<Rightarrow> Builder outcome" where
  "buildWithWidths gr widths t =
     (let cols = zip (tb_cols t) widths in
      on_done (Mut_Grow (wrap64 (rowWidth widths * (int (length (tb_rows t)) + 2))) (tb_mb t)) (\<lambda>mb.
      on_done (table_line gr (header_cells gr cols) mb) (\<lambda>mb1.
      on_done (table_line gr (separator_cells gr cols) mb1) (\<lambda>mb2.
      data_rows gr cols (tb_rows t) mb2))))"

subsection \<open>Building\<close>

definition Table_Build :: "growth \<Rightarrow> Table \<Rightarrow> Table outcome" where
  "Table_Build gr t =
     (if tb_rows t = [] then Done t
      else on_done (buildWithWidths gr (naturalWidths {} t) t) (\<lambda>mb. Done (snd (releaseRows (t\<lparr>tb_mb := mb\<rparr>)))))"

fun elastic_loop :: "int \<Rightarrow> int \<Rightarrow> Column list \<Rightarrow> string + int" where
  "elastic_loop i elasticIdx [] = Inr elasticIdx"
| "elastic_loop i elasticIdx (col # cols) =
     (if co_Elastic col
      then if elasticIdx \<ge> 0 then Inl ''BuildMaxWidth: at most one column may have Elastic set''
           else elastic_loop (i + 1) i cols
      else elastic_loop (i + 1) elasticIdx cols)"

definition elastic_width :: "int \<Rightarrow> Column \<Rightarrow> int" where
  "elastic_width budget col =
     (let w = max (max (max budget 3) (co_MinWidth col)) (int (length (co_Name col))) in
      if co_MaxWidth col > 0 \<and> w > co_MaxWidth col then co_MaxWidth col else w)"

definition max_widths :: "int \<Rightarrow> nat \<Rightarrow> Table \<Rightarrow> int list" where
  "max_widths maxWidth e t =
     (let widths = naturalWidths {e} t;
          separatorOverhead = 1 + int (length (tb_cols t)) * 3;
          nonElasticSum = sum_list (map snd (filter (\<lambda>(i, w). i \<noteq> e) (enumerate 0 widths)));
          budget = wrap64 (maxWidth - separatorOverhead - nonElasticSum)
      in widths[e := elastic_width budget (tb_cols t ! e)])"

definition Table_BuildMaxWidth :: "growth \<Rightarrow> int \<Rightarrow> Table \<Rightarrow> ((string + Builder) \<times> Table) outcome" where
  "Table_BuildMaxWidth gr maxWidth t =
     (if maxWidth \<le> 0 then Done (Inl ''BuildMaxWidth: maxWidth must be greater than zero'', snd (releaseRows t))
      else case elastic_loop 0 (-1) (tb_cols t) of
             Inl e \<Rightarrow> Done (Inl e, snd (releaseRows t))
           | Inr elasticIdx \<Rightarrow>
               if elasticIdx < 0 then Done (Inl ''BuildMaxWidth: at least one column must have Elastic set'', snd (releaseRows t))
               else if tb_rows t = [] then Done (Inr (tb_mb t), snd (releaseRows t))
               else on_done (buildWithWidths gr (max_widths maxWidth (nat elasticIdx) t) t)
                      (\<lambda>mb. Done (Inr mb, snd (releaseRows (t\<lparr>tb_mb := mb\<rparr>)))))"

definition plain_column :: "byte list \<Rightarrow> bool \<Rightarrow> Column" where
  "plain_column name right = \<lparr>co_Name = name, co_RightAlign = right, co_MinWidth = 0, co_MaxWidth = 0, co_TruncMarker = [], co_Elastic = False\<rparr>"

definition Table_kvRow :: "growth \<Rightarrow> (nat \<Rightarrow> nat \<Rightarrow> Mutable) \<Rightarrow> byte list \<Rightarrow> byte list \<Rightarrow> Table \<Rightarrow> Table outcome" where
  "Table_kvRow gr pool k v tb = Table_Row gr pool [k, v] tb"

definition KVTable :: "growth \<Rightarrow> (nat \<Rightarrow> nat \<Rightarrow> Mutable) \<Rightarrow> (byte list, byte list) KV \<Rightarrow> (byte list \<times> byte list, (Table outcome \<times> 's) \<times> int) seq
    \<Rightarrow> Builder \<Rightarrow> 's \<Rightarrow> (Table outcome \<times> 's) option" where
  "KVTable gr pool hdr q mb s =
     do { (_, (r, s1)) \<leftarrow> Apply2 q (\<lambda>(k, v) (r, s). Some ((), (on_done r (Table_kvRow gr pool k v), s)))
            (Done (NewTable [plain_column (Key hdr) False, plain_column (Value hdr) True] mb), s);
          Some (on_done r (Table_Build gr), s1) }"

end
