(* ===== verification/MdLaws.thy ===== *)
theory MdLaws
  imports MdTable StrutJson
begin

text \<open>
  What the builder writes, element by element, and the columns of a table: runes that are counted apart, cells that
  fill their width.
\<close>

subsection \<open>Writers\<close>

lemma writer_simps [simp]:
  "mu_ok m \<Longrightarrow> mu_ok (Mut_Line gr m)" "mu_ok m \<Longrightarrow> mu_bytes (Mut_Line gr m) = mu_bytes m @ [10]"
  "mu_ok m \<Longrightarrow> mu_ok (Builder_PushString gr s m)" "mu_ok m \<Longrightarrow> mu_bytes (Builder_PushString gr s m) = mu_bytes m @ s"
  "mu_ok m \<Longrightarrow> mu_ok (Builder_PushBytes gr s m)" "mu_ok m \<Longrightarrow> mu_bytes (Builder_PushBytes gr s m) = mu_bytes m @ s"
  "mu_ok m \<Longrightarrow> mu_ok (Mut_WhenLine gr c m)" "mu_ok m \<Longrightarrow> mu_bytes (Mut_WhenLine gr c m) = mu_bytes m @ (if c then [10] else [])"
  by (simp_all add: Mut_Line_def Builder_PushString_def Builder_PushBytes_def Mut_PushString_def Mut_PushBytes_def Mut_WhenLine_def ifop_def)

lemma fold_writes:
  assumes "\<And>x m. mu_ok m \<Longrightarrow> mu_ok (f x m) \<and> mu_bytes (f x m) = mu_bytes m @ g x"
  shows "mu_ok m \<Longrightarrow> mu_ok (fold f xs m) \<and> mu_bytes (fold f xs m) = mu_bytes m @ concat (map g xs)"
  using assms by (induction xs arbitrary: m) auto

lemma Concat_simps [simp]:
  assumes "mu_ok m"
  shows "mu_ok (Mut_Concat gr parts m)" "mu_bytes (Mut_Concat gr parts m) = mu_bytes m @ concat parts"
  using fold_writes[of "Mut_PushString gr" "\<lambda>x. x", OF _ assms, of parts]
  by (simp_all add: Mut_Concat_def Mut_cat_def apply_each_def Mut_PushString_def)

lemma NLines_simps [simp]:
  assumes "mu_ok m"
  shows "mu_ok (Mut_NLines gr n m)" "mu_bytes (Mut_NLines gr n m) = mu_bytes m @ replicate (nat n) 10"
proof -
  have "mu_ok ((Mut_Line gr ^^ k) m) \<and> mu_bytes ((Mut_Line gr ^^ k) m) = mu_bytes m @ replicate k 10" for k
    using assms by (induction k) (simp_all add: replicate_append_same)
  then show "mu_ok (Mut_NLines gr n m)" "mu_bytes (Mut_NLines gr n m) = mu_bytes m @ replicate (nat n) 10"
    by (simp_all add: Mut_NLines_def ntimes_def)
qed

text \<open>A writer that can panic writes a text when it is done and adds it to what was there, whatever that is.\<close>

definition writes :: "(Builder \<Rightarrow> Builder outcome) \<Rightarrow> byte list \<Rightarrow> bool" where
  "writes f p \<longleftrightarrow> (\<forall>m. mu_ok m \<longrightarrow> (\<exists>m'. f m = Done m' \<and> mu_ok m' \<and> mu_bytes m' = mu_bytes m @ p))"

named_theorems writing

lemma writes_pure [writing]:
  "(\<And>m. mu_ok m \<Longrightarrow> mu_ok (f m)) \<Longrightarrow> (\<And>m. mu_ok m \<Longrightarrow> mu_bytes (f m) = mu_bytes m @ p) \<Longrightarrow> writes (\<lambda>m. Done (f m)) p"
  by (simp add: writes_def)

lemma writes_Done: "writes Done []"
  by (simp add: writes_def)

lemma writes_seq: "writes f p \<Longrightarrow> writes g q \<Longrightarrow> writes (\<lambda>m. on_done (f m) g) (p @ q)"
  by (fastforce simp: writes_def)

lemma writes_repeat:
  assumes "strings_Repeat s n = Done r" "writes (f r) p"
  shows "writes (\<lambda>m. on_done (strings_Repeat s n) (\<lambda>x. f x m)) p"
  using assms by (simp add: writes_def)

lemma Repeat_byte: "0 \<le> n \<Longrightarrow> n \<le> maxInt \<Longrightarrow> strings_Repeat [b] n = Done (replicate (nat n) b)"
  by (simp add: strings_Repeat_def)

lemma Grow_writes: "0 \<le> n \<Longrightarrow> writes (Mut_Grow n) []"
  using Grow_Done by (auto simp: writes_def)

lemma lits [simp]: "str '' '' = [32]" "str ''|'' = [124]" "str '' |'' = [32, 124]" "str ''-'' = [45]" "str '':'' = [58]"
  "str ''#'' = [35]" "str ''- '' = [45, 32]" "str ''1. '' = [49, 46, 32]" "str ''> '' = [62, 32]" "str ''    '' = [32, 32, 32, 32]"
  by (simp_all add: str_def of_char_def)

text \<open>Loops over a sequence.\<close>

lemma flush_seq_yields: "yields q xs \<Longrightarrow> flush_seq q f m s = Some (fold f xs m, s)"
proof -
  have "emit xs (\<lambda>e (m, s). Some (True, (f e m, s))) (m, s) = Some (True, (fold f xs m, s))" for m
    by (induction xs arbitrary: m) auto
  then show "yields q xs \<Longrightarrow> flush_seq q f m s = Some (fold f xs m, s)" by (simp add: flush_seq_def yields_def)
qed

subsection \<open>Lines\<close>

lemma find_byte:
  fixes s :: "byte list"
  shows "find_at [c] s = None \<longleftrightarrow> c \<notin> set s" "find_at [c] s = Some i \<Longrightarrow> c \<notin> set (take i s)"
  by (induction s arbitrary: i) (auto split: if_splits)

lemma split_newlines: "n < 0 \<Longrightarrow> l \<in> set (split_bytes [10] 0 n b) \<Longrightarrow> 10 \<notin> set l"
proof (induction "[10 :: byte]" "0 :: nat" n b rule: split_bytes.induct)
  case (1 n s)
  show ?case
  proof (cases "find_at [10] s")
    case None
    then have "l = s" using 1(3) by (subst (asm) split_bytes.simps) (simp split: if_splits)
    then show ?thesis using None find_byte(1) by auto
  next
    case (Some i)
    then have "l = take i s \<or> l \<in> set (split_bytes [10] 0 (n - 1) (drop (i + length [10 :: byte]) s))"
      using 1(2,3) by (subst (asm) split_bytes.simps) simp
    then show ?thesis using 1(1)[OF _ Some] 1(2) find_byte(2)[OF Some] by auto
  qed
qed

lemma prefixed_lines:
  assumes "mu_ok m" "b \<noteq> []"
  shows "\<exists>m' ls. prefixed gr b pre m = Done m' \<and> mu_ok m' \<and> strings_Join ls [10] = b \<and> (\<forall>l\<in>set ls. 10 \<notin> set l)
     \<and> mu_bytes m' = mu_bytes m @ concat (map (\<lambda>l. pre @ l @ [10]) ls) @ [10]"
proof -
  let ?ls = "split_bytes [10] 0 (-1) b"
  let ?f = "\<lambda>line m. Mut_Line gr (Builder_PushBytes gr line (Builder_PushString gr pre m))"
  obtain m1 where m1: "growToAccomidate (int (length b)) m = Done m1" "mu_ok m1" "mu_bytes m1 = mu_bytes m"
    using Grow_Done[of "int (length b)" m] assms(1) by (auto simp: growToAccomidate_def)
  have f: "mu_ok x \<Longrightarrow> mu_ok (?f l x) \<and> mu_bytes (?f l x) = mu_bytes x @ (pre @ l @ [10])" for l x by simp
  have w: "mu_ok (fold ?f ?ls m1) \<and> mu_bytes (fold ?f ?ls m1) = mu_bytes m1 @ concat (map (\<lambda>l. pre @ l @ [10]) ?ls)"
    using fold_writes[of ?f "\<lambda>l. pre @ l @ [10]", OF f m1(2)] by blast
  have "prefixed gr b pre m = Done (Mut_Line gr (fold ?f ?ls m1))"
    using assms(2) m1(1) by (simp add: prefixed_def writePrefixedLines_def bytes_SplitSeq_def genSplit_def newLineByte_def)
  moreover have "\<forall>l\<in>set ?ls. 10 \<notin> set l" using split_newlines[of "-1"] by auto
  ultimately show ?thesis using w m1(3) split_join[of "[10]" "-1" b] by (intro exI[of _ "Mut_Line gr (fold ?f ?ls m1)"] exI[of _ ?ls]) simp
qed

subsection \<open>Counting runes\<close>

text \<open>Text in front of a byte that does not continue a rune is counted apart, and so are the first runes of a text.\<close>

lemma rune_size_take:
  assumes "bs \<noteq> []" "rune_size bs \<le> m"
  shows "rune_size (take m bs) = rune_size bs"
proof -
  have pos: "0 < rune_size bs" using rune_size_bounds[OF assms(1)] by simp
  then have ne: "take m bs \<noteq> []" using assms by auto
  show ?thesis
  proof (cases "1 < rune_size bs")
    case True
    obtain v where d: "utf8_DecodeRune bs = (v, rune_size bs)" by (metis rune_size_def prod.collapse)
    obtain x where "take m bs = take (rune_size bs) bs @ x" using assms(2) by (metis le_Suc_ex take_add)
    then show ?thesis using decode_long[OF d True, of x] by (simp add: rune_size_def)
  next
    case False
    then have one: "rune_size bs = 1" using pos by simp
    show ?thesis
    proof (rule ccontr)
      let ?k = "rune_size (take m bs)"
      assume "?k \<noteq> rune_size bs"
      then have k: "1 < ?k" "?k \<le> m" using one rune_size_bounds[OF ne] by auto
      obtain v where d: "utf8_DecodeRune (take m bs) = (v, ?k)" by (metis rune_size_def prod.collapse)
      have "take ?k (take m bs) @ drop ?k bs = bs" using k(2) by (simp add: min_absorb1)
      then have "utf8_DecodeRune bs = (v, ?k)" using decode_long[OF d k(1), of "drop ?k bs"] by metis
      then show False using one k(1) by (simp add: rune_size_def)
    qed
  qed
qed

lemma rune_conts: "i < rune_size bs \<Longrightarrow> 0 < i \<Longrightarrow> cont (bs ! i)"
proof -
  assume i: "i < rune_size bs" "0 < i"
  obtain v where d: "utf8_DecodeRune bs = (v, rune_size bs)" by (metis rune_size_def prod.collapse)
  have lo: "second_low x \<le> y \<Longrightarrow> y \<le> second_high x \<Longrightarrow> 128 \<le> y \<and> y < 192" for x y
    by (auto simp: second_low_def second_high_def split: if_splits)
  from decode_split[OF d] i obtain b0 b1 rest where
    r: "bs = b0 # b1 # rest" "cont b1" and
    c: "rune_size bs = 2 \<or> (\<exists>b2 r2. rest = b2 # r2 \<and> cont b2 \<and> (rune_size bs = 3 \<or> (\<exists>b3 r3. r2 = b3 # r3 \<and> cont b3 \<and> rune_size bs = 4)))"
    unfolding cont_def using lo by (smt (verit) less_one linorder_not_less not_less_iff_gr_or_eq order_less_le_trans)
  from c consider "rune_size bs = 2" | b2 r2 where "rest = b2 # r2" "cont b2" "rune_size bs = 3"
    | b2 b3 r3 where "rest = b2 # b3 # r3" "cont b2" "cont b3" "rune_size bs = 4" by blast
  then show ?thesis
  proof cases
    case 1
    then have "i = 1" using i by simp
    then show ?thesis using r by simp
  next
    case 2
    then have "i = 1 \<or> i = 2" using i by arith
    then show ?thesis using r 2 by auto
  next
    case 3
    then have "i = 1 \<or> i = 2 \<or> i = 3" using i by arith
    then show ?thesis using r 3 by (auto simp: numeral_2_eq_2 numeral_3_eq_3)
  qed
qed

lemma rune_size_append:
  assumes "a \<noteq> []" "b = [] \<or> \<not> cont (hd b)"
  shows "rune_size (a @ b) = rune_size a"
proof (cases "rune_size (a @ b) \<le> length a")
  case True
  then show ?thesis using rune_size_take[of "a @ b" "length a"] assms(1) by simp
next
  case False
  then have "b \<noteq> []" using rune_size_bounds[of "a @ b"] assms(1) by (cases b) auto
  moreover have "cont ((a @ b) ! length a)" using rune_conts[of "length a" "a @ b"] False assms(1) by simp
  ultimately show ?thesis using assms(2) by (simp add: nth_append hd_conv_nth)
qed

lemma runes_append: "b = [] \<or> \<not> cont (hd b) \<Longrightarrow> runes (a @ b) = runes a @ runes b"
proof (induction a rule: runes.induct)
  case (1 a)
  show ?case
  proof (cases "a = []")
    case False
    have "rune_size (a @ b) = rune_size a" "rune_size a \<le> length a"
      using rune_size_append[OF False 1(2)] rune_size_bounds[OF False] by auto
    then have "runes (a @ b) = take (rune_size a) a # runes (drop (rune_size a) a @ b)"
      using False by (subst runes.simps) simp
    then show ?thesis using 1(1)[OF False 1(2)] False by (simp add: runes.simps[of a])
  qed simp
qed

lemma runes_take: "runes (concat (take n (runes bs))) = take n (runes bs)"
proof (induction bs arbitrary: n rule: runes.induct)
  case (1 bs)
  show ?case
  proof (cases "bs = [] \<or> n = 0")
    case False
    then obtain k where n: "n = Suc k" "bs \<noteq> []" by (cases n) auto
    let ?s = "rune_size bs"
    let ?c = "concat (take k (runes (drop ?s bs)))"
    have s: "0 < ?s" "?s \<le> length bs" using rune_size_bounds[OF n(2)] by auto
    have "?c @ concat (drop k (runes (drop ?s bs))) = drop ?s bs" by (metis append_take_drop_id concat_append concat_runes)
    then have pre: "take ?s bs @ ?c = take (?s + length ?c) bs" by (metis append_eq_conv_conj take_add)
    have "rune_size (take ?s bs @ ?c) = ?s" unfolding pre using rune_size_take[OF n(2), of "?s + length ?c"] by simp
    moreover have "take ?s bs @ ?c \<noteq> []" "length (take ?s bs) = ?s" using s n(2) by auto
    ultimately have "runes (take ?s bs @ ?c) = take ?s bs # runes ?c" by (subst runes.simps) simp
    then show ?thesis using 1[OF n(2), of k] n by (simp add: runes.simps[of bs])
  qed auto
qed

lemma RuneCount_append: "b = [] \<or> \<not> cont (hd b) \<Longrightarrow> utf8_RuneCount (a @ b) = utf8_RuneCount a + utf8_RuneCount b"
  by (simp add: utf8_RuneCount_def runes_append)

lemma RuneCount_ascii: "\<forall>b\<in>set bs. unat b < 128 \<Longrightarrow> utf8_RuneCount bs = int (length bs)"
proof (induction bs)
  case (Cons b bs)
  then show ?case using rune_size_ascii[of b bs] by (simp add: utf8_RuneCount_def runes.simps[of "b # bs"])
qed (simp add: utf8_RuneCount_def)

lemma RuneCount_Cons: "unat b < 128 \<Longrightarrow> utf8_RuneCount (b # bs) = 1 + utf8_RuneCount bs"
  using rune_size_ascii[of b bs] by (simp add: utf8_RuneCount_def runes.simps[of "b # bs"])

lemma RuneCount_Nil [simp]: "utf8_RuneCount [] = 0"
  by (simp add: utf8_RuneCount_def)

lemma RuneCount_nonneg [simp]: "0 \<le> utf8_RuneCount bs"
  by (simp add: utf8_RuneCount_def)

lemma RuneCount_le: "utf8_RuneCount bs \<le> int (length bs)"
proof (induction bs rule: runes.induct)
  case (1 bs)
  show ?case
  proof (cases "bs = []")
    case False
    then show ?thesis using 1[OF False] rune_size_bounds[OF False] by (simp add: utf8_RuneCount_def runes.simps[of bs])
  qed simp
qed

lemma runeByteOffset_loop_runes:
  "pos \<le> length b \<Longrightarrow> runeByteOffset_loop b n pos = pos + length (concat (take n (runes (drop pos b))))"
proof (induction n arbitrary: pos)
  case (Suc n)
  show ?case
  proof (cases "pos = length b")
    case False
    let ?d = "drop pos b"
    have d: "?d \<noteq> []" "pos < length b" using False Suc.prems by auto
    have k: "rune_size ?d \<le> length ?d" using rune_size_bounds[OF d(1)] by simp
    then have "pos + rune_size ?d \<le> length b" using d(2) by simp
    then show ?thesis using Suc.IH[of "pos + rune_size ?d"] d k by (simp add: runes.simps[of ?d] add.commute)
  qed simp
qed simp

lemma cut_runes: "take (runeByteOffset b n) b = concat (take (nat n) (runes b))"
proof -
  have "concat (take (nat n) (runes b)) @ concat (drop (nat n) (runes b)) = b" by (metis append_take_drop_id concat_append concat_runes)
  then show ?thesis using runeByteOffset_loop_runes[of 0 b "nat n"] unfolding runeByteOffset_def
    by (metis append_eq_conv_conj drop0 le0 add_0)
qed

lemma RuneCount_cut: "0 \<le> n \<Longrightarrow> n \<le> utf8_RuneCount b \<Longrightarrow> utf8_RuneCount (take (runeByteOffset b n) b) = n"
  by (simp add: cut_runes utf8_RuneCount_def runes_take)

subsection \<open>Cells\<close>

definition marker_ok :: "Column \<Rightarrow> bool" where
  "marker_ok col \<longleftrightarrow> \<not> cont (hd (truncMarker col))"

definition limited :: "Column \<Rightarrow> bool" where
  "limited col \<longleftrightarrow> co_MaxWidth col > 0 \<or> co_Elastic col"

lemma cell_text_width:
  assumes "marker_ok col" "0 \<le> w" "limited col \<or> utf8_RuneCount cell \<le> w"
  shows "utf8_RuneCount (fst (cell_text col w cell)) = snd (cell_text col w cell) \<and> snd (cell_text col w cell) \<le> w"
proof (cases "limited col \<and> w < utf8_RuneCount cell")
  case True
  let ?m = "utf8_RuneCount (truncMarker col)"
  show ?thesis
  proof (cases "?m < w")
    case m: True
    then have "utf8_RuneCount (take (runeByteOffset cell (w - ?m)) cell) = w - ?m" using RuneCount_cut[of "w - ?m" cell] True
      using RuneCount_nonneg[of "truncMarker col"] by linarith
    then show ?thesis using True m assms(1) RuneCount_append[of "truncMarker col"]
      by (simp add: cell_text_def Let_def limited_def marker_ok_def)
  next
    case False
    then show ?thesis using True RuneCount_cut[of w cell] assms(2) by (simp add: cell_text_def Let_def limited_def)
  qed
next
  case False
  then have "cell_text col w cell = (cell, utf8_RuneCount cell)" by (auto simp: cell_text_def Let_def limited_def)
  then show ?thesis using False assms(3) by auto
qed

text \<open>The text of a cell with its padding.\<close>

definition pad_cell :: "Column \<Rightarrow> int \<Rightarrow> byte list \<Rightarrow> byte list" where
  "pad_cell col w cell =
     (case cell_text col w cell of (c, n) \<Rightarrow>
        [32] @ (if co_RightAlign col then replicate (nat (w - n)) 32 @ c else c @ replicate (nat (w - n)) 32) @ [32, 124])"

lemma data_cell_writes:
  assumes "w \<le> maxInt" "0 \<le> snd (cell_text col w cell)"
  shows "writes (data_cell gr col w cell) (pad_cell col w cell)"
proof -
  obtain c n where c: "cell_text col w cell = (c, n)" by fastforce
  have n: "w - n \<le> maxInt" "0 \<le> n" using assms c by auto
  have rep: "w - n > 0 \<Longrightarrow> strings_Repeat [32] (w - n) = Done (replicate (nat (w - n)) 32)"
    using n by (simp add: Repeat_byte)
  show ?thesis unfolding writes_def
  proof (intro allI impI)
    fix m assume m: "mu_ok m"
    show "\<exists>m'. data_cell gr col w cell m = Done m' \<and> mu_ok m' \<and> mu_bytes m' = mu_bytes m @ pad_cell col w cell"
    proof (cases "w - n > 0")
      case True
      then show ?thesis using m rep[OF True] by (cases "co_RightAlign col") (simp_all add: data_cell_def pad_cell_def c Let_def)
    next
      case False
      then show ?thesis using m by (simp add: data_cell_def pad_cell_def c Let_def)
    qed
  qed
qed

lemma space_bytes: "\<not> cont 32" "\<not> cont 124" "\<not> cont 45" "\<not> cont 58" "unat (32 :: byte) < 128"
  by (simp_all add: cont_def)

lemma RuneCount_spaces: "utf8_RuneCount (replicate k 32) = int k" "utf8_RuneCount (replicate k 45) = int k"
  by (simp_all add: RuneCount_ascii)

lemma RuneCount_spaced:
  "utf8_RuneCount (a @ replicate k 32) = utf8_RuneCount a + int k"
  "utf8_RuneCount (replicate k 32 @ a) = int k + utf8_RuneCount a"
  "utf8_RuneCount (a @ 32 # b) = utf8_RuneCount a + 1 + utf8_RuneCount b"
proof -
  show "utf8_RuneCount (a @ replicate k 32) = utf8_RuneCount a + int k"
    using RuneCount_append[of "replicate k 32" a] by (cases k) (simp_all add: space_bytes RuneCount_spaces[of "Suc _", simplified])
  show "utf8_RuneCount (replicate k 32 @ a) = int k + utf8_RuneCount a"
    by (induction k) (simp_all add: RuneCount_Cons)
  show "utf8_RuneCount (a @ 32 # b) = utf8_RuneCount a + 1 + utf8_RuneCount b"
    using RuneCount_append[of "32 # b" a] by (simp add: space_bytes RuneCount_Cons)
qed

lemma pad_cell_width:
  assumes "marker_ok col" "0 \<le> w" "limited col \<or> utf8_RuneCount cell \<le> w"
  shows "utf8_RuneCount (pad_cell col w cell) = w + 3"
proof -
  obtain c n where c: "cell_text col w cell = (c, n)" by fastforce
  have n: "utf8_RuneCount c = n" "n \<le> w" using cell_text_width[OF assms] c by auto
  have e: "utf8_RuneCount [124] = 1" by (simp add: RuneCount_ascii)
  show ?thesis
  proof (cases "co_RightAlign col")
    case True
    then have "pad_cell col w cell = 32 # replicate (nat (w - n)) 32 @ c @ 32 # [124]" by (simp add: pad_cell_def c)
    then show ?thesis using n e by (simp add: RuneCount_Cons RuneCount_spaced)
  next
    case False
    then have "pad_cell col w cell = 32 # (c @ replicate (nat (w - n)) 32) @ 32 # [124]" by (simp add: pad_cell_def c)
    then show ?thesis using n e by (simp only: RuneCount_Cons space_bytes RuneCount_spaced)
  qed
qed

end
