(* ===== verification/MdProps.thy ===== *)
theory MdProps
  imports MdLaws
begin

text \<open>The properties of the markdown builder and of its tables.\<close>

subsection \<open>Lines of a table\<close>

definition head_cell :: "Column \<Rightarrow> int \<Rightarrow> byte list" where
  "head_cell col w = [32] @ co_Name col @ replicate (nat (w - utf8_RuneCount (co_Name col))) 32 @ [32, 124]"

definition rule_cell :: "Column \<Rightarrow> int \<Rightarrow> byte list" where
  "rule_cell col w = [32] @ (if co_RightAlign col then replicate (nat (w - 1)) 45 @ [58] else replicate (nat w) 45) @ [32, 124]"

lemma header_cells_writes:
  "\<forall>(col, w)\<in>set cols. utf8_RuneCount (co_Name col) \<le> w \<and> w \<le> maxInt
   \<Longrightarrow> writes (header_cells gr cols) (concat (map (\<lambda>(col, w). head_cell col w) cols))"
proof (induction cols)
  case (Cons c cols)
  obtain col w where c: "c = (col, w)" by fastforce
  have w: "utf8_RuneCount (co_Name col) \<le> w" "w \<le> maxInt" and IH: "writes (header_cells gr cols) (concat (map (\<lambda>(col, w). head_cell col w) cols))"
    using Cons c by auto
  have n: "0 \<le> w - utf8_RuneCount (co_Name col)" "w - utf8_RuneCount (co_Name col) \<le> maxInt"
    using w RuneCount_nonneg[of "co_Name col"] by linarith+
  show ?case unfolding writes_def
  proof (intro allI impI)
    fix m assume m: "mu_ok m"
    let ?m = "Builder_PushString gr [32, 124] (Mut_Concat gr [[32], co_Name col, replicate (nat (w - utf8_RuneCount (co_Name col))) 32] m)"
    have "mu_ok ?m" "mu_bytes ?m = mu_bytes m @ head_cell col w" using m by (simp_all add: head_cell_def)
    then show "\<exists>m'. header_cells gr (c # cols) m = Done m' \<and> mu_ok m' \<and> mu_bytes m' = mu_bytes m @ concat (map (\<lambda>(col, w). head_cell col w) (c # cols))"
      using IH unfolding writes_def c by (fastforce simp: Repeat_byte[OF n])
  qed
qed (simp add: writes_def)

lemma header_cells_panic:
  "\<forall>(col, w)\<in>set cols. w \<le> maxInt \<Longrightarrow> \<exists>(col, w)\<in>set cols. w < utf8_RuneCount (co_Name col)
   \<Longrightarrow> header_cells gr cols m = Panic ''strings: negative Repeat count''"
proof (induction cols arbitrary: m)
  case (Cons c cols)
  obtain col w where c: "c = (col, w)" by fastforce
  show ?case
  proof (cases "w < utf8_RuneCount (co_Name col)")
    case True
    then show ?thesis by (simp add: c strings_Repeat_def)
  next
    case False
    have "w \<le> maxInt" using Cons.prems(1) c by simp
    then have n: "0 \<le> w - utf8_RuneCount (co_Name col)" "w - utf8_RuneCount (co_Name col) \<le> maxInt"
      using False RuneCount_nonneg[of "co_Name col"] by linarith+
    show ?thesis using Cons False by (simp add: c Repeat_byte[OF n])
  qed
qed simp

lemma separator_cells_writes:
  "\<forall>(col, w)\<in>set cols. 1 \<le> w \<and> w \<le> maxInt \<Longrightarrow> writes (separator_cells gr cols) (concat (map (\<lambda>(col, w). rule_cell col w) cols))"
proof (induction cols)
  case (Cons c cols)
  obtain col w where c: "c = (col, w)" by fastforce
  have w: "1 \<le> w" "w \<le> maxInt" and IH: "writes (separator_cells gr cols) (concat (map (\<lambda>(col, w). rule_cell col w) cols))"
    using Cons c by auto
  show ?case unfolding writes_def
  proof (intro allI impI)
    fix m assume m: "mu_ok m"
    define m2 where "m2 = (let m1 = Builder_PushString gr [32] m in
      if co_RightAlign col then Mut_Concat gr [replicate (nat (w - 1)) 45, [58]] m1 else Builder_PushString gr (replicate (nat w) 45) m1)"
    let ?m = "Builder_PushString gr [32, 124] m2"
    have m2: "mu_ok m2" "mu_bytes ?m = mu_bytes m @ rule_cell col w" using m by (simp_all add: m2_def rule_cell_def Let_def)
    have "separator_cells gr (c # cols) m = separator_cells gr cols ?m"
      using w by (simp add: c Repeat_byte m2_def Let_def)
    moreover obtain m3 where "separator_cells gr cols ?m = Done m3" "mu_ok m3" "mu_bytes m3 = mu_bytes ?m @ concat (map (\<lambda>(col, w). rule_cell col w) cols)"
      using IH writer_simps(3)[OF m2(1)] unfolding writes_def by blast
    ultimately show "\<exists>m'. separator_cells gr (c # cols) m = Done m' \<and> mu_ok m' \<and> mu_bytes m' = mu_bytes m @ concat (map (\<lambda>(col, w). rule_cell col w) (c # cols))"
      using m2(2) by (simp add: c)
  qed
qed (simp add: writes_def)

text \<open>A row and the columns it has cells for.\<close>

fun row_texts :: "Mutable list \<Rightarrow> (Column \<times> int) list \<Rightarrow> byte list" where
  "row_texts row [] = []"
| "row_texts row ((col, w) # cols) = pad_cell col w (case row of [] \<Rightarrow> [] | m # _ \<Rightarrow> mu_bytes m) @ row_texts (tl row) cols"

fun row_fits :: "Mutable list \<Rightarrow> (Column \<times> int) list \<Rightarrow> bool" where
  "row_fits [] cols = True"
| "row_fits row [] = True"
| "row_fits (m # row) ((col, w) # cols) = ((limited col \<or> utf8_RuneCount (mu_bytes m) \<le> w) \<and> row_fits row cols)"

definition col_ok :: "Column \<times> int \<Rightarrow> bool" where
  "col_ok = (\<lambda>(col, w). marker_ok col \<and> 1 \<le> w \<and> w \<le> maxInt)"

lemma cell_fits:
  assumes "col_ok (col, w)" "row_fits row ((col, w) # cols)"
  shows "limited col \<or> utf8_RuneCount (case row of [] \<Rightarrow> [] | m # _ \<Rightarrow> mu_bytes m) \<le> w" "row_fits (tl row) cols"
  using assms by (cases row; auto simp: col_ok_def)+

lemma data_cells_writes:
  "\<forall>c\<in>set cols. col_ok c \<Longrightarrow> row_fits row cols \<Longrightarrow> writes (data_cells gr row cols) (row_texts row cols)"
proof (induction cols arbitrary: row)
  case (Cons c cols)
  obtain col w where c: "c = (col, w)" by fastforce
  let ?cell = "case row of [] \<Rightarrow> [] | m # _ \<Rightarrow> mu_bytes m"
  have ok: "col_ok (col, w)" "row_fits row ((col, w) # cols)" "\<forall>c\<in>set cols. col_ok c" using Cons.prems c by auto
  have w: "marker_ok col" "0 \<le> w" "w \<le> maxInt" using ok(1) by (auto simp: col_ok_def)
  have "0 \<le> snd (cell_text col w ?cell)" using cell_text_width[OF w(1,2) cell_fits(1)[OF ok(1,2)]] RuneCount_nonneg by metis
  then have "writes (data_cell gr col w ?cell) (pad_cell col w ?cell)" using data_cell_writes w(3) by blast
  from writes_seq[OF this Cons.IH[OF ok(3) cell_fits(2)[OF ok(1,2)]]] show ?case by (simp add: c)
qed (simp add: writes_def)

text \<open>The width of a line is the sum of its cells.\<close>

lemma RuneCount_cells:
  "\<forall>p\<in>set ps. p \<noteq> [] \<and> hd p = 32 \<Longrightarrow> utf8_RuneCount (concat ps) = sum_list (map utf8_RuneCount ps)"
proof (induction ps)
  case (Cons p ps)
  have "concat ps = [] \<or> \<not> cont (hd (concat ps))"
    using Cons.prems by (cases ps) (auto simp: space_bytes hd_append)
  then show ?case using Cons RuneCount_append[of "concat ps" p] by simp
qed simp

lemma sum_widths: "fold (\<lambda>w r. r + (w + 3)) ws r = r + sum_list (map (\<lambda>w. w + 3) ws)" for r :: int
  by (induction ws arbitrary: r) auto

lemma head_rule_width:
  "utf8_RuneCount (co_Name col) \<le> w \<Longrightarrow> utf8_RuneCount (head_cell col w) = w + 3"
  "1 \<le> w \<Longrightarrow> utf8_RuneCount (rule_cell col w) = w + 3"
proof -
  have e: "utf8_RuneCount [124] = 1" by (simp add: RuneCount_ascii)
  have h: "head_cell col w = 32 # (co_Name col @ replicate (nat (w - utf8_RuneCount (co_Name col))) 32) @ 32 # [124]" by (simp add: head_cell_def)
  show "utf8_RuneCount (co_Name col) \<le> w \<Longrightarrow> utf8_RuneCount (head_cell col w) = w + 3"
    unfolding h by (simp only: RuneCount_Cons space_bytes RuneCount_spaced e)
  have "\<forall>b\<in>set (rule_cell col w). unat b < 128" by (auto simp: rule_cell_def)
  then show "1 \<le> w \<Longrightarrow> utf8_RuneCount (rule_cell col w) = w + 3"
    using RuneCount_ascii[of "rule_cell col w"] by (auto simp: rule_cell_def nat_diff_distrib)
qed

lemma row_texts_cells:
  "\<forall>c\<in>set cols. col_ok c \<Longrightarrow> row_fits row cols
   \<Longrightarrow> \<exists>ps. row_texts row cols = concat ps \<and> (\<forall>p\<in>set ps. p \<noteq> [] \<and> hd p = 32) \<and> map utf8_RuneCount ps = map (\<lambda>(col, w). w + 3) cols"
proof (induction cols arbitrary: row)
  case (Cons c cols)
  obtain col w where c: "c = (col, w)" by fastforce
  let ?cell = "case row of [] \<Rightarrow> [] | m # _ \<Rightarrow> mu_bytes m"
  have ok: "col_ok (col, w)" "row_fits row ((col, w) # cols)" "\<forall>c\<in>set cols. col_ok c" using Cons.prems c by auto
  obtain ps where ps: "row_texts (tl row) cols = concat ps" "\<forall>p\<in>set ps. p \<noteq> [] \<and> hd p = 32" "map utf8_RuneCount ps = map (\<lambda>(col, w). w + 3) cols"
    using Cons.IH[OF ok(3) cell_fits(2)[OF ok(1,2)]] by blast
  have "pad_cell col w ?cell \<noteq> [] \<and> hd (pad_cell col w ?cell) = 32" by (simp add: pad_cell_def split: prod.split)
  moreover have "utf8_RuneCount (pad_cell col w ?cell) = w + 3"
    using pad_cell_width[OF _ _ cell_fits(1)[OF ok(1,2)]] ok(1) by (auto simp: col_ok_def)
  ultimately show ?case using ps by (intro exI[of _ "pad_cell col w ?cell # ps"]) (simp add: c)
qed simp

lemma line_width:
  assumes "\<forall>p\<in>set ps. p \<noteq> [] \<and> hd p = 32" "map utf8_RuneCount ps = map (\<lambda>(col, w). w + 3) (zip cols ws)" "length cols = length ws"
  shows "utf8_RuneCount (124 # concat ps) = rowWidth ws"
proof -
  have "map (\<lambda>(col, w). w + 3) (zip cols ws) = map (\<lambda>w. w + 3) ws" using assms(3) by (induction cols ws rule: list_induct2) auto
  then show ?thesis using RuneCount_cells[OF assms(1)] assms(2) by (simp add: RuneCount_Cons rowWidth_def sum_widths)
qed

subsection \<open>The table\<close>

lemma table_line_writes: "writes f p \<Longrightarrow> writes (table_line gr f) (124 # p @ [10])"
proof -
  assume f: "writes f p"
  have "writes (\<lambda>m. Done (Builder_PushString gr [124] m)) [124]" "writes (\<lambda>m. Done (Mut_Line gr m)) [10]" by (simp_all add: writes_pure)
  then have "writes (\<lambda>m. on_done (on_done (Done (Builder_PushString gr [124] m)) f) (\<lambda>m. Done (Mut_Line gr m))) (([124] @ p) @ [10])"
    using writes_seq f by blast
  then show ?thesis by (simp add: table_line_def[abs_def])
qed

lemma data_rows_writes:
  "\<forall>c\<in>set cols. col_ok c \<Longrightarrow> \<forall>row\<in>set rows. row_fits row cols
   \<Longrightarrow> writes (data_rows gr cols rows) (concat (map (\<lambda>row. 124 # row_texts row cols @ [10]) rows))"
proof (induction rows)
  case (Cons row rows)
  have "writes (table_line gr (data_cells gr row cols)) (124 # row_texts row cols @ [10])"
    using table_line_writes data_cells_writes Cons.prems by simp
  from writes_seq[OF this Cons.IH] Cons.prems show ?case by simp
qed (simp add: writes_def)

definition table_lines :: "(Column \<times> int) list \<Rightarrow> Mutable list list \<Rightarrow> byte list list" where
  "table_lines cols rows =
     (124 # concat (map (\<lambda>(col, w). head_cell col w) cols)) # (124 # concat (map (\<lambda>(col, w). rule_cell col w) cols))
     # map (\<lambda>row. 124 # row_texts row cols) rows"

lemma buildWithWidths_lines:
  assumes "mu_ok (tb_mb t)" "0 \<le> rowWidth ws" "rowWidth ws * (int (length (tb_rows t)) + 2) \<le> maxInt" "\<forall>c\<in>set (zip (tb_cols t) ws). col_ok c"
    "\<forall>row\<in>set (tb_rows t). row_fits row (zip (tb_cols t) ws)"
  shows "if \<forall>(col, w)\<in>set (zip (tb_cols t) ws). utf8_RuneCount (co_Name col) \<le> w
    then \<exists>mb. buildWithWidths gr ws t = Done mb \<and> mu_ok mb \<and> mu_bytes mb = mu_bytes (tb_mb t) @ concat (map (\<lambda>l. l @ [10]) (table_lines (zip (tb_cols t) ws) (tb_rows t)))
    else buildWithWidths gr ws t = Panic ''strings: negative Repeat count''"
proof -
  define cols where "cols = zip (tb_cols t) ws"
  let ?n = "rowWidth ws * (int (length (tb_rows t)) + 2)"
  have small: "\<forall>(col, w)\<in>set cols. w \<le> maxInt" "\<forall>(col, w)\<in>set cols. 1 \<le> w \<and> w \<le> maxInt"
    using assms(4) by (auto simp: cols_def col_ok_def)
  have n: "0 \<le> ?n" using assms(2) by simp
  then have wr: "wrap64 ?n = ?n" using assms(3) by (simp add: minInt_def)
  have g: "writes (Mut_Grow (wrap64 ?n)) []" unfolding wr by (rule Grow_writes[OF n])
  show ?thesis
  proof (cases "\<forall>(col, w)\<in>set cols. utf8_RuneCount (co_Name col) \<le> w")
    case True
    have "\<forall>(col, w)\<in>set cols. utf8_RuneCount (co_Name col) \<le> w \<and> w \<le> maxInt" using True small by auto
    note h = table_line_writes[OF header_cells_writes[OF this]]
    note r = table_line_writes[OF separator_cells_writes[OF small(2)]]
    note d = data_rows_writes[OF assms(4,5), folded cols_def]
    have e: "concat (map (\<lambda>row. 124 # row_texts row cols @ [10]) rows) = concat (map ((\<lambda>l. l @ [10]) \<circ> (\<lambda>row. 124 # row_texts row cols)) rows)" for rows
      by (simp add: comp_def)
    obtain mb where "buildWithWidths gr ws t = Done mb" "mu_ok mb" "mu_bytes mb = mu_bytes (tb_mb t) @ [] @
        (124 # concat (map (\<lambda>(col, w). head_cell col w) cols) @ [10]) @ (124 # concat (map (\<lambda>(col, w). rule_cell col w) cols) @ [10])
        @ concat (map (\<lambda>row. 124 # row_texts row cols @ [10]) (tb_rows t))"
      using writes_seq[OF g writes_seq[OF h writes_seq[OF r d]], of gr gr gr] assms(1)
      unfolding writes_def buildWithWidths_def Let_def cols_def by blast
    then show ?thesis using True by (simp add: table_lines_def e cols_def[symmetric])
  next
    case False
    then have "\<exists>(col, w)\<in>set cols. w < utf8_RuneCount (co_Name col)" by force
    from header_cells_panic[OF small(1) this] have "table_line gr (header_cells gr cols) m = Panic ''strings: negative Repeat count''" for m
      by (simp add: table_line_def)
    moreover obtain mb where "Mut_Grow (wrap64 ?n) (tb_mb t) = Done mb" using g assms(1) by (auto simp: writes_def)
    ultimately show ?thesis using False by (auto simp: buildWithWidths_def Let_def cols_def[symmetric])
  qed
qed

lemma table_lines_width:
  assumes "\<forall>c\<in>set (zip cols ws). col_ok c" "\<forall>row\<in>set rows. row_fits row (zip cols ws)" "length cols = length ws"
    "\<forall>(col, w)\<in>set (zip cols ws). utf8_RuneCount (co_Name col) \<le> w" "l \<in> set (table_lines (zip cols ws) rows)"
  shows "utf8_RuneCount l = rowWidth ws"
proof -
  have cell: "utf8_RuneCount (124 # concat (map (\<lambda>(col, w). f col w) (zip cols ws))) = rowWidth ws"
    if "\<And>col w. (col, w) \<in> set (zip cols ws) \<Longrightarrow> f col w \<noteq> [] \<and> hd (f col w) = 32 \<and> utf8_RuneCount (f col w) = w + 3" for f
    using that by (intro line_width[OF _ _ assms(3)]) auto
  from assms(5) consider "l = 124 # concat (map (\<lambda>(col, w). head_cell col w) (zip cols ws))"
    | "l = 124 # concat (map (\<lambda>(col, w). rule_cell col w) (zip cols ws))" | row where "row \<in> set rows" "l = 124 # row_texts row (zip cols ws)"
    by (auto simp: table_lines_def)
  then show ?thesis
  proof cases
    case 1
    have "head_cell col w \<noteq> [] \<and> hd (head_cell col w) = 32 \<and> utf8_RuneCount (head_cell col w) = w + 3" if "(col, w) \<in> set (zip cols ws)" for col w
      using assms(4) that head_rule_width(1) by (force simp: head_cell_def)
    then show ?thesis unfolding 1 by (rule cell)
  next
    case 2
    have "rule_cell col w \<noteq> [] \<and> hd (rule_cell col w) = 32 \<and> utf8_RuneCount (rule_cell col w) = w + 3" if "(col, w) \<in> set (zip cols ws)" for col w
    proof -
      have "1 \<le> w" using assms(1) that by (auto simp: col_ok_def)
      from head_rule_width(2)[OF this, of col] show ?thesis by (simp add: rule_cell_def)
    qed
    then show ?thesis unfolding 2 by (rule cell)
  next
    case 3
    from row_texts_cells[OF assms(1), of row] assms(2) 3(1) obtain ps where
      "row_texts row (zip cols ws) = concat ps" "\<forall>p\<in>set ps. p \<noteq> [] \<and> hd p = 32" "map utf8_RuneCount ps = map (\<lambda>(col, w). w + 3) (zip cols ws)"
      by blast
    then show ?thesis using line_width[OF _ _ assms(3), of ps] 3(2) by simp
  qed
qed

subsection \<open>Widths\<close>

lemma length_widen [simp]: "length (widen row ws) = length ws"
  by (induction row ws rule: widen.induct) auto

lemma widen_nth: "i < length ws \<Longrightarrow> widen row ws ! i = (if i < length row then max (ws ! i) (utf8_RuneCount (mu_bytes (row ! i))) else ws ! i)"
  by (induction row ws arbitrary: i rule: widen.induct) (auto simp: nth_Cons split: nat.split)

lemma length_fold_widen [simp]: "length (fold widen rows ws) = length ws"
  by (induction rows arbitrary: ws) auto

lemma fold_widen: "i < length ws \<Longrightarrow> ws ! i \<le> fold widen rows ws ! i
   \<and> (\<forall>row\<in>set rows. i < length row \<longrightarrow> utf8_RuneCount (mu_bytes (row ! i)) \<le> fold widen rows ws ! i)"
proof (induction rows arbitrary: ws)
  case (Cons row rows)
  have "i < length (widen row ws)" using Cons.prems by simp
  from Cons.IH[OF this] show ?case using widen_nth[OF Cons.prems, of row] by (auto split: if_splits)
qed simp

definition base_width :: "Column \<Rightarrow> int" where
  "base_width col = max (max (utf8_RuneCount (co_Name col)) (co_MinWidth col)) 3"

definition grown :: "Table \<Rightarrow> int list" where
  "grown t = fold widen (tb_rows t) (map base_width (tb_cols t))"

lemma length_grown [simp]: "length (grown t) = length (tb_cols t)"
  by (simp add: grown_def)

lemma naturalWidths_nth:
  "length (naturalWidths e t) = length (tb_cols t)"
  "i < length (tb_cols t) \<Longrightarrow> naturalWidths e t ! i = (if i \<in> e then grown t ! i else cap_width (tb_cols t ! i) (grown t ! i))"
  by (simp_all add: naturalWidths_def Let_def grown_def[unfolded base_width_def[abs_def], symmetric] nth_enumerate_eq)

lemma grown_nth:
  assumes "i < length (tb_cols t)"
  shows "base_width (tb_cols t ! i) \<le> grown t ! i"
    "row \<in> set (tb_rows t) \<Longrightarrow> i < length row \<Longrightarrow> utf8_RuneCount (mu_bytes (row ! i)) \<le> grown t ! i"
  using fold_widen[of i "map base_width (tb_cols t)" "tb_rows t"] assms by (auto simp: grown_def)

lemma row_fits_nth:
  "row_fits row cols \<longleftrightarrow> (\<forall>i < min (length row) (length cols). limited (fst (cols ! i)) \<or> utf8_RuneCount (mu_bytes (row ! i)) \<le> snd (cols ! i))"
proof (induction row cols rule: row_fits.induct)
  case (3 m row col w cols)
  have "min (length (m # row)) (length ((col, w) # cols)) = Suc (min (length row) (length cols))" by simp
  then show ?case using 3 by (simp only: All_less_Suc2) simp
qed auto

text \<open>Widths that respect what was measured, whatever is done to the columns with a limit.\<close>

lemma widths_fit:
  assumes "length ws = length (tb_cols t)" "\<And>i. i < length (tb_cols t) \<Longrightarrow> \<not> limited (tb_cols t ! i) \<Longrightarrow> grown t ! i \<le> ws ! i"
    "row \<in> set (tb_rows t)"
  shows "row_fits row (zip (tb_cols t) ws)"
  using assms grown_nth(2)[OF _ assms(3)] by (force simp: row_fits_nth)

lemma natural_not_limited: "i < length (tb_cols t) \<Longrightarrow> \<not> limited (tb_cols t ! i) \<Longrightarrow> naturalWidths e t ! i = grown t ! i"
  by (simp add: naturalWidths_nth limited_def cap_width_def)

lemma natural_pos: "i < length (tb_cols t) \<Longrightarrow> 3 \<le> naturalWidths e t ! i"
  using grown_nth(1)[of i t] by (auto simp: naturalWidths_nth cap_width_def base_width_def)

definition name_fits :: "Column \<Rightarrow> bool" where
  "name_fits col \<longleftrightarrow> (co_MaxWidth col > 0 \<longrightarrow> utf8_RuneCount (co_Name col) \<le> max (max (co_MaxWidth col) (co_MinWidth col)) 3)"

lemma natural_name: "i < length (tb_cols t) \<Longrightarrow>
   utf8_RuneCount (co_Name (tb_cols t ! i)) \<le> naturalWidths e t ! i \<longleftrightarrow> i \<in> e \<or> name_fits (tb_cols t ! i)"
  using grown_nth(1)[of i t] by (auto simp: naturalWidths_nth cap_width_def base_width_def name_fits_def)

lemma le_rowWidth: "\<forall>w\<in>set ws. 0 \<le> w \<Longrightarrow> w \<in> set ws \<Longrightarrow> w \<le> rowWidth ws \<and> 1 \<le> rowWidth ws"
proof -
  assume a: "\<forall>w\<in>set ws. 0 \<le> w" "w \<in> set ws"
  have "(\<forall>w\<in>set ws. 0 \<le> w) \<Longrightarrow> 0 \<le> sum_list (map (\<lambda>w. w + 3) ws) \<and> (\<forall>w\<in>set ws. w \<le> sum_list (map (\<lambda>w. w + 3) ws))" for ws :: "int list"
    by (induction ws) auto
  then show ?thesis using a by (fastforce simp: rowWidth_def sum_widths)
qed

lemma cols_ok:
  assumes "length ws = length (tb_cols t)" "\<forall>w\<in>set ws. 1 \<le> w" "\<forall>col\<in>set (tb_cols t). marker_ok col" "rowWidth ws * (int k + 2) \<le> maxInt"
  shows "\<forall>c\<in>set (zip (tb_cols t) ws). col_ok c" "0 \<le> rowWidth ws"
proof -
  have nn: "\<forall>w\<in>set ws. 0 \<le> w" using assms(2) by auto
  have r: "0 \<le> rowWidth ws" 
  proof (cases ws)
    case (Cons w rest)
    then show ?thesis using le_rowWidth[OF nn, of w] by simp
  qed (simp add: rowWidth_def)
  then have "rowWidth ws \<le> rowWidth ws * (int k + 2)" by (simp add: mult_le_cancel_left1)
  then have "rowWidth ws \<le> maxInt" using assms(4) by linarith
  then show "\<forall>c\<in>set (zip (tb_cols t) ws). col_ok c" using le_rowWidth[OF nn] assms(2,3) by (fastforce simp: col_ok_def dest: set_zip_leftD set_zip_rightD)
  show "0 \<le> rowWidth ws" by (rule r)
qed

lemma all_zip: "length xs = length ys \<Longrightarrow> (\<forall>(x, y)\<in>set (zip xs ys). P x y) \<longleftrightarrow> (\<forall>i<length xs. P (xs ! i) (ys ! i))"
  by (auto simp: set_zip)

text \<open>
  C32: \<open>Build\<close> of a table with rows: unless the name of a column is longer than its cap allows, the table is written
  behind what the builder held, a header, a rule and a line for each row, and all lines have the same number of runes,
  that of \<open>rowWidth\<close> for the measured widths: cells are padded or cut at a rune.  A name longer than
  the cap ends in a panic of \<open>strings.Repeat\<close>.
\<close>

theorem Build_aligned:
  assumes "mu_ok (tb_mb t)" "tb_rows t \<noteq> []" "\<forall>col\<in>set (tb_cols t). marker_ok col"
    "rowWidth (naturalWidths {} t) * (int (length (tb_rows t)) + 2) \<le> maxInt"
  shows "if \<forall>col\<in>set (tb_cols t). name_fits col
    then \<exists>t' ls. Table_Build gr t = Done t' \<and> tb_rows t' = [] \<and> mu_bytes (tb_mb t') = mu_bytes (tb_mb t) @ concat (map (\<lambda>l. l @ [10]) ls)
      \<and> length ls = length (tb_rows t) + 2 \<and> (\<forall>l\<in>set ls. utf8_RuneCount l = rowWidth (naturalWidths {} t))
    else Table_Build gr t = Panic ''strings: negative Repeat count''"
proof -
  define ws where "ws = naturalWidths {} t"
  have len: "length ws = length (tb_cols t)" by (simp add: ws_def naturalWidths_nth)
  have "\<forall>w\<in>set ws. 1 \<le> w"
  proof
    fix w assume "w \<in> set ws"
    then obtain i where "i < length (tb_cols t)" "w = ws ! i" using len by (auto simp: in_set_conv_nth)
    then show "1 \<le> w" using natural_pos[of i t "{}"] by (simp add: ws_def)
  qed
  note ok = cols_ok[OF len this assms(3,4)[folded ws_def]]
  have fits: "\<forall>row\<in>set (tb_rows t). row_fits row (zip (tb_cols t) ws)"
    using widths_fit[OF len] natural_not_limited[of _ t "{}"] by (simp add: ws_def)
  have names: "(\<forall>(col, w)\<in>set (zip (tb_cols t) ws). utf8_RuneCount (co_Name col) \<le> w) \<longleftrightarrow> (\<forall>col\<in>set (tb_cols t). name_fits col)"
    unfolding all_zip[OF len[symmetric]] using natural_name[of _ t "{}"] by (auto simp: ws_def all_set_conv_all_nth)
  note b = buildWithWidths_lines[OF assms(1) ok(2) assms(4)[folded ws_def] ok(1) fits, of gr, unfolded names]
  show ?thesis
  proof (cases "\<forall>col\<in>set (tb_cols t). name_fits col")
    case True
    obtain mb where "buildWithWidths gr ws t = Done mb" "mu_bytes mb = mu_bytes (tb_mb t) @ concat (map (\<lambda>l. l @ [10]) (table_lines (zip (tb_cols t) ws) (tb_rows t)))"
      using b True by auto
    moreover have "\<forall>l\<in>set (table_lines (zip (tb_cols t) ws) (tb_rows t)). utf8_RuneCount l = rowWidth ws"
      using table_lines_width[OF ok(1) fits len[symmetric]] names True by blast
    ultimately show ?thesis using True assms(2)
      by (auto simp: Table_Build_def releaseRows_def ws_def[symmetric] table_lines_def intro!: exI[of _ "table_lines (zip (tb_cols t) ws) (tb_rows t)"])
  next
    case False
    then show ?thesis using b assms(2) by (auto simp: Table_Build_def ws_def[symmetric])
  qed
qed

definition demo_table :: Table where
  "demo_table = \<lparr>tb_mb = nil_mutable, tb_cols = [plain_column [65] False, (plain_column [66] True)\<lparr>co_Elastic := True\<rparr>],
     tb_rows = [[fresh_mutable [195, 164, 67], fresh_mutable [67, 67, 67, 67, 67]]]\<rparr>"

lemma runes_demo: "runes [195, 164, 67] = [[195, 164], [67]]"
  by (simp add: runes.simps rune_size_def utf8_DecodeRune_def Let_def cont_def second_low_def second_high_def)

lemma demo_widths: "naturalWidths {} demo_table = [3, 5]" "naturalWidths {1} demo_table = [3, 5]"
  by (simp_all add: naturalWidths_def demo_table_def plain_column_def utf8_RuneCount_def[of "[195, 164, 67]"] runes_demo RuneCount_ascii cap_width_def)

lemma demo_ok: "mu_ok (tb_mb demo_table)" "tb_rows demo_table \<noteq> []" "\<forall>col\<in>set (tb_cols demo_table). marker_ok col"
    "\<forall>col\<in>set (tb_cols demo_table). name_fits col" "length (tb_rows demo_table) = 1" "mu_bytes (tb_mb demo_table) = []"
  by (auto simp: demo_table_def mu_ok_def nil_mutable_def marker_ok_def plain_column_def truncMarker_def str_def of_char_def cont_def name_fits_def mu_bytes_def)

lemma Build_aligned_witness:
  "\<exists>t' ls. Table_Build (\<lambda>c n. n) demo_table = Done t' \<and> mu_bytes (tb_mb t') = concat (map (\<lambda>l. l @ [10]) ls) \<and> length ls = 3
     \<and> (\<forall>l\<in>set ls. utf8_RuneCount l = 15)"
proof -
  have "rowWidth (naturalWidths {} demo_table) * (int (length (tb_rows demo_table)) + 2) \<le> maxInt" "rowWidth (naturalWidths {} demo_table) = 15"
    by (simp_all add: demo_widths demo_ok rowWidth_def maxInt_def)
  from Build_aligned[OF demo_ok(1-3) this(1), of "\<lambda>c n. n"] this(2) show ?thesis using demo_ok(4-6)
    by (simp add: numeral_3_eq_3) metis
qed

subsection \<open>The elastic column\<close>

lemma elastic_loop_found:
  "0 \<le> e \<Longrightarrow> elastic_loop i e cols = (if \<exists>col\<in>set cols. co_Elastic col then Inl ''BuildMaxWidth: at most one column may have Elastic set'' else Inr e)"
  by (induction cols arbitrary: i) auto

lemma elastic_loop_result:
  "0 \<le> i \<Longrightarrow> case elastic_loop i (-1) cols of
     Inl _ \<Rightarrow> 2 \<le> length (filter co_Elastic cols)
   | Inr e \<Rightarrow> if e < 0 then filter co_Elastic cols = [] else length (filter co_Elastic cols) = 1"
proof (induction cols arbitrary: i)
  case (Cons c cols)
  show ?case
  proof (cases "co_Elastic c")
    case True
    have "\<exists>col\<in>set cols. co_Elastic col \<Longrightarrow> filter co_Elastic cols \<noteq> []" by (auto simp: filter_empty_conv)
    then show ?thesis using True Cons.prems by (auto simp: elastic_loop_found Suc_le_eq)
  next
    case False
    then show ?thesis using Cons.IH[of "i + 1"] Cons.prems by (simp split: sum.split_asm sum.split if_splits)
  qed
qed simp

lemma elastic_loop_skip: "\<forall>col\<in>set xs. \<not> co_Elastic col \<Longrightarrow> elastic_loop i e (xs @ ys) = elastic_loop (i + int (length xs)) e ys"
  by (induction xs arbitrary: i) (auto simp: algebra_simps)

lemma elastic_one:
  assumes "e < length cols" "\<And>i. i < length cols \<Longrightarrow> co_Elastic (cols ! i) \<longleftrightarrow> i = e"
  shows "elastic_loop 0 (-1) cols = Inr (int e)"
proof -
  have c: "take e cols @ cols ! e # drop (Suc e) cols = cols" using assms(1) by (simp add: id_take_nth_drop[symmetric])
  have "\<forall>col\<in>set (take e cols). \<not> co_Elastic col" "co_Elastic (cols ! e)" "\<forall>col\<in>set (drop (Suc e) cols). \<not> co_Elastic col"
    using assms by (auto simp: in_set_conv_nth)
  then show ?thesis using elastic_loop_skip[of "take e cols" 0 "-1" "cols ! e # drop (Suc e) cols"] assms(1) unfolding c
    by (simp add: elastic_loop_found)
qed

lemma sum_others: "e < length ws \<Longrightarrow> sum_list (map snd (filter (\<lambda>(i, w). i \<noteq> n + e) (enumerate n ws))) = sum_list (ws[e := 0])" for ws :: "int list"
proof (induction ws arbitrary: n e)
  case (Cons w ws)
  have all: "filter (\<lambda>(i, w). i \<noteq> n) (enumerate (Suc n) ws) = enumerate (Suc n) ws"
    by (auto simp: filter_id_conv in_set_enumerate_eq)
  show ?case
  proof (cases e)
    case 0
    then show ?thesis using all by simp
  next
    case (Suc k)
    then show ?thesis using Cons.IH[of k "Suc n"] Cons.prems by simp
  qed
qed simp

lemma rowWidth_update: "e < length ws \<Longrightarrow> rowWidth (ws[e := w]) = rowWidth (ws[e := 0]) + w"
proof -
  have "e < length ws \<Longrightarrow> sum_list (map (\<lambda>w. w + 3) (ws[e := w])) = sum_list (map (\<lambda>w. w + 3) (ws[e := 0])) + w" for ws :: "int list"
    by (induction ws arbitrary: e) (auto split: nat.split)
  then show "e < length ws \<Longrightarrow> rowWidth (ws[e := w]) = rowWidth (ws[e := 0]) + w" by (simp add: rowWidth_def sum_widths)
qed

lemma rowWidth_sum: "rowWidth ws = 1 + int (length ws) * 3 + sum_list ws"
proof -
  have "sum_list (map (\<lambda>w. w + 3) ws) = int (length ws) * 3 + sum_list ws" by (induction ws) auto
  then show ?thesis by (simp add: rowWidth_def sum_widths)
qed

text \<open>
  \<open>BuildMaxWidth\<close> returns an error exactly when the width is not positive or the number of elastic columns is not
  one, and the rows are gone even then.
\<close>

theorem BuildMaxWidth_errors:
  "(\<exists>e. Table_BuildMaxWidth gr maxWidth t = Done (Inl e, t\<lparr>tb_rows := []\<rparr>)) \<longleftrightarrow> maxWidth \<le> 0 \<or> filter co_Elastic (tb_cols t) = [] \<or> 1 < length (filter co_Elastic (tb_cols t))"
proof (cases "maxWidth \<le> 0")
  case True
  then show ?thesis by (simp add: Table_BuildMaxWidth_def releaseRows_def)
next
  case pos: False
  note r = elastic_loop_result[of 0 "tb_cols t", simplified]
  show ?thesis
  proof (cases "elastic_loop 0 (-1) (tb_cols t)")
    case (Inl e)
    then show ?thesis using pos r by (simp add: Table_BuildMaxWidth_def releaseRows_def)
  next
    case (Inr e)
    show ?thesis
    proof (cases "e < 0")
      case True
      then show ?thesis using Inr pos r by (simp add: Table_BuildMaxWidth_def releaseRows_def)
    next
      case False
      then have "filter co_Elastic (tb_cols t) \<noteq> []" using Inr r by auto
      then show ?thesis using False Inr pos r by (simp add: Table_BuildMaxWidth_def)
    qed
  qed
qed

text \<open>
  C33: A table with one elastic column without a ceiling of its own: every line has exactly the given number of
  runes, or the least number that the other columns and the floor of the elastic one need, whichever is larger.
\<close>

theorem BuildMaxWidth_width:
  assumes "mu_ok (tb_mb t)" "tb_rows t \<noteq> []" "\<forall>col\<in>set (tb_cols t). marker_ok col \<and> name_fits col" "0 < maxWidth"
    "e < length (tb_cols t)" "\<And>i. i < length (tb_cols t) \<Longrightarrow> co_Elastic (tb_cols t ! i) \<longleftrightarrow> i = e" "co_MaxWidth (tb_cols t ! e) \<le> 0"
    "least = rowWidth ((naturalWidths {e} t)[e := max (max 3 (co_MinWidth (tb_cols t ! e))) (int (length (co_Name (tb_cols t ! e))))])"
    "max maxWidth least * (int (length (tb_rows t)) + 2) \<le> maxInt"
  shows "\<exists>mb ls. Table_BuildMaxWidth gr maxWidth t = Done (Inr mb, t\<lparr>tb_mb := mb, tb_rows := []\<rparr>)
    \<and> mu_bytes mb = mu_bytes (tb_mb t) @ concat (map (\<lambda>l. l @ [10]) ls) \<and> length ls = length (tb_rows t) + 2
    \<and> (\<forall>l\<in>set ls. utf8_RuneCount l = max maxWidth least)"
proof -
  define nw where "nw = naturalWidths {e} t"
  define r0 where "r0 = rowWidth (nw[e := 0])"
  define fl where "fl = max (max 3 (co_MinWidth (tb_cols t ! e))) (int (length (co_Name (tb_cols t ! e))))"
  define w where "w = max (maxWidth - r0) fl"
  define ws where "ws = nw[e := w]"
  have len: "length nw = length (tb_cols t)" "e < length nw" using assms(5) by (simp_all add: nw_def naturalWidths_nth)
  have nat3: "i < length nw \<Longrightarrow> 3 \<le> nw ! i" for i using natural_pos[of i t "{e}"] len(1) by (simp add: nw_def)
  have "\<forall>w\<in>set (nw[e := 0]). 0 \<le> w" using nat3 len(2) by (auto simp: in_set_conv_nth nth_list_update) force
  from le_rowWidth[OF this, of 0] have r0: "1 \<le> r0" using len(2) set_update_memI[OF len(2), of 0] by (simp add: r0_def)
  have least: "least = r0 + fl" using assms(8) rowWidth_update[OF len(2), of fl] by (simp add: nw_def r0_def fl_def)
  have rw: "rowWidth ws = max maxWidth least" using rowWidth_update[OF len(2), of w] by (simp add: ws_def least r0_def[symmetric] w_def)
  have big: "max maxWidth least \<le> max maxWidth least * (int (length (tb_rows t)) + 2)" using assms(4) by (simp add: mult_le_cancel_left1)
  have fl3: "3 \<le> fl" by (simp add: fl_def)
  then have range: "maxWidth \<le> maxInt" "r0 \<le> maxInt" using big assms(9) r0 least by linarith+
  have mx: "max_widths maxWidth e t = ws"
  proof -
    have o: "sum_list (map snd (filter (\<lambda>(i, w). i \<noteq> e) (enumerate 0 nw))) = sum_list (nw[e := 0])" using sum_others[OF len(2), of 0] by simp
    have "wrap64 (maxWidth - (1 + int (length (tb_cols t)) * 3) - sum_list (nw[e := 0])) = wrap64 (maxWidth - r0)"
      by (simp add: r0_def rowWidth_sum len(1) diff_diff_eq)
    also have "... = maxWidth - r0" using range assms(4) r0 by (intro wrap64_id) (auto simp: minInt_def maxInt_def)
    finally have b: "wrap64 (maxWidth - (1 + int (length (tb_cols t)) * 3) - sum_list (nw[e := 0])) = maxWidth - r0" .
    have "elastic_width (maxWidth - r0) (tb_cols t ! e) = w" using assms(7) by (auto simp: elastic_width_def w_def fl_def)
    then show ?thesis by (simp only: max_widths_def Let_def nw_def[symmetric] o b ws_def)
  qed
  have lw: "length ws = length (tb_cols t)" by (simp add: ws_def len)
  have one: "\<forall>x\<in>set ws. 1 \<le> x"
  proof
    fix x assume "x \<in> set ws"
    then obtain i where "i < length nw" "x = ws ! i" by (auto simp: in_set_conv_nth ws_def)
    then show "1 \<le> x" using nat3[of i] fl3 by (cases "i = e") (auto simp: ws_def w_def)
  qed
  have mk: "\<forall>col\<in>set (tb_cols t). marker_ok col" using assms(3) by simp
  note ok = cols_ok[OF lw one mk assms(9)[folded rw]]
  have lim: "grown t ! i \<le> ws ! i" if "i < length (tb_cols t)" "\<not> limited (tb_cols t ! i)" for i
  proof -
    have "i \<noteq> e" using that(2) assms(5,6) by (auto simp: limited_def)
    then show ?thesis using natural_not_limited[OF that, of "{e}"] by (simp add: ws_def nw_def)
  qed
  have fits: "\<forall>row\<in>set (tb_rows t). row_fits row (zip (tb_cols t) ws)" using widths_fit[OF lw lim] by simp
  have names: "\<forall>(col, x)\<in>set (zip (tb_cols t) ws). utf8_RuneCount (co_Name col) \<le> x"
    unfolding all_zip[OF lw[symmetric]]
  proof (intro allI impI)
    fix i assume i: "i < length (tb_cols t)"
    show "utf8_RuneCount (co_Name (tb_cols t ! i)) \<le> ws ! i"
    proof (cases "i = e")
      case True
      then show ?thesis using RuneCount_le[of "co_Name (tb_cols t ! e)"] len(2) by (simp add: ws_def w_def fl_def)
    next
      case False
      then show ?thesis using natural_name[OF i, of "{e}"] assms(3) i by (simp add: ws_def nw_def)
    qed
  qed
  obtain mb where mb: "buildWithWidths gr ws t = Done mb" "mu_bytes mb = mu_bytes (tb_mb t) @ concat (map (\<lambda>l. l @ [10]) (table_lines (zip (tb_cols t) ws) (tb_rows t)))"
    using buildWithWidths_lines[OF assms(1) ok(2) assms(9)[folded rw] ok(1) fits, of gr] names by auto
  have "Table_BuildMaxWidth gr maxWidth t = Done (Inr mb, t\<lparr>tb_mb := mb, tb_rows := []\<rparr>)"
    using elastic_one[OF assms(5,6)] assms(2,4) mb(1) by (simp add: Table_BuildMaxWidth_def mx releaseRows_def)
  then show ?thesis using mb(2) table_lines_width[OF ok(1) fits lw[symmetric] names] rw
    by (intro exI[of _ mb] exI[of _ "table_lines (zip (tb_cols t) ws) (tb_rows t)"]) (auto simp: table_lines_def)
qed

lemma BuildMaxWidth_width_witness:
  "\<exists>mb ls. Table_BuildMaxWidth (\<lambda>c n. n) 20 demo_table = Done (Inr mb, demo_table\<lparr>tb_mb := mb, tb_rows := []\<rparr>)
    \<and> mu_bytes mb = concat (map (\<lambda>l. l @ [10]) ls) \<and> (\<forall>l\<in>set ls. utf8_RuneCount l = 20)"
proof -
  let ?c = "tb_cols demo_table ! 1"
  let ?least = "rowWidth ((naturalWidths {1} demo_table)[1 := max (max 3 (co_MinWidth ?c)) (int (length (co_Name ?c)))])"
  have "max (max 3 (co_MinWidth ?c)) (int (length (co_Name ?c))) = 3" by (simp add: demo_table_def plain_column_def)
  then have l: "?least = 13" by (simp only: demo_widths) (simp add: rowWidth_def)
  have e: "i < length (tb_cols demo_table) \<Longrightarrow> co_Elastic (tb_cols demo_table ! i) \<longleftrightarrow> i = 1" for i
    by (auto simp: demo_table_def plain_column_def less_Suc_eq)
  have o: "\<forall>col\<in>set (tb_cols demo_table). marker_ok col \<and> name_fits col" "1 < length (tb_cols demo_table)" "co_MaxWidth ?c \<le> 0"
    using demo_ok(3,4) by (auto simp: demo_table_def plain_column_def)
  have m: "max 20 ?least * (int (length (tb_rows demo_table)) + 2) \<le> maxInt" unfolding l demo_ok(5) by (simp add: maxInt_def)
  from BuildMaxWidth_width[OF demo_ok(1,2) o(1) _ o(2) e o(3) refl m, of "\<lambda>c n. n"] show ?thesis
    unfolding l demo_ok(6) by auto
qed

subsection \<open>Quotes and lists\<close>

text \<open>
  A block quote: what is written is the text without its last newlines, cut at the newlines, every line behind
  the mark, and a blank line; nothing is written for a text of newlines only.
\<close>

theorem BlockQuote_lines:
  assumes "mu_ok m"
  shows "if trim_newlines (concat parts) = [] then Builder_BlockQuote gr parts m = Done m
    else \<exists>m' ls. Builder_BlockQuote gr parts m = Done m' \<and> mu_ok m' \<and> strings_Join ls [10] = trim_newlines (concat parts) \<and> (\<forall>l\<in>set ls. 10 \<notin> set l)
      \<and> mu_bytes m' = mu_bytes m @ concat (map (\<lambda>l. [62, 32] @ l @ [10]) ls) @ [10]"
proof (cases "trim_newlines (concat parts) = []")
  case True
  then show ?thesis by (simp add: Builder_BlockQuote_def prefixed_def)
next
  case False
  show ?thesis using prefixed_lines[OF assms False, of gr "[62, 32]"] False by (simp add: Builder_BlockQuote_def)
qed

lemma BlockQuote_lines_witness:
  "\<exists>m' ls. Builder_BlockQuote (\<lambda>c n. n) [[65, 10], [10, 66, 10]] nil_mutable = Done m' \<and> strings_Join ls [10] = [65, 10, 10, 66]
     \<and> mu_bytes m' = concat (map (\<lambda>l. [62, 32] @ l @ [10]) ls) @ [10]"
proof -
  have t: "trim_newlines (concat [[65, 10], [10, 66, 10]]) = [65, 10, 10, 66]" by (simp add: trim_newlines_def)
  have ok: "mu_ok nil_mutable" "mu_bytes nil_mutable = []" by (simp_all add: nil_mutable_def mu_ok_def mu_bytes_def)
  show ?thesis using BlockQuote_lines[OF ok(1), of "[[65, 10], [10, 66, 10]]" "\<lambda>c n. n"] unfolding t ok(2) by auto
qed

text \<open>
  A bullet list and a list extended by a sequence have a line for every item that is not empty, in order, and
  a blank line behind them if there is one; \<open>OrderedList\<close> has a line for the empty items as well.
\<close>

theorem lists_written:
  assumes "mu_ok m" "yields q items"
  shows "\<exists>m1 m2 m3. Builder_ExtendBulletList gr q m s = Some (m1, s) \<and> Builder_ExtendOrderedList gr q m s = Some (m2, s)
     \<and> Builder_OrderedList gr items m = Done m3
     \<and> mu_bytes m1 = mu_bytes m @ concat (map (\<lambda>i. [45, 32] @ i @ [10]) (filter (\<lambda>i. i \<noteq> []) items)) @ (if \<exists>i\<in>set items. i \<noteq> [] then [10] else [])
     \<and> mu_bytes m2 = mu_bytes m @ concat (map (\<lambda>i. [49, 46, 32] @ i @ [10]) (filter (\<lambda>i. i \<noteq> []) items)) @ (if \<exists>i\<in>set items. i \<noteq> [] then [10] else [])
     \<and> mu_bytes m3 = mu_bytes m @ concat (map (\<lambda>i. [49, 46, 32] @ i @ [10]) items) @ (if items \<noteq> [] then [10] else [])"
proof -
  have y: "yields (RemoveZeros [] q) (filter (\<lambda>i. i \<noteq> []) items)"
    using yields_RemoveZeros[OF assms(2)] by (simp add: isZero_def)
  have two: "fold (\<lambda>item (m, _). (f item m, True)) xs (m, b) = (fold f xs m, b \<or> xs \<noteq> [])" for f :: "byte list \<Rightarrow> Builder \<Rightarrow> Builder" and xs m b
    by (induction xs arbitrary: m b) auto
  have ne: "filter (\<lambda>i. i \<noteq> []) items \<noteq> [] \<longleftrightarrow> (\<exists>i\<in>set items. i \<noteq> [])" by (auto simp: filter_empty_conv)
  have fb: "mu_ok x \<Longrightarrow> mu_ok (fold (\<lambda>i. Builder_BulletListItem gr [i]) xs x)
      \<and> mu_bytes (fold (\<lambda>i. Builder_BulletListItem gr [i]) xs x) = mu_bytes x @ concat (map (\<lambda>i. [45, 32] @ i @ [10]) xs)" for x xs
    by (rule fold_writes) (simp_all add: Builder_BulletListItem_def)
  have fn: "mu_ok x \<Longrightarrow> mu_ok (fold (\<lambda>i. Builder_OrderedListItem gr [i]) xs x)
      \<and> mu_bytes (fold (\<lambda>i. Builder_OrderedListItem gr [i]) xs x) = mu_bytes x @ concat (map (\<lambda>i. [49, 46, 32] @ i @ [10]) xs)" for x xs
    by (rule fold_writes) (simp_all add: Builder_OrderedListItem_def)
  have len: "0 \<le> n \<Longrightarrow> 0 \<le> fold (\<lambda>s total. total + int (length s)) xs n" for xs :: "byte list list" and n
    by (induction xs arbitrary: n) auto
  obtain g where g: "growToAccomidate (sumLengthOfStrings items) m = Done g" "mu_ok g" "mu_bytes g = mu_bytes m"
    using Grow_Done[OF len[of 0 items] assms(1)] by (auto simp: growToAccomidate_def sumLengthOfStrings_def)
  show ?thesis
    unfolding Builder_ExtendBulletList_def Builder_ExtendOrderedList_def Builder_OrderedList_def flush_seq_yields[OF y] two g(1)
    using fb[OF assms(1), of "filter (\<lambda>i. i \<noteq> []) items"] fn[OF assms(1), of "filter (\<lambda>i. i \<noteq> []) items"] fn[OF g(2), of items] g(3)
    by (simp add: ne)
qed

lemma lists_written_witness:
  "\<exists>m1. Builder_ExtendBulletList (\<lambda>c n. n) (Slice [[65], [], [66]]) nil_mutable () = Some (m1, ()) \<and> mu_bytes m1 = [45, 32, 65, 10, 45, 32, 66, 10, 10]"
  using lists_written[OF _ yields_Slice, of nil_mutable "\<lambda>c n. n" "[[65], [], [66]]" "()"] by (auto simp: mu_ok_def nil_mutable_def mu_bytes_def)

end
