(* ===== verification/FnxCore.thy ===== *)
theory FnxCore
  imports IrtSeq
begin

text \<open>
  The function objects of \<open>src/fnx\<close>: workers, operations, futures and handlers, and the wrappers around them.  A
  function object takes a context and acts on the state of the world; it returns, panics, or never comes back
  (\<open>None\<close>).  A wrapper that keeps variables of its own works on a pair of these and the world.  What a context
  reports as its error, the clock and the duration of a call are parameters.

  An error is the list of the errors it is made of, in order, whatever the nesting; nil is the empty list.  For
  \<open>erc.Join\<close> on linked lists and \<open>errors.Is\<close> through them see theory \<open>ErcProps\<close>.
\<close>

subsection \<open>Errors and panics\<close>

datatype sentinel = ErrCurrentOpSkip | ErrCurrentOpAbort | ErrContainerClosed | EOF | Canceled | DeadlineExceeded
  | ErrRecoveredPanic | ErrInvariantViolation | TextError string

type_synonym error = "sentinel list"

definition join_errors :: "error list \<Rightarrow> error" where "join_errors errs = concat errs"
definition error_is :: "error \<Rightarrow> sentinel \<Rightarrow> bool" where "error_is e t \<longleftrightarrow> t \<in> set e"
definition error_is_any :: "error \<Rightarrow> sentinel list \<Rightarrow> bool" where "error_is_any e ts \<longleftrightarrow> (\<exists>t\<in>set ts. error_is e t)"

definition IsExpiredContext :: "error \<Rightarrow> bool" where "IsExpiredContext e = error_is_any e [Canceled, DeadlineExceeded]"
definition IsTerminating :: "error \<Rightarrow> bool" where "IsTerminating e = error_is_any e [EOF, ErrCurrentOpAbort, ErrContainerClosed]"

text \<open>What a panic carries.\<close>

datatype pval = PanError error | PanString string | PanErrors "error list" | PanOther

fun ParsePanic :: "pval option \<Rightarrow> error" where
  "ParsePanic None = []"
| "ParsePanic (Some (PanError e)) = join_errors [e, [ErrRecoveredPanic]]"
| "ParsePanic (Some (PanString s)) = join_errors [if s = '''' then [] else [TextError s], [ErrRecoveredPanic]]"
| "ParsePanic (Some (PanErrors es)) = join_errors (es @ [[ErrRecoveredPanic]])"
| "ParsePanic (Some PanOther) = [ErrRecoveredPanic]"

text \<open>An action returns or panics.\<close>

datatype 'a ret = Ret 'a | Pan pval

type_synonym ('a, 's) act = "'s \<Rightarrow> ('a ret \<times> 's) option"

definition act_return :: "'a \<Rightarrow> ('a, 's) act" where "act_return a s = Some (Ret a, s)"

definition act_bind :: "('a, 's) act \<Rightarrow> ('a \<Rightarrow> ('b, 's) act) \<Rightarrow> ('b, 's) act" where
  "act_bind m f s =
     (case m s of
        None \<Rightarrow> None
      | Some (Pan p, s1) \<Rightarrow> Some (Pan p, s1)
      | Some (Ret a, s1) \<Rightarrow> f a s1)"

text \<open>A deferred function that looks at the panic, or its absence, and makes a result.\<close>

definition act_recover :: "('a, 's) act \<Rightarrow> ('a option \<Rightarrow> pval option \<Rightarrow> 'b) \<Rightarrow> ('b, 's) act" where
  "act_recover m f s =
     (case m s of
        None \<Rightarrow> None
      | Some (Pan p, s1) \<Rightarrow> Some (Ret (f None (Some p)), s1)
      | Some (Ret a, s1) \<Rightarrow> Some (Ret (f (Some a) None), s1))"

text \<open>An action on the world beside variables of its own.\<close>

definition act_snd :: "('a, 's) act \<Rightarrow> ('a, 'v \<times> 's) act" where
  "act_snd m = (\<lambda>(v, s). map_option (\<lambda>(r, s1). (r, (v, s1))) (m s))"

type_synonym ('c, 's) worker = "'c \<Rightarrow> (error, 's) act"
type_synonym ('c, 's) operation = "'c \<Rightarrow> (unit, 's) act"
type_synonym ('c, 'a, 's) future = "'c \<Rightarrow> ('a \<times> error, 's) act"
type_synonym ('c, 'a, 's) handler = "'c \<Rightarrow> 'a \<Rightarrow> (error, 's) act"
type_synonym ('c, 's) context_error = "'c \<Rightarrow> 's \<Rightarrow> error"

definition must :: "error \<Rightarrow> (unit, 's) act" where
  "must e s = (if e = [] then Some (Ret (), s) else Some (Pan (PanError [ErrInvariantViolation]), s))"

subsection \<open>Running once, with a limit, with a time to live\<close>

text \<open>\<open>sync.Once\<close> is done even when its function panics.\<close>

definition once_act :: "('a, 's) act \<Rightarrow> ('a, (bool \<times> 'a) \<times> 's) act" where
  "once_act m = (\<lambda>((called, out), s).
     if called then Some (Ret out, ((True, out), s))
     else case m s of
            None \<Rightarrow> None
          | Some (Pan p, s1) \<Rightarrow> Some (Pan p, ((True, out), s1))
          | Some (Ret a, s1) \<Rightarrow> Some (Ret a, ((True, a), s1)))"

definition LimitExec :: "int \<Rightarrow> ('a, 's) act \<Rightarrow> ('a, (int \<times> 'a) \<times> 's) act" where
  "LimitExec n op = (\<lambda>((counter, output), s).
     if counter = n then Some (Ret output, ((counter, output), s))
     else if counter < n
          then (case op s of
                  None \<Rightarrow> None
                | Some (Pan p, s1) \<Rightarrow> Some (Pan p, ((counter, output), s1))
                | Some (Ret a, s1) \<Rightarrow> Some (Ret a, ((min n (counter + 1), a), s1)))
          else Some (Ret output, ((counter, output), s)))"

text \<open>The constructor refuses a limit below one.\<close>

definition LimitExec_new :: "int \<Rightarrow> bool" where "LimitExec_new n \<longleftrightarrow> \<not> n \<le> 0"

definition TTLExec :: "('s \<Rightarrow> int) \<Rightarrow> int \<Rightarrow> ('a, 's) act \<Rightarrow> ('a, (int option \<times> 'a) \<times> 's) act" where
  "TTLExec now dur op = (\<lambda>((lastAt, output), s).
     if dur = 0
     then map_option (\<lambda>(r, s1). (r, ((lastAt, output), s1))) (op s)
     else if (case lastAt of None \<Rightarrow> False | Some t \<Rightarrow> now s - t < dur)
     then Some (Ret output, ((lastAt, output), s))
     else case op s of
            None \<Rightarrow> None
          | Some (Pan p, s1) \<Rightarrow> Some (Pan p, ((lastAt, output), s1))
          | Some (Ret a, s1) \<Rightarrow> Some (Ret a, ((Some (now s1), a), s1)))"

definition TTLExec_new :: "int \<Rightarrow> bool" where "TTLExec_new dur \<longleftrightarrow> \<not> dur < 0"

subsection \<open>Workers\<close>

definition MakeWorker :: "(error, 's) act \<Rightarrow> ('c, 's) worker" where "MakeWorker f = (\<lambda>_. f)"
definition Worker_Run :: "('c, 's) worker \<Rightarrow> 'c \<Rightarrow> (error, 's) act" where "Worker_Run w ctx = w ctx"
definition Worker_WithRecover :: "('c, 's) worker \<Rightarrow> ('c, 's) worker" where
  "Worker_WithRecover w ctx = act_recover (w ctx) (\<lambda>r p. join_errors [case r of None \<Rightarrow> [] | Some e \<Rightarrow> e, ParsePanic p])"
definition Worker_Job :: "('c, 's) worker \<Rightarrow> ('c, 's) worker" where "Worker_Job w = Worker_WithRecover w"
definition Worker_Once :: "('c, 's) worker \<Rightarrow> ('c, (bool \<times> error) \<times> 's) worker" where "Worker_Once w ctx = once_act (w ctx)"
definition Worker_Operation :: "('c, 's) worker \<Rightarrow> (error \<Rightarrow> (unit, 's) act) \<Rightarrow> ('c, 's) operation" where
  "Worker_Operation w ob ctx = act_bind (w ctx) ob"
definition Worker_Wait :: "'c \<Rightarrow> ('c, 's) worker \<Rightarrow> (error, 's) act" where "Worker_Wait background w = Worker_Run w background"
definition Worker_Must :: "('c, 's) worker \<Rightarrow> ('c, 's) operation" where "Worker_Must w ctx = act_bind (w ctx) must"
definition Worker_Ignore :: "('c, 's) worker \<Rightarrow> ('c, 's) operation" where "Worker_Ignore w ctx = act_bind (w ctx) (\<lambda>_. act_return ())"
definition Worker_If :: "('c, 's) worker \<Rightarrow> bool \<Rightarrow> ('c, 's) worker" where
  "Worker_If w cond ctx = (if cond then w ctx else act_return [])"
definition Worker_When :: "('c, 's) worker \<Rightarrow> (bool, 's) act \<Rightarrow> ('c, 's) worker" where
  "Worker_When w cond ctx = act_bind cond (\<lambda>b. if b then w ctx else act_return [])"
definition Worker_Check :: "('c, 's) worker \<Rightarrow> 'c \<Rightarrow> (bool, 's) act" where
  "Worker_Check w ctx = act_bind (w ctx) (\<lambda>e. act_return (e = []))"

text \<open>The wrappers whose constructor can panic are values of \<open>option\<close>.\<close>

definition Worker_Limit :: "int \<Rightarrow> ('c, 's) worker \<Rightarrow> ('c, (int \<times> error) \<times> 's) worker option" where
  "Worker_Limit n w = (if LimitExec_new n then Some (\<lambda>ctx. LimitExec n (w ctx)) else None)"
definition Worker_TTL :: "('s \<Rightarrow> int) \<Rightarrow> int \<Rightarrow> ('c, 's) worker \<Rightarrow> ('c, (int option \<times> error) \<times> 's) worker option" where
  "Worker_TTL now dur w = (if TTLExec_new dur then Some (\<lambda>ctx. TTLExec now dur (w ctx)) else None)"

partial_function (option) Worker_While :: "('c, 's) context_error \<Rightarrow> ('c \<Rightarrow> (error, 's) act) \<Rightarrow> 'c \<Rightarrow> 's \<Rightarrow> (error ret \<times> 's) option" where
  "Worker_While cerr w ctx s =
     (case w ctx s of
        None \<Rightarrow> None
      | Some (Pan p, s1) \<Rightarrow> Some (Pan p, s1)
      | Some (Ret e, s1) \<Rightarrow>
          if e \<noteq> [] \<or> cerr ctx s1 \<noteq> [] then Some (Ret (join_errors [e, cerr ctx s1]), s1)
          else Worker_While cerr w ctx s1)"

definition Worker_merge :: "('c, 's) context_error \<Rightarrow> ('c, 's) worker \<Rightarrow> ('c, 's) worker \<Rightarrow> ('c, 's) worker" where
  "Worker_merge cerr w nxt ctx =
     act_bind (w ctx) (\<lambda>e s. if e \<noteq> [] then Some (Ret e, s) else Worker_Run (Worker_If nxt (cerr ctx s = [])) ctx s)"

definition Worker_Join :: "('c, 's) context_error \<Rightarrow> ('c, 's) worker \<Rightarrow> ('c, 's) worker list \<Rightarrow> ('c, 's) worker" where
  "Worker_Join cerr w ws = fold (\<lambda>nxt w. Worker_merge cerr w nxt) ws w"

definition Operation_WithRecover :: "('c, 's) operation \<Rightarrow> ('c, 's) worker" where
  "Operation_WithRecover w ctx = act_recover (w ctx) (\<lambda>_ p. ParsePanic p)"

definition Worker_PreHook :: "('c, 's) operation \<Rightarrow> ('c, 's) worker \<Rightarrow> ('c, 's) worker" where
  "Worker_PreHook pre w ctx =
     act_bind (Operation_WithRecover pre ctx) (\<lambda>e1. act_bind (w ctx) (\<lambda>e2. act_return (join_errors [e1, e2])))"

definition Worker_PostHook :: "(unit, 's) act \<Rightarrow> ('c, 's) worker \<Rightarrow> ('c, 's) worker" where
  "Worker_PostHook post w ctx =
     act_bind (Worker_WithRecover w ctx) (\<lambda>e. act_recover post (\<lambda>_ p. join_errors [e, ParsePanic p]))"

definition Worker_WithContextHook :: "('c \<Rightarrow> ('c, 's) act) \<Rightarrow> ('c, 's) worker \<Rightarrow> ('c, 's) worker" where
  "Worker_WithContextHook hook w ctx = act_bind (hook ctx) (Worker_Run w)"
definition Worker_WithErrorHook :: "(error \<Rightarrow> (unit, 's) act) \<Rightarrow> ('c, 's) worker \<Rightarrow> ('c, 's) worker" where
  "Worker_WithErrorHook eh w ctx = act_bind (w ctx) (\<lambda>e. act_bind (eh e) (\<lambda>_. act_return e))"
definition Worker_WithErrorFilter :: "(error \<Rightarrow> error) \<Rightarrow> ('c, 's) worker \<Rightarrow> ('c, 's) worker" where
  "Worker_WithErrorFilter ef w ctx = act_bind (w ctx) (\<lambda>e. act_return (ef e))"
definition filter_Without :: "sentinel list \<Rightarrow> error \<Rightarrow> error" where
  "filter_Without excl e = (if excl \<noteq> [] \<and> error_is_any e excl then [] else e)"
definition Worker_WithoutErrors :: "sentinel list \<Rightarrow> ('c, 's) worker \<Rightarrow> ('c, 's) worker" where
  "Worker_WithoutErrors errs w ctx = act_bind (w ctx) (\<lambda>e. act_return (filter_Without errs e))"

fun Worker_Retry_loop :: "nat \<Rightarrow> ('c, 's) worker \<Rightarrow> 'c \<Rightarrow> error \<Rightarrow> (error, 's) act" where
  "Worker_Retry_loop 0 w ctx err s = Some (Ret err, s)"
| "Worker_Retry_loop (Suc n) w ctx err s =
     (case w ctx s of
        None \<Rightarrow> None
      | Some (Pan p, s1) \<Rightarrow> Some (Pan p, s1)
      | Some (Ret a, s1) \<Rightarrow>
          if a = [] then Some (Ret [], s1)
          else if error_is a ErrCurrentOpSkip then Worker_Retry_loop n w ctx err s1
          else if IsExpiredContext a then Some (Ret (join_errors [a, err]), s1)
          else if IsTerminating a then Some (Ret [], s1)
          else Worker_Retry_loop n w ctx (join_errors [a, err]) s1)"

definition Worker_Retry :: "int \<Rightarrow> ('c, 's) worker \<Rightarrow> ('c, 's) worker" where
  "Worker_Retry n w ctx = Worker_Retry_loop (nat n) w ctx []"

end
