(* ===== verification/FnxFuns.thy ===== *)
theory FnxFuns
  imports FnxCore
begin

text \<open>The operations, futures and handlers of \<open>src/fnx\<close>.\<close>

subsection \<open>Operations\<close>

text \<open>A deferred hook runs after a panic too; its own panic replaces that one.\<close>

definition act_defer :: "('a, 's) act \<Rightarrow> (unit, 's) act \<Rightarrow> ('a, 's) act" where
  "act_defer m hook s =
     (case m s of
        None \<Rightarrow> None
      | Some (r, s1) \<Rightarrow> (case hook s1 of
                          None \<Rightarrow> None
                        | Some (Pan p, s2) \<Rightarrow> Some (Pan p, s2)
                        | Some (Ret _, s2) \<Rightarrow> Some (r, s2)))"

definition MakeOperation :: "(unit, 's) act \<Rightarrow> ('c, 's) operation" where "MakeOperation f = (\<lambda>_. f)"
definition Operation_Run :: "('c, 's) operation \<Rightarrow> 'c \<Rightarrow> (unit, 's) act" where "Operation_Run w ctx = w ctx"
definition Operation_Job :: "('c, 's) operation \<Rightarrow> ('c, 's) worker" where "Operation_Job w = Operation_WithRecover w"
definition Operation_WithContextHook :: "('c \<Rightarrow> ('c, 's) act) \<Rightarrow> ('c, 's) operation \<Rightarrow> ('c, 's) operation" where
  "Operation_WithContextHook hook w ctx = act_bind (hook ctx) w"
definition Operation_Once :: "('c, 's) operation \<Rightarrow> ('c, (bool \<times> unit) \<times> 's) operation" where "Operation_Once w ctx = once_act (w ctx)"
definition Operation_Wait :: "'c \<Rightarrow> ('c, 's) operation \<Rightarrow> (unit, 's) act" where "Operation_Wait background w = w background"

partial_function (option) Operation_While :: "('c, 's) context_error \<Rightarrow> ('c \<Rightarrow> (unit, 's) act) \<Rightarrow> 'c \<Rightarrow> 's \<Rightarrow> (unit ret \<times> 's) option" where
  "Operation_While cerr w ctx s =
     (case w ctx s of
        None \<Rightarrow> None
      | Some (Pan p, s1) \<Rightarrow> Some (Pan p, s1)
      | Some (Ret u, s1) \<Rightarrow> if cerr ctx s1 \<noteq> [] then Some (Ret u, s1) else Operation_While cerr w ctx s1)"

definition Operation_Worker :: "('c, 's) context_error \<Rightarrow> ('c, 's) operation \<Rightarrow> ('c, 's) worker" where
  "Operation_Worker cerr w ctx = act_bind (w ctx) (\<lambda>_ s. Some (Ret (cerr ctx s), s))"
definition Operation_WithErrorHook :: "(error \<Rightarrow> (unit, 's) act) \<Rightarrow> ('c, 's) operation \<Rightarrow> ('c, 's) worker" where
  "Operation_WithErrorHook ef w = Worker_WithErrorHook ef (Operation_WithRecover w)"
definition Operation_When :: "('c, 's) context_error \<Rightarrow> ('c, 's) operation \<Rightarrow> (bool, 's) act \<Rightarrow> ('c, 's) operation" where
  "Operation_When cerr w cond = Worker_Ignore (Worker_When (Operation_Worker cerr w) cond)"
definition Operation_If :: "('c, 's) context_error \<Rightarrow> ('c, 's) operation \<Rightarrow> bool \<Rightarrow> ('c, 's) operation" where
  "Operation_If cerr w cond = Worker_Ignore (Worker_If (Operation_Worker cerr w) cond)"

text \<open>The counter of a limited operation is a variable of the wrapper; it is taken before the operation runs.\<close>

definition limit_take :: "int \<Rightarrow> (bool, int \<times> 's) act" where
  "limit_take n = (\<lambda>(current, s). if current \<ge> n then Some (Ret False, (current, s)) else Some (Ret True, (current + 1, s)))"

definition Operation_Limit :: "('c, 's) context_error \<Rightarrow> int \<Rightarrow> ('c, 's) operation \<Rightarrow> ('c, int \<times> 's) operation option" where
  "Operation_Limit cerr n w =
     (if n > 0 then Some (Operation_When (\<lambda>ctx (_, s). cerr ctx s) (\<lambda>ctx. act_snd (w ctx)) (limit_take n)) else None)"

definition Operation_TTL :: "('s \<Rightarrow> int) \<Rightarrow> int \<Rightarrow> ('c, 's) operation \<Rightarrow> ('c, (int option \<times> bool) \<times> 's) operation option" where
  "Operation_TTL now dur w =
     (if TTLExec_new dur
      then Some (\<lambda>ctx. act_bind (TTLExec now dur (act_bind (w ctx) (\<lambda>_. act_return True))) (\<lambda>_. act_return ()))
      else None)"

definition Operation_merge :: "('c, 's) context_error \<Rightarrow> ('c, 's) operation \<Rightarrow> ('c, 's) operation \<Rightarrow> ('c, 's) operation" where
  "Operation_merge cerr w nxt ctx = act_bind (w ctx) (\<lambda>_ s. Operation_Run (Operation_If cerr nxt (cerr ctx s = [])) ctx s)"
definition Operation_Join :: "('c, 's) context_error \<Rightarrow> ('c, 's) operation \<Rightarrow> ('c, 's) operation list \<Rightarrow> ('c, 's) operation" where
  "Operation_Join cerr w ops = fold (\<lambda>nxt w. Operation_merge cerr w nxt) ops w"
definition Operation_PostHook :: "(unit, 's) act \<Rightarrow> ('c, 's) operation \<Rightarrow> ('c, 's) operation" where
  "Operation_PostHook hook w ctx = act_defer (w ctx) hook"
definition Operation_PreHook :: "('c, 's) operation \<Rightarrow> ('c, 's) operation \<Rightarrow> ('c, 's) operation" where
  "Operation_PreHook hook w ctx = act_bind (hook ctx) (\<lambda>_. w ctx)"

subsection \<open>Futures\<close>

text \<open>The zero value of the result type is a parameter.\<close>

definition MakeFuture :: "('a \<times> error, 's) act \<Rightarrow> ('c, 'a, 's) future" where "MakeFuture f = (\<lambda>_. f)"
definition NewFuture :: "('c, 'a, 's) future \<Rightarrow> ('c, 'a, 's) future" where "NewFuture f = f"
definition StaticFuture :: "'a \<Rightarrow> error \<Rightarrow> ('c, 'a, 's) future" where "StaticFuture v err = (\<lambda>_. act_return (v, err))"
definition ValueFuture :: "'a \<Rightarrow> ('c, 'a, 's) future" where "ValueFuture v = StaticFuture v []"
definition CheckedFuture :: "'a \<Rightarrow> ('a \<times> bool, 's) act \<Rightarrow> ('c, 'a, 's) future" where
  "CheckedFuture zero op = (\<lambda>_. act_bind op (\<lambda>(out, ok). act_return (if \<not> ok then (zero, [EOF]) else (out, []))))"
definition PtrFuture :: "'a \<Rightarrow> ('a option, 's) act \<Rightarrow> ('c, 'a, 's) future" where
  "PtrFuture zero f = CheckedFuture zero (act_bind f (\<lambda>v. act_return (case v of Some x \<Rightarrow> (x, True) | None \<Rightarrow> (zero, False))))"
definition Future_WithRecover :: "'a \<Rightarrow> ('c, 'a, 's) future \<Rightarrow> ('c, 'a, 's) future" where
  "Future_WithRecover zero pf ctx =
     act_recover (pf ctx) (\<lambda>r p. (case r of None \<Rightarrow> zero | Some (v, _) \<Rightarrow> v, join_errors [case r of None \<Rightarrow> [] | Some (_, e) \<Rightarrow> e, ParsePanic p]))"
definition Future_Job :: "'a \<Rightarrow> ('c, 'a, 's) future \<Rightarrow> ('c, 'a, 's) future" where "Future_Job zero pf ctx = Future_WithRecover zero pf ctx"

datatype 'a next_result = Value 'a | Failed error | Ended error

text \<open>A loop that calls a future until it has a value or an error that is no skip.\<close>

partial_function (option) next_value :: "(error \<Rightarrow> bool) \<Rightarrow> ('c \<Rightarrow> ('a \<times> error, 's) act) \<Rightarrow> 'c \<Rightarrow> 's \<Rightarrow> ('a next_result ret \<times> 's) option" where
  "next_value ends pf ctx s =
     (case pf ctx s of
        None \<Rightarrow> None
      | Some (Pan p, s1) \<Rightarrow> Some (Pan p, s1)
      | Some (Ret r, s1) \<Rightarrow>
          if snd r = [] then Some (Ret (Value (fst r)), s1)
          else if error_is (snd r) ErrCurrentOpSkip then next_value ends pf ctx s1
          else if \<not> ends (snd r) then Some (Ret (Failed (snd r)), s1)
          else Some (Ret (Ended (snd r)), s1))"

datatype join_stage = runFirstFunc | firstFunctionErrored | runSecondFunc | secondFunctionErrored | eofStage

type_synonym join_state = "join_stage \<times> error \<times> error"

definition join_second :: "'a \<Rightarrow> ('c, 'a, 's) future \<Rightarrow> 'c \<Rightarrow> error \<Rightarrow> error \<Rightarrow> 's \<Rightarrow> (('a \<times> error) ret \<times> join_state \<times> 's) option" where
  "join_second zero nxt ctx ferr serr s =
     (case next_value (\<lambda>e. error_is e EOF) nxt ctx s of
        None \<Rightarrow> None
      | Some (Pan p, s1) \<Rightarrow> Some (Pan p, ((runSecondFunc, ferr, serr), s1))
      | Some (Ret (Value out), s1) \<Rightarrow> Some (Ret (out, []), ((runSecondFunc, ferr, serr), s1))
      | Some (Ret (Failed e), s1) \<Rightarrow> Some (Ret (zero, e), ((secondFunctionErrored, ferr, e), s1))
      | Some (Ret (Ended e), s1) \<Rightarrow> Some (Ret (zero, e), ((eofStage, ferr, serr), s1)))"

definition Future_Join :: "'a \<Rightarrow> ('c, 'a, 's) future \<Rightarrow> ('c, 'a, 's) future \<Rightarrow> ('c, 'a, join_state \<times> 's) future" where
  "Future_Join zero pf nxt ctx = (\<lambda>((stage, ferr, serr), s).
     case stage of
       secondFunctionErrored \<Rightarrow> Some (Ret (zero, serr), ((stage, ferr, serr), s))
     | firstFunctionErrored \<Rightarrow> Some (Ret (zero, ferr), ((stage, ferr, serr), s))
     | runFirstFunc \<Rightarrow>
         (case next_value IsTerminating pf ctx s of
            None \<Rightarrow> None
          | Some (Pan p, s1) \<Rightarrow> Some (Pan p, ((stage, ferr, serr), s1))
          | Some (Ret (Value out), s1) \<Rightarrow> Some (Ret (out, []), ((stage, ferr, serr), s1))
          | Some (Ret (Failed e), s1) \<Rightarrow> Some (Ret (zero, e), ((firstFunctionErrored, e, serr), s1))
          | Some (Ret (Ended _), s1) \<Rightarrow> join_second zero nxt ctx ferr serr s1)
     | runSecondFunc \<Rightarrow> join_second zero nxt ctx ferr serr s
     | eofStage \<Rightarrow> Some (Ret (zero, [EOF]), ((stage, ferr, serr), s)))"

definition Future_Future :: "('c, 'a, 's) future \<Rightarrow> 'c \<Rightarrow> (error \<Rightarrow> (unit, 's) act) \<Rightarrow> ('a, 's) act" where
  "Future_Future pf ctx ob = act_bind (pf ctx) (\<lambda>(out, err). act_bind (ob err) (\<lambda>_. act_return out))"
definition Future_Ignore :: "('c, 'a, 's) future \<Rightarrow> 'c \<Rightarrow> ('a, 's) act" where
  "Future_Ignore pf ctx = act_bind (pf ctx) (\<lambda>(out, _). act_return out)"
definition Future_Read :: "('c, 'a, 's) future \<Rightarrow> 'c \<Rightarrow> ('a \<times> error, 's) act" where "Future_Read pf ctx = pf ctx"

text \<open>\<open>erc.Must\<close> panics with the error and the sentinel of a broken invariant.\<close>

definition Future_Must :: "('c, 'a, 's) future \<Rightarrow> 'c \<Rightarrow> ('a, 's) act" where
  "Future_Must pf ctx =
     act_bind (Future_Read pf ctx) (\<lambda>(out, err) s. if err \<noteq> [] then Some (Pan (PanError (join_errors [err, [ErrInvariantViolation]])), s) else Some (Ret out, s))"
definition Future_Wait :: "'c \<Rightarrow> ('c, 'a, 's) future \<Rightarrow> ('a \<times> error, 's) act" where "Future_Wait background pf = pf background"
definition Future_Force :: "'c \<Rightarrow> ('c, 'a, 's) future \<Rightarrow> ('a, 's) act" where
  "Future_Force background pf = act_bind (Future_Wait background pf) (\<lambda>(out, _). act_return out)"
definition Future_Resolve :: "'c \<Rightarrow> ('c, 'a, 's) future \<Rightarrow> ('a, 's) act" where "Future_Resolve background pf = Future_Force background pf"
definition Future_Check :: "('c, 'a, 's) future \<Rightarrow> 'c \<Rightarrow> ('a \<times> bool, 's) act" where
  "Future_Check pf ctx = act_bind (pf ctx) (\<lambda>(out, e). act_return (out, e = []))"

definition Future_WithErrorCheck :: "'a \<Rightarrow> (error, 's) act \<Rightarrow> ('c, 'a, 's) future \<Rightarrow> ('c, 'a, 's) future" where
  "Future_WithErrorCheck zero ef pf ctx =
     act_bind ef (\<lambda>e0. if e0 \<noteq> [] then act_return (zero, e0)
       else act_bind (Future_Read pf ctx) (\<lambda>(out, err). act_bind ef (\<lambda>e1.
              let e = join_errors [err, e1] in act_return (if e \<noteq> [] then (zero, e) else (out, [])))))"

definition Future_Once :: "'a \<Rightarrow> ('c, 'a, 's) future \<Rightarrow> ('c, 'a, (bool \<times> 'a \<times> error) \<times> 's) future" where
  "Future_Once zero pf ctx = once_act (Future_WithRecover zero pf ctx)"
definition Future_If :: "'a \<Rightarrow> ('c, 'a, 's) future \<Rightarrow> bool \<Rightarrow> ('c, 'a, 's) future" where
  "Future_If zero pf cond ctx = (if cond then pf ctx else act_return (zero, []))"
definition Future_When :: "'a \<Rightarrow> ('c, 'a, 's) future \<Rightarrow> (bool, 's) act \<Rightarrow> ('c, 'a, 's) future" where
  "Future_When zero pf cond ctx = act_bind cond (\<lambda>b. if b then pf ctx else act_return (zero, []))"
definition Future_Limit :: "int \<Rightarrow> ('c, 'a, 's) future \<Rightarrow> ('c, 'a, (int \<times> 'a \<times> error) \<times> 's) future option" where
  "Future_Limit n pf = (if LimitExec_new n then Some (\<lambda>ctx. LimitExec n (pf ctx)) else None)"
definition Future_TTL :: "('s \<Rightarrow> int) \<Rightarrow> int \<Rightarrow> ('c, 'a, 's) future \<Rightarrow> ('c, 'a, (int option \<times> 'a \<times> error) \<times> 's) future option" where
  "Future_TTL now dur pf = (if TTLExec_new dur then Some (\<lambda>ctx. TTLExec now dur (pf ctx)) else None)"

text \<open>Here a skip does not count as an attempt: the index is taken back.\<close>

partial_function (option) Future_Retry_loop :: "'a \<Rightarrow> int \<Rightarrow> ('c \<Rightarrow> ('a \<times> error, 's) act) \<Rightarrow> 'c \<Rightarrow> int \<Rightarrow> error \<Rightarrow> 's \<Rightarrow> (('a \<times> error) ret \<times> 's) option" where
  "Future_Retry_loop zero n pf ctx i err s =
     (if \<not> i < n then Some (Ret (zero, err), s)
      else case pf ctx s of
             None \<Rightarrow> None
           | Some (Pan p, s1) \<Rightarrow> Some (Pan p, s1)
           | Some (Ret r, s1) \<Rightarrow>
               if snd r = [] then Some (Ret (fst r, []), s1)
               else if IsTerminating (snd r) then Some (Ret (zero, join_errors [snd r, err]), s1)
               else if IsExpiredContext (snd r) then Some (Ret (zero, join_errors [snd r, err]), s1)
               else if error_is (snd r) ErrCurrentOpSkip then Future_Retry_loop zero n pf ctx (i - 1 + 1) err s1
               else Future_Retry_loop zero n pf ctx (i + 1) (join_errors [snd r, err]) s1)"

definition Future_Retry :: "'a \<Rightarrow> int \<Rightarrow> ('c, 'a, 's) future \<Rightarrow> ('c, 'a, 's) future" where
  "Future_Retry zero n pf ctx = Future_Retry_loop zero n pf ctx 0 []"

definition Future_PreHook :: "('c, 's) operation \<Rightarrow> ('c, 'a, 's) future \<Rightarrow> ('c, 'a, 's) future" where
  "Future_PreHook op pf ctx =
     act_bind (Operation_WithRecover op ctx) (\<lambda>e1. act_bind (pf ctx) (\<lambda>(out, e2). act_return (out, join_errors [e1, e2])))"
definition Future_PostHook :: "(unit, 's) act \<Rightarrow> ('c, 'a, 's) future \<Rightarrow> ('c, 'a, 's) future" where
  "Future_PostHook op pf ctx =
     act_bind (pf ctx) (\<lambda>(o1, e). act_recover op (\<lambda>_ p. (o1, join_errors [e, ParsePanic p])))"
definition Future_WithErrorFilter :: "(error \<Rightarrow> error) \<Rightarrow> ('c, 'a, 's) future \<Rightarrow> ('c, 'a, 's) future" where
  "Future_WithErrorFilter ef pf ctx = act_bind (pf ctx) (\<lambda>(out, err). act_return (out, ef err))"
definition Future_WithoutErrors :: "sentinel list \<Rightarrow> ('c, 'a, 's) future \<Rightarrow> ('c, 'a, 's) future" where
  "Future_WithoutErrors errs pf = Future_WithErrorFilter (filter_Without errs) pf"
definition Future_Filter :: "'a \<Rightarrow> ('a \<Rightarrow> bool) \<Rightarrow> ('c, 'a, 's) future \<Rightarrow> ('c, 'a, 's) future" where
  "Future_Filter zero fl pf ctx =
     act_bind (pf ctx) (\<lambda>(v, err). act_return (if err \<noteq> [] then (zero, err) else if \<not> fl v then (zero, [ErrCurrentOpSkip]) else (v, [])))"

subsection \<open>Handlers\<close>

definition MakeHandler :: "('a \<Rightarrow> (error, 's) act) \<Rightarrow> ('c, 'a, 's) handler" where "MakeHandler f = (\<lambda>_. f)"
definition FromHandler :: "('a \<Rightarrow> (unit, 's) act) \<Rightarrow> ('c, 'a, 's) handler" where
  "FromHandler f = MakeHandler (\<lambda>v. act_bind (f v) (\<lambda>_. act_return []))"
definition NewHandler :: "('c, 'a, 's) handler \<Rightarrow> ('c, 'a, 's) handler" where "NewHandler f = f"
definition Handler_Read :: "('c, 'a, 's) handler \<Rightarrow> 'c \<Rightarrow> 'a \<Rightarrow> (error, 's) act" where "Handler_Read pf ctx v = pf ctx v"
definition Handler_If :: "('c, 'a, 's) handler \<Rightarrow> bool \<Rightarrow> ('c, 'a, 's) handler" where
  "Handler_If pf c ctx v = (if c then pf ctx v else act_return [])"
definition Handler_When :: "('c, 'a, 's) handler \<Rightarrow> (bool, 's) act \<Rightarrow> ('c, 'a, 's) handler" where
  "Handler_When pf c ctx v = act_bind c (\<lambda>b. if b then pf ctx v else act_return [])"
definition Handler_merge :: "('c, 's) context_error \<Rightarrow> ('c, 'a, 's) handler \<Rightarrow> ('c, 'a, 's) handler \<Rightarrow> ('c, 'a, 's) handler" where
  "Handler_merge cerr pf nxt ctx v =
     act_bind (pf ctx v) (\<lambda>e s. if e \<noteq> [] then Some (Ret e, s) else Handler_Read (Handler_If nxt (cerr ctx s = [])) ctx v s)"
definition Handler_Join :: "('c, 's) context_error \<Rightarrow> ('c, 'a, 's) handler \<Rightarrow> ('c, 'a, 's) handler list \<Rightarrow> ('c, 'a, 's) handler" where
  "Handler_Join cerr pf pfs = fold (\<lambda>nxt pf. Handler_merge cerr pf nxt) pfs pf"

text \<open>Handlers that are nil are left out; with no other one the result is nil.\<close>

fun JoinHandlers :: "('c, 's) context_error \<Rightarrow> ('c, 'a, 's) handler option \<Rightarrow> ('c, 'a, 's) handler option list \<Rightarrow> ('c, 'a, 's) handler option" where
  "JoinHandlers cerr pf [] = pf"
| "JoinHandlers cerr pf (None # fns) = JoinHandlers cerr pf fns"
| "JoinHandlers cerr pf (Some f # fns) =
     JoinHandlers cerr (case pf of None \<Rightarrow> Some f | Some g \<Rightarrow> Some (Handler_merge cerr g f)) fns"

definition Handler_Wait :: "'c \<Rightarrow> ('c, 'a, 's) handler \<Rightarrow> 'a \<Rightarrow> (error, 's) act" where "Handler_Wait background pf v = pf background v"
definition Handler_Ignore :: "('c, 'a, 's) handler \<Rightarrow> 'c \<Rightarrow> 'a \<Rightarrow> (unit, 's) act" where
  "Handler_Ignore pf ctx v = act_bind (pf ctx v) (\<lambda>_. act_return ())"
definition Handler_Check :: "('c, 'a, 's) handler \<Rightarrow> 'c \<Rightarrow> 'a \<Rightarrow> (bool, 's) act" where
  "Handler_Check pf ctx v = act_bind (pf ctx v) (\<lambda>e. act_return (e = []))"
definition Handler_Force :: "'c \<Rightarrow> ('c, 'a, 's) handler \<Rightarrow> 'a \<Rightarrow> (unit, 's) act" where
  "Handler_Force background pf v = act_bind (Handler_Wait background pf v) (\<lambda>_. act_return ())"
definition Handler_Capture :: "'c \<Rightarrow> ('c, 'a, 's) handler \<Rightarrow> 'a \<Rightarrow> (unit, 's) act" where "Handler_Capture background pf = Handler_Force background pf"
definition Handler_Must :: "('c, 'a, 's) handler \<Rightarrow> 'c \<Rightarrow> 'a \<Rightarrow> (unit, 's) act" where
  "Handler_Must pf ctx v = act_bind (Handler_Read pf ctx v) must"
definition Handler_WithRecover :: "('c, 'a, 's) handler \<Rightarrow> ('c, 'a, 's) handler" where
  "Handler_WithRecover pf ctx v = act_recover (pf ctx v) (\<lambda>r p. join_errors [case r of None \<Rightarrow> [] | Some e \<Rightarrow> e, ParsePanic p])"
definition Handler_Job :: "('c, 'a, 's) handler \<Rightarrow> 'a \<Rightarrow> 'c \<Rightarrow> (error, 's) act" where "Handler_Job pf v ctx = Handler_Read (Handler_WithRecover pf) ctx v"
definition Handler_Filter :: "('a \<Rightarrow> bool) \<Rightarrow> ('c, 'a, 's) handler \<Rightarrow> ('c, 'a, 's) handler" where
  "Handler_Filter fl pf ctx v = (if \<not> fl v then act_return [ErrCurrentOpSkip] else Handler_Read pf ctx v)"
definition Handler_Handler :: "('c, 'a, 's) handler \<Rightarrow> 'c \<Rightarrow> (error \<Rightarrow> (unit, 's) act) \<Rightarrow> 'a \<Rightarrow> (unit, 's) act" where
  "Handler_Handler pf ctx oe v = act_bind (pf ctx v) oe"
definition Handler_Once :: "('c, 'a, 's) handler \<Rightarrow> ('c, 'a, (bool \<times> error) \<times> 's) handler" where "Handler_Once pf ctx v = once_act (pf ctx v)"
definition Handler_Limit :: "int \<Rightarrow> ('c, 'a, 's) handler \<Rightarrow> ('c, 'a, (int \<times> error) \<times> 's) handler option" where
  "Handler_Limit n pf = (if LimitExec_new n then Some (\<lambda>ctx v. LimitExec n (pf ctx v)) else None)"
definition Handler_TTL :: "('s \<Rightarrow> int) \<Rightarrow> int \<Rightarrow> ('c, 'a, 's) handler \<Rightarrow> ('c, 'a, (int option \<times> error) \<times> 's) handler option" where
  "Handler_TTL now dur pf = (if TTLExec_new dur then Some (\<lambda>ctx v. TTLExec now dur (pf ctx v)) else None)"
definition Handler_WithErrorFilter :: "(error \<Rightarrow> error) \<Rightarrow> ('c, 'a, 's) handler \<Rightarrow> ('c, 'a, 's) handler" where
  "Handler_WithErrorFilter ef pf ctx v = act_bind (pf ctx v) (\<lambda>e. act_return (ef e))"
definition Handler_WithoutErrors :: "sentinel list \<Rightarrow> ('c, 'a, 's) handler \<Rightarrow> ('c, 'a, 's) handler" where
  "Handler_WithoutErrors errs pf = Handler_WithErrorFilter (filter_Without errs) pf"

text \<open>
  The result of this function has no name, so when the deferred \<open>Recover\<close> has put a panic of the handler into the
  collector nothing reads the collector any more, and the function returns nil.
\<close>

definition Handler_PreHook :: "('c, 's) operation \<Rightarrow> ('c, 'a, 's) handler \<Rightarrow> ('c, 'a, 's) handler" where
  "Handler_PreHook op pf ctx v =
     act_bind (Operation_WithRecover op ctx) (\<lambda>e1.
       act_recover (pf ctx v) (\<lambda>r p. case r of Some e2 \<Rightarrow> join_errors [e1, e2] | None \<Rightarrow> []))"

definition Handler_PostHook :: "(unit, 's) act \<Rightarrow> ('c, 'a, 's) handler \<Rightarrow> ('c, 'a, 's) handler" where
  "Handler_PostHook op pf ctx v s =
     (case pf ctx v s of
        None \<Rightarrow> None
      | Some (Ret e, s1) \<Rightarrow> act_recover op (\<lambda>_ q. join_errors [e, ParsePanic q]) s1
      | Some (Pan p, s1) \<Rightarrow> act_recover op (\<lambda>_ q. join_errors [ParsePanic q, ParsePanic (Some p)]) s1)"

end
