(* ===== verification/FnxProps.thy ===== *)
theory FnxProps
  imports FnxFuns
begin

text \<open>The properties of the function objects: what is run how often, what is returned, and what never returns.\<close>

subsection \<open>Calls one after the other\<close>

text \<open>The caller recovers from panics and goes on.\<close>

fun run_calls :: "('c \<Rightarrow> ('a, 's) act) \<Rightarrow> 'c list \<Rightarrow> 's \<Rightarrow> ('a ret list \<times> 's) option" where
  "run_calls f [] s = Some ([], s)"
| "run_calls f (c # cs) s =
     (case f c s of None \<Rightarrow> None | Some (r, s1) \<Rightarrow> map_option (\<lambda>(rs, s2). (r # rs, s2)) (run_calls f cs s1))"

lemma run_calls_append:
  "run_calls f (cs @ ds) s = (case run_calls f cs s of None \<Rightarrow> None | Some (rs, s1) \<Rightarrow> map_option (\<lambda>(ts, s2). (rs @ ts, s2)) (run_calls f ds s1))"
  by (induction cs arbitrary: s) (auto simp: map_option_case split: option.split prod.split)

lemma run_calls_const: "(\<And>c. c \<in> set cs \<Longrightarrow> f c s = Some (r, s)) \<Longrightarrow> run_calls f cs s = Some (map (\<lambda>_. r) cs, s)"
  by (induction cs) auto

text \<open>
  A worker under \<open>Once\<close> runs in the first call only.  Every later call returns what the first one returned
  and leaves the world alone; if the first call panics the later ones return the error as it was before, nil in a new wrapper.
\<close>

theorem Once_runs_once:
  assumes "w c s = Some (r, s1)"
  shows "run_calls (Worker_Once w) (c # cs) ((False, z), s)
    = Some (r # map (\<lambda>_. Ret (case r of Ret e \<Rightarrow> e | Pan _ \<Rightarrow> z)) cs, ((True, case r of Ret e \<Rightarrow> e | Pan _ \<Rightarrow> z), s1))"
proof -
  let ?e = "case r of Ret e \<Rightarrow> e | Pan _ \<Rightarrow> z"
  have "Worker_Once w c ((False, z), s) = Some (r, ((True, ?e), s1))"
    using assms by (cases r) (simp_all add: Worker_Once_def once_act_def)
  moreover have "run_calls (Worker_Once w) cs ((True, ?e), s1) = Some (map (\<lambda>_. Ret ?e) cs, ((True, ?e), s1))"
    by (rule run_calls_const) (simp add: Worker_Once_def once_act_def)
  ultimately show ?thesis by simp
qed

lemma Once_runs_once_witness:
  "run_calls (Worker_Once (\<lambda>_ s. Some (Ret [EOF], Suc s))) [(), ()] ((False, []), 0) = Some ([Ret [EOF], Ret [EOF]], ((True, [EOF]), 1))"
  using Once_runs_once[of "\<lambda>_ s. Some (Ret [EOF], Suc s)" "()" 0 "Ret [EOF]" 1 "[()]" "[]"] by simp

lemma LimitExec_runs:
  assumes "0 \<le> k" "int (length cs) \<le> n - k" "run_calls w cs s = Some (map Ret es, s1)"
  shows "run_calls (\<lambda>c. LimitExec n (w c)) cs ((k, z), s) = Some (map Ret es, ((k + int (length cs), last (z # es)), s1))"
  using assms
proof (induction cs arbitrary: s k z es)
  case (Cons c cs)
  obtain r s2 where r: "w c s = Some (r, s2)" using Cons.prems(3) by (auto split: option.splits)
  obtain rs where rs: "run_calls w cs s2 = Some (rs, s1)" "map Ret es = r # rs" using Cons.prems(3) r by (auto split: option.splits)
  then obtain e es' where e: "es = e # es'" "r = Ret e" "rs = map Ret es'" by auto
  have "LimitExec n (w c) ((k, z), s) = Some (Ret e, ((k + 1, e), s2))"
    using r e(2) Cons.prems(1,2) by (simp add: LimitExec_def)
  moreover have "run_calls (\<lambda>c. LimitExec n (w c)) cs ((k + 1, e), s2) = Some (map Ret es', ((k + 1 + int (length cs), last (e # es')), s1))"
    using Cons.IH[of "k + 1" s2 es' e] Cons.prems rs(1) e(3) by simp
  ultimately show ?case by (simp add: e algebra_simps)
qed simp

text \<open>
  A worker with a limit runs in the first calls only, as often as the limit says.  The later calls return
  what the last run returned and leave the world alone.
\<close>

theorem Limit_runs_at_most:
  assumes "Worker_Limit n w = Some lw" "run_calls w (take (nat n) cs) s = Some (map Ret es, s1)"
  shows "run_calls lw cs ((0, z), s)
    = Some (map Ret es @ map (\<lambda>_. Ret (last (z # es))) (drop (nat n) cs), ((min n (int (length cs)), last (z # es)), s1))"
proof -
  have n: "n > 0" "lw = (\<lambda>c. LimitExec n (w c))" using assms(1) by (auto simp: Worker_Limit_def LimitExec_new_def split: if_splits)
  have len: "int (length (take (nat n) cs)) \<le> n - 0" using n(1) by simp
  note first = LimitExec_runs[OF order_refl len assms(2), of z, folded n(2)]
  have k: "0 + int (length (take (nat n) cs)) = min n (int (length cs))" using n(1) by (cases "length cs \<le> nat n") (auto simp: min_def)
  have rest: "run_calls lw (drop (nat n) cs) ((min n (int (length cs)), last (z # es)), s1)
      = Some (map (\<lambda>_. Ret (last (z # es))) (drop (nat n) cs), ((min n (int (length cs)), last (z # es)), s1))"
  proof (cases "n \<le> int (length cs)")
    case True
    then show ?thesis by (intro run_calls_const) (simp add: n(2) LimitExec_def min_def)
  qed simp
  show ?thesis using run_calls_append[of lw "take (nat n) cs" "drop (nat n) cs"] first[unfolded k] rest by simp
qed

lemma Limit_runs_at_most_witness:
  "\<exists>lw. Worker_Limit 2 (\<lambda>_ s. Some (Ret [TextError (replicate s CHR ''x'')], Suc s)) = Some lw
     \<and> run_calls lw [(), (), ()] ((0, []), 0) = Some ([Ret [TextError ''''], Ret [TextError ''x''], Ret [TextError ''x'']], ((2, [TextError ''x'']), 2))"
proof -
  let ?w = "\<lambda>(_ :: unit) (s :: nat). Some (Ret [TextError (replicate s CHR ''x'')], Suc s)"
  obtain lw where lw: "Worker_Limit 2 ?w = Some lw" by (simp add: Worker_Limit_def LimitExec_new_def)
  have "run_calls ?w (take (nat 2) [(), (), ()]) 0 = Some (map Ret [[TextError ''''], [TextError ''x'']], 2)" by (simp add: numeral_2_eq_2)
  from Limit_runs_at_most[OF lw this, of "[]"] show ?thesis using lw by (simp add: numeral_2_eq_2)
qed

subsection \<open>Retrying\<close>

text \<open>The errors after which a worker is called again.\<close>

definition retried :: "error \<Rightarrow> bool" where
  "retried e \<longleftrightarrow> e \<noteq> [] \<and> (error_is e ErrCurrentOpSkip \<or> \<not> IsExpiredContext e \<and> \<not> IsTerminating e)"

lemma Retry_loop_attempts:
  assumes "\<And>s. \<exists>e s1. w ctx s = Some (Ret e, s1)"
  shows "\<exists>es s1. length es \<le> n \<and> run_calls w (replicate (length es) ctx) s = Some (map Ret es, s1)
    \<and> (\<forall>e\<in>set (butlast es). retried e) \<and> (if es \<noteq> [] \<and> \<not> retried (last es) then True else length es = n)
    \<and> Worker_Retry_loop n w ctx err s
      = Some (Ret (if es \<noteq> [] \<and> \<not> retried (last es) \<and> \<not> IsExpiredContext (last es) then []
                   else concat (rev (filter (\<lambda>e. \<not> error_is e ErrCurrentOpSkip) es)) @ err), s1)"
proof (induction n arbitrary: s err)
  case (Suc n)
  obtain e s1 where e: "w ctx s = Some (Ret e, s1)" using assms by blast
  show ?case
  proof (cases "retried e")
    case False
    then have "e = [] \<or> \<not> error_is e ErrCurrentOpSkip" "e \<noteq> [] \<Longrightarrow> IsExpiredContext e \<or> IsTerminating e" by (auto simp: retried_def)
    moreover have "\<not> IsExpiredContext []" by (simp add: IsExpiredContext_def error_is_any_def error_is_def)
    ultimately show ?thesis using False e
      by (intro exI[of _ "[e]"] exI[of _ s1]) (auto simp: join_errors_def)
  next
    case True
    let ?err = "if error_is e ErrCurrentOpSkip then err else e @ err"
    obtain es s2 where es: "length es \<le> n" "run_calls w (replicate (length es) ctx) s1 = Some (map Ret es, s2)"
      "\<forall>e\<in>set (butlast es). retried e" "if es \<noteq> [] \<and> \<not> retried (last es) then True else length es = n"
      "Worker_Retry_loop n w ctx ?err s1
      = Some (Ret (if es \<noteq> [] \<and> \<not> retried (last es) \<and> \<not> IsExpiredContext (last es) then []
                   else concat (rev (filter (\<lambda>e. \<not> error_is e ErrCurrentOpSkip) es)) @ ?err), s2)"
      using Suc.IH[of s1 ?err] by blast
    have step: "Worker_Retry_loop (Suc n) w ctx err s = Worker_Retry_loop n w ctx ?err s1"
      using True e by (auto simp: retried_def join_errors_def)
    show ?thesis unfolding step es(5)
      using e es(1-4) True by (intro exI[of _ "e # es"] exI[of _ s2]) (auto split: if_splits)
  qed
next
  case 0
  show ?case by (rule exI[of _ "[]"], rule exI[of _ s]) simp
qed

text \<open>
  C31: \<open>Retry\<close> of a worker makes at most the given number of attempts.  It goes on after an attempt exactly when that one
  ended in an error that is neither nil nor terminating nor an expired context, or in a skip.  If the last
  attempt succeeds or ends in a terminating error the result is nil; otherwise it is the errors of the attempts,
  latest first, without the skips.
\<close>

theorem Retry_attempts:
  assumes "\<And>s. \<exists>e s1. w ctx s = Some (Ret e, s1)"
  shows "\<exists>es s1. length es \<le> nat n \<and> run_calls w (replicate (length es) ctx) s = Some (map Ret es, s1)
    \<and> (\<forall>e\<in>set (butlast es). retried e) \<and> (if es \<noteq> [] \<and> \<not> retried (last es) then True else length es = nat n)
    \<and> Worker_Retry n w ctx s
      = Some (Ret (if es \<noteq> [] \<and> \<not> retried (last es) \<and> \<not> IsExpiredContext (last es) then []
                   else concat (rev (filter (\<lambda>e. \<not> error_is e ErrCurrentOpSkip) es))), s1)"
  using Retry_loop_attempts[of w ctx "nat n" s "[]", OF assms] unfolding Worker_Retry_def append_Nil2 .

lemma Retry_attempts_witness:
  "\<exists>es s1. length es \<le> 2 \<and> Worker_Retry 2 (\<lambda>_ s. Some (Ret [TextError s], s @ ''x'')) () ''a''
      = Some (Ret (if es \<noteq> [] \<and> \<not> retried (last es) \<and> \<not> IsExpiredContext (last es) then []
                   else concat (rev (filter (\<lambda>e. \<not> error_is e ErrCurrentOpSkip) es))), s1)"
  using Retry_attempts[of "\<lambda>_ s. Some (Ret [TextError s], s @ ''x'')" "()" 2 "''a''"] by auto

text \<open>
  C39: \<open>Retry\<close> of a future that only skips never returns: a skip takes the index back.  The documentation promises a
  zero value and a nil error here.
\<close>

theorem Future_Retry_of_skips_diverges:
  assumes "\<And>s. \<exists>v s1. pf ctx s = Some (Ret (v, [ErrCurrentOpSkip]), s1)" "0 < n"
  shows "Future_Retry zero n pf ctx s = None"
proof -
  have "(\<forall>s. \<exists>v s1. pf ctx s = Some (Ret (v, [ErrCurrentOpSkip]), s1)) \<longrightarrow> \<not> i < n"
    if "Future_Retry_loop zero n pf ctx i err s = Some r" for i err s r
  proof (rule Future_Retry_loop.raw_induct[where P = "\<lambda>zero n pf ctx i err s r.
        (\<forall>s. \<exists>v s1. pf ctx s = Some (Ret (v, [ErrCurrentOpSkip]), s1)) \<longrightarrow> \<not> i < n", OF _ that], intro impI)
    fix loop zero and n i :: int and pf ctx err s y
    assume IH: "\<And>zero n pf ctx i err s y. loop zero n pf ctx i err s = Some y
        \<Longrightarrow> (\<forall>s. \<exists>v s1. pf ctx s = Some (Ret (v, [ErrCurrentOpSkip]), s1)) \<longrightarrow> \<not> i < n"
      and step: "(if \<not> i < n then Some (Ret (zero, err), s)
      else case pf ctx s of
             None \<Rightarrow> None
           | Some (Ret r, s1) \<Rightarrow>
               if snd r = [] then Some (Ret (fst r, []), s1)
               else if IsTerminating (snd r) then Some (Ret (zero, join_errors [snd r, err]), s1)
               else if IsExpiredContext (snd r) then Some (Ret (zero, join_errors [snd r, err]), s1)
               else if error_is (snd r) ErrCurrentOpSkip then loop zero n pf ctx (i - 1 + 1) err s1
               else loop zero n pf ctx (i + 1) (join_errors [snd r, err]) s1
           | Some (Pan p, s1) \<Rightarrow> Some (Pan p, s1)) = Some y"
      and skips: "\<forall>s. \<exists>v s1. pf ctx s = Some (Ret (v, [ErrCurrentOpSkip]), s1)"
    obtain v s1 where "pf ctx s = Some (Ret (v, [ErrCurrentOpSkip]), s1)" using skips by blast
    moreover have "\<not> IsTerminating [ErrCurrentOpSkip]" "\<not> IsExpiredContext [ErrCurrentOpSkip]" "error_is [ErrCurrentOpSkip] ErrCurrentOpSkip"
      by (simp_all add: IsTerminating_def IsExpiredContext_def error_is_any_def error_is_def)
    ultimately have "\<not> i < n \<or> loop zero n pf ctx (i - 1 + 1) err s1 = Some y" using step by (simp split: if_splits)
    moreover have "\<not> i - 1 + 1 < n" if "loop zero n pf ctx (i - 1 + 1) err s1 = Some y" using IH[OF that] skips by blast
    moreover have "i - 1 + 1 = i" by simp
    ultimately show "\<not> i < n" by metis
  qed
  from this[of 0 "[]" s] show ?thesis using assms by (cases "Future_Retry_loop zero n pf ctx 0 [] s") (auto simp: Future_Retry_def)
qed

lemma Future_Retry_of_skips_diverges_witness: "Future_Retry 0 3 (\<lambda>_ s. Some (Ret (7 :: nat, [ErrCurrentOpSkip]), Suc s)) () 0 = None"
  using Future_Retry_of_skips_diverges[of "\<lambda>_ s. Some (Ret (7 :: nat, [ErrCurrentOpSkip]), Suc s)" "()" 3] by simp

subsection \<open>One after the other\<close>

text \<open>
  The values a future gives until it ends, and its last error: by its calls, of which those that answer with a skip do not
  count, and by the loop of the code that passes over the skips.
\<close>

inductive delivers :: "(error \<Rightarrow> bool) \<Rightarrow> ('c, 'a, 's) future \<Rightarrow> 'c \<Rightarrow> 's \<Rightarrow> 'a list \<Rightarrow> error \<Rightarrow> 's \<Rightarrow> bool"
  for ends pf ctx where
  delivers_end: "pf ctx s = Some (Ret (x, e), s1) \<Longrightarrow> e \<noteq> [] \<Longrightarrow> \<not> error_is e ErrCurrentOpSkip \<Longrightarrow> ends e \<Longrightarrow> delivers ends pf ctx s [] e s1"
| delivers_skip: "pf ctx s = Some (Ret (x, e), s1) \<Longrightarrow> error_is e ErrCurrentOpSkip \<Longrightarrow> delivers ends pf ctx s1 xs e2 s2 \<Longrightarrow> delivers ends pf ctx s xs e2 s2"
| delivers_value: "pf ctx s = Some (Ret (x, []), s1) \<Longrightarrow> delivers ends pf ctx s1 xs e s2 \<Longrightarrow> delivers ends pf ctx s (x # xs) e s2"

inductive gives :: "(error \<Rightarrow> bool) \<Rightarrow> ('c, 'a, 's) future \<Rightarrow> 'c \<Rightarrow> 's \<Rightarrow> 'a list \<Rightarrow> error \<Rightarrow> 's \<Rightarrow> bool"
  for ends pf ctx where
  gives_end: "next_value ends pf ctx s = Some (Ret (Ended e), s1) \<Longrightarrow> gives ends pf ctx s [] e s1"
| gives_value: "next_value ends pf ctx s = Some (Ret (Value x), s1) \<Longrightarrow> gives ends pf ctx s1 xs e s2 \<Longrightarrow> gives ends pf ctx s (x # xs) e s2"

lemma gives_same_start: "gives ends pf ctx s xs e s2 \<Longrightarrow> next_value ends pf ctx s0 = next_value ends pf ctx s \<Longrightarrow> gives ends pf ctx s0 xs e s2"
  by (erule gives.cases) (simp_all add: gives.intros)

lemma delivers_gives: "delivers ends pf ctx s xs e s1 \<Longrightarrow> gives ends pf ctx s xs e s1"
proof (induction rule: delivers.induct)
  case (delivers_end s x e s1)
  then have "next_value ends pf ctx s = Some (Ret (Ended e), s1)" by (subst next_value.simps) simp
  then show ?case by (rule gives_end)
next
  case (delivers_skip s x e s1 xs e2 s2)
  then have "e \<noteq> []" by (auto simp: error_is_def)
  then have "next_value ends pf ctx s = next_value ends pf ctx s1" using delivers_skip(1,2) by (subst next_value.simps) simp
  then show ?case by (rule gives_same_start[OF delivers_skip.IH])
next
  case (delivers_value s x s1 xs e s2)
  then have "next_value ends pf ctx s = Some (Ret (Value x), s1)" by (subst next_value.simps) simp
  then show ?case using delivers_value.IH by (rule gives_value)
qed

lemma Future_Join_stages:
  "Future_Join zero pf nxt ctx ((runSecondFunc, ferr, serr), s) = join_second zero nxt ctx ferr serr s"
  "Future_Join zero pf nxt ctx ((eofStage, ferr, serr), s) = Some (Ret (zero, [EOF]), ((eofStage, ferr, serr), s))"
  "next_value IsTerminating pf ctx s = Some (Ret (Value x), s1) \<Longrightarrow> Future_Join zero pf nxt ctx ((runFirstFunc, ferr, serr), s) = Some (Ret (x, []), ((runFirstFunc, ferr, serr), s1))"
  "next_value IsTerminating pf ctx s = Some (Ret (Ended e), s1) \<Longrightarrow> Future_Join zero pf nxt ctx ((runFirstFunc, ferr, serr), s) = join_second zero nxt ctx ferr serr s1"
  by (simp_all add: Future_Join_def)

lemma join_second_runs:
  assumes "gives (\<lambda>e. error_is e EOF) nxt ctx s ys e s1"
  shows "run_calls (Future_Join zero pf nxt) (replicate (Suc (length ys) + k) ctx) ((runSecondFunc, ferr, serr), s)
    = Some (map (\<lambda>y. Ret (y, [])) ys @ Ret (zero, e) # replicate k (Ret (zero, [EOF])), ((eofStage, ferr, serr), s1))"
  using assms
proof (induction rule: gives.induct)
  case (gives_end s e s1)
  have "run_calls (Future_Join zero pf nxt) (replicate k ctx) ((eofStage, ferr, serr), s1) = Some (map (\<lambda>_. Ret (zero, [EOF])) (replicate k ctx), ((eofStage, ferr, serr), s1))"
    by (rule run_calls_const) (simp add: Future_Join_stages)
  then show ?case using gives_end by (simp add: Future_Join_stages join_second_def map_replicate_const)
next
  case (gives_value s x s1 xs e s2)
  then show ?case by (simp add: Future_Join_stages join_second_def)
qed

lemma join_first_runs:
  assumes "gives IsTerminating pf ctx s xs e1 s1" "gives (\<lambda>e. error_is e EOF) nxt ctx s1 ys e2 s2"
  shows "run_calls (Future_Join zero pf nxt) (replicate (Suc (length xs + length ys) + k) ctx) ((runFirstFunc, [], []), s)
    = Some (map (\<lambda>x. Ret (x, [])) (xs @ ys) @ Ret (zero, e2) # replicate k (Ret (zero, [EOF])), ((eofStage, [], []), s2))"
  using assms
proof (induction rule: gives.induct)
  case (gives_end s e s1)
  have "Future_Join zero pf nxt ctx ((runFirstFunc, [], []), s) = Future_Join zero pf nxt ctx ((runSecondFunc, [], []), s1)"
    using gives_end(1) by (simp add: Future_Join_stages)
  then have "run_calls (Future_Join zero pf nxt) (replicate (Suc m) ctx) ((runFirstFunc, [], []), s)
      = run_calls (Future_Join zero pf nxt) (replicate (Suc m) ctx) ((runSecondFunc, [], []), s1)" for m by simp
  then show ?case using join_second_runs[OF gives_end(2), of zero pf k "[]" "[]"] by simp
next
  case (gives_value s x s1 xs e s2)
  then show ?case by (simp add: Future_Join_stages)
qed

text \<open>
  C30: The join of two futures gives the values of the first one up to its terminating error, then those of the second one
  up to its end of file, hands out that error once and after that answers every call with an end of file; skips are passed
  over.
\<close>

theorem Future_Join_concatenates:
  assumes "delivers IsTerminating pf ctx s xs e1 s1" "delivers (\<lambda>e. error_is e EOF) nxt ctx s1 ys e2 s2"
  shows "run_calls (Future_Join zero pf nxt) (replicate (Suc (length xs + length ys) + k) ctx) ((runFirstFunc, [], []), s)
    = Some (map (\<lambda>x. Ret (x, [])) (xs @ ys) @ Ret (zero, e2) # replicate k (Ret (zero, [EOF])), ((eofStage, [], []), s2))"
  using delivers_gives[OF assms(1)] delivers_gives[OF assms(2)] by (rule join_first_runs)

lemma Future_Join_concatenates_witness:
  "run_calls (Future_Join 0 (StaticFuture (0 :: nat) [ErrContainerClosed]) (\<lambda>_ s. Some (Ret (case s of [] \<Rightarrow> (0, [EOF]) | None # xs \<Rightarrow> (0, [ErrCurrentOpSkip]) | Some x # xs \<Rightarrow> (x, [])), tl s)))
     [(), (), (), ()] ((runFirstFunc, [], []), [Some 5, None, Some 7]) = Some ([Ret (5, []), Ret (7, []), Ret (0, [EOF]), Ret (0, [EOF])], ((eofStage, [], []), []))"
proof -
  let ?n = "\<lambda>(_ :: unit) (s :: nat option list). Some (Ret (case s of [] \<Rightarrow> (0, [EOF]) | None # xs \<Rightarrow> (0, [ErrCurrentOpSkip]) | Some x # xs \<Rightarrow> (x, [])), tl s)"
  have 1: "delivers IsTerminating (StaticFuture (0 :: nat) [ErrContainerClosed]) () [Some 5, None, Some 7] [] [ErrContainerClosed] [Some 5, None, Some 7]"
    by (rule delivers_end) (simp_all add: StaticFuture_def act_return_def error_is_def error_is_any_def IsTerminating_def)
  have "delivers (\<lambda>e. error_is e EOF) ?n () [] [] [EOF] []" by (rule delivers_end) (simp_all add: error_is_def)
  then have "delivers (\<lambda>e. error_is e EOF) ?n () [Some 7] [7] [EOF] []" by (rule delivers_value[rotated]) simp
  then have "delivers (\<lambda>e. error_is e EOF) ?n () [None, Some 7] [7] [EOF] []" by (rule delivers_skip[rotated 2]) (simp, simp add: error_is_def)
  then have 2: "delivers (\<lambda>e. error_is e EOF) ?n () [Some 5, None, Some 7] [5, 7] [EOF] []" by (rule delivers_value[rotated]) simp
  show ?thesis using Future_Join_concatenates[OF 1 2, of 0 1] by (simp add: eval_nat_numeral)
qed

text \<open>The reference for a chain of workers: in order, until an error or until the context has expired.\<close>

fun chain :: "('c, 's) context_error \<Rightarrow> ('c, 's) worker list \<Rightarrow> ('c, 's) worker" where
  "chain cerr [] ctx s = Some (Ret [], s)"
| "chain cerr (w # ws) ctx s =
     (case w ctx s of
        None \<Rightarrow> None
      | Some (Pan p, s1) \<Rightarrow> Some (Pan p, s1)
      | Some (Ret e, s1) \<Rightarrow> if e \<noteq> [] \<or> cerr ctx s1 \<noteq> [] then Some (Ret e, s1) else chain cerr ws ctx s1)"

text \<open>
  Joining workers runs them in order and stops at the first error, which is returned, at a panic, or when the context has
  expired, which is no error.
\<close>

theorem Worker_Join_chain: "Worker_Join cerr w ws ctx s = chain cerr (w # ws) ctx s"
proof (induction ws arbitrary: w)
  case Nil
  show ?case by (auto simp: Worker_Join_def split: option.split prod.split ret.split)
next
  case (Cons v ws)
  have "Worker_Join cerr w (v # ws) = Worker_Join cerr (Worker_merge cerr w v) ws" by (simp add: Worker_Join_def)
  then have "Worker_Join cerr w (v # ws) ctx s = chain cerr (Worker_merge cerr w v # ws) ctx s" using Cons.IH by simp
  also have "... = chain cerr (w # v # ws) ctx s"
  proof (cases "w ctx s")
    case (Some rs)
    obtain r s1 where rs: "rs = (r, s1)" by fastforce
    show ?thesis
    proof (cases r)
      case (Ret e)
      then show ?thesis using Some rs
        by (cases "e = []"; cases "cerr ctx s1 = []") (simp_all add: Worker_merge_def act_bind_def Worker_Run_def Worker_If_def act_return_def)
    qed (use Some rs in \<open>simp add: Worker_merge_def act_bind_def\<close>)
  qed (simp add: Worker_merge_def act_bind_def)
  finally show ?case .
qed

text \<open>
  A hook before a handler: when the handler panics, the panic is caught and forgotten, and the result is nil.
\<close>

lemma Handler_PreHook_loses_panic:
  "op ctx s = Some (Ret (), s1) \<Longrightarrow> pf ctx v s1 = Some (Pan p, s2) \<Longrightarrow> Handler_PreHook op pf ctx v s = Some (Ret [], s2)"
  by (simp add: Handler_PreHook_def act_bind_def act_recover_def Operation_WithRecover_def)

text \<open>
  \<open>PostHook\<close> of a worker never panics, runs the hook after the worker whatever the worker did, and returns the
  worker's error and what was recovered from the worker and the hook, in this order.
\<close>

theorem PostHook_recovers:
  assumes "w ctx s = Some (r, s1)" "post s1 = Some (q, s2)"
  shows "Worker_PostHook post w ctx s
    = Some (Ret (concat [case r of Ret e \<Rightarrow> e | Pan p \<Rightarrow> ParsePanic (Some p), ParsePanic (case q of Ret _ \<Rightarrow> None | Pan p \<Rightarrow> Some p)]), s2)"
  using assms by (cases r; cases q) (simp_all add: Worker_PostHook_def act_bind_def act_recover_def Worker_WithRecover_def join_errors_def)

lemma PostHook_recovers_witness:
  "Worker_PostHook (\<lambda>s. Some (Pan (PanString ''b''), s + 1)) (\<lambda>_ s. Some (Pan (PanString ''a''), s * 2)) () (3 :: int)
    = Some (Ret [TextError ''a'', ErrRecoveredPanic, TextError ''b'', ErrRecoveredPanic], 7)"
  using PostHook_recovers[of "\<lambda>_ s. Some (Pan (PanString ''a''), s * 2)" "()" "3 :: int" "Pan (PanString ''a'')" 6 "\<lambda>s. Some (Pan (PanString ''b''), s + 1)" "Pan (PanString ''b'')" 7]
  by (simp add: join_errors_def)

end
