(* ===== verification/SrvService.thy ===== *)
theory SrvService
  imports FnxCore "HOL-Library.Sublist"
begin

text \<open>
  The life of a service of \<open>src/srv/service.go\<close>: calls of \<open>Start\<close>, the body that the first of them runs under
  \<open>sync.Once\<close>, the three goroutines that it starts, \<open>Close\<close> and the cancellation of the context.  A step is one
  access to shared state: an atomic flag, a channel, the collector, the wait group.  What the functions of the service
  return or panic with is part of the step.  The last field records what has happened.
\<close>

subsection \<open>State\<close>

datatype start_pc = StIdle | StChecked | StUnstarted | StOnce | StReturned "string option"

text \<open>The body of the once, the goroutine of the error handler, that of the shutdown, and the main one.\<close>

datatype body_pc = BNew | BHandler | BContext | BShutdown | BMain | BStarted | BRunning | BDone
datatype handler_pc = HNone | HMain | HSignal | HCall | HExit | HDone
datatype shutdown_pc = SNone | SSelect | SCall error | SClose | SExit | SDone
datatype main_pc = MNone | MRun | MCancel "pval option" | MRecover "pval option" | MWait | MCleanup | MFinished | MStopped | MClose | MExit | MDone

text \<open>What has happened: the end of a function with what it returned or panicked with, and for the handler the error it was given.\<close>

datatype event = RunDone "error ret" | ShutdownDone error "error ret" | CleanupDone "error ret" | Handled error "unit ret"

record service =
  sv_hasCleanup :: bool
  sv_hasShutdown :: bool
  sv_handler :: bool
  isRunning :: bool
  isFinished :: bool
  isStarted :: bool
  sv_cancel :: bool
  sv_cancelled :: bool
  sv_ec :: error
  sv_wg :: int
  mainSignal :: bool
  ehSignal :: bool
  shutdownSignal :: bool
  sv_starts :: "nat \<Rightarrow> start_pc"
  sv_body :: body_pc
  sv_eh :: handler_pc
  sv_sd :: shutdown_pc
  sv_main :: main_pc
  sv_log :: "event list"

definition new_service :: "bool \<Rightarrow> bool \<Rightarrow> service" where
  "new_service cleanup shutdown =
     \<lparr>sv_hasCleanup = cleanup, sv_hasShutdown = shutdown, sv_handler = False, isRunning = False, isFinished = False,
      isStarted = False, sv_cancel = False, sv_cancelled = False, sv_ec = [], sv_wg = 0, mainSignal = False, ehSignal = False,
      shutdownSignal = False, sv_starts = (\<lambda>_. StIdle), sv_body = BNew, sv_eh = HNone, sv_sd = SNone, sv_main = MNone, sv_log = []\<rparr>"

definition ec_Push :: "error \<Rightarrow> service \<Rightarrow> service" where "ec_Push e s = s\<lparr>sv_ec := sv_ec s @ e\<rparr>"
definition ec_Recover :: "pval option \<Rightarrow> service \<Rightarrow> service" where "ec_Recover p = ec_Push (ParsePanic p)"
definition log_event :: "event \<Rightarrow> service \<Rightarrow> service" where "log_event e s = s\<lparr>sv_log := sv_log s @ [e]\<rparr>"

definition WithoutContext :: "error \<Rightarrow> error" where "WithoutContext e = (if IsExpiredContext e then [] else e)"

subsection \<open>Starting\<close>

text \<open>A call of \<open>Start\<close>: three checks, then the once, which lets one caller run the body and the others wait for it.\<close>

fun start_step :: "nat \<Rightarrow> service \<Rightarrow> service option" where
  "start_step i s =
     (let go = (\<lambda>pc s. Some (s\<lparr>sv_starts := (sv_starts s)(i := pc)\<rparr>)) in
      case sv_starts s i of
        StIdle \<Rightarrow> if isFinished s then go (StReturned (Some ''service returned'')) s else go StChecked s
      | StChecked \<Rightarrow> if isStarted s then go (StReturned (Some ''service already started'')) s else go StUnstarted s
      | StUnstarted \<Rightarrow> if isRunning s then go (StReturned (Some ''service already started'')) s else go StOnce (s\<lparr>isRunning := True\<rparr>)
      | StOnce \<Rightarrow> if sv_body s = BNew then Some (s\<lparr>sv_body := BHandler\<rparr>)
                  else if sv_body s = BDone then go (StReturned None) s else None
      | StReturned _ \<Rightarrow> None)"

fun body_step :: "service \<Rightarrow> service option" where
  "body_step s =
     (case sv_body s of
        BHandler \<Rightarrow> Some (s\<lparr>sv_wg := sv_wg s + 1, sv_eh := HMain, sv_body := BContext\<rparr>)
      | BContext \<Rightarrow> Some (s\<lparr>sv_cancel := True, sv_body := BShutdown\<rparr>)
      | BShutdown \<Rightarrow> Some (s\<lparr>sv_wg := sv_wg s + 1, sv_sd := SSelect, sv_body := BMain\<rparr>)
      | BMain \<Rightarrow> Some (s\<lparr>sv_wg := sv_wg s + 1, sv_main := MRun, sv_body := BStarted\<rparr>)
      | BStarted \<Rightarrow> Some (s\<lparr>isStarted := True, sv_body := BRunning\<rparr>)
      | BRunning \<Rightarrow> Some (s\<lparr>isRunning := True, sv_body := BDone\<rparr>)
      | _ \<Rightarrow> None)"

subsection \<open>The goroutines\<close>

text \<open>The one that calls the error handler; a panic of the handler is collected.\<close>

fun handler_step :: "unit ret \<Rightarrow> service \<Rightarrow> service option" where
  "handler_step r s =
     (case sv_eh s of
        HMain \<Rightarrow> if mainSignal s then Some (s\<lparr>sv_eh := HSignal\<rparr>) else None
      | HSignal \<Rightarrow> if ehSignal s then Some (s\<lparr>sv_eh := if sv_handler s then HCall else HExit\<rparr>) else None
      | HCall \<Rightarrow> if sv_ec s = [] then Some (s\<lparr>sv_eh := HExit\<rparr>)
                 else Some (ec_Recover (case r of Ret _ \<Rightarrow> None | Pan p \<Rightarrow> Some p) (log_event (Handled (sv_ec s) r) (s\<lparr>sv_eh := HExit\<rparr>)))
      | HExit \<Rightarrow> Some (s\<lparr>sv_wg := sv_wg s - 1, sv_eh := HDone\<rparr>)
      | _ \<Rightarrow> None)"

text \<open>
  The one of the shutdown function.  It waits for the signal of the service, which may come at any time with any
  error, or for the end of the context.
\<close>

fun shutdown_step :: "error option \<Rightarrow> error ret \<Rightarrow> service \<Rightarrow> service option" where
  "shutdown_step sig r s =
     (case sv_sd s of
        SSelect \<Rightarrow> (case sig of
                      Some e \<Rightarrow> Some (s\<lparr>sv_sd := SCall e\<rparr>)
                    | None \<Rightarrow> if sv_cancelled s then Some (s\<lparr>sv_sd := SCall []\<rparr>) else None)
      | SCall e \<Rightarrow> let out = (if sv_hasShutdown s then r else Ret []) in Some (log_event (ShutdownDone e out) (case out of
                      Ret e2 \<Rightarrow> ec_Push (WithoutContext e @ WithoutContext e2) (s\<lparr>sv_sd := SClose\<rparr>)
                    | Pan p \<Rightarrow> ec_Recover (Some p) (s\<lparr>sv_sd := SClose\<rparr>)))
      | SClose \<Rightarrow> Some (s\<lparr>shutdownSignal := True, sv_sd := SExit\<rparr>)
      | SExit \<Rightarrow> Some (s\<lparr>sv_wg := sv_wg s - 1, sv_sd := SDone\<rparr>)
      | _ \<Rightarrow> None)"

text \<open>The main one: the deferred functions run from the last one registered to the first.\<close>

fun main_step :: "error ret \<Rightarrow> service \<Rightarrow> service option" where
  "main_step r s =
     (case sv_main s of
        MRun \<Rightarrow> Some (log_event (RunDone r) (case r of
                   Ret e \<Rightarrow> ec_Push e (s\<lparr>sv_main := MCancel None\<rparr>)
                 | Pan p \<Rightarrow> s\<lparr>sv_main := MCancel (Some p)\<rparr>))
      | MCancel p \<Rightarrow> Some (s\<lparr>sv_cancelled := True, sv_main := MRecover p\<rparr>)
      | MRecover p \<Rightarrow> Some (ec_Recover p (s\<lparr>sv_main := MWait\<rparr>))
      | MWait \<Rightarrow> if shutdownSignal s
                 then Some (s\<lparr>ehSignal := True, sv_main := if sv_hasCleanup s then MCleanup else MFinished\<rparr>) else None
      | MCleanup \<Rightarrow> Some (log_event (CleanupDone r) (case r of
                   Ret e \<Rightarrow> ec_Push e (s\<lparr>sv_main := MFinished\<rparr>)
                 | Pan p \<Rightarrow> ec_Recover (Some p) (s\<lparr>sv_main := MFinished\<rparr>)))
      | MFinished \<Rightarrow> Some (s\<lparr>isFinished := True, sv_main := MStopped\<rparr>)
      | MStopped \<Rightarrow> Some (s\<lparr>isRunning := False, sv_main := MClose\<rparr>)
      | MClose \<Rightarrow> Some (s\<lparr>mainSignal := True, sv_main := MExit\<rparr>)
      | MExit \<Rightarrow> Some (s\<lparr>sv_wg := sv_wg s - 1, sv_main := MDone\<rparr>)
      | _ \<Rightarrow> None)"

subsection \<open>Clients\<close>

definition Service_Running :: "service \<Rightarrow> bool" where "Service_Running s = isRunning s"

definition Service_Close :: "service \<Rightarrow> service" where
  "Service_Close s = (if isRunning s \<and> sv_cancel s then s\<lparr>sv_cancelled := True\<rparr> else s)"

text \<open>What \<open>Wait\<close> returns in a state: nothing as long as it blocks.\<close>

definition Service_waitFor :: "service \<Rightarrow> (string + error) option" where
  "Service_waitFor s =
     (if isFinished s then Some (Inr (sv_ec s))
      else if \<not> isStarted s then Some (Inl ''service not started'')
      else if sv_wg s = 0 then Some (Inr (sv_ec s)) else None)"

datatype service_act = AStart nat | ABody | AHandler "unit ret" | AShutdown "error option" "error ret" | AMain "error ret"
  | AClose | ACancel | ASetHandler bool

fun service_do :: "service_act \<Rightarrow> service \<Rightarrow> service option" where
  "service_do (AStart i) s = start_step i s"
| "service_do ABody s = body_step s"
| "service_do (AHandler r) s = handler_step r s"
| "service_do (AShutdown sig r) s = shutdown_step sig r s"
| "service_do (AMain r) s = main_step r s"
| "service_do AClose s = Some (Service_Close s)"
| "service_do ACancel s = Some (if sv_cancel s then s\<lparr>sv_cancelled := True\<rparr> else s)"
| "service_do (ASetHandler b) s = Some (s\<lparr>sv_handler := b\<rparr>)"

fun service_run :: "service_act list \<Rightarrow> service \<Rightarrow> service option" where
  "service_run [] s = Some s"
| "service_run (a # as) s = (case service_do a s of None \<Rightarrow> None | Some s1 \<Rightarrow> service_run as s1)"

inductive service_reach :: "bool \<Rightarrow> bool \<Rightarrow> service \<Rightarrow> bool" for c sd where
  reach_new: "service_reach c sd (new_service c sd)"
| reach_step: "service_reach c sd s \<Longrightarrow> service_do a s = Some s1 \<Longrightarrow> service_reach c sd s1"

end
