(* ===== verification/SrvProps.thy ===== *)
theory SrvProps
  imports SrvService "HOL-Library.Multiset"
begin

text \<open>
  The order of what a service does, the count of its goroutines, the end of every run, and a state that \<open>Running\<close>
  reports wrongly.
\<close>

subsection \<open>The invariant\<close>

fun body_num :: "body_pc \<Rightarrow> nat" where
  "body_num BNew = 0" | "body_num BHandler = 1" | "body_num BContext = 2" | "body_num BShutdown = 3" | "body_num BMain = 4"
| "body_num BStarted = 5" | "body_num BRunning = 6" | "body_num BDone = 7"

fun main_num :: "main_pc \<Rightarrow> nat" where
  "main_num MNone = 0" | "main_num MRun = 1" | "main_num (MCancel _) = 2" | "main_num (MRecover _) = 3" | "main_num MWait = 4"
| "main_num MCleanup = 5" | "main_num MFinished = 6" | "main_num MStopped = 7" | "main_num MClose = 8" | "main_num MExit = 9" | "main_num MDone = 10"

fun shutdown_num :: "shutdown_pc \<Rightarrow> nat" where
  "shutdown_num SNone = 0" | "shutdown_num SSelect = 1" | "shutdown_num (SCall _) = 2" | "shutdown_num SClose = 3" | "shutdown_num SExit = 4" | "shutdown_num SDone = 5"

fun handler_num :: "handler_pc \<Rightarrow> nat" where
  "handler_num HNone = 0" | "handler_num HMain = 1" | "handler_num HSignal = 2" | "handler_num HCall = 3" | "handler_num HExit = 4" | "handler_num HDone = 5"

text \<open>A goroutine that has been started and has not ended.\<close>

definition alive :: "nat \<Rightarrow> nat \<Rightarrow> int" where "alive n last_pc = (if 0 < n \<and> n < last_pc then 1 else 0)"

definition live :: "service \<Rightarrow> int" where
  "live s = alive (handler_num (sv_eh s)) 5 + alive (shutdown_num (sv_sd s)) 5 + alive (main_num (sv_main s)) 10"

lemma alive_simps [simp]: "alive 0 k = 0" "alive (Suc n) k = (if Suc n < k then 1 else 0)" "alive (numeral v) k = (if numeral v < k then 1 else 0)"
  by (simp_all add: alive_def)

text \<open>Where the goroutines are, given the channels and flags.\<close>

definition pcs_ok :: "service \<Rightarrow> bool" where
  "pcs_ok s \<longleftrightarrow>
     (0 < handler_num (sv_eh s) \<longleftrightarrow> 2 \<le> body_num (sv_body s)) \<and> (0 < shutdown_num (sv_sd s) \<longleftrightarrow> 4 \<le> body_num (sv_body s))
   \<and> (0 < main_num (sv_main s) \<longleftrightarrow> 5 \<le> body_num (sv_body s)) \<and> (isStarted s \<longleftrightarrow> 6 \<le> body_num (sv_body s))
   \<and> (shutdownSignal s \<longleftrightarrow> 4 \<le> shutdown_num (sv_sd s)) \<and> (ehSignal s \<longleftrightarrow> 5 \<le> main_num (sv_main s))
   \<and> (mainSignal s \<longleftrightarrow> 9 \<le> main_num (sv_main s)) \<and> (isFinished s \<longleftrightarrow> 7 \<le> main_num (sv_main s))
   \<and> (5 \<le> main_num (sv_main s) \<longrightarrow> 4 \<le> shutdown_num (sv_sd s)) \<and> (2 \<le> handler_num (sv_eh s) \<longrightarrow> 9 \<le> main_num (sv_main s))
   \<and> (3 \<le> main_num (sv_main s) \<longrightarrow> sv_cancelled s) \<and> (sv_main s = MCleanup \<longrightarrow> sv_hasCleanup s)
   \<and> sv_wg s = live s"

text \<open>The functions of the service in the record.\<close>

datatype srv_phase = PRun | PShutdown | PCleanup | PHandler

fun phase :: "event \<Rightarrow> srv_phase" where
  "phase (RunDone _) = PRun" | "phase (ShutdownDone _ _) = PShutdown" | "phase (CleanupDone _) = PCleanup" | "phase (Handled _ _) = PHandler"

definition phases :: "service \<Rightarrow> srv_phase list" where "phases s = map phase (sv_log s)"

text \<open>
  The errors that a function leaves behind: those it returns, the one of its panic; for the shutdown those of the signal and its own
  without an end of a context.
\<close>

definition panic_error :: "'a ret \<Rightarrow> error" where "panic_error r = (case r of Ret _ \<Rightarrow> [] | Pan p \<Rightarrow> ParsePanic (Some p))"
definition no_context :: "error \<Rightarrow> error" where "no_context e = (if Canceled \<in> set e \<or> DeadlineExceeded \<in> set e then [] else e)"

fun event_errors :: "event \<Rightarrow> error" where
  "event_errors (RunDone r) = (case r of Ret e \<Rightarrow> e | Pan p \<Rightarrow> ParsePanic (Some p))"
| "event_errors (ShutdownDone sig r) = (case r of Ret e \<Rightarrow> no_context sig @ no_context e | Pan p \<Rightarrow> ParsePanic (Some p))"
| "event_errors (CleanupDone r) = (case r of Ret e \<Rightarrow> e | Pan p \<Rightarrow> ParsePanic (Some p))"
| "event_errors (Handled _ r) = panic_error r"

definition all_errors :: "event list \<Rightarrow> error" where "all_errors evs = concat (map event_errors evs)"

lemma WithoutContext_no_context: "WithoutContext e = no_context e"
  by (simp add: WithoutContext_def no_context_def IsExpiredContext_def error_is_any_def error_is_def)

text \<open>A panic of Run that is not collected yet.\<close>

fun pending :: "main_pc \<Rightarrow> error" where
  "pending (MCancel p) = ParsePanic p" | "pending (MRecover p) = ParsePanic p" | "pending _ = []"

definition log_ok :: "service \<Rightarrow> bool" where
  "log_ok s \<longleftrightarrow>
     (PRun \<in> set (phases s) \<longleftrightarrow> 2 \<le> main_num (sv_main s)) \<and> (PShutdown \<in> set (phases s) \<longleftrightarrow> 3 \<le> shutdown_num (sv_sd s))
   \<and> (PCleanup \<in> set (phases s) \<longleftrightarrow> 6 \<le> main_num (sv_main s) \<and> sv_hasCleanup s) \<and> (PHandler \<in> set (phases s) \<longrightarrow> 4 \<le> handler_num (sv_eh s))"

text \<open>Every error of the record is collected, or pending; after the call of the handler nothing but its panic.\<close>

definition errors_ok :: "service \<Rightarrow> bool" where
  "errors_ok s \<longleftrightarrow> mset (all_errors (sv_log s)) = mset (sv_ec s) + mset (pending (sv_main s))
   \<and> (\<forall>e r. Handled e r \<in> set (sv_log s) \<longrightarrow> 4 \<le> handler_num (sv_eh s) \<and> e \<noteq> [] \<and> sv_ec s = e @ panic_error r)"

lemma init_ok: "pcs_ok (new_service c sd)" "log_ok (new_service c sd)" "errors_ok (new_service c sd)"
  by (simp_all add: pcs_ok_def log_ok_def errors_ok_def phases_def all_errors_def new_service_def live_def)

lemmas push_defs = ec_Push_def ec_Recover_def log_event_def

lemma ec_fields [simp]:
  "sv_ec (ec_Push e s) = sv_ec s @ e" "sv_ec (log_event v s) = sv_ec s" "sv_log (ec_Push e s) = sv_log s" "sv_log (log_event v s) = sv_log s @ [v]"
  by (simp_all add: push_defs)

text \<open>A call of \<open>Start\<close> touches its own counter, the running flag and the start of the body.\<close>

lemma start_frame:
  assumes "start_step i s = Some s1"
  shows "\<exists>f r b. s1 = s\<lparr>sv_starts := f, isRunning := r, sv_body := b\<rparr> \<and> (b = sv_body s \<or> sv_body s = BNew \<and> b = BHandler)"
proof (cases "sv_starts s i")
  case StOnce
  show ?thesis
  proof (cases "sv_body s = BNew")
    case True
    then have "s1 = s\<lparr>sv_starts := sv_starts s, isRunning := isRunning s, sv_body := BHandler\<rparr>" using StOnce assms by simp
    then show ?thesis using True by blast
  next
    case False
    then have "s1 = s\<lparr>sv_starts := (sv_starts s)(i := StReturned None), isRunning := isRunning s, sv_body := sv_body s\<rparr>"
      using StOnce assms by (simp add: Let_def split: if_splits)
    then show ?thesis by blast
  qed
next
  case StIdle
  then have "\<exists>pc. s1 = s\<lparr>sv_starts := (sv_starts s)(i := pc), isRunning := isRunning s, sv_body := sv_body s\<rparr>"
    using assms by (simp add: Let_def split: if_splits) blast+
  then show ?thesis by blast
next
  case StChecked
  then have "\<exists>pc. s1 = s\<lparr>sv_starts := (sv_starts s)(i := pc), isRunning := isRunning s, sv_body := sv_body s\<rparr>"
    using assms by (simp add: Let_def split: if_splits) blast+
  then show ?thesis by blast
next
  case StUnstarted
  show ?thesis
  proof (cases "isRunning s")
    case True
    then have "s1 = s\<lparr>sv_starts := (sv_starts s)(i := StReturned (Some ''service already started'')), isRunning := isRunning s, sv_body := sv_body s\<rparr>"
      using StUnstarted assms by auto
    then show ?thesis by blast
  next
    case False
    then have "s1 = s\<lparr>sv_starts := (sv_starts s)(i := StOnce), isRunning := True, sv_body := sv_body s\<rparr>"
      using StUnstarted assms by auto
    then show ?thesis by blast
  qed
qed (use assms in simp)

lemma start_keeps:
  assumes "start_step i s = Some s1"
  shows "pcs_ok s1 = pcs_ok s" "log_ok s1 = log_ok s" "errors_ok s1 = errors_ok s"
proof -
  obtain f r b where s1: "s1 = s\<lparr>sv_starts := f, isRunning := r, sv_body := b\<rparr>" "b = sv_body s \<or> sv_body s = BNew \<and> b = BHandler"
    using start_frame[OF assms] by blast
  show "pcs_ok s1 = pcs_ok s" "log_ok s1 = log_ok s" "errors_ok s1 = errors_ok s"
    using s1(2) unfolding s1(1) by (elim disjE conjE; simp add: pcs_ok_def live_def log_ok_def phases_def errors_ok_def)+
qed

lemma pcs_step: "service_do a s = Some s1 \<Longrightarrow> pcs_ok s \<Longrightarrow> pcs_ok s1"
proof (cases a)
  case (AStart i)
  then show "service_do a s = Some s1 \<Longrightarrow> pcs_ok s \<Longrightarrow> pcs_ok s1" using start_keeps[of i s s1] by simp
next
  case ABody
  then show "service_do a s = Some s1 \<Longrightarrow> pcs_ok s \<Longrightarrow> pcs_ok s1"
    by (cases "sv_body s"; clarsimp simp: pcs_ok_def live_def)
next
  case (AHandler r)
  then show "service_do a s = Some s1 \<Longrightarrow> pcs_ok s \<Longrightarrow> pcs_ok s1"
    by (cases "sv_eh s"; clarsimp simp: pcs_ok_def live_def push_defs split: if_splits)
next
  case (AShutdown sig r)
  then show "service_do a s = Some s1 \<Longrightarrow> pcs_ok s \<Longrightarrow> pcs_ok s1"
    by (cases "sv_sd s"; cases sig; cases r; clarsimp simp: pcs_ok_def live_def push_defs split: if_splits)
next
  case (AMain r)
  then show "service_do a s = Some s1 \<Longrightarrow> pcs_ok s \<Longrightarrow> pcs_ok s1"
    by (cases "sv_main s"; cases r; clarsimp simp: pcs_ok_def live_def push_defs split: if_splits)
qed (clarsimp simp: pcs_ok_def live_def Service_Close_def split: if_splits)+

lemma log_step: "service_do a s = Some s1 \<Longrightarrow> pcs_ok s \<Longrightarrow> log_ok s \<Longrightarrow> log_ok s1"
proof (cases a)
  case (AStart i)
  then show "service_do a s = Some s1 \<Longrightarrow> pcs_ok s \<Longrightarrow> log_ok s \<Longrightarrow> log_ok s1" using start_keeps[of i s s1] by simp
next
  case ABody
  then show "service_do a s = Some s1 \<Longrightarrow> pcs_ok s \<Longrightarrow> log_ok s \<Longrightarrow> log_ok s1"
    by (cases "sv_body s"; clarsimp simp: log_ok_def phases_def pcs_ok_def)
next
  case (AHandler r)
  then show "service_do a s = Some s1 \<Longrightarrow> pcs_ok s \<Longrightarrow> log_ok s \<Longrightarrow> log_ok s1"
    by (cases "sv_eh s"; clarsimp simp: log_ok_def phases_def push_defs Let_def split: if_splits)
next
  case (AShutdown sig r)
  then show "service_do a s = Some s1 \<Longrightarrow> pcs_ok s \<Longrightarrow> log_ok s \<Longrightarrow> log_ok s1"
    by (cases "sv_sd s"; cases sig; cases r; clarsimp simp: log_ok_def phases_def push_defs Let_def split: if_splits)
next
  case (AMain r)
  then show "service_do a s = Some s1 \<Longrightarrow> pcs_ok s \<Longrightarrow> log_ok s \<Longrightarrow> log_ok s1"
    by (cases "sv_main s"; cases r; clarsimp simp: log_ok_def phases_def pcs_ok_def push_defs Let_def split: if_splits)
qed (clarsimp simp: log_ok_def phases_def Service_Close_def split: if_splits)+

lemma main_not_started: "main_num m = 0 \<Longrightarrow> pending m = []"
  by (cases m) simp_all

lemma errors_same:
  "errors_ok s \<Longrightarrow> sv_log s1 = sv_log s \<Longrightarrow> sv_ec s1 = sv_ec s \<Longrightarrow> pending (sv_main s1) = pending (sv_main s) \<Longrightarrow> handler_num (sv_eh s) \<le> handler_num (sv_eh s1) \<Longrightarrow> errors_ok s1"
  unfolding errors_ok_def by (metis order_trans)

text \<open>As long as the handler has not been called: what is logged is collected, or waits.\<close>

lemma errors_new:
  assumes "errors_ok s" "handler_num (sv_eh s) < 4" "sv_log s1 = sv_log s @ evs" "\<forall>e r. Handled e r \<notin> set evs"
    "mset (all_errors evs) + mset (pending (sv_main s)) + mset (sv_ec s) = mset (sv_ec s1) + mset (pending (sv_main s1))"
  shows "errors_ok s1"
proof -
  have "mset (all_errors (sv_log s1)) = mset (all_errors evs) + (mset (sv_ec s) + mset (pending (sv_main s)))"
    using assms(1,3) by (simp add: errors_ok_def all_errors_def)
  also have "\<dots> = mset (sv_ec s1) + mset (pending (sv_main s1))" using assms(5) by (simp add: ac_simps)
  finally show ?thesis using assms(1-4) by (auto simp: errors_ok_def)
qed

lemma main_errors: "main_step r s = Some s1 \<Longrightarrow> errors_ok s \<Longrightarrow> handler_num (sv_eh s) < 4 \<or> 9 \<le> main_num (sv_main s) \<Longrightarrow> errors_ok s1"
proof (cases "sv_main s")
  case MRun
  assume a: "main_step r s = Some s1" "errors_ok s" "handler_num (sv_eh s) < 4 \<or> 9 \<le> main_num (sv_main s)"
  show ?thesis by (rule errors_new[of s s1 "[RunDone r]"]; use a MRun in \<open>cases r; auto simp: push_defs all_errors_def\<close>)
next
  case (MRecover p)
  assume a: "main_step r s = Some s1" "errors_ok s" "handler_num (sv_eh s) < 4 \<or> 9 \<le> main_num (sv_main s)"
  show ?thesis by (rule errors_new[of s s1 "[]"]; use a MRecover in \<open>auto simp: push_defs all_errors_def\<close>)
next
  case MCleanup
  assume a: "main_step r s = Some s1" "errors_ok s" "handler_num (sv_eh s) < 4 \<or> 9 \<le> main_num (sv_main s)"
  show ?thesis by (rule errors_new[of s s1 "[CleanupDone r]"]; use a MCleanup in \<open>cases r; auto simp: push_defs all_errors_def\<close>)
qed (rule errors_same; auto split: if_splits)+

lemma shutdown_errors: "shutdown_step sig r s = Some s1 \<Longrightarrow> errors_ok s \<Longrightarrow> handler_num (sv_eh s) < 4 \<or> 4 \<le> shutdown_num (sv_sd s) \<Longrightarrow> errors_ok s1"
proof (cases "sv_sd s")
  case (SCall e)
  assume a: "shutdown_step sig r s = Some s1" "errors_ok s" "handler_num (sv_eh s) < 4 \<or> 4 \<le> shutdown_num (sv_sd s)"
  show ?thesis
    by (rule errors_new[of s s1 "[ShutdownDone e (if sv_hasShutdown s then r else Ret [])]"]; use a SCall in
      \<open>cases r; auto simp: push_defs all_errors_def Let_def WithoutContext_no_context no_context_def\<close>)
qed (rule errors_same; auto split: if_splits option.splits)+

lemma handler_errors: "handler_step r s = Some s1 \<Longrightarrow> errors_ok s \<Longrightarrow> sv_eh s = HCall \<longrightarrow> pending (sv_main s) = [] \<Longrightarrow> errors_ok s1"
proof (cases "sv_eh s = HCall \<and> sv_ec s \<noteq> []")
  case True
  assume a: "handler_step r s = Some s1" "errors_ok s" "sv_eh s = HCall \<longrightarrow> pending (sv_main s) = []"
  have s1: "sv_log s1 = sv_log s @ [Handled (sv_ec s) r]" "sv_ec s1 = sv_ec s @ panic_error r" "sv_main s1 = sv_main s" "sv_eh s1 = HExit"
    using a(1) True by (auto simp: push_defs panic_error_def split: ret.splits)
  have "\<forall>e r. Handled e r \<notin> set (sv_log s)" using a(2) True by (auto simp: errors_ok_def)
  moreover have "mset (all_errors (sv_log s)) = mset (sv_ec s)" using a(2,3) True by (simp add: errors_ok_def)
  ultimately show ?thesis using a(3) True by (auto simp: errors_ok_def s1 all_errors_def)
next
  case False
  assume a: "handler_step r s = Some s1" "errors_ok s"
  show ?thesis by (rule errors_same[OF a(2)]; use a(1) False in \<open>cases "sv_eh s"; auto split: if_splits\<close>)
qed

lemma errors_step: "service_do a s = Some s1 \<Longrightarrow> pcs_ok s \<Longrightarrow> errors_ok s \<Longrightarrow> errors_ok s1"
proof (cases a)
  case (AStart i)
  then show "service_do a s = Some s1 \<Longrightarrow> pcs_ok s \<Longrightarrow> errors_ok s \<Longrightarrow> errors_ok s1" using start_keeps[of i s s1] by simp
next
  case ABody
  assume a: "service_do a s = Some s1" "pcs_ok s" "errors_ok s"
  have m: "sv_body s = BMain \<Longrightarrow> pending (sv_main s) = []" "sv_body s = BHandler \<Longrightarrow> handler_num (sv_eh s) = 0"
    using a(2) main_not_started[of "sv_main s"] by (auto simp: pcs_ok_def)
  show ?thesis by (rule errors_same[OF a(3)]; use a(1) ABody m in \<open>cases "sv_body s"; auto\<close>)
next
  case (AHandler r)
  assume a: "service_do a s = Some s1" "pcs_ok s" "errors_ok s"
  have "pending (sv_main s) = []" if "sv_eh s = HCall"
    using a(2) that by (cases "sv_main s") (simp_all add: pcs_ok_def)
  then show ?thesis using a(1,3) AHandler handler_errors[of r s s1] by simp
next
  case (AShutdown sig r)
  assume a: "service_do a s = Some s1" "pcs_ok s" "errors_ok s"
  have "handler_num (sv_eh s) < 4 \<or> 4 \<le> shutdown_num (sv_sd s)" using a(2) unfolding pcs_ok_def by linarith
  then show ?thesis using a(1,3) AShutdown shutdown_errors[of sig r s s1] by simp
next
  case (AMain r)
  assume a: "service_do a s = Some s1" "pcs_ok s" "errors_ok s"
  have "handler_num (sv_eh s) < 4 \<or> 9 \<le> main_num (sv_main s)" using a(2) unfolding pcs_ok_def by linarith
  then show ?thesis using a(1,3) AMain main_errors[of r s s1] by simp
next
  case AClose
  assume a: "service_do a s = Some s1" "pcs_ok s" "errors_ok s"
  show ?thesis by (rule errors_same[OF a(3)]; use a(1) AClose in \<open>auto simp: Service_Close_def split: if_splits\<close>)
next
  case ACancel
  assume a: "service_do a s = Some s1" "pcs_ok s" "errors_ok s"
  show ?thesis by (rule errors_same[OF a(3)]; use a(1) ACancel in \<open>auto split: if_splits\<close>)
next
  case (ASetHandler b)
  assume a: "service_do a s = Some s1" "pcs_ok s" "errors_ok s"
  show ?thesis by (rule errors_same[OF a(3)]; use a(1) ASetHandler in auto)
qed

lemma reach_ok: "service_reach c sd s \<Longrightarrow> pcs_ok s \<and> log_ok s \<and> errors_ok s"
  by (induction rule: service_reach.induct) (use init_ok pcs_step log_step errors_step in blast)+

subsection \<open>Order\<close>

text \<open>The cleanup comes after the run and the shutdown, and the error handler comes last; each happens once.\<close>

definition ordered_phases :: "bool \<Rightarrow> srv_phase list \<Rightarrow> bool" where
  "ordered_phases c l \<longleftrightarrow> distinct l
   \<and> (\<forall>a b. l = a @ PCleanup # b \<longrightarrow> PRun \<in> set a \<and> PShutdown \<in> set a)
   \<and> (\<forall>a b. l = a @ PHandler # b \<longrightarrow> b = [] \<and> PRun \<in> set a \<and> PShutdown \<in> set a \<and> (c \<longrightarrow> PCleanup \<in> set a))"

lemma ordered_phases_snoc:
  assumes "ordered_phases c l" "v \<notin> set l" "PHandler \<notin> set l" "v = PCleanup \<Longrightarrow> PRun \<in> set l \<and> PShutdown \<in> set l"
    "v = PHandler \<Longrightarrow> PRun \<in> set l \<and> PShutdown \<in> set l \<and> (c \<longrightarrow> PCleanup \<in> set l)"
  shows "ordered_phases c (l @ [v])"
proof -
  have "PRun \<in> set a \<and> PShutdown \<in> set a" if e: "l @ [v] = a @ PCleanup # b" for a b
  proof (cases b rule: rev_cases)
    case Nil
    then show ?thesis using e assms(4) by simp
  next
    case (snoc b' x)
    then have "l = a @ PCleanup # b'" using e by simp
    then show ?thesis using assms(1) by (auto simp: ordered_phases_def)
  qed
  moreover have "b = [] \<and> PRun \<in> set a \<and> PShutdown \<in> set a \<and> (c \<longrightarrow> PCleanup \<in> set a)" if e: "l @ [v] = a @ PHandler # b" for a b
  proof (cases b rule: rev_cases)
    case Nil
    then show ?thesis using e assms(5) by simp
  next
    case (snoc b' y)
    then have "PHandler \<in> set l" using e by simp
    then show ?thesis using assms(3) by blast
  qed
  moreover have "distinct (l @ [v])" using assms(1,2) by (simp add: ordered_phases_def)
  ultimately show ?thesis unfolding ordered_phases_def by blast
qed

text \<open>What a step adds to the record.\<close>

lemma step_phases:
  assumes "service_do a s = Some s1"
  shows "sv_hasCleanup s1 = sv_hasCleanup s \<and> (phases s1 = phases s
    \<or> sv_main s = MRun \<and> phases s1 = phases s @ [PRun] \<or> (\<exists>e. sv_sd s = SCall e) \<and> phases s1 = phases s @ [PShutdown]
    \<or> sv_main s = MCleanup \<and> phases s1 = phases s @ [PCleanup] \<or> sv_eh s = HCall \<and> phases s1 = phases s @ [PHandler])"
proof (cases a)
  case (AStart i)
  then show ?thesis using assms start_frame[of i s s1] by (auto simp: phases_def)
next
  case ABody
  then show ?thesis using assms by (cases "sv_body s"; clarsimp simp: phases_def)
next
  case (AHandler r)
  then show ?thesis using assms by (cases "sv_eh s"; clarsimp simp: phases_def push_defs split: if_splits)
next
  case (AShutdown sig r)
  then show ?thesis using assms by (cases "sv_sd s"; cases sig; cases r; clarsimp simp: phases_def push_defs Let_def split: if_splits)
next
  case (AMain r)
  then show ?thesis using assms by (cases "sv_main s"; cases r; clarsimp simp: phases_def push_defs split: if_splits)
qed (use assms in \<open>auto simp: phases_def Service_Close_def split: if_splits\<close>)

lemma reach_ordered: "service_reach c sd s \<Longrightarrow> sv_hasCleanup s = c \<and> ordered_phases c (phases s)"
proof (induction rule: service_reach.induct)
  case reach_new
  show ?case by (simp add: new_service_def phases_def ordered_phases_def)
next
  case (reach_step s a s1)
  have ok: "pcs_ok s" "log_ok s" using reach_ok[OF reach_step.hyps(1)] by auto
  have c: "sv_hasCleanup s = c" "ordered_phases c (phases s)" using reach_step.IH by auto
  have h: "handler_num (sv_eh s) < 4 \<Longrightarrow> PHandler \<notin> set (phases s)" using ok(2) by (auto simp: log_ok_def)
  have early: "main_num (sv_main s) < 9 \<Longrightarrow> handler_num (sv_eh s) < 4" using ok(1) unfolding pcs_ok_def by linarith
  from step_phases[OF reach_step.hyps(2)] consider "phases s1 = phases s"
    | "sv_main s = MRun" "phases s1 = phases s @ [PRun]" | e where "sv_sd s = SCall e" "phases s1 = phases s @ [PShutdown]"
    | "sv_main s = MCleanup" "phases s1 = phases s @ [PCleanup]" | "sv_eh s = HCall" "phases s1 = phases s @ [PHandler]"
    by blast
  then have "ordered_phases c (phases s1)"
  proof cases
    case 2
    then show ?thesis unfolding 2(2) using c(2) h early ok(2) by (intro ordered_phases_snoc) (simp_all add: log_ok_def)
  next
    case 3
    have "main_num (sv_main s) < 9" using ok(1) 3(1) unfolding pcs_ok_def by simp
    then show ?thesis unfolding 3(2) using c(2) h early ok(2) 3(1) by (intro ordered_phases_snoc) (simp_all add: log_ok_def)
  next
    case 4
    have "3 \<le> shutdown_num (sv_sd s)" using ok(1) 4(1) unfolding pcs_ok_def by simp
    then show ?thesis unfolding 4(2) using c(2) h early ok(2) 4(1) by (intro ordered_phases_snoc) (simp_all add: log_ok_def)
  next
    case 5
    have "9 \<le> main_num (sv_main s)" "3 \<le> shutdown_num (sv_sd s)" using ok(1) 5(1) unfolding pcs_ok_def by simp_all linarith
    then show ?thesis unfolding 5(2) using c h ok(2) 5(1) by (intro ordered_phases_snoc) (simp_all add: log_ok_def)
  qed (use c in simp)
  then show ?case using c(1) step_phases[OF reach_step.hyps(2)] by simp
qed

text \<open>The handler is given everything that was collected before.\<close>

lemma handled_all:
  assumes "service_reach c sd s" "Handled e r \<in> set (sv_log s)"
  shows "\<exists>evs. sv_log s = evs @ [Handled e r] \<and> mset e = mset (all_errors evs)"
proof -
  have ok: "pcs_ok s" "errors_ok s" and o: "ordered_phases c (phases s)" using reach_ok[OF assms(1)] reach_ordered[OF assms(1)] by auto
  obtain evs rest where l: "sv_log s = evs @ Handled e r # rest" using assms(2) split_list by metis
  then have "rest = []" using o by (auto simp: phases_def ordered_phases_def)
  then have l: "sv_log s = evs @ [Handled e r]" using l by simp
  have h: "4 \<le> handler_num (sv_eh s)" "sv_ec s = e @ panic_error r" using ok(2) assms(2) by (auto simp: errors_ok_def)
  have "9 \<le> main_num (sv_main s)" using ok(1) h(1) unfolding pcs_ok_def by linarith
  then have "pending (sv_main s) = []" by (cases "sv_main s") simp_all
  then have "mset e = mset (all_errors evs)" using ok(2) h(2) by (simp add: errors_ok_def l all_errors_def)
  then show ?thesis using l by blast
qed

text \<open>
  C23: In every reachable state of a service the record of what has happened is in order: \<open>Cleanup\<close> has run only after \<open>Run\<close> and
  the shutdown function have ended, the error handler is called last, each at most once.  The error it is given is not nil and
  holds exactly the errors that \<open>Run\<close>, the shutdown (with its signal, without ends of contexts) and \<open>Cleanup\<close> have returned or
  panicked with before; the collector holds it, with only what the handler panics with behind it.  As long as no panic of \<open>Run\<close> is on
  its way, the collector holds all these errors in every state.
\<close>

theorem service_order:
  assumes "service_reach c sd s"
  shows "ordered_phases c (map phase (sv_log s))
    \<and> (\<forall>e r. Handled e r \<in> set (sv_log s) \<longrightarrow>
         e \<noteq> [] \<and> sv_ec s = e @ panic_error r \<and> (\<exists>evs. sv_log s = evs @ [Handled e r] \<and> mset e = mset (all_errors evs)))
    \<and> (pending (sv_main s) = [] \<longrightarrow> mset (sv_ec s) = mset (all_errors (sv_log s)))"
  using reach_ordered[OF assms] reach_ok[OF assms] handled_all[OF assms] by (simp add: errors_ok_def phases_def)

subsection \<open>Every run ends\<close>

definition all_done :: "service \<Rightarrow> bool" where
  "all_done s \<longleftrightarrow> sv_body s = BDone \<and> sv_eh s = HDone \<and> sv_sd s = SDone \<and> sv_main s = MDone"

definition own_acts :: "service_act set" where
  "own_acts = {ABody} \<union> range AHandler \<union> range (AShutdown None) \<union> range AMain"

definition rank :: "service \<Rightarrow> nat" where
  "rank s = body_num (sv_body s) + handler_num (sv_eh s) + shutdown_num (sv_sd s) + main_num (sv_main s)"

lemma rank_le: "rank s \<le> 27"
  unfolding rank_def by (cases "sv_body s"; cases "sv_eh s"; cases "sv_sd s"; cases "sv_main s") simp_all

lemma rank_increases: "service_do a s = Some s1 \<Longrightarrow> a \<in> own_acts \<Longrightarrow> pcs_ok s \<Longrightarrow> rank s < rank s1"
proof (cases a)
  case ABody
  then show "service_do a s = Some s1 \<Longrightarrow> a \<in> own_acts \<Longrightarrow> pcs_ok s \<Longrightarrow> rank s < rank s1"
    by (cases "sv_body s"; clarsimp simp: rank_def pcs_ok_def)
next
  case (AHandler r)
  then show "service_do a s = Some s1 \<Longrightarrow> a \<in> own_acts \<Longrightarrow> pcs_ok s \<Longrightarrow> rank s < rank s1"
    by (cases "sv_eh s"; clarsimp simp: rank_def push_defs split: if_splits)
next
  case (AShutdown sig r)
  then show "service_do a s = Some s1 \<Longrightarrow> a \<in> own_acts \<Longrightarrow> pcs_ok s \<Longrightarrow> rank s < rank s1"
    by (cases "sv_sd s"; cases sig; cases r; clarsimp simp: rank_def push_defs split: if_splits)
next
  case (AMain r)
  then show "service_do a s = Some s1 \<Longrightarrow> a \<in> own_acts \<Longrightarrow> pcs_ok s \<Longrightarrow> rank s < rank s1"
    by (cases "sv_main s"; cases r; clarsimp simp: rank_def push_defs split: if_splits)
qed (auto simp: own_acts_def)

lemma progress:
  assumes "pcs_ok s" "sv_body s \<noteq> BNew" "\<not> all_done s"
  shows "\<exists>a\<in>{ABody, AHandler r1, AShutdown None r2, AMain r3}. service_do a s \<noteq> None"
proof (cases "sv_body s = BDone")
  case False
  then have "body_step s \<noteq> None" using assms(2) by (cases "sv_body s") simp_all
  then show ?thesis by simp
next
  case body: True
  have p: "0 < handler_num (sv_eh s)" "0 < shutdown_num (sv_sd s)" "0 < main_num (sv_main s)"
      "shutdownSignal s \<longleftrightarrow> 4 \<le> shutdown_num (sv_sd s)" "ehSignal s \<longleftrightarrow> 5 \<le> main_num (sv_main s)" "mainSignal s \<longleftrightarrow> 9 \<le> main_num (sv_main s)"
      "3 \<le> main_num (sv_main s) \<longrightarrow> sv_cancelled s"
    using assms(1) body unfolding pcs_ok_def by simp_all
  show ?thesis
  proof (cases "sv_main s = MDone")
    case False
    show ?thesis
    proof (cases "sv_main s = MWait \<and> \<not> shutdownSignal s")
      case True
      then have "sv_cancelled s" "\<not> 4 \<le> shutdown_num (sv_sd s)" using p(4,7) by simp_all
      then have "shutdown_step None r2 s \<noteq> None" using p(2) by (cases "sv_sd s") simp_all
      then show ?thesis by simp
    next
      case other: False
      then have "main_step r3 s \<noteq> None" using p(3) False by (cases "sv_main s") (auto split: if_splits)
      then show ?thesis by simp
    qed
  next
    case main: True
    show ?thesis
    proof (cases "sv_sd s = SDone")
      case False
      have "sv_cancelled s" using p(7) main by simp
      then have "shutdown_step None r2 s \<noteq> None" using p(2) False by (cases "sv_sd s") simp_all
      then show ?thesis by simp
    next
      case True
      then have "sv_eh s \<noteq> HDone" using assms(3) main body by (simp add: all_done_def)
      then have "handler_step r1 s \<noteq> None" using p(1,5,6) main by (cases "sv_eh s") simp_all
      then show ?thesis by simp
    qed
  qed
qed

lemma body_started: "service_do a s = Some s1 \<Longrightarrow> sv_body s \<noteq> BNew \<Longrightarrow> sv_body s1 \<noteq> BNew"
proof (cases a)
  case (AStart i)
  then show "service_do a s = Some s1 \<Longrightarrow> sv_body s \<noteq> BNew \<Longrightarrow> sv_body s1 \<noteq> BNew" using start_frame[of i s s1] by auto
next
  case ABody
  then show "service_do a s = Some s1 \<Longrightarrow> sv_body s \<noteq> BNew \<Longrightarrow> sv_body s1 \<noteq> BNew" by (cases "sv_body s"; clarsimp)
next
  case (AHandler r)
  then show "service_do a s = Some s1 \<Longrightarrow> sv_body s \<noteq> BNew \<Longrightarrow> sv_body s1 \<noteq> BNew"
    by (cases "sv_eh s"; clarsimp simp: push_defs split: if_splits)
next
  case (AShutdown sig r)
  then show "service_do a s = Some s1 \<Longrightarrow> sv_body s \<noteq> BNew \<Longrightarrow> sv_body s1 \<noteq> BNew"
    by (cases "sv_sd s"; cases sig; cases r; clarsimp simp: push_defs split: if_splits)
next
  case (AMain r)
  then show "service_do a s = Some s1 \<Longrightarrow> sv_body s \<noteq> BNew \<Longrightarrow> sv_body s1 \<noteq> BNew"
    by (cases "sv_main s"; cases r; clarsimp simp: push_defs split: if_splits)
qed (auto simp: Service_Close_def split: if_splits)

lemma reach_run: "service_reach c sd s \<Longrightarrow> service_run as s = Some s1 \<Longrightarrow> service_reach c sd s1"
  by (induction "as" arbitrary: s) (auto split: option.splits intro: service_reach.reach_step)

lemma run_rank: "service_reach c sd s \<Longrightarrow> service_run as s = Some s1 \<Longrightarrow> set as \<subseteq> own_acts \<Longrightarrow> length as + rank s \<le> rank s1"
proof (induction "as" arbitrary: s)
  case (Cons a "as")
  obtain s2 where s2: "service_do a s = Some s2" "service_run as s2 = Some s1" using Cons.prems(2) by (auto split: option.splits)
  have "rank s < rank s2" using rank_increases[OF s2(1)] Cons.prems(1,3) reach_ok by auto
  then show ?case using Cons.IH[OF service_reach.reach_step[OF Cons.prems(1) s2(1)] s2(2)] Cons.prems(3) by simp
qed simp

text \<open>
  C22: Once a call of \<open>Start\<close> has entered its body, the body and the three goroutines end after at most 27 steps of their own,
  in whatever order they run and whatever the functions of the service return or panic with: as long as one of
  them has not ended there is a step, even if the context is never cancelled from outside and no signal comes.
  At the end the service is finished, the wait group is down to zero and \<open>Wait\<close> returns the collected errors.
\<close>

theorem service_ends:
  assumes "service_reach c sd s" "sv_body s \<noteq> BNew" "set as \<subseteq> own_acts" "service_run as s = Some s1"
  shows "length as \<le> 27 \<and> (if all_done s1 then isFinished s1 \<and> sv_wg s1 = 0 \<and> Service_waitFor s1 = Some (Inr (sv_ec s1))
     else \<forall>r1 r2 r3. \<exists>a\<in>{ABody, AHandler r1, AShutdown None r2, AMain r3}. service_do a s1 \<noteq> None)"
proof -
  have r1: "service_reach c sd s1" using reach_run assms(1,4) by blast
  have ok: "pcs_ok s1" using reach_ok[OF r1] by blast
  have "length as \<le> 27" using run_rank[OF assms(1,4,3)] rank_le[of s1] by simp
  moreover have "isFinished s1 \<and> sv_wg s1 = 0 \<and> Service_waitFor s1 = Some (Inr (sv_ec s1))" if "all_done s1"
    using ok that by (simp add: pcs_ok_def all_done_def live_def Service_waitFor_def)
  moreover have "sv_body s1 \<noteq> BNew" using assms(2,4)
  proof (induction "as" arbitrary: s)
    case (Cons a "as")
    then show ?case using body_started[of a s] by (auto split: option.splits)
  qed simp
  ultimately show ?thesis using progress[OF ok] by auto
qed

subsection \<open>A service that has ended and still runs\<close>

text \<open>All calls and goroutines of a service that starts, runs and ends before \<open>Start\<close> has stored its flags.\<close>

definition late_start :: "service_act list" where
  "late_start = replicate 4 (AStart 0) @ replicate 4 ABody @ replicate 3 (AMain (Ret [])) @ replicate 4 (AShutdown None (Ret []))
     @ replicate 5 (AMain (Ret [])) @ replicate 3 (AHandler (Ret ())) @ replicate 2 ABody @ [AStart 0]"

definition late_end :: service where
  "late_end = \<lparr>sv_hasCleanup = False, sv_hasShutdown = False, sv_handler = False, isRunning = True, isFinished = True,
      isStarted = True, sv_cancel = True, sv_cancelled = True, sv_ec = [], sv_wg = 0, mainSignal = True, ehSignal = True,
      shutdownSignal = True, sv_starts = (\<lambda>_. StIdle)(0 := StReturned None), sv_body = BDone, sv_eh = HDone, sv_sd = SDone, sv_main = MDone,
      sv_log = [RunDone (Ret []), ShutdownDone [] (Ret [])]\<rparr>"

lemma late_start_runs: "service_run late_start (new_service False False) = Some late_end"
  by (simp add: late_start_def late_end_def new_service_def eval_nat_numeral Let_def push_defs WithoutContext_def IsExpiredContext_def error_is_any_def)

lemma late_reach: "service_reach False False late_end"
  using reach_run[OF service_reach.reach_new late_start_runs] .

lemma stale_step:
  assumes "service_do a s = Some s1" "all_done s" "isFinished s" "isRunning s" "\<forall>i. sv_starts s i = StIdle \<or> (\<exists>r. sv_starts s i = StReturned r)"
  shows "all_done s1 \<and> isFinished s1 \<and> isRunning s1 \<and> (\<forall>i. sv_starts s1 i = StIdle \<or> (\<exists>r. sv_starts s1 i = StReturned r))"
proof (cases a)
  case (AStart i)
  from spec[OF assms(5), of i] consider "sv_starts s i = StIdle" | r where "sv_starts s i = StReturned r" by blast
  then show ?thesis
  proof cases
    case 1
    then have "s1 = s\<lparr>sv_starts := (sv_starts s)(i := StReturned (Some ''service returned''))\<rparr>" using assms(1,3) AStart by simp
    then show ?thesis using assms(2-5) by (simp add: all_done_def)
  qed (use assms(1) AStart in simp)
next
  case AClose
  then show ?thesis using assms by (cases "isRunning s \<and> sv_cancel s") (simp_all add: all_done_def Service_Close_def del: not_ex, auto)
next
  case ACancel
  then show ?thesis using assms by (cases "sv_cancel s") (simp_all add: all_done_def, auto)
next
  case (ASetHandler b)
  then have "s1 = s\<lparr>sv_handler := b\<rparr>" using assms(1) by simp
  then show ?thesis using assms(2-5) by (simp add: all_done_def)
qed (use assms(1,2) in \<open>simp_all add: all_done_def\<close>)

lemma stale_run:
  "service_run as s = Some s1 \<Longrightarrow> all_done s \<Longrightarrow> isFinished s \<Longrightarrow> isRunning s \<Longrightarrow> \<forall>i. sv_starts s i = StIdle \<or> (\<exists>r. sv_starts s i = StReturned r) \<Longrightarrow> isRunning s1"
proof (induction "as" arbitrary: s)
  case (Cons a "as")
  then obtain s2 where "service_do a s = Some s2" "service_run as s2 = Some s1" by (auto split: option.splits)
  then show ?case using Cons.IH[of s2] stale_step[of a s s2] Cons.prems by blast
qed simp

text \<open>
  C40: The flag of a running service can be lost to the end of \<open>Start\<close>: when the goroutines end before the deferred stores of
  \<open>Start\<close>, the service has finished, nothing is left to run, and \<open>Running\<close> answers true for ever.
\<close>

theorem Running_after_end:
  "\<exists>s. service_reach False False s \<and> all_done s \<and> isFinished s
     \<and> (\<forall>as. case service_run as s of None \<Rightarrow> True | Some s1 \<Rightarrow> Service_Running s1)"
proof (intro exI[of _ late_end] conjI allI)
  show "case service_run as late_end of None \<Rightarrow> True | Some s1 \<Rightarrow> Service_Running s1" for "as"
    using stale_run[of "as" late_end] by (auto simp: late_end_def all_done_def Service_Running_def split: option.split)
qed (simp_all add: late_reach, simp_all add: late_end_def all_done_def)

text \<open>A service with a handler: Run returns an error, the shutdown panics, and the handler gets both.\<close>

definition handled_run :: "service_act list" where
  "handled_run = ASetHandler True # replicate 4 (AStart 0) @ replicate 6 ABody @ [AMain (Ret [TextError ''run''])] @ replicate 2 (AMain (Ret []))
     @ replicate 4 (AShutdown None (Pan PanOther)) @ replicate 5 (AMain (Ret [])) @ replicate 3 (AHandler (Ret ()))"

lemma service_order_witness:
  "\<exists>s. service_reach False True s \<and> map phase (sv_log s) = [PRun, PShutdown, PHandler] \<and> ordered_phases False (map phase (sv_log s))
     \<and> mset (sv_ec s) = {#TextError ''run'', ErrRecoveredPanic#} \<and> Handled (sv_ec s) (Ret ()) \<in> set (sv_log s)"
proof -
  have "\<exists>s. service_run handled_run (new_service False True) = Some s
      \<and> sv_log s = [RunDone (Ret [TextError ''run'']), ShutdownDone [] (Pan PanOther), Handled [TextError ''run'', ErrRecoveredPanic] (Ret ())]"
    by (simp add: handled_run_def new_service_def eval_nat_numeral Let_def push_defs)
  then obtain s where s: "service_run handled_run (new_service False True) = Some s"
      "sv_log s = [RunDone (Ret [TextError ''run'']), ShutdownDone [] (Pan PanOther), Handled [TextError ''run'', ErrRecoveredPanic] (Ret ())]" by blast
  have r: "service_reach False True s" using reach_run[OF service_reach.reach_new s(1)] .
  from service_order[OF r] have "ordered_phases False (map phase (sv_log s))" "sv_ec s = [TextError ''run'', ErrRecoveredPanic] @ panic_error (Ret ())"
    by (auto simp: s(2))
  then show ?thesis using r by (intro exI[of _ s]) (simp add: s(2) panic_error_def)
qed

definition mid_start :: service where
  "mid_start = (new_service False False)\<lparr>isRunning := True, sv_starts := (\<lambda>_. StIdle)(0 := StOnce), sv_body := BHandler\<rparr>"

lemma mid_start_runs: "service_run (replicate 4 (AStart 0)) (new_service False False) = Some mid_start"
  by (simp add: mid_start_def new_service_def eval_nat_numeral Let_def)

lemma service_ends_witness:
  "service_reach False False mid_start \<and> service_run [ABody, ABody] mid_start \<noteq> None \<and> length [ABody, ABody] \<le> 27"
proof -
  obtain s1 where s1: "service_run [ABody, ABody] mid_start = Some s1" by (simp add: mid_start_def new_service_def)
  have r: "service_reach False False mid_start" using reach_run[OF service_reach.reach_new mid_start_runs] .
  have "sv_body mid_start \<noteq> BNew" "set [ABody, ABody] \<subseteq> own_acts" by (simp_all add: mid_start_def own_acts_def)
  from service_ends[OF r this s1] show ?thesis using r s1 by simp
qed

end
