(* ===== verification/ConflText.thy ===== *)
theory ConflText
  imports GoBytes
begin

text \<open>
  The command line of \<open>src/confl\<close>: the text functions of the packages \<open>strings\<close> and \<open>strconv\<close> that it uses, on
  ASCII text, and the expansion of the arguments of flags that take several values.
\<close>

subsection \<open>Text\<close>

definition is_space :: "char \<Rightarrow> bool" where
  "is_space c \<longleftrightarrow> c = CHR '' '' \<or> (of_char c :: nat) \<in> {9..13}"

definition trim_space :: "string \<Rightarrow> string" where
  "trim_space s = rev (dropWhile is_space (rev (dropWhile is_space s)))"

definition lower :: "char \<Rightarrow> char" where
  "lower c = (let n = of_char c :: nat in if 65 \<le> n \<and> n \<le> 90 then char_of (n + 32) else c)"

definition equal_fold :: "string \<Rightarrow> string \<Rightarrow> bool" where "equal_fold s t \<longleftrightarrow> map lower s = map lower t"

function split_seq :: "'a list \<Rightarrow> 'a list \<Rightarrow> 'a list list" where
  "split_seq sep s =
     (if sep = [] then map (\<lambda>c. [c]) s
      else case find_at sep s of None \<Rightarrow> [s] | Some i \<Rightarrow> take i s # split_seq sep (drop (i + length sep) s))"
  by pat_completeness auto
termination
  by (relation "measure (\<lambda>(_, s). length s)") (auto dest: find_at_shorter)

declare split_seq.simps [simp del]

definition splitTrimmed :: "string \<Rightarrow> string \<Rightarrow> string list" where
  "splitTrimmed s sep = map trim_space (split_seq sep s)"

text \<open>What is before the first separator, what is behind it, and whether there is one.\<close>

definition cut_at :: "string \<Rightarrow> string \<Rightarrow> string \<times> string \<times> bool" where
  "cut_at s sep = (case find_at sep s of None \<Rightarrow> (s, '''', False) | Some i \<Rightarrow> (take i s, drop (i + length sep) s, True))"

subsection \<open>Numbers\<close>

definition digit :: "char \<Rightarrow> nat option" where
  "digit c = (let n = of_char c :: nat in if 48 \<le> n \<and> n \<le> 57 then Some (n - 48) else None)"

fun digits_from :: "nat \<Rightarrow> string \<Rightarrow> nat option" where
  "digits_from v [] = Some v"
| "digits_from v (c # s) = (case digit c of None \<Rightarrow> None | Some d \<Rightarrow> digits_from (10 * v + d) s)"

definition ParseUint :: "nat \<Rightarrow> string \<Rightarrow> int option" where
  "ParseUint bits s =
     (if s = [] then None
      else case digits_from 0 s of None \<Rightarrow> None | Some n \<Rightarrow> if n < 2 ^ bits then Some (int n) else None)"

definition ParseInt :: "nat \<Rightarrow> string \<Rightarrow> int option" where
  "ParseInt bits s =
     (let neg = (s \<noteq> [] \<and> hd s = CHR ''-'');
          body = (if s \<noteq> [] \<and> (hd s = CHR ''-'' \<or> hd s = CHR ''+'') then tl s else s) in
      if body = [] then None
      else case digits_from 0 body of
             None \<Rightarrow> None
           | Some n \<Rightarrow> if neg then (if n \<le> 2 ^ (bits - 1) then Some (- int n) else None)
                       else (if n < 2 ^ (bits - 1) then Some (int n) else None))"

definition ParseBool :: "string \<Rightarrow> bool option" where
  "ParseBool s =
     (if s \<in> {''1'', ''t'', ''T'', ''TRUE'', ''true'', ''True''} then Some True
      else if s \<in> {''0'', ''f'', ''F'', ''FALSE'', ''false'', ''False''} then Some False
      else None)"

subsection \<open>Flags with several values\<close>

definition isFlag :: "string \<Rightarrow> bool" where "isFlag s \<longleftrightarrow> 1 < length s \<and> s ! 0 = CHR ''-''"

text \<open>The name of a token without its dashes and its value, and whether it has a value.\<close>

definition until_name :: "string \<Rightarrow> string" where "until_name tok = fst (cut_at (dropWhile (\<lambda>c. c = CHR ''-'') tok) ''='')"
definition has_value :: "string \<Rightarrow> bool" where "has_value tok = snd (snd (cut_at (dropWhile (\<lambda>c. c = CHR ''-'') tok) ''=''))"

fun expand_values :: "string \<Rightarrow> string list \<Rightarrow> string list" where
  "expand_values name [] = []"
| "expand_values name (v # vs) = (if isFlag v then [] else (''-'' @ name) # v # expand_values name vs)"

function expandUntilArgs :: "string list \<Rightarrow> string set \<Rightarrow> string list" where
  "expandUntilArgs [] untilFlags = []"
| "expandUntilArgs (tok # args) untilFlags =
     (if \<not> isFlag tok then tok # expandUntilArgs args untilFlags
      else if until_name tok \<notin> untilFlags then tok # expandUntilArgs args untilFlags
      else if has_value tok
      then tok # expand_values (until_name tok) args @ expandUntilArgs (dropWhile (\<lambda>v. \<not> isFlag v) args) untilFlags
      else case args of
             [] \<Rightarrow> [tok]
           | v # vs \<Rightarrow>
               if isFlag v then tok # expandUntilArgs args untilFlags
               else tok # v # expand_values (until_name tok) vs @ expandUntilArgs (dropWhile (\<lambda>v. \<not> isFlag v) vs) untilFlags)"
  by pat_completeness auto
termination
proof (relation "measure (\<lambda>(args, _). length args)")
  show "((dropWhile (\<lambda>v. \<not> isFlag v) args, u), (tok # args, u)) \<in> measure (\<lambda>(args, _). length args)" for tok and args :: "string list" and u :: "string set"
    using length_dropWhile_le[of "\<lambda>v. \<not> isFlag v" args] by simp
  show "((dropWhile (\<lambda>v. \<not> isFlag v) vs, u), (tok # args, u)) \<in> measure (\<lambda>(args, _). length args)" if "args = v # vs" for tok and args :: "string list" and u :: "string set" and v vs
    using length_dropWhile_le[of "\<lambda>v. \<not> isFlag v" vs] that by simp
qed simp_all

declare expandUntilArgs.simps(2) [simp del]

end
