(* ===== verification/ConflFlags.thy ===== *)
theory ConflFlags
  imports ConflText
begin

text \<open>
  The structs that \<open>src/confl\<close> fills, the flags that write to their fields, and what it uses of the package \<open>flag\<close>.

  A struct type is a list of fields with their tags; the address of a field is the list of the positions that lead to
  it, and the memory holds the value at each address.  Floats, times and the states of types with methods of
  their own are opaque values; how they are parsed is a parameter.
\<close>

subsection \<open>Types and values\<close>

datatype basic = BString | BBool | BInt nat | BUint nat | BFloat nat | BTime | BDuration

text \<open>A predeclared type or a type with a name of its own.\<close>

datatype elem = Basic basic | NamedT string basic
datatype shape = Scalar | Slice | Pointer

type_synonym tags = "string \<Rightarrow> string option"
type_synonym path = "nat list"

text \<open>
  The last two: a type whose pointer implements \<open>flag.Value\<close> without being a struct, and a type the code does not
  know.  Both tell whether they are slices.  A struct tells whether its pointer implements \<open>flag.Value\<close>.
\<close>

datatype gofield = GoField (gf_name: string) (gf_exported: bool) (gf_anonymous: bool) (gf_tag: tags) (gf_type: gotype)
and gotype = Leaf shape elem | TStruct bool "gofield list" | FlagValue bool | Unsupported bool

datatype 'o scalar = SString string | SBool bool | SInt int | SOpaque 'o
datatype 'o gvalue = VScalar "'o scalar" | VSlice "'o scalar list" | VPtr "'o scalar option" | VOpaque 'o

fun elem_kind :: "elem \<Rightarrow> basic" where "elem_kind (Basic b) = b" | "elem_kind (NamedT _ b) = b"

definition tag_Get :: "gofield \<Rightarrow> string \<Rightarrow> string" where
  "tag_Get f k = (case gf_tag f k of None \<Rightarrow> '''' | Some v \<Rightarrow> v)"

fun is_slice :: "gotype \<Rightarrow> bool" where
  "is_slice (Leaf s _) = (s = Slice)"
| "is_slice (FlagValue b) = b"
| "is_slice (Unsupported b) = b"
| "is_slice (TStruct _ _) = False"

text \<open>What is left to the library and to the types of the user.\<close>

record 'o golib =
  lib_float :: "nat \<Rightarrow> string \<Rightarrow> 'o option"
  lib_time :: "string \<Rightarrow> string \<Rightarrow> 'o option"
  lib_duration :: "string \<Rightarrow> int option"
  lib_now :: 'o
  lib_zero_float :: 'o
  lib_zero_time :: 'o
  lib_is_zero :: "'o \<Rightarrow> bool"
  lib_set :: "string \<Rightarrow> 'o \<Rightarrow> 'o option"
  lib_validate :: "string \<Rightarrow> 'o scalar \<Rightarrow> bool"
  lib_unmarshal :: "string \<Rightarrow> (string \<Rightarrow> 'o scalar option) option"

definition zero_scalar :: "'o golib \<Rightarrow> basic \<Rightarrow> 'o scalar" where
  "zero_scalar L b =
     (case b of BString \<Rightarrow> SString '''' | BBool \<Rightarrow> SBool False | BFloat _ \<Rightarrow> SOpaque (lib_zero_float L)
      | BTime \<Rightarrow> SOpaque (lib_zero_time L) | _ \<Rightarrow> SInt 0)"

fun scalar_zero :: "'o golib \<Rightarrow> 'o scalar \<Rightarrow> bool" where
  "scalar_zero L (SString s) = (s = '''')"
| "scalar_zero L (SBool b) = (\<not> b)"
| "scalar_zero L (SInt i) = (i = 0)"
| "scalar_zero L (SOpaque x) = lib_is_zero L x"

fun IsZero :: "'o golib \<Rightarrow> 'o gvalue \<Rightarrow> bool" where
  "IsZero L (VScalar v) = scalar_zero L v"
| "IsZero L (VSlice vs) = (vs = [])"
| "IsZero L (VPtr p) = (p = None)"
| "IsZero L (VOpaque x) = lib_is_zero L x"

subsection \<open>Parsing values\<close>

definition parseTimeFunc :: "'o golib \<Rightarrow> string \<Rightarrow> string \<Rightarrow> 'o option" where
  "parseTimeFunc L layout s = (if s = ''now'' then Some (lib_now L) else lib_time L layout s)"

definition time_layouts :: "string list" where
  "time_layouts = [''2006-01-02T15:04:05Z07:00'', ''2006-01-02 15:04:05'', ''2006-01-02'']"

definition parseTimeFuncAuto :: "'o golib \<Rightarrow> string \<Rightarrow> 'o option" where
  "parseTimeFuncAuto L s =
     (if s = ''now'' then Some (lib_now L)
      else case filter (\<lambda>r. r \<noteq> None) (map (\<lambda>l. lib_time L l s) time_layouts) of [] \<Rightarrow> None | r # _ \<Rightarrow> r)"

fun parse_basic :: "'o golib \<Rightarrow> string \<Rightarrow> basic \<Rightarrow> string \<Rightarrow> 'o scalar option" where
  "parse_basic L fmt BString s = Some (SString s)"
| "parse_basic L fmt BBool s = map_option SBool (ParseBool s)"
| "parse_basic L fmt (BInt bits) s = map_option SInt (ParseInt bits s)"
| "parse_basic L fmt (BUint bits) s = map_option SInt (ParseUint bits s)"
| "parse_basic L fmt (BFloat bits) s = map_option SOpaque (lib_float L bits s)"
| "parse_basic L fmt BDuration s = map_option SInt (lib_duration L s)"
| "parse_basic L fmt BTime s = map_option SOpaque (if fmt \<noteq> '''' then parseTimeFunc L fmt s else parseTimeFuncAuto L s)"

subsection \<open>Enums\<close>

type_synonym 'o enumTable = "(string \<times> 'o scalar) list \<times> bool"

fun byName_in :: "bool \<Rightarrow> string \<Rightarrow> (string \<times> 'o scalar) list \<Rightarrow> (string \<times> 'o scalar) option" where
  "byName_in exact s [] = None"
| "byName_in exact s (e # es) = (if fst e = s \<or> \<not> exact \<and> equal_fold (fst e) s then Some e else byName_in exact s es)"

definition enumTable_byName :: "'o enumTable \<Rightarrow> string \<Rightarrow> (string \<times> 'o scalar) option" where
  "enumTable_byName t s = byName_in (snd t) s (fst t)"

definition enumTable_byValue :: "'o enumTable \<Rightarrow> 'o scalar \<Rightarrow> (string \<times> 'o scalar) option" where
  "enumTable_byValue t v = find (\<lambda>e. snd e = v) (fst t)"

text \<open>The running value is a signed word; unsigned kinds read it as unsigned.\<close>

record enumCounter =
  ec_next :: "64 word"
  ec_wrapped :: bool

definition overflows :: "basic \<Rightarrow> 64 word \<Rightarrow> bool" where
  "overflows b w =
     (case b of BUint bits \<Rightarrow> 2 ^ bits \<le> uint w
      | BInt bits \<Rightarrow> sint w < - (2 ^ (bits - 1)) \<or> 2 ^ (bits - 1) \<le> sint w
      | _ \<Rightarrow> False)"

definition is_signed :: "basic \<Rightarrow> bool" where "is_signed b \<longleftrightarrow> (case b of BUint _ \<Rightarrow> False | _ \<Rightarrow> True)"

definition enumCounter_assign :: "basic \<Rightarrow> string \<Rightarrow> bool \<Rightarrow> enumCounter \<Rightarrow> (int \<times> enumCounter) option" where
  "enumCounter_assign b valStr hasVal c =
     (let signed = is_signed b;
          start = (if hasVal then map_option of_int (if signed then ParseInt 64 valStr else ParseUint 64 valStr)
                   else if ec_wrapped c then None else Some (ec_next c)) in
      case start of
        None \<Rightarrow> None
      | Some n \<Rightarrow>
          if overflows b n then None
          else if signed then Some (sint n, \<lparr>ec_next = n + 1, ec_wrapped = (sint n = 2 ^ 63 - 1)\<rparr>)
          else Some (uint n, \<lparr>ec_next = n + 1, ec_wrapped = (uint n = 2 ^ 64 - 1)\<rparr>))"

definition enum_kind :: "basic \<Rightarrow> bool" where
  "enum_kind b \<longleftrightarrow> (case b of BString \<Rightarrow> True | BInt _ \<Rightarrow> True | BUint _ \<Rightarrow> True | BDuration \<Rightarrow> True | _ \<Rightarrow> False)"

definition enum_item :: "basic \<Rightarrow> string \<Rightarrow> string \<times> string \<times> bool" where
  "enum_item b item =
     (if b = BString then (item, '''', False)
      else case cut_at item ''='' of (name, valStr, hasVal) \<Rightarrow> (trim_space name, trim_space valStr, hasVal))"

definition enum_next :: "basic \<Rightarrow> string \<Rightarrow> string \<Rightarrow> bool \<Rightarrow> enumCounter \<Rightarrow> ('o scalar \<times> enumCounter) option" where
  "enum_next b name valStr hasVal c =
     (if b = BString then Some (SString name, c) else map_option (\<lambda>(n, c). (SInt n, c)) (enumCounter_assign b valStr hasVal c))"

fun enum_entries :: "basic \<Rightarrow> string list \<Rightarrow> enumCounter \<Rightarrow> 'o enumTable \<Rightarrow> 'o enumTable option" where
  "enum_entries b [] c t = Some t"
| "enum_entries b (item # raw) c t =
     (case enum_item b item of (name, valStr, hasVal) \<Rightarrow>
        if name = '''' then None
        else case enum_next b name valStr hasVal c of
               None \<Rightarrow> None
             | Some (v, c2) \<Rightarrow>
                 if enumTable_byName t name \<noteq> None \<or> enumTable_byValue t v \<noteq> None then None
                 else enum_entries b raw c2 (fst t @ [(name, v)], snd t))"

definition parseEnumTag :: "string list \<Rightarrow> basic \<Rightarrow> bool \<Rightarrow> 'o enumTable option" where
  "parseEnumTag raw b exact =
     (if \<not> enum_kind b then None else enum_entries b raw \<lparr>ec_next = 0, ec_wrapped = False\<rparr> ([], exact))"

definition callEnumValidate :: "'o golib \<Rightarrow> elem \<Rightarrow> 'o scalar \<Rightarrow> bool" where
  "callEnumValidate L e v = (case e of NamedT n _ \<Rightarrow> lib_validate L n v | Basic _ \<Rightarrow> True)"

definition enumValue_nameOf :: "'o enumTable \<Rightarrow> 'o scalar \<Rightarrow> string" where
  "enumValue_nameOf t v = (case enumTable_byValue t v of None \<Rightarrow> '''' | Some e \<Rightarrow> fst e)"

definition enumValue_parse :: "'o golib \<Rightarrow> elem \<Rightarrow> 'o enumTable \<Rightarrow> string \<Rightarrow> 'o scalar option" where
  "enumValue_parse L e t s =
     (let v = (case (case e of NamedT n _ \<Rightarrow> lib_unmarshal L n | Basic _ \<Rightarrow> None) of
                 Some um \<Rightarrow> (case um s of None \<Rightarrow> None | Some v \<Rightarrow> if enumValue_nameOf t v = '''' then None else Some v)
               | None \<Rightarrow> map_option snd (enumTable_byName t s)) in
      case v of None \<Rightarrow> None | Some v \<Rightarrow> if callEnumValidate L e v then Some v else None)"

end
