(* ===== verification/ConflRegister.thy ===== *)
theory ConflRegister
  imports ConflFlags
begin

text \<open>
  Registering a field as a flag, setting it from a text, and \<open>Parse\<close> of the package \<open>flag\<close>.  A flag set that
  is told to return its errors is meant; a request for help ends the process.
\<close>

subsection \<open>Memory and flag sets\<close>

datatype conf_error = ErrInvalidSpecification | ErrInvalidInput | ErrDispatchNoSelection | FlagError | HelpExit | Panicked | ErrNotFound

record 'o memory =
  mem_val :: "path \<Rightarrow> 'o gvalue"
  mem_clear :: "nat \<Rightarrow> bool"
  mem_fresh :: nat

text \<open>
  The function that a flag calls with its text.  The slices share one variable, by its number, that tells whether the
  defaults are still to be cleared.
\<close>

datatype 'o setter = SetScalar basic string path | SetInverted path | SetPointer basic string path
  | SetSlice basic string path nat bool string bool | SetEnum shape elem "'o enumTable" path nat string bool | SetOwn path

record 'o flagset =
  fs_formal :: "(string \<times> 'o setter) list"
  fs_actual :: "string list"
  fs_args :: "string list"

definition new_flagset :: "'o flagset" where "new_flagset = \<lparr>fs_formal = [], fs_actual = [], fs_args = []\<rparr>"

definition put_val :: "path \<Rightarrow> 'o gvalue \<Rightarrow> 'o memory \<Rightarrow> 'o memory" where "put_val p v m = m\<lparr>mem_val := (mem_val m)(p := v)\<rparr>"
definition slice_at :: "'o memory \<Rightarrow> path \<Rightarrow> 'o scalar list" where "slice_at m p = (case mem_val m p of VSlice vs \<Rightarrow> vs | _ \<Rightarrow> [])"

definition Lookup :: "'o flagset \<Rightarrow> string \<Rightarrow> 'o setter option" where "Lookup fs n = map_of (fs_formal fs) n"

text \<open>\<open>fs.Var\<close> and the like panic for a name that is taken or malformed.\<close>

definition define_flag :: "string \<Rightarrow> 'o setter \<Rightarrow> 'o flagset \<Rightarrow> conf_error + 'o flagset" where
  "define_flag n st fs =
     (if (n \<noteq> '''' \<and> hd n = CHR ''-'') \<or> CHR ''='' \<in> set n \<or> Lookup fs n \<noteq> None then Inl Panicked
      else Inr (fs\<lparr>fs_formal := (n, st) # fs_formal fs\<rparr>))"

subsection \<open>Setting\<close>

definition appendOnce :: "'o golib \<Rightarrow> basic \<Rightarrow> string \<Rightarrow> path \<Rightarrow> nat \<Rightarrow> bool \<Rightarrow> string \<Rightarrow> bool \<Rightarrow> string \<Rightarrow> 'o memory \<Rightarrow> 'o memory option" where
  "appendOnce L b fmt p k negated sep sepSet s m =
     (let old = (if mem_clear m k then [] else slice_at m p);
          m1 = m\<lparr>mem_clear := (mem_clear m)(k := False)\<rparr>;
          parts = (if sepSet \<and> sep \<noteq> '''' then map trim_space (split_seq sep s) else [s]);
          flip = (\<lambda>v. if negated then (case v of SBool x \<Rightarrow> SBool (\<not> x) | _ \<Rightarrow> v) else v) in
      map_option (\<lambda>vs. put_val p (VSlice (old @ map flip vs)) m1) (those (map (parse_basic L fmt b) parts)))"

definition enumValue_Set :: "'o golib \<Rightarrow> shape \<Rightarrow> elem \<Rightarrow> 'o enumTable \<Rightarrow> path \<Rightarrow> nat \<Rightarrow> string \<Rightarrow> bool \<Rightarrow> string \<Rightarrow> 'o memory \<Rightarrow> 'o memory option" where
  "enumValue_Set L sh e t p k sep sepSet s m =
     (let parts = (if sh = Slice \<and> sepSet \<and> sep \<noteq> '''' then splitTrimmed s sep else [s]) in
      map_option (\<lambda>vs. case sh of
            Slice \<Rightarrow> put_val p (VSlice ((if mem_clear m k then [] else slice_at m p) @ vs)) (m\<lparr>mem_clear := (mem_clear m)(k := False)\<rparr>)
          | Pointer \<Rightarrow> put_val p (VPtr (Some (hd vs))) m
          | Scalar \<Rightarrow> put_val p (VScalar (hd vs)) m)
        (those (map (enumValue_parse L e t) parts)))"

fun set_flag :: "'o golib \<Rightarrow> 'o setter \<Rightarrow> string \<Rightarrow> 'o memory \<Rightarrow> 'o memory option" where
  "set_flag L (SetScalar b fmt p) s m = map_option (\<lambda>v. put_val p (VScalar v) m) (parse_basic L fmt b s)"
| "set_flag L (SetInverted p) s m = map_option (\<lambda>b. put_val p (VScalar (SBool (\<not> b))) m) (ParseBool s)"
| "set_flag L (SetPointer b fmt p) s m = map_option (\<lambda>v. put_val p (VPtr (Some v)) m) (parse_basic L fmt b s)"
| "set_flag L (SetSlice b fmt p k negated sep sepSet) s m = appendOnce L b fmt p k negated sep sepSet s m"
| "set_flag L (SetEnum sh e t p k sep sepSet) s m = enumValue_Set L sh e t p k sep sepSet s m"
| "set_flag L (SetOwn p) s m = (case mem_val m p of VOpaque x \<Rightarrow> map_option (\<lambda>y. put_val p (VOpaque y) m) (lib_set L s x) | _ \<Rightarrow> None)"

fun is_bool_flag :: "'o setter \<Rightarrow> bool" where
  "is_bool_flag (SetScalar b _ _) = (b = BBool)"
| "is_bool_flag (SetInverted _) = True"
| "is_bool_flag (SetPointer b _ _) = (b = BBool)"
| "is_bool_flag (SetSlice _ _ _ _ negated _ _) = negated"
| "is_bool_flag _ = False"

subsection \<open>Registration\<close>

record flagSpec =
  sp_Name :: string
  sp_Short :: string
  sp_Default :: string
  sp_Format :: string
  sp_Sep :: string
  sp_SepSet :: bool
  sp_Enum :: "string list"
  sp_EnumSet :: bool
  sp_EnumExactCase :: bool

definition registerAlias :: "flagSpec \<Rightarrow> 'o setter \<Rightarrow> 'o flagset \<Rightarrow> conf_error + 'o flagset" where
  "registerAlias spec st fs =
     (case define_flag (sp_Name spec) st fs of
        Inl e \<Rightarrow> Inl e
      | Inr fs1 \<Rightarrow> if sp_Short spec \<noteq> '''' then define_flag (sp_Short spec) st fs1 else Inr fs1)"

definition flagSpec_validate :: "flagSpec \<Rightarrow> 'o flagset \<Rightarrow> bool" where
  "flagSpec_validate s fs \<longleftrightarrow>
     \<not> (sp_Short s \<noteq> '''' \<and> length (sp_Short s) \<noteq> 1) \<and> Lookup fs (sp_Name s) = None \<and> \<not> (sp_Short s \<noteq> '''' \<and> Lookup fs (sp_Short s) \<noteq> None)"

type_synonym 'o bound = "conf_error + 'o flagset \<times> 'o memory"

definition with_mem :: "'o memory \<Rightarrow> conf_error + 'o flagset \<Rightarrow> 'o bound" where
  "with_mem m r = (case r of Inl e \<Rightarrow> Inl e | Inr fs \<Rightarrow> Inr (fs, m))"

definition registerFuncFlag :: "'o golib \<Rightarrow> flagSpec \<Rightarrow> basic \<Rightarrow> path \<Rightarrow> 'o flagset \<Rightarrow> 'o memory \<Rightarrow> 'o bound" where
  "registerFuncFlag L spec b p fs m =
     (let st = SetScalar b (sp_Format spec) p in
      if sp_Default spec = '''' then with_mem m (registerAlias spec st fs)
      else case parse_basic L (sp_Format spec) b (sp_Default spec) of
             None \<Rightarrow> Inl ErrInvalidSpecification
           | Some v \<Rightarrow> with_mem (put_val p (VScalar v) m) (registerAlias spec st fs))"

definition registerPointerFlag :: "'o golib \<Rightarrow> flagSpec \<Rightarrow> basic \<Rightarrow> path \<Rightarrow> 'o flagset \<Rightarrow> 'o memory \<Rightarrow> 'o bound" where
  "registerPointerFlag L spec b p fs m =
     (let st = SetPointer b (sp_Format spec) p in
      if sp_Default spec = '''' then with_mem m (registerAlias spec st fs)
      else case parse_basic L (sp_Format spec) b (sp_Default spec) of
             None \<Rightarrow> Inl ErrInvalidSpecification
           | Some v \<Rightarrow> with_mem (put_val p (VPtr (Some v)) m) (registerAlias spec st fs))"

definition parseAndSetSliceDefault :: "'o golib \<Rightarrow> flagSpec \<Rightarrow> basic \<Rightarrow> path \<Rightarrow> 'o memory \<Rightarrow> 'o memory option" where
  "parseAndSetSliceDefault L spec b p m =
     (if sp_Default spec = '''' then Some m
      else if \<not> sp_SepSet spec then None
      else map_option (\<lambda>vs. put_val p (VSlice (slice_at m p @ vs)) m)
             (those (map (parse_basic L (sp_Format spec) b)
               (map trim_space (if sp_Sep spec = '''' then [sp_Default spec] else split_seq (sp_Sep spec) (sp_Default spec))))))"

text \<open>A new variable that tells whether the defaults are to be cleared.\<close>

definition fresh_clear :: "bool \<Rightarrow> 'o memory \<Rightarrow> nat \<times> 'o memory" where
  "fresh_clear b m = (mem_fresh m, m\<lparr>mem_clear := (mem_clear m)(mem_fresh m := b), mem_fresh := Suc (mem_fresh m)\<rparr>)"

definition registerSliceFlag :: "'o golib \<Rightarrow> flagSpec \<Rightarrow> basic \<Rightarrow> path \<Rightarrow> 'o flagset \<Rightarrow> 'o memory \<Rightarrow> 'o bound" where
  "registerSliceFlag L spec b p fs m =
     (case parseAndSetSliceDefault L spec b p m of
        None \<Rightarrow> Inl ErrInvalidSpecification
      | Some m1 \<Rightarrow>
          (case fresh_clear (sp_Default spec \<noteq> '''') m1 of (k, m2) \<Rightarrow>
             with_mem m2 (registerAlias spec (SetSlice b (sp_Format spec) p k False (sp_Sep spec) (sp_SepSet spec)) fs)))"

definition no_spec :: "flagSpec \<Rightarrow> flagSpec" where
  "no_spec spec = spec\<lparr>sp_Name := ''no-'' @ sp_Name spec, sp_Short := if sp_Short spec = '''' then '''' else ''no-'' @ sp_Short spec\<rparr>"

definition registerBoolFlag :: "'o golib \<Rightarrow> flagSpec \<Rightarrow> path \<Rightarrow> 'o flagset \<Rightarrow> 'o memory \<Rightarrow> 'o bound" where
  "registerBoolFlag L spec p fs m =
     (let d = map lower (sp_Default spec) in
      if d \<in> {''true'', ''t'', ''yes'', ''y'', ''1''}
      then with_mem (put_val p (VScalar (SBool True)) m) (registerAlias (no_spec spec) (SetInverted p) fs)
      else if d \<in> {''false'', ''f'', ''no'', ''n'', '''', ''0'', ''-1''}
      then with_mem (put_val p (VScalar (SBool False)) m) (registerAlias spec (SetScalar BBool '''' p) fs)
      else Inl ErrInvalidSpecification)"

definition registerBoolSliceFlag :: "'o golib \<Rightarrow> flagSpec \<Rightarrow> path \<Rightarrow> 'o flagset \<Rightarrow> 'o memory \<Rightarrow> 'o bound" where
  "registerBoolSliceFlag L spec0 p fs m =
     (let d = map lower (sp_Default spec0);
          spec = spec0\<lparr>sp_Default := if d \<in> {''yes'', ''y'', ''true'', ''t'', ''1''} then ''true''
                                     else if d \<in> {''no'', ''n'', ''false'', ''f'', ''0'', ''-1''} then ''false'' else sp_Default spec0\<rparr> in
      case parseAndSetSliceDefault L spec BBool p m of
        None \<Rightarrow> Inl ErrInvalidSpecification
      | Some m1 \<Rightarrow>
          (let inv = (sp_Default spec = ''true'') in
           case fresh_clear (sp_Default spec \<noteq> '''') m1 of (k, m2) \<Rightarrow>
             with_mem m2 (registerAlias (if inv then no_spec spec else spec) (SetSlice BBool '''' p k inv (sp_Sep spec) (sp_SepSet spec)) fs)))"

definition registerEnumFlag :: "'o golib \<Rightarrow> flagSpec \<Rightarrow> gotype \<Rightarrow> path \<Rightarrow> 'o flagset \<Rightarrow> 'o memory \<Rightarrow> 'o bound" where
  "registerEnumFlag L spec ty p fs m =
     (case ty of
        Leaf sh e \<Rightarrow>
          (case parseEnumTag (sp_Enum spec) (elem_kind e) (sp_EnumExactCase spec) of
             None \<Rightarrow> Inl ErrInvalidSpecification
           | Some t \<Rightarrow>
               if \<not> list_all (\<lambda>en. callEnumValidate L e (snd en)) (fst t) then Inl ErrInvalidSpecification
               else (case fresh_clear False m of (k, m1) \<Rightarrow>
                  let st = SetEnum sh e t p k (sp_Sep spec) (sp_SepSet spec) in
                  if sp_Default spec = '''' then with_mem m1 (registerAlias spec st fs)
                  else if sh = Slice \<and> \<not> sp_SepSet spec then Inl ErrInvalidSpecification
                  else (case enumValue_Set L sh e t p k (sp_Sep spec) (sp_SepSet spec) (sp_Default spec) m1 of
                          None \<Rightarrow> Inl ErrInvalidSpecification
                        | Some m2 \<Rightarrow> with_mem (m2\<lparr>mem_clear := (mem_clear m2)(k := (sh = Slice))\<rparr>) (registerAlias spec st fs))))
      | _ \<Rightarrow> Inl ErrInvalidSpecification)"

definition registerFlag :: "'o golib \<Rightarrow> flagSpec \<Rightarrow> gotype \<Rightarrow> path \<Rightarrow> 'o flagset \<Rightarrow> 'o memory \<Rightarrow> 'o bound" where
  "registerFlag L spec ty p fs m =
     (if \<not> flagSpec_validate spec fs then Inl ErrInvalidSpecification
      else if sp_EnumSet spec then registerEnumFlag L spec ty p fs m
      else case ty of
        Leaf Scalar (Basic BString) \<Rightarrow> with_mem (put_val p (VScalar (SString (sp_Default spec))) m) (registerAlias spec (SetScalar BString '''' p) fs)
      | Leaf Scalar (Basic BBool) \<Rightarrow> registerBoolFlag L spec p fs m
      | Leaf Scalar (Basic BDuration) \<Rightarrow>
          (case (if sp_Default spec = '''' then Some 0 else lib_duration L (sp_Default spec)) of
             None \<Rightarrow> Inl ErrInvalidSpecification
           | Some d \<Rightarrow> with_mem (put_val p (VScalar (SInt d)) m) (registerAlias spec (SetScalar BDuration '''' p) fs))
      | Leaf Scalar (Basic b) \<Rightarrow> registerFuncFlag L spec b p fs m
      | Leaf Slice (Basic BBool) \<Rightarrow> registerBoolSliceFlag L spec p fs m
      | Leaf Slice (Basic b) \<Rightarrow> registerSliceFlag L spec b p fs m
      | Leaf Pointer (Basic b) \<Rightarrow> registerPointerFlag L spec b p fs m
      | Leaf _ (NamedT _ _) \<Rightarrow> Inl ErrInvalidSpecification
      | Unsupported _ \<Rightarrow> Inl ErrInvalidSpecification
      | TStruct False _ \<Rightarrow> Inl ErrInvalidSpecification
      | _ \<Rightarrow>
          (if sp_Default spec = '''' then with_mem m (registerAlias spec (SetOwn p) fs)
           else case set_flag L (SetOwn p) (sp_Default spec) m of
                  None \<Rightarrow> Inl ErrInvalidSpecification
                | Some m1 \<Rightarrow> with_mem m1 (registerAlias spec (SetOwn p) fs)))"

subsection \<open>Parsing the arguments\<close>

definition mark_set :: "string \<Rightarrow> 'o flagset \<Rightarrow> 'o flagset" where "mark_set n fs = fs\<lparr>fs_actual := n # fs_actual fs\<rparr>"

fun FlagSet_Parse :: "'o golib \<Rightarrow> string list \<Rightarrow> 'o flagset \<Rightarrow> 'o memory \<Rightarrow> 'o bound" where
  "FlagSet_Parse L [] fs m = Inr (fs\<lparr>fs_args := []\<rparr>, m)"
| "FlagSet_Parse L (s # args) fs m =
     (if length s < 2 \<or> hd s \<noteq> CHR ''-'' then Inr (fs\<lparr>fs_args := s # args\<rparr>, m)
      else if s = ''--'' then Inr (fs\<lparr>fs_args := args\<rparr>, m)
      else let name = (if s ! 1 = CHR ''-'' then drop 2 s else drop 1 s) in
           if hd name = CHR ''-'' \<or> hd name = CHR ''='' then Inl FlagError
           else case cut_at name ''='' of (n, v, hasValue) \<Rightarrow>
             (case Lookup fs n of
                None \<Rightarrow> Inl (if n = ''help'' \<or> n = ''h'' then HelpExit else FlagError)
              | Some st \<Rightarrow>
                  if is_bool_flag st
                  then (case set_flag L st (if hasValue then v else ''true'') m of
                          None \<Rightarrow> Inl FlagError | Some m1 \<Rightarrow> FlagSet_Parse L args (mark_set n fs) m1)
                  else if hasValue
                  then (case set_flag L st v m of
                          None \<Rightarrow> Inl FlagError | Some m1 \<Rightarrow> FlagSet_Parse L args (mark_set n fs) m1)
                  else (case args of
                          [] \<Rightarrow> Inl FlagError
                        | a # rest \<Rightarrow> (case set_flag L st a m of
                            None \<Rightarrow> Inl FlagError | Some m1 \<Rightarrow> FlagSet_Parse L rest (mark_set n fs) m1))))"

end
