(* ===== verification/ConflBind.thy ===== *)
theory ConflBind
  imports ConflRegister
begin

text \<open>
  The walks of \<open>src/confl\<close> through a struct: binding flags, checking required fields, the environment, the tag
  checks of \<open>Validate\<close>, and the choice of a subcommand.
\<close>

subsection \<open>Tags\<close>

definition checkNargTags :: "gofield \<Rightarrow> string \<Rightarrow> string \<Rightarrow> bool" where
  "checkNargTags f name narg \<longleftrightarrow>
     narg = '''' \<or> (narg \<in> {''rest'', ''until''} \<and> gf_exported f \<and> is_slice (gf_type f)
       \<and> \<not> (narg = ''rest'' \<and> name \<noteq> '''') \<and> \<not> (narg = ''until'' \<and> name = ''''))"

definition checkSepTag :: "gofield \<Rightarrow> bool \<Rightarrow> bool" where "checkSepTag f sepSet \<longleftrightarrow> \<not> (sepSet \<and> \<not> is_slice (gf_type f))"
definition checkExportedFlag :: "gofield \<Rightarrow> bool" where "checkExportedFlag f \<longleftrightarrow> gf_exported f"

definition enumTags :: "gofield \<Rightarrow> flagSpec \<Rightarrow> flagSpec option" where
  "enumTags f spec =
     (let cs = gf_tag f ''case-sensitive'' in
      if cs \<noteq> None \<and> cs \<noteq> Some ''true'' \<and> cs \<noteq> Some ''false'' then None
      else case gf_tag f ''enum'' of
             None \<Rightarrow> if cs \<noteq> None then None else Some spec
           | Some tag \<Rightarrow> Some (spec\<lparr>sp_Enum := splitTrimmed tag '','', sp_EnumSet := True, sp_EnumExactCase := (cs = Some ''true'')\<rparr>))"

definition field_spec :: "gofield \<Rightarrow> string \<Rightarrow> flagSpec" where
  "field_spec f pfx =
     \<lparr>sp_Name = pfx @ tag_Get f ''flag'', sp_Short = tag_Get f ''short'', sp_Default = tag_Get f ''default'', sp_Format = tag_Get f ''format'',
      sp_Sep = tag_Get f ''sep'', sp_SepSet = (gf_tag f ''sep'' \<noteq> None), sp_Enum = [], sp_EnumSet = False, sp_EnumExactCase = False\<rparr>"

subsection \<open>What a walk does at a struct\<close>

text \<open>Passing over a field, going into its struct with a prefix, or taking it as a field of its own.\<close>

datatype visit = Skip | Into string | AsLeaf | Fail conf_error

fun struct_of :: "gofield \<Rightarrow> (bool \<times> gofield list) option" where
  "struct_of (GoField _ _ _ _ (TStruct b sub)) = Some (b, sub)"
| "struct_of _ = None"

definition child_prefix :: "gofield \<Rightarrow> string \<Rightarrow> string" where
  "child_prefix f pfx = (let ns = tag_Get f ''flag'' in if ns \<noteq> '''' \<and> \<not> gf_anonymous f then pfx @ ns @ ''.'' else pfx)"

text \<open>
  The reflection package refuses to hand out what was reached through a field that is neither exported nor embedded: the last
  argument.  Only the walks that come first can meet such a field.
\<close>

definition bindStructField :: "gofield \<Rightarrow> bool \<Rightarrow> string \<Rightarrow> bool \<Rightarrow> visit" where
  "bindStructField f isValue pfx sticky =
     (if tag_Get f ''cmd'' \<noteq> '''' then Skip
      else if \<not> gf_exported f then Into pfx
      else if sticky then Fail Panicked
      else if isValue then AsLeaf
      else Into (child_prefix f pfx))"

definition checkStructField :: "gofield \<Rightarrow> bool \<Rightarrow> string \<Rightarrow> visit" where
  "checkStructField f isValue pfx =
     (if tag_Get f ''cmd'' \<noteq> '''' then Skip
      else if \<not> gf_exported f then Into pfx
      else if isValue then AsLeaf
      else Into (child_prefix f pfx))"

definition becomes_sticky :: "gofield \<Rightarrow> bool" where "becomes_sticky f \<longleftrightarrow> \<not> gf_exported f \<and> \<not> gf_anonymous f"

lemma struct_of_size: "struct_of f = Some (b, sub) \<Longrightarrow> size_list size sub < size f"
  by (cases f rule: struct_of.cases) auto

subsection \<open>Binding flags\<close>

definition bind_leaf :: "'o golib \<Rightarrow> gofield \<Rightarrow> string \<Rightarrow> path \<Rightarrow> bool \<Rightarrow> 'o flagset \<times> 'o memory \<Rightarrow> 'o bound" where
  "bind_leaf L f pfx p sticky = (\<lambda>(fs, m).
     let name = tag_Get f ''flag''; narg = tag_Get f ''narg'' in
     if \<not> checkNargTags f name narg then Inl ErrInvalidSpecification
     else if narg = ''rest'' \<or> name = '''' then Inr (fs, m)
     else if \<not> checkExportedFlag f \<or> \<not> checkSepTag f (gf_tag f ''sep'' \<noteq> None) then Inl ErrInvalidSpecification
     else case enumTags f (field_spec f pfx) of
            None \<Rightarrow> Inl ErrInvalidSpecification
          | Some spec \<Rightarrow> if sticky then Inl Panicked else registerFlag L spec (gf_type f) p fs m)"

function bindFlags :: "'o golib \<Rightarrow> gofield list \<Rightarrow> string \<Rightarrow> path \<Rightarrow> nat \<Rightarrow> bool \<Rightarrow> 'o flagset \<times> 'o memory \<Rightarrow> 'o bound" where
  "bindFlags L [] pfx base i sticky st = Inr st"
| "bindFlags L (f # fds) pfx base i sticky st =
     (case (case struct_of f of None \<Rightarrow> AsLeaf | Some (isValue, _) \<Rightarrow> bindStructField f isValue pfx sticky) of
        Skip \<Rightarrow> bindFlags L fds pfx base (Suc i) sticky st
      | Fail e \<Rightarrow> Inl e
      | Into pre \<Rightarrow>
          (case struct_of f of
             None \<Rightarrow> Inl Panicked
           | Some (_, sub) \<Rightarrow>
               (case bindFlags L sub pre (base @ [i]) 0 (sticky \<or> becomes_sticky f) st of
                  Inl e \<Rightarrow> Inl e | Inr st1 \<Rightarrow> bindFlags L fds pfx base (Suc i) sticky st1))
      | AsLeaf \<Rightarrow>
          (case bind_leaf L f pfx (base @ [i]) sticky st of
             Inl e \<Rightarrow> Inl e | Inr st1 \<Rightarrow> bindFlags L fds pfx base (Suc i) sticky st1))"
  by pat_completeness auto
termination
  by (relation "measure (\<lambda>(_, fs, _). size_list size fs)") (auto dest: struct_of_size)

declare bindFlags.simps(2) [simp del]

subsection \<open>Required fds\<close>

definition check_leaf :: "'o golib \<Rightarrow> gofield \<Rightarrow> 'o gvalue \<Rightarrow> bool" where
  "check_leaf L f v =
     (if is_slice (gf_type f)
      then \<not> (tag_Get f ''required'' = ''true'' \<and> IsZero L v \<and> (tag_Get f ''narg'' = ''rest'' \<or> tag_Get f ''flag'' \<noteq> ''''))
      else \<not> (tag_Get f ''required'' = ''true'' \<and> tag_Get f ''flag'' \<noteq> '''' \<and> IsZero L v))"

function checkRequired :: "'o golib \<Rightarrow> gofield list \<Rightarrow> path \<Rightarrow> nat \<Rightarrow> 'o memory \<Rightarrow> bool" where
  "checkRequired L [] base i m = True"
| "checkRequired L (f # fds) base i m =
     (case (case struct_of f of None \<Rightarrow> AsLeaf | Some (isValue, _) \<Rightarrow> checkStructField f isValue '''') of
        Into _ \<Rightarrow> (case struct_of f of None \<Rightarrow> False | Some (_, sub) \<Rightarrow> checkRequired L sub (base @ [i]) 0 m \<and> checkRequired L fds base (Suc i) m)
      | AsLeaf \<Rightarrow> check_leaf L f (mem_val m (base @ [i])) \<and> checkRequired L fds base (Suc i) m
      | _ \<Rightarrow> checkRequired L fds base (Suc i) m)"
  by pat_completeness auto
termination
  by (relation "measure (\<lambda>(_, fs, _). size_list size fs)") (auto dest: struct_of_size)

declare checkRequired.simps(2) [simp del]

end
