(* ===== verification/ConflParse.thy ===== *)
theory ConflParse
  imports ConflBind
begin

text \<open>
  The environment, the positional arguments and the whole sequence of \<open>src/confl\<close>: bind, parse, fill, check.
\<close>

subsection \<open>The environment\<close>

record envOpts =
  nonEmptyOnly :: bool
  takesPriority :: bool
  orCLI :: bool
  exclusive :: bool
  lastWins :: bool

definition isKnownEnvOpt :: "string \<Rightarrow> bool" where
  "isKnownEnvOpt s \<longleftrightarrow> s \<in> {''env-nonempty-only'', ''env-takes-priority'', ''env-or-cli'', ''env-exclusive'', ''env-last-wins''}"

definition set_env_opt :: "string \<Rightarrow> envOpts \<Rightarrow> envOpts" where
  "set_env_opt part opt =
     (if part = ''env-nonempty-only'' then opt\<lparr>nonEmptyOnly := True\<rparr>
      else if part = ''env-takes-priority'' then opt\<lparr>takesPriority := True\<rparr>
      else if part = ''env-or-cli'' then opt\<lparr>orCLI := True\<rparr>
      else if part = ''env-exclusive'' then opt\<lparr>exclusive := True\<rparr>
      else if part = ''env-last-wins'' then opt\<lparr>lastWins := True\<rparr> else opt)"

definition parseEnvOpts :: "string \<Rightarrow> envOpts" where
  "parseEnvOpts optsTag =
     fold set_env_opt (splitTrimmed optsTag '','')
       \<lparr>nonEmptyOnly = False, takesPriority = False, orCLI = False, exclusive = False, lastWins = False\<rparr>"

type_synonym environ = "string \<Rightarrow> string option"

fun first_env :: "environ \<Rightarrow> bool \<Rightarrow> string list \<Rightarrow> string option" where
  "first_env env nonEmpty [] = None"
| "first_env env nonEmpty (name # vars) =
     (case env name of
        None \<Rightarrow> first_env env nonEmpty vars
      | Some v \<Rightarrow> if nonEmpty \<and> v = '''' then first_env env nonEmpty vars else Some v)"

definition resolveEnvVars :: "environ \<Rightarrow> string list \<Rightarrow> envOpts \<Rightarrow> string option" where
  "resolveEnvVars env vars opts = first_env env (nonEmptyOnly opts) (if lastWins opts then rev vars else vars)"

definition env_leaf :: "'o golib \<Rightarrow> environ \<Rightarrow> 'o flagset \<Rightarrow> string set \<Rightarrow> gofield \<Rightarrow> string \<Rightarrow> 'o memory \<Rightarrow> conf_error + 'o memory" where
  "env_leaf L env fs cliSet f pfx m =
     (let name = tag_Get f ''flag''; envTag = tag_Get f ''env'' in
      if name = '''' \<or> envTag = '''' then Inr m
      else let fullName = pfx @ name; opts = parseEnvOpts (tag_Get f ''opts''); short = tag_Get f ''short'';
               cliWasSet = (fullName \<in> cliSet \<or> short \<noteq> '''' \<and> short \<in> cliSet) in
           if exclusive opts \<and> cliWasSet then Inl ErrInvalidInput
           else case resolveEnvVars env (splitTrimmed envTag '','') opts of
                  None \<Rightarrow> Inr m
                | Some envVal \<Rightarrow>
                    if orCLI opts \<and> cliWasSet then Inl ErrInvalidInput
                    else if cliWasSet \<and> \<not> takesPriority opts then Inr m
                    else (case Lookup fs fullName of
                            None \<Rightarrow> Inr m
                          | Some st \<Rightarrow> (case set_flag L st envVal m of None \<Rightarrow> Inl ErrInvalidInput | Some m1 \<Rightarrow> Inr m1)))"

function applyEnvVarsWalk :: "'o golib \<Rightarrow> environ \<Rightarrow> 'o flagset \<Rightarrow> string set \<Rightarrow> gofield list \<Rightarrow> string \<Rightarrow> 'o memory \<Rightarrow> conf_error + 'o memory" where
  "applyEnvVarsWalk L env fs cliSet [] pfx m = Inr m"
| "applyEnvVarsWalk L env fs cliSet (f # fds) pfx m =
     (case (case struct_of f of None \<Rightarrow> AsLeaf | Some (isValue, _) \<Rightarrow> checkStructField f isValue pfx) of
        Into pre \<Rightarrow>
          (case struct_of f of
             None \<Rightarrow> Inl Panicked
           | Some (_, sub) \<Rightarrow> (case applyEnvVarsWalk L env fs cliSet sub pre m of
                                Inl e \<Rightarrow> Inl e | Inr m1 \<Rightarrow> applyEnvVarsWalk L env fs cliSet fds pfx m1))
      | AsLeaf \<Rightarrow> (case env_leaf L env fs cliSet f pfx m of Inl e \<Rightarrow> Inl e | Inr m1 \<Rightarrow> applyEnvVarsWalk L env fs cliSet fds pfx m1)
      | _ \<Rightarrow> applyEnvVarsWalk L env fs cliSet fds pfx m)"
  by pat_completeness auto
termination
  by (relation "measure (\<lambda>(_, _, _, _, fs, _). size_list size fs)") (auto dest: struct_of_size)

declare applyEnvVarsWalk.simps(2) [simp del]

definition applyEnvVars :: "'o golib \<Rightarrow> environ \<Rightarrow> 'o flagset \<Rightarrow> gofield list \<Rightarrow> 'o memory \<Rightarrow> conf_error + 'o memory" where
  "applyEnvVars L env fs fds m = applyEnvVarsWalk L env fs (set (fs_actual fs)) fds '''' m"

subsection \<open>Positional arguments\<close>

definition until_leaf :: "gofield \<Rightarrow> string \<Rightarrow> string set" where
  "until_leaf f pfx =
     (if tag_Get f ''narg'' \<noteq> ''until'' \<or> tag_Get f ''flag'' = '''' then {}
      else insert (pfx @ tag_Get f ''flag'') (if tag_Get f ''short'' \<noteq> '''' then {tag_Get f ''short''} else {}))"

function collectUntilFlags :: "gofield list \<Rightarrow> string \<Rightarrow> string set" where
  "collectUntilFlags [] pfx = {}"
| "collectUntilFlags (f # fds) pfx =
     (case (case struct_of f of None \<Rightarrow> AsLeaf | Some (isValue, _) \<Rightarrow> checkStructField f isValue pfx) of
        Into pre \<Rightarrow> (case struct_of f of None \<Rightarrow> {} | Some (_, sub) \<Rightarrow> collectUntilFlags sub pre) \<union> collectUntilFlags fds pfx
      | AsLeaf \<Rightarrow> (if struct_of f = None then until_leaf f pfx else {}) \<union> collectUntilFlags fds pfx
      | _ \<Rightarrow> collectUntilFlags fds pfx)"
  by pat_completeness auto
termination
  by (relation "measure (\<lambda>(fs, _). size_list size fs)") (auto dest: struct_of_size)

declare collectUntilFlags.simps(2) [simp del]

text \<open>The field for the rest: its position and type, if there is one.\<close>

fun rest_scan :: "gofield list \<Rightarrow> nat \<Rightarrow> (nat \<times> gotype) option \<Rightarrow> bool \<Rightarrow> conf_error + (nat \<times> gotype) option \<times> bool" where
  "rest_scan [] i found hasCmd = Inr (found, hasCmd)"
| "rest_scan (f # fds) i found hasCmd =
     (if tag_Get f ''cmd'' \<noteq> '''' then rest_scan fds (Suc i) found True
      else if tag_Get f ''narg'' \<noteq> ''rest'' then rest_scan fds (Suc i) found hasCmd
      else if found \<noteq> None then Inl ErrInvalidSpecification
      else rest_scan fds (Suc i) (Some (i, gf_type f)) hasCmd)"

definition collectRestField :: "gofield list \<Rightarrow> conf_error + (nat \<times> gotype) option" where
  "collectRestField fds =
     (case rest_scan fds 0 None False of
        Inl e \<Rightarrow> Inl e
      | Inr (None, _) \<Rightarrow> Inr None
      | Inr (Some r, hasCmd) \<Rightarrow> if hasCmd then Inl ErrInvalidSpecification else Inr (Some r))"

definition rest_basic :: "basic \<Rightarrow> bool" where
  "rest_basic b \<longleftrightarrow> (case b of BString \<Rightarrow> True | BInt _ \<Rightarrow> True | BUint _ \<Rightarrow> True | BFloat _ \<Rightarrow> True | _ \<Rightarrow> False)"

definition restAppend :: "'o golib \<Rightarrow> basic \<Rightarrow> path \<Rightarrow> string list \<Rightarrow> 'o memory \<Rightarrow> conf_error + 'o memory" where
  "restAppend L b p args m =
     (case those (map (parse_basic L '''' b) args) of
        None \<Rightarrow> Inl ErrInvalidInput | Some vs \<Rightarrow> Inr (put_val p (VSlice (slice_at m p @ vs)) m))"

definition appendRestArgs :: "'o golib \<Rightarrow> gotype \<Rightarrow> path \<Rightarrow> string list \<Rightarrow> 'o memory \<Rightarrow> conf_error + 'o memory" where
  "appendRestArgs L ty p args m =
     (case ty of
        Leaf Slice (Basic b) \<Rightarrow> if rest_basic b then restAppend L b p args m else Inl ErrInvalidSpecification
      | _ \<Rightarrow> Inl ErrInvalidSpecification)"

definition populateRestField :: "'o golib \<Rightarrow> gofield list \<Rightarrow> path \<Rightarrow> string list \<Rightarrow> 'o memory \<Rightarrow> conf_error + 'o memory" where
  "populateRestField L fds base args m =
     (case collectRestField fds of
        Inl e \<Rightarrow> Inl e
      | Inr None \<Rightarrow> Inr m
      | Inr (Some (i, ty)) \<Rightarrow> if args = [] then Inr m else appendRestArgs L ty (base @ [i]) args m)"

subsection \<open>Parsing a command line\<close>

text \<open>Several structs can share the command line; each has its own place in memory.\<close>

fun finalize :: "'o golib \<Rightarrow> environ \<Rightarrow> 'o flagset \<Rightarrow> (gofield list \<times> path) list \<Rightarrow> 'o memory \<Rightarrow> conf_error + 'o memory" where
  "finalize L env fs [] m = Inr m"
| "finalize L env fs ((fds, base) # vals) m =
     (case populateRestField L fds base (fs_args fs) m of
        Inl e \<Rightarrow> Inl e
      | Inr m1 \<Rightarrow>
          (case applyEnvVars L env fs fds m1 of
             Inl e \<Rightarrow> Inl e
           | Inr m2 \<Rightarrow> if checkRequired L fds base 0 m2 then finalize L env fs vals m2 else Inl ErrInvalidInput))"

definition parseAndFinalize :: "'o golib \<Rightarrow> environ \<Rightarrow> (gofield list \<times> path) list \<Rightarrow> string list \<Rightarrow> 'o flagset \<times> 'o memory \<Rightarrow> 'o bound" where
  "parseAndFinalize L env vals args st =
     (let untilFlags = (\<Union>(fds, _)\<in>set vals. collectUntilFlags fds '''') in
      case FlagSet_Parse L (if untilFlags = {} then args else expandUntilArgs args untilFlags) (fst st) (snd st) of
        Inl e \<Rightarrow> Inl e
      | Inr (fs, m) \<Rightarrow> (case finalize L env fs vals m of Inl e \<Rightarrow> Inl e | Inr m1 \<Rightarrow> Inr (fs, m1)))"

definition parseAndCheck :: "'o golib \<Rightarrow> environ \<Rightarrow> gofield list \<Rightarrow> string list \<Rightarrow> 'o flagset \<times> 'o memory \<Rightarrow> 'o bound" where
  "parseAndCheck L env fds args st =
     (case bindFlags L fds '''' [] 0 False st of Inl e \<Rightarrow> Inl e | Inr st1 \<Rightarrow> parseAndFinalize L env [(fds, [])] args st1)"

text \<open>The registry of structs that share the command line.\<close>

type_synonym registry = "(gofield list \<times> path) list"

definition Registry_Register :: "'o golib \<Rightarrow> gofield list \<Rightarrow> path \<Rightarrow> registry \<Rightarrow> 'o flagset \<times> 'o memory \<Rightarrow> conf_error + registry \<times> 'o flagset \<times> 'o memory" where
  "Registry_Register L fds base r st =
     (case bindFlags L fds '''' base 0 False st of Inl e \<Rightarrow> Inl e | Inr st1 \<Rightarrow> Inr (r @ [(fds, base)], st1))"

definition Registry_ParseAll :: "'o golib \<Rightarrow> environ \<Rightarrow> string list \<Rightarrow> registry \<Rightarrow> 'o flagset \<times> 'o memory \<Rightarrow> 'o bound" where
  "Registry_ParseAll L env args r st = parseAndFinalize L env r args st"

definition confl_Parse :: "'o golib \<Rightarrow> environ \<Rightarrow> gofield list \<Rightarrow> string list \<Rightarrow> 'o flagset \<times> 'o memory \<Rightarrow> 'o bound" where
  "confl_Parse L env fds args st =
     (case Registry_Register L fds [] [] st of Inl e \<Rightarrow> Inl e | Inr (r, st1) \<Rightarrow> Registry_ParseAll L env args r st1)"

end
