(* ===== verification/ConflCommand.thy ===== *)
theory ConflCommand
  imports ConflParse
begin

text \<open>
  \<open>Validate\<close> of \<open>src/confl\<close>, which registers each default on a flag set of its own and writes to the struct while
  it does so, and the subcommands: collecting, selecting, dispatching.
\<close>

subsection \<open>Checking the tags\<close>

definition validateDefault :: "'o golib \<Rightarrow> gotype \<Rightarrow> flagSpec \<Rightarrow> path \<Rightarrow> 'o memory \<Rightarrow> conf_error + 'o memory" where
  "validateDefault L ty spec p m =
     (if sp_Default spec = '''' then Inr m
      else case registerFlag L spec ty p new_flagset m of Inl e \<Rightarrow> Inl e | Inr (_, m1) \<Rightarrow> Inr m1)"

definition env_tags_ok :: "gofield \<Rightarrow> bool" where
  "env_tags_ok f \<longleftrightarrow>
     (case gf_tag f ''env'' of None \<Rightarrow> tag_Get f ''opts'' = '''' | Some e \<Rightarrow> trim_space e \<noteq> '''')
   \<and> (tag_Get f ''opts'' \<noteq> '''' \<longrightarrow> list_all isKnownEnvOpt (splitTrimmed (tag_Get f ''opts'') '',''))"

definition placeholder :: "'o setter" where "placeholder = SetScalar BBool '''' []"

definition validate_leaf :: "'o golib \<Rightarrow> gofield \<Rightarrow> string \<Rightarrow> path \<Rightarrow> bool \<Rightarrow> bool \<Rightarrow> 'o flagset \<times> 'o memory \<Rightarrow> conf_error + bool \<times> 'o flagset \<times> 'o memory" where
  "validate_leaf L f pfx p sticky seenRest = (\<lambda>(fs, m).
     let name = tag_Get f ''flag''; narg = tag_Get f ''narg''; sepSet = (gf_tag f ''sep'' \<noteq> None);
         short = tag_Get f ''short''; fullName = pfx @ name;
         spec0 = (field_spec f pfx)\<lparr>sp_Short := '''', sp_Format := ''''\<rparr> in
     if \<not> checkNargTags f name narg then Inl ErrInvalidSpecification
     else if narg = ''rest'' then (if seenRest then Inl ErrInvalidSpecification else Inr (True, fs, m))
     else if gf_tag f ''env'' \<noteq> None \<and> name = '''' then Inl ErrInvalidSpecification
     else if name = '''' then Inr (seenRest, fs, m)
     else if \<not> checkExportedFlag f \<or> \<not> env_tags_ok f \<or> \<not> checkSepTag f sepSet then Inl ErrInvalidSpecification
     else if is_slice (gf_type f) \<and> tag_Get f ''default'' \<noteq> '''' \<and> \<not> sepSet then Inl ErrInvalidSpecification
     else if short \<noteq> '''' \<and> length short \<noteq> 1 then Inl ErrInvalidSpecification
     else if Lookup fs fullName \<noteq> None \<or> short \<noteq> '''' \<and> Lookup fs short \<noteq> None then Inl ErrInvalidSpecification
     else if sticky then Inl Panicked
     else case enumTags f spec0 of
            None \<Rightarrow> Inl ErrInvalidSpecification
          | Some spec \<Rightarrow>
              (case (if sp_EnumSet spec
                     then (case registerFlag L spec (gf_type f) p new_flagset m of Inl e \<Rightarrow> Inl e | Inr (_, m1) \<Rightarrow> Inr m1)
                     else validateDefault L (gf_type f) (spec0\<lparr>sp_Format := tag_Get f ''format''\<rparr>) p m) of
                 Inl e \<Rightarrow> Inl e
               | Inr m1 \<Rightarrow>
                   (case registerAlias ((field_spec f pfx)\<lparr>sp_Name := fullName, sp_Short := short\<rparr>) placeholder fs of
                      Inl e \<Rightarrow> Inl e | Inr fs1 \<Rightarrow> Inr (seenRest, fs1, m1))))"

text \<open>What \<open>validateStructField\<close> finds: a subcommand is checked with a flag set of its own.\<close>

datatype check_visit = ACommand | AStruct string | ALeaf | Bad conf_error

definition validateStructField :: "gofield \<Rightarrow> bool \<Rightarrow> string \<Rightarrow> bool \<Rightarrow> check_visit" where
  "validateStructField f isValue pfx sticky =
     (if tag_Get f ''cmd'' \<noteq> ''''
      then (if \<not> gf_exported f \<or> gf_tag f ''flag'' \<noteq> None then Bad ErrInvalidSpecification else ACommand)
      else if \<not> gf_exported f then AStruct pfx
      else if sticky then Bad Panicked
      else if isValue then ALeaf
      else AStruct (child_prefix f pfx))"

function validateStruct :: "'o golib \<Rightarrow> gofield list \<Rightarrow> string \<Rightarrow> path \<Rightarrow> nat \<Rightarrow> bool \<Rightarrow> bool \<Rightarrow> bool \<Rightarrow> 'o flagset \<times> 'o memory \<Rightarrow> 'o bound" where
  "validateStruct L [] pfx base i sticky seenRest hasCmd st = (if seenRest \<and> hasCmd then Inl ErrInvalidSpecification else Inr st)"
| "validateStruct L (f # fds) pfx base i sticky seenRest hasCmd st =
     (case (case struct_of f of None \<Rightarrow> ALeaf | Some (isValue, _) \<Rightarrow> validateStructField f isValue pfx sticky) of
        Bad e \<Rightarrow> Inl e
      | ACommand \<Rightarrow>
          (case struct_of f of
             None \<Rightarrow> Inl Panicked
           | Some (_, sub) \<Rightarrow>
               (case validateStruct L sub '''' (base @ [i]) 0 (sticky \<or> becomes_sticky f) False False (new_flagset, snd st) of
                  Inl e \<Rightarrow> Inl e
                | Inr (_, m1) \<Rightarrow> validateStruct L fds pfx base (Suc i) sticky seenRest True (fst st, m1)))
      | AStruct pre \<Rightarrow>
          (case struct_of f of
             None \<Rightarrow> Inl Panicked
           | Some (_, sub) \<Rightarrow>
               (case validateStruct L sub pre (base @ [i]) 0 (sticky \<or> becomes_sticky f) False False st of
                  Inl e \<Rightarrow> Inl e
                | Inr st1 \<Rightarrow> validateStruct L fds pfx base (Suc i) sticky seenRest hasCmd st1))
      | ALeaf \<Rightarrow>
          (case validate_leaf L f pfx (base @ [i]) sticky seenRest st of
             Inl e \<Rightarrow> Inl e
           | Inr (seen1, st1) \<Rightarrow> validateStruct L fds pfx base (Suc i) sticky seen1 hasCmd st1))"
  by pat_completeness auto
termination
  by (relation "measure (\<lambda>(_, fs, _). size_list size fs)") (auto dest: struct_of_size)

declare validateStruct.simps(2) [simp del]

definition confl_Validate :: "'o golib \<Rightarrow> gofield list \<Rightarrow> 'o memory \<Rightarrow> conf_error + 'o memory" where
  "confl_Validate L fds m =
     (case validateStruct L fds '''' [] 0 False False False (new_flagset, m) of Inl e \<Rightarrow> Inl e | Inr (_, m1) \<Rightarrow> Inr m1)"

subsection \<open>Collecting subcommands\<close>

record 'o subcommandEntry =
  sc_name :: string
  sc_path :: path
  sc_fields :: "gofield list"
  sc_fs :: "'o flagset"
  sc_commander :: bool

text \<open>Which structs, by their place, implement \<open>Commander\<close>.\<close>

type_synonym commanders = "path \<Rightarrow> bool"

definition help_fields :: "gofield list" where
  "help_fields = [GoField ''Topics'' True False (\<lambda>k. if k = ''narg'' then Some ''rest'' else None) (Leaf Slice (Basic BString)),
     GoField ''parent'' False False (\<lambda>_. None) (Unsupported False), GoField ''entries'' False False (\<lambda>_. None) (Unsupported True)]"

fun collect_loop :: "'o golib \<Rightarrow> commanders \<Rightarrow> gofield list \<Rightarrow> path \<Rightarrow> nat \<Rightarrow> 'o memory \<Rightarrow> conf_error + 'o subcommandEntry list \<times> 'o memory" where
  "collect_loop L cmdr [] base i m = Inr ([], m)"
| "collect_loop L cmdr (f # fds) base i m =
     (if tag_Get f ''cmd'' = '''' then collect_loop L cmdr fds base (Suc i) m
      else if gf_tag f ''flag'' \<noteq> None \<or> \<not> gf_exported f then Inl ErrInvalidSpecification
      else case struct_of f of
             None \<Rightarrow> Inl ErrInvalidSpecification
           | Some (_, sub) \<Rightarrow>
               (case bindFlags L sub '''' (base @ [i]) 0 False (new_flagset, m) of
                  Inl e \<Rightarrow> Inl e
                | Inr (fs, m1) \<Rightarrow>
                    (case collect_loop L cmdr fds base (Suc i) m1 of
                       Inl e \<Rightarrow> Inl e
                     | Inr (es, m2) \<Rightarrow>
                         Inr (\<lparr>sc_name = tag_Get f ''cmd'', sc_path = base @ [i], sc_fields = sub, sc_fs = fs, sc_commander = cmdr (base @ [i])\<rparr> # es, m2))))"

definition collectSubcommands :: "'o golib \<Rightarrow> commanders \<Rightarrow> gofield list \<Rightarrow> path \<Rightarrow> 'o memory \<Rightarrow> conf_error + 'o subcommandEntry list \<times> 'o memory" where
  "collectSubcommands L cmdr fds base m =
     (if (\<exists>f\<in>set fds. tag_Get f ''narg'' = ''rest'') \<and> (\<exists>f\<in>set fds. tag_Get f ''cmd'' \<noteq> '''') then Inl ErrInvalidSpecification
      else case collect_loop L cmdr fds base 0 m of
             Inl e \<Rightarrow> Inl e
           | Inr (es, m1) \<Rightarrow>
               if es = [] \<or> (\<exists>e\<in>set es. sc_name e = ''help'') then Inr (es, m1)
               else let hp = base @ [length fds] in
                    Inr (es @ [\<lparr>sc_name = ''help'', sc_path = hp, sc_fields = help_fields, sc_fs = new_flagset, sc_commander = True\<rparr>],
                         put_val (hp @ [0]) (VSlice []) m1))"

subsection \<open>The depth of subcommands\<close>

function cmd_weight :: "gofield list \<Rightarrow> nat" where
  "cmd_weight [] = 0"
| "cmd_weight (f # fds) =
     (case struct_of f of Some (_, sub) \<Rightarrow> if tag_Get f ''cmd'' \<noteq> '''' then cmd_weight sub + 2 else 0 | None \<Rightarrow> 0) + cmd_weight fds"
  by pat_completeness auto
termination
  by (relation "measure (size_list size)") (auto dest: struct_of_size)

definition entries_weight :: "'o subcommandEntry list \<Rightarrow> nat" where "entries_weight es = (\<Sum>e\<leftarrow>es. Suc (cmd_weight (sc_fields e)))"

lemma entries_weight_simps [simp]:
  "entries_weight [] = 0" "entries_weight (e # es) = Suc (cmd_weight (sc_fields e)) + entries_weight es" "entries_weight (es @ es') = entries_weight es + entries_weight es'"
  by (simp_all add: entries_weight_def)

lemma entries_weight_member: "e \<in> set es \<Longrightarrow> cmd_weight (sc_fields e) < entries_weight es"
  by (induction es) auto

lemma collect_loop_weight: "collect_loop L cmdr fds base i m = Inr (es, m1) \<Longrightarrow> entries_weight es + length es \<le> cmd_weight fds"
proof (induction fds arbitrary: i m es m1)
  case (Cons f fds)
  show ?case
  proof (cases "tag_Get f ''cmd'' = ''''")
    case True
    then have "entries_weight es + length es \<le> cmd_weight fds" using Cons by simp
    then show ?thesis by simp
  next
    case False
    then show ?thesis using Cons.prems Cons.IH
      by (auto split: if_splits option.splits sum.splits prod.splits)
  qed
qed simp

lemma cmd_weight_help [simp]: "cmd_weight help_fields = 0"
  by (simp add: help_fields_def)

lemma collectSubcommands_weight:
  assumes "collectSubcommands L cmdr fds base m = Inr (es, m1)"
  shows "entries_weight es \<le> cmd_weight fds"
proof -
  obtain es0 m0 where loop: "collect_loop L cmdr fds base 0 m = Inr (es0, m0)"
    using assms by (auto simp: collectSubcommands_def split: if_splits sum.splits)
  have "entries_weight es0 + length es0 \<le> cmd_weight fds" by (rule collect_loop_weight[OF loop])
  then show ?thesis using assms loop by (cases es0) (auto simp: collectSubcommands_def Let_def split: if_splits)
qed

subsection \<open>Selecting and dispatching\<close>

function validateCommanders :: "'o golib \<Rightarrow> commanders \<Rightarrow> 'o subcommandEntry list \<Rightarrow> 'o memory \<Rightarrow> conf_error + 'o memory" where
  "validateCommanders L cmdr [] m = Inr m"
| "validateCommanders L cmdr (e # es) m =
     (if \<not> sc_commander e then Inl ErrInvalidSpecification
      else case collectSubcommands L cmdr (sc_fields e) (sc_path e) m of
             Inl x \<Rightarrow> Inl x
           | Inr (inner, m1) \<Rightarrow>
               (case validateCommanders L cmdr inner m1 of Inl x \<Rightarrow> Inl x | Inr m2 \<Rightarrow> validateCommanders L cmdr es m2))"
  by pat_completeness auto
termination
  by (relation "measure (\<lambda>(_, _, es, _). entries_weight es)") (auto dest: collectSubcommands_weight)

declare validateCommanders.simps(2) [simp del]

text \<open>The selected struct, by its place, and whether it is a \<open>Commander\<close>.\<close>

function selectSubcommand :: "'o golib \<Rightarrow> commanders \<Rightarrow> 'o subcommandEntry list \<Rightarrow> string list \<Rightarrow> 'o memory \<Rightarrow> conf_error + (path \<times> bool) \<times> 'o memory" where
  "selectSubcommand L cmdr entries remaining m =
     (if entries = [] \<or> remaining = [] then Inl ErrNotFound
      else case find (\<lambda>e. sc_name e = hd remaining) entries of
             None \<Rightarrow> Inl ErrInvalidInput
           | Some e \<Rightarrow>
               (let untilFlags = collectUntilFlags (sc_fields e) ''''; subArgs = tl remaining in
                case FlagSet_Parse L (if untilFlags = {} then subArgs else expandUntilArgs subArgs untilFlags) (sc_fs e) m of
                  Inl x \<Rightarrow> Inl x
                | Inr (fs, m1) \<Rightarrow>
                    (case populateRestField L (sc_fields e) (sc_path e) (fs_args fs) m1 of
                       Inl x \<Rightarrow> Inl x
                     | Inr m2 \<Rightarrow>
                         if \<not> checkRequired L (sc_fields e) (sc_path e) 0 m2 then Inl ErrInvalidInput
                         else (case collectSubcommands L cmdr (sc_fields e) (sc_path e) m2 of
                                 Inl x \<Rightarrow> Inl x
                               | Inr (inner, m3) \<Rightarrow>
                                   if inner = [] then Inr ((sc_path e, sc_commander e), m3)
                                   else (case selectSubcommand L cmdr inner (fs_args fs) m3 of
                                           Inr r \<Rightarrow> Inr r
                                         | Inl x \<Rightarrow> if x \<noteq> ErrNotFound then Inl x else Inr ((sc_path e, sc_commander e), m3))))))"
  by pat_completeness auto
termination
proof (relation "measure (\<lambda>(_, _, es, _). entries_weight es)")
  show "wf (measure (\<lambda>(_ :: 'o golib, _ :: commanders, es :: 'o subcommandEntry list, _ :: string list \<times> 'o memory). entries_weight es))" by simp
next
  fix L :: "'o golib" and cmdr :: commanders and entries inner :: "'o subcommandEntry list" and remaining :: "string list"
    and m m2 m3 :: "'o memory" and e :: "'o subcommandEntry" and fs :: "'o flagset" and z :: "'o subcommandEntry list \<times> 'o memory"
  assume "find (\<lambda>e. sc_name e = hd remaining) entries = Some e" "collectSubcommands L cmdr (sc_fields e) (sc_path e) m2 = Inr z" "(inner, m3) = z"
  then have "e \<in> set entries" "entries_weight inner \<le> cmd_weight (sc_fields e)"
    by (auto simp: find_Some_iff dest: collectSubcommands_weight)
  then show "((L, cmdr, inner, fs_args fs, m3), L, cmdr, entries, remaining, m) \<in> measure (\<lambda>(_, _, es, _). entries_weight es)"
    using entries_weight_member[of e entries] by simp
qed

declare selectSubcommand.simps [simp del]

text \<open>
  Without a selection the error is \<open>ErrDispatchNoSelection\<close>, here \<open>None\<close>: the struct has been filled, and a
  caller can go on with it.
\<close>

definition confl_dispatch :: "'o golib \<Rightarrow> environ \<Rightarrow> commanders \<Rightarrow> gofield list \<Rightarrow> string list \<Rightarrow> 'o flagset \<times> 'o memory \<Rightarrow> conf_error + (path \<times> bool) option \<times> 'o memory" where
  "confl_dispatch L env cmdr fds args st =
     (case collectSubcommands L cmdr fds [] (snd st) of
        Inl x \<Rightarrow> Inl x
      | Inr (entries, m1) \<Rightarrow>
          (case parseAndCheck L env fds args (fst st, m1) of
             Inl x \<Rightarrow> Inl x
           | Inr (fs, m2) \<Rightarrow>
               (case selectSubcommand L cmdr entries (fs_args fs) m2 of
                  Inl x \<Rightarrow> if x = ErrNotFound then Inr (None, m2) else Inl x
                | Inr (r, m3) \<Rightarrow> Inr (Some r, m3))))"

definition tryCastCommander :: "path \<times> bool \<Rightarrow> conf_error + path" where
  "tryCastCommander r = (if snd r then Inr (fst r) else Inl ErrInvalidSpecification)"

definition conflagureCmd :: "'o golib \<Rightarrow> environ \<Rightarrow> commanders \<Rightarrow> gofield list \<Rightarrow> string list \<Rightarrow> 'o flagset \<times> 'o memory \<Rightarrow> conf_error + path \<times> 'o memory" where
  "conflagureCmd L env cmdr fds args st =
     (case collectSubcommands L cmdr fds [] (snd st) of
        Inl x \<Rightarrow> Inl x
      | Inr (entries, m1) \<Rightarrow>
          (case validateCommanders L cmdr entries m1 of
             Inl x \<Rightarrow> Inl x
           | Inr m2 \<Rightarrow>
               (case confl_dispatch L env cmdr fds args (fst st, m2) of
                  Inl x \<Rightarrow> Inl x
                | Inr (None, m3) \<Rightarrow> if cmdr [] then Inr ([], m3) else Inl ErrDispatchNoSelection
                | Inr (Some r, m3) \<Rightarrow> (case tryCastCommander r of Inl x \<Rightarrow> Inl x | Inr p \<Rightarrow> Inr (p, m3)))))"

end
