(* ===== verification/ConflWalk.thy ===== *)
theory ConflWalk
  imports ConflCommand
begin

text \<open>
  All walks of \<open>src/confl\<close> through a struct visit the same fields under the same names: each is a loop over one
  list of leaves.
\<close>

subsection \<open>The leaves of a struct\<close>

text \<open>A leaf with its prefix, its place and whether reflection still hands it out, or the error of the walk.\<close>

datatype item = ItLeaf gofield string path bool | ItFail conf_error

function leaves :: "gofield list \<Rightarrow> string \<Rightarrow> path \<Rightarrow> nat \<Rightarrow> bool \<Rightarrow> item list" where
  "leaves [] pfx base i sticky = []"
| "leaves (f # fds) pfx base i sticky =
     (case (case struct_of f of None \<Rightarrow> AsLeaf | Some (isValue, _) \<Rightarrow> bindStructField f isValue pfx sticky) of
        Skip \<Rightarrow> []
      | Fail e \<Rightarrow> [ItFail e]
      | Into pre \<Rightarrow> (case struct_of f of None \<Rightarrow> [] | Some (_, sub) \<Rightarrow> leaves sub pre (base @ [i]) 0 (sticky \<or> becomes_sticky f))
      | AsLeaf \<Rightarrow> [ItLeaf f pfx (base @ [i]) sticky]) @ leaves fds pfx base (Suc i) sticky"
  by pat_completeness auto
termination
  by (relation "measure (\<lambda>(fs, _). size_list size fs)") (auto dest: struct_of_size)

declare leaves.simps(2) [simp del]

fun bind_items :: "'o golib \<Rightarrow> item list \<Rightarrow> 'o flagset \<times> 'o memory \<Rightarrow> 'o bound" where
  "bind_items L [] st = Inr st"
| "bind_items L (ItFail e # its) st = Inl e"
| "bind_items L (ItLeaf f pfx p sticky # its) st =
     (case bind_leaf L f pfx p sticky st of Inl e \<Rightarrow> Inl e | Inr st1 \<Rightarrow> bind_items L its st1)"

lemma bind_items_append: "bind_items L (xs @ ys) st = (case bind_items L xs st of Inl e \<Rightarrow> Inl e | Inr st1 \<Rightarrow> bind_items L ys st1)"
  by (induction L xs st rule: bind_items.induct) (auto split: sum.split)

fun env_items :: "'o golib \<Rightarrow> environ \<Rightarrow> 'o flagset \<Rightarrow> string set \<Rightarrow> item list \<Rightarrow> 'o memory \<Rightarrow> conf_error + 'o memory" where
  "env_items L env fs cliSet [] m = Inr m"
| "env_items L env fs cliSet (ItFail e # its) m = env_items L env fs cliSet its m"
| "env_items L env fs cliSet (ItLeaf f pfx p sticky # its) m =
     (case env_leaf L env fs cliSet f pfx m of Inl e \<Rightarrow> Inl e | Inr m1 \<Rightarrow> env_items L env fs cliSet its m1)"

lemma env_items_append: "env_items L env fs cs (xs @ ys) m = (case env_items L env fs cs xs m of Inl e \<Rightarrow> Inl e | Inr m1 \<Rightarrow> env_items L env fs cs ys m1)"
  by (induction L env fs cs xs m rule: env_items.induct) (auto split: sum.split)

fun item_ok :: "(gofield \<Rightarrow> path \<Rightarrow> bool) \<Rightarrow> item \<Rightarrow> bool" where
  "item_ok P (ItLeaf f _ p _) = P f p" | "item_ok P (ItFail _) = False"

fun item_until :: "item \<Rightarrow> string set" where
  "item_until (ItLeaf f pfx _ _) = (if struct_of f = None then until_leaf f pfx else {})" | "item_until (ItFail _) = {}"

definition no_fail :: "item list \<Rightarrow> bool" where "no_fail its \<longleftrightarrow> (\<forall>e. ItFail e \<notin> set its)"

lemma no_fail_simps [simp]: "no_fail []" "no_fail (ItFail e # its) = False" "no_fail (ItLeaf f pfx p s # its) = no_fail its" "no_fail (xs @ ys) \<longleftrightarrow> no_fail xs \<and> no_fail ys"
  by (auto simp: no_fail_def)

text \<open>Induction over the fields of a struct and those of the structs in it.\<close>

lemma fields_induct [case_names Nil Cons]:
  assumes "P []" "\<And>f fds. (\<And>b sub. struct_of f = Some (b, sub) \<Longrightarrow> P sub) \<Longrightarrow> P fds \<Longrightarrow> P (f # fds)"
  shows "P fds"
proof (induction "size_list size fds" arbitrary: fds rule: less_induct)
  case less
  show ?case
  proof (cases fds)
    case (Cons f rest)
    have "P sub" if "struct_of f = Some (b, sub)" for b sub
      using less[of sub] struct_of_size[OF that] Cons by simp
    moreover have "P rest" using less[of rest] Cons by simp
    ultimately show ?thesis using assms(2) Cons by blast
  qed (use assms(1) in simp)
qed

text \<open>Where reflection lets the first walk pass, all walks do the same.\<close>

lemma visit_same: "\<forall>e. bindStructField f b pfx s \<noteq> Fail e \<Longrightarrow> bindStructField f b pfx s = checkStructField f b pfx"
  by (auto simp: bindStructField_def checkStructField_def split: if_splits)

subsection \<open>The walks\<close>

lemma bindFlags_leaves: "bindFlags L fds pfx base i sticky st = bind_items L (leaves fds pfx base i sticky) st"
proof (induction fds arbitrary: pfx base i sticky st rule: fields_induct)
  case (Cons f fds)
  show ?case
  proof (cases "struct_of f")
    case None
    then show ?thesis using Cons by (simp add: bindFlags.simps(2) leaves.simps(2) bind_items_append split: sum.split)
  next
    case (Some bs)
    then obtain b sub where bs: "struct_of f = Some (b, sub)" by (cases bs) simp
    show ?thesis using Cons(1)[OF bs] Cons(2) bs
      by (cases "bindStructField f b pfx sticky") (simp_all add: bindFlags.simps(2) leaves.simps(2) bind_items_append split: sum.split)
  qed
qed (simp add: leaves.simps)

lemma applyEnvVarsWalk_leaves:
  "no_fail (leaves fds pfx base i sticky) \<Longrightarrow> applyEnvVarsWalk L env fs cs fds pfx m = env_items L env fs cs (leaves fds pfx base i sticky) m"
proof (induction fds arbitrary: pfx base i sticky m rule: fields_induct)
  case (Cons f fds)
  show ?case
  proof (cases "struct_of f")
    case None
    then show ?thesis using Cons.prems by (simp add: Cons.IH(2)[symmetric] applyEnvVarsWalk.simps(2) leaves.simps(2) env_items_append split: sum.split)
  next
    case (Some bs)
    then obtain b sub where bs: "struct_of f = Some (b, sub)" by (cases bs) simp
    have "\<forall>e. bindStructField f b pfx sticky \<noteq> Fail e" using Cons.prems bs by (auto simp: leaves.simps(2))
    note same = visit_same[OF this]
    show ?thesis using bs Cons.prems
      by (cases "checkStructField f b pfx")
        (simp_all add: Cons.IH(1)[OF bs, symmetric] Cons.IH(2)[symmetric] applyEnvVarsWalk.simps(2) leaves.simps(2) same env_items_append split: sum.split)
  qed
qed (simp add: leaves.simps)

lemma checkStructField_prefix:
  "checkStructField f b '''' = (case checkStructField f b pfx of Into _ \<Rightarrow> Into (if gf_exported f then child_prefix f '''' else '''') | v \<Rightarrow> v)"
  by (simp add: checkStructField_def)

lemma checkRequired_leaves:
  "no_fail (leaves fds pfx base i sticky) \<Longrightarrow>
   checkRequired L fds base i m = list_all (item_ok (\<lambda>f p. check_leaf L f (mem_val m p))) (leaves fds pfx base i sticky)"
proof (induction fds arbitrary: pfx base i sticky rule: fields_induct)
  case (Cons f fds)
  show ?case
  proof (cases "struct_of f")
    case None
    then show ?thesis using Cons.prems by (simp add: Cons.IH(2)[symmetric] checkRequired.simps(2) leaves.simps(2))
  next
    case (Some bs)
    then obtain b sub where bs: "struct_of f = Some (b, sub)" by (cases bs) simp
    have "\<forall>e. bindStructField f b pfx sticky \<noteq> Fail e" using Cons.prems bs by (auto simp: leaves.simps(2))
    note same = visit_same[OF this]
    show ?thesis using bs Cons.prems
      by (cases "checkStructField f b pfx")
        (simp_all add: Cons.IH(1)[OF bs, symmetric] Cons.IH(2)[symmetric] checkRequired.simps(2) leaves.simps(2) same checkStructField_prefix[of f b pfx])
  qed
qed (simp add: leaves.simps)

lemma collectUntilFlags_leaves:
  "no_fail (leaves fds pfx base i sticky) \<Longrightarrow> collectUntilFlags fds pfx = (\<Union>it\<in>set (leaves fds pfx base i sticky). item_until it)"
proof (induction fds arbitrary: pfx base i sticky rule: fields_induct)
  case (Cons f fds)
  show ?case
  proof (cases "struct_of f")
    case None
    then show ?thesis using Cons.prems by (simp add: Cons.IH(2)[symmetric] collectUntilFlags.simps(2) leaves.simps(2))
  next
    case (Some bs)
    then obtain b sub where bs: "struct_of f = Some (b, sub)" by (cases bs) simp
    have "\<forall>e. bindStructField f b pfx sticky \<noteq> Fail e" using Cons.prems bs by (auto simp: leaves.simps(2))
    note same = visit_same[OF this]
    show ?thesis using bs Cons.prems
      by (cases "checkStructField f b pfx")
        (simp_all add: Cons.IH(1)[OF bs, symmetric] Cons.IH(2)[symmetric] collectUntilFlags.simps(2) leaves.simps(2) same )
  qed
qed (simp add: leaves.simps)

lemma bound_no_fail: "bind_items L its st = Inr st1 \<Longrightarrow> no_fail its"
  by (induction L its st rule: bind_items.induct) (auto split: sum.splits)

text \<open>The places of the leaves are below the struct, at or behind its position, and no two are the same.\<close>

lemma leaves_below:
  "ItLeaf f pfx1 p s \<in> set (leaves fds pfx base i sticky) \<Longrightarrow> \<exists>j q. p = base @ j # q \<and> i \<le> j"
proof (induction fds arbitrary: pfx base i sticky rule: fields_induct)
  case (Cons g fds)
  show ?case
  proof (cases "ItLeaf f pfx1 p s \<in> set (leaves fds pfx base (Suc i) sticky)")
    case True
    then show ?thesis using Cons.IH(2) by (meson Suc_leD)
  next
    case False
    show ?thesis
    proof (cases "struct_of g")
      case None
      then show ?thesis using Cons.prems False by (auto simp: leaves.simps(2))
    next
      case (Some bs)
      then obtain b sub where bs: "struct_of g = Some (b, sub)" by (cases bs) simp
      show ?thesis using Cons.prems False bs Cons.IH(1)[OF bs]
        by (cases "bindStructField g b pfx sticky") (auto simp: leaves.simps(2), fastforce)
    qed
  qed
qed (simp add: leaves.simps)

end
