(* ===== verification/ConflEnum.thy ===== *)
theory ConflEnum
  imports ConflFlags
begin

text \<open>
  The tables of enum tags: numbering on machine words is numbering on integers with a range check, and names and values
  are in bijection.
\<close>

subsection \<open>Numbering\<close>

fun in_type :: "basic \<Rightarrow> int \<Rightarrow> bool" where
  "in_type (BInt bits) n \<longleftrightarrow> - (2 ^ (bits - 1)) \<le> n \<and> n < 2 ^ (bits - 1)"
| "in_type (BUint bits) n \<longleftrightarrow> 0 \<le> n \<and> n < 2 ^ bits"
| "in_type BDuration n \<longleftrightarrow> - (2 ^ 63) \<le> n \<and> n < 2 ^ 63"
| "in_type _ n \<longleftrightarrow> False"

definition integer_type :: "basic \<Rightarrow> bool" where
  "integer_type b \<longleftrightarrow> (case b of BInt bits \<Rightarrow> 0 < bits \<and> bits \<le> 64 | BUint bits \<Rightarrow> 0 < bits \<and> bits \<le> 64 | BDuration \<Rightarrow> True | _ \<Rightarrow> False)"

text \<open>The reference: each entry is one more than the one before, unless it gives a number, and must be in the range of the type.\<close>

definition explicit_value :: "basic \<Rightarrow> string \<Rightarrow> int option" where
  "explicit_value b s = (if is_signed b then ParseInt 64 s else ParseUint 64 s)"

fun iota :: "basic \<Rightarrow> string list \<Rightarrow> int \<Rightarrow> (string \<times> int) list option" where
  "iota b [] nxt = Some []"
| "iota b (item # raw) nxt =
     (case enum_item b item of (name, valStr, hasVal) \<Rightarrow>
        (case (if hasVal then explicit_value b valStr else Some nxt) of
           None \<Rightarrow> None
         | Some n \<Rightarrow> if name = '''' \<or> \<not> in_type b n then None else map_option (Cons (name, n)) (iota b raw (n + 1))))"

definition same_name :: "bool \<Rightarrow> string \<Rightarrow> string \<Rightarrow> bool" where
  "same_name exact s t \<longleftrightarrow> s = t \<or> \<not> exact \<and> equal_fold s t"

definition apart :: "bool \<Rightarrow> string \<times> 'v \<Rightarrow> string \<times> 'v \<Rightarrow> bool" where
  "apart exact e f \<longleftrightarrow> \<not> same_name exact (fst e) (fst f) \<and> snd e \<noteq> snd f"

lemma apart_commute: "apart exact e f \<longleftrightarrow> apart exact f e"
  by (auto simp: apart_def same_name_def equal_fold_def)

subsection \<open>The counter\<close>

definition word_value :: "basic \<Rightarrow> 64 word \<Rightarrow> int" where "word_value b w = (if is_signed b then sint w else uint w)"
definition range_top :: "basic \<Rightarrow> int" where "range_top b = (if is_signed b then 2 ^ 63 else 2 ^ 64)"

definition counts :: "basic \<Rightarrow> enumCounter \<Rightarrow> int \<Rightarrow> bool" where
  "counts b c nxt \<longleftrightarrow> (if ec_wrapped c then nxt = range_top b else nxt = word_value b (ec_next c))"

lemma sint_of_int: "- (2 ^ 63) \<le> n \<Longrightarrow> n < 2 ^ 63 \<Longrightarrow> sint (of_int n :: 64 word) = n"
  by (simp add: signed_of_int signed_take_bit_int_eq_self)

lemma uint_of_int64: "0 \<le> n \<Longrightarrow> n < 2 ^ 64 \<Longrightarrow> uint (of_int n :: 64 word) = n"
  by (simp add: unsigned_of_int take_bit_int_eq_self)

lemma sint_range64: "- (2 ^ 63) \<le> sint (w :: 64 word)" "sint (w :: 64 word) < 2 ^ 63"
  using sint_ge[of w] sint_lt[of w] by simp_all

lemma uint_range64: "0 \<le> uint (w :: 64 word)" "uint (w :: 64 word) < 2 ^ 64"
  using uint_lt2p[of w] by simp_all

lemma word_value_Suc: "word_value b w + 1 \<noteq> range_top b \<Longrightarrow> word_value b (w + 1) = word_value b w + 1"
proof (cases "is_signed b")
  case True
  assume "word_value b w + 1 \<noteq> range_top b"
  then have "sint w + 1 < 2 ^ 63" using True sint_range64[of w] by (simp add: word_value_def range_top_def)
  then have "sint (of_int (sint w + 1) :: 64 word) = sint w + 1" using sint_range64(1)[of w] by (intro sint_of_int) simp_all
  then show ?thesis using True by (simp add: word_value_def)
next
  case False
  assume "word_value b w + 1 \<noteq> range_top b"
  then have "uint w + 1 < 2 ^ 64" using False uint_range64[of w] by (simp add: word_value_def range_top_def)
  then have "uint (of_int (uint w + 1) :: 64 word) = uint w + 1" using uint_range64(1)[of w] by (intro uint_of_int64) simp_all
  then show ?thesis using False by (simp add: word_value_def)
qed

lemma explicit_range: "explicit_value b s = Some n \<Longrightarrow> word_value b (of_int n) = n"
proof -
  assume e: "explicit_value b s = Some n"
  show ?thesis
  proof (cases "is_signed b")
    case True
    then have "- (2 ^ 63) \<le> n \<and> n < 2 ^ 63"
      using e by (auto simp: explicit_value_def ParseInt_def Let_def split: if_splits option.splits)
    then show ?thesis using True sint_of_int[of n] by (simp add: word_value_def)
  next
    case False
    then have "0 \<le> n \<and> n < 2 ^ 64"
      using e by (auto simp: explicit_value_def ParseUint_def split: if_splits option.splits)
    then show ?thesis using False uint_of_int64[of n] by (simp add: word_value_def)
  qed
qed

lemma overflows_value: "integer_type b \<Longrightarrow> overflows b w \<longleftrightarrow> \<not> in_type b (word_value b w)"
  using sint_range64[of w] uint_range64[of w]
  by (cases b) (auto simp: integer_type_def overflows_def word_value_def is_signed_def)

lemma top_not_in_type: "integer_type b \<Longrightarrow> \<not> in_type b (range_top b)"
proof (cases b)
  case (BInt bits)
  assume "integer_type b"
  then have "(2 :: int) ^ (bits - 1) \<le> 2 ^ 63" using BInt by (intro power_increasing) (auto simp: integer_type_def)
  then show ?thesis using BInt by (simp add: range_top_def is_signed_def)
next
  case (BUint bits)
  assume "integer_type b"
  then have "(2 :: int) ^ bits \<le> 2 ^ 64" using BUint by (intro power_increasing) (auto simp: integer_type_def)
  then show ?thesis using BUint by (simp add: range_top_def is_signed_def)
qed (simp_all add: range_top_def is_signed_def integer_type_def)

text \<open>One entry on words is one entry on integers.\<close>

lemma assign_value:
  assumes "integer_type b" "counts b c nxt"
  shows "case (if hasVal then explicit_value b s else Some nxt) of
      None \<Rightarrow> enumCounter_assign b s hasVal c = None
    | Some n \<Rightarrow> if in_type b n then \<exists>c2. enumCounter_assign b s hasVal c = Some (n, c2) \<and> counts b c2 (n + 1)
                else enumCounter_assign b s hasVal c = None"
proof -
  have start: "enumCounter_assign b s hasVal c =
      (if overflows b w then None else Some (word_value b w, \<lparr>ec_next = w + 1, ec_wrapped = (word_value b w + 1 = range_top b)\<rparr>))"
    if "(if hasVal then map_option of_int (explicit_value b s) else if ec_wrapped c then None else Some (ec_next c)) = Some w" for w
    using that by (auto simp: enumCounter_assign_def explicit_value_def word_value_def range_top_def Let_def split: if_splits)
  have next_ok: "counts b \<lparr>ec_next = w + 1, ec_wrapped = (word_value b w + 1 = range_top b)\<rparr> (word_value b w + 1)" for w
    using word_value_Suc[of b w] by (simp add: counts_def)
  have step: ?thesis if "(if hasVal then explicit_value b s else Some nxt) = Some n" "word_value b w = n"
      "(if hasVal then map_option of_int (explicit_value b s) else if ec_wrapped c then None else Some (ec_next c)) = Some w" for n w
    using that start[OF that(3)] next_ok[of w] overflows_value[OF assms(1), of w] by auto
  show ?thesis
  proof (cases hasVal)
    case True
    show ?thesis
    proof (cases "explicit_value b s")
      case None
      then show ?thesis using True by (simp add: enumCounter_assign_def explicit_value_def Let_def split: if_splits)
    next
      case (Some n)
      show ?thesis using step[of n "of_int n"] explicit_range[OF Some] Some True by simp
    qed
  next
    case False
    show ?thesis
    proof (cases "ec_wrapped c")
      case True
      then show ?thesis using False assms top_not_in_type[OF assms(1)] by (simp add: enumCounter_assign_def counts_def Let_def)
    next
      case nw: False
      then have "nxt = word_value b (ec_next c)" using assms(2) by (simp add: counts_def)
      then show ?thesis by (intro step[of nxt "ec_next c"]) (use False nw in simp_all)
    qed
  qed
qed

subsection \<open>Tables\<close>

definition numbered :: "(string \<times> int) list \<Rightarrow> (string \<times> 'o scalar) list" where "numbered xs = map (\<lambda>(n, v). (n, SInt v)) xs"

lemma byName_None: "enumTable_byName (es, exact) s = None \<longleftrightarrow> (\<forall>e\<in>set es. \<not> same_name exact (fst e) s)"
  by (induction es) (auto simp: enumTable_byName_def same_name_def)

lemma byValue_None: "enumTable_byValue (es, exact) v = None \<longleftrightarrow> (\<forall>e\<in>set es. snd e \<noteq> v)"
  by (auto simp: enumTable_byValue_def find_None_iff)

lemma apart_all: "(\<forall>e\<in>set es. \<not> same_name exact (fst e) s) \<and> (\<forall>e\<in>set es. snd e \<noteq> v) \<longleftrightarrow> (\<forall>e\<in>set es. apart exact e (s, v))"
  by (auto simp: apart_def)

lemma fresh_numbered:
  "enumTable_byName (numbered acc, exact) s = None \<and> enumTable_byValue (numbered acc, exact) (SInt v) = None \<longleftrightarrow> (\<forall>e\<in>set acc. apart exact e (s, v))"
  unfolding byName_None byValue_None by (auto simp: numbered_def apart_def split: prod.splits)

lemma enum_entries_iota:
  assumes "integer_type b"
  shows "counts b c nxt \<Longrightarrow> sorted_wrt (apart exact) acc \<Longrightarrow>
    (enum_entries b raw c (numbered acc, exact) :: 'o enumTable option) =
      (case iota b raw nxt of None \<Rightarrow> None
       | Some xs \<Rightarrow> if sorted_wrt (apart exact) (acc @ xs) then Some (numbered (acc @ xs), exact) else None)"
proof (induction raw arbitrary: c nxt acc)
  case (Cons item raw)
  have b: "b \<noteq> BString" using assms by (auto simp: integer_type_def)
  obtain name valStr hasVal where it: "enum_item b item = (name, valStr, hasVal)" by (metis prod_cases3)
  note av = assign_value[OF assms Cons.prems(1), where hasVal = hasVal and s = valStr]
  show ?case
  proof (cases "if hasVal then explicit_value b valStr else Some nxt")
    case None
    then show ?thesis using av it b by (simp add: enum_next_def)
  next
    case (Some n)
    show ?thesis
    proof (cases "name = '''' \<or> \<not> in_type b n")
      case True
      then show ?thesis using av it b Some by (auto simp: enum_next_def)
    next
      case False
      then obtain c2 where c2: "enumCounter_assign b valStr hasVal c = Some (n, c2)" "counts b c2 (n + 1)" using av Some by auto
      have iota: "iota b (item # raw) nxt = map_option (Cons (name, n)) (iota b raw (n + 1))" using it Some False by simp
      show ?thesis
      proof (cases "\<forall>e\<in>set acc. apart exact e (name, n)")
        case True
        then have s: "sorted_wrt (apart exact) (acc @ [(name, n)])" using Cons.prems(2) by (simp add: sorted_wrt_append)
        have f: "enumTable_byName (numbered acc :: (string \<times> 'o scalar) list, exact) name = None" "enumTable_byValue (numbered acc :: (string \<times> 'o scalar) list, exact) (SInt n) = None"
          using True fresh_numbered by blast+
        have "enum_entries b (item # raw) c (numbered acc :: (string \<times> 'o scalar) list, exact) = enum_entries b raw c2 (numbered (acc @ [(name, n)]), exact)"
          using it b False c2(1) f by (simp add: numbered_def enum_next_def)
        also have "... = (case iota b raw (n + 1) of None \<Rightarrow> None
            | Some xs \<Rightarrow> if sorted_wrt (apart exact) ((acc @ [(name, n)]) @ xs) then Some (numbered ((acc @ [(name, n)]) @ xs), exact) else None)"
          by (rule Cons.IH[OF c2(2) s])
        finally show ?thesis unfolding iota by (simp split: option.split)
      next
        case dup: False
        then have "\<not> (enumTable_byName (numbered acc :: (string \<times> 'o scalar) list, exact) name = None \<and> enumTable_byValue (numbered acc :: (string \<times> 'o scalar) list, exact) (SInt n) = None)"
          using fresh_numbered by blast
        then have l: "enum_entries b (item # raw) c (numbered acc :: (string \<times> 'o scalar) list, exact) = None" using it b False c2(1) by (auto simp: enum_next_def)
        have "\<not> sorted_wrt (apart exact) (acc @ (name, n) # xs)" for xs using dup by (auto simp: sorted_wrt_append)
        then show ?thesis unfolding l iota by (simp split: option.split)
      qed
    qed
  qed
qed (simp add: numbered_def)

text \<open>
  C25: The table of an integer enum is the one that numbers the entries with unbounded integers: each is the number it gives or
  one more than the entry before, starting at zero.  The tag is refused exactly if an entry has no name, a number is
  malformed or outside the range of the type, or two names or two numbers are the same; the 64-bit counter of the code,
  which wraps around, never goes wrong.
\<close>

theorem enum_numbers:
  assumes "integer_type b"
  shows "(parseEnumTag raw b exact :: 'o enumTable option) =
    (case iota b raw 0 of None \<Rightarrow> None | Some xs \<Rightarrow> if sorted_wrt (apart exact) xs then Some (numbered xs, exact) else None)"
proof -
  have c: "counts b \<lparr>ec_next = 0, ec_wrapped = False\<rparr> 0" by (simp add: counts_def word_value_def)
  have k: "enum_kind b" using assms by (auto simp: integer_type_def enum_kind_def split: basic.splits)
  show ?thesis using enum_entries_iota[OF assms c, of exact "[]" raw, where 'o = 'o] k
    by (simp add: parseEnumTag_def numbered_def split: option.splits)
qed

lemmas eval_text = enum_item_def cut_at_def trim_space_def is_space_def explicit_value_def is_signed_def ParseInt_def ParseUint_def digit_def Let_def

lemma enum_numbers_witness:
  "parseEnumTag [''debug=-4'', ''info=0'', ''warn''] (BInt 8) False = Some (numbered [(''debug'', -4), (''info'', 0), (''warn'', 1)], False)
   \<and> parseEnumTag [''max=127'', ''over''] (BInt 8) False = (None :: unit enumTable option)"
proof -
  have i: "integer_type (BInt 8)" by (simp add: integer_type_def)
  have 1: "iota (BInt 8) [''debug=-4'', ''info=0'', ''warn''] 0 = Some [(''debug'', -4), (''info'', 0), (''warn'', 1)]"
    by (simp add: eval_text)
  have 2: "iota (BInt 8) [''max=127'', ''over''] 0 = None" by (simp add: eval_text)
  have 3: "sorted_wrt (apart False) [(''debug'', -4 :: int), (''info'', 0), (''warn'', 1)]"
    by (simp add: apart_def same_name_def equal_fold_def lower_def Let_def)
  show ?thesis using enum_numbers[OF i, of "[''debug=-4'', ''info=0'', ''warn'']" False] enum_numbers[OF i, of "[''max=127'', ''over'']" False] 1 2 3 by simp
qed

subsection \<open>Names and values\<close>

lemma enum_entries_apart:
  "enum_entries b raw c t = Some t2 \<Longrightarrow> sorted_wrt (apart (snd t)) (fst t) \<Longrightarrow> \<forall>e\<in>set (fst t). fst e \<noteq> '''' \<Longrightarrow>
   snd t2 = snd t \<and> sorted_wrt (apart (snd t)) (fst t2) \<and> (\<forall>e\<in>set (fst t2). fst e \<noteq> '''')"
proof (induction b raw c t rule: enum_entries.induct)
  case (2 b item raw c t)
  obtain name valStr hasVal where it: "enum_item b item = (name, valStr, hasVal)" by (metis prod_cases3)
  obtain v c2 where step: "name \<noteq> ''''" "enum_next b name valStr hasVal c = Some (v, c2)" "enumTable_byName t name = None" "enumTable_byValue t v = None"
      "enum_entries b raw c2 (fst t @ [(name, v)], snd t) = Some t2"
    using 2(2) it by (auto simp del: not_None_eq split: if_splits option.splits)
  have "\<forall>e\<in>set (fst t). apart (snd t) e (name, v)"
    using step(3,4) byName_None[of "fst t" "snd t" name] byValue_None[of "fst t" "snd t" v] apart_all[of "fst t" "snd t" name v] by simp
  then have "sorted_wrt (apart (snd t)) (fst t @ [(name, v)])" using 2(3) by (simp add: sorted_wrt_append)
  then show ?case using 2(1)[OF it[symmetric] refl step(1,2) refl] step 2(4) by simp
qed simp

lemma find_unique:
  assumes "x \<in> set xs" "P x" "\<And>y. y \<in> set xs \<Longrightarrow> P y \<Longrightarrow> y = x"
  shows "find P xs = Some x"
proof (cases "find P xs")
  case None
  then show ?thesis using assms(1,2) by (simp add: find_None_iff)
next
  case (Some y)
  then have "y \<in> set xs \<and> P y" by (auto simp: find_Some_iff)
  then show ?thesis using assms(3) Some by simp
qed

lemma byName_find: "byName_in exact s es = find (\<lambda>e. same_name exact (fst e) s) es"
  by (induction exact s es rule: byName_in.induct) (simp_all add: same_name_def)

lemma sorted_apart_D: "sorted_wrt (apart exact) es \<Longrightarrow> e \<in> set es \<Longrightarrow> f \<in> set es \<Longrightarrow> e = f \<or> apart exact e f"
proof (induction es)
  case (Cons g es)
  have g: "\<forall>h\<in>set es. apart exact g h" using Cons.prems(1) by simp
  from Cons.prems(2,3) consider "e \<in> set es" "f \<in> set es" | "e = g" | "f = g" by auto
  then show ?case
  proof cases
    case 1
    then show ?thesis using Cons by simp
  next
    case 2
    then show ?thesis using Cons.prems(3) g by auto
  next
    case 3
    then have "e = g \<or> apart exact g e" using Cons.prems(2) g by auto
    then show ?thesis using 3 by (simp add: apart_commute[of exact e g])
  qed
qed simp

lemma table_lookups:
  assumes "parseEnumTag raw b exact = Some t" "(n, v) \<in> set (fst t)"
  shows "n \<noteq> ''''" "enumTable_byValue t v = Some (n, v)" "same_name exact n s \<Longrightarrow> enumTable_byName t s = Some (n, v)"
proof -
  have "enum_entries b raw \<lparr>ec_next = 0, ec_wrapped = False\<rparr> ([], exact) = Some t" using assms(1) by (auto simp: parseEnumTag_def split: if_splits)
  from enum_entries_apart[OF this] have t: "snd t = exact" "sorted_wrt (apart exact) (fst t)" "\<forall>e\<in>set (fst t). fst e \<noteq> ''''" by simp_all
  show "n \<noteq> ''''" using t(3) assms(2) by fastforce
  show "enumTable_byValue t v = Some (n, v)" unfolding enumTable_byValue_def
    using assms(2) sorted_apart_D[OF t(2) assms(2)] by (intro find_unique) (auto simp: apart_def)
  show "enumTable_byName t s = Some (n, v)" if "same_name exact n s" unfolding enumTable_byName_def byName_find
  proof (intro find_unique)
    show "e = (n, v)" if e: "e \<in> set (fst t)" "same_name (snd t) (fst e) s" for e
    proof -
      have "same_name exact n (fst e)" using e(2) \<open>same_name exact n s\<close> t(1) by (auto simp: same_name_def equal_fold_def)
      then show ?thesis using sorted_apart_D[OF t(2) assms(2) e(1)] by (auto simp: apart_def)
    qed
  qed (use assms(2) t(1) that in simp_all)
qed

text \<open>
  C26: For an enum type that neither parses nor checks its values itself, a text is accepted exactly if it is one of the
  names of the tag, up to case unless the tag says otherwise; it gives the value of that name, and the value is printed
  with the spelling of the tag.  Printing and parsing again gives the value back.
\<close>

theorem enum_roundtrip:
  assumes "parseEnumTag raw (elem_kind e) exact = Some t" "e = Basic b \<or> e = NamedT n b \<and> lib_unmarshal L n = None \<and> (\<forall>v. lib_validate L n v)"
  shows "(enumValue_parse L e t s = Some v \<longleftrightarrow> (\<exists>name. (name, v) \<in> set (fst t) \<and> same_name exact name s \<and> enumValue_nameOf t v = name))
    \<and> (\<forall>(name, v)\<in>set (fst t). enumValue_parse L e t (enumValue_nameOf t v) = Some v \<and> enumValue_nameOf t v = name)"
proof -
  have parse: "enumValue_parse L e t s = map_option snd (enumTable_byName t s)" for s
    using assms(2) by (auto simp: enumValue_parse_def callEnumValidate_def split: option.split)
  have name: "enumValue_nameOf t v = name" if "(name, v) \<in> set (fst t)" for name v
    using table_lookups(2)[OF assms(1) that] by (simp add: enumValue_nameOf_def)
  have snd_t: "snd t = exact" using enum_entries_apart[of "elem_kind e" raw "\<lparr>ec_next = 0, ec_wrapped = False\<rparr>" "([], exact)" t] assms(1)
    by (auto simp: parseEnumTag_def split: if_splits)
  have found: "e2 \<in> set (fst t) \<and> same_name exact (fst e2) s" if "enumTable_byName t s = Some e2" for e2 s
    using that unfolding enumTable_byName_def byName_find snd_t by (auto simp: find_Some_iff)
  have refl: "same_name exact n n" for n by (simp add: same_name_def)
  have "enumValue_parse L e t s = Some v \<longleftrightarrow> (\<exists>name. (name, v) \<in> set (fst t) \<and> same_name exact name s \<and> enumValue_nameOf t v = name)"
  proof
    assume "enumValue_parse L e t s = Some v"
    then obtain e2 where e2: "enumTable_byName t s = Some e2" "snd e2 = v" by (auto simp: parse)
    then have "(fst e2, v) \<in> set (fst t)" using found[OF e2(1)] by auto
    then show "\<exists>name. (name, v) \<in> set (fst t) \<and> same_name exact name s \<and> enumValue_nameOf t v = name"
      using found[OF e2(1)] name by blast
  next
    assume "\<exists>name. (name, v) \<in> set (fst t) \<and> same_name exact name s \<and> enumValue_nameOf t v = name"
    then show "enumValue_parse L e t s = Some v" using table_lookups(3)[OF assms(1)] by (auto simp: parse)
  qed
  moreover have "enumValue_parse L e t (enumValue_nameOf t v) = Some v \<and> enumValue_nameOf t v = name" if "(name, v) \<in> set (fst t)" for name v
    using name[OF that] table_lookups(3)[OF assms(1) that refl] by (simp add: parse)
  ultimately show ?thesis by blast
qed

text \<open>A library without opaque values.\<close>

definition plain_lib :: "unit golib" where
  "plain_lib = \<lparr>lib_float = \<lambda>_ _. None, lib_time = \<lambda>_ _. None, lib_duration = \<lambda>_. None, lib_now = (), lib_zero_float = (), lib_zero_time = (),
     lib_is_zero = \<lambda>_. True, lib_set = \<lambda>_ _. Some (), lib_validate = \<lambda>_ _. True, lib_unmarshal = \<lambda>_. None\<rparr>"

lemma enum_roundtrip_witness:
  "enumValue_parse plain_lib (Basic BString) ([(''json'', SString ''json''), (''yaml'', SString ''yaml'')], False) ''JSON'' = Some (SString ''json'')"
proof -
  let ?t = "([(''json'', SString ''json''), (''yaml'', SString ''yaml'')], False) :: unit enumTable"
  have 1: "parseEnumTag [''json'', ''yaml''] (elem_kind (Basic BString)) False = Some ?t"
    by (simp add: parseEnumTag_def enum_kind_def enum_item_def enum_next_def enumTable_byName_def enumTable_byValue_def equal_fold_def lower_def Let_def)
  have 2: "same_name False ''json'' ''JSON''" by code_simp
  note r = enum_roundtrip[OF 1 disjI1[OF refl], of plain_lib "''JSON''" "SString ''json''"]
  have "enumValue_nameOf ?t (SString ''json'') = ''json''" by (simp add: enumValue_nameOf_def enumTable_byValue_def)
  then show ?thesis using r 2 by auto
qed

end
