(* ===== verification/ConflProps.thy ===== *)
theory ConflProps
  imports ConflWalk ConflEnum
begin

text \<open>What the command line of a program comes to: the expansion of flags with several values, and where a field gets its value from.\<close>

subsection \<open>Flags with several values\<close>

lemma expand_values_takes: "expand_values name vs = concat (map (\<lambda>x. [''-'' @ name, x]) (takeWhile (\<lambda>v. \<not> isFlag v) vs))"
  by (induction vs) auto

lemma expand_plain: "\<forall>t\<in>set pre. isFlag t \<longrightarrow> until_name t \<notin> u \<Longrightarrow> expandUntilArgs (pre @ args) u = pre @ expandUntilArgs args u"
  by (induction pre) (simp_all add: expandUntilArgs.simps(2))

lemma find_at_single: "find_at [c] s = None \<longleftrightarrow> c \<notin> set s"
  by (induction s) auto

lemma until_name_form: "CHR ''='' \<notin> set (until_name tok)" "until_name tok \<noteq> [] \<Longrightarrow> hd (until_name tok) \<noteq> CHR ''-''"
proof -
  let ?s = "dropWhile (\<lambda>c. c = CHR ''-'') tok"
  have first: "CHR ''='' \<notin> set (take i s)" if "find_at ''='' s = Some i" for i s
  proof
    assume "CHR ''='' \<in> set (take i s)"
    then obtain j where j: "j < i" "j < length s" "s ! j = CHR ''=''" by (auto simp: in_set_conv_nth)
    then have "prefix ''='' (drop j s)" by (simp add: Cons_nth_drop_Suc[symmetric])
    then show False using find_at_first[OF that j(1)] by simp
  qed
  show "CHR ''='' \<notin> set (until_name tok)" using first[of ?s] find_at_single[of "CHR ''=''" ?s] by (simp add: until_name_def cut_at_def split: option.split)
  have h: "?s \<noteq> [] \<Longrightarrow> hd ?s \<noteq> CHR ''-''" using hd_dropWhile[of "\<lambda>c. c = CHR ''-''" tok] by blast
  show "hd (until_name tok) \<noteq> CHR ''-''" if "until_name tok \<noteq> []"
    using that h by (cases ?s) (auto simp: until_name_def cut_at_def take_Cons' split: option.splits if_splits)
qed

lemma until_name_of:
  assumes "n \<noteq> []" "hd n \<noteq> CHR ''-''" "CHR ''='' \<notin> set n"
  shows "isFlag (''-'' @ n)" "until_name (''-'' @ n) = n" "\<not> has_value (''-'' @ n)"
proof -
  have d: "dropWhile (\<lambda>c. c = CHR ''-'') (''-'' @ n) = n" using assms(1,2) by (cases n) simp_all
  have f: "find_at ''='' n = None" using assms(3) by (simp add: find_at_single)
  show "isFlag (''-'' @ n)" using assms(1) by (cases n) (simp_all add: isFlag_def)
  show "until_name (''-'' @ n) = n" "\<not> has_value (''-'' @ n)" unfolding until_name_def has_value_def cut_at_def d f by simp_all
qed

lemma until_name_again:
  assumes "until_name tok \<noteq> []"
  shows "isFlag (''-'' @ until_name tok)" "until_name (''-'' @ until_name tok) = until_name tok" "\<not> has_value (''-'' @ until_name tok)"
  by (rule until_name_of[OF assms until_name_form(2)[OF assms] until_name_form(1)])+

text \<open>The pairs that the expansion makes are left alone by it.\<close>

definition pairs :: "string \<Rightarrow> string list \<Rightarrow> string list" where "pairs name vs = concat (map (\<lambda>x. [''-'' @ name, x]) vs)"

lemma pairs_Nil [simp]: "pairs name [] = []"
  by (simp add: pairs_def)

lemma expand_until: "isFlag tok \<Longrightarrow> until_name tok \<in> u \<Longrightarrow> \<not> has_value tok \<Longrightarrow> \<not> isFlag v \<Longrightarrow>
   expandUntilArgs (tok # v # vs) u = tok # v # pairs (until_name tok) (takeWhile (\<lambda>v. \<not> isFlag v) vs) @ expandUntilArgs (dropWhile (\<lambda>v. \<not> isFlag v) vs) u"
  by (simp add: expandUntilArgs.simps(2) expand_values_takes pairs_def)

lemma expand_until_value: "isFlag tok \<Longrightarrow> until_name tok \<in> u \<Longrightarrow> has_value tok \<Longrightarrow>
   expandUntilArgs (tok # vs) u = tok # pairs (until_name tok) (takeWhile (\<lambda>v. \<not> isFlag v) vs) @ expandUntilArgs (dropWhile (\<lambda>v. \<not> isFlag v) vs) u"
  by (simp add: expandUntilArgs.simps(2) expand_values_takes pairs_def)

lemma expand_hd: "args = [] \<or> isFlag (hd args) \<Longrightarrow> expandUntilArgs args u = [] \<or> isFlag (hd (expandUntilArgs args u))"
  by (cases args) (auto simp: expandUntilArgs.simps(2) split: list.split)

lemma expand_pairs:
  assumes "name \<in> u" "name \<noteq> []" "hd name \<noteq> CHR ''-''" "CHR ''='' \<notin> set name" "\<forall>v\<in>set vs. \<not> isFlag v" "rest = [] \<or> isFlag (hd rest)"
  shows "expandUntilArgs (pairs name vs @ rest) u = pairs name vs @ expandUntilArgs rest u"
  using assms(5)
proof (induction vs)
  case (Cons v vs)
  let ?r = "pairs name vs @ rest"
  have r: "?r = [] \<or> isFlag (hd ?r)" using assms(6) until_name_of(1)[OF assms(2-4)] by (cases vs) (auto simp: pairs_def)
  then have "takeWhile (\<lambda>v. \<not> isFlag v) ?r = []" "dropWhile (\<lambda>v. \<not> isFlag v) ?r = ?r" by (cases ?r; simp)+
  then show ?case using expand_until[of "''-'' @ name" u v ?r] until_name_of[OF assms(2-4)] assms(1) Cons
    by (simp add: pairs_def)
qed (simp add: pairs_def)

lemma split_flags: "\<forall>v\<in>set (takeWhile (\<lambda>v. \<not> isFlag v) vs). \<not> isFlag v" "dropWhile (\<lambda>v. \<not> isFlag v) vs = [] \<or> isFlag (hd (dropWhile (\<lambda>v. \<not> isFlag v) vs))"
  using hd_dropWhile[of "\<lambda>v. \<not> isFlag v" vs] by (auto dest: set_takeWhileD)

lemma expand_idem: "'''' \<notin> u \<Longrightarrow> expandUntilArgs (expandUntilArgs args u) u = expandUntilArgs args u"
proof (induction args u rule: expandUntilArgs.induct)
  case (2 tok args u)
  show ?case
  proof (cases "isFlag tok \<and> until_name tok \<in> u")
    case False
    then show ?thesis using 2 by (auto simp: expandUntilArgs.simps(2))
  next
    case True
    then have n: "until_name tok \<noteq> []" "until_name tok \<in> u" "isFlag tok" using "2.prems" by auto
    note nm = until_name_form(2)[OF n(1)] until_name_form(1)[of tok]
    have tail: "expandUntilArgs (pairs (until_name tok) (takeWhile (\<lambda>v. \<not> isFlag v) vs) @ expandUntilArgs (dropWhile (\<lambda>v. \<not> isFlag v) vs) u) u
        = pairs (until_name tok) (takeWhile (\<lambda>v. \<not> isFlag v) vs) @ expandUntilArgs (dropWhile (\<lambda>v. \<not> isFlag v) vs) u"
      if "expandUntilArgs (expandUntilArgs (dropWhile (\<lambda>v. \<not> isFlag v) vs) u) u = expandUntilArgs (dropWhile (\<lambda>v. \<not> isFlag v) vs) u" for vs
      using expand_pairs[OF n(2,1) nm split_flags(1)[of vs] expand_hd[OF split_flags(2)[of vs], of u]] that by simp
    have flat: "takeWhile (\<lambda>v. \<not> isFlag v) (pairs (until_name tok) ws @ expandUntilArgs (dropWhile (\<lambda>v. \<not> isFlag v) vs) u) = []"
        "dropWhile (\<lambda>v. \<not> isFlag v) (pairs (until_name tok) ws @ expandUntilArgs (dropWhile (\<lambda>v. \<not> isFlag v) vs) u)
          = pairs (until_name tok) ws @ expandUntilArgs (dropWhile (\<lambda>v. \<not> isFlag v) vs) u" for ws vs
    proof -
      let ?r = "pairs (until_name tok) ws @ expandUntilArgs (dropWhile (\<lambda>v. \<not> isFlag v) vs) u"
      have "?r = [] \<or> isFlag (hd ?r)" using until_name_again(1)[OF n(1)] expand_hd[OF split_flags(2)[of vs], of u]
        by (cases ws) (auto simp: pairs_def)
      then show "takeWhile (\<lambda>v. \<not> isFlag v) ?r = []" "dropWhile (\<lambda>v. \<not> isFlag v) ?r = ?r" by (cases ?r; simp)+
    qed
    show ?thesis
    proof (cases "has_value tok")
      case True
      then show ?thesis using expand_until_value[OF n(3,2)] flat tail[of args] "2.IH"(3) n "2.prems" by simp
    next
      case no: False
      show ?thesis
      proof (cases args)
        case Nil
        then show ?thesis using n no by (simp add: expandUntilArgs.simps(2))
      next
        case (Cons v vs)
        show ?thesis
        proof (cases "isFlag v")
          case True
          then have e: "expandUntilArgs (tok # args) u = tok # expandUntilArgs args u" using Cons n no by (simp add: expandUntilArgs.simps(2))
          have "expandUntilArgs args u \<noteq> []" "isFlag (hd (expandUntilArgs args u))"
            using True Cons expand_hd[of args u] by (auto simp: expandUntilArgs.simps(2) split: list.split if_splits)
          then obtain w ws where w: "expandUntilArgs args u = w # ws" "isFlag w" by (cases "expandUntilArgs args u") auto
          have ih: "expandUntilArgs (expandUntilArgs args u) u = expandUntilArgs args u"
            using "2.IH"(4)[OF _ _ no Cons True] n "2.prems" by simp
          show ?thesis using ih w n no unfolding e w(1) by (subst expandUntilArgs.simps(2)) simp
        next
          case False
          then show ?thesis using expand_until[OF n(3,2) no False] flat tail[of vs] "2.IH"(5)[OF _ _ no Cons False] n "2.prems" Cons by simp
        qed
      qed
    qed
  qed
qed simp

text \<open>
  C29: The values behind an until flag, up to the next token that looks like a flag, are handed to the flag package one by one,
  each behind the name of the flag; all other tokens stay as and where they are.  Expanding twice is expanding once.
\<close>

theorem expandUntilArgs_groups:
  assumes "'''' \<notin> u" "\<forall>t\<in>set pre. isFlag t \<longrightarrow> until_name t \<notin> u" "isFlag tok" "until_name tok \<in> u" "\<not> has_value tok"
    "\<forall>v\<in>set (v # vs). \<not> isFlag v" "rest = [] \<or> isFlag (hd rest)"
  shows "expandUntilArgs (pre @ tok # v # vs @ rest) u = pre @ [tok, v] @ concat (map (\<lambda>x. [''-'' @ until_name tok, x]) vs) @ expandUntilArgs rest u
    \<and> expandUntilArgs (expandUntilArgs args u) u = expandUntilArgs args u"
proof -
  have tw: "takeWhile (\<lambda>v. \<not> isFlag v) (vs @ rest) = vs" "dropWhile (\<lambda>v. \<not> isFlag v) (vs @ rest) = rest"
    using assms(6,7) by (cases rest; simp add: takeWhile_append2 dropWhile_append2)+
  have "expandUntilArgs (pre @ tok # v # vs @ rest) u = pre @ tok # v # pairs (until_name tok) vs @ expandUntilArgs rest u"
    using expand_plain[OF assms(2), of "tok # v # vs @ rest"] expand_until[OF assms(3-5), of v "vs @ rest"] assms(6) tw by simp
  then show ?thesis using expand_idem[OF assms(1), of args] by (simp add: pairs_def)
qed

lemma expandUntilArgs_groups_witness:
  "expandUntilArgs [''-v'', ''--files'', ''a'', ''b'', ''c'', ''-o'', ''x''] {''files''} = [''-v'', ''--files'', ''a'', ''-files'', ''b'', ''-files'', ''c'', ''-o'', ''x'']"
proof -
  have n: "until_name ''-v'' = ''v''" "until_name ''--files'' = ''files''" "\<not> has_value ''--files''" "until_name ''-o'' = ''o''"
    by (simp_all add: until_name_def has_value_def cut_at_def)
  have "expandUntilArgs [''-o'', ''x''] {''files''} = [''-o'', ''x'']" using n(4) by (simp add: expandUntilArgs.simps(2) isFlag_def)
  then show ?thesis
    using expandUntilArgs_groups[of "{''files''}" "[''-v'']" "''--files''" "''a''" "[''b'', ''c'']" "[''-o'', ''x'']" "[]"] n(1-3) by (simp add: isFlag_def)
qed

text \<open>The expansion does not stop at the token that ends the flags: what is positional behind it is rewritten.\<close>

lemma until_behind_terminator: "expandUntilArgs [''--'', ''-f'', ''a'', ''b''] {''f''} = [''--'', ''-f'', ''a'', ''-f'', ''b'']"
  by (simp add: expandUntilArgs.simps(2) isFlag_def until_name_def has_value_def cut_at_def)

subsection \<open>One list of fields\<close>

text \<open>
  C27: All walks through a struct that has been bound agree on its fields and their names: binding, checking what is required,
  applying the environment and collecting the until flags are each a loop over the same list of leaves.
\<close>

theorem walks_agree:
  assumes "bindFlags L fds pfx base i sticky st = Inr st1"
  shows "bind_items L (leaves fds pfx base i sticky) st = Inr st1
    \<and> checkRequired L fds base i m = list_all (item_ok (\<lambda>f p. check_leaf L f (mem_val m p))) (leaves fds pfx base i sticky)
    \<and> applyEnvVarsWalk L env fs cs fds pfx m = env_items L env fs cs (leaves fds pfx base i sticky) m
    \<and> collectUntilFlags fds pfx = (\<Union>it\<in>set (leaves fds pfx base i sticky). item_until it)"
proof -
  have b: "bind_items L (leaves fds pfx base i sticky) st = Inr st1" using assms by (simp add: bindFlags_leaves)
  from bound_no_fail[OF b] have n: "no_fail (leaves fds pfx base i sticky)" .
  show ?thesis using b checkRequired_leaves[OF n] applyEnvVarsWalk_leaves[OF n] collectUntilFlags_leaves[OF n] by blast
qed

definition host_field :: gofield where
  "host_field = GoField ''Host'' True False (\<lambda>k. if k = ''flag'' then Some ''host'' else if k = ''required'' then Some ''true'' else if k = ''env'' then Some ''HOST'' else None) (Leaf Scalar (Basic BString))"

definition server_fields :: "gofield list" where
  "server_fields = [GoField ''Server'' True False (\<lambda>k. if k = ''flag'' then Some ''srv'' else None) (TStruct False [host_field])]"

definition empty_memory :: "unit memory" where "empty_memory = \<lparr>mem_val = \<lambda>_. VScalar (SString ''''), mem_clear = \<lambda>_. False, mem_fresh = 0\<rparr>"

lemmas eval_tags = tag_Get_def host_field_def server_fields_def bindStructField_def child_prefix_def becomes_sticky_def

lemma server_leaves: "leaves server_fields '''' [] 0 False = [ItLeaf host_field ''srv.'' [0, 0] False]"
  by (simp add: leaves.simps eval_tags)

lemma server_binds:
  "bindFlags plain_lib server_fields '''' [] 0 False (new_flagset, empty_memory)
    = Inr (new_flagset\<lparr>fs_formal := [(''srv.host'', SetScalar BString '''' [0, 0])]\<rparr>, put_val [0, 0] (VScalar (SString '''')) empty_memory)"
  unfolding bindFlags_leaves server_leaves
  by (simp add: bind_leaf_def eval_tags checkNargTags_def checkExportedFlag_def checkSepTag_def enumTags_def field_spec_def registerFlag_def flagSpec_validate_def
      new_flagset_def Lookup_def registerAlias_def define_flag_def with_mem_def Let_def)

lemma walks_agree_witness: "\<not> checkRequired plain_lib server_fields [] 0 empty_memory"
  using walks_agree[OF server_binds, of empty_memory "\<lambda>_. None" new_flagset "{}"] unfolding server_leaves
  by (simp add: check_leaf_def eval_tags empty_memory_def)

text \<open>The defaults that turn the flag of a bool into its negation.\<close>

definition truthy :: "string \<Rightarrow> bool" where "truthy d \<longleftrightarrow> map lower d \<in> {''true'', ''t'', ''yes'', ''y'', ''1''}"

end
