(* ===== verification/ConflValid.thy ===== *)
theory ConflValid
  imports ConflProps
begin

text \<open>
  What \<open>Validate\<close> accepts can be bound, up to two things that it does not look at: whether a type without a default is known,
  and the names of the flags that a default negates.
\<close>

subsection \<open>Names\<close>

definition flag_names :: "'o flagset \<Rightarrow> string list" where "flag_names fs = map fst (fs_formal fs)"

definition spec_names :: "flagSpec \<Rightarrow> string list" where
  "spec_names spec = (if sp_Short spec \<noteq> '''' then [sp_Short spec] else []) @ [sp_Name spec]"

lemma Lookup_names: "Lookup fs n = None \<longleftrightarrow> n \<notin> set (flag_names fs)"
  by (simp add: Lookup_def flag_names_def map_of_eq_None_iff)

lemma flag_names_new [simp]: "flag_names new_flagset = []"
  by (simp add: flag_names_def new_flagset_def)

text \<open>Whether two names can be defined depends on the names of the flag set only.\<close>

lemma define_any:
  assumes "define_flag n st fs = Inr fs1" "flag_names fs = flag_names fs2"
  shows "\<exists>fs3. define_flag n st2 fs2 = Inr fs3 \<and> flag_names fs3 = flag_names fs1"
proof -
  have "Lookup fs n = None \<longleftrightarrow> Lookup fs2 n = None" using assms(2) by (simp add: Lookup_names)
  then show ?thesis using assms by (auto simp: define_flag_def flag_names_def split: if_splits)
qed

lemma alias_any:
  assumes "registerAlias spec st fs = Inr fs1" "flag_names fs = flag_names fs2" "sp_Name spec2 = sp_Name spec" "sp_Short spec2 = sp_Short spec"
  shows "\<exists>fs3. registerAlias spec2 st2 fs2 = Inr fs3 \<and> flag_names fs3 = flag_names fs1"
proof -
  obtain fs4 where 4: "define_flag (sp_Name spec) st fs = Inr fs4" using assms(1) by (auto simp: registerAlias_def split: sum.splits)
  obtain fs5 where 5: "define_flag (sp_Name spec) st2 fs2 = Inr fs5" "flag_names fs5 = flag_names fs4" using define_any[OF 4 assms(2)] by blast
  show ?thesis
  proof (cases "sp_Short spec = ''''")
    case True
    then show ?thesis using assms 4 5 by (simp add: registerAlias_def)
  next
    case False
    then have "define_flag (sp_Short spec) st fs4 = Inr fs1" using assms(1) 4 by (simp add: registerAlias_def)
    from define_any[OF this 5(2)[symmetric]] show ?thesis using assms(3,4) False 5(1) by (auto simp: registerAlias_def)
  qed
qed

definition names_differ :: "'o flagset \<Rightarrow> bool" where "names_differ fs \<longleftrightarrow> distinct (flag_names fs)"

lemma alias_differ: "registerAlias spec st fs = Inr fs1 \<Longrightarrow> names_differ fs \<Longrightarrow> names_differ fs1"
  by (auto simp: names_differ_def registerAlias_def define_flag_def Lookup_names flag_names_def split: sum.splits if_splits)

lemma alias_names: "registerAlias spec st fs = Inr fs1 \<Longrightarrow> flag_names fs1 = spec_names spec @ flag_names fs"
  by (auto simp: registerAlias_def define_flag_def flag_names_def spec_names_def split: sum.splits if_splits)

definition takes :: "flagSpec \<Rightarrow> 'o flagset \<Rightarrow> bool" where "takes spec fs \<longleftrightarrow> (\<exists>fs1. registerAlias spec placeholder fs = Inr fs1)"

text \<open>A flag set takes names that are well formed, different and not in use.\<close>

definition name_ok :: "string \<Rightarrow> bool" where "name_ok n \<longleftrightarrow> \<not> (n \<noteq> '''' \<and> hd n = CHR ''-'') \<and> CHR ''='' \<notin> set n"

lemma takes_iff:
  "takes spec fs \<longleftrightarrow> list_all name_ok (spec_names spec) \<and> distinct (spec_names spec) \<and> set (spec_names spec) \<inter> set (flag_names fs) = {}"
proof -
  have d: "(\<exists>fs1. define_flag n st fs2 = Inr fs1) \<longleftrightarrow> name_ok n \<and> n \<notin> set (flag_names fs2)" for n st and fs2 :: "'a flagset"
    by (auto simp: define_flag_def name_ok_def Lookup_names)
  have n: "define_flag n st fs2 = Inr fs1 \<Longrightarrow> flag_names fs1 = n # flag_names fs2" for n st and fs2 fs1 :: "'a flagset"
    by (auto simp: define_flag_def flag_names_def split: if_splits)
  show ?thesis
  proof (cases "define_flag (sp_Name spec) placeholder fs")
    case (Inl e)
    then show ?thesis using d[of "sp_Name spec" placeholder fs] by (auto simp: takes_def registerAlias_def spec_names_def)
  next
    case (Inr fs1)
    show ?thesis using Inr d[of "sp_Name spec" placeholder fs] n[OF Inr] d[of "sp_Short spec" placeholder fs1]
      by (auto simp: takes_def registerAlias_def spec_names_def)
  qed
qed

text \<open>The names of the flag of a bool that its default negates.\<close>

definition negated :: "string \<Rightarrow> string" where "negated n = ''no-'' @ n"

lemma no_spec_names: "spec_names (no_spec s) = map negated (spec_names s)"
  by (simp add: spec_names_def no_spec_def negated_def)

lemma negated_simps: "name_ok n \<Longrightarrow> name_ok (negated n)" "inj negated"
  by (simp_all add: name_ok_def negated_def inj_def)

lemma takes_no_spec:
  assumes "takes s fs0" "set (map negated (spec_names s)) \<inter> set (flag_names fs) = {}"
  shows "takes (no_spec s) fs"
proof -
  have "list_all name_ok (map negated (spec_names s))" using assms(1) negated_simps(1) by (auto simp: takes_iff list_all_iff)
  moreover have "distinct (map negated (spec_names s))" using assms(1) negated_simps(2) by (auto simp: takes_iff distinct_map intro: inj_on_subset)
  ultimately show ?thesis using assms(2) by (simp only: takes_iff no_spec_names)
qed

definition negating :: "flagSpec \<Rightarrow> gotype \<Rightarrow> bool" where
  "negating s ty \<longleftrightarrow> \<not> sp_EnumSet s \<and> truthy (sp_Default s) \<and> (ty = Leaf Scalar (Basic BBool) \<or> ty = Leaf Slice (Basic BBool))"

definition bound_spec :: "flagSpec \<Rightarrow> gotype \<Rightarrow> flagSpec" where "bound_spec s ty = (if negating s ty then no_spec s else s)"

subsection \<open>Registration succeeds again\<close>

text \<open>Two specifications that differ in name and short form only, and a flag set that takes the second one.\<close>

definition same_spec :: "flagSpec \<Rightarrow> flagSpec \<Rightarrow> bool" where
  "same_spec s t \<longleftrightarrow> sp_Default s = sp_Default t \<and> sp_Format s = sp_Format t \<and> sp_Sep s = sp_Sep t \<and> sp_SepSet s = sp_SepSet t
     \<and> sp_Enum s = sp_Enum t \<and> sp_EnumSet s = sp_EnumSet t \<and> sp_EnumExactCase s = sp_EnumExactCase t"

definition bound_as :: "flagSpec \<Rightarrow> 'o flagset \<Rightarrow> 'o bound \<Rightarrow> bool" where
  "bound_as spec fs r \<longleftrightarrow> (\<exists>fs1 m1. r = Inr (fs1, m1) \<and> flag_names fs1 = spec_names spec @ flag_names fs)"

lemma takes_alias: "takes spec fs \<Longrightarrow> bound_as spec fs (with_mem m (registerAlias spec st fs))"
proof -
  assume "takes spec fs"
  then obtain fs1 where "registerAlias spec placeholder fs = Inr fs1" by (auto simp: takes_def)
  from alias_any[OF this refl refl refl, of st] alias_names[OF this] show ?thesis by (auto simp: with_mem_def bound_as_def)
qed

lemma with_mem_Inr: "with_mem m r = Inr x \<Longrightarrow> \<exists>fs. r = Inr fs"
  by (auto simp: with_mem_def split: sum.splits)

lemmas transfer_simps = same_spec_def Let_def
lemmas transfer_splits = option.splits prod.splits if_splits sum.splits

lemma func_again:
  "registerFuncFlag L s b p fs0 m0 = Inr x \<or> sp_Default s = '''' \<Longrightarrow> same_spec s t \<Longrightarrow> takes t fs \<Longrightarrow> bound_as t fs (registerFuncFlag L t b p fs m)"
  by (auto simp: registerFuncFlag_def transfer_simps takes_alias split: transfer_splits)

lemma pointer_again:
  "registerPointerFlag L s b p fs0 m0 = Inr x \<or> sp_Default s = '''' \<Longrightarrow> same_spec s t \<Longrightarrow> takes t fs \<Longrightarrow> bound_as t fs (registerPointerFlag L t b p fs m)"
  by (auto simp: registerPointerFlag_def transfer_simps takes_alias split: transfer_splits)

lemma slice_default_again:
  "parseAndSetSliceDefault L s b p m0 = Some y \<or> sp_Default s = '''' \<Longrightarrow> same_spec s t \<Longrightarrow> \<exists>z. parseAndSetSliceDefault L t b p m = Some z"
  by (auto simp: parseAndSetSliceDefault_def same_spec_def split: if_splits)

lemma slice_again:
  assumes "registerSliceFlag L s b p fs0 m0 = Inr x \<or> sp_Default s = ''''" "same_spec s t" "takes t fs"
  shows "bound_as t fs (registerSliceFlag L t b p fs m)"
proof -
  have "(\<exists>y. parseAndSetSliceDefault L s b p m0 = Some y) \<or> sp_Default s = ''''" using assms(1) by (auto simp: registerSliceFlag_def split: option.splits)
  then obtain z where "parseAndSetSliceDefault L t b p m = Some z" using slice_default_again[OF _ assms(2)] by blast
  then show ?thesis using takes_alias[OF assms(3)] by (simp add: registerSliceFlag_def split: prod.split)
qed

lemma registerAlias_default: "registerAlias (s\<lparr>sp_Default := d\<rparr>) st fs = registerAlias s st fs"
  by (simp add: registerAlias_def split: sum.split)

lemma spec_names_default: "spec_names (s\<lparr>sp_Default := d\<rparr>) = spec_names s"
  by (simp add: spec_names_def)

lemma bool_again:
  assumes "registerBoolFlag L s p fs0 m0 = Inr x \<or> sp_Default s = ''''" "same_spec s t" "takes (if truthy (sp_Default t) then no_spec t else t) fs"
  shows "bound_as (if truthy (sp_Default t) then no_spec t else t) fs (registerBoolFlag L t p fs m)"
  using assms(1) takes_alias[OF assms(3)] assms(2)
  by (cases "truthy (sp_Default t)") (auto simp: registerBoolFlag_def truthy_def same_spec_def Let_def split: if_splits)

lemma bool_slice_again:
  assumes "registerBoolSliceFlag L s p fs0 m0 = Inr x \<or> sp_Default s = ''''" "same_spec s t" "takes (if truthy (sp_Default t) then no_spec t else t) fs"
  shows "bound_as (if truthy (sp_Default t) then no_spec t else t) fs (registerBoolSliceFlag L t p fs m)"
proof -
  define norm where "norm u = u\<lparr>sp_Default := if map lower (sp_Default u) \<in> {''yes'', ''y'', ''true'', ''t'', ''1''} then ''true''
      else if map lower (sp_Default u) \<in> {''no'', ''n'', ''false'', ''f'', ''0'', ''-1''} then ''false'' else sp_Default u\<rparr>" for u :: flagSpec
  have n: "same_spec (norm s) (norm t)" using assms(2) by (simp add: norm_def same_spec_def)
  have "(\<exists>y. parseAndSetSliceDefault L (norm s) BBool p m0 = Some y) \<or> sp_Default (norm s) = ''''"
    using assms(1) by (auto simp: registerBoolSliceFlag_def norm_def Let_def split: option.splits)
  then obtain z where z: "parseAndSetSliceDefault L (norm t) BBool p m = Some z" using slice_default_again[OF _ n] by blast
  have tr: "sp_Default (norm t) = ''true'' \<longleftrightarrow> truthy (sp_Default t)"
    by (auto simp: norm_def truthy_def lower_def)
  let ?u = "if truthy (sp_Default t) then no_spec (norm t) else norm t"
  have al: "registerAlias ?u st fs = registerAlias (if truthy (sp_Default t) then no_spec t else t) st fs" for st
    by (simp add: norm_def no_spec_def registerAlias_def split: sum.split)
  obtain k m2 where k: "fresh_clear (sp_Default (norm t) \<noteq> '''') z = (k, m2)" by fastforce
  have "registerBoolSliceFlag L t p fs m =
      with_mem m2 (registerAlias ?u (SetSlice BBool '''' p k (truthy (sp_Default t)) (sp_Sep (norm t)) (sp_SepSet (norm t))) fs)"
    using z k unfolding registerBoolSliceFlag_def norm_def[symmetric] Let_def tr by simp
  then show ?thesis using takes_alias[OF assms(3)] by (simp only: al)
qed


lemma enum_set_again:
  "enumValue_Set L sh e t p k sep sepSet d m0 = Some y \<Longrightarrow> \<exists>z. enumValue_Set L sh e t p k2 sep sepSet d m = Some z"
  by (auto simp: enumValue_Set_def Let_def)

lemma enum_again:
  assumes "registerEnumFlag L s ty p fs0 m0 = Inr x" "same_spec s t" "takes t fs"
  shows "bound_as t fs (registerEnumFlag L t ty p fs m)"
proof -
  obtain sh e tb where ty: "ty = Leaf sh e" "parseEnumTag (sp_Enum t) (elem_kind e) (sp_EnumExactCase t) = Some tb" "list_all (\<lambda>en. callEnumValidate L e (snd en)) (fst tb)"
    using assms(1,2) by (auto simp: registerEnumFlag_def same_spec_def split: gotype.splits option.splits if_splits)
  obtain k m1 where k: "fresh_clear False m = (k, m1)" by fastforce
  show ?thesis
  proof (cases "sp_Default t = ''''")
    case True
    then show ?thesis using ty k takes_alias[OF assms(3)] by (simp add: registerEnumFlag_def)
  next
    case False
    obtain k0 m01 where k0: "fresh_clear False m0 = (k0, m01)" by fastforce
    obtain y where "\<not> (sh = Slice \<and> \<not> sp_SepSet t)" "enumValue_Set L sh e tb p k0 (sp_Sep t) (sp_SepSet t) (sp_Default t) m01 = Some y"
      using assms(1,2) ty k0 False by (auto simp: registerEnumFlag_def same_spec_def split: option.splits if_splits)
    moreover from enum_set_again[OF this(2)] obtain z where "enumValue_Set L sh e tb p k (sp_Sep t) (sp_SepSet t) (sp_Default t) m1 = Some z" by blast
    ultimately show ?thesis using ty k False takes_alias[OF assms(3)] by (auto simp: registerEnumFlag_def)
  qed
qed

text \<open>
  The types that \<open>registerFlag\<close> knows; a default that goes through a Set method of its own depends on the value that is there.
\<close>

definition known_type :: "string \<Rightarrow> gotype \<Rightarrow> bool" where
  "known_type d ty = (case ty of Leaf _ (Basic _) \<Rightarrow> True | FlagValue _ \<Rightarrow> d = '''' | TStruct b _ \<Rightarrow> b \<and> d = '''' | _ \<Rightarrow> False)"

lemma bound_plain: "\<not> negating t ty \<Longrightarrow> takes (bound_spec t ty) fs \<Longrightarrow> takes t fs \<and> bound_spec t ty = t"
  by (simp add: bound_spec_def)

lemma register_again:
  assumes "(\<exists>x. registerFlag L s ty p fs0 m0 = Inr x) \<or> sp_Default s = '''' \<and> \<not> sp_EnumSet s" "same_spec s t" "takes (bound_spec t ty) fs" "flagSpec_validate t fs"
    "sp_EnumSet s \<or> known_type (sp_Default s) ty"
  shows "bound_as (bound_spec t ty) fs (registerFlag L t ty p fs m)"
proof (cases "sp_EnumSet s")
  case True
  then obtain x where x: "registerEnumFlag L s ty p fs0 m0 = Inr x" using assms(1) by (auto simp: registerFlag_def split: if_splits)
  have e: "sp_EnumSet t" using True assms(2) by (simp add: same_spec_def)
  then have "bound_spec t ty = t" by (simp add: bound_spec_def negating_def)
  then show ?thesis using enum_again[OF x assms(2)] assms(3,4) e by (simp add: registerFlag_def)
next
  case False
  have ne: "\<not> sp_EnumSet t" and st: "sp_Default t = sp_Default s" using False assms(2) by (simp_all add: same_spec_def)
  have d: "known_type (sp_Default s) ty" using False assms(5) by simp
  show ?thesis
  proof (cases ty)
    case (Leaf sh e)
    then obtain b where e: "e = Basic b" using d by (cases e) (simp_all add: known_type_def)
    show ?thesis
    proof (cases "b = BBool \<and> sh \<noteq> Pointer")
      case True
      have bs: "bound_spec t ty = (if truthy (sp_Default t) then no_spec t else t)" using True Leaf e ne by (cases sh) (simp_all add: bound_spec_def negating_def)
      note tk = assms(3)[unfolded bs]
      consider "sh = Scalar" | "sh = Slice" using True by (cases sh) auto
      then show ?thesis
      proof cases
        case 1
        have "(\<exists>x. registerBoolFlag L s p fs0 m0 = Inr x) \<or> sp_Default s = ''''" using assms(1) True Leaf e False 1 by (auto simp: registerFlag_def split: if_splits)
        then have "bound_as (if truthy (sp_Default t) then no_spec t else t) fs (registerBoolFlag L t p fs m)" using bool_again[OF _ assms(2) tk] by blast
        moreover have "registerFlag L t ty p fs m = registerBoolFlag L t p fs m" using True Leaf e 1 ne assms(4) by (simp add: registerFlag_def)
        ultimately show ?thesis unfolding bs by simp
      next
        case 2
        have "(\<exists>x. registerBoolSliceFlag L s p fs0 m0 = Inr x) \<or> sp_Default s = ''''" using assms(1) True Leaf e False 2 by (auto simp: registerFlag_def split: if_splits)
        then have "bound_as (if truthy (sp_Default t) then no_spec t else t) fs (registerBoolSliceFlag L t p fs m)" using bool_slice_again[OF _ assms(2) tk] by blast
        moreover have "registerFlag L t ty p fs m = registerBoolSliceFlag L t p fs m" using True Leaf e 2 ne assms(4) by (simp add: registerFlag_def)
        ultimately show ?thesis unfolding bs by simp
      qed
    next
      case plain: False
      then have bs: "bound_spec t ty = t" using Leaf e by (auto simp: bound_spec_def negating_def)
      note tk = assms(3)[unfolded bs]
      show ?thesis
      proof (cases sh)
        case Scalar
        show ?thesis unfolding bs
          by (cases b; use Scalar Leaf e assms(4) ne False assms(1) takes_alias[OF tk] st plain in
              \<open>auto simp: registerFlag_def split: if_splits option.splits intro: func_again[OF _ assms(2) tk]\<close>)
      next
        case Slice
        show ?thesis unfolding bs
          by (cases b; use Slice Leaf e assms(4) ne False assms(1) plain in
              \<open>auto simp: registerFlag_def split: if_splits option.splits intro: slice_again[OF _ assms(2) tk]\<close>)
      next
        case Pointer
        show ?thesis unfolding bs
          by (cases b; use Pointer Leaf e assms(4) ne False assms(1) in
              \<open>auto simp: registerFlag_def split: if_splits option.splits intro: pointer_again[OF _ assms(2) tk]\<close>)
      qed
    qed
  next
    case (TStruct b sub)
    then have bs: "bound_spec t ty = t" by (simp add: bound_spec_def negating_def)
    show ?thesis using takes_alias[OF assms(3)[unfolded bs]] d assms(4) ne st TStruct unfolding bs by (simp add: registerFlag_def known_type_def)
  next
    case (FlagValue b)
    then have bs: "bound_spec t ty = t" by (simp add: bound_spec_def negating_def)
    show ?thesis using takes_alias[OF assms(3)[unfolded bs]] d assms(4) ne st FlagValue unfolding bs by (simp add: registerFlag_def known_type_def)
  qed (use d in \<open>simp add: known_type_def\<close>)
qed

text \<open>What is bound is bound under these names.\<close>

definition binds :: "flagSpec \<Rightarrow> 'o flagset \<Rightarrow> 'o flagset \<Rightarrow> bool" where
  "binds spec fs fs1 \<longleftrightarrow> takes spec fs \<and> flag_names fs1 = spec_names spec @ flag_names fs"

lemma alias_binds: "with_mem m (registerAlias spec st fs) = Inr (fs1, m1) \<Longrightarrow> binds spec fs fs1"
proof -
  assume "with_mem m (registerAlias spec st fs) = Inr (fs1, m1)"
  then have a: "registerAlias spec st fs = Inr fs1" by (auto simp: with_mem_def split: sum.splits)
  show ?thesis using alias_names[OF a] alias_any[OF a refl refl refl, of placeholder] by (auto simp: binds_def takes_def)
qed

lemma enum_binds: "registerEnumFlag L u ty p fs m = Inr (fs1, m1) \<Longrightarrow> binds u fs fs1"
  by (auto simp: registerEnumFlag_def Let_def split: gotype.splits option.splits if_splits prod.splits intro: alias_binds)

lemma bool_binds: "registerBoolFlag L u p fs m = Inr (fs1, m1) \<Longrightarrow> binds (if truthy (sp_Default u) then no_spec u else u) fs fs1"
  by (auto simp: registerBoolFlag_def truthy_def Let_def split: if_splits intro: alias_binds)

lemma bool_slice_binds:
  assumes "registerBoolSliceFlag L u p fs m = Inr (fs1, m1)"
  shows "binds (if truthy (sp_Default u) then no_spec u else u) fs fs1"
proof -
  define d where "d = (if map lower (sp_Default u) \<in> {''yes'', ''y'', ''true'', ''t'', ''1''} then ''true''
      else if map lower (sp_Default u) \<in> {''no'', ''n'', ''false'', ''f'', ''0'', ''-1''} then ''false'' else sp_Default u)"
  have tr: "d = ''true'' \<longleftrightarrow> truthy (sp_Default u)" by (auto simp: d_def truthy_def lower_def)
  have al: "registerAlias (if truthy (sp_Default u) then no_spec (u\<lparr>sp_Default := d\<rparr>) else u\<lparr>sp_Default := d\<rparr>) st fs
      = registerAlias (if truthy (sp_Default u) then no_spec u else u) st fs" for st
    by (simp add: no_spec_def registerAlias_def split: sum.split)
  obtain m2 st where "with_mem m2 (registerAlias (if truthy (sp_Default u) then no_spec (u\<lparr>sp_Default := d\<rparr>) else u\<lparr>sp_Default := d\<rparr>) st fs) = Inr (fs1, m1)"
    using assms unfolding registerBoolSliceFlag_def Let_def d_def[symmetric] by (auto simp: tr split: option.splits prod.splits)
  then show ?thesis unfolding al by (rule alias_binds)
qed

lemma register_binds: "registerFlag L u ty p fs m = Inr (fs1, m1) \<Longrightarrow> binds (bound_spec u ty) fs fs1"
proof (cases "sp_EnumSet u")
  case True
  assume "registerFlag L u ty p fs m = Inr (fs1, m1)"
  then show ?thesis using True enum_binds[of L u ty p fs m fs1 m1] by (simp add: registerFlag_def bound_spec_def negating_def split: if_splits)
next
  case False
  assume a: "registerFlag L u ty p fs m = Inr (fs1, m1)"
  show ?thesis
  proof (cases ty)
    case (Leaf sh e)
    show ?thesis
    proof (cases e)
      case (Basic b)
      show ?thesis using a False Leaf Basic
        by (cases sh; cases b)
          (auto simp: registerFlag_def bound_spec_def negating_def registerFuncFlag_def registerPointerFlag_def registerSliceFlag_def Let_def
            split: if_splits option.splits prod.splits intro: alias_binds dest: bool_binds bool_slice_binds)
    qed (use a False Leaf in \<open>cases sh; simp add: registerFlag_def split: if_splits\<close>)
  qed (use a False in \<open>auto simp: registerFlag_def bound_spec_def negating_def split: if_splits option.splits bool.splits intro: alias_binds\<close>)
qed

subsection \<open>The walk of Validate and the walk that binds\<close>

definition known_leaf :: "gofield \<Rightarrow> bool" where
  "known_leaf f \<longleftrightarrow> tag_Get f ''narg'' = ''rest'' \<or> tag_Get f ''flag'' = '''' \<or> gf_tag f ''enum'' \<noteq> None \<or> known_type (tag_Get f ''default'') (gf_type f)"

definition negating_field :: "gofield \<Rightarrow> bool" where
  "negating_field f \<longleftrightarrow> gf_tag f ''enum'' = None \<and> truthy (tag_Get f ''default'') \<and> (gf_type f = Leaf Scalar (Basic BBool) \<or> gf_type f = Leaf Slice (Basic BBool))"

text \<open>The names that a field asks for, and those under which it is bound.\<close>

definition leaf_names :: "gofield \<Rightarrow> string \<Rightarrow> string list" where
  "leaf_names f pfx = (if tag_Get f ''narg'' = ''rest'' \<or> tag_Get f ''flag'' = '''' then [] else spec_names (field_spec f pfx))"

definition leaf_bound :: "gofield \<Rightarrow> string \<Rightarrow> string list" where
  "leaf_bound f pfx = (if negating_field f then map negated (leaf_names f pfx) else leaf_names f pfx)"

definition leaf_ready :: "'o golib \<Rightarrow> gofield \<Rightarrow> string \<Rightarrow> path \<Rightarrow> bool \<Rightarrow> bool" where
  "leaf_ready L f pfx p sticky \<longleftrightarrow>
     (\<forall>fs m. (set (leaf_names f pfx) \<union> set (leaf_bound f pfx)) \<inter> set (flag_names fs) = {} \<longrightarrow> (\<exists>st1. bind_leaf L f pfx p sticky (fs, m) = Inr st1))"

lemma registerFlag_format: "sp_EnumSet s \<Longrightarrow> registerFlag L (s\<lparr>sp_Format := x\<rparr>) ty p fs m = registerFlag L s ty p fs m"
proof -
  have a: "registerAlias (s\<lparr>sp_Format := x\<rparr>) st fs = registerAlias s st fs" for st
    by (simp add: registerAlias_def split: sum.split)
  have v: "flagSpec_validate (s\<lparr>sp_Format := x\<rparr>) fs = flagSpec_validate s fs" by (auto simp: flagSpec_validate_def)
  have e: "registerEnumFlag L (s\<lparr>sp_Format := x\<rparr>) ty p fs m = registerEnumFlag L s ty p fs m"
    by (cases ty) (auto simp: registerEnumFlag_def a Let_def split: option.split prod.split)
  assume "sp_EnumSet s"
  then show ?thesis by (simp add: registerFlag_def v e)
qed

lemma enumTags_fields:
  "enumTags f s = Some t \<Longrightarrow> sp_EnumSet t = (sp_EnumSet s \<or> gf_tag f ''enum'' \<noteq> None) \<and> sp_Name t = sp_Name s \<and> sp_Short t = sp_Short s
     \<and> sp_Default t = sp_Default s \<and> sp_Format t = sp_Format s"
  by (auto simp: enumTags_def Let_def split: if_splits option.splits)

lemma enumTags_same:
  "enumTags f (s\<lparr>sp_Short := '''', sp_Format := ''''\<rparr>) = Some t \<Longrightarrow> \<exists>u. enumTags f s = Some u \<and> same_spec (t\<lparr>sp_Format := sp_Format s\<rparr>) u"
  by (auto simp: enumTags_def Let_def same_spec_def split: if_splits option.splits)

lemma field_bound:
  assumes "enumTags f (field_spec f pfx) = Some u" "\<not> (tag_Get f ''narg'' = ''rest'' \<or> tag_Get f ''flag'' = '''')"
  shows "leaf_names f pfx = spec_names u" "leaf_bound f pfx = spec_names (bound_spec u (gf_type f))"
proof -
  note ue = enumTags_fields[OF assms(1)]
  show n: "leaf_names f pfx = spec_names u" using ue assms(2) by (simp add: leaf_names_def spec_names_def)
  have "negating u (gf_type f) \<longleftrightarrow> negating_field f" using ue by (auto simp: negating_def negating_field_def field_spec_def)
  then show "leaf_bound f pfx = spec_names (bound_spec u (gf_type f))" unfolding leaf_bound_def n bound_spec_def by (simp add: no_spec_names)
qed

lemma leaf_validated:
  assumes "validate_leaf L f pfx p sticky sr (fs, m) = Inr (sr1, fs1, m1)" "known_leaf f"
  shows "flag_names fs1 = leaf_names f pfx @ flag_names fs \<and> (names_differ fs \<longrightarrow> names_differ fs1) \<and> leaf_ready L f pfx p sticky"
proof -
  have n: "checkNargTags f (tag_Get f ''flag'') (tag_Get f ''narg'')" using assms(1) by (auto simp: validate_leaf_def Let_def split: if_splits)
  show ?thesis
  proof (cases "tag_Get f ''narg'' = ''rest'' \<or> tag_Get f ''flag'' = ''''")
    case True
    then show ?thesis using assms(1) n by (auto simp: validate_leaf_def bind_leaf_def leaf_names_def leaf_ready_def Let_def split: if_splits)
  next
    case False
    let ?s = "field_spec f pfx"
    obtain spec m2 where v: "checkExportedFlag f" "checkSepTag f (gf_tag f ''sep'' \<noteq> None)" "\<not> sticky" "\<not> (tag_Get f ''short'' \<noteq> '''' \<and> length (tag_Get f ''short'') \<noteq> 1)"
        "enumTags f (?s\<lparr>sp_Short := '''', sp_Format := ''''\<rparr>) = Some spec"
        "(if sp_EnumSet spec then \<exists>x. registerFlag L spec (gf_type f) p new_flagset m = Inr x
          else validateDefault L (gf_type f) (?s\<lparr>sp_Short := '''', sp_Format := tag_Get f ''format''\<rparr>) p m = Inr m2)"
        "registerAlias (?s\<lparr>sp_Name := pfx @ tag_Get f ''flag'', sp_Short := tag_Get f ''short''\<rparr>) placeholder fs = Inr fs1"
      using assms(1) False n by (auto simp: validate_leaf_def Let_def split: if_splits option.splits sum.splits)
    have self: "?s\<lparr>sp_Name := pfx @ tag_Get f ''flag'', sp_Short := tag_Get f ''short''\<rparr> = ?s" by (simp add: field_spec_def)
    note al = v(7)[unfolded self]
    from enumTags_same[OF v(5)] obtain u where u: "enumTags f ?s = Some u" "same_spec (spec\<lparr>sp_Format := sp_Format ?s\<rparr>) u" by blast
    note ue = enumTags_fields[OF u(1)] and se = enumTags_fields[OF v(5)] and fb = field_bound[OF u(1) False]
    have own: "takes u fs" using alias_any[OF al refl, of u] ue by (auto simp: takes_def)
    have ready: "\<exists>st1. bind_leaf L f pfx p sticky (fsb, mb) = Inr st1"
      if free: "(set (leaf_names f pfx) \<union> set (leaf_bound f pfx)) \<inter> set (flag_names fsb) = {}" for fsb mb
    proof -
      have fresh: "set (spec_names u) \<inter> set (flag_names fsb) = {}" "set (spec_names (bound_spec u (gf_type f))) \<inter> set (flag_names fsb) = {}"
        using free unfolding fb by auto
      have tk: "takes (bound_spec u (gf_type f)) fsb"
      proof (cases "negating u (gf_type f)")
        case True
        then show ?thesis using takes_no_spec[OF own] fresh(2) by (simp add: bound_spec_def no_spec_names)
      next
        case False
        then show ?thesis using own fresh(1) by (simp add: bound_spec_def takes_iff)
      qed
      have val: "flagSpec_validate u fsb" using v(4) ue fresh(1) by (auto simp: flagSpec_validate_def Lookup_names spec_names_def field_spec_def)
      have "bound_as (bound_spec u (gf_type f)) fsb (registerFlag L u (gf_type f) p fsb mb)"
      proof (rule register_again[OF _ u(2) tk val])
        show "(\<exists>x. registerFlag L (spec\<lparr>sp_Format := sp_Format ?s\<rparr>) (gf_type f) p new_flagset m = Inr x)
            \<or> sp_Default (spec\<lparr>sp_Format := sp_Format ?s\<rparr>) = '''' \<and> \<not> sp_EnumSet (spec\<lparr>sp_Format := sp_Format ?s\<rparr>)"
        proof (cases "sp_EnumSet spec")
          case True
          then show ?thesis using v(6) by (simp add: registerFlag_format)
        next
          case noenum: False
          then have eq: "spec\<lparr>sp_Format := sp_Format ?s\<rparr> = ?s\<lparr>sp_Short := '''', sp_Format := tag_Get f ''format''\<rparr>"
            using v(5) by (auto simp: enumTags_def Let_def field_spec_def split: if_splits option.splits)
          show ?thesis using v(6) noenum se unfolding eq by (auto simp: validateDefault_def split: if_splits sum.splits)
        qed
        show "sp_EnumSet (spec\<lparr>sp_Format := sp_Format ?s\<rparr>) \<or> known_type (sp_Default (spec\<lparr>sp_Format := sp_Format ?s\<rparr>)) (gf_type f)"
          using assms(2) False se by (auto simp: known_leaf_def field_spec_def)
      qed
      then obtain st1 where r: "registerFlag L u (gf_type f) p fsb mb = Inr st1" unfolding bound_as_def by blast
      then show ?thesis using False n v(1-3) u(1) by (simp add: bind_leaf_def Let_def)
    qed
    have nm: "leaf_names f pfx = spec_names ?s" using False by (simp add: leaf_names_def)
    show ?thesis using alias_names[OF al] alias_differ[OF al] ready unfolding nm[symmetric] leaf_ready_def by blast
  qed
qed

lemma leaf_binds_names:
  assumes "bind_leaf L f pfx p sticky (fs, m) = Inr (fs1, m1)"
  shows "flag_names fs1 = leaf_bound f pfx @ flag_names fs \<and> (names_differ fs \<longrightarrow> names_differ fs1)"
proof (cases "tag_Get f ''narg'' = ''rest'' \<or> tag_Get f ''flag'' = ''''")
  case True
  then show ?thesis using assms by (auto simp: bind_leaf_def leaf_bound_def leaf_names_def Let_def split: if_splits)
next
  case False
  then obtain u where u: "enumTags f (field_spec f pfx) = Some u" "registerFlag L u (gf_type f) p fs m = Inr (fs1, m1)"
    using assms by (auto simp: bind_leaf_def Let_def split: if_splits option.splits)
  show ?thesis using register_binds[OF u(2)] unfolding field_bound(2)[OF u(1) False] binds_def takes_iff names_differ_def by auto
qed

fun item_names :: "item \<Rightarrow> string list" where
  "item_names (ItLeaf f pfx _ _) = leaf_names f pfx" | "item_names (ItFail _) = []"

fun item_bound :: "item \<Rightarrow> string list" where
  "item_bound (ItLeaf f pfx _ _) = leaf_bound f pfx" | "item_bound (ItFail _) = []"

fun item_negated :: "item \<Rightarrow> string list" where
  "item_negated (ItLeaf f pfx _ _) = (if negating_field f then leaf_bound f pfx else [])" | "item_negated (ItFail _) = []"

fun item_known :: "item \<Rightarrow> bool" where
  "item_known (ItLeaf f _ _ _) = known_leaf f" | "item_known (ItFail _) = True"

fun item_ready :: "'o golib \<Rightarrow> item \<Rightarrow> bool" where
  "item_ready L (ItLeaf f pfx p sticky) = leaf_ready L f pfx p sticky" | "item_ready L (ItFail _) = False"

text \<open>Fields that are ready one by one can be bound together, if a negated name is the name of no other one.\<close>

lemma bound_or_negated: "set (item_bound it) \<subseteq> set (item_names it) \<union> set (item_negated it)"
  by (cases it) (auto simp: leaf_bound_def)

lemma items_bind:
  "list_all (item_ready L) its \<Longrightarrow> distinct (concat (map item_names its) @ concat (map item_negated its)) \<Longrightarrow>
   set (concat (map item_names its) @ concat (map item_negated its)) \<inter> set (flag_names fs) = {} \<Longrightarrow> \<exists>st1. bind_items L its (fs, m) = Inr st1"
proof (induction its arbitrary: fs m)
  case (Cons it its)
  obtain f pfx p sticky where it: "it = ItLeaf f pfx p sticky" using Cons.prems(1) by (cases it) simp_all
  have sub: "set (leaf_bound f pfx) \<subseteq> set (leaf_names f pfx) \<union> set (item_negated it)" using bound_or_negated[of it] by (simp add: it)
  have "(set (leaf_names f pfx) \<union> set (leaf_bound f pfx)) \<inter> set (flag_names fs) = {}" using Cons.prems(3) sub by (auto simp: it)
  moreover have "leaf_ready L f pfx p sticky" using Cons.prems(1) by (simp add: it)
  ultimately have "\<exists>st1. bind_leaf L f pfx p sticky (fs, m) = Inr st1" unfolding leaf_ready_def by blast
  then obtain fs1 m1 where 1: "bind_leaf L f pfx p sticky (fs, m) = Inr (fs1, m1)" by auto
  have names: "flag_names fs1 = leaf_bound f pfx @ flag_names fs" using leaf_binds_names[OF 1] by blast
  have "\<exists>st1. bind_items L its (fs1, m1) = Inr st1"
  proof (rule Cons.IH)
    show "list_all (item_ready L) its" "distinct (concat (map item_names its) @ concat (map item_negated its))" using Cons.prems(1,2) by auto
    have "set (concat (map item_names its) @ concat (map item_negated its)) \<inter> (set (leaf_names f pfx) \<union> set (item_negated it)) = {}"
      using Cons.prems(2) unfolding it by auto
    then show "set (concat (map item_names its) @ concat (map item_negated its)) \<inter> set (flag_names fs1) = {}"
      using Cons.prems(3) sub unfolding names by auto
  qed
  then show ?case using 1 by (simp add: it)
qed simp

lemma items_bind_names:
  "bind_items L its (fs, m) = Inr (fs1, m1) \<Longrightarrow> flag_names fs1 = concat (rev (map item_bound its)) @ flag_names fs \<and> (names_differ fs \<longrightarrow> names_differ fs1)"
proof (induction its arbitrary: fs m)
  case (Cons it its)
  obtain f pfx p sticky where it: "it = ItLeaf f pfx p sticky" using Cons.prems by (cases it) simp_all
  obtain fs2 m2 where 2: "bind_leaf L f pfx p sticky (fs, m) = Inr (fs2, m2)" "bind_items L its (fs2, m2) = Inr (fs1, m1)"
    using Cons.prems by (auto simp: it split: sum.splits)
  show ?case using Cons.IH[OF 2(2)] leaf_binds_names[OF 2(1)] by (simp add: it)
qed simp

lemma Validate_walk:
  "validateStruct L fds pfx base i sticky sr hc (fs, m) = Inr (fs1, m1) \<Longrightarrow> list_all item_known (leaves fds pfx base i sticky) \<Longrightarrow>
   flag_names fs1 = concat (rev (map item_names (leaves fds pfx base i sticky))) @ flag_names fs \<and> (names_differ fs \<longrightarrow> names_differ fs1)
     \<and> list_all (item_ready L) (leaves fds pfx base i sticky)"
proof (induction fds arbitrary: pfx base i sticky sr hc fs m fs1 m1 rule: fields_induct)
  case Nil
  then show ?case by (auto simp: leaves.simps split: if_splits)
next
  case (Cons f fds)
  let ?rest = "leaves fds pfx base (Suc i) sticky"
  define here where "here = (case (case struct_of f of None \<Rightarrow> AsLeaf | Some (isValue, _) \<Rightarrow> bindStructField f isValue pfx sticky) of
        Skip \<Rightarrow> []
      | Fail e \<Rightarrow> [ItFail e]
      | Into pre \<Rightarrow> (case struct_of f of None \<Rightarrow> [] | Some (_, sub) \<Rightarrow> leaves sub pre (base @ [i]) 0 (sticky \<or> becomes_sticky f))
      | AsLeaf \<Rightarrow> [ItLeaf f pfx (base @ [i]) sticky])"
  have lv: "leaves (f # fds) pfx base i sticky = here @ ?rest" by (simp add: leaves.simps(2) here_def)
  have kn: "list_all item_known here" "list_all item_known ?rest" using Cons.prems(2) unfolding lv by simp_all
  text \<open>What is left to do once the first field is done.\<close>
  have go: ?case if "flag_names fs2 = concat (rev (map item_names here)) @ flag_names fs" "names_differ fs \<longrightarrow> names_differ fs2" "list_all (item_ready L) here"
      "validateStruct L fds pfx base (Suc i) sticky sr2 hc2 (fs2, m2) = Inr (fs1, m1)" for fs2 m2 sr2 hc2
    using Cons.IH(2)[OF that(4) kn(2)] that(1-3) unfolding lv by auto
  have leaf: ?case if a: "struct_of f = None \<or> (\<exists>b sub. struct_of f = Some (b, sub) \<and> bindStructField f b pfx sticky = AsLeaf)"
      "validateStruct L (f # fds) pfx base i sticky sr hc (fs, m) = (case validate_leaf L f pfx (base @ [i]) sticky sr (fs, m) of
             Inl e \<Rightarrow> Inl e | Inr (seen1, st1) \<Rightarrow> validateStruct L fds pfx base (Suc i) sticky seen1 hc st1)"
  proof -
    obtain sr2 fs2 m2 where v: "validate_leaf L f pfx (base @ [i]) sticky sr (fs, m) = Inr (sr2, fs2, m2)"
        "validateStruct L fds pfx base (Suc i) sticky sr2 hc (fs2, m2) = Inr (fs1, m1)"
      using a(2) Cons.prems(1) by (auto split: sum.splits)
    have h: "here = [ItLeaf f pfx (base @ [i]) sticky]" using a(1) by (auto simp: here_def)
    then have "known_leaf f" using kn(1) by simp
    from leaf_validated[OF v(1) this] show ?thesis by (intro go[OF _ _ _ v(2)]) (simp_all add: h)
  qed
  show ?case
  proof (cases "struct_of f")
    case None
    then show ?thesis by (intro leaf) (simp_all add: validateStruct.simps(2))
  next
    case (Some bs)
    then obtain b sub where bs: "struct_of f = Some (b, sub)" by (cases bs) simp
    show ?thesis
    proof (cases "validateStructField f b pfx sticky")
      case ACommand
      then have c: "bindStructField f b pfx sticky = Skip" by (auto simp: validateStructField_def bindStructField_def split: if_splits)
      obtain m2 where "validateStruct L fds pfx base (Suc i) sticky sr True (fs, m2) = Inr (fs1, m1)"
        using Cons.prems(1) ACommand bs by (auto simp: validateStruct.simps(2) split: sum.splits)
      then show ?thesis by (rule go[rotated 3]) (simp_all add: here_def bs c)
    next
      case (AStruct pre)
      then have c: "bindStructField f b pfx sticky = Into pre" by (auto simp: validateStructField_def bindStructField_def split: if_splits)
      let ?st = "sticky \<or> becomes_sticky f"
      obtain fs2 m2 where v: "validateStruct L sub pre (base @ [i]) 0 ?st False False (fs, m) = Inr (fs2, m2)"
          "validateStruct L fds pfx base (Suc i) sticky sr hc (fs2, m2) = Inr (fs1, m1)"
        using Cons.prems(1) AStruct bs by (auto simp: validateStruct.simps(2) split: sum.splits)
      have h: "here = leaves sub pre (base @ [i]) 0 ?st" using bs c by (simp add: here_def)
      show ?thesis using Cons.IH(1)[OF bs v(1) kn(1)[unfolded h]] by (intro go[OF _ _ _ v(2)]) (simp_all add: h)
    next
      case ALeaf
      then have "bindStructField f b pfx sticky = AsLeaf" by (auto simp: validateStructField_def bindStructField_def split: if_splits)
      then show ?thesis using bs ALeaf by (intro leaf) (simp_all add: validateStruct.simps(2))
    next
      case (Bad e)
      then show ?thesis using Cons.prems(1) bs by (simp add: validateStruct.simps(2))
    qed
  qed
qed


lemma server_validates: "confl_Validate plain_lib server_fields empty_memory = Inr empty_memory"
  by (simp add: confl_Validate_def server_fields_def validateStruct.simps(2) validateStructField_def validate_leaf_def checkNargTags_def
      checkExportedFlag_def checkSepTag_def enumTags_def field_spec_def validateDefault_def env_tags_ok_def trim_space_def is_space_def eval_tags
      new_flagset_def Lookup_def registerAlias_def define_flag_def Let_def)


text \<open>Where the two differ: a type that is not known passes as long as it has no default, and a negated flag can meet another one.\<close>

definition chan_field :: gofield where
  "chan_field = GoField ''C'' True False (\<lambda>k. if k = ''flag'' then Some ''c'' else None) (Unsupported False)"

lemma Validate_accepts_unknown_type:
  "confl_Validate plain_lib [chan_field] empty_memory = Inr empty_memory"
  "bindFlags plain_lib [chan_field] '''' [] 0 False (new_flagset, empty_memory) = Inl ErrInvalidSpecification"
  by (simp_all add: confl_Validate_def validateStruct.simps(2) bindFlags.simps(2) bind_leaf_def registerFlag_def flagSpec_validate_def validate_leaf_def chan_field_def checkNargTags_def
      checkExportedFlag_def checkSepTag_def enumTags_def field_spec_def validateDefault_def env_tags_ok_def tag_Get_def
      new_flagset_def Lookup_def registerAlias_def define_flag_def Let_def)

definition on_fields :: "gofield list" where
  "on_fields = [GoField ''X'' True False (\<lambda>k. if k = ''flag'' then Some ''x'' else if k = ''default'' then Some ''true'' else None) (Leaf Scalar (Basic BBool)),
     GoField ''Y'' True False (\<lambda>k. if k = ''flag'' then Some ''no-x'' else if k = ''default'' then Some ''true'' else None) (Leaf Pointer (Basic BBool))]"

lemma negated_name_collides:
  "confl_Validate plain_lib on_fields empty_memory \<noteq> Inl e \<and> bindFlags plain_lib on_fields '''' [] 0 False (new_flagset, empty_memory) = Inl ErrInvalidSpecification"
  by (simp add: confl_Validate_def validateStruct.simps(2) bindFlags.simps(2) bind_leaf_def registerFlag_def flagSpec_validate_def validate_leaf_def on_fields_def checkNargTags_def
      checkExportedFlag_def checkSepTag_def enumTags_def field_spec_def validateDefault_def env_tags_ok_def tag_Get_def registerBoolFlag_def registerPointerFlag_def no_spec_def lower_def
      new_flagset_def Lookup_def registerAlias_def define_flag_def with_mem_def put_val_def ParseBool_def Let_def)

end
