(* ===== verification/ConflSources.thy ===== *)
theory ConflSources
  imports ConflProps ConflValid
begin

text \<open>Where a field gets its value from: the command line, the environment, its default.\<close>

subsection \<open>Parsing as a scan and a loop of settings\<close>

fun cli_scan :: "(string \<Rightarrow> bool option) \<Rightarrow> string list \<Rightarrow> ((string \<times> string) list \<times> string list) option" where
  "cli_scan kind [] = Some ([], [])"
| "cli_scan kind (s # args) =
     (if length s < 2 \<or> hd s \<noteq> CHR ''-'' then Some ([], s # args)
      else if s = ''--'' then Some ([], args)
      else let name = (if s ! 1 = CHR ''-'' then drop 2 s else drop 1 s) in
           if hd name = CHR ''-'' \<or> hd name = CHR ''='' then None
           else case cut_at name ''='' of (n, v, hasValue) \<Rightarrow>
             (case kind n of
                None \<Rightarrow> None
              | Some b \<Rightarrow>
                  if hasValue then map_option (apfst (Cons (n, v))) (cli_scan kind args)
                  else if b then map_option (apfst (Cons (n, ''true''))) (cli_scan kind args)
                  else (case args of [] \<Rightarrow> None | a # rest \<Rightarrow> map_option (apfst (Cons (n, a))) (cli_scan kind rest))))"

definition kinds :: "'o flagset \<Rightarrow> string \<Rightarrow> bool option" where "kinds fs n = map_option is_bool_flag (Lookup fs n)"

fun set_all :: "'o golib \<Rightarrow> 'o flagset \<Rightarrow> (string \<times> string) list \<Rightarrow> 'o memory \<Rightarrow> 'o memory option" where
  "set_all L fs [] m = Some m"
| "set_all L fs ((n, v) # kvs) m =
     (case Lookup fs n of None \<Rightarrow> None | Some st \<Rightarrow> (case set_flag L st v m of None \<Rightarrow> None | Some m1 \<Rightarrow> set_all L fs kvs m1))"

lemma Lookup_mark [simp]: "Lookup (mark_set n fs) = Lookup fs" "Lookup (fs\<lparr>fs_args := a\<rparr>) = Lookup fs" "Lookup (fs\<lparr>fs_actual := b\<rparr>) = Lookup fs"
  by (auto simp: Lookup_def mark_set_def fun_eq_iff)

lemma kinds_mark [simp]: "kinds (mark_set n fs) = kinds fs"
  by (simp add: kinds_def fun_eq_iff)

lemma set_all_mark [simp]: "set_all L (mark_set n fs) kvs m = set_all L fs kvs m"
  by (induction kvs arbitrary: m) (auto split: option.splits)

definition parsed :: "'o flagset \<Rightarrow> (string \<times> string) list \<Rightarrow> string list \<Rightarrow> 'o flagset" where
  "parsed fs kvs rest = fs\<lparr>fs_actual := rev (map fst kvs) @ fs_actual fs, fs_args := rest\<rparr>"

lemma kinds_parsed: "kinds (parsed fs kvs rest) = kinds fs"
  by (simp add: parsed_def kinds_def Lookup_def fun_eq_iff)

lemma parsed_mark: "parsed (mark_set n fs) kvs rest = parsed fs ((n, v) # kvs) rest"
  by (simp add: parsed_def mark_set_def)

lemma Parse_scans:
  "FlagSet_Parse L args fs m = Inr (fs1, m1) \<Longrightarrow>
   \<exists>kvs rest. cli_scan (kinds fs) args = Some (kvs, rest) \<and> set_all L fs kvs m = Some m1 \<and> fs1 = parsed fs kvs rest"
proof (induction L args fs m rule: FlagSet_Parse.induct)
  case (1 L fs m)
  then show ?case by (auto simp: parsed_def)
next
  case (2 L s args fs m)
  let ?name = "if s ! 1 = CHR ''-'' then drop 2 s else drop 1 s"
  obtain n v hasv where cut: "cut_at ?name ''='' = (n, v, hasv)" by (metis prod_cases3)
  consider "length s < 2 \<or> hd s \<noteq> CHR ''-''" | "\<not> (length s < 2 \<or> hd s \<noteq> CHR ''-'')" "s = ''--''"
    | "\<not> (length s < 2 \<or> hd s \<noteq> CHR ''-'')" "s \<noteq> ''--''" by blast
  then show ?case
  proof cases
    case 1
    then show ?thesis using "2.prems" by (auto simp: parsed_def)
  next
    case two: 2
    then show ?thesis using "2.prems" by (auto simp: parsed_def)
  next
    case 3
    have ok: "\<not> (hd ?name = CHR ''-'' \<or> hd ?name = CHR ''='')" using "2.prems" 3 by (auto simp: Let_def split: if_splits)
    obtain st where st: "Lookup fs n = Some st" using "2.prems" 3 ok cut by (auto simp: Let_def split: option.splits if_splits)
    have k: "kinds fs n = Some (is_bool_flag st)" using st by (simp add: kinds_def)
    define F where "F = FlagSet_Parse L (s # args) fs m"
    have F: "F = (if is_bool_flag st
                  then (case set_flag L st (if hasv then v else ''true'') m of
                          None \<Rightarrow> Inl FlagError | Some m1 \<Rightarrow> FlagSet_Parse L args (mark_set n fs) m1)
                  else if hasv
                  then (case set_flag L st v m of None \<Rightarrow> Inl FlagError | Some m1 \<Rightarrow> FlagSet_Parse L args (mark_set n fs) m1)
                  else (case args of [] \<Rightarrow> Inl FlagError
                        | a # rest \<Rightarrow> (case set_flag L st a m of None \<Rightarrow> Inl FlagError | Some m1 \<Rightarrow> FlagSet_Parse L rest (mark_set n fs) m1)))"
      unfolding F_def using 3 ok cut st by (simp add: Let_def)
    have S: "cli_scan (kinds fs) (s # args) = (if hasv then map_option (apfst (Cons (n, v))) (cli_scan (kinds fs) args)
        else if is_bool_flag st then map_option (apfst (Cons (n, ''true''))) (cli_scan (kinds fs) args)
        else (case args of [] \<Rightarrow> None | a # rest \<Rightarrow> map_option (apfst (Cons (n, a))) (cli_scan (kinds fs) rest)))"
      using 3 ok cut k by (simp add: Let_def)
    show ?thesis
    proof (cases "is_bool_flag st \<or> hasv")
      case True
      let ?val = "if hasv then v else ''true''"
      obtain m2 where m2: "set_flag L st ?val m = Some m2" "FlagSet_Parse L args (mark_set n fs) m2 = Inr (fs1, m1)"
        using "2.prems" True unfolding F_def[symmetric] F by (auto split: if_splits option.splits)
      have "\<exists>kvs rest. cli_scan (kinds (mark_set n fs)) args = Some (kvs, rest) \<and> set_all L (mark_set n fs) kvs m2 = Some m1 \<and> fs1 = parsed (mark_set n fs) kvs rest"
      proof (cases "is_bool_flag st")
        case True
        show ?thesis by (rule "2.IH"(1)[OF 3(1,2) refl ok cut[symmetric] refl st True m2]) 
      next
        case False
        then have "hasv" "set_flag L st v m = Some m2" using \<open>is_bool_flag st \<or> hasv\<close> m2(1) by auto
        show ?thesis by (rule "2.IH"(2)[OF 3(1,2) refl ok cut[symmetric] refl st False \<open>hasv\<close> \<open>set_flag L st v m = Some m2\<close> m2(2)])
      qed
      then obtain kvs rest where kr: "cli_scan (kinds fs) args = Some (kvs, rest)" "set_all L fs kvs m2 = Some m1" "fs1 = parsed (mark_set n fs) kvs rest" by auto
      have "cli_scan (kinds fs) (s # args) = Some ((n, ?val) # kvs, rest)" unfolding S using kr(1) True by auto
      then show ?thesis using kr st m2(1) parsed_mark[of n fs kvs rest ?val] by auto
    next
      case False
      then obtain a rest0 m2 where a: "args = a # rest0" "set_flag L st a m = Some m2" "FlagSet_Parse L rest0 (mark_set n fs) m2 = Inr (fs1, m1)"
        using "2.prems" unfolding F_def[symmetric] F by (auto split: list.splits option.splits)
      have "\<exists>kvs rest. cli_scan (kinds (mark_set n fs)) rest0 = Some (kvs, rest) \<and> set_all L (mark_set n fs) kvs m2 = Some m1 \<and> fs1 = parsed (mark_set n fs) kvs rest"
        using False by (intro "2.IH"(3)[OF 3(1,2) refl ok cut[symmetric] refl st _ _ a]) simp_all
      then obtain kvs rest where kr: "cli_scan (kinds fs) rest0 = Some (kvs, rest)" "set_all L fs kvs m2 = Some m1" "fs1 = parsed (mark_set n fs) kvs rest" by auto
      have "cli_scan (kinds fs) (s # args) = Some ((n, a) # kvs, rest)" unfolding S using kr(1) False a(1) by auto
      then show ?thesis using kr st a(2) parsed_mark[of n fs kvs rest a] by auto
    qed
  qed
qed

subsection \<open>What a setting touches\<close>

fun target :: "'o setter \<Rightarrow> path" where
  "target (SetScalar _ _ p) = p" | "target (SetInverted p) = p" | "target (SetPointer _ _ p) = p"
| "target (SetSlice _ _ p _ _ _ _) = p" | "target (SetEnum _ _ _ p _ _ _) = p" | "target (SetOwn p) = p"

lemma put_val_simps [simp]: "mem_val (put_val p v m) q = (if q = p then v else mem_val m q)" "mem_clear (put_val p v m) = mem_clear m"
  by (simp_all add: put_val_def)

lemma enum_Set_other: "enumValue_Set L sh e t p k sep ss s m = Some m1 \<Longrightarrow> \<forall>q. q \<noteq> p \<longrightarrow> mem_val m1 q = mem_val m q"
  by (cases sh) (auto simp: enumValue_Set_def Let_def)

lemma set_flag_other: "set_flag L st v m = Some m1 \<Longrightarrow> q \<noteq> target st \<Longrightarrow> mem_val m1 q = mem_val m q"
proof (cases st)
  case (SetEnum sh e t p k sep ss)
  then show "set_flag L st v m = Some m1 \<Longrightarrow> q \<noteq> target st \<Longrightarrow> mem_val m1 q = mem_val m q" by (auto dest: enum_Set_other)
qed (auto simp: appendOnce_def Let_def split: gvalue.splits)

text \<open>The settings of one scalar field: the last one counts.\<close>

definition sets_scalar :: "'o golib \<Rightarrow> 'o setter \<Rightarrow> path \<Rightarrow> (string \<Rightarrow> 'o scalar option) \<Rightarrow> bool" where
  "sets_scalar L st p read \<longleftrightarrow> target st = p \<and> (\<forall>s m. set_flag L st s m = map_option (\<lambda>x. put_val p (VScalar x) m) (read s))"

lemma set_all_scalar:
  assumes "\<And>n st'. Lookup fs n = Some st' \<Longrightarrow> target st' = q \<Longrightarrow> n \<in> N \<and> st' = st" "\<And>n. n \<in> N \<Longrightarrow> Lookup fs n = Some st" "sets_scalar L st q read"
  shows "set_all L fs kvs m = Some m1 \<Longrightarrow> given = map snd (filter (\<lambda>kv. fst kv \<in> N) kvs) \<Longrightarrow>
    (if given = [] then mem_val m1 q = mem_val m q else \<exists>x. read (last given) = Some x \<and> mem_val m1 q = VScalar x)"
proof (induction kvs arbitrary: m given)
  case (Cons kv kvs)
  obtain n v where kv: "kv = (n, v)" by fastforce
  obtain st1 m2 where st: "Lookup fs n = Some st1" "set_flag L st1 v m = Some m2" "set_all L fs kvs m2 = Some m1"
    using Cons.prems(1) kv by (auto split: option.splits)
  let ?g = "map snd (filter (\<lambda>kv. fst kv \<in> N) kvs)"
  note ih = Cons.IH[OF st(3) refl]
  show ?case
  proof (cases "n \<in> N")
    case True
    then have g: "given = v # ?g" using Cons.prems(2) kv by simp
    have "st1 = st" using assms(2)[OF True] st(1) by simp
    then obtain x where "read v = Some x" "mem_val m2 q = VScalar x" using st(2) assms(3) by (auto simp: sets_scalar_def)
    then show ?thesis using ih unfolding g by (auto split: if_splits)
  next
    case False
    then have g: "given = ?g" using Cons.prems(2) kv by simp
    have "target st1 \<noteq> q" using assms(1)[OF st(1)] False by blast
    then show ?thesis using ih set_flag_other[OF st(2), of q] unfolding g by auto
  qed
qed simp

subsection \<open>What binding adds\<close>

definition adds :: "path set \<Rightarrow> 'o flagset \<times> 'o memory \<Rightarrow> 'o flagset \<times> 'o memory \<Rightarrow> bool" where
  "adds P st st1 \<longleftrightarrow>
     (\<exists>new. fs_formal (fst st1) = new @ fs_formal (fst st) \<and> (\<forall>e\<in>set new. target (snd e) \<in> P \<and> Lookup (fst st) (fst e) = None))
   \<and> fs_actual (fst st1) = fs_actual (fst st) \<and> (\<forall>q. q \<notin> P \<longrightarrow> mem_val (snd st1) q = mem_val (snd st) q)"

lemma adds_refl: "adds P st st"
  by (simp add: adds_def)

lemma adds_keeps: "adds P st st1 \<Longrightarrow> Lookup (fst st) n = Some x \<Longrightarrow> Lookup (fst st1) n = Some x"
proof -
  assume a: "adds P st st1" and l: "Lookup (fst st) n = Some x"
  obtain new where new: "fs_formal (fst st1) = new @ fs_formal (fst st)" "\<forall>e\<in>set new. Lookup (fst st) (fst e) = None" using a unfolding adds_def by blast
  have "map_of new n = None" using new(2) l by (auto simp: map_of_eq_None_iff)
  then show ?thesis using l new(1) by (simp add: Lookup_def map_add_def)
qed

lemma adds_new: "adds P st st1 \<Longrightarrow> Lookup (fst st1) n = Some x \<Longrightarrow> Lookup (fst st) n = Some x \<or> target x \<in> P"
proof -
  assume a: "adds P st st1" and l: "Lookup (fst st1) n = Some x"
  obtain new where new: "fs_formal (fst st1) = new @ fs_formal (fst st)" "\<forall>e\<in>set new. target (snd e) \<in> P" using a unfolding adds_def by blast
  show ?thesis
  proof (cases "map_of new n")
    case None
    then show ?thesis using l new(1) by (simp add: Lookup_def map_add_def)
  next
    case (Some y)
    then have "y = x" using l new(1) by (simp add: Lookup_def map_add_def)
    then show ?thesis using map_of_SomeD[OF Some] new(2) by auto
  qed
qed

lemma adds_trans: "adds P st st1 \<Longrightarrow> adds Q st1 st2 \<Longrightarrow> adds (P \<union> Q) st st2"
proof -
  assume a: "adds P st st1" "adds Q st1 st2"
  obtain new1 where 1: "fs_formal (fst st1) = new1 @ fs_formal (fst st)" "\<forall>e\<in>set new1. target (snd e) \<in> P \<and> Lookup (fst st) (fst e) = None"
    using a(1) unfolding adds_def by blast
  obtain new2 where 2: "fs_formal (fst st2) = new2 @ fs_formal (fst st1)" "\<forall>e\<in>set new2. target (snd e) \<in> Q \<and> Lookup (fst st1) (fst e) = None"
    using a(2) unfolding adds_def by blast
  have "Lookup (fst st) (fst e) = None" if "e \<in> set new2" for e
    using 2(2) that adds_keeps[OF a(1)] by (metis not_None_eq)
  then show ?thesis using a 1 2 unfolding adds_def
    by (intro conjI exI[of _ "new2 @ new1"]) auto
qed

lemma registerAlias_formal:
  "registerAlias spec st fs = Inr fs1 \<Longrightarrow>
   fs1 = fs\<lparr>fs_formal := (if sp_Short spec \<noteq> '''' then [(sp_Short spec, st)] else []) @ (sp_Name spec, st) # fs_formal fs\<rparr>
   \<and> Lookup fs (sp_Name spec) = None \<and> (sp_Short spec \<noteq> '''' \<longrightarrow> Lookup fs (sp_Short spec) = None \<and> sp_Short spec \<noteq> sp_Name spec)"
  by (auto simp: registerAlias_def define_flag_def Lookup_def split: sum.splits if_splits)

lemma alias_adds:
  "with_mem m1 (registerAlias spec st fs) = Inr st1 \<Longrightarrow> target st = p \<Longrightarrow> \<forall>q. q \<noteq> p \<longrightarrow> mem_val m1 q = mem_val m q \<Longrightarrow> adds {p} (fs, m) st1"
proof -
  assume a: "with_mem m1 (registerAlias spec st fs) = Inr st1" "target st = p" "\<forall>q. q \<noteq> p \<longrightarrow> mem_val m1 q = mem_val m q"
  obtain fs1 where fs1: "registerAlias spec st fs = Inr fs1" "st1 = (fs1, m1)" using a(1) by (auto simp: with_mem_def split: sum.splits)
  show ?thesis using registerAlias_formal[OF fs1(1)] a(2,3) fs1(2) unfolding adds_def
    by (intro conjI exI[of _ "(if sp_Short spec \<noteq> '''' then [(sp_Short spec, st)] else []) @ [(sp_Name spec, st)]"]) auto
qed

lemma slice_default_other: "parseAndSetSliceDefault L spec b p m = Some m1 \<Longrightarrow> \<forall>q. q \<noteq> p \<longrightarrow> mem_val m1 q = mem_val m q"
  by (auto simp: parseAndSetSliceDefault_def split: if_splits)

lemma fresh_clear_val: "fresh_clear b m = (k, m1) \<Longrightarrow> mem_val m1 = mem_val m"
  by (auto simp: fresh_clear_def)

lemma enum_adds: "registerEnumFlag L spec ty p fs m = Inr st1 \<Longrightarrow> adds {p} (fs, m) st1"
  by (auto simp: registerEnumFlag_def Let_def split: gotype.splits option.splits if_splits prod.splits
      intro!: alias_adds dest!: enum_Set_other fresh_clear_val)

lemma registerFlag_adds: "registerFlag L spec ty p fs m = Inr st1 \<Longrightarrow> adds {p} (fs, m) st1"
proof (cases "sp_EnumSet spec")
  case True
  assume "registerFlag L spec ty p fs m = Inr st1"
  then have "registerEnumFlag L spec ty p fs m = Inr st1" using True by (simp add: registerFlag_def split: if_splits)
  then show ?thesis by (rule enum_adds)
next
  case False
  show "registerFlag L spec ty p fs m = Inr st1 \<Longrightarrow> adds {p} (fs, m) st1" using False
    by (cases ty rule: gotype.exhaust)
      (auto simp: registerFlag_def registerBoolFlag_def registerFuncFlag_def registerPointerFlag_def registerSliceFlag_def registerBoolSliceFlag_def Let_def
        split: if_splits shape.splits elem.splits basic.splits option.splits prod.splits bool.splits gvalue.splits
        intro!: alias_adds dest!: slice_default_other fresh_clear_val)
qed

lemma bind_leaf_adds: "bind_leaf L f pfx p sticky st = Inr st1 \<Longrightarrow> adds {p} st st1"
  by (cases st) (auto simp: bind_leaf_def Let_def adds_refl split: if_splits option.splits intro: registerFlag_adds)

definition paths :: "item list \<Rightarrow> path list" where
  "paths its = concat (map (\<lambda>it. case it of ItLeaf _ _ p _ \<Rightarrow> [p] | ItFail _ \<Rightarrow> []) its)"

lemma paths_simps [simp]: "paths [] = []" "paths (ItLeaf f pfx p s # its) = p # paths its" "paths (ItFail e # its) = paths its" "paths (xs @ ys) = paths xs @ paths ys"
  by (simp_all add: paths_def)

lemma paths_iff: "p \<in> set (paths its) \<longleftrightarrow> (\<exists>f pfx s. ItLeaf f pfx p s \<in> set its)"
  by (induction its) (auto simp: paths_def split: item.splits)

lemma bind_items_adds: "bind_items L its st = Inr st1 \<Longrightarrow> adds (set (paths its)) st st1"
proof (induction L its st rule: bind_items.induct)
  case (3 L f pfx p sticky its st)
  obtain st2 where st2: "bind_leaf L f pfx p sticky st = Inr st2" "bind_items L its st2 = Inr st1" using "3.prems" by (auto split: sum.splits)
  have "adds ({p} \<union> set (paths its)) st st1" by (rule adds_trans[OF bind_leaf_adds[OF st2(1)] "3.IH"[OF st2(1) st2(2)]])
  then show ?case by simp
qed (simp_all add: adds_refl)

lemma leaves_paths_below: "p \<in> set (paths (leaves fds pfx base i sticky)) \<Longrightarrow> \<exists>j q. p = base @ j # q \<and> i \<le> j"
  using leaves_below by (fastforce simp: paths_iff)

lemma leaves_distinct: "distinct (paths (leaves fds pfx base i sticky))"
proof (induction fds arbitrary: pfx base i sticky rule: fields_induct)
  case (Cons f fds)
  have head: "\<exists>q. p = base @ i # q" if "p \<in> set (paths (leaves sub pre (base @ [i]) 0 s))" for p sub pre s
    using leaves_paths_below[OF that] by auto
  have later: "\<not> (\<exists>q. p = base @ i # q)" if "p \<in> set (paths (leaves fds pfx base (Suc i) sticky))" for p
    using leaves_paths_below[OF that] by auto
  have rest: "distinct (paths (leaves fds pfx base (Suc i) sticky))" by (rule Cons.IH(2))
  have own: "base @ [i] \<notin> set (paths (leaves fds pfx base (Suc i) sticky))" using later[of "base @ [i]"] by auto
  show ?case
  proof (cases "struct_of f")
    case None
    then show ?thesis using rest own by (simp add: leaves.simps(2))
  next
    case (Some bs)
    then obtain b sub where bs: "struct_of f = Some (b, sub)" by (cases bs) simp
    have "set (paths (leaves sub pre (base @ [i]) 0 s)) \<inter> set (paths (leaves fds pfx base (Suc i) sticky)) = {}" for pre s
      using head later by blast
    then show ?thesis using rest own bs Cons.IH(1)[OF bs]
      by (cases "bindStructField f b pfx sticky") (simp_all add: leaves.simps(2))
  qed
qed (simp add: leaves.simps)

subsection \<open>A scalar field\<close>

text \<open>
  A field with one value: of a basic type, for bool with no default that negates the flag, or an enum.  How its texts are read, and
  what binding leaves in it.
\<close>

definition scalar_field :: "gofield \<Rightarrow> bool" where
  "scalar_field f \<longleftrightarrow> tag_Get f ''flag'' \<noteq> '''' \<and>
     (case gf_type f of Leaf Scalar e \<Rightarrow>
        (gf_tag f ''enum'' \<noteq> None \<or> (case e of Basic b \<Rightarrow> b = BBool \<longrightarrow> \<not> truthy (tag_Get f ''default'') | _ \<Rightarrow> False)) | _ \<Rightarrow> False)"

definition field_parse :: "'o golib \<Rightarrow> gofield \<Rightarrow> string \<Rightarrow> 'o scalar option" where
  "field_parse L f s =
     (case gf_type f of
        Leaf _ e \<Rightarrow>
          (case gf_tag f ''enum'' of
             Some tag \<Rightarrow> (case parseEnumTag (splitTrimmed tag '','') (elem_kind e) (gf_tag f ''case-sensitive'' = Some ''true'') of
                            None \<Rightarrow> None | Some t \<Rightarrow> enumValue_parse L e t s)
           | None \<Rightarrow> (case e of Basic b \<Rightarrow> parse_basic L (tag_Get f ''format'') b s | _ \<Rightarrow> None))
      | _ \<Rightarrow> None)"

definition field_default :: "'o golib \<Rightarrow> gofield \<Rightarrow> 'o gvalue \<Rightarrow> 'o gvalue" where
  "field_default L f old =
     (let d = tag_Get f ''default''; b = (if gf_tag f ''enum'' \<noteq> None then None else case gf_type f of Leaf _ (Basic b) \<Rightarrow> Some b | _ \<Rightarrow> None) in
      if b = Some BString then VScalar (SString d)
      else if b = Some BBool then VScalar (SBool False)
      else if d \<noteq> '''' then (case field_parse L f d of Some x \<Rightarrow> VScalar x | None \<Rightarrow> old)
      else if b = Some BDuration then VScalar (SInt 0) else old)"

definition field_names :: "gofield \<Rightarrow> string \<Rightarrow> string set" where
  "field_names f pfx = insert (pfx @ tag_Get f ''flag'') (if tag_Get f ''short'' \<noteq> '''' then {tag_Get f ''short''} else {})"

lemma parse_format: "b \<noteq> BTime \<Longrightarrow> parse_basic L fmt b s = parse_basic L fmt2 b s"
  by (cases b) simp_all

lemma scalar_setter:
  "field_parse L f = parse_basic L (tag_Get f ''format'') b \<Longrightarrow> fmt = tag_Get f ''format'' \<or> b \<noteq> BTime \<Longrightarrow> sets_scalar L (SetScalar b fmt p) p (field_parse L f)"
  using parse_format[of b L fmt _ "tag_Get f ''format''"] by (auto simp: sets_scalar_def)

lemma enum_setter: "sets_scalar L (SetEnum Scalar e t p k sep ss) p (enumValue_parse L e t)"
  by (auto simp: sets_scalar_def enumValue_Set_def split: option.split)

lemma func_scalar:
  assumes "registerFuncFlag L u b p fs m = Inr st1"
  shows "\<exists>m2. with_mem m2 (registerAlias u (SetScalar b (sp_Format u) p) fs) = Inr st1
    \<and> mem_val m2 p = (if sp_Default u = '''' then mem_val m p
                      else case parse_basic L (sp_Format u) b (sp_Default u) of None \<Rightarrow> mem_val m p | Some x \<Rightarrow> VScalar x)"
proof (cases "sp_Default u = ''''")
  case True
  then show ?thesis using assms by (auto simp: registerFuncFlag_def)
next
  case False
  then obtain x where "parse_basic L (sp_Format u) b (sp_Default u) = Some x"
      "with_mem (put_val p (VScalar x) m) (registerAlias u (SetScalar b (sp_Format u) p) fs) = Inr st1"
    using assms by (auto simp: registerFuncFlag_def split: option.splits)
  then show ?thesis using False by (intro exI[of _ "put_val p (VScalar x) m"]) simp
qed

text \<open>What registering such a field does: one setter under its names.\<close>

lemma register_scalar:
  fixes L :: "'o golib"
  assumes "registerFlag L u (gf_type f) p fs m = Inr st1" "enumTags f (field_spec f pfx) = Some u" "scalar_field f"
  shows "\<exists>st m2. with_mem m2 (registerAlias u st fs) = Inr st1 \<and> sets_scalar L st p (field_parse L f) \<and> mem_val m2 p = field_default L f (mem_val m p)"
proof -
  obtain e where ty: "gf_type f = Leaf Scalar e" using assms(3) by (auto simp: scalar_field_def split: gotype.splits shape.splits)
  show ?thesis
  proof (cases "gf_tag f ''enum''")
    case None
    obtain b where e: "e = Basic b" "b = BBool \<Longrightarrow> \<not> truthy (tag_Get f ''default'')"
      using assms(3) None ty by (auto simp: scalar_field_def split: elem.splits)
    have u: "u = field_spec f pfx" using assms(2) None by (auto simp: enumTags_def Let_def split: if_splits)
    have fp: "field_parse L f = parse_basic L (tag_Get f ''format'') b" by (simp add: fun_eq_iff field_parse_def ty e None)
    note st = scalar_setter[OF fp] and st' = scalar_setter[OF fp, unfolded fp]
    have func: ?thesis if ff: "registerFuncFlag L u b p fs m = Inr st1" "b \<noteq> BString" "b \<noteq> BBool" "b \<noteq> BDuration"
    proof -
      obtain m2 where m2: "with_mem m2 (registerAlias u (SetScalar b (tag_Get f ''format'') p) fs) = Inr st1"
          "mem_val m2 p = (if tag_Get f ''default'' = '''' then mem_val m p else case field_parse L f (tag_Get f ''default'') of None \<Rightarrow> mem_val m p | Some x \<Rightarrow> VScalar x)"
        using func_scalar[OF ff(1)] unfolding fp u by (auto simp: field_spec_def)
      have "mem_val m2 p = field_default L f (mem_val m p)"
        using m2(2) ff(2-4) by (auto simp: field_default_def ty e(1) None split: option.split)
      then show ?thesis using m2(1) st by blast
    qed
    show ?thesis
    proof (cases b)
      case BString
      then show ?thesis using assms(1) ty e None
        by (intro exI[of _ "SetScalar BString '''' p"] exI[of _ "put_val p (VScalar (SString (tag_Get f ''default''))) m"])
          (simp add: registerFlag_def u field_spec_def field_default_def st[unfolded BString] split: if_splits)
    next
      case BBool
      then show ?thesis using assms(1) ty e None
        by (intro exI[of _ "SetScalar BBool '''' p"] exI[of _ "put_val p (VScalar (SBool False)) m"])
          (simp add: registerFlag_def registerBoolFlag_def truthy_def u field_spec_def field_default_def Let_def st[unfolded BBool] split: if_splits)
    next
      case BDuration
      then obtain x where x: "(if tag_Get f ''default'' = '''' then Some 0 else lib_duration L (tag_Get f ''default'')) = Some x"
          "with_mem (put_val p (VScalar (SInt x)) m) (registerAlias u (SetScalar BDuration '''' p) fs) = Inr st1"
        using assms(1) ty e None by (auto simp: registerFlag_def u field_spec_def split: if_splits option.splits)
      have "field_default L f (mem_val m p) = VScalar (SInt x)" using x(1) BDuration
        by (auto simp: field_default_def ty e(1) None fp split: if_splits)
      then show ?thesis using x(2) st[unfolded BDuration]
        by (intro exI[of _ "SetScalar BDuration '''' p"] exI[of _ "put_val p (VScalar (SInt x)) m"]) simp
    next
      case (BInt w)
      show ?thesis by (rule func) (use assms(1) ty e None BInt in \<open>simp_all add: registerFlag_def u field_spec_def split: if_splits\<close>)
    next
      case (BUint w)
      show ?thesis by (rule func) (use assms(1) ty e None BUint in \<open>simp_all add: registerFlag_def u field_spec_def split: if_splits\<close>)
    next
      case (BFloat w)
      show ?thesis by (rule func) (use assms(1) ty e None BFloat in \<open>simp_all add: registerFlag_def u field_spec_def split: if_splits\<close>)
    next
      case BTime
      show ?thesis by (rule func) (use assms(1) ty e None BTime in \<open>simp_all add: registerFlag_def u field_spec_def split: if_splits\<close>)
    qed
  next
    case (Some tag)
    define exact where "exact \<longleftrightarrow> gf_tag f ''case-sensitive'' = Some ''true''"
    have u: "sp_EnumSet u" "sp_Enum u = splitTrimmed tag '',''" "sp_EnumExactCase u = exact" "sp_Default u = tag_Get f ''default''"
      using assms(2) Some by (auto simp: enumTags_def field_spec_def exact_def Let_def split: if_splits)
    have r: "registerEnumFlag L u (Leaf Scalar e) p fs m = Inr st1" using assms(1) u(1) ty by (simp add: registerFlag_def split: if_splits)
    note r' = r[unfolded registerEnumFlag_def u(2-4) gotype.case]
    obtain t :: "'o enumTable" where t: "parseEnumTag (splitTrimmed tag '','') (elem_kind e) exact = Some t"
      using r' by (cases "parseEnumTag (splitTrimmed tag '','') (elem_kind e) exact :: 'o enumTable option") simp_all
    have fp: "field_parse L f = enumValue_parse L e t" using t by (simp add: fun_eq_iff field_parse_def ty Some exact_def)
    obtain k m1 where k: "fresh_clear False m = (k, m1)" by fastforce
    have m1: "mem_val m1 = mem_val m" by (rule fresh_clear_val[OF k])
    let ?st = "SetEnum Scalar e t p k (sp_Sep u) (sp_SepSet u)"
    have st: "sets_scalar L ?st p (field_parse L f)" unfolding fp by (rule enum_setter)
    show ?thesis
    proof (cases "tag_Get f ''default'' = ''''")
      case True
      then have "with_mem m1 (registerAlias u ?st fs) = Inr st1" using r' by (simp add: t k Let_def split: if_splits)
      then show ?thesis using m1 st True Some by (intro exI[of _ ?st] exI[of _ m1]) (simp add: field_default_def Let_def)
    next
      case False
      obtain m2 where m2: "enumValue_Set L Scalar e t p k (sp_Sep u) (sp_SepSet u) (tag_Get f ''default'') m1 = Some m2"
          "with_mem (m2\<lparr>mem_clear := (mem_clear m2)(k := False)\<rparr>) (registerAlias u ?st fs) = Inr st1"
        using r' False by (auto simp: t k Let_def split: if_splits option.splits)
      have "mem_val m2 p = field_default L f (mem_val m p)"
        using m2(1) False Some by (auto simp: enumValue_Set_def field_default_def fp Let_def split: option.splits)
      then show ?thesis using m2(2) st by (intro exI[of _ ?st] exI[of _ "m2\<lparr>mem_clear := (mem_clear m2)(k := False)\<rparr>"]) simp
    qed
  qed
qed

lemma bind_scalar:
  assumes "bind_leaf L f pfx p sticky (fs, m) = Inr (fs1, m1)" "scalar_field f"
  shows "\<exists>st. (\<forall>n\<in>field_names f pfx. Lookup fs1 n = Some st) \<and> sets_scalar L st p (field_parse L f)
    \<and> (\<forall>n. n \<notin> field_names f pfx \<longrightarrow> Lookup fs1 n = Lookup fs n) \<and> mem_val m1 p = field_default L f (mem_val m p)"
proof -
  have f: "tag_Get f ''flag'' \<noteq> ''''" "\<not> is_slice (gf_type f)" using assms(2) by (auto simp: scalar_field_def split: gotype.splits shape.splits)
  obtain u where u: "enumTags f (field_spec f pfx) = Some u" "registerFlag L u (gf_type f) p fs m = Inr (fs1, m1)"
    using assms(1) f by (auto simp: bind_leaf_def Let_def checkNargTags_def split: if_splits option.splits)
  obtain st m2 where st: "with_mem m2 (registerAlias u st fs) = Inr (fs1, m1)" "sets_scalar L st p (field_parse L f)" "mem_val m2 p = field_default L f (mem_val m p)"
    using register_scalar[OF u(2,1) assms(2)] by blast
  have m: "m1 = m2" and a: "registerAlias u st fs = Inr fs1" using st(1) by (auto simp: with_mem_def split: sum.splits)
  have n: "sp_Name u = pfx @ tag_Get f ''flag''" "sp_Short u = tag_Get f ''short''"
    using u(1) by (auto simp: enumTags_def field_spec_def Let_def split: if_splits option.splits)
  show ?thesis using registerAlias_formal[OF a] m st(2,3)
    by (intro exI[of _ st]) (auto simp: field_names_def Lookup_def n)
qed

lemma bound_scalar:
  assumes "bind_items L its (new_flagset, m0) = Inr (fs, m)" "distinct (paths its)" "ItLeaf f pfx p sticky \<in> set its" "scalar_field f"
  shows "\<exists>st. (\<forall>n\<in>field_names f pfx. Lookup fs n = Some st) \<and> sets_scalar L st p (field_parse L f)
    \<and> (\<forall>n st. Lookup fs n = Some st \<longrightarrow> target st = p \<longrightarrow> n \<in> field_names f pfx) \<and> mem_val m p = field_default L f (mem_val m0 p)"
proof -
  obtain pre post where its: "its = pre @ ItLeaf f pfx p sticky # post" using assms(3) split_list by metis
  have np: "p \<notin> set (paths pre)" "p \<notin> set (paths post)" using assms(2) by (auto simp: its)
  obtain fs1 m1 where 1: "bind_items L pre (new_flagset, m0) = Inr (fs1, m1)" "bind_items L (ItLeaf f pfx p sticky # post) (fs1, m1) = Inr (fs, m)"
    using assms(1) unfolding its bind_items_append by (auto split: sum.splits)
  obtain fs2 m2 where 2: "bind_leaf L f pfx p sticky (fs1, m1) = Inr (fs2, m2)" "bind_items L post (fs2, m2) = Inr (fs, m)"
    using 1(2) by (auto split: sum.splits)
  have a1: "adds (set (paths pre)) (new_flagset, m0) (fs1, m1)" and a2: "adds (set (paths post)) (fs2, m2) (fs, m)"
    using bind_items_adds[OF 1(1)] bind_items_adds[OF 2(2)] by simp_all
  obtain st where st: "\<forall>n\<in>field_names f pfx. Lookup fs2 n = Some st" "sets_scalar L st p (field_parse L f)"
      "\<forall>n. n \<notin> field_names f pfx \<longrightarrow> Lookup fs2 n = Lookup fs1 n" "mem_val m2 p = field_default L f (mem_val m1 p)"
    using bind_scalar[OF 2(1) assms(4)] by blast
  have "Lookup fs n = Some st" if "n \<in> field_names f pfx" for n
    using adds_keeps[OF a2] st(1) that by simp
  moreover have "n \<in> field_names f pfx" if n: "Lookup fs n = Some st'" "target st' = p" for n st'
  proof (rule ccontr)
    assume out: "n \<notin> field_names f pfx"
    have "Lookup fs2 n = Some st'" using adds_new[OF a2] n np(2) by auto
    then have "Lookup fs1 n = Some st'" using st(3) out by simp
    then show False using adds_new[OF a1, of n st'] n(2) np(1) by (auto simp: Lookup_def new_flagset_def)
  qed
  moreover have "mem_val m1 p = mem_val m0 p" "mem_val m p = mem_val m2 p" using a1 a2 np by (auto simp: adds_def)
  ultimately show ?thesis using st(2,4) by auto
qed

text \<open>A field whose default does not negate its flag is found under its name.\<close>

lemma bound_own_name:
  assumes "bind_items L its (new_flagset, m0) = Inr (fs, m)" "ItLeaf g pfx p sticky \<in> set its" "tag_Get g ''flag'' \<noteq> ''''" "\<not> negating_field g"
  shows "\<exists>st. Lookup fs (pfx @ tag_Get g ''flag'') = Some st \<and> target st = p"
proof -
  let ?n = "pfx @ tag_Get g ''flag''"
  obtain pre post where its: "its = pre @ ItLeaf g pfx p sticky # post" using assms(2) split_list by metis
  obtain fs1 m1 where 1: "bind_items L pre (new_flagset, m0) = Inr (fs1, m1)" "bind_items L (ItLeaf g pfx p sticky # post) (fs1, m1) = Inr (fs, m)"
    using assms(1) unfolding its bind_items_append by (auto split: sum.splits)
  obtain fs2 m2 where 2: "bind_leaf L g pfx p sticky (fs1, m1) = Inr (fs2, m2)" "bind_items L post (fs2, m2) = Inr (fs, m)"
    using 1(2) by (auto split: sum.splits)
  obtain new where new: "fs_formal fs2 = new @ fs_formal fs1" "\<forall>e\<in>set new. target (snd e) = p"
    using bind_leaf_adds[OF 2(1)] by (auto simp: adds_def)
  have "tag_Get g ''narg'' \<noteq> ''rest''" using 2(1) assms(3) by (auto simp: bind_leaf_def checkNargTags_def Let_def split: if_splits)
  then have "?n \<in> set (leaf_bound g pfx)" using assms(3,4) by (simp add: leaf_bound_def leaf_names_def spec_names_def field_spec_def)
  moreover have "map fst new = leaf_bound g pfx" using leaf_binds_names[OF 2(1)] new(1) by (simp add: flag_names_def)
  ultimately obtain st where st: "map_of new ?n = Some st" by (metis list.set_map map_of_eq_None_iff not_None_eq)
  have "Lookup fs2 ?n = Some st" using st new(1) by (simp add: Lookup_def map_add_def)
  then have "Lookup fs ?n = Some st" using adds_keeps[OF bind_items_adds[OF 2(2)]] by simp
  then show ?thesis using new(2) map_of_SomeD[OF st] by auto
qed

subsection \<open>The rest field and the environment\<close>

lemma leaf_at:
  "ItLeaf f pfx1 (base @ [j]) s \<in> set (leaves fds pfx base i sticky) \<Longrightarrow> i \<le> j \<and> j - i < length fds \<and> f = fds ! (j - i)"
proof (induction fds arbitrary: i)
  case (Cons g fds)
  consider "ItLeaf f pfx1 (base @ [j]) s \<in> set (leaves fds pfx base (Suc i) sticky)" | "f = g \<and> j = i"
  proof (cases "struct_of g")
    case None
    then show thesis using Cons.prems that by (auto simp: leaves.simps(2))
  next
    case (Some bs)
    then obtain b sub where bs: "struct_of g = Some (b, sub)" by (cases bs) simp
    have "ItLeaf f pfx1 (base @ [j]) s \<notin> set (leaves sub pre (base @ [i]) 0 t)" for pre t using leaves_below[of f pfx1 "base @ [j]" s sub pre "base @ [i]" 0 t] by auto
    then show thesis using Cons.prems that bs by (cases "bindStructField g b pfx sticky") (auto simp: leaves.simps(2))
  qed
  then show ?case
  proof cases
    case 1
    then show ?thesis using Cons.IH[OF 1] by (auto simp: nth_Cons' split: nat.split)
  qed simp
qed (simp add: leaves.simps)

lemma rest_scan_at: "rest_scan fds i found c = Inr (Some (j, ty), c2) \<Longrightarrow> found = Some (j, ty) \<or> i \<le> j \<and> j - i < length fds \<and> ty = gf_type (fds ! (j - i))"
proof (induction fds arbitrary: i found c)
  case (Cons g fds)
  obtain f2 c' where f2: "rest_scan fds (Suc i) f2 c' = Inr (Some (j, ty), c2)" "f2 = found \<or> f2 = Some (i, gf_type g)"
    using Cons.prems by (auto split: if_splits)
  have shift: "i \<le> j \<and> j - i < length (g # fds) \<and> ty = gf_type ((g # fds) ! (j - i))"
    if "Suc i \<le> j \<and> j - Suc i < length fds \<and> ty = gf_type (fds ! (j - Suc i))"
  proof -
    have "j - i = Suc (j - Suc i)" using that Suc_diff_Suc[of i j] by linarith
    then show ?thesis using that by simp
  qed
  show ?case using Cons.IH[OF f2(1)] f2(2) shift by auto
qed simp

lemma rest_other:
  assumes "populateRestField L fds base args m = Inr m1" "ItLeaf f pfx1 p s \<in> set (leaves fds pfx base 0 sticky)" "\<not> is_slice (gf_type f)"
  shows "mem_val m1 p = mem_val m p"
proof -
  consider "m1 = m" | j ty where "collectRestField fds = Inr (Some (j, ty))" "appendRestArgs L ty (base @ [j]) args m = Inr m1"
  proof (cases "collectRestField fds")
    case (Inr r)
    show thesis
    proof (cases r)
      case None
      then have "m1 = m" using assms(1) Inr by (simp add: populateRestField_def)
      then show thesis by (rule that(1))
    next
      case (Some jt)
      then have c: "collectRestField fds = Inr (Some (fst jt, snd jt))" using Inr by simp
      show thesis
      proof (cases "args = []")
        case True
        then have "m1 = m" using assms(1) c by (simp add: populateRestField_def)
        then show thesis by (rule that(1))
      next
        case False
        then have "appendRestArgs L (snd jt) (base @ [fst jt]) args m = Inr m1" using assms(1) c by (cases jt) (simp add: populateRestField_def)
        then show thesis using that(2)[OF c] by blast
      qed
    qed
  qed (use assms(1) in \<open>simp add: populateRestField_def\<close>)
  then show ?thesis
  proof cases
    case (2 j ty)
    obtain c2 where "rest_scan fds 0 None False = Inr (Some (j, ty), c2)"
      using 2(1) by (auto simp: collectRestField_def split: sum.splits option.splits prod.splits if_splits)
    then have j: "ty = gf_type (fds ! j)" using rest_scan_at by fastforce
    obtain bb where ty: "ty = Leaf Slice (Basic bb)" "restAppend L bb (base @ [j]) args m = Inr m1"
      using 2(2) by (auto simp: appendRestArgs_def split: gotype.splits shape.splits elem.splits if_splits)
    have "is_slice (gf_type (fds ! j))" using ty(1) j by (metis is_slice.simps(1))
    then have "p \<noteq> base @ [j]" using leaf_at[of f pfx1 base j s fds pfx 0 sticky] assms(2,3) by auto
    then show ?thesis using ty(2) by (auto simp: restAppend_def split: option.splits)
  qed simp
qed

lemma env_leaf_other:
  assumes "env_leaf L env fs cs g pfx m = Inr m1" "\<And>st. tag_Get g ''flag'' \<noteq> '''' \<Longrightarrow> Lookup fs (pfx @ tag_Get g ''flag'') = Some st \<Longrightarrow> target st \<noteq> p"
  shows "mem_val m1 p = mem_val m p"
  using assms(1) assms(2) set_flag_other[of L _ _ m m1 p]
  by (auto simp: env_leaf_def Let_def split: if_splits option.splits)

lemma env_items_other:
  "env_items L env fs cs its m = Inr m1 \<Longrightarrow>
   (\<And>g pfx q s st. ItLeaf g pfx q s \<in> set its \<Longrightarrow> tag_Get g ''flag'' \<noteq> '''' \<Longrightarrow> Lookup fs (pfx @ tag_Get g ''flag'') = Some st \<Longrightarrow> target st \<noteq> p) \<Longrightarrow>
   mem_val m1 p = mem_val m p"
proof (induction L env fs cs its m rule: env_items.induct)
  case (3 L env fs cs g pfx q s its m)
  obtain m2 where m2: "env_leaf L env fs cs g pfx m = Inr m2" "env_items L env fs cs its m2 = Inr m1" using "3.prems"(1) by (auto split: sum.splits)
  have "mem_val m2 p = mem_val m p" by (rule env_leaf_other[OF m2(1)]) (use "3.prems"(2)[of g pfx q s] in simp)
  moreover have "mem_val m1 p = mem_val m2 p" 
  proof (rule "3.IH"[OF m2])
    show "target st \<noteq> p" if "ItLeaf g' pfx' q' s' \<in> set its" "tag_Get g' ''flag'' \<noteq> ''''" "Lookup fs (pfx' @ tag_Get g' ''flag'') = Some st" for g' pfx' q' s' st
      using "3.prems"(2)[OF _ that(2,3), of q' s'] that(1) by simp
  qed
  ultimately show ?case by simp
qed auto

text \<open>
  The value in the environment for a field, if it has one: of the variables that its tag lists those that are set, without
  those that are empty if the field says so, the first one or the last one.
\<close>

definition has_opt :: "gofield \<Rightarrow> string \<Rightarrow> bool" where "has_opt f opt \<longleftrightarrow> opt \<in> set (splitTrimmed (tag_Get f ''opts'') '','')"

definition env_values :: "environ \<Rightarrow> gofield \<Rightarrow> string list" where
  "env_values env f =
     (if tag_Get f ''env'' = '''' then []
      else [v. Some v \<leftarrow> map env (splitTrimmed (tag_Get f ''env'') '',''), \<not> (has_opt f ''env-nonempty-only'' \<and> v = '''')])"

definition field_env :: "environ \<Rightarrow> gofield \<Rightarrow> string option" where
  "field_env env f =
     (let vs = env_values env f in if vs = [] then None else Some (if has_opt f ''env-last-wins'' then last vs else hd vs))"

lemma fold_opts:
  "nonEmptyOnly (fold set_env_opt ps o1) \<longleftrightarrow> nonEmptyOnly o1 \<or> ''env-nonempty-only'' \<in> set ps"
  "takesPriority (fold set_env_opt ps o1) \<longleftrightarrow> takesPriority o1 \<or> ''env-takes-priority'' \<in> set ps"
  "orCLI (fold set_env_opt ps o1) \<longleftrightarrow> orCLI o1 \<or> ''env-or-cli'' \<in> set ps"
  "exclusive (fold set_env_opt ps o1) \<longleftrightarrow> exclusive o1 \<or> ''env-exclusive'' \<in> set ps"
  "lastWins (fold set_env_opt ps o1) \<longleftrightarrow> lastWins o1 \<or> ''env-last-wins'' \<in> set ps"
  by (induction ps arbitrary: o1) (auto simp: set_env_opt_def)

lemma parsed_opts:
  "nonEmptyOnly (parseEnvOpts (tag_Get f ''opts'')) = has_opt f ''env-nonempty-only''" "takesPriority (parseEnvOpts (tag_Get f ''opts'')) = has_opt f ''env-takes-priority''"
  "orCLI (parseEnvOpts (tag_Get f ''opts'')) = has_opt f ''env-or-cli''" "exclusive (parseEnvOpts (tag_Get f ''opts'')) = has_opt f ''env-exclusive''"
  "lastWins (parseEnvOpts (tag_Get f ''opts'')) = has_opt f ''env-last-wins''"
  by (simp_all add: parseEnvOpts_def fold_opts has_opt_def)

lemma first_env_values:
  "first_env env ne ns = (let vs = [v. Some v \<leftarrow> map env ns, \<not> (ne \<and> v = '''')] in if vs = [] then None else Some (hd vs))"
proof (induction ns)
  case (Cons n ns)
  show ?case
  proof (cases "env n")
    case (Some v)
    then show ?thesis using Cons by (cases "ne \<and> v = ''''") (auto simp add: Let_def simp del: concat_eq_Nil_conv)
  qed (use Cons in \<open>simp add: Let_def del: concat_eq_Nil_conv\<close>)
qed simp

lemma rev_values: "[v. Some v \<leftarrow> map env (rev ns), \<not> (ne \<and> v = '''')] = rev [v. Some v \<leftarrow> map env ns, \<not> (ne \<and> v = '''')]"
  by (induction ns) (auto split: option.split)

lemma resolve_field_env:
  "tag_Get f ''env'' \<noteq> '''' \<Longrightarrow> resolveEnvVars env (splitTrimmed (tag_Get f ''env'') '','') (parseEnvOpts (tag_Get f ''opts'')) = field_env env f"
  unfolding resolveEnvVars_def first_env_values field_env_def env_values_def parsed_opts rev_values Let_def
  by (cases "has_opt f ''env-last-wins''") (simp_all only: rev_values if_True if_False rev_is_Nil_conv hd_rev)

lemma env_leaf_own:
  assumes "env_leaf L env fs cs f pfx m = Inr m1" "tag_Get f ''flag'' \<noteq> ''''" "Lookup fs (pfx @ tag_Get f ''flag'') = Some st" "sets_scalar L st p read"
    "cli \<longleftrightarrow> field_names f pfx \<inter> cs \<noteq> {}"
  shows "(case field_env env f of
            Some v \<Rightarrow> if cli \<and> \<not> has_opt f ''env-takes-priority'' then mem_val m1 p = mem_val m p else \<exists>x. read v = Some x \<and> mem_val m1 p = VScalar x
          | None \<Rightarrow> mem_val m1 p = mem_val m p)
    \<and> \<not> (tag_Get f ''env'' \<noteq> '''' \<and> has_opt f ''env-exclusive'' \<and> cli) \<and> \<not> (has_opt f ''env-or-cli'' \<and> field_env env f \<noteq> None \<and> cli)"
proof -
  have cli: "(pfx @ tag_Get f ''flag'' \<in> cs \<or> tag_Get f ''short'' \<noteq> '''' \<and> tag_Get f ''short'' \<in> cs) \<longleftrightarrow> cli"
    using assms(5) by (auto simp: field_names_def)
  have set: "set_flag L st s m' = map_option (\<lambda>x. put_val p (VScalar x) m') (read s)" for s m' using assms(4) by (simp add: sets_scalar_def)
  show ?thesis
  proof (cases "tag_Get f ''env'' = ''''")
    case True
    then show ?thesis using assms(1,2) by (simp add: env_leaf_def field_env_def env_values_def)
  next
    case False
    then show ?thesis using assms(1,2,3)
      by (auto simp: env_leaf_def resolve_field_env parsed_opts Let_def cli set split: if_splits option.splits)
  qed
qed

subsection \<open>From where\<close>

text \<open>The texts that the command line gives for some names.\<close>

definition cli_values :: "'o flagset \<Rightarrow> string list \<Rightarrow> string set \<Rightarrow> string list" where
  "cli_values fs args ns = (case cli_scan (kinds fs) args of None \<Rightarrow> [] | Some (kvs, _) \<Rightarrow> map snd (filter (\<lambda>kv. fst kv \<in> ns) kvs))"

definition field_source :: "gofield \<Rightarrow> environ \<Rightarrow> string list \<Rightarrow> string option" where
  "field_source f env given =
     (if given \<noteq> [] \<and> \<not> (has_opt f ''env-takes-priority'' \<and> field_env env f \<noteq> None) then Some (last given) else field_env env f)"

lemma expand_none [simp]: "expandUntilArgs args {} = args"
  using expand_plain[of args "{}" "[]"] by simp

lemma env_own_position:
  assumes "env_items L env fs cs its m = Inr m1" "distinct (paths its)" "ItLeaf f pfx p sticky \<in> set its" "tag_Get f ''flag'' \<noteq> ''''"
    "\<forall>g pfx' p' s' st. ItLeaf g pfx' p' s' \<in> set its \<longrightarrow> p' \<noteq> p \<longrightarrow> tag_Get g ''flag'' \<noteq> '''' \<longrightarrow> Lookup fs (pfx' @ tag_Get g ''flag'') = Some st \<longrightarrow> target st \<noteq> p"
  shows "\<exists>m2 m3. env_leaf L env fs cs f pfx m2 = Inr m3 \<and> mem_val m2 p = mem_val m p \<and> mem_val m1 p = mem_val m3 p"
proof -
  obtain pre post where its: "its = pre @ ItLeaf f pfx p sticky # post" using assms(3) split_list by metis
  have np: "p \<notin> set (paths pre)" "p \<notin> set (paths post)" using assms(2) by (auto simp: its)
  obtain m2 where m2: "env_items L env fs cs pre m = Inr m2" "env_items L env fs cs (ItLeaf f pfx p sticky # post) m2 = Inr m1"
    using assms(1) unfolding its env_items_append by (auto split: sum.splits)
  obtain m3 where m3: "env_leaf L env fs cs f pfx m2 = Inr m3" "env_items L env fs cs post m3 = Inr m1" using m2(2) by (auto split: sum.splits)
  have other: "target st \<noteq> p" if "ItLeaf g pfx' q s \<in> set pre \<union> set post" "tag_Get g ''flag'' \<noteq> ''''" "Lookup fs (pfx' @ tag_Get g ''flag'') = Some st" for g pfx' q s st
  proof -
    have "q \<noteq> p" using that(1) np paths_iff[of q pre] paths_iff[of q post] by blast
    then show ?thesis using assms(5)[rule_format, of g pfx' q s st] that unfolding its by auto
  qed
  have "mem_val m2 p = mem_val m p" by (rule env_items_other[OF m2(1)]) (use other in blast)
  moreover have "mem_val m1 p = mem_val m3 p" by (rule env_items_other[OF m3(2)]) (use other in blast)
  ultimately show ?thesis using m3(1) by blast
qed

text \<open>
  C24: After a successful parse a field with one value (of a basic type or an enum; a bool only without a default that negates its flag),
  whose names are not those that such a negated bool gives up, holds the value of the last text that the command line
  gives for its name or its short name; unless an environment variable of its tag is set and takes priority or no text was given:
  then it holds the value of that variable, which is the first one set in the order of the tag, or the last one, skipping empty
  ones, as the options of the field say.  Without both it holds its default.  The text has been parsed without an error, an
  exclusive variable has not been combined with the command line at all, and one of the kind either-or not while it is set.
\<close>

theorem field_sources:
  assumes "parseAndCheck L env fds args (new_flagset, m0) = Inr (fs, m1)" "ItLeaf f pfx p sticky \<in> set (leaves fds '''' [] 0 False)" "scalar_field f"
    "\<forall>g pfx' p' s'. ItLeaf g pfx' p' s' \<in> set (leaves fds '''' [] 0 False) \<longrightarrow> negating_field g \<longrightarrow> tag_Get g ''flag'' = '''' \<or> pfx' @ tag_Get g ''flag'' \<notin> field_names f pfx"
    "given = cli_values fs (expandUntilArgs args (collectUntilFlags fds '''')) (field_names f pfx)"
  shows "(case field_source f env given of
            None \<Rightarrow> mem_val m1 p = field_default L f (mem_val m0 p)
          | Some s \<Rightarrow> \<exists>x. field_parse L f s = Some x \<and> mem_val m1 p = VScalar x)
    \<and> \<not> (tag_Get f ''env'' \<noteq> '''' \<and> has_opt f ''env-exclusive'' \<and> given \<noteq> [])
    \<and> \<not> (has_opt f ''env-or-cli'' \<and> field_env env f \<noteq> None \<and> given \<noteq> [])"
proof -
  let ?its = "leaves fds '''' [] 0 False" and ?N = "field_names f pfx" and ?args = "expandUntilArgs args (collectUntilFlags fds '''')"
  obtain fs0 mb where b: "bindFlags L fds '''' [] 0 False (new_flagset, m0) = Inr (fs0, mb)" "parseAndFinalize L env [(fds, [])] args (fs0, mb) = Inr (fs, m1)"
    using assms(1) by (auto simp: parseAndCheck_def split: sum.splits)
  have its: "bind_items L ?its (new_flagset, m0) = Inr (fs0, mb)" using b(1) by (simp add: bindFlags_leaves)
  note nf = bound_no_fail[OF its]
  obtain st where st: "\<And>n. n \<in> ?N \<Longrightarrow> Lookup fs0 n = Some st" "sets_scalar L st p (field_parse L f)"
      "\<And>n st'. Lookup fs0 n = Some st' \<Longrightarrow> target st' = p \<Longrightarrow> n \<in> ?N" "mem_val mb p = field_default L f (mem_val m0 p)"
    using bound_scalar[OF its leaves_distinct assms(2,3)] by blast
  obtain m2 where p: "FlagSet_Parse L ?args fs0 mb = Inr (fs, m2)" "finalize L env fs [(fds, [])] m2 = Inr m1"
    using b(2) by (auto simp: parseAndFinalize_def Let_def split: sum.splits if_splits)
  obtain kvs rest where kr: "cli_scan (kinds fs0) ?args = Some (kvs, rest)" "set_all L fs0 kvs mb = Some m2" "fs = parsed fs0 kvs rest"
    using Parse_scans[OF p(1)] by blast
  have fs: "Lookup fs = Lookup fs0" "kinds fs = kinds fs0" "fs_actual fs = rev (map fst kvs) @ fs_actual fs0"
    using kr(3) by (auto simp: parsed_def Lookup_def kinds_def fun_eq_iff)
  have no_actual: "fs_actual fs0 = []" using bind_items_adds[OF its] by (simp add: adds_def new_flagset_def)
  have given: "given = map snd (filter (\<lambda>kv. fst kv \<in> ?N) kvs)" using assms(5) kr(1) by (simp add: cli_values_def fs(2))
  have sc: "Lookup fs0 n = Some st' \<Longrightarrow> target st' = p \<Longrightarrow> n \<in> ?N \<and> st' = st" for n st' using st(3)[of n st'] st(1)[of n] by auto
  have parsed_p: "if given = [] then mem_val m2 p = mem_val mb p else \<exists>x. field_parse L f (last given) = Some x \<and> mem_val m2 p = VScalar x"
    by (rule set_all_scalar[OF sc st(1,2) kr(2) given])
  have cli: "given \<noteq> [] \<longleftrightarrow> ?N \<inter> set (fs_actual fs) \<noteq> {}" unfolding given fs(3) no_actual by (auto simp: filter_empty_conv)
  obtain m3 where m3: "populateRestField L fds [] (fs_args fs) m2 = Inr m3" "applyEnvVars L env fs fds m3 = Inr m1"
    using p(2) by (auto split: sum.splits if_splits)
  have flag: "tag_Get f ''flag'' \<noteq> ''''" "\<not> is_slice (gf_type f)" using assms(3) by (auto simp: scalar_field_def split: gotype.splits shape.splits)
  have rest_p: "mem_val m3 p = mem_val m2 p" by (rule rest_other[OF m3(1) assms(2) flag(2)])
  have own: "Lookup fs (pfx @ tag_Get f ''flag'') = Some st" using st(1) by (simp add: fs(1) field_names_def)
  have e: "env_items L env fs (set (fs_actual fs)) ?its m3 = Inr m1" using m3(2) unfolding applyEnvVars_def applyEnvVarsWalk_leaves[OF nf] .
  have others: "\<forall>g pfx' p' s' st'. ItLeaf g pfx' p' s' \<in> set ?its \<longrightarrow> p' \<noteq> p \<longrightarrow> tag_Get g ''flag'' \<noteq> '''' \<longrightarrow> Lookup fs (pfx' @ tag_Get g ''flag'') = Some st' \<longrightarrow> target st' \<noteq> p"
  proof (intro allI impI)
    fix g pfx' p' s' st'
    assume g: "ItLeaf g pfx' p' s' \<in> set ?its" "p' \<noteq> p" "tag_Get g ''flag'' \<noteq> ''''" "Lookup fs (pfx' @ tag_Get g ''flag'') = Some st'"
    show "target st' \<noteq> p"
    proof (cases "negating_field g")
      case True
      then show ?thesis using assms(4) st(3) g unfolding fs(1) by blast
    next
      case False
      from bound_own_name[OF its g(1,3) False] show ?thesis using g(2,4) by (auto simp: fs(1))
    qed
  qed
  obtain m4 m5 where m45: "env_leaf L env fs (set (fs_actual fs)) f pfx m4 = Inr m5" "mem_val m4 p = mem_val m3 p" "mem_val m1 p = mem_val m5 p"
    using env_own_position[OF e leaves_distinct assms(2) flag(1) others] by blast
  note ev = env_leaf_own[OF m45(1) flag(1) own st(2) cli]
  show ?thesis using ev parsed_p rest_p m45(2,3) st(4)
    by (cases "field_env env f"; cases "given = []") (auto simp: field_source_def split: if_splits)
qed

lemma field_sources_witness:
  "\<exists>fs m1. parseAndCheck plain_lib (\<lambda>n. if n = ''HOST'' then Some ''env.example'' else None) server_fields [''-srv.host=a'', ''--srv.host'', ''b'', ''rest''] (new_flagset, empty_memory) = Inr (fs, m1)
     \<and> mem_val m1 [0, 0] = VScalar (SString ''b'')"
proof -
  let ?env = "\<lambda>n. if n = ''HOST'' then Some ''env.example'' else None" and ?args = "[''-srv.host=a'', ''--srv.host'', ''b'', ''rest'']"
  let ?fs = "new_flagset\<lparr>fs_formal := [(''srv.host'', SetScalar BString '''' [0, 0])]\<rparr> :: unit flagset"
  have cuts: "cut_at ''srv.host=a'' ''='' = (''srv.host'', ''a'', True)" "cut_at ''srv.host'' ''='' = (''srv.host'', '''', False)" by (simp_all add: cut_at_def)
  have no_until: "collectUntilFlags server_fields '''' = {}"
    using collectUntilFlags_leaves[of server_fields "''''" "[]" 0 False] unfolding server_leaves by (simp add: until_leaf_def eval_tags)
  have s: "cli_scan (kinds ?fs) ?args = Some ([(''srv.host'', ''a''), (''srv.host'', ''b'')], [''rest''])"
    by (simp add: kinds_def Lookup_def cuts)
  have P: "\<exists>m. FlagSet_Parse plain_lib ?args ?fs (put_val [0, 0] (VScalar (SString '''')) empty_memory) = Inr (parsed ?fs [(''srv.host'', ''a''), (''srv.host'', ''b'')] [''rest''], m) \<and> mem_val m [0, 0] = VScalar (SString ''b'')"
    by (simp add: Lookup_def cuts parsed_def mark_set_def Let_def)
  then obtain m where m: "FlagSet_Parse plain_lib ?args ?fs (put_val [0, 0] (VScalar (SString '''')) empty_memory) = Inr (parsed ?fs [(''srv.host'', ''a''), (''srv.host'', ''b'')] [''rest''], m)"
      "mem_val m [0, 0] = VScalar (SString ''b'')" by blast
  let ?fs1 = "parsed ?fs [(''srv.host'', ''a''), (''srv.host'', ''b'')] [''rest'']"
  have nf: "no_fail (leaves server_fields '''' [] 0 False)" by (simp add: server_leaves)
  have env: "applyEnvVars plain_lib ?env ?fs1 server_fields m = Inr m"
    unfolding applyEnvVars_def applyEnvVarsWalk_leaves[OF nf] server_leaves
    by (simp add: env_leaf_def eval_tags parseEnvOpts_def splitTrimmed_def split_seq.simps resolveEnvVars_def trim_space_def is_space_def set_env_opt_def parsed_def Let_def)
  have req: "checkRequired plain_lib server_fields [] 0 m"
    unfolding checkRequired_leaves[OF nf] server_leaves using m(2) by (simp add: check_leaf_def eval_tags)
  have rest: "populateRestField plain_lib server_fields [] [''rest''] m = Inr m" by (simp add: populateRestField_def collectRestField_def eval_tags)
  have ok: "parseAndCheck plain_lib ?env server_fields ?args (new_flagset, empty_memory) = Inr (?fs1, m)"
    using m(1) env req rest by (simp add: parseAndCheck_def server_binds parseAndFinalize_def no_until parsed_def)
  have f: "scalar_field host_field" "ItLeaf host_field ''srv.'' [0, 0] False \<in> set (leaves server_fields '''' [] 0 False)"
    by (simp add: scalar_field_def eval_tags, simp add: server_leaves)
  have g: "[''a'', ''b''] = cli_values ?fs1 (expandUntilArgs ?args (collectUntilFlags server_fields '''')) (field_names host_field ''srv.'')"
    unfolding no_until expand_none cli_values_def kinds_parsed s by (simp add: field_names_def eval_tags)
  have n: "\<not> negating_field host_field" by (simp add: negating_field_def eval_tags)
  have u: "\<forall>g pfx' p' s'. ItLeaf g pfx' p' s' \<in> set (leaves server_fields '''' [] 0 False) \<longrightarrow> negating_field g \<longrightarrow> tag_Get g ''flag'' = '''' \<or> pfx' @ tag_Get g ''flag'' \<notin> field_names host_field ''srv.''"
    using n by (auto simp: server_leaves)
  have src: "field_source host_field ?env [''a'', ''b''] = Some ''b''"
    by (simp add: field_source_def has_opt_def eval_tags splitTrimmed_def split_seq.simps trim_space_def is_space_def)
  have fp: "field_parse plain_lib host_field s = Some (SString s)" for s by (simp add: field_parse_def eval_tags)
  show ?thesis using field_sources[OF ok f(2,1) u g] unfolding src using ok by (auto simp: fp)
qed

end
