(* ===== verification/PubBroker.thy ===== *)
theory PubBroker
  imports Main "HOL-Library.Word"
begin

text \<open>
  The message broker of \<open>src/pubsub/broker.go\<close>: a control loop that owns the subscriptions, workers that take messages
  from a source and send them to every subscriber, and any number of clients that call \<open>Subscribe\<close>,
  \<open>Unsubscribe\<close>, \<open>Send\<close>, \<open>Stats\<close> and \<open>Stop\<close>.  A step is one operation of one goroutine on shared state;
  where a \<open>select\<close> has several ready cases the choice is part of the step.

  A message carries the number with which the sink accepted it, and a channel remembers all that was sent on it.
  These, the time from which a subscription counts, and the channels that someone asked to remove, are only recorded.
\<close>

subsection \<open>State\<close>

record broker_opts =
  BufferSize :: int
  ParallelDispatch :: bool
  WorkerPoolSize :: int
  NonBlockingPush :: bool

text \<open>What is between publishers and workers: a queue, a stack or nothing at all.\<close>

datatype broker_source = Fifo | Lifo | Handoff

datatype 'a msg = Msg (m_num: nat) (m_val: 'a)

datatype broker_state = BrokerStateUnknown | BrokerStateEmpty | BrokerStateActive | BrokerStateClosed

record broker_stats =
  bs_State :: broker_state
  bs_Subscriptions :: nat
  bs_BufferDepth :: nat
  bs_MessageCount :: "64 word"

datatype ctl_request = ReqSub nat | ReqUnsub nat | ReqStats nat

datatype loop_pc = LSelect | LReq ctl_request | LAck nat | LClose nat | LDone

text \<open>
  A worker in a dispatch holds the message, the channels it has visited, those that were in the map during the whole
  iteration and those that were there at some time: the first ones are visited, the last ones may be.
\<close>

datatype 'a worker = WSource | WIter "'a msg" "nat list" "nat list" "nat list" | WGroup "'a msg" | WDone

datatype broker_error = ErrBrokerClosed | CtxErr | ErrQueueFull | ErrQueueNoCredit | ErrQueueDraining | ErrQueueClosed
datatype call_result = RNil | RErr "broker_error list" | RChan nat | RStats broker_stats

datatype 'a client = CIdle | CRet call_result
  | CSub0 | CSub1 | CSub2 nat | CSub3 nat | CAbort nat
  | CUnsub0 nat | CUnsub1 nat
  | CSend0 'a | CSend1 'a | CSend2 'a | CSend3 'a | CSend4
  | CStats0 | CStats1 | CStats2 nat

record 'a broker =
  bk_opts :: broker_opts
  bk_source :: broker_source
  bk_room :: "nat \<Rightarrow> bool"
  bk_cancelled :: bool
  bk_ctl :: "ctl_request list"
  bk_loop :: loop_pc
  bk_subs :: "nat list"
  bk_done :: "nat list"
  bk_acks :: "nat list"
  bk_signal :: "nat \<Rightarrow> broker_stats option"
  bk_buf :: "'a msg list"
  bk_closed :: bool
  bk_draining :: bool
  bk_count :: "64 word"
  bk_wg :: int
  bk_workers :: "nat \<Rightarrow> 'a worker"
  bk_sends :: "(nat \<times> 'a msg \<times> nat) list"
  bk_chan :: "nat \<Rightarrow> 'a msg list"
  bk_taken :: "nat \<Rightarrow> nat"
  bk_next :: nat
  bk_ctx :: "nat \<Rightarrow> bool"
  bk_clients :: "nat \<Rightarrow> 'a client"
  bk_accepted :: "'a list"
  bk_since :: "nat \<Rightarrow> nat option"
  bk_left :: "nat list"

subsection \<open>Construction\<close>

definition makeBroker :: "broker_opts \<Rightarrow> broker_opts" where
  "makeBroker opts = (if BufferSize opts < 0 then opts\<lparr>BufferSize := 0\<rparr> else opts)"

definition numWorkers :: "broker_opts \<Rightarrow> nat" where
  "numWorkers opts = (if WorkerPoolSize opts \<le> 0 then 1 else nat (WorkerPoolSize opts))"

definition startQueueWorkers :: "broker_source \<Rightarrow> (nat \<Rightarrow> bool) \<Rightarrow> broker_opts \<Rightarrow> 'a broker" where
  "startQueueWorkers src room opts =
     \<lparr>bk_opts = opts, bk_source = src, bk_room = room, bk_cancelled = False, bk_ctl = [], bk_loop = LSelect, bk_subs = [], bk_done = [], bk_acks = [],
      bk_signal = (\<lambda>_. None), bk_buf = [], bk_closed = False, bk_draining = False, bk_count = 0, bk_wg = 1 + int (numWorkers opts),
      bk_workers = (\<lambda>w. if w < numWorkers opts then WSource else WDone), bk_sends = [], bk_chan = (\<lambda>_. []), bk_taken = (\<lambda>_. 0),
      bk_next = 0, bk_ctx = (\<lambda>_. False), bk_clients = (\<lambda>_. CIdle), bk_accepted = [], bk_since = (\<lambda>_. None), bk_left = []\<rparr>"

definition makeInternalBrokerImpl :: "broker_source \<Rightarrow> (nat \<Rightarrow> bool) \<Rightarrow> broker_opts \<Rightarrow> 'a broker" where
  "makeInternalBrokerImpl src room opts = startQueueWorkers src room (makeBroker opts)"

definition NewBroker :: "broker_opts \<Rightarrow> 'a broker" where
  "NewBroker opts = makeInternalBrokerImpl Handoff (\<lambda>_. True) (opts\<lparr>NonBlockingPush := False\<rparr>)"

definition NewQueueBroker :: "(nat \<Rightarrow> bool) \<Rightarrow> broker_opts \<Rightarrow> 'a broker" where
  "NewQueueBroker room opts = makeInternalBrokerImpl Fifo room opts"

definition NewDequeBroker :: "(nat \<Rightarrow> bool) \<Rightarrow> broker_opts \<Rightarrow> 'a broker" where
  "NewDequeBroker room opts = makeInternalBrokerImpl Fifo room (opts\<lparr>NonBlockingPush := False\<rparr>)"

definition NewLIFOBroker :: "(nat \<Rightarrow> bool) \<Rightarrow> broker_opts \<Rightarrow> 'a broker" where
  "NewLIFOBroker room opts = makeInternalBrokerImpl Lifo room (opts\<lparr>NonBlockingPush := False\<rparr>)"

subsection \<open>The control loop\<close>

text \<open>
  Sending on the control channel: into its buffer, or hand in hand with the loop if it has none.
\<close>

definition offer :: "ctl_request \<Rightarrow> 'a broker \<Rightarrow> 'a broker option" where
  "offer r s =
     (if int (length (bk_ctl s)) < BufferSize (bk_opts s) then Some (s\<lparr>bk_ctl := bk_ctl s @ [r]\<rparr>)
      else if BufferSize (bk_opts s) = 0 \<and> bk_loop s = LSelect then Some (s\<lparr>bk_loop := LReq r\<rparr>)
      else None)"

definition loop_stats :: "'a broker \<Rightarrow> broker_stats" where
  "loop_stats s =
     \<lparr>bs_State = (if 0 < length (bk_subs s) \<or> 0 < length (bk_buf s) then BrokerStateActive else BrokerStateEmpty),
      bs_Subscriptions = length (bk_subs s), bs_BufferDepth = length (bk_buf s), bs_MessageCount = bk_count s\<rparr>"

text \<open>The map of subscriptions changes under the iterations of the workers.\<close>

fun iter_add :: "nat \<Rightarrow> 'a worker \<Rightarrow> 'a worker" where
  "iter_add ch (WIter m visited throughout sometime) = WIter m visited throughout (ch # sometime)"
| "iter_add ch w = w"

fun iter_delete :: "nat \<Rightarrow> 'a worker \<Rightarrow> 'a worker" where
  "iter_delete ch (WIter m visited throughout sometime) = WIter m visited (removeAll ch throughout) sometime"
| "iter_delete ch w = w"

definition subs_Store :: "nat \<Rightarrow> 'a broker \<Rightarrow> 'a broker" where
  "subs_Store ch s = s\<lparr>bk_subs := bk_subs s @ [ch], bk_workers := iter_add ch \<circ> bk_workers s\<rparr>"

definition subs_Delete :: "nat \<Rightarrow> 'a broker \<Rightarrow> 'a broker" where
  "subs_Delete ch s = s\<lparr>bk_subs := removeAll ch (bk_subs s), bk_workers := iter_delete ch \<circ> bk_workers s\<rparr>"

definition loop_step :: "bool \<Rightarrow> 'a broker \<Rightarrow> 'a broker option" where
  "loop_step stop s =
     (case bk_loop s of
        LSelect \<Rightarrow>
          if stop then (if bk_cancelled s then Some (s\<lparr>bk_loop := LDone, bk_wg := bk_wg s - 1\<rparr>) else None)
          else (case bk_ctl s of [] \<Rightarrow> None | r # rest \<Rightarrow> Some (s\<lparr>bk_ctl := rest, bk_loop := LReq r\<rparr>))
      | LReq (ReqStats i) \<Rightarrow> Some (s\<lparr>bk_signal := (bk_signal s)(i := Some (loop_stats s)), bk_loop := LSelect\<rparr>)
      | LReq (ReqUnsub ch) \<Rightarrow>
          if ch \<in> set (bk_subs s) then Some ((subs_Delete ch s)\<lparr>bk_loop := LClose ch\<rparr>) else Some (s\<lparr>bk_loop := LSelect\<rparr>)
      | LReq (ReqSub ch) \<Rightarrow>
          if ch \<notin> set (bk_subs s) then Some ((subs_Store ch s)\<lparr>bk_loop := LAck ch\<rparr>) else Some (s\<lparr>bk_loop := LAck ch\<rparr>)
      | LClose ch \<Rightarrow> Some (s\<lparr>bk_done := ch # bk_done s, bk_loop := LSelect\<rparr>)
      | LAck ch \<Rightarrow> Some (s\<lparr>bk_acks := ch # bk_acks s, bk_loop := LSelect\<rparr>)
      | LDone \<Rightarrow> None)"

subsection \<open>Dispatching\<close>

datatype move = Take | Quit | Visit nat | Finish

definition sending :: "nat \<Rightarrow> 'a msg \<Rightarrow> 'a broker \<Rightarrow> bool" where "sending w m s \<longleftrightarrow> list_ex (\<lambda>(v, n, ch). v = w \<and> m_num n = m_num m) (bk_sends s)"

definition set_worker :: "nat \<Rightarrow> 'a worker \<Rightarrow> 'a broker \<Rightarrow> 'a broker" where "set_worker w x s = s\<lparr>bk_workers := (bk_workers s)(w := x)\<rparr>"

definition start_dispatch :: "'a msg \<Rightarrow> 'a broker \<Rightarrow> 'a worker" where "start_dispatch m s = WIter m [] (bk_subs s) (bk_subs s)"

text \<open>
  One goroutine or many: a send in progress is an entry of the list, and a worker that does not dispatch in parallel
  waits for its own before it goes on.
\<close>

definition dispatchMessage :: "nat \<Rightarrow> move \<Rightarrow> 'a broker \<Rightarrow> 'a broker option" where
  "dispatchMessage w mv s =
     (case bk_workers s w of
        WIter m visited throughout sometime \<Rightarrow>
          if \<not> ParallelDispatch (bk_opts s) \<and> sending w m s then None
          else (case mv of
                  Visit ch \<Rightarrow>
                    if ch \<in> set sometime \<and> ch \<notin> set visited
                    then Some (set_worker w (WIter m (ch # visited) throughout sometime) (s\<lparr>bk_sends := bk_sends s @ [(w, m, ch)]\<rparr>)) else None
                | Finish \<Rightarrow>
                    if set throughout \<subseteq> set visited
                    then Some (set_worker w (if ParallelDispatch (bk_opts s) then WGroup m else WSource) s) else None
                | _ \<Rightarrow> None)
      | WGroup m \<Rightarrow> if \<not> sending w m s \<or> ParallelDispatch (bk_opts s) \<and> bk_cancelled s then Some (set_worker w WSource s) else None
      | _ \<Rightarrow> None)"

definition worker_step :: "nat \<Rightarrow> move \<Rightarrow> 'a broker \<Rightarrow> 'a broker option" where
  "worker_step w mv s =
     (case bk_workers s w of
        WSource \<Rightarrow>
          (case mv of
             Take \<Rightarrow> (case bk_buf s of [] \<Rightarrow> None
                     | m # rest \<Rightarrow> if bk_closed s then None else Some (set_worker w (start_dispatch m s) (s\<lparr>bk_buf := rest\<rparr>)))
           | Quit \<Rightarrow> if bk_cancelled s \<or> bk_closed s then Some (set_worker w WDone (s\<lparr>bk_wg := bk_wg s - 1\<rparr>)) else None
           | _ \<Rightarrow> None)
      | WDone \<Rightarrow> None
      | _ \<Rightarrow> dispatchMessage w mv s)"

text \<open>
  Sending to one subscriber ends with the broker, with the subscription or with the channel taking the message: into its
  buffer, or hand in hand with a receiver.
\<close>

datatype send_case = ByBroker | ByDone | ByChan bool

definition sendMsg :: "nat \<times> 'a msg \<times> nat \<Rightarrow> send_case \<Rightarrow> 'a broker \<Rightarrow> 'a broker option" where
  "sendMsg x c s =
     (if x \<notin> set (bk_sends s) then None
      else case x of (w, m, ch) \<Rightarrow>
        let s1 = s\<lparr>bk_sends := remove1 x (bk_sends s)\<rparr> in
        (case c of
           ByBroker \<Rightarrow> if bk_cancelled s then Some s1 else None
         | ByDone \<Rightarrow> if ch \<in> set (bk_done s) then Some s1 else None
         | ByChan receiver \<Rightarrow>
             if int (length (bk_chan s ch) - bk_taken s ch) < BufferSize (bk_opts s)
             then Some (s1\<lparr>bk_chan := (bk_chan s)(ch := bk_chan s ch @ [m])\<rparr>)
             else if BufferSize (bk_opts s) = 0 \<and> receiver
             then Some (s1\<lparr>bk_chan := (bk_chan s)(ch := bk_chan s ch @ [m]), bk_taken := (bk_taken s)(ch := bk_taken s ch + 1)\<rparr>)
             else None))"

subsection \<open>Clients\<close>

datatype client_case = Go nat | ByCtx | ByClose | ByFull | ByNoCredit | ByDrain | BySource

definition client_at :: "nat \<Rightarrow> 'a client \<Rightarrow> 'a broker \<Rightarrow> 'a broker" where "client_at c pc s = s\<lparr>bk_clients := (bk_clients s)(c := pc)\<rparr>"

definition Subscribe_step :: "nat \<Rightarrow> client_case \<Rightarrow> 'a broker \<Rightarrow> 'a broker option" where
  "Subscribe_step c cc s =
     (case bk_clients s c of
        CSub0 \<Rightarrow> Some (client_at c (if bk_ctx s c then CRet (RErr [CtxErr]) else CSub1) s)
      | CSub1 \<Rightarrow>
          if bk_cancelled s then Some (client_at c (CRet (RErr [ErrBrokerClosed])) s)
          else Some (client_at c (CSub2 (bk_next s)) (s\<lparr>bk_next := Suc (bk_next s)\<rparr>))
      | CSub2 ch \<Rightarrow>
          (case cc of
             Go _ \<Rightarrow> map_option (client_at c (CSub3 ch)) (offer (ReqSub ch) s)
           | ByCtx \<Rightarrow> if bk_ctx s c then Some (client_at c (CRet (RErr [CtxErr])) s) else None
           | ByClose \<Rightarrow> if bk_cancelled s then Some (client_at c (CRet (RErr [ErrBrokerClosed])) s) else None
           | _ \<Rightarrow> None)
      | CSub3 ch \<Rightarrow>
          (case cc of
             Go _ \<Rightarrow> if ch \<in> set (bk_acks s)
                     then Some (client_at c (CRet (RChan ch)) (s\<lparr>bk_since := (bk_since s)(ch := Some (length (bk_accepted s)))\<rparr>)) else None
           | ByCtx \<Rightarrow> if bk_ctx s c then Some (client_at c (CAbort ch) s) else None
           | ByClose \<Rightarrow> if bk_cancelled s then Some (client_at c (CRet (RErr [ErrBrokerClosed])) s) else None
           | _ \<Rightarrow> None)
      | CAbort ch \<Rightarrow>
          (case cc of
             Go _ \<Rightarrow> map_option (\<lambda>s. client_at c (CRet (RErr [CtxErr])) (s\<lparr>bk_left := ch # bk_left s\<rparr>)) (offer (ReqUnsub ch) s)
           | ByClose \<Rightarrow> if bk_cancelled s then Some (client_at c (CRet (RErr [CtxErr])) s) else None
           | _ \<Rightarrow> None)
      | _ \<Rightarrow> None)"

definition Unsubscribe_step :: "nat \<Rightarrow> client_case \<Rightarrow> 'a broker \<Rightarrow> 'a broker option" where
  "Unsubscribe_step c cc s =
     (case bk_clients s c of
        CUnsub0 ch \<Rightarrow> Some (client_at c (if bk_cancelled s then CRet (RErr [ErrBrokerClosed]) else CUnsub1 ch) s)
      | CUnsub1 ch \<Rightarrow>
          (case cc of
             Go _ \<Rightarrow> map_option (\<lambda>s. client_at c (CRet RNil) (s\<lparr>bk_left := ch # bk_left s\<rparr>)) (offer (ReqUnsub ch) s)
           | ByClose \<Rightarrow> if bk_cancelled s then Some (client_at c (CRet (RErr [ErrBrokerClosed])) s) else None
           | ByCtx \<Rightarrow> if bk_ctx s c then Some (client_at c (CRet (RErr [CtxErr])) s) else None
           | _ \<Rightarrow> None)
      | _ \<Rightarrow> None)"

text \<open>
  The sink takes a message: a worker that waits, or the buffer if it has room.  The queue behind it belongs to its
  owner, who can close it, drain it, and on whose limits it depends how many messages there is room for.
\<close>

definition broker_sink :: "'a \<Rightarrow> nat \<Rightarrow> 'a broker \<Rightarrow> 'a broker option" where
  "broker_sink v w s =
     (let m = Msg (length (bk_accepted s)) v; s1 = s\<lparr>bk_accepted := bk_accepted s @ [v]\<rparr> in
      case bk_source s of
        Handoff \<Rightarrow> if bk_workers s w = WSource then Some (set_worker w (start_dispatch m s) s1) else None
      | Fifo \<Rightarrow> if bk_room s (length (bk_buf s)) then Some (s1\<lparr>bk_buf := bk_buf s @ [m]\<rparr>) else None
      | Lifo \<Rightarrow> if bk_room s (length (bk_buf s)) then Some (s1\<lparr>bk_buf := m # bk_buf s\<rparr>) else None)"

text \<open>The error of the sink, joined with that of a broker that has been stopped meanwhile.\<close>

definition sink_error :: "nat \<Rightarrow> 'a broker \<Rightarrow> broker_error \<Rightarrow> call_result" where
  "sink_error c s e = RErr (if \<not> bk_ctx s c \<and> bk_cancelled s then [ErrBrokerClosed, e] else [e])"

definition Send_step :: "nat \<Rightarrow> client_case \<Rightarrow> 'a broker \<Rightarrow> 'a broker option" where
  "Send_step c cc s =
     (case bk_clients s c of
        CSend0 v \<Rightarrow> Some (client_at c (if bk_ctx s c then CRet (RErr [CtxErr]) else CSend1 v) s)
      | CSend1 v \<Rightarrow> Some (client_at c (if bk_cancelled s then CRet (RErr [ErrBrokerClosed]) else CSend2 v) s)
      | CSend2 v \<Rightarrow> Some (client_at c (CSend3 v) (s\<lparr>bk_count := bk_count s + 1\<rparr>))
      | CSend3 v \<Rightarrow>
          (case cc of
             Go w \<Rightarrow> if bk_closed s \<or> bk_draining s then None else map_option (client_at c (CRet RNil)) (broker_sink v w s)
           | ByFull \<Rightarrow> if NonBlockingPush (bk_opts s) \<and> \<not> bk_room s (length (bk_buf s))
                       then Some (client_at c (CRet (sink_error c s ErrQueueFull)) s) else None
           | ByNoCredit \<Rightarrow> if NonBlockingPush (bk_opts s) \<and> \<not> bk_room s (length (bk_buf s))
                           then Some (client_at c (CRet (sink_error c s ErrQueueNoCredit)) s) else None
           | ByCtx \<Rightarrow> if \<not> NonBlockingPush (bk_opts s) \<and> bk_ctx s c then Some (client_at c (CRet (RErr [CtxErr])) s) else None
           | ByClose \<Rightarrow> if \<not> NonBlockingPush (bk_opts s) \<and> bk_cancelled s
                        then Some (client_at c (CRet (sink_error c s CtxErr)) s) else None
           | ByDrain \<Rightarrow> if bk_draining s then Some (client_at c (CRet (sink_error c s ErrQueueDraining)) s) else None
           | BySource \<Rightarrow> if bk_closed s then Some (client_at c CSend4 s) else None)
      | CSend4 \<Rightarrow> Some (client_at c (CRet (RErr [ErrBrokerClosed, ErrQueueClosed])) (s\<lparr>bk_cancelled := True\<rparr>))
      | _ \<Rightarrow> None)"

definition closed_stats :: broker_stats where "closed_stats = \<lparr>bs_State = BrokerStateClosed, bs_Subscriptions = 0, bs_BufferDepth = 0, bs_MessageCount = 0\<rparr>"
definition unknown_stats :: broker_stats where "unknown_stats = \<lparr>bs_State = BrokerStateUnknown, bs_Subscriptions = 0, bs_BufferDepth = 0, bs_MessageCount = 0\<rparr>"

definition Stats_step :: "nat \<Rightarrow> client_case \<Rightarrow> 'a broker \<Rightarrow> 'a broker option" where
  "Stats_step c cc s =
     (let unknown = (if bk_ctx s c then Some (client_at c (CRet (RStats unknown_stats)) s) else None);
          closed = (if bk_cancelled s then Some (client_at c (CRet (RStats closed_stats)) s) else None) in
      case bk_clients s c of
        CStats0 \<Rightarrow> Some (client_at c (if bk_cancelled s then CRet (RStats closed_stats) else CStats1) s)
      | CStats1 \<Rightarrow>
          (case cc of
             Go _ \<Rightarrow> map_option (client_at c (CStats2 (bk_next s))) (offer (ReqStats (bk_next s)) (s\<lparr>bk_next := Suc (bk_next s)\<rparr>))
           | ByCtx \<Rightarrow> unknown | ByClose \<Rightarrow> closed | _ \<Rightarrow> None)
      | CStats2 i \<Rightarrow>
          (case cc of
             Go _ \<Rightarrow> map_option (\<lambda>st. client_at c (CRet (RStats st)) s) (bk_signal s i)
           | ByCtx \<Rightarrow> unknown | ByClose \<Rightarrow> closed | _ \<Rightarrow> None)
      | _ \<Rightarrow> None)"

definition broker_Stop :: "'a broker \<Rightarrow> 'a broker" where "broker_Stop s = s\<lparr>bk_cancelled := True\<rparr>"

fun BrokerState_String :: "broker_state \<Rightarrow> string" where
  "BrokerState_String BrokerStateUnknown = ''unknown''"
| "BrokerState_String BrokerStateEmpty = ''empty''"
| "BrokerState_String BrokerStateActive = ''active''"
| "BrokerState_String BrokerStateClosed = ''closed''"

text \<open>Whether \<open>Wait\<close> of a client returns now.\<close>

definition broker_Wait :: "nat \<Rightarrow> 'a broker \<Rightarrow> bool" where "broker_Wait c s \<longleftrightarrow> bk_wg s = 0 \<or> bk_ctx s c"

text \<open>A call begins where the last one of the client has returned.\<close>

fun call_start :: "'a client \<Rightarrow> bool" where
  "call_start CSub0 = True" | "call_start (CUnsub0 _) = True" | "call_start (CSend0 _) = True" | "call_start CStats0 = True" | "call_start _ = False"

definition begin_call :: "nat \<Rightarrow> 'a client \<Rightarrow> 'a broker \<Rightarrow> 'a broker option" where
  "begin_call c pc s =
     (case bk_clients s c of
        CIdle \<Rightarrow> if call_start pc then Some (client_at c pc s) else None
      | CRet _ \<Rightarrow> if call_start pc then Some (client_at c pc s) else None
      | _ \<Rightarrow> None)"

definition client_step :: "nat \<Rightarrow> client_case \<Rightarrow> 'a broker \<Rightarrow> 'a broker option" where
  "client_step c cc s =
     (case bk_clients s c of
        CSub0 \<Rightarrow> Subscribe_step c cc s | CSub1 \<Rightarrow> Subscribe_step c cc s | CSub2 _ \<Rightarrow> Subscribe_step c cc s | CSub3 _ \<Rightarrow> Subscribe_step c cc s
      | CAbort _ \<Rightarrow> Subscribe_step c cc s
      | CUnsub0 _ \<Rightarrow> Unsubscribe_step c cc s | CUnsub1 _ \<Rightarrow> Unsubscribe_step c cc s
      | CStats0 \<Rightarrow> Stats_step c cc s | CStats1 \<Rightarrow> Stats_step c cc s | CStats2 _ \<Rightarrow> Stats_step c cc s
      | _ \<Rightarrow> Send_step c cc s)"

subsection \<open>Steps\<close>

datatype 'a broker_act = ALoop bool | AWorker nat move | ASend "nat \<times> 'a msg \<times> nat" send_case | ABegin nat "'a client" | AClient nat client_case
  | AStop | ACancelCtx nat | ACloseSource | ADrain bool | ASetRoom "nat \<Rightarrow> bool" | AReceive nat

fun broker_do :: "'a broker_act \<Rightarrow> 'a broker \<Rightarrow> 'a broker option" where
  "broker_do (ALoop stop) s = loop_step stop s"
| "broker_do (AWorker w mv) s = worker_step w mv s"
| "broker_do (ASend x c) s = sendMsg x c s"
| "broker_do (ABegin c pc) s = begin_call c pc s"
| "broker_do (AClient c cc) s = client_step c cc s"
| "broker_do AStop s = Some (broker_Stop s)"
| "broker_do (ACancelCtx c) s = Some (s\<lparr>bk_ctx := (bk_ctx s)(c := True)\<rparr>)"
| "broker_do ACloseSource s = (if bk_source s = Handoff then None else Some (s\<lparr>bk_closed := True\<rparr>))"
| "broker_do (ADrain b) s = (if bk_source s = Handoff then None else Some (s\<lparr>bk_draining := b\<rparr>))"
| "broker_do (ASetRoom room) s = Some (s\<lparr>bk_room := room\<rparr>)"
| "broker_do (AReceive ch) s = (if bk_taken s ch < length (bk_chan s ch) then Some (s\<lparr>bk_taken := (bk_taken s)(ch := bk_taken s ch + 1)\<rparr>) else None)"

fun broker_run :: "'a broker_act list \<Rightarrow> 'a broker \<Rightarrow> 'a broker option" where
  "broker_run [] s = Some s"
| "broker_run (a # as) s = (case broker_do a s of None \<Rightarrow> None | Some s1 \<Rightarrow> broker_run as s1)"

inductive broker_reach :: "'a broker \<Rightarrow> 'a broker \<Rightarrow> bool" for s0 where
  breach_start: "broker_reach s0 s0"
| breach_step: "broker_reach s0 s \<Longrightarrow> broker_do a s = Some s1 \<Longrightarrow> broker_reach s0 s1"

end
