(* ===== verification/BrokerInv.thy ===== *)
theory BrokerInv
  imports PubBroker "HOL-Library.Multiset"
begin

text \<open>What holds of the messages and the subscriptions of a broker at any time.\<close>

declare split_paired_All [simp del] split_paired_Ex [simp del]

subsection \<open>Where a message is\<close>

fun worker_msg :: "'a worker \<Rightarrow> 'a msg option" where
  "worker_msg (WIter m _ _ _) = Some m" | "worker_msg (WGroup m) = Some m" | "worker_msg _ = None"

definition genuine :: "'a list \<Rightarrow> 'a msg \<Rightarrow> bool" where "genuine accepted m \<longleftrightarrow> m_num m < length accepted \<and> m_val m = accepted ! m_num m"

record 'a flow =
  fl_buf :: "'a msg list"
  fl_workers :: "nat \<Rightarrow> 'a worker"
  fl_sends :: "(nat \<times> 'a msg \<times> nat) list"
  fl_chan :: "nat \<Rightarrow> 'a msg list"
  fl_accepted :: "'a list"

definition flow_of :: "'a broker \<Rightarrow> 'a flow" where
  "flow_of s = \<lparr>fl_buf = bk_buf s, fl_workers = bk_workers s, fl_sends = bk_sends s, fl_chan = bk_chan s, fl_accepted = bk_accepted s\<rparr>"

definition mentioned :: "'a flow \<Rightarrow> 'a msg set" where
  "mentioned f = set (fl_buf f) \<union> {m. \<exists>w. worker_msg (fl_workers f w) = Some m} \<union> {m. \<exists>w ch. (w, m, ch) \<in> set (fl_sends f)} \<union> (\<Union>ch. set (fl_chan f ch))"

definition all_genuine :: "'a flow \<Rightarrow> bool" where "all_genuine f \<longleftrightarrow> (\<forall>m\<in>mentioned f. genuine (fl_accepted f) m)"

text \<open>The numbers in the buffer and those that the workers are at.\<close>

definition waiting :: "'a flow \<Rightarrow> nat list" where "waiting f = map m_num (fl_buf f)"
definition held :: "'a flow \<Rightarrow> nat \<Rightarrow> nat option" where "held f w = map_option m_num (worker_msg (fl_workers f w))"

definition one_holder :: "'a flow \<Rightarrow> bool" where
  "one_holder f \<longleftrightarrow> distinct (waiting f) \<and> (\<forall>w n. held f w = Some n \<longrightarrow> n \<notin> set (waiting f)) \<and> (\<forall>w v n. held f w = Some n \<longrightarrow> held f v = Some n \<longrightarrow> w = v)"

text \<open>The numbers that have left the workers for a channel: they are being sent, or they are there.\<close>

definition gone :: "'a flow \<Rightarrow> nat \<Rightarrow> nat multiset" where
  "gone f ch = image_mset m_num (mset (fl_chan f ch)) + image_mset (\<lambda>(w, m, c). m_num m) (filter_mset (\<lambda>(w, m, c). c = ch) (mset (fl_sends f)))"

definition at_most_once :: "'a flow \<Rightarrow> bool" where
  "at_most_once f \<longleftrightarrow>
     (\<forall>ch n. count (gone f ch) n \<le> 1) \<and> (\<forall>ch. \<forall>n\<in>set (waiting f). n \<notin># gone f ch)
   \<and> (\<forall>w m visited throughout sometime ch. fl_workers f w = WIter m visited throughout sometime \<longrightarrow> m_num m \<in># gone f ch \<longrightarrow> ch \<in> set visited)"

definition flow_ok :: "'a flow \<Rightarrow> bool" where "flow_ok f \<longleftrightarrow> all_genuine f \<and> one_holder f \<and> at_most_once f"

subsection \<open>The moves of a message\<close>

text \<open>
  What a step can do to the messages, given the subscriptions, the channels whose sends may end without a delivery, and
  whether the order of the messages may be lost: by a stack, or by a dispatch that does not wait for its sends.
\<close>

definition idle :: "'a flow \<Rightarrow> nat \<Rightarrow> 'a msg \<Rightarrow> bool" where "idle f w m \<longleftrightarrow> \<not> list_ex (\<lambda>(v, n, ch). v = w \<and> m_num n = m_num m) (fl_sends f)"

inductive flow_move :: "nat list \<Rightarrow> nat set \<Rightarrow> bool \<Rightarrow> 'a flow \<Rightarrow> 'a flow \<Rightarrow> bool" for subs ending loose where
  fm_none: "flow_move subs ending loose f f"
| fm_back: "flow_move subs ending loose f (f\<lparr>fl_buf := fl_buf f @ [Msg (length (fl_accepted f)) v], fl_accepted := fl_accepted f @ [v]\<rparr>)"
| fm_front: "loose \<Longrightarrow> flow_move subs ending loose f (f\<lparr>fl_buf := Msg (length (fl_accepted f)) v # fl_buf f, fl_accepted := fl_accepted f @ [v]\<rparr>)"
| fm_hand: "fl_workers f w = WSource \<Longrightarrow> loose \<or> fl_buf f = [] \<Longrightarrow>
    flow_move subs ending loose f (f\<lparr>fl_workers := (fl_workers f)(w := WIter (Msg (length (fl_accepted f)) v) [] subs subs), fl_accepted := fl_accepted f @ [v]\<rparr>)"
| fm_take: "fl_workers f w = WSource \<Longrightarrow> fl_buf f = m # rest \<Longrightarrow>
    flow_move subs ending loose f (f\<lparr>fl_buf := rest, fl_workers := (fl_workers f)(w := WIter m [] subs subs)\<rparr>)"
| fm_visit: "fl_workers f w = WIter m visited throughout sometime \<Longrightarrow> ch \<in> set sometime \<Longrightarrow> ch \<notin> set visited \<Longrightarrow>
    flow_move subs ending loose f (f\<lparr>fl_sends := fl_sends f @ [(w, m, ch)], fl_workers := (fl_workers f)(w := WIter m (ch # visited) throughout sometime)\<rparr>)"
| fm_group: "fl_workers f w = WIter m visited throughout sometime \<Longrightarrow> set throughout \<subseteq> set visited \<Longrightarrow> flow_move subs ending loose f (f\<lparr>fl_workers := (fl_workers f)(w := WGroup m)\<rparr>)"
| fm_finish: "fl_workers f w = WIter m visited throughout sometime \<Longrightarrow> set throughout \<subseteq> set visited \<Longrightarrow> loose \<or> idle f w m \<Longrightarrow>
    flow_move subs ending loose f (f\<lparr>fl_workers := (fl_workers f)(w := WSource)\<rparr>)"
| fm_grouped: "fl_workers f w = WGroup m \<Longrightarrow> loose \<or> idle f w m \<Longrightarrow> flow_move subs ending loose f (f\<lparr>fl_workers := (fl_workers f)(w := WSource)\<rparr>)"
| fm_quit: "fl_workers f w = WSource \<Longrightarrow> flow_move subs ending loose f (f\<lparr>fl_workers := (fl_workers f)(w := WDone)\<rparr>)"
| fm_drop: "(w, m, ch) \<in> set (fl_sends f) \<Longrightarrow> ch \<in> ending \<Longrightarrow> flow_move subs ending loose f (f\<lparr>fl_sends := remove1 (w, m, ch) (fl_sends f)\<rparr>)"
| fm_deliver: "(w, m, ch) \<in> set (fl_sends f) \<Longrightarrow>
    flow_move subs ending loose f (f\<lparr>fl_sends := remove1 (w, m, ch) (fl_sends f), fl_chan := (fl_chan f)(ch := fl_chan f ch @ [m])\<rparr>)"
| fm_add: "flow_move subs ending loose f (f\<lparr>fl_workers := iter_add ch \<circ> fl_workers f\<rparr>)"
| fm_delete: "ch \<in> ending \<Longrightarrow> flow_move subs ending loose f (f\<lparr>fl_workers := iter_delete ch \<circ> fl_workers f\<rparr>)"

lemma iter_msg [simp]: "worker_msg (iter_add ch w) = worker_msg w" "worker_msg (iter_delete ch w) = worker_msg w"
  by (cases w; simp)+

lemma iter_WIter:
  "iter_add ch w = WIter m visited throughout sometime \<longleftrightarrow> (\<exists>so. w = WIter m visited throughout so \<and> sometime = ch # so)"
  "iter_delete ch w = WIter m visited throughout sometime \<longleftrightarrow> (\<exists>al. w = WIter m visited al sometime \<and> throughout = removeAll ch al)"
  by (cases w; auto)+

lemma genuine_append: "genuine acc m \<Longrightarrow> genuine (acc @ [v]) m"
  by (auto simp: genuine_def nth_append)

lemma genuine_new: "genuine (acc @ [v]) (Msg (length acc) v)"
  by (simp add: genuine_def)

lemma genuine_old: "genuine acc m \<Longrightarrow> m_num m \<noteq> length acc"
  by (simp add: genuine_def)

lemma worker_mentioned:
  "fl_workers f w = WIter m visited throughout sometime \<Longrightarrow> m \<in> mentioned f" "fl_workers f w = WGroup m \<Longrightarrow> m \<in> mentioned f"
  "(w, m, ch) \<in> set (fl_sends f) \<Longrightarrow> m \<in> mentioned f" "m \<in> set (fl_buf f) \<Longrightarrow> m \<in> mentioned f" "m \<in> set (fl_chan f ch) \<Longrightarrow> m \<in> mentioned f"
  "worker_msg (fl_workers f w) = Some m \<Longrightarrow> m \<in> mentioned f"
  unfolding mentioned_def by (fastforce intro: exI[of _ w])+

lemma move_mentions:
  "flow_move subs ending loose f g \<Longrightarrow> (mentioned g \<subseteq> mentioned f \<and> fl_accepted g = fl_accepted f)
    \<or> (\<exists>v. mentioned g \<subseteq> insert (Msg (length (fl_accepted f)) v) (mentioned f) \<and> fl_accepted g = fl_accepted f @ [v])"
proof (induction rule: flow_move.induct)
  case (fm_take f w m rest)
  then show ?case by (auto simp: mentioned_def split: if_splits)
next
  case (fm_visit f w m visited throughout sometime ch)
  note worker_mentioned(1)[OF fm_visit(1)]
  then show ?case by (auto simp: mentioned_def split: if_splits)
next
  case (fm_group f w m visited throughout sometime)
  note worker_mentioned(1)[OF fm_group(1)]
  then show ?case by (auto simp: mentioned_def split: if_splits)
next
  case (fm_drop w m ch f)
  then show ?case by (auto simp: mentioned_def dest: set_mp[OF set_remove1_subset])
next
  case (fm_deliver w m ch f)
  note worker_mentioned(3)[OF fm_deliver(1)]
  then show ?case by (auto simp: mentioned_def dest: set_mp[OF set_remove1_subset] split: if_splits)
qed (auto simp: mentioned_def split: if_splits)

lemma move_genuine: "flow_move subs ending loose f g \<Longrightarrow> all_genuine f \<Longrightarrow> all_genuine g"
  using move_mentions[of subs ending loose f g] by (auto simp: all_genuine_def genuine_append genuine_new dest!: subsetD)

lemma mentioned_fresh: "all_genuine f \<Longrightarrow> m \<in> mentioned f \<Longrightarrow> m_num m \<noteq> length (fl_accepted f)"
  using genuine_old unfolding all_genuine_def by blast

lemma fresh:
  assumes "all_genuine f"
  shows "length (fl_accepted f) \<notin> set (waiting f)" "held f w \<noteq> Some (length (fl_accepted f))"
    "length (fl_accepted f) \<notin># gone f ch"
proof -
  note m = mentioned_fresh[OF assms]
  show "length (fl_accepted f) \<notin> set (waiting f)" 
  proof
    assume "length (fl_accepted f) \<in> set (waiting f)"
    then obtain x where "x \<in> set (fl_buf f)" "m_num x = length (fl_accepted f)" by (auto simp: waiting_def)
    then show False using m[OF worker_mentioned(4), of x] by simp
  qed
  show "held f w \<noteq> Some (length (fl_accepted f))" using m[OF worker_mentioned(6), of w] by (auto simp: held_def)
  show "length (fl_accepted f) \<notin># gone f ch"
    using m[OF worker_mentioned(3)] m[OF worker_mentioned(5), of _ ch] by (force simp: gone_def)
qed

lemma held_upd: "held (f\<lparr>fl_workers := (fl_workers f)(w := x)\<rparr>) = (held f)(w := map_option m_num (worker_msg x))"
  by (simp add: held_def fun_eq_iff)

text \<open>A message enters the buffer or goes to a worker, from the buffer to a worker, or away.\<close>

lemma move_holds:
  assumes "flow_move subs ending loose f g"
  shows "(waiting g = waiting f \<and> held g = held f)
    \<or> (set (waiting g) = insert (length (fl_accepted f)) (set (waiting f)) \<and> length (waiting g) = Suc (length (waiting f)) \<and> held g = held f)
    \<or> (\<exists>w. waiting g = waiting f \<and> held g = (held f)(w := Some (length (fl_accepted f))))
    \<or> (\<exists>w n. waiting f = n # waiting g \<and> held g = (held f)(w := Some n))
    \<or> (\<exists>w. waiting g = waiting f \<and> held g = (held f)(w := None))"
  using assms
proof (induction rule: flow_move.induct)
  case (fm_visit f w m visited throughout sometime ch)
  then show ?case by (intro disjI1) (auto simp: waiting_def held_def fun_eq_iff)
next
  case (fm_group f w m visited throughout sometime)
  then show ?case by (intro disjI1) (auto simp: waiting_def held_def fun_eq_iff)
next
  case (fm_hand f w v)
  then show ?case by (intro disjI2 disjI1 exI[of _ w]) (simp add: waiting_def held_def fun_eq_iff)
next
  case (fm_take f w m rest)
  then show ?case by (intro disjI2 disjI1 exI[of _ w] exI[of _ "m_num m"]) (simp add: waiting_def held_def fun_eq_iff)
next
  case (fm_finish f w m visited throughout sometime)
  then show ?case by (intro disjI2 exI[of _ w]) (simp add: waiting_def held_def fun_eq_iff)
next
  case (fm_grouped f w m)
  then show ?case by (intro disjI2 exI[of _ w]) (simp add: waiting_def held_def fun_eq_iff)
next
  case (fm_quit f w)
  then show ?case by (intro disjI2 exI[of _ w]) (simp add: waiting_def held_def fun_eq_iff)
qed (auto simp: waiting_def held_def fun_eq_iff)

lemma move_holder:
  assumes "flow_move subs ending loose f g" "all_genuine f" "one_holder f"
  shows "one_holder g"
proof -
  note fr = fresh[OF assms(2)] and h = assms(3)[unfolded one_holder_def]
  from move_holds[OF assms(1)] consider "waiting g = waiting f" "held g = held f"
    | "set (waiting g) = insert (length (fl_accepted f)) (set (waiting f))" "length (waiting g) = Suc (length (waiting f))" "held g = held f"
    | w where "waiting g = waiting f" "held g = (held f)(w := Some (length (fl_accepted f)))"
    | w n where "waiting f = n # waiting g" "held g = (held f)(w := Some n)"
    | w where "waiting g = waiting f" "held g = (held f)(w := None)" by blast
  then show ?thesis
  proof cases
    case 2
    have "card (set (waiting g)) = length (waiting g)" using 2(1,2) fr(1) h by (simp add: distinct_card)
    then have "distinct (waiting g)" by (rule card_distinct)
    then show ?thesis using 2 fr(2) h unfolding one_holder_def by auto
  next
    case 3
    then show ?thesis using fr(1,2) h by (auto simp: one_holder_def)
  next
    case 4
    then show ?thesis using h by (auto simp: one_holder_def)
  qed (use h in \<open>auto simp: one_holder_def split: if_splits\<close>)
qed


lemma gone_simps [simp]:
  "gone (f\<lparr>fl_buf := b\<rparr>) = gone f" "gone (f\<lparr>fl_workers := ws\<rparr>) = gone f" "gone (f\<lparr>fl_accepted := a\<rparr>) = gone f"
  "gone (f\<lparr>fl_sends := fl_sends f @ [(w, m, ch)]\<rparr>) = (gone f)(ch := add_mset (m_num m) (gone f ch))"
  by (auto simp: gone_def fun_eq_iff)

lemma sends_remove: "x \<in> set xs \<Longrightarrow> mset xs = add_mset x (mset (remove1 x xs))"
  by simp

lemma gone_drop: "(w, m, ch) \<in> set (fl_sends f) \<Longrightarrow> gone f = (gone (f\<lparr>fl_sends := remove1 (w, m, ch) (fl_sends f)\<rparr>))(ch := add_mset (m_num m) (gone (f\<lparr>fl_sends := remove1 (w, m, ch) (fl_sends f)\<rparr>) ch))"
  by (auto simp: gone_def fun_eq_iff sends_remove[of "(w, m, ch)"] simp del: mset_remove1)

lemma gone_deliver: "(w, m, ch) \<in> set (fl_sends f) \<Longrightarrow> gone (f\<lparr>fl_sends := remove1 (w, m, ch) (fl_sends f), fl_chan := (fl_chan f)(ch := fl_chan f ch @ [m])\<rparr>) = gone f"
  by (auto simp: gone_def fun_eq_iff sends_remove[of "(w, m, ch)"] simp del: mset_remove1)

lemma once_simps:
  "at_most_once (f\<lparr>fl_accepted := a\<rparr>) = at_most_once f" "waiting (f\<lparr>fl_accepted := a\<rparr>) = waiting f" "waiting (f\<lparr>fl_workers := ws\<rparr>) = waiting f"
  "waiting (f\<lparr>fl_sends := x\<rparr>) = waiting f" "waiting (f\<lparr>fl_sends := x, fl_workers := ws\<rparr>) = waiting f" "waiting (f\<lparr>fl_sends := x, fl_chan := c\<rparr>) = waiting f"
  by (simp_all add: at_most_once_def waiting_def)

lemma onceI:
  assumes "\<And>ch n. count (gone f ch) n \<le> 1" "\<And>ch n. n \<in> set (waiting f) \<Longrightarrow> n \<notin># gone f ch"
    "\<And>w m visited throughout sometime ch. fl_workers f w = WIter m visited throughout sometime \<Longrightarrow> m_num m \<in># gone f ch \<Longrightarrow> ch \<in> set visited"
  shows "at_most_once f"
  using assms unfolding at_most_once_def by blast

lemma onceD:
  assumes "at_most_once f"
  shows "count (gone f ch) n \<le> 1" "n \<in> set (waiting f) \<Longrightarrow> n \<notin># gone f ch"
    "fl_workers f w = WIter m visited throughout sometime \<Longrightarrow> m_num m \<in># gone f ch \<Longrightarrow> ch \<in> set visited"
  using assms unfolding at_most_once_def by blast+

lemma once_fewer:
  assumes "at_most_once f" "fl_workers g = fl_workers f" "waiting g = waiting f" "\<And>ch. gone g ch \<subseteq># gone f ch"
  shows "at_most_once g"
proof (rule onceI)
  show "count (gone g ch) n \<le> 1" for ch n using onceD(1)[OF assms(1)] mset_subset_eq_count[OF assms(4)] le_trans by blast
  show "n \<in> set (waiting g) \<Longrightarrow> n \<notin># gone g ch" for ch n using onceD(2)[OF assms(1)] mset_subset_eqD[OF assms(4)] assms(3) by auto
  show "fl_workers g w = WIter m visited throughout sometime \<Longrightarrow> m_num m \<in># gone g ch \<Longrightarrow> ch \<in> set visited" for w m visited throughout sometime ch
    using onceD(3)[OF assms(1)] mset_subset_eqD[OF assms(4)] assms(2) by metis
qed

lemma once_worker: "at_most_once f \<Longrightarrow> \<forall>m a b c. x \<noteq> WIter m a b c \<Longrightarrow> at_most_once (f\<lparr>fl_workers := (fl_workers f)(w := x)\<rparr>)"
  by (rule onceI) (auto simp: once_simps dest: onceD split: if_splits)

lemma move_once:
  assumes "flow_move subs ending loose f g" "all_genuine f" "one_holder f" "at_most_once f"
  shows "at_most_once g"
  using assms
proof (induction rule: flow_move.induct)
  case (fm_back f v)
  note o = onceD[OF fm_back(3)] and fr = fresh[OF fm_back(1)]
  show ?case using o(1,3) o(2) fr(3) by (intro onceI) (auto simp: waiting_def)
next
  case (fm_front f v)
  note o = onceD[OF fm_front(4)] and fr = fresh[OF fm_front(2)]
  show ?case using o(1,3) o(2) fr(3) by (intro onceI) (auto simp: waiting_def)
next
  case (fm_hand f w v)
  note o = onceD[OF fm_hand(5)] and fr = fresh[OF fm_hand(3)]
  show ?case using o(1,3) o(2) fr(3) by (intro onceI) (auto simp: waiting_def split: if_splits)
next
  case (fm_take f w m rest)
  note o = onceD[OF fm_take(5)]
  have "m_num m \<notin># gone f ch" for ch using o(2)[of "m_num m" ch] fm_take(2) by (simp add: waiting_def)
  then show ?case using o(1,3) o(2) fm_take(2) by (intro onceI) (auto simp: waiting_def split: if_splits)
next
  case (fm_visit f w m visited throughout sometime ch)
  note o = onceD[OF fm_visit(6)] and h = fm_visit(5)[unfolded one_holder_def]
  have held: "held f w = Some (m_num m)" using fm_visit(1) by (simp add: held_def)
  have notin: "m_num m \<notin># gone f ch" using o(3)[OF fm_visit(1)] fm_visit(3) by blast
  then have c0: "count (gone f ch) (m_num m) = 0" by (simp add: not_in_iff)
  have nw: "m_num m \<notin> set (waiting f)" using h held by blast
  have other: "v = w" if "fl_workers f v = WIter m2 a b c" "m_num m2 = m_num m" for v m2 a b c
    using h held that by (auto simp: held_def)
  show ?case
  proof (rule onceI)
    show "count (gone (f\<lparr>fl_sends := fl_sends f @ [(w, m, ch)], fl_workers := (fl_workers f)(w := WIter m (ch # visited) throughout sometime)\<rparr>) c) n \<le> 1" for c n
      using o(1) c0 by auto
    show "n \<notin># gone (f\<lparr>fl_sends := fl_sends f @ [(w, m, ch)], fl_workers := (fl_workers f)(w := WIter m (ch # visited) throughout sometime)\<rparr>) c"
      if "n \<in> set (waiting (f\<lparr>fl_sends := fl_sends f @ [(w, m, ch)], fl_workers := (fl_workers f)(w := WIter m (ch # visited) throughout sometime)\<rparr>))" for c n
      using that o(2)[of n c] nw by (auto simp: once_simps)
    show "c \<in> set vis" if "fl_workers (f\<lparr>fl_sends := fl_sends f @ [(w, m, ch)], fl_workers := (fl_workers f)(w := WIter m (ch # visited) throughout sometime)\<rparr>) v = WIter m2 vis al so"
        "m_num m2 \<in># gone (f\<lparr>fl_sends := fl_sends f @ [(w, m, ch)], fl_workers := (fl_workers f)(w := WIter m (ch # visited) throughout sometime)\<rparr>) c" for v m2 vis al so c
    proof (cases "v = w")
      case True
      then have "m2 = m" "vis = ch # visited" using that(1) by simp_all
      then show ?thesis using that(2) o(3)[OF fm_visit(1), of c] by (auto split: if_splits)
    next
      case False
      then have v: "fl_workers f v = WIter m2 vis al so" using that(1) by simp
      then have "m_num m2 \<noteq> m_num m" using other False by blast
      then show ?thesis using that(2) o(3)[OF v, of c] by (auto split: if_splits)
    qed
  qed
next
  case (fm_drop w m ch f)
  show ?case by (rule once_fewer[OF fm_drop(5)]) (use gone_drop[OF fm_drop(1)] in \<open>simp_all add: once_simps\<close>)
next
  case (fm_deliver w m ch f)
  note o = onceD[OF fm_deliver(4)]
  show ?case using o by (intro onceI) (auto simp: once_simps gone_deliver[OF fm_deliver(1)] simp del: fun_upd_apply)
next
  case (fm_add f ch)
  note o = onceD[OF fm_add(3)]
  show ?case using o by (intro onceI) (auto simp: once_simps iter_WIter)
next
  case (fm_delete ch f)
  note o = onceD[OF fm_delete(4)]
  show ?case using o by (intro onceI) (auto simp: once_simps iter_WIter)
qed (auto intro: once_worker)

lemma move_ok: "flow_move subs ending loose f g \<Longrightarrow> flow_ok f \<Longrightarrow> flow_ok g"
  using move_genuine move_holder move_once unfolding flow_ok_def by blast


subsection \<open>Every step is a move\<close>

text \<open>A send can end with its subscription or with the broker, and an iteration forgets what is about to be removed.\<close>

definition ends :: "'a broker \<Rightarrow> nat set" where
  "ends s = (if bk_cancelled s then UNIV else set (bk_done s) \<union> {ch. bk_loop s = LReq (ReqUnsub ch)})"

definition order_lost :: "'a broker \<Rightarrow> bool" where "order_lost s \<longleftrightarrow> bk_source s = Lifo \<or> bk_source s = Handoff \<and> bk_buf s \<noteq> [] \<or> ParallelDispatch (bk_opts s) \<and> bk_cancelled s"

lemma flow_cong:
  "bk_buf s1 = bk_buf s \<Longrightarrow> bk_workers s1 = bk_workers s \<Longrightarrow> bk_sends s1 = bk_sends s \<Longrightarrow> bk_chan s1 = bk_chan s \<Longrightarrow> bk_accepted s1 = bk_accepted s \<Longrightarrow> flow_of s1 = flow_of s"
  by (simp add: flow_of_def)

lemma offer_flow: "offer r s = Some s1 \<Longrightarrow> flow_of s1 = flow_of s"
  by (auto simp: offer_def flow_of_def split: if_splits)

lemma client_at_flow [simp]: "flow_of (client_at c pc s) = flow_of s"
  by (simp add: flow_of_def client_at_def)

lemma flow_simps [simp]:
  "flow_of (s\<lparr>bk_next := n\<rparr>) = flow_of s" "flow_of (s\<lparr>bk_since := si\<rparr>) = flow_of s" "flow_of (s\<lparr>bk_left := l\<rparr>) = flow_of s"
  "flow_of (s\<lparr>bk_ctx := x\<rparr>) = flow_of s" "flow_of (s\<lparr>bk_closed := b\<rparr>) = flow_of s" "flow_of (s\<lparr>bk_draining := b\<rparr>) = flow_of s"
  "flow_of (s\<lparr>bk_room := r\<rparr>) = flow_of s" "flow_of (s\<lparr>bk_taken := t\<rparr>) = flow_of s" "flow_of (s\<lparr>bk_count := k\<rparr>) = flow_of s" "flow_of (s\<lparr>bk_cancelled := b\<rparr>) = flow_of s"
  by (simp_all add: flow_of_def)

lemma client_flows:
  "Subscribe_step c cc s = Some s1 \<Longrightarrow> flow_of s1 = flow_of s" "Unsubscribe_step c cc s = Some s1 \<Longrightarrow> flow_of s1 = flow_of s"
  "Stats_step c cc s = Some s1 \<Longrightarrow> flow_of s1 = flow_of s"
  by (auto simp: Subscribe_step_def Unsubscribe_step_def Stats_step_def Let_def split: client.splits client_case.splits if_splits dest!: offer_flow)

lemma sink_move: "broker_sink v w s = Some s1 \<Longrightarrow> flow_move (bk_subs s) (ends s) (order_lost s) (flow_of s) (flow_of s1)"
proof -
  assume a: "broker_sink v w s = Some s1"
  show ?thesis
  proof (cases "bk_source s")
    case Handoff
    have "flow_of s1 = (flow_of s)\<lparr>fl_workers := (fl_workers (flow_of s))(w := WIter (Msg (length (fl_accepted (flow_of s))) v) [] (bk_subs s) (bk_subs s)), fl_accepted := fl_accepted (flow_of s) @ [v]\<rparr>"
      "fl_workers (flow_of s) w = WSource" "order_lost s \<or> fl_buf (flow_of s) = []"
      using a Handoff by (auto simp: order_lost_def broker_sink_def flow_of_def set_worker_def start_dispatch_def Let_def split: if_splits)
    then show ?thesis using fm_hand by metis
  next
    case Fifo
    have "flow_of s1 = (flow_of s)\<lparr>fl_buf := fl_buf (flow_of s) @ [Msg (length (fl_accepted (flow_of s))) v], fl_accepted := fl_accepted (flow_of s) @ [v]\<rparr>"
      using a Fifo by (auto simp: broker_sink_def flow_of_def Let_def split: if_splits)
    then show ?thesis using fm_back by metis
  next
    case Lifo
    have "order_lost s" "flow_of s1 = (flow_of s)\<lparr>fl_buf := Msg (length (fl_accepted (flow_of s))) v # fl_buf (flow_of s), fl_accepted := fl_accepted (flow_of s) @ [v]\<rparr>"
      using a Lifo by (auto simp: order_lost_def broker_sink_def flow_of_def Let_def split: if_splits)
    then show ?thesis using fm_front by metis
  qed
qed

lemma client_step_flow:
  "client_step c cc s = Some s1 \<Longrightarrow> flow_of s1 = flow_of s \<or> (\<exists>v w s2. bk_clients s c = CSend3 v \<and> broker_sink v w s = Some s2 \<and> s1 = client_at c (CRet RNil) s2)"
  by (cases "bk_clients s c") (auto simp: client_step_def Send_step_def split: client_case.splits if_splits dest: client_flows)

lemma worker_moves: "worker_step w mv s = Some s1 \<Longrightarrow> flow_move (bk_subs s) (ends s) (order_lost s) (flow_of s) (flow_of s1)"
proof -
  assume a: "worker_step w mv s = Some s1"
  let ?f = "flow_of s"
  have f: "fl_workers ?f = bk_workers s" "fl_buf ?f = bk_buf s" "fl_sends ?f = bk_sends s" by (simp_all add: flow_of_def)
  show ?thesis
  proof (cases "bk_workers s w")
    case WSource
    then consider rest m where "bk_buf s = m # rest" "flow_of s1 = ?f\<lparr>fl_buf := rest, fl_workers := (fl_workers ?f)(w := WIter m [] (bk_subs s) (bk_subs s))\<rparr>"
      | "flow_of s1 = ?f\<lparr>fl_workers := (fl_workers ?f)(w := WDone)\<rparr>"
      using a by (auto simp: worker_step_def flow_of_def set_worker_def start_dispatch_def split: move.splits list.splits if_splits)
    then show ?thesis using fm_take[of ?f w _ _ "bk_subs s" "ends s"] fm_quit[of ?f w] WSource f by metis
  next
    case (WIter m visited throughout sometime)
    then consider ch where "ch \<in> set sometime" "ch \<notin> set visited"
        "flow_of s1 = ?f\<lparr>fl_sends := fl_sends ?f @ [(w, m, ch)], fl_workers := (fl_workers ?f)(w := WIter m (ch # visited) throughout sometime)\<rparr>"
      | "set throughout \<subseteq> set visited" "flow_of s1 = ?f\<lparr>fl_workers := (fl_workers ?f)(w := WGroup m)\<rparr>"
      | "set throughout \<subseteq> set visited" "order_lost s \<or> idle ?f w m" "flow_of s1 = ?f\<lparr>fl_workers := (fl_workers ?f)(w := WSource)\<rparr>"
      using a by (auto simp: idle_def sending_def worker_step_def dispatchMessage_def flow_of_def set_worker_def split: move.splits if_splits)
    then show ?thesis using fm_visit[of ?f w] fm_group[of ?f w] fm_finish[of ?f w] WIter f by metis
  next
    case (WGroup m)
    then have "order_lost s \<or> idle ?f w m" "flow_of s1 = ?f\<lparr>fl_workers := (fl_workers ?f)(w := WSource)\<rparr>"
      using a by (auto simp: idle_def sending_def order_lost_def worker_step_def dispatchMessage_def flow_of_def set_worker_def split: if_splits)
    then show ?thesis using fm_grouped[of ?f w] WGroup f by metis
  qed (use a in \<open>simp add: worker_step_def\<close>)
qed

lemma send_moves: "sendMsg x c s = Some s1 \<Longrightarrow> flow_move (bk_subs s) (ends s) (order_lost s) (flow_of s) (flow_of s1)"
proof -
  assume a: "sendMsg x c s = Some s1"
  let ?f = "flow_of s"
  obtain w m ch where x: "x = (w, m, ch)" by (cases x) auto
  then have m: "(w, m, ch) \<in> set (fl_sends ?f)" using a by (auto simp: sendMsg_def flow_of_def split: if_splits)
  consider "ch \<in> ends s" "flow_of s1 = ?f\<lparr>fl_sends := remove1 (w, m, ch) (fl_sends ?f)\<rparr>"
    | "flow_of s1 = ?f\<lparr>fl_sends := remove1 (w, m, ch) (fl_sends ?f), fl_chan := (fl_chan ?f)(ch := fl_chan ?f ch @ [m])\<rparr>"
    using a x by (auto simp: sendMsg_def flow_of_def ends_def Let_def split: send_case.splits if_splits)
  then show ?thesis using fm_drop[OF m] fm_deliver[OF m] by metis
qed

lemma loop_moves: "loop_step stop s = Some s1 \<Longrightarrow> flow_move (bk_subs s) (ends s) (order_lost s) (flow_of s) (flow_of s1)"
proof -
  assume a: "loop_step stop s = Some s1"
  consider "flow_of s1 = flow_of s" | ch where "flow_of s1 = (flow_of s)\<lparr>fl_workers := iter_add ch \<circ> fl_workers (flow_of s)\<rparr>"
    | ch where "bk_loop s = LReq (ReqUnsub ch)" "flow_of s1 = (flow_of s)\<lparr>fl_workers := iter_delete ch \<circ> fl_workers (flow_of s)\<rparr>"
    using a by (auto simp: loop_step_def flow_of_def subs_Store_def subs_Delete_def split: loop_pc.splits ctl_request.splits if_splits list.splits)
  then show ?thesis
  proof cases
    case (3 ch)
    then have "ch \<in> ends s" by (simp add: ends_def)
    then show ?thesis unfolding 3(2) by (rule fm_delete)
  qed (use fm_none[of "bk_subs s"] fm_add[of "bk_subs s"] in \<open>simp_all del: comp_apply\<close>)
qed

lemma do_moves: "broker_do a s = Some s1 \<Longrightarrow> flow_move (bk_subs s) (ends s) (order_lost s) (flow_of s) (flow_of s1)"
proof (cases a)
  case (AClient c cc)
  assume "broker_do a s = Some s1"
  then have "client_step c cc s = Some s1" using AClient by simp
  from client_step_flow[OF this] sink_move show ?thesis by (metis client_at_flow fm_none)
qed (auto simp: begin_call_def broker_Stop_def fm_none loop_moves worker_moves send_moves split: if_splits client.splits)

lemma start_ok: "flow_ok (flow_of (startQueueWorkers src room opts))"
  by (auto simp: flow_ok_def all_genuine_def mentioned_def one_holder_def at_most_once_def flow_of_def startQueueWorkers_def waiting_def held_def gone_def split: if_splits)

lemma broker_reach_ok: "broker_reach (startQueueWorkers src room opts) s \<Longrightarrow> flow_ok (flow_of s)"
  by (induction rule: broker_reach.induct) (auto intro: start_ok move_ok do_moves)

end
