(* ===== verification/BrokerProps.thy ===== *)
theory BrokerProps
  imports BrokerInv "HOL-Library.Sublist"
begin

text \<open>What a broker promises: delivery to every subscriber, once and in order, answers to its clients, and a stop that leaves nobody blocked.\<close>

subsection \<open>Subscriptions\<close>

definition subs_ok :: "'a broker \<Rightarrow> bool" where
  "subs_ok s \<longleftrightarrow>
     (\<forall>ch. bk_since s ch \<noteq> None \<longrightarrow> ch \<in> set (bk_acks s))
   \<and> (\<forall>ch. ch \<in> set (bk_acks s) \<or> bk_loop s = LAck ch \<longrightarrow> ch \<in> set (bk_subs s) \<or> ch \<in> set (bk_left s))
   \<and> (\<forall>ch. ReqUnsub ch \<in> set (bk_ctl s) \<or> bk_loop s = LReq (ReqUnsub ch) \<or> bk_loop s = LClose ch \<or> ch \<in> set (bk_done s) \<longrightarrow> ch \<in> set (bk_left s))"

definition ctl_part :: "'a broker \<Rightarrow> (nat \<Rightarrow> nat option) \<times> nat list \<times> loop_pc \<times> nat list \<times> nat list \<times> ctl_request list \<times> nat list" where
  "ctl_part s = (bk_since s, bk_acks s, bk_loop s, bk_subs s, bk_left s, bk_ctl s, bk_done s)"

lemma subs_ok_cong: "ctl_part s1 = ctl_part s \<Longrightarrow> subs_ok s1 = subs_ok s"
  by (simp add: subs_ok_def ctl_part_def)

lemma client_at_ctl [simp]: "ctl_part (client_at c pc s) = ctl_part s" "subs_ok (client_at c pc s) = subs_ok s"
  by (simp_all add: ctl_part_def client_at_def subs_ok_def)

lemma offer_subs: "offer r s = Some s1 \<Longrightarrow> subs_ok s \<Longrightarrow> (\<forall>ch. r \<noteq> ReqUnsub ch) \<Longrightarrow> subs_ok s1"
  by (auto simp: offer_def subs_ok_def split: if_splits)

lemma offer_unsub: "offer (ReqUnsub ch) s = Some s1 \<Longrightarrow> subs_ok s \<Longrightarrow> subs_ok (s1\<lparr>bk_left := ch # bk_left s1\<rparr>)"
  by (auto simp: offer_def subs_ok_def split: if_splits)

lemma sink_ctl: "broker_sink v w s = Some s1 \<Longrightarrow> ctl_part s1 = ctl_part s"
  by (auto simp: broker_sink_def ctl_part_def set_worker_def Let_def split: broker_source.splits if_splits)

lemma subs_ok_fields [simp]:
  "subs_ok (s\<lparr>bk_next := n\<rparr>) = subs_ok s" "subs_ok (s\<lparr>bk_count := k\<rparr>) = subs_ok s" "subs_ok (s\<lparr>bk_cancelled := b\<rparr>) = subs_ok s"
  "subs_ok (s\<lparr>bk_ctx := x\<rparr>) = subs_ok s" "subs_ok (s\<lparr>bk_closed := b\<rparr>) = subs_ok s" "subs_ok (s\<lparr>bk_draining := b\<rparr>) = subs_ok s"
  "subs_ok (s\<lparr>bk_room := r\<rparr>) = subs_ok s" "subs_ok (s\<lparr>bk_taken := t\<rparr>) = subs_ok s"
  by (simp_all add: subs_ok_def)

lemma loop_subs: "loop_step stop s = Some s1 \<Longrightarrow> subs_ok s \<Longrightarrow> subs_ok s1"
  by (auto simp: loop_step_def subs_ok_def subs_Store_def subs_Delete_def split: loop_pc.splits ctl_request.splits if_splits list.splits)

lemma worker_ctl: "worker_step w mv s = Some s1 \<Longrightarrow> ctl_part s1 = ctl_part s"
  by (auto simp: worker_step_def dispatchMessage_def set_worker_def ctl_part_def split: worker.splits move.splits if_splits list.splits)

lemma send_ctl: "sendMsg x c s = Some s1 \<Longrightarrow> ctl_part s1 = ctl_part s"
  by (auto simp: sendMsg_def ctl_part_def Let_def split: prod.splits send_case.splits if_splits)

lemma client_subs: "client_step c cc s = Some s1 \<Longrightarrow> subs_ok s \<Longrightarrow> subs_ok s1"
proof -
  assume a: "client_step c cc s = Some s1" "subs_ok s"
  have since: "subs_ok (s\<lparr>bk_since := (bk_since s)(ch := Some k)\<rparr>)" if "ch \<in> set (bk_acks s)" for ch k
    using a(2) that by (auto simp: subs_ok_def)
  show ?thesis
    using a since offer_unsub[OF _ a(2)] offer_subs[OF _ a(2)] offer_subs[where s = "s\<lparr>bk_next := Suc (bk_next s)\<rparr>"] subs_ok_cong[OF sink_ctl, THEN iffD2, OF _ a(2)]
    by (cases "bk_clients s c")
      (auto simp: client_step_def Send_step_def Subscribe_step_def Unsubscribe_step_def Stats_step_def Let_def split: client_case.splits if_splits)
qed

lemma do_subs: "broker_do a s = Some s1 \<Longrightarrow> subs_ok s \<Longrightarrow> subs_ok s1"
  by (cases a) (auto simp: begin_call_def broker_Stop_def split: if_splits client.splits
      dest: loop_subs client_subs worker_ctl[THEN subs_ok_cong] send_ctl[THEN subs_ok_cong])

subsection \<open>Delivery to a subscriber\<close>

text \<open>
  From a number on, every message that was accepted is still in front of the subscriber, or was sent to it: it
  waits, or a worker is at it and will visit the channel, or it has gone to the channel.
\<close>

definition served :: "'a flow \<Rightarrow> nat \<Rightarrow> nat \<Rightarrow> bool" where
  "served f k ch \<longleftrightarrow>
     (\<forall>w m visited throughout sometime. fl_workers f w = WIter m visited throughout sometime \<longrightarrow> k \<le> m_num m \<longrightarrow> ch \<in> set throughout)
   \<and> (\<forall>n. k \<le> n \<longrightarrow> n < length (fl_accepted f) \<longrightarrow>
        n \<in> set (waiting f) \<or> (\<exists>w m visited throughout sometime. fl_workers f w = WIter m visited throughout sometime \<and> m_num m = n \<and> ch \<notin> set visited) \<or> n \<in># gone f ch)"

lemma servedI:
  assumes "\<And>w m visited throughout sometime. fl_workers f w = WIter m visited throughout sometime \<Longrightarrow> k \<le> m_num m \<Longrightarrow> ch \<in> set throughout"
    "\<And>n. k \<le> n \<Longrightarrow> n < length (fl_accepted f) \<Longrightarrow> n \<notin> set (waiting f) \<Longrightarrow> n \<notin># gone f ch \<Longrightarrow>
      \<exists>w m visited throughout sometime. fl_workers f w = WIter m visited throughout sometime \<and> m_num m = n \<and> ch \<notin> set visited"
  shows "served f k ch"
  using assms unfolding served_def by blast

lemma servedD:
  assumes "served f k ch"
  shows "fl_workers f w = WIter m visited throughout sometime \<Longrightarrow> k \<le> m_num m \<Longrightarrow> ch \<in> set throughout"
    "k \<le> n \<Longrightarrow> n < length (fl_accepted f) \<Longrightarrow> n \<notin> set (waiting f) \<Longrightarrow> n \<notin># gone f ch \<Longrightarrow>
      \<exists>w m visited throughout sometime. fl_workers f w = WIter m visited throughout sometime \<and> m_num m = n \<and> ch \<notin> set visited"
  using assms unfolding served_def by blast+

text \<open>A worker that is at no message takes nothing from anybody.\<close>

lemma served_worker:
  assumes "served f k ch" "\<forall>m a b c. x \<noteq> WIter m a b c"
    "\<And>m a b c. fl_workers f w = WIter m a b c \<Longrightarrow> set b \<subseteq> set a"
  shows "served (f\<lparr>fl_workers := (fl_workers f)(w := x)\<rparr>) k ch"
proof (rule servedI)
  fix n assume n: "k \<le> n" "n < length (fl_accepted (f\<lparr>fl_workers := (fl_workers f)(w := x)\<rparr>))" "n \<notin> set (waiting (f\<lparr>fl_workers := (fl_workers f)(w := x)\<rparr>))"
    "n \<notin># gone (f\<lparr>fl_workers := (fl_workers f)(w := x)\<rparr>) ch"
  have "n < length (fl_accepted f)" "n \<notin> set (waiting f)" "n \<notin># gone f ch" using n(2-4) by (simp_all add: once_simps)
  then obtain v m a b c where v: "fl_workers f v = WIter m a b c" "m_num m = n" "ch \<notin> set a" using servedD(2)[OF assms(1) n(1)] by blast
  have "v \<noteq> w" using assms(3)[of m a b c] servedD(1)[OF assms(1) v(1)] v n(1) by auto
  then show "\<exists>w' m visited throughout sometime. fl_workers (f\<lparr>fl_workers := (fl_workers f)(w := x)\<rparr>) w' = WIter m visited throughout sometime \<and> m_num m = n \<and> ch \<notin> set visited"
    using v by (intro exI[of _ v]) simp
qed (use assms(2) servedD(1)[OF assms(1)] in \<open>auto split: if_splits\<close>)

text \<open>A message that a worker starts with passes from where it waited to the worker.\<close>

lemma served_start:
  assumes "served f k ch" "ch \<in> set subs" "fl_workers f w = WSource" "fl_workers g = (fl_workers f)(w := WIter m [] subs subs)"
    "length (fl_accepted g) \<le> Suc (length (fl_accepted f))" "length (fl_accepted g) = length (fl_accepted f) \<or> m_num m = length (fl_accepted f)"
    "set (waiting f) \<subseteq> insert (m_num m) (set (waiting g))" "gone g = gone f"
  shows "served g k ch"
proof (rule servedI)
  fix n assume n: "k \<le> n" "n < length (fl_accepted g)" "n \<notin> set (waiting g)" "n \<notin># gone g ch"
  show "\<exists>w m visited throughout sometime. fl_workers g w = WIter m visited throughout sometime \<and> m_num m = n \<and> ch \<notin> set visited"
  proof (cases "n = m_num m")
    case True
    then show ?thesis using assms(4) by (intro exI[of _ w]) simp
  next
    case False
    then have "n < length (fl_accepted f)" "n \<notin> set (waiting f)" using n assms(5-7) by auto
    then obtain v m2 a b c where v: "fl_workers f v = WIter m2 a b c" "m_num m2 = n" "ch \<notin> set a" using servedD(2)[OF assms(1) n(1)] n(4) assms(8) by auto
    then show ?thesis using assms(3,4) by (intro exI[of _ v]) auto
  qed
qed (use assms(2,4) servedD(1)[OF assms(1)] in \<open>auto split: if_splits\<close>)

lemma move_served:
  assumes "flow_move subs ending loose f g" "served f k ch" "ch \<in> set subs" "ch \<notin> ending"
  shows "served g k ch"
  using assms
proof (induction rule: flow_move.induct)
  case (fm_back f v)
  note d = servedD[OF fm_back(1)]
  show ?case using d by (intro servedI) (auto simp: waiting_def less_Suc_eq)
next
  case (fm_front f v)
  note d = servedD[OF fm_front(2)]
  show ?case using d by (intro servedI) (auto simp: waiting_def less_Suc_eq)
next
  case (fm_hand f w v)
  show ?case by (rule served_start[OF fm_hand(3,4,1), where m = "Msg (length (fl_accepted f)) v"]) (auto simp: waiting_def)
next
  case (fm_take f w m rest)
  show ?case by (rule served_start[OF fm_take(3,4,1), where m = m]) (auto simp: waiting_def fm_take(2))
next
  case (fm_visit f w m visited throughout sometime c)
  note d = servedD[OF fm_visit(4)]
  let ?g = "f\<lparr>fl_sends := fl_sends f @ [(w, m, c)], fl_workers := (fl_workers f)(w := WIter m (c # visited) throughout sometime)\<rparr>"
  show ?case
  proof (rule servedI)
    fix n assume n: "k \<le> n" "n < length (fl_accepted ?g)" "n \<notin> set (waiting ?g)" "n \<notin># gone ?g ch"
    have "n \<notin># gone f ch" using n(4) by (auto split: if_splits)
    then obtain v m2 a b so where v: "fl_workers f v = WIter m2 a b so" "m_num m2 = n" "ch \<notin> set a" using d(2)[OF n(1)] n(2,3) by (auto simp: once_simps)
    show "\<exists>w m visited throughout sometime. fl_workers ?g w = WIter m visited throughout sometime \<and> m_num m = n \<and> ch \<notin> set visited"
    proof (cases "v = w")
      case True
      then have "m2 = m" "a = visited" using v(1) fm_visit(1) by auto
      then have "c \<noteq> ch" using n(4) v(2) by auto
      then show ?thesis using True v fm_visit(1) by (intro exI[of _ w]) auto
    next
      case False
      then show ?thesis using v by (intro exI[of _ v]) auto
    qed
  qed (use d(1) fm_visit(1) in \<open>auto split: if_splits\<close>)
next
  case (fm_drop w m c f)
  have "gone (f\<lparr>fl_sends := remove1 (w, m, c) (fl_sends f)\<rparr>) ch = gone f ch" using fm_drop(2,5) gone_drop[OF fm_drop(1)] by (metis fun_upd_apply)
  then show ?case using servedD[OF fm_drop(3)] by (intro servedI) (auto simp: once_simps)
next
  case (fm_deliver w m c f)
  then show ?case using servedD[OF fm_deliver(2)] by (intro servedI) (auto simp: once_simps gone_deliver[OF fm_deliver(1)] simp del: fun_upd_apply)
next
  case (fm_add f c)
  note d = servedD[OF fm_add(1)]
  show ?case
  proof (rule servedI)
    fix n assume n: "k \<le> n" "n < length (fl_accepted (f\<lparr>fl_workers := iter_add c \<circ> fl_workers f\<rparr>))" "n \<notin> set (waiting (f\<lparr>fl_workers := iter_add c \<circ> fl_workers f\<rparr>))"
      "n \<notin># gone (f\<lparr>fl_workers := iter_add c \<circ> fl_workers f\<rparr>) ch"
    then have "n < length (fl_accepted f)" "n \<notin> set (waiting f)" "n \<notin># gone f ch" by (simp_all add: once_simps)
    then obtain v m a b so where "fl_workers f v = WIter m a b so" "m_num m = n" "ch \<notin> set a" using d(2)[OF n(1)] by blast
    then show "\<exists>w m visited throughout sometime. fl_workers (f\<lparr>fl_workers := iter_add c \<circ> fl_workers f\<rparr>) w = WIter m visited throughout sometime \<and> m_num m = n \<and> ch \<notin> set visited"
      by (intro exI[of _ v]) simp
  qed (use d(1) in \<open>auto simp: iter_WIter\<close>)
next
  case (fm_delete c f)
  note d = servedD[OF fm_delete(2)]
  show ?case
  proof (rule servedI)
    fix n assume n: "k \<le> n" "n < length (fl_accepted (f\<lparr>fl_workers := iter_delete c \<circ> fl_workers f\<rparr>))" "n \<notin> set (waiting (f\<lparr>fl_workers := iter_delete c \<circ> fl_workers f\<rparr>))"
      "n \<notin># gone (f\<lparr>fl_workers := iter_delete c \<circ> fl_workers f\<rparr>) ch"
    then have "n < length (fl_accepted f)" "n \<notin> set (waiting f)" "n \<notin># gone f ch" by (simp_all add: once_simps)
    then obtain v m a b so where "fl_workers f v = WIter m a b so" "m_num m = n" "ch \<notin> set a" using d(2)[OF n(1)] by blast
    then show "\<exists>w m visited throughout sometime. fl_workers (f\<lparr>fl_workers := iter_delete c \<circ> fl_workers f\<rparr>) w = WIter m visited throughout sometime \<and> m_num m = n \<and> ch \<notin> set visited"
      by (intro exI[of _ v]) simp
  qed (use d(1) fm_delete(1,4) in \<open>auto simp: iter_WIter\<close>)
qed (auto intro!: served_worker)


definition delivery :: "'a broker \<Rightarrow> bool" where
  "delivery s \<longleftrightarrow> (\<forall>ch k. bk_since s ch = Some k \<longrightarrow> ch \<notin> set (bk_left s) \<longrightarrow> \<not> bk_cancelled s \<longrightarrow> served (flow_of s) k ch)"

definition past :: "'a broker \<Rightarrow> (nat \<Rightarrow> nat option) \<times> nat list \<times> bool" where "past s = (bk_since s, bk_left s, bk_cancelled s)"

lemma past_simps [simp]:
  "past (client_at c pc s) = past s" "past (s\<lparr>bk_next := n\<rparr>) = past s" "past (s\<lparr>bk_count := k\<rparr>) = past s"
  by (simp_all add: past_def client_at_def)

lemma past_fields: "past s = (a, b, c) \<Longrightarrow> bk_since s = a \<and> bk_left s = b \<and> bk_cancelled s = c"
  by (simp add: past_def)

lemma offer_past: "offer r s = Some s1 \<Longrightarrow> past s1 = past s"
  by (auto simp: offer_def past_def split: if_splits)

lemma sink_past: "broker_sink v w s = Some s1 \<Longrightarrow> past s1 = past s"
  by (auto simp: broker_sink_def past_def set_worker_def Let_def split: broker_source.splits if_splits)

text \<open>The record of the past only grows, and a subscription counts from the moment it is answered.\<close>

definition later :: "'a broker \<Rightarrow> 'a broker \<Rightarrow> bool" where
  "later s s1 \<longleftrightarrow> set (bk_left s) \<subseteq> set (bk_left s1) \<and> (bk_cancelled s \<longrightarrow> bk_cancelled s1)
     \<and> (bk_since s1 = bk_since s \<or> flow_of s1 = flow_of s \<and> (\<exists>ch. bk_since s1 = (bk_since s)(ch := Some (length (bk_accepted s)))))"

lemma later_past: "past s1 = past s \<Longrightarrow> later s s1"
  by (simp add: past_def later_def)

lemma offer_later:
  "offer r s = Some s1 \<Longrightarrow> later s (client_at c pc s1)" "offer r s = Some s1 \<Longrightarrow> later s (client_at c pc (s1\<lparr>bk_left := ch # bk_left s1\<rparr>))"
  "offer r (s\<lparr>bk_next := Suc (bk_next s)\<rparr>) = Some s1 \<Longrightarrow> later s (client_at c pc s1)"
  by (auto simp: offer_def later_def client_at_def split: if_splits)

lemma since_later: "later s (client_at c pc (s\<lparr>bk_since := (bk_since s)(ch := Some (length (bk_accepted s)))\<rparr>))"
  by (auto simp: later_def client_at_def flow_of_def)

lemma stop_later: "later s (client_at c pc (s\<lparr>bk_cancelled := True\<rparr>))"
  by (simp add: later_def client_at_def)

lemma sink_later: "broker_sink v w s = Some s1 \<Longrightarrow> later s (client_at c pc s1)"
  by (rule later_past) (simp add: sink_past)

lemma client_later: "client_step c cc s = Some s1 \<Longrightarrow> later s s1"
  by (cases "bk_clients s c")
    (auto simp: client_step_def Send_step_def Subscribe_step_def Unsubscribe_step_def Stats_step_def Let_def split: client_case.splits if_splits
      intro: stop_later since_later offer_later sink_later later_past)

lemma loop_past: "loop_step stop s = Some s1 \<Longrightarrow> past s1 = past s"
  by (auto simp: loop_step_def past_def subs_Store_def subs_Delete_def split: loop_pc.splits ctl_request.splits if_splits list.splits)

lemma worker_past: "worker_step w mv s = Some s1 \<Longrightarrow> past s1 = past s"
  by (auto simp: worker_step_def dispatchMessage_def set_worker_def past_def split: worker.splits move.splits if_splits list.splits)

lemma send_past: "sendMsg x c s = Some s1 \<Longrightarrow> past s1 = past s"
  by (auto simp: sendMsg_def past_def Let_def split: prod.splits send_case.splits if_splits)

lemma later_fields:
  "later s (s\<lparr>bk_ctx := x\<rparr>)" "later s (s\<lparr>bk_closed := b\<rparr>)" "later s (s\<lparr>bk_draining := b\<rparr>)" "later s (s\<lparr>bk_room := r\<rparr>)" "later s (s\<lparr>bk_taken := t\<rparr>)"
  "later s (s\<lparr>bk_cancelled := True\<rparr>)" "later s (client_at c pc s)"
  by (simp_all add: later_def client_at_def)

lemma do_later: "broker_do a s = Some s1 \<Longrightarrow> later s s1"
  by (cases a) (auto simp: begin_call_def broker_Stop_def later_fields client_later loop_past worker_past send_past split: if_splits client.splits intro: later_past)

lemma served_now: "all_genuine (flow_of s) \<Longrightarrow> served (flow_of s) (length (bk_accepted s)) ch"
proof (rule servedI)
  fix w m a b c
  assume g: "all_genuine (flow_of s)" and w: "fl_workers (flow_of s) w = WIter m a b c" and k: "length (bk_accepted s) \<le> m_num m"
  have "genuine (bk_accepted s) m" using g worker_mentioned(1)[OF w] by (simp add: all_genuine_def flow_of_def)
  then show "ch \<in> set b" using k by (simp add: genuine_def)
qed (simp add: flow_of_def)

lemma do_delivery:
  assumes "broker_do a s = Some s1" "subs_ok s" "flow_ok (flow_of s)" "delivery s"
  shows "delivery s1"
  unfolding delivery_def
proof (intro allI impI)
  fix ch k
  assume ch: "bk_since s1 ch = Some k" "ch \<notin> set (bk_left s1)" "\<not> bk_cancelled s1"
  note l = do_later[OF assms(1), unfolded later_def]
  have old: "ch \<notin> set (bk_left s)" "\<not> bk_cancelled s" using l ch by auto
  show "served (flow_of s1) k ch"
  proof (cases "bk_since s ch = Some k")
    case True
    have "served (flow_of s) k ch" using assms(4) True old by (simp add: delivery_def)
    moreover have "ch \<in> set (bk_subs s)" using assms(2) True old by (auto simp: subs_ok_def)
    moreover have "ch \<notin> ends s" using assms(2) old by (auto simp: subs_ok_def ends_def)
    ultimately show ?thesis using move_served[OF do_moves[OF assms(1)]] by blast
  next
    case False
    then have "flow_of s1 = flow_of s" "k = length (bk_accepted s)" using l ch(1) by (auto split: if_splits)
    then show ?thesis using served_now assms(3) by (metis flow_ok_def)
  qed
qed

lemma reach_inv:
  "broker_reach (startQueueWorkers src room opts) s \<Longrightarrow> flow_ok (flow_of s) \<and> subs_ok s \<and> delivery s"
proof (induction rule: broker_reach.induct)
  case breach_start
  show ?case by (simp add: start_ok) (simp add: subs_ok_def delivery_def startQueueWorkers_def)
next
  case (breach_step s a s1)
  then show ?case using do_delivery do_subs move_ok[OF do_moves] by blast
qed


subsection \<open>Order\<close>

text \<open>With one worker: what has gone to a channel comes before what is at hand, and this before what waits.\<close>

definition in_order :: "'a flow \<Rightarrow> bool" where
  "in_order f \<longleftrightarrow>
     sorted_wrt (<) (waiting f) \<and> (\<forall>n h. held f 0 = Some h \<longrightarrow> n \<in> set (waiting f) \<longrightarrow> h < n)
   \<and> (\<forall>ch g. g \<in># gone f ch \<longrightarrow> (\<forall>n\<in>set (waiting f). g < n) \<and> (\<forall>h. held f 0 = Some h \<longrightarrow> g \<le> h))
   \<and> (\<forall>w m ch. (w, m, ch) \<in> set (fl_sends f) \<longrightarrow> w = 0 \<and> held f 0 = Some (m_num m))
   \<and> (\<forall>ch. sorted_wrt (<) (map m_num (fl_chan f ch)))"

lemma orderI:
  assumes "sorted_wrt (<) (waiting f)" "\<And>n h. held f 0 = Some h \<Longrightarrow> n \<in> set (waiting f) \<Longrightarrow> h < n"
    "\<And>ch g n. g \<in># gone f ch \<Longrightarrow> n \<in> set (waiting f) \<Longrightarrow> g < n" "\<And>ch g h. g \<in># gone f ch \<Longrightarrow> held f 0 = Some h \<Longrightarrow> g \<le> h"
    "\<And>w m ch. (w, m, ch) \<in> set (fl_sends f) \<Longrightarrow> w = 0" "\<And>w m ch. (w, m, ch) \<in> set (fl_sends f) \<Longrightarrow> held f 0 = Some (m_num m)"
    "\<And>ch. sorted_wrt (<) (map m_num (fl_chan f ch))"
  shows "in_order f"
  using assms unfolding in_order_def by blast

lemma orderD:
  assumes "in_order f"
  shows "sorted_wrt (<) (waiting f)" "held f 0 = Some h \<Longrightarrow> n \<in> set (waiting f) \<Longrightarrow> h < n"
    "g \<in># gone f ch \<Longrightarrow> n \<in> set (waiting f) \<Longrightarrow> g < n" "g \<in># gone f ch \<Longrightarrow> held f 0 = Some h \<Longrightarrow> g \<le> h"
    "(w, m, ch) \<in> set (fl_sends f) \<Longrightarrow> w = 0" "(w, m, ch) \<in> set (fl_sends f) \<Longrightarrow> held f 0 = Some (m_num m)"
    "sorted_wrt (<) (map m_num (fl_chan f ch))"
  using assms unfolding in_order_def by blast+

lemma gone_old: "all_genuine f \<Longrightarrow> g \<in># gone f ch \<Longrightarrow> g < length (fl_accepted f)"
proof -
  assume a: "all_genuine f" and g: "g \<in># gone f ch"
  have "\<exists>m\<in>mentioned f. m_num m = g" using g by (auto simp: gone_def mentioned_def)
  then show ?thesis using a by (auto simp: all_genuine_def genuine_def)
qed

lemma waiting_old: "all_genuine f \<Longrightarrow> n \<in> set (waiting f) \<Longrightarrow> n < length (fl_accepted f)"
  by (auto simp: all_genuine_def genuine_def waiting_def mentioned_def)

lemma held_old: "all_genuine f \<Longrightarrow> held f w = Some n \<Longrightarrow> n < length (fl_accepted f)"
  by (auto simp: all_genuine_def genuine_def held_def mentioned_def)

lemma held_other: "held (f\<lparr>fl_buf := b\<rparr>) = held f" "held (f\<lparr>fl_accepted := a\<rparr>) = held f" "held (f\<lparr>fl_sends := x\<rparr>) = held f" "held (f\<lparr>fl_sends := x, fl_chan := c\<rparr>) = held f"
  "held (f\<lparr>fl_buf := b, fl_accepted := a\<rparr>) = held f"
  by (simp_all add: held_def fun_eq_iff)

text \<open>A worker that lets go of a message none of whose sends is in progress.\<close>

lemma order_idle:
  assumes "in_order f" "\<forall>v. v \<noteq> 0 \<longrightarrow> fl_workers f v = WDone" "fl_workers f w \<noteq> WDone" "worker_msg (fl_workers f w) = None \<or> worker_msg (fl_workers f w) = Some m \<and> idle f w m"
    "worker_msg x = None"
  shows "in_order (f\<lparr>fl_workers := (fl_workers f)(w := x)\<rparr>)"
proof -
  note o = orderD[OF assms(1)]
  have w: "w = 0" using assms(2,3) by blast
  have "(v, n, c) \<notin> set (fl_sends f)" for v n c
  proof
    assume s: "(v, n, c) \<in> set (fl_sends f)"
    then have "held f 0 = Some (m_num n)" "v = 0" using o(5,6) by blast+
    then show False using assms(4) w s by (auto simp: held_def idle_def list_ex_iff)
  qed
  then show ?thesis using o(1,3,7) assms(5) w by (intro orderI) (auto simp: once_simps held_def)
qed

lemma sorted_snoc: "sorted_wrt (<) (xs @ [x :: nat]) \<longleftrightarrow> sorted_wrt (<) xs \<and> (\<forall>y\<in>set xs. y < x)"
  by (auto simp: sorted_wrt_append)

lemma move_order:
  assumes "flow_move subs ending False f g" "flow_ok f" "\<forall>v. v \<noteq> 0 \<longrightarrow> fl_workers f v = WDone" "in_order f"
  shows "in_order g"
proof -
  have gen: "all_genuine f" and one: "one_holder f" and once: "at_most_once f" using assms(2) by (simp_all add: flow_ok_def)
  note g_old = gone_old[OF gen] and w_old = waiting_old[OF gen] and h_old = held_old[OF gen]
  note o = orderD[OF assms(4)]
  have nosend: "fl_sends f = []" if "held f 0 = None" using o(6) that by (cases "fl_sends f") auto
  have zero: "w = 0" if "fl_workers f w \<noteq> WDone" for w using that assms(3) by blast
  from assms(1) show ?thesis
  proof cases
    case fm_none
    then show ?thesis using assms(4) by simp
  next
    case (fm_back v)
    then have "waiting g = waiting f @ [length (fl_accepted f)]" "held g = held f" "gone g = gone f" "fl_sends g = fl_sends f" "fl_chan g = fl_chan f"
      by (simp_all add: waiting_def held_def fun_eq_iff)
    then show ?thesis using o g_old w_old h_old by (intro orderI) (auto simp: sorted_snoc)
  next
    case (fm_hand w v)
    then have "waiting g = []" "held g = (held f)(0 := Some (length (fl_accepted f)))" "gone g = gone f" "fl_sends g = fl_sends f" "fl_chan g = fl_chan f" "held f 0 = None"
      using zero[of w] by (simp_all add: waiting_def held_def fun_eq_iff)
    then show ?thesis using o(7) g_old nosend by (intro orderI) (auto intro: less_imp_le)
  next
    case (fm_take w m rest)
    then have e: "waiting f = m_num m # waiting g" "held g = (held f)(0 := Some (m_num m))" "gone g = gone f" "fl_sends g = fl_sends f" "fl_chan g = fl_chan f" "held f 0 = None"
      using zero[of w] by (simp_all add: waiting_def held_def fun_eq_iff)
    show ?thesis using o(1,3,7) nosend[OF e(6)] unfolding e by (intro orderI) (auto simp: e intro: less_imp_le)
  next
    case (fm_visit w m visited throughout sometime ch)
    then have e: "waiting g = waiting f" "held g = held f" "gone g = (gone f)(ch := add_mset (m_num m) (gone f ch))" "fl_sends g = fl_sends f @ [(0, m, ch)]" "fl_chan g = fl_chan f" "held f 0 = Some (m_num m)"
      using zero[of w] by (auto simp: waiting_def held_def fun_eq_iff)
    show ?thesis using o(1-7) unfolding e by (intro orderI) (auto simp: e split: if_splits)
  next
    case (fm_group w m visited throughout sometime)
    then have e: "waiting g = waiting f" "held g = held f" "gone g = gone f" "fl_sends g = fl_sends f" "fl_chan g = fl_chan f"
      by (auto simp: waiting_def held_def fun_eq_iff)
    show ?thesis using o by (intro orderI) (auto simp: e)
  next
    case (fm_finish w m visited throughout sometime)
    then show ?thesis using order_idle[OF assms(4,3), of w m WSource] by simp
  next
    case (fm_grouped w m)
    then show ?thesis using order_idle[OF assms(4,3), of w m WSource] by simp
  next
    case (fm_quit w)
    then show ?thesis using order_idle[OF assms(4,3), of w _ WDone] by simp
  next
    case (fm_drop w m ch)
    note d = gone_drop[OF fm_drop(2)]
    have sub: "x \<in># gone g c \<Longrightarrow> x \<in># gone f c" for x c using d fm_drop(1) by (cases "c = ch") (auto simp: fun_eq_iff)
    have e: "waiting g = waiting f" "held g = held f" "fl_chan g = fl_chan f" "set (fl_sends g) \<subseteq> set (fl_sends f)"
      using fm_drop(1) set_remove1_subset[of "(w, m, ch)" "fl_sends f"] by (simp_all add: once_simps held_other)
    show ?thesis by (intro orderI) (use o(1,2,7) o(3,4)[OF sub] o(5,6)[OF subsetD[OF e(4)]] in \<open>auto simp: e(1-3)\<close>)
  next
    case (fm_deliver w m ch)
    note d = gone_deliver[OF fm_deliver(2)]
    have e: "waiting g = waiting f" "held g = held f" "gone g = gone f" "set (fl_sends g) \<subseteq> set (fl_sends f)" "fl_chan g = (fl_chan f)(ch := fl_chan f ch @ [m])"
      using fm_deliver(1) d set_remove1_subset[of "(w, m, ch)" "fl_sends f"] by (simp_all add: once_simps held_other)
    have "n < m_num m" if n: "n \<in> m_num ` set (fl_chan f ch)" for n
    proof -
      have two: "m_num m \<noteq> n"
      proof
        assume "m_num m = n"
        then have c: "0 < count (image_mset m_num (mset (fl_chan f ch))) (m_num m)" using n by (simp only: count_greater_zero_iff set_image_mset set_mset_mset)
        have "(w, m, ch) \<in># mset (fl_sends f)" using fm_deliver(2) by simp
        then have "0 < count (image_mset (\<lambda>(w, m, c). m_num m) (filter_mset (\<lambda>(w, m, c). c = ch) (mset (fl_sends f)))) (m_num m)" by force
        then have "1 < count (gone f ch) (m_num m)" using c unfolding gone_def count_union by linarith
        then show False using onceD(1)[OF once, of ch "m_num m"] by simp
      qed
      have "n \<in># gone f ch" using n by (auto simp: gone_def)
      then show ?thesis using o(4) o(6)[OF fm_deliver(2)] two by fastforce
    qed
    then have "sorted_wrt (<) (map m_num (fl_chan f ch @ [m]))" using o(7)[of ch] by (simp add: sorted_snoc)
    then show ?thesis by (intro orderI) (use o(1-4,7) o(5,6)[OF subsetD[OF e(4)]] in \<open>auto simp: e(1-3,5)\<close>)
  next
    case (fm_add ch)
    then have e: "waiting g = waiting f" "held g = held f" "gone g = gone f" "fl_sends g = fl_sends f" "fl_chan g = fl_chan f"
      by (auto simp: waiting_def held_def fun_eq_iff)
    show ?thesis using o by (intro orderI) (auto simp: e)
  next
    case (fm_delete ch)
    then have e: "waiting g = waiting f" "held g = held f" "gone g = gone f" "fl_sends g = fl_sends f" "fl_chan g = fl_chan f"
      by (auto simp: waiting_def held_def fun_eq_iff)
    show ?thesis using o by (intro orderI) (auto simp: e)
  qed simp
qed


lemma move_done: "flow_move subs ending loose f g \<Longrightarrow> fl_workers f v = WDone \<Longrightarrow> fl_workers g v = WDone"
  by (induction rule: flow_move.induct) (auto split: if_splits)

definition kept :: "'a broker \<Rightarrow> 'a broker \<Rightarrow> bool" where
  "kept s s1 \<longleftrightarrow> bk_source s1 = bk_source s \<and> bk_opts s1 = bk_opts s \<and> (bk_source s = Handoff \<longrightarrow> bk_buf s = [] \<longrightarrow> bk_buf s1 = [])"

lemma offer_kept: "offer r s = Some s1 \<Longrightarrow> kept s (client_at c pc s1)" "offer r s = Some s1 \<Longrightarrow> kept s (client_at c pc (s1\<lparr>bk_left := l\<rparr>))"
   "offer r (s\<lparr>bk_next := n\<rparr>) = Some s1 \<Longrightarrow> kept s (client_at c pc s1)"
  by (auto simp: offer_def kept_def client_at_def split: if_splits)

lemma sink_kept: "broker_sink v w s = Some s1 \<Longrightarrow> kept s (client_at c pc s1)"
  by (auto simp: broker_sink_def kept_def set_worker_def client_at_def Let_def split: broker_source.splits if_splits)

lemma kept_fields:
  "kept s (client_at c pc s)" "kept s (client_at c pc (s\<lparr>bk_since := x\<rparr>))" "kept s (client_at c pc (s\<lparr>bk_count := k\<rparr>))" "kept s (client_at c pc (s\<lparr>bk_next := n\<rparr>))"
  "kept s (client_at c pc (s\<lparr>bk_cancelled := b\<rparr>))"
  by (simp_all add: kept_def client_at_def)

lemma client_kept: "client_step c cc s = Some s1 \<Longrightarrow> kept s s1"
  by (cases "bk_clients s c")
    (auto simp: client_step_def Send_step_def Subscribe_step_def Unsubscribe_step_def Stats_step_def Let_def kept_fields split: client_case.splits if_splits
      intro: offer_kept sink_kept)

lemma do_kept: "broker_do a s = Some s1 \<Longrightarrow> kept s s1"
proof (cases a)
  case (AClient c cc)
  then show "broker_do a s = Some s1 \<Longrightarrow> kept s s1" by (simp add: client_kept)
qed (auto simp: kept_def begin_call_def broker_Stop_def client_at_def loop_step_def subs_Store_def subs_Delete_def worker_step_def dispatchMessage_def set_worker_def
       sendMsg_def Let_def
     split: if_splits client.splits loop_pc.splits ctl_request.splits list.splits worker.splits move.splits send_case.splits prod.splits)

lemma reach_order:
  assumes "numWorkers opts = 1" "src \<noteq> Lifo"
  shows "broker_reach (startQueueWorkers src room opts) s \<Longrightarrow>
    bk_source s = src \<and> bk_opts s = opts \<and> (src = Handoff \<longrightarrow> bk_buf s = []) \<and> (\<forall>v. v \<noteq> 0 \<longrightarrow> bk_workers s v = WDone)
    \<and> (\<not> (ParallelDispatch opts \<and> bk_cancelled s) \<longrightarrow> in_order (flow_of s))"
proof (induction rule: broker_reach.induct)
  case breach_start
  show ?case using assms by (auto simp: startQueueWorkers_def in_order_def flow_of_def waiting_def held_def gone_def)
next
  case (breach_step s a s1)
  note k = do_kept[OF breach_step(2), unfolded kept_def] and m = do_moves[OF breach_step(2)] and l = do_later[OF breach_step(2), unfolded later_def]
  have w: "\<forall>v. v \<noteq> 0 \<longrightarrow> fl_workers (flow_of s) v = WDone" using breach_step(3) by (simp add: flow_of_def)
  have "bk_workers s1 v = WDone" if "v \<noteq> 0" for v using move_done[OF m, of v] w that by (simp add: flow_of_def)
  moreover have "in_order (flow_of s1)" if "\<not> (ParallelDispatch opts \<and> bk_cancelled s1)"
  proof -
    have "\<not> order_lost s" using breach_step(3) that l assms(2) by (auto simp: order_lost_def)
    then show ?thesis using move_order[OF _ _ w] m broker_reach_ok[OF breach_step(1)] breach_step(3) that l by auto
  qed
  ultimately show ?case using k breach_step(3) by simp
qed

subsection \<open>Delivery\<close>

lemma gone_cases: "n \<in># gone f ch \<Longrightarrow> (\<exists>w m. (w, m, ch) \<in> set (fl_sends f) \<and> m_num m = n) \<or> (\<exists>m\<in>set (fl_chan f ch). m_num m = n)"
  by (auto simp: gone_def)

lemma once_distinct: "at_most_once f \<Longrightarrow> distinct (map m_num (fl_chan f ch))"
proof -
  assume a: "at_most_once f"
  let ?xs = "map m_num (fl_chan f ch)"
  have le: "count (mset ?xs) n \<le> 1" for n using onceD(1)[OF a, of ch n] by (simp add: gone_def)
  have "count (mset ?xs) n = (if n \<in> set ?xs then 1 else 0)" for n
    using le[of n] count_greater_zero_iff[of "mset ?xs" n] not_in_iff[of n "mset ?xs"] by (auto simp del: mset_map count_greater_zero_iff)
  then show ?thesis by (simp only: distinct_count_atmost_1) blast
qed

text \<open>A message is on its way as long as it waits, a worker is at it, or a send of it is in progress.\<close>

definition on_its_way :: "'a broker \<Rightarrow> nat \<Rightarrow> bool" where
  "on_its_way s n \<longleftrightarrow> (\<exists>m\<in>set (bk_buf s). m_num m = n) \<or> (\<exists>w m a b c. bk_workers s w = WIter m a b c \<and> m_num m = n) \<or> (\<exists>(w, m, ch)\<in>set (bk_sends s). m_num m = n)"

text \<open>
  C3: A message whose Send follows a Subscribe reaches the channel of the subscription, whatever the order of the steps, the
  number of workers and the kind of source: once it is no longer on its way it is in the channel, unless somebody asked to
  remove the subscription or the broker has stopped.  No message is sent to a channel twice, and what
  arrives is what was accepted.
\<close>

theorem broker_delivers:
  assumes "broker_reach (startQueueWorkers src room opts) s"
  shows "(\<forall>k n. bk_since s ch = Some k \<and> ch \<notin> set (bk_left s) \<and> \<not> bk_cancelled s \<and> k \<le> n \<and> n < length (bk_accepted s) \<and> \<not> on_its_way s n
      \<longrightarrow> Msg n (bk_accepted s ! n) \<in> set (bk_chan s ch))
    \<and> distinct (map m_num (bk_chan s ch)) \<and> (\<forall>m\<in>set (bk_chan s ch). m_num m < length (bk_accepted s) \<and> m_val m = bk_accepted s ! m_num m)"
proof -
  note inv = reach_inv[OF assms]
  have gen: "all_genuine (flow_of s)" and once: "at_most_once (flow_of s)" using inv by (simp_all add: flow_ok_def)
  have g: "m \<in> set (bk_chan s ch) \<Longrightarrow> m_num m < length (bk_accepted s) \<and> m_val m = bk_accepted s ! m_num m" for m
    using gen worker_mentioned(5)[of m "flow_of s" ch] by (simp add: all_genuine_def genuine_def flow_of_def)
  have "Msg n (bk_accepted s ! n) \<in> set (bk_chan s ch)"
    if "bk_since s ch = Some k" "ch \<notin> set (bk_left s)" "\<not> bk_cancelled s" "k \<le> n" "n < length (bk_accepted s)" "\<not> on_its_way s n" for k n
  proof -
    have "served (flow_of s) k ch" using inv that by (simp add: delivery_def)
    moreover have "n \<notin> set (waiting (flow_of s))" using that(6) by (auto simp: on_its_way_def waiting_def flow_of_def)
    moreover have "\<not> (\<exists>w m a b c. fl_workers (flow_of s) w = WIter m a b c \<and> m_num m = n \<and> ch \<notin> set a)" using that(6) unfolding on_its_way_def flow_of_def by (simp; blast)
    ultimately have "n \<in># gone (flow_of s) ch" using that(4,5) servedD(2)[of "flow_of s" k ch n] by (fastforce simp: flow_of_def)
    moreover have "(w, m, ch) \<notin> set (bk_sends s)" if "m_num m = n" for w m using \<open>\<not> on_its_way s n\<close> that unfolding on_its_way_def by blast
    ultimately obtain m where "m \<in> set (bk_chan s ch)" "m_num m = n" using gone_cases[of n "flow_of s" ch] by (auto simp: flow_of_def)
    then show ?thesis using g[of m] by (metis msg.collapse)
  qed
  moreover have "distinct (map m_num (bk_chan s ch))" using once_distinct[OF once, of ch] by (simp add: flow_of_def)
  ultimately show ?thesis using g by blast
qed


subsection \<open>Order of delivery\<close>

lemma increasing_subseq: "sorted_wrt (<) is \<Longrightarrow> \<forall>i\<in>set is. i < length xs \<Longrightarrow> subseq (map ((!) xs) is) xs"
proof (induction "is" arbitrary: xs rule: rev_induct)
  case (snoc i js)
  have i: "i < length xs" "\<forall>j\<in>set js. j < i" "sorted_wrt (<) js" using snoc.prems by (auto simp: sorted_wrt_append)
  have "map ((!) xs) js = map ((!) (take i xs)) js" using i(2) by simp
  moreover have "subseq (map ((!) (take i xs)) js) (take i xs)" by (rule snoc.IH) (use i in auto)
  ultimately have "subseq (map ((!) xs) js) (take i xs)" by metis
  then have "subseq (map ((!) xs) js @ [xs ! i]) (take i xs @ [xs ! i])" by (simp add: list_emb_append_mono)
  moreover have "take i xs @ [xs ! i] = take (Suc i) xs" using i(1) by (simp add: take_Suc_conv_app_nth)
  moreover have "subseq (take (Suc i) xs) xs" by (metis append_take_drop_id list_emb_append2 list_emb_prefix subseq_order.refl)
  ultimately show ?case using subseq_order.trans by auto
qed simp

lemma increasing_upt: "sorted_wrt (<) ks \<Longrightarrow> set ks = {k..<n} \<Longrightarrow> ks = [k..<n]"
  by (metis atLeastLessThan_upt distinct_upt set_upt sorted_distinct_set_unique sorted_upt strict_sorted_iff)

text \<open>
  C4: With one worker and anything but a stack between publishers and worker, a subscriber sees the messages in the order in
  which they were accepted, a part of them without gaps from its subscription on: when nothing is on its way, exactly
  those accepted since Subscribe returned.  This holds until a broker with parallel dispatch is stopped.
\<close>

theorem broker_in_order:
  assumes "broker_reach (startQueueWorkers src room opts) s" "numWorkers opts = 1" "src \<noteq> Lifo" "\<not> (ParallelDispatch opts \<and> bk_cancelled s)"
  shows "subseq (map m_val (bk_chan s ch)) (bk_accepted s)
    \<and> (\<forall>k. bk_since s ch = Some k \<and> ch \<notin> set (bk_left s) \<and> \<not> bk_cancelled s \<and> (\<forall>n. \<not> on_its_way s n)
        \<longrightarrow> map m_val (filter (\<lambda>m. k \<le> m_num m) (bk_chan s ch)) = drop k (bk_accepted s))"
proof -
  have o: "sorted_wrt (<) (map m_num (bk_chan s ch))" using reach_order[OF assms(2,3,1)] assms(4) orderD(7)[of "flow_of s" ch] by (simp add: flow_of_def)
  have inv: "all_genuine (flow_of s)" "delivery s" "at_most_once (flow_of s)" using reach_inv[OF assms(1)] by (simp_all add: flow_ok_def)
  have g: "m_num m < length (bk_accepted s) \<and> m_val m = bk_accepted s ! m_num m" if "m \<in> set (bk_chan s ch)" for m
    using inv(1) worker_mentioned(5)[of m "flow_of s" ch] that by (simp add: all_genuine_def genuine_def flow_of_def)
  have vals: "map m_val ms = map ((!) (bk_accepted s)) (map m_num ms)" if "set ms \<subseteq> set (bk_chan s ch)" for ms using g that by auto
  have "map m_val (filter (\<lambda>m. k \<le> m_num m) (bk_chan s ch)) = drop k (bk_accepted s)"
    if k: "bk_since s ch = Some k" "ch \<notin> set (bk_left s)" "\<not> bk_cancelled s" "\<forall>n. \<not> on_its_way s n" for k
  proof -
    let ?ms = "filter (\<lambda>m. k \<le> m_num m) (bk_chan s ch)"
    have "sorted_wrt (<) (map m_num ?ms)" using o by (simp add: sorted_wrt_map sorted_wrt_filter)
    moreover have "set (map m_num ?ms) = {k..<length (bk_accepted s)}"
    proof
      show "{k..<length (bk_accepted s)} \<subseteq> set (map m_num ?ms)"
      proof
        fix n assume n: "n \<in> {k..<length (bk_accepted s)}"
        have "served (flow_of s) k ch" using inv(2) k by (simp add: delivery_def)
        moreover have "n \<notin> set (waiting (flow_of s))" using k(4) unfolding on_its_way_def waiting_def flow_of_def by auto
        moreover have "\<not> (\<exists>w m a b c. fl_workers (flow_of s) w = WIter m a b c \<and> m_num m = n \<and> ch \<notin> set a)" using k(4) unfolding on_its_way_def flow_of_def by (simp; blast)
        ultimately have "n \<in># gone (flow_of s) ch" using n servedD(2)[of "flow_of s" k ch n] by (fastforce simp: flow_of_def)
        moreover have "bk_sends s = []" using k(4) unfolding on_its_way_def by (cases "bk_sends s") auto
        ultimately show "n \<in> set (map m_num ?ms)" using n by (auto simp: gone_def flow_of_def)
      qed
    qed (use g in auto)
    ultimately have u: "map m_num ?ms = [k..<length (bk_accepted s)]" by (rule increasing_upt)
    show ?thesis using vals[of ?ms] unfolding u by (simp add: list_eq_iff_nth_eq) 
  qed
  moreover have "subseq (map m_val (bk_chan s ch)) (bk_accepted s)"
  proof -
    have "\<forall>i\<in>set (map m_num (bk_chan s ch)). i < length (bk_accepted s)" using g by auto
    from increasing_subseq[OF o this] show ?thesis unfolding vals[OF subset_refl] .
  qed
  ultimately show ?thesis by blast
qed



subsection \<open>A run\<close>

text \<open>A client subscribes, another one sends a message, and a worker hands it over.\<close>

definition demo_opts :: broker_opts where "demo_opts = \<lparr>BufferSize = 1, ParallelDispatch = False, WorkerPoolSize = 0, NonBlockingPush = False\<rparr>"

definition demo_acts :: "nat broker_act list" where
  "demo_acts = [ABegin 0 CSub0, AClient 0 (Go 0), AClient 0 (Go 0), AClient 0 (Go 0), ALoop False, ALoop False, ALoop False, AClient 0 (Go 0),
     ABegin 1 (CSend0 7), AClient 1 (Go 0), AClient 1 (Go 0), AClient 1 (Go 0), AClient 1 (Go 0),
     AWorker 0 Take, AWorker 0 (Visit 0), ASend (0, Msg 0 7, 0) (ByChan False), AWorker 0 Finish]"

definition demo_start :: "nat broker" where "demo_start = startQueueWorkers Fifo (\<lambda>n. n < 4) demo_opts"
definition demo_broker :: "nat broker" where "demo_broker = the (broker_run demo_acts demo_start)"

lemma run_reach: "broker_run as s = Some s1 \<Longrightarrow> broker_reach s0 s \<Longrightarrow> broker_reach s0 s1"
  by (induction as s rule: broker_run.induct) (auto split: option.splits intro: breach_step)

lemmas broker_eval = startQueueWorkers_def numWorkers_def begin_call_def client_step_def Subscribe_step_def Unsubscribe_step_def Send_step_def client_at_def offer_def
  loop_step_def subs_Store_def worker_step_def dispatchMessage_def start_dispatch_def set_worker_def sending_def sendMsg_def broker_sink_def Let_def

lemma demo_run: "broker_run demo_acts demo_start = Some demo_broker"
  "bk_since demo_broker 0 = Some 0" "bk_left demo_broker = []" "\<not> bk_cancelled demo_broker" "bk_accepted demo_broker = [7]" "bk_buf demo_broker = []"
  "bk_sends demo_broker = []" "bk_workers demo_broker w = (if w = 0 then WSource else WDone)" "bk_subs demo_broker = [0]" "bk_loop demo_broker = LSelect" "bk_ctl demo_broker = []"
  "bk_clients demo_broker c = (if c = 0 then CRet (RChan 0) else if c = 1 then CRet RNil else CIdle)"
  unfolding demo_broker_def demo_start_def demo_acts_def demo_opts_def by (simp_all add: broker_eval)

lemma demo_reach: "broker_reach (startQueueWorkers Fifo (\<lambda>n. n < 4) demo_opts) demo_broker"
  using run_reach[OF demo_run(1) breach_start] by (simp add: demo_start_def)

lemma demo_quiet: "\<not> on_its_way demo_broker n"
  by (auto simp: on_its_way_def demo_run split: if_splits)

lemma broker_delivers_witness: "Msg 0 7 \<in> set (bk_chan demo_broker 0)"
  using broker_delivers[OF demo_reach, of 0] demo_quiet[of 0] by (simp add: demo_run)

lemma broker_in_order_witness: "map m_val (filter (\<lambda>m. 0 \<le> m_num m) (bk_chan demo_broker 0)) = [7]"
proof -
  have "numWorkers demo_opts = 1" "\<not> (ParallelDispatch demo_opts \<and> bk_cancelled demo_broker)" by (simp_all add: demo_opts_def numWorkers_def)
  then show ?thesis using broker_in_order[OF demo_reach, of 0] demo_quiet by (simp add: demo_run)
qed

end
