(* ===== verification/BrokerStop.thy ===== *)
theory BrokerStop
  imports BrokerProps
begin

text \<open>A broker that has been stopped: its goroutines can all end, and its clients get an answer.\<close>

subsection \<open>Stopping\<close>

text \<open>Every channel that was there throughout was there at some time, and the wait group counts the goroutines.\<close>

definition live_workers :: "nat \<Rightarrow> 'a broker \<Rightarrow> nat" where "live_workers n s = card {w. w < n \<and> bk_workers s w \<noteq> WDone}"

definition go_ok :: "nat \<Rightarrow> 'a broker \<Rightarrow> bool" where
  "go_ok n s \<longleftrightarrow>
     (\<forall>w m a b c. bk_workers s w = WIter m a b c \<longrightarrow> set b \<subseteq> set c) \<and> (\<forall>w. n \<le> w \<longrightarrow> bk_workers s w = WDone)
   \<and> bk_wg s = (if bk_loop s = LDone then 0 else 1) + int (live_workers n s)"

definition go_part :: "'a broker \<Rightarrow> (nat \<Rightarrow> 'a worker) \<times> int" where "go_part s = (bk_workers s, bk_wg s)"

lemma go_cong: "bk_workers s1 = bk_workers s \<Longrightarrow> bk_wg s1 = bk_wg s \<Longrightarrow> (bk_loop s1 = LDone \<longleftrightarrow> bk_loop s = LDone) \<Longrightarrow> go_ok n s1 = go_ok n s"
  by (simp add: go_ok_def live_workers_def)

lemma live_iter: "(iter_add ch w = WDone) = (w = WDone)" "(iter_delete ch w = WDone) = (w = WDone)"
  by (cases w; simp)+

lemma go_map:
  assumes "go_ok n s" "bk_workers s1 = h \<circ> bk_workers s" "bk_wg s1 = bk_wg s" "bk_loop s1 = LDone \<longleftrightarrow> bk_loop s = LDone"
    "\<And>w. (h w = WDone) = (w = WDone)" "\<And>w m a b c. h w = WIter m a b c \<Longrightarrow> \<exists>b0 c0. w = WIter m a b0 c0 \<and> (set b0 \<subseteq> set c0 \<longrightarrow> set b \<subseteq> set c)"
  shows "go_ok n s1"
proof -
  have "live_workers n s1 = live_workers n s" using assms(2,5) by (simp add: live_workers_def)
  moreover have "set b \<subseteq> set c" if "bk_workers s1 w = WIter m a b c" for w m a b c
  proof -
    have h: "h (bk_workers s w) = WIter m a b c" using that assms(2) by simp
    obtain b0 c0 where "bk_workers s w = WIter m a b0 c0" "set b0 \<subseteq> set c0 \<longrightarrow> set b \<subseteq> set c" using assms(6)[OF h] by blast
    moreover have "set b0 \<subseteq> set c0" if "bk_workers s w = WIter m a b0 c0" for b0 c0 using assms(1) that unfolding go_ok_def by blast
    ultimately show ?thesis by blast
  qed
  ultimately show ?thesis using assms by (simp add: go_ok_def)
qed

lemma go_set:
  assumes "go_ok n s" "bk_workers s w \<noteq> WDone" "x \<noteq> WDone" "\<And>m a b c. x = WIter m a b c \<Longrightarrow> set b \<subseteq> set c"
    "bk_workers s1 = (bk_workers s)(w := x)" "bk_wg s1 = bk_wg s" "bk_loop s1 = LDone \<longleftrightarrow> bk_loop s = LDone"
  shows "go_ok n s1"
proof -
  have "w < n" using assms(1,2) by (meson go_ok_def not_le)
  then have "{v. v < n \<and> bk_workers s1 v \<noteq> WDone} = {v. v < n \<and> bk_workers s v \<noteq> WDone}" using assms(2,3,5) by auto
  then show ?thesis using assms \<open>w < n\<close> by (auto simp: go_ok_def live_workers_def)
qed

lemma go_quit:
  assumes "go_ok n s" "bk_workers s w \<noteq> WDone" "bk_workers s1 = (bk_workers s)(w := WDone)" "bk_wg s1 = bk_wg s - 1" "bk_loop s1 = bk_loop s"
  shows "go_ok n s1"
proof -
  have w: "w < n" using assms(1,2) by (meson go_ok_def not_le)
  have e: "{v. v < n \<and> bk_workers s v \<noteq> WDone} = insert w {v. v < n \<and> bk_workers s1 v \<noteq> WDone}" using assms(2,3) w by auto
  have "w \<notin> {v. v < n \<and> bk_workers s1 v \<noteq> WDone}" "finite {v. v < n \<and> bk_workers s1 v \<noteq> WDone}" using assms(3) by auto
  then have "live_workers n s = Suc (live_workers n s1)" unfolding live_workers_def e by (rule card_insert_disjoint[rotated])
  then show ?thesis using assms by (auto simp: go_ok_def)
qed

lemma worker_go: "worker_step w mv s = Some s1 \<Longrightarrow> go_ok n s \<Longrightarrow> go_ok n s1"
proof -
  assume a: "worker_step w mv s = Some s1" "go_ok n s"
  have nd: "bk_workers s w \<noteq> WDone" using a(1) by (auto simp: worker_step_def)
  consider "bk_workers s1 = (bk_workers s)(w := WDone)" "bk_wg s1 = bk_wg s - 1" "bk_loop s1 = bk_loop s"
    | x where "x \<noteq> WDone" "\<And>m a b c. x = WIter m a b c \<Longrightarrow> set b \<subseteq> set c" "bk_workers s1 = (bk_workers s)(w := x)" "bk_wg s1 = bk_wg s" "bk_loop s1 = bk_loop s"
  proof (cases "bk_workers s w")
    case (WIter m v al so)
    have so: "set al \<subseteq> set so" using a(2) WIter unfolding go_ok_def by blast
    have st: "dispatchMessage w mv s = Some s1" using a(1) WIter by (simp add: worker_step_def)
    show thesis
    proof (cases mv)
      case (Visit ch)
      show thesis by (rule that(2)[of "WIter m (ch # v) al so"]) (use st WIter Visit so in \<open>auto simp: dispatchMessage_def set_worker_def split: if_splits\<close>)
    next
      case Finish
      let ?x = "if ParallelDispatch (bk_opts s) then WGroup m else WSource"
      show thesis by (rule that(2)[of ?x]) (use st WIter Finish in \<open>auto simp: dispatchMessage_def set_worker_def split: if_splits\<close>)
    qed (use st WIter in \<open>auto simp: dispatchMessage_def split: if_splits\<close>)
  next
    case (WGroup m)
    then show thesis using that(2)[of WSource] a(1) by (auto simp: worker_step_def dispatchMessage_def set_worker_def split: if_splits)
  next
    case WSource
    show thesis
    proof (cases mv)
      case Take
      then obtain m rest where "s1 = set_worker w (start_dispatch m s) (s\<lparr>bk_buf := rest\<rparr>)" using a(1) WSource by (auto simp: worker_step_def split: list.splits if_splits)
      then show thesis by (intro that(2)[of "start_dispatch m s"]) (simp_all add: set_worker_def start_dispatch_def)
    qed (use a(1) WSource that(1) in \<open>auto simp: worker_step_def set_worker_def split: if_splits\<close>)
  qed (use nd in simp)
  then show ?thesis using go_quit[OF a(2) nd] go_set[OF a(2) nd] by (cases; simp)
qed

lemma loop_go: "loop_step stop s = Some s1 \<Longrightarrow> go_ok n s \<Longrightarrow> go_ok n s1"
proof -
  assume a: "loop_step stop s = Some s1" "go_ok n s"
  consider "bk_workers s1 = bk_workers s" "bk_wg s1 = bk_wg s" "bk_loop s1 \<noteq> LDone" "bk_loop s \<noteq> LDone"
    | ch where "bk_workers s1 = iter_add ch \<circ> bk_workers s" "bk_wg s1 = bk_wg s" "bk_loop s1 \<noteq> LDone" "bk_loop s \<noteq> LDone"
    | ch where "bk_workers s1 = iter_delete ch \<circ> bk_workers s" "bk_wg s1 = bk_wg s" "bk_loop s1 \<noteq> LDone" "bk_loop s \<noteq> LDone"
    | "bk_workers s1 = bk_workers s" "bk_wg s1 = bk_wg s - 1" "bk_loop s1 = LDone" "bk_loop s \<noteq> LDone"
    using a(1) by (auto simp: loop_step_def subs_Store_def subs_Delete_def split: loop_pc.splits ctl_request.splits if_splits list.splits)
  then show ?thesis
  proof cases
    case 1
    then show ?thesis using go_cong[of s1 s n] a(2) by simp
  next
    case 2
    show ?thesis by (rule go_map[OF a(2) 2(1,2)]) (use 2 in \<open>auto simp: live_iter iter_WIter\<close>)
  next
    case 3
    show ?thesis by (rule go_map[OF a(2) 3(1,2)]) (use 3 in \<open>auto simp: live_iter iter_WIter\<close>)
  next
    case 4
    then show ?thesis using a(2) by (simp add: go_ok_def live_workers_def)
  qed
qed


lemma offer_go: "offer r s = Some s1 \<Longrightarrow> go_ok n s1 = go_ok n s"
  by (rule go_cong) (auto simp: offer_def split: if_splits)

lemma go_fields [simp]:
  "go_ok n (client_at c pc s) = go_ok n s" "go_ok n (s\<lparr>bk_next := i\<rparr>) = go_ok n s" "go_ok n (s\<lparr>bk_since := x\<rparr>) = go_ok n s" "go_ok n (s\<lparr>bk_left := l\<rparr>) = go_ok n s"
  "go_ok n (s\<lparr>bk_count := k\<rparr>) = go_ok n s" "go_ok n (s\<lparr>bk_cancelled := b\<rparr>) = go_ok n s" "go_ok n (s\<lparr>bk_ctx := y\<rparr>) = go_ok n s"
  "go_ok n (s\<lparr>bk_closed := b\<rparr>) = go_ok n s" "go_ok n (s\<lparr>bk_draining := b\<rparr>) = go_ok n s" "go_ok n (s\<lparr>bk_room := r\<rparr>) = go_ok n s" "go_ok n (s\<lparr>bk_taken := t\<rparr>) = go_ok n s"
  by (rule go_cong; simp add: client_at_def)+

lemma sink_go: "broker_sink v w s = Some s1 \<Longrightarrow> go_ok n s \<Longrightarrow> go_ok n s1"
proof -
  assume a: "broker_sink v w s = Some s1" "go_ok n s"
  show ?thesis
  proof (cases "bk_source s")
    case Handoff
    then have "bk_workers s w = WSource" "bk_workers s1 = (bk_workers s)(w := start_dispatch (Msg (length (bk_accepted s)) v) s)" "bk_wg s1 = bk_wg s" "bk_loop s1 = bk_loop s"
      using a(1) by (auto simp: broker_sink_def set_worker_def start_dispatch_def Let_def split: if_splits)
    then show ?thesis by (intro go_set[OF a(2)]) (auto simp: start_dispatch_def)
  qed (use a go_cong[of s1 s n] in \<open>auto simp: broker_sink_def Let_def split: if_splits\<close>)
qed

lemma client_go: "client_step c cc s = Some s1 \<Longrightarrow> go_ok n s \<Longrightarrow> go_ok n s1"
  by (cases "bk_clients s c")
    (auto simp: client_step_def Send_step_def Subscribe_step_def Unsubscribe_step_def Stats_step_def Let_def offer_go sink_go split: client_case.splits if_splits)

lemma send_go: "sendMsg x c s = Some s1 \<Longrightarrow> go_ok n s1 = go_ok n s"
  by (rule go_cong) (auto simp: sendMsg_def Let_def split: prod.splits send_case.splits if_splits)

lemma do_go: "broker_do a s = Some s1 \<Longrightarrow> go_ok n s \<Longrightarrow> go_ok n s1"
  by (cases a) (auto simp: begin_call_def broker_Stop_def loop_go client_go worker_go send_go split: if_splits client.splits)

lemma start_go: "go_ok (numWorkers opts) (startQueueWorkers src room opts)"
proof -
  have "{w. w < numWorkers opts \<and> bk_workers (startQueueWorkers src room opts) w \<noteq> WDone} = {..<numWorkers opts}" by (auto simp: startQueueWorkers_def)
  then show ?thesis by (auto simp: go_ok_def live_workers_def startQueueWorkers_def split: if_splits)
qed

lemma reach_go: "broker_reach (startQueueWorkers src room opts) s \<Longrightarrow> go_ok (numWorkers opts) s"
  by (induction rule: broker_reach.induct) (auto intro: start_go do_go)

subsection \<open>The way to the end\<close>

fun rank :: "'a worker \<Rightarrow> nat" where
  "rank WDone = 0" | "rank WSource = 1" | "rank (WGroup _) = 2" | "rank (WIter _ visited throughout _) = 3 + 4 * card (set throughout - set visited)"

fun loop_rank :: "loop_pc \<Rightarrow> nat" where
  "loop_rank LDone = 0" | "loop_rank LSelect = 1" | "loop_rank (LAck _) = 2" | "loop_rank (LClose _) = 2" | "loop_rank (LReq _) = 3"

definition to_go :: "nat \<Rightarrow> 'a broker \<Rightarrow> nat" where
  "to_go n s = 2 * length (bk_sends s) + (\<Sum>w<n. rank (bk_workers s w)) + loop_rank (bk_loop s)"

lemma rank_upd: "w < (n :: nat) \<Longrightarrow> (\<Sum>v<n. rank ((f(w := x)) v)) + rank (f w) = (\<Sum>v<n. rank (f v)) + rank x"
proof -
  assume w: "w < n"
  have "(\<Sum>v<n. rank ((f(w := x)) v)) = rank x + (\<Sum>v\<in>{..<n} - {w}. rank (f v))"
    using w by (subst sum.remove[of _ w]) (auto intro: sum.cong)
  moreover have "(\<Sum>v<n. rank (f v)) = rank (f w) + (\<Sum>v\<in>{..<n} - {w}. rank (f v))" using w by (subst sum.remove[of _ w]) auto
  ultimately show ?thesis by simp
qed

lemma rank_iter: "rank (iter_add ch w) = rank w" "rank (iter_delete ch w) \<le> rank w"
proof -
  show "rank (iter_add ch w) = rank w" by (cases w) simp_all
  show "rank (iter_delete ch w) \<le> rank w"
  proof (cases w)
    case (WIter m a b c)
    have "card (set b - {ch} - set a) \<le> card (set b - set a)" by (rule card_mono) auto
    then show ?thesis using WIter by simp
  qed simp_all
qed

text \<open>The steps of the goroutines of a broker itself.\<close>

fun own :: "'a broker_act \<Rightarrow> bool" where
  "own (ALoop _) = True" | "own (AWorker _ _) = True" | "own (ASend _ _) = True" | "own _ = False"

definition ended :: "nat \<Rightarrow> 'a broker \<Rightarrow> bool" where
  "ended n s \<longleftrightarrow> bk_sends s = [] \<and> (\<forall>w<n. bk_workers s w = WDone) \<and> bk_loop s = LDone"

lemma set_less:
  assumes "w < n" "rank x < rank (bk_workers s w)" "bk_workers s1 = (bk_workers s)(w := x)" "bk_sends s1 = bk_sends s" "bk_loop s1 = bk_loop s"
  shows "to_go n s1 < to_go n s"
  using rank_upd[OF assms(1), of "bk_workers s" x] assms(2-5) by (simp add: to_go_def)

lemma worker_progress:
  assumes "bk_sends s = []" "w < n" "bk_workers s w \<noteq> WDone" "bk_cancelled s" "go_ok n s"
  shows "\<exists>mv s1. worker_step w mv s = Some s1 \<and> to_go n s1 < to_go n s"
proof (cases "bk_workers s w")
  case WSource
  then have "worker_step w Quit s = Some (set_worker w WDone (s\<lparr>bk_wg := bk_wg s - 1\<rparr>))" using assms(4) by (simp add: worker_step_def)
  moreover have "to_go n (set_worker w WDone (s\<lparr>bk_wg := bk_wg s - 1\<rparr>)) < to_go n s"
    by (rule set_less[OF assms(2), of WDone]) (simp_all add: WSource set_worker_def)
  ultimately show ?thesis by blast
next
  case (WGroup m)
  then have "worker_step w Finish s = Some (set_worker w WSource s)" using assms(1) by (simp add: worker_step_def dispatchMessage_def sending_def)
  moreover have "to_go n (set_worker w WSource s) < to_go n s" by (rule set_less[OF assms(2), of WSource]) (simp_all add: WGroup set_worker_def)
  ultimately show ?thesis by blast
next
  case (WIter m v al so)
  show ?thesis
  proof (cases "set al \<subseteq> set v")
    case True
    let ?x = "if ParallelDispatch (bk_opts s) then WGroup m else WSource"
    have "worker_step w Finish s = Some (set_worker w ?x s)" using assms(1) WIter True by (simp add: worker_step_def dispatchMessage_def sending_def)
    moreover have "to_go n (set_worker w ?x s) < to_go n s" by (rule set_less[OF assms(2), of ?x]) (simp_all add: WIter set_worker_def)
    ultimately show ?thesis by blast
  next
    case False
    then obtain ch where ch: "ch \<in> set al" "ch \<notin> set v" by blast
    have so: "ch \<in> set so" using assms(5) WIter ch(1) unfolding go_ok_def by blast
    let ?x = "WIter m (ch # v) al so" and ?s1 = "set_worker w (WIter m (ch # v) al so) (s\<lparr>bk_sends := bk_sends s @ [(w, m, ch)]\<rparr>)"
    have st: "worker_step w (Visit ch) s = Some ?s1" using assms(1) WIter ch so by (simp add: worker_step_def dispatchMessage_def sending_def)
    have "set al - set v = insert ch (set al - set (ch # v))" "ch \<notin> set al - set (ch # v)" using ch by auto
    then have "card (set al - set v) = Suc (card (set al - set (ch # v)))" by (metis card_insert_disjoint finite_Diff finite_set)
    then have "rank (bk_workers s w) = rank ?x + 4" using WIter by simp
    then have "to_go n ?s1 < to_go n s" using rank_upd[OF assms(2), of "bk_workers s" ?x] assms(1) by (simp add: to_go_def set_worker_def)
    then show ?thesis using st by blast
  qed
qed (use assms(3) in simp)

lemma loop_progress:
  assumes "bk_cancelled s" "bk_loop s \<noteq> LDone"
  shows "\<exists>stop s1. loop_step stop s = Some s1 \<and> to_go n s1 < to_go n s"
proof -
  have del: "(\<Sum>w<n. rank ((iter_delete ch \<circ> bk_workers s) w)) \<le> (\<Sum>w<n. rank (bk_workers s w))" for ch by (rule sum_mono) (simp add: rank_iter)
  have step: "\<exists>s1. loop_step True s = Some s1 \<and> to_go n s1 < to_go n s"
  proof (cases "bk_loop s")
    case (LReq r)
    show ?thesis
    proof (cases r)
      case (ReqUnsub ch)
      then show ?thesis using LReq del[of ch] by (simp add: loop_step_def to_go_def subs_Delete_def)
    qed (use LReq in \<open>simp_all add: loop_step_def to_go_def subs_Store_def rank_iter\<close>)
  qed (use assms in \<open>simp_all add: loop_step_def to_go_def\<close>)
  then show ?thesis by blast
qed

lemma send_progress: "bk_cancelled s \<Longrightarrow> bk_sends s \<noteq> [] \<Longrightarrow> \<exists>x s1. sendMsg x ByBroker s = Some s1 \<and> to_go n s1 < to_go n s"
  by (rule exI[of _ "hd (bk_sends s)"]) (cases "bk_sends s"; auto simp: sendMsg_def to_go_def Let_def split: prod.splits)

lemma broker_progress:
  assumes "bk_cancelled s" "go_ok n s" "\<not> ended n s"
  shows "\<exists>a s1. own a \<and> broker_do a s = Some s1 \<and> to_go n s1 < to_go n s"
proof -
  consider "bk_sends s \<noteq> []" | w where "bk_sends s = []" "w < n" "bk_workers s w \<noteq> WDone" | "bk_loop s \<noteq> LDone" using assms(3) by (auto simp: ended_def)
  then show ?thesis
  proof cases
    case 1
    obtain x s1 where "sendMsg x ByBroker s = Some s1" "to_go n s1 < to_go n s" using send_progress[OF assms(1) 1] by blast
    then show ?thesis by (intro exI[of _ "ASend x ByBroker"]) simp
  next
    case 2
    obtain mv s1 where "worker_step w mv s = Some s1" "to_go n s1 < to_go n s" using worker_progress[OF 2 assms(1,2)] by blast
    then show ?thesis by (intro exI[of _ "AWorker w mv"]) simp
  next
    case 3
    obtain st s1 where "loop_step st s = Some s1" "to_go n s1 < to_go n s" using loop_progress[OF assms(1) 3] by blast
    then show ?thesis by (intro exI[of _ "ALoop st"]) simp
  qed
qed

lemma runs_out:
  "bk_cancelled s \<Longrightarrow> go_ok n s \<Longrightarrow> \<exists>as s1. list_all own as \<and> length as \<le> to_go n s \<and> broker_run as s = Some s1 \<and> ended n s1 \<and> go_ok n s1"
proof (induction "to_go n s" arbitrary: s rule: less_induct)
  case less
  show ?case
  proof (cases "ended n s")
    case True
    then show ?thesis using less.prems by (intro exI[of _ "[]"]) simp
  next
    case False
    then obtain a s1 where a: "own a" "broker_do a s = Some s1" "to_go n s1 < to_go n s" using broker_progress less.prems by blast
    have "bk_cancelled s1" using do_later[OF a(2)] less.prems(1) by (simp add: later_def)
    from less.hyps[OF a(3) this do_go[OF a(2) less.prems(2)]] obtain as s2 where
      "list_all own as" "length as \<le> to_go n s1" "broker_run as s1 = Some s2" "ended n s2" "go_ok n s2" by blast
    then show ?thesis using a by (intro exI[of _ "a # as"] exI[of _ s2]) simp
  qed
qed

text \<open>A client in the middle of a call.\<close>

definition in_call :: "'a client \<Rightarrow> bool" where "in_call pc \<longleftrightarrow> pc \<noteq> CIdle \<and> (\<forall>r. pc \<noteq> CRet r)"

lemma client_progress:
  assumes "bk_cancelled s" "in_call (bk_clients s c)" "bk_source s = Handoff \<longrightarrow> \<not> NonBlockingPush (bk_opts s)"
  shows "\<exists>cc s1. client_step c cc s = Some s1"
proof (cases "bk_clients s c")
  case (CSend3 v)
  show ?thesis
  proof (cases "NonBlockingPush (bk_opts s)")
    case True
    consider "bk_closed s" | "bk_draining s" | "\<not> bk_room s (length (bk_buf s))" | "\<not> bk_closed s" "\<not> bk_draining s" "bk_room s (length (bk_buf s))" by blast
    then show ?thesis
    proof cases
      case 1
      then show ?thesis using CSend3 by (intro exI[of _ BySource]) (simp add: client_step_def Send_step_def)
    next
      case 2
      then show ?thesis using CSend3 by (intro exI[of _ ByDrain]) (simp add: client_step_def Send_step_def)
    next
      case 3
      then show ?thesis using CSend3 True by (intro exI[of _ ByFull]) (simp add: client_step_def Send_step_def)
    next
      case 4
      then show ?thesis using CSend3 True assms(3) by (intro exI[of _ "Go 0"]) (cases "bk_source s"; simp add: client_step_def Send_step_def broker_sink_def Let_def)
    qed
  next
    case False
    then show ?thesis using CSend3 assms(1) by (intro exI[of _ ByClose]) (simp add: client_step_def Send_step_def)
  qed
qed (rule exI[of _ ByClose]; use assms(1,2) in \<open>simp add: in_call_def client_step_def Subscribe_step_def Unsubscribe_step_def Send_step_def Stats_step_def\<close>)+

lemma reach_kept: "broker_reach (startQueueWorkers src room opts) s \<Longrightarrow> bk_source s = src \<and> bk_opts s = opts"
proof (induction rule: broker_reach.induct)
  case breach_start
  show ?case by (simp add: startQueueWorkers_def)
next
  case (breach_step s a s1)
  then show ?case using do_kept[OF breach_step(2)] by (simp add: kept_def)
qed

text \<open>
  C5: A broker that has been stopped comes to its end: from whatever state, by steps of its own goroutines only and without
  any receiver, no more of them than to_go counts, until the control loop and all workers have returned, no send is
  in progress, and the wait group that Wait looks at is zero.  Meanwhile no client is blocked in a call.
\<close>

theorem Stop_ends:
  assumes "broker_reach (startQueueWorkers src room opts) s" "bk_cancelled s" "src = Handoff \<longrightarrow> \<not> NonBlockingPush opts"
  shows "(\<exists>as s1. list_all own as \<and> length as \<le> to_go (numWorkers opts) s \<and> broker_run as s = Some s1
      \<and> bk_loop s1 = LDone \<and> (\<forall>w. bk_workers s1 w = WDone) \<and> bk_sends s1 = [] \<and> bk_wg s1 = 0)
    \<and> (\<forall>c. in_call (bk_clients s c) \<longrightarrow> (\<exists>cc s1. client_step c cc s = Some s1))"
proof -
  obtain as s1 where r: "list_all own as" "length as \<le> to_go (numWorkers opts) s" "broker_run as s = Some s1" "ended (numWorkers opts) s1" "go_ok (numWorkers opts) s1"
    using runs_out[OF assms(2) reach_go[OF assms(1)]] by blast
  have w: "bk_workers s1 w = WDone" for w using r(4,5) by (cases "w < numWorkers opts") (simp_all add: ended_def go_ok_def)
  then have "bk_wg s1 = 0" using r(4,5) by (simp add: ended_def go_ok_def live_workers_def)
  then show ?thesis using r w client_progress[OF assms(2)] reach_kept[OF assms(1)] assms(3) by (auto simp: ended_def)
qed


lemma Stop_ends_witness: "\<exists>as s1. list_all own as \<and> broker_run as (broker_Stop demo_broker) = Some s1 \<and> bk_wg s1 = 0"
proof -
  have "broker_reach (startQueueWorkers Fifo (\<lambda>n. n < 4) demo_opts) (broker_Stop demo_broker)" by (rule breach_step[OF demo_reach, of AStop]) simp
  moreover have "bk_cancelled (broker_Stop demo_broker)" by (simp add: broker_Stop_def)
  ultimately show ?thesis using Stop_ends[of Fifo "\<lambda>n. n < 4" demo_opts "broker_Stop demo_broker"] by auto
qed

end
