(* ===== verification/BrokerLeak.thy ===== *)
theory BrokerLeak
  imports BrokerProps
begin

text \<open>A Subscribe that gives up does not leave its subscription behind.\<close>

definition requests :: "'a broker \<Rightarrow> ctl_request list" where "requests s = (case bk_loop s of LReq r \<Rightarrow> [r] | _ \<Rightarrow> []) @ bk_ctl s"

text \<open>A removal is under way, and no subscription of the channel is queued behind it.\<close>

fun removal :: "nat \<Rightarrow> ctl_request list \<Rightarrow> bool" where
  "removal ch [] = False"
| "removal ch (r # rs) = (r = ReqUnsub ch \<and> ReqSub ch \<notin> set rs \<or> removal ch rs)"

lemma removal_snoc: "removal ch rs \<Longrightarrow> r \<noteq> ReqSub ch \<Longrightarrow> removal ch (rs @ [r])" "removal ch (rs @ [ReqUnsub ch])"
  by (induction rs) auto

lemma removal_in: "removal ch rs \<Longrightarrow> ReqUnsub ch \<in> set rs"
  by (induction rs) auto

definition waits_for :: "nat \<Rightarrow> 'a broker \<Rightarrow> bool" where "waits_for ch s \<longleftrightarrow> (\<exists>c. bk_clients s c = CSub3 ch \<or> bk_clients s c = CAbort ch)"

definition owned :: "'a broker \<Rightarrow> bool" where
  "owned s \<longleftrightarrow> (BufferSize (bk_opts s) = 0 \<longrightarrow> bk_ctl s = [])
     \<and> (\<forall>ch. ch \<in> set (bk_subs s) \<or> ReqSub ch \<in> set (requests s) \<longrightarrow> bk_since s ch = None \<longrightarrow> \<not> bk_cancelled s \<longrightarrow> waits_for ch s \<or> removal ch (requests s))"

lemma offer_requests:
  "offer r s = Some s1 \<Longrightarrow> BufferSize (bk_opts s) = 0 \<longrightarrow> bk_ctl s = [] \<Longrightarrow>
   requests s1 = requests s @ [r] \<and> bk_subs s1 = bk_subs s \<and> bk_since s1 = bk_since s \<and> bk_cancelled s1 = bk_cancelled s \<and> bk_clients s1 = bk_clients s
   \<and> bk_opts s1 = bk_opts s \<and> (BufferSize (bk_opts s1) = 0 \<longrightarrow> bk_ctl s1 = [])"
  by (auto simp: offer_def requests_def split: if_splits loop_pc.splits)

text \<open>What a client does to its own place and to the requests.\<close>

lemma owned_client:
  assumes "owned s" "requests s1 = requests s @ rs" "rs = [] \<or> rs = [r]" "bk_subs s1 = bk_subs s" "bk_clients s1 = (bk_clients s)(c := pc)"
    "BufferSize (bk_opts s1) = 0 \<longrightarrow> bk_ctl s1 = []" "\<And>ch. bk_since s ch \<noteq> None \<Longrightarrow> bk_since s1 ch \<noteq> None" "bk_cancelled s \<longrightarrow> bk_cancelled s1"
    "\<And>ch. rs = [ReqSub ch] \<Longrightarrow> pc = CSub3 ch"
    "\<And>ch. bk_clients s c = CSub3 ch \<or> bk_clients s c = CAbort ch \<Longrightarrow> pc = CAbort ch \<or> bk_cancelled s1 \<or> bk_since s1 ch \<noteq> None \<or> rs = [ReqUnsub ch]"
  shows "owned s1"
  unfolding owned_def
proof (intro conjI allI impI)
  fix ch assume p: "ch \<in> set (bk_subs s1) \<or> ReqSub ch \<in> set (requests s1)" and n: "bk_since s1 ch = None" "\<not> bk_cancelled s1"
  have at: "waits_for ch s1" if "pc = CSub3 ch \<or> pc = CAbort ch" using that assms(5) unfolding waits_for_def by (intro exI[of _ c]) auto
  show "waits_for ch s1 \<or> removal ch (requests s1)"
  proof (cases "rs = [ReqSub ch]")
    case True
    then show ?thesis using assms(9) at by blast
  next
    case False
    then have "ch \<in> set (bk_subs s) \<or> ReqSub ch \<in> set (requests s)" using p assms(2-4) by auto
    moreover have "bk_since s ch = None" "\<not> bk_cancelled s" using n assms(7)[of ch] assms(8) by (cases "bk_since s ch"; auto)+
    ultimately consider "waits_for ch s" | "removal ch (requests s)" using assms(1) unfolding owned_def by blast
    then show ?thesis
    proof cases
      case 1
      then obtain d where d: "bk_clients s d = CSub3 ch \<or> bk_clients s d = CAbort ch" unfolding waits_for_def by blast
      show ?thesis
      proof (cases "d = c")
        case True
        then have "pc = CAbort ch \<or> rs = [ReqUnsub ch]" using assms(10)[of ch] d n by auto
        then show ?thesis using at assms(2) removal_snoc(2) by auto
      next
        case False
        then have "bk_clients s1 d = bk_clients s d" using assms(5) by simp
        then show ?thesis using d unfolding waits_for_def by metis
      qed
    next
      case 2
      then have "removal ch (requests s @ rs)" using assms(3) False removal_snoc(1)[OF 2, of r] by auto
      then show ?thesis using assms(2) by simp
    qed
  qed
qed (use assms(6) in simp)

lemma requests_fields [simp]:
  "requests (client_at c pc s) = requests s" "requests (s\<lparr>bk_since := x\<rparr>) = requests s" "requests (s\<lparr>bk_left := l\<rparr>) = requests s" "requests (s\<lparr>bk_count := k\<rparr>) = requests s"
  "requests (s\<lparr>bk_cancelled := b\<rparr>) = requests s" "requests (s\<lparr>bk_next := n\<rparr>) = requests s"
  "requests (s\<lparr>bk_clients := f\<rparr>) = requests s"
  by (simp_all add: requests_def client_at_def)

lemma sink_owned:
  "broker_sink v w s = Some s1 \<Longrightarrow> requests s1 = requests s \<and> bk_subs s1 = bk_subs s \<and> bk_clients s1 = bk_clients s \<and> bk_opts s1 = bk_opts s \<and> bk_ctl s1 = bk_ctl s
     \<and> bk_since s1 = bk_since s \<and> bk_cancelled s1 = bk_cancelled s"
  by (auto simp: broker_sink_def requests_def set_worker_def Let_def split: broker_source.splits if_splits)

lemma client_owned: "client_step c cc s = Some s1 \<Longrightarrow> owned s \<Longrightarrow> owned s1"
proof -
  assume a: "client_step c cc s = Some s1" "owned s"
  have ctl: "BufferSize (bk_opts s) = 0 \<longrightarrow> bk_ctl s = []" using a(2) by (simp add: owned_def)
  note off = offer_requests[OF _ ctl]
  have off2: "offer r (s\<lparr>bk_next := n\<rparr>) = Some s2 \<Longrightarrow> requests s2 = requests s @ [r] \<and> bk_subs s2 = bk_subs s \<and> bk_since s2 = bk_since s \<and> bk_cancelled s2 = bk_cancelled s \<and> bk_clients s2 = bk_clients s
     \<and> bk_opts s2 = bk_opts s \<and> (BufferSize (bk_opts s2) = 0 \<longrightarrow> bk_ctl s2 = [])" for r n s2
    using offer_requests[of r "s\<lparr>bk_next := n\<rparr>" s2] ctl by simp
  have plain: "owned (client_at c pc s2)"
    if "requests s2 = requests s" "bk_subs s2 = bk_subs s" "bk_clients s2 = bk_clients s" "bk_opts s2 = bk_opts s" "bk_ctl s2 = bk_ctl s" "\<And>ch. bk_since s ch \<noteq> None \<Longrightarrow> bk_since s2 ch \<noteq> None"
      "bk_cancelled s \<longrightarrow> bk_cancelled s2"
      "\<And>ch. bk_clients s c = CSub3 ch \<or> bk_clients s c = CAbort ch \<Longrightarrow> pc = CAbort ch \<or> bk_cancelled s2 \<or> bk_since s2 ch \<noteq> None" for pc s2
    by (rule owned_client[OF a(2), of _ "[]" undefined c pc]) (use that ctl in \<open>simp_all add: client_at_def\<close>)
  have asks: "owned (client_at c pc s2)"
    if "requests s2 = requests s @ [r]" "bk_subs s2 = bk_subs s" "bk_clients s2 = bk_clients s" "BufferSize (bk_opts s2) = 0 \<longrightarrow> bk_ctl s2 = []" "bk_since s2 = bk_since s" "bk_cancelled s2 = bk_cancelled s"
      "\<And>ch. r = ReqSub ch \<Longrightarrow> pc = CSub3 ch"
      "\<And>ch. bk_clients s c = CSub3 ch \<or> bk_clients s c = CAbort ch \<Longrightarrow> r = ReqUnsub ch" for pc s2 r
    by (rule owned_client[OF a(2), of _ "[r]" r c pc]) (use that in \<open>simp_all add: client_at_def\<close>)
  show ?thesis
  proof (cases "bk_clients s c")
    case (CSub2 ch)
    note pc = this
    show ?thesis
    proof (cases cc)
      case (Go w)
      then show ?thesis using a(1) pc by (auto simp: client_step_def Subscribe_step_def dest!: off intro!: asks)
    qed (use a(1) pc in \<open>auto simp: client_step_def Subscribe_step_def split: if_splits intro!: plain\<close>)
  next
    case (CSub3 ch)
    then show ?thesis using a(1) by (auto simp: client_step_def Subscribe_step_def split: client_case.splits if_splits intro!: plain)
  next
    case (CAbort ch)
    note pc = this
    show ?thesis
    proof (cases cc)
      case (Go w)
      then show ?thesis using a(1) pc by (auto simp: client_step_def Subscribe_step_def dest!: off intro!: asks)
    qed (use a(1) pc in \<open>auto simp: client_step_def Subscribe_step_def split: if_splits intro!: plain\<close>)
  next
    case (CUnsub1 ch)
    note pc = this
    show ?thesis
    proof (cases cc)
      case (Go w)
      then show ?thesis using a(1) pc by (auto simp: client_step_def Unsubscribe_step_def dest!: off intro!: asks)
    qed (use a(1) pc in \<open>auto simp: client_step_def Unsubscribe_step_def split: if_splits intro!: plain\<close>)
  next
    case CStats1
    note pc = this
    show ?thesis
    proof (cases cc)
      case (Go w)
      then show ?thesis using a(1) pc by (auto simp: client_step_def Stats_step_def Let_def dest!: off2 intro!: asks)
    qed (use a(1) pc in \<open>auto simp: client_step_def Stats_step_def Let_def split: if_splits intro!: plain\<close>)
  next
    case (CSend3 v)
    then show ?thesis using a(1) by (auto simp: client_step_def Send_step_def split: client_case.splits if_splits dest!: sink_owned intro!: plain)
  qed (use a(1) in \<open>auto simp: client_step_def Subscribe_step_def Unsubscribe_step_def Send_step_def Stats_step_def Let_def split: client_case.splits if_splits intro!: plain\<close>)
qed

lemma loop_owned: "loop_step stop s = Some s1 \<Longrightarrow> owned s \<Longrightarrow> owned s1"
  by (auto simp: loop_step_def owned_def requests_def waits_for_def subs_Store_def subs_Delete_def split: loop_pc.splits ctl_request.splits if_splits list.splits)

definition own_part :: "'a broker \<Rightarrow> broker_opts \<times> ctl_request list \<times> loop_pc \<times> nat list \<times> (nat \<Rightarrow> nat option) \<times> bool \<times> (nat \<Rightarrow> 'a client)" where
  "own_part s = (bk_opts s, bk_ctl s, bk_loop s, bk_subs s, bk_since s, bk_cancelled s, bk_clients s)"

lemma owned_cong: "own_part s1 = own_part s \<Longrightarrow> owned s1 = owned s"
  by (simp add: own_part_def owned_def requests_def waits_for_def)

lemma worker_own: "worker_step w mv s = Some s1 \<Longrightarrow> own_part s1 = own_part s"
  by (auto simp: worker_step_def dispatchMessage_def set_worker_def own_part_def split: worker.splits move.splits if_splits list.splits)

lemma send_own: "sendMsg x c s = Some s1 \<Longrightarrow> own_part s1 = own_part s"
  by (auto simp: sendMsg_def own_part_def Let_def split: prod.splits send_case.splits if_splits)

lemma own_fields [simp]:
  "own_part (s\<lparr>bk_ctx := x\<rparr>) = own_part s" "own_part (s\<lparr>bk_closed := b\<rparr>) = own_part s" "own_part (s\<lparr>bk_draining := b\<rparr>) = own_part s" "own_part (s\<lparr>bk_room := r\<rparr>) = own_part s"
  "own_part (s\<lparr>bk_taken := t\<rparr>) = own_part s"
  by (simp_all add: own_part_def)

lemma begin_owned: "begin_call c pc s = Some s1 \<Longrightarrow> owned s \<Longrightarrow> owned s1"
  by (rule owned_client[of s s1 "[]" undefined c pc])
    (auto simp: begin_call_def client_at_def owned_def requests_def split: client.splits if_splits)

lemma do_owned: "broker_do a s = Some s1 \<Longrightarrow> owned s \<Longrightarrow> owned s1"
proof (cases a)
  case AStop
  then show "broker_do a s = Some s1 \<Longrightarrow> owned s \<Longrightarrow> owned s1" by (auto simp: broker_Stop_def owned_def requests_def)
qed (auto dest: loop_owned client_owned begin_owned worker_own[THEN owned_cong] send_own[THEN owned_cong] simp: owned_cong[OF own_fields(1)] owned_cong[OF own_fields(2)]
       owned_cong[OF own_fields(3)] owned_cong[OF own_fields(4)] owned_cong[OF own_fields(5)] split: if_splits)

text \<open>
  C6: Whoever's context ends while Subscribe waits, the subscription does not stay behind: a channel that the broker sends to
  has been handed to a caller, or its Subscribe has not returned yet, or its removal is queued, unless the broker
  has stopped.
\<close>

theorem Subscribe_no_leak:
  assumes "broker_reach (startQueueWorkers src room opts) s" "ch \<in> set (bk_subs s)" "\<not> bk_cancelled s"
  shows "bk_since s ch \<noteq> None \<or> (\<exists>c. bk_clients s c = CSub3 ch \<or> bk_clients s c = CAbort ch) \<or> bk_loop s = LReq (ReqUnsub ch) \<or> ReqUnsub ch \<in> set (bk_ctl s)"
proof -
  have "owned s" using assms(1)
  proof (induction rule: broker_reach.induct)
    case breach_start
    show ?case by (simp add: owned_def startQueueWorkers_def requests_def)
  next
    case (breach_step s a s1)
    then show ?case using do_owned by blast
  qed
  then show ?thesis using assms(2,3) removal_in[of ch "requests s"]
    by (auto simp: owned_def waits_for_def requests_def split: loop_pc.splits)
qed


lemma Subscribe_no_leak_witness: "bk_since demo_broker 0 \<noteq> None"
  using Subscribe_no_leak[OF demo_reach, of 0] by (simp add: demo_run)

end
