(* ===== verification/FnxSync.thy ===== *)
theory FnxSync
  imports Main
begin

text \<open>
  The wait group of \<open>src/fnx/sync.go\<close>: a counter under a mutex, a condition variable, and for each call of
  \<open>Wait\<close> a goroutine that broadcasts when the context ends.  The calls of \<open>Add\<close> hold the mutex from their start to
  their end and do not block in between, so they are one step.  The wait of a condition variable joins the list of those to
  wake before it gives the mutex back.
\<close>

subsection \<open>State\<close>

text \<open>
  A call of \<open>Wait\<close>: not begun; at the select; past it, before joining the list; asleep; woken; and returned.
\<close>

datatype wait_pc = WtIdle | WtSelect | WtPark | WtAsleep | WtWoken | WtReturned
datatype waker_pc = KNone | KListening | KDone

record wait_group =
  wg_counter :: int
  wg_mu :: "nat option"
  wg_pc :: "nat \<Rightarrow> wait_pc"
  wg_waker :: "nat \<Rightarrow> waker_pc"
  wg_ctx :: "nat \<Rightarrow> bool"

definition new_wait_group :: wait_group where
  "new_wait_group = \<lparr>wg_counter = 0, wg_mu = None, wg_pc = (\<lambda>_. WtIdle), wg_waker = (\<lambda>_. KNone), wg_ctx = (\<lambda>_. False)\<rparr>"

definition wg_Broadcast :: "wait_group \<Rightarrow> wait_group" where
  "wg_Broadcast s = s\<lparr>wg_pc := (\<lambda>i. if wg_pc s i = WtAsleep then WtWoken else wg_pc s i)\<rparr>"

subsection \<open>Operations\<close>

text \<open>A counter below zero is a panic, after which the counter is as it was.\<close>

datatype wg_result = WgOk wait_group | WgPanic

definition WaitGroup_Add :: "int \<Rightarrow> wait_group \<Rightarrow> wg_result" where
  "WaitGroup_Add num s =
     (if wg_counter s + num < 0 then WgPanic
      else let s1 = s\<lparr>wg_counter := wg_counter s + num\<rparr> in WgOk (if wg_counter s1 = 0 then wg_Broadcast s1 else s1))"

definition WaitGroup_Done :: "wait_group \<Rightarrow> wg_result" where "WaitGroup_Done = WaitGroup_Add (- 1)"
definition WaitGroup_Inc :: "wait_group \<Rightarrow> wg_result" where "WaitGroup_Inc = WaitGroup_Add 1"
definition WaitGroup_Num :: "wait_group \<Rightarrow> int" where "WaitGroup_Num s = wg_counter s"
definition WaitGroup_IsDone :: "wait_group \<Rightarrow> bool" where "WaitGroup_IsDone s \<longleftrightarrow> wg_counter s = 0"

text \<open>Returning gives the mutex back and cancels the context of the goroutine that broadcasts.\<close>

definition wg_return :: "nat \<Rightarrow> wait_group \<Rightarrow> wait_group" where "wg_return i s = s\<lparr>wg_mu := None, wg_pc := (wg_pc s)(i := WtReturned)\<rparr>"

definition WaitGroup_Wait :: "nat \<Rightarrow> wait_group \<Rightarrow> wait_group option" where
  "WaitGroup_Wait i s =
     (case wg_pc s i of
        WtIdle \<Rightarrow>
          if wg_mu s \<noteq> None then None
          else if wg_counter s = 0 \<or> wg_ctx s i then Some (wg_return i s)
          else Some (s\<lparr>wg_mu := Some i, wg_waker := (wg_waker s)(i := KListening), wg_pc := (wg_pc s)(i := WtSelect)\<rparr>)
      | WtSelect \<Rightarrow> if wg_ctx s i then Some (wg_return i s) else Some (s\<lparr>wg_pc := (wg_pc s)(i := WtPark)\<rparr>)
      | WtPark \<Rightarrow> Some (s\<lparr>wg_mu := None, wg_pc := (wg_pc s)(i := WtAsleep)\<rparr>)
      | WtAsleep \<Rightarrow> None
      | WtWoken \<Rightarrow>
          if wg_mu s \<noteq> None then None
          else if wg_counter s = 0 then Some (wg_return i s)
          else Some (s\<lparr>wg_mu := Some i, wg_pc := (wg_pc s)(i := WtSelect)\<rparr>)
      | WtReturned \<Rightarrow> None)"

text \<open>The goroutine of a call: it waits for the context and broadcasts without the mutex.\<close>

definition wg_wake :: "nat \<Rightarrow> wait_group \<Rightarrow> wait_group option" where
  "wg_wake i s =
     (if wg_waker s i = KListening \<and> (wg_ctx s i \<or> wg_pc s i = WtReturned) then Some (wg_Broadcast (s\<lparr>wg_waker := (wg_waker s)(i := KDone)\<rparr>)) else None)"

datatype wg_act = WgAdd int | WgWait nat | WgWake nat | WgCancel nat

fun wg_do :: "wg_act \<Rightarrow> wait_group \<Rightarrow> wait_group option" where
  "wg_do (WgAdd n) s = (if wg_mu s \<noteq> None then None else case WaitGroup_Add n s of WgOk s1 \<Rightarrow> Some s1 | WgPanic \<Rightarrow> Some s)"
| "wg_do (WgWait i) s = WaitGroup_Wait i s"
| "wg_do (WgWake i) s = wg_wake i s"
| "wg_do (WgCancel i) s = Some (s\<lparr>wg_ctx := (wg_ctx s)(i := True)\<rparr>)"

fun wg_run :: "wg_act list \<Rightarrow> wait_group \<Rightarrow> wait_group option" where
  "wg_run [] s = Some s"
| "wg_run (a # as) s = (case wg_do a s of None \<Rightarrow> None | Some s1 \<Rightarrow> wg_run as s1)"

inductive wg_reach :: "wait_group \<Rightarrow> bool" where
  wg_new: "wg_reach new_wait_group"
| wg_next: "wg_reach s \<Longrightarrow> wg_do a s = Some s1 \<Longrightarrow> wg_reach s1"

subsection \<open>Nobody sleeps over a zero\<close>

text \<open>Who is at the select or about to sleep holds the mutex, and the counter is not zero; nor is it while someone sleeps.\<close>

definition wg_ok :: "wait_group \<Rightarrow> bool" where
  "wg_ok s \<longleftrightarrow>
     0 \<le> wg_counter s \<and> (\<forall>i. wg_pc s i = WtSelect \<or> wg_pc s i = WtPark \<longleftrightarrow> wg_mu s = Some i)
   \<and> (wg_counter s = 0 \<longrightarrow> (\<forall>i. wg_pc s i \<notin> {WtSelect, WtPark, WtAsleep}))"

lemma wg_okI:
  assumes "0 \<le> wg_counter s" "\<And>i. wg_pc s i = WtSelect \<or> wg_pc s i = WtPark \<longleftrightarrow> wg_mu s = Some i" "\<And>i. wg_counter s = 0 \<Longrightarrow> wg_pc s i \<notin> {WtSelect, WtPark, WtAsleep}"
  shows "wg_ok s"
  using assms unfolding wg_ok_def by blast

lemma Broadcast_ok:
  assumes "0 \<le> wg_counter s" "\<And>i. wg_pc s i = WtSelect \<or> wg_pc s i = WtPark \<longleftrightarrow> wg_mu s = Some i" "\<And>i. wg_counter s = 0 \<Longrightarrow> wg_pc s i \<noteq> WtSelect \<and> wg_pc s i \<noteq> WtPark"
  shows "wg_ok (wg_Broadcast s)"
proof (rule wg_okI)
  show "wg_pc (wg_Broadcast s) i = WtSelect \<or> wg_pc (wg_Broadcast s) i = WtPark \<longleftrightarrow> wg_mu (wg_Broadcast s) = Some i" for i
    using assms(2)[of i] by (auto simp: wg_Broadcast_def)
  show "wg_counter (wg_Broadcast s) = 0 \<Longrightarrow> wg_pc (wg_Broadcast s) i \<notin> {WtSelect, WtPark, WtAsleep}" for i
    using assms(3)[of i] by (auto simp: wg_Broadcast_def)
qed (simp add: wg_Broadcast_def assms(1))

lemma Wait_ok: "WaitGroup_Wait i s = Some s1 \<Longrightarrow> wg_ok s \<Longrightarrow> wg_ok s1"
proof -
  assume a: "WaitGroup_Wait i s = Some s1" "wg_ok s"
  have o: "0 \<le> wg_counter s" "\<And>j. wg_pc s j = WtSelect \<or> wg_pc s j = WtPark \<longleftrightarrow> wg_mu s = Some j" "\<And>j. wg_counter s = 0 \<Longrightarrow> wg_pc s j \<notin> {WtSelect, WtPark, WtAsleep}"
    using a(2) unfolding wg_ok_def by blast+
  have h: "wg_pc s j = WtSelect \<Longrightarrow> j = k" "wg_pc s j = WtPark \<Longrightarrow> j = k" if "wg_mu s = Some k" for j k
    using o(2)[of j] that by simp_all
  have m: "wg_pc s i = WtSelect \<or> wg_pc s i = WtPark \<Longrightarrow> wg_mu s = Some i" using o(2)[of i] by blast
  show ?thesis
  proof (cases "wg_pc s i")
    case WtIdle
    then show ?thesis using a(1) o by (intro wg_okI) (auto simp: WaitGroup_Wait_def wg_return_def split: if_splits)
  next
    case WtSelect
    then have mu: "wg_mu s = Some i" using m by blast
    show ?thesis using a(1) o(1,3) WtSelect mu by (intro wg_okI) (auto simp: WaitGroup_Wait_def wg_return_def split: if_splits dest: h[OF mu])
  next
    case WtPark
    then have mu: "wg_mu s = Some i" using m by blast
    show ?thesis using a(1) o(1,3) WtPark mu by (intro wg_okI) (auto simp: WaitGroup_Wait_def wg_return_def split: if_splits dest: h[OF mu])
  next
    case WtWoken
    then show ?thesis using a(1) o by (intro wg_okI) (auto simp: WaitGroup_Wait_def wg_return_def split: if_splits)
  qed (use a(1) in \<open>simp_all add: WaitGroup_Wait_def\<close>)
qed

lemma do_wg_ok: "wg_do a s = Some s1 \<Longrightarrow> wg_ok s \<Longrightarrow> wg_ok s1"
proof (cases a)
  case (WgAdd n)
  assume s: "wg_do a s = Some s1" "wg_ok s"
  have o: "\<And>j. wg_pc s j \<noteq> WtSelect \<and> wg_pc s j \<noteq> WtPark" "wg_mu s = None" using s WgAdd by (auto simp: wg_ok_def split: if_splits)
  show ?thesis
  proof (cases "wg_counter s + n < 0")
    case True
    then show ?thesis using s WgAdd by (simp add: WaitGroup_Add_def split: if_splits)
  next
    case False
    let ?s = "s\<lparr>wg_counter := wg_counter s + n\<rparr>"
    have "wg_ok (if wg_counter s + n = 0 then wg_Broadcast ?s else ?s)"
    proof (cases "wg_counter s + n = 0")
      case True
      have "wg_ok (wg_Broadcast ?s)" by (rule Broadcast_ok) (use False o in simp_all)
      then show ?thesis using True by simp
    next
      case ne: False
      have "wg_ok ?s" by (rule wg_okI) (use False ne o in simp_all)
      then show ?thesis using ne by simp
    qed
    then show ?thesis using s WgAdd False by (simp add: WaitGroup_Add_def Let_def split: if_splits)
  qed
next
  case (WgWait i)
  then show "wg_do a s = Some s1 \<Longrightarrow> wg_ok s \<Longrightarrow> wg_ok s1" by (simp add: Wait_ok)
next
  case (WgWake i)
  assume s: "wg_do a s = Some s1" "wg_ok s"
  have "wg_ok (wg_Broadcast (s\<lparr>wg_waker := (wg_waker s)(i := KDone)\<rparr>))" by (rule Broadcast_ok) (use s(2) in \<open>auto simp: wg_ok_def\<close>)
  then show ?thesis using s WgWake by (simp add: wg_wake_def split: if_splits)
next
  case (WgCancel i)
  then show "wg_do a s = Some s1 \<Longrightarrow> wg_ok s \<Longrightarrow> wg_ok s1" by (auto simp: wg_ok_def)
qed

lemma new_wg_ok: "wg_ok new_wait_group"
  by (simp add: wg_ok_def new_wait_group_def)

lemma reach_wg_ok: "wg_reach s \<Longrightarrow> wg_ok s"
  by (induction rule: wg_reach.induct) (blast intro: new_wg_ok do_wg_ok)+

lemma WaitGroup_no_sleep_at_zero: "wg_reach s \<Longrightarrow> wg_counter s = 0 \<Longrightarrow> wg_pc s i \<noteq> WtAsleep \<and> wg_mu s = None"
  using reach_wg_ok[of s] by (cases "wg_mu s") (auto simp: wg_ok_def)

text \<open>At zero a call that has been woken returns with its next step, and one that begins returns at once.\<close>

lemma Wait_returns_at_zero:
  "wg_reach s \<Longrightarrow> wg_counter s = 0 \<Longrightarrow> wg_pc s i = WtIdle \<or> wg_pc s i = WtWoken \<Longrightarrow> WaitGroup_Wait i s = Some (wg_return i s)"
  using WaitGroup_no_sleep_at_zero[of s i] by (auto simp: WaitGroup_Wait_def)

lemma Wait_returns_why: "WaitGroup_Wait i s = Some s1 \<Longrightarrow> wg_pc s1 i = WtReturned \<Longrightarrow> wg_counter s = 0 \<or> wg_ctx s i"
  by (auto simp: WaitGroup_Wait_def split: wait_pc.splits if_splits)

subsection \<open>A cancellation that is missed\<close>

text \<open>
  The broadcast at the end of the context comes without the mutex: between the select and the moment the call joins
  the list of those to wake it wakes nobody, and the call sleeps on although its context has ended.
\<close>

definition missed :: "wg_act list" where "missed = [WgAdd 1, WgWait 0, WgWait 0, WgCancel 0, WgWake 0, WgWait 0]"

lemma Wait_misses_cancellation:
  "\<exists>s. wg_run missed new_wait_group = Some s \<and> wg_ctx s 0 \<and> wg_pc s 0 = WtAsleep \<and> WaitGroup_Wait 0 s = None \<and> wg_wake 0 s = None"
  by (simp add: missed_def new_wait_group_def WaitGroup_Add_def WaitGroup_Wait_def wg_wake_def wg_Broadcast_def Let_def)

end
