(* ===== verification/AdtShard.thy ===== *)
theory AdtShard
  imports Main "HOL-Library.Word" "HOL-Library.Mapping"
begin

text \<open>
  The sharded map of \<open>src/adt/shard\<close>: a fixed number of maps, each with a clock of its own, whose values are pointers
  to versioned objects.  First the operations one after the other, on a store of objects; then \<open>Fetch\<close> against a
  concurrent writer, step by step.  The hash function is a parameter, and so is the order in which a Go map is
  traversed.  The four kinds of maps that a shard can use differ in their locks only.
\<close>

subsection \<open>Versioned objects and shards\<close>

record 'v versioned =
  vv_value :: 'v
  vv_clock :: "64 word"

record 'k sh =
  sh_data :: "('k, nat) mapping"
  sh_clock :: "64 word"

text \<open>\<open>sm_shards\<close> is what the \<open>Once\<close> holds: nothing before the first use.\<close>

record ('k, 'v) smap =
  sm_shards :: "'k sh list option"
  sm_clock :: "64 word"
  sm_num :: "64 word"
  sm_imp :: "32 word"
  sm_heap :: "nat \<Rightarrow> 'v versioned"
  sm_next :: nat

definition new_smap :: "('k, 'v::zero) smap" where
  "new_smap = \<lparr>sm_shards = None, sm_clock = 0, sm_num = 0, sm_imp = 0, sm_heap = (\<lambda>_. \<lparr>vv_value = 0, vv_clock = 0\<rparr>), sm_next = 0\<rparr>"

definition MapTypeDefault :: "32 word" where "MapTypeDefault = 1"

text \<open>An unknown kind of map panics.\<close>

definition makeVmap :: "32 word \<Rightarrow> ('k, nat) mapping option" where "makeVmap impl = (if impl \<in> {1, 2, 3, 4} then Some Mapping.empty else None)"

definition makeShards :: "('k, 'v) smap \<Rightarrow> 'k sh list option" where
  "makeShards m = (case makeVmap (sm_imp m) of None \<Rightarrow> None | Some d \<Rightarrow> Some (replicate (unat (sm_num m)) \<lparr>sh_data = d, sh_clock = 0\<rparr>))"

definition defaultSize :: int where "defaultSize = 32"

definition smap_init :: "int \<Rightarrow> 32 word \<Rightarrow> ('k, 'v) smap \<Rightarrow> ('k, 'v) smap option" where
  "smap_init n mi m =
     (let num = (word_of_int (max 0 n) :: 64 word);
          m1 = m\<lparr>sm_num := if num = 0 then word_of_int defaultSize else num, sm_imp := if mi = 0 then MapTypeDefault else mi\<rparr> in
      case makeShards m1 of None \<Rightarrow> None | Some shs \<Rightarrow> Some (m1\<lparr>sm_shards := Some shs\<rparr>))"

definition smap_Setup :: "int \<Rightarrow> 32 word \<Rightarrow> ('k, 'v) smap \<Rightarrow> ('k, 'v) smap option" where
  "smap_Setup n mi m = (if sm_shards m = None then smap_init n mi m else Some m)"

definition defaultShards :: "('k, 'v) smap \<Rightarrow> ('k, 'v) smap" where
  "defaultShards m = (case smap_init defaultSize MapTypeDefault m of None \<Rightarrow> m | Some m1 \<Rightarrow> m1)"

text \<open>The shards, set up with the defaults at the first use.\<close>

definition smap_shards :: "('k, 'v) smap \<Rightarrow> ('k, 'v) smap" where "smap_shards m = (if sm_shards m = None then defaultShards m else m)"
definition shs :: "('k, 'v) smap \<Rightarrow> 'k sh list" where "shs m = (case sm_shards m of None \<Rightarrow> [] | Some xs \<Rightarrow> xs)"

type_synonym 'k hasher = "'k \<Rightarrow> 64 word"

definition shardID :: "'k hasher \<Rightarrow> 'k \<Rightarrow> ('k, 'v) smap \<Rightarrow> nat" where "shardID h k m = unat (h k mod sm_num m)"
definition set_shard :: "nat \<Rightarrow> 'k sh \<Rightarrow> ('k, 'v) smap \<Rightarrow> ('k, 'v) smap" where "set_shard i x m = m\<lparr>sm_shards := Some ((shs m)[i := x])\<rparr>"

definition smap_inc :: "('k, 'v) smap \<Rightarrow> ('k, 'v) smap" where "smap_inc m = m\<lparr>sm_clock := sm_clock m + 1\<rparr>"
definition sh_write :: "'k sh \<Rightarrow> 'k sh" where "sh_write x = x\<lparr>sh_clock := sh_clock x + 1\<rparr>"

subsection \<open>Versioned objects on the store\<close>

definition Versioned_Set :: "nat \<Rightarrow> 'v \<Rightarrow> ('k, 'v) smap \<Rightarrow> ('k, 'v) smap" where
  "Versioned_Set p v m = m\<lparr>sm_heap := (sm_heap m)(p := \<lparr>vv_value = v, vv_clock = vv_clock (sm_heap m p) + 1\<rparr>)\<rparr>"

definition shard_Version :: "'v::zero \<Rightarrow> ('k, 'v) smap \<Rightarrow> nat \<times> ('k, 'v) smap" where
  "shard_Version v m =
     (let p = sm_next m in (p, Versioned_Set p v (m\<lparr>sm_heap := (sm_heap m)(p := \<lparr>vv_value = 0, vv_clock = 0\<rparr>), sm_next := Suc p\<rparr>)))"

text \<open>The methods of a pointer that may be nil.\<close>

definition Versioned_Load :: "nat option \<Rightarrow> ('k, 'v::zero) smap \<Rightarrow> 'v" where
  "Versioned_Load p m = (case p of None \<Rightarrow> 0 | Some p \<Rightarrow> vv_value (sm_heap m p))"

definition Versioned_Version :: "nat option \<Rightarrow> ('k, 'v) smap \<Rightarrow> 64 word" where
  "Versioned_Version p m = (case p of None \<Rightarrow> 0 | Some p \<Rightarrow> vv_clock (sm_heap m p))"

subsection \<open>Operations\<close>

definition sh_load :: "nat \<Rightarrow> 'k \<Rightarrow> ('k, 'v::zero) smap \<Rightarrow> 'v \<times> bool" where
  "sh_load i k m = (let p = Mapping.lookup (sh_data (shs m ! i)) k in (Versioned_Load p m, p \<noteq> None))"

definition sh_set :: "nat \<Rightarrow> 'k \<Rightarrow> 'v::zero \<Rightarrow> ('k, 'v) smap \<Rightarrow> bool \<times> ('k, 'v) smap" where
  "sh_set i k v m =
     (let x = sh_write (shs m ! i); m1 = set_shard i x m in
      case Mapping.lookup (sh_data x) k of
        Some p \<Rightarrow> (True, set_shard i (x\<lparr>sh_data := Mapping.update k p (sh_data x)\<rparr>) (Versioned_Set p v m1))
      | None \<Rightarrow> (case shard_Version v m1 of (p, m2) \<Rightarrow> (False, set_shard i (x\<lparr>sh_data := Mapping.update k p (sh_data x)\<rparr>) m2)))"

definition smap_Load :: "'k hasher \<Rightarrow> 'k \<Rightarrow> ('k, 'v::zero) smap \<Rightarrow> ('v \<times> bool) \<times> ('k, 'v) smap" where
  "smap_Load h k m = (let m1 = smap_shards m in (sh_load (shardID h k m1) k m1, m1))"

definition smap_Check :: "'k hasher \<Rightarrow> 'k \<Rightarrow> ('k, 'v) smap \<Rightarrow> bool \<times> ('k, 'v) smap" where
  "smap_Check h k m = (let m1 = smap_shards m in (Mapping.lookup (sh_data (shs m1 ! shardID h k m1)) k \<noteq> None, m1))"

definition smap_Get :: "'k hasher \<Rightarrow> 'k \<Rightarrow> ('k, 'v::zero) smap \<Rightarrow> 'v \<times> ('k, 'v) smap" where
  "smap_Get h k m = (let m1 = smap_shards m in (Versioned_Load (Mapping.lookup (sh_data (shs m1 ! shardID h k m1)) k) m1, m1))"

definition smap_Set :: "'k hasher \<Rightarrow> 'k \<Rightarrow> 'v::zero \<Rightarrow> ('k, 'v) smap \<Rightarrow> bool \<times> ('k, 'v) smap" where
  "smap_Set h k v m = (let m1 = smap_shards (smap_inc m) in sh_set (shardID h k m1) k v m1)"

definition smap_Store :: "'k hasher \<Rightarrow> 'k \<Rightarrow> 'v::zero \<Rightarrow> ('k, 'v) smap \<Rightarrow> ('k, 'v) smap" where "smap_Store h k v m = snd (smap_Set h k v m)"

definition smap_Extend :: "'k hasher \<Rightarrow> ('k \<times> 'v) list \<Rightarrow> ('k, 'v::zero) smap \<Rightarrow> ('k, 'v) smap" where
  "smap_Extend h kvs m = fold (\<lambda>(k, v). smap_Store h k v) kvs m"

definition smap_Delete :: "'k hasher \<Rightarrow> 'k \<Rightarrow> ('k, 'v) smap \<Rightarrow> ('k, 'v) smap" where
  "smap_Delete h k m =
     (let m1 = smap_shards (smap_inc m); i = shardID h k m1; x = sh_write (shs m1 ! i) in
      set_shard i (x\<lparr>sh_data := Mapping.delete k (sh_data x)\<rparr>) m1)"

definition smap_Versioned :: "'k hasher \<Rightarrow> 'k \<Rightarrow> ('k, 'v) smap \<Rightarrow> nat option \<times> ('k, 'v) smap" where
  "smap_Versioned h k m = (let m1 = smap_shards m in (Mapping.lookup (sh_data (shs m1 ! shardID h k m1)) k, m1))"

definition smap_Version :: "('k, 'v) smap \<Rightarrow> 64 word" where "smap_Version m = sm_clock m"

definition smap_Clocks :: "('k, 'v) smap \<Rightarrow> 64 word list" where
  "smap_Clocks m = (let m1 = smap_shards m in sm_clock m1 # map sh_clock (shs m1))"

record ('k, 'v) MapItem =
  mi_Exists :: bool
  mi_GlobalVersion :: "64 word"
  mi_ShardVersion :: "64 word"
  mi_Version :: "64 word"
  mi_ShardID :: nat
  mi_NumShards :: nat
  mi_Key :: 'k
  mi_Value :: 'v

text \<open>Without other goroutines the loops of \<open>Fetch\<close> and \<open>fetch\<close> end in their first round.\<close>

definition sh_fetch :: "nat \<Rightarrow> 'k \<Rightarrow> ('k, 'v::zero) smap \<Rightarrow> 'v \<times> 64 word \<times> 64 word \<times> bool" where
  "sh_fetch i k m =
     (case Mapping.lookup (sh_data (shs m ! i)) k of
        None \<Rightarrow> (0, 0, 0, False)
      | Some p \<Rightarrow> (vv_value (sm_heap m p), vv_clock (sm_heap m p), sh_clock (shs m ! i), True))"

definition smap_Fetch :: "'k hasher \<Rightarrow> 'k \<Rightarrow> ('k, 'v::zero) smap \<Rightarrow> ('k, 'v) MapItem \<times> ('k, 'v) smap" where
  "smap_Fetch h k m =
     (let m1 = smap_shards m; i = shardID h k m1 in
      case sh_fetch i k m1 of (v, ver, sver, ok) \<Rightarrow>
        (\<lparr>mi_Exists = ok, mi_GlobalVersion = sm_clock m1, mi_ShardVersion = sver, mi_Version = ver, mi_ShardID = i,
          mi_NumShards = length (shs m1), mi_Key = k, mi_Value = v\<rparr>, m1))"

text \<open>The iterators, as the lists of what they yield when nothing else runs.\<close>

definition smap_Keys :: "('k set \<Rightarrow> 'k list) \<Rightarrow> ('k, 'v) smap \<Rightarrow> 'k list" where
  "smap_Keys order m = concat (map (\<lambda>x. order (Mapping.keys (sh_data x))) (shs (smap_shards m)))"

definition smap_Items :: "'k hasher \<Rightarrow> ('k set \<Rightarrow> 'k list) \<Rightarrow> ('k, 'v::zero) smap \<Rightarrow> ('k, 'v) MapItem list" where
  "smap_Items h order m = filter mi_Exists (map (\<lambda>k. fst (smap_Fetch h k m)) (smap_Keys order m))"

definition smap_Iterator :: "'k hasher \<Rightarrow> ('k set \<Rightarrow> 'k list) \<Rightarrow> ('k, 'v::zero) smap \<Rightarrow> ('k \<times> 'v) list" where
  "smap_Iterator h order m = map (\<lambda>it. (mi_Key it, mi_Value it)) (smap_Items h order m)"

definition smap_Values :: "('k set \<Rightarrow> 'k list) \<Rightarrow> ('k, 'v::zero) smap \<Rightarrow> 'v list" where
  "smap_Values order m =
     (let m1 = smap_shards m in
      concat (map (\<lambda>x. map (\<lambda>k. Versioned_Load (Mapping.lookup (sh_data x) k) m1) (order (Mapping.keys (sh_data x)))) (shs m1)))"

subsection \<open>Fetch against a writer\<close>

text \<open>
  One goroutine stores values for a key that is there, the first, the second and so on; another one fetches it.  An
  object holds the number of its value and its clock.  What the reader has seen is part of its place.
\<close>

datatype writer_pc = WIdle | WGlobal | WShard | WLoad | WVersion | WValue
datatype reader_pc = RGlobal | RShard nat | RPointer nat nat | RVersion nat nat | RShardAgain nat nat nat
  | FVersion nat nat nat | FValue nat nat nat nat | FAgain nat nat nat nat nat | RCompare nat nat nat nat nat | RGlobalAgain nat nat nat nat | RDone nat nat nat nat

record fetch_state =
  ft_global :: nat
  ft_shard :: nat
  ft_clock :: nat
  ft_value :: nat
  ft_writer :: writer_pc
  ft_reader :: reader_pc

definition fetch_start :: fetch_state where
  "fetch_start = \<lparr>ft_global = 1, ft_shard = 1, ft_clock = 1, ft_value = 1, ft_writer = WIdle, ft_reader = RGlobal\<rparr>"

text \<open>\<open>Store\<close>: the clock of the map, that of the shard, the pointer, the clock of the object, its value, the map entry.\<close>

fun writer_step :: "fetch_state \<Rightarrow> fetch_state" where
  "writer_step s =
     (case ft_writer s of
        WIdle \<Rightarrow> s\<lparr>ft_global := ft_global s + 1, ft_writer := WGlobal\<rparr>
      | WGlobal \<Rightarrow> s\<lparr>ft_shard := ft_shard s + 1, ft_writer := WShard\<rparr>
      | WShard \<Rightarrow> s\<lparr>ft_writer := WLoad\<rparr>
      | WLoad \<Rightarrow> s\<lparr>ft_clock := ft_clock s + 1, ft_writer := WVersion\<rparr>
      | WVersion \<Rightarrow> s\<lparr>ft_value := ft_value s + 1, ft_writer := WValue\<rparr>
      | WValue \<Rightarrow> s\<lparr>ft_writer := WIdle\<rparr>)"

fun reader_step :: "fetch_state \<Rightarrow> fetch_state" where
  "reader_step s =
     (let go = (\<lambda>pc. s\<lparr>ft_reader := pc\<rparr>) in
      case ft_reader s of
        RGlobal \<Rightarrow> go (RShard (ft_global s))
      | RShard g \<Rightarrow> go (RPointer g (ft_shard s))
      | RPointer g sv \<Rightarrow> go (RVersion g sv)
      | RVersion g sv \<Rightarrow> go (RShardAgain g sv (ft_clock s))
      | RShardAgain g sv ov \<Rightarrow> go (if sv = ft_shard s then FVersion g sv ov else RShard g)
      | FVersion g sv ov \<Rightarrow> go (FValue g sv ov (ft_clock s))
      | FValue g sv ov ver \<Rightarrow> go (FAgain g sv ov ver (ft_value s))
      | FAgain g sv ov ver val \<Rightarrow> go (if ver = ft_clock s then RCompare g sv ov ver val else FVersion g sv ov)
      | RCompare g sv ov ver val \<Rightarrow> go (if ov = ver then RGlobalAgain g sv ver val else RShard g)
      | RGlobalAgain g sv ver val \<Rightarrow> go (if g = ft_global s then RDone g sv ver val else RGlobal)
      | RDone g sv ver val \<Rightarrow> s)"

inductive fetch_reach :: "fetch_state \<Rightarrow> bool" where
  fr_start: "fetch_reach fetch_start"
| fr_writer: "fetch_reach s \<Longrightarrow> fetch_reach (writer_step s)"
| fr_reader: "fetch_reach s \<Longrightarrow> fetch_reach (reader_step s)"

end
