(* ===== verification/AdtShardProps.thy ===== *)
theory AdtShardProps
  imports AdtShard
begin

text \<open>
  What the sharded map is: a map with a version for each of its keys and one for itself, whatever the hash, the number
  of shards and the order in which their maps are traversed; and what \<open>Fetch\<close> can see of a \<open>Store\<close> in progress.
\<close>

subsection \<open>The structure of the shards\<close>

definition sd :: "('k, 'v) smap \<Rightarrow> nat \<Rightarrow> 'k \<Rightarrow> nat option" where "sd m i k = Mapping.lookup (sh_data (shs m ! i)) k"
definition look :: "'k hasher \<Rightarrow> ('k, 'v) smap \<Rightarrow> 'k \<Rightarrow> nat option" where "look h m k = (if sm_shards m = None then None else sd m (shardID h k m) k)"

text \<open>A key is in the shard of its hash only; pointers are to objects made, one for each key.\<close>

definition shards_wf :: "'k hasher \<Rightarrow> ('k, 'v) smap \<Rightarrow> bool" where
  "shards_wf h m \<longleftrightarrow>
     sm_shards m = None
   \<or> sm_num m \<noteq> 0 \<and> length (shs m) = unat (sm_num m) \<and> (\<forall>i < length (shs m). finite (dom (sd m i)))
     \<and> (\<forall>i < length (shs m). \<forall>k p. sd m i k = Some p \<longrightarrow> i = shardID h k m \<and> p < sm_next m)
     \<and> (\<forall>k l p. look h m k = Some p \<longrightarrow> look h m l = Some p \<longrightarrow> k = l)"

lemma shards_wfD:
  assumes "shards_wf h m" "sm_shards m \<noteq> None"
  shows "sm_num m \<noteq> 0" "length (shs m) = unat (sm_num m)" "i < length (shs m) \<Longrightarrow> finite (dom (sd m i))"
    "i < length (shs m) \<Longrightarrow> sd m i k = Some p \<Longrightarrow> i = shardID h k m \<and> p < sm_next m"
    "look h m k = Some p \<Longrightarrow> look h m l = Some p \<Longrightarrow> k = l"
  using assms unfolding shards_wf_def by blast+

lemma shardID_less: "sm_num m \<noteq> 0 \<Longrightarrow> length (shs m) = unat (sm_num m) \<Longrightarrow> shardID h k m < length (shs m)"
  by (simp add: shardID_def unat_mod_distrib unat_gt_0)

lemma wf_shardID: "shards_wf h m \<Longrightarrow> sm_shards m \<noteq> None \<Longrightarrow> shardID h k m < length (shs m)"
  by (rule shardID_less) (rule shards_wfD(1,2), assumption+)+

lemma wf_pointer: "shards_wf h m \<Longrightarrow> look h m k = Some p \<Longrightarrow> p < sm_next m"
  using shards_wfD(4)[of h m "shardID h k m" k p] wf_shardID[of h m k] by (auto simp: look_def split: if_splits)

text \<open>What a change of one key in its shard does to the structure.\<close>

lemma edit_shard:
  assumes w: "shards_wf h m" "sm_shards m \<noteq> None"
    and s: "sm_shards m1 = Some ((shs m)[shardID h k m := y])" "sm_num m1 = sm_num m" "sm_next m \<le> sm_next m1"
    and y: "\<And>l. Mapping.lookup (sh_data y) l = (if l = k then r else sd m (shardID h k m) l)"
    and r: "\<And>p. r = Some p \<Longrightarrow> p < sm_next m1" "\<And>p l. r = Some p \<Longrightarrow> look h m l = Some p \<Longrightarrow> l = k"
  shows "shards_wf h m1" "look h m1 l = (if l = k then r else look h m l)"
proof -
  let ?i = "shardID h k m"
  have i: "?i < length (shs m)" by (rule wf_shardID[OF w])
  have sh: "shs m1 = (shs m)[?i := y]" using s(1) by (simp add: shs_def)
  have id: "shardID h l m1 = shardID h l m" for l using s(2) by (simp add: shardID_def)
  have sd1: "sd m1 j l = (if j = ?i \<and> l = k then r else sd m j l)" for j l
    using i y by (auto simp: sd_def sh nth_list_update)
  show l1: "look h m1 l = (if l = k then r else look h m l)" for l
    using s(1) w(2) by (auto simp: look_def id sd1)
  have fin: "finite (dom (sd m1 j))" if "j < length (shs m1)" for j
  proof (rule finite_subset)
    show "dom (sd m1 j) \<subseteq> insert k (dom (sd m j))" by (auto simp: sd1 split: if_splits)
    show "finite (insert k (dom (sd m j)))" using shards_wfD(3)[OF w, of j] that by (simp add: sh)
  qed
  have own: "j = shardID h l m1 \<and> p < sm_next m1" if "j < length (shs m1)" "sd m1 j l = Some p" for j l p
  proof (cases "j = ?i \<and> l = k")
    case True
    then show ?thesis using that(2) r(1) by (simp add: sd1 id)
  next
    case False
    then have "sd m j l = Some p" using that(2) sd1[of j l] by (metis (no_types))
    then show ?thesis using shards_wfD(4)[OF w, of j l p] that(1) s(3) by (simp add: sh id)
  qed
  have inj: "a = b" if "look h m1 a = Some p" "look h m1 b = Some p" for a b p
    using that r(2)[of p] shards_wfD(5)[OF w, of a p b] by (auto simp: l1 split: if_splits)
  show "shards_wf h m1"
    unfolding shards_wf_def using fin own inj s(2) shards_wfD(1,2)[OF w] by (auto simp: sh)
qed

subsection \<open>Setting up\<close>

abbreviation clock_sum :: "('k, 'v) smap \<Rightarrow> 64 word" where "clock_sum m \<equiv> sum_list (map sh_clock (shs m))"

lemma sum_list_replicate_zero [simp]: "sum_list (replicate n (0 :: 64 word)) = 0"
  by (induction n) simp_all

lemma init_facts:
  assumes "smap_init n mi m = Some m1"
  shows "shards_wf h m1" "sm_shards m1 \<noteq> None" "look h m1 k = None" "clock_sum m1 = 0" "sm_clock m1 = sm_clock m"
proof -
  define num :: "64 word" where "num = (if (word_of_int (max 0 n) :: 64 word) = 0 then 32 else word_of_int (max 0 n))"
  define imp where "imp = (if mi = 0 then MapTypeDefault else mi)"
  have num: "num \<noteq> 0" by (simp add: num_def)
  have "smap_init n mi m = (case makeShards (m\<lparr>sm_num := num, sm_imp := imp\<rparr>) of None \<Rightarrow> None | Some xs \<Rightarrow> Some (m\<lparr>sm_num := num, sm_imp := imp, sm_shards := Some xs\<rparr>))"
    unfolding smap_init_def num_def imp_def Let_def defaultSize_def by (simp split: option.split)
  then have m1: "m1 = m\<lparr>sm_num := num, sm_imp := imp, sm_shards := Some (replicate (unat num) \<lparr>sh_data = Mapping.empty, sh_clock = 0\<rparr>)\<rparr>"
    using assms by (simp add: makeShards_def makeVmap_def split: if_splits)
  have e: "sd m1 i k = None" if "i < unat num" for i k using that by (simp add: m1 sd_def shs_def)
  have d: "dom (sd m1 i) = {}" if "i < unat num" for i using e[OF that] by auto
  have id: "shardID h k m1 < unat num" for k using shardID_less[of m1 h k] num by (simp add: m1 shs_def)
  have l: "look h m1 k = None" for k using e[OF id] by (simp add: look_def)
  show "shards_wf h m1" unfolding shards_wf_def using num e d l by (simp add: m1 shs_def)
  show "sm_shards m1 \<noteq> None" "look h m1 k = None" "clock_sum m1 = 0" "sm_clock m1 = sm_clock m" using l by (simp_all add: m1 shs_def)
qed

lemma init_default: "\<exists>m1. smap_init defaultSize MapTypeDefault m = Some m1"
  by (simp add: smap_init_def makeShards_def makeVmap_def MapTypeDefault_def defaultSize_def Let_def)

lemma init_heap: "smap_init n mi m = Some m1 \<Longrightarrow> sm_heap m1 = sm_heap m \<and> sm_next m1 = sm_next m"
  by (auto simp: smap_init_def Let_def split: option.splits)

lemma init_None: "smap_init n mi m = None \<longleftrightarrow> mi \<notin> {0, 1, 2, 3, 4}"
  by (simp add: smap_init_def makeShards_def makeVmap_def MapTypeDefault_def Let_def)

lemma shards_facts:
  assumes "shards_wf h m"
  shows "shards_wf h (smap_shards m)" "sm_shards (smap_shards m) \<noteq> None" "look h (smap_shards m) = look h m" "clock_sum (smap_shards m) = clock_sum m"
    "sm_clock (smap_shards m) = sm_clock m" "sm_heap (smap_shards m) = sm_heap m" "sm_next (smap_shards m) = sm_next m"
proof -
  obtain m1 where i: "smap_init defaultSize MapTypeDefault m = Some m1" using init_default by blast
  have s: "smap_shards m = (if sm_shards m = None then m1 else m)" by (simp add: smap_shards_def defaultShards_def i)
  show "shards_wf h (smap_shards m)" "sm_shards (smap_shards m) \<noteq> None" "clock_sum (smap_shards m) = clock_sum m"
    "sm_clock (smap_shards m) = sm_clock m" "sm_heap (smap_shards m) = sm_heap m" "sm_next (smap_shards m) = sm_next m"
    using assms init_facts(1,2,4,5)[OF i] init_heap[OF i] by (simp_all add: s shs_def)
  show "look h (smap_shards m) = look h m"
    using init_facts(3)[OF i] by (simp add: s fun_eq_iff) (simp add: look_def)
qed

lemma inc_facts [simp]:
  "sm_shards (smap_inc m) = sm_shards m" "shs (smap_inc m) = shs m" "sm_num (smap_inc m) = sm_num m" "sm_heap (smap_inc m) = sm_heap m"
  "sm_next (smap_inc m) = sm_next m" "sm_clock (smap_inc m) = sm_clock m + 1"
  by (simp_all add: smap_inc_def shs_def)

lemma inc_sd [simp]: "sd (smap_inc m) = sd m" "shardID h k (smap_inc m) = shardID h k m"
  by (simp_all add: sd_def shardID_def fun_eq_iff)

lemma inc_look [simp]: "look h (smap_inc m) = look h m"
  by (rule ext) (simp add: look_def)

lemma inc_wf [simp]: "shards_wf h (smap_inc m) \<longleftrightarrow> shards_wf h m"
  by (simp add: shards_wf_def)

subsection \<open>The abstract map\<close>

definition smap_abs :: "'k hasher \<Rightarrow> ('k, 'v) smap \<Rightarrow> 'k \<rightharpoonup> 'v versioned" where
  "smap_abs h m k = map_option (sm_heap m) (look h m k)"

lemma sum_list_upd: "i < length xs \<Longrightarrow> f y = f (xs ! i) + 1 \<Longrightarrow> sum_list (map f (xs[i := y])) = sum_list (map f xs) + (1 :: 64 word)"
  by (induction xs arbitrary: i) (auto simp: nth_Cons split: nat.splits)

text \<open>Writing with the clocks of the map and the shard, on shards that are there.\<close>

lemma set_facts:
  fixes m :: "('k, 'v::zero) smap"
  assumes w: "shards_wf h m" "sm_shards m \<noteq> None" and r: "sh_set (shardID h k m) k v m = (b, m1)"
  shows "b = (look h m k \<noteq> None)" "shards_wf h m1" "sm_shards m1 \<noteq> None" "sm_clock m1 = sm_clock m" "clock_sum m1 = clock_sum m + 1"
    "smap_abs h m1 = (smap_abs h m)(k \<mapsto> \<lparr>vv_value = v, vv_clock = (case smap_abs h m k of None \<Rightarrow> 0 | Some x \<Rightarrow> vv_clock x) + 1\<rparr>)"
proof -
  let ?i = "shardID h k m"
  have i: "?i < length (shs m)" by (rule wf_shardID[OF w])
  have lk: "look h m k = sd m ?i k" using w(2) by (auto simp: look_def)
  define y where "y p = (shs m ! ?i)\<lparr>sh_clock := sh_clock (shs m ! ?i) + 1, sh_data := Mapping.update k p (sh_data (shs m ! ?i))\<rparr>" for p
  have y: "Mapping.lookup (sh_data (y p)) l = (if l = k then Some p else sd m ?i l)" for p l by (simp add: y_def sd_def lookup_update')
  have eq: "(b, m1) = (case sd m ?i k of
       Some p \<Rightarrow> (True, m\<lparr>sm_shards := Some ((shs m)[?i := y p]), sm_heap := (sm_heap m)(p := \<lparr>vv_value = v, vv_clock = vv_clock (sm_heap m p) + 1\<rparr>)\<rparr>)
     | None \<Rightarrow> (False, m\<lparr>sm_shards := Some ((shs m)[?i := y (sm_next m)]), sm_heap := (sm_heap m)(sm_next m := \<lparr>vv_value = v, vv_clock = 1\<rparr>), sm_next := Suc (sm_next m)\<rparr>))"
    unfolding r[symmetric] by (auto simp: sh_set_def sh_write_def set_shard_def Versioned_Set_def shard_Version_def Let_def shs_def sd_def y_def i split: option.splits)
  show "b = (look h m k \<noteq> None)" using eq by (auto simp: lk split: option.splits)
  show "sm_shards m1 \<noteq> None" "sm_clock m1 = sm_clock m" using eq by (auto split: option.splits)
  obtain p where m1: "sm_shards m1 = Some ((shs m)[?i := y p])" using eq by (auto split: option.splits)
  have "shs m1 = (shs m)[?i := y p]" using m1 by (simp add: shs_def)
  then show "clock_sum m1 = clock_sum m + 1" using sum_list_upd[OF i, of sh_clock "y p"] by (simp add: y_def)
  show "shards_wf h m1" and "smap_abs h m1 = (smap_abs h m)(k \<mapsto> \<lparr>vv_value = v, vv_clock = (case smap_abs h m k of None \<Rightarrow> 0 | Some x \<Rightarrow> vv_clock x) + 1\<rparr>)"
  proof (atomize (full), cases "sd m ?i k")
    case None
    have m1: "m1 = m\<lparr>sm_shards := Some ((shs m)[?i := y (sm_next m)]), sm_heap := (sm_heap m)(sm_next m := \<lparr>vv_value = v, vv_clock = 1\<rparr>), sm_next := Suc (sm_next m)\<rparr>"
      using eq None by simp
    note e = edit_shard[OF w, of m1 k "y (sm_next m)" "Some (sm_next m)", OF _ _ _ y]
    have old: "look h m l \<noteq> Some (sm_next m)" for l using wf_pointer[OF w(1), of l] by fastforce
    have "shards_wf h m1" "\<And>l. look h m1 l = (if l = k then Some (sm_next m) else look h m l)" by (rule e; use old in \<open>simp add: m1\<close>)+
    moreover have "smap_abs h m k = None" by (simp add: smap_abs_def lk None)
    ultimately show "shards_wf h m1 \<and> smap_abs h m1 = (smap_abs h m)(k \<mapsto> \<lparr>vv_value = v, vv_clock = (case smap_abs h m k of None \<Rightarrow> 0 | Some x \<Rightarrow> vv_clock x) + 1\<rparr>)"
      using old by (auto simp: fun_eq_iff smap_abs_def m1 map_option_case split: option.splits)
  next
    case (Some p)
    have m1: "m1 = m\<lparr>sm_shards := Some ((shs m)[?i := y p]), sm_heap := (sm_heap m)(p := \<lparr>vv_value = v, vv_clock = vv_clock (sm_heap m p) + 1\<rparr>)\<rparr>"
      using eq Some by simp
    have lp: "look h m k = Some p" by (simp add: lk Some)
    note e = edit_shard[OF w, of m1 k "y p" "Some p", OF _ _ _ y]
    have own: "look h m l = Some p \<Longrightarrow> l = k" for l using shards_wfD(5)[OF w _ lp] by blast
    have "shards_wf h m1" "\<And>l. look h m1 l = (if l = k then Some p else look h m l)" by (rule e; use own wf_pointer[OF w(1) lp] in \<open>simp add: m1\<close>)+
    moreover have "smap_abs h m k = Some (sm_heap m p)" by (simp add: smap_abs_def lp)
    ultimately show "shards_wf h m1 \<and> smap_abs h m1 = (smap_abs h m)(k \<mapsto> \<lparr>vv_value = v, vv_clock = (case smap_abs h m k of None \<Rightarrow> 0 | Some x \<Rightarrow> vv_clock x) + 1\<rparr>)"
      using own by (auto simp: fun_eq_iff smap_abs_def m1 map_option_case split: option.splits)
  qed
qed

lemma delete_facts:
  fixes m :: "('k, 'v::zero) smap"
  assumes w: "shards_wf h m"
  shows "shards_wf h (smap_Delete h k m)" "sm_shards (smap_Delete h k m) \<noteq> None" "sm_clock (smap_Delete h k m) = sm_clock m + 1"
    "clock_sum (smap_Delete h k m) = clock_sum m + 1" "smap_abs h (smap_Delete h k m) = (smap_abs h m)(k := None)"
proof -
  define m0 where "m0 = smap_shards (smap_inc m)"
  note f = shards_facts[of h "smap_inc m", unfolded inc_wf inc_look inc_facts, OF w, folded m0_def]
  let ?i = "shardID h k m0"
  have i: "?i < length (shs m0)" by (rule wf_shardID[OF f(1,2)])
  define y where "y = (shs m0 ! ?i)\<lparr>sh_clock := sh_clock (shs m0 ! ?i) + 1, sh_data := Mapping.delete k (sh_data (shs m0 ! ?i))\<rparr>"
  have d: "smap_Delete h k m = m0\<lparr>sm_shards := Some ((shs m0)[?i := y])\<rparr>"
    unfolding smap_Delete_def Let_def m0_def[symmetric] y_def by (simp add: set_shard_def sh_write_def)
  have y: "Mapping.lookup (sh_data y) l = (if l = k then None else sd m0 ?i l)" for l by (cases "l = k") (simp_all add: y_def sd_def lookup_delete lookup_delete_neq)
  note e = edit_shard[OF f(1,2), of "smap_Delete h k m" k y None, OF _ _ _ y]
  have lk: "look h (smap_Delete h k m) l = (if l = k then None else look h m l)" for l using e(2)[of l] f(3) by (simp add: d)
  show "shards_wf h (smap_Delete h k m)" by (rule e(1)) (simp_all add: d)
  show "sm_shards (smap_Delete h k m) \<noteq> None" "sm_clock (smap_Delete h k m) = sm_clock m + 1" using f by (simp_all add: d)
  have "shs (smap_Delete h k m) = (shs m0)[?i := y]" by (simp add: d shs_def)
  then show "clock_sum (smap_Delete h k m) = clock_sum m + 1" using sum_list_upd[OF i, of sh_clock y] f(4) by (simp add: y_def)
  have "sm_heap (smap_Delete h k m) = sm_heap m" by (simp add: d f(6))
  then show "smap_abs h (smap_Delete h k m) = (smap_abs h m)(k := None)" by (auto simp: smap_abs_def lk)
qed

lemma lookup_shards:
  assumes "shards_wf h m"
  shows "Mapping.lookup (sh_data (shs (smap_shards m) ! shardID h k (smap_shards m))) k = look h m k"
  unfolding shards_facts(3)[OF assms, symmetric] using shards_facts(2)[OF assms] by (auto simp: look_def sd_def)

subsection \<open>Runs of operations\<close>

datatype ('k, 'v) shard_op = DoSetup int "32 word" | DoSet 'k 'v | DoStore 'k 'v | DoDelete 'k | DoLoad 'k | DoCheck 'k | DoGet 'k | DoFetch 'k | DoVersion
datatype 'v shard_res = RUnit | RBool bool | RLoad 'v bool | RValue 'v | RItem bool "64 word" "64 word" 'v | RClock "64 word"

fun shard_do :: "'k hasher \<Rightarrow> ('k, 'v) shard_op \<Rightarrow> ('k, 'v::zero) smap \<Rightarrow> ('v shard_res \<times> ('k, 'v) smap) option" where
  "shard_do h (DoSetup n mi) m = map_option (\<lambda>m1. (RUnit, m1)) (smap_Setup n mi m)"
| "shard_do h (DoSet k v) m = (case smap_Set h k v m of (b, m1) \<Rightarrow> Some (RBool b, m1))"
| "shard_do h (DoStore k v) m = Some (RUnit, smap_Store h k v m)"
| "shard_do h (DoDelete k) m = Some (RUnit, smap_Delete h k m)"
| "shard_do h (DoLoad k) m = (case smap_Load h k m of ((v, ok), m1) \<Rightarrow> Some (RLoad v ok, m1))"
| "shard_do h (DoCheck k) m = (case smap_Check h k m of (b, m1) \<Rightarrow> Some (RBool b, m1))"
| "shard_do h (DoGet k) m = (case smap_Get h k m of (v, m1) \<Rightarrow> Some (RValue v, m1))"
| "shard_do h (DoFetch k) m = (case smap_Fetch h k m of (it, m1) \<Rightarrow> Some (RItem (mi_Exists it) (mi_GlobalVersion it) (mi_Version it) (mi_Value it), m1))"
| "shard_do h DoVersion m = Some (RClock (smap_Version m), m)"

fun run_ops :: "('a \<Rightarrow> 's \<Rightarrow> ('r \<times> 's) option) \<Rightarrow> 'a list \<Rightarrow> 's \<Rightarrow> ('r list \<times> 's) option" where
  "run_ops f [] s = Some ([], s)"
| "run_ops f (a # as) s = (case f a s of None \<Rightarrow> None | Some (r, s1) \<Rightarrow> (case run_ops f as s1 of None \<Rightarrow> None | Some (rs, s2) \<Rightarrow> Some (r # rs, s2)))"

text \<open>The abstract map: every key with its value and version, the number of writes, and whether the kind of map is fixed.\<close>

record ('k, 'v) amap =
  am_map :: "'k \<rightharpoonup> 'v versioned"
  am_clock :: "64 word"
  am_fixed :: bool

definition new_amap :: "('k, 'v) amap" where "new_amap = \<lparr>am_map = Map.empty, am_clock = 0, am_fixed = False\<rparr>"

definition am_write :: "'k \<Rightarrow> 'v versioned option \<Rightarrow> ('k, 'v) amap \<Rightarrow> ('k, 'v) amap" where
  "am_write k x a = a\<lparr>am_map := (am_map a)(k := x), am_clock := am_clock a + 1, am_fixed := True\<rparr>"

definition am_put :: "'k \<Rightarrow> 'v \<Rightarrow> ('k, 'v) amap \<Rightarrow> ('k, 'v) amap" where
  "am_put k v a = am_write k (Some \<lparr>vv_value = v, vv_clock = (case am_map a k of None \<Rightarrow> 0 | Some x \<Rightarrow> vv_clock x) + 1\<rparr>) a"

definition am_value :: "'k \<Rightarrow> ('k, 'v::zero) amap \<Rightarrow> 'v" where "am_value k a = (case am_map a k of None \<Rightarrow> 0 | Some x \<Rightarrow> vv_value x)"

fun amap_do :: "('k, 'v) shard_op \<Rightarrow> ('k, 'v::zero) amap \<Rightarrow> ('v shard_res \<times> ('k, 'v) amap) option" where
  "amap_do (DoSetup n mi) a = (if am_fixed a \<or> mi \<in> {0, 1, 2, 3, 4} then Some (RUnit, a\<lparr>am_fixed := True\<rparr>) else None)"
| "amap_do (DoSet k v) a = Some (RBool (am_map a k \<noteq> None), am_put k v a)"
| "amap_do (DoStore k v) a = Some (RUnit, am_put k v a)"
| "amap_do (DoDelete k) a = Some (RUnit, am_write k None a)"
| "amap_do (DoLoad k) a = Some (RLoad (am_value k a) (am_map a k \<noteq> None), a\<lparr>am_fixed := True\<rparr>)"
| "amap_do (DoCheck k) a = Some (RBool (am_map a k \<noteq> None), a\<lparr>am_fixed := True\<rparr>)"
| "amap_do (DoGet k) a = Some (RValue (am_value k a), a\<lparr>am_fixed := True\<rparr>)"
| "amap_do (DoFetch k) a = Some (RItem (am_map a k \<noteq> None) (am_clock a) (case am_map a k of None \<Rightarrow> 0 | Some x \<Rightarrow> vv_clock x) (am_value k a), a\<lparr>am_fixed := True\<rparr>)"
| "amap_do DoVersion a = Some (RClock (am_clock a), a)"

definition smap_rel :: "'k hasher \<Rightarrow> ('k, 'v) smap \<Rightarrow> ('k, 'v) amap \<Rightarrow> bool" where
  "smap_rel h m a \<longleftrightarrow> shards_wf h m \<and> sm_clock m = clock_sum m \<and> a = \<lparr>am_map = smap_abs h m, am_clock = sm_clock m, am_fixed = (sm_shards m \<noteq> None)\<rparr>"

lemma rel_shards: "smap_rel h m a \<Longrightarrow> smap_rel h (smap_shards m) (a\<lparr>am_fixed := True\<rparr>)"
proof -
  assume r: "smap_rel h m a"
  then have w: "shards_wf h m" by (simp add: smap_rel_def)
  note f = shards_facts[OF w]
  have "smap_abs h (smap_shards m) = smap_abs h m" by (rule ext) (simp add: smap_abs_def f(3,6))
  then show ?thesis using r f(1,2,4,5) by (simp add: smap_rel_def)
qed

lemma Set_facts:
  fixes m :: "('k, 'v::zero) smap"
  assumes "smap_rel h m a" "smap_Set h k v m = (b, m1)"
  shows "b = (am_map a k \<noteq> None)" "smap_rel h m1 (am_put k v a)"
proof -
  define m0 where "m0 = smap_shards (smap_inc m)"
  have w: "shards_wf h m" using assms(1) by (simp add: smap_rel_def)
  note f = shards_facts[of h "smap_inc m", unfolded inc_wf inc_look inc_facts, OF w, folded m0_def]
  have s: "sh_set (shardID h k m0) k v m0 = (b, m1)" using assms(2) by (simp add: smap_Set_def Let_def m0_def)
  note g = set_facts[OF f(1,2) s]
  have ab: "smap_abs h m0 = smap_abs h m" by (rule ext) (simp add: smap_abs_def f(3,6))
  show "b = (am_map a k \<noteq> None)" using g(1) f(3) assms(1) by (simp add: smap_rel_def smap_abs_def)
  show "smap_rel h m1 (am_put k v a)" using g(2-6) f(4,5) assms(1) by (simp add: smap_rel_def am_put_def am_write_def ab)
qed

lemma do_refines:
  fixes m :: "('k, 'v::zero) smap"
  assumes r: "smap_rel h m a"
  shows "rel_option (rel_prod (=) (smap_rel h)) (shard_do h op m) (amap_do op a)"
proof -
  have w: "shards_wf h m" using r by (simp add: smap_rel_def)
  note sr = rel_shards[OF r]
  note lk = lookup_shards[OF w]
  note f = shards_facts[OF w]
  have am: "am_map a k = map_option (sm_heap m) (look h m k)" "am_clock a = sm_clock m" "am_fixed a = (sm_shards m \<noteq> None)" for k
    using r by (simp_all add: smap_rel_def smap_abs_def)
  have load: "Versioned_Load (look h m k) (smap_shards m) = am_value k a" for k
    by (simp add: Versioned_Load_def am_value_def am f split: option.split)
  show ?thesis
  proof (cases op)
    case (DoSetup n mi)
    show ?thesis
    proof (cases "sm_shards m = None")
      case True
      then show ?thesis using DoSetup r init_None[of n mi m] init_facts[of n mi m] init_heap[of n mi m]
        by (cases "smap_init n mi m") (auto simp: smap_Setup_def smap_rel_def smap_abs_def shs_def look_def fun_eq_iff)
    next
      case False
      then show ?thesis using DoSetup r by (auto simp: smap_Setup_def smap_rel_def)
    qed
  next
    case (DoSet k v)
    then show ?thesis using Set_facts[OF r, of k v] by (cases "smap_Set h k v m") simp
  next
    case (DoStore k v)
    then show ?thesis using Set_facts[OF r, of k v] by (cases "smap_Set h k v m") (simp add: smap_Store_def)
  next
    case (DoDelete k)
    then show ?thesis using delete_facts[OF w, of k] r by (simp add: smap_rel_def am_write_def)
  next
    case (DoLoad k)
    then show ?thesis using sr by (simp add: smap_Load_def sh_load_def Let_def lk load am)
  next
    case (DoCheck k)
    then show ?thesis using sr by (simp add: smap_Check_def Let_def lk am)
  next
    case (DoGet k)
    then show ?thesis using sr by (simp add: smap_Get_def Let_def lk load)
  next
    case (DoFetch k)
    then show ?thesis using sr
      by (cases "look h m k") (simp_all add: smap_Fetch_def sh_fetch_def Let_def lk am am_value_def f)
  next
    case DoVersion
    then show ?thesis using r by (simp add: smap_Version_def am)
  qed
qed

lemma run_refines: "smap_rel h m a \<Longrightarrow> rel_option (rel_prod (=) (smap_rel h)) (run_ops (shard_do h) ops m) (run_ops amap_do ops a)"
proof (induction ops arbitrary: m a)
  case (Cons op ops)
  show ?case using do_refines[OF Cons.prems, of op]
  proof (cases rule: option.rel_cases)
    case (Some x y)
    obtain r m1 a1 where xy: "x = (r, m1)" "y = (r, a1)" "smap_rel h m1 a1" using Some(3) by (cases x; cases y) simp
    show ?thesis using Cons.IH[OF xy(3)] by (cases rule: option.rel_cases) (auto simp: Some xy)
  qed simp
qed simp

subsection \<open>Iterators\<close>

lemma distinct_concat_upt:
  assumes "\<And>i. i < n \<Longrightarrow> distinct (f i)" "\<And>i j x. i < n \<Longrightarrow> j < n \<Longrightarrow> x \<in> set (f i) \<Longrightarrow> x \<in> set (f j) \<Longrightarrow> i = j"
  shows "distinct (concat (map f [0..<n]))"
  using assms
proof (induction n)
  case (Suc n)
  have "distinct (concat (map f [0..<n]))" by (rule Suc.IH) (use Suc.prems in \<open>auto simp: less_SucI\<close>)
  moreover have "set (f n) \<inter> (\<Union>i \<in> {0..<n}. set (f i)) = {}"
  proof (rule ccontr)
    assume "set (f n) \<inter> (\<Union>i \<in> {0..<n}. set (f i)) \<noteq> {}"
    then obtain x i where "x \<in> set (f n)" "x \<in> set (f i)" "i < n" by auto
    then show False using Suc.prems(2)[of n i x] by simp
  qed
  ultimately show ?case using Suc.prems(1)[of n] by auto
qed simp

lemma map_shards: "map f xs = map (\<lambda>i. f (xs ! i)) [0..<length xs]"
  by (rule nth_equalityI) simp_all

lemma iterator_facts:
  fixes m :: "('k, 'v::zero) smap"
  assumes r: "smap_rel h m a" and order: "\<And>S. finite S \<Longrightarrow> distinct (order S) \<and> set (order S) = S"
  shows "distinct (smap_Keys order m)" "set (smap_Keys order m) = dom (am_map a)"
    "smap_Iterator h order m = map (\<lambda>k. (k, am_value k a)) (smap_Keys order m)"
    "smap_Values order m = map (\<lambda>k. am_value k a) (smap_Keys order m)"
proof -
  define m0 where "m0 = smap_shards m"
  have w: "shards_wf h m" using r by (simp add: smap_rel_def)
  note f = shards_facts[OF w, folded m0_def]
  note lk = lookup_shards[OF w, folded m0_def]
  have am: "am_map a k = map_option (sm_heap m) (look h m k)" for k using r by (simp add: smap_rel_def smap_abs_def)
  let ?f = "\<lambda>i. order (Mapping.keys (sh_data (shs m0 ! i)))"
  have ks: "Mapping.keys (sh_data (shs m0 ! i)) = dom (sd m0 i)" for i by (auto simp: sd_def keys_dom_lookup)
  have K: "smap_Keys order m = concat (map ?f [0..<length (shs m0)])" by (simp add: smap_Keys_def m0_def[symmetric] map_shards[of _ "shs m0"])
  have fi: "distinct (?f i)" "set (?f i) = dom (sd m0 i)" if "i < length (shs m0)" for i
    using order[OF shards_wfD(3)[OF f(1,2) that]] by (simp_all add: ks)
  have own: "i = shardID h k m0" if "i < length (shs m0)" "k \<in> dom (sd m0 i)" for i k
    using shards_wfD(4)[OF f(1,2) that(1), of k] that(2) by auto
  show "distinct (smap_Keys order m)" unfolding K
  proof (rule distinct_concat_upt)
    show "i = j" if "i < length (shs m0)" "j < length (shs m0)" "k \<in> set (?f i)" "k \<in> set (?f j)" for i j k
      using own[of i k] own[of j k] that fi(2)[OF that(1)] fi(2)[OF that(2)] by simp
  qed (rule fi(1))
  have at: "sd m0 (shardID h k m0) k = look h m k" for k using lk by (simp add: sd_def)
  show S: "set (smap_Keys order m) = dom (am_map a)"
  proof (intro set_eqI iffI)
    fix k assume "k \<in> set (smap_Keys order m)"
    then obtain i where i: "i < length (shs m0)" "k \<in> set (?f i)" by (auto simp: K)
    then have i: "i < length (shs m0)" "k \<in> dom (sd m0 i)" using fi(2) by blast+
    then have "k \<in> dom (sd m0 (shardID h k m0))" using own[OF i] by simp
    then show "k \<in> dom (am_map a)" by (simp add: am domIff at del: not_None_eq)
  next
    fix k assume "k \<in> dom (am_map a)"
    then have "k \<in> dom (sd m0 (shardID h k m0))" using at[of k] by (auto simp: am)
    then have "k \<in> set (?f (shardID h k m0))" using fi(2)[OF wf_shardID[OF f(1,2)]] by simp
    then show "k \<in> set (smap_Keys order m)" using wf_shardID[OF f(1,2), of k] by (auto simp: K)
  qed
  have it: "mi_Exists (fst (smap_Fetch h k m))" "mi_Key (fst (smap_Fetch h k m)) = k" "mi_Value (fst (smap_Fetch h k m)) = am_value k a" if "k \<in> dom (am_map a)" for k
    using that f(6) by (auto simp: smap_Fetch_def sh_fetch_def Let_def m0_def[symmetric] lk am am_value_def)
  have "filter mi_Exists (map (\<lambda>k. fst (smap_Fetch h k m)) (smap_Keys order m)) = map (\<lambda>k. fst (smap_Fetch h k m)) (smap_Keys order m)"
    using it(1) S by (intro filter_True) auto
  then show "smap_Iterator h order m = map (\<lambda>k. (k, am_value k a)) (smap_Keys order m)"
    using it(2,3) S by (simp add: smap_Iterator_def smap_Items_def)
  have v: "Versioned_Load (sd m0 i k) m0 = am_value k a" if "i < length (shs m0)" "k \<in> dom (sd m0 i)" for i k
  proof -
    note ik = that
    obtain p where p: "sd m0 i k = Some p" using ik(2) by blast
    then have "look h m k = Some p" using own[OF ik] at[of k] by simp
    then show ?thesis by (simp add: Versioned_Load_def am_value_def am p f(6))
  qed
  have "smap_Values order m = concat (map (\<lambda>i. map (\<lambda>k. Versioned_Load (sd m0 i k) m0) (?f i)) [0..<length (shs m0)])"
    by (simp add: smap_Values_def m0_def[symmetric] Let_def map_shards[of _ "shs m0"] sd_def)
  also have "\<dots> = concat (map (\<lambda>i. map (\<lambda>k. am_value k a) (?f i)) [0..<length (shs m0)])"
    using v fi(2) by (intro arg_cong[of _ _ concat]) simp
  also have "\<dots> = map (\<lambda>k. am_value k a) (smap_Keys order m)" by (simp add: K map_concat comp_def)
  finally show "smap_Values order m = map (\<lambda>k. am_value k a) (smap_Keys order m)" .
qed

lemma new_rel: "smap_rel h new_smap new_amap"
  by (simp add: smap_rel_def new_smap_def new_amap_def shards_wf_def shs_def smap_abs_def look_def fun_eq_iff)

text \<open>
  C7: Whatever the hash function and the number and kind of the shards, every run of operations on a fresh sharded map
  gives what the run on a plain map with versions gives: each key's value and its number of writes since it was
  added, and the number of all writes as the version of the map (modulo 2 to the 64).  Then the clocks of the shards add up to that version, no key is
  yielded twice, the keys are those of the plain map, and \<open>Iterator\<close> and \<open>Values\<close> yield the values that belong to them.  An unknown
  kind of map panics, in the first \<open>Setup\<close> only.
\<close>

theorem sharded_map_refines:
  fixes h :: "'k \<Rightarrow> 64 word" and ops :: "('k, 'v::zero) shard_op list"
  assumes "\<And>S. finite S \<Longrightarrow> distinct (order S) \<and> set (order S) = S"
  shows "rel_option (rel_prod (=) (\<lambda>m a.
             smap_Version m = am_clock a \<and> hd (smap_Clocks m) = am_clock a \<and> sum_list (tl (smap_Clocks m)) = am_clock a
           \<and> distinct (smap_Keys order m) \<and> set (smap_Keys order m) = dom (am_map a)
           \<and> smap_Iterator h order m = map (\<lambda>k. (k, am_value k a)) (smap_Keys order m)
           \<and> smap_Values order m = map (\<lambda>k. am_value k a) (smap_Keys order m)))
         (run_ops (shard_do h) ops new_smap) (run_ops amap_do ops new_amap)"
proof (rule option.rel_mono_strong[OF run_refines[OF new_rel]], erule prod.rel_mono_strong)
  fix m and a :: "('k, 'v) amap"
  assume r: "smap_rel h m a"
  then have w: "shards_wf h m" by (simp add: smap_rel_def)
  have "smap_Version m = am_clock a" "hd (smap_Clocks m) = am_clock a" "sum_list (tl (smap_Clocks m)) = am_clock a"
    using r shards_facts(4,5)[OF w] by (simp_all add: smap_rel_def smap_Version_def smap_Clocks_def Let_def)
  then show "smap_Version m = am_clock a \<and> hd (smap_Clocks m) = am_clock a \<and> sum_list (tl (smap_Clocks m)) = am_clock a
           \<and> distinct (smap_Keys order m) \<and> set (smap_Keys order m) = dom (am_map a)
           \<and> smap_Iterator h order m = map (\<lambda>k. (k, am_value k a)) (smap_Keys order m)
           \<and> smap_Values order m = map (\<lambda>k. am_value k a) (smap_Keys order m)"
    using iterator_facts[OF r assms] by blast
qed

text \<open>Two shards, three keys, two of them in the same shard; one is deleted again.\<close>

definition shard_ops :: "(nat, int) shard_op list" where
  "shard_ops = [DoSetup 2 3, DoSet 1 10, DoSet 3 30, DoSet 1 11, DoStore 2 20, DoDelete 3, DoLoad 3, DoFetch 1]"

theorem sharded_map_refines_witness:
  "\<exists>m. run_ops (shard_do word_of_nat) shard_ops new_smap = Some ([RUnit, RBool False, RBool False, RBool True, RUnit, RUnit, RLoad 0 False, RItem True 5 2 11], m)
     \<and> set (smap_Keys sorted_list_of_set m) = {1, 2} \<and> smap_Version m = 5"
proof -
  have a: "run_ops amap_do shard_ops new_amap = Some ([RUnit, RBool False, RBool False, RBool True, RUnit, RUnit, RLoad 0 False, RItem True 5 2 11],
      \<lparr>am_map = [1 \<mapsto> \<lparr>vv_value = 11, vv_clock = 2\<rparr>, 2 \<mapsto> \<lparr>vv_value = 20, vv_clock = 1\<rparr>], am_clock = 5, am_fixed = True\<rparr>)"
    by (simp add: shard_ops_def new_amap_def am_put_def am_write_def am_value_def fun_upd_twist)
  have o: "distinct (sorted_list_of_set S) \<and> set (sorted_list_of_set S) = S" if "finite S" for S :: "nat set" using that by simp
  show ?thesis
    using sharded_map_refines[where order = sorted_list_of_set and h = word_of_nat and ops = shard_ops, OF o]
    by (auto simp: a option_rel_Some2 rel_prod_sel)
qed

subsection \<open>What Fetch can see of a Store in progress\<close>

text \<open>The four numbers never get ahead of one another, and the value is at most one behind.\<close>

definition writer_ok :: "fetch_state \<Rightarrow> bool" where
  "writer_ok s \<longleftrightarrow>
     (case ft_writer s of
        WIdle \<Rightarrow> ft_value s = ft_global s \<and> ft_clock s = ft_global s \<and> ft_shard s = ft_global s
      | WGlobal \<Rightarrow> ft_value s + 1 = ft_global s \<and> ft_clock s + 1 = ft_global s \<and> ft_shard s + 1 = ft_global s
      | WShard \<Rightarrow> ft_value s + 1 = ft_global s \<and> ft_clock s + 1 = ft_global s \<and> ft_shard s = ft_global s
      | WLoad \<Rightarrow> ft_value s + 1 = ft_global s \<and> ft_clock s + 1 = ft_global s \<and> ft_shard s = ft_global s
      | WVersion \<Rightarrow> ft_value s + 1 = ft_global s \<and> ft_clock s = ft_global s \<and> ft_shard s = ft_global s
      | WValue \<Rightarrow> ft_value s = ft_global s \<and> ft_clock s = ft_global s \<and> ft_shard s = ft_global s)"

definition reader_ok :: "fetch_state \<Rightarrow> bool" where
  "reader_ok s \<longleftrightarrow>
     (case ft_reader s of
        RGlobal \<Rightarrow> True
      | RShard g \<Rightarrow> g \<le> ft_global s
      | RPointer g sv \<Rightarrow> g \<le> ft_global s \<and> sv \<le> ft_global s
      | RVersion g sv \<Rightarrow> g \<le> ft_global s \<and> sv \<le> ft_global s
      | RShardAgain g sv ov \<Rightarrow> g \<le> ft_global s \<and> sv \<le> ft_global s \<and> ov \<le> ft_clock s
      | FVersion g sv ov \<Rightarrow> g \<le> ft_global s \<and> sv \<le> ft_global s \<and> ov \<le> sv
      | FValue g sv ov ver \<Rightarrow> g \<le> ft_global s \<and> sv \<le> ft_global s \<and> ov \<le> sv \<and> ver \<le> ft_clock s
      | FAgain g sv ov ver val \<Rightarrow> g \<le> val + 1 \<and> sv \<le> ft_global s \<and> ov \<le> sv \<and> g \<le> ft_global s \<and> val \<le> ft_value s
      | RCompare g sv ov ver val \<Rightarrow> g \<le> val + 1 \<and> sv \<le> ft_global s \<and> ov \<le> sv \<and> val \<le> ver \<and> g \<le> ft_global s
      | RGlobalAgain g sv ver val \<Rightarrow> g \<le> val + 1 \<and> sv \<le> ft_global s \<and> ver \<le> sv \<and> val \<le> ver
      | RDone g sv ver val \<Rightarrow> g \<le> val + 1 \<and> sv \<le> g \<and> ver \<le> sv \<and> val \<le> ver)"

lemma writer_bounds:
  assumes "writer_ok s"
  shows "ft_value s \<le> ft_clock s" "ft_clock s \<le> ft_shard s" "ft_shard s \<le> ft_global s" "ft_global s \<le> ft_value s + 1"
  using assms by (cases "ft_writer s"; simp add: writer_ok_def)+

lemma writer_step_ok: "writer_ok s \<Longrightarrow> writer_ok (writer_step s)"
  by (cases "ft_writer s") (simp_all add: writer_ok_def)

lemma writer_grows:
  "ft_global s \<le> ft_global (writer_step s)" "ft_clock s \<le> ft_clock (writer_step s)" "ft_value s \<le> ft_value (writer_step s)" "ft_reader (writer_step s) = ft_reader s"
  by (cases "ft_writer s"; simp)+

lemma reader_ok_grows:
  "reader_ok s \<Longrightarrow> ft_global s \<le> ft_global s1 \<Longrightarrow> ft_clock s \<le> ft_clock s1 \<Longrightarrow> ft_value s \<le> ft_value s1 \<Longrightarrow> ft_reader s1 = ft_reader s \<Longrightarrow> reader_ok s1"
  by (cases "ft_reader s") (auto simp: reader_ok_def)

lemma reader_step_ok: "writer_ok s \<Longrightarrow> reader_ok s \<Longrightarrow> reader_ok (reader_step s)"
  using writer_bounds[of s] by (cases "ft_reader s") (auto simp: reader_ok_def)

lemma reader_fields:
  "ft_global (reader_step s) = ft_global s" "ft_shard (reader_step s) = ft_shard s" "ft_clock (reader_step s) = ft_clock s"
  "ft_value (reader_step s) = ft_value s" "ft_writer (reader_step s) = ft_writer s"
  by (cases "ft_reader s"; simp add: Let_def)+

lemma reader_keeps: "writer_ok (reader_step s) = writer_ok s"
  unfolding writer_ok_def reader_fields ..

lemma reach_fetch_ok: "fetch_reach s \<Longrightarrow> writer_ok s \<and> reader_ok s"
proof (induction rule: fetch_reach.induct)
  case fr_start
  show ?case by (simp add: fetch_start_def writer_ok_def reader_ok_def)
next
  case (fr_writer s)
  then show ?case using reader_ok_grows[OF _ writer_grows, of s] writer_step_ok[of s] by blast
next
  case (fr_reader s)
  then show ?case using reader_step_ok[of s] by (simp only: reader_keeps)
qed

text \<open>A reader that is left alone comes to its end.\<close>

lemma reader_from_start: "ft_reader s = RGlobal \<Longrightarrow> ft_reader ((reader_step ^^ 10) s) = RDone (ft_global s) (ft_shard s) (ft_clock s) (ft_value s)"
  by (simp add: eval_nat_numeral Let_def)

lemma fetch_reach_steps: "fetch_reach s \<Longrightarrow> fetch_reach ((writer_step ^^ n) s)" "fetch_reach s \<Longrightarrow> fetch_reach ((reader_step ^^ n) s)"
  by (induction n) (simp_all add: fr_writer fr_reader del: writer_step.simps reader_step.simps)

text \<open>The second store has counted its versions up and not stored its value: \<open>Fetch\<close> gives the first value as version 2.\<close>

lemma fetch_stale: "\<exists>s. fetch_reach s \<and> ft_reader s = RDone 2 2 2 1"
proof -
  let ?s = "(reader_step ^^ 10) ((writer_step ^^ 4) fetch_start)"
  have r: "fetch_reach ?s" by (rule fetch_reach_steps(2)[OF fetch_reach_steps(1)[OF fr_start]])
  have d: "ft_reader ?s = RDone 2 2 2 1"
    by (subst reader_from_start) (simp_all add: fetch_start_def eval_nat_numeral)
  show ?thesis using r d by blast
qed

text \<open>
  C8: Whatever a \<open>Store\<close> of the same key does meanwhile, the value, the version of the object, the version of the shard and the
  version of the map that \<open>Fetch\<close> returns are, in this order, never ahead of one another and at most one store apart.  They
  need not be equal: some run of the two returns the first value as version 2.
\<close>

theorem Fetch_at_most_one_behind:
  "fetch_reach s \<Longrightarrow> ft_reader s = RDone g sv ver val \<Longrightarrow>
   (val \<le> ver \<and> ver \<le> sv \<and> sv \<le> g \<and> g \<le> val + 1) \<and> (\<exists>s1. fetch_reach s1 \<and> ft_reader s1 = RDone 2 2 2 1)"
  using reach_fetch_ok[of s] fetch_stale by (simp add: reader_ok_def)

theorem Fetch_at_most_one_behind_witness:
  "\<exists>s. fetch_reach s \<and> ft_reader s = RDone 2 2 2 1 \<and> (1 :: nat) \<le> 2 \<and> (2 :: nat) \<le> 1 + 1"
  using fetch_stale Fetch_at_most_one_behind[of _ 2 2 2 1] by blast

end
