(* ===== verification/Spec2Isabelle.thy ===== *)
theory Spec2Isabelle
  imports IrtProps PubQueue PubDeque DtListProps DtHeap DtRing DtStack HdrHistProps DtOrderedProps ErcProps StrutText StrutProps StrutJson MdProps FnxProps SrvProps ConflSources ConflValid BrokerStop BrokerLeak FnxSync AdtShardProps
begin

text \<open>
  A verification development for the Go library \<open>github.com/tychoish/fun\<close>.

  \<^bold>\<open>The program.\<close>  The library is a set of packages without a main program.  Its own logic is in
  \<open>src/irt\<close> (iterators: sources, combinators, consumers), \<open>src/pubsub\<close> (a queue and a deque for concurrent use and a
  broker that distributes what it takes from one of them), \<open>src/dt\<close> (containers) with \<open>src/dt/hdrhist\<close> (histograms),
  \<open>src/adt/shard\<close> (a sharded map), \<open>src/erc\<close> and \<open>src/ers\<close> (collecting errors), \<open>src/fnx\<close> (functions that take a context and
  return an error, and their wrappers), \<open>src/srv\<close> (services), \<open>src/confl\<close> (binding flags, environment variables and
  subcommands to the fields of a struct), \<open>src/strut\<close> (mutable strings) and \<open>src/mdwn\<close> (markdown).  The containers and
  collectors hand out their contents as sequences of \<open>irt\<close>; the heap and the ordered containers are clients of the list;
  markdown is written into mutable strings; a service runs workers and operations of \<open>fnx\<close> and keeps their errors in a
  collector.

  \<^bold>\<open>Theories.\<close>  A component has a theory with its state and operations, and where it is large further ones with
  the lemmas (Laws, Inv) and the properties (Props).
  \<^item> \<open>Prelude\<close>: operations on a state with an option result, integers of 64 bits, panics, the
    collections of facts the other theories fill.
  \<^item> \<open>IrtSeq\<close>, \<open>IrtCombine\<close>, \<open>IrtConsume\<close>: the functions of \<open>src/irt/irt.go\<close>, \<open>internal.go\<close> and
    \<open>kv.go\<close>, as push sequences.  \<open>IrtLaws\<close>, \<open>IrtConsumeLaws\<close>: what each yields or returns, on lists.
    \<open>IrtProps\<close>: the properties.
  \<^item> \<open>Monitor\<close>: goroutines that share an object under a mutex with condition variables, as a step
    relation; the contract under which no wakeup is lost.
  \<^item> \<open>Tracker\<close>: the capacity trackers of \<open>src/pubsub/tracker.go\<close> and the bounds they keep.  \<open>PubQueue\<close>, \<open>PubDeque\<close>: \<open>queue.go\<close>,
    \<open>deque.go\<close> and \<open>deque_element.go\<close>, on heaps of entries and elements; invariants, refinement of an
    abstract queue and an abstract deque, and the contract of \<open>Monitor\<close> for both.
  \<^item> \<open>PubBroker\<close>: \<open>src/pubsub/broker.go\<close>, a step for every point at which another goroutine can come in: the control loop
    over the subscribers, the workers and their sends, and the calls of clients.  The queue or deque behind it is a
    list that can be closed, with a parameter \<open>room\<close> that says when it accepts.  \<open>BrokerInv\<close>: where a message can be, each
    copy at most once.  \<open>BrokerProps\<close>: what a subscriber receives, and in which order.  \<open>BrokerStop\<close>: a rank that every step of a
    stopped broker lowers.  \<open>BrokerLeak\<close>: a \<open>Subscribe\<close> that gives up.
  \<^item> \<open>DLL\<close>: circular doubly linked lists.  \<open>Comparators\<close>: comparison functions, a stable sort, the merge.
  \<^item> \<open>DtList\<close>: \<open>src/dt/list.go\<close> on a store of elements, lists and counters.  \<open>DtListLaws\<close>: every
    operation on one list, and that it leaves other lists alone.  \<open>DtListSort\<close>: both sorts.
    \<open>DtListProps\<close>: the properties.
  \<^item> \<open>DtHeap\<close>: \<open>src/dt/heap.go\<close>, a client of the list, and \<open>src/dt/binheap.go\<close>, with the contract of a
    priority queue.
  \<^item> \<open>DtRing\<close>: \<open>src/dt/ring.go\<close>, with machine integers.  \<open>DtStack\<close>: \<open>src/dt/stack.go\<close> on a store of items and
    stacks.  \<open>DtOrdered\<close>: \<open>src/dt/set.go\<close>, \<open>ordered_set.go\<close> and \<open>ordered_map.go\<close>, a hash that points into a list;
    \<open>DtOrderedProps\<close>: refinement of sets and association lists.
  \<^item> \<open>HdrHist\<close>: \<open>src/dt/hdrhist/hdr.go\<close> and \<open>window.go\<close>, on 64-bit words with the shifts of the code.
    \<open>HdrHistLaws\<close>: index arithmetic, the invariant, what iteration sees.  \<open>HdrHistProps\<close>: the properties.
  \<^item> \<open>AdtShard\<close>: \<open>src/adt/shard\<close>, the operations on a store of versioned objects, and \<open>Fetch\<close> against a concurrent
    \<open>Store\<close>.  The hash and the order of a Go map are parameters.  \<open>AdtShardProps\<close>: refinement of a map with versions.
  \<^item> \<open>ErcList\<close>: the error list, the collector, the filters and the iterator helpers of \<open>src/erc\<close> and what they
    use of \<open>src/ers\<close>, with \<open>errors.Is\<close>.  \<open>ErcProps\<close>: the ring of elements, what a collector holds and finds.
  \<^item> \<open>FnxCore\<close>, \<open>FnxFuns\<close>: the workers, operations, futures and handlers of \<open>src/fnx\<close> as actions on the state of the world
    that return or panic; the error of a context and the clock are parameters.  \<open>FnxProps\<close>: what the wrappers return.
    \<open>FnxSync\<close>: the wait group of \<open>src/fnx/sync.go\<close> as steps.
  \<^item> \<open>SrvService\<close>: \<open>src/srv/service.go\<close>, \<open>Start\<close> and the goroutines it starts as steps; what Run, Shutdown, Cleanup and the
    error handler do is a parameter.  \<open>SrvProps\<close>: the order of the functions, which errors the handler gets,
    and that a service ends.
  \<^item> \<open>GoBytes\<close>: bytes, UTF-8 and the functions of package \<open>bytes\<close> the code uses.  \<open>StrutMut\<close>: \<open>src/strut/mut.go\<close> on an array
    with a length and a capacity; how \<open>append\<close> grows an array is a parameter.  \<open>StrutText\<close>: the writers and joiners.  \<open>StrutLaws\<close>,
    \<open>StrutProps\<close>, \<open>StrutJson\<close>: their properties, replacement in place, JSON texts.
  \<^item> \<open>MdBuilder\<close>, \<open>MdTable\<close>: \<open>src/mdwn\<close>, with the format of fmt and what the pool hands out as parameters.
    \<open>MdLaws\<close>, \<open>MdProps\<close>: widths in runes, the shape of a table.
  \<^item> \<open>ConflText\<close> (texts of struct tags, until flags), \<open>ConflFlags\<close> (package flag and the values of flags), \<open>ConflRegister\<close>
    (\<open>register.go\<close>, \<open>enum.go\<close>), \<open>ConflBind\<close> and \<open>ConflParse\<close> (\<open>parse.go\<close>, \<open>helpers.go\<close>, \<open>conflagure.go\<close>), \<open>ConflCommand\<close> (\<open>validate.go\<close>,
    \<open>subcommand.go\<close>): a struct is a tree of fields with their tags, its values are a map from paths; the environment and
    the commanders of subcommands are parameters, and texts are ASCII.  \<open>ConflWalk\<close>, \<open>ConflEnum\<close>, \<open>ConflProps\<close>, \<open>ConflSources\<close>, \<open>ConflValid\<close>: the walks as one
    list of leaves, enum tables, until flags, where a field gets its value from (with the rule for the environment stated
    apart from the code), and that what Validate accepts can be bound, but for unknown types and the names of negated bools.

  \<^bold>\<open>Bounds and fuel.\<close>  Loops that the code does not bound (generators, the searches along links, retries) are
  partial functions into an option, where \<open>None\<close> is a loop that does not end; the properties show that
  the searches and sorts end.  There is no fuel.  Where \<open>int\<close> or \<open>int64\<close> values can wrap around (ring, histogram, enums,
  mutable strings) the models compute on the range of the machine type; the properties state the ranges they need.
  Goroutines are steps on shared state, under any interleaving.

  \<^bold>\<open>Not modelled.\<close>  What is a thin layer over the runtime or over packages that are not under \<open>src\<close>: streams over channels
  (\<open>src/pubsub/stream.go\<close>) and worker pools (\<open>src/wpa\<close>), atomics, locks and pools (\<open>src/adt\<close>), services around processes and
  HTTP servers (\<open>src/srv\<close>, \<open>src/exc\<close>), JSON and readers (\<open>src/irt/marshal.go\<close>), printing with fmt and the copies of the mutable
  string over builders and buffers (\<open>src/strut\<close>), the names for built-in operations (\<open>src/stw\<close>), function types without context
  (\<open>src/fn\<close>, \<open>src/opt\<close>), and helpers for tests (\<open>src/assert\<close>, \<open>src/ensure\<close>, \<open>src/testt\<close>).  Of the modelled packages the JSON
  methods, formatted texts, \<open>errors.As\<close>, reflection, named slice types as enums and floating-point statistics are left out.
\<close>

end
